(* ===== verification/Prelude.thy ===== *)
theory Prelude
  imports Main "HOL-Library.Word" "HOL-Library.List_Lexorder" "HOL-Library.Char_ord"
    "HOL-Library.Product_Lexorder"
begin

text \<open>
  Shared vocabulary of the development.

  \<^item> Rust byte strings. HOL's \<open>char\<close> is an 8-bit byte, so \<open>Vec<u8>\<close>, \<open>[u8; N]\<close>, \<open>str\<close>
    and \<open>String\<close> (UTF-8 bytes) are all char lists, and the lexicographic order of
    HOL-Library is Rust's \<open>Ord\<close> on them.
  \<^item> \<open>Result<T, E>\<close> is the sum \<open>'e + 'a\<close>; \<open>try_then\<close> is the \<open>?\<close> operator and \<open>collect_result\<close>
    is \<open>collect::<Result<Vec<_>, _>>()\<close>.
  \<^item> \<open>BTreeMap\<close> is an association list kept strictly sorted by key (\<open>bm_insert\<close>,
    \<open>bm_remove\<close>, lookup by \<open>map_of\<close>), so iterating it is iterating the list. The laws its
    clients use are the locale \<open>ordered_map\<close>, interpreted here on these operations.
  \<^item> \<open>BTreeSet\<close> and \<open>HashSet\<close> are HOL sets; \<open>HashMap\<close> is an association list with distinct
    keys, whose order stands for the unspecified iteration order.
\<close>

section \<open>Collections of simplification rules\<close>

named_theorems result_simps \<open>rules for the Result monad\<close>
named_theorems map_simps \<open>rules for sorted association maps\<close>

section \<open>Byte strings\<close>

type_synonym bytes = string
type_synonym u64 = "64 word"
type_synonym u32 = "32 word"
type_synonym u16 = "16 word"

text \<open>A UTF-8 continuation byte is \<open>0b10xxxxxx\<close>; every other byte of a valid string starts one
  \<open>char\<close>, so this counts \<open>s.chars()\<close>.\<close>

definition chars_count :: "string \<Rightarrow> nat" where
  "chars_count s = length (filter (\<lambda>c. \<not> (128 \<le> (of_char c :: nat) \<and> (of_char c :: nat) < 192)) s)"

lemma chars_count_le_length: "chars_count s \<le> length s"
  by (simp add: chars_count_def)

section \<open>Results\<close>

definition try_then :: "'e + 'a \<Rightarrow> ('a \<Rightarrow> 'e + 'b) \<Rightarrow> 'e + 'b" where
  "try_then r f = (case r of Inl e \<Rightarrow> Inl e | Inr a \<Rightarrow> f a)"

lemma try_then_simps [simp]:
  "try_then (Inl e) f = Inl e"
  "try_then (Inr a) f = f a"
  by (simp_all add: try_then_def)

lemma try_then_eq_Inr [result_simps]:
  "try_then r f = Inr b \<longleftrightarrow> (\<exists>a. r = Inr a \<and> f a = Inr b)"
  by (cases r) auto

lemma try_then_eq_Inl [result_simps]:
  "try_then r f = Inl e \<longleftrightarrow> r = Inl e \<or> (\<exists>a. r = Inr a \<and> f a = Inl e)"
  by (cases r) auto

lemma try_then_cong [fundef_cong]:
  "r = r' \<Longrightarrow> (\<And>a. r' = Inr a \<Longrightarrow> f a = g a) \<Longrightarrow> try_then r f = try_then r' g"
  by (cases r') auto

text \<open>A guard clause: \<open>if b { return Err(e) }\<close>.\<close>

definition refuse_if :: "bool \<Rightarrow> 'e \<Rightarrow> 'e + unit" where
  "refuse_if b e = (if b then Inl e else Inr ())"

lemma refuse_if_eq_Inr [result_simps]: "refuse_if b e = Inr u \<longleftrightarrow> \<not> b"
  by (simp add: refuse_if_def)

lemma refuse_if_eq_Inl [result_simps]: "refuse_if b e = Inl e' \<longleftrightarrow> b \<and> e' = e"
  by (auto simp: refuse_if_def)

lemma refuse_if_simps [simp]:
  "refuse_if True e = Inl e"
  "refuse_if False e = Inr ()"
  by (simp_all add: refuse_if_def)

fun collect_result :: "('a \<Rightarrow> 'e + 'b) \<Rightarrow> 'a list \<Rightarrow> 'e + 'b list" where
  "collect_result f [] = Inr []"
| "collect_result f (x # xs) =
     try_then (f x) (\<lambda>y. try_then (collect_result f xs) (\<lambda>ys. Inr (y # ys)))"

lemma collect_result_Inr:
  "collect_result f xs = Inr ys \<longleftrightarrow> list_all2 (\<lambda>x y. f x = Inr y) xs ys"
  by (induction xs arbitrary: ys) (auto simp: result_simps list_all2_Cons1)

section \<open>Sorted association maps\<close>

type_synonym ('k, 'v) btree_map = "('k \<times> 'v) list"

fun bm_insert :: "'k::linorder \<Rightarrow> 'v \<Rightarrow> ('k, 'v) btree_map \<Rightarrow> ('k, 'v) btree_map" where
  "bm_insert k v [] = [(k, v)]"
| "bm_insert k v ((k', v') # m) =
     (if k < k' then (k, v) # (k', v') # m
      else if k = k' then (k, v) # m
      else (k', v') # bm_insert k v m)"

definition bm_remove :: "'k \<Rightarrow> ('k, 'v) btree_map \<Rightarrow> ('k, 'v) btree_map" where
  "bm_remove k m = filter (\<lambda>(k', _). k' \<noteq> k) m"

definition bm_contains :: "('k, 'v) btree_map \<Rightarrow> 'k \<Rightarrow> bool" where
  "bm_contains m k \<longleftrightarrow> map_of m k \<noteq> None"

definition bm_keys :: "('k, 'v) btree_map \<Rightarrow> 'k set" where
  "bm_keys m = fst ` set m"

definition bm_or_insert :: "'k::linorder \<Rightarrow> 'v \<Rightarrow> ('k, 'v) btree_map \<Rightarrow> ('k, 'v) btree_map" where
  \<comment> \<open>\<open>m.entry(k).or_insert(v)\<close>\<close>
  "bm_or_insert k v m = (if bm_contains m k then m else bm_insert k v m)"

definition bm_wf :: "('k::linorder, 'v) btree_map \<Rightarrow> bool" where
  "bm_wf m \<longleftrightarrow> sorted_wrt (<) (map fst m)"

lemma bm_contains_iff: "bm_contains m k \<longleftrightarrow> k \<in> bm_keys m"
  by (simp add: bm_contains_def bm_keys_def map_of_eq_None_iff)

lemma fst_set_bm_insert: "fst ` set (bm_insert k v m) = insert k (fst ` set m)"
  by (induction k v m rule: bm_insert.induct) auto

lemma bm_get_insert: "map_of (bm_insert k v m) k' = (if k' = k then Some v else map_of m k')"
  by (induction k v m rule: bm_insert.induct) auto

lemma bm_get_remove: "map_of (bm_remove k m) k' = (if k' = k then None else map_of m k')"
  by (induction m) (auto simp: bm_remove_def)

lemma bm_wf_insert: "bm_wf m \<Longrightarrow> bm_wf (bm_insert k v m)"
proof (induction k v m rule: bm_insert.induct)
  case (2 k v k' v' m)
  have "\<forall>x \<in> fst ` set (bm_insert k v m). k' < x" if "\<not> k < k'" "k \<noteq> k'"
    using 2 that by (auto simp: fst_set_bm_insert bm_wf_def)
  with 2 show ?case by (auto simp: bm_wf_def)
qed (simp add: bm_wf_def)

lemma bm_wf_filter: "bm_wf m \<Longrightarrow> bm_wf (filter P m)"
  by (auto simp: bm_wf_def sorted_wrt_map intro: sorted_wrt_filter)

lemma bm_wf_remove: "bm_wf m \<Longrightarrow> bm_wf (bm_remove k m)"
  by (simp add: bm_remove_def bm_wf_filter)

lemma bm_wf_Nil [simp]: "bm_wf []"
  by (simp add: bm_wf_def)

lemma bm_wf_distinct: "bm_wf m \<Longrightarrow> distinct (map fst m)"
  by (simp add: bm_wf_def strict_sorted_iff)

lemma bm_get_iff: "bm_wf m \<Longrightarrow> map_of m k = Some v \<longleftrightarrow> (k, v) \<in> set m"
  by (meson bm_wf_distinct map_of_eq_Some_iff)

lemma bm_keys_simps [map_simps]:
  "bm_keys [] = {}"
  "bm_keys (bm_insert k v m) = insert k (bm_keys m)"
  "bm_keys (bm_remove k m) = bm_keys m - {k}"
  by (auto simp: bm_keys_def fst_set_bm_insert bm_remove_def image_iff)

lemma bm_keys_get: "k \<in> bm_keys m \<longleftrightarrow> (\<exists>v. map_of m k = Some v)"
  by (metis bm_contains_def bm_contains_iff not_Some_eq)

lemma set_bm_insert_subset: "set (bm_insert k v m) \<subseteq> insert (k, v) (set m)"
  by (induction k v m rule: bm_insert.induct) auto

text \<open>
  What a client of a map relies on: lookups after insertion, removal and bulk insertion.
\<close>

locale ordered_map =
  fixes empty :: "'m"
    and insert_at :: "'k \<Rightarrow> 'v \<Rightarrow> 'm \<Rightarrow> 'm"
    and remove_at :: "'k \<Rightarrow> 'm \<Rightarrow> 'm"
    and get :: "'m \<Rightarrow> 'k \<Rightarrow> 'v option"
    and wf :: "'m \<Rightarrow> bool"
  assumes wf_empty: "wf empty"
    and wf_insert: "wf m \<Longrightarrow> wf (insert_at k v m)"
    and wf_remove: "wf m \<Longrightarrow> wf (remove_at k m)"
    and get_empty: "get empty k = None"
    and get_insert: "get (insert_at k v m) k' = (if k' = k then Some v else get m k')"
    and get_remove: "get (remove_at k m) k' = (if k' = k then None else get m k')"
begin

lemma wf_fold_insert: "wf m \<Longrightarrow> wf (fold (\<lambda>x. insert_at (f x) (g x)) xs m)"
  by (induction xs arbitrary: m) (auto simp: wf_insert)

lemma wf_fold_remove: "wf m \<Longrightarrow> wf (fold remove_at xs m)"
  by (induction xs arbitrary: m) (auto simp: wf_remove)

lemma get_fold_remove:
  "get (fold remove_at ks m) k = (if k \<in> set ks then None else get m k)"
  by (induction ks arbitrary: m) (auto simp: get_remove)

lemma get_fold_insert_notin:
  "k \<notin> f ` set xs \<Longrightarrow> get (fold (\<lambda>x. insert_at (f x) (g x)) xs m) k = get m k"
  by (induction xs arbitrary: m) (auto simp: get_insert)

lemma get_fold_insert_const:
  "get (fold (\<lambda>x. insert_at x v) xs m) k = (if k \<in> set xs then Some v else get m k)"
  by (induction xs arbitrary: m) (auto simp: get_insert)

end

interpretation bm: ordered_map "[]" bm_insert bm_remove map_of bm_wf
  by unfold_locales (auto simp: bm_wf_insert bm_wf_remove bm_get_insert bm_get_remove)

lemmas bm_gets [map_simps] = bm_get_insert bm_get_remove

lemma bm_ext:
  assumes "bm_wf m" "bm_wf m'" "map_of m = map_of m'"
  shows "m = m'"
proof -
  have "set m = set m'"
    using assms by (metis bm_wf_distinct map_of_inject_set)
  moreover have "sorted_wrt (\<lambda>a b. fst a < fst b) m" "sorted_wrt (\<lambda>a b. fst a < fst b) m'"
    using assms by (simp_all add: bm_wf_def sorted_wrt_map)
  ultimately show ?thesis
  proof (induction m arbitrary: m')
    case (Cons x xs)
    then obtain y ys where m': "m' = y # ys" by (cases m') auto
    have "x = y"
      using Cons.prems m' by (metis (no_types, lifting) less_asym' list.set_intros(1) set_ConsD sorted_wrt.simps(2))
    moreover have "x \<notin> set xs" "y \<notin> set ys" using Cons.prems m' by auto
    ultimately have "set xs = set ys" using Cons.prems m' by (auto simp: insert_ident)
    with Cons m' \<open>x = y\<close> show ?case by auto
  qed simp
qed

text \<open>A \<open>HashMap\<close>: inserting replaces in place or appends.\<close>

fun hm_insert :: "'k \<Rightarrow> 'v \<Rightarrow> ('k \<times> 'v) list \<Rightarrow> ('k \<times> 'v) list" where
  "hm_insert k v [] = [(k, v)]"
| "hm_insert k v ((k', v') # m) = (if k' = k then (k, v) # m else (k', v') # hm_insert k v m)"

lemma hm_get_insert [map_simps]:
  "map_of (hm_insert k v m) k' = (if k' = k then Some v else map_of m k')"
  by (induction k v m rule: hm_insert.induct) auto

lemma fst_set_hm_insert: "fst ` set (hm_insert k v m) = insert k (fst ` set m)"
  by (induction k v m rule: hm_insert.induct) auto

lemma hm_insert_distinct: "distinct (map fst m) \<Longrightarrow> distinct (map fst (hm_insert k v m))"
  by (induction k v m rule: hm_insert.induct) (auto simp: fst_set_hm_insert)

lemma hm_insert_fresh: "k \<notin> fst ` set m \<Longrightarrow> hm_insert k v m = m @ [(k, v)]"
  by (induction k v m rule: hm_insert.induct) auto

section \<open>Lists\<close>

lemma filter_filter_comm: "filter P (filter Q xs) = filter Q (filter P xs)"
  by (induction xs) auto

lemma sorted_distinct_remdups_adj: "sorted xs \<Longrightarrow> distinct (remdups_adj xs)"
  by (induction xs rule: remdups_adj.induct) auto

lemma sorted_list_of_set_memb [simp]: "finite A \<Longrightarrow> x \<in> set (sorted_list_of_set A) \<longleftrightarrow> x \<in> A"
  by simp

end
