(* ===== verification/Register.thy ===== *)
theory Register
  imports Prelude "HOL-Library.Multiset"
begin

text \<open>
  The register primitive (\<^verbatim>\<open>crates/register/src/lib.rs\<close>): a slot names exactly one member in
  force and may carry an override that lapses by itself. Slots are merged by replicas without a
  clock; expiry is a reader's question. The locale \<open>ranked_choice\<close> states what a left-biased
  "later of two" operation promises; it is interpreted on choices and on overrides.
\<close>

section \<open>Data\<close>

definition MAX_MEMBER_CHARS :: nat where
  "MAX_MEMBER_CHARS = 128"

definition MAX_CHOOSER_CHARS :: nat where
  "MAX_CHOOSER_CHARS = 128"

datatype register_invalid =
    ChoiceMemberBad
  | ChoiceChooserBad
  | OverrideLapsesEarly

record choice =
  member :: string
  chosen_unix_ms :: u64
  chooser :: string

record slot_override =
  over_choice :: choice
  until_unix_ms :: u64

record slot =
  base :: "choice option"
  over :: "slot_override option"

record resolution =
  res_member :: "string option"
  next_boundary_unix_ms :: "u64 option"

section \<open>Operations\<close>

definition choice_validate :: "choice \<Rightarrow> register_invalid + unit" where
  "choice_validate c =
     (if member c = [] \<or> chars_count (member c) > MAX_MEMBER_CHARS then Inl ChoiceMemberBad
      else if chooser c = [] \<or> chars_count (chooser c) > MAX_CHOOSER_CHARS then Inl ChoiceChooserBad
      else Inr ())"

definition rank :: "choice \<Rightarrow> u64 \<times> string" where
  "rank c = (chosen_unix_ms c, chooser c)"

definition later_of :: "choice \<Rightarrow> choice \<Rightarrow> choice" where
  "later_of left right = (if rank right > rank left then right else left)"

definition override_validate :: "slot_override \<Rightarrow> register_invalid + unit" where
  "override_validate ov =
     try_then (choice_validate (over_choice ov)) (\<lambda>_.
       if until_unix_ms ov \<le> chosen_unix_ms (over_choice ov) then Inl OverrideLapsesEarly
       else Inr ())"

definition slot_validate :: "slot \<Rightarrow> register_invalid + unit" where
  "slot_validate s =
     try_then (case base s of None \<Rightarrow> Inr () | Some b \<Rightarrow> choice_validate b) (\<lambda>_.
       case over s of None \<Rightarrow> Inr () | Some ov \<Rightarrow> override_validate ov)"

definition resolve_at :: "slot \<Rightarrow> u64 \<Rightarrow> resolution" where
  "resolve_at s now =
     (let live = (case over s of None \<Rightarrow> None
                  | Some ov \<Rightarrow> if now < until_unix_ms ov then Some ov else None)
      in case live of
           Some ov \<Rightarrow> \<lparr>res_member = Some (member (over_choice ov)),
                       next_boundary_unix_ms = Some (until_unix_ms ov)\<rparr>
         | None \<Rightarrow> \<lparr>res_member = map_option member (base s), next_boundary_unix_ms = None\<rparr>)"

fun merge_option :: "('a \<Rightarrow> 'a \<Rightarrow> 'a) \<Rightarrow> 'a option \<Rightarrow> 'a option \<Rightarrow> 'a option" where
  "merge_option both (Some l) (Some r) = Some (both l r)"
| "merge_option both (Some l) None = Some l"
| "merge_option both None (Some r) = Some r"
| "merge_option both None None = None"

definition merge_override :: "slot_override \<Rightarrow> slot_override \<Rightarrow> slot_override" where
  "merge_override a b =
     \<lparr>over_choice = later_of (over_choice a) (over_choice b),
      until_unix_ms = (if rank (over_choice b) > rank (over_choice a)
                       then until_unix_ms b else until_unix_ms a)\<rparr>"

definition slot_merge :: "slot \<Rightarrow> slot \<Rightarrow> slot" where
  "slot_merge left right =
     \<lparr>base = merge_option later_of (base left) (base right),
      over = merge_option merge_override (over left) (over right)\<rparr>"

section \<open>The contract of a ranked choice\<close>

locale ranked_choice =
  fixes pick :: "'a \<Rightarrow> 'a \<Rightarrow> 'a"
    and key :: "'a \<Rightarrow> 'r::linorder"
  assumes pick_def: "pick a b = (if key b > key a then b else a)"
begin

lemma pick_idem: "pick a a = a"
  by (simp add: pick_def)

lemma pick_assoc: "pick (pick a b) c = pick a (pick b c)"
  by (auto simp: pick_def)

lemma pick_comm_iff: "pick a b = pick b a \<longleftrightarrow> (key a = key b \<longrightarrow> a = b)"
  by (auto simp: pick_def)

lemma pick_in: "pick a b = a \<or> pick a b = b"
  by (simp add: pick_def)

lemma option_idem: "merge_option pick a a = a"
  by (cases a) (auto simp: pick_idem)

lemma option_assoc:
  "merge_option pick (merge_option pick a b) c = merge_option pick a (merge_option pick b c)"
  by (cases a; cases b; cases c) (auto simp: pick_assoc)

lemma option_comm_iff:
  "merge_option pick a b = merge_option pick b a \<longleftrightarrow>
     (\<forall>x y. a = Some x \<and> b = Some y \<and> key x = key y \<longrightarrow> x = y)"
  by (cases a; cases b) (auto simp: pick_comm_iff)

lemma option_source:
  "merge_option pick a b = Some z \<Longrightarrow> a = Some z \<or> b = Some z"
  by (cases a; cases b) (auto simp: pick_def split: if_splits)

end

lemma merge_override_eq:
  "merge_override a b = (if rank (over_choice b) > rank (over_choice a) then b else a)"
  by (cases a; cases b) (auto simp: merge_override_def later_of_def)

interpretation choices: ranked_choice later_of rank
  by unfold_locales (simp add: later_of_def)

interpretation overrides: ranked_choice merge_override "\<lambda>ov. rank (over_choice ov)"
  by unfold_locales (simp add: merge_override_eq)

section \<open>Merging slots\<close>

text \<open>Two slots hold conflicting choices when two different ones share a rank.\<close>

definition conflict_free :: "slot \<Rightarrow> slot \<Rightarrow> bool" where
  "conflict_free l r \<longleftrightarrow>
     (\<forall>x y. base l = Some x \<and> base r = Some y \<and> rank x = rank y \<longrightarrow> x = y) \<and>
     (\<forall>x y. over l = Some x \<and> over r = Some y \<and>
            rank (over_choice x) = rank (over_choice y) \<longrightarrow> x = y)"

lemma slot_merge_idem: "slot_merge s s = s"
  by (cases s) (simp add: slot_merge_def choices.option_idem overrides.option_idem)

lemma slot_merge_assoc: "slot_merge (slot_merge a b) c = slot_merge a (slot_merge b c)"
  by (simp add: slot_merge_def choices.option_assoc overrides.option_assoc)

lemma slot_merge_comm_iff: "slot_merge l r = slot_merge r l \<longleftrightarrow> conflict_free l r"
  by (auto simp: slot_merge_def conflict_free_def choices.option_comm_iff overrides.option_comm_iff)

lemma slot_merge_source:
  "base (slot_merge l r) = Some c \<Longrightarrow> base l = Some c \<or> base r = Some c"
  "over (slot_merge l r) = Some ov \<Longrightarrow> over l = Some ov \<or> over r = Some ov"
  by (auto simp: slot_merge_def dest: choices.option_source overrides.option_source)

lemma slot_validate_ok:
  "slot_validate s = Inr () \<longleftrightarrow>
     (\<forall>b. base s = Some b \<longrightarrow> choice_validate b = Inr ()) \<and>
     (\<forall>ov. over s = Some ov \<longrightarrow> override_validate ov = Inr ())"
  by (auto simp: slot_validate_def result_simps split: option.splits)

text \<open>A family of slots is conflict-free when every pair is; such a family merges to one slot in
  every order.\<close>

definition family_ok :: "slot set \<Rightarrow> bool" where
  "family_ok S \<longleftrightarrow> (\<forall>l \<in> S. \<forall>r \<in> S. conflict_free l r)"

definition merge_all :: "slot \<Rightarrow> slot list \<Rightarrow> slot" where
  "merge_all s xs = fold (\<lambda>x acc. slot_merge acc x) xs s"

definition gathers :: "slot set \<Rightarrow> slot \<Rightarrow> bool" where
  "gathers S x \<longleftrightarrow> (\<forall>c. base x = Some c \<longrightarrow> (\<exists>s \<in> S. base s = Some c)) \<and>
     (\<forall>ov. over x = Some ov \<longrightarrow> (\<exists>s \<in> S. over s = Some ov))"

lemma gathers_merge: "gathers S a \<Longrightarrow> gathers S b \<Longrightarrow> gathers S (slot_merge a b)"
  unfolding gathers_def using slot_merge_source by blast

lemma gathers_self: "s \<in> S \<Longrightarrow> gathers S s"
  by (auto simp: gathers_def)

lemma gathers_comm:
  "family_ok S \<Longrightarrow> gathers S a \<Longrightarrow> gathers S b \<Longrightarrow> slot_merge a b = slot_merge b a"
  unfolding slot_merge_comm_iff conflict_free_def gathers_def family_ok_def by metis

lemma merge_all_snoc: "merge_all s (xs @ [x]) = slot_merge (merge_all s xs) x"
  by (simp add: merge_all_def)

lemma merge_all_Cons: "merge_all s (x # xs) = merge_all (slot_merge s x) xs"
  by (simp add: merge_all_def)

lemma gathers_merge_all: "gathers S s \<Longrightarrow> set xs \<subseteq> S \<Longrightarrow> gathers S (merge_all s xs)"
  by (induction xs arbitrary: s) (auto simp: merge_all_def gathers_merge gathers_self)

lemma merge_all_swap:
  assumes "family_ok S" "gathers S s" "set xs \<subseteq> S" "x \<in> S"
  shows "merge_all (slot_merge s x) xs = slot_merge (merge_all s xs) x"
  using assms(2,3)
proof (induction xs arbitrary: s)
  case Nil
  then show ?case by (simp add: merge_all_def)
next
  case (Cons y ys)
  have "slot_merge x y = slot_merge y x"
    using Cons.prems assms(1,4) by (intro gathers_comm [of S]) (auto intro: gathers_self)
  then have "slot_merge (slot_merge s x) y = slot_merge (slot_merge s y) x"
    by (metis slot_merge_assoc)
  then show ?case
    using Cons assms(4) by (simp add: merge_all_Cons gathers_merge gathers_self)
qed


lemma merge_all_perm_same_start:
  assumes "family_ok S" "gathers S s" "set xs \<subseteq> S" "mset xs = mset ys"
  shows "merge_all s xs = merge_all s ys"
  using assms(2-4)
proof (induction xs arbitrary: s ys)
  case Nil
  then show ?case by simp
next
  case (Cons x xs)
  from Cons.prems(3) obtain us vs where ys: "ys = us @ x # vs"
    by (metis list.set_intros(1) mset_eq_setD split_list)
  have sub: "set (us @ vs) \<subseteq> S" and eq: "mset xs = mset (us @ vs)"
    using Cons.prems ys mset_eq_setD [OF Cons.prems(3)] by auto
  have "merge_all (slot_merge s x) us = slot_merge (merge_all s us) x"
    using Cons.prems assms(1) sub by (intro merge_all_swap) auto
  then have "merge_all s ys = merge_all (slot_merge s x) (us @ vs)"
    by (simp add: ys merge_all_def)
  then show ?case
    using Cons eq by (simp add: merge_all_Cons gathers_merge gathers_self)
qed

section \<open>Properties\<close>

text \<open>C10: replicas that merge the same slots in any order, starting from any of them, hold the
  same slot, as long as no two of the slots carry different choices under one rank.\<close>

theorem slot_merge_converges:
  assumes "family_ok (set (x # xs))" "mset (x # xs) = mset (y # ys)"
  shows "merge_all x xs = merge_all y ys"
proof (cases "x = y")
  case True
  have "merge_all x xs = merge_all x ys"
    using assms True
    by (intro merge_all_perm_same_start [of "set (x # xs)"]) (auto intro: gathers_self)
  with True show ?thesis by simp
next
  case False
  let ?S = "set (x # xs)" and ?zs = "remove1 y xs"
  have S: "?S = set (y # ys)"
    using assms(2) by (rule mset_eq_setD)
  have y: "y \<in> set xs" using S False by auto
  have xs: "mset xs = mset (y # ?zs)" using y by simp
  have "add_mset y (mset ys) = add_mset y (mset (x # ?zs))"
    using assms(2) y by (simp add: add_mset_commute)
  then have ys: "mset ys = mset (x # ?zs)" by (rule add_mset_add_mset_same_iff [THEN iffD1])
  have "merge_all x xs = merge_all x (y # ?zs)"
    using assms(1) xs by (intro merge_all_perm_same_start [of ?S]) (auto intro: gathers_self)
  also have "\<dots> = merge_all y (x # ?zs)"
    using assms(1) y by (simp add: merge_all_Cons gathers_comm [of ?S x y] gathers_self)
  also have "\<dots> = merge_all y ys"
    using assms(1) S ys
    by (intro merge_all_perm_same_start [of ?S, symmetric]) (auto intro: gathers_self)
  finally show ?thesis .
qed

definition example_choice :: "string \<Rightarrow> u64 \<Rightarrow> string \<Rightarrow> choice" where
  "example_choice m t by_whom = \<lparr>member = m, chosen_unix_ms = t, chooser = by_whom\<rparr>"

definition example_slot_a :: slot where
  "example_slot_a = \<lparr>base = Some (example_choice ''lobby'' 10 ''ann''), over = None\<rparr>"

definition example_slot_b :: slot where
  "example_slot_b =
     \<lparr>base = Some (example_choice ''hall'' 12 ''bob''),
      over = Some \<lparr>over_choice = example_choice ''alarm'' 13 ''bob'', until_unix_ms = 20\<rparr>\<rparr>"

lemmas example_slots =
  example_slot_a_def example_slot_b_def example_choice_def

theorem slot_merge_converges_witness:
  "family_ok (set [example_slot_a, example_slot_b]) \<and>
   merge_all example_slot_a [example_slot_b] = merge_all example_slot_b [example_slot_a]"
proof -
  have ok: "family_ok (set (example_slot_a # [example_slot_b]))"
    by (simp add: family_ok_def conflict_free_def example_slots rank_def)
  show ?thesis
    using ok slot_merge_converges [OF ok, of example_slot_b "[example_slot_a]"] by simp
qed

text \<open>C11: merging two slots is idempotent and associative without any condition, and it is
  commutative exactly when the two slots hold no two different choices (or overrides) of one rank:
  one chooser choosing two members in one millisecond is what the tie-break by chooser cannot
  order, so the unconditional "commutative" of the source's comment holds only outside it.\<close>

theorem slot_merge_laws:
  "slot_merge s s = s \<and>
   slot_merge (slot_merge a b) c = slot_merge a (slot_merge b c) \<and>
   (slot_merge l r = slot_merge r l \<longleftrightarrow> conflict_free l r)"
  using slot_merge_idem slot_merge_assoc slot_merge_comm_iff by blast

text \<open>What a slot answers now keeps being its answer until the boundary it announces, and
  from that boundary on the standing choice answers; without a boundary the answer never changes
  by itself.\<close>

theorem resolve_at_boundary:
  assumes "now \<le> t"
  shows "(case next_boundary_unix_ms (resolve_at s now) of
            None \<Rightarrow> resolve_at s t = resolve_at s now
          | Some b \<Rightarrow> now < b \<and> (if t < b then resolve_at s t = resolve_at s now
                     else resolve_at s t =
                       \<lparr>res_member = map_option member (base s), next_boundary_unix_ms = None\<rparr>))"
  using assms by (auto simp: resolve_at_def split: option.splits)

theorem resolve_at_boundary_witness:
  "resolve_at example_slot_b 19 = resolve_at example_slot_b 14 \<and>
   res_member (resolve_at example_slot_b 25) = Some ''hall''"
  using resolve_at_boundary [of 14 19 example_slot_b] resolve_at_boundary [of 14 25 example_slot_b]
  by (simp add: resolve_at_def example_slots)

text \<open>Merging two valid slots gives a valid slot, and everything in it was written by one of
  the two replicas (no third override is invented).\<close>

theorem slot_merge_valid:
  assumes "slot_validate l = Inr ()" "slot_validate r = Inr ()"
  shows "slot_validate (slot_merge l r) = Inr () \<and>
     (\<forall>c. base (slot_merge l r) = Some c \<longrightarrow> base l = Some c \<or> base r = Some c) \<and>
     (\<forall>ov. over (slot_merge l r) = Some ov \<longrightarrow> over l = Some ov \<or> over r = Some ov)"
  using assms slot_merge_source unfolding slot_validate_ok by blast

theorem slot_merge_valid_witness:
  "slot_validate (slot_merge example_slot_a example_slot_b) = Inr ()"
proof -
  have "slot_validate example_slot_a = Inr ()" "slot_validate example_slot_b = Inr ()"
    by (simp_all add: slot_validate_def choice_validate_def override_validate_def example_slots
        chars_count_def MAX_MEMBER_CHARS_def MAX_CHOOSER_CHARS_def)
  from slot_merge_valid [OF this] show ?thesis by blast
qed

end
