(* ===== verification/Sigdag.thy ===== *)
theory Sigdag
  imports Prelude "HOL-Library.Multiset"
begin

text \<open>
  The signed hash-DAG envelope (\<^verbatim>\<open>crates/mechanics/src/sigdag.rs\<close>) that the actor and membership
  planes ride on: the node, its content address, the signature check, the causal ancestors of each
  node and the deterministic topological order (Kahn's algorithm with ready nodes in hash order).

  The third-party code it calls (blake3, ed25519-dalek, data-encoding) is the record \<open>crypto\<close>, an
  argument of every definition that uses it. A node map is an association list with distinct keys,
  whose order is the iteration order of the \<open>HashMap\<close>.

  \<open>greedy\<close> is the abstract specification of the order: append the least node all of whose present
  parents are already there. \<open>kahn_eq_greedy\<close> is the refinement of the counting loop to it.
\<close>

section \<open>Nodes and signatures\<close>

record crypto =
  blake3 :: "bytes \<Rightarrow> bytes"
  blake3_hex :: "bytes \<Rightarrow> string"
  derive_key :: "string \<Rightarrow> bytes \<Rightarrow> bytes"
  hex_decode :: "string \<Rightarrow> bytes option"
  key_usable :: "bytes \<Rightarrow> bool"
  verify_strict :: "bytes \<Rightarrow> bytes \<Rightarrow> bytes \<Rightarrow> bool"

record signed_node =
  sn_op :: bytes
  sn_author :: string
  sn_sig :: bytes
  sn_parents :: "string list"

text \<open>A device id is compared by key, not by spelling: equality, order and hash of \<open>DeviceId\<close>
  fold ASCII case, so \<open>device_key\<close> is what its sets and maps distinguish, while a preimage holds
  the spelling itself.\<close>

definition to_ascii_lowercase :: "char \<Rightarrow> char" where
  "to_ascii_lowercase c = (if CHR ''A'' \<le> c \<and> c \<le> CHR ''Z'' then char_of (of_char c + 32 :: nat) else c)"

definition device_key :: "string \<Rightarrow> string" where
  "device_key d = map to_ascii_lowercase d"

type_synonym nodes = "(string \<times> signed_node) list"

definition is_ascii_hexdigit :: "char \<Rightarrow> bool" where
  "is_ascii_hexdigit c \<longleftrightarrow> c \<in> set ''0123456789abcdefABCDEF''"

definition hex32 :: "crypto \<Rightarrow> string \<Rightarrow> bytes option" where
  "hex32 cr s =
     (if length s \<noteq> 64 \<or> \<not> list_all is_ascii_hexdigit s then None
      else case hex_decode cr s of
             None \<Rightarrow> None
           | Some d \<Rightarrow> if length d = 32 then Some d else None)"

definition signing_payload ::
  "crypto \<Rightarrow> bytes \<Rightarrow> bytes \<Rightarrow> string \<Rightarrow> string list \<Rightarrow> string \<Rightarrow> bytes" where
  "signing_payload cr domain op author parents space_id =
     blake3 cr (domain @ op @ author @ concat (sort parents) @ space_id)"

definition assemble_signed :: "bytes \<Rightarrow> string \<Rightarrow> bytes \<Rightarrow> string list \<Rightarrow> signed_node" where
  "assemble_signed op author sig parents =
     \<lparr>sn_op = op, sn_author = author, sn_sig = sig, sn_parents = parents\<rparr>"

definition node_address :: "crypto \<Rightarrow> signed_node \<Rightarrow> string" where
  "node_address cr n = blake3_hex cr (sn_op n @ sn_author n @ concat (sort (sn_parents n)))"

definition verify_sig :: "crypto \<Rightarrow> bytes \<Rightarrow> string \<Rightarrow> signed_node \<Rightarrow> bool" where
  \<comment> \<open>\<open>Signature::from_slice\<close> accepts exactly 64 bytes.\<close>
  "verify_sig cr domain space_id n =
     (case hex32 cr (sn_author n) of
        None \<Rightarrow> False
      | Some pk \<Rightarrow>
          key_usable cr pk \<and> length (sn_sig n) = 64 \<and>
          verify_strict cr pk
            (signing_payload cr domain (sn_op n) (sn_author n) (sn_parents n) space_id) (sn_sig n))"

definition message_payload :: "crypto \<Rightarrow> bytes \<Rightarrow> string \<Rightarrow> string \<Rightarrow> bytes \<Rightarrow> bytes" where
  "message_payload cr domain space_id author msg = blake3 cr (domain @ space_id @ author @ msg)"

definition verify_message :: "crypto \<Rightarrow> bytes \<Rightarrow> string \<Rightarrow> string \<Rightarrow> bytes \<Rightarrow> bytes \<Rightarrow> bool" where
  "verify_message cr domain space_id author msg sig =
     (case hex32 cr author of
        None \<Rightarrow> False
      | Some pk \<Rightarrow>
          key_usable cr pk \<and>
          verify_strict cr pk (message_payload cr domain space_id author msg) sig)"

section \<open>Ancestors\<close>

definition node_keys :: "nodes \<Rightarrow> string set" where
  "node_keys ns = fst ` set ns"

text \<open>The worklist of \<open>compute_ancestors\<close>: the head of the list is the end of the source's
  stack, so \<open>stack.extend(ps)\<close> puts the reversed parents in front.\<close>

function ancestor_loop :: "nodes \<Rightarrow> string set \<Rightarrow> string list \<Rightarrow> string set" where
  "ancestor_loop ns anc [] = anc"
| "ancestor_loop ns anc (p # stack) =
     (case map_of ns p of
        None \<Rightarrow> ancestor_loop ns anc stack
      | Some pn \<Rightarrow>
          if p \<in> anc then ancestor_loop ns anc stack
          else ancestor_loop ns (insert p anc) (rev (sn_parents pn) @ stack))"
  by pat_completeness auto
termination
proof (relation "measures [\<lambda>(ns, anc, stack). card (node_keys ns - anc), \<lambda>(ns, anc, stack). length stack]")
  fix ns :: nodes and anc p stack pn
  assume "map_of ns p = Some pn" "p \<notin> anc"
  then have "p \<in> node_keys ns - anc" by (force simp: node_keys_def dest: map_of_SomeD)
  moreover have "finite (node_keys ns - anc)" by (simp add: node_keys_def)
  ultimately have "card (node_keys ns - anc - {p}) < card (node_keys ns - anc)"
    by (metis card_Diff1_less)
  moreover have "node_keys ns - insert p anc = node_keys ns - anc - {p}" by auto
  ultimately show "((ns, insert p anc, rev (sn_parents pn) @ stack), ns, anc, p # stack)
     \<in> measures [\<lambda>(ns, anc, stack). card (node_keys ns - anc), \<lambda>(ns, anc, stack). length stack]"
    by simp
qed auto

definition compute_ancestors :: "nodes \<Rightarrow> (string \<times> string set) list" where
  "compute_ancestors ns = map (\<lambda>(h, n). (h, ancestor_loop ns {} (rev (sn_parents n)))) ns"

text \<open>\<open>ancestors.get(h).is_some_and(|anc| anc.contains(x))\<close>\<close>

definition anc_contains :: "(string \<times> string set) list \<Rightarrow> string \<Rightarrow> string \<Rightarrow> bool" where
  "anc_contains ancestors h x = (case map_of ancestors h of None \<Rightarrow> False | Some anc \<Rightarrow> x \<in> anc)"

section \<open>Topological order\<close>

definition present_parents :: "nodes \<Rightarrow> signed_node \<Rightarrow> string list" where
  "present_parents ns n = filter (\<lambda>p. map_of ns p \<noteq> None) (sn_parents n)"

definition indegree :: "nodes \<Rightarrow> string \<Rightarrow> nat" where
  "indegree ns h = (case map_of ns h of None \<Rightarrow> 0 | Some n \<Rightarrow> length (present_parents ns n))"

definition children_of :: "nodes \<Rightarrow> string \<Rightarrow> string list" where
  "children_of ns p =
     concat (map (\<lambda>(h, n). map (\<lambda>_. h) (filter (\<lambda>q. q = p) (present_parents ns n))) ns)"

fun relax :: "string list \<Rightarrow> (string \<Rightarrow> nat) \<Rightarrow> string set \<Rightarrow> (string \<Rightarrow> nat) \<times> string set" where
  "relax [] d ready = (d, ready)"
| "relax (c # cs) d ready =
     (let d' = d(c := d c - 1)
      in relax cs d' (if d' c = 0 then insert c ready else ready))"

fun kahn :: "nat \<Rightarrow> nodes \<Rightarrow> string set \<Rightarrow> (string \<Rightarrow> nat) \<Rightarrow> string list \<Rightarrow> string list" where
  "kahn 0 ns ready d order = order"
| "kahn (Suc fuel) ns ready d order =
     (if ready = {} then order
      else let h = Min ready; (d', ready') = relax (sort (children_of ns h)) d (ready - {h})
           in kahn fuel ns ready' d' (order @ [h]))"

definition topo_order :: "nodes \<Rightarrow> string list" where
  "topo_order ns =
     (let ready = set (filter (\<lambda>h. indegree ns h = 0) (map fst ns));
          order = kahn (length ns) ns ready (indegree ns) []
      in if length order < length ns
         then order @ sort (filter (\<lambda>h. h \<notin> set order) (map fst ns))
         else order)"

section \<open>The causal relation\<close>

definition causes :: "nodes \<Rightarrow> (string \<times> string) set" where
  \<comment> \<open>\<open>(p, h)\<close>: \<open>p\<close> is a present parent of the present node \<open>h\<close>\<close>
  "causes ns = {(p, h). \<exists>n. map_of ns h = Some n \<and> p \<in> set (present_parents ns n)}"

lemma node_keys_iff: "h \<in> node_keys ns \<longleftrightarrow> map_of ns h \<noteq> None"
  by (simp add: node_keys_def map_of_eq_None_iff)

lemma finite_node_keys [simp]: "finite (node_keys ns)"
  by (simp add: node_keys_def)

lemma causes_keys: "(p, h) \<in> causes ns \<Longrightarrow> p \<in> node_keys ns \<and> h \<in> node_keys ns"
  by (auto simp: causes_def node_keys_iff present_parents_def)

lemma finite_causes: "finite (causes ns)"
  by (rule finite_subset [of _ "node_keys ns \<times> node_keys ns"]) (auto dest: causes_keys)

lemma causes_iff:
  "(p, h) \<in> causes ns \<longleftrightarrow>
     (\<exists>n. map_of ns h = Some n \<and> p \<in> set (sn_parents n) \<and> map_of ns p \<noteq> None)"
  by (auto simp: causes_def present_parents_def)

text \<open>The loop adds exactly what is reachable from the stack through present parents.\<close>

definition reach_from :: "nodes \<Rightarrow> string set \<Rightarrow> string set" where
  "reach_from ns S = {a. \<exists>s \<in> S. s \<in> node_keys ns \<and> (a, s) \<in> (causes ns)\<^sup>*}"

lemma reach_from_simps:
  "reach_from ns {} = {}"
  "reach_from ns (A \<union> B) = reach_from ns A \<union> reach_from ns B"
  by (auto simp: reach_from_def)

lemma reach_from_mono: "A \<subseteq> B \<Longrightarrow> reach_from ns A \<subseteq> reach_from ns B"
  by (auto simp: reach_from_def)

lemma reach_from_parents:
  "map_of ns p = Some n \<Longrightarrow> reach_from ns {p} = insert p (reach_from ns (set (sn_parents n)))"
proof (intro equalityI subsetI)
  fix a assume n: "map_of ns p = Some n" and "a \<in> reach_from ns {p}"
  then have "(a, p) \<in> (causes ns)\<^sup>*" by (simp add: reach_from_def)
  then show "a \<in> insert p (reach_from ns (set (sn_parents n)))"
    using n by (cases rule: rtranclE) (auto simp: reach_from_def causes_iff node_keys_iff)
next
  fix a assume n: "map_of ns p = Some n" and "a \<in> insert p (reach_from ns (set (sn_parents n)))"
  then consider "a = p" | s where "s \<in> set (sn_parents n)" "s \<in> node_keys ns" "(a, s) \<in> (causes ns)\<^sup>*"
    by (auto simp: reach_from_def)
  then show "a \<in> reach_from ns {p}"
  proof cases
    case 1
    with n show ?thesis by (auto simp: reach_from_def node_keys_iff)
  next
    case 2
    then have "(s, p) \<in> causes ns" using n by (simp add: causes_iff node_keys_iff)
    with 2 n show ?thesis
      by (auto simp: reach_from_def node_keys_iff intro: rtrancl_into_rtrancl)
  qed
qed

lemma ancestor_loop_sound: "ancestor_loop ns anc stack \<subseteq> anc \<union> reach_from ns (set stack)"
proof (induction ns anc stack rule: ancestor_loop.induct)
  case (2 ns anc p stack)
  have split: "reach_from ns (set (p # stack)) = reach_from ns {p} \<union> reach_from ns (set stack)"
    by (metis reach_from_simps(2) insert_is_Un list.set(2))
  show ?case
  proof (cases "map_of ns p")
    case None
    with 2 split show ?thesis by auto
  next
    case (Some pn)
    have "reach_from ns (set (rev (sn_parents pn) @ stack)) =
        reach_from ns (set (sn_parents pn)) \<union> reach_from ns (set stack)"
      by (simp add: reach_from_simps)
    with 2 Some split show ?thesis by (auto simp: reach_from_parents [OF Some])
  qed
qed simp

lemma ancestor_loop_complete:
  assumes "\<forall>a \<in> anc. \<forall>p. (p, a) \<in> causes ns \<longrightarrow> p \<in> anc \<union> set stack"
    and "R = ancestor_loop ns anc stack"
  shows "anc \<subseteq> R \<and> set stack \<inter> node_keys ns \<subseteq> R \<and> (\<forall>a \<in> R. \<forall>p. (p, a) \<in> causes ns \<longrightarrow> p \<in> R)"
  using assms
proof (induction ns anc stack rule: ancestor_loop.induct)
  case (1 ns anc)
  then show ?case by auto
next
  case (2 ns anc p stack)
  show ?case
  proof (cases "map_of ns p")
    case None
    then have "p \<notin> node_keys ns" by (simp add: node_keys_iff)
    moreover have "\<forall>a \<in> anc. \<forall>q. (q, a) \<in> causes ns \<longrightarrow> q \<in> anc \<union> set stack"
      using "2.prems"(1) \<open>p \<notin> node_keys ns\<close> causes_keys by fastforce
    ultimately show ?thesis using "2.IH"(1) [OF None] "2.prems"(2) None by simp
  next
    case (Some pn)
    show ?thesis
    proof (cases "p \<in> anc")
      case True
      then have "\<forall>a \<in> anc. \<forall>q. (q, a) \<in> causes ns \<longrightarrow> q \<in> anc \<union> set stack"
        using "2.prems"(1) by auto
      then show ?thesis using "2.IH"(2) [OF Some True] "2.prems"(2) Some True by auto
    next
      case False
      have "\<forall>a \<in> insert p anc. \<forall>q. (q, a) \<in> causes ns \<longrightarrow>
              q \<in> insert p anc \<union> set (rev (sn_parents pn) @ stack)"
        using "2.prems"(1) Some by (auto simp: causes_iff)
      then show ?thesis using "2.IH"(3) [OF Some False] "2.prems"(2) Some False by auto
    qed
  qed
qed

lemma ancestor_loop_eq: "ancestor_loop ns {} stack = reach_from ns (set stack)"
proof (intro equalityI)
  let ?R = "ancestor_loop ns {} stack"
  show "?R \<subseteq> reach_from ns (set stack)"
    using ancestor_loop_sound [of ns "{}" stack] by simp
  have R: "set stack \<inter> node_keys ns \<subseteq> ?R" "\<forall>a \<in> ?R. \<forall>p. (p, a) \<in> causes ns \<longrightarrow> p \<in> ?R"
    using ancestor_loop_complete [of "{}" ns stack ?R] by auto
  show "reach_from ns (set stack) \<subseteq> ?R"
  proof
    fix a assume "a \<in> reach_from ns (set stack)"
    then obtain s where s: "s \<in> set stack" "s \<in> node_keys ns" "(a, s) \<in> (causes ns)\<^sup>*"
      by (auto simp: reach_from_def)
    from s(3,1,2) show "a \<in> ?R"
    proof (induction rule: converse_rtrancl_induct)
      case base
      then show ?case using R(1) by blast
    next
      case (step y z)
      then show ?case using R(2) by blast
    qed
  qed
qed

lemma reach_parents_trancl:
  assumes "map_of ns h = Some n"
  shows "reach_from ns (set (sn_parents n)) = {a. (a, h) \<in> (causes ns)\<^sup>+}"
proof (intro equalityI subsetI)
  fix a assume "a \<in> reach_from ns (set (sn_parents n))"
  then obtain s where "s \<in> set (sn_parents n)" "s \<in> node_keys ns" "(a, s) \<in> (causes ns)\<^sup>*"
    by (auto simp: reach_from_def)
  then show "a \<in> {a. (a, h) \<in> (causes ns)\<^sup>+}"
    using assms by (auto simp: causes_iff node_keys_iff intro: rtrancl_into_trancl1)
next
  fix a assume "a \<in> {a. (a, h) \<in> (causes ns)\<^sup>+}"
  then obtain s where "(a, s) \<in> (causes ns)\<^sup>*" "(s, h) \<in> causes ns"
    by (auto dest: tranclD2)
  then show "a \<in> reach_from ns (set (sn_parents n))"
    using assms by (auto simp: reach_from_def causes_iff node_keys_iff)
qed

lemma map_of_compute_ancestors:
  "map_of (compute_ancestors ns) h =
     (if h \<in> node_keys ns then Some {a. (a, h) \<in> (causes ns)\<^sup>+} else None)"
proof -
  have map: "map_of (map (\<lambda>(h, n). (h, f n)) xs) h = map_option f (map_of xs h)" for f xs
    by (induction xs) auto
  show ?thesis
    by (cases "map_of ns h")
      (auto simp: compute_ancestors_def map ancestor_loop_eq reach_parents_trancl node_keys_iff)
qed

lemma anc_contains_iff:
  "anc_contains (compute_ancestors ns) h x \<longleftrightarrow> (x, h) \<in> (causes ns)\<^sup>+"
proof -
  have "h \<in> node_keys ns" if "(x, h) \<in> (causes ns)\<^sup>+"
    using that by (meson causes_keys tranclD2)
  then show ?thesis by (auto simp: anc_contains_def map_of_compute_ancestors)
qed

section \<open>The order: refinement of the counting loop\<close>

definition ready_of :: "nodes \<Rightarrow> string list \<Rightarrow> string set" where
  "ready_of ns order =
     {h \<in> node_keys ns. h \<notin> set order \<and> (\<forall>p. (p, h) \<in> causes ns \<longrightarrow> p \<in> set order)}"

fun greedy :: "nat \<Rightarrow> nodes \<Rightarrow> string list \<Rightarrow> string list" where
  "greedy 0 ns order = order"
| "greedy (Suc fuel) ns order =
     (if ready_of ns order = {} then order
      else greedy fuel ns (order @ [Min (ready_of ns order)]))"

definition pending :: "nodes \<Rightarrow> string list \<Rightarrow> string \<Rightarrow> nat" where
  \<comment> \<open>how many present parents of \<open>h\<close> are not emitted yet\<close>
  "pending ns order h =
     (case map_of ns h of None \<Rightarrow> 0
      | Some n \<Rightarrow> length (filter (\<lambda>p. p \<notin> set order) (present_parents ns n)))"

text \<open>An order is causal when every present parent of an emitted node was emitted before it.\<close>

definition causal :: "nodes \<Rightarrow> string list \<Rightarrow> bool" where
  "causal ns order \<longleftrightarrow>
     (\<forall>xs h ys p. order = xs @ h # ys \<longrightarrow> (p, h) \<in> causes ns \<longrightarrow> p \<in> set xs)"

lemma finite_ready_of [simp]: "finite (ready_of ns order)"
  by (rule finite_subset [of _ "node_keys ns"]) (auto simp: ready_of_def)

lemma Min_ready_of: "ready_of ns order \<noteq> {} \<Longrightarrow> Min (ready_of ns order) \<in> ready_of ns order"
  by (simp add: Min_in)

lemma ready_ofD: "h \<in> ready_of ns order \<Longrightarrow> h \<in> node_keys ns \<and> h \<notin> set order"
  by (simp add: ready_of_def)

lemmas Min_ready_ofD = ready_ofD [OF Min_ready_of]

lemma relax_eq:
  "relax cs d ready =
     ((\<lambda>x. d x - count_list cs x), ready \<union> {c \<in> set cs. d c \<le> count_list cs c})"
proof (induction cs arbitrary: d ready)
  case (Cons c cs)
  have "{x \<in> set cs. (d(c := d c - 1)) x \<le> count_list cs x} \<union>
          (if d c - 1 = 0 then {c} else {}) = {x \<in> set (c # cs). d x \<le> count_list (c # cs) x}"
    (is "?L = ?R")
  proof (rule set_eqI)
    fix x
    show "x \<in> ?L \<longleftrightarrow> x \<in> ?R"
      by (cases "x = c"; cases "c \<in> set cs") (auto simp: count_list_0_iff)
  qed
  then show ?case by (auto simp: Cons fun_eq_iff Let_def)
qed simp

lemma count_children:
  assumes "distinct (map fst ns)"
  shows "count_list (children_of ns p) h =
     (case map_of ns h of None \<Rightarrow> 0 | Some n \<Rightarrow> count_list (present_parents ns n) p)"
proof -
  have count_concat: "count_list (concat xss) x = sum_list (map (\<lambda>xs. count_list xs x) xss)" for xss x
    by (induction xss) auto
  have const: "count_list (map (\<lambda>_. h') xs) x = (if x = h' then length xs else 0)" for h' xs x
    by (induction xs) auto
  have len: "length (filter (\<lambda>q. q = p) xs) = count_list xs p" for xs
    by (induction xs) auto
  have none: "sum_list (map (\<lambda>(h', n). if h = h' then f n else 0) ms) = 0"
    if "h \<notin> fst ` set ms" for f ms using that by (induction ms) auto
  have "sum_list (map (\<lambda>(h', n). if h = h' then f n else 0) ms) =
      (case map_of ms h of None \<Rightarrow> 0 | Some n \<Rightarrow> f n)" if "distinct (map fst ms)" for f ms
    using that by (induction ms) (auto simp: none)
  from this [OF assms, of "\<lambda>n. length (filter (\<lambda>q. q = p) (present_parents ns n))"] show ?thesis
    unfolding children_of_def count_concat len [symmetric]
    by (simp add: o_def split_def const)
qed

lemma pending_snoc:
  "pending ns (order @ [h]) x =
     pending ns order x -
       (case map_of ns x of None \<Rightarrow> 0 | Some n \<Rightarrow> if h \<in> set order then 0 else count_list (present_parents ns n) h)"
proof -
  have "length (filter (\<lambda>p. p \<noteq> h \<and> p \<notin> set order) ps) =
      length (filter (\<lambda>p. p \<notin> set order) ps) - (if h \<in> set order then 0 else count_list ps h)" for ps
  proof (induction ps)
    case (Cons p ps)
    have "(if h \<in> set order then 0 else count_list ps h) \<le> length (filter (\<lambda>p. p \<notin> set order) ps)"
      by (induction ps) auto
    with Cons show ?case by auto
  qed simp
  then show ?thesis by (auto simp: pending_def split: option.splits)
qed

lemma ready_of_pending:
  "ready_of ns order = {h \<in> node_keys ns. h \<notin> set order \<and> pending ns order h = 0}"
  by (auto simp: ready_of_def pending_def causes_def node_keys_iff filter_empty_conv)

lemma ready_of_snoc:
  assumes "distinct (map fst ns)" "h \<in> ready_of ns order" "causal ns order"
  shows "ready_of ns (order @ [h]) =
     (ready_of ns order - {h}) \<union>
     {c \<in> set (children_of ns h). pending ns order c \<le> count_list (children_of ns h) c}"
    (is "?L = ?R")
proof (rule set_eqI)
  fix x
  have h: "h \<notin> set order" using assms(2) by (simp add: ready_of_def)
  have mem: "x \<in> set (children_of ns h) \<longleftrightarrow> (h, x) \<in> causes ns"
    using count_children [OF assms(1), of h x] count_list_0_iff [of "children_of ns h" x]
    by (force simp: causes_def count_list_0_iff split: option.splits)
  have pend: "pending ns (order @ [h]) x = pending ns order x - count_list (children_of ns h) x"
    by (simp add: pending_snoc h count_children [OF assms(1)] split: option.splits)
  have fresh: "x \<notin> set order" if "(h, x) \<in> causes ns"
  proof
    assume "x \<in> set order"
    then obtain xs ys where "order = xs @ x # ys" by (metis split_list)
    with assms(3) that have "h \<in> set xs" by (auto simp: causal_def)
    with h \<open>order = xs @ x # ys\<close> show False by simp
  qed
  have self: "(h, h) \<notin> causes ns" using assms(2) h by (auto simp: ready_of_def)
  show "x \<in> ?L \<longleftrightarrow> x \<in> ?R"
    using fresh self mem pend count_list_0_iff [of "children_of ns h" x]
    by (auto simp: ready_of_pending dest: causes_keys)
qed

lemma causal_snoc:
  assumes "causal ns order" "h \<in> ready_of ns order"
  shows "causal ns (order @ [h])"
  unfolding causal_def
proof (intro allI impI)
  fix xs k ys p assume eq: "order @ [h] = xs @ k # ys" and c: "(p, k) \<in> causes ns"
  show "p \<in> set xs"
  proof (cases ys rule: rev_cases)
    case Nil
    with eq c assms(2) show ?thesis by (auto simp: ready_of_def)
  next
    case (snoc zs z)
    with eq have "order = xs @ k # zs" by simp
    with c assms(1) show ?thesis by (auto simp: causal_def)
  qed
qed

lemma kahn_eq_greedy:
  assumes "distinct (map fst ns)" "causal ns order"
  shows "kahn fuel ns (ready_of ns order) (pending ns order) order = greedy fuel ns order"
  using assms(2)
proof (induction fuel arbitrary: order)
  case (Suc fuel)
  show ?case
  proof (cases "ready_of ns order = {}")
    case False
    define h where "h = Min (ready_of ns order)"
    have h: "h \<in> ready_of ns order" unfolding h_def using False by (rule Min_ready_of)
    then have d: "(\<lambda>x. pending ns order x - count_list (children_of ns h) x) = pending ns (order @ [h])"
      by (simp add: fun_eq_iff pending_snoc count_children [OF assms(1)] ready_of_def split: option.splits)
    have sorted: "count_list (sort xs) x = count_list xs x" for xs :: "string list" and x
      by (metis count_mset mset_sort)
    have "relax (sort (children_of ns h)) (pending ns order) (ready_of ns order - {h}) =
        (pending ns (order @ [h]), ready_of ns (order @ [h]))"
      by (simp only: relax_eq sorted d set_sort ready_of_snoc [OF assms(1) h Suc.prems])
    then show ?thesis
      using Suc.IH [OF causal_snoc [OF Suc.prems h]] False by (simp add: h_def [symmetric])
  qed simp
qed simp

section \<open>Shape of the greedy order\<close>

lemma causal_Nil [simp]: "causal ns []"
  by (simp add: causal_def)

lemma causal_closed:
  assumes "causal ns order" "h \<in> set order" "(p, h) \<in> (causes ns)\<^sup>*"
  shows "p \<in> set order"
  using assms(3,2)
proof (induction rule: converse_rtrancl_induct)
  case (step y z)
  then obtain xs ys where "order = xs @ z # ys" by (metis split_list)
  with step assms(1) show ?case by (auto simp: causal_def)
qed simp

lemma greedy_invariant:
  assumes "causal ns order" "distinct order" "set order \<subseteq> node_keys ns"
  shows "causal ns (greedy fuel ns order) \<and> distinct (greedy fuel ns order) \<and>
     set (greedy fuel ns order) \<subseteq> node_keys ns"
  using assms
proof (induction fuel arbitrary: order)
  case (Suc fuel)
  show ?case
  proof (cases "ready_of ns order = {}")
    case False
    then have h: "Min (ready_of ns order) \<in> ready_of ns order" by (rule Min_ready_of)
    with Suc Min_ready_ofD [OF False] False show ?thesis by (simp add: causal_snoc)
  qed (use Suc in simp)
qed simp

lemma greedy_stops:
  assumes "card (node_keys ns - set order) \<le> fuel"
  shows "ready_of ns (greedy fuel ns order) = {}"
  using assms
proof (induction fuel arbitrary: order)
  case 0
  then have "node_keys ns - set order = {}" by simp
  then show ?case by (auto simp: ready_of_def)
next
  case (Suc fuel)
  show ?case
  proof (cases "ready_of ns order = {}")
    case False
    let ?h = "Min (ready_of ns order)"
    have "?h \<in> node_keys ns - set order" using Min_ready_ofD [OF False] by simp
    then have "card (node_keys ns - set order - {?h}) < card (node_keys ns - set order)"
      by (intro card_Diff1_less) auto
    moreover have "node_keys ns - set (order @ [?h]) = node_keys ns - set order - {?h}" by auto
    ultimately have "card (node_keys ns - set (order @ [?h])) \<le> fuel" using Suc.prems by simp
    with False Suc.IH show ?thesis by simp
  qed simp
qed

lemma greedy_stuck: "ready_of ns order = {} \<Longrightarrow> greedy fuel ns order = order"
  by (cases fuel) auto

lemma greedy_add: "greedy (m + n) ns order = greedy n ns (greedy m ns order)"
  by (induction m arbitrary: order) (auto simp: greedy_stuck)

lemma greedy_prefix: "\<exists>zs. greedy fuel ns order = order @ zs"
proof (induction fuel arbitrary: order)
  case (Suc fuel)
  then obtain zs where "greedy fuel ns (order @ [Min (ready_of ns order)]) =
      (order @ [Min (ready_of ns order)]) @ zs" by blast
  then show ?case by simp
qed simp

lemma card_node_keys_le: "card (node_keys ns) \<le> length ns"
  unfolding node_keys_def using card_image_le card_length le_trans by blast

lemma topo_order_greedy:
  assumes "distinct (map fst ns)"
  shows "topo_order ns =
     (let order = greedy (length ns) ns []
      in if length order < length ns
         then order @ sort (filter (\<lambda>h. h \<notin> set order) (map fst ns)) else order)"
proof -
  have d: "indegree ns = pending ns []"
    by (simp add: fun_eq_iff indegree_def pending_def split: option.splits)
  have "set (filter (\<lambda>h. indegree ns h = 0) (map fst ns)) = ready_of ns []"
    by (auto simp: d ready_of_pending node_keys_def)
  then show ?thesis
    by (simp add: topo_order_def d kahn_eq_greedy [OF assms] Let_def del: set_filter)
qed

lemma greedy_all:
  "causal ns (greedy (length ns) ns [])" "distinct (greedy (length ns) ns [])"
  "set (greedy (length ns) ns []) \<subseteq> node_keys ns" "ready_of ns (greedy (length ns) ns []) = {}"
  using greedy_invariant [of ns "[]" "length ns"] greedy_stops [of ns "[]" "length ns"]
    card_node_keys_le [of ns] by auto

lemma greedy_complete:
  assumes "acyclic (causes ns)"
  shows "set (greedy (length ns) ns []) = node_keys ns"
proof (rule ccontr)
  let ?o = "greedy (length ns) ns []"
  assume "set ?o \<noteq> node_keys ns"
  then have ne: "node_keys ns - set ?o \<noteq> {}" using greedy_all(3) by auto
  have "wf (causes ns)" using assms finite_causes by (rule finite_acyclic_wf [rotated])
  then obtain h where h: "h \<in> node_keys ns - set ?o"
    and min: "\<And>p. (p, h) \<in> causes ns \<Longrightarrow> p \<notin> node_keys ns - set ?o"
    using ne by (metis (no_types, lifting) wf_eq_minimal ex_in_conv)
  then have "h \<in> ready_of ns ?o" by (auto simp: ready_of_def dest: causes_keys)
  with greedy_all(4) show False by auto
qed

lemma topo_order_perm:
  assumes "distinct (map fst ns)"
  shows "distinct (topo_order ns) \<and> set (topo_order ns) = node_keys ns"
proof -
  let ?o = "greedy (length ns) ns []"
  have "card (node_keys ns) = length ns"
    using assms by (metis distinct_card length_map list.set_map node_keys_def)
  moreover have "length ?o = card (set ?o)" by (simp add: greedy_all(2) distinct_card)
  ultimately have "set ?o = node_keys ns" if "\<not> length ?o < length ns"
    using that greedy_all(3) by (metis card_seteq finite_node_keys not_less)
  then show ?thesis
    using greedy_all [of ns] assms
    by (auto simp: topo_order_greedy [OF assms] Let_def node_keys_def)
qed

lemma topo_order_acyclic:
  assumes "distinct (map fst ns)" "acyclic (causes ns)"
  shows "topo_order ns = greedy (length ns) ns []"
proof -
  have "length (greedy (length ns) ns []) = card (node_keys ns)"
    by (metis greedy_all(2) greedy_complete [OF assms(2)] distinct_card)
  also have "\<dots> = length ns"
    using assms(1) by (metis distinct_card length_map list.set_map node_keys_def)
  finally show ?thesis by (simp add: topo_order_greedy [OF assms(1)])
qed

lemma topo_order_causal:
  assumes "distinct (map fst ns)" "acyclic (causes ns)"
  shows "causal ns (topo_order ns)"
  by (simp add: topo_order_acyclic [OF assms] greedy_all)

text \<open>More fuel than the number of nodes changes nothing: the loop has stopped.\<close>

lemma kahn_fuel_enough:
  assumes "distinct (map fst ns)"
  shows "kahn (length ns + k) ns (ready_of ns []) (pending ns []) [] =
     kahn (length ns) ns (ready_of ns []) (pending ns []) []"
  by (simp add: kahn_eq_greedy [OF assms] greedy_add greedy_stuck greedy_all(4))

lemma greedy_cong:
  assumes "node_keys ns = node_keys ms" "causes ns = causes ms"
  shows "greedy fuel ns order = greedy fuel ms order"
proof -
  have "ready_of ns = ready_of ms" by (simp add: ready_of_def fun_eq_iff assms)
  then show ?thesis by (induction fuel arbitrary: order) auto
qed

lemma causes_cong: "map_of ns = map_of ms \<Longrightarrow> causes ns = causes ms"
  by (simp add: causes_def present_parents_def)

lemma sort_mset_eq: "mset xs = mset ys \<Longrightarrow> sort xs = sort ys"
  by (metis mset_sort properties_for_sort sorted_sort)

lemma topo_order_permute:
  assumes "distinct (map fst ns)" "mset ns = mset ms"
  shows "topo_order ns = topo_order ms"
proof -
  have ms: "distinct (map fst ms)"
    using assms by (metis mset_eq_imp_distinct_iff mset_map)
  have map: "map_of ns = map_of ms"
    using assms ms by (metis map_of_inject_set mset_eq_setD)
  have keys: "node_keys ns = node_keys ms"
    using mset_eq_setD [OF assms(2)] by (simp add: node_keys_def)
  have len: "length ns = length ms" using assms(2) by (rule mset_eq_length)
  have rest: "sort (filter P (map fst ns)) = sort (filter P (map fst ms))" for P
    by (rule sort_mset_eq) (simp add: assms(2))
  show ?thesis
    by (simp only: topo_order_greedy [OF assms(1)] topo_order_greedy [OF ms] len rest
        greedy_cong [OF keys causes_cong [OF map]])
qed

section \<open>Extending a replayed graph by a dominated suffix\<close>

text \<open>The heads of a node set: nodes no present node names as a parent. When every suffix node
  either names all heads of the prior set or has a parent inside the suffix, every prior node is an
  ancestor of every suffix node, and the union's order is the prior order followed by the suffix's.\<close>

definition dag_heads :: "nodes \<Rightarrow> string set" where
  "dag_heads ns = {h \<in> node_keys ns. \<forall>c. (h, c) \<notin> causes ns}"

definition dominates :: "nodes \<Rightarrow> nodes \<Rightarrow> bool" where
  "dominates A B \<longleftrightarrow>
     (\<forall>b n. map_of B b = Some n \<longrightarrow>
        dag_heads A \<subseteq> set (sn_parents n) \<or> (\<exists>p \<in> set (sn_parents n). p \<in> node_keys B))"

lemma node_keys_append: "node_keys (A @ B) = node_keys A \<union> node_keys B"
  by (auto simp: node_keys_def)

lemma causes_append_left: "causes A \<subseteq> causes (A @ B)"
  by (auto simp: causes_iff split: option.splits)

lemma causes_append_right:
  "node_keys A \<inter> node_keys B = {} \<Longrightarrow> h \<in> node_keys B \<Longrightarrow>
     (p, h) \<in> causes (A @ B) \<longleftrightarrow>
       (\<exists>n. map_of B h = Some n \<and> p \<in> set (sn_parents n) \<and> p \<in> node_keys A \<union> node_keys B)"
proof -
  assume disj: "node_keys A \<inter> node_keys B = {}" and h: "h \<in> node_keys B"
  then have "h \<notin> node_keys A" by auto
  then have "map_of (A @ B) h = map_of B h"
    by (auto simp: node_keys_iff map_add_def)
  then show ?thesis
    by (auto simp: causes_iff node_keys_iff split: option.splits)
qed

lemma below_a_head:
  assumes "acyclic (causes A)" "a \<in> node_keys A"
  shows "\<exists>x \<in> dag_heads A. (a, x) \<in> (causes A)\<^sup>*"
proof -
  have "wf ((causes A)\<inverse>)"
    using assms(1) finite_causes by (simp add: finite_acyclic_wf_converse)
  from this assms(2) show ?thesis
  proof (induction a rule: wf_induct_rule)
    case (less a)
    show ?case
    proof (cases "a \<in> dag_heads A")
      case False
      then obtain c where c: "(a, c) \<in> causes A" using less.prems by (auto simp: dag_heads_def)
      then have "\<exists>x \<in> dag_heads A. (c, x) \<in> (causes A)\<^sup>*" using less.IH by (auto dest: causes_keys)
      with c show ?thesis by (meson converse_rtrancl_into_rtrancl)
    qed auto
  qed
qed

lemma dominated_above:
  assumes disj: "node_keys A \<inter> node_keys B = {}" and acyc: "acyclic (causes (A @ B))"
    and dom: "dominates A B" and "a \<in> node_keys A" "b \<in> node_keys B"
  shows "(a, b) \<in> (causes (A @ B))\<^sup>+"
proof -
  have "wf (causes (A @ B))" using acyc finite_causes by (rule finite_acyclic_wf [rotated])
  from this assms(5) show ?thesis
  proof (induction b rule: wf_induct_rule)
    case (less b)
    then obtain n where n: "map_of B b = Some n" by (auto simp: node_keys_iff)
    show ?case
    proof (cases "\<exists>p \<in> set (sn_parents n). p \<in> node_keys B")
      case True
      then obtain p where p: "p \<in> node_keys B" "(p, b) \<in> causes (A @ B)"
        using n less.prems by (auto simp: causes_append_right [OF disj])
      then show ?thesis using less.IH by (meson trancl.trancl_into_trancl)
    next
      case False
      have "acyclic (causes A)" using acyc causes_append_left by (rule acyclic_subset)
      then obtain x where x: "x \<in> dag_heads A" "(a, x) \<in> (causes A)\<^sup>*"
        using below_a_head assms(4) by blast
      have "dag_heads A \<subseteq> set (sn_parents n)" using False n dom by (auto simp: dominates_def)
      with x(1) have "(x, b) \<in> causes (A @ B)"
        using n less.prems by (auto simp: causes_append_right [OF disj] dag_heads_def)
      moreover have "(a, x) \<in> (causes (A @ B))\<^sup>*"
        using x(2) rtrancl_mono [OF causes_append_left] by blast
      ultimately show ?thesis by simp
    qed
  qed
qed

lemma causes_append_prior:
  assumes disj: "node_keys A \<inter> node_keys B = {}" and acyc: "acyclic (causes (A @ B))"
    and dom: "dominates A B" and a: "a \<in> node_keys A"
  shows "(p, a) \<in> causes (A @ B) \<longleftrightarrow> (p, a) \<in> causes A"
proof
  assume c: "(p, a) \<in> causes (A @ B)"
  have "p \<notin> node_keys B"
  proof
    assume "p \<in> node_keys B"
    with dominated_above [OF disj acyc dom a] c have "(a, a) \<in> (causes (A @ B))\<^sup>+"
      by (meson trancl.trancl_into_trancl)
    with acyc show False by (simp add: acyclic_def)
  qed
  with c a show "(p, a) \<in> causes A"
    by (auto simp: causes_iff node_keys_iff map_add_Some_iff split: option.splits)
qed (use causes_append_left in auto)

lemma ready_of_prior:
  assumes disj: "node_keys A \<inter> node_keys B = {}" and acyc: "acyclic (causes (A @ B))"
    and dom: "dominates A B"
    and ord: "causal A order" "set order \<subseteq> node_keys A" "\<not> node_keys A \<subseteq> set order"
  shows "ready_of (A @ B) order = ready_of A order"
proof -
  have "b \<notin> ready_of (A @ B) order" if b: "b \<in> node_keys B" for b
  proof
    assume r: "b \<in> ready_of (A @ B) order"
    obtain n where n: "map_of B b = Some n" using b by (auto simp: node_keys_iff)
    have par: "p \<in> set order" if "p \<in> set (sn_parents n)" "p \<in> node_keys A \<union> node_keys B" for p
      using r that n b by (auto simp: ready_of_def causes_append_right [OF disj b])
    then have "\<not> (\<exists>p \<in> set (sn_parents n). p \<in> node_keys B)" using ord(2) disj by blast
    then have "dag_heads A \<subseteq> set (sn_parents n)" using dom n by (auto simp: dominates_def)
    then have heads: "dag_heads A \<subseteq> set order" using par by (auto simp: dag_heads_def)
    have "acyclic (causes A)" using acyc causes_append_left by (rule acyclic_subset)
    then have "node_keys A \<subseteq> set order"
      using heads causal_closed [OF ord(1)] below_a_head by blast
    with ord(3) show False by simp
  qed
  then show ?thesis
    using causes_append_prior [OF disj acyc dom]
    by (auto simp: ready_of_def node_keys_append)
qed

lemma ready_of_suffix:
  assumes disj: "node_keys A \<inter> node_keys B = {}"
    and ord: "set oA = node_keys A" "set order \<subseteq> node_keys B"
  shows "ready_of (A @ B) (oA @ order) = ready_of B order"
proof -
  have "(\<forall>p. (p, h) \<in> causes (A @ B) \<longrightarrow> p \<in> set (oA @ order)) \<longleftrightarrow>
        (\<forall>p. (p, h) \<in> causes B \<longrightarrow> p \<in> set order)" if h: "h \<in> node_keys B" for h
    using disj ord h
    by (fastforce simp: causes_append_right [OF disj h] causes_iff [of _ h B] node_keys_iff [of _ B])
  then show ?thesis
    using disj ord by (auto simp: ready_of_def node_keys_append)
qed


lemma greedy_prior:
  assumes disj: "node_keys A \<inter> node_keys B = {}" and acyc: "acyclic (causes (A @ B))"
    and dom: "dominates A B"
    and ord: "causal A order" "distinct order" "set order \<subseteq> node_keys A"
    and fuel: "fuel + length order = card (node_keys A)"
  shows "greedy fuel (A @ B) order = greedy fuel A order"
  using ord fuel
proof (induction fuel arbitrary: order)
  case (Suc fuel)
  have "length order = card (set order)" using Suc.prems(2) by (simp add: distinct_card)
  then have "\<not> node_keys A \<subseteq> set order"
    using Suc.prems(4) by (metis card_mono finite_set not_add_less2 not_le add_Suc le_imp_less_Suc)
  then have r: "ready_of (A @ B) order = ready_of A order"
    using Suc.prems by (intro ready_of_prior [OF disj acyc dom]) auto
  show ?case
  proof (cases "ready_of A order = {}")
    case False
    note h = Min_ready_of [OF False] Min_ready_ofD [OF False]
    have "greedy fuel (A @ B) (order @ [Min (ready_of A order)]) =
        greedy fuel A (order @ [Min (ready_of A order)])"
      using Suc.prems h by (intro Suc.IH) (auto intro: causal_snoc)
    with False r show ?thesis by simp
  qed (simp add: r)
qed simp

lemma greedy_suffix:
  assumes "node_keys A \<inter> node_keys B = {}" "set oA = node_keys A" "set order \<subseteq> node_keys B"
  shows "greedy fuel (A @ B) (oA @ order) = oA @ greedy fuel B order"
  using assms(3)
proof (induction fuel arbitrary: order)
  case (Suc fuel)
  note r = ready_of_suffix [OF assms(1,2) Suc.prems]
  show ?case
  proof (cases "ready_of B order = {}")
    case False
    have "greedy fuel (A @ B) (oA @ (order @ [Min (ready_of B order)])) =
        oA @ greedy fuel B (order @ [Min (ready_of B order)])"
      using Suc.prems Min_ready_ofD [OF False] by (intro Suc.IH) auto
    with False r show ?thesis by simp
  qed (simp add: r)
qed simp

lemma card_node_keys: "distinct (map fst ns) \<Longrightarrow> card (node_keys ns) = length ns"
  by (metis distinct_card length_map list.set_map node_keys_def)

lemma topo_order_extend:
  assumes dist: "distinct (map fst (A @ B))" and acyc: "acyclic (causes (A @ B))"
    and dom: "dominates A B"
  shows "topo_order (A @ B) = topo_order A @ topo_order B"
proof -
  have disj: "node_keys A \<inter> node_keys B = {}" and dA: "distinct (map fst A)" and dB: "distinct (map fst B)"
    using dist by (auto simp: node_keys_def)
  have acA: "acyclic (causes A)" using acyc causes_append_left by (rule acyclic_subset)
  have acB: "acyclic (causes B)"
  proof (rule acyclic_subset [OF acyc], rule subrelI)
    fix p h assume c: "(p, h) \<in> causes B"
    then have "h \<in> node_keys B" by (auto dest: causes_keys)
    with c show "(p, h) \<in> causes (A @ B)"
      by (auto simp: causes_append_right [OF disj] causes_iff [of _ _ B] node_keys_iff)
  qed
  have "greedy (length A) (A @ B) [] = greedy (length A) A []"
    by (rule greedy_prior [OF disj acyc dom]) (simp_all add: card_node_keys [OF dA])
  moreover have "greedy (length B) (A @ B) (greedy (length A) A []) =
      greedy (length A) A [] @ greedy (length B) B []"
    using greedy_suffix [OF disj greedy_complete [OF acA], of "[]"] by simp
  ultimately have "greedy (length A + length B) (A @ B) [] =
      greedy (length A) A [] @ greedy (length B) B []"
    by (simp add: greedy_add)
  then show ?thesis
    by (simp add: topo_order_acyclic dA dB dist acyc acA acB del: map_append)
qed

lemma topo_order_before:
  assumes "distinct (map fst ns)" "acyclic (causes ns)"
    and asm: "topo_order ns = xs @ h # ys" "(p, h) \<in> (causes ns)\<^sup>+"
  shows "p \<in> set xs"
proof -
  have c: "causal ns (topo_order ns)" using assms(1,2) by (rule topo_order_causal)
  from asm obtain q where q: "(p, q) \<in> (causes ns)\<^sup>*" "(q, h) \<in> causes ns" by (auto dest: tranclD2)
  with c asm obtain us vs where qx: "xs = us @ q # vs" by (metis causal_def split_list)
  have "causal ns xs"
    using c asm unfolding causal_def by (metis append.assoc append_Cons)
  with q qx show ?thesis using causal_closed [of ns xs q p] by simp
qed

section \<open>Properties\<close>

text \<open>Concrete cryptography for the examples of the development: addresses are the first byte of
  the operation, derived keys the last byte of the input, and every signature verifies.\<close>

definition demo_crypto :: crypto where
  "demo_crypto = \<lparr>blake3 = (\<lambda>b. b), blake3_hex = take 1, derive_key = (\<lambda>c b. [last b]),
     hex_decode = (\<lambda>s. Some (take 32 s)), key_usable = (\<lambda>_. True), verify_strict = (\<lambda>_ _ _. True)\<rparr>"

definition demo_key :: "char \<Rightarrow> string" where
  "demo_key c = replicate 64 c"

definition demo_event :: "string \<Rightarrow> char \<Rightarrow> string list \<Rightarrow> signed_node" where
  "demo_event o' c ps =
     \<lparr>sn_op = o', sn_author = demo_key c, sn_sig = replicate 64 (CHR ''s''), sn_parents = ps\<rparr>"

text \<open>The ancestors the worklist of \<open>compute_ancestors\<close> collects for a present node are
  exactly its transitive present parents, and nothing is recorded for an absent node.\<close>

theorem compute_ancestors_correct:
  "map_of (compute_ancestors ns) h =
     (if h \<in> node_keys ns then Some {a. (a, h) \<in> (causes ns)\<^sup>+} else None)"
  by (rule map_of_compute_ancestors)

text \<open>\<open>topo_order\<close> emits every node exactly once, whatever the graph, and when the parent
  links are acyclic (as content addresses are) it emits every causal ancestor of a node before the
  node.\<close>

theorem topo_order_total_and_causal:
  assumes "distinct (map fst ns)"
  shows "distinct (topo_order ns) \<and> set (topo_order ns) = node_keys ns \<and>
     (acyclic (causes ns) \<longrightarrow>
        (\<forall>xs h ys p. topo_order ns = xs @ h # ys \<and> (p, h) \<in> (causes ns)\<^sup>+ \<longrightarrow> p \<in> set xs))"
  using topo_order_perm [OF assms] topo_order_before [OF assms] by blast

definition demo_node :: "string \<Rightarrow> string list \<Rightarrow> signed_node" where
  "demo_node o' ps = \<lparr>sn_op = o', sn_author = ''dev'', sn_sig = [], sn_parents = ps\<rparr>"

definition demo_dag :: nodes where
  "demo_dag = [(''c'', demo_node ''c'' [''a'', ''b'']), (''b'', demo_node ''b'' [''a'']), (''a'', demo_node ''a'' [])]"

theorem topo_order_total_and_causal_witness:
  "distinct (map fst demo_dag) \<and> set (topo_order demo_dag) = {''a'', ''b'', ''c''}"
proof -
  have d: "distinct (map fst demo_dag)" by (simp add: demo_dag_def)
  show ?thesis
    using d topo_order_total_and_causal [OF d] by (auto simp: demo_dag_def node_keys_def)
qed

text \<open>The order depends on the set of nodes only, never on the iteration order of the hash
  map that holds them.\<close>

theorem topo_order_deterministic:
  assumes "distinct (map fst ns)" "mset ns = mset ms"
  shows "topo_order ns = topo_order ms"
  using assms by (rule topo_order_permute)

theorem topo_order_deterministic_witness:
  "topo_order demo_dag = topo_order (rev demo_dag) \<and> topo_order demo_dag = [''a'', ''b'', ''c'']"
proof -
  have d: "distinct (map fst demo_dag)" by (simp add: demo_dag_def)
  have "topo_order demo_dag = [''a'', ''b'', ''c'']" by code_simp
  then show ?thesis using topo_order_deterministic [OF d, of "rev demo_dag"] by simp
qed

end
