(* ===== verification/Actor.thy ===== *)
theory Actor
  imports Sigdag
begin

text \<open>
  The actor identity plane (\<^verbatim>\<open>crates/mechanics/src/actor.rs\<close>): which device keys speak for an
  actor. Events are indexed by content address, replayed in the deterministic order of Sigdag, and
  overridden by recovery-wins (device events concurrent with a valid \<open>Recover\<close> are struck) and
  revoke-wins (a revocation with no later re-add evicts the device).

  The \<open>postcard\<close> decoder is the argument \<open>dec\<close>; the signature and hash functions are the record
  \<open>crypto\<close>. \<open>replay_nodes\<close> is the body of \<open>replay_inner\<close> after the event index is built.
\<close>

section \<open>Events\<close>

definition ACTOR_DOMAIN :: bytes where "ACTOR_DOMAIN = ''lait/actor/1''"
definition CONSENT_DOMAIN :: bytes where "CONSENT_DOMAIN = ''lait/devbind/1''"
definition MAX_ACTOR_ASOF :: nat where "MAX_ACTOR_ASOF = 16"

record device_binding =
  db_device :: string
  db_nonce :: bytes
  db_consent :: bytes

abbreviation db_key :: "device_binding \<Rightarrow> string" where
  "db_key b \<equiv> device_key (db_device b)"

datatype actor_op =
    Incept string bytes "device_binding list" "bytes option"
  | AddDevice string device_binding
  | RevokeDevice string string
  | Recover string "device_binding list" "bytes option"

type_synonym actor_codec = "bytes \<Rightarrow> actor_op option"

fun op_actor :: "actor_op \<Rightarrow> string option" where
  "op_actor (Incept _ _ _ _) = None"
| "op_actor (AddDevice a _) = Some a"
| "op_actor (RevokeDevice a _) = Some a"
| "op_actor (Recover a _ _) = Some a"

definition from_incept_hash :: "string \<Rightarrow> string" where
  "from_incept_hash h = ''act_'' @ h"

section \<open>Consent\<close>

datatype consent_ctx =
    InceptCtx bytes "string list" "bytes option"
  | MemberCtx string

definition consent_payload :: "crypto \<Rightarrow> string \<Rightarrow> string \<Rightarrow> bytes \<Rightarrow> consent_ctx \<Rightarrow> bytes" where
  "consent_payload cr space device binding_nonce ctx =
     blake3 cr (CONSENT_DOMAIN @ space @ device @ binding_nonce @
       (case ctx of
          InceptCtx incept_nonce devices recovery_commit \<Rightarrow>
            ''incept'' @ incept_nonce @ concat (sort devices) @
            (case recovery_commit of Some c \<Rightarrow> ''rc'' @ c | None \<Rightarrow> ''norc'')
        | MemberCtx actor \<Rightarrow> ''member'' @ actor))"

definition hex_key :: "crypto \<Rightarrow> string \<Rightarrow> bytes option" where
  "hex_key cr s =
     (if length s \<noteq> 64 \<or> \<not> list_all is_ascii_hexdigit s then None
      else case hex_decode cr s of
             None \<Rightarrow> None
           | Some d \<Rightarrow> if length d = 32 then Some d else None)"

definition consent_verify :: "crypto \<Rightarrow> string \<Rightarrow> consent_ctx \<Rightarrow> device_binding \<Rightarrow> bool" where
  "consent_verify cr space ctx b =
     (case hex_key cr (db_device b) of
        None \<Rightarrow> False
      | Some pk \<Rightarrow>
          key_usable cr pk \<and> length (db_consent b) = 64 \<and>
          verify_strict cr pk (consent_payload cr space (db_device b) (db_nonce b) ctx) (db_consent b))"

definition recovery_commitment :: "crypto \<Rightarrow> string \<Rightarrow> bytes option" where
  "recovery_commitment cr recovery_pub = map_option (blake3 cr) (hex_key cr recovery_pub)"

section \<open>The directory\<close>

record actor_state =
  as_devices :: "string set"
  as_recovery_commit :: "bytes option"
  as_recovered :: bool

type_synonym directory = "(string, actor_state) btree_map"

definition is_device_of :: "directory \<Rightarrow> string \<Rightarrow> string \<Rightarrow> bool" where
  "is_device_of dir actor device =
     (case map_of dir actor of None \<Rightarrow> False | Some s \<Rightarrow> device_key device \<in> as_devices s)"

definition devices_of :: "directory \<Rightarrow> string \<Rightarrow> string set" where
  "devices_of dir actor = (case map_of dir actor of None \<Rightarrow> {} | Some s \<Rightarrow> as_devices s)"

fun actor_of_device_loop :: "directory \<Rightarrow> string \<Rightarrow> string option \<Rightarrow> string option" where
  "actor_of_device_loop [] device found = found"
| "actor_of_device_loop ((i, st) # rest) device found =
     (if device_key device \<in> as_devices st
      then (case found of Some _ \<Rightarrow> None | None \<Rightarrow> actor_of_device_loop rest device (Some i))
      else actor_of_device_loop rest device found)"

definition actor_of_device :: "directory \<Rightarrow> string \<Rightarrow> string option" where
  "actor_of_device dir device = actor_of_device_loop dir device None"

section \<open>Replay\<close>

definition index_nodes :: "crypto \<Rightarrow> bytes \<Rightarrow> string \<Rightarrow> signed_node list \<Rightarrow> nodes" where
  "index_nodes cr domain ws events =
     fold (\<lambda>ev ns. if verify_sig cr domain ws ev then hm_insert (node_address cr ev) ev ns else ns)
       events []"

definition op_at :: "(bytes \<Rightarrow> 'op option) \<Rightarrow> nodes \<Rightarrow> string \<Rightarrow> 'op option" where
  \<comment> \<open>\<open>decoded[h]\<close>: the decoded op of the indexed node\<close>
  "op_at dec ns h = (case map_of ns h of None \<Rightarrow> None | Some n \<Rightarrow> dec (sn_op n))"

definition author_at :: "nodes \<Rightarrow> string \<Rightarrow> string" where
  "author_at ns h = (case map_of ns h of None \<Rightarrow> [] | Some n \<Rightarrow> sn_author n)"

definition restrict_to :: "nodes \<Rightarrow> string list \<Rightarrow> nodes" where
  \<comment> \<open>the at-position restriction: the frontier and its ancestors\<close>
  "restrict_to ns front =
     (let ancestors = compute_ancestors ns;
          keep = (\<lambda>h. \<exists>f \<in> set front. map_of ns f \<noteq> None \<and> (h = f \<or> anc_contains ancestors f h))
      in filter (\<lambda>(h, _). keep h) ns)"

definition valid_incept :: "crypto \<Rightarrow> actor_codec \<Rightarrow> string \<Rightarrow> nodes \<Rightarrow> string \<Rightarrow> bool" where
  "valid_incept cr dec ws ns h =
     (case map_of ns h of
        None \<Rightarrow> False
      | Some n \<Rightarrow>
          (case dec (sn_op n) of
             Some (Incept space nonce devices recovery_commit) \<Rightarrow>
               space = ws \<and> sn_parents n = [] \<and>
               device_key (sn_author n) \<in> set (map db_key devices) \<and>
               list_all (consent_verify cr ws (InceptCtx nonce (map db_device devices) recovery_commit))
                 devices
           | _ \<Rightarrow> False))"

definition incepts_of :: "crypto \<Rightarrow> actor_codec \<Rightarrow> string \<Rightarrow> nodes \<Rightarrow> (string, string) btree_map" where
  "incepts_of cr dec ws ns =
     fold (\<lambda>h m. bm_insert (from_incept_hash h) h m)
       (filter (valid_incept cr dec ws ns) (map fst ns)) []"

definition belongs_to ::
  "(string, string) btree_map \<Rightarrow> (string \<times> string set) list \<Rightarrow> string \<Rightarrow> string \<Rightarrow> bool" where
  "belongs_to incepts ancestors h actor =
     (case map_of incepts actor of
        None \<Rightarrow> False
      | Some incept_h \<Rightarrow> incept_h = h \<or> anc_contains ancestors h incept_h)"

definition initial_commits ::
  "actor_codec \<Rightarrow> nodes \<Rightarrow> (string, string) btree_map \<Rightarrow> (string, bytes option) btree_map" where
  "initial_commits dec ns incepts =
     fold (\<lambda>(actor, h) m.
       case op_at dec ns h of
         Some (Incept _ _ _ rc) \<Rightarrow> bm_insert actor rc m
       | _ \<Rightarrow> m) incepts []"

definition recover_ok ::
  "crypto \<Rightarrow> string \<Rightarrow> nodes \<Rightarrow> (string, string) btree_map \<Rightarrow> (string \<times> string set) list \<Rightarrow>
   (string, bytes option) btree_map \<Rightarrow> string \<Rightarrow> string \<Rightarrow> device_binding list \<Rightarrow> bool" where
  "recover_ok cr ws ns incepts ancestors commits h actor devices =
     (case map_of incepts actor of
        None \<Rightarrow> False
      | Some incept_h \<Rightarrow>
          anc_contains ancestors h incept_h \<and>
          (case map_of commits actor of
             Some (Some commit) \<Rightarrow>
               recovery_commitment cr (author_at ns h) = Some commit \<and>
               list_all (consent_verify cr ws (MemberCtx actor)) devices
           | _ \<Rightarrow> False))"

fun valid_recovers_loop ::
  "crypto \<Rightarrow> actor_codec \<Rightarrow> string \<Rightarrow> nodes \<Rightarrow> (string, string) btree_map \<Rightarrow>
   (string \<times> string set) list \<Rightarrow> string list \<Rightarrow> (string, bytes option) btree_map \<Rightarrow>
   (string \<times> string) list" where
  "valid_recovers_loop cr dec ws ns incepts ancestors [] commits = []"
| "valid_recovers_loop cr dec ws ns incepts ancestors (h # order) commits =
     (case op_at dec ns h of
        Some (Recover actor devices next_commit) \<Rightarrow>
          if recover_ok cr ws ns incepts ancestors commits h actor devices
          then (h, actor) #
            valid_recovers_loop cr dec ws ns incepts ancestors order (bm_insert actor next_commit commits)
          else valid_recovers_loop cr dec ws ns incepts ancestors order commits
      | _ \<Rightarrow> valid_recovers_loop cr dec ws ns incepts ancestors order commits)"

definition valid_recovers ::
  "crypto \<Rightarrow> actor_codec \<Rightarrow> string \<Rightarrow> nodes \<Rightarrow> (string \<times> string) list" where
  "valid_recovers cr dec ws ns =
     valid_recovers_loop cr dec ws ns (incepts_of cr dec ws ns) (compute_ancestors ns) (topo_order ns)
       (initial_commits dec ns (incepts_of cr dec ws ns))"

definition struck_by ::
  "actor_codec \<Rightarrow> nodes \<Rightarrow> (string, string) btree_map \<Rightarrow> (string \<times> string set) list \<Rightarrow>
   string \<Rightarrow> string \<times> string \<Rightarrow> bool" where
  "struck_by dec ns incepts ancestors h r =
     (case (r, op_at dec ns h) of
        ((rh, r_actor), Some op) \<Rightarrow>
          h \<noteq> rh \<and>
          (case op of
             Incept _ _ _ _ \<Rightarrow> map_of incepts r_actor = Some h
           | _ \<Rightarrow> op_actor op = Some r_actor) \<and>
          (case op of Recover _ _ _ \<Rightarrow> False | _ \<Rightarrow> True) \<and>
          map_of incepts r_actor \<noteq> Some h \<and>
          \<not> anc_contains ancestors rh h \<and> \<not> anc_contains ancestors h rh
      | (_, None) \<Rightarrow> False)"

definition strikes_of :: "crypto \<Rightarrow> actor_codec \<Rightarrow> string \<Rightarrow> nodes \<Rightarrow> string \<Rightarrow> bool" where
  "strikes_of cr dec ws ns h =
     list_ex (struck_by dec ns (incepts_of cr dec ws ns) (compute_ancestors ns) h)
       (valid_recovers cr dec ws ns)"

record actor_pass =
  ap_states :: directory
  ap_adds :: "(string \<times> string \<times> string) list"
  ap_revokes :: "(string \<times> string \<times> string) list"
  ap_consumed :: "(string \<times> string \<times> bytes) set"

definition empty_pass :: actor_pass where
  "empty_pass = \<lparr>ap_states = [], ap_adds = [], ap_revokes = [], ap_consumed = {}\<rparr>"

definition seat_bindings :: "string \<Rightarrow> string \<Rightarrow> device_binding list \<Rightarrow> actor_pass \<Rightarrow> actor_pass" where
  \<comment> \<open>record every binding of an inception or recovery as consumed and added\<close>
  "seat_bindings actor h devices p =
     p\<lparr>ap_consumed := ap_consumed p \<union> set (map (\<lambda>b. (actor, db_key b, db_nonce b)) devices),
       ap_adds := ap_adds p @ map (\<lambda>b. (actor, db_key b, h)) devices\<rparr>"

definition pass_event ::
  "crypto \<Rightarrow> actor_codec \<Rightarrow> string \<Rightarrow> nodes \<Rightarrow> (string, string) btree_map \<Rightarrow>
   (string \<times> string set) list \<Rightarrow> (string \<times> string) list \<Rightarrow> string \<Rightarrow> actor_pass \<Rightarrow> actor_pass" where
  "pass_event cr dec ws ns incepts ancestors recovers h p =
     (case op_at dec ns h of
        None \<Rightarrow> p
      | Some (Incept _ _ devices recovery_commit) \<Rightarrow>
          let i = from_incept_hash h
          in if map_of incepts i \<noteq> Some h then p
             else (seat_bindings i h devices p)
               \<lparr>ap_states := bm_insert i
                  \<lparr>as_devices = set (map db_key devices), as_recovery_commit = recovery_commit,
                   as_recovered = False\<rparr> (ap_states p)\<rparr>
      | Some (AddDevice actor binding) \<Rightarrow>
          if \<not> belongs_to incepts ancestors h actor then p
          else (case map_of (ap_states p) actor of
             None \<Rightarrow> p
           | Some st \<Rightarrow>
               if device_key (author_at ns h) \<notin> as_devices st then p
               else if \<not> consent_verify cr ws (MemberCtx actor) binding then p
               else if (actor, db_key binding, db_nonce binding) \<in> ap_consumed p then p
               else p\<lparr>ap_consumed := insert (actor, db_key binding, db_nonce binding) (ap_consumed p),
                      ap_states := bm_insert actor
                        (st\<lparr>as_devices := insert (db_key binding) (as_devices st)\<rparr>) (ap_states p),
                      ap_adds := ap_adds p @ [(actor, db_key binding, h)]\<rparr>)
      | Some (RevokeDevice actor device) \<Rightarrow>
          if \<not> belongs_to incepts ancestors h actor then p
          else (case map_of (ap_states p) actor of
             None \<Rightarrow> p
           | Some st \<Rightarrow>
               if device_key (author_at ns h) \<notin> as_devices st then p
               else p\<lparr>ap_states := bm_insert actor
                        (st\<lparr>as_devices := as_devices st - {device_key device}\<rparr>) (ap_states p),
                      ap_revokes := ap_revokes p @ [(actor, device_key device, h)]\<rparr>)
      | Some (Recover actor devices next_commit) \<Rightarrow>
          if \<not> list_ex (\<lambda>(rh, _). rh = h) recovers then p
          else (case map_of (ap_states p) actor of
             None \<Rightarrow> p
           | Some st \<Rightarrow>
               (seat_bindings actor h devices p)
                 \<lparr>ap_states := bm_insert actor
                    \<lparr>as_devices = set (map db_key devices), as_recovery_commit = next_commit,
                     as_recovered = True\<rparr> (ap_states p)\<rparr>))"

definition actor_pass1 :: "crypto \<Rightarrow> actor_codec \<Rightarrow> string \<Rightarrow> nodes \<Rightarrow> actor_pass" where
  "actor_pass1 cr dec ws ns =
     fold (pass_event cr dec ws ns (incepts_of cr dec ws ns) (compute_ancestors ns)
             (valid_recovers cr dec ws ns))
       (filter (\<lambda>h. \<not> strikes_of cr dec ws ns h) (topo_order ns)) empty_pass"

definition readded ::
  "(string \<times> string set) list \<Rightarrow> (string \<times> string \<times> string) list \<Rightarrow> string \<times> string \<times> string \<Rightarrow> bool" where
  "readded ancestors adds r =
     (case r of (actor, device, rh) \<Rightarrow>
        list_ex (\<lambda>(a, d, ah). a = actor \<and> d = device \<and> anc_contains ancestors ah rh) adds)"

definition revoke_override ::
  "(string \<times> string set) list \<Rightarrow> (string \<times> string \<times> string) list \<Rightarrow> string \<times> string \<times> string \<Rightarrow>
   directory \<Rightarrow> directory" where
  "revoke_override ancestors adds r states =
     (if readded ancestors adds r then states
      else case r of (actor, device, rh) \<Rightarrow>
        (case map_of states actor of
           None \<Rightarrow> states
         | Some st \<Rightarrow> bm_insert actor (st\<lparr>as_devices := as_devices st - {device}\<rparr>) states))"

definition replay_nodes :: "crypto \<Rightarrow> actor_codec \<Rightarrow> string \<Rightarrow> nodes \<Rightarrow> directory" where
  "replay_nodes cr dec ws ns =
     (let p = actor_pass1 cr dec ws ns
      in fold (revoke_override (compute_ancestors ns) (ap_adds p)) (ap_revokes p) (ap_states p))"

definition replay_inner ::
  "crypto \<Rightarrow> actor_codec \<Rightarrow> string \<Rightarrow> signed_node list \<Rightarrow> string list option \<Rightarrow> directory" where
  "replay_inner cr dec ws events frontier =
     (let ns = index_nodes cr ACTOR_DOMAIN ws events
      in replay_nodes cr dec ws (case frontier of None \<Rightarrow> ns | Some front \<Rightarrow> restrict_to ns front))"

definition actor_replay :: "crypto \<Rightarrow> actor_codec \<Rightarrow> string \<Rightarrow> signed_node list \<Rightarrow> directory" where
  "actor_replay cr dec ws events = replay_inner cr dec ws events None"

definition replay_at ::
  "crypto \<Rightarrow> actor_codec \<Rightarrow> string \<Rightarrow> signed_node list \<Rightarrow> string list \<Rightarrow> directory" where
  "replay_at cr dec ws events frontier =
     (if length frontier > MAX_ACTOR_ASOF then [] else replay_inner cr dec ws events (Some frontier))"

section \<open>The event index\<close>

lemma index_nodes_fold:
  "fold (\<lambda>ev ns. if verify_sig cr domain ws ev then hm_insert (node_address cr ev) ev ns else ns) events ms =
     fold (\<lambda>ev. hm_insert (node_address cr ev) ev) (filter (verify_sig cr domain ws) events) ms"
  by (induction events arbitrary: ms) auto

lemma distinct_index_nodes: "distinct (map fst (index_nodes cr domain ws events))"
proof -
  have "distinct (map fst ms) \<Longrightarrow>
      distinct (map fst (fold (\<lambda>ev. hm_insert (node_address cr ev) ev) evs ms))" for evs ms
    by (induction evs arbitrary: ms) (auto simp: hm_insert_distinct)
  then show ?thesis by (simp add: index_nodes_def index_nodes_fold)
qed

text \<open>A list holds one node per content address. This is more than freedom from collisions of the hash: the
  address covers neither the signature nor the borders between operation, author and parents, so different nodes
  may have one preimage. A replica's ledger has it, because it keeps the effects it has verified in a map by
  their address (\<^verbatim>\<open>ledger.rs\<close>): \<open>held_by_address\<close>.\<close>

definition one_per_address :: "crypto \<Rightarrow> signed_node list \<Rightarrow> bool" where
  "one_per_address cr events \<longleftrightarrow>
     (\<forall>x \<in> set events. \<forall>y \<in> set events. node_address cr x = node_address cr y \<longrightarrow> x = y)"

lemma held_by_address: "(\<And>n. n \<in> set es \<Longrightarrow> held (node_address cr n) = Some n) \<Longrightarrow> one_per_address cr es"
  unfolding one_per_address_def by (metis option.inject)

text \<open>Why the condition is needed. Moving the author into the operation and a parent into the author's place
  keeps the address, and of two such nodes that both verify the index keeps the one that comes last: what a replay
  reads there, its author included, depends on the order of the log. The ledger keeps such pairs out by refusing
  nodes whose parents it does not hold; the replays themselves take any list.\<close>

lemma address_ignores_borders:
  fixes op author sig p ps sig'
  defines "n \<equiv> \<lparr>sn_op = op, sn_author = author, sn_sig = sig, sn_parents = p # ps\<rparr>"
    and "m \<equiv> \<lparr>sn_op = op @ author, sn_author = p, sn_sig = sig', sn_parents = ps\<rparr>"
  assumes "\<forall>q \<in> set ps. p \<le> q" "verify_sig cr domain ws n" "verify_sig cr domain ws m"
  shows "n \<noteq> m" "node_address cr m = node_address cr n"
    and "map_of (index_nodes cr domain ws (log @ [n, m])) (node_address cr n) = Some m"
    and "map_of (index_nodes cr domain ws (log @ [m, n])) (node_address cr n) = Some n"
proof -
  show "n \<noteq> m" unfolding n_def m_def by (metis not_Cons_self2 signed_node.select_convs(4))
  have "sort (p # ps) = p # sort ps" using assms(3) by (simp add: insort_is_Cons)
  then show same: "node_address cr m = node_address cr n" by (simp add: node_address_def n_def m_def)
  show "map_of (index_nodes cr domain ws (log @ [n, m])) (node_address cr n) = Some m"
    "map_of (index_nodes cr domain ws (log @ [m, n])) (node_address cr n) = Some n"
    using assms(4,5) by (simp_all add: index_nodes_def hm_get_insert same)
qed

text \<open>Only verified nodes are indexed.\<close>

lemma index_nodes_verified: "index_nodes cr domain ws (filter (verify_sig cr domain ws) es) = index_nodes cr domain ws es"
  by (simp add: index_nodes_def index_nodes_fold)

lemma index_nodes_get:
  assumes "one_per_address cr events"
  shows "map_of (index_nodes cr domain ws events) h = Some ev \<longleftrightarrow>
     ev \<in> set events \<and> verify_sig cr domain ws ev \<and> node_address cr ev = h"
proof -
  have *: "map_of (fold (\<lambda>ev. hm_insert (node_address cr ev) ev) evs ms) h =
      (if \<exists>ev \<in> set evs. node_address cr ev = h
       then Some (THE ev. ev \<in> set evs \<and> node_address cr ev = h) else map_of ms h)"
    if "set evs \<subseteq> set events" for evs ms
    using that
  proof (induction evs arbitrary: ms)
    case (Cons e evs)
    have uniq: "x = y" if "x \<in> set (e # evs)" "y \<in> set (e # evs)" "node_address cr x = node_address cr y" for x y
      using assms Cons.prems that unfolding one_per_address_def by blast
    show ?case
    proof (cases "\<exists>ev \<in> set evs. node_address cr ev = h")
      case True
      then obtain v where v: "v \<in> set evs" "node_address cr v = h" by blast
      have "(THE ev. ev \<in> set evs \<and> node_address cr ev = h) = v"
        "(THE ev. ev \<in> set (e # evs) \<and> node_address cr ev = h) = v"
        using v uniq by (intro the_equality; auto)+
      with True Cons show ?thesis by auto
    next
      case False
      have "(THE ev. ev \<in> set (e # evs) \<and> node_address cr ev = h) = e" if "node_address cr e = h"
        using that False by (intro the_equality) auto
      with False Cons show ?thesis by (auto simp: hm_get_insert)
    qed
  qed simp
  have "map_of (index_nodes cr domain ws events) h =
      (if \<exists>ev \<in> set (filter (verify_sig cr domain ws) events). node_address cr ev = h
       then Some (THE ev. ev \<in> set (filter (verify_sig cr domain ws) events) \<and> node_address cr ev = h)
       else None)"
    by (subst index_nodes_def, subst index_nodes_fold, subst *) auto
  moreover have "(THE ev. ev \<in> set (filter (verify_sig cr domain ws) events) \<and> node_address cr ev = h) = v"
    if "v \<in> set events" "verify_sig cr domain ws v" "node_address cr v = h" for v
    using assms that unfolding one_per_address_def by (intro the_equality) auto
  ultimately show ?thesis by auto
qed

lemma index_nodes_same:
  assumes "one_per_address cr es" "one_per_address cr es'" "set es = set es'"
  shows "map_of (index_nodes cr domain ws es) = map_of (index_nodes cr domain ws es')"
proof
  fix h
  have "map_of (index_nodes cr domain ws es) h = Some ev \<longleftrightarrow>
      map_of (index_nodes cr domain ws es') h = Some ev" for ev
    using assms by (simp add: index_nodes_get)
  then show "map_of (index_nodes cr domain ws es) h = map_of (index_nodes cr domain ws es') h"
    by (metis not_None_eq)
qed

lemma index_nodes_mono:
  assumes "set es \<subseteq> set es'" "one_per_address cr es" "one_per_address cr es'"
  shows "map_of (index_nodes cr domain ws es) \<subseteq>\<^sub>m map_of (index_nodes cr domain ws es')"
proof (unfold map_le_def, intro ballI)
  fix h assume "h \<in> dom (map_of (index_nodes cr domain ws es))"
  then obtain ev where ev: "map_of (index_nodes cr domain ws es) h = Some ev" by blast
  then have "map_of (index_nodes cr domain ws es') h = Some ev"
    using assms by (auto simp: index_nodes_get)
  with ev show "map_of (index_nodes cr domain ws es) h = map_of (index_nodes cr domain ws es') h" by simp
qed

section \<open>Replay depends on the node set only\<close>

lemma same_map_mset:
  assumes "distinct (map fst ns)" "distinct (map fst ms)" "map_of ns = map_of ms"
  shows "mset ns = mset ms"
proof -
  have "set ns = set ms" using assms by (metis map_of_inject_set)
  moreover have "distinct ns" "distinct ms" using assms by (simp_all add: distinct_map)
  ultimately show ?thesis by (simp add: set_eq_iff_mset_eq_distinct)
qed

lemma fold_insert_key_get:
  assumes "inj f"
  shows "map_of (fold (\<lambda>h m. bm_insert (f h) h m) hs m0) a =
     (if \<exists>h \<in> set hs. f h = a then Some (THE h. f h = a) else map_of m0 a)"
proof (induction hs arbitrary: m0)
  case (Cons h hs)
  have "(THE x. f x = f h) = h" using assms by (auto dest: injD)
  with Cons show ?case by (auto simp: bm_get_insert)
qed simp

lemma inj_from_incept_hash: "inj from_incept_hash"
  by (auto simp: inj_def from_incept_hash_def)

lemma incepts_of_get:
  "map_of (incepts_of cr dec ws ns) a = Some h \<longleftrightarrow> a = from_incept_hash h \<and> valid_incept cr dec ws ns h"
proof -
  have "valid_incept cr dec ws ns k \<Longrightarrow> k \<in> fst ` set ns" for k
    by (auto simp: valid_incept_def split: option.splits dest!: map_of_SomeD) force
  moreover have "(THE k. from_incept_hash k = from_incept_hash h) = h" for h
    using inj_from_incept_hash by (auto dest: injD)
  ultimately show ?thesis
    unfolding incepts_of_def fold_insert_key_get [OF inj_from_incept_hash] by auto
qed

lemma incepts_of_wf: "bm_wf (incepts_of cr dec ws ns)"
  unfolding incepts_of_def using bm.wf_fold_insert [of "[]" from_incept_hash "\<lambda>h. h"] by simp

lemma incepts_of_cong:
  assumes "map_of ns = map_of ms"
  shows "incepts_of cr dec ws ns = incepts_of cr dec ws ms"
proof (rule bm_ext [OF incepts_of_wf incepts_of_wf], rule ext)
  fix a
  have "valid_incept cr dec ws ns = valid_incept cr dec ws ms"
    by (simp add: valid_incept_def assms fun_eq_iff)
  then have "map_of (incepts_of cr dec ws ns) a = Some h \<longleftrightarrow> map_of (incepts_of cr dec ws ms) a = Some h" for h
    by (simp add: incepts_of_get)
  then show "map_of (incepts_of cr dec ws ns) a = map_of (incepts_of cr dec ws ms) a"
    by (metis not_None_eq)
qed

lemma anc_contains_cong:
  assumes "map_of ns = map_of ms"
  shows "anc_contains (compute_ancestors ns) = anc_contains (compute_ancestors ms)"
  by (simp add: fun_eq_iff anc_contains_iff causes_cong [OF assms])

lemma op_at_cong: "map_of ns = map_of ms \<Longrightarrow> op_at dec ns = op_at dec ms"
  by (simp add: op_at_def fun_eq_iff)

lemma author_at_cong: "map_of ns = map_of ms \<Longrightarrow> author_at ns = author_at ms"
  by (simp add: author_at_def fun_eq_iff)

lemmas node_congs = anc_contains_cong op_at_cong author_at_cong incepts_of_cong

lemma valid_recovers_loop_cong:
  assumes "map_of ns = map_of ms" "anc_contains A = anc_contains A'"
  shows "valid_recovers_loop cr dec ws ns incepts A order commits =
     valid_recovers_loop cr dec ws ms incepts A' order commits"
proof (induction order arbitrary: commits)
  case (Cons h order)
  have "recover_ok cr ws ns incepts A = recover_ok cr ws ms incepts A'"
    by (intro ext) (simp only: recover_ok_def assms(2) author_at_cong [OF assms(1)])
  with Cons show ?case
    by (simp add: op_at_cong [OF assms(1)] split: option.splits actor_op.splits)
qed simp

lemma replay_nodes_cong:
  assumes "distinct (map fst ns)" "distinct (map fst ms)" "map_of ns = map_of ms"
  shows "replay_nodes cr dec ws ns = replay_nodes cr dec ws ms"
proof -
  note c = node_congs [OF assms(3)]
  have topo: "topo_order ns = topo_order ms"
    using topo_order_permute [OF assms(1) same_map_mset [OF assms]] .
  have commits: "initial_commits dec ns = initial_commits dec ms"
    by (simp add: initial_commits_def fun_eq_iff c(2))
  have recovers: "valid_recovers cr dec ws ns = valid_recovers cr dec ws ms"
    unfolding valid_recovers_def topo commits c(4)
    by (rule valid_recovers_loop_cong [OF assms(3) c(1)])
  have "struck_by dec ns i (compute_ancestors ns) = struck_by dec ms i (compute_ancestors ms)" for i
    by (intro ext) (simp only: struck_by_def c)
  then have strikes: "strikes_of cr dec ws ns = strikes_of cr dec ws ms"
    by (intro ext) (simp only: strikes_of_def recovers c(4))
  have "pass_event cr dec ws ns i (compute_ancestors ns) = pass_event cr dec ws ms i (compute_ancestors ms)" for i
    by (intro ext) (simp only: pass_event_def belongs_to_def c)
  then have pass: "actor_pass1 cr dec ws ns = actor_pass1 cr dec ws ms"
    by (simp only: actor_pass1_def recovers strikes topo c(4))
  have "revoke_override (compute_ancestors ns) = revoke_override (compute_ancestors ms)"
    by (intro ext) (simp only: revoke_override_def readded_def c(1))
  then show ?thesis by (simp only: replay_nodes_def pass)
qed

section \<open>Provenance of devices\<close>

text \<open>What an event must be to seat a device: a valid inception of the actor, an \<open>AddDevice\<close> of
  it or a valid recovery of it, in each case with the device's own verified consent.\<close>

definition seats :: "crypto \<Rightarrow> actor_codec \<Rightarrow> string \<Rightarrow> nodes \<Rightarrow> string \<Rightarrow> string \<Rightarrow> string \<Rightarrow> bool" where
  "seats cr dec ws ns h actor device =
     (case op_at dec ns h of
        Some (Incept _ nonce devices rc) \<Rightarrow>
          actor = from_incept_hash h \<and> valid_incept cr dec ws ns h \<and>
          (\<exists>b \<in> set devices. db_key b = device \<and>
             consent_verify cr ws (InceptCtx nonce (map db_device devices) rc) b)
      | Some (AddDevice a b) \<Rightarrow>
          a = actor \<and> db_key b = device \<and> consent_verify cr ws (MemberCtx actor) b
      | Some (Recover a devices _) \<Rightarrow>
          a = actor \<and> (h, actor) \<in> set (valid_recovers cr dec ws ns) \<and>
          (\<exists>b \<in> set devices. db_key b = device \<and> consent_verify cr ws (MemberCtx actor) b)
      | _ \<Rightarrow> False)"

lemma valid_recovers_loop_mem:
  "(h, a) \<in> set (valid_recovers_loop cr dec ws ns incepts A order commits) \<Longrightarrow>
     \<exists>devices nc commits'. op_at dec ns h = Some (Recover a devices nc) \<and>
       recover_ok cr ws ns incepts A commits' h a devices"
  by (induction order arbitrary: commits)
    (auto split: option.splits actor_op.splits if_splits)

lemma valid_recovers_mem:
  assumes "(h, a) \<in> set (valid_recovers cr dec ws ns)"
  shows "\<exists>devices nc. op_at dec ns h = Some (Recover a devices nc) \<and>
     list_all (consent_verify cr ws (MemberCtx a)) devices \<and>
     (\<exists>i. valid_incept cr dec ws ns i \<and> a = from_incept_hash i \<and> (i, h) \<in> (causes ns)\<^sup>+)"
proof -
  obtain devices nc commits where
    op: "op_at dec ns h = Some (Recover a devices nc)" and
    ok: "recover_ok cr ws ns (incepts_of cr dec ws ns) (compute_ancestors ns) commits h a devices"
    using assms valid_recovers_loop_mem unfolding valid_recovers_def by blast
  from ok have "list_all (consent_verify cr ws (MemberCtx a)) devices"
    and "\<exists>i. map_of (incepts_of cr dec ws ns) a = Some i \<and> (i, h) \<in> (causes ns)\<^sup>+"
    by (auto simp: recover_ok_def anc_contains_iff split: option.splits)
  with op show ?thesis by (auto simp: incepts_of_get)
qed

definition pass_inv ::
  "crypto \<Rightarrow> actor_codec \<Rightarrow> string \<Rightarrow> nodes \<Rightarrow> string set \<Rightarrow> string set \<Rightarrow> actor_pass \<Rightarrow> bool" where
  "pass_inv cr dec ws ns A seen p \<longleftrightarrow>
     bm_wf (ap_states p) \<and>
     (\<forall>a st d. a \<in> A \<longrightarrow> map_of (ap_states p) a = Some st \<longrightarrow> d \<in> as_devices st \<longrightarrow>
        (\<exists>h \<in> seen. seats cr dec ws ns h a d \<and> (a, d, h) \<in> set (ap_adds p))) \<and>
     (\<forall>a st. map_of (ap_states p) a = Some st \<longrightarrow>
        (\<exists>i. valid_incept cr dec ws ns i \<and> a = from_incept_hash i))"

lemma seat_bindings_simps [simp]:
  "ap_states (seat_bindings a h devices p) = ap_states p"
  "ap_adds (seat_bindings a h devices p) = ap_adds p @ map (\<lambda>b. (a, db_key b, h)) devices"
  "ap_revokes (seat_bindings a h devices p) = ap_revokes p"
  "ap_consumed (seat_bindings a h devices p) =
     ap_consumed p \<union> set (map (\<lambda>b. (a, db_key b, db_nonce b)) devices)"
  by (simp_all add: seat_bindings_def)

lemma pass_inv_mono:
  assumes "pass_inv cr dec ws ns A seen p" "ap_states q = ap_states p" "seen \<subseteq> seen'"
    "set (ap_adds p) \<subseteq> set (ap_adds q)"
  shows "pass_inv cr dec ws ns A seen' q"
  unfolding pass_inv_def
proof (intro conjI allI impI)
  show "bm_wf (ap_states q)" using assms by (simp add: pass_inv_def)
next
  fix a st d assume "a \<in> A" "map_of (ap_states q) a = Some st" "d \<in> as_devices st"
  then obtain h where "h \<in> seen" "seats cr dec ws ns h a d" "(a, d, h) \<in> set (ap_adds p)"
    using assms(1,2) unfolding pass_inv_def by metis
  then show "\<exists>h \<in> seen'. seats cr dec ws ns h a d \<and> (a, d, h) \<in> set (ap_adds q)"
    using assms(3,4) by blast
next
  fix a st assume "map_of (ap_states q) a = Some st"
  then show "\<exists>i. valid_incept cr dec ws ns i \<and> a = from_incept_hash i"
    using assms(1,2) unfolding pass_inv_def by metis
qed

lemma pass_inv_update:
  \<comment> \<open>writing one actor's state, whose devices are each justified\<close>
  assumes inv: "pass_inv cr dec ws ns A seen p"
    and states: "ap_states q = bm_insert a st (ap_states p)"
    and adds: "set (ap_adds p) \<subseteq> set (ap_adds q)"
    and dev: "\<And>d. a \<in> A \<Longrightarrow> d \<in> as_devices st \<Longrightarrow>
        \<exists>h \<in> insert h0 seen. seats cr dec ws ns h a d \<and> (a, d, h) \<in> set (ap_adds q)"
    and exist: "\<exists>i. valid_incept cr dec ws ns i \<and> a = from_incept_hash i"
  shows "pass_inv cr dec ws ns A (insert h0 seen) q"
  unfolding pass_inv_def
proof (intro conjI allI impI)
  show "bm_wf (ap_states q)" using inv states by (simp add: pass_inv_def bm_wf_insert)
next
  fix a' st' d assume asm: "a' \<in> A" "map_of (ap_states q) a' = Some st'" "d \<in> as_devices st'"
  show "\<exists>h \<in> insert h0 seen. seats cr dec ws ns h a' d \<and> (a', d, h) \<in> set (ap_adds q)"
  proof (cases "a' = a")
    case True
    with asm states dev show ?thesis by (simp add: bm_get_insert)
  next
    case False
    with asm states have "map_of (ap_states p) a' = Some st'" by (simp add: bm_get_insert)
    with asm inv obtain h where "h \<in> seen" "seats cr dec ws ns h a' d" "(a', d, h) \<in> set (ap_adds p)"
      unfolding pass_inv_def by metis
    with adds show ?thesis by blast
  qed
next
  fix a' st' assume asm: "map_of (ap_states q) a' = Some st'"
  show "\<exists>i. valid_incept cr dec ws ns i \<and> a' = from_incept_hash i"
  proof (cases "a' = a")
    case False
    with asm states have "map_of (ap_states p) a' = Some st'" by (simp add: bm_get_insert)
    with inv show ?thesis unfolding pass_inv_def by blast
  qed (use exist in simp)
qed

lemma pass_inv_known:
  assumes "pass_inv cr dec ws ns A seen p" "map_of (ap_states p) a = Some st"
  shows "\<exists>i. valid_incept cr dec ws ns i \<and> a = from_incept_hash i"
    and "a \<in> A \<Longrightarrow> d \<in> as_devices st \<Longrightarrow> \<exists>h \<in> seen. seats cr dec ws ns h a d \<and> (a, d, h) \<in> set (ap_adds p)"
  using assms unfolding pass_inv_def by blast+

lemma pass_event_inv:
  assumes inv: "pass_inv cr dec ws ns A seen p"
  shows "pass_inv cr dec ws ns A (insert h seen)
     (pass_event cr dec ws ns (incepts_of cr dec ws ns) (compute_ancestors ns)
        (valid_recovers cr dec ws ns) h p)" (is "pass_inv cr dec ws ns A _ ?q")
proof -
  have same: ?thesis if "?q = p" using that pass_inv_mono [OF inv, of p] by auto
  show ?thesis
  proof (cases "op_at dec ns h")
    case None
    then show ?thesis by (intro same) (simp add: pass_event_def)
  next
    case (Some op)
    show ?thesis
    proof (cases op)
      case (Incept sp nonce devices rc)
      show ?thesis
      proof (cases "map_of (incepts_of cr dec ws ns) (from_incept_hash h) = Some h")
        case True
        then have vi: "valid_incept cr dec ws ns h" by (simp add: incepts_of_get)
        obtain n where n: "map_of ns h = Some n" "dec (sn_op n) = Some (Incept sp nonce devices rc)"
          using Some Incept by (auto simp: op_at_def split: option.splits)
        have consent: "b \<in> set devices \<Longrightarrow> consent_verify cr ws (InceptCtx nonce (map db_device devices) rc) b" for b
          using vi n by (auto simp: valid_incept_def list_all_iff)
        show ?thesis
          using True Some Incept vi consent
          by (intro pass_inv_update [OF inv])
            (auto simp: pass_event_def Let_def seats_def)
      next
        case False
        with Some Incept show ?thesis by (intro same) (simp add: pass_event_def Let_def)
      qed
    next
      case (AddDevice a b)
      show ?thesis
      proof (cases "?q = p")
        case False
        then obtain st where st: "map_of (ap_states p) a = Some st"
          "consent_verify cr ws (MemberCtx a) b"
          "?q = p\<lparr>ap_consumed := insert (a, db_key b, db_nonce b) (ap_consumed p),
                  ap_states := bm_insert a (st\<lparr>as_devices := insert (db_key b) (as_devices st)\<rparr>) (ap_states p),
                  ap_adds := ap_adds p @ [(a, db_key b, h)]\<rparr>"
          using Some AddDevice by (auto simp: pass_event_def split: if_splits option.splits)
        show ?thesis
          unfolding st(3)
          using Some AddDevice st(1,2) pass_inv_known [OF inv st(1)]
          by (intro pass_inv_update [OF inv, where a = a and st = "st\<lparr>as_devices := insert (db_key b) (as_devices st)\<rparr>"])
            (auto simp: seats_def)
      qed (rule same)
    next
      case (RevokeDevice a d)
      show ?thesis
      proof (cases "?q = p")
        case False
        then obtain st where st: "map_of (ap_states p) a = Some st"
          "?q = p\<lparr>ap_states := bm_insert a (st\<lparr>as_devices := as_devices st - {device_key d}\<rparr>) (ap_states p),
                  ap_revokes := ap_revokes p @ [(a, device_key d, h)]\<rparr>"
          using Some RevokeDevice by (auto simp: pass_event_def split: if_splits option.splits)
        show ?thesis
          unfolding st(2)
          using pass_inv_known [OF inv st(1)]
          by (intro pass_inv_update [OF inv, where a = a and st = "st\<lparr>as_devices := as_devices st - {device_key d}\<rparr>"]) auto
      qed (rule same)
    next
      case (Recover a devices nc)
      show ?thesis
      proof (cases "?q = p")
        case False
        then obtain st a' where st: "map_of (ap_states p) a = Some st"
          "(h, a') \<in> set (valid_recovers cr dec ws ns)"
          "?q = (seat_bindings a h devices p)\<lparr>ap_states := bm_insert a
             \<lparr>as_devices = set (map db_key devices), as_recovery_commit = nc, as_recovered = True\<rparr> (ap_states p)\<rparr>"
          using Some Recover by (auto simp: pass_event_def list_ex_iff split: if_splits option.splits)
        from valid_recovers_mem [OF st(2)] Some Recover
        have "a' = a" and consent: "\<And>b. b \<in> set devices \<Longrightarrow> consent_verify cr ws (MemberCtx a) b"
          by (auto simp: list_all_iff)
        show ?thesis
          unfolding st(3)
          using Some Recover st(2) \<open>a' = a\<close> consent pass_inv_known(1) [OF inv st(1)]
          by (intro pass_inv_update [OF inv]) (auto simp: seats_def)
      qed (rule same)
    qed
  qed
qed

abbreviation replay_event ::
  "crypto \<Rightarrow> actor_codec \<Rightarrow> string \<Rightarrow> nodes \<Rightarrow> string \<Rightarrow> actor_pass \<Rightarrow> actor_pass" where
  "replay_event cr dec ws ns \<equiv>
     pass_event cr dec ws ns (incepts_of cr dec ws ns) (compute_ancestors ns) (valid_recovers cr dec ws ns)"

lemma fold_event_inv:
  "pass_inv cr dec ws ns A seen p \<Longrightarrow>
     pass_inv cr dec ws ns A (set hs \<union> seen) (fold (replay_event cr dec ws ns) hs p)"
proof (induction hs arbitrary: seen p)
  case (Cons h hs)
  from Cons.IH [OF pass_event_inv [OF Cons.prems, of h]] show ?case by simp
qed simp

lemma empty_pass_inv: "pass_inv cr dec ws ns A seen empty_pass"
  by (simp add: pass_inv_def empty_pass_def)

lemma actor_pass1_inv:
  assumes "distinct (map fst ns)"
  shows "pass_inv cr dec ws ns A {h \<in> node_keys ns. \<not> strikes_of cr dec ws ns h} (actor_pass1 cr dec ws ns)"
proof -
  have "set (filter (\<lambda>h. \<not> strikes_of cr dec ws ns h) (topo_order ns)) =
      {h \<in> node_keys ns. \<not> strikes_of cr dec ws ns h}"
    using topo_order_perm [OF assms] by auto
  with fold_event_inv [OF empty_pass_inv [where seen = "{}"]] show ?thesis
    by (metis (no_types, lifting) actor_pass1_def sup_bot_right)
qed

lemma revoke_override_devices:
  "map_of (revoke_override A adds r states) a = Some st \<Longrightarrow>
     \<exists>st'. map_of states a = Some st' \<and> as_devices st \<subseteq> as_devices st'"
  by (auto simp: revoke_override_def bm_get_insert split: if_splits prod.splits option.splits)

lemma fold_revoke_devices:
  "map_of (fold (revoke_override A adds) rs states) a = Some st \<Longrightarrow>
     \<exists>st'. map_of states a = Some st' \<and> as_devices st \<subseteq> as_devices st'"
proof (induction rs arbitrary: states)
  case (Cons r rs)
  from Cons.IH [of "revoke_override A adds r states"] Cons.prems
  obtain st' where "map_of (revoke_override A adds r states) a = Some st'" "as_devices st \<subseteq> as_devices st'"
    by auto
  with revoke_override_devices show ?case by (meson order_trans)
qed auto

lemma fold_revoke_wins:
  assumes "(a, device_key d, rh) \<in> set rs" "\<not> readded A adds (a, device_key d, rh)"
  shows "\<not> is_device_of (fold (revoke_override A adds) rs states) a d"
  using assms(1)
proof (induction rs arbitrary: states)
  case (Cons r rs)
  show ?case
  proof (cases "r = (a, device_key d, rh)")
    case True
    have no: "device_key d \<notin> as_devices st" if "map_of (revoke_override A adds r states) a = Some st" for st
      using that assms(2) True
      by (auto simp: revoke_override_def bm_get_insert split: option.splits)
    show ?thesis
      using no fold_revoke_devices [of A adds rs "revoke_override A adds r states" a]
      by (fastforce simp: is_device_of_def split: option.splits)
  qed (use Cons in simp)
qed simp

lemma not_struck_comparable:
  assumes "\<not> strikes_of cr dec ws ns h" "(rh, a) \<in> set (valid_recovers cr dec ws ns)"
    and "op_at dec ns h = Some op" "op_actor op = Some a" "\<forall>x y z. op \<noteq> Recover x y z"
  shows "(h, rh) \<in> (causes ns)\<^sup>+ \<or> (rh, h) \<in> (causes ns)\<^sup>+"
proof -
  have "\<not> struck_by dec ns (incepts_of cr dec ws ns) (compute_ancestors ns) h (rh, a)"
    using assms(1,2) by (auto simp: strikes_of_def list_ex_iff)
  moreover have "h \<noteq> rh" using valid_recovers_mem [OF assms(2)] assms(3,5) by auto
  moreover have "\<not> valid_incept cr dec ws ns h"
    using assms(3,4) by (auto simp: valid_incept_def op_at_def split: option.splits actor_op.splits)
  ultimately show ?thesis
    using assms(3-5) by (cases op) (auto simp: struck_by_def anc_contains_iff incepts_of_get)
qed

section \<open>Restriction to a frontier\<close>

lemma restrict_to_get:
  "distinct (map fst ns) \<Longrightarrow>
   map_of (restrict_to ns front) h =
     (if \<exists>f \<in> set front. f \<in> node_keys ns \<and> (h, f) \<in> (causes ns)\<^sup>* then map_of ns h else None)"
proof -
  assume d: "distinct (map fst ns)"
  have filt: "map_of (filter (\<lambda>(h, _). P h) ms) h = (if P h then map_of ms h else None)" for P and ms :: nodes
    by (induction ms) auto
  have "(h = f \<or> anc_contains (compute_ancestors ns) f h) \<longleftrightarrow> (h, f) \<in> (causes ns)\<^sup>*" for f h
    by (auto simp: anc_contains_iff rtrancl_eq_or_trancl)
  then show ?thesis
    by (simp add: restrict_to_def filt node_keys_iff)
qed

lemma distinct_restrict_to: "distinct (map fst ns) \<Longrightarrow> distinct (map fst (restrict_to ns front))"
  by (simp add: restrict_to_def Let_def distinct_map_filter)

lemma restrict_to_cong:
  assumes "distinct (map fst ns)" "distinct (map fst ms)" and same: "map_of ns = map_of ms"
  shows "map_of (restrict_to ns front) = map_of (restrict_to ms front)"
proof -
  have "node_keys ns = node_keys ms" by (rule set_eqI) (simp only: node_keys_iff same)
  then show ?thesis
    by (intro ext) (simp only: restrict_to_get [OF assms(1)] restrict_to_get [OF assms(2)] same causes_cong [OF same])
qed

text \<open>A node set holds a frontier completely when it has every frontier node and every parent of
  a node in the frontier's causal past.\<close>

definition holds_past :: "nodes \<Rightarrow> string list \<Rightarrow> bool" where
  "holds_past ns front \<longleftrightarrow>
     set front \<subseteq> node_keys ns \<and>
     (\<forall>f \<in> set front. \<forall>h n. (h, f) \<in> (causes ns)\<^sup>* \<longrightarrow> map_of ns h = Some n \<longrightarrow>
        set (sn_parents n) \<subseteq> node_keys ns)"

lemma holds_past_closure:
  assumes sub: "map_of ns \<subseteq>\<^sub>m map_of ms" and past: "holds_past ns front" and f: "f \<in> set front"
  shows "(h, f) \<in> (causes ms)\<^sup>* \<longleftrightarrow> (h, f) \<in> (causes ns)\<^sup>*"
proof
  have mono: "causes ns \<subseteq> causes ms"
    using sub by (fastforce simp: causes_iff map_le_def dom_def)
  show "(h, f) \<in> (causes ns)\<^sup>* \<Longrightarrow> (h, f) \<in> (causes ms)\<^sup>*"
    using rtrancl_mono [OF mono] by blast
  assume "(h, f) \<in> (causes ms)\<^sup>*"
  then show "(h, f) \<in> (causes ns)\<^sup>*"
  proof (induction rule: converse_rtrancl_induct)
    case (step y z)
    have "z \<in> node_keys ns"
      using step.IH f past by (cases "z = f") (auto simp: holds_past_def rtrancl_eq_or_trancl dest: tranclD causes_keys)
    then obtain n where n: "map_of ns z = Some n" by (auto simp: node_keys_iff)
    then have "map_of ms z = Some n" using sub by (auto simp: map_le_def dom_def)
    with step.hyps(1) have "y \<in> set (sn_parents n)" by (auto simp: causes_iff)
    moreover have "set (sn_parents n) \<subseteq> node_keys ns"
      using n step.IH f past unfolding holds_past_def by blast
    ultimately have "(y, z) \<in> causes ns"
      using n by (auto simp: causes_iff node_keys_iff)
    from converse_rtrancl_into_rtrancl [OF this step.IH] show ?case .
  qed simp
qed

lemma restrict_to_local:
  assumes "distinct (map fst ns)" "distinct (map fst ms)" "map_of ns \<subseteq>\<^sub>m map_of ms" "holds_past ns front"
  shows "map_of (restrict_to ns front) = map_of (restrict_to ms front)"
proof
  fix h
  have cl: "(\<exists>f \<in> set front. f \<in> node_keys ms \<and> (h, f) \<in> (causes ms)\<^sup>*) \<longleftrightarrow>
      (\<exists>f \<in> set front. f \<in> node_keys ns \<and> (h, f) \<in> (causes ns)\<^sup>*)"
  proof -
    have "f \<in> node_keys ns" "f \<in> node_keys ms" if "f \<in> set front" for f
    proof -
      show "f \<in> node_keys ns" using assms(4) that by (auto simp: holds_past_def)
      then show "f \<in> node_keys ms" using assms(3) by (auto simp: node_keys_iff map_le_def dom_def)
    qed
    then show ?thesis using holds_past_closure [OF assms(3,4)] by blast
  qed
  have "map_of ns h = map_of ms h" if "f \<in> set front" "f \<in> node_keys ns" "(h, f) \<in> (causes ns)\<^sup>*" for f
  proof -
    have "h \<in> node_keys ns"
      using that(3) by (cases rule: converse_rtranclE) (use that in \<open>auto dest: causes_keys\<close>)
    then show ?thesis using assms(3) by (auto simp: node_keys_iff map_le_def dom_def)
  qed
  then show "map_of (restrict_to ns front) h = map_of (restrict_to ms front) h"
    using cl by (auto simp: restrict_to_get assms(1,2))
qed

section \<open>Recovery\<close>

lemma pass_event_known:
  "map_of (ap_states p) a \<noteq> None \<Longrightarrow> map_of (ap_states (replay_event cr dec ws ns h p)) a \<noteq> None"
  by (auto simp: pass_event_def bm_get_insert Let_def split: option.splits actor_op.splits)

lemma fold_event_known:
  "map_of (ap_states p) a \<noteq> None \<Longrightarrow> map_of (ap_states (fold (replay_event cr dec ws ns) hs p)) a \<noteq> None"
  by (induction hs arbitrary: p) (use pass_event_known in auto)

lemma incept_known:
  assumes "valid_incept cr dec ws ns i"
  shows "map_of (ap_states (replay_event cr dec ws ns i p)) (from_incept_hash i) \<noteq> None"
proof -
  obtain sp nonce devices rc where "op_at dec ns i = Some (Incept sp nonce devices rc)"
    using assms by (auto simp: valid_incept_def op_at_def split: option.splits actor_op.splits)
  then show ?thesis
    using assms incepts_of_get [of cr dec ws ns "from_incept_hash i" i]
    by (simp add: pass_event_def Let_def bm_get_insert)
qed

lemma incept_not_struck: "valid_incept cr dec ws ns i \<Longrightarrow> \<not> strikes_of cr dec ws ns i"
  by (auto simp: strikes_of_def struck_by_def list_ex_iff valid_incept_def op_at_def
      split: option.splits actor_op.splits)

lemma recover_not_struck: "(rh, a) \<in> set (valid_recovers cr dec ws ns) \<Longrightarrow> \<not> strikes_of cr dec ws ns rh"
  by (auto dest!: valid_recovers_mem simp: strikes_of_def struck_by_def list_ex_iff)

lemma recover_resets:
  assumes r: "(rh, a) \<in> set (valid_recovers cr dec ws ns)"
    and known: "map_of (ap_states p) a \<noteq> None" and wf: "pass_inv cr dec ws ns {} {} p"
  shows "pass_inv cr dec ws ns {a} {rh} (replay_event cr dec ws ns rh p)"
proof -
  obtain devices nc where op: "op_at dec ns rh = Some (Recover a devices nc)"
    and consent: "list_all (consent_verify cr ws (MemberCtx a)) devices"
    using valid_recovers_mem [OF r] by blast
  obtain st where st: "map_of (ap_states p) a = Some st" using known by blast
  have q: "replay_event cr dec ws ns rh p =
      (seat_bindings a rh devices p)\<lparr>ap_states := bm_insert a
         \<lparr>as_devices = set (map db_key devices), as_recovery_commit = nc, as_recovered = True\<rparr> (ap_states p)\<rparr>"
    using op r st by (auto simp: pass_event_def list_ex_iff)
  have "bm_wf (bm_insert a \<lparr>as_devices = set (map db_key devices), as_recovery_commit = nc, as_recovered = True\<rparr> (ap_states p))"
    using wf by (simp add: pass_inv_def bm_wf_insert)
  moreover have "seats cr dec ws ns rh a (db_key b)" if "b \<in> set devices" for b
    using that op r consent by (auto simp: seats_def list_all_iff)
  moreover have "\<exists>i. valid_incept cr dec ws ns i \<and> a = from_incept_hash i"
    using wf st unfolding pass_inv_def by blast
  moreover have "\<exists>i. valid_incept cr dec ws ns i \<and> a' = from_incept_hash i"
    if "map_of (ap_states p) a' = Some st'" for a' st'
    using wf that unfolding pass_inv_def by blast
  ultimately show ?thesis
    unfolding q by (auto simp: pass_inv_def bm_get_insert split: if_splits)
qed

lemma recovery_supersedes:
  assumes d: "distinct (map fst ns)" and ac: "acyclic (causes ns)"
    and r: "(rh, a) \<in> set (valid_recovers cr dec ws ns)"
    and st: "map_of (ap_states (actor_pass1 cr dec ws ns)) a = Some st" "dev \<in> as_devices st"
  shows "\<exists>h. seats cr dec ws ns h a dev \<and>
     ((h, a) \<in> set (valid_recovers cr dec ws ns) \<or> (rh, h) \<in> (causes ns)\<^sup>+)"
proof -
  let ?P = "\<lambda>h. \<not> strikes_of cr dec ws ns h" and ?E = "replay_event cr dec ws ns"
  obtain i where i: "valid_incept cr dec ws ns i" "a = from_incept_hash i" "(i, rh) \<in> (causes ns)\<^sup>+"
    using valid_recovers_mem [OF r] by blast
  have "rh \<in> set (topo_order ns)"
    using i(3) topo_order_perm [OF d] by (auto dest: tranclD2 causes_keys)
  then obtain xs ys where o: "topo_order ns = xs @ rh # ys" by (meson split_list)
  have ix: "i \<in> set xs" using topo_order_before [OF d ac o i(3)] .
  let ?p = "fold ?E (filter ?P xs) empty_pass"
  have "i \<in> set (filter ?P xs)" using ix incept_not_struck [OF i(1)] by simp
  then obtain us vs where "filter ?P xs = us @ i # vs" by (meson split_list)
  then have known: "map_of (ap_states ?p) a \<noteq> None"
    using fold_event_known [OF incept_known [OF i(1)]] i(2) by simp
  have "pass_inv cr dec ws ns {} {} ?p"
    using fold_event_inv [OF empty_pass_inv, of cr dec ws ns "{}" "filter ?P xs" "{}"]
    by (auto simp: pass_inv_def)
  from fold_event_inv [OF recover_resets [OF r known this], of "filter ?P ys"]
  have inv: "pass_inv cr dec ws ns {a} (set (filter ?P ys) \<union> {rh}) (actor_pass1 cr dec ws ns)"
    using recover_not_struck [OF r] by (simp add: actor_pass1_def o)
  obtain h where h: "h \<in> set (filter ?P ys) \<union> {rh}" "seats cr dec ws ns h a dev"
    using pass_inv_known(2) [OF inv st(1) _ st(2)] by blast
  show ?thesis
  proof (cases "(h, a) \<in> set (valid_recovers cr dec ws ns)")
    case False
    with h r have hy: "h \<in> set ys" "?P h" by auto
    have "h \<notin> set xs" using topo_order_perm [OF d] o hy by auto
    then have no: "(h, rh) \<notin> (causes ns)\<^sup>+" using topo_order_before [OF d ac o] by blast
    have "h \<noteq> i" using \<open>h \<notin> set xs\<close> ix by blast
    with h(2) i(2) False obtain b where "op_at dec ns h = Some (AddDevice a b)"
      by (auto simp: seats_def from_incept_hash_def split: option.splits actor_op.splits)
    with not_struck_comparable [OF hy(2) r] no have "(rh, h) \<in> (causes ns)\<^sup>+" by simp
    with h(2) show ?thesis by blast
  qed (use h in blast)
qed

lemma replay_device_pass1:
  assumes "is_device_of (replay_nodes cr dec ws ns) a d"
  obtains st where "map_of (ap_states (actor_pass1 cr dec ws ns)) a = Some st" "device_key d \<in> as_devices st"
  using assms fold_revoke_devices
  by (fastforce simp: is_device_of_def replay_nodes_def Let_def split: option.splits)

section \<open>Single use of consents\<close>

definition consent_of :: "actor_codec \<Rightarrow> nodes \<Rightarrow> string \<Rightarrow> (string \<times> string \<times> bytes) option" where
  "consent_of dec ns h =
     (case op_at dec ns h of
        Some (AddDevice a b) \<Rightarrow> Some (a, db_key b, db_nonce b) | _ \<Rightarrow> None)"

definition adders :: "actor_pass \<Rightarrow> string set" where
  "adders p = (\<lambda>x. snd (snd x)) ` set (ap_adds p)"

definition used_once :: "actor_codec \<Rightarrow> nodes \<Rightarrow> string set \<Rightarrow> actor_pass \<Rightarrow> bool" where
  "used_once dec ns seen p \<longleftrightarrow>
     adders p \<subseteq> seen \<and>
     (\<forall>h \<in> adders p. \<forall>k. consent_of dec ns h = Some k \<longrightarrow> k \<in> ap_consumed p) \<and>
     (\<forall>h \<in> adders p. \<forall>h' \<in> adders p. \<forall>k.
        consent_of dec ns h = Some k \<longrightarrow> consent_of dec ns h' = Some k \<longrightarrow> h = h')"

lemma used_once_grow:
  \<comment> \<open>an event whose consent is unused, or that carries none\<close>
  assumes inv: "used_once dec ns seen p" and cons: "ap_consumed p \<subseteq> ap_consumed q"
    and adders: "adders q \<subseteq> insert h (adders p)"
    and fresh: "\<And>k. consent_of dec ns h = Some k \<Longrightarrow> k \<notin> ap_consumed p \<and> k \<in> ap_consumed q"
  shows "used_once dec ns (insert h seen) q"
  unfolding used_once_def
proof (intro conjI ballI allI impI)
  show "adders q \<subseteq> insert h seen" using inv adders unfolding used_once_def by blast
next
  fix g k assume "g \<in> adders q" "consent_of dec ns g = Some k"
  then show "k \<in> ap_consumed q" using inv cons adders fresh unfolding used_once_def by blast
next
  fix g g' k assume g: "g \<in> adders q" "g' \<in> adders q" "consent_of dec ns g = Some k" "consent_of dec ns g' = Some k"
  show "g = g'"
  proof (cases "g = h \<or> g' = h")
    case True
    then have "k \<notin> ap_consumed p" using fresh [of k] g by metis
    then have "g \<notin> adders p" "g' \<notin> adders p" using inv g unfolding used_once_def by blast+
    with g adders show ?thesis by blast
  next
    case False
    then have "g \<in> adders p" "g' \<in> adders p" using g adders by blast+
    with inv g show ?thesis unfolding used_once_def by blast
  qed
qed

lemma used_once_step:
  assumes inv: "used_once dec ns seen p"
  shows "used_once dec ns (insert h seen) (replay_event cr dec ws ns h p)" (is "used_once _ _ _ ?q")
proof (cases "op_at dec ns h")
  case None
  then show ?thesis
    by (intro used_once_grow [OF inv]) (auto simp: pass_event_def consent_of_def)
next
  case (Some op)
  show ?thesis
  proof (cases "adders ?q \<subseteq> adders p \<and> ap_consumed ?q = ap_consumed p")
    case True
    then show ?thesis using inv unfolding used_once_def by (metis (no_types, lifting) subset_iff subset_insertI2)
  next
    case False
    then show ?thesis
      using Some
      by (intro used_once_grow [OF inv])
        (auto simp: pass_event_def adders_def consent_of_def Let_def image_image image_Un
           split: actor_op.splits if_splits option.splits)
  qed
qed

lemma used_once_pass1: "used_once dec ns UNIV (actor_pass1 cr dec ws ns)"
proof -
  have step: "used_once dec ns UNIV p \<Longrightarrow> used_once dec ns UNIV (fold (replay_event cr dec ws ns) hs p)" for hs p
  proof (induction hs arbitrary: p)
    case (Cons h hs)
    from used_once_step [OF Cons.prems, of h cr ws] Cons.IH show ?case by simp
  qed simp
  show ?thesis
    unfolding actor_pass1_def by (rule step) (simp add: used_once_def adders_def empty_pass_def)
qed

section \<open>Looking devices up\<close>

lemma actor_of_device_loop_Some:
  "bm_wf dir \<Longrightarrow> actor_of_device_loop dir d (Some f) = Some a \<longleftrightarrow>
     a = f \<and> (\<forall>st \<in> snd ` set dir. device_key d \<notin> as_devices st)"
  by (induction dir d "Some f" rule: actor_of_device_loop.induct) (auto simp: bm_wf_def)

lemma actor_of_device_loop_None:
  "bm_wf dir \<Longrightarrow> actor_of_device_loop dir d None = Some a \<longleftrightarrow> {a'. is_device_of dir a' d} = {a}"
proof (induction dir)
  case (Cons x dir)
  obtain i st where x: "x = (i, st)" by force
  have wf: "bm_wf dir" and i: "map_of dir i = None"
    using Cons.prems x by (auto simp: bm_wf_def map_of_eq_None_iff)
  have dev: "is_device_of ((i, st) # dir) a' d \<longleftrightarrow> (if a' = i then device_key d \<in> as_devices st else is_device_of dir a' d)" for a'
    by (simp add: is_device_of_def)
  have none: "(\<forall>st \<in> snd ` set dir. device_key d \<notin> as_devices st) \<longleftrightarrow> {a'. is_device_of dir a' d} = {}"
  proof
    assume "\<forall>st \<in> snd ` set dir. device_key d \<notin> as_devices st"
    then show "{a'. is_device_of dir a' d} = {}"
      by (auto simp: is_device_of_def split: option.splits dest!: map_of_SomeD)
  next
    assume no: "{a'. is_device_of dir a' d} = {}"
    have "device_key d \<notin> as_devices st" if "(a', st) \<in> set dir" for a' st
    proof -
      have "map_of dir a' = Some st" using that bm_get_iff [OF wf] by blast
      moreover have "\<not> is_device_of dir a' d" using no by blast
      ultimately show ?thesis by (simp add: is_device_of_def)
    qed
    then show "\<forall>st \<in> snd ` set dir. device_key d \<notin> as_devices st" by auto
  qed
  have ni: "\<not> is_device_of dir i d" using i by (simp add: is_device_of_def)
  show ?case
  proof (cases "device_key d \<in> as_devices st")
    case True
    let ?S = "{a'. is_device_of dir a' d}"
    have "{a'. is_device_of ((i, st) # dir) a' d} = insert i ?S" using True by (auto simp: dev)
    moreover have "insert i ?S = {a} \<longleftrightarrow> a = i \<and> ?S = {}" using ni by blast
    ultimately show ?thesis
      using True actor_of_device_loop_Some [OF wf, of d i a] none by (simp only: x) simp
  next
    case False
    with ni have "{a'. is_device_of ((i, st) # dir) a' d} = {a'. is_device_of dir a' d}"
      by (auto simp: dev)
    with False Cons.IH [OF wf] show ?thesis by (simp add: x)
  qed
qed (simp add: is_device_of_def)

lemma replay_nodes_wf: "distinct (map fst ns) \<Longrightarrow> bm_wf (replay_nodes cr dec ws ns)"
proof -
  have "bm_wf s \<Longrightarrow> bm_wf (fold (revoke_override A adds) rs s)" for A adds rs s
    by (induction rs arbitrary: s) (auto simp: revoke_override_def bm_wf_insert split: option.splits)
  moreover assume "distinct (map fst ns)"
  ultimately show ?thesis
    using actor_pass1_inv by (auto simp: replay_nodes_def Let_def pass_inv_def)
qed

lemma replay_same_events:
  assumes "set events = set events'" "one_per_address cr events"
  shows "actor_replay cr dec ws events = actor_replay cr dec ws events' \<and>
     replay_at cr dec ws events front = replay_at cr dec ws events' front"
proof -
  have same: "map_of (index_nodes cr ACTOR_DOMAIN ws events) = map_of (index_nodes cr ACTOR_DOMAIN ws events')"
    using assms by (intro index_nodes_same) (auto simp: one_per_address_def)
  have "map_of (restrict_to (index_nodes cr ACTOR_DOMAIN ws events) front) =
      map_of (restrict_to (index_nodes cr ACTOR_DOMAIN ws events') front)"
    by (rule restrict_to_cong [OF distinct_index_nodes distinct_index_nodes same])
  note rs = replay_nodes_cong [OF distinct_restrict_to [OF distinct_index_nodes]
      distinct_restrict_to [OF distinct_index_nodes] this]
  show ?thesis
    by (simp add: actor_replay_def replay_at_def replay_inner_def rs
        replay_nodes_cong [OF distinct_index_nodes distinct_index_nodes same])
qed

lemma replay_verified:
  "replay_at cr dec ws (filter (verify_sig cr ACTOR_DOMAIN ws) events) front = replay_at cr dec ws events front"
  by (simp add: replay_at_def replay_inner_def index_nodes_verified)

text \<open>The memo table of the ACL replay is keyed by the sorted frontier; the key determines the value.\<close>

lemma replay_at_memo:
  assumes "sort front = sort front'"
  shows "replay_at cr dec ws events front = replay_at cr dec ws events front'"
proof -
  have "set front = set front'" "length front = length front'"
    using assms by (metis set_sort, metis length_sort)
  then show ?thesis by (simp add: replay_at_def replay_inner_def restrict_to_def)
qed

section \<open>Properties\<close>

definition actor_nodes :: "crypto \<Rightarrow> string \<Rightarrow> signed_node list \<Rightarrow> nodes" where
  "actor_nodes cr ws events = index_nodes cr ACTOR_DOMAIN ws events"

lemma actor_replay_nodes: "actor_replay cr dec ws events = replay_nodes cr dec ws (actor_nodes cr ws events)"
  by (simp add: actor_replay_def replay_inner_def actor_nodes_def)

lemma distinct_actor_nodes: "distinct (map fst (actor_nodes cr ws events))"
  by (simp add: actor_nodes_def distinct_index_nodes)

text \<open>A log in which one device incepts an actor, adds a second device, and a recovery concurrent
  with the addition installs a third.\<close>

definition demo_binding :: "char \<Rightarrow> device_binding" where
  "demo_binding c = \<lparr>db_device = demo_key c, db_nonce = [c], db_consent = replicate 64 (CHR ''s'')\<rparr>"

definition demo_actor_codec :: actor_codec where
  "demo_actor_codec b =
     (if b = ''i'' then Some (Incept ''w'' ''n'' [demo_binding (CHR ''a'')] (Some (replicate 32 (CHR ''d''))))
      else if b = ''b'' then Some (AddDevice ''act_i'' (demo_binding (CHR ''b'')))
      else if b = ''r'' then Some (Recover ''act_i'' [demo_binding (CHR ''c'')] None)
      else if b = ''v'' then Some (RevokeDevice ''act_i'' (demo_key (CHR ''b'')))
      else None)"

definition demo_actor_log :: "signed_node list" where
  "demo_actor_log = [demo_event ''i'' (CHR ''a'') [], demo_event ''b'' (CHR ''a'') [''i''],
     demo_event ''r'' (CHR ''d'') [''i'']]"

definition demo_revoke_log :: "signed_node list" where
  "demo_revoke_log = [demo_event ''i'' (CHR ''a'') [], demo_event ''b'' (CHR ''a'') [''i''],
     demo_event ''v'' (CHR ''a'') [''b'']]"

lemmas demo_actor_defs = demo_actor_log_def demo_revoke_log_def demo_event_def demo_crypto_def demo_key_def

lemma demo_actor_nodes:
  "actor_nodes demo_crypto ''w'' demo_actor_log =
     [(''i'', demo_event ''i'' (CHR ''a'') []), (''b'', demo_event ''b'' (CHR ''a'') [''i'']),
      (''r'', demo_event ''r'' (CHR ''d'') [''i''])]"
  by code_simp

lemma demo_actor_acyclic: "acyclic (causes (actor_nodes demo_crypto ''w'' demo_actor_log))"
  by (rule acyclicI_order [where f = "\<lambda>h. if h = ''i'' then 1 else 0 :: nat"])
    (auto simp: demo_actor_nodes causes_iff demo_event_def split: if_splits)

lemma demo_one_per_address: "one_per_address demo_crypto demo_actor_log"
  by (auto simp: one_per_address_def demo_actor_log_def node_address_def demo_crypto_def demo_event_def)

text \<open>C8: every device the replayed directory lists for an actor was seated by a verified event of
  the log, not struck by a recovery, that carries the device's own signed consent; the actor exists
  because of a valid inception whose content address is its name.\<close>

theorem replay_device_provenance:
  assumes "is_device_of (actor_replay cr dec ws events) actor device"
  shows "(\<exists>h \<in> node_keys (actor_nodes cr ws events).
       seats cr dec ws (actor_nodes cr ws events) h actor (device_key device) \<and>
       \<not> strikes_of cr dec ws (actor_nodes cr ws events) h) \<and>
     (\<exists>i. valid_incept cr dec ws (actor_nodes cr ws events) i \<and> actor = from_incept_hash i)"
proof -
  obtain st where st: "map_of (ap_states (actor_pass1 cr dec ws (actor_nodes cr ws events))) actor = Some st"
      "device_key device \<in> as_devices st"
    using assms replay_device_pass1 unfolding actor_replay_nodes by blast
  have inv: "pass_inv cr dec ws (actor_nodes cr ws events) UNIV
      {h \<in> node_keys (actor_nodes cr ws events). \<not> strikes_of cr dec ws (actor_nodes cr ws events) h}
      (actor_pass1 cr dec ws (actor_nodes cr ws events))"
    by (rule actor_pass1_inv [OF distinct_actor_nodes])
  show ?thesis
    using pass_inv_known(1) [OF inv st(1)] pass_inv_known(2) [OF inv st(1) UNIV_I st(2)] by blast
qed

theorem replay_device_provenance_witness:
  "is_device_of (actor_replay demo_crypto demo_actor_codec ''w'' demo_actor_log) ''act_i'' (demo_key (CHR ''c'')) \<and>
   (\<exists>h \<in> {''i'', ''b'', ''r''}.
      seats demo_crypto demo_actor_codec ''w'' (actor_nodes demo_crypto ''w'' demo_actor_log) h ''act_i'' (device_key (demo_key (CHR ''c''))))"
proof -
  have d: "is_device_of (actor_replay demo_crypto demo_actor_codec ''w'' demo_actor_log) ''act_i'' (demo_key (CHR ''c''))"
    by code_simp
  have "node_keys (actor_nodes demo_crypto ''w'' demo_actor_log) = {''i'', ''b'', ''r''}"
    by (simp add: demo_actor_nodes node_keys_def)
  then show ?thesis using d replay_device_provenance [OF d] by (metis (no_types, lifting))
qed

text \<open>C6: recovery wins. After a valid recovery of an actor, every device the directory lists for
  it was seated by a recovery or by an event that causally follows this recovery; a device added
  before it, or concurrently with it, is gone.\<close>

theorem recovery_wins:
  assumes "acyclic (causes (actor_nodes cr ws events))"
    and "(rh, actor) \<in> set (valid_recovers cr dec ws (actor_nodes cr ws events))"
    and "is_device_of (actor_replay cr dec ws events) actor device"
  shows "\<exists>h. seats cr dec ws (actor_nodes cr ws events) h actor (device_key device) \<and>
     ((h, actor) \<in> set (valid_recovers cr dec ws (actor_nodes cr ws events)) \<or>
      (rh, h) \<in> (causes (actor_nodes cr ws events))\<^sup>+)"
proof -
  obtain st where "map_of (ap_states (actor_pass1 cr dec ws (actor_nodes cr ws events))) actor = Some st"
      "device_key device \<in> as_devices st"
    using assms(3) replay_device_pass1 unfolding actor_replay_nodes by blast
  from recovery_supersedes [OF distinct_actor_nodes assms(1,2) this] show ?thesis .
qed

theorem recovery_wins_witness:
  "(''r'', ''act_i'') \<in> set (valid_recovers demo_crypto demo_actor_codec ''w'' (actor_nodes demo_crypto ''w'' demo_actor_log)) \<and>
   (\<exists>h. seats demo_crypto demo_actor_codec ''w'' (actor_nodes demo_crypto ''w'' demo_actor_log) h ''act_i'' (device_key (demo_key (CHR ''c'')))) \<and>
   \<not> is_device_of (actor_replay demo_crypto demo_actor_codec ''w'' demo_actor_log) ''act_i'' (demo_key (CHR ''b''))"
proof -
  have r: "(''r'', ''act_i'') \<in> set (valid_recovers demo_crypto demo_actor_codec ''w'' (actor_nodes demo_crypto ''w'' demo_actor_log))"
    by code_simp
  have d: "is_device_of (actor_replay demo_crypto demo_actor_codec ''w'' demo_actor_log) ''act_i'' (demo_key (CHR ''c''))"
    by code_simp
  have "\<not> is_device_of (actor_replay demo_crypto demo_actor_codec ''w'' demo_actor_log) ''act_i'' (demo_key (CHR ''b''))"
    by code_simp
  then show ?thesis using r recovery_wins [OF demo_actor_acyclic r d] by blast
qed

text \<open>Revocation wins. A device whose revocation the replay accepted, and that no accepted
  addition causally after the revocation seats again, does not speak for the actor.\<close>

theorem revoke_wins:
  assumes "(actor, device_key device, rh) \<in> set (ap_revokes (actor_pass1 cr dec ws (actor_nodes cr ws events)))"
    and "\<forall>h. (actor, device_key device, h) \<in> set (ap_adds (actor_pass1 cr dec ws (actor_nodes cr ws events))) \<longrightarrow>
       (rh, h) \<notin> (causes (actor_nodes cr ws events))\<^sup>+"
  shows "\<not> is_device_of (actor_replay cr dec ws events) actor device"
  unfolding actor_replay_nodes replay_nodes_def Let_def
  using assms by (intro fold_revoke_wins) (auto simp: readded_def list_ex_iff anc_contains_iff)

theorem revoke_wins_witness:
  "\<not> is_device_of (actor_replay demo_crypto demo_actor_codec ''w'' demo_revoke_log) ''act_i'' (demo_key (CHR ''b''))"
proof -
  let ?ns = "actor_nodes demo_crypto ''w'' demo_revoke_log"
  have ns: "?ns = [(''i'', demo_event ''i'' (CHR ''a'') []), (''b'', demo_event ''b'' (CHR ''a'') [''i'']),
      (''v'', demo_event ''v'' (CHR ''a'') [''b''])]"
    by code_simp
  have r: "(''act_i'', device_key (demo_key (CHR ''b'')), ''v'') \<in> set (ap_revokes (actor_pass1 demo_crypto demo_actor_codec ''w'' ?ns))"
    by code_simp
  have "map (\<lambda>x. snd (snd x)) (ap_adds (actor_pass1 demo_crypto demo_actor_codec ''w'' ?ns)) = [''i'', ''b'']"
    by code_simp
  then have adds: "h \<in> {''i'', ''b''}" if "(a, d, h) \<in> set (ap_adds (actor_pass1 demo_crypto demo_actor_codec ''w'' ?ns))" for a d h
    using that by (metis (no_types, lifting) image_eqI list.set_map set_simps snd_conv)
  have last: "(''v'', h) \<notin> causes ?ns" for h
    by (auto simp: ns causes_iff demo_event_def split: if_splits)
  then have "(''v'', h) \<notin> (causes ?ns)\<^sup>+" for h by (meson tranclD)
  with r show ?thesis by (intro revoke_wins) blast+
qed

text \<open>A consent nonce is single use. No two \<open>AddDevice\<close> events the replay accepts present the
  same consent of one device key, however it is spelled, so a revoked device cannot be re-seated by
  replaying its old consent.\<close>

theorem consent_single_use:
  assumes "(actor, db_key b, h) \<in> set (ap_adds (actor_pass1 cr dec ws ns))"
    and "(actor, db_key b', h') \<in> set (ap_adds (actor_pass1 cr dec ws ns))"
    and "op_at dec ns h = Some (AddDevice actor b)" "op_at dec ns h' = Some (AddDevice actor b')"
    and "db_key b = db_key b'" "db_nonce b = db_nonce b'"
  shows "h = h'"
proof -
  have "h \<in> adders (actor_pass1 cr dec ws ns)" "h' \<in> adders (actor_pass1 cr dec ws ns)"
    using assms(1,2) by (force simp: adders_def)+
  moreover have "consent_of dec ns h = Some (actor, db_key b', db_nonce b')"
    "consent_of dec ns h' = Some (actor, db_key b', db_nonce b')"
    using assms by (simp_all add: consent_of_def)
  ultimately show ?thesis using used_once_pass1 unfolding used_once_def by blast
qed

theorem consent_single_use_witness:
  "(''act_i'', device_key (demo_key (CHR ''b'')), ''b'') \<in>
     set (ap_adds (actor_pass1 demo_crypto demo_actor_codec ''w'' (actor_nodes demo_crypto ''w'' demo_revoke_log))) \<and>
   {h. (''act_i'', device_key (demo_key (CHR ''b'')), h) \<in>
       set (ap_adds (actor_pass1 demo_crypto demo_actor_codec ''w'' (actor_nodes demo_crypto ''w'' demo_revoke_log))) \<and>
     op_at demo_actor_codec (actor_nodes demo_crypto ''w'' demo_revoke_log) h =
       Some (AddDevice ''act_i'' (demo_binding (CHR ''b'')))} = {''b''}"
proof -
  have b: "(''act_i'', db_key (demo_binding (CHR ''b'')), ''b'') \<in>
      set (ap_adds (actor_pass1 demo_crypto demo_actor_codec ''w'' (actor_nodes demo_crypto ''w'' demo_revoke_log)))"
    by code_simp
  have o: "op_at demo_actor_codec (actor_nodes demo_crypto ''w'' demo_revoke_log) ''b'' =
      Some (AddDevice ''act_i'' (demo_binding (CHR ''b'')))"
    by code_simp
  have k: "demo_key (CHR ''b'') = db_device (demo_binding (CHR ''b''))" by (simp add: demo_binding_def)
  show ?thesis
    unfolding k using b o consent_single_use [OF _ b _ o refl refl] by blast
qed

text \<open>Replicas converge. Two replicas that hold the same set of events, in any order and with
  any duplicates, one node per content address, derive the same directory, now and at any recorded frontier.\<close>

theorem replay_convergence:
  assumes "set events = set events'" "one_per_address cr events"
  shows "actor_replay cr dec ws events = actor_replay cr dec ws events' \<and>
     replay_at cr dec ws events front = replay_at cr dec ws events' front"
  using replay_same_events [OF assms] by blast

theorem replay_convergence_witness:
  "actor_replay demo_crypto demo_actor_codec ''w'' demo_actor_log =
     actor_replay demo_crypto demo_actor_codec ''w'' (rev demo_actor_log) \<and>
   replay_at demo_crypto demo_actor_codec ''w'' demo_actor_log [''b''] =
     replay_at demo_crypto demo_actor_codec ''w'' (rev demo_actor_log) [''b'']"
  by (rule replay_convergence) (simp_all add: demo_one_per_address)

text \<open>The directory at a recorded frontier is final. A replica that holds the frontier's causal
  past derives the same directory there as any replica that holds more events, one node per content address.\<close>

theorem replay_at_stable:
  assumes "set events \<subseteq> set events'" "one_per_address cr events'"
    and "holds_past (actor_nodes cr ws events) front"
  shows "replay_at cr dec ws events front = replay_at cr dec ws events' front"
proof -
  have cf: "one_per_address cr events" using assms(1,2) by (auto simp: one_per_address_def)
  have "map_of (index_nodes cr ACTOR_DOMAIN ws events) \<subseteq>\<^sub>m map_of (index_nodes cr ACTOR_DOMAIN ws events')"
    by (rule index_nodes_mono [OF assms(1) cf assms(2)])
  with assms(3) have "map_of (restrict_to (index_nodes cr ACTOR_DOMAIN ws events) front) =
      map_of (restrict_to (index_nodes cr ACTOR_DOMAIN ws events') front)"
    by (intro restrict_to_local) (simp_all add: distinct_index_nodes actor_nodes_def)
  from replay_nodes_cong [OF _ _ this] show ?thesis
    by (simp add: replay_at_def replay_inner_def distinct_restrict_to distinct_index_nodes)
qed

theorem replay_at_stable_witness:
  "replay_at demo_crypto demo_actor_codec ''w'' (take 2 demo_actor_log) [''b''] =
   replay_at demo_crypto demo_actor_codec ''w'' demo_actor_log [''b'']"
proof (rule replay_at_stable)
  have ns: "actor_nodes demo_crypto ''w'' (take 2 demo_actor_log) =
      [(''i'', demo_event ''i'' (CHR ''a'') []), (''b'', demo_event ''b'' (CHR ''a'') [''i''])]"
    by code_simp
  show "holds_past (actor_nodes demo_crypto ''w'' (take 2 demo_actor_log)) [''b'']"
    by (auto simp: holds_past_def ns node_keys_def demo_event_def split: if_splits)
qed (auto simp: demo_one_per_address dest: in_set_takeD)

text \<open>\<open>actor_of_device\<close> names an actor exactly when it is the only actor the device speaks
  for: a device seated in two actors resolves to none.\<close>

theorem actor_of_device_unique:
  "actor_of_device (actor_replay cr dec ws events) device = Some actor \<longleftrightarrow>
     {a. is_device_of (actor_replay cr dec ws events) a device} = {actor}"
  unfolding actor_of_device_def actor_replay_nodes
  by (rule actor_of_device_loop_None [OF replay_nodes_wf [OF distinct_actor_nodes]])

end
