(* ===== verification/Demand.thy ===== *)
theory Demand
  imports Sigdag
begin

text \<open>
  The bounded authorization-demand algebra (\<^verbatim>\<open>crates/mechanics/src/demand.rs\<close>): resources,
  capabilities, the \<open>Require\<close>/\<open>All\<close>/\<open>Any\<close> expression, its canonical encoding (same-kind nodes
  flattened, children sorted by their bytes, duplicates refused) and the strict decoder. A Rust
  string is its UTF-8 bytes, so the encoder copies it and the decoder checks \<open>from_utf8\<close>.

  The encoder's recursion threads the leaf counter of the source; the decoder consumes the bytes
  of each child slice. Both are total functions with a termination proof.
\<close>

section \<open>Bounds and errors\<close>

definition MAX_RESOURCE_SEGMENTS :: nat where "MAX_RESOURCE_SEGMENTS = 8"
definition MAX_SEGMENT_BYTES :: nat where "MAX_SEGMENT_BYTES = 64"
definition MAX_RESOURCE_BYTES :: nat where "MAX_RESOURCE_BYTES = 512"
definition MAX_NAME_BYTES :: nat where "MAX_NAME_BYTES = 64"
definition MAX_DEMAND_DEPTH :: nat where "MAX_DEMAND_DEPTH = 8"
definition MAX_CHILDREN :: nat where "MAX_CHILDREN = 32"
definition MAX_REQUIRE_LEAVES :: nat where "MAX_REQUIRE_LEAVES = 128"
definition MAX_DEMAND_BYTES :: nat where "MAX_DEMAND_BYTES = 16 * 1024"

lemmas demand_bounds =
  MAX_RESOURCE_SEGMENTS_def MAX_SEGMENT_BYTES_def MAX_RESOURCE_BYTES_def MAX_NAME_BYTES_def
  MAX_DEMAND_DEPTH_def MAX_CHILDREN_def MAX_REQUIRE_LEAVES_def MAX_DEMAND_BYTES_def

datatype invalid = BadIdentifier | BadResource | BadStructure | NonCanonical | BadEncoding

section \<open>Identifiers and resources\<close>

definition valid_name :: "string \<Rightarrow> bool" where
  "valid_name s \<longleftrightarrow>
     s \<noteq> [] \<and> length s \<le> MAX_NAME_BYTES \<and>
     list_all (\<lambda>b. (CHR ''a'' \<le> b \<and> b \<le> CHR ''z'') \<or> (CHR ''0'' \<le> b \<and> b \<le> CHR ''9'') \<or>
        b \<in> set ''._-'') s"

record resource =
  r_world :: string
  r_segments :: "string list"

record policy_capability =
  c_world :: string
  c_name :: string

definition resource_root :: "string \<Rightarrow> resource" where
  "resource_root world = \<lparr>r_world = world, r_segments = []\<rparr>"

definition capability_new :: "string \<Rightarrow> string \<Rightarrow> policy_capability" where
  "capability_new world name = \<lparr>c_world = world, c_name = name\<rparr>"

fun validate_segments :: "string list \<Rightarrow> nat \<Rightarrow> invalid + nat" where
  "validate_segments [] acc = Inr acc"
| "validate_segments (seg # segs) acc =
     (if seg = [] \<or> length seg > MAX_SEGMENT_BYTES then Inl BadResource
      else if seg = ''*'' then Inl BadResource
      else validate_segments segs (acc + length seg))"

definition resource_validate :: "resource \<Rightarrow> invalid + unit" where
  "resource_validate r =
     (if \<not> valid_name (r_world r) then Inl BadIdentifier
      else if length (r_segments r) > MAX_RESOURCE_SEGMENTS then Inl BadResource
      else try_then (validate_segments (r_segments r) 0) (\<lambda>acc.
        if acc > MAX_RESOURCE_BYTES then Inl BadResource else Inr ()))"

definition resource_segments :: "string \<Rightarrow> string list \<Rightarrow> invalid + resource" where
  "resource_segments world segs =
     (let r = \<lparr>r_world = world, r_segments = segs\<rparr>
      in try_then (resource_validate r) (\<lambda>_. Inr r))"

definition capability_validate :: "policy_capability \<Rightarrow> invalid + unit" where
  "capability_validate c =
     (if \<not> valid_name (c_world c) then Inl BadIdentifier
      else if \<not> valid_name (c_name c) then Inl BadIdentifier
      else Inr ())"

definition policy_admin_capability :: policy_capability where
  "policy_admin_capability = capability_new ''lait'' ''policy.admin''"

definition policy_admin_resource :: resource where
  "policy_admin_resource = resource_root ''lait''"

section \<open>Demands\<close>

datatype demand =
    Require policy_capability resource
  | All "demand list"
  | Any "demand list"

section \<open>Bytes\<close>

definition be16 :: "nat \<Rightarrow> bytes" where
  "be16 n = [char_of (n div 256), char_of n]"

definition be32 :: "nat \<Rightarrow> bytes" where
  "be32 n = [char_of (n div 16777216), char_of (n div 65536), char_of (n div 256), char_of n]"

definition from_be16 :: "char \<Rightarrow> char \<Rightarrow> nat" where
  "from_be16 a b = of_char a * 256 + of_char b"

definition from_be32 :: "char \<Rightarrow> char \<Rightarrow> char \<Rightarrow> char \<Rightarrow> nat" where
  "from_be32 a b c d = ((of_char a * 256 + of_char b) * 256 + of_char c) * 256 + of_char d"

definition push_str :: "string \<Rightarrow> bytes" where
  "push_str s = be16 (length s) @ s"

definition utf8_cont :: "nat \<Rightarrow> bool" where
  "utf8_cont b \<longleftrightarrow> 128 \<le> b \<and> b < 192"

fun utf8_ok :: "nat list \<Rightarrow> bool" where
  \<comment> \<open>\<open>std::str::from_utf8\<close>\<close>
  "utf8_ok [] = True"
| "utf8_ok (a # r) =
     (if a < 128 then utf8_ok r
      else case r of [] \<Rightarrow> False
      | b # r2 \<Rightarrow>
          if 194 \<le> a \<and> a < 224 then utf8_cont b \<and> utf8_ok r2
          else case r2 of [] \<Rightarrow> False
          | c # r3 \<Rightarrow>
              if 224 \<le> a \<and> a < 240
              then utf8_cont b \<and> (a = 224 \<longrightarrow> 160 \<le> b) \<and> (a = 237 \<longrightarrow> b < 160) \<and> utf8_cont c \<and> utf8_ok r3
              else case r3 of [] \<Rightarrow> False
              | d # r4 \<Rightarrow>
                  240 \<le> a \<and> a < 245 \<and> utf8_cont b \<and> (a = 240 \<longrightarrow> 144 \<le> b) \<and> (a = 244 \<longrightarrow> b < 144) \<and>
                  utf8_cont c \<and> utf8_cont d \<and> utf8_ok r4)"

definition from_utf8_ok :: "bytes \<Rightarrow> bool" where
  "from_utf8_ok s \<longleftrightarrow> utf8_ok (map of_char s)"

section \<open>Encoding\<close>

definition TAG_REQUIRE :: char where "TAG_REQUIRE = CHR 0x01"
definition TAG_ALL :: char where "TAG_ALL = CHR 0x02"
definition TAG_ANY :: char where "TAG_ANY = CHR 0x03"

text \<open>Flattening nested same-kind nodes: the head of the list is the end of the source's stack.\<close>

function flatten :: "bool \<Rightarrow> demand list \<Rightarrow> demand list" where
  "flatten is_all [] = []"
| "flatten is_all (Require c r # stack) = Require c r # flatten is_all stack"
| "flatten is_all (All inner # stack) =
     (if is_all then flatten is_all (inner @ stack) else All inner # flatten is_all stack)"
| "flatten is_all (Any inner # stack) =
     (if is_all then Any inner # flatten is_all stack else flatten is_all (inner @ stack))"
  by pat_completeness auto
termination
  by (relation "measure (\<lambda>(_, ds). size_list size ds)") auto

lemma size_flatten: "size_list size (flatten is_all ds) \<le> size_list size ds"
  by (induction is_all ds rule: flatten.induct) auto

definition encode_require :: "policy_capability \<Rightarrow> resource \<Rightarrow> bytes" where
  "encode_require c r =
     TAG_REQUIRE # push_str (c_world c) @ push_str (c_name c) @
       char_of (length (r_segments r)) # concat (map push_str (r_segments r))"

definition encode_group :: "bool \<Rightarrow> bytes list \<Rightarrow> invalid + bytes" where
  \<comment> \<open>sort the encoded children, refuse duplicates, frame them\<close>
  "encode_group is_all encoded =
     (let es = sort encoded
      in if \<not> distinct es then Inl NonCanonical
         else Inr ((if is_all then TAG_ALL else TAG_ANY) # be16 (length es) @
                concat (map (\<lambda>e. be32 (length e) @ e) es)))"

function encode_node :: "nat \<Rightarrow> demand \<Rightarrow> nat \<Rightarrow> invalid + (bytes \<times> nat)"
  and encode_children :: "nat \<Rightarrow> demand list \<Rightarrow> nat \<Rightarrow> invalid + (bytes list \<times> nat)" where
  "encode_node depth (Require c r) leaves =
     (if depth > MAX_DEMAND_DEPTH then Inl BadStructure
      else try_then (capability_validate c) (\<lambda>_.
        try_then (resource_validate r) (\<lambda>_.
          if c_world c \<noteq> r_world r then Inl BadStructure
          else if leaves + 1 > MAX_REQUIRE_LEAVES then Inl BadStructure
          else Inr (encode_require c r, leaves + 1))))"
| "encode_node depth (All children) leaves =
     (if depth > MAX_DEMAND_DEPTH then Inl BadStructure
      else if flatten True children = [] then Inl BadStructure
      else if length (flatten True children) > MAX_CHILDREN then Inl BadStructure
      else try_then (encode_children (depth + 1) (flatten True children) leaves) (\<lambda>p.
        try_then (encode_group True (fst p)) (\<lambda>b. Inr (b, snd p))))"
| "encode_node depth (Any children) leaves =
     (if depth > MAX_DEMAND_DEPTH then Inl BadStructure
      else if flatten False children = [] then Inl BadStructure
      else if length (flatten False children) > MAX_CHILDREN then Inl BadStructure
      else try_then (encode_children (depth + 1) (flatten False children) leaves) (\<lambda>p.
        try_then (encode_group False (fst p)) (\<lambda>b. Inr (b, snd p))))"
| "encode_children depth [] leaves = Inr ([], leaves)"
| "encode_children depth (d # ds) leaves =
     try_then (encode_node depth d leaves) (\<lambda>p.
       try_then (encode_children depth ds (snd p)) (\<lambda>q. Inr (fst p # fst q, snd q)))"
  by pat_completeness auto
termination
  by (relation "measure (\<lambda>x. case x of Inl (_, d, _) \<Rightarrow> 2 * size d
        | Inr (_, ds, _) \<Rightarrow> 2 * size_list size ds + 1)")
    (auto simp: size_flatten less_Suc_eq_le)

definition encode_canonical :: "demand \<Rightarrow> invalid + bytes" where
  "encode_canonical d =
     try_then (encode_node 1 d 0) (\<lambda>p.
       if length (fst p) > MAX_DEMAND_BYTES then Inl BadStructure else Inr (fst p))"

section \<open>Decoding\<close>

definition read_text :: "(string \<Rightarrow> invalid + unit) \<Rightarrow> bytes \<Rightarrow> invalid + (string \<times> bytes)" where
  \<comment> \<open>the shared part of \<open>read_str\<close> and \<open>read_segment\<close>: the bytes from \<open>pos\<close> on, with the
    check each of them makes of the text\<close>
  "read_text check bs =
     (case bs of
        a # b # rest \<Rightarrow>
          let n = from_be16 a b
          in if length rest < n then Inl BadEncoding
             else if \<not> from_utf8_ok (take n rest) then Inl BadEncoding
             else try_then (check (take n rest)) (\<lambda>_. Inr (take n rest, drop n rest))
      | _ \<Rightarrow> Inl BadEncoding)"

definition read_str :: "bytes \<Rightarrow> invalid + (string \<times> bytes)" where
  "read_str = read_text (\<lambda>s. refuse_if (\<not> valid_name s) BadIdentifier)"

definition read_segment :: "bytes \<Rightarrow> invalid + (string \<times> bytes)" where
  "read_segment =
     read_text (\<lambda>s. refuse_if (s = [] \<or> length s > MAX_SEGMENT_BYTES \<or> s = ''*'') BadResource)"

fun read_segments :: "nat \<Rightarrow> bytes \<Rightarrow> invalid + (string list \<times> bytes)" where
  "read_segments 0 bs = Inr ([], bs)"
| "read_segments (Suc n) bs =
     try_then (read_segment bs) (\<lambda>p.
       try_then (read_segments n (snd p)) (\<lambda>q. Inr (fst p # fst q, snd q)))"

definition decode_require :: "bytes \<Rightarrow> nat \<Rightarrow> invalid + (demand \<times> bytes \<times> nat)" where
  "decode_require bs leaves =
     try_then (read_str bs) (\<lambda>w.
     try_then (read_str (snd w)) (\<lambda>n.
       case snd n of
         [] \<Rightarrow> Inl BadEncoding
       | k # rest \<Rightarrow>
           if of_char k > MAX_RESOURCE_SEGMENTS then Inl BadResource
           else try_then (read_segments (of_char k) rest) (\<lambda>segs.
             if leaves + 1 > MAX_REQUIRE_LEAVES then Inl BadStructure
             else Inr (Require \<lparr>c_world = fst w, c_name = fst n\<rparr>
                        \<lparr>r_world = fst w, r_segments = fst segs\<rparr>, snd segs, leaves + 1))))"

text \<open>A decoded node comes with the bytes left after it (the source returns how many it used) and
  the leaf counter.\<close>

function decode_node :: "bytes \<Rightarrow> nat \<Rightarrow> nat \<Rightarrow> invalid + (demand \<times> bytes \<times> nat)"
  and decode_children ::
    "char \<Rightarrow> nat \<Rightarrow> bytes \<Rightarrow> nat \<Rightarrow> bytes option \<Rightarrow> nat \<Rightarrow> invalid + (demand list \<times> bytes \<times> nat)" where
  "decode_node [] depth leaves =
     (if depth > MAX_DEMAND_DEPTH then Inl BadStructure else Inl BadEncoding)"
| "decode_node (tag # bs) depth leaves =
     (if depth > MAX_DEMAND_DEPTH then Inl BadStructure
      else if tag = TAG_REQUIRE then decode_require bs leaves
      else if tag = TAG_ALL \<or> tag = TAG_ANY then
        (case bs of
           a # b # rest \<Rightarrow>
             if from_be16 a b = 0 then Inl BadStructure
             else if from_be16 a b > MAX_CHILDREN then Inl BadStructure
             else try_then (decode_children tag (from_be16 a b) rest depth None leaves) (\<lambda>p.
               Inr (if tag = TAG_ALL then All (fst p) else Any (fst p), snd p))
         | _ \<Rightarrow> Inl BadEncoding)
      else Inl BadEncoding)"
| "decode_children tag 0 bs depth prev leaves = Inr ([], bs, leaves)"
| "decode_children tag (Suc k) bs depth prev leaves =
     (case bs of
        l1 # l2 # l3 # l4 # rest \<Rightarrow>
          let n = from_be32 l1 l2 l3 l4; slice = take n rest
          in if length rest < n then Inl BadEncoding
             else if (case prev of None \<Rightarrow> False | Some p \<Rightarrow> slice \<le> p) then Inl NonCanonical
             else if take 1 slice = [tag] then Inl NonCanonical
             else try_then (decode_node slice (depth + 1) leaves) (\<lambda>r.
               if fst (snd r) \<noteq> [] then Inl BadEncoding
               else try_then (decode_children tag k (drop n rest) depth (Some slice) (snd (snd r)))
                      (\<lambda>q. Inr (fst r # fst q, snd q)))
      | _ \<Rightarrow> Inl BadEncoding)"
  by pat_completeness auto
termination
  by (relation "measure (\<lambda>x. case x of Inl (bs, _, _) \<Rightarrow> length bs
        | Inr (_, _, bs, _, _, _) \<Rightarrow> length bs)") auto

definition decode_canonical :: "bytes \<Rightarrow> invalid + demand" where
  "decode_canonical bs =
     (if length bs > MAX_DEMAND_BYTES then Inl BadEncoding
      else try_then (decode_node bs 1 0) (\<lambda>r.
        if fst (snd r) \<noteq> [] then Inl BadEncoding
        else try_then (encode_canonical (fst r)) (\<lambda>re.
          if re \<noteq> bs then Inl NonCanonical else Inr (fst r))))"

definition demand_digest :: "crypto \<Rightarrow> demand \<Rightarrow> invalid + bytes" where
  "demand_digest cr d =
     try_then (encode_canonical d) (\<lambda>b. Inr (derive_key cr ''lait.authorization-demand.v1'' b))"

section \<open>Evidence\<close>

definition be64 :: "nat \<Rightarrow> bytes" where
  "be64 n = be32 (n div 4294967296) @ be32 n"

definition policy_evidence_digest :: "crypto \<Rightarrow> bytes list \<Rightarrow> bytes" where
  "policy_evidence_digest cr witness =
     derive_key cr ''lait.policy-evidence.v1'' (be64 (length witness) @ concat witness)"

record world_assignment_evidence =
  wae_world :: string
  wae_opaque_definition_ref :: bytes
  wae_definition_digest :: bytes
  wae_parent_manifest_root :: bytes
  wae_assignments :: "(policy_capability \<times> resource) list"

fun validate_assignments :: "string \<Rightarrow> (policy_capability \<times> resource) list \<Rightarrow> invalid + unit" where
  "validate_assignments world [] = Inr ()"
| "validate_assignments world ((cap, res) # rest) =
     try_then (capability_validate cap) (\<lambda>_.
     try_then (resource_validate res) (\<lambda>_.
       if \<not> (cap = policy_admin_capability \<and> res = policy_admin_resource) \<and>
          (c_world cap \<noteq> world \<or> r_world res \<noteq> world)
       then Inl BadStructure
       else validate_assignments world rest))"

definition evidence_validate :: "world_assignment_evidence \<Rightarrow> invalid + unit" where
  "evidence_validate e =
     (if \<not> valid_name (wae_world e) then Inl BadIdentifier
      else if length (wae_assignments e) > MAX_REQUIRE_LEAVES then Inl BadStructure
      else validate_assignments (wae_world e) (wae_assignments e))"

end
