(* ===== verification/Acl.thy ===== *)
theory Acl
  imports Actor Demand
begin

text \<open>
  The membership authority plane, pass 1 (\<^verbatim>\<open>crates/mechanics/src/acl.rs\<close>): the operations, the
  policy state (scoped grants, delegations, implementations), and the authorization predicate
  \<open>judge_op\<close> with the standing update \<open>apply_authorized\<close> that both replay paths share. The standing
  the source threads through seven mutable locals is the record \<open>pass1\<close>.

  Identifiers (\<open>[u8; 16]\<close>, \<open>[u8; 32]\<close>) are byte strings, epoch generations are 32-bit words. The
  \<open>HashMap\<close> of epoch generations is kept as a sorted map: its only iteration takes a maximum.
\<close>

section \<open>Operations\<close>

definition ACL_DOMAIN :: bytes where "ACL_DOMAIN = ''lait/aclop/1''"

datatype standing = Admin | Write

instantiation standing :: linorder
begin

fun less_eq_standing :: "standing \<Rightarrow> standing \<Rightarrow> bool" where
  "less_eq_standing Write Admin = False"
| "less_eq_standing _ _ = True"

definition less_standing :: "standing \<Rightarrow> standing \<Rightarrow> bool" where
  "less_standing a b \<longleftrightarrow> a \<le> b \<and> \<not> b \<le> a"

instance
proof
  fix a b c :: standing
  show "a < b \<longleftrightarrow> a \<le> b \<and> \<not> b \<le> a" by (rule less_standing_def)
  show "a \<le> a" by (cases a) simp_all
  show "a \<le> b \<Longrightarrow> b \<le> c \<Longrightarrow> a \<le> c" by (cases a; cases b; cases c) simp_all
  show "a \<le> b \<Longrightarrow> b \<le> a \<Longrightarrow> a = b" by (cases a; cases b) simp_all
  show "a \<le> b \<or> b \<le> a" by (cases a; cases b) simp_all
qed

end

definition grants_for_capability_names :: "string list \<Rightarrow> standing list" where
  "grants_for_capability_names caps =
     (if ''space.admin'' \<in> set caps then [Admin, Write]
      else if ''space.contributor'' \<in> set caps then [Write] else [])"

definition membership_grants :: "bool \<Rightarrow> standing list" where
  "membership_grants admin = (if admin then [Admin, Write] else [Write])"

definition sponsored_agent_grants :: "standing list" where
  "sponsored_agent_grants = [Write]"

definition is_sponsorable_grant_set :: "standing list \<Rightarrow> bool" where
  "is_sponsorable_grant_set grants \<longleftrightarrow> Admin \<notin> set grants"

definition role_label :: "standing list \<Rightarrow> string" where
  "role_label grants =
     (if Admin \<in> set grants then ''admin'' else if Write \<in> set grants then ''member'' else ''viewer'')"

datatype grant_origin =
    Founder
  | Admission bytes
  | Membership bytes
  | Grant bytes
  | Sponsorship

datatype acl_action =
    AddMember string "standing list"
  | RemoveMember string
  | SetGrants string "standing list"
  | AddAgent string "standing list"
  | MintEpoch bytes u32 bytes "string list"
  | RevokeInvite bytes
  | GrantCapability bytes string policy_capability resource bytes
  | RevokeCapability bytes
  | GrantDelegation bytes string policy_capability resource bytes
  | RevokeDelegation bytes
  | ActivateWorldImplementation string bytes u32
  | GrantCapabilityFrom bytes string policy_capability resource bytes grant_origin
  | SetMemberAdmission bool

fun action_actor :: "acl_action \<Rightarrow> string option" where
  "action_actor (AddMember actor _) = Some actor"
| "action_actor (RemoveMember actor) = Some actor"
| "action_actor (SetGrants actor _) = Some actor"
| "action_actor (AddAgent actor _) = Some actor"
| "action_actor _ = None"

fun kind_label :: "acl_action \<Rightarrow> string" where
  "kind_label (AddMember _ _) = ''add_member''"
| "kind_label (RemoveMember _) = ''remove_member''"
| "kind_label (SetGrants _ _) = ''set_grants''"
| "kind_label (AddAgent _ _) = ''add_agent''"
| "kind_label (MintEpoch _ _ _ _) = ''mint_epoch''"
| "kind_label (RevokeInvite _) = ''revoke_invite''"
| "kind_label (GrantCapability _ _ _ _ _) = ''grant_capability''"
| "kind_label (GrantCapabilityFrom _ _ _ _ _ _) = ''grant_capability''"
| "kind_label (RevokeCapability _) = ''revoke_capability''"
| "kind_label (GrantDelegation _ _ _ _ _) = ''grant_delegation''"
| "kind_label (RevokeDelegation _) = ''revoke_delegation''"
| "kind_label (ActivateWorldImplementation _ _ _) = ''activate_implementation''"
| "kind_label (SetMemberAdmission _) = ''set_member_admission''"

record acl_op =
  op_action :: acl_action
  op_by :: string
  op_asof :: "string list"
  op_nonce :: "bytes option"

type_synonym acl_codec = "bytes \<Rightarrow> acl_op option"

record genesis =
  g_space :: string
  g_founding :: "string list"
  g_salt :: bytes
  g_recovery_root :: bytes

section \<open>Policy state\<close>

record active_implementation =
  ai_id :: bytes
  ai_version :: u32

record assignment =
  a_actor :: string
  a_capability :: policy_capability
  a_resource :: resource

record policy_pass =
  pp_grants :: "(bytes, assignment) btree_map"
  pp_revoked_grants :: "bytes set"
  pp_origins :: "(bytes, grant_origin) btree_map"
  pp_delegations :: "(bytes, assignment) btree_map"
  pp_revoked_delegations :: "bytes set"
  pp_implementations :: "(string, active_implementation) btree_map"

definition empty_policy :: policy_pass where
  "empty_policy = \<lparr>pp_grants = [], pp_revoked_grants = {}, pp_origins = [], pp_delegations = [],
     pp_revoked_delegations = {}, pp_implementations = []\<rparr>"

definition holds_meta :: "policy_pass \<Rightarrow> string \<Rightarrow> bool" where
  "holds_meta p actor =
     list_ex (\<lambda>(id, g). id \<notin> pp_revoked_grants p \<and> a_actor g = actor \<and>
        a_capability g = policy_admin_capability \<and> a_resource g = policy_admin_resource) (pp_grants p)"

definition holds_delegation :: "policy_pass \<Rightarrow> string \<Rightarrow> policy_capability \<Rightarrow> resource \<Rightarrow> bool" where
  "holds_delegation p actor capability resource =
     list_ex (\<lambda>(id, d). id \<notin> pp_revoked_delegations p \<and> a_actor d = actor \<and>
        a_capability d = capability \<and> a_resource d = resource) (pp_delegations p)"

definition holds_any_delegation :: "policy_pass \<Rightarrow> string \<Rightarrow> bool" where
  "holds_any_delegation p actor =
     list_ex (\<lambda>(id, d). id \<notin> pp_revoked_delegations p \<and> a_actor d = actor) (pp_delegations p)"

definition grant_commitment ::
  "crypto \<Rightarrow> string \<Rightarrow> string \<Rightarrow> policy_capability \<Rightarrow> resource \<Rightarrow> bytes \<Rightarrow> bytes option" where
  "grant_commitment cr context actor capability resource salt =
     (case encode_canonical (Require capability resource) of
        Inl _ \<Rightarrow> None
      | Inr canonical \<Rightarrow> Some (derive_key cr context (actor @ [CHR 0x00] @ canonical @ salt)))"

definition capability_grant_id ::
  "crypto \<Rightarrow> string \<Rightarrow> policy_capability \<Rightarrow> resource \<Rightarrow> bytes \<Rightarrow> bytes option" where
  "capability_grant_id cr = grant_commitment cr ''lait.capability-grant.v1''"

definition capability_delegation_id ::
  "crypto \<Rightarrow> string \<Rightarrow> policy_capability \<Rightarrow> resource \<Rightarrow> bytes \<Rightarrow> bytes option" where
  "capability_delegation_id cr = grant_commitment cr ''lait.capability-delegation.v1''"

section \<open>Standing\<close>

record pass1 =
  p1_admins :: "string set"
  p1_humans :: "string set"
  p1_agents :: "(string, string) btree_map"
  p1_gens :: "(string, u32) btree_map"
  p1_policy :: policy_pass
  p1_admission :: bool

definition initial_pass1 :: "genesis \<Rightarrow> pass1" where
  "initial_pass1 g = \<lparr>p1_admins = set (g_founding g), p1_humans = set (g_founding g), p1_agents = [],
     p1_gens = [], p1_policy = empty_policy, p1_admission = False\<rparr>"

definition orphans_policy_admin :: "bytes \<Rightarrow> string set \<Rightarrow> pass1 \<Rightarrow> bool" where
  "orphans_policy_admin grant_id founders p =
     (let policy = p1_policy p;
          effective_meta = (\<lambda>id g. id \<notin> pp_revoked_grants policy \<and>
             a_capability g = policy_admin_capability \<and> a_resource g = policy_admin_resource);
          human = (\<lambda>a. a \<in> p1_humans p \<and> \<not> bm_contains (p1_agents p) a)
      in case map_of (pp_grants policy) grant_id of
           None \<Rightarrow> False
         | Some target \<Rightarrow>
             if \<not> effective_meta grant_id target then False
             else if \<exists>a \<in> founders. human a then False
             else \<not> list_ex (\<lambda>(id, g). id \<noteq> grant_id \<and> effective_meta id g \<and> human (a_actor g))
                        (pp_grants policy))"

definition saturating_succ :: "u32 \<Rightarrow> u32" where
  "saturating_succ g = (if g = -1 then g else g + 1)"

definition mint_ceiling ::
  "(string \<times> string set) list \<Rightarrow> string \<Rightarrow> (string, u32) btree_map \<Rightarrow> u32" where
  "mint_ceiling ancestors h gens =
     (case map snd (filter (\<lambda>(mh, _). anc_contains ancestors h mh) gens) of
        [] \<Rightarrow> 0
      | g # gs \<Rightarrow> saturating_succ (fold max gs g))"

definition pass1_policy_admin :: "string set \<Rightarrow> pass1 \<Rightarrow> string \<Rightarrow> bool" where
  \<comment> \<open>the closure \<open>is_policy_admin\<close> of \<open>judge_op\<close>\<close>
  "pass1_policy_admin founders p a \<longleftrightarrow>
     a \<in> p1_humans p \<and> \<not> bm_contains (p1_agents p) a \<and> (a \<in> founders \<or> holds_meta (p1_policy p) a)"

definition well_formed_grant ::
  "(string \<Rightarrow> policy_capability \<Rightarrow> resource \<Rightarrow> bytes \<Rightarrow> bytes option) \<Rightarrow>
   bytes \<Rightarrow> string \<Rightarrow> policy_capability \<Rightarrow> resource \<Rightarrow> bytes \<Rightarrow> bool" where
  \<comment> \<open>the \<open>structural\<close> test of the grant branches\<close>
  "well_formed_grant commit gid actor capability resource salt \<longleftrightarrow>
     capability_validate capability = Inr () \<and> resource_validate resource = Inr () \<and>
     c_world capability = r_world resource \<and> commit actor capability resource salt = Some gid"

definition judge_grant ::
  "crypto \<Rightarrow> string set \<Rightarrow> pass1 \<Rightarrow> string \<Rightarrow> bytes \<Rightarrow> string \<Rightarrow> policy_capability \<Rightarrow> resource \<Rightarrow> bytes \<Rightarrow> bool" where
  "judge_grant cr founders p by' grant_id actor capability resource salt \<longleftrightarrow>
     well_formed_grant (capability_grant_id cr) grant_id actor capability resource salt \<and>
     (pass1_policy_admin founders p by' \<or>
      (\<not> (capability = policy_admin_capability \<and> resource = policy_admin_resource) \<and>
       by' \<in> p1_humans p \<and> \<not> bm_contains (p1_agents p) by' \<and>
       holds_delegation (p1_policy p) by' capability resource))"

definition judge_op ::
  "crypto \<Rightarrow> string set \<Rightarrow> (string \<times> string set) list \<Rightarrow> acl_op \<Rightarrow> string \<Rightarrow> pass1 \<Rightarrow> bool" where
  "judge_op cr founders ancestors op h p \<longleftrightarrow>
     (let by' = op_by op; admins = p1_admins p; humans = p1_humans p; agents = p1_agents p;
          policy = p1_policy p
      in \<not> bm_contains agents by' \<and>
         (case op_action op of
            SetGrants _ _ \<Rightarrow> by' \<in> admins
          | AddMember _ grants \<Rightarrow>
              by' \<in> admins \<or>
              (p1_admission p \<and> by' \<in> humans \<and> \<not> bm_contains agents by' \<and>
               Admin \<notin> set grants \<and> holds_any_delegation policy by')
          | RemoveMember actor \<Rightarrow> by' \<in> admins \<or> map_of agents actor = Some by'
          | AddAgent actor grants \<Rightarrow>
              by' \<in> humans \<and> actor \<noteq> by' \<and> actor \<notin> humans \<and> \<not> bm_contains agents actor \<and>
              is_sponsorable_grant_set grants
          | MintEpoch _ gen _ _ \<Rightarrow> by' \<in> admins \<and> gen \<le> mint_ceiling ancestors h (p1_gens p)
          | RevokeInvite _ \<Rightarrow> by' \<in> admins
          | GrantCapability grant_id actor capability resource salt \<Rightarrow>
              judge_grant cr founders p by' grant_id actor capability resource salt
          | GrantCapabilityFrom grant_id actor capability resource salt _ \<Rightarrow>
              judge_grant cr founders p by' grant_id actor capability resource salt
          | RevokeCapability grant_id \<Rightarrow>
              (pass1_policy_admin founders p by' \<or>
               (by' \<in> humans \<and> \<not> bm_contains agents by' \<and>
                (case map_of (pp_grants policy) grant_id of
                   None \<Rightarrow> False
                 | Some g \<Rightarrow> holds_delegation policy by' (a_capability g) (a_resource g)))) \<and>
              \<not> orphans_policy_admin grant_id founders p
          | GrantDelegation delegation_id actor capability resource salt \<Rightarrow>
              well_formed_grant (capability_delegation_id cr) delegation_id actor capability resource salt \<and>
              \<not> (capability = policy_admin_capability \<and> resource = policy_admin_resource) \<and>
              (pass1_policy_admin founders p by' \<or>
               (p1_admission p \<and> by' \<in> humans \<and> \<not> bm_contains agents by' \<and>
                holds_delegation policy by' capability resource))
          | RevokeDelegation _ \<Rightarrow> pass1_policy_admin founders p by'
          | ActivateWorldImplementation world _ _ \<Rightarrow>
              resource_validate (resource_root world) = Inr () \<and> pass1_policy_admin founders p by'
          | SetMemberAdmission _ \<Rightarrow> pass1_policy_admin founders p by'))"

definition apply_policy :: "acl_action \<Rightarrow> policy_pass \<Rightarrow> policy_pass" where
  \<comment> \<open>the policy arms, identical in \<open>apply_authorized\<close> and \<open>materialize_authorized\<close>\<close>
  "apply_policy action policy =
     (case action of
        GrantCapability grant_id actor capability resource _ \<Rightarrow>
          policy\<lparr>pp_grants := bm_insert grant_id
            \<lparr>a_actor = actor, a_capability = capability, a_resource = resource\<rparr> (pp_grants policy)\<rparr>
      | GrantCapabilityFrom grant_id actor capability resource _ origin \<Rightarrow>
          policy\<lparr>pp_grants := bm_insert grant_id
              \<lparr>a_actor = actor, a_capability = capability, a_resource = resource\<rparr> (pp_grants policy),
            pp_origins := bm_insert grant_id origin (pp_origins policy)\<rparr>
      | RevokeCapability grant_id \<Rightarrow>
          policy\<lparr>pp_revoked_grants := insert grant_id (pp_revoked_grants policy)\<rparr>
      | GrantDelegation delegation_id actor capability resource _ \<Rightarrow>
          policy\<lparr>pp_delegations := bm_insert delegation_id
            \<lparr>a_actor = actor, a_capability = capability, a_resource = resource\<rparr> (pp_delegations policy)\<rparr>
      | RevokeDelegation delegation_id \<Rightarrow>
          policy\<lparr>pp_revoked_delegations := insert delegation_id (pp_revoked_delegations policy)\<rparr>
      | ActivateWorldImplementation world implementation_id implementation_version \<Rightarrow>
          policy\<lparr>pp_implementations := bm_insert world
            \<lparr>ai_id = implementation_id, ai_version = implementation_version\<rparr> (pp_implementations policy)\<rparr>
      | _ \<Rightarrow> policy)"

definition apply_admission :: "acl_action \<Rightarrow> bool \<Rightarrow> bool" where
  "apply_admission action enabled = (case action of SetMemberAdmission e \<Rightarrow> e | _ \<Rightarrow> enabled)"

definition seat_human :: "string \<Rightarrow> standing list \<Rightarrow> pass1 \<Rightarrow> pass1" where
  "seat_human actor grants p =
     p\<lparr>p1_humans := insert actor (p1_humans p),
       p1_agents := bm_remove actor (p1_agents p),
       p1_admins := (if Admin \<in> set grants then insert actor (p1_admins p) else p1_admins p - {actor})\<rparr>"

definition apply_authorized :: "acl_op \<Rightarrow> string \<Rightarrow> pass1 \<Rightarrow> pass1" where
  "apply_authorized op h p =
     (case op_action op of
        AddMember actor grants \<Rightarrow> seat_human actor grants p
      | SetGrants actor grants \<Rightarrow> seat_human actor grants p
      | AddAgent actor _ \<Rightarrow> p\<lparr>p1_agents := bm_insert actor (op_by op) (p1_agents p)\<rparr>
      | RemoveMember actor \<Rightarrow>
          p\<lparr>p1_humans := p1_humans p - {actor}, p1_admins := p1_admins p - {actor},
            p1_agents := filter (\<lambda>(_, sponsor). sponsor \<noteq> actor) (bm_remove actor (p1_agents p))\<rparr>
      | MintEpoch _ gen _ _ \<Rightarrow> p\<lparr>p1_gens := bm_insert h gen (p1_gens p)\<rparr>
      | _ \<Rightarrow> p\<lparr>p1_policy := apply_policy (op_action op) (p1_policy p),
               p1_admission := apply_admission (op_action op) (p1_admission p)\<rparr>)"

section \<open>Invariants of the standing\<close>

text \<open>What a property of the standing has to promise for every replay to keep it: an operation
  that \<open>judge_op\<close> accepts and \<open>apply_authorized\<close> folds in preserves it.\<close>

locale authority_invariant =
  fixes cr :: crypto and founders :: "string set" and ancestors :: "(string \<times> string set) list"
    and inv :: "pass1 \<Rightarrow> bool"
  assumes judged: "inv p \<Longrightarrow> judge_op cr founders ancestors op h p \<Longrightarrow> inv (apply_authorized op h p)"
begin

lemma guarded: "inv p \<Longrightarrow> (ok \<Longrightarrow> judge_op cr founders ancestors op h p) \<Longrightarrow>
    inv (if ok then apply_authorized op h p else p)"
  by (simp add: judged)

end

definition pass1_wf :: "pass1 \<Rightarrow> bool" where
  "pass1_wf p \<longleftrightarrow>
     p1_admins p \<subseteq> p1_humans p \<and>
     bm_keys (p1_agents p) \<inter> p1_humans p = {} \<and>
     (\<forall>a s. map_of (p1_agents p) a = Some s \<longrightarrow> s \<in> p1_humans p) \<and>
     bm_wf (p1_agents p) \<and> bm_wf (p1_gens p) \<and> bm_wf (pp_grants (p1_policy p)) \<and>
     bm_wf (pp_delegations (p1_policy p))"

lemma pass1_wf_initial: "pass1_wf (initial_pass1 g)"
  by (simp add: pass1_wf_def initial_pass1_def empty_policy_def bm_keys_def)

lemma bm_get_filter_wf: "bm_wf m \<Longrightarrow> map_of (filter P m) k =
    (case map_of m k of None \<Rightarrow> None | Some v \<Rightarrow> if P (k, v) then Some v else None)"
  by (induction m) (auto simp: bm_wf_def map_of_eq_None_iff split: option.splits)

lemma apply_policy_wf:
  "bm_wf (pp_grants q) \<Longrightarrow> bm_wf (pp_grants (apply_policy a q))"
  "bm_wf (pp_delegations q) \<Longrightarrow> bm_wf (pp_delegations (apply_policy a q))"
  by (auto simp: apply_policy_def bm_wf_insert split: acl_action.splits)

lemma seat_human_wf: "pass1_wf p \<Longrightarrow> pass1_wf (seat_human actor grants p)"
  by (auto simp: pass1_wf_def seat_human_def bm_keys_simps bm_get_remove bm_wf_remove split: if_splits)

lemma remove_member_wf:
  "pass1_wf p \<Longrightarrow> pass1_wf (p\<lparr>p1_humans := p1_humans p - {actor}, p1_admins := p1_admins p - {actor},
      p1_agents := filter (\<lambda>(_, sponsor). sponsor \<noteq> actor) (bm_remove actor (p1_agents p))\<rparr>)"
  by (auto simp: pass1_wf_def bm_wf_filter bm_wf_remove bm_keys_def bm_remove_def bm_get_filter_wf
      split: option.splits if_splits)

lemma judge_AddAgent:
  "judge_op cr founders anc op h p \<Longrightarrow> op_action op = AddAgent actor grants \<Longrightarrow>
     op_by op \<in> p1_humans p \<and> actor \<notin> p1_humans p \<and> Admin \<notin> set grants \<and> op_by op \<noteq> actor"
  by (auto simp: judge_op_def is_sponsorable_grant_set_def Let_def)

lemma judge_not_agent: "judge_op cr founders anc op h p \<Longrightarrow> \<not> bm_contains (p1_agents p) (op_by op)"
  by (simp add: judge_op_def Let_def)

lemma apply_authorized_wf:
  assumes wf: "pass1_wf p" and j: "judge_op cr founders anc op h p"
  shows "pass1_wf (apply_authorized op h p)"
proof (cases "op_action op")
  case (AddAgent actor grants)
  with judge_AddAgent [OF j AddAgent] wf show ?thesis
    by (auto simp: apply_authorized_def pass1_wf_def bm_keys_simps bm_get_insert bm_wf_insert)
next
  case (RemoveMember actor)
  with remove_member_wf [OF wf] show ?thesis by (simp add: apply_authorized_def)
next
  case (MintEpoch a b c d)
  with wf show ?thesis by (simp add: apply_authorized_def pass1_wf_def bm_wf_insert)
qed (use wf in \<open>simp_all add: apply_authorized_def seat_human_wf\<close>,
     simp_all add: pass1_wf_def apply_policy_wf)

interpretation standing: authority_invariant cr founders ancestors pass1_wf for cr founders ancestors
  by unfold_locales (rule apply_authorized_wf)

section \<open>Epoch generations\<close>

definition mints_before :: "nodes \<Rightarrow> (string, u32) btree_map \<Rightarrow> string \<Rightarrow> string set" where
  "mints_before ns gens h = {mh \<in> bm_keys gens. (mh, h) \<in> (causes ns)\<^sup>+}"

definition gens_bounded :: "nodes \<Rightarrow> pass1 \<Rightarrow> bool" where
  "gens_bounded ns p \<longleftrightarrow>
     (acyclic (causes ns) \<longrightarrow>
        (\<forall>mh g. map_of (p1_gens p) mh = Some g \<longrightarrow> unat g \<le> card (mints_before ns (p1_gens p) mh)))"

lemma finite_bm_keys [simp]: "finite (bm_keys m)"
  by (simp add: bm_keys_def)

lemma mints_before_mono:
  "bm_keys gens \<subseteq> bm_keys gens' \<Longrightarrow> card (mints_before ns gens h) \<le> card (mints_before ns gens' h)"
  by (intro card_mono) (auto simp: mints_before_def)

lemma saturating_succ_le: "unat (saturating_succ g) \<le> Suc (unat g)"
  by (cases "1 + g = 0") (auto simp: saturating_succ_def unatSuc add.commute)

lemma fold_max_mem: "fold max gs (g::'a::linorder) \<in> set (g # gs)"
proof (induction gs arbitrary: g)
  case (Cons x gs)
  from Cons [of "max x g"] show ?case by (auto simp: max_def split: if_splits)
qed simp

lemma mint_ceiling_cases:
  obtains "mint_ceiling anc h gens = 0"
  | mh g where "(mh, g) \<in> set gens" "anc_contains anc h mh" "mint_ceiling anc h gens = saturating_succ g"
proof (cases "map snd (filter (\<lambda>(mh, _). anc_contains anc h mh) gens)")
  case Nil
  then show ?thesis using that(1) by (simp add: mint_ceiling_def)
next
  case (Cons g gs)
  have "fold max gs g \<in> set (map snd (filter (\<lambda>(mh, _). anc_contains anc h mh) gens))"
    unfolding Cons by (rule fold_max_mem)
  then obtain mh where "(mh, fold max gs g) \<in> set gens" "anc_contains anc h mh" by auto
  with that(2) Cons show ?thesis by (simp add: mint_ceiling_def)
qed

lemma mint_gen_le:
  assumes wf: "bm_wf gens" and ac: "acyclic (causes ns)"
    and old: "\<And>mh g. map_of gens mh = Some g \<Longrightarrow> unat g \<le> card (mints_before ns gens mh)"
    and gen: "gen \<le> mint_ceiling (compute_ancestors ns) h gens"
  shows "unat gen \<le> card (mints_before ns gens h)"
proof (cases rule: mint_ceiling_cases [of "compute_ancestors ns" h gens])
  case 1
  with gen show ?thesis by simp
next
  case (2 mh g)
  have mh: "map_of gens mh = Some g" "(mh, h) \<in> (causes ns)\<^sup>+"
    using 2 bm_get_iff [OF wf] by (auto simp: anc_contains_iff)
  have sub: "insert mh (mints_before ns gens mh) \<subseteq> mints_before ns gens h"
    using mh by (auto simp: mints_before_def bm_keys_get)
  have "mh \<notin> mints_before ns gens mh" using ac by (auto simp: mints_before_def acyclic_def)
  then have "Suc (card (mints_before ns gens mh)) = card (insert mh (mints_before ns gens mh))"
    by (simp add: mints_before_def)
  also have "\<dots> \<le> card (mints_before ns gens h)"
    using sub by (intro card_mono) (simp add: mints_before_def)
  finally have "Suc (unat g) \<le> card (mints_before ns gens h)" using old [OF mh(1)] by simp
  moreover have "unat gen \<le> Suc (unat g)"
    using gen 2(3) saturating_succ_le [of g] by (simp add: word_le_nat_alt)
  ultimately show ?thesis by simp
qed

lemma apply_keeps_gens:
  "(\<forall>a b c d. op_action op \<noteq> MintEpoch a b c d) \<Longrightarrow> p1_gens (apply_authorized op h p) = p1_gens p"
  by (auto simp: apply_authorized_def seat_human_def split: acl_action.splits)

lemma apply_gens_bounded:
  assumes inv: "pass1_wf p \<and> gens_bounded ns p" and j: "judge_op cr founders (compute_ancestors ns) op h p"
  shows "gens_bounded ns (apply_authorized op h p)"
proof (cases "\<exists>a b c d. op_action op = MintEpoch a b c d")
  case True
  then obtain a gen c d where op: "op_action op = MintEpoch a gen c d" by blast
  have gens: "p1_gens (apply_authorized op h p) = bm_insert h gen (p1_gens p)"
    using op by (simp add: apply_authorized_def)
  have gen: "gen \<le> mint_ceiling (compute_ancestors ns) h (p1_gens p)"
    using j op by (simp add: judge_op_def Let_def)
  have keys: "bm_keys (p1_gens p) \<subseteq> bm_keys (bm_insert h gen (p1_gens p))" by (auto simp: bm_keys_simps)
  show ?thesis
    unfolding gens_bounded_def gens
  proof (intro impI allI)
    fix mh g assume ac: "acyclic (causes ns)" and mh: "map_of (bm_insert h gen (p1_gens p)) mh = Some g"
    have "unat g \<le> card (mints_before ns (p1_gens p) mh)"
    proof (cases "mh = h")
      case True
      with mh have "g = gen" by (simp add: bm_get_insert)
      moreover have "bm_wf (p1_gens p)" using inv by (simp add: pass1_wf_def)
      then have "unat gen \<le> card (mints_before ns (p1_gens p) h)"
        using ac _ gen by (rule mint_gen_le) (use inv ac in \<open>auto simp: gens_bounded_def\<close>)
      ultimately show ?thesis using True by simp
    next
      case False
      with mh inv ac show ?thesis by (auto simp: bm_get_insert gens_bounded_def)
    qed
    with mints_before_mono [OF keys] show "unat g \<le> card (mints_before ns (bm_insert h gen (p1_gens p)) mh)"
      by (meson order_trans)
  qed
next
  case False
  then have "p1_gens (apply_authorized op h p) = p1_gens p" by (auto intro: apply_keeps_gens)
  with inv show ?thesis by (simp add: gens_bounded_def)
qed

interpretation generations:
  authority_invariant cr founders "compute_ancestors ns" "\<lambda>p. pass1_wf p \<and> gens_bounded ns p"
  for cr founders ns
  by unfold_locales (simp add: apply_authorized_wf apply_gens_bounded)

section \<open>Policy administration\<close>

lemma holds_meta_iff:
  "bm_wf (pp_grants q) \<Longrightarrow> holds_meta q a \<longleftrightarrow>
     (\<exists>gid g. map_of (pp_grants q) gid = Some g \<and> gid \<notin> pp_revoked_grants q \<and> a_actor g = a \<and>
        a_capability g = policy_admin_capability \<and> a_resource g = policy_admin_resource)"
  by (auto simp: holds_meta_def list_ex_iff bm_get_iff)

lemma holds_meta_revoke:
  assumes "bm_wf (pp_grants q)" "holds_meta q a"
  shows "holds_meta (q\<lparr>pp_revoked_grants := insert gid (pp_revoked_grants q)\<rparr>) a \<or>
     (\<exists>g. map_of (pp_grants q) gid = Some g \<and> gid \<notin> pp_revoked_grants q \<and> a_actor g = a \<and>
        a_capability g = policy_admin_capability \<and> a_resource g = policy_admin_resource)"
  using assms by (auto simp: holds_meta_iff)

lemma orphan_guard:
  assumes wf: "bm_wf (pp_grants (p1_policy p))" and no: "\<not> orphans_policy_admin gid founders p"
    and g: "map_of (pp_grants (p1_policy p)) gid = Some g" "gid \<notin> pp_revoked_grants (p1_policy p)"
      "a_capability g = policy_admin_capability" "a_resource g = policy_admin_resource"
  shows "\<exists>a. a \<in> p1_humans p \<and> \<not> bm_contains (p1_agents p) a \<and>
     (a \<in> founders \<or> holds_meta ((p1_policy p)\<lparr>pp_revoked_grants := insert gid (pp_revoked_grants (p1_policy p))\<rparr>) a)"
proof (cases "\<exists>a \<in> founders. a \<in> p1_humans p \<and> \<not> bm_contains (p1_agents p) a")
  case False
  with no g obtain gid' g' where "(gid', g') \<in> set (pp_grants (p1_policy p))" "gid' \<noteq> gid"
      "gid' \<notin> pp_revoked_grants (p1_policy p)" "a_capability g' = policy_admin_capability"
      "a_resource g' = policy_admin_resource" "a_actor g' \<in> p1_humans p" "\<not> bm_contains (p1_agents p) (a_actor g')"
    by (auto simp: orphans_policy_admin_def Let_def list_ex_iff split: if_splits)
  then have "holds_meta ((p1_policy p)\<lparr>pp_revoked_grants := insert gid (pp_revoked_grants (p1_policy p))\<rparr>) (a_actor g')"
    "a_actor g' \<in> p1_humans p \<and> \<not> bm_contains (p1_agents p) (a_actor g')"
    by (auto simp: holds_meta_def list_ex_iff)
  then show ?thesis by blast
qed blast

lemma holds_meta_grant:
  assumes "\<not> (c = policy_admin_capability \<and> r = policy_admin_resource)"
    and "holds_meta (q\<lparr>pp_grants := bm_insert gid \<lparr>a_actor = b, a_capability = c, a_resource = r\<rparr> (pp_grants q)\<rparr>) a"
  shows "holds_meta q a"
proof -
  obtain gid' g where g: "(gid', g) \<in> set (bm_insert gid \<lparr>a_actor = b, a_capability = c, a_resource = r\<rparr> (pp_grants q))"
      "gid' \<notin> pp_revoked_grants q" "a_actor g = a" "a_capability g = policy_admin_capability"
      "a_resource g = policy_admin_resource"
    using assms(2) by (auto simp: holds_meta_def list_ex_iff)
  have "(gid', g) \<in> set (pp_grants q)"
    using g assms(1) set_bm_insert_subset [of gid "\<lparr>a_actor = b, a_capability = c, a_resource = r\<rparr>" "pp_grants q"] by auto
  with g show ?thesis by (auto simp: holds_meta_def list_ex_iff)
qed

lemma holds_meta_same: "pp_grants q' = pp_grants q \<Longrightarrow> pp_revoked_grants q \<subseteq> pp_revoked_grants q' \<Longrightarrow>
    holds_meta q' a \<Longrightarrow> holds_meta q a"
  by (auto simp: holds_meta_def list_ex_iff)

lemma apply_policy_revokes: "pp_revoked_grants q \<subseteq> pp_revoked_grants (apply_policy action q)"
  by (auto simp: apply_policy_def split: acl_action.splits)

lemma apply_policy_grants:
  "pp_grants (apply_policy action q) = pp_grants q \<or>
   (\<exists>gid b c r s. action = GrantCapability gid b c r s) \<or>
   (\<exists>gid b c r s og. action = GrantCapabilityFrom gid b c r s og)"
  by (cases action) (auto simp: apply_policy_def)

lemma holds_meta_apply:
  assumes "holds_meta (apply_policy action q) a" "\<not> holds_meta q a"
  obtains gid b s where "action = GrantCapability gid b policy_admin_capability policy_admin_resource s"
  | gid b s og where "action = GrantCapabilityFrom gid b policy_admin_capability policy_admin_resource s og"
proof -
  consider (same) "pp_grants (apply_policy action q) = pp_grants q"
    | (GrantCapability) gid b c r s where "action = GrantCapability gid b c r s"
    | (GrantCapabilityFrom) gid b c r s og where "action = GrantCapabilityFrom gid b c r s og"
    using apply_policy_grants [of action q] by blast
  then show thesis
  proof cases
    case same
    with holds_meta_same [OF same apply_policy_revokes assms(1)] assms(2) show ?thesis by blast
  next
    case GrantCapability
    then have "holds_meta (q\<lparr>pp_grants := bm_insert gid \<lparr>a_actor = b, a_capability = c, a_resource = r\<rparr> (pp_grants q)\<rparr>) a"
      using assms(1) by (simp add: apply_policy_def)
    with assms(2) holds_meta_grant have "c = policy_admin_capability \<and> r = policy_admin_resource" by blast
    with GrantCapability that(1) show ?thesis by blast
  next
    case GrantCapabilityFrom
    then have "holds_meta (q\<lparr>pp_grants := bm_insert gid \<lparr>a_actor = b, a_capability = c, a_resource = r\<rparr> (pp_grants q)\<rparr>) a"
      using assms(1) by (simp add: apply_policy_def holds_meta_def)
    with assms(2) holds_meta_grant have "c = policy_admin_capability \<and> r = policy_admin_resource" by blast
    with GrantCapabilityFrom that(2) show ?thesis by blast
  qed
qed

lemma apply_authorized_policy:
  "p1_policy (apply_authorized op h p) = apply_policy (op_action op) (p1_policy p)"
  "p1_admission (apply_authorized op h p) = apply_admission (op_action op) (p1_admission p)"
  by (auto simp: apply_authorized_def apply_policy_def apply_admission_def seat_human_def split: acl_action.splits)

lemma judge_meta:
  assumes "judge_op cr founders anc op h p"
  shows "pass1_policy_admin founders p (op_by op) \<or>
      {a. holds_meta (p1_policy (apply_authorized op h p)) a} \<subseteq> {a. holds_meta (p1_policy p) a}"
proof (rule disjCI, rule ccontr)
  assume "\<not> {a. holds_meta (p1_policy (apply_authorized op h p)) a} \<subseteq> {a. holds_meta (p1_policy p) a}"
  then obtain a where "holds_meta (apply_policy (op_action op) (p1_policy p)) a" "\<not> holds_meta (p1_policy p) a"
    by (auto simp: apply_authorized_policy)
  moreover assume "\<not> pass1_policy_admin founders p (op_by op)"
  ultimately show False
    using assms by (elim holds_meta_apply) (auto simp: judge_op_def judge_grant_def Let_def)
qed

lemma judge_admins:
  "judge_op cr founders anc op h p \<Longrightarrow>
     op_by op \<in> p1_admins p \<or> p1_admins (apply_authorized op h p) \<subseteq> p1_admins p"
  by (cases "op_action op") (auto simp: judge_op_def apply_authorized_def seat_human_def Let_def)

section \<open>Properties\<close>

definition demo_genesis :: genesis where
  "demo_genesis = \<lparr>g_space = ''w'', g_founding = [''act_f''], g_salt = [], g_recovery_root = []\<rparr>"

definition demo_op :: "char \<Rightarrow> acl_action \<Rightarrow> acl_op" where
  "demo_op c action = \<lparr>op_action = action, op_by = ''act_'' @ [c], op_asof = [[c]], op_nonce = None\<rparr>"

definition demo_meta_pass :: pass1 where
  \<comment> \<open>the founder has left; two members hold the policy-admin grant\<close>
  "demo_meta_pass = \<lparr>p1_admins = {''act_a''}, p1_humans = {''act_a'', ''act_b''}, p1_agents = [], p1_gens = [],
     p1_policy = empty_policy\<lparr>pp_grants :=
       [(''1'', \<lparr>a_actor = ''act_a'', a_capability = policy_admin_capability, a_resource = policy_admin_resource\<rparr>),
        (''2'', \<lparr>a_actor = ''act_b'', a_capability = policy_admin_capability, a_resource = policy_admin_resource\<rparr>)]\<rparr>,
     p1_admission = False\<rparr>"

text \<open>C3: authority never escalates. An authorized operation adds a membership administrator only
  when its author is one, and gives the policy-admin meta-capability to somebody only when its
  author is a policy administrator; an agent authors nothing.\<close>

theorem authority_never_escalates:
  assumes "judge_op cr founders anc op h p"
  shows "(op_by op \<in> p1_admins p \<or> p1_admins (apply_authorized op h p) \<subseteq> p1_admins p) \<and>
     (pass1_policy_admin founders p (op_by op) \<or>
      {a. holds_meta (p1_policy (apply_authorized op h p)) a} \<subseteq> {a. holds_meta (p1_policy p) a}) \<and>
     \<not> bm_contains (p1_agents p) (op_by op)"
  using judge_admins [OF assms] judge_meta [OF assms] judge_not_agent [OF assms] by blast

theorem authority_never_escalates_witness:
  "judge_op demo_crypto {''act_f''} [] (demo_op (CHR ''f'') (AddMember ''act_a'' [Write])) ''1'' (initial_pass1 demo_genesis) \<and>
   \<not> bm_contains (p1_agents (initial_pass1 demo_genesis)) ''act_f''"
proof -
  have j: "judge_op demo_crypto {''act_f''} [] (demo_op (CHR ''f'') (AddMember ''act_a'' [Write])) ''1'' (initial_pass1 demo_genesis)"
    by code_simp
  from authority_never_escalates [OF j] j show ?thesis by (simp add: demo_op_def)
qed

text \<open>A revocation never orphans policy administration. In a well-formed standing with at least
  one policy administrator, an authorized \<open>RevokeCapability\<close> leaves at least one.\<close>

theorem revoke_keeps_policy_admin:
  assumes "pass1_wf p" "judge_op cr founders anc op h p" "op_action op = RevokeCapability gid"
    and "\<exists>a. pass1_policy_admin founders p a"
  shows "\<exists>a. pass1_policy_admin founders (apply_authorized op h p) a"
proof -
  let ?q = "(p1_policy p)\<lparr>pp_revoked_grants := insert gid (pp_revoked_grants (p1_policy p))\<rparr>"
  obtain a where a: "pass1_policy_admin founders p a" using assms(4) by blast
  have wf: "bm_wf (pp_grants (p1_policy p))" using assms(1) by (simp add: pass1_wf_def)
  have no: "\<not> orphans_policy_admin gid founders p" using assms(2,3) by (simp add: judge_op_def Let_def)
  have "\<exists>a. a \<in> p1_humans p \<and> \<not> bm_contains (p1_agents p) a \<and> (a \<in> founders \<or> holds_meta ?q a)"
  proof (cases "a \<in> founders \<or> holds_meta ?q a")
    case True
    with a show ?thesis by (auto simp: pass1_policy_admin_def)
  next
    case False
    with a holds_meta_revoke [OF wf] show ?thesis
      unfolding pass1_policy_admin_def using orphan_guard [OF wf no] by blast
  qed
  then show ?thesis
    using assms(3) by (simp add: pass1_policy_admin_def apply_authorized_def apply_policy_def)
qed

theorem revoke_keeps_policy_admin_witness:
  "judge_op demo_crypto {''act_f''} [] (demo_op (CHR ''a'') (RevokeCapability ''1'')) ''h'' demo_meta_pass \<and>
   (\<exists>a. pass1_policy_admin {''act_f''} (apply_authorized (demo_op (CHR ''a'') (RevokeCapability ''1'')) ''h'' demo_meta_pass) a)"
proof -
  have wf: "pass1_wf demo_meta_pass"
    by (auto simp: pass1_wf_def demo_meta_pass_def bm_keys_def bm_wf_def empty_policy_def)
  have j: "judge_op demo_crypto {''act_f''} [] (demo_op (CHR ''a'') (RevokeCapability ''1'')) ''h'' demo_meta_pass"
    by code_simp
  have "pass1_policy_admin {''act_f''} demo_meta_pass ''act_a''" by code_simp
  with revoke_keeps_policy_admin [OF wf j, of "''1''"] j show ?thesis by (auto simp: demo_op_def)
qed

end
