(* ===== verification/AclState.thy ===== *)
theory AclState
  imports Acl
begin

text \<open>
  The membership authority plane, pass 2 (\<^verbatim>\<open>crates/mechanics/src/acl.rs\<close>): from the authorized
  operations in deterministic order, \<open>materialize_authorized\<close> derives the public state by applying
  membership operations, then the overrides remove-wins, single-use nonce races, revoke fences, the
  sponsor cascade and fence discharge; each phase is a definition of its own, composed in the order
  of the source. The accessors of \<open>AclState\<close> and the demand evaluator follow.

  The decoded operations are given by \<open>decoded :: string \<Rightarrow> acl_op option\<close>, the ancestor sets by the
  result of \<open>compute_ancestors\<close>.
\<close>

section \<open>State\<close>

record epoch_auth =
  ea_id :: bytes
  ea_gen :: u32
  ea_key_commit :: bytes
  ea_members :: "string list"
  ea_minted_by :: string
  ea_mint_hash :: string

record rekey_fence =
  rf_fence :: string
  rf_evicted :: string
  rf_nonce :: bytes

record acl_state =
  st_members :: "(string, standing set) btree_map"
  st_agents :: "(string, string) btree_map"
  st_epochs :: "(bytes, epoch_auth) btree_map"
  st_revoked_invites :: "bytes set"
  st_spent_nonces :: "bytes set"
  st_rekey_fences :: "rekey_fence list"
  st_policy :: policy_pass
  st_policy_admins :: "string set"
  st_nonce_admits :: "(bytes, string set) btree_map"
  st_member_admission :: bool
  st_unresolved :: bool

definition default_state :: acl_state where
  "default_state = \<lparr>st_members = [], st_agents = [], st_epochs = [], st_revoked_invites = {},
     st_spent_nonces = {}, st_rekey_fences = [], st_policy = empty_policy, st_policy_admins = {},
     st_nonce_admits = [], st_member_admission = False, st_unresolved = False\<rparr>"

definition unresolved :: acl_state where
  "unresolved = default_state\<lparr>st_unresolved := True\<rparr>"

section \<open>Materialization\<close>

text \<open>The locals the first loop updates.\<close>

record mat =
  m_members :: "(string, standing set) btree_map"
  m_agents :: "(string, string) btree_map"
  m_epochs :: "(bytes, epoch_auth) btree_map"
  m_revoked_invites :: "bytes set"
  m_spent_nonces :: "bytes set"
  m_policy :: policy_pass
  m_admission :: bool

definition initial_mat :: "genesis \<Rightarrow> mat" where
  "initial_mat g = \<lparr>m_members = fold (\<lambda>a. bm_insert a {Admin, Write}) (g_founding g) [], m_agents = [],
     m_epochs = [], m_revoked_invites = {}, m_spent_nonces = {}, m_policy = empty_policy, m_admission = False\<rparr>"

definition spend_nonce :: "acl_op \<Rightarrow> mat \<Rightarrow> mat" where
  "spend_nonce op m =
     (case (op_action op, op_nonce op) of
        (AddMember _ _, Some nonce) \<Rightarrow> m\<lparr>m_spent_nonces := insert nonce (m_spent_nonces m)\<rparr>
      | _ \<Rightarrow> m)"

definition mat_op :: "acl_op \<Rightarrow> string \<Rightarrow> mat \<Rightarrow> mat" where
  "mat_op op h m =
     (case op_action op of
        AddMember actor grants \<Rightarrow>
          m\<lparr>m_members := bm_insert actor (set grants) (m_members m), m_agents := bm_remove actor (m_agents m)\<rparr>
      | SetGrants actor grants \<Rightarrow>
          m\<lparr>m_members := bm_insert actor (set grants) (m_members m), m_agents := bm_remove actor (m_agents m)\<rparr>
      | AddAgent actor grants \<Rightarrow>
          m\<lparr>m_members := bm_insert actor (set grants) (m_members m),
            m_agents := bm_insert actor (op_by op) (m_agents m)\<rparr>
      | RemoveMember actor \<Rightarrow>
          m\<lparr>m_members := bm_remove actor (m_members m), m_agents := bm_remove actor (m_agents m)\<rparr>
      | MintEpoch eid gen key_commit recipients \<Rightarrow>
          m\<lparr>m_epochs := bm_or_insert eid \<lparr>ea_id = eid, ea_gen = gen, ea_key_commit = key_commit,
              ea_members = recipients, ea_minted_by = op_by op, ea_mint_hash = h\<rparr> (m_epochs m)\<rparr>
      | RevokeInvite nonce \<Rightarrow> m\<lparr>m_revoked_invites := insert nonce (m_revoked_invites m)\<rparr>
      | action \<Rightarrow> m\<lparr>m_policy := apply_policy action (m_policy m),
                    m_admission := apply_admission action (m_admission m)\<rparr>)"

definition mat_step :: "(string \<Rightarrow> acl_op option) \<Rightarrow> string \<Rightarrow> mat \<Rightarrow> mat" where
  "mat_step decoded h m =
     (case decoded h of None \<Rightarrow> m | Some op \<Rightarrow> mat_op op h (spend_nonce op m))"

definition evict :: "string \<Rightarrow> mat \<Rightarrow> mat" where
  "evict actor m = m\<lparr>m_members := bm_remove actor (m_members m), m_agents := bm_remove actor (m_agents m)\<rparr>"

subsection \<open>Remove-wins\<close>

definition seats_actor :: "acl_op \<Rightarrow> string option" where
  \<comment> \<open>the add-like actions: \<open>AddMember\<close>, \<open>SetGrants\<close>, \<open>AddAgent\<close>\<close>
  "seats_actor op =
     (case op_action op of
        AddMember actor _ \<Rightarrow> Some actor | SetGrants actor _ \<Rightarrow> Some actor | AddAgent actor _ \<Rightarrow> Some actor
      | _ \<Rightarrow> None)"

definition is_add :: "(string \<Rightarrow> acl_op option) \<Rightarrow> string \<Rightarrow> string \<Rightarrow> bool" where
  "is_add decoded subject h =
     (case decoded h of None \<Rightarrow> False | Some op \<Rightarrow> seats_actor op = Some subject)"

definition is_remove :: "(string \<Rightarrow> acl_op option) \<Rightarrow> string \<Rightarrow> string \<Rightarrow> bool" where
  "is_remove decoded subject h =
     (case decoded h of None \<Rightarrow> False | Some op \<Rightarrow> op_action op = RemoveMember subject)"

definition removed_subject ::
  "(string \<Rightarrow> acl_op option) \<Rightarrow> (string \<times> string set) list \<Rightarrow> string list \<Rightarrow> string \<Rightarrow> bool" where
  "removed_subject decoded ancestors authorized subject =
     (let adds = filter (is_add decoded subject) authorized;
          removes = filter (is_remove decoded subject) authorized
      in list_ex (\<lambda>r. \<not> list_ex (\<lambda>a. anc_contains ancestors a r) adds) removes)"

definition subjects_of :: "(string \<Rightarrow> acl_op option) \<Rightarrow> string list \<Rightarrow> string list" where
  "subjects_of decoded authorized =
     sorted_list_of_set (set (List.map_filter
       (\<lambda>h. case decoded h of None \<Rightarrow> None | Some op \<Rightarrow> action_actor (op_action op)) authorized))"

definition remove_wins ::
  "(string \<Rightarrow> acl_op option) \<Rightarrow> (string \<times> string set) list \<Rightarrow> string list \<Rightarrow> mat \<Rightarrow> mat" where
  "remove_wins decoded ancestors authorized m =
     fold evict (filter (removed_subject decoded ancestors authorized) (subjects_of decoded authorized)) m"

subsection \<open>Single-use nonces\<close>

definition nonce_admit :: "(string \<Rightarrow> acl_op option) \<Rightarrow> string \<Rightarrow> (bytes \<times> string) option" where
  \<comment> \<open>the pattern \<open>AclOp { action: AddMember { actor, .. }, nonce: Some(n), .. }\<close>\<close>
  "nonce_admit decoded h =
     (case decoded h of
        Some op \<Rightarrow> (case (op_action op, op_nonce op) of
                     (AddMember actor _, Some n) \<Rightarrow> Some (n, actor) | _ \<Rightarrow> None)
      | None \<Rightarrow> None)"

definition by_nonce ::
  "(string \<Rightarrow> acl_op option) \<Rightarrow> string list \<Rightarrow> (bytes, (string \<times> string) list) btree_map" where
  "by_nonce decoded authorized =
     fold (\<lambda>h m. case nonce_admit decoded h of
         None \<Rightarrow> m
       | Some (n, actor) \<Rightarrow>
           bm_insert n ((case map_of m n of None \<Rightarrow> [] | Some g \<Rightarrow> g) @ [(h, actor)]) m) authorized []"

definition concurrent :: "(string \<times> string set) list \<Rightarrow> string \<Rightarrow> string \<Rightarrow> bool" where
  "concurrent ancestors a b \<longleftrightarrow> \<not> anc_contains ancestors a b \<and> \<not> anc_contains ancestors b a"

definition race_loser ::
  "(string \<times> string set) list \<Rightarrow> (string \<times> string) list \<Rightarrow> string \<times> string \<Rightarrow> bool" where
  "race_loser ancestors admits x =
     list_ex (\<lambda>(other_h, other_actor).
       other_actor \<noteq> snd x \<and> other_h < fst x \<and> concurrent ancestors other_h (fst x)) admits"

definition contested :: "(string \<times> string) list \<Rightarrow> bool" where
  \<comment> \<open>more than one distinct actor was admitted under the nonce\<close>
  "contested admits \<longleftrightarrow> card (snd ` set admits) > 1"

definition race_losers ::
  "(string \<times> string set) list \<Rightarrow> (string \<times> string) list \<Rightarrow> (string \<times> string) list" where
  "race_losers ancestors admits =
     (if contested admits then filter (race_loser ancestors admits) (sort_key fst admits) else [])"

definition all_losing ::
  "(string \<times> string set) list \<Rightarrow> (bytes, (string \<times> string) list) btree_map \<Rightarrow> string set" where
  "all_losing ancestors groups = set (concat (map (\<lambda>(_, g). map fst (race_losers ancestors g)) groups))"

definition races ::
  "(string \<times> string set) list \<Rightarrow> (bytes, (string \<times> string) list) btree_map \<Rightarrow>
   (string \<times> (string \<times> string) list) list" where
  "races ancestors groups =
     List.map_filter (\<lambda>(_, g).
       if race_losers ancestors g = [] then None
       else Some (snd (hd (sort_key fst g)), sort_key fst g)) groups"

subsection \<open>Revoke fences\<close>

definition revoke_ops :: "(string \<Rightarrow> acl_op option) \<Rightarrow> string list \<Rightarrow> (bytes \<times> string) list" where
  "revoke_ops decoded authorized =
     List.map_filter (\<lambda>h. case decoded h of
         Some op \<Rightarrow> (case op_action op of RevokeInvite nonce \<Rightarrow> Some (nonce, h) | _ \<Rightarrow> None)
       | None \<Rightarrow> None) authorized"

definition fence_group ::
  "(string \<times> string set) list \<Rightarrow> bytes \<Rightarrow> string \<Rightarrow> (string \<times> string) list \<Rightarrow>
   (string, rekey_fence) btree_map \<Rightarrow> (string, rekey_fence) btree_map" where
  "fence_group ancestors nonce rh admits fenced =
     fold (\<lambda>(dh, actor) f.
       if anc_contains ancestors rh dh then f
       else bm_insert dh \<lparr>rf_fence = rh, rf_evicted = actor, rf_nonce = nonce\<rparr> f) admits fenced"

definition fenced_admits ::
  "(string \<times> string set) list \<Rightarrow> (bytes, (string \<times> string) list) btree_map \<Rightarrow> (bytes \<times> string) list \<Rightarrow>
   (string, rekey_fence) btree_map" where
  "fenced_admits ancestors groups revokes =
     fold (\<lambda>(nonce, rh) f. case map_of groups nonce of
         None \<Rightarrow> f | Some admits \<Rightarrow> fence_group ancestors nonce rh admits f) revokes []"

definition seated_independently ::
  "(string \<Rightarrow> acl_op option) \<Rightarrow> string list \<Rightarrow> string set \<Rightarrow> string \<Rightarrow> bool" where
  "seated_independently decoded authorized disqualified actor =
     list_ex (\<lambda>h. h \<notin> disqualified \<and> is_add decoded actor h) authorized"

definition evict_losers ::
  "(string \<Rightarrow> bool) \<Rightarrow> (string \<times> (string \<times> string) list) list \<Rightarrow> mat \<Rightarrow> mat" where
  "evict_losers seated rs m =
     fold (\<lambda>(winner, admits). fold (\<lambda>(_, actor) m.
       if actor = winner then m else if \<not> seated actor then evict actor m else m) admits) rs m"

definition evict_fenced ::
  "(string \<Rightarrow> bool) \<Rightarrow> (string, rekey_fence) btree_map \<Rightarrow> mat \<Rightarrow> mat \<times> rekey_fence list" where
  "evict_fenced seated fenced m =
     (let out = filter (\<lambda>f. \<not> seated (rf_evicted f)) (map snd fenced)
      in (fold (\<lambda>f. evict (rf_evicted f)) out m,
          remdups_adj (sort_key (\<lambda>f. (rf_fence f, rf_evicted f, rf_nonce f)) out)))"

subsection \<open>Cascade, discharge and projections\<close>

definition sponsor_cascade :: "mat \<Rightarrow> mat" where
  "sponsor_cascade m =
     (let orphaned = map fst (filter (\<lambda>(_, sponsor). \<not> bm_contains (m_members m) sponsor) (m_agents m))
      in fold evict orphaned m)"

definition discharge ::
  "(string \<times> string set) list \<Rightarrow> (bytes, epoch_auth) btree_map \<Rightarrow> rekey_fence list \<Rightarrow> rekey_fence list" where
  "discharge ancestors epochs fences =
     filter (\<lambda>f. \<not> list_ex (\<lambda>(_, e). anc_contains ancestors (ea_mint_hash e) (rf_fence f)) epochs) fences"

definition policy_admins_of :: "genesis \<Rightarrow> policy_pass \<Rightarrow> (string, standing set) btree_map \<Rightarrow> string set" where
  "policy_admins_of g policy members =
     set (filter (bm_contains members) (g_founding g)) \<union>
     set (map (\<lambda>(_, a). a_actor a)
       (filter (\<lambda>(id, a). id \<notin> pp_revoked_grants policy \<and> a_capability a = policy_admin_capability \<and>
          a_resource a = policy_admin_resource \<and> bm_contains members (a_actor a)) (pp_grants policy)))"

definition nonce_admits_of ::
  "(string \<Rightarrow> acl_op option) \<Rightarrow> string list \<Rightarrow> (string, standing set) btree_map \<Rightarrow> (bytes, string set) btree_map" where
  "nonce_admits_of decoded authorized members =
     fold (\<lambda>h m. case nonce_admit decoded h of
         Some (n, actor) \<Rightarrow>
           if bm_contains members actor
           then bm_insert n (insert actor (case map_of m n of None \<Rightarrow> {} | Some s \<Rightarrow> s)) m else m
       | None \<Rightarrow> m) authorized []"

definition disqualified_ops ::
  "(string \<Rightarrow> acl_op option) \<Rightarrow> (string \<times> string set) list \<Rightarrow> string list \<Rightarrow> string set" where
  "disqualified_ops decoded ancestors authorized =
     (let groups = by_nonce decoded authorized
      in all_losing ancestors groups \<union>
         bm_keys (fenced_admits ancestors groups (revoke_ops decoded authorized)))"

definition materialize_authorized ::
  "genesis \<Rightarrow> (string \<Rightarrow> acl_op option) \<Rightarrow> (string \<times> string set) list \<Rightarrow> string list \<Rightarrow> acl_state" where
  "materialize_authorized g decoded ancestors authorized =
     (let m0 = fold (mat_step decoded) authorized (initial_mat g);
          m1 = remove_wins decoded ancestors authorized m0;
          groups = by_nonce decoded authorized;
          fenced = fenced_admits ancestors groups (revoke_ops decoded authorized);
          seated = seated_independently decoded authorized (disqualified_ops decoded ancestors authorized);
          m2 = evict_losers seated (races ancestors groups) m1;
          (m3, fences) = evict_fenced seated fenced m2;
          m4 = sponsor_cascade m3
      in \<lparr>st_members = m_members m4, st_agents = m_agents m4, st_epochs = m_epochs m4,
          st_revoked_invites = m_revoked_invites m4, st_spent_nonces = m_spent_nonces m4,
          st_rekey_fences = discharge ancestors (m_epochs m4) fences,
          st_policy = m_policy m4,
          st_policy_admins = policy_admins_of g (m_policy m4) (m_members m4),
          st_nonce_admits = nonce_admits_of decoded authorized (m_members m4),
          st_member_admission = m_admission m4, st_unresolved = False\<rparr>)"

section \<open>Reading the state\<close>

definition is_invite_revoked :: "acl_state \<Rightarrow> bytes \<Rightarrow> bool" where
  "is_invite_revoked s nonce \<longleftrightarrow> st_unresolved s \<or> nonce \<in> st_revoked_invites s"

definition is_nonce_spent :: "acl_state \<Rightarrow> bytes \<Rightarrow> bool" where
  "is_nonce_spent s nonce \<longleftrightarrow> st_unresolved s \<or> nonce \<in> st_spent_nonces s"

definition nonce_redeemers :: "acl_state \<Rightarrow> bytes \<Rightarrow> string list" where
  "nonce_redeemers s nonce =
     (case map_of (st_nonce_admits s) nonce of None \<Rightarrow> [] | Some a \<Rightarrow> sorted_list_of_set a)"

definition epoch :: "acl_state \<Rightarrow> bytes \<Rightarrow> epoch_auth option" where
  "epoch s eid = map_of (st_epochs s) eid"

definition is_member :: "acl_state \<Rightarrow> string \<Rightarrow> bool" where
  "is_member s a = bm_contains (st_members s) a"

definition is_admin :: "acl_state \<Rightarrow> string \<Rightarrow> bool" where
  "is_admin s a = (case map_of (st_members s) a of None \<Rightarrow> False | Some g \<Rightarrow> Admin \<in> g)"

definition can_write :: "acl_state \<Rightarrow> string \<Rightarrow> bool" where
  "can_write s a = (case map_of (st_members s) a of None \<Rightarrow> False | Some g \<Rightarrow> Admin \<in> g \<or> Write \<in> g)"

definition is_agent :: "acl_state \<Rightarrow> string \<Rightarrow> bool" where
  "is_agent s a = bm_contains (st_agents s) a"

definition sponsor_of :: "acl_state \<Rightarrow> string \<Rightarrow> string option" where
  "sponsor_of s a = map_of (st_agents s) a"

definition is_human_member :: "acl_state \<Rightarrow> string \<Rightarrow> bool" where
  "is_human_member s a \<longleftrightarrow> is_member s a \<and> \<not> is_agent s a"

definition grants_of :: "acl_state \<Rightarrow> string \<Rightarrow> standing list" where
  "grants_of s a = (case map_of (st_members s) a of None \<Rightarrow> [] | Some g \<Rightarrow> sorted_list_of_set g)"

definition standing_label :: "acl_state \<Rightarrow> string \<Rightarrow> string option" where
  "standing_label s a =
     (if is_agent s a then Some ''agent''
      else case map_of (st_members s) a of
             None \<Rightarrow> None
           | Some g \<Rightarrow> Some (if Admin \<in> g then ''admin'' else if Write \<in> g then ''member'' else ''viewer''))"

definition is_policy_admin :: "acl_state \<Rightarrow> string \<Rightarrow> bool" where
  "is_policy_admin s a \<longleftrightarrow> a \<in> st_policy_admins s"

definition member_admission :: "acl_state \<Rightarrow> bool" where
  "member_admission s \<longleftrightarrow> \<not> st_unresolved s \<and> st_member_admission s"

definition effective_capability_grants ::
  "acl_state \<Rightarrow> string \<Rightarrow> policy_capability \<Rightarrow> resource \<Rightarrow> bytes list" where
  "effective_capability_grants s a capability resource =
     (if \<not> bm_contains (st_members s) a then []
      else map fst (filter (\<lambda>(id, g). id \<notin> pp_revoked_grants (st_policy s) \<and> a_actor g = a \<and>
             a_capability g = capability \<and> a_resource g = resource) (pp_grants (st_policy s))))"

definition has_capability :: "acl_state \<Rightarrow> string \<Rightarrow> policy_capability \<Rightarrow> resource \<Rightarrow> bool" where
  "has_capability s a capability resource \<longleftrightarrow> effective_capability_grants s a capability resource \<noteq> []"

definition has_delegation :: "acl_state \<Rightarrow> string \<Rightarrow> policy_capability \<Rightarrow> resource \<Rightarrow> bool" where
  "has_delegation s a capability resource \<longleftrightarrow>
     bm_contains (st_members s) a \<and> holds_delegation (st_policy s) a capability resource"

definition may_delegate :: "acl_state \<Rightarrow> string \<Rightarrow> policy_capability \<Rightarrow> resource \<Rightarrow> bool" where
  "may_delegate s a capability resource =
     (if capability = policy_admin_capability \<and> resource = policy_admin_resource
      then is_policy_admin s a
      else is_policy_admin s a \<or> has_delegation s a capability resource)"

definition active_implementation_state :: "acl_state \<Rightarrow> string \<Rightarrow> active_implementation option" where
  "active_implementation_state s world = map_of (pp_implementations (st_policy s)) world"

definition active_implementation_id :: "acl_state \<Rightarrow> string \<Rightarrow> bytes option" where
  "active_implementation_id s world = map_option ai_id (map_of (pp_implementations (st_policy s)) world)"

definition activated_worlds :: "acl_state \<Rightarrow> string list" where
  "activated_worlds s = map fst (pp_implementations (st_policy s))"

definition is_grant_revoked :: "acl_state \<Rightarrow> bytes \<Rightarrow> bool" where
  "is_grant_revoked s grant_id \<longleftrightarrow> grant_id \<in> pp_revoked_grants (st_policy s)"

definition effective_assignments :: "acl_state \<Rightarrow> string \<Rightarrow> (bytes \<times> assignment) list" where
  "effective_assignments s a =
     (if \<not> bm_contains (st_members s) a then []
      else filter (\<lambda>(id, g). id \<notin> pp_revoked_grants (st_policy s) \<and> a_actor g = a)
             (pp_grants (st_policy s)))"

text \<open>Evaluating a demand; \<open>evaluate_any\<close> is the loop of the \<open>Any\<close> branch with its running best
  child (\<open>encode_canonical().ok()?\<close> returns from the whole evaluation).\<close>

fun evaluate_node :: "acl_state \<Rightarrow> string \<Rightarrow> demand \<Rightarrow> bytes list option"
  and evaluate_all :: "acl_state \<Rightarrow> string \<Rightarrow> demand list \<Rightarrow> bytes list option"
  and evaluate_any :: "acl_state \<Rightarrow> string \<Rightarrow> demand list \<Rightarrow> (bytes \<times> bytes list) option \<Rightarrow> bytes list option" where
  "evaluate_node s a (Require capability resource) =
     (case effective_capability_grants s a capability resource of [] \<Rightarrow> None | gid # _ \<Rightarrow> Some [gid])"
| "evaluate_node s a (All children) = evaluate_all s a children"
| "evaluate_node s a (Any children) = evaluate_any s a children None"
| "evaluate_all s a [] = Some []"
| "evaluate_all s a (d # ds) =
     (case evaluate_node s a d of
        None \<Rightarrow> None
      | Some w \<Rightarrow> (case evaluate_all s a ds of None \<Rightarrow> None | Some ws \<Rightarrow> Some (w @ ws)))"
| "evaluate_any s a [] best = map_option snd best"
| "evaluate_any s a (d # ds) best =
     (case evaluate_node s a d of
        None \<Rightarrow> evaluate_any s a ds best
      | Some w \<Rightarrow>
          (case encode_canonical d of
             Inl _ \<Rightarrow> None
           | Inr b \<Rightarrow>
               (case best of
                  Some (b', _) \<Rightarrow> if b' \<le> b then evaluate_any s a ds best else evaluate_any s a ds (Some (b, w))
                | None \<Rightarrow> evaluate_any s a ds (Some (b, w)))))"

definition evaluate_demand :: "acl_state \<Rightarrow> string \<Rightarrow> demand \<Rightarrow> bytes list option" where
  "evaluate_demand s a d = map_option (\<lambda>w. remdups_adj (sort w)) (evaluate_node s a d)"

section \<open>Evictions\<close>

lemma fold_evict_simps [simp]:
  "m_members (fold evict xs m) = fold bm_remove xs (m_members m)"
  "m_agents (fold evict xs m) = fold bm_remove xs (m_agents m)"
  "m_epochs (fold evict xs m) = m_epochs m"
  "m_revoked_invites (fold evict xs m) = m_revoked_invites m"
  "m_spent_nonces (fold evict xs m) = m_spent_nonces m"
  "m_policy (fold evict xs m) = m_policy m"
  "m_admission (fold evict xs m) = m_admission m"
  by (induction xs arbitrary: m) (simp_all add: evict_def)

definition race_evictions :: "(string \<Rightarrow> bool) \<Rightarrow> (string \<times> (string \<times> string) list) list \<Rightarrow> string list" where
  "race_evictions seated rs =
     concat (map (\<lambda>(winner, admits). map snd (filter (\<lambda>(_, actor). actor \<noteq> winner \<and> \<not> seated actor) admits)) rs)"

lemma evict_losers_fold: "evict_losers seated rs m = fold evict (race_evictions seated rs) m"
proof -
  have inner: "fold (\<lambda>(_, actor) m. if actor = w then m else if \<not> seated actor then evict actor m else m) admits m =
      fold evict (map snd (filter (\<lambda>(_, actor). actor \<noteq> w \<and> \<not> seated actor) admits)) m"
    for w m and admits :: "(string \<times> string) list"
    by (induction admits arbitrary: m) auto
  show ?thesis
    by (induction rs arbitrary: m) (auto simp: evict_losers_def race_evictions_def inner)
qed

definition fence_evictions :: "(string \<Rightarrow> bool) \<Rightarrow> (string, rekey_fence) btree_map \<Rightarrow> string list" where
  "fence_evictions seated fenced = map rf_evicted (filter (\<lambda>f. \<not> seated (rf_evicted f)) (map snd fenced))"

lemma evict_fenced_fold: "fst (evict_fenced seated fenced m) = fold evict (fence_evictions seated fenced) m"
  by (simp add: evict_fenced_def fence_evictions_def Let_def fold_map comp_def)

text \<open>The evictions before the sponsor cascade, and the state they leave.\<close>

definition mat_folded :: "genesis \<Rightarrow> (string \<Rightarrow> acl_op option) \<Rightarrow> string list \<Rightarrow> mat" where
  "mat_folded g decoded authorized = fold (mat_step decoded) authorized (initial_mat g)"

definition evictions ::
  "(string \<Rightarrow> acl_op option) \<Rightarrow> (string \<times> string set) list \<Rightarrow> string list \<Rightarrow> string list" where
  "evictions decoded ancestors authorized =
     (let seated = seated_independently decoded authorized (disqualified_ops decoded ancestors authorized);
          groups = by_nonce decoded authorized
      in filter (removed_subject decoded ancestors authorized) (subjects_of decoded authorized) @
         race_evictions seated (races ancestors groups) @
         fence_evictions seated (fenced_admits ancestors groups (revoke_ops decoded authorized)))"

definition mat_evicted ::
  "genesis \<Rightarrow> (string \<Rightarrow> acl_op option) \<Rightarrow> (string \<times> string set) list \<Rightarrow> string list \<Rightarrow> mat" where
  "mat_evicted g decoded ancestors authorized =
     fold evict (evictions decoded ancestors authorized) (mat_folded g decoded authorized)"

definition raised_fences ::
  "(string \<Rightarrow> acl_op option) \<Rightarrow> (string \<times> string set) list \<Rightarrow> string list \<Rightarrow> rekey_fence list" where
  "raised_fences decoded ancestors authorized =
     filter (\<lambda>f. \<not> seated_independently decoded authorized (disqualified_ops decoded ancestors authorized) (rf_evicted f))
       (map snd (fenced_admits ancestors (by_nonce decoded authorized) (revoke_ops decoded authorized)))"

lemma cascade_simps [simp]:
  "m_epochs (sponsor_cascade m) = m_epochs m"
  "m_policy (sponsor_cascade m) = m_policy m"
  "m_admission (sponsor_cascade m) = m_admission m"
  "m_revoked_invites (sponsor_cascade m) = m_revoked_invites m"
  "m_spent_nonces (sponsor_cascade m) = m_spent_nonces m"
  by (simp_all add: sponsor_cascade_def Let_def)

lemma materialize_eq:
  "materialize_authorized g decoded anc auth =
     (let m4 = sponsor_cascade (mat_evicted g decoded anc auth); m0 = mat_folded g decoded auth
      in \<lparr>st_members = m_members m4, st_agents = m_agents m4, st_epochs = m_epochs m0,
          st_revoked_invites = m_revoked_invites m0, st_spent_nonces = m_spent_nonces m0,
          st_rekey_fences = discharge anc (m_epochs m0)
            (remdups_adj (sort_key (\<lambda>f. (rf_fence f, rf_evicted f, rf_nonce f)) (raised_fences decoded anc auth))),
          st_policy = m_policy m0,
          st_policy_admins = policy_admins_of g (m_policy m0) (m_members m4),
          st_nonce_admits = nonce_admits_of decoded auth (m_members m4),
          st_member_admission = m_admission m0, st_unresolved = False\<rparr>)"
proof -
  let ?groups = "by_nonce decoded auth"
  let ?fenced = "fenced_admits anc ?groups (revoke_ops decoded auth)"
  let ?seated = "seated_independently decoded auth (disqualified_ops decoded anc auth)"
  have ev: "evict_fenced ?seated ?fenced
      (evict_losers ?seated (races anc ?groups) (remove_wins decoded anc auth (mat_folded g decoded auth))) =
    (mat_evicted g decoded anc auth,
     remdups_adj (sort_key (\<lambda>f. (rf_fence f, rf_evicted f, rf_nonce f)) (raised_fences decoded anc auth)))"
    by (rule prod_eqI)
      (simp add: evict_fenced_fold evict_losers_fold remove_wins_def mat_evicted_def evictions_def Let_def,
       simp add: evict_fenced_def raised_fences_def Let_def)
  have kept: "m_epochs (mat_evicted g decoded anc auth) = m_epochs (mat_folded g decoded auth)"
    "m_policy (mat_evicted g decoded anc auth) = m_policy (mat_folded g decoded auth)"
    "m_admission (mat_evicted g decoded anc auth) = m_admission (mat_folded g decoded auth)"
    "m_revoked_invites (mat_evicted g decoded anc auth) = m_revoked_invites (mat_folded g decoded auth)"
    "m_spent_nonces (mat_evicted g decoded anc auth) = m_spent_nonces (mat_folded g decoded auth)"
    by (simp_all add: mat_evicted_def)
  show ?thesis
    unfolding materialize_authorized_def Let_def mat_folded_def [symmetric] ev
    by (simp add: kept)
qed

lemma materialize_phases:
  "st_members (materialize_authorized g decoded anc auth) = m_members (sponsor_cascade (mat_evicted g decoded anc auth))"
  "st_agents (materialize_authorized g decoded anc auth) = m_agents (sponsor_cascade (mat_evicted g decoded anc auth))"
  "st_epochs (materialize_authorized g decoded anc auth) = m_epochs (mat_folded g decoded auth)"
  "st_policy (materialize_authorized g decoded anc auth) = m_policy (mat_folded g decoded auth)"
  "st_member_admission (materialize_authorized g decoded anc auth) = m_admission (mat_folded g decoded auth)"
  "st_unresolved (materialize_authorized g decoded anc auth) = False"
  "st_policy_admins (materialize_authorized g decoded anc auth) =
     policy_admins_of g (m_policy (mat_folded g decoded auth)) (m_members (sponsor_cascade (mat_evicted g decoded anc auth)))"
  by (simp_all add: materialize_eq Let_def)

lemma discharge_mem:
  "f \<in> set (discharge anc epochs fs) \<longleftrightarrow>
     f \<in> set fs \<and> (\<forall>e \<in> snd ` set epochs. \<not> anc_contains anc (ea_mint_hash e) (rf_fence f))"
proof -
  have "(\<exists>x\<in>set epochs. case x of (_, e) \<Rightarrow> P e) \<longleftrightarrow> (\<exists>e \<in> snd ` set epochs. P e)" for P
    by force
  then show ?thesis unfolding discharge_def list_ex_iff by simp
qed

lemma materialize_fences:
  "f \<in> set (st_rekey_fences (materialize_authorized g decoded anc auth)) \<longleftrightarrow>
     f \<in> set (raised_fences decoded anc auth) \<and>
     (\<forall>e \<in> snd ` set (m_epochs (mat_folded g decoded auth)). \<not> anc_contains anc (ea_mint_hash e) (rf_fence f))"
proof -
  have "st_rekey_fences (materialize_authorized g decoded anc auth) = discharge anc (m_epochs (mat_folded g decoded auth))
      (remdups_adj (sort_key (\<lambda>f. (rf_fence f, rf_evicted f, rf_nonce f)) (raised_fences decoded anc auth)))"
    by (simp add: materialize_eq Let_def)
  then show ?thesis by (simp add: discharge_mem)
qed

lemma cascade_get:
  "map_of (m_members (sponsor_cascade m)) a = Some gs \<Longrightarrow> map_of (m_members m) a = Some gs"
  "map_of (m_agents (sponsor_cascade m)) a = Some s \<Longrightarrow> map_of (m_agents m) a = Some s"
  by (auto simp: sponsor_cascade_def Let_def bm.get_fold_remove split: if_splits)

lemma evicted_get:
  "map_of (m_members (mat_evicted g decoded anc auth)) a =
     (if a \<in> set (evictions decoded anc auth) then None else map_of (m_members (mat_folded g decoded auth)) a)"
  "map_of (m_agents (mat_evicted g decoded anc auth)) a =
     (if a \<in> set (evictions decoded anc auth) then None else map_of (m_agents (mat_folded g decoded auth)) a)"
  by (simp_all add: mat_evicted_def bm.get_fold_remove)

lemma member_folded:
  assumes "is_member (materialize_authorized g decoded anc auth) a"
  shows "map_of (m_members (mat_folded g decoded auth)) a \<noteq> None" "a \<notin> set (evictions decoded anc auth)"
proof -
  obtain gs where "map_of (m_members (sponsor_cascade (mat_evicted g decoded anc auth))) a = Some gs"
    using assms by (auto simp: is_member_def bm_contains_def materialize_phases)
  from cascade_get(1) [OF this] show "map_of (m_members (mat_folded g decoded auth)) a \<noteq> None" "a \<notin> set (evictions decoded anc auth)"
    by (auto simp: evicted_get split: if_splits)
qed

section \<open>Where members come from\<close>

lemma initial_mat_members:
  "map_of (m_members (initial_mat g)) a = (if a \<in> set (g_founding g) then Some {Admin, Write} else None)"
  using bm.get_fold_insert_const [of "{Admin, Write}" "g_founding g" "[]" a]
  by (simp add: initial_mat_def)

lemma mat_step_members:
  "map_of (m_members (mat_step decoded h m)) a \<noteq> None \<Longrightarrow>
     map_of (m_members m) a \<noteq> None \<or> is_add decoded a h"
  by (auto simp: mat_step_def mat_op_def spend_nonce_def is_add_def seats_actor_def bm_get_insert bm_get_remove
      split: option.splits acl_action.splits if_splits)

lemma fold_mat_members:
  "map_of (m_members (fold (mat_step decoded) hs m)) a \<noteq> None \<Longrightarrow>
     map_of (m_members m) a \<noteq> None \<or> (\<exists>h \<in> set hs. is_add decoded a h)"
proof (induction hs arbitrary: m)
  case (Cons h hs)
  from Cons.IH [of "mat_step decoded h m"] Cons.prems mat_step_members [of decoded h m a]
  show ?case by auto
qed simp

lemma folded_member_origin:
  "map_of (m_members (mat_folded g decoded auth)) a \<noteq> None \<Longrightarrow>
     a \<in> set (g_founding g) \<or> (\<exists>h \<in> set auth. is_add decoded a h)"
  using fold_mat_members [of decoded auth "initial_mat g" a]
  by (auto simp: mat_folded_def initial_mat_members split: if_splits)

section \<open>Nonce groups\<close>

definition admits_of :: "(string \<Rightarrow> acl_op option) \<Rightarrow> string list \<Rightarrow> bytes \<Rightarrow> (string \<times> string) list" where
  "admits_of decoded auth n =
     List.map_filter (\<lambda>h. case nonce_admit decoded h of
         Some (n', actor) \<Rightarrow> if n' = n then Some (h, actor) else None | None \<Rightarrow> None) auth"

lemma admits_of_mem:
  "(h, a) \<in> set (admits_of decoded auth n) \<longleftrightarrow> h \<in> set auth \<and> nonce_admit decoded h = Some (n, a)"
  by (auto simp: admits_of_def List.map_filter_def split: option.splits if_splits) (force split: prod.splits)+

lemma nonce_admit_is_add: "nonce_admit decoded h = Some (n, a) \<Longrightarrow> is_add decoded b h \<longleftrightarrow> b = a"
  by (auto simp: nonce_admit_def is_add_def seats_actor_def split: option.splits acl_action.splits)

lemma by_nonce_get:
  "map_of (by_nonce decoded auth) n =
     (if admits_of decoded auth n = [] then None else Some (admits_of decoded auth n))"
proof (induction auth rule: rev_induct)
  case (snoc h auth)
  show ?case
  proof (cases "nonce_admit decoded h")
    case None
    with snoc show ?thesis by (simp add: by_nonce_def admits_of_def List.map_filter_def)
  next
    case (Some p)
    obtain n' a where p: "p = (n', a)" by force
    have ad: "admits_of decoded (auth @ [h]) n =
        (if n' = n then admits_of decoded auth n @ [(h, a)] else admits_of decoded auth n)"
      using Some p by (simp add: admits_of_def List.map_filter_def)
    have "by_nonce decoded (auth @ [h]) = bm_insert n'
        ((case map_of (by_nonce decoded auth) n' of None \<Rightarrow> [] | Some g \<Rightarrow> g) @ [(h, a)]) (by_nonce decoded auth)"
      using Some p by (simp add: by_nonce_def)
    with snoc ad show ?thesis by (auto simp: bm_get_insert)
  qed
qed (simp add: by_nonce_def admits_of_def List.map_filter_def)

lemma by_nonce_wf: "bm_wf (by_nonce decoded auth)"
  by (induction auth rule: rev_induct)
    (auto simp: by_nonce_def bm_wf_insert split: option.splits)

lemma by_nonce_mem:
  "(n, admits) \<in> set (by_nonce decoded auth) \<longleftrightarrow> admits \<noteq> [] \<and> admits = admits_of decoded auth n"
  using by_nonce_get [of decoded auth n] bm_get_iff [OF by_nonce_wf, of decoded auth n admits]
  by (auto split: if_splits)

subsection \<open>Race losers\<close>

lemma race_losers_mem:
  "x \<in> set (race_losers anc admits) \<longleftrightarrow> x \<in> set admits \<and> race_loser anc admits x"
proof -
  have "contested admits" if x: "x \<in> set admits" and l: "race_loser anc admits x"
  proof -
    obtain y where "y \<in> set admits" "snd y \<noteq> snd x" using l by (auto simp: race_loser_def list_ex_iff)
    then have sub: "{snd x, snd y} \<subseteq> snd ` set admits" and two: "card {snd x, snd y} = 2" using x by auto
    show ?thesis unfolding contested_def using card_mono [OF _ sub] two by simp
  qed
  then show ?thesis by (auto simp: race_losers_def)
qed

lemma all_losing_iff:
  "h \<in> all_losing anc (by_nonce decoded auth) \<longleftrightarrow>
     (\<exists>n a. (h, a) \<in> set (admits_of decoded auth n) \<and> race_loser anc (admits_of decoded auth n) (h, a))"
proof -
  have "h \<in> all_losing anc (by_nonce decoded auth) \<longleftrightarrow>
      (\<exists>n admits a. (n, admits) \<in> set (by_nonce decoded auth) \<and> (h, a) \<in> set (race_losers anc admits))"
    by (force simp: all_losing_def)
  also have "\<dots> \<longleftrightarrow> (\<exists>n a. (h, a) \<in> set (race_losers anc (admits_of decoded auth n)))"
    by (auto simp: by_nonce_mem race_losers_mem) (metis empty_iff list.set(1))
  finally show ?thesis by (simp add: race_losers_mem)
qed

subsection \<open>Fences\<close>

lemma fence_group_keys:
  "bm_keys (fence_group anc n rh admits f) =
     bm_keys f \<union> {dh. \<exists>a. (dh, a) \<in> set admits \<and> \<not> anc_contains anc rh dh}"
proof (induction admits arbitrary: f)
  case (Cons x admits)
  obtain d a where x: "x = (d, a)" by force
  let ?f = "if anc_contains anc rh d then f else bm_insert d \<lparr>rf_fence = rh, rf_evicted = a, rf_nonce = n\<rparr> f"
  have "fence_group anc n rh (x # admits) f = fence_group anc n rh admits ?f" by (simp add: fence_group_def x)
  with Cons.IH [of ?f] show ?case by (auto simp: x bm_keys_simps)
qed (simp add: fence_group_def)

lemma fence_group_get:
  "map_of (fence_group anc n rh admits f) dh = Some v \<Longrightarrow>
     map_of f dh = Some v \<or>
     (\<exists>a. (dh, a) \<in> set admits \<and> v = \<lparr>rf_fence = rh, rf_evicted = a, rf_nonce = n\<rparr> \<and> \<not> anc_contains anc rh dh)"
proof (induction admits arbitrary: f)
  case (Cons x admits)
  obtain d a where x: "x = (d, a)" by force
  let ?f = "if anc_contains anc rh d then f else bm_insert d \<lparr>rf_fence = rh, rf_evicted = a, rf_nonce = n\<rparr> f"
  have "fence_group anc n rh (x # admits) f = fence_group anc n rh admits ?f" by (simp add: fence_group_def x)
  with Cons.IH [of ?f] Cons.prems show ?case
    by (auto simp: x bm_get_insert split: if_splits)
qed (simp add: fence_group_def)

lemma fenced_admits_snoc:
  "fenced_admits anc groups (revokes @ [(n, rh)]) =
     (case map_of groups n of
        None \<Rightarrow> fenced_admits anc groups revokes
      | Some admits \<Rightarrow> fence_group anc n rh admits (fenced_admits anc groups revokes))"
  unfolding fenced_admits_def by simp

lemma fenced_admits_keys:
  "bm_keys (fenced_admits anc (by_nonce decoded auth) revokes) =
     {dh. \<exists>(n, rh) \<in> set revokes. dh \<in> fst ` set (admits_of decoded auth n) \<and> \<not> anc_contains anc rh dh}"
proof (induction revokes rule: rev_induct)
  case (snoc r revokes)
  obtain n rh where r: "r = (n, rh)" by force
  have "bm_keys (fenced_admits anc (by_nonce decoded auth) (revokes @ [r])) =
      bm_keys (fenced_admits anc (by_nonce decoded auth) revokes) \<union>
      {dh. dh \<in> fst ` set (admits_of decoded auth n) \<and> \<not> anc_contains anc rh dh}"
  proof -
    have "(\<exists>a. (dh, a) \<in> set xs) \<longleftrightarrow> dh \<in> fst ` set xs" for dh :: string and xs :: "(string \<times> string) list"
      by force
    then show ?thesis by (simp add: r fenced_admits_snoc by_nonce_get fence_group_keys)
  qed
  then show ?case unfolding snoc r by auto
qed (simp add: fenced_admits_def bm_keys_def)

lemma fenced_admits_get:
  "map_of (fenced_admits anc (by_nonce decoded auth) revokes) dh = Some v \<Longrightarrow>
     (rf_nonce v, rf_fence v) \<in> set revokes \<and> (dh, rf_evicted v) \<in> set (admits_of decoded auth (rf_nonce v)) \<and>
     \<not> anc_contains anc (rf_fence v) dh"
proof (induction revokes rule: rev_induct)
  case (snoc r revokes)
  obtain n rh where r: "r = (n, rh)" by force
  with snoc fenced_admits_snoc [of anc "by_nonce decoded auth" revokes n rh] show ?case by (auto simp: by_nonce_get r split: if_splits dest!: fence_group_get)
qed (simp add: fenced_admits_def)

lemma fenced_admits_wf: "bm_wf (fenced_admits anc groups revokes)"
proof -
  have "bm_wf f \<Longrightarrow> bm_wf (fence_group anc n rh admits f)" for n rh admits f
    by (induction admits arbitrary: f) (auto simp: fence_group_def bm_wf_insert split: prod.splits)
  then have "bm_wf f \<Longrightarrow> bm_wf (fold (\<lambda>(nonce, rh) f. case map_of groups nonce of
      None \<Rightarrow> f | Some admits \<Rightarrow> fence_group anc nonce rh admits f) revokes f)" for f
    by (induction revokes arbitrary: f) (auto split: option.splits)
  then show ?thesis by (simp add: fenced_admits_def)
qed

lemma map_filter_mem: "y \<in> set (List.map_filter f xs) \<longleftrightarrow> (\<exists>x \<in> set xs. f x = Some y)"
  by (induction xs) (auto simp: List.map_filter_simps split: option.splits)

lemma revoke_ops_mem:
  "(n, rh) \<in> set (revoke_ops decoded auth) \<longleftrightarrow>
     rh \<in> set auth \<and> (\<exists>op. decoded rh = Some op \<and> op_action op = RevokeInvite n)"
proof -
  have "(case decoded h of
         Some op \<Rightarrow> (case op_action op of RevokeInvite nonce \<Rightarrow> Some (nonce, h) | _ \<Rightarrow> None)
       | None \<Rightarrow> None) = Some (n, rh) \<longleftrightarrow> h = rh \<and> (\<exists>op. decoded rh = Some op \<and> op_action op = RevokeInvite n)" for h
    by (auto split: option.splits acl_action.splits)
  then show ?thesis by (simp add: revoke_ops_def map_filter_mem)
qed

subsection \<open>Void admissions\<close>

text \<open>When an admission seats nobody: a lower-hash admission of another actor under the same nonce is
  concurrent with it, or a revocation of its nonce did not see it.\<close>

definition void_admission ::
  "(string \<Rightarrow> acl_op option) \<Rightarrow> (string \<times> string set) list \<Rightarrow> string list \<Rightarrow> string \<Rightarrow> bool" where
  "void_admission decoded anc auth h \<longleftrightarrow>
     h \<in> set auth \<and>
     (\<exists>n a. nonce_admit decoded h = Some (n, a) \<and>
        ((\<exists>h' a'. h' \<in> set auth \<and> nonce_admit decoded h' = Some (n, a') \<and> a' \<noteq> a \<and> h' < h \<and>
             concurrent anc h' h) \<or>
         (\<exists>r op. r \<in> set auth \<and> decoded r = Some op \<and> op_action op = RevokeInvite n \<and>
             \<not> anc_contains anc r h)))"

lemma losing_iff:
  "h \<in> all_losing anc (by_nonce decoded auth) \<longleftrightarrow>
     h \<in> set auth \<and> (\<exists>n a. nonce_admit decoded h = Some (n, a) \<and>
       (\<exists>h' a'. h' \<in> set auth \<and> nonce_admit decoded h' = Some (n, a') \<and> a' \<noteq> a \<and> h' < h \<and> concurrent anc h' h))"
proof -
  have "race_loser anc (admits_of decoded auth n) (h, a) \<longleftrightarrow>
      (\<exists>h' a'. h' \<in> set auth \<and> nonce_admit decoded h' = Some (n, a') \<and> a' \<noteq> a \<and> h' < h \<and> concurrent anc h' h)" for n a
    by (simp add: race_loser_def list_ex_iff Bex_def admits_of_mem)
  then show ?thesis unfolding all_losing_iff admits_of_mem by blast
qed

lemma fenced_iff:
  "h \<in> bm_keys (fenced_admits anc (by_nonce decoded auth) (revoke_ops decoded auth)) \<longleftrightarrow>
     h \<in> set auth \<and> (\<exists>n a. nonce_admit decoded h = Some (n, a) \<and>
       (\<exists>r op. r \<in> set auth \<and> decoded r = Some op \<and> op_action op = RevokeInvite n \<and> \<not> anc_contains anc r h))"
proof -
  have "h \<in> fst ` set (admits_of decoded auth n) \<longleftrightarrow> (\<exists>a. h \<in> set auth \<and> nonce_admit decoded h = Some (n, a))" for n
    by (simp add: image_iff Bex_def admits_of_mem)
  then show ?thesis unfolding fenced_admits_keys by (simp add: Bex_def revoke_ops_mem) blast
qed

lemma disqualified_iff: "h \<in> disqualified_ops decoded anc auth \<longleftrightarrow> void_admission decoded anc auth h"
  unfolding disqualified_ops_def void_admission_def Let_def Un_iff losing_iff fenced_iff by blast

lemma race_evictions_mem:
  assumes r: "(n, admits) \<in> set (by_nonce decoded auth)" and l: "race_losers anc admits \<noteq> []"
    and x: "(h, a) \<in> set admits" "a \<noteq> snd (hd (sort_key fst admits))" "\<not> seated a"
  shows "a \<in> set (race_evictions seated (races anc (by_nonce decoded auth)))"
proof -
  let ?w = "snd (hd (sort_key fst admits))"
  have r: "(?w, sort_key fst admits) \<in> set (races anc (by_nonce decoded auth))"
    unfolding races_def map_filter_mem using r l by (intro bexI [of _ "(n, admits)"]) simp_all
  have "a \<in> set (map snd (filter (\<lambda>(_, actor). actor \<noteq> ?w \<and> \<not> seated actor) (sort_key fst admits)))"
    using x by (auto simp: image_iff intro!: bexI [of _ "(h, a)"])
  with r show ?thesis unfolding race_evictions_def set_concat set_map by (intro UN_I [OF imageI [OF r]]) simp
qed

lemma sort_key_hd_least: "x \<in> set xs \<Longrightarrow> fst (hd (sort_key fst xs)) \<le> (fst x :: 'a::linorder)"
proof -
  assume "x \<in> set xs"
  then obtain y ys where s: "sort_key fst xs = y # ys" "x \<in> set (y # ys)"
    by (metis list.exhaust list.set_intros(1) set_sort empty_iff empty_set)
  have "sorted (map fst (y # ys))" using s(1) by (metis sorted_sort_key)
  with s show ?thesis by auto
qed

lemma void_seats_evicted:
  assumes add: "h0 \<in> set auth" "is_add decoded a h0"
    and void: "\<And>h. h \<in> set auth \<Longrightarrow> is_add decoded a h \<Longrightarrow> h \<in> disqualified_ops decoded anc auth"
  shows "a \<in> set (evictions decoded anc auth)"
proof -
  let ?groups = "by_nonce decoded auth" and ?seated = "seated_independently decoded auth (disqualified_ops decoded anc auth)"
  let ?fenced = "fenced_admits anc ?groups (revoke_ops decoded auth)"
  have ns: "\<not> ?seated a" using void by (auto simp: seated_independently_def list_ex_iff)
  show ?thesis
  proof (cases "\<exists>h \<in> bm_keys ?fenced. is_add decoded a h")
    case True
    then obtain h v where hv: "map_of ?fenced h = Some v" "is_add decoded a h" by (auto simp: bm_keys_get)
    from fenced_admits_get [OF hv(1)] have "rf_evicted v = a"
      using nonce_admit_is_add [of decoded h _ _ a] hv(2) by (auto simp: admits_of_mem)
    with hv(1) ns have "a \<in> set (fence_evictions ?seated ?fenced)"
      by (force simp: fence_evictions_def dest: map_of_SomeD)
    then show ?thesis by (simp add: evictions_def Let_def)
  next
    case False
    have losing: "\<exists>n. (h, a) \<in> set (admits_of decoded auth n) \<and> race_loser anc (admits_of decoded auth n) (h, a)"
      if "h \<in> set auth" "is_add decoded a h" for h
    proof -
      have "h \<in> all_losing anc ?groups"
        using void [OF that] that(2) False by (auto simp: disqualified_ops_def Let_def)
      then show ?thesis unfolding all_losing_iff
        using nonce_admit_is_add that(2) by (metis admits_of_mem)
    qed
    from losing [OF add] obtain n where n: "(h0, a) \<in> set (admits_of decoded auth n)"
      "race_loser anc (admits_of decoded auth n) (h0, a)" by blast
    let ?g = "admits_of decoded auth n"
    have mem: "(n, ?g) \<in> set ?groups" using n(1) by (auto simp: by_nonce_mem)
    have l: "race_losers anc ?g \<noteq> []" using n race_losers_mem [of "(h0, a)" anc ?g] by auto
    have "a \<noteq> snd (hd (sort_key fst ?g))"
    proof
      assume w: "a = snd (hd (sort_key fst ?g))"
      let ?h = "fst (hd (sort_key fst ?g))"
      have "hd (sort_key fst ?g) \<in> set ?g"
        using n(1) by (metis hd_in_set list.set(1) empty_iff set_sort)
      then have hg: "(?h, a) \<in> set ?g" using w by simp
      then have h: "?h \<in> set auth" "is_add decoded a ?h" "nonce_admit decoded ?h = Some (n, a)"
        by (auto simp: admits_of_mem nonce_admit_is_add)
      from losing [OF h(1,2)] obtain n' where "(?h, a) \<in> set (admits_of decoded auth n')"
        "race_loser anc (admits_of decoded auth n') (?h, a)" by blast
      with h(3) have "race_loser anc ?g (?h, a)" by (simp add: admits_of_mem)
      then obtain y where "y \<in> set ?g" "fst y < ?h" by (auto simp: race_loser_def list_ex_iff)
      with sort_key_hd_least [OF this(1)] show False by simp
    qed
    from race_evictions_mem [OF mem l n(1) this, of ?seated] ns show ?thesis by (simp add: evictions_def Let_def)
  qed
qed

lemma member_seated:
  assumes "is_member (materialize_authorized g decoded anc auth) a"
  shows "a \<in> set (g_founding g) \<or> (\<exists>h \<in> set auth. is_add decoded a h \<and> \<not> void_admission decoded anc auth h)"
proof -
  from folded_member_origin [OF member_folded(1) [OF assms]]
  consider "a \<in> set (g_founding g)" | h where "h \<in> set auth" "is_add decoded a h" by blast
  then show ?thesis
  proof cases
    case 2
    with void_seats_evicted [OF 2] member_folded(2) [OF assms] show ?thesis
      unfolding disqualified_iff by blast
  qed simp
qed

section \<open>Remove-wins\<close>

lemma removed_evicted:
  assumes "r \<in> set auth" "is_remove decoded a r"
    and "\<And>h. h \<in> set auth \<Longrightarrow> is_add decoded a h \<Longrightarrow> \<not> anc_contains anc h r"
  shows "a \<in> set (evictions decoded anc auth)"
proof -
  obtain op where op: "decoded r = Some op" "op_action op = RemoveMember a"
    using assms(2) by (auto simp: is_remove_def split: option.splits)
  have "a \<in> set (subjects_of decoded auth)"
    unfolding subjects_of_def by (simp add: map_filter_mem) (use assms(1) op in \<open>auto intro!: bexI [of _ r]\<close>)
  moreover have "removed_subject decoded anc auth a"
    using assms by (auto simp: removed_subject_def Let_def list_ex_iff)
  ultimately show ?thesis by (simp add: evictions_def Let_def)
qed

section \<open>Agents\<close>

definition agents_inv :: "mat \<Rightarrow> bool" where
  "agents_inv m \<longleftrightarrow>
     (\<forall>a s. map_of (m_agents m) a = Some s \<longrightarrow> (\<exists>gs. map_of (m_members m) a = Some gs \<and> Admin \<notin> gs))"

lemma mat_step_agents:
  assumes "agents_inv m"
    and "\<And>op actor grants. decoded h = Some op \<Longrightarrow> op_action op = AddAgent actor grants \<Longrightarrow> Admin \<notin> set grants"
  shows "agents_inv (mat_step decoded h m)"
proof (cases "decoded h")
  case (Some op)
  have keep: "m_agents (spend_nonce op m) = m_agents m" "m_members (spend_nonce op m) = m_members m"
    by (auto simp: spend_nonce_def split: acl_action.splits option.splits)
  show ?thesis
    using assms Some
    by (cases "op_action op")
      (auto simp: agents_inv_def mat_step_def mat_op_def keep bm_get_insert bm_get_remove)
qed (use assms in \<open>simp add: mat_step_def\<close>)

definition sponsorable :: "(string \<Rightarrow> acl_op option) \<Rightarrow> string list \<Rightarrow> bool" where
  "sponsorable decoded hs \<longleftrightarrow>
     (\<forall>h \<in> set hs. \<forall>op actor grants.
        decoded h = Some op \<longrightarrow> op_action op = AddAgent actor grants \<longrightarrow> Admin \<notin> set grants)"

lemma fold_agents_inv:
  "sponsorable decoded hs \<Longrightarrow> agents_inv m \<Longrightarrow> agents_inv (fold (mat_step decoded) hs m)"
proof (induction hs arbitrary: m)
  case (Cons h hs)
  have "agents_inv (mat_step decoded h m)"
    using Cons.prems by (intro mat_step_agents) (auto simp: sponsorable_def)
  with Cons show ?case by (simp add: sponsorable_def)
qed simp

lemma agents_inv_evict: "agents_inv m \<Longrightarrow> agents_inv (fold evict xs m)"
  by (auto simp: agents_inv_def bm.get_fold_remove split: if_splits)

lemma agents_inv_final:
  assumes "sponsorable decoded auth"
  shows "agents_inv (sponsor_cascade (mat_evicted g decoded anc auth))"
proof -
  have "agents_inv (initial_mat g)" by (simp add: agents_inv_def initial_mat_def)
  then have "agents_inv (mat_folded g decoded auth)"
    unfolding mat_folded_def using assms by (intro fold_agents_inv) auto
  then show ?thesis
    unfolding mat_evicted_def sponsor_cascade_def Let_def by (intro agents_inv_evict)
qed

lemma cascade_sponsor:
  assumes "map_of (m_agents (sponsor_cascade m)) a = Some s" "\<And>b. map_of (m_agents m) b = Some s \<Longrightarrow> map_of (m_agents m) s = None"
  shows "map_of (m_members (sponsor_cascade m)) s \<noteq> None"
proof -
  let ?orphaned = "map fst (filter (\<lambda>(_, sponsor). \<not> bm_contains (m_members m) sponsor) (m_agents m))"
  have cas: "map_of (m_agents (sponsor_cascade m)) x = (if x \<in> set ?orphaned then None else map_of (m_agents m) x)"
    "map_of (m_members (sponsor_cascade m)) x = (if x \<in> set ?orphaned then None else map_of (m_members m) x)" for x
    by (simp_all add: sponsor_cascade_def Let_def bm.get_fold_remove)
  from assms(1) have a: "map_of (m_agents m) a = Some s" "a \<notin> set ?orphaned" by (auto simp: cas split: if_splits)
  have "(a, s) \<in> set (m_agents m)" using a(1) by (rule map_of_SomeD)
  with a(2) have sm: "bm_contains (m_members m) s" by force
  have "s \<notin> fst ` set (m_agents m)" using assms(2) [OF a(1)] by (simp add: map_of_eq_None_iff)
  then have "s \<notin> set ?orphaned" by auto
  with sm show ?thesis by (simp add: cas bm_contains_def)
qed

section \<open>Policy\<close>

lemma mat_step_policy:
  "m_policy (mat_step decoded h m) = (case decoded h of None \<Rightarrow> m_policy m | Some op \<Rightarrow> apply_policy (op_action op) (m_policy m))"
  "m_admission (mat_step decoded h m) = (case decoded h of None \<Rightarrow> m_admission m | Some op \<Rightarrow> apply_admission (op_action op) (m_admission m))"
  by (auto simp: mat_step_def mat_op_def spend_nonce_def apply_policy_def apply_admission_def
      split: option.splits acl_action.splits)

lemma policy_admins_iff:
  "a \<in> policy_admins_of g policy members \<longleftrightarrow>
     bm_contains members a \<and> (a \<in> set (g_founding g) \<or> holds_meta policy a)"
  by (auto simp: policy_admins_of_def holds_meta_def list_ex_iff)

section \<open>Rekey fences\<close>

lemma raised_fence_get:
  "f \<in> set (raised_fences decoded anc auth) \<longleftrightarrow>
     (\<exists>h. map_of (fenced_admits anc (by_nonce decoded auth) (revoke_ops decoded auth)) h = Some f) \<and>
     \<not> seated_independently decoded auth (disqualified_ops decoded anc auth) (rf_evicted f)"
  by (auto simp: raised_fences_def bm_get_iff [OF fenced_admits_wf] image_iff) force

lemma raised_fence_sound:
  assumes "f \<in> set (raised_fences decoded anc auth)"
  shows "(\<exists>op. rf_fence f \<in> set auth \<and> decoded (rf_fence f) = Some op \<and> op_action op = RevokeInvite (rf_nonce f)) \<and>
     (\<exists>h \<in> set auth. nonce_admit decoded h = Some (rf_nonce f, rf_evicted f) \<and> \<not> anc_contains anc (rf_fence f) h) \<and>
     \<not> is_member (materialize_authorized g decoded anc auth) (rf_evicted f)"
proof -
  let ?fenced = "fenced_admits anc (by_nonce decoded auth) (revoke_ops decoded auth)"
  obtain h where h: "map_of ?fenced h = Some f"
    and ns: "\<not> seated_independently decoded auth (disqualified_ops decoded anc auth) (rf_evicted f)"
    using assms raised_fence_get by blast
  note f = fenced_admits_get [OF h]
  have "rf_evicted f \<in> set (fence_evictions (seated_independently decoded auth (disqualified_ops decoded anc auth)) ?fenced)"
    using h ns by (force simp: fence_evictions_def dest: map_of_SomeD)
  then have "rf_evicted f \<in> set (evictions decoded anc auth)" by (simp add: evictions_def Let_def)
  with member_folded(2) have "\<not> is_member (materialize_authorized g decoded anc auth) (rf_evicted f)" by blast
  with f show ?thesis by (auto simp: revoke_ops_mem admits_of_mem)
qed

lemma voided_fence:
  assumes h: "h \<in> set auth" "nonce_admit decoded h = Some (n, a)"
    and r: "r \<in> set auth" "decoded r = Some rop" "op_action rop = RevokeInvite n" "\<not> anc_contains anc r h"
    and void: "\<forall>h' \<in> set auth. is_add decoded a h' \<longrightarrow> void_admission decoded anc auth h'"
  shows "\<not> is_member (materialize_authorized g decoded anc auth) a \<and>
     (\<exists>f \<in> set (raised_fences decoded anc auth). rf_evicted f = a \<and>
        (\<exists>op. rf_fence f \<in> set auth \<and> decoded (rf_fence f) = Some op \<and> op_action op = RevokeInvite n))"
proof -
  let ?fenced = "fenced_admits anc (by_nonce decoded auth) (revoke_ops decoded auth)"
  have "h \<in> bm_keys ?fenced" using h r unfolding fenced_iff by blast
  then obtain f where f: "map_of ?fenced h = Some f" by (auto simp: bm_keys_get)
  note g = fenced_admits_get [OF f]
  have e: "rf_evicted f = a" "rf_nonce f = n" using g h(2) by (auto simp: admits_of_mem)
  have "\<not> seated_independently decoded auth (disqualified_ops decoded anc auth) a"
    using void by (auto simp: seated_independently_def list_ex_iff disqualified_iff)
  then have raised: "f \<in> set (raised_fences decoded anc auth)" using f e raised_fence_get by blast
  from raised_fence_sound [OF raised, of g] have "\<not> is_member (materialize_authorized g decoded anc auth) a"
    using e by simp
  then show ?thesis using raised e raised_fence_sound [OF raised] by blast
qed

section \<open>Evaluating demands\<close>

text \<open>The meaning of a demand for an actor: its boolean reading over effective grants.\<close>

fun satisfied :: "acl_state \<Rightarrow> string \<Rightarrow> demand \<Rightarrow> bool" where
  "satisfied s a (Require capability resource) \<longleftrightarrow> has_capability s a capability resource"
| "satisfied s a (All ds) \<longleftrightarrow> (\<forall>d \<in> set ds. satisfied s a d)"
| "satisfied s a (Any ds) \<longleftrightarrow> (\<exists>d \<in> set ds. satisfied s a d)"

fun leaves_of :: "demand \<Rightarrow> (policy_capability \<times> resource) set" where
  "leaves_of (Require c r) = {(c, r)}"
| "leaves_of (All ds) = (\<Union>d \<in> set ds. leaves_of d)"
| "leaves_of (Any ds) = (\<Union>d \<in> set ds. leaves_of d)"

text \<open>Every branch of an \<open>Any\<close> has a canonical encoding, which the tie-break needs.\<close>

fun any_encodable :: "demand \<Rightarrow> bool" where
  "any_encodable (Require c r) = True"
| "any_encodable (All ds) = (\<forall>d \<in> set ds. any_encodable d)"
| "any_encodable (Any ds) = (\<forall>d \<in> set ds. any_encodable d \<and> (\<exists>b. encode_canonical d = Inr b))"

definition witness_for :: "acl_state \<Rightarrow> string \<Rightarrow> demand \<Rightarrow> bytes list \<Rightarrow> bool" where
  "witness_for s a d w \<longleftrightarrow>
     (\<forall>gid \<in> set w. \<exists>(c, r) \<in> leaves_of d. gid \<in> set (effective_capability_grants s a c r))"

lemma evaluate_all_Some:
  assumes "evaluate_all s a ds = Some w"
  shows "\<forall>d \<in> set ds. evaluate_node s a d \<noteq> None"
    and "gid \<in> set w \<Longrightarrow> \<exists>d \<in> set ds. \<exists>v. evaluate_node s a d = Some v \<and> gid \<in> set v"
proof -
  show "\<forall>d \<in> set ds. evaluate_node s a d \<noteq> None"
    using assms by (induction ds arbitrary: w) (auto split: option.splits)
  show "gid \<in> set w \<Longrightarrow> \<exists>d \<in> set ds. \<exists>v. evaluate_node s a d = Some v \<and> gid \<in> set v"
    using assms
  proof (induction ds arbitrary: w)
    case (Cons d ds)
    then obtain v ws where "evaluate_node s a d = Some v" "evaluate_all s a ds = Some ws" "w = v @ ws"
      by (auto split: option.splits)
    with Cons show ?case by auto
  qed simp
qed

text \<open>The loop of the \<open>Any\<close> branch returns the witness of a satisfied child, or the running best,
  with the least canonical bytes of all of them.\<close>

lemma evaluate_any_least:
  assumes "evaluate_any s a ds best = Some w"
  shows "\<exists>b. (best = Some (b, w) \<or> (\<exists>d \<in> set ds. evaluate_node s a d = Some w \<and> encode_canonical d = Inr b)) \<and>
     (\<forall>b' w'. best = Some (b', w') \<longrightarrow> b \<le> b') \<and>
     (\<forall>d \<in> set ds. evaluate_node s a d \<noteq> None \<longrightarrow> (\<exists>b'. encode_canonical d = Inr b' \<and> b \<le> b'))"
  using assms
proof (induction ds arbitrary: best)
  case Nil
  then show ?case by auto
next
  case (Cons d ds)
  show ?case
  proof (cases "evaluate_node s a d")
    case None
    then have "evaluate_any s a ds best = Some w" using Cons.prems by simp
    from Cons.IH [OF this] obtain b where "best = Some (b, w) \<or> (\<exists>d \<in> set ds. evaluate_node s a d = Some w \<and> encode_canonical d = Inr b)"
      "\<forall>b' w'. best = Some (b', w') \<longrightarrow> b \<le> b'"
      "\<forall>d \<in> set ds. evaluate_node s a d \<noteq> None \<longrightarrow> (\<exists>b'. encode_canonical d = Inr b' \<and> b \<le> b')" by blast
    with None show ?thesis by (intro exI [of _ b]) auto
  next
    case (Some v)
    then obtain b where b: "encode_canonical d = Inr b" using Cons.prems by (cases "encode_canonical d") auto
    define best' where "best' = (case best of Some (b', w') \<Rightarrow> if b' \<le> b then best else Some (b, v) | None \<Rightarrow> Some (b, v))"
    have "evaluate_any s a ds best' = Some w"
      using Cons.prems Some b by (auto simp: best'_def split: option.splits if_splits)
    from Cons.IH [OF this] obtain c where c: "best' = Some (c, w) \<or> (\<exists>d \<in> set ds. evaluate_node s a d = Some w \<and> encode_canonical d = Inr c)"
      "\<forall>b' w'. best' = Some (b', w') \<longrightarrow> c \<le> b'"
      "\<forall>d \<in> set ds. evaluate_node s a d \<noteq> None \<longrightarrow> (\<exists>b'. encode_canonical d = Inr b' \<and> c \<le> b')" by blast
    have le: "c \<le> b \<and> (\<forall>b' w'. best = Some (b', w') \<longrightarrow> c \<le> b')"
    proof (cases "\<exists>b' w'. best = Some (b', w') \<and> b' \<le> b")
      case True
      then obtain b' w' where best: "best = Some (b', w')" "b' \<le> b" by blast
      then have "c \<le> b'" using c(2) by (simp add: best'_def)
      with best show ?thesis by auto
    next
      case False
      then have new: "best' = Some (b, v)" "\<forall>b' w'. best = Some (b', w') \<longrightarrow> b \<le> b'"
        by (auto simp: best'_def split: option.splits)
      have "c \<le> b" using c(2) new(1) by simp
      with new(2) show ?thesis by (auto intro: order_trans)
    qed
    have "best' = best \<or> best' = Some (b, v)" by (auto simp: best'_def split: option.splits)
    with c(1) Some b have "best = Some (c, w) \<or> (\<exists>e \<in> set (d # ds). evaluate_node s a e = Some w \<and> encode_canonical e = Inr c)"
      by auto
    moreover have "\<forall>e \<in> set (d # ds). evaluate_node s a e \<noteq> None \<longrightarrow> (\<exists>b'. encode_canonical e = Inr b' \<and> c \<le> b')"
      using c(3) b le by simp
    ultimately show ?thesis using le by blast
  qed
qed

lemma evaluate_any_total:
  "\<forall>d \<in> set ds. \<exists>b. encode_canonical d = Inr b \<Longrightarrow>
     best \<noteq> None \<or> (\<exists>d \<in> set ds. evaluate_node s a d \<noteq> None) \<Longrightarrow> evaluate_any s a ds best \<noteq> None"
proof (induction ds arbitrary: best)
  case (Cons d ds)
  have IH: "evaluate_any s a ds best \<noteq> None"
    if "best \<noteq> None \<or> (\<exists>d \<in> set ds. evaluate_node s a d \<noteq> None)" for best
    using Cons.IH [of best] Cons.prems(1) that by auto
  obtain b where b: "encode_canonical d = Inr b" using Cons.prems(1) by auto
  show ?case
  proof (cases "evaluate_node s a d")
    case None
    with Cons.prems(2) IH [of best] show ?thesis by auto
  next
    case (Some v)
    with b IH [of best] IH [of "Some (b, v)"] show ?thesis by (auto split: option.splits)
  qed
qed auto

lemma evaluate_sound: "evaluate_node s a d = Some w \<Longrightarrow> satisfied s a d \<and> witness_for s a d w"
proof (induction d arbitrary: w)
  case (Require c r)
  then show ?case by (auto simp: witness_for_def has_capability_def split: list.splits)
next
  case (All ds)
  then have ev: "evaluate_all s a ds = Some w" by simp
  have "satisfied s a d" if "d \<in> set ds" for d
    using evaluate_all_Some(1) [OF ev] that All.IH [OF that] by blast
  moreover have "\<exists>(c, r) \<in> leaves_of (All ds). gid \<in> set (effective_capability_grants s a c r)" if gid: "gid \<in> set w" for gid
  proof -
    obtain d v where "d \<in> set ds" "evaluate_node s a d = Some v" "gid \<in> set v"
      using evaluate_all_Some(2) [OF ev gid] by blast
    with All.IH [of d v] show ?thesis unfolding witness_for_def leaves_of.simps by blast
  qed
  ultimately show ?case by (simp add: witness_for_def)
next
  case (Any ds)
  then obtain d where d: "d \<in> set ds" "evaluate_node s a d = Some w"
    using evaluate_any_least [of s a ds None w] by auto
  from Any.IH [OF d] d(1) show ?case unfolding witness_for_def leaves_of.simps satisfied.simps by blast
qed

lemma evaluate_complete: "any_encodable d \<Longrightarrow> satisfied s a d \<Longrightarrow> evaluate_node s a d \<noteq> None"
proof (induction d)
  case (Require c r)
  then show ?case by (auto simp: has_capability_def split: list.splits)
next
  case (All ds)
  then have "\<forall>d \<in> set ds. evaluate_node s a d \<noteq> None" by auto
  then have "evaluate_all s a ds \<noteq> None" by (induction ds) (auto split: option.splits)
  then show ?case by simp
next
  case (Any ds)
  then obtain d where "d \<in> set ds" "evaluate_node s a d \<noteq> None" by auto
  with Any.prems(1) have "evaluate_any s a ds None \<noteq> None" by (intro evaluate_any_total) auto
  then show ?case by simp
qed

subsection \<open>Encodable demands need a member\<close>

definition encodes :: "demand \<Rightarrow> bool" where
  "encodes d \<longleftrightarrow> (\<exists>depth leaves r. encode_node depth d leaves = Inr r)"

lemma encodes_canonical: "encode_canonical d = Inr b \<Longrightarrow> encodes d"
  by (auto simp: encode_canonical_def encodes_def result_simps)

lemma encode_children_encodes:
  "encode_children depth ds leaves = Inr r \<Longrightarrow> d \<in> set ds \<Longrightarrow> encodes d"
  by (induction ds arbitrary: leaves r) (auto simp: result_simps encodes_def)

lemma flatten_True_satisfied:
  "\<forall>d \<in> set ds. satisfied s a d \<Longrightarrow> d \<in> set (flatten True ds) \<Longrightarrow> satisfied s a d"
  by (induction True ds rule: flatten.induct) auto

lemma flatten_size: "d \<in> set (flatten b ds) \<Longrightarrow> size d \<le> size_list size ds"
  by (induction b ds rule: flatten.induct) (auto split: if_splits)

lemma flatten_False_satisfied:
  "(\<exists>x \<in> set (flatten False ds). satisfied s a x) \<longleftrightarrow> (\<exists>d \<in> set ds. satisfied s a d)"
  by (induction False ds rule: flatten.induct) (simp_all add: bex_Un)

lemma has_capability_member: "has_capability s a c r \<Longrightarrow> is_member s a"
  by (auto simp: has_capability_def effective_capability_grants_def is_member_def split: if_splits)

lemma satisfied_member: "encodes d \<Longrightarrow> satisfied s a d \<Longrightarrow> is_member s a"
proof (induction d rule: measure_induct_rule [of size])
  case (less d)
  have step: "is_member s a" if "x \<in> set (flatten b es)" "size_list size es < size d" "satisfied s a x"
    "encode_children depth (flatten b es) leaves = Inr r" for x b es depth leaves r
    using less.IH [of x] flatten_size [OF that(1)] that encode_children_encodes [OF that(4,1)] by simp
  show ?case
  proof (cases d)
    case (Require c r)
    with less.prems has_capability_member [of s a c r] show ?thesis by simp
  next
    case (All es)
    then obtain depth leaves r where enc: "flatten True es \<noteq> []" "encode_children depth (flatten True es) leaves = Inr r"
      using less.prems(1) by (auto simp: encodes_def result_simps split: if_splits)
    then obtain x where x: "x \<in> set (flatten True es)" by (meson list.set_sel(1))
    have "satisfied s a x" using flatten_True_satisfied [OF _ x] less.prems(2) All by simp
    from step [OF x _ this enc(2)] All show ?thesis by simp
  next
    case (Any es)
    then obtain depth leaves r where enc: "encode_children depth (flatten False es) leaves = Inr r"
      using less.prems(1) by (auto simp: encodes_def result_simps split: if_splits)
    obtain x where x: "x \<in> set (flatten False es)" "satisfied s a x"
      using less.prems(2) Any flatten_False_satisfied [of es s a] by auto
    from step [OF x(1) _ x(2) enc] Any show ?thesis by simp
  qed
qed

section \<open>Properties\<close>

definition demo_grant :: assignment where
  "demo_grant = \<lparr>a_actor = ''act_f'', a_capability = capability_new ''w'' ''edit'', a_resource = resource_root ''w''\<rparr>"

definition demo_state :: acl_state where
  "demo_state = default_state\<lparr>st_members := [(''act_f'', {Admin, Write})],
     st_policy := empty_policy\<lparr>pp_grants := [(''1'', demo_grant), (''2'', demo_grant)]\<rparr>\<rparr>"

definition demo_require :: demand where
  "demo_require = Require (capability_new ''w'' ''edit'') (resource_root ''w'')"

text \<open>C4: every member of the materialized state is a founder or is seated by an authorized
  operation that is not void: not the loser of a concurrent redemption of the same invite, and not a
  redemption that a revocation of the invite did not see.\<close>

theorem members_are_seated:
  assumes "is_member (materialize_authorized g decoded anc auth) a"
  shows "a \<in> set (g_founding g) \<or>
     (\<exists>h \<in> set auth. is_add decoded a h \<and> \<not> void_admission decoded anc auth h)"
  using assms by (rule member_seated)

definition demo_invite :: "string \<Rightarrow> acl_op option" where
  \<comment> \<open>two concurrent redemptions of invite \<open>n\<close>, and a revocation of invite \<open>m\<close> concurrent with one\<close>
  "demo_invite h =
     (if h = ''1'' then Some ((demo_op (CHR ''f'') (AddMember ''act_a'' [Write]))\<lparr>op_nonce := Some ''n''\<rparr>)
      else if h = ''2'' then Some ((demo_op (CHR ''f'') (AddMember ''act_b'' [Write]))\<lparr>op_nonce := Some ''n''\<rparr>)
      else if h = ''3'' then Some ((demo_op (CHR ''f'') (AddMember ''act_c'' [Write]))\<lparr>op_nonce := Some ''m''\<rparr>)
      else if h = ''4'' then Some (demo_op (CHR ''f'') (RevokeInvite ''m''))
      else if h = ''5'' then Some (demo_op (CHR ''f'') (RemoveMember ''act_a''))
      else None)"

theorem members_are_seated_witness:
  "is_member (materialize_authorized demo_genesis demo_invite [] [''1'', ''2'', ''3'', ''4'']) ''act_a'' \<and>
   \<not> is_member (materialize_authorized demo_genesis demo_invite [] [''1'', ''2'', ''3'', ''4'']) ''act_b'' \<and>
   \<not> is_member (materialize_authorized demo_genesis demo_invite [] [''1'', ''2'', ''3'', ''4'']) ''act_c'' \<and>
   (\<exists>h \<in> {''1'', ''2'', ''3'', ''4''}. is_add demo_invite ''act_a'' h)"
proof -
  have m: "is_member (materialize_authorized demo_genesis demo_invite [] [''1'', ''2'', ''3'', ''4'']) ''act_a''"
    by code_simp
  have "\<not> is_member (materialize_authorized demo_genesis demo_invite [] [''1'', ''2'', ''3'', ''4'']) ''act_b''"
    by code_simp
  moreover have "\<not> is_member (materialize_authorized demo_genesis demo_invite [] [''1'', ''2'', ''3'', ''4'']) ''act_c''"
    by code_simp
  moreover have "\<exists>h \<in> {''1'', ''2'', ''3'', ''4''}. is_add demo_invite ''act_a'' h"
    using members_are_seated [OF m] by (auto simp: demo_genesis_def)
  ultimately show ?thesis using m by blast
qed

text \<open>C5: removal wins. An actor whose authorized removal no authorized addition causally follows is
  not a member, whatever concurrent additions the order places later.\<close>

theorem removal_wins:
  assumes "r \<in> set auth" "is_remove decoded a r"
    and "\<forall>h \<in> set auth. is_add decoded a h \<longrightarrow> \<not> anc_contains anc h r"
  shows "\<not> is_member (materialize_authorized g decoded anc auth) a"
  using removed_evicted [of r auth decoded a anc] assms member_folded(2) by blast

theorem removal_wins_witness:
  "\<not> is_member (materialize_authorized demo_genesis demo_invite [] [''5'', ''1'']) ''act_a''"
proof -
  have "is_remove demo_invite ''act_a'' ''5''" by code_simp
  then show ?thesis by (intro removal_wins [of "''5''"]) (auto simp: anc_contains_def)
qed

text \<open>Every rekey fence the state reports is justified. It names an authorized revocation that
  did not see the redemption it voids, the redeeming actor is no longer a member, and no authorized
  epoch descends from the revocation.\<close>

theorem rekey_fences_justified:
  assumes "f \<in> set (st_rekey_fences (materialize_authorized g decoded anc auth))"
  shows "(\<exists>op. rf_fence f \<in> set auth \<and> decoded (rf_fence f) = Some op \<and> op_action op = RevokeInvite (rf_nonce f)) \<and>
     (\<exists>h \<in> set auth. nonce_admit decoded h = Some (rf_nonce f, rf_evicted f) \<and> \<not> anc_contains anc (rf_fence f) h) \<and>
     \<not> is_member (materialize_authorized g decoded anc auth) (rf_evicted f) \<and>
     \<not> (\<exists>e \<in> snd ` set (st_epochs (materialize_authorized g decoded anc auth)).
          anc_contains anc (ea_mint_hash e) (rf_fence f))"
  using assms raised_fence_sound [of f decoded anc auth g]
  unfolding materialize_fences materialize_phases(3) by blast

theorem rekey_fences_justified_witness:
  "\<lparr>rf_fence = ''4'', rf_evicted = ''act_c'', rf_nonce = ''m''\<rparr> \<in>
     set (st_rekey_fences (materialize_authorized demo_genesis demo_invite [] [''3'', ''4''])) \<and>
   \<not> is_member (materialize_authorized demo_genesis demo_invite [] [''3'', ''4'']) ''act_c''"
proof -
  have f: "\<lparr>rf_fence = ''4'', rf_evicted = ''act_c'', rf_nonce = ''m''\<rparr> \<in>
      set (st_rekey_fences (materialize_authorized demo_genesis demo_invite [] [''3'', ''4'']))"
    by code_simp
  from rekey_fences_justified [OF f] f show ?thesis by simp
qed

text \<open>No voided redemption goes unaccounted for. When a revocation did not see a redemption of
  its invite and the redeeming actor has no other valid seat, the actor is not a member, and either a
  rekey fence for the actor is outstanding or an authorized epoch descends from a revocation of that
  invite.\<close>

theorem voided_redemption_accounted:
  assumes "h \<in> set auth" "nonce_admit decoded h = Some (n, a)"
    and "r \<in> set auth" "decoded r = Some rop" "op_action rop = RevokeInvite n" "\<not> anc_contains anc r h"
    and "\<forall>h' \<in> set auth. is_add decoded a h' \<longrightarrow> void_admission decoded anc auth h'"
  shows "\<not> is_member (materialize_authorized g decoded anc auth) a \<and>
     ((\<exists>f \<in> set (st_rekey_fences (materialize_authorized g decoded anc auth)). rf_evicted f = a) \<or>
      (\<exists>e \<in> snd ` set (st_epochs (materialize_authorized g decoded anc auth)). \<exists>r' \<in> set auth.
         (\<exists>op. decoded r' = Some op \<and> op_action op = RevokeInvite n) \<and> anc_contains anc (ea_mint_hash e) r'))"
proof -
  from voided_fence [OF assms, of g] obtain f op where f: "f \<in> set (raised_fences decoded anc auth)" "rf_evicted f = a"
      "rf_fence f \<in> set auth" "decoded (rf_fence f) = Some op" "op_action op = RevokeInvite n"
    and no: "\<not> is_member (materialize_authorized g decoded anc auth) a" by blast
  show ?thesis
  proof (cases "f \<in> set (st_rekey_fences (materialize_authorized g decoded anc auth))")
    case False
    with f show ?thesis unfolding materialize_fences materialize_phases(3) using no by blast
  qed (use f no in blast)
qed

theorem voided_redemption_accounted_witness:
  "\<not> is_member (materialize_authorized demo_genesis demo_invite [] [''3'', ''4'']) ''act_c''"
proof -
  have v: "void_admission demo_invite [] [''3'', ''4''] ''3''"
    by (simp add: void_admission_def nonce_admit_def demo_invite_def demo_op_def anc_contains_def)
  have "\<not> is_add demo_invite ''act_c'' ''4''" by code_simp
  with v have "\<forall>h' \<in> set [''3'', ''4'']. is_add demo_invite ''act_c'' h' \<longrightarrow> void_admission demo_invite [] [''3'', ''4''] h'"
    by simp
  from voided_redemption_accounted [where h = "''3''" and n = "''m''" and r = "''4''", OF _ _ _ _ _ _ this]
  show ?thesis by (simp add: nonce_admit_def demo_invite_def demo_op_def anc_contains_def)
qed

text \<open>C9: a demand is granted only for a reason. The witness of a granted demand is a sorted list of
  distinct grant ids, each an effective grant the actor holds for a leaf of the demand; the demand's
  boolean reading holds, and a demand that has a canonical encoding is granted to members only.\<close>

theorem evaluate_demand_sound:
  assumes "evaluate_demand s a d = Some w"
  shows "sorted w \<and> distinct w \<and> satisfied s a d \<and>
     (\<forall>gid \<in> set w. \<exists>(c, r) \<in> leaves_of d. gid \<in> set (effective_capability_grants s a c r)) \<and>
     ((\<exists>b. encode_canonical d = Inr b) \<longrightarrow> is_member s a)"
proof -
  obtain v where v: "evaluate_node s a d = Some v" "w = remdups_adj (sort v)"
    using assms by (auto simp: evaluate_demand_def)
  have "sorted w" "distinct w" using v(2) by (simp_all add: sorted_remdups_adj sorted_distinct_remdups_adj)
  moreover have "satisfied s a d" "witness_for s a d w"
    using evaluate_sound [OF v(1)] v(2) by (simp_all add: witness_for_def)
  ultimately show ?thesis using satisfied_member [OF encodes_canonical] unfolding witness_for_def by blast
qed

theorem evaluate_demand_sound_witness:
  "evaluate_demand demo_state ''act_f'' (All [demo_require, demo_require]) = Some [''1''] \<and>
   satisfied demo_state ''act_f'' (All [demo_require, demo_require])"
proof -
  have e: "evaluate_demand demo_state ''act_f'' (All [demo_require, demo_require]) = Some [''1'']" by code_simp
  from evaluate_demand_sound [OF e] e show ?thesis by blast
qed

text \<open>A satisfied demand is granted. Whenever the boolean reading of a demand holds for the actor
  and the branches of its alternatives have canonical encodings, evaluation returns a witness.\<close>

theorem evaluate_demand_complete:
  assumes "any_encodable d" "satisfied s a d"
  shows "\<exists>w. evaluate_demand s a d = Some w"
  using evaluate_complete [OF assms] by (auto simp: evaluate_demand_def)

theorem evaluate_demand_complete_witness:
  "\<exists>w. evaluate_demand demo_state ''act_f'' (Any [demo_require]) = Some w"
proof -
  have "case encode_canonical demo_require of Inl _ \<Rightarrow> False | Inr _ \<Rightarrow> True" by code_simp
  then have "\<exists>b. encode_canonical demo_require = Inr b" by (cases "encode_canonical demo_require") auto
  then have "any_encodable (Any [demo_require])" by (simp add: demo_require_def)
  moreover have "satisfied demo_state ''act_f'' (Any [demo_require])" by code_simp
  ultimately show ?thesis by (rule evaluate_demand_complete)
qed

text \<open>A state that stands in for an unreadable ledger fails closed on every question.\<close>

theorem unresolved_fails_closed:
  "\<not> is_member unresolved a \<and> \<not> is_admin unresolved a \<and> \<not> can_write unresolved a \<and>
   \<not> is_policy_admin unresolved a \<and> \<not> member_admission unresolved \<and>
   is_invite_revoked unresolved n \<and> is_nonce_spent unresolved n \<and>
   epoch unresolved e = None \<and> \<not> may_delegate unresolved a c r \<and>
   effective_capability_grants unresolved a c r = [] \<and> effective_assignments unresolved a = []"
  by (simp add: unresolved_def default_state_def is_member_def is_admin_def can_write_def is_policy_admin_def
      member_admission_def is_invite_revoked_def is_nonce_spent_def epoch_def may_delegate_def has_delegation_def
      effective_capability_grants_def effective_assignments_def bm_contains_def)

end
