(* ===== verification/AclReplay.thy ===== *)
theory AclReplay
  imports AclState
begin

text \<open>
  Replay of the membership operation graph (\<^verbatim>\<open>crates/mechanics/src/acl.rs\<close>): the complete replay
  \<open>replay_checkpointed\<close> and the strict-descendant continuation \<open>replay_continue\<close>, both folding
  \<open>judge_op\<close> and \<open>apply_authorized\<close> over the deterministic order and materializing the result.

  Device-to-actor resolution replays the actor plane at the frontier an operation declares. The
  memo table of the source is not state of the model: \<open>replay_at_memo\<close> shows its key (the sorted
  frontier) determines the value.
\<close>

section \<open>Complete replay\<close>

record audit_entry =
  ae_hash :: string
  ae_author :: string
  ae_by :: "string option"
  ae_kind :: string
  ae_subject :: "string option"
  ae_grants :: "standing list option"
  ae_authorized :: bool

record checkpoint =
  cp_state :: acl_state
  cp_verdicts :: "(string \<times> bool) list"
  cp_heads :: "string list"
  cp_admins :: "string set"
  cp_humans :: "string set"
  cp_agents_now :: "(string, string) btree_map"
  cp_epoch_gens :: "(string, u32) btree_map"
  cp_policy :: policy_pass

text \<open>The code not under the repository: the hash and signature functions and the two decoders.\<close>

record plane_env =
  pe_crypto :: crypto
  pe_actor :: actor_codec
  pe_acl :: acl_codec

definition device_speaks_for ::
  "plane_env \<Rightarrow> string \<Rightarrow> signed_node list \<Rightarrow> string \<Rightarrow> string \<Rightarrow> string list \<Rightarrow> bool" where
  "device_speaks_for env ws actor_events device by' asof =
     is_device_of (replay_at (pe_crypto env) (pe_actor env) ws actor_events asof) by' device"

definition audit_grants :: "acl_action \<Rightarrow> standing list option" where
  "audit_grants action =
     (case action of AddMember _ grants \<Rightarrow> Some grants | SetGrants _ grants \<Rightarrow> Some grants | _ \<Rightarrow> None)"

definition audit_entry_of :: "acl_codec \<Rightarrow> nodes \<Rightarrow> string \<Rightarrow> bool \<Rightarrow> audit_entry" where
  "audit_entry_of dec ns h ok =
     (case op_at dec ns h of
        None \<Rightarrow> \<lparr>ae_hash = h, ae_author = author_at ns h, ae_by = None, ae_kind = ''unknown'',
                 ae_subject = None, ae_grants = None, ae_authorized = ok\<rparr>
      | Some op \<Rightarrow> \<lparr>ae_hash = h, ae_author = author_at ns h, ae_by = Some (op_by op),
                    ae_kind = kind_label (op_action op), ae_subject = action_actor (op_action op),
                    ae_grants = audit_grants (op_action op), ae_authorized = ok\<rparr>)"

definition verdict ::
  "plane_env \<Rightarrow> genesis \<Rightarrow> signed_node list \<Rightarrow> nodes \<Rightarrow> (string \<times> string set) list \<Rightarrow> string \<Rightarrow> pass1 \<Rightarrow> bool" where
  "verdict env g actor_events ns ancestors h p =
     (case op_at (pe_acl env) ns h of
        None \<Rightarrow> False
      | Some op \<Rightarrow>
          device_speaks_for env (g_space g) actor_events (author_at ns h) (op_by op) (op_asof op) \<and>
          judge_op (pe_crypto env) (set (g_founding g)) ancestors op h p)"

definition pass1_step ::
  "plane_env \<Rightarrow> genesis \<Rightarrow> signed_node list \<Rightarrow> nodes \<Rightarrow> (string \<times> string set) list \<Rightarrow> string \<Rightarrow>
   pass1 \<times> (string \<times> bool) list \<Rightarrow> pass1 \<times> (string \<times> bool) list" where
  \<comment> \<open>one iteration of the topo loop: judge, record the verdict, apply when authorized\<close>
  "pass1_step env g actor_events ns ancestors h pv =
     (case pv of (p, verdicts) \<Rightarrow>
        let ok = verdict env g actor_events ns ancestors h p
        in (if ok then (case op_at (pe_acl env) ns h of Some op \<Rightarrow> apply_authorized op h p | None \<Rightarrow> p) else p,
            verdicts @ [(h, ok)]))"

definition heads_of :: "nodes \<Rightarrow> string list" where
  "heads_of ns =
     (let referenced = set (concat (map (\<lambda>(_, n). filter (\<lambda>p. map_of ns p \<noteq> None) (sn_parents n)) ns))
      in sort (filter (\<lambda>h. h \<notin> referenced) (map fst ns)))"

definition authorized_of :: "(string \<times> bool) list \<Rightarrow> string list" where
  "authorized_of verdicts = map fst (filter snd verdicts)"

definition checkpoint_of ::
  "plane_env \<Rightarrow> genesis \<Rightarrow> nodes \<Rightarrow> (string \<times> string set) list \<Rightarrow> pass1 \<times> (string \<times> bool) list \<Rightarrow> checkpoint" where
  \<comment> \<open>materialize and assemble, as both replay paths end\<close>
  "checkpoint_of env g ns ancestors pv =
     \<lparr>cp_state = materialize_authorized g (op_at (pe_acl env) ns) ancestors (authorized_of (snd pv)),
      cp_verdicts = snd pv, cp_heads = heads_of ns,
      cp_admins = p1_admins (fst pv), cp_humans = p1_humans (fst pv), cp_agents_now = p1_agents (fst pv),
      cp_epoch_gens = p1_gens (fst pv), cp_policy = p1_policy (fst pv)\<rparr>"

definition audit_of :: "acl_codec \<Rightarrow> nodes \<Rightarrow> (string \<times> bool) list \<Rightarrow> audit_entry list" where
  "audit_of dec ns verdicts = map (\<lambda>(h, ok). audit_entry_of dec ns h ok) verdicts"

definition replay_checkpointed ::
  "plane_env \<Rightarrow> genesis \<Rightarrow> signed_node list \<Rightarrow> signed_node list \<Rightarrow> checkpoint \<times> audit_entry list" where
  "replay_checkpointed env g actor_events ops =
     (let ns = index_nodes (pe_crypto env) ACL_DOMAIN (g_space g) ops;
          ancestors = compute_ancestors ns;
          pv = fold (pass1_step env g actor_events ns ancestors) (topo_order ns) (initial_pass1 g, [])
      in (checkpoint_of env g ns ancestors pv, audit_of (pe_acl env) ns (snd pv)))"

definition acl_replay :: "plane_env \<Rightarrow> genesis \<Rightarrow> signed_node list \<Rightarrow> signed_node list \<Rightarrow> acl_state" where
  "acl_replay env g actor_events ops = cp_state (fst (replay_checkpointed env g actor_events ops))"

section \<open>Continuation\<close>

definition split_ops ::
  "plane_env \<Rightarrow> string \<Rightarrow> string set \<Rightarrow> signed_node list \<Rightarrow> nodes \<times> nodes" where
  \<comment> \<open>the index of all accepted ops and the index of the suffix\<close>
  "split_ops env ws prior_set ops =
     fold (\<lambda>so (ns, suffix).
       let h = node_address (pe_crypto env) so
       in if h \<in> prior_set then (hm_insert h so ns, suffix)
          else if \<not> verify_sig (pe_crypto env) ACL_DOMAIN ws so then (ns, suffix)
          else (hm_insert h so ns, hm_insert h so suffix)) ops ([], [])"

definition suffix_dominates :: "string list \<Rightarrow> string set \<Rightarrow> nodes \<Rightarrow> nodes \<Rightarrow> bool" where
  \<comment> \<open>the domination loop: \<open>False\<close> is the early \<open>return None\<close>\<close>
  "suffix_dominates prior_heads prior_set ns suffix =
     list_all (\<lambda>(_, so).
       let reaches_out = list_ex (\<lambda>p. map_of suffix p = None \<or> p \<in> prior_set) (sn_parents so);
           is_root = sn_parents so = []
       in (reaches_out \<or> is_root \<longrightarrow> set prior_heads \<subseteq> set (sn_parents so)) \<and>
          list_all (\<lambda>p. map_of ns p \<noteq> None) (sn_parents so)) suffix"

definition resume_pass1 :: "checkpoint \<Rightarrow> pass1" where
  "resume_pass1 prior =
     \<lparr>p1_admins = cp_admins prior, p1_humans = cp_humans prior, p1_agents = cp_agents_now prior,
      p1_gens = cp_epoch_gens prior, p1_policy = cp_policy prior,
      p1_admission = member_admission (cp_state prior)\<rparr>"

definition replay_continue ::
  "plane_env \<Rightarrow> checkpoint \<Rightarrow> string set \<Rightarrow> genesis \<Rightarrow> signed_node list \<Rightarrow> signed_node list \<Rightarrow>
   (checkpoint \<times> audit_entry list) option" where
  "replay_continue env prior prior_actor_event_hashes g actor_events ops =
     (let current_events = set (map (node_address (pe_crypto env)) actor_events)
      in if current_events \<noteq> prior_actor_event_hashes then None
         else
           let prior_set = set (map fst (cp_verdicts prior));
               (ns, suffix) = split_ops env (g_space g) prior_set ops
           in if length ns \<noteq> length (cp_verdicts prior) + length suffix then None
              else if \<not> suffix_dominates (cp_heads prior) prior_set ns suffix then None
              else
                let ancestors = compute_ancestors ns;
                    pv = fold (pass1_step env g actor_events ns ancestors) (topo_order suffix)
                           (resume_pass1 prior, cp_verdicts prior)
                in Some (checkpoint_of env g ns ancestors pv, audit_of (pe_acl env) ns (snd pv)))"

section \<open>The pass as a fold\<close>

definition pass1_run :: "plane_env \<Rightarrow> genesis \<Rightarrow> signed_node list \<Rightarrow> nodes \<Rightarrow> pass1 \<times> (string \<times> bool) list" where
  "pass1_run env g actor_events ns =
     fold (pass1_step env g actor_events ns (compute_ancestors ns)) (topo_order ns) (initial_pass1 g, [])"

definition acl_nodes :: "plane_env \<Rightarrow> genesis \<Rightarrow> signed_node list \<Rightarrow> nodes" where
  "acl_nodes env g ops = index_nodes (pe_crypto env) ACL_DOMAIN (g_space g) ops"

lemma distinct_acl_nodes: "distinct (map fst (acl_nodes env g ops))"
  by (simp add: acl_nodes_def distinct_index_nodes)

lemma replay_checkpointed_run:
  "replay_checkpointed env g actor_events ops =
     (checkpoint_of env g (acl_nodes env g ops) (compute_ancestors (acl_nodes env g ops))
        (pass1_run env g actor_events (acl_nodes env g ops)),
      audit_of (pe_acl env) (acl_nodes env g ops) (snd (pass1_run env g actor_events (acl_nodes env g ops))))"
  by (simp add: replay_checkpointed_def acl_nodes_def pass1_run_def Let_def)

lemma pass1_step_cases:
  obtains (authorized) op where "op_at (pe_acl env) ns h = Some op"
      "judge_op (pe_crypto env) (set (g_founding g)) anc op h p"
      "pass1_step env g evs ns anc h (p, v) = (apply_authorized op h p, v @ [(h, True)])"
  | (refused) "pass1_step env g evs ns anc h (p, v) = (p, v @ [(h, False)])"
proof (cases "verdict env g evs ns anc h p")
  case True
  then obtain op where "op_at (pe_acl env) ns h = Some op" "judge_op (pe_crypto env) (set (g_founding g)) anc op h p"
    by (auto simp: verdict_def split: option.splits)
  with True authorized show ?thesis by (simp add: pass1_step_def Let_def)
next
  case False
  with refused show ?thesis by (simp add: pass1_step_def Let_def)
qed

lemma pass1_verdicts:
  "map fst (snd (fold (pass1_step env g evs ns anc) hs pv)) = map fst (snd pv) @ hs"
proof (induction hs arbitrary: pv)
  case (Cons h hs)
  have "map fst (snd (pass1_step env g evs ns anc h pv)) = map fst (snd pv) @ [h]"
    by (cases pv) (simp add: pass1_step_def Let_def)
  with Cons show ?case by simp
qed simp

lemma verdicts_kept: "set v \<subseteq> set (snd (fold (pass1_step env g evs ns anc) hs (p, v)))"
proof (induction hs arbitrary: p v)
  case (Cons h hs)
  obtain q ok where "pass1_step env g evs ns anc h (p, v) = (q, v @ [(h, ok)])"
    by (cases rule: pass1_step_cases [of env ns h g anc p evs v]) auto
  with Cons [of "v @ [(h, ok)]" q] show ?case by auto
qed simp

context authority_invariant
begin

lemma pass1_fold:
  assumes "pe_crypto env = cr" "set (g_founding g) = founders" "inv (fst pv)"
  shows "inv (fst (fold (pass1_step env g evs ns ancestors) hs pv))"
  using assms(3)
proof (induction hs arbitrary: pv)
  case (Cons h hs)
  obtain p v where pv: "pv = (p, v)" by force
  have "inv (fst (pass1_step env g evs ns ancestors h pv))"
    unfolding pv using Cons.prems assms(1,2) pv
    by (cases rule: pass1_step_cases [of env ns h g ancestors p evs v]) (auto intro: judged)
  with Cons.IH show ?case by simp
qed simp

end

lemma pass1_run_wf: "pass1_wf (fst (pass1_run env g evs ns))"
  unfolding pass1_run_def by (rule standing.pass1_fold [OF refl refl]) (simp add: pass1_wf_initial)

lemma pass1_run_gens: "gens_bounded ns (fst (pass1_run env g evs ns))"
proof -
  have "gens_bounded ns (initial_pass1 g)" by (simp add: gens_bounded_def initial_pass1_def)
  then have "pass1_wf (initial_pass1 g) \<and> gens_bounded ns (initial_pass1 g)" by (simp add: pass1_wf_initial)
  then show ?thesis
    unfolding pass1_run_def using generations.pass1_fold [OF refl refl, of "(initial_pass1 g, [])"] by simp
qed

text \<open>Every authorized operation was accepted by \<open>judge_op\<close> in the standing at its position.\<close>

lemma authorized_judged:
  assumes "h \<in> set (authorized_of (snd (fold (pass1_step env g evs ns anc) hs (p0, []))))"
  shows "\<exists>op p. op_at (pe_acl env) ns h = Some op \<and> judge_op (pe_crypto env) (set (g_founding g)) anc op h p"
  using assms
proof (induction hs rule: rev_induct)
  case (snoc x hs)
  obtain p v where pv: "fold (pass1_step env g evs ns anc) hs (p0, []) = (p, v)" by force
  from snoc pv show ?case
    by (cases rule: pass1_step_cases [of env ns x g anc p evs v]) (auto simp: authorized_of_def)
qed (simp add: authorized_of_def)

lemma authorized_sponsorable:
  "sponsorable (op_at (pe_acl env) ns) (authorized_of (snd (pass1_run env g evs ns)))"
  unfolding sponsorable_def pass1_run_def
  by (auto dest!: authorized_judged) (metis judge_AddAgent)

text \<open>Pass 1 and the materialization derive the same policy.\<close>

lemma pass1_policy_agrees:
  "p1_policy (fst (pass1_run env g evs ns)) =
     m_policy (mat_folded g (op_at (pe_acl env) ns) (authorized_of (snd (pass1_run env g evs ns)))) \<and>
   p1_admission (fst (pass1_run env g evs ns)) =
     m_admission (mat_folded g (op_at (pe_acl env) ns) (authorized_of (snd (pass1_run env g evs ns))))"
proof -
  have "p1_policy (fst pv) = m_policy (mat_folded g (op_at (pe_acl env) ns) (authorized_of (snd pv))) \<and>
      p1_admission (fst pv) = m_admission (mat_folded g (op_at (pe_acl env) ns) (authorized_of (snd pv)))"
    if "pv = fold (pass1_step env g evs ns anc) hs (initial_pass1 g, [])" for pv anc hs
    using that
  proof (induction hs arbitrary: pv rule: rev_induct)
    case Nil
    then show ?case by (simp add: authorized_of_def mat_folded_def initial_mat_def initial_pass1_def)
  next
    case (snoc h hs)
    obtain p v where pv: "fold (pass1_step env g evs ns anc) hs (initial_pass1 g, []) = (p, v)" by force
    from snoc.IH [OF pv [symmetric]] snoc.prems pv show ?case
      by (cases rule: pass1_step_cases [of env ns h g anc p evs v])
        (auto simp: authorized_of_def mat_folded_def mat_step_policy apply_authorized_policy)
  qed
  then show ?thesis unfolding pass1_run_def by blast
qed

text \<open>Whoever the materialized state calls an administrator is one in the standing of pass 1.\<close>

definition admins_within :: "mat \<Rightarrow> pass1 \<Rightarrow> bool" where
  "admins_within m p \<longleftrightarrow> (\<forall>a gs. map_of (m_members m) a = Some gs \<and> Admin \<in> gs \<longrightarrow> a \<in> p1_admins p)"

lemma admins_within_step:
  assumes "admins_within m p" "decoded h = Some op" "judge_op cr founders anc op h p"
  shows "admins_within (mat_step decoded h m) (apply_authorized op h p)"
  using assms judge_AddAgent [OF assms(3)]
  by (cases "op_action op")
    (auto simp: admins_within_def mat_step_def mat_op_def spend_nonce_def apply_authorized_def seat_human_def
      bm_get_insert bm_get_remove split: option.splits if_splits)

lemma folded_admins_within:
  "admins_within (mat_folded g (op_at (pe_acl env) ns) (authorized_of (snd (pass1_run env g evs ns))))
     (fst (pass1_run env g evs ns))"
proof -
  have "admins_within (mat_folded g (op_at (pe_acl env) ns) (authorized_of (snd pv))) (fst pv)"
    if "pv = fold (pass1_step env g evs ns anc) hs (initial_pass1 g, [])" for pv anc hs
    using that
  proof (induction hs arbitrary: pv rule: rev_induct)
    case Nil
    then show ?case
      by (simp add: authorized_of_def mat_folded_def admins_within_def initial_mat_members initial_pass1_def)
  next
    case (snoc h hs)
    obtain p v where pv: "fold (pass1_step env g evs ns anc) hs (initial_pass1 g, []) = (p, v)" by force
    from snoc.IH [OF pv [symmetric]] snoc.prems pv show ?case
      by (cases rule: pass1_step_cases [of env ns h g anc p evs v])
        (auto simp: authorized_of_def mat_folded_def intro: admins_within_step)
  qed
  then show ?thesis unfolding pass1_run_def by blast
qed

lemma replayed_admin_standing:
  assumes "is_admin (acl_replay env g evs ops) a"
  shows "a \<in> cp_admins (fst (replay_checkpointed env g evs ops))"
proof -
  from assms obtain gs where gs: "Admin \<in> gs" "map_of (m_members (sponsor_cascade
      (mat_evicted g (op_at (pe_acl env) (acl_nodes env g ops)) (compute_ancestors (acl_nodes env g ops))
        (authorized_of (snd (pass1_run env g evs (acl_nodes env g ops))))))) a = Some gs"
    by (auto simp: is_admin_def acl_replay_def replay_checkpointed_run checkpoint_of_def materialize_phases split: option.splits)
  from cascade_get(1) [OF gs(2)] gs(1) folded_admins_within [of g env "acl_nodes env g ops" evs] show ?thesis
    by (auto simp: evicted_get admins_within_def replay_checkpointed_run checkpoint_of_def split: if_splits)
qed

text \<open>A space that has lost its last administrator never regains one.\<close>

interpretation leaderless: authority_invariant cr founders ancestors "\<lambda>p. p1_admins p = {}" for cr founders ancestors
proof (unfold_locales)
  show "p1_admins p = {} \<Longrightarrow> judge_op cr founders ancestors op h p \<Longrightarrow> p1_admins (apply_authorized op h p) = {}" for p op h
    using judge_admins [of cr founders ancestors op h p] by auto
qed

section \<open>Replay depends on the node set only\<close>

lemma mint_ceiling_cong:
  "(\<And>mh. anc_contains A h mh = anc_contains A' h mh) \<Longrightarrow> mint_ceiling A h gens = mint_ceiling A' h gens"
  by (simp add: mint_ceiling_def)

lemma judge_op_cong:
  "(\<And>mh. anc_contains A h mh = anc_contains A' h mh) \<Longrightarrow>
     judge_op cr founders A op h p = judge_op cr founders A' op h p"
proof -
  assume "\<And>mh. anc_contains A h mh = anc_contains A' h mh"
  then have "mint_ceiling A h = mint_ceiling A' h" by (intro ext mint_ceiling_cong)
  then show ?thesis by (simp only: judge_op_def)
qed

lemma pass1_step_cong:
  assumes "map_of ns h = map_of ms h" "\<And>mh. anc_contains A h mh = anc_contains A' h mh"
    and "device_speaks_for env (g_space g) evs = device_speaks_for env (g_space g) evs'"
  shows "pass1_step env g evs ns A h pv = pass1_step env g evs' ms A' h pv"
proof -
  have "op_at (pe_acl env) ns h = op_at (pe_acl env) ms h" "author_at ns h = author_at ms h"
    by (simp_all add: op_at_def author_at_def assms(1))
  moreover from this have "verdict env g evs ns A h p = verdict env g evs' ms A' h p" for p
    unfolding verdict_def using judge_op_cong [OF assms(2)] assms(3) by (simp split: option.splits)
  ultimately show ?thesis by (simp only: pass1_step_def)
qed

lemma materialize_cong:
  assumes "anc_contains A = anc_contains A'"
  shows "materialize_authorized g decoded A auth = materialize_authorized g decoded A' auth"
proof -
  have "removed_subject decoded A = removed_subject decoded A'"
    by (intro ext) (simp only: removed_subject_def assms)
  moreover have rl: "race_losers A = race_losers A'"
  proof -
    have "race_loser A = race_loser A'"
      by (intro ext) (simp only: race_loser_def concurrent_def assms)
    then show ?thesis by (intro ext) (simp only: race_losers_def)
  qed
  moreover from rl have "races A = races A'" "all_losing A = all_losing A'"
    by (intro ext; simp only: races_def all_losing_def)+
  moreover have fa: "fenced_admits A = fenced_admits A'"
  proof -
    have "fence_group A = fence_group A'"
      by (intro ext) (simp only: fence_group_def assms)
    then show ?thesis by (intro ext) (simp only: fenced_admits_def)
  qed
  moreover have "discharge A = discharge A'"
    by (intro ext) (simp only: discharge_def assms)
  ultimately show ?thesis
    by (simp only: materialize_authorized_def remove_wins_def disqualified_ops_def)
qed

lemma heads_of_spec: "distinct (map fst ns) \<Longrightarrow> set (heads_of ns) = dag_heads ns \<and> distinct (heads_of ns) \<and> sorted (heads_of ns)"
proof -
  assume d: "distinct (map fst ns)"
  let ?referenced = "set (concat (map (\<lambda>(_, n). filter (\<lambda>p. map_of ns p \<noteq> None) (sn_parents n)) ns))"
  have "(\<exists>c. (h, c) \<in> causes ns) \<longleftrightarrow> h \<in> ?referenced" for h
    unfolding causes_iff using d by (force simp: map_of_eq_Some_iff)
  then have "dag_heads ns = set (filter (\<lambda>h. h \<notin> ?referenced) (map fst ns))"
    unfolding dag_heads_def node_keys_def by (simp only: set_filter set_map not_ex [symmetric])
  then show ?thesis using d by (simp only: heads_of_def Let_def set_sort distinct_sort distinct_filter sorted_sort)
qed

lemma heads_of_cong:
  assumes "distinct (map fst ns)" "distinct (map fst ms)" "map_of ns = map_of ms"
  shows "heads_of ns = heads_of ms"
proof -
  have "node_keys ns = node_keys ms" by (rule set_eqI) (simp only: node_keys_iff assms(3))
  then have "dag_heads ns = dag_heads ms" by (simp add: dag_heads_def causes_cong [OF assms(3)])
  with heads_of_spec [OF assms(1)] heads_of_spec [OF assms(2)] show ?thesis
    by (metis sorted_distinct_set_unique)
qed

lemma fold_cong_set: "(\<And>h x. h \<in> set hs \<Longrightarrow> f h x = f' h x) \<Longrightarrow> fold f hs x = fold f' hs x"
  by (induction hs arbitrary: x) auto

lemma checkpoint_cong:
  assumes "distinct (map fst ns)" "distinct (map fst ms)" "map_of ns = map_of ms"
  shows "checkpoint_of env g ns (compute_ancestors ns) pv = checkpoint_of env g ms (compute_ancestors ms) pv"
    and "audit_of dec ns v = audit_of dec ms v"
proof -
  show "checkpoint_of env g ns (compute_ancestors ns) pv = checkpoint_of env g ms (compute_ancestors ms) pv"
    by (simp add: checkpoint_of_def heads_of_cong [OF assms] op_at_cong [OF assms(3)]
        materialize_cong [OF anc_contains_cong [OF assms(3)]])
  show "audit_of dec ns v = audit_of dec ms v"
    by (simp only: audit_of_def audit_entry_of_def op_at_cong [OF assms(3)] author_at_cong [OF assms(3)])
qed

lemma pass1_run_cong:
  assumes "distinct (map fst ns)" "distinct (map fst ms)" "map_of ns = map_of ms"
    and "device_speaks_for env (g_space g) evs = device_speaks_for env (g_space g) evs'"
  shows "pass1_run env g evs ns = pass1_run env g evs' ms"
proof -
  have "topo_order ns = topo_order ms"
    using topo_order_permute [OF assms(1) same_map_mset [OF assms(1-3)]] .
  then show ?thesis
    unfolding pass1_run_def
    by (simp only:) (rule fold_cong_set, rule pass1_step_cong, simp_all add: assms anc_contains_cong [OF assms(3)])
qed

lemma speaks_cong:
  assumes "set evs = set evs'" "one_per_address (pe_crypto env) evs"
  shows "device_speaks_for env ws evs = device_speaks_for env ws evs'"
  by (intro ext) (simp add: device_speaks_for_def conjunct2 [OF replay_same_events [OF assms]])

abbreviation verified :: "plane_env \<Rightarrow> bytes \<Rightarrow> genesis \<Rightarrow> signed_node list \<Rightarrow> signed_node list" where
  "verified env domain g \<equiv> filter (verify_sig (pe_crypto env) domain (g_space g))"

lemma speaks_verified:
  "device_speaks_for env (g_space g) (verified env ACTOR_DOMAIN g evs) = device_speaks_for env (g_space g) evs"
  by (intro ext) (simp add: device_speaks_for_def replay_verified)

section \<open>The continuation agrees with the complete replay\<close>

lemma split_ops_parts:
  "split_ops env ws prior_set ops =
     (fold (\<lambda>so. hm_insert (node_address (pe_crypto env) so) so)
        (filter (\<lambda>so. node_address (pe_crypto env) so \<in> prior_set \<or> verify_sig (pe_crypto env) ACL_DOMAIN ws so) ops) [],
      fold (\<lambda>so. hm_insert (node_address (pe_crypto env) so) so)
        (filter (\<lambda>so. node_address (pe_crypto env) so \<notin> prior_set \<and> verify_sig (pe_crypto env) ACL_DOMAIN ws so) ops) [])"
proof -
  have "fold (\<lambda>so (ns, suffix).
       let h = node_address (pe_crypto env) so
       in if h \<in> prior_set then (hm_insert h so ns, suffix)
          else if \<not> verify_sig (pe_crypto env) ACL_DOMAIN ws so then (ns, suffix)
          else (hm_insert h so ns, hm_insert h so suffix)) ops (ns, suffix) =
     (fold (\<lambda>so. hm_insert (node_address (pe_crypto env) so) so)
        (filter (\<lambda>so. node_address (pe_crypto env) so \<in> prior_set \<or> verify_sig (pe_crypto env) ACL_DOMAIN ws so) ops) ns,
      fold (\<lambda>so. hm_insert (node_address (pe_crypto env) so) so)
        (filter (\<lambda>so. node_address (pe_crypto env) so \<notin> prior_set \<and> verify_sig (pe_crypto env) ACL_DOMAIN ws so) ops) suffix)"
    for ns suffix
    by (induction ops arbitrary: ns suffix) (auto simp: Let_def)
  then show ?thesis by (simp add: split_ops_def)
qed

text \<open>Indexing by address, as \<open>index_nodes\<close> does after the signature filter.\<close>

lemma index_fold_get:
  assumes "one_per_address cr evs"
  shows "map_of (fold (\<lambda>so. hm_insert (node_address cr so) so) evs []) h = Some ev \<longleftrightarrow>
     ev \<in> set evs \<and> node_address cr ev = h"
proof -
  have "map_of (fold (\<lambda>so. hm_insert (node_address cr so) so) evs []) h = Some ev \<longleftrightarrow>
      ev \<in> set evs \<and> node_address cr ev = h"
    using assms
  proof (induction evs rule: rev_induct)
    case (snoc x evs)
    have "one_per_address cr evs" using snoc.prems by (simp add: one_per_address_def)
    with snoc show ?case by (auto simp: hm_get_insert one_per_address_def)
  qed simp
  then show ?thesis .
qed

lemma distinct_index_fold: "distinct (map fst (fold (\<lambda>so. hm_insert (f so) so) evs []))"
proof -
  have "distinct (map fst ms) \<Longrightarrow> distinct (map fst (fold (\<lambda>so. hm_insert (f so) so) evs ms))" for ms
    by (induction evs arbitrary: ms) (auto simp: hm_insert_distinct)
  then show ?thesis by simp
qed

lemma one_per_address_mono: "one_per_address cr es \<Longrightarrow> set es' \<subseteq> set es \<Longrightarrow> one_per_address cr es'"
  by (auto simp: one_per_address_def)

lemma split_ops_get:
  assumes split: "split_ops env ws prior ops = (ns, suffix)" and cf: "one_per_address (pe_crypto env) ops"
  shows "map_of ns h = Some ev \<longleftrightarrow>
      ev \<in> set ops \<and> (h \<in> prior \<or> verify_sig (pe_crypto env) ACL_DOMAIN ws ev) \<and> node_address (pe_crypto env) ev = h"
    and "map_of suffix h = Some ev \<longleftrightarrow>
      ev \<in> set ops \<and> h \<notin> prior \<and> verify_sig (pe_crypto env) ACL_DOMAIN ws ev \<and> node_address (pe_crypto env) ev = h"
    and "distinct (map fst ns)" "distinct (map fst suffix)"
proof -
  have cff: "one_per_address (pe_crypto env) (filter P ops)" for P using cf by (auto intro: one_per_address_mono)
  show "map_of ns h = Some ev \<longleftrightarrow>
      ev \<in> set ops \<and> (h \<in> prior \<or> verify_sig (pe_crypto env) ACL_DOMAIN ws ev) \<and> node_address (pe_crypto env) ev = h"
    using split index_fold_get [OF cff] by (auto simp: split_ops_parts)
  show "map_of suffix h = Some ev \<longleftrightarrow>
      ev \<in> set ops \<and> h \<notin> prior \<and> verify_sig (pe_crypto env) ACL_DOMAIN ws ev \<and> node_address (pe_crypto env) ev = h"
    using split index_fold_get [OF cff] by (auto simp: split_ops_parts)
  show "distinct (map fst ns)" "distinct (map fst suffix)"
    using split distinct_index_fold by (auto simp: split_ops_parts)
qed

text \<open>The length test of the continuation: the index holds every prior key.\<close>

lemma length_test:
  assumes "distinct (map fst ns)" "distinct (map fst A)" "distinct (map fst suffix)"
    and "node_keys ns \<subseteq> node_keys A \<union> node_keys suffix" "node_keys suffix \<subseteq> node_keys ns"
      "node_keys A \<inter> node_keys suffix = {}" "length ns = length A + length suffix"
  shows "node_keys A \<subseteq> node_keys ns"
proof -
  have "node_keys ns = (node_keys ns \<inter> node_keys A) \<union> node_keys suffix" using assms(4,5) by blast
  then have "card (node_keys ns) = card (node_keys ns \<inter> node_keys A) + card (node_keys suffix)"
    using assms(6) by (metis (no_types, lifting) card_Un_disjoint finite_Int finite_node_keys inf_assoc inf_bot_right)
  then have "card (node_keys ns \<inter> node_keys A) = card (node_keys A)"
    using assms card_node_keys by simp
  then show ?thesis by (metis Int_lower2 card_subset_eq finite_node_keys inf.orderI inf_commute)
qed

text \<open>What a successful continuation has established about its node sets: the whole index is the
  prior index extended by the suffix.\<close>

lemma split_ops_extends:
  fixes env g ops0 ops
  defines "A \<equiv> acl_nodes env g ops0" and "N \<equiv> acl_nodes env g ops"
  assumes split: "split_ops env (g_space g) (node_keys A) ops = (ns, suffix)"
    and len: "length ns = length A + length suffix"
    and cf: "one_per_address (pe_crypto env) (ops0 @ ops)"
  shows "map_of ns = map_of N" "map_of N = map_of (A @ suffix)" "distinct (map fst (A @ suffix))"
proof -
  let ?cr = "pe_crypto env" and ?ok = "verify_sig (pe_crypto env) ACL_DOMAIN (g_space g)"
  have cfs: "one_per_address ?cr ops0" "one_per_address ?cr ops" using cf by (auto intro: one_per_address_mono)
  note parts = split_ops_get [OF split cfs(2)]
  have getA: "map_of A h = Some ev \<longleftrightarrow> ev \<in> set ops0 \<and> ?ok ev \<and> node_address ?cr ev = h" for h ev
    unfolding A_def acl_nodes_def by (rule index_nodes_get [OF cfs(1)])
  have getN: "map_of N h = Some ev \<longleftrightarrow> ev \<in> set ops \<and> ?ok ev \<and> node_address ?cr ev = h" for h ev
    unfolding N_def acl_nodes_def by (rule index_nodes_get [OF cfs(2)])
  have same: "ev \<in> set ops \<Longrightarrow> map_of A (node_address ?cr ev) = Some ev' \<Longrightarrow> ev' = ev" for ev ev'
    using cf getA unfolding one_per_address_def by auto
  have vA: "?ok ev" if "ev \<in> set ops" "node_address ?cr ev \<in> node_keys A" for ev
    using that same getA by (auto simp: node_keys_iff)
  have "map_of ns h = Some ev \<longleftrightarrow> map_of N h = Some ev" for h ev
    unfolding parts(1) getN using vA by auto
  then show nsN: "map_of ns = map_of N" by (metis ext not_None_eq)
  have dA: "distinct (map fst A)" by (simp add: A_def distinct_acl_nodes)
  have disj: "node_keys A \<inter> node_keys suffix = {}" using parts(2) by (auto simp: node_keys_iff)
  then show "distinct (map fst (A @ suffix))" using dA parts(4) by (auto simp: node_keys_def)
  have "node_keys ns \<subseteq> node_keys A \<union> node_keys suffix" "node_keys suffix \<subseteq> node_keys ns"
    using parts(1,2) vA by (auto simp: node_keys_iff)
  then have sub: "node_keys A \<subseteq> node_keys ns"
    using length_test parts(3,4) dA disj len by blast
  have "map_of N h = (case map_of A h of None \<Rightarrow> map_of suffix h | Some ev \<Rightarrow> Some ev)" for h
  proof (cases "h \<in> node_keys A")
    case True
    then have "h \<in> node_keys ns" using sub by blast
    with True obtain ev ev' where ev: "map_of ns h = Some ev" "map_of A h = Some ev'" by (auto simp: node_keys_iff)
    have "ev \<in> set ops" "node_address ?cr ev = h" using ev(1) parts(1) [of h ev] by simp_all
    with same [of ev ev'] ev(2) have "ev' = ev" by simp
    with ev nsN show ?thesis by simp
  next
    case False
    then have "map_of N h = Some ev \<longleftrightarrow> map_of suffix h = Some ev" for ev unfolding getN parts(2) by auto
    then have "map_of N h = map_of suffix h" by (metis not_None_eq)
    with False show ?thesis by (auto simp: node_keys_iff split: option.splits)
  qed
  then show "map_of N = map_of (A @ suffix)" by (intro ext) (simp add: map_add_def)
qed

lemma suffix_dominates_spec:
  assumes "distinct (map fst A)" "suffix_dominates (heads_of A) (node_keys A) ns suffix"
  shows "dominates A suffix"
  unfolding dominates_def
proof (intro allI impI)
  fix b n assume b: "map_of suffix b = Some n"
  have heads: "set (heads_of A) = dag_heads A" using heads_of_spec [OF assms(1)] by blast
  have "(b, n) \<in> set suffix" using b by (rule map_of_SomeD)
  with assms(2) have "(list_ex (\<lambda>p. map_of suffix p = None \<or> p \<in> node_keys A) (sn_parents n) \<or> sn_parents n = [])
      \<longrightarrow> set (heads_of A) \<subseteq> set (sn_parents n)"
    by (auto simp: suffix_dominates_def list_all_iff Let_def)
  then show "dag_heads A \<subseteq> set (sn_parents n) \<or> (\<exists>p \<in> set (sn_parents n). p \<in> node_keys suffix)"
    unfolding heads by (cases "sn_parents n") (auto simp: list_ex_iff node_keys_iff)
qed

lemma prior_ancestors:
  assumes "node_keys A \<inter> node_keys B = {}" "acyclic (causes (A @ B))" "dominates A B" "h \<in> node_keys A"
  shows "(x, h) \<in> (causes (A @ B))\<^sup>+ \<longleftrightarrow> (x, h) \<in> (causes A)\<^sup>+"
proof
  note prior = causes_append_prior [OF assms(1-3)]
  show "(x, h) \<in> (causes A)\<^sup>+ \<Longrightarrow> (x, h) \<in> (causes (A @ B))\<^sup>+"
    using trancl_mono [OF _ causes_append_left] .
  assume "(x, h) \<in> (causes (A @ B))\<^sup>+"
  then have "(x, h) \<in> (causes A)\<^sup>+ \<and> x \<in> node_keys A"
    using assms(4)
  proof (induction rule: converse_trancl_induct)
    case (base y)
    then show ?case using prior [of h y] causes_keys by blast
  next
    case (step y z)
    then show ?case using prior [of z y] causes_keys by (meson trancl_into_trancl2)
  qed
  then show "(x, h) \<in> (causes A)\<^sup>+" ..
qed

lemma pass1_run_extend:
  assumes d: "distinct (map fst (A @ B))" and ac: "acyclic (causes (A @ B))" and dom: "dominates A B"
    and speaks: "device_speaks_for env (g_space g) evs0 = device_speaks_for env (g_space g) evs"
  shows "pass1_run env g evs (A @ B) =
     fold (pass1_step env g evs (A @ B) (compute_ancestors (A @ B))) (topo_order B) (pass1_run env g evs0 A)"
proof -
  have disj: "node_keys A \<inter> node_keys B = {}" and dA: "distinct (map fst A)" using d by (auto simp: node_keys_def)
  have "fold (pass1_step env g evs (A @ B) (compute_ancestors (A @ B))) (topo_order A) (initial_pass1 g, []) =
      fold (pass1_step env g evs0 A (compute_ancestors A)) (topo_order A) (initial_pass1 g, [])"
  proof (rule fold_cong_set, rule pass1_step_cong)
    fix h assume "h \<in> set (topo_order A)"
    then have h: "h \<in> node_keys A" using topo_order_perm [OF dA] by simp
    then show "map_of (A @ B) h = map_of A h" by (auto simp: map_add_def node_keys_iff)
    show "anc_contains (compute_ancestors (A @ B)) h mh = anc_contains (compute_ancestors A) h mh" for mh
      by (simp add: anc_contains_iff prior_ancestors [OF disj ac dom h])
  qed (simp add: speaks)
  then show ?thesis
    unfolding pass1_run_def topo_order_extend [OF d ac dom] by simp
qed

lemma resume_is_run:
  "resume_pass1 (checkpoint_of env g ns anc (pass1_run env g evs ns)) = fst (pass1_run env g evs ns)"
  using pass1_policy_agrees [of env g evs ns]
  by (simp add: resume_pass1_def checkpoint_of_def member_admission_def materialize_phases)

lemma same_addresses:
  assumes "one_per_address cr (es @ es')" "node_address cr ` set es = node_address cr ` set es'"
  shows "set es = set es'"
proof -
  have inj: "inj_on (node_address cr) (set es \<union> set es')"
    using assms(1) unfolding one_per_address_def inj_on_def by auto
  then show ?thesis using inj_on_image_eq_iff [OF inj] assms(2) by auto
qed

lemma prior_verdicts:
  "map fst (cp_verdicts (fst (replay_checkpointed env g evs ops))) = topo_order (acl_nodes env g ops)"
  using pass1_verdicts [of env g evs "acl_nodes env g ops" "compute_ancestors (acl_nodes env g ops)"
      "topo_order (acl_nodes env g ops)" "(initial_pass1 g, [])"]
  by (simp add: replay_checkpointed_run checkpoint_of_def pass1_run_def)

section \<open>Sponsorship\<close>

text \<open>No actor that sponsors an agent is itself the subject of a sponsorship.\<close>

definition chain_free :: "(string \<Rightarrow> acl_op option) \<Rightarrow> string list \<Rightarrow> bool" where
  "chain_free decoded auth \<longleftrightarrow>
     (\<forall>h \<in> set auth. \<forall>h' \<in> set auth. \<forall>op op' a a' gs gs'.
        decoded h = Some op \<longrightarrow> op_action op = AddAgent a gs \<longrightarrow>
        decoded h' = Some op' \<longrightarrow> op_action op' = AddAgent a' gs' \<longrightarrow> op_by op \<noteq> a')"

lemma folded_agents:
  "map_of (m_agents (mat_folded g decoded auth)) a = Some s \<Longrightarrow>
     \<exists>h \<in> set auth. \<exists>op gs. decoded h = Some op \<and> op_action op = AddAgent a gs \<and> op_by op = s"
proof (induction auth arbitrary: a s rule: rev_induct)
  case Nil
  then show ?case by (simp add: mat_folded_def initial_mat_def)
next
  case (snoc h auth)
  have step: "mat_folded g decoded (auth @ [h]) = mat_step decoded h (mat_folded g decoded auth)"
    by (simp add: mat_folded_def)
  have "map_of (m_agents (mat_folded g decoded auth)) a = Some s \<or>
      (\<exists>op gs. decoded h = Some op \<and> op_action op = AddAgent a gs \<and> op_by op = s)"
    using snoc.prems unfolding step
    by (auto simp: mat_step_def mat_op_def spend_nonce_def bm_get_insert bm_get_remove
        split: option.splits acl_action.splits if_splits)
  with snoc.IH show ?case by auto
qed

lemma sponsor_standing:
  assumes "chain_free decoded auth" "sponsor_of (materialize_authorized g decoded anc auth) a = Some s"
  shows "is_member (materialize_authorized g decoded anc auth) s"
proof -
  let ?m = "mat_evicted g decoded anc auth"
  have fold: "map_of (m_agents ?m) x = Some y \<Longrightarrow> map_of (m_agents (mat_folded g decoded auth)) x = Some y" for x y
    by (auto simp: evicted_get split: if_splits)
  have "map_of (m_agents ?m) s = None" if "map_of (m_agents ?m) b = Some s" for b
  proof (rule ccontr)
    assume "map_of (m_agents ?m) s \<noteq> None"
    then obtain y where "map_of (m_agents ?m) s = Some y" by blast
    with folded_agents [OF fold] folded_agents [OF fold [OF that]] assms(1) show False
      unfolding chain_free_def by blast
  qed
  with cascade_sponsor [of ?m a s] assms(2) show ?thesis
    by (auto simp: sponsor_of_def is_member_def bm_contains_def materialize_phases)
qed

section \<open>Properties\<close>

definition demo_space_codec :: actor_codec where
  "demo_space_codec b =
     (if b \<in> {''0'', ''1'', ''2'', ''3''} then Some (Incept ''w'' ''n'' [demo_binding (hd b)] None) else None)"

definition demo_space_actors :: "signed_node list" where
  "demo_space_actors = map (\<lambda>c. demo_event [c] c []) ''0123''"

definition demo_env :: "acl_codec \<Rightarrow> plane_env" where
  "demo_env c = \<lparr>pe_crypto = demo_crypto, pe_actor = demo_space_codec, pe_acl = c\<rparr>"

definition demo_founder :: genesis where
  "demo_founder = \<lparr>g_space = ''w'', g_founding = [''act_0''], g_salt = [], g_recovery_root = []\<rparr>"

definition demo_acl_codec :: acl_codec where
  "demo_acl_codec b =
     (if b = ''a'' then Some (demo_op (CHR ''0'') (AddMember ''act_1'' [Write]))
      else if b = ''b'' then Some (demo_op (CHR ''0'') (AddMember ''act_2'' [Write]))
      else if b = ''c'' then Some (demo_op (CHR ''1'') (AddAgent ''act_3'' [Write]))
      else if b = ''d'' then Some (demo_op (CHR ''0'') (RemoveMember ''act_1''))
      else if b = ''e'' then Some (demo_op (CHR ''2'') (AddAgent ''act_1'' [Write]))
      else if b = ''f'' then Some (demo_op (CHR ''0'') (RemoveMember ''act_2''))
      else if b = ''m'' then Some (demo_op (CHR ''0'') (MintEpoch ''i'' 0 ''k'' []))
      else if b = ''o'' then Some (demo_op (CHR ''0'') (SetMemberAdmission True))
      else if b = ''g'' then Some (demo_op (CHR ''0'') (GrantDelegation ''s'' ''act_1''
             (capability_new ''w'' ''edit'') (resource_root ''w'') ''s''))
      else if b = ''x'' then Some (demo_op (CHR ''1'') (AddMember ''act_0'' []))
      else None)"

abbreviation demo_plane :: plane_env where
  "demo_plane \<equiv> demo_env demo_acl_codec"

fun demo_chain :: "string \<Rightarrow> (char \<times> char) list \<Rightarrow> signed_node list" where
  \<comment> \<open>a chain of operations, each by the given device and on top of the previous one\<close>
  "demo_chain prev [] = []"
| "demo_chain prev ((o', d) # rest) =
     demo_event [o'] d (if prev = [] then [] else [prev]) # demo_chain [o'] rest"

definition demo_acl_log :: "signed_node list" where
  "demo_acl_log = demo_chain [] [(CHR ''a'', CHR ''0''), (CHR ''c'', CHR ''1'')]"

lemma demo_acl_nodes:
  "acl_nodes demo_plane demo_founder demo_acl_log =
     [(''a'', demo_event ''a'' (CHR ''0'') []), (''c'', demo_event ''c'' (CHR ''1'') [''a''])]"
  by code_simp

lemma demo_acl_acyclic: "acyclic (causes (acl_nodes demo_plane demo_founder demo_acl_log))"
  by (rule acyclicI_order [where f = "\<lambda>h. if h = ''a'' then 1 else 0 :: nat"])
    (auto simp: demo_acl_nodes causes_iff demo_event_def split: if_splits)

lemma demo_acl_one_per_address:
  "one_per_address demo_crypto demo_acl_log" "one_per_address demo_crypto demo_space_actors"
  by (auto simp: one_per_address_def demo_acl_log_def demo_space_actors_def node_address_def demo_crypto_def demo_event_def)


text \<open>C1: the strict-descendant continuation is the complete replay. Whenever \<open>replay_continue\<close>
  accepts to extend the checkpoint of an earlier complete replay, it returns exactly the checkpoint
  and the audit trail the complete replay of all operations would: state, verdicts, heads, standing,
  epoch generations and policy. This is provided the parent links are acyclic, and the operations of the two
  replays together hold at most one node per content address, and their actor events too. The continuation
  compares events and earlier operations by their address alone, which covers neither the signature nor the
  borders between operation, author and parents, so this is more than collision resistance of the hash; the
  replays of one ledger have it, because it keeps verified effects in a map by their address and never
  replaces one.\<close>

theorem replay_continue_is_complete_replay:
  assumes "replay_continue env prior hashes g evs ops = Some result"
    and "prior = fst (replay_checkpointed env g evs0 ops0)" "hashes = set (map (node_address (pe_crypto env)) evs0)"
    and "one_per_address (pe_crypto env) (ops0 @ ops)" "one_per_address (pe_crypto env) (evs0 @ evs)"
    and "acyclic (causes (acl_nodes env g ops))"
  shows "result = replay_checkpointed env g evs ops"
proof -
  let ?A = "acl_nodes env g ops0" and ?N = "acl_nodes env g ops"
  have dA: "distinct (map fst ?A)" and dN: "distinct (map fst ?N)" by (rule distinct_acl_nodes)+
  have verdicts: "map fst (cp_verdicts prior) = topo_order ?A" using prior_verdicts assms(2) by simp
  have keys: "set (map fst (cp_verdicts prior)) = node_keys ?A"
    unfolding verdicts using topo_order_perm [OF dA] by simp
  have len: "length (cp_verdicts prior) = length ?A"
    using verdicts topo_order_perm [OF dA] card_node_keys [OF dA] by (metis distinct_card length_map)
  obtain ns suffix where split: "split_ops env (g_space g) (node_keys ?A) ops = (ns, suffix)" by force
  define pv where "pv = fold (pass1_step env g evs ns (compute_ancestors ns)) (topo_order suffix)
      (resume_pass1 prior, cp_verdicts prior)"
  have ok: "hashes = set (map (node_address (pe_crypto env)) evs)" "length ns = length ?A + length suffix"
    "suffix_dominates (cp_heads prior) (node_keys ?A) ns suffix"
    "result = (checkpoint_of env g ns (compute_ancestors ns) pv, audit_of (pe_acl env) ns (snd pv))"
    using assms(1) unfolding replay_continue_def keys len split Let_def pv_def by (auto split: if_splits)
  note ext = split_ops_extends [OF split ok(2) assms(4)]
  have dns: "distinct (map fst ns)" using split_ops_get(3) [OF split one_per_address_mono [OF assms(4)]] by simp
  have dom: "dominates ?A suffix"
    using suffix_dominates_spec [OF dA] ok(3) assms(2) by (simp add: replay_checkpointed_run checkpoint_of_def)
  have ac: "acyclic (causes (?A @ suffix))" using assms(6) causes_cong [OF ext(2)] by simp
  have "set evs0 = set evs" using same_addresses [OF assms(5)] ok(1) assms(3) by simp
  then have speaks: "device_speaks_for env (g_space g) evs0 = device_speaks_for env (g_space g) evs"
    using assms(5) by (intro speaks_cong) (auto intro: one_per_address_mono)
  have prior: "(resume_pass1 prior, cp_verdicts prior) = pass1_run env g evs0 ?A"
    by (simp add: assms(2) replay_checkpointed_run resume_is_run) (simp add: checkpoint_of_def)
  have nsN: "map_of ns = map_of (?A @ suffix)" using ext by simp
  have "pv = fold (pass1_step env g evs (?A @ suffix) (compute_ancestors (?A @ suffix))) (topo_order suffix)
      (pass1_run env g evs0 ?A)"
    unfolding pv_def prior
    by (rule fold_cong_set, rule pass1_step_cong) (simp_all only: nsN anc_contains_cong [OF nsN])
  also have "\<dots> = pass1_run env g evs (?A @ suffix)"
    using pass1_run_extend [OF ext(3) ac dom speaks] by simp
  also have "\<dots> = pass1_run env g evs ?N"
    using pass1_run_cong [OF dN ext(3,2) refl] by simp
  finally have pv: "pv = pass1_run env g evs ?N" .
  show ?thesis
    unfolding replay_checkpointed_run ok(4) pv
    using checkpoint_cong [OF dns dN ext(1)] by simp
qed

theorem replay_continue_is_complete_replay_witness:
  "replay_continue demo_plane (fst (replay_checkpointed demo_plane demo_founder demo_space_actors (take 1 demo_acl_log)))
     (set (map (node_address demo_crypto) demo_space_actors)) demo_founder demo_space_actors demo_acl_log =
   Some (replay_checkpointed demo_plane demo_founder demo_space_actors demo_acl_log)"
proof -
  have cr: "pe_crypto demo_plane = demo_crypto" by (simp add: demo_env_def)
  obtain result where r: "replay_continue demo_plane
      (fst (replay_checkpointed demo_plane demo_founder demo_space_actors (take 1 demo_acl_log)))
      (set (map (node_address demo_crypto) demo_space_actors)) demo_founder demo_space_actors demo_acl_log = Some result"
  proof -
    have "replay_continue demo_plane
      (fst (replay_checkpointed demo_plane demo_founder demo_space_actors (take 1 demo_acl_log)))
      (set (map (node_address demo_crypto) demo_space_actors)) demo_founder demo_space_actors demo_acl_log \<noteq> None"
      by code_simp
    then show thesis using that by blast
  qed
  have "result = replay_checkpointed demo_plane demo_founder demo_space_actors demo_acl_log"
  proof (rule replay_continue_is_complete_replay [OF r])
    show "one_per_address (pe_crypto demo_plane) (take 1 demo_acl_log @ demo_acl_log)"
      "one_per_address (pe_crypto demo_plane) (demo_space_actors @ demo_space_actors)"
      unfolding cr
      by (rule one_per_address_mono [OF demo_acl_one_per_address(1)], auto dest: in_set_takeD)
        (rule one_per_address_mono [OF demo_acl_one_per_address(2)], auto)
  qed (simp_all add: cr demo_acl_acyclic)
  with r show ?thesis by simp
qed

text \<open>C2: replicas converge. Two replicas that hold the same verified operations and the same verified actor
  events, in any order, with any duplicates and beside anything that does not verify, derive the same
  checkpoint and the same audit trail, provided the verified operations hold at most one node per content
  address, and the verified actor events too. The address covers neither the signature nor the borders between
  operation, author and parents, so this is more than collision resistance of the hash; a replica's ledger has
  it, because it keeps verified effects in a map by their address.\<close>

theorem acl_replay_converges:
  assumes "set (verified env ACL_DOMAIN g ops) = set (verified env ACL_DOMAIN g ops')"
    and "one_per_address (pe_crypto env) (verified env ACL_DOMAIN g ops)"
    and "set (verified env ACTOR_DOMAIN g evs) = set (verified env ACTOR_DOMAIN g evs')"
    and "one_per_address (pe_crypto env) (verified env ACTOR_DOMAIN g evs)"
  shows "replay_checkpointed env g evs ops = replay_checkpointed env g evs' ops'"
proof -
  have "map_of (acl_nodes env g (verified env ACL_DOMAIN g ops)) = map_of (acl_nodes env g (verified env ACL_DOMAIN g ops'))"
    unfolding acl_nodes_def using assms(1,2) by (intro index_nodes_same) (auto simp: one_per_address_def)
  then have same: "map_of (acl_nodes env g ops) = map_of (acl_nodes env g ops')"
    by (simp add: acl_nodes_def index_nodes_verified)
  have "device_speaks_for env (g_space g) evs = device_speaks_for env (g_space g) evs'"
    using speaks_cong [OF assms(3,4), of "g_space g"] by (simp add: speaks_verified)
  then have "pass1_run env g evs (acl_nodes env g ops) = pass1_run env g evs' (acl_nodes env g ops')"
    by (rule pass1_run_cong [OF distinct_acl_nodes distinct_acl_nodes same])
  then show ?thesis
    unfolding replay_checkpointed_run
    using checkpoint_cong [OF distinct_acl_nodes distinct_acl_nodes same] by simp
qed

theorem acl_replay_converges_witness:
  "replay_checkpointed demo_plane demo_founder demo_space_actors demo_acl_log =
   replay_checkpointed demo_plane demo_founder (rev demo_space_actors)
     (rev demo_acl_log @ [(hd demo_acl_log)\<lparr>sn_sig := []\<rparr>])"
proof -
  have forged: "\<not> verify_sig cr domain ws (n\<lparr>sn_sig := []\<rparr>)" for cr domain ws n
    by (simp add: verify_sig_def split: option.splits)
  show ?thesis
    by (rule acl_replay_converges)
      (auto simp: demo_env_def forged intro: demo_acl_one_per_address [THEN one_per_address_mono])
qed

text \<open>C7: epoch generations cannot jump. In every replay the generation an authorized mint claims is at
  most the number of authorized mints among its causal ancestors.\<close>

theorem epoch_generation_bounded:
  assumes "acyclic (causes (acl_nodes env g ops))"
    and "map_of (cp_epoch_gens (fst (replay_checkpointed env g evs ops))) mint = Some gen"
  shows "unat gen \<le> card {m \<in> bm_keys (cp_epoch_gens (fst (replay_checkpointed env g evs ops))).
     (m, mint) \<in> (causes (acl_nodes env g ops))\<^sup>+}"
  using pass1_run_gens [of "acl_nodes env g ops" env g evs] assms
  by (simp add: gens_bounded_def mints_before_def replay_checkpointed_run checkpoint_of_def)

theorem epoch_generation_bounded_witness:
  "map_of (cp_epoch_gens (fst (replay_checkpointed demo_plane demo_founder demo_space_actors
      [demo_event ''m'' (CHR ''0'') []]))) ''m'' = Some 0 \<and>
   unat (0 :: u32) \<le> card {m \<in> bm_keys (cp_epoch_gens (fst (replay_checkpointed demo_plane demo_founder demo_space_actors
      [demo_event ''m'' (CHR ''0'') []]))).
        (m, ''m'') \<in> (causes (acl_nodes demo_plane demo_founder [demo_event ''m'' (CHR ''0'') []]))\<^sup>+}"
proof -
  have ns: "acl_nodes demo_plane demo_founder [demo_event ''m'' (CHR ''0'') []] = [(''m'', demo_event ''m'' (CHR ''0'') [])]"
    by code_simp
  have ac: "acyclic (causes (acl_nodes demo_plane demo_founder [demo_event ''m'' (CHR ''0'') []]))"
    unfolding ns
    by (rule acyclicI_order [where f = "\<lambda>_. 0 :: nat"]) (auto simp: causes_iff demo_event_def split: if_splits)
  have m: "map_of (cp_epoch_gens (fst (replay_checkpointed demo_plane demo_founder demo_space_actors
      [demo_event ''m'' (CHR ''0'') []]))) ''m'' = Some 0"
    by code_simp
  from epoch_generation_bounded [OF ac m] m show ?thesis by blast
qed

text \<open>The standing of every replay is well formed. Administrators are human members, no agent is a
  human member, and every sponsor of an agent is a human member.\<close>

theorem replay_standing_invariant:
  "cp_admins (fst (replay_checkpointed env g evs ops)) \<subseteq> cp_humans (fst (replay_checkpointed env g evs ops)) \<and>
   bm_keys (cp_agents_now (fst (replay_checkpointed env g evs ops))) \<inter>
     cp_humans (fst (replay_checkpointed env g evs ops)) = {} \<and>
   snd ` set (cp_agents_now (fst (replay_checkpointed env g evs ops))) \<subseteq>
     cp_humans (fst (replay_checkpointed env g evs ops))"
proof -
  have wf: "pass1_wf (fst (pass1_run env g evs (acl_nodes env g ops)))" by (rule pass1_run_wf)
  then have "snd ` set (p1_agents (fst (pass1_run env g evs (acl_nodes env g ops)))) \<subseteq>
      p1_humans (fst (pass1_run env g evs (acl_nodes env g ops)))"
    by (auto simp: pass1_wf_def bm_get_iff)
  with wf show ?thesis by (simp add: replay_checkpointed_run checkpoint_of_def pass1_wf_def)
qed

text \<open>An agent of the replayed state is a member and never an administrator.\<close>

theorem agents_never_administer:
  assumes "is_agent (acl_replay env g evs ops) a"
  shows "is_member (acl_replay env g evs ops) a \<and> \<not> is_admin (acl_replay env g evs ops) a"
proof -
  have "agents_inv (sponsor_cascade (mat_evicted g (op_at (pe_acl env) (acl_nodes env g ops))
      (compute_ancestors (acl_nodes env g ops)) (authorized_of (snd (pass1_run env g evs (acl_nodes env g ops))))))"
    by (rule agents_inv_final [OF authorized_sponsorable])
  with assms show ?thesis
    unfolding agents_inv_def
    by (auto simp: acl_replay_def replay_checkpointed_run checkpoint_of_def is_agent_def is_member_def is_admin_def
        bm_contains_def materialize_phases)
qed

theorem agents_never_administer_witness:
  "is_agent (acl_replay demo_plane demo_founder demo_space_actors demo_acl_log) ''act_3'' \<and>
   \<not> is_admin (acl_replay demo_plane demo_founder demo_space_actors demo_acl_log) ''act_3''"
proof -
  have a: "is_agent (acl_replay demo_plane demo_founder demo_space_actors demo_acl_log) ''act_3''" by code_simp
  from agents_never_administer [OF a] a show ?thesis by blast
qed

text \<open>Where no sponsor is itself sponsored, every agent's sponsor is a member: agents fall with
  their sponsors, whatever evicted them.\<close>

theorem agents_fall_with_sponsors:
  assumes "chain_free (op_at (pe_acl env) (acl_nodes env g ops))
      (authorized_of (cp_verdicts (fst (replay_checkpointed env g evs ops))))"
    and "sponsor_of (acl_replay env g evs ops) a = Some s"
  shows "is_member (acl_replay env g evs ops) s"
  using assms sponsor_standing
  by (simp add: acl_replay_def replay_checkpointed_run checkpoint_of_def)

theorem agents_fall_with_sponsors_witness:
  "sponsor_of (acl_replay demo_plane demo_founder demo_space_actors demo_acl_log) ''act_3'' = Some ''act_1'' \<and>
   is_member (acl_replay demo_plane demo_founder demo_space_actors demo_acl_log) ''act_1''"
proof -
  have s: "sponsor_of (acl_replay demo_plane demo_founder demo_space_actors demo_acl_log) ''act_3'' = Some ''act_1''"
    by code_simp
  have "authorized_of (cp_verdicts (fst (replay_checkpointed demo_plane demo_founder demo_space_actors demo_acl_log))) =
      [''a'', ''c'']"
    by code_simp
  moreover have "op_at (pe_acl demo_plane) (acl_nodes demo_plane demo_founder demo_acl_log) ''a'' =
      Some (demo_op (CHR ''0'') (AddMember ''act_1'' [Write]))"
    "op_at (pe_acl demo_plane) (acl_nodes demo_plane demo_founder demo_acl_log) ''c'' =
      Some (demo_op (CHR ''1'') (AddAgent ''act_3'' [Write]))"
    by code_simp+
  ultimately have "chain_free (op_at (pe_acl demo_plane) (acl_nodes demo_plane demo_founder demo_acl_log))
      (authorized_of (cp_verdicts (fst (replay_checkpointed demo_plane demo_founder demo_space_actors demo_acl_log))))"
    by (auto simp: chain_free_def demo_op_def)
  from agents_fall_with_sponsors [OF this s] s show ?thesis by blast
qed

text \<open>Policy administration of the replayed state. The materialized policy is the pass-1 policy of
  the checkpoint, and an actor is a policy administrator exactly when it is a member that is a founder
  or holds an unrevoked grant of the policy-admin meta-capability.\<close>

theorem policy_admins_exact:
  "st_policy (acl_replay env g evs ops) = cp_policy (fst (replay_checkpointed env g evs ops)) \<and>
   (is_policy_admin (acl_replay env g evs ops) a \<longleftrightarrow>
      is_member (acl_replay env g evs ops) a \<and>
      (a \<in> set (g_founding g) \<or> holds_meta (cp_policy (fst (replay_checkpointed env g evs ops))) a))"
  using pass1_policy_agrees [of env g evs "acl_nodes env g ops"]
  by (simp add: acl_replay_def replay_checkpointed_run checkpoint_of_def is_policy_admin_def is_member_def
      materialize_phases policy_admins_iff)

section \<open>A seated administrator re-added by a delegate\<close>

text \<open>C39: member-driven admission can end a space's administration. In any replay, let an operation stand where
  member admission is on, its author is a human member with a delegation but need not be an administrator, a
  device that speaks for the author signed it, and it is an \<open>AddMember\<close>, without the \<open>Admin\<close> grant, of the
  actor who is the only administrator. The operation is authorized, and whatever follows it, the replayed space
  has no administrator: the comment of \<open>judge_op\<close> has it that a member never re-roles the seated.\<close>

theorem delegate_ends_administration:
  fixes env g evs ops
  defines "ns \<equiv> acl_nodes env g ops"
  assumes "topo_order ns = before @ h # after" "op_at (pe_acl env) ns h = Some op"
    and "p = fst (fold (pass1_step env g evs ns (compute_ancestors ns)) before (initial_pass1 g, []))"
    and "device_speaks_for env (g_space g) evs (author_at ns h) (op_by op) (op_asof op)"
    and "p1_admission p" "op_by op \<in> p1_humans p" "holds_any_delegation (p1_policy p) (op_by op)"
    and "op_action op = AddMember target grants" "Admin \<notin> set grants" "p1_admins p = {target}"
  shows "(h, True) \<in> set (cp_verdicts (fst (replay_checkpointed env g evs ops))) \<and>
    cp_admins (fst (replay_checkpointed env g evs ops)) = {} \<and> (\<forall>a. \<not> is_admin (acl_replay env g evs ops) a)"
proof -
  let ?step = "pass1_step env g evs ns (compute_ancestors ns)"
  obtain v where v: "fold ?step before (initial_pass1 g, []) = (p, v)" using assms(4) by (metis prod.collapse)
  have "pass1_wf p"
    using standing.pass1_fold [OF refl refl, of "(initial_pass1 g, [])"] pass1_wf_initial assms(4) by simp
  then have "\<not> bm_contains (p1_agents p) (op_by op)" using assms(7) by (auto simp: pass1_wf_def bm_contains_iff bm_keys_def)
  then have "judge_op (pe_crypto env) (set (g_founding g)) (compute_ancestors ns) op h p"
    using assms(6-10) by (simp add: judge_op_def)
  then have step: "?step h (p, v) = (apply_authorized op h p, v @ [(h, True)])"
    using assms(3,5) by (simp add: pass1_step_def verdict_def)
  have run: "pass1_run env g evs ns = fold ?step after (apply_authorized op h p, v @ [(h, True)])"
    unfolding pass1_run_def assms(2) by (simp add: v step)
  have "p1_admins (apply_authorized op h p) = {}" using assms(9-11) by (simp add: apply_authorized_def seat_human_def)
  then have none: "cp_admins (fst (replay_checkpointed env g evs ops)) = {}"
    using leaderless.pass1_fold [OF refl refl, of "(apply_authorized op h p, v @ [(h, True)])"] run
    by (simp add: replay_checkpointed_run checkpoint_of_def ns_def)
  have "(h, True) \<in> set (cp_verdicts (fst (replay_checkpointed env g evs ops)))"
    using verdicts_kept [of "v @ [(h, True)]" env g evs ns "compute_ancestors ns" after "apply_authorized op h p"] run
    by (auto simp: replay_checkpointed_run checkpoint_of_def ns_def)
  with none replayed_admin_standing show ?thesis by blast
qed

text \<open>The founder admits actor 1, opens member admission and delegates an edit capability to actor 1, who
  re-adds the founder without grants.\<close>

definition demotion_log :: "signed_node list" where
  "demotion_log = demo_chain [] [(CHR ''a'', CHR ''0''), (CHR ''o'', CHR ''0''), (CHR ''g'', CHR ''0''), (CHR ''x'', CHR ''1'')]"

definition demotion_pass :: pass1 where
  "demotion_pass = fst (fold (pass1_step demo_plane demo_founder (take 2 demo_space_actors)
       (acl_nodes demo_plane demo_founder demotion_log) (compute_ancestors (acl_nodes demo_plane demo_founder demotion_log)))
     [''a'', ''o'', ''g''] (initial_pass1 demo_founder, []))"

lemma demotion_facts:
  "topo_order (acl_nodes demo_plane demo_founder demotion_log) = [''a'', ''o'', ''g''] @ ''x'' # []"
  "op_at (pe_acl demo_plane) (acl_nodes demo_plane demo_founder demotion_log) ''x'' = Some (demo_op (CHR ''1'') (AddMember ''act_0'' []))"
  "device_speaks_for demo_plane (g_space demo_founder) (take 2 demo_space_actors)
     (author_at (acl_nodes demo_plane demo_founder demotion_log) ''x'') ''act_1'' [''1'']"
  by code_simp+

lemma demotion_standing:
  "let p = demotion_pass in p1_admission p \<and> ''act_1'' \<in> p1_humans p \<and>
     holds_any_delegation (p1_policy p) ''act_1'' \<and> p1_admins p = {''act_0''}"
  by code_simp

theorem delegate_ends_administration_witness:
  "p1_admins demotion_pass = {''act_0''} \<and>
   (\<forall>a. \<not> is_admin (acl_replay demo_plane demo_founder (take 2 demo_space_actors) demotion_log) a)"
  using delegate_ends_administration [OF demotion_facts(1,2) demotion_pass_def, where target = "''act_0''" and grants = "[]"]
    demotion_facts(3) demotion_standing
  by (simp add: demo_op_def Let_def)

section \<open>A run that contradicts a comment\<close>

text \<open>The sponsor cascade runs once, on the stated ground that sponsors are never agents. Here actor 1
  sponsors agent 3, is removed, and comes back as the agent of actor 2, who is then removed: agent 3
  stays a member with content authority while its sponsor is not a member.\<close>

lemma orphaned_agent_survives:
  "(let s = acl_replay demo_plane demo_founder (take 3 demo_space_actors)
       (demo_chain [] [(CHR ''a'', CHR ''0''), (CHR ''b'', CHR ''0''), (CHR ''c'', CHR ''1''),
          (CHR ''d'', CHR ''0''), (CHR ''e'', CHR ''2''), (CHR ''f'', CHR ''0'')])
    in sponsor_of s ''act_3'' = Some ''act_1'' \<and> can_write s ''act_3'' \<and> \<not> is_member s ''act_1'')"
  by code_simp

end
