(* ===== verification/DemandCodec.thy ===== *)
theory DemandCodec
  imports Demand
begin

text \<open>
  The canonical encoding of a demand (\<^verbatim>\<open>AuthorizationDemand::encode_canonical\<close> and
  \<^verbatim>\<open>decode_canonical\<close> in \<^verbatim>\<open>crates/mechanics/src/demand.rs\<close>) loses nothing of what the demand
  asks: what the encoder writes the strict decoder reads back, as a demand with the same meaning.

  \<open>holds\<close> is the meaning: whether a demand is satisfied when the leaves in \<open>P\<close> are granted. The
  induction follows the encoder; \<open>canonical\<close> says of some bytes that they decode, at any value of the
  leaf counter that leaves room, and that the decoded demand encodes to them again.
\<close>

section \<open>Meaning\<close>

fun holds :: "(policy_capability \<Rightarrow> resource \<Rightarrow> bool) \<Rightarrow> demand \<Rightarrow> bool" where
  "holds P (Require c r) = P c r"
| "holds P (All ds) = list_all (holds P) ds"
| "holds P (Any ds) = list_ex (holds P) ds"

fun utf8_demand :: "demand \<Rightarrow> bool" where
  \<comment> \<open>what the types of the source guarantee: segments are \<open>String\<close>s\<close>
  "utf8_demand (Require c r) = list_all from_utf8_ok (r_segments r)"
| "utf8_demand (All ds) = list_all utf8_demand ds"
| "utf8_demand (Any ds) = list_all utf8_demand ds"

fun group_of :: "bool \<Rightarrow> demand list \<Rightarrow> demand" where
  "group_of is_all ds = (if is_all then All ds else Any ds)"

fun tag_of :: "demand \<Rightarrow> char" where
  "tag_of (Require _ _) = TAG_REQUIRE"
| "tag_of (All _) = TAG_ALL"
| "tag_of (Any _) = TAG_ANY"

lemmas tag_defs = TAG_REQUIRE_def TAG_ALL_def TAG_ANY_def

lemma tags_distinct [simp]: "TAG_REQUIRE \<noteq> TAG_ALL" "TAG_REQUIRE \<noteq> TAG_ANY" "TAG_ALL \<noteq> TAG_ANY"
    "TAG_ALL \<noteq> TAG_REQUIRE" "TAG_ANY \<noteq> TAG_REQUIRE" "TAG_ANY \<noteq> TAG_ALL"
  by (simp_all add: tag_defs)

lemma holds_flatten: "holds P (group_of is_all (flatten is_all ds)) = holds P (group_of is_all ds)"
  by (induction is_all ds rule: flatten.induct) (auto split: if_splits)

lemma utf8_flatten: "list_all utf8_demand ds \<Longrightarrow> list_all utf8_demand (flatten is_all ds)"
  by (induction is_all ds rule: flatten.induct) auto

lemma flatten_tags: "d \<in> set (flatten is_all ds) \<Longrightarrow> tag_of d \<noteq> (if is_all then TAG_ALL else TAG_ANY)"
  by (induction is_all ds rule: flatten.induct) (auto split: if_splits)

lemma flatten_flat: "(\<forall>d \<in> set ds. tag_of d \<noteq> (if is_all then TAG_ALL else TAG_ANY)) \<Longrightarrow> flatten is_all ds = ds"
  by (induction is_all ds rule: flatten.induct) (auto split: if_splits)

section \<open>Reading back what was written\<close>

lemma from_be16_be16: "n < 65536 \<Longrightarrow> \<exists>a b. be16 n = [a, b] \<and> from_be16 a b = n"
  by (simp add: be16_def from_be16_def)

lemma be32_code [code]:
  "be32 n = (let a = n div 256; b = a div 256 in [char_of (b div 256), char_of b, char_of a, char_of n])"
  by (simp add: be32_def Let_def flip: div_mult2_eq)

lemma from_be32_be32: "n < 2 ^ 32 \<Longrightarrow> \<exists>a b c d. be32 n = [a, b, c, d] \<and> from_be32 a b c d = n"
proof -
  assume n: "n < 2 ^ 32"
  have d: "n div 65536 = n div 256 div 256" "n div 16777216 = n div 256 div 256 div 256"
    by (simp_all flip: div_mult2_eq)
  have "n div 256 div 256 div 256 < 256"
    using n unfolding d(2) [symmetric] by (intro less_mult_imp_div_less) simp
  then have "((n div 256 div 256 div 256 mod 256 * 256 + n div 256 div 256 mod 256) * 256 + n div 256 mod 256) * 256 + n mod 256 = n"
    by (simp only: mod_less div_mult_mod_eq)
  then show ?thesis by (simp add: be32_def from_be32_def d del: div_mult2_eq)
qed

lemma ascii_utf8: "list_all (\<lambda>c. (of_char c :: nat) < 128) s \<Longrightarrow> from_utf8_ok s"
  by (induction s) (simp_all add: from_utf8_ok_def)

lemma name_utf8: "valid_name s \<Longrightarrow> from_utf8_ok s"
proof (rule ascii_utf8)
  assume "valid_name s"
  then show "list_all (\<lambda>c. (of_char c :: nat) < 128) s"
    by (auto simp: valid_name_def list_all_iff less_eq_char_def)
qed

lemma read_text_push:
  assumes "length s < 65536" "from_utf8_ok s" "check s = Inr ()"
  shows "read_text check (push_str s @ rest) = Inr (s, rest)"
  using from_be16_be16 [OF assms(1)] assms(2,3) by (auto simp: read_text_def push_str_def)

lemma read_str_push: "valid_name s \<Longrightarrow> read_str (push_str s @ rest) = Inr (s, rest)"
  unfolding read_str_def
  by (rule read_text_push) (auto simp: name_utf8, simp add: valid_name_def MAX_NAME_BYTES_def)

definition segment_ok :: "string \<Rightarrow> bool" where
  "segment_ok s \<longleftrightarrow> s \<noteq> [] \<and> length s \<le> MAX_SEGMENT_BYTES \<and> s \<noteq> ''*''"

lemma read_segments_push:
  "list_all segment_ok segs \<Longrightarrow> list_all from_utf8_ok segs \<Longrightarrow>
     read_segments (length segs) (concat (map push_str segs) @ rest) = Inr (segs, rest)"
proof (induction segs)
  case (Cons s segs)
  then have "read_segment (push_str s @ concat (map push_str segs) @ rest) = Inr (s, concat (map push_str segs) @ rest)"
    unfolding read_segment_def by (intro read_text_push) (auto simp: segment_ok_def MAX_SEGMENT_BYTES_def)
  with Cons show ?case by simp
qed simp

lemma validate_segments_ok: "validate_segments segs acc = Inr n \<Longrightarrow> list_all segment_ok segs"
  by (induction segs arbitrary: acc) (auto simp: segment_ok_def split: if_splits)

lemma resource_validate_ok:
  "resource_validate r = Inr () \<Longrightarrow> length (r_segments r) \<le> MAX_RESOURCE_SEGMENTS \<and> list_all segment_ok (r_segments r)"
  by (auto simp: resource_validate_def result_simps dest: validate_segments_ok split: if_splits)

section \<open>Canonical bytes\<close>

definition canonical :: "nat \<Rightarrow> bytes \<Rightarrow> nat \<Rightarrow> demand \<Rightarrow> bool" where
  \<comment> \<open>\<open>b\<close> is the encoding of \<open>d\<close>, which has \<open>k\<close> leaves\<close>
  "canonical depth b k d \<longleftrightarrow> (\<forall>l. l + k \<le> MAX_REQUIRE_LEAVES \<longrightarrow>
     decode_node b depth l = Inr (d, [], l + k) \<and> encode_node depth d l = Inr (b, l + k))"

lemma encode_tag: "encode_node depth d l = Inr r \<Longrightarrow> take 1 (fst r) = [tag_of d]"
  by (cases d) (auto simp: result_simps encode_require_def encode_group_def Let_def split: if_splits)

lemma canonical_require:
  assumes "encode_node depth (Require c r) l = Inr (b, l')" "list_all from_utf8_ok (r_segments r)"
  shows "l' = l + 1 \<and> l' \<le> MAX_REQUIRE_LEAVES \<and> canonical depth b 1 (Require c r)"
proof -
  from assms(1) have enc: "depth \<le> MAX_DEMAND_DEPTH" "capability_validate c = Inr ()" "resource_validate r = Inr ()"
    "c_world c = r_world r" "b = encode_require c r" "l' = l + 1" "l + 1 \<le> MAX_REQUIRE_LEAVES"
    by (auto simp: result_simps not_less split: if_splits)
  have names: "valid_name (c_world c)" "valid_name (c_name c)"
    using enc(2) by (auto simp: capability_validate_def split: if_splits)
  note segs = resource_validate_ok [OF enc(3)]
  have k: "length (r_segments r) mod 256 = length (r_segments r)"
    using segs by (simp add: MAX_RESOURCE_SEGMENTS_def)
  have "decode_node b depth m = Inr (Require c r, [], m + 1)" if "m + 1 \<le> MAX_REQUIRE_LEAVES" for m
  proof -
    have "decode_require (push_str (c_world c) @ push_str (c_name c) @
        char_of (length (r_segments r)) # concat (map push_str (r_segments r))) m = Inr (Require c r, [], m + 1)"
      using read_segments_push [of "r_segments r" "[]"] segs assms(2) that names enc(4) [symmetric]
      by (simp add: decode_require_def read_str_push k not_less)
    then show ?thesis using enc(1) by (simp add: enc(5) encode_require_def)
  qed
  moreover have "encode_node depth (Require c r) m = Inr (b, m + 1)" if "m + 1 \<le> MAX_REQUIRE_LEAVES" for m
    using enc that by simp
  ultimately show ?thesis using enc(6,7) by (simp add: canonical_def)
qed

type_synonym child = "bytes \<times> nat \<times> demand"

abbreviation child_bytes :: "child \<Rightarrow> bytes" where "child_bytes t \<equiv> fst t"
abbreviation child_leaves :: "child \<Rightarrow> nat" where "child_leaves t \<equiv> fst (snd t)"
abbreviation child_demand :: "child \<Rightarrow> demand" where "child_demand t \<equiv> snd (snd t)"

definition child_ok :: "nat \<Rightarrow> child \<Rightarrow> bool" where
  "child_ok depth t \<longleftrightarrow> canonical depth (child_bytes t) (child_leaves t) (child_demand t)"

abbreviation leaf_sum :: "child list \<Rightarrow> nat" where "leaf_sum ts \<equiv> sum_list (map (\<lambda>t. fst (snd t)) ts)"

lemma encode_children_ok:
  assumes "list_all (child_ok depth) ts" "l + leaf_sum ts \<le> MAX_REQUIRE_LEAVES"
  shows "encode_children depth (map child_demand ts) l = Inr (map child_bytes ts, l + leaf_sum ts)"
  using assms
proof (induction ts arbitrary: l)
  case (Cons t ts)
  then have "encode_node depth (child_demand t) l = Inr (child_bytes t, l + child_leaves t)"
    by (simp add: child_ok_def canonical_def)
  with Cons show ?case by (simp add: add.assoc)
qed simp

lemma decode_children_ok:
  assumes "list_all (child_ok (depth + 1)) ts" "l + leaf_sum ts \<le> MAX_REQUIRE_LEAVES"
    and "\<And>t. t \<in> set ts \<Longrightarrow> take 1 (child_bytes t) \<noteq> [tag] \<and> length (child_bytes t) < 2 ^ 32"
    and "sorted_wrt (<) (map child_bytes ts)" "\<And>p t. prev = Some p \<Longrightarrow> t \<in> set ts \<Longrightarrow> p < child_bytes t"
  shows "decode_children tag (length ts) (concat (map (\<lambda>e. be32 (length e) @ e) (map child_bytes ts))) depth prev l =
    Inr (map child_demand ts, [], l + leaf_sum ts)"
  using assms
proof (induction ts arbitrary: l prev)
  case (Cons t ts)
  let ?e = "child_bytes t"
  obtain a b c d where len: "be32 (length ?e) = [a, b, c, d]" "from_be32 a b c d = length ?e"
    using from_be32_be32 [of "length ?e"] Cons.prems(3) [of t] by auto
  have node: "decode_node ?e (depth + 1) l = Inr (child_demand t, [], l + child_leaves t)"
    using Cons.prems(1,2) by (simp add: child_ok_def canonical_def)
  have "\<not> (case prev of None \<Rightarrow> False | Some p \<Rightarrow> ?e \<le> p)"
    using Cons.prems(5) [of _ t] by (cases prev) auto
  moreover have "decode_children tag (length ts) (concat (map (\<lambda>e. be32 (length e) @ e) (map child_bytes ts))) depth (Some ?e)
      (l + child_leaves t) = Inr (map child_demand ts, [], l + child_leaves t + leaf_sum ts)"
    using Cons.prems by (intro Cons.IH) auto
  ultimately show ?case
    using node Cons.prems(3) [of t] by (cases prev) (simp_all add: len Let_def add.assoc)
qed simp

abbreviation group_tag :: "bool \<Rightarrow> char" where "group_tag is_all \<equiv> (if is_all then TAG_ALL else TAG_ANY)"

definition frame_group :: "bool \<Rightarrow> bytes list \<Rightarrow> bytes" where
  "frame_group is_all es = group_tag is_all # be16 (length es) @ concat (map (\<lambda>e. be32 (length e) @ e) es)"

lemma encode_group_sorted: "sorted_wrt (<) es \<Longrightarrow> encode_group is_all es = Inr (frame_group is_all es)"
  by (simp add: encode_group_def frame_group_def Let_def strict_sorted_iff sorted_sort_id)

lemma child_tag:
  "child_ok depth t \<Longrightarrow> child_leaves t \<le> MAX_REQUIRE_LEAVES \<Longrightarrow> take 1 (child_bytes t) = [tag_of (child_demand t)]"
  using encode_tag [of depth "child_demand t" 0] by (simp add: child_ok_def canonical_def)

lemma canonical_group:
  assumes "list_all (child_ok (depth + 1)) ts" "ts \<noteq> []" "length ts \<le> MAX_CHILDREN" "depth \<le> MAX_DEMAND_DEPTH"
    and "\<And>t. t \<in> set ts \<Longrightarrow> tag_of (child_demand t) \<noteq> group_tag is_all \<and> length (child_bytes t) < 2 ^ 32"
    and "sorted_wrt (<) (map child_bytes ts)"
  shows "canonical depth (frame_group is_all (map child_bytes ts)) (leaf_sum ts) (group_of is_all (map child_demand ts))"
  unfolding canonical_def
proof (intro allI impI)
  fix l
  assume room: "l + leaf_sum ts \<le> MAX_REQUIRE_LEAVES"
  let ?ds = "map child_demand ts"
  have tags: "take 1 (child_bytes t) \<noteq> [group_tag is_all] \<and> length (child_bytes t) < 2 ^ 32" if "t \<in> set ts" for t
  proof -
    have "child_leaves t \<le> leaf_sum ts" using that by (intro member_le_sum_list) auto
    then have "take 1 (child_bytes t) = [tag_of (child_demand t)]"
      using child_tag [of "depth + 1" t] assms(1) that room by (simp add: list_all_iff)
    with assms(5) [OF that] show ?thesis by simp
  qed
  have kids: "decode_children (group_tag is_all) (length ts) (concat (map (\<lambda>e. be32 (length e) @ e) (map child_bytes ts)))
      depth None l = Inr (?ds, [], l + leaf_sum ts)"
    by (rule decode_children_ok [OF assms(1) room tags assms(6)]) simp_all
  obtain a b where n: "be16 (length ts) = [a, b]" "from_be16 a b = length ts"
    using from_be16_be16 [of "length ts"] assms(3) by (auto simp: MAX_CHILDREN_def)
  have "decode_node (frame_group is_all (map child_bytes ts)) depth l = Inr (group_of is_all ?ds, [], l + leaf_sum ts)"
    using assms(2,3,4) kids n(2) by (cases is_all) (simp_all add: frame_group_def n(1) not_less)
  moreover have flat: "flatten is_all ?ds = ?ds" using assms(5) by (intro flatten_flat) auto
  have "encode_node depth (group_of is_all ?ds) l = Inr (frame_group is_all (map child_bytes ts), l + leaf_sum ts)"
    using encode_children_ok [OF assms(1) room] encode_group_sorted [OF assms(6)] assms(2,3,4) flat
    by (cases is_all) simp_all
  ultimately show "decode_node (frame_group is_all (map child_bytes ts)) depth l = Inr (group_of is_all ?ds, [], l + leaf_sum ts) \<and>
      encode_node depth (group_of is_all ?ds) l = Inr (frame_group is_all (map child_bytes ts), l + leaf_sum ts)" ..
qed

definition coded :: "nat \<Rightarrow> demand \<Rightarrow> nat \<Rightarrow> bool" where
  "coded depth d l \<longleftrightarrow> (\<forall>b l'. encode_node depth d l = Inr (b, l') \<longrightarrow> utf8_demand d \<longrightarrow> length b < 2 ^ 32 \<longrightarrow>
     (l \<le> MAX_REQUIRE_LEAVES \<longrightarrow> l' \<le> MAX_REQUIRE_LEAVES) \<and>
     (\<exists>k d'. l' = l + k \<and> canonical depth b k d' \<and> tag_of d' = tag_of d \<and> (\<forall>P. holds P d' = holds P d)))"

definition children_coded :: "nat \<Rightarrow> demand list \<Rightarrow> nat \<Rightarrow> bool" where
  "children_coded depth ds l \<longleftrightarrow> (\<forall>es l'. encode_children depth ds l = Inr (es, l') \<longrightarrow> list_all utf8_demand ds \<longrightarrow>
     (\<forall>e \<in> set es. length e < 2 ^ 32) \<longrightarrow>
     (l \<le> MAX_REQUIRE_LEAVES \<longrightarrow> l' \<le> MAX_REQUIRE_LEAVES) \<and>
     (\<exists>ts. map child_bytes ts = es \<and> l' = l + leaf_sum ts \<and> list_all (child_ok depth) ts \<and>
        map (\<lambda>t. tag_of (child_demand t)) ts = map tag_of ds \<and>
        (\<forall>P. map (\<lambda>t. holds P (child_demand t)) ts = map (holds P) ds)))"

lemma sort_children: "sort (map f xs) = map f (sort_key f xs)"
  by (rule properties_for_sort) simp_all

lemma frame_longer: "e \<in> set es \<Longrightarrow> length e \<le> length (frame_group is_all es)"
proof -
  assume "e \<in> set es"
  then have "length (be32 (length e) @ e) \<le> length (concat (map (\<lambda>e. be32 (length e) @ e) es))"
    unfolding length_concat by (intro member_le_sum_list) auto
  then show ?thesis by (simp add: frame_group_def)
qed

lemma holds_group: "holds P (group_of is_all ds) = (if is_all then False \<notin> holds P ` set ds else True \<in> holds P ` set ds)"
  by (auto simp: list_all_iff list_ex_iff)

lemma group_coded:
  assumes kids: "children_coded (depth + 1) (flatten is_all ds) l"
    and enc: "encode_node depth (group_of is_all ds) l = Inr (b, l')" "list_all utf8_demand ds" "length b < 2 ^ 32"
  shows "(l \<le> MAX_REQUIRE_LEAVES \<longrightarrow> l' \<le> MAX_REQUIRE_LEAVES) \<and>
    (\<exists>k d'. l' = l + k \<and> canonical depth b k d' \<and> tag_of d' = group_tag is_all \<and> (\<forall>P. holds P d' = holds P (group_of is_all ds)))"
proof -
  let ?fl = "flatten is_all ds"
  obtain es where es: "encode_children (depth + 1) ?fl l = Inr (es, l')" "encode_group is_all es = Inr b"
    and bounds: "depth \<le> MAX_DEMAND_DEPTH" "?fl \<noteq> []" "length ?fl \<le> MAX_CHILDREN"
    using enc(1) by (cases is_all) (auto simp: result_simps not_less split: if_splits)
  have b: "b = frame_group is_all (sort es)" "distinct es"
    using es(2) by (auto simp: encode_group_def frame_group_def Let_def split: if_splits)
  have short: "\<forall>e \<in> set es. length e < 2 ^ 32"
    using frame_longer [of _ "sort es" is_all] enc(3) b(1) by fastforce
  from kids [unfolded children_coded_def, rule_format, OF es(1) utf8_flatten [OF enc(2)], OF bspec [OF short]]
  obtain ts where max: "l \<le> MAX_REQUIRE_LEAVES \<longrightarrow> l' \<le> MAX_REQUIRE_LEAVES"
    and ts: "map child_bytes ts = es" "l' = l + leaf_sum ts" "list_all (child_ok (depth + 1)) ts"
      "map (\<lambda>t. tag_of (child_demand t)) ts = map tag_of ?fl"
      "\<And>P. map (\<lambda>t. holds P (child_demand t)) ts = map (holds P) ?fl"
    by auto
  define ss where "ss = sort_key child_bytes ts"
  have ss: "set ss = set ts" "sort es = map child_bytes ss" "length ss = length ?fl" "leaf_sum ss = leaf_sum ts"
    using ts(1) map_eq_imp_length_eq [OF ts(4)] sort_children [of child_bytes ts] sum_mset_sum_list [of "map child_leaves ss"]
      sum_mset_sum_list [of "map child_leaves ts"]
    by (auto simp: ss_def)
  have "canonical depth (frame_group is_all (map child_bytes ss)) (leaf_sum ss) (group_of is_all (map child_demand ss))"
  proof (rule canonical_group)
    show "list_all (child_ok (depth + 1)) ss" using ts(3) ss(1) by (simp add: list_all_iff)
    show "ss \<noteq> []" "length ss \<le> MAX_CHILDREN" "depth \<le> MAX_DEMAND_DEPTH" using ss(3) bounds by auto
    show "tag_of (child_demand t) \<noteq> group_tag is_all \<and> length (child_bytes t) < 2 ^ 32" if "t \<in> set ss" for t
    proof -
      have "tag_of (child_demand t) \<in> set (map tag_of ?fl)" using that ss(1) ts(4) [symmetric] by simp
      then show ?thesis using that short ss(1) ts(1) flatten_tags [of _ is_all ds] by fastforce
    qed
    show "sorted_wrt (<) (map child_bytes ss)"
      using b(2) by (simp add: strict_sorted_iff flip: ss(2))
  qed
  moreover have "holds P (group_of is_all (map child_demand ss)) = holds P (group_of is_all ds)" for P
  proof -
    have "set (map (holds P) (map child_demand ss)) = set (map (\<lambda>t. holds P (child_demand t)) ts)"
      by (auto simp: ss(1))
    also have "\<dots> = set (map (holds P) ?fl)" by (simp only: ts(5))
    finally have "holds P (group_of is_all (map child_demand ss)) = holds P (group_of is_all ?fl)"
      unfolding holds_group by (simp only: set_map)
    then show ?thesis unfolding holds_flatten .
  qed
  ultimately show ?thesis
    using max ts(2) b(1) ss(2,4) by (intro conjI exI [of _ "leaf_sum ss"] exI [of _ "group_of is_all (map child_demand ss)"]) auto
qed

lemma encode_coded: "coded depth d l" and encode_children_coded: "children_coded depth ds l"
proof (induction depth d l and depth ds l rule: encode_node_encode_children.induct)
  case (1 depth c r l)
  then show ?case unfolding coded_def using canonical_require [of depth c r l] by fastforce
next
  case (2 depth ds l)
  show ?case
  proof (cases "depth > MAX_DEMAND_DEPTH \<or> flatten True ds = [] \<or> length (flatten True ds) > MAX_CHILDREN")
    case True
    then show ?thesis by (auto simp: coded_def)
  next
    case False
    with 2 have "children_coded (depth + 1) (flatten True ds) l" by blast
    from group_coded [OF this] show ?thesis unfolding coded_def by simp
  qed
next
  case (3 depth ds l)
  show ?case
  proof (cases "depth > MAX_DEMAND_DEPTH \<or> flatten False ds = [] \<or> length (flatten False ds) > MAX_CHILDREN")
    case True
    then show ?thesis by (auto simp: coded_def)
  next
    case False
    with 3 have "children_coded (depth + 1) (flatten False ds) l" by blast
    from group_coded [OF this] show ?thesis unfolding coded_def by simp
  qed
next
  case (4 depth l)
  then show ?case by (simp add: children_coded_def)
next
  case (5 depth d ds l)
  show ?case
    unfolding children_coded_def
  proof (intro allI impI)
    fix es l'
    assume enc: "encode_children depth (d # ds) l = Inr (es, l')" "list_all utf8_demand (d # ds)" "\<forall>e \<in> set es. length e < 2 ^ 32"
    then obtain b l1 es' where e: "encode_node depth d l = Inr (b, l1)" "encode_children depth ds l1 = Inr (es', l')" "es = b # es'"
      by (auto simp: result_simps)
    obtain k d' where n: "l \<le> MAX_REQUIRE_LEAVES \<longrightarrow> l1 \<le> MAX_REQUIRE_LEAVES" "l1 = l + k" "canonical depth b k d'"
      "tag_of d' = tag_of d" "\<forall>P. holds P d' = holds P d"
      using 5(1) e(1,3) enc(2,3) unfolding coded_def by fastforce
    obtain ts where t: "l1 \<le> MAX_REQUIRE_LEAVES \<longrightarrow> l' \<le> MAX_REQUIRE_LEAVES" "map child_bytes ts = es'" "l' = l1 + leaf_sum ts"
      "list_all (child_ok depth) ts" "map (\<lambda>t. tag_of (child_demand t)) ts = map tag_of ds"
      "\<forall>P. map (\<lambda>t. holds P (child_demand t)) ts = map (holds P) ds"
      using 5(2) [OF e(1)] e(2,3) enc(2,3) unfolding children_coded_def by fastforce
    show "(l \<le> MAX_REQUIRE_LEAVES \<longrightarrow> l' \<le> MAX_REQUIRE_LEAVES) \<and>
      (\<exists>ts. map child_bytes ts = es \<and> l' = l + leaf_sum ts \<and> list_all (child_ok depth) ts \<and>
        map (\<lambda>t. tag_of (child_demand t)) ts = map tag_of (d # ds) \<and>
        (\<forall>P. map (\<lambda>t. holds P (child_demand t)) ts = map (holds P) (d # ds)))"
      using n t e(3) by (intro conjI exI [of _ "(b, k, d') # ts"]) (auto simp: child_ok_def)
  qed
qed

lemma encode_decodes:
  assumes "encode_canonical d = Inr b" "utf8_demand d"
  shows "\<exists>d'. decode_canonical b = Inr d' \<and> (\<forall>P. holds P d' = holds P d)"
proof -
  obtain l' where e: "encode_node 1 d 0 = Inr (b, l')" "length b \<le> MAX_DEMAND_BYTES"
    using assms(1) by (auto simp: encode_canonical_def result_simps not_less split: if_splits)
  then have "length b < 2 ^ 32" by (simp add: MAX_DEMAND_BYTES_def)
  then obtain k d' where d': "l' = k" "l' \<le> MAX_REQUIRE_LEAVES" "canonical 1 b k d'" "\<forall>P. holds P d' = holds P d"
    using encode_coded [of 1 d 0] e(1) assms(2) unfolding coded_def by auto
  then have "decode_node b 1 0 = Inr (d', [], k)" "encode_node 1 d' 0 = Inr (b, k)"
    using d'(3) [unfolded canonical_def, rule_format, of 0] by simp_all
  with e(2) have "decode_canonical b = Inr d'" by (simp add: decode_canonical_def encode_canonical_def not_less)
  with d'(4) show ?thesis by blast
qed

section \<open>Properties\<close>

text \<open>C15: the canonical encoding round-trips. Whatever demand the encoder accepts, the strict decoder
  reads its bytes back, and the demand it returns asks for the same: it holds for exactly the same sets
  of granted leaves, although nested nodes were flattened and children sorted.\<close>

theorem canonical_roundtrip:
  assumes "encode_canonical d = Inr b" "utf8_demand d"
  shows "\<exists>d'. decode_canonical b = Inr d' \<and> encode_canonical d' = Inr b \<and> (\<forall>P. holds P d' \<longleftrightarrow> holds P d)"
proof -
  obtain d' where "decode_canonical b = Inr d'" "\<forall>P. holds P d' = holds P d" using encode_decodes [OF assms] by blast
  moreover from this(1) have "encode_canonical d' = Inr b"
    by (auto simp: decode_canonical_def result_simps split: if_splits)
  ultimately show ?thesis by blast
qed

definition demo_leaf :: "string \<Rightarrow> demand" where
  "demo_leaf n = Require \<lparr>c_world = ''w'', c_name = n\<rparr> \<lparr>r_world = ''w'', r_segments = []\<rparr>"

definition demo_demand :: demand where
  "demo_demand = All [demo_leaf ''b'', All [Any [demo_leaf ''d'', demo_leaf ''c''], demo_leaf ''a'']]"

theorem canonical_roundtrip_witness:
  "\<exists>b d'. encode_canonical demo_demand = Inr b \<and> decode_canonical b = Inr d' \<and> (\<forall>P. holds P d' \<longleftrightarrow> holds P demo_demand)"
proof -
  have "case encode_node 1 demo_demand 0 of Inr (b, _) \<Rightarrow> length b \<le> 100 | Inl _ \<Rightarrow> False" by code_simp
  then obtain b where b: "encode_canonical demo_demand = Inr b"
    by (auto simp: encode_canonical_def MAX_DEMAND_BYTES_def split: sum.splits)
  have "utf8_demand demo_demand" by (simp add: demo_demand_def demo_leaf_def)
  from canonical_roundtrip [OF b this] b show ?thesis by blast
qed

text \<open>The canonical bytes, and so the digest a receipt pins, bind the meaning of a demand. Two
  demands with the same canonical bytes are satisfied by exactly the same grants.\<close>

theorem canonical_bytes_bind:
  assumes "encode_canonical d1 = Inr b" "encode_canonical d2 = Inr b" "utf8_demand d1" "utf8_demand d2"
  shows "holds P d1 \<longleftrightarrow> holds P d2"
  using encode_decodes [OF assms(1,3)] encode_decodes [OF assms(2,4)] by auto

theorem canonical_bytes_bind_witness:
  "encode_canonical (All [demo_leaf ''a'', demo_leaf ''b'']) = encode_canonical (All [All [demo_leaf ''b''], demo_leaf ''a'']) \<and>
   (\<forall>P. holds P (All [demo_leaf ''a'', demo_leaf ''b'']) \<longleftrightarrow> holds P (All [All [demo_leaf ''b''], demo_leaf ''a'']))"
proof -
  let ?x = "All [demo_leaf ''a'', demo_leaf ''b'']" and ?y = "All [All [demo_leaf ''b''], demo_leaf ''a'']"
  have "encode_node 1 ?x 0 = encode_node 1 ?y 0" by code_simp
  then have same: "encode_canonical ?x = encode_canonical ?y" unfolding encode_canonical_def by (rule arg_cong)
  have "case encode_node 1 ?x 0 of Inr (b, _) \<Rightarrow> length b \<le> 100 | Inl _ \<Rightarrow> False" by code_simp
  then obtain b where b: "encode_canonical ?x = Inr b"
    by (auto simp: encode_canonical_def MAX_DEMAND_BYTES_def split: sum.splits)
  have "utf8_demand ?x" "utf8_demand ?y" by (simp_all add: demo_leaf_def)
  with canonical_bytes_bind [OF b b [unfolded same]] same show ?thesis by blast
qed

end
