(* ===== verification/Ids.thy ===== *)
theory Ids
  imports Sigdag
begin

unbundle bit_operations_syntax

text \<open>
  Identifiers (\<^verbatim>\<open>crates/mechanics/src/ids.rs\<close>): the 26-digit rendering of a 128-bit value, the
  prefixed ids built on it, and the parsers of space, actor and device ids. All ids are strings here;
  what their types guarantee is what the parsers accept. The comparison of device ids by key
  (\<open>device_key\<close>) is in \<open>Sigdag\<close>, which the replays share.
\<close>

section \<open>Strings\<close>

definition to_ascii_uppercase :: "char \<Rightarrow> char" where
  "to_ascii_uppercase c = (if CHR ''a'' \<le> c \<and> c \<le> CHR ''z'' then char_of (of_char c - 32 :: nat) else c)"

text \<open>\<open>str::trim\<close> removes leading and trailing white space: the UTF-8 encodings of the characters
  with the Unicode property \<open>White_Space\<close>.\<close>

definition white_space :: "string list" where
  "white_space =
     map (\<lambda>c. [c]) [CHR 0x09, CHR 0x0A, CHR 0x0B, CHR 0x0C, CHR 0x0D, CHR 0x20] @
     [[CHR 0xC2, CHR 0x85], [CHR 0xC2, CHR 0xA0], [CHR 0xE1, CHR 0x9A, CHR 0x80]] @
     map (\<lambda>c. [CHR 0xE2, CHR 0x80, c])
       [CHR 0x80, CHR 0x81, CHR 0x82, CHR 0x83, CHR 0x84, CHR 0x85, CHR 0x86, CHR 0x87, CHR 0x88,
        CHR 0x89, CHR 0x8A, CHR 0xA8, CHR 0xA9, CHR 0xAF] @
     [[CHR 0xE2, CHR 0x81, CHR 0x9F], [CHR 0xE3, CHR 0x80, CHR 0x80]]"

definition strip_prefix :: "string \<Rightarrow> string \<Rightarrow> string option" where
  "strip_prefix p s = (if take (length p) s = p then Some (drop (length p) s) else None)"

definition white_prefix :: "string list \<Rightarrow> string \<Rightarrow> string option" where
  "white_prefix ws s = (case find (\<lambda>w. take (length w) s = w) ws of
     None \<Rightarrow> None | Some w \<Rightarrow> Some (drop (length w) s))"

function strip_all :: "string list \<Rightarrow> string \<Rightarrow> string" where
  "strip_all ws s = (case white_prefix ws s of
     None \<Rightarrow> s | Some r \<Rightarrow> if length r < length s then strip_all ws r else s)"
  by pat_completeness auto
termination by (relation "measure (\<lambda>(ws, s). length s)") auto

declare strip_all.simps [simp del]

definition trim :: "string \<Rightarrow> string" where
  "trim s = rev (strip_all (map rev white_space) (rev (strip_all white_space s)))"

definition split_once :: "char \<Rightarrow> string \<Rightarrow> (string \<times> string) option" where
  "split_once c s = (if c \<in> set s
     then Some (takeWhile (\<lambda>x. x \<noteq> c) s, tl (dropWhile (\<lambda>x. x \<noteq> c) s)) else None)"

section \<open>ULIDs\<close>

type_synonym u128 = "128 word"

definition CROCKFORD :: string where
  "CROCKFORD = ''0123456789ABCDEFGHIJKLMNOPQRSTUV''"

definition valid_ulid :: "string \<Rightarrow> bool" where
  "valid_ulid s \<longleftrightarrow> length s = 26 \<and> list_all (\<lambda>b. to_ascii_uppercase b \<in> set CROCKFORD) s"

primrec ulid_digits :: "nat \<Rightarrow> u128 \<Rightarrow> string" where
  \<comment> \<open>the last \<open>k\<close> digits, least significant last\<close>
  "ulid_digits 0 v = []"
| "ulid_digits (Suc k) v = ulid_digits k (drop_bit 5 v) @ [CROCKFORD ! unat (v AND 0x1f)]"

definition encode_ulid :: "u128 \<Rightarrow> string" where
  "encode_ulid value = ulid_digits 26 value"

definition mint_ulid :: "u64 \<Rightarrow> u128 \<Rightarrow> string" where
  \<comment> \<open>\<open>now_ms\<close> and \<open>rand80\<close> are what the injected source returns\<close>
  "mint_ulid now_ms rand80 =
     (let ts = ucast now_ms AND (push_bit 48 1 - 1);
          rand = rand80 AND (push_bit 80 1 - 1)
      in encode_ulid (push_bit 80 ts OR rand))"

section \<open>Prefixed ids\<close>

definition from_be_bytes :: "bytes \<Rightarrow> nat" where
  "from_be_bytes bs = fold (\<lambda>b v. 256 * v + of_char b) bs 0"

definition mint_id :: "string \<Rightarrow> u64 \<Rightarrow> u128 \<Rightarrow> string" where
  "mint_id pre now_ms rand80 = pre @ mint_ulid now_ms rand80"

definition id_from_digest :: "string \<Rightarrow> bytes \<Rightarrow> string" where
  "id_from_digest pre digest = pre @ encode_ulid (of_nat (from_be_bytes digest))"

definition id_parse :: "string \<Rightarrow> string \<Rightarrow> string option" where
  "id_parse pre s =
     (case strip_prefix pre s of
        None \<Rightarrow> None
      | Some rest \<Rightarrow> if valid_ulid rest then Some s else None)"

definition id_short :: "string \<Rightarrow> nat \<Rightarrow> string \<Rightarrow> string" where
  "id_short pre n s =
     (let ulid = (case strip_prefix pre s of None \<Rightarrow> [] | Some r \<Rightarrow> r) in pre @ take n ulid)"

definition SPACE_PREFIX :: string where "SPACE_PREFIX = ''ws_''"
definition ACTOR_PREFIX :: string where "ACTOR_PREFIX = ''act_''"

definition device_parse :: "string \<Rightarrow> string option" where
  "device_parse s =
     (let s = trim s
      in if length s = 64 \<and> list_all is_ascii_hexdigit s then Some (map to_ascii_lowercase s) else None)"

definition actor_parse :: "string \<Rightarrow> string option" where
  "actor_parse s =
     (case strip_prefix ACTOR_PREFIX (trim s) of
        None \<Rightarrow> None
      | Some rest \<Rightarrow>
          if length rest = 64 \<and> list_all is_ascii_hexdigit rest
          then Some (ACTOR_PREFIX @ map to_ascii_lowercase rest) else None)"

definition key_bytes :: "crypto \<Rightarrow> string \<Rightarrow> bytes option" where
  "key_bytes cr d =
     (case hex_decode cr d of
        None \<Rightarrow> None
      | Some raw \<Rightarrow> if length raw = 32 then Some raw else None)"

section \<open>Lemmas on strings\<close>

lemma strip_prefix_append [simp]: "strip_prefix p (p @ s) = Some s"
  by (simp add: strip_prefix_def)

lemma strip_prefix_Some: "strip_prefix p s = Some r \<longleftrightarrow> s = p @ r"
  by (auto simp: strip_prefix_def) (metis append_take_drop_id)

lemma strip_all_id: "(\<forall>w \<in> set ws. take (length w) s \<noteq> w) \<Longrightarrow> strip_all ws s = s"
  by (subst strip_all.simps) (auto simp: white_prefix_def find_None_iff split: option.splits dest: find_Some_iff [THEN iffD1])

definition plain :: "char \<Rightarrow> bool" where
  \<comment> \<open>printable ASCII, which no white space starts or ends with\<close>
  "plain c \<longleftrightarrow> CHR 0x20 < c \<and> c < CHR 0x7F"

lemma white_ends: "w \<in> set white_space \<Longrightarrow> w \<noteq> [] \<and> \<not> plain (hd w) \<and> \<not> plain (last w)"
  unfolding white_space_def by (simp, elim disjE) (simp_all add: plain_def less_char_def)

lemma no_white_prefix:
  assumes "s \<noteq> [] \<longrightarrow> plain (hd s)" "w \<noteq> []" "\<not> plain (hd w)"
  shows "take (length w) s \<noteq> w"
  using assms by (cases s; cases w) auto

lemma trim_plain:
  assumes "s \<noteq> [] \<Longrightarrow> plain (hd s) \<and> plain (last s)"
  shows "trim s = s"
proof -
  have "strip_all white_space s = s"
    using assms white_ends by (intro strip_all_id ballI no_white_prefix) blast+
  moreover have "strip_all (map rev white_space) (rev s) = rev s"
    using assms white_ends by (intro strip_all_id ballI no_white_prefix) (auto simp: hd_rev)
  ultimately show ?thesis by (simp add: trim_def)
qed

lemma split_once_append: "c \<notin> set a \<Longrightarrow> split_once c (a @ c # b) = Some (a, b)"
  by (simp add: split_once_def takeWhile_append dropWhile_append)

lemma to_ascii_lowercase_idem [simp]: "to_ascii_lowercase (to_ascii_lowercase c) = to_ascii_lowercase c"
  by (auto simp: to_ascii_lowercase_def less_eq_char_def)

lemma device_key_idem [simp]: "device_key (device_key d) = device_key d"
  by (simp add: device_key_def comp_def)

section \<open>Digits\<close>

lemma length_ulid_digits [simp]: "length (ulid_digits k v) = k"
  by (induction k arbitrary: v) auto

lemma unat_digit: "unat (v AND 0x1f :: u128) = unat v mod 32"
proof -
  have "v AND 0x1f = take_bit 5 v"
    by (simp add: take_bit_eq_mask mask_eq_exp_minus_1)
  then show ?thesis by (simp add: take_bit_eq_mod unat_mod_distrib)
qed

lemma unat_rest: "unat (drop_bit 5 v :: u128) = unat v div 32"
  by (simp add: drop_bit_eq_div unat_div_distrib)

lemma lex_snoc:
  fixes xs ys :: "'a::linorder list"
  shows "length xs = length ys \<Longrightarrow> xs @ [a] < ys @ [b] \<longleftrightarrow> xs < ys \<or> xs = ys \<and> a < b"
  by (induction xs ys rule: list_induct2) auto

lemma CROCKFORD_order: "i < 32 \<Longrightarrow> j < 32 \<Longrightarrow> CROCKFORD ! i < CROCKFORD ! j \<longleftrightarrow> i < j"
proof -
  have "sorted_wrt (<) CROCKFORD" by code_simp
  moreover have "length CROCKFORD = 32" by (simp add: CROCKFORD_def)
  moreover assume "i < 32" "j < 32"
  ultimately show ?thesis
    by (metis linorder_neqE_nat not_less_iff_gr_or_eq sorted_wrt_nth_less)
qed

lemma CROCKFORD_eq: "i < 32 \<Longrightarrow> j < 32 \<Longrightarrow> CROCKFORD ! i = CROCKFORD ! j \<longleftrightarrow> i = j"
  using CROCKFORD_order by (metis less_irrefl linorder_neqE_nat)

lemma mod_split: "(n::nat) mod (32 * b) = 32 * (n div 32 mod b) + n mod 32"
  by (metis mod_mult2_eq)

lemma pair_less: "a < 32 \<Longrightarrow> b < 32 \<Longrightarrow> 32 * x + a < 32 * y + b \<longleftrightarrow> x < y \<or> x = y \<and> a < (b::nat)"
  by auto

lemma pair_eq: "a < 32 \<Longrightarrow> b < 32 \<Longrightarrow> 32 * x + a = 32 * y + b \<longleftrightarrow> x = y \<and> a = (b::nat)"
  by (metis nat_neq_iff pair_less)

lemma ulid_digits_eq:
  "ulid_digits k v = ulid_digits k w \<longleftrightarrow> unat v mod 32 ^ k = unat w mod 32 ^ k"
proof (induction k arbitrary: v w)
  case (Suc k)
  have "ulid_digits (Suc k) v = ulid_digits (Suc k) w \<longleftrightarrow>
      unat v div 32 mod 32 ^ k = unat w div 32 mod 32 ^ k \<and> unat v mod 32 = unat w mod 32"
    by (simp add: Suc unat_digit unat_rest CROCKFORD_eq)
  also have "\<dots> \<longleftrightarrow> unat v mod 32 ^ Suc k = unat w mod 32 ^ Suc k"
    unfolding power_Suc mod_split by (simp add: pair_eq)
  finally show ?case .
qed simp

lemma ulid_digits_less:
  "ulid_digits k v < ulid_digits k w \<longleftrightarrow> unat v mod 32 ^ k < unat w mod 32 ^ k"
proof (induction k arbitrary: v w)
  case (Suc k)
  have "ulid_digits (Suc k) v < ulid_digits (Suc k) w \<longleftrightarrow>
      unat v div 32 mod 32 ^ k < unat w div 32 mod 32 ^ k \<or>
      unat v div 32 mod 32 ^ k = unat w div 32 mod 32 ^ k \<and> unat v mod 32 < unat w mod 32"
    by (simp add: Suc lex_snoc ulid_digits_eq unat_digit unat_rest CROCKFORD_order)
  also have "\<dots> \<longleftrightarrow> unat v mod 32 ^ Suc k < unat w mod 32 ^ Suc k"
    unfolding power_Suc mod_split by (simp add: pair_less)
  finally show ?case .
qed simp

lemma ulid_range: "unat (v :: u128) mod 32 ^ 26 = unat v"
proof (rule mod_less)
  have "unat v < 2 ^ LENGTH(128)" by (rule unsigned_less)
  then show "unat v < 32 ^ 26" by simp
qed

lemma encode_ulid_order: "encode_ulid v < encode_ulid w \<longleftrightarrow> v < w"
  by (simp add: encode_ulid_def ulid_digits_less ulid_range word_less_nat_alt del: power_numeral)

lemma encode_ulid_inj: "encode_ulid v = encode_ulid w \<longleftrightarrow> v = w"
  by (simp add: encode_ulid_def ulid_digits_eq ulid_range word_unat_eq_iff del: power_numeral)

lemma CROCKFORD_upper: "c \<in> set CROCKFORD \<Longrightarrow> to_ascii_uppercase c = c"
proof -
  have "list_all (\<lambda>c. to_ascii_uppercase c = c) CROCKFORD" by code_simp
  then show "c \<in> set CROCKFORD \<Longrightarrow> to_ascii_uppercase c = c" by (simp add: list_all_iff)
qed

lemma ulid_digits_valid: "set (ulid_digits k v) \<subseteq> set CROCKFORD"
proof (induction k arbitrary: v)
  case (Suc k)
  have "CROCKFORD ! (unat v mod 32) \<in> set CROCKFORD"
    by (rule nth_mem) (simp add: CROCKFORD_def)
  with Suc show ?case by (simp add: unat_digit)
qed simp

lemma encode_ulid_valid: "valid_ulid (encode_ulid v)"
  using ulid_digits_valid [of 26 v] CROCKFORD_upper
  by (auto simp: valid_ulid_def encode_ulid_def list_all_iff)

section \<open>Canonical ids\<close>

definition lower_hex :: "string \<Rightarrow> bool" where
  \<comment> \<open>64 lowercase hex digits, what every production constructor of a key string emits\<close>
  "lower_hex s \<longleftrightarrow> length s = 64 \<and> list_all (\<lambda>c. c \<in> set ''0123456789abcdef'') s"

lemma hexdigit_cases:
  "is_ascii_hexdigit c \<Longrightarrow> plain c \<and> to_ascii_lowercase c \<in> set ''0123456789abcdef''"
proof -
  have "list_all (\<lambda>c. plain c \<and> to_ascii_lowercase c \<in> set ''0123456789abcdef'') ''0123456789abcdefABCDEF''"
    by code_simp
  then show "is_ascii_hexdigit c \<Longrightarrow> plain c \<and> to_ascii_lowercase c \<in> set ''0123456789abcdef''"
    unfolding is_ascii_hexdigit_def list_all_iff by blast
qed

lemma lower_digit:
  "c \<in> set ''0123456789abcdef'' \<Longrightarrow> is_ascii_hexdigit c \<and> to_ascii_lowercase c = c \<and> c \<noteq> CHR '':''"
proof -
  have "list_all (\<lambda>c. is_ascii_hexdigit c \<and> to_ascii_lowercase c = c \<and> c \<noteq> CHR '':'') ''0123456789abcdef''"
    by code_simp
  then show "c \<in> set ''0123456789abcdef'' \<Longrightarrow> is_ascii_hexdigit c \<and> to_ascii_lowercase c = c \<and> c \<noteq> CHR '':''"
    unfolding list_all_iff by blast
qed

lemma lower_hexD:
  assumes "lower_hex d"
  shows "list_all is_ascii_hexdigit d" "device_key d = d" "CHR '':'' \<notin> set d" "list_all plain d" "length d = 64"
proof -
  show "list_all is_ascii_hexdigit d" "CHR '':'' \<notin> set d" "length d = 64"
    using assms lower_digit unfolding lower_hex_def list_all_iff by blast+
  show "device_key d = d"
    using assms lower_digit unfolding device_key_def lower_hex_def list_all_iff by (intro map_idI) blast
  show "list_all plain d"
    using assms lower_digit hexdigit_cases unfolding lower_hex_def list_all_iff by blast
qed

lemma trim_all_plain: "list_all plain s \<Longrightarrow> trim s = s"
  by (rule trim_plain) (auto simp: list_all_iff)

lemma device_parse_canonical: "lower_hex d \<Longrightarrow> device_parse d = Some d"
  using lower_hexD [of d] by (simp add: device_parse_def trim_all_plain flip: device_key_def)

lemma device_parse_lower: "device_parse s = Some d \<Longrightarrow> lower_hex d"
  using hexdigit_cases
  by (fastforce simp: device_parse_def lower_hex_def list_all_iff Let_def split: if_splits)

lemma actor_parse_canonical:
  assumes "lower_hex h"
  shows "actor_parse (ACTOR_PREFIX @ h) = Some (ACTOR_PREFIX @ h)"
proof -
  have "list_all plain ACTOR_PREFIX" by code_simp
  then have "trim (ACTOR_PREFIX @ h) = ACTOR_PREFIX @ h"
    using lower_hexD(4) [OF assms] by (intro trim_all_plain) simp
  then show ?thesis using lower_hexD [OF assms] by (simp add: actor_parse_def device_key_def)
qed

section \<open>Minting\<close>

lemma mint_time:
  \<comment> \<open>the upper 48 bits of a minted value are the time\<close>
  fixes ts r :: u128
  assumes "take_bit 48 ts = ts"
  shows "drop_bit 80 (push_bit 80 ts OR take_bit 80 r) = ts"
proof (rule bit_eqI)
  fix n :: nat
  have "bit ts n \<Longrightarrow> n < 48" by (metis assms bit_take_bit_iff)
  then show "bit (drop_bit 80 (push_bit 80 ts OR take_bit 80 r)) n \<longleftrightarrow> bit ts n"
    by (auto simp: bit_simps)
qed

lemma mint_ulid_value:
  "mint_ulid now r = encode_ulid (push_bit 80 (take_bit 48 (ucast now)) OR take_bit 80 r)"
  unfolding mint_ulid_def Let_def by (simp add: take_bit_eq_mask mask_eq_exp_minus_1 push_bit_eq_mult)

lemma drop_bit_less: "drop_bit n v < drop_bit n w \<Longrightarrow> v < (w :: 'a::len word)"
proof (rule ccontr)
  assume less: "drop_bit n v < drop_bit n w" and "\<not> v < w"
  then have "unat w div 2 ^ n \<le> unat v div 2 ^ n" by (intro div_le_mono) (simp add: word_less_nat_alt)
  moreover have "unat (drop_bit n u) = unat u div 2 ^ n" for u :: "'a word"
    unfolding unsigned_drop_bit_eq by (simp add: drop_bit_eq_div take_bit_nat_eq_self)
  ultimately show False using less by (simp only: word_less_nat_alt)
qed

lemma unat_time: "unat (ucast (t :: u64) :: u128) = unat t"
proof -
  have "unat t < 2 ^ LENGTH(64)" by (rule unsigned_less)
  then show ?thesis by (simp add: unsigned_ucast_eq take_bit_nat_eq_self)
qed

lemma ucast_time: "t < 2 ^ 48 \<Longrightarrow> take_bit 48 (ucast t :: u128) = ucast (t :: u64)"
proof -
  assume "t < 2 ^ 48"
  then have "unat t < 2 ^ 48" by (simp add: word_less_nat_alt)
  then show ?thesis
    by (simp add: word_unat_eq_iff unsigned_take_bit_eq unat_time take_bit_nat_eq_self)
qed

lemma mint_drop:
  fixes t :: u64
  assumes "t < 2 ^ 48"
  shows "drop_bit 80 (push_bit 80 (take_bit 48 (ucast t)) OR take_bit 80 r :: u128) = ucast t"
  unfolding ucast_time [OF assms] by (rule mint_time [OF ucast_time [OF assms]])

text \<open>Identifiers sort by time. A ULID minted at a later millisecond (below \<open>2^48\<close>, the year
  10889) is lexicographically greater, whatever the random parts, so sorting ids as strings is sorting
  them by creation time; and every minted id parses back to itself.\<close>

theorem mint_ulid_sorts_by_time:
  assumes "t < t'" "t' < 2 ^ 48"
  shows "mint_ulid t r < mint_ulid t' r' \<and>
    id_parse pre (mint_id pre t r) = Some (mint_id pre t r)"
proof -
  have small: "t < 2 ^ 48" using assms by (meson less_trans)
  have less: "(ucast t :: u128) < ucast t'"
    using assms(1) by (simp add: word_less_nat_alt unat_time)
  have "push_bit 80 (take_bit 48 (ucast t)) OR take_bit 80 r <
      (push_bit 80 (take_bit 48 (ucast t')) OR take_bit 80 r' :: u128)"
    by (rule drop_bit_less [of 80]) (simp only: mint_drop [OF assms(2)] mint_drop [OF small] less)
  then show ?thesis
    by (simp only: mint_ulid_value encode_ulid_order id_parse_def mint_id_def encode_ulid_valid
        strip_prefix_append option.case if_True)
qed

theorem mint_ulid_sorts_by_time_witness:
  "mint_ulid 1 5 < mint_ulid 2 3 \<and>
   id_parse SPACE_PREFIX (mint_id SPACE_PREFIX 1 5) = Some (mint_id SPACE_PREFIX 1 5)"
  using mint_ulid_sorts_by_time [of 1 2 5 3 SPACE_PREFIX] by simp

end
