(* ===== verification/AppendLog.thy ===== *)
theory AppendLog
  imports Prelude
begin

text \<open>
  The contract of the append-only logs of the program (the kinship log and the chronicle): an append
  that is not refused adds one item at the end and respects a capacity. What a run of appends does to
  such a log is proved once here; the logs interpret the contract in their own theories.
\<close>

fun append_all :: "('e \<Rightarrow> 'l \<Rightarrow> 'r + 'l) \<Rightarrow> 'e list \<Rightarrow> 'l \<Rightarrow> 'r + 'l" where
  \<comment> \<open>a run of appends that stops at the first refusal\<close>
  "append_all add [] l = Inr l"
| "append_all add (e # es) l = try_then (add e l) (append_all add es)"

locale append_only =
  fixes add :: "'e \<Rightarrow> 'l \<Rightarrow> 'r + 'l" and items :: "'l \<Rightarrow> 'x list" and item :: "'e \<Rightarrow> 'x"
    and capacity :: nat and fits :: "'e \<Rightarrow> bool"
  assumes appended: "add e l = Inr l' \<Longrightarrow> items l' = items l @ [item e]"
    and fitting: "add e l = Inr l' \<Longrightarrow> fits e \<and> length (items l) < capacity"
    and accepted: "fits e \<Longrightarrow> length (items l) < capacity \<Longrightarrow> \<exists>l'. add e l = Inr l'"
begin

lemma run_items: "append_all add es l = Inr l' \<Longrightarrow> items l' = items l @ map item es"
  by (induction es arbitrary: l) (auto simp: result_simps appended)

lemma run_fits: "append_all add es l = Inr l' \<Longrightarrow> list_all fits es"
  by (induction es arbitrary: l) (auto simp: result_simps dest: fitting)

lemma run_capacity:
  assumes "append_all add es l = Inr l'" "length (items l) \<le> capacity"
  shows "length (items l') \<le> capacity"
  using assms
proof (induction es arbitrary: l)
  case (Cons e es)
  from Cons.prems(1) obtain m where m: "add e l = Inr m" "append_all add es m = Inr l'"
    by (auto simp: result_simps)
  have "length (items m) \<le> capacity" using appended [OF m(1)] fitting [OF m(1)] by simp
  with Cons.IH [OF m(2)] show ?case .
qed simp

lemma run_accepted:
  "list_all fits es \<Longrightarrow> length (items l) + length es \<le> capacity \<Longrightarrow> \<exists>l'. append_all add es l = Inr l'"
proof (induction es arbitrary: l)
  case (Cons e es)
  then obtain m where m: "add e l = Inr m" using accepted [of e l] by auto
  have "length (items m) + length es \<le> capacity" using appended [OF m] Cons.prems by simp
  with Cons.IH [of m] Cons.prems m show ?case by auto
qed simp

lemma run_append: "append_all add (es @ fs) l = try_then (append_all add es l) (append_all add fs)"
proof (induction es arbitrary: l)
  case (Cons e es)
  then show ?case by (cases "add e l") simp_all
qed simp

end

end
