(* ===== verification/Kinship.thy ===== *)
theory Kinship
  imports Ids AppendLog
begin

text \<open>
  Kinship (\<^verbatim>\<open>crates/mechanics/src/kinship.rs\<close>): the append-only log in which the devices of one
  profile link to each other, retire each other and avow claims to a stated audience, with the signed
  head over all of its entries, the projection of the log for one reader, and the reader's checks.

  The private side of ed25519, hex encoding and the postcard encoders are the record \<open>kin_env\<close>; a
  seed is what stands for a private key. \<open>signing_ok\<close> states what the code relies on of them.
\<close>

section \<open>Framing\<close>

primrec be_bytes :: "nat \<Rightarrow> nat \<Rightarrow> bytes" where
  \<comment> \<open>\<open>to_be_bytes\<close>: the \<open>k\<close> low bytes, most significant first\<close>
  "be_bytes 0 n = []"
| "be_bytes (Suc k) n = be_bytes k (n div 256) @ [char_of n]"

definition u64_be :: "u64 \<Rightarrow> bytes" where "u64_be w = be_bytes 8 (unat w)"
definition u16_be :: "u16 \<Rightarrow> bytes" where "u16_be w = be_bytes 2 (unat w)"

definition framed :: "bytes \<Rightarrow> bytes \<Rightarrow> bytes" where
  "framed out part =
     (let len = (if length part < 2 ^ 64 then length part else 2 ^ 64 - 1)
      in out @ be_bytes 8 len @ part)"

lemma framed_code [code]:
  \<comment> \<open>the same, with the length test on binary integers\<close>
  "framed out part =
     out @ be_bytes 8 (if int (length part) < 18446744073709551616 then length part else 2 ^ 64 - 1) @ part"
  by (simp add: framed_def Let_def)

section \<open>Constants and refusals\<close>

definition LINK_DOMAIN :: bytes where "LINK_DOMAIN = ''lait/kinship/1/link''"
definition AVOWAL_DOMAIN :: bytes where "AVOWAL_DOMAIN = ''lait/kinship/1/avowal''"
definition HEAD_DOMAIN :: bytes where "HEAD_DOMAIN = ''lait/kinship/1/head''"
definition RETIRE_DOMAIN :: bytes where "RETIRE_DOMAIN = ''lait/kinship/1/retire''"
definition PROFILE_CONTEXT :: string where "PROFILE_CONTEXT = ''lait.kinship-profile.v1''"
definition ENTRY_CONTEXT :: string where "ENTRY_CONTEXT = ''lait.kinship-entry.v1''"
definition COMMITMENT_CONTEXT :: string where "COMMITMENT_CONTEXT = ''lait.kinship-commitment.v1''"
definition KINSHIP_SEMANTICS :: u16 where "KINSHIP_SEMANTICS = 1"
definition MAX_ENTRIES :: nat where "MAX_ENTRIES = 4096"
definition MAX_AVOWED_NAME_BYTES :: nat where "MAX_AVOWED_NAME_BYTES = 128"
definition MAX_DETAIL_BYTES :: nat where "MAX_DETAIL_BYTES = 256"

datatype kin_refusal =
    BadSignature | Unaddressable | OutsideAudience | NotDistinct | NotMutual | Unlisted | Omission
  | Uncommitted | Diverged | Semantics | Malformed string | Bound string

section \<open>Parties, audiences and claims\<close>

datatype party = DeviceParty string | ActorParty string string

fun party_wire :: "party \<Rightarrow> string" where
  "party_wire (DeviceParty device) = device"
| "party_wire (ActorParty space actor) = ''actor:'' @ space @ '':'' @ actor"

definition parse_wire :: "string \<Rightarrow> kin_refusal + party" where
  "parse_wire raw =
     (let raw = trim raw
      in case strip_prefix ''actor:'' raw of
           Some rest \<Rightarrow>
             (case split_once (CHR '':'') rest of
                None \<Rightarrow> Inl (Malformed ''actor party'')
              | Some (space, actor) \<Rightarrow>
                  (case id_parse SPACE_PREFIX space of
                     None \<Rightarrow> Inl (Malformed ''space id'')
                   | Some space \<Rightarrow>
                       (case actor_parse actor of
                          None \<Rightarrow> Inl (Malformed ''actor id'')
                        | Some actor \<Rightarrow> Inr (ActorParty space actor))))
         | None \<Rightarrow>
             (case device_parse raw of
                None \<Rightarrow> Inl (Malformed ''party'')
              | Some device \<Rightarrow> Inr (DeviceParty device)))"

text \<open>What a derived \<open>PartialEq\<close> compares: device ids by key, everything else exactly.\<close>

fun party_key :: "party \<Rightarrow> party" where
  "party_key (DeviceParty d) = DeviceParty (device_key d)"
| "party_key (ActorParty s a) = ActorParty s a"

datatype attribution = Single | Few | Many | Unattributed

datatype audience = Own | Kin | Members string | Correspondent party | Public

fun audience_attribution :: "audience \<Rightarrow> attribution" where
  "audience_attribution (Correspondent _) = Single"
| "audience_attribution Own = Few"
| "audience_attribution Kin = Few"
| "audience_attribution (Members _) = Many"
| "audience_attribution Public = Unattributed"

record kin_standing =
  ks_device :: "string option"
  ks_actors :: "(string \<times> string) list"
  ks_spaces :: "string list"
  ks_own :: bool
  ks_kin :: bool

fun standing_is :: "kin_standing \<Rightarrow> party \<Rightarrow> bool" where
  "standing_is st (DeviceParty device) = (map_option device_key (ks_device st) = Some (device_key device))"
| "standing_is st (ActorParty space actor) = list_ex (\<lambda>(s, a). s = space \<and> a = actor) (ks_actors st)"

fun admits :: "audience \<Rightarrow> kin_standing \<Rightarrow> bool" where
  "admits Public st = True"
| "admits Own st = ks_own st"
| "admits Kin st = ks_kin st"
| "admits (Members space) st = (space \<in> set (ks_spaces st))"
| "admits (Correspondent party) st = standing_is st party"

fun audience_tag :: "audience \<Rightarrow> bytes" where
  "audience_tag Own = ''own''"
| "audience_tag Kin = ''kin''"
| "audience_tag (Members _) = ''members''"
| "audience_tag (Correspondent _) = ''correspondent''"
| "audience_tag Public = ''public''"

fun audience_body :: "audience \<Rightarrow> string" where
  "audience_body (Members space) = space"
| "audience_body (Correspondent party) = party_wire party"
| "audience_body _ = []"

datatype claim =
    Profile string
  | Called string
  | Sponsors party
  | Portrait "bytes option" string
  | Chronicled u64 bytes u64 bytes

fun claim_tag :: "claim \<Rightarrow> bytes" where
  "claim_tag (Profile _) = ''profile''"
| "claim_tag (Called _) = ''called''"
| "claim_tag (Sponsors _) = ''sponsors''"
| "claim_tag (Portrait _ _) = ''portrait''"
| "claim_tag (Chronicled _ _ _ _) = ''chronicled''"

fun claim_body :: "claim \<Rightarrow> bytes" where
  "claim_body (Profile profile) = profile"
| "claim_body (Called name) = name"
| "claim_body (Sponsors party) = party_wire party"
| "claim_body (Portrait picture detail) =
     framed (framed [] (case picture of Some hash \<Rightarrow> hash | None \<Rightarrow> [])) detail"
| "claim_body (Chronicled size' root entry leaf) =
     framed (framed (framed (framed [] (u64_be size')) root) (u64_be entry)) leaf"

fun claim_check :: "claim \<Rightarrow> kin_refusal + unit" where
  "claim_check (Called name) =
     (if name = [] then Inl (Malformed ''empty name'')
      else if MAX_AVOWED_NAME_BYTES < length name then Inl (Bound ''name bytes'')
      else Inr ())"
| "claim_check (Portrait picture detail) =
     (if MAX_DETAIL_BYTES < length detail then Inl (Bound ''detail bytes'') else Inr ())"
| "claim_check (Chronicled size' root entry leaf) =
     (if size' \<le> entry then Inl (Malformed ''chronicle entry'') else Inr ())"
| "claim_check _ = Inr ()"

section \<open>Links, avowals and retirements\<close>

record device_link =
  dl_devices :: "string \<times> string"
  dl_nonce :: bytes
  dl_epoch :: u64
  dl_signatures :: "bytes \<times> bytes"

record avowal =
  av_by :: string
  av_subject :: party
  av_claim :: claim
  av_audience :: audience
  av_epoch :: u64
  av_nonce :: bytes
  av_signature :: bytes

record retirement =
  rt_by :: string
  rt_device :: string
  rt_epoch :: u64
  rt_nonce :: bytes
  rt_signature :: bytes

datatype kin_entry = Link device_link | Retire retirement | Avow avowal

text \<open>Third-party code: ed25519 signing, hex encoding, and the three postcard encodings.\<close>

record kin_env =
  ke_crypto :: crypto
  ke_public :: "bytes \<Rightarrow> bytes"
  ke_sign :: "bytes \<Rightarrow> bytes \<Rightarrow> bytes"
  ke_hex :: "bytes \<Rightarrow> string"
  ke_link :: "device_link \<Rightarrow> bytes option"
  ke_entry :: "kin_entry \<Rightarrow> bytes option"
  ke_commit :: "u16 \<Rightarrow> string \<Rightarrow> u64 \<Rightarrow> string list \<Rightarrow> bytes option"

definition device_from_seed :: "kin_env \<Rightarrow> bytes \<Rightarrow> string" where
  "device_from_seed env seed = ke_hex env (ke_public env seed)"

definition sign_detached :: "kin_env \<Rightarrow> bytes \<Rightarrow> bytes \<Rightarrow> bytes" where
  "sign_detached env seed preimage = ke_sign env seed preimage"

definition verify_detached :: "kin_env \<Rightarrow> bytes \<Rightarrow> bytes \<Rightarrow> bytes \<Rightarrow> bool" where
  "verify_detached env pk preimage signature =
     (key_usable (ke_crypto env) pk \<and> verify_strict (ke_crypto env) pk preimage signature)"

definition key_of :: "kin_env \<Rightarrow> string \<Rightarrow> kin_refusal + bytes" where
  "key_of env device = (case key_bytes (ke_crypto env) device of None \<Rightarrow> Inl Unaddressable | Some k \<Rightarrow> Inr k)"

definition link_preimage :: "string \<times> string \<Rightarrow> bytes \<Rightarrow> u64 \<Rightarrow> bytes" where
  "link_preimage devices nonce epoch =
     foldl framed [] [LINK_DOMAIN, fst devices, snd devices, nonce, u64_be epoch]"

definition link_seal :: "kin_env \<Rightarrow> bytes \<Rightarrow> bytes \<Rightarrow> bytes \<Rightarrow> u64 \<Rightarrow> kin_refusal + device_link" where
  "link_seal env first second nonce epoch =
     (let a = device_from_seed env first; b = device_from_seed env second
      in if device_key a = device_key b then Inl NotDistinct
         else let (devices, seeds) = (if device_key a \<le> device_key b then ((a, b), (first, second))
                                      else ((b, a), (second, first)));
                  preimage = link_preimage devices nonce epoch
              in Inr \<lparr>dl_devices = devices, dl_nonce = nonce, dl_epoch = epoch,
                   dl_signatures = (sign_detached env (fst seeds) preimage, sign_detached env (snd seeds) preimage)\<rparr>)"

definition link_side :: "kin_env \<Rightarrow> bytes \<Rightarrow> string \<Rightarrow> bytes \<Rightarrow> kin_refusal + unit" where
  \<comment> \<open>one turn of the loop over the devices and their signatures\<close>
  "link_side env preimage device signature =
     try_then (key_of env device) (\<lambda>key.
       if verify_detached env key preimage signature then Inr () else Inl NotMutual)"

definition link_verify :: "kin_env \<Rightarrow> device_link \<Rightarrow> kin_refusal + unit" where
  "link_verify env l =
     (let (a, b) = dl_devices l
      in if device_key a = device_key b then Inl NotDistinct
         else if device_key b < device_key a then Inl (Malformed ''link device order'')
         else let preimage = link_preimage (dl_devices l) (dl_nonce l) (dl_epoch l)
              in try_then (link_side env preimage a (fst (dl_signatures l)))
                   (\<lambda>_. link_side env preimage b (snd (dl_signatures l))))"

definition link_names :: "device_link \<Rightarrow> string \<Rightarrow> bool" where
  "link_names l device =
     (device_key (fst (dl_devices l)) = device_key device \<or> device_key (snd (dl_devices l)) = device_key device)"

definition link_half :: "kin_env \<Rightarrow> bytes \<Rightarrow> string \<Rightarrow> bytes \<Rightarrow> u64 \<Rightarrow> bytes" where
  "link_half env seed other nonce epoch =
     (let me = device_from_seed env seed;
          devices = (if device_key me \<le> device_key other then (me, other) else (other, me))
      in sign_detached env seed (link_preimage devices nonce epoch))"

definition link_assemble ::
  "kin_env \<Rightarrow> string \<times> bytes \<Rightarrow> string \<times> bytes \<Rightarrow> bytes \<Rightarrow> u64 \<Rightarrow> kin_refusal + device_link" where
  "link_assemble env a b nonce epoch =
     (if device_key (fst a) = device_key (fst b) then Inl NotDistinct
      else let (first, second) = (if device_key (fst a) \<le> device_key (fst b) then (a, b) else (b, a));
               link = \<lparr>dl_devices = (fst first, fst second), dl_nonce = nonce, dl_epoch = epoch,
                       dl_signatures = (snd first, snd second)\<rparr>
           in try_then (link_verify env link) (\<lambda>_. Inr link))"

definition avowal_preimage ::
  "string \<Rightarrow> party \<Rightarrow> claim \<Rightarrow> audience \<Rightarrow> u64 \<Rightarrow> bytes \<Rightarrow> bytes" where
  "avowal_preimage by' subject claim audience epoch nonce =
     foldl framed [] [AVOWAL_DOMAIN, by', party_wire subject, claim_tag claim, claim_body claim,
       audience_tag audience, audience_body audience, u64_be epoch, nonce]"

definition avowal_seal ::
  "kin_env \<Rightarrow> bytes \<Rightarrow> party \<Rightarrow> claim \<Rightarrow> audience \<Rightarrow> u64 \<Rightarrow> bytes \<Rightarrow> kin_refusal + avowal" where
  "avowal_seal env seed subject claim audience epoch nonce =
     try_then (claim_check claim) (\<lambda>_.
       let by' = device_from_seed env seed;
           preimage = avowal_preimage by' subject claim audience epoch nonce
       in Inr \<lparr>av_by = by', av_subject = subject, av_claim = claim, av_audience = audience,
            av_epoch = epoch, av_nonce = nonce, av_signature = sign_detached env seed preimage\<rparr>)"

definition avowal_verify :: "kin_env \<Rightarrow> avowal \<Rightarrow> kin_refusal + unit" where
  "avowal_verify env a =
     try_then (claim_check (av_claim a)) (\<lambda>_.
     try_then (key_of env (av_by a)) (\<lambda>key.
       let preimage = avowal_preimage (av_by a) (av_subject a) (av_claim a) (av_audience a) (av_epoch a) (av_nonce a)
       in if verify_detached env key preimage (av_signature a) then Inr () else Inl BadSignature))"

definition legible_to :: "kin_env \<Rightarrow> avowal \<Rightarrow> kin_standing \<Rightarrow> kin_refusal + unit" where
  "legible_to env a st =
     try_then (avowal_verify env a) (\<lambda>_. if admits (av_audience a) st then Inr () else Inl OutsideAudience)"

definition is_self_signed :: "avowal \<Rightarrow> string list \<Rightarrow> bool" where
  "is_self_signed a devices = list_ex (\<lambda>d. device_key d = device_key (av_by a)) devices"

definition retire_preimage :: "string \<Rightarrow> string \<Rightarrow> u64 \<Rightarrow> bytes \<Rightarrow> bytes" where
  "retire_preimage by' device epoch nonce =
     foldl framed [] [RETIRE_DOMAIN, by', device, u64_be epoch, nonce]"

definition retire_seal :: "kin_env \<Rightarrow> bytes \<Rightarrow> string \<Rightarrow> u64 \<Rightarrow> bytes \<Rightarrow> kin_refusal + retirement" where
  "retire_seal env seed device epoch nonce =
     (let by' = device_from_seed env seed;
          preimage = retire_preimage by' device epoch nonce
      in Inr \<lparr>rt_by = by', rt_device = device, rt_epoch = epoch, rt_nonce = nonce,
           rt_signature = sign_detached env seed preimage\<rparr>)"

definition retire_verify :: "kin_env \<Rightarrow> retirement \<Rightarrow> kin_refusal + unit" where
  "retire_verify env r =
     try_then (key_of env (rt_by r)) (\<lambda>key.
       let preimage = retire_preimage (rt_by r) (rt_device r) (rt_epoch r) (rt_nonce r)
       in if verify_detached env key preimage (rt_signature r) then Inr () else Inl BadSignature)"

section \<open>Entries\<close>

definition entry_id :: "kin_env \<Rightarrow> kin_entry \<Rightarrow> kin_refusal + string" where
  "entry_id env e =
     (case ke_entry env e of
        None \<Rightarrow> Inl (Malformed ''entry encoding'')
      | Some bytes \<Rightarrow> Inr (ke_hex env (derive_key (ke_crypto env) ENTRY_CONTEXT bytes)))"

fun entry_verify :: "kin_env \<Rightarrow> kin_entry \<Rightarrow> kin_refusal + unit" where
  "entry_verify env (Link l) = link_verify env l"
| "entry_verify env (Retire r) = retire_verify env r"
| "entry_verify env (Avow a) = avowal_verify env a"

fun entry_audience :: "kin_entry \<Rightarrow> audience" where
  "entry_audience (Avow a) = av_audience a"
| "entry_audience _ = Own"

fun structural :: "kin_entry \<Rightarrow> bool" where
  "structural (Avow _) = False"
| "structural _ = True"

fun claim_key :: "claim \<Rightarrow> claim" where
  "claim_key (Sponsors p) = Sponsors (party_key p)"
| "claim_key c = c"

fun audience_key :: "audience \<Rightarrow> audience" where
  "audience_key (Correspondent p) = Correspondent (party_key p)"
| "audience_key a = a"

fun entry_key :: "kin_entry \<Rightarrow> kin_entry" where
  "entry_key (Link l) = Link (l\<lparr>dl_devices := map_prod device_key device_key (dl_devices l)\<rparr>)"
| "entry_key (Retire r) = Retire (r\<lparr>rt_by := device_key (rt_by r), rt_device := device_key (rt_device r)\<rparr>)"
| "entry_key (Avow a) = Avow (a\<lparr>av_by := device_key (av_by a), av_subject := party_key (av_subject a),
     av_claim := claim_key (av_claim a), av_audience := audience_key (av_audience a)\<rparr>)"

section \<open>The signed head\<close>

record kin_head =
  kh_by :: string
  kh_profile :: string
  kh_semantics :: u16
  kh_epoch :: u64
  kh_entries :: "string list"
  kh_commitment :: bytes
  kh_signature :: bytes

definition head_commit :: "kin_env \<Rightarrow> string \<Rightarrow> u16 \<Rightarrow> u64 \<Rightarrow> string list \<Rightarrow> bytes" where
  "head_commit env profile semantics epoch entries =
     (case ke_commit env semantics profile epoch entries of
        None \<Rightarrow> replicate 32 (CHR 0x00)
      | Some bytes \<Rightarrow> derive_key (ke_crypto env) COMMITMENT_CONTEXT bytes)"

definition head_preimage :: "bytes \<Rightarrow> string \<Rightarrow> bytes" where
  "head_preimage commitment by' = foldl framed [] [HEAD_DOMAIN, by', commitment]"

definition head_verify :: "kin_env \<Rightarrow> kin_head \<Rightarrow> kin_refusal + unit" where
  "head_verify env h =
     try_then (refuse_if (kh_semantics h \<noteq> KINSHIP_SEMANTICS) Semantics) (\<lambda>_.
     try_then (refuse_if (MAX_ENTRIES < length (kh_entries h)) (Bound ''entries'')) (\<lambda>_.
     try_then (refuse_if (list_ex (\<lambda>(a, b). b \<le> a) (zip (kh_entries h) (tl (kh_entries h))))
       (Malformed ''head entry order'')) (\<lambda>_.
     try_then (refuse_if (head_commit env (kh_profile h) (kh_semantics h) (kh_epoch h) (kh_entries h)
         \<noteq> kh_commitment h) Diverged) (\<lambda>_.
     try_then (key_of env (kh_by h)) (\<lambda>key.
       if verify_detached env key (head_preimage (kh_commitment h) (kh_by h)) (kh_signature h)
       then Inr () else Inl BadSignature)))))"

section \<open>The log\<close>

record kinship_log =
  kl_profile :: string
  kl_entries :: "kin_entry list"

definition PROFILE_PREFIX :: string where "PROFILE_PREFIX = ''prf_''"

definition profile_from_genesis :: "kin_env \<Rightarrow> bytes \<Rightarrow> string" where
  "profile_from_genesis env bytes =
     id_from_digest PROFILE_PREFIX (take 16 (derive_key (ke_crypto env) PROFILE_CONTEXT bytes))"

definition log_found :: "kin_env \<Rightarrow> device_link \<Rightarrow> kin_refusal + kinship_log" where
  "log_found env genesis =
     try_then (link_verify env genesis) (\<lambda>_.
       case ke_link env genesis of
         None \<Rightarrow> Inl (Malformed ''genesis encoding'')
       | Some bytes \<Rightarrow>
           Inr \<lparr>kl_profile = profile_from_genesis env bytes, kl_entries = [Link genesis]\<rparr>)"

definition log_append :: "kin_env \<Rightarrow> kin_entry \<Rightarrow> kinship_log \<Rightarrow> kin_refusal + kinship_log" where
  "log_append env e l =
     (if MAX_ENTRIES \<le> length (kl_entries l) then Inl (Bound ''entries'')
      else try_then (entry_verify env e) (\<lambda>_. Inr (l\<lparr>kl_entries := kl_entries l @ [e]\<rparr>)))"

definition contains_device :: "string list \<Rightarrow> string \<Rightarrow> bool" where
  "contains_device ds d = list_ex (\<lambda>x. device_key x = device_key d) ds"

definition push_device :: "string \<Rightarrow> string list \<Rightarrow> string list" where
  "push_device d ds = (if contains_device ds d then ds else ds @ [d])"

fun devices_step :: "kin_entry \<Rightarrow> string list \<times> string list \<Rightarrow> string list \<times> string list" where
  "devices_step (Link l) (live, retired) =
     (push_device (snd (dl_devices l)) (push_device (fst (dl_devices l)) live), retired)"
| "devices_step (Retire r) (live, retired) = (live, push_device (rt_device r) retired)"
| "devices_step (Avow _) (live, retired) = (live, retired)"

definition log_devices :: "kinship_log \<Rightarrow> string list" where
  "log_devices l =
     (let (live, retired) = fold devices_step (kl_entries l) ([], [])
      in sort_key device_key (filter (\<lambda>d. \<not> contains_device retired d) live))"

definition entry_ids :: "kin_env \<Rightarrow> kinship_log \<Rightarrow> kin_refusal + string list" where
  "entry_ids env l =
     try_then (collect_result (entry_id env) (kl_entries l)) (\<lambda>ids. Inr (remdups_adj (sort ids)))"

definition log_head :: "kin_env \<Rightarrow> bytes \<Rightarrow> u64 \<Rightarrow> kinship_log \<Rightarrow> kin_refusal + kin_head" where
  "log_head env seed epoch l =
     (let by' = device_from_seed env seed
      in try_then (entry_ids env l) (\<lambda>entries.
           let commitment = head_commit env (kl_profile l) KINSHIP_SEMANTICS epoch entries
           in Inr \<lparr>kh_by = by', kh_profile = kl_profile l, kh_semantics = KINSHIP_SEMANTICS,
                kh_epoch = epoch, kh_entries = entries, kh_commitment = commitment,
                kh_signature = sign_detached env seed (head_preimage commitment by')\<rparr>))"

record projection =
  pj_profile :: string
  pj_bodies :: "kin_entry list"
  pj_head :: "kin_head option"

definition push_structural :: "kin_entry \<Rightarrow> kin_entry list \<Rightarrow> kin_entry list" where
  "push_structural e bodies =
     (if structural e \<and> \<not> list_ex (\<lambda>b. entry_key b = entry_key e) bodies then bodies @ [e] else bodies)"

definition log_project ::
  "kin_env \<Rightarrow> bytes \<Rightarrow> u64 \<Rightarrow> kin_standing \<Rightarrow> kinship_log \<Rightarrow> kin_refusal + projection" where
  "log_project env seed epoch st l =
     try_then (log_head env seed epoch l) (\<lambda>head.
       let bodies = filter (\<lambda>e. admits (entry_audience e) st) (kl_entries l);
           signer = device_from_seed env seed;
           genesis_rooted = (case kl_entries l of Link g # _ \<Rightarrow> link_names g signer | _ \<Rightarrow> False)
       in Inr \<lparr>pj_profile = kl_profile l,
            pj_bodies = (if genesis_rooted then bodies else fold push_structural (kl_entries l) bodies),
            pj_head = Some head\<rparr>)"

definition log_rooted :: "kinship_log \<Rightarrow> string \<Rightarrow> bool" where
  "log_rooted l device = contains_device (log_devices l) device"

section \<open>What a reader checks\<close>

fun is_ok :: "'e + 'a \<Rightarrow> bool" where
  "is_ok (Inr _) = True"
| "is_ok (Inl _) = False"

definition reach_device :: "string \<Rightarrow> string list \<times> bool \<Rightarrow> string list \<times> bool" where
  "reach_device d s = (if contains_device (fst s) d then s else (fst s @ [d], True))"

definition reach_entry :: "kin_env \<Rightarrow> kin_entry \<Rightarrow> string list \<times> bool \<Rightarrow> string list \<times> bool" where
  "reach_entry env e s =
     (case e of
        Link l \<Rightarrow>
          if is_ok (link_verify env l) \<and>
             (contains_device (fst s) (fst (dl_devices l)) \<or> contains_device (fst s) (snd (dl_devices l)))
          then reach_device (snd (dl_devices l)) (reach_device (fst (dl_devices l)) s)
          else s
      | _ \<Rightarrow> s)"

definition retire_live :: "kin_env \<Rightarrow> string list \<Rightarrow> kin_entry \<Rightarrow> string list \<Rightarrow> string list" where
  "retire_live env reachable e live =
     (case e of
        Retire r \<Rightarrow>
          if is_ok (retire_verify env r) \<and> contains_device reachable (rt_by r)
          then filter (\<lambda>d. device_key d \<noteq> device_key (rt_device r)) live else live
      | _ \<Rightarrow> live)"

definition link_keys :: "kin_entry list \<Rightarrow> string set" where
  "link_keys es = (\<Union>e \<in> set es. case e of
     Link l \<Rightarrow> {device_key (fst (dl_devices l)), device_key (snd (dl_devices l))} | _ \<Rightarrow> {})"

definition device_keys :: "string list \<Rightarrow> string set" where
  "device_keys ds = device_key ` set ds"

lemma contains_device_iff: "contains_device ds d \<longleftrightarrow> device_key d \<in> device_keys ds"
  by (simp add: contains_device_def device_keys_def list_ex_iff image_iff) metis

lemma device_keys_simps [simp]:
  "device_keys [] = {}"
  "device_keys (d # ds) = insert (device_key d) (device_keys ds)"
  "device_keys (ds @ es) = device_keys ds \<union> device_keys es"
  by (auto simp: device_keys_def)

lemma reach_entry_grows:
  "device_keys (fst s) \<subseteq> device_keys (fst (reach_entry env e s)) \<and>
   device_keys (fst (reach_entry env e s)) \<subseteq> device_keys (fst s) \<union> link_keys [e] \<and>
   snd (reach_entry env e s) = (snd s \<or> device_keys (fst (reach_entry env e s)) \<noteq> device_keys (fst s))"
  by (auto simp: reach_entry_def reach_device_def contains_device_iff link_keys_def split: kin_entry.splits)

lemma reach_fold_grows:
  "device_keys (fst s) \<subseteq> device_keys (fst (fold (reach_entry env) es s)) \<and>
   device_keys (fst (fold (reach_entry env) es s)) \<subseteq> device_keys (fst s) \<union> link_keys es \<and>
   snd (fold (reach_entry env) es s) = (snd s \<or> device_keys (fst (fold (reach_entry env) es s)) \<noteq> device_keys (fst s))"
proof (induction es arbitrary: s)
  case (Cons e es)
  have "link_keys (e # es) = link_keys [e] \<union> link_keys es" by (auto simp: link_keys_def)
  with Cons.IH [of "reach_entry env e s"] reach_entry_grows [of s env e] show ?case by auto
qed simp

function reach_loop :: "kin_env \<Rightarrow> kin_entry list \<Rightarrow> string list \<Rightarrow> string list" where
  "reach_loop env bodies reachable =
     (let (reachable', grew) = fold (reach_entry env) bodies (reachable, False)
      in if \<not> grew then reachable' else reach_loop env bodies reachable')"
  by pat_completeness auto
termination
proof (relation "measure (\<lambda>(env, bodies, r). card (link_keys bodies - device_keys r))")
  fix env bodies reachable x reachable' grew
  assume x: "x = fold (reach_entry env) bodies (reachable, False)" "(reachable', grew) = x" "\<not> \<not> grew"
  have fin: "finite (link_keys bodies)" by (auto simp: link_keys_def split: kin_entry.splits)
  have "device_keys reachable \<subset> device_keys reachable'" "device_keys reachable' \<subseteq> device_keys reachable \<union> link_keys bodies"
    using reach_fold_grows [of "(reachable, False)" env bodies] x(3)
    by (simp_all add: psubset_eq x(2) [symmetric] flip: x(1))
  then have "link_keys bodies - device_keys reachable' \<subset> link_keys bodies - device_keys reachable" by blast
  then show "((env, bodies, reachable'), env, bodies, reachable)
      \<in> measure (\<lambda>(env, bodies, r). card (link_keys bodies - device_keys r))"
    using fin by (simp add: psubset_card_mono)
qed simp

declare reach_loop.simps [simp del]

definition signer_rooted :: "kin_env \<Rightarrow> device_link \<Rightarrow> kin_entry list \<Rightarrow> string \<Rightarrow> bool" where
  "signer_rooted env genesis bodies signer =
     (if \<not> is_ok (link_verify env genesis) then False
      else let reachable = reach_loop env bodies [fst (dl_devices genesis), snd (dl_devices genesis)];
               live = fold (retire_live env reachable) bodies reachable
           in contains_device live signer)"

definition deliver :: "kin_env \<Rightarrow> kin_standing \<Rightarrow> string list \<Rightarrow> kin_entry \<Rightarrow> kin_refusal + string" where
  \<comment> \<open>one turn of the loop over the delivered bodies\<close>
  "deliver env st listed e =
     try_then (entry_verify env e) (\<lambda>_.
     try_then (entry_id env e) (\<lambda>i.
     try_then (refuse_if (i \<notin> set listed) Unlisted) (\<lambda>_.
     try_then (refuse_if (\<not> structural e \<and> \<not> admits (entry_audience e) st) OutsideAudience) (\<lambda>_. Inr i))))"

definition projection_verify :: "kin_env \<Rightarrow> projection \<Rightarrow> kin_standing \<Rightarrow> kin_refusal + unit" where
  "projection_verify env p st =
     (case pj_head p of
        None \<Rightarrow> Inl Uncommitted
      | Some head \<Rightarrow>
          try_then (head_verify env head) (\<lambda>_.
          try_then (refuse_if (kh_profile head \<noteq> pj_profile p) (Malformed ''projection profile'')) (\<lambda>_.
          try_then (collect_result (deliver env st (kh_entries head)) (pj_bodies p)) (\<lambda>delivered.
            refuse_if (length (kh_entries head) < length (remdups_adj (sort delivered))) Diverged))))"

definition undelivered :: "kin_env \<Rightarrow> projection \<Rightarrow> string list" where
  "undelivered env p =
     (case pj_head p of
        None \<Rightarrow> []
      | Some head \<Rightarrow>
          let delivered = List.map_filter (\<lambda>e. case entry_id env e of Inr i \<Rightarrow> Some i | Inl _ \<Rightarrow> None) (pj_bodies p)
          in filter (\<lambda>i. i \<notin> set delivered) (kh_entries head))"

definition withheld :: "kin_env \<Rightarrow> projection \<Rightarrow> string \<Rightarrow> kin_refusal + unit" where
  "withheld env p i =
     (case pj_head p of
        None \<Rightarrow> Inl Uncommitted
      | Some head \<Rightarrow>
          try_then (refuse_if (i \<notin> set (kh_entries head)) Unlisted) (\<lambda>_.
            refuse_if (i \<in> set (undelivered env p)) Omission))"

section \<open>Frames are unambiguous\<close>

lemma length_be_bytes [simp]: "length (be_bytes k n) = k"
  by (induction k arbitrary: n) auto

lemma char_of_eq: "(char_of m :: char) = char_of n \<longleftrightarrow> m mod 256 = (n::nat) mod 256"
  by (metis char_of_mod_256 of_char_of)

lemma be_bytes_eq: "m < 256 ^ k \<Longrightarrow> n < 256 ^ k \<Longrightarrow> be_bytes k m = be_bytes k n \<longleftrightarrow> m = n"
proof (induction k arbitrary: m n)
  case (Suc k)
  then have "m div 256 < 256 ^ k" "n div 256 < 256 ^ k" by (auto simp: less_mult_imp_div_less mult.commute)
  with Suc.IH have "be_bytes (Suc k) m = be_bytes (Suc k) n \<longleftrightarrow> m div 256 = n div 256 \<and> m mod 256 = n mod 256"
    by (simp add: char_of_eq)
  then show ?case by (metis div_mult_mod_eq)
qed simp

lemma u64_be_eq [simp]: "u64_be v = u64_be w \<longleftrightarrow> v = w"
proof -
  have "unat u < 256 ^ 8" for u :: u64 using unsigned_less [of u] by (simp add: word_less_nat_alt)
  then show ?thesis by (simp add: u64_be_def be_bytes_eq word_unat_eq_iff)
qed

lemma length_u64_be [simp]: "length (u64_be w) = 8"
  by (simp add: u64_be_def)

definition frame :: "bytes \<Rightarrow> bytes" where
  "frame part = framed [] part"

lemma foldl_framed: "foldl framed out parts = out @ concat (map frame parts)"
  by (induction parts arbitrary: out) (auto simp: framed_def frame_def Let_def)

lemma framed_frame: "framed out part = out @ frame part"
  by (simp add: framed_def frame_def Let_def)

definition framable :: "bytes \<Rightarrow> bool" where
  "framable part \<longleftrightarrow> length part < 2 ^ 64"

lemma frame_eq:
  assumes "framable a" "framable b"
  shows "frame a @ x = frame b @ y \<longleftrightarrow> a = b \<and> x = y"
proof
  assume eq: "frame a @ x = frame b @ y"
  then have "be_bytes 8 (length a) = be_bytes 8 (length b)"
    using assms by (simp add: frame_def framed_def framable_def)
  then have "length a = length b"
    using assms by (subst (asm) be_bytes_eq) (simp_all add: framable_def)
  with eq assms show "a = b \<and> x = y" by (simp add: frame_def framed_def framable_def)
qed simp

lemma frame_not_Nil [simp]: "frame a \<noteq> []"
proof -
  have "8 \<le> length (frame a)" by (simp add: frame_def framed_def Let_def)
  then show ?thesis by auto
qed

lemma frames_eq:
  "list_all framable ps \<Longrightarrow> list_all framable qs \<Longrightarrow>
     concat (map frame ps) = concat (map frame qs) \<longleftrightarrow> ps = qs"
proof (induction ps arbitrary: qs)
  case Nil
  then show ?case by (cases qs) auto
next
  case (Cons p ps)
  then show ?case by (cases qs) (auto simp: frame_eq)
qed

section \<open>Well-formed parties\<close>

fun party_ok :: "party \<Rightarrow> bool" where
  "party_ok (DeviceParty d) = lower_hex d"
| "party_ok (ActorParty s a) = (id_parse SPACE_PREFIX s = Some s \<and> (\<exists>h. lower_hex h \<and> a = ACTOR_PREFIX @ h))"

lemma ulid_plain: "to_ascii_uppercase c \<in> set CROCKFORD \<Longrightarrow> plain c \<and> c \<noteq> CHR '':''"
proof -
  assume c: "to_ascii_uppercase c \<in> set CROCKFORD"
  have digits: "list_all (\<lambda>c. plain c \<and> c \<noteq> CHR '':'') CROCKFORD" by code_simp
  show ?thesis
  proof (cases "CHR ''a'' \<le> c \<and> c \<le> CHR ''z''")
    case True
    then show ?thesis by (auto simp: plain_def less_eq_char_def less_char_def)
  next
    case False
    with c have "c \<in> set CROCKFORD" by (auto simp: to_ascii_uppercase_def)
    with digits show ?thesis by (simp add: list_all_iff)
  qed
qed

lemma space_ok: "id_parse SPACE_PREFIX s = Some s' \<Longrightarrow> s' = s \<and> list_all (\<lambda>c. plain c \<and> c \<noteq> CHR '':'') s"
proof -
  assume *: "id_parse SPACE_PREFIX s = Some s'"
  then obtain u where "s = SPACE_PREFIX @ u" "valid_ulid u" "s' = s"
    by (auto simp: id_parse_def strip_prefix_Some split: option.splits if_splits)
  moreover have "list_all (\<lambda>c. plain c \<and> c \<noteq> CHR '':'') SPACE_PREFIX" by code_simp
  ultimately show ?thesis using ulid_plain by (auto simp: valid_ulid_def list_all_iff)
qed

lemma actor_ok: "actor_parse a = Some a' \<Longrightarrow> \<exists>h. lower_hex h \<and> a' = ACTOR_PREFIX @ h"
  using hexdigit_cases
  by (fastforce simp: actor_parse_def lower_hex_def list_all_iff Let_def split: if_splits option.splits)

lemma party_wire_plain: "party_ok p \<Longrightarrow> list_all plain (party_wire p)"
proof -
  have "list_all plain (''actor:'')" "list_all plain ACTOR_PREFIX" "list_all plain '':''" by code_simp+
  then show "party_ok p \<Longrightarrow> list_all plain (party_wire p)"
    by (cases p) (auto simp: lower_hexD list_all_iff dest!: space_ok lower_hexD(4))
qed

lemma hex_not_actor: "lower_hex d \<Longrightarrow> strip_prefix ''actor:'' d = None"
proof -
  assume d: "lower_hex d"
  show ?thesis
  proof (cases "strip_prefix ''actor:'' d")
    case (Some r)
    then have "CHR '':'' \<in> set d" by (simp add: strip_prefix_Some)
    with lower_hexD(3) [OF d] show ?thesis by blast
  qed simp
qed

lemma parse_wire_ok: "party_ok p \<Longrightarrow> parse_wire (party_wire p) = Inr p"
proof (cases p)
  case (DeviceParty d)
  moreover assume "party_ok p"
  ultimately show ?thesis
    using lower_hexD(4) [of d]
    by (simp add: parse_wire_def trim_all_plain hex_not_actor device_parse_canonical)
next
  case (ActorParty s a)
  assume ok: "party_ok p"
  with ActorParty obtain h where h: "a = ACTOR_PREFIX @ h" "lower_hex h" and s: "id_parse SPACE_PREFIX s = Some s" by auto
  have "trim (party_wire p) = ''actor:'' @ (s @ CHR '':'' # a)"
    using trim_all_plain [OF party_wire_plain [OF ok]] ActorParty by simp
  moreover have "split_once (CHR '':'') (s @ CHR '':'' # a) = Some (s, a)"
    using space_ok [OF s] by (intro split_once_append) (auto simp: list_all_iff)
  moreover have "actor_parse a = Some a" using actor_parse_canonical h by simp
  ultimately show ?thesis
    unfolding parse_wire_def Let_def ActorParty
    by (simp only: strip_prefix_append option.case prod.case s)
qed

lemma parse_wire_sound:
  assumes "parse_wire raw = Inr p"
  shows "party_ok p"
proof -
  consider (dev) d where "device_parse (trim raw) = Some d" "p = DeviceParty d"
    | (act) s s' a a' where "id_parse SPACE_PREFIX s = Some s'" "actor_parse a = Some a'" "p = ActorParty s' a'"
    using assms by (auto simp: parse_wire_def Let_def split: option.splits prod.splits)
  then show ?thesis
  proof cases
    case act
    then show ?thesis using space_ok [of s s'] actor_ok [of a a'] by simp
  qed (simp add: device_parse_lower)
qed

lemma party_wire_eq: "party_ok p \<Longrightarrow> party_ok q \<Longrightarrow> party_wire p = party_wire q \<longleftrightarrow> p = q"
  by (metis parse_wire_ok sum.inject(2))

section \<open>Preimages bind every field\<close>

fun claim_ok :: "claim \<Rightarrow> bool" where
  "claim_ok (Sponsors p) = party_ok p"
| "claim_ok (Portrait picture detail) = ((\<forall>h. picture = Some h \<longrightarrow> length h = 32) \<and> framable detail)"
| "claim_ok (Chronicled _ root _ leaf) = (length root = 32 \<and> length leaf = 32)"
| "claim_ok _ = True"

fun audience_ok :: "audience \<Rightarrow> bool" where
  "audience_ok (Correspondent p) = party_ok p"
| "audience_ok _ = True"

lemma framable_small: "length p \<le> 32 \<Longrightarrow> framable p"
  by (simp add: framable_def)

lemma claim_eq:
  assumes "claim_ok c" "claim_ok d" "claim_tag c = claim_tag d" "claim_body c = claim_body d"
  shows "c = d"
proof (cases c)
  case c: (Portrait pic det)
  then obtain pic' det' where d: "d = Portrait pic' det'" using assms(3) by (cases d) auto
  have "concat (map frame [case pic of Some h \<Rightarrow> h | None \<Rightarrow> [], det]) =
      concat (map frame [case pic' of Some h \<Rightarrow> h | None \<Rightarrow> [], det'])"
    using assms(4) by (simp add: c d framed_frame)
  then have "[case pic of Some h \<Rightarrow> h | None \<Rightarrow> [], det] = [case pic' of Some h \<Rightarrow> h | None \<Rightarrow> [], det']"
    using assms(1,2) c d
    by (subst (asm) frames_eq) (auto simp: framable_small split: option.splits)
  then show ?thesis using assms(1,2) by (auto simp: c d split: option.splits)
next
  case c: (Chronicled s r e l)
  then obtain s' r' e' l' where d: "d = Chronicled s' r' e' l'" using assms(3) by (cases d) auto
  have "concat (map frame [u64_be s, r, u64_be e, l]) = concat (map frame [u64_be s', r', u64_be e', l'])"
    using assms(4) by (simp add: c d framed_frame)
  then have "[u64_be s, r, u64_be e, l] = [u64_be s', r', u64_be e', l']"
    using assms(1,2) c d by (subst (asm) frames_eq) (auto simp: framable_small)
  then show ?thesis by (simp add: c d)
qed (use assms in \<open>cases d; simp add: party_wire_eq\<close>)+

lemma audience_eq:
  "audience_ok a \<Longrightarrow> audience_ok b \<Longrightarrow> audience_tag a = audience_tag b \<Longrightarrow> audience_body a = audience_body b \<Longrightarrow> a = b"
  by (cases a; cases b) (auto simp: party_wire_eq)

definition avowal_ok :: "avowal \<Rightarrow> bool" where
  \<comment> \<open>ids of the shape their parsers accept and fields that fit in memory\<close>
  "avowal_ok a \<longleftrightarrow> party_ok (av_subject a) \<and> claim_ok (av_claim a) \<and> audience_ok (av_audience a) \<and>
     list_all framable [av_by a, party_wire (av_subject a), claim_body (av_claim a),
       audience_body (av_audience a), av_nonce a]"

definition avowal_signed :: "avowal \<Rightarrow> bytes" where
  \<comment> \<open>the preimage \<open>Avowal::verify\<close> recomputes\<close>
  "avowal_signed a =
     avowal_preimage (av_by a) (av_subject a) (av_claim a) (av_audience a) (av_epoch a) (av_nonce a)"

lemma tags_framable: "framable (claim_tag c)" "framable (audience_tag a)" "framable AVOWAL_DOMAIN"
proof -
  show "framable (claim_tag c)" by (cases c) (simp_all add: framable_def)
  show "framable (audience_tag a)" by (cases a) (simp_all add: framable_def)
  show "framable AVOWAL_DOMAIN" by (simp add: framable_def AVOWAL_DOMAIN_def)
qed

lemma avowal_signed_inj:
  assumes "avowal_ok a" "avowal_ok b" "avowal_signed a = avowal_signed b"
  shows "a\<lparr>av_signature := s\<rparr> = b\<lparr>av_signature := s\<rparr>"
proof -
  let ?parts = "\<lambda>a. [AVOWAL_DOMAIN, av_by a, party_wire (av_subject a), claim_tag (av_claim a),
     claim_body (av_claim a), audience_tag (av_audience a), audience_body (av_audience a),
     u64_be (av_epoch a), av_nonce a]"
  have ok: "list_all framable (?parts a)" "list_all framable (?parts b)"
    using assms(1,2) tags_framable by (simp_all add: avowal_ok_def framable_small)
  have "concat (map frame (?parts a)) = concat (map frame (?parts b))"
    using assms(3) by (simp add: avowal_signed_def avowal_preimage_def foldl_framed del: foldl_Cons)
  then have parts: "?parts a = ?parts b" using frames_eq [OF ok] by blast
  then have "av_subject a = av_subject b" "av_claim a = av_claim b" "av_audience a = av_audience b"
    using assms(1,2) by (auto simp: avowal_ok_def party_wire_eq intro: claim_eq audience_eq)
  with parts show ?thesis by (cases a; cases b) simp
qed

section \<open>Reachability over links\<close>

definition link_ends :: "device_link \<Rightarrow> string set" where
  "link_ends l = {device_key (fst (dl_devices l)), device_key (snd (dl_devices l))}"

definition linked :: "kin_env \<Rightarrow> kin_entry list \<Rightarrow> (string \<times> string) set" where
  \<comment> \<open>two device keys are linked when a verified link names both\<close>
  "linked env bodies = {(a, b). \<exists>l. Link l \<in> set bodies \<and> link_verify env l = Inr () \<and>
     a \<in> link_ends l \<and> b \<in> link_ends l}"

lemma is_ok_unit: "is_ok (r :: 'e + unit) \<longleftrightarrow> r = Inr ()"
  by (cases r) auto

lemma reach_entry_eq:
  "device_keys (fst (reach_entry env e s)) =
     device_keys (fst s) \<union>
     (case e of Link l \<Rightarrow> if link_verify env l = Inr () \<and> link_ends l \<inter> device_keys (fst s) \<noteq> {} then link_ends l else {}
        | _ \<Rightarrow> {})"
  by (auto simp: reach_entry_def reach_device_def contains_device_iff is_ok_unit link_ends_def split: kin_entry.splits)

lemma reach_fold_sound:
  assumes "set es \<subseteq> set bodies" "device_keys (fst s) \<subseteq> (linked env bodies)\<^sup>* `` K"
  shows "device_keys (fst (fold (reach_entry env) es s)) \<subseteq> (linked env bodies)\<^sup>* `` K"
  using assms
proof (induction es arbitrary: s)
  case (Cons e es)
  have "device_keys (fst (reach_entry env e s)) \<subseteq> (linked env bodies)\<^sup>* `` K"
  proof
    fix d assume "d \<in> device_keys (fst (reach_entry env e s))"
    then consider "d \<in> device_keys (fst s)"
      | l a where "e = Link l" "link_verify env l = Inr ()" "a \<in> link_ends l" "a \<in> device_keys (fst s)" "d \<in> link_ends l"
      by (auto simp: reach_entry_eq split: kin_entry.splits if_splits)
    then show "d \<in> (linked env bodies)\<^sup>* `` K"
    proof cases
      case (2 l a)
      then have "(a, d) \<in> linked env bodies" using Cons.prems(1) by (auto simp: linked_def)
      moreover have "a \<in> (linked env bodies)\<^sup>* `` K" using 2 Cons.prems(2) by blast
      ultimately show ?thesis by (auto intro: rtrancl_into_rtrancl)
    qed (use Cons.prems in blast)
  qed
  with Cons show ?case by simp
qed simp

lemma reach_fold_closed:
  assumes "device_keys (fst (fold (reach_entry env) es s)) = device_keys (fst s)"
  shows "linked env es `` device_keys (fst s) \<subseteq> device_keys (fst s)"
  using assms
proof (induction es arbitrary: s)
  case (Cons e es)
  have grow: "device_keys (fst s) \<subseteq> device_keys (fst (reach_entry env e s))"
      "device_keys (fst (reach_entry env e s)) \<subseteq> device_keys (fst (fold (reach_entry env) es (reach_entry env e s)))"
    using reach_entry_grows reach_fold_grows by blast+
  with Cons.prems have same: "device_keys (fst (reach_entry env e s)) = device_keys (fst s)" by auto
  then have "linked env es `` device_keys (fst s) \<subseteq> device_keys (fst s)"
    using Cons.IH [of "reach_entry env e s"] Cons.prems by simp
  moreover have "linked env [e] `` device_keys (fst s) \<subseteq> device_keys (fst s)"
    using same unfolding reach_entry_eq by (auto simp: linked_def split: kin_entry.splits if_splits)
  moreover have "linked env (e # es) = linked env [e] \<union> linked env es" by (auto simp: linked_def)
  ultimately show ?case by blast
qed (simp add: linked_def)

lemma reach_absorb:
  assumes "A \<subseteq> B" "B \<subseteq> R\<^sup>* `` A"
  shows "R\<^sup>* `` B = R\<^sup>* `` A"
proof
  have "R\<^sup>* `` B \<subseteq> R\<^sup>* `` (R\<^sup>* `` A)" using assms(2) by blast
  then show "R\<^sup>* `` B \<subseteq> R\<^sup>* `` A" by (simp flip: relcomp_Image)
qed (use assms(1) in blast)

lemma reach_loop_eq:
  "device_keys (reach_loop env bodies r) = (linked env bodies)\<^sup>* `` device_keys r"
proof (induction env bodies r rule: reach_loop.induct)
  case (1 env bodies r)
  obtain r' grew where x: "fold (reach_entry env) bodies (r, False) = (r', grew)" by force
  have sub: "device_keys r \<subseteq> device_keys r'" and grew: "grew = (device_keys r' \<noteq> device_keys r)"
    using reach_fold_grows [of "(r, False)" env bodies] x by auto
  have sound: "device_keys r' \<subseteq> (linked env bodies)\<^sup>* `` device_keys r"
    using reach_fold_sound [of bodies bodies "(r, False)" env "device_keys r"] x by auto
  show ?case
  proof (cases grew)
    case True
    have "device_keys (reach_loop env bodies r) = (linked env bodies)\<^sup>* `` device_keys r'"
      using 1 [OF x [symmetric] refl] True x by (simp add: reach_loop.simps [of env bodies r])
    also have "\<dots> = (linked env bodies)\<^sup>* `` device_keys r"
      using sub sound by (rule reach_absorb)
    finally show ?thesis .
  next
    case False
    then have eq: "device_keys r' = device_keys r" using grew by simp
    then have "linked env bodies `` device_keys r \<subseteq> device_keys r"
      using reach_fold_closed [of env bodies "(r, False)"] x by simp
    then have "(linked env bodies)\<^sup>* `` device_keys r = device_keys r" by (rule Image_closed_trancl)
    with False x eq show ?thesis by (simp add: reach_loop.simps [of env bodies r])
  qed
qed

lemma retire_live_eq:
  "device_keys (fold (retire_live env reachable) es live) =
     device_keys live - {device_key (rt_device r) | r. Retire r \<in> set es \<and> retire_verify env r = Inr () \<and>
        device_key (rt_by r) \<in> device_keys reachable}"
proof (induction es arbitrary: live)
  case (Cons e es)
  have "device_keys (retire_live env reachable e live) =
     device_keys live - {device_key (rt_device r) | r. Retire r = e \<and> retire_verify env r = Inr () \<and>
        device_key (rt_by r) \<in> device_keys reachable}"
    by (auto simp: retire_live_def device_keys_def contains_device_iff is_ok_unit split: kin_entry.splits)
  then show ?case unfolding fold_Cons comp_def Cons by auto
qed simp

section \<open>The log as an append-only log\<close>

lemma log_append_Inr:
  "log_append env e l = Inr l' \<longleftrightarrow> length (kl_entries l) < MAX_ENTRIES \<and> entry_verify env e = Inr () \<and>
     l' = l\<lparr>kl_entries := kl_entries l @ [e]\<rparr>"
  by (auto simp: log_append_def result_simps)

interpretation kin_log: append_only "log_append env" kl_entries "\<lambda>e. e" MAX_ENTRIES
  "\<lambda>e. entry_verify env e = Inr ()" for env
  by unfold_locales (auto simp: log_append_Inr)

lemma append_profile: "append_all (log_append env) es l = Inr l' \<Longrightarrow> kl_profile l' = kl_profile l"
proof (induction es arbitrary: l)
  case (Cons e es)
  then obtain m where "log_append env e l = Inr m" "append_all (log_append env) es m = Inr l'"
    by (auto simp: result_simps)
  with Cons.IH show ?case by (auto simp: log_append_Inr)
qed simp

section \<open>Devices of a log\<close>

lemma push_device_keys [simp]: "device_keys (push_device d ds) = insert (device_key d) (device_keys ds)"
  by (auto simp: push_device_def contains_device_iff)

definition named_keys :: "kin_entry list \<Rightarrow> string set" where
  "named_keys es = (\<Union>l \<in> {l. Link l \<in> set es}. link_ends l)"

definition retired_keys :: "kin_entry list \<Rightarrow> string set" where
  "retired_keys es = {device_key (rt_device r) | r. Retire r \<in> set es}"

lemma devices_fold:
  "device_keys (fst (fold devices_step es s)) = device_keys (fst s) \<union> named_keys es \<and>
   device_keys (snd (fold devices_step es s)) = device_keys (snd s) \<union> retired_keys es"
proof (induction es arbitrary: s)
  case (Cons e es)
  have "device_keys (fst (devices_step e s)) = device_keys (fst s) \<union> named_keys [e] \<and>
      device_keys (snd (devices_step e s)) = device_keys (snd s) \<union> retired_keys [e]"
    by (cases e; cases s) (auto simp: named_keys_def retired_keys_def link_ends_def)
  moreover have "named_keys (e # es) = named_keys [e] \<union> named_keys es"
      "retired_keys (e # es) = retired_keys [e] \<union> retired_keys es"
    by (auto simp: named_keys_def retired_keys_def)
  ultimately show ?case using Cons [of "devices_step e s"] by auto
qed (simp add: named_keys_def retired_keys_def)

lemma log_devices_keys: "device_keys (log_devices l) = named_keys (kl_entries l) - retired_keys (kl_entries l)"
proof -
  obtain live retired where f: "fold devices_step (kl_entries l) ([], []) = (live, retired)" by force
  then have "device_keys live = named_keys (kl_entries l)" "device_keys retired = retired_keys (kl_entries l)"
    using devices_fold [of "kl_entries l" "([], [])"] by simp_all
  with f show ?thesis
    by (auto simp: log_devices_def contains_device_iff device_keys_def)
qed

section \<open>Signing\<close>

definition signing_ok :: "kin_env \<Rightarrow> bytes \<Rightarrow> bool" where
  \<comment> \<open>the id of a seed decodes to its public key, under which its signatures verify\<close>
  "signing_ok env seed \<longleftrightarrow>
     key_bytes (ke_crypto env) (device_from_seed env seed) = Some (ke_public env seed) \<and>
     (\<forall>m. verify_detached env (ke_public env seed) m (sign_detached env seed m))"

lemma key_of_seed: "signing_ok env seed \<Longrightarrow> key_of env (device_from_seed env seed) = Inr (ke_public env seed)"
  by (simp add: signing_ok_def key_of_def)

lemma signed_verifies: "signing_ok env seed \<Longrightarrow> verify_detached env (ke_public env seed) m (sign_detached env seed m)"
  by (simp add: signing_ok_def)

lemmas signing = key_of_seed signed_verifies

lemma link_side_ok: "signing_ok env seed \<Longrightarrow>
    link_side env m (device_from_seed env seed) (sign_detached env seed m) = Inr ()"
  by (simp add: link_side_def signing)

lemma link_seal_verify:
  assumes "signing_ok env s" "signing_ok env t" "link_seal env s t nonce epoch = Inr l"
  shows "link_verify env l = Inr ()"
  using assms by (auto simp: link_seal_def link_verify_def Let_def link_side_ok split: if_splits)

lemma assemble_halves:
  assumes "signing_ok env s" "signing_ok env t"
  shows "link_assemble env (device_from_seed env s, link_half env s (device_from_seed env t) nonce epoch)
       (device_from_seed env t, link_half env t (device_from_seed env s) nonce epoch) nonce epoch =
     link_seal env s t nonce epoch"
  using assms
  by (auto simp: link_assemble_def link_half_def link_seal_def Let_def link_verify_def link_side_ok)

lemma avowal_seal_verify:
  assumes "signing_ok env seed" "avowal_seal env seed subject claim audience epoch nonce = Inr a"
  shows "avowal_verify env a = Inr ()"
  using assms by (auto simp: avowal_seal_def avowal_verify_def result_simps Let_def signing)

lemma retire_seal_verify:
  assumes "signing_ok env seed" "retire_seal env seed device epoch nonce = Inr r"
  shows "retire_verify env r = Inr ()"
  using assms by (auto simp: retire_seal_def retire_verify_def Let_def signing)

section \<open>Honest projections\<close>

definition log_wf :: "kin_env \<Rightarrow> kinship_log \<Rightarrow> bool" where
  "log_wf env l \<longleftrightarrow> list_all (\<lambda>e. entry_verify env e = Inr ()) (kl_entries l) \<and> length (kl_entries l) \<le> MAX_ENTRIES"

lemma log_run_wf:
  assumes "log_found env g = Inr l0" "append_all (log_append env) es l0 = Inr l"
  shows "kl_entries l = Link g # es \<and> kl_profile l = kl_profile l0 \<and> log_wf env l"
proof -
  have l0: "kl_entries l0 = [Link g]" "link_verify env g = Inr ()"
    using assms(1) by (auto simp: log_found_def result_simps split: option.splits)
  then have "length (kl_entries l0) \<le> MAX_ENTRIES" by (simp add: MAX_ENTRIES_def)
  then show ?thesis
    using kin_log.run_items [OF assms(2)] kin_log.run_fits [OF assms(2)] kin_log.run_capacity [OF assms(2)]
      append_profile [OF assms(2)] l0
    by (simp add: log_wf_def)
qed

lemma no_bad_pair: "sorted_wrt (<) xs \<Longrightarrow> \<not> list_ex (\<lambda>(a, b). b \<le> (a::'a::linorder)) (zip xs (tl xs))"
  by (induction xs rule: induct_list012) (auto simp: not_le)

lemma sorted_ids: "sorted_wrt (<) (remdups_adj (sort (ids :: string list)))"
  using sorted_distinct_remdups_adj [of "sort ids"] by (simp add: strict_sorted_iff)

lemma log_head_verify:
  assumes "signing_ok env seed" "length (kl_entries l) \<le> MAX_ENTRIES" "log_head env seed epoch l = Inr h"
  shows "head_verify env h = Inr ()"
proof -
  obtain ids where ids: "collect_result (entry_id env) (kl_entries l) = Inr ids" and
    h: "kh_entries h = remdups_adj (sort ids)" "kh_by h = device_from_seed env seed"
      "kh_semantics h = KINSHIP_SEMANTICS"
      "kh_commitment h = head_commit env (kh_profile h) (kh_semantics h) (kh_epoch h) (kh_entries h)"
      "kh_signature h = sign_detached env seed (head_preimage (kh_commitment h) (kh_by h))"
    using assms(3) by (auto simp: log_head_def entry_ids_def result_simps Let_def)
  have "length ids = length (kl_entries l)"
    using ids by (auto simp: collect_result_Inr dest: list_all2_lengthD)
  then have "\<not> MAX_ENTRIES < length (kh_entries h)"
    using remdups_adj_length [of "sort ids"] assms(2) h(1) by simp
  moreover have "\<not> list_ex (\<lambda>(a, b). b \<le> a) (zip (kh_entries h) (tl (kh_entries h)))"
    unfolding h(1) by (rule no_bad_pair [OF sorted_ids])
  ultimately show ?thesis
    by (simp add: head_verify_def h(2-5) signing [OF assms(1)])
qed

lemma project_bodies:
  "set bodies \<subseteq> set (fold push_structural es bodies) \<and>
   set (fold push_structural es bodies) \<subseteq> set bodies \<union> {e \<in> set es. structural e}"
proof (induction es arbitrary: bodies)
  case (Cons x es)
  have "set (push_structural x bodies) = set bodies \<or> structural x \<and> set (push_structural x bodies) = insert x (set bodies)"
    by (auto simp: push_structural_def)
  with Cons [of "push_structural x bodies"] show ?case by auto
qed simp

lemma deliver_ok:
  "entry_verify env e = Inr () \<Longrightarrow> entry_id env e = Inr i \<Longrightarrow> i \<in> set listed \<Longrightarrow>
   structural e \<or> admits (entry_audience e) st \<Longrightarrow> deliver env st listed e = Inr i"
  by (auto simp: deliver_def)

lemma project_verify:
  assumes "signing_ok env seed" "log_wf env l" "log_project env seed epoch st l = Inr p"
  shows "projection_verify env p st = Inr ()"
    and "\<forall>e \<in> set (pj_bodies p). e \<in> set (kl_entries l) \<and> (structural e \<or> admits (entry_audience e) st)"
    and "\<forall>e \<in> set (kl_entries l). admits (entry_audience e) st \<longrightarrow> e \<in> set (pj_bodies p)"
proof -
  obtain head where h: "log_head env seed epoch l = Inr head" "pj_head p = Some head" "pj_profile p = kl_profile l"
    and cases: "pj_bodies p = filter (\<lambda>e. admits (entry_audience e) st) (kl_entries l) \<or>
      pj_bodies p = fold push_structural (kl_entries l) (filter (\<lambda>e. admits (entry_audience e) st) (kl_entries l))"
    using assms(3) by (auto simp: log_project_def result_simps Let_def split: if_splits)
  show src: "\<forall>e \<in> set (pj_bodies p). e \<in> set (kl_entries l) \<and> (structural e \<or> admits (entry_audience e) st)"
    using cases project_bodies [of "filter (\<lambda>e. admits (entry_audience e) st) (kl_entries l)" "kl_entries l"] by auto
  show "\<forall>e \<in> set (kl_entries l). admits (entry_audience e) st \<longrightarrow> e \<in> set (pj_bodies p)"
    using cases project_bodies [of "filter (\<lambda>e. admits (entry_audience e) st) (kl_entries l)" "kl_entries l"] by auto
  obtain ids where ids: "collect_result (entry_id env) (kl_entries l) = Inr ids" "kh_entries head = remdups_adj (sort ids)"
      "kh_profile head = kl_profile l"
    using h(1) by (auto simp: log_head_def entry_ids_def result_simps Let_def)
  have each: "\<exists>i. deliver env st (kh_entries head) e = Inr i \<and> i \<in> set (kh_entries head)" if "e \<in> set (pj_bodies p)" for e
  proof -
    have e: "e \<in> set (kl_entries l)" using src that by blast
    then obtain i where "entry_id env e = Inr i" "i \<in> set ids"
      using ids(1) unfolding collect_result_Inr list_all2_conv_all_nth in_set_conv_nth by metis
    moreover have "entry_verify env e = Inr ()" using assms(2) e by (simp add: log_wf_def list_all_iff)
    ultimately show ?thesis using src that ids(2) by (auto intro!: deliver_ok)
  qed
  then obtain f where f: "deliver env st (kh_entries head) e = Inr (f e) \<and> f e \<in> set (kh_entries head)" if "e \<in> set (pj_bodies p)" for e
    by metis
  have col: "collect_result (deliver env st (kh_entries head)) (pj_bodies p) = Inr (map f (pj_bodies p))"
    using f by (auto simp: collect_result_Inr list_all2_conv_all_nth)
  have "length (remdups_adj (sort (map f (pj_bodies p)))) = card (f ` set (pj_bodies p))"
    using sorted_distinct_remdups_adj [of "sort (map f (pj_bodies p))"] by (simp add: distinct_card [symmetric])
  also have "\<dots> \<le> card (set (kh_entries head))" using f by (intro card_mono) auto
  also have "\<dots> \<le> length (kh_entries head)" by (rule card_length)
  finally have "\<not> length (kh_entries head) < length (remdups_adj (sort (map f (pj_bodies p))))" by simp
  then show "projection_verify env p st = Inr ()"
    using log_head_verify [OF assms(1) _ h(1)] assms(2) h ids(3) col
    by (simp add: projection_verify_def log_wf_def)
qed

section \<open>Properties\<close>

text \<open>A concrete environment for the examples: a seed is its public key, hex writes the bytes twice,
  an entry is encoded by its nonce, and every signature verifies.\<close>

definition demo_kin :: kin_env where
  "demo_kin = \<lparr>ke_crypto = demo_crypto, ke_public = (\<lambda>s. s), ke_sign = (\<lambda>_ _. replicate 64 (CHR ''s'')),
     ke_hex = (\<lambda>b. b @ b), ke_link = (\<lambda>l. Some (dl_nonce l)),
     ke_entry = (\<lambda>e. Some (case e of Link l \<Rightarrow> dl_nonce l | Retire r \<Rightarrow> rt_nonce r | Avow a \<Rightarrow> av_nonce a)),
     ke_commit = (\<lambda>_ _ _ _. Some ''c'')\<rparr>"

definition demo_seed :: "char \<Rightarrow> bytes" where
  "demo_seed c = replicate 32 c"

lemma demo_signing: "signing_ok demo_kin (demo_seed c)"
  by (simp add: signing_ok_def demo_kin_def demo_crypto_def demo_seed_def key_bytes_def
      device_from_seed_def verify_detached_def)

definition demo_link :: "char \<Rightarrow> char \<Rightarrow> char \<Rightarrow> device_link" where
  "demo_link a b n = \<lparr>dl_devices = (demo_key a, demo_key b), dl_nonce = [n], dl_epoch = 0,
     dl_signatures = (replicate 64 (CHR ''s''), replicate 64 (CHR ''s''))\<rparr>"

definition demo_retire :: "char \<Rightarrow> char \<Rightarrow> char \<Rightarrow> retirement" where
  "demo_retire a b n = \<lparr>rt_by = demo_key a, rt_device = demo_key b, rt_epoch = 0, rt_nonce = [n],
     rt_signature = replicate 64 (CHR ''s'')\<rparr>"

definition demo_avowal :: "char \<Rightarrow> audience \<Rightarrow> char \<Rightarrow> avowal" where
  "demo_avowal c aud n = \<lparr>av_by = demo_key c, av_subject = DeviceParty (demo_key c), av_claim = Called ''kim'',
     av_audience = aud, av_epoch = 1, av_nonce = [n], av_signature = replicate 64 (CHR ''s'')\<rparr>"

text \<open>C14: the signer of a projection is rooted exactly when it should be. \<open>signer_rooted\<close> accepts a
  device if and only if the genesis link verifies, the device is connected to it by verified links
  among the carried entries, and no verified retirement by a device that is itself connected names
  it; a stranger's retirement severs nothing. Devices are compared by key, not by spelling.\<close>

theorem signer_rooted_exact:
  "signer_rooted env genesis bodies signer \<longleftrightarrow>
     link_verify env genesis = Inr () \<and>
     device_key signer \<in> (linked env bodies)\<^sup>* `` link_ends genesis \<and>
     (\<nexists>r. Retire r \<in> set bodies \<and> retire_verify env r = Inr () \<and>
        device_key (rt_by r) \<in> (linked env bodies)\<^sup>* `` link_ends genesis \<and>
        device_key (rt_device r) = device_key signer)"
proof -
  have ends: "device_keys [fst (dl_devices genesis), snd (dl_devices genesis)] = link_ends genesis"
    by (simp add: link_ends_def)
  show ?thesis
    by (auto simp: signer_rooted_def Let_def is_ok_unit contains_device_iff retire_live_eq reach_loop_eq ends
        simp del: device_keys_simps)
qed

text \<open>An honest projection verifies and discloses exactly what it may. For a log whose entries
  verify, whatever reader and epoch, the projection the holder draws passes the reader's own checks;
  every entry the reader's audience admits is in it, and an avowal is in it only if admitted.\<close>

theorem honest_projection_verifies:
  assumes "signing_ok env seed" "log_found env g = Inr l0" "append_all (log_append env) es l0 = Inr l"
    and "log_project env seed epoch st l = Inr p"
  shows "projection_verify env p st = Inr () \<and>
    (\<forall>e \<in> set (Link g # es). admits (entry_audience e) st \<longrightarrow> e \<in> set (pj_bodies p)) \<and>
    (\<forall>a. Avow a \<in> set (pj_bodies p) \<longrightarrow> Avow a \<in> set es \<and> admits (av_audience a) st)"
proof -
  have run: "kl_entries l = Link g # es" "log_wf env l" using log_run_wf [OF assms(2,3)] by simp_all
  show ?thesis
    using project_verify [OF assms(1) run(2) assms(4)] run(1) by fastforce
qed

definition demo_reader :: kin_standing where
  "demo_reader = \<lparr>ks_device = None, ks_actors = [], ks_spaces = [], ks_own = False, ks_kin = False\<rparr>"

definition demo_entries :: "kin_entry list" where
  "demo_entries = [Link (demo_link (CHR ''2'') (CHR ''3'') (CHR ''b'')), Avow (demo_avowal (CHR ''3'') Public (CHR ''c'')),
     Avow (demo_avowal (CHR ''3'') Own (CHR ''d''))]"

definition demo_kin_log :: kinship_log where
  "demo_kin_log = \<lparr>kl_profile = profile_from_genesis demo_kin ''a'',
     kl_entries = Link (demo_link (CHR ''1'') (CHR ''2'') (CHR ''a'')) # demo_entries\<rparr>"

lemma demo_found:
  "log_found demo_kin (demo_link (CHR ''1'') (CHR ''2'') (CHR ''a'')) =
     Inr \<lparr>kl_profile = profile_from_genesis demo_kin ''a'',
       kl_entries = [Link (demo_link (CHR ''1'') (CHR ''2'') (CHR ''a''))]\<rparr>"
proof -
  have "is_ok (link_verify demo_kin (demo_link (CHR ''1'') (CHR ''2'') (CHR ''a'')))" by code_simp
  moreover have "ke_link demo_kin (demo_link (CHR ''1'') (CHR ''2'') (CHR ''a'')) = Some ''a''"
    by (simp add: demo_kin_def demo_link_def)
  ultimately show ?thesis by (simp add: log_found_def is_ok_unit)
qed

theorem honest_projection_verifies_witness:
  "\<exists>p. log_project demo_kin (demo_seed (CHR ''3'')) 7 demo_reader demo_kin_log = Inr p \<and>
     projection_verify demo_kin p demo_reader = Inr () \<and>
     Avow (demo_avowal (CHR ''3'') Own (CHR ''d'')) \<notin> set (pj_bodies p)"
proof -
  let ?g = "demo_link (CHR ''1'') (CHR ''2'') (CHR ''a'')"
  have f: "log_found demo_kin ?g = Inr \<lparr>kl_profile = profile_from_genesis demo_kin ''a'', kl_entries = [Link ?g]\<rparr>"
    by (rule demo_found)
  have "list_all (\<lambda>e. is_ok (entry_verify demo_kin e)) demo_entries" by code_simp
  then have a: "append_all (log_append demo_kin) demo_entries
      \<lparr>kl_profile = profile_from_genesis demo_kin ''a'', kl_entries = [Link ?g]\<rparr> = Inr demo_kin_log"
    by (simp add: is_ok_unit demo_entries_def demo_kin_log_def log_append_def MAX_ENTRIES_def)
  have ok: "is_ok (log_project demo_kin (demo_seed (CHR ''3'')) 7 demo_reader demo_kin_log)" by code_simp
  then obtain p where p: "log_project demo_kin (demo_seed (CHR ''3'')) 7 demo_reader demo_kin_log = Inr p"
    by (cases "log_project demo_kin (demo_seed (CHR ''3'')) 7 demo_reader demo_kin_log") auto
  have "\<not> admits (av_audience (demo_avowal (CHR ''3'') Own (CHR ''d''))) demo_reader"
    by (simp add: demo_avowal_def demo_reader_def)
  then show ?thesis using p honest_projection_verifies [OF demo_signing f a p] by blast
qed

text \<open>The signature of an avowal binds every field. Two avowals whose ids have the shape the
  parsers accept and whose preimages coincide agree in signer, subject, claim, audience, epoch and
  nonce: an avowal signed for one audience cannot be presented as made to another.\<close>

theorem avowal_preimage_binds:
  assumes "avowal_ok a" "avowal_ok b"
    and "avowal_preimage (av_by a) (av_subject a) (av_claim a) (av_audience a) (av_epoch a) (av_nonce a) =
         avowal_preimage (av_by b) (av_subject b) (av_claim b) (av_audience b) (av_epoch b) (av_nonce b)"
  shows "a\<lparr>av_signature := s\<rparr> = b\<lparr>av_signature := s\<rparr>"
  using assms by (intro avowal_signed_inj) (simp_all add: avowal_signed_def)

theorem avowal_preimage_binds_witness:
  "(let a = demo_avowal (CHR ''3'') Own (CHR ''d'') in
     avowal_ok a \<and> a\<lparr>av_signature := ''t''\<rparr> = (a\<lparr>av_signature := ''u''\<rparr>)\<lparr>av_signature := ''t''\<rparr>)"
proof -
  let ?a = "demo_avowal (CHR ''3'') Own (CHR ''d'')"
  have k: "lower_hex (demo_key (CHR ''3''))" by (simp add: lower_hex_def demo_key_def list_all_iff)
  have ok: "avowal_ok ?a" "avowal_ok (?a\<lparr>av_signature := ''u''\<rparr>)"
    using k by (simp_all add: avowal_ok_def demo_avowal_def framable_def lower_hex_def)
  have "?a\<lparr>av_signature := ''t''\<rparr> = (?a\<lparr>av_signature := ''u''\<rparr>)\<lparr>av_signature := ''t''\<rparr>"
    by (rule avowal_preimage_binds [OF ok]) (simp add: demo_avowal_def)
  with ok show ?thesis by simp
qed

text \<open>Parsing a party's wire spelling gives back the party: whatever \<open>parse_wire\<close> accepts, its
  canonical spelling parses to the same party.\<close>

theorem party_wire_roundtrip:
  assumes "parse_wire raw = Inr p"
  shows "parse_wire (party_wire p) = Inr p"
  using parse_wire_ok [OF parse_wire_sound [OF assms]] .

theorem party_wire_roundtrip_witness:
  "parse_wire ('' '' @ replicate 64 (CHR ''A'')) = Inr (DeviceParty (replicate 64 (CHR ''a''))) \<and>
   parse_wire (party_wire (DeviceParty (replicate 64 (CHR ''a'')))) = Inr (DeviceParty (replicate 64 (CHR ''a'')))"
proof -
  have p: "parse_wire ('' '' @ replicate 64 (CHR ''A'')) = Inr (DeviceParty (replicate 64 (CHR ''a'')))" by code_simp
  show ?thesis using p party_wire_roundtrip [OF p] by blast
qed

text \<open>A link assembled from two halves, each signed where its seed lives, is exactly the link
  \<open>seal\<close> would have made with both seeds at hand, refusals included, and it verifies.\<close>

theorem halves_assemble_to_seal:
  assumes "signing_ok env s" "signing_ok env t"
  shows "link_assemble env (device_from_seed env s, link_half env s (device_from_seed env t) nonce epoch)
       (device_from_seed env t, link_half env t (device_from_seed env s) nonce epoch) nonce epoch =
     link_seal env s t nonce epoch \<and>
     (\<forall>l. link_seal env s t nonce epoch = Inr l \<longrightarrow> link_verify env l = Inr ())"
  using assemble_halves [OF assms] link_seal_verify [OF assms] by simp

theorem halves_assemble_to_seal_witness:
  "\<exists>l. link_seal demo_kin (demo_seed (CHR ''2'')) (demo_seed (CHR ''1'')) ''n'' 0 = Inr l \<and>
     dl_devices l = (demo_key (CHR ''1''), demo_key (CHR ''2'')) \<and> link_verify demo_kin l = Inr ()"
proof -
  let ?l = "demo_link (CHR ''1'') (CHR ''2'') (CHR ''n'')"
  have "device_from_seed demo_kin (demo_seed c) = demo_key c" for c
    by (simp add: device_from_seed_def demo_kin_def demo_seed_def demo_key_def flip: replicate_add)
  moreover have "device_key (demo_key (CHR ''1'')) < device_key (demo_key (CHR ''2''))" by code_simp
  moreover have "sign_detached demo_kin s m = replicate 64 (CHR ''s'')" for s m
    by (simp add: sign_detached_def demo_kin_def)
  ultimately have l: "link_seal demo_kin (demo_seed (CHR ''2'')) (demo_seed (CHR ''1'')) ''n'' 0 = Inr ?l"
    by (simp add: link_seal_def Let_def demo_link_def not_le less_imp_neq [symmetric])
  have "dl_devices ?l = (demo_key (CHR ''1''), demo_key (CHR ''2''))" by (simp add: demo_link_def)
  then show ?thesis
    using l halves_assemble_to_seal [OF demo_signing demo_signing, of "CHR ''2''" "CHR ''1''" "''n''" 0] by blast
qed

text \<open>The authored side and the reader's side answer differently. \<open>KinshipLog::rooted\<close> is
  documented as "link-reachable from the genesis and not retired", the answer \<open>signer_rooted\<close> gives a
  reader; it asks for neither reachability nor a retirement's author. Here a log admits a link between
  two strangers and a stranger's retirement of device 2: the log calls stranger 8 rooted and device 2
  not, and the reader decides both the other way.\<close>

theorem rooted_differs_from_signer_rooted:
  "(let g = demo_link (CHR ''1'') (CHR ''2'') (CHR ''a'');
        es = [Link (demo_link (CHR ''8'') (CHR ''9'') (CHR ''b'')), Retire (demo_retire (CHR ''9'') (CHR ''2'') (CHR ''c''))]
    in \<exists>l0 l. log_found demo_kin g = Inr l0 \<and> append_all (log_append demo_kin) es l0 = Inr l \<and>
         log_rooted l (demo_key (CHR ''8'')) \<and> \<not> signer_rooted demo_kin g (kl_entries l) (demo_key (CHR ''8'')) \<and>
         \<not> log_rooted l (demo_key (CHR ''2'')) \<and> signer_rooted demo_kin g (kl_entries l) (demo_key (CHR ''2'')))"
proof -
  define g where "g = demo_link (CHR ''1'') (CHR ''2'') (CHR ''a'')"
  define es where "es = [Link (demo_link (CHR ''8'') (CHR ''9'') (CHR ''b'')), Retire (demo_retire (CHR ''9'') (CHR ''2'') (CHR ''c''))]"
  define l0 where "l0 = \<lparr>kl_profile = profile_from_genesis demo_kin ''a'', kl_entries = [Link g]\<rparr>"
  define l where "l = \<lparr>kl_profile = profile_from_genesis demo_kin ''a'', kl_entries = Link g # es\<rparr>"
  have "log_found demo_kin g = Inr l0" unfolding g_def l0_def by (rule demo_found)
  moreover have "append_all (log_append demo_kin) es l0 = Inr l"
  proof -
    have "list_all (\<lambda>e. is_ok (entry_verify demo_kin e)) es" unfolding es_def by code_simp
    then show ?thesis by (simp add: is_ok_unit es_def l0_def l_def log_append_def MAX_ENTRIES_def)
  qed
  moreover have "log_rooted l (demo_key (CHR ''8''))" unfolding l_def g_def es_def by code_simp
  moreover have "\<not> signer_rooted demo_kin g (kl_entries l) (demo_key (CHR ''8''))"
    unfolding l_def g_def es_def by code_simp
  moreover have "\<not> log_rooted l (demo_key (CHR ''2''))" unfolding l_def g_def es_def by code_simp
  moreover have "signer_rooted demo_kin g (kl_entries l) (demo_key (CHR ''2''))"
    unfolding l_def g_def es_def by code_simp
  ultimately show ?thesis unfolding Let_def g_def es_def by blast
qed

end
