(* ===== verification/Addressbook.thy ===== *)
theory Addressbook
  imports Kinship
begin

unbundle bit_operations_syntax

text \<open>
  The address book's view of kinship (\<^verbatim>\<open>crates/addressbook/src/registry.rs\<close>, \<^verbatim>\<open>attest.rs\<close> and
  \<^verbatim>\<open>announce.rs\<close>): the registry of profiles, authored here or absorbed from a correspondent's
  projection, the device set each resolves to, the names and portraits a reader may read, and the
  announcement that carries a projection with its genesis.

  An operation that can fail after it has changed the registry (\<open>avow_reachable\<close>, \<open>avow_portrait\<close>)
  returns its result together with the registry it leaves. The postcard encoding of an announcement
  is the record \<open>ann_codec\<close>.
\<close>

section \<open>The registry\<close>

datatype reg_failure = NotHeld | KinshipRefused kin_refusal | Unanchored | RegCodec

datatype holding = Authored kinship_log | Known projection

record kin_registry =
  rg_holdings :: "(string, holding) btree_map"

definition reg_new :: kin_registry where "reg_new = \<lparr>rg_holdings = []\<rparr>"

definition refused :: "kin_refusal + 'a \<Rightarrow> reg_failure + 'a" where
  \<comment> \<open>\<open>From<Refusal> for Failure\<close> under the \<open>?\<close> operator\<close>
  "refused r = map_sum KinshipRefused (\<lambda>a. a) r"

lemma refused_eq [result_simps]: "refused r = Inr a \<longleftrightarrow> r = Inr a" "refused r = Inl e \<longleftrightarrow> (\<exists>k. r = Inl k \<and> e = KinshipRefused k)"
  by (cases r; auto simp: refused_def)+

definition hold :: "string \<Rightarrow> holding \<Rightarrow> kin_registry \<Rightarrow> kin_registry" where
  "hold profile h r = r\<lparr>rg_holdings := bm_insert profile h (rg_holdings r)\<rparr>"

abbreviation held_at :: "kin_registry \<Rightarrow> string \<Rightarrow> holding option" where
  "held_at r profile \<equiv> map_of (rg_holdings r) profile"

definition reg_found :: "kin_env \<Rightarrow> device_link \<Rightarrow> kin_registry \<Rightarrow> reg_failure + (kin_registry \<times> string)" where
  "reg_found env genesis r =
     try_then (refused (log_found env genesis)) (\<lambda>log.
       let profile = kl_profile log
       in Inr (case held_at r profile of
                 Some (Authored _) \<Rightarrow> r
               | _ \<Rightarrow> hold profile (Authored log) r, profile))"

definition reg_extend :: "kin_env \<Rightarrow> string \<Rightarrow> kin_entry \<Rightarrow> kin_registry \<Rightarrow> reg_failure + kin_registry" where
  "reg_extend env profile entry r =
     (case held_at r profile of
        Some (Authored log) \<Rightarrow>
          try_then (refused (log_append env entry log)) (\<lambda>log'. Inr (hold profile (Authored log') r))
      | _ \<Rightarrow> Inl NotHeld)"

definition head_epoch :: "projection \<Rightarrow> u64" where
  "head_epoch p = (case pj_head p of Some h \<Rightarrow> kh_epoch h | None \<Rightarrow> 0)"

definition absorb ::
  "kin_env \<Rightarrow> projection \<Rightarrow> device_link \<Rightarrow> kin_standing \<Rightarrow> kin_registry \<Rightarrow> reg_failure + (kin_registry \<times> string)" where
  "absorb env p genesis reader r =
     try_then (refused (link_verify env genesis)) (\<lambda>_.
       case ke_link env genesis of
         None \<Rightarrow> Inl RegCodec
       | Some bytes \<Rightarrow>
           if profile_from_genesis env bytes \<noteq> pj_profile p then Inl Unanchored
           else case pj_head p of
             None \<Rightarrow> Inl Unanchored
           | Some head \<Rightarrow>
               if \<not> link_names genesis (kh_by head) \<and> \<not> signer_rooted env genesis (pj_bodies p) (kh_by head)
               then Inl Unanchored
               else try_then (refused (projection_verify env p reader)) (\<lambda>_.
                 let profile = pj_profile p
                 in Inr (case held_at r profile of
                           Some (Authored _) \<Rightarrow> r
                         | Some (Known held) \<Rightarrow>
                             if head_epoch held \<le> head_epoch p then hold profile (Known p) r else r
                         | None \<Rightarrow> hold profile (Known p) r, profile)))"

section \<open>Resolution\<close>

definition profile_claim :: "string \<Rightarrow> kin_entry \<Rightarrow> avowal option" where
  "profile_claim profile e =
     (case e of
        Avow a \<Rightarrow> (case av_claim a of Profile claimed \<Rightarrow> if claimed = profile then Some a else None | _ \<Rightarrow> None)
      | _ \<Rightarrow> None)"

definition latest_epoch :: "string \<Rightarrow> kin_entry list \<Rightarrow> u64 option" where
  "latest_epoch profile bodies =
     (case map av_epoch (List.map_filter (profile_claim profile) bodies) of
        [] \<Rightarrow> None
      | e # es \<Rightarrow> Some (fold max es e))"

fun subject_device :: "avowal \<Rightarrow> string option" where
  "subject_device a = (case av_subject a of DeviceParty d \<Rightarrow> Some d | _ \<Rightarrow> None)"

definition collect_device :: "string \<Rightarrow> u64 \<Rightarrow> kin_entry \<Rightarrow> string list \<Rightarrow> string list" where
  \<comment> \<open>one turn of the loop over the bodies\<close>
  "collect_device profile latest e devices =
     (case profile_claim profile e of
        None \<Rightarrow> devices
      | Some a \<Rightarrow>
          if av_epoch a \<noteq> latest then devices
          else case subject_device a of None \<Rightarrow> devices | Some d \<Rightarrow> push_device d devices)"

definition reachable_devices :: "string \<Rightarrow> projection \<Rightarrow> string list" where
  "reachable_devices profile p =
     (case latest_epoch profile (pj_bodies p) of
        None \<Rightarrow> []
      | Some latest \<Rightarrow> sort_key device_key (fold (collect_device profile latest) (pj_bodies p) []))"

definition reg_resolve :: "kin_registry \<Rightarrow> string \<Rightarrow> string list option" where
  "reg_resolve r profile =
     (case held_at r profile of
        None \<Rightarrow> None
      | Some (Authored log) \<Rightarrow> Some (log_devices log)
      | Some (Known p) \<Rightarrow> Some (reachable_devices profile p))"

definition reg_holds :: "kin_registry \<Rightarrow> string \<Rightarrow> bool" where
  "reg_holds r profile = bm_contains (rg_holdings r) profile"

definition reg_authored :: "kin_registry \<Rightarrow> string list" where
  "reg_authored r = map fst (filter (\<lambda>(_, h). case h of Authored _ \<Rightarrow> True | _ \<Rightarrow> False) (rg_holdings r))"

definition reg_project ::
  "kin_env \<Rightarrow> string \<Rightarrow> bytes \<Rightarrow> u64 \<Rightarrow> kin_standing \<Rightarrow> kin_registry \<Rightarrow> reg_failure + projection" where
  "reg_project env profile seed epoch reader r =
     (case held_at r profile of
        Some (Authored log) \<Rightarrow> refused (log_project env seed epoch reader log)
      | _ \<Rightarrow> Inl NotHeld)"

section \<open>Avowing\<close>

definition per_nonce :: "bytes \<Rightarrow> nat \<Rightarrow> bytes" where
  "per_nonce nonce index = nonce[15 := char_of (of_char (nonce ! 15) XOR (index AND 255) :: nat)]"

fun avow_devices ::
  "kin_env \<Rightarrow> string \<Rightarrow> audience \<Rightarrow> bytes \<Rightarrow> u64 \<Rightarrow> bytes \<Rightarrow> nat \<Rightarrow> string list \<Rightarrow> kin_registry \<Rightarrow>
   (reg_failure + nat) \<times> kin_registry" where
  "avow_devices env profile audience seed epoch nonce index [] r = (Inr index, r)"
| "avow_devices env profile audience seed epoch nonce index (device # rest) r =
     (case try_then (refused (avowal_seal env seed (DeviceParty device) (Profile profile) audience epoch (per_nonce nonce index)))
             (\<lambda>a. reg_extend env profile (Avow a) r) of
        Inl e \<Rightarrow> (Inl e, r)
      | Inr r' \<Rightarrow> avow_devices env profile audience seed epoch nonce (Suc index) rest r')"

definition avow_reachable ::
  "kin_env \<Rightarrow> string \<Rightarrow> audience \<Rightarrow> bytes \<Rightarrow> u64 \<Rightarrow> bytes \<Rightarrow> kin_registry \<Rightarrow> (reg_failure + nat) \<times> kin_registry" where
  "avow_reachable env profile audience seed epoch nonce r =
     (case held_at r profile of
        Some (Authored log) \<Rightarrow> avow_devices env profile audience seed epoch nonce 0 (log_devices log) r
      | _ \<Rightarrow> (Inl NotHeld, r))"

record portrait_input =
  pi_name :: "string option"
  pi_picture :: "bytes option"
  pi_detail :: string

definition avow_claim ::
  "kin_env \<Rightarrow> string \<Rightarrow> bytes \<Rightarrow> claim \<Rightarrow> audience \<Rightarrow> u64 \<Rightarrow> bytes \<Rightarrow> kin_registry \<Rightarrow> reg_failure + kin_registry" where
  \<comment> \<open>seal one claim about the signing device and append it\<close>
  "avow_claim env profile seed claim audience epoch nonce r =
     try_then (refused (avowal_seal env seed (DeviceParty (device_from_seed env seed)) claim audience epoch nonce))
       (\<lambda>a. reg_extend env profile (Avow a) r)"

definition avow_portrait ::
  "kin_env \<Rightarrow> string \<Rightarrow> portrait_input \<Rightarrow> audience \<Rightarrow> bytes \<Rightarrow> u64 \<Rightarrow> bytes \<Rightarrow> kin_registry \<Rightarrow>
   (reg_failure + unit) \<times> kin_registry" where
  "avow_portrait env profile portrait audience seed epoch nonce r =
     (case held_at r profile of
        Some (Authored _) \<Rightarrow>
          (case (case pi_name portrait of
                   None \<Rightarrow> Inr r
                 | Some name \<Rightarrow> avow_claim env profile seed (Called name) audience epoch nonce r) of
             Inl e \<Rightarrow> (Inl e, r)
           | Inr r' \<Rightarrow>
               (case avow_claim env profile seed (Portrait (pi_picture portrait) (pi_detail portrait)) audience epoch nonce r' of
                  Inl e \<Rightarrow> (Inl e, r')
                | Inr r'' \<Rightarrow> (Inr (), r'')))
      | _ \<Rightarrow> (Inl NotHeld, r))"

section \<open>Names and portraits\<close>

fun tier_weight :: "audience \<Rightarrow> nat" where
  "tier_weight (Correspondent _) = 8"
| "tier_weight Own = 4"
| "tier_weight Kin = 4"
| "tier_weight (Members _) = 2"
| "tier_weight Public = 1"

record resolved_name =
  rn_name :: string
  rn_declared :: bool
  rn_attestations :: nat
  rn_weight :: nat

definition u32_saturating_add :: "nat \<Rightarrow> nat \<Rightarrow> nat" where
  "u32_saturating_add a b = min (a + b) (2 ^ 32 - 1)"

definition called :: "avowal \<Rightarrow> string option" where
  "called a = (case av_claim a of Called name \<Rightarrow> Some name | _ \<Rightarrow> None)"

definition readable_names :: "kin_env \<Rightarrow> party \<Rightarrow> avowal list \<Rightarrow> kin_standing \<Rightarrow> avowal list" where
  "readable_names env subject avowals reader =
     filter (\<lambda>a. party_key (av_subject a) = party_key subject \<and> called a \<noteq> None \<and>
       is_ok (avowal_verify env a) \<and> is_ok (legible_to env a reader)) avowals"

definition support :: "bool \<Rightarrow> audience \<Rightarrow> resolved_name \<Rightarrow> resolved_name" where
  "support is_self audience slot =
     (if is_self then slot\<lparr>rn_declared := True\<rparr>
      else slot\<lparr>rn_attestations := rn_attestations slot + 1,
             rn_weight := u32_saturating_add (rn_weight slot) (tier_weight audience)\<rparr>)"

fun support_name :: "string \<Rightarrow> bool \<Rightarrow> audience \<Rightarrow> resolved_name list \<Rightarrow> resolved_name list" where
  \<comment> \<open>the slot of the name, pushed at the end when there is none\<close>
  "support_name name is_self audience [] =
     [support is_self audience \<lparr>rn_name = name, rn_declared = False, rn_attestations = 0, rn_weight = 0\<rparr>]"
| "support_name name is_self audience (slot # found) =
     (if rn_name slot = name then support is_self audience slot # found
      else slot # support_name name is_self audience found)"

definition support_order :: "resolved_name \<Rightarrow> int \<times> int \<times> string" where
  "support_order n = (- int (rn_weight n), - int (rn_attestations n), rn_name n)"

definition names_of :: "kin_env \<Rightarrow> party \<Rightarrow> avowal list \<Rightarrow> kin_standing \<Rightarrow> string list \<Rightarrow> resolved_name list" where
  "names_of env subject avowals reader subject_devices =
     sort_key support_order
       (fold (\<lambda>a found. case called a of
            None \<Rightarrow> found
          | Some name \<Rightarrow> support_name name (is_self_signed a subject_devices) (av_audience a) found)
        (readable_names env subject avowals reader) [])"

fun weigh_party :: "party \<Rightarrow> nat \<Rightarrow> (party \<times> nat) list \<Rightarrow> (party \<times> nat) list" where
  "weigh_party p w [] = [(p, w)]"
| "weigh_party p w ((q, v) # found) =
     (if party_key q = party_key p then (q, u32_saturating_add v w) # found else (q, v) # weigh_party p w found)"

definition parties_called :: "kin_env \<Rightarrow> string \<Rightarrow> avowal list \<Rightarrow> kin_standing \<Rightarrow> (party \<times> nat) list" where
  "parties_called env name avowals reader =
     sort_key (\<lambda>(p, w). (- int w, party_wire p))
       (fold (\<lambda>a found.
          if \<not> is_ok (avowal_verify env a) \<or> \<not> is_ok (legible_to env a reader) then found
          else case called a of
            None \<Rightarrow> found
          | Some claimed \<Rightarrow>
              if claimed \<noteq> name then found else weigh_party (av_subject a) (tier_weight (av_audience a)) found)
        avowals [])"

definition self_spoken :: "kin_env \<Rightarrow> avowal list \<Rightarrow> kin_standing \<Rightarrow> string list \<Rightarrow> avowal list" where
  "self_spoken env avowals reader subject_devices =
     filter (\<lambda>a. (case av_subject a of DeviceParty d \<Rightarrow> contains_device subject_devices d | _ \<Rightarrow> False) \<and>
       is_self_signed a subject_devices \<and> is_ok (avowal_verify env a) \<and> is_ok (legible_to env a reader)) avowals"

definition latest_of :: "avowal list \<Rightarrow> avowal option" where
  \<comment> \<open>\<open>max_by\<close>: of several maxima the last\<close>
  "latest_of picked =
     fold (\<lambda>a best. case best of
         None \<Rightarrow> Some a
       | Some b \<Rightarrow> if (av_epoch b, av_signature b) \<le> (av_epoch a, av_signature a) then Some a else Some b) picked None"

record resolved_portrait =
  rp_picture :: "bytes option"
  rp_detail :: string
  rp_epoch :: u64

definition portrait_of :: "kin_env \<Rightarrow> avowal list \<Rightarrow> kin_standing \<Rightarrow> string list \<Rightarrow> resolved_portrait option" where
  "portrait_of env avowals reader subject_devices =
     (case latest_of (filter (\<lambda>a. case av_claim a of Portrait _ _ \<Rightarrow> True | _ \<Rightarrow> False)
         (self_spoken env avowals reader subject_devices)) of
        None \<Rightarrow> None
      | Some a \<Rightarrow> (case av_claim a of
          Portrait picture detail \<Rightarrow> Some \<lparr>rp_picture = picture, rp_detail = detail, rp_epoch = av_epoch a\<rparr>
        | _ \<Rightarrow> None))"

definition declared_by :: "kin_env \<Rightarrow> avowal list \<Rightarrow> kin_standing \<Rightarrow> string list \<Rightarrow> string option" where
  "declared_by env avowals reader subject_devices =
     (case latest_of (filter (\<lambda>a. called a \<noteq> None) (self_spoken env avowals reader subject_devices)) of
        None \<Rightarrow> None
      | Some a \<Rightarrow> called a)"

definition avowals_of :: "kin_entry list \<Rightarrow> avowal list" where
  "avowals_of es = List.map_filter (\<lambda>e. case e of Avow a \<Rightarrow> Some a | _ \<Rightarrow> None) es"

definition spoken_of :: "kin_registry \<Rightarrow> string \<Rightarrow> (avowal list \<times> string list) option" where
  "spoken_of r profile =
     (case held_at r profile of
        None \<Rightarrow> None
      | Some (Authored log) \<Rightarrow> Some (avowals_of (kl_entries log), log_devices log)
      | Some (Known p) \<Rightarrow> Some (avowals_of (pj_bodies p), reachable_devices profile p))"

definition declared_name :: "kin_env \<Rightarrow> kin_registry \<Rightarrow> string \<Rightarrow> kin_standing \<Rightarrow> string option" where
  "declared_name env r profile reader =
     (case spoken_of r profile of None \<Rightarrow> None | Some (avowals, devices) \<Rightarrow> declared_by env avowals reader devices)"

definition reg_portrait :: "kin_env \<Rightarrow> kin_registry \<Rightarrow> string \<Rightarrow> kin_standing \<Rightarrow> resolved_portrait option" where
  "reg_portrait env r profile reader =
     (case spoken_of r profile of None \<Rightarrow> None | Some (avowals, devices) \<Rightarrow> portrait_of env avowals reader devices)"

section \<open>Announcements\<close>

definition MAX_ANNOUNCEMENT_BYTES :: nat where "MAX_ANNOUNCEMENT_BYTES = 256 * 1024"
definition ANNOUNCEMENT_VERSION :: nat where "ANNOUNCEMENT_VERSION = 1"

record announcement =
  an_version :: nat
  an_profile :: string
  an_genesis :: device_link
  an_projection :: projection

definition announcement_new :: "string \<Rightarrow> device_link \<Rightarrow> projection \<Rightarrow> announcement" where
  "announcement_new profile genesis p =
     \<lparr>an_version = ANNOUNCEMENT_VERSION, an_profile = profile, an_genesis = genesis, an_projection = p\<rparr>"

datatype ann_error = AnnInvalid | AnnBound | AnnCorrupt | AnnVersion nat

record ann_codec =
  ac_encode :: "announcement \<Rightarrow> bytes option"
  ac_decode :: "bytes \<Rightarrow> announcement option"

definition ann_encode :: "ann_codec \<Rightarrow> announcement \<Rightarrow> ann_error + bytes" where
  "ann_encode codec a =
     (case ac_encode codec a of
        None \<Rightarrow> Inl AnnInvalid
      | Some bytes \<Rightarrow> if MAX_ANNOUNCEMENT_BYTES < length bytes then Inl AnnBound else Inr bytes)"

definition ann_decode :: "ann_codec \<Rightarrow> bytes \<Rightarrow> ann_error + announcement" where
  "ann_decode codec bytes =
     (if MAX_ANNOUNCEMENT_BYTES < length bytes then Inl AnnBound
      else case ac_decode codec bytes of
        None \<Rightarrow> Inl AnnCorrupt
      | Some a \<Rightarrow> if an_version a \<noteq> ANNOUNCEMENT_VERSION then Inl (AnnVersion (an_version a)) else Inr a)"

section \<open>The registry as a state machine\<close>

inductive reg_step :: "kin_env \<Rightarrow> kin_registry \<Rightarrow> kin_registry \<Rightarrow> bool" for env where
  step_found: "reg_found env genesis r = Inr (r', profile) \<Longrightarrow> reg_step env r r'"
| step_extend: "reg_extend env profile entry r = Inr r' \<Longrightarrow> reg_step env r r'"
| step_absorb: "absorb env p genesis reader r = Inr (r', profile) \<Longrightarrow> reg_step env r r'"
| step_reach: "avow_reachable env profile audience seed epoch nonce r = (res, r') \<Longrightarrow> reg_step env r r'"
| step_portrait: "avow_portrait env profile portrait audience seed epoch nonce r = (res', r') \<Longrightarrow> reg_step env r r'"

definition anchored_projection :: "kin_env \<Rightarrow> device_link \<Rightarrow> projection \<Rightarrow> bool" where
  \<comment> \<open>the genesis hashes to the profile and roots the signer of the head\<close>
  "anchored_projection env genesis p \<longleftrightarrow>
     link_verify env genesis = Inr () \<and>
     (\<exists>bytes. ke_link env genesis = Some bytes \<and> pj_profile p = profile_from_genesis env bytes) \<and>
     (\<exists>head. pj_head p = Some head \<and>
        (link_names genesis (kh_by head) \<or> signer_rooted env genesis (pj_bodies p) (kh_by head)))"

fun holding_ok :: "kin_env \<Rightarrow> string \<Rightarrow> holding \<Rightarrow> bool" where
  "holding_ok env profile (Authored log) \<longleftrightarrow> log_wf env log \<and> kl_profile log = profile"
| "holding_ok env profile (Known p) \<longleftrightarrow> pj_profile p = profile \<and>
     (\<exists>genesis. anchored_projection env genesis p) \<and> (\<exists>reader. projection_verify env p reader = Inr ())"

definition reg_ok :: "kin_env \<Rightarrow> kin_registry \<Rightarrow> bool" where
  "reg_ok env r \<longleftrightarrow> (\<forall>profile h. held_at r profile = Some h \<longrightarrow> holding_ok env profile h)"

lemma held_hold [simp]: "held_at (hold profile h r) q = (if q = profile then Some h else held_at r q)"
  by (simp add: hold_def bm_get_insert)

lemma reg_ok_hold: "reg_ok env r \<Longrightarrow> holding_ok env profile h \<Longrightarrow> reg_ok env (hold profile h r)"
  by (simp add: reg_ok_def)

lemma log_wf_append: "log_wf env l \<Longrightarrow> log_append env e l = Inr l' \<Longrightarrow> log_wf env l' \<and> kl_profile l' = kl_profile l"
  by (auto simp: log_wf_def log_append_Inr)

lemma log_wf_found: "log_found env g = Inr l \<Longrightarrow> log_wf env l"
  using log_run_wf [of env g l "[]" l] by simp

lemma reg_extend_cases:
  assumes "reg_extend env profile entry r = Inr r'"
  obtains log log' where "held_at r profile = Some (Authored log)" "log_append env entry log = Inr log'"
    "r' = hold profile (Authored log') r"
  using assms by (auto simp: reg_extend_def result_simps split: option.splits holding.splits)

definition grows :: "kin_registry \<Rightarrow> kin_registry \<Rightarrow> bool" where
  \<comment> \<open>what is authored stays and only gains entries; what is known is replaced by nothing older\<close>
  "grows r r' \<longleftrightarrow>
     (\<forall>profile log. held_at r profile = Some (Authored log) \<longrightarrow>
        (\<exists>log' es. held_at r' profile = Some (Authored log') \<and> kl_entries log' = kl_entries log @ es)) \<and>
     (\<forall>profile p. held_at r profile = Some (Known p) \<longrightarrow>
        (\<exists>log. held_at r' profile = Some (Authored log)) \<or>
        (\<exists>p'. held_at r' profile = Some (Known p') \<and> head_epoch p \<le> head_epoch p'))"

lemma grows_refl: "grows r r"
  by (auto simp: grows_def)

lemma grows_trans:
  assumes "grows r s" "grows s t"
  shows "grows r t"
  unfolding grows_def
proof (intro conjI allI impI)
  fix profile log
  assume "held_at r profile = Some (Authored log)"
  then obtain l es where l: "held_at s profile = Some (Authored l)" "kl_entries l = kl_entries log @ es"
    using assms(1) unfolding grows_def by blast
  then obtain l' es' where "held_at t profile = Some (Authored l')" "kl_entries l' = kl_entries l @ es'"
    using assms(2) unfolding grows_def by blast
  with l(2) show "\<exists>log' es. held_at t profile = Some (Authored log') \<and> kl_entries log' = kl_entries log @ es"
    by (intro exI [of _ l'] exI [of _ "es @ es'"]) simp
next
  fix profile p
  assume "held_at r profile = Some (Known p)"
  then consider l where "held_at s profile = Some (Authored l)"
    | q where "held_at s profile = Some (Known q)" "head_epoch p \<le> head_epoch q"
    using assms(1) unfolding grows_def by blast
  then show "(\<exists>log. held_at t profile = Some (Authored log)) \<or>
      (\<exists>p'. held_at t profile = Some (Known p') \<and> head_epoch p \<le> head_epoch p')"
    using assms(2) unfolding grows_def by cases (blast intro: order.trans)+
qed

definition sound_step :: "kin_env \<Rightarrow> kin_registry \<Rightarrow> kin_registry \<Rightarrow> bool" where
  "sound_step env r r' \<longleftrightarrow> (reg_ok env r \<longrightarrow> reg_ok env r') \<and> grows r r'"

lemma sound_refl: "sound_step env r r" and sound_trans: "sound_step env r s \<Longrightarrow> sound_step env s t \<Longrightarrow> sound_step env r t"
  by (auto simp: sound_step_def grows_refl intro: grows_trans)

lemma found_sound:
  assumes "reg_found env genesis r = Inr (r', profile)"
  shows "sound_step env r r'"
proof -
  obtain log where log: "log_found env genesis = Inr log" "profile = kl_profile log"
    and r': "r' = (case held_at r profile of Some (Authored _) \<Rightarrow> r | _ \<Rightarrow> hold profile (Authored log) r)"
    using assms by (auto simp: reg_found_def result_simps Let_def)
  show ?thesis
  proof (cases "\<exists>l. held_at r profile = Some (Authored l)")
    case True
    then show ?thesis using r' by (auto simp: sound_refl)
  next
    case False
    then have "r' = hold profile (Authored log) r" using r' by (auto split: option.splits holding.splits)
    moreover have "holding_ok env profile (Authored log)" using log log_wf_found by simp
    ultimately show ?thesis using False by (auto simp: sound_step_def grows_def intro!: reg_ok_hold)
  qed
qed

lemma extend_sound: "reg_extend env profile entry r = Inr r' \<Longrightarrow> sound_step env r r'"
proof (erule reg_extend_cases)
  fix log log'
  assume e: "held_at r profile = Some (Authored log)" "log_append env entry log = Inr log'" "r' = hold profile (Authored log') r"
  have "reg_ok env r \<Longrightarrow> reg_ok env r'"
    unfolding e(3) using e(1) log_wf_append [OF _ e(2)] by (intro reg_ok_hold) (fastforce simp: reg_ok_def)+
  moreover have "grows r r'" using e by (auto simp: grows_def log_append_Inr)
  ultimately show ?thesis by (simp add: sound_step_def)
qed

lemma absorb_cases:
  assumes "absorb env p genesis reader r = Inr (r', profile)"
  shows "anchored_projection env genesis p" "projection_verify env p reader = Inr ()" "profile = pj_profile p"
    "r' = (case held_at r profile of
       Some (Authored _) \<Rightarrow> r
     | Some (Known held) \<Rightarrow> if head_epoch held \<le> head_epoch p then hold profile (Known p) r else r
     | None \<Rightarrow> hold profile (Known p) r)"
  using assms
  by (auto simp: absorb_def result_simps anchored_projection_def Let_def split: option.splits if_splits holding.splits)

lemma absorb_sound: "absorb env p genesis reader r = Inr (r', profile) \<Longrightarrow> sound_step env r r'"
proof -
  assume a: "absorb env p genesis reader r = Inr (r', profile)"
  have ok: "holding_ok env profile (Known p)" using absorb_cases(1,2,3) [OF a] by auto
  then have "reg_ok env r \<Longrightarrow> reg_ok env r'"
    using absorb_cases(4) [OF a] by (auto intro!: reg_ok_hold split: option.splits holding.splits)
  moreover have "grows r r'"
    using absorb_cases(4) [OF a] by (auto simp: grows_def split: option.splits holding.splits)
  ultimately show ?thesis by (simp add: sound_step_def)
qed

lemma avow_devices_sound:
  "avow_devices env profile audience seed epoch nonce index devices r = (res, r') \<Longrightarrow> sound_step env r r'"
proof (induction devices arbitrary: index r)
  case (Cons d devices)
  let ?first = "try_then (refused (avowal_seal env seed (DeviceParty d) (Profile profile) audience epoch (per_nonce nonce index)))
     (\<lambda>a. reg_extend env profile (Avow a) r)"
  show ?case
  proof (cases ?first)
    case (Inl e)
    with Cons.prems show ?thesis by (simp add: sound_refl)
  next
    case (Inr s)
    then obtain a where "reg_extend env profile (Avow a) r = Inr s" by (auto simp: result_simps)
    from extend_sound [OF this] Cons.IH [of "Suc index" s] Inr Cons.prems show ?thesis
      by (auto intro: sound_trans)
  qed
qed (simp add: sound_refl)

lemma avow_claim_sound: "avow_claim env profile seed claim audience epoch nonce r = Inr r' \<Longrightarrow> sound_step env r r'"
  by (auto simp: avow_claim_def result_simps intro: extend_sound)

lemma portrait_sound:
  "avow_portrait env profile portrait audience seed epoch nonce r = (res, r') \<Longrightarrow> sound_step env r r'"
  by (auto simp: avow_portrait_def sound_refl
      dest!: avow_claim_sound intro: sound_trans split: option.splits holding.splits sum.splits)

lemma step_sound: "reg_step env r r' \<Longrightarrow> sound_step env r r'"
  by (induction rule: reg_step.induct)
    (auto simp: found_sound extend_sound absorb_sound portrait_sound avow_reachable_def sound_refl
      intro: avow_devices_sound split: option.splits holding.splits)

lemma run_sound: "(reg_step env)\<^sup>*\<^sup>* r r' \<Longrightarrow> sound_step env r r'"
  by (induction rule: rtranclp_induct) (auto simp: sound_refl intro: sound_trans step_sound)

lemma run_ok: "(reg_step env)\<^sup>*\<^sup>* reg_new r \<Longrightarrow> held_at r profile = Some h \<Longrightarrow> holding_ok env profile h"
  using run_sound [of env reg_new r] unfolding sound_step_def reg_ok_def by (simp add: reg_new_def)

section \<open>Resolved devices\<close>

lemma profile_claim_Some: "profile_claim profile e = Some a \<longleftrightarrow> e = Avow a \<and> av_claim a = Profile profile"
  by (auto simp: profile_claim_def split: kin_entry.splits claim.splits)

lemma fold_max: "fold max es e \<in> set (e # es)" for e :: "'a :: linorder"
  by (induction es arbitrary: e) (auto simp: max_def)

lemma fold_max_ge: "x \<in> set (e # es) \<Longrightarrow> x \<le> fold max es e" for e :: "'a :: linorder"
proof -
  have "fold max es e = Max (set (e # es))" by (simp only: Max.set_eq_fold)
  then show "x \<in> set (e # es) \<Longrightarrow> x \<le> fold max es e" by (simp add: Max_ge)
qed

lemma latest_epoch_None: "latest_epoch profile bodies = None \<longleftrightarrow> (\<forall>e \<in> set bodies. profile_claim profile e = None)"
proof -
  have "latest_epoch profile bodies = None \<longleftrightarrow> List.map_filter (profile_claim profile) bodies = []"
    by (auto simp: latest_epoch_def split: list.splits)
  also have "\<dots> \<longleftrightarrow> (\<forall>e \<in> set bodies. profile_claim profile e = None)"
    by (auto simp: map_filter_def filter_empty_conv)
  finally show ?thesis .
qed

lemma latest_epoch_Some:
  assumes "latest_epoch profile bodies = Some t"
  shows "\<exists>e \<in> set bodies. \<exists>a. profile_claim profile e = Some a \<and> av_epoch a = t"
    and "\<And>e a. e \<in> set bodies \<Longrightarrow> profile_claim profile e = Some a \<Longrightarrow> av_epoch a \<le> t"
proof -
  obtain x xs where m: "map av_epoch (List.map_filter (profile_claim profile) bodies) = x # xs" "t = fold max xs x"
    using assms by (auto simp: latest_epoch_def split: list.splits)
  have set: "set (x # xs) = {av_epoch a | a e. e \<in> set bodies \<and> profile_claim profile e = Some a}"
    unfolding m(1) [symmetric] by (force simp: map_filter_def)
  obtain a e where "t = av_epoch a" "e \<in> set bodies" "profile_claim profile e = Some a"
    using fold_max [of xs x] unfolding m(2) [symmetric] set by auto
  then show "\<exists>e \<in> set bodies. \<exists>a. profile_claim profile e = Some a \<and> av_epoch a = t" by auto
  show "av_epoch a \<le> t" if "e \<in> set bodies" "profile_claim profile e = Some a" for e a
    unfolding m(2) by (rule fold_max_ge) (use that set in blast)
qed

lemma collect_keys:
  "device_keys (fold (collect_device profile t) bodies ds) = device_keys ds \<union>
     {device_key d | d a. Avow a \<in> set bodies \<and> av_claim a = Profile profile \<and> av_epoch a = t \<and> av_subject a = DeviceParty d}"
proof (induction bodies arbitrary: ds)
  case (Cons e bodies)
  have "device_keys (collect_device profile t e ds) = device_keys ds \<union>
      {device_key d | d a. Avow a = e \<and> av_claim a = Profile profile \<and> av_epoch a = t \<and> av_subject a = DeviceParty d}"
  proof (cases "profile_claim profile e")
    case None
    then show ?thesis by (auto simp: collect_device_def profile_claim_def)
  next
    case (Some a)
    then have "e = Avow a" "av_claim a = Profile profile" by (simp_all add: profile_claim_Some)
    then show ?thesis using Some by (cases "av_subject a") (auto simp: collect_device_def)
  qed
  then show ?case unfolding fold_Cons comp_def Cons.IH by auto
qed simp

lemma reachable_keys:
  "device_keys (reachable_devices profile p) =
     {device_key d | d a. Avow a \<in> set (pj_bodies p) \<and> av_claim a = Profile profile \<and>
        latest_epoch profile (pj_bodies p) = Some (av_epoch a) \<and> av_subject a = DeviceParty d}"
proof (cases "latest_epoch profile (pj_bodies p)")
  case (Some t)
  have "device_keys (sort_key device_key xs) = device_keys xs" for xs by (simp add: device_keys_def)
  with Some show ?thesis by (auto simp: reachable_devices_def collect_keys)
qed (simp add: reachable_devices_def)

lemma verified_bodies:
  assumes "projection_verify env p reader = Inr ()"
  obtains head where "pj_head p = Some head" "head_verify env head = Inr ()" "kh_profile head = pj_profile p"
    "\<And>e. e \<in> set (pj_bodies p) \<Longrightarrow> entry_verify env e = Inr () \<and> (\<exists>i \<in> set (kh_entries head). entry_id env e = Inr i)"
proof -
  obtain head ids where h: "pj_head p = Some head" "head_verify env head = Inr ()" "kh_profile head = pj_profile p"
    "collect_result (deliver env reader (kh_entries head)) (pj_bodies p) = Inr ids"
    using assms by (auto simp: projection_verify_def result_simps split: option.splits)
  have "entry_verify env e = Inr () \<and> (\<exists>i \<in> set (kh_entries head). entry_id env e = Inr i)" if "e \<in> set (pj_bodies p)" for e
    using h(4) that unfolding collect_result_Inr
    by (auto simp: list_all2_conv_all_nth in_set_conv_nth deliver_def result_simps)
  with h(1,2,3) show ?thesis by (rule that)
qed

section \<open>The handshake\<close>

lemma avow_devices_run:
  assumes "avow_devices env profile audience seed epoch nonce index devices r = (Inr n, r')"
    and "held_at r profile = Some (Authored log)"
  shows "\<exists>log' as. held_at r' profile = Some (Authored log') \<and>
    append_all (log_append env) (map Avow as) log = Inr log' \<and> map av_subject as = map DeviceParty devices \<and>
    list_all (\<lambda>a. av_claim a = Profile profile \<and> av_audience a = audience \<and> av_epoch a = epoch) as"
  using assms
proof (induction devices arbitrary: index r log)
  case Nil
  then show ?case by (intro exI [of _ log] exI [of _ "[]"]) auto
next
  case (Cons d devices)
  obtain a s where a: "avowal_seal env seed (DeviceParty d) (Profile profile) audience epoch (per_nonce nonce index) = Inr a"
    "reg_extend env profile (Avow a) r = Inr s"
    and rest: "avow_devices env profile audience seed epoch nonce (Suc index) devices s = (Inr n, r')"
    using Cons.prems(1) by (auto simp: result_simps split: sum.splits)
  from a(2) Cons.prems(2) obtain log1 where log1: "log_append env (Avow a) log = Inr log1" "held_at s profile = Some (Authored log1)"
    by (auto elim!: reg_extend_cases)
  from Cons.IH [OF rest log1(2)] obtain log' as where as: "held_at r' profile = Some (Authored log')"
    "append_all (log_append env) (map Avow as) log1 = Inr log'" "map av_subject as = map DeviceParty devices"
    "list_all (\<lambda>a. av_claim a = Profile profile \<and> av_audience a = audience \<and> av_epoch a = epoch) as" by blast
  have "av_subject a = DeviceParty d \<and> av_claim a = Profile profile \<and> av_audience a = audience \<and> av_epoch a = epoch"
    using a(1) by (auto simp: avowal_seal_def result_simps Let_def)
  with as log1(1) show ?case by (intro exI [of _ log'] exI [of _ "a # as"]) auto
qed

lemma avow_devices_total:
  assumes "signing_ok env seed" "held_at r profile = Some (Authored log)"
    and "length (kl_entries log) + length devices \<le> MAX_ENTRIES"
  shows "\<exists>r'. avow_devices env profile audience seed epoch nonce index devices r = (Inr (index + length devices), r')"
  using assms(2,3)
proof (induction devices arbitrary: index r log)
  case (Cons d devices)
  obtain a where a: "avowal_seal env seed (DeviceParty d) (Profile profile) audience epoch (per_nonce nonce index) = Inr a"
    by (simp add: avowal_seal_def Let_def)
  have "log_append env (Avow a) log = Inr (log\<lparr>kl_entries := kl_entries log @ [Avow a]\<rparr>)"
    using Cons.prems(2) avowal_seal_verify [OF assms(1) a] by (simp add: log_append_Inr)
  then have "reg_extend env profile (Avow a) r = Inr (hold profile (Authored (log\<lparr>kl_entries := kl_entries log @ [Avow a]\<rparr>)) r)"
    using Cons.prems(1) by (simp add: reg_extend_def refused_def)
  with a Cons.IH [of "hold profile (Authored (log\<lparr>kl_entries := kl_entries log @ [Avow a]\<rparr>)) r" _ "Suc index"] Cons.prems(2)
  show ?case by (simp add: refused_def)
qed simp

lemma project_total: "(\<And>e. ke_entry env e \<noteq> None) \<Longrightarrow> \<exists>p. log_project env seed epoch reader log = Inr p"
proof -
  assume enc: "\<And>e. ke_entry env e \<noteq> None"
  have "\<exists>ids. collect_result (entry_id env) es = Inr ids" for es
  proof (induction es)
    case (Cons e es)
    moreover have "\<exists>i. entry_id env e = Inr i" using enc [of e] by (auto simp: entry_id_def)
    ultimately show ?case by auto
  qed simp
  then obtain ids where "collect_result (entry_id env) (kl_entries log) = Inr ids" by blast
  then show ?thesis by (simp add: log_project_def log_head_def entry_ids_def Let_def)
qed

lemma avowed_keys:
  assumes entries: "kl_entries log' = kl_entries log @ map Avow as" and subjects: "map av_subject as = map DeviceParty devices"
    and claims: "list_all (\<lambda>a. av_claim a = Profile profile \<and> av_audience a = audience \<and> av_epoch a = epoch) as"
    and older: "\<And>a. Avow a \<in> set (kl_entries log) \<Longrightarrow> av_claim a = Profile profile \<Longrightarrow> av_epoch a < epoch"
    and src: "\<forall>e \<in> set (pj_bodies p). e \<in> set (kl_entries log')" and kept: "\<forall>a \<in> set as. Avow a \<in> set (pj_bodies p)"
    and "devices \<noteq> []"
  shows "device_keys (reachable_devices profile p) = device_keys devices"
proof -
  have old: "a \<in> set as \<or> av_epoch a < epoch" if "Avow a \<in> set (pj_bodies p)" "av_claim a = Profile profile" for a
    using that src older unfolding entries by auto
  obtain a0 where a0: "a0 \<in> set as" using assms(7) subjects by (cases as) auto
  have as: "av_claim a = Profile profile" "av_epoch a = epoch" if "a \<in> set as" for a
    using claims that by (auto simp: list_all_iff)
  obtain t where t: "latest_epoch profile (pj_bodies p) = Some t"
    using latest_epoch_None [of profile "pj_bodies p"] a0 kept as(1) [OF a0] profile_claim_Some [of profile "Avow a0" a0] by fastforce
  have "t \<le> epoch"
    using latest_epoch_Some(1) [OF t] old as(2) by (fastforce simp: profile_claim_Some)
  moreover have "epoch \<le> t"
    using latest_epoch_Some(2) [OF t, of "Avow a0" a0] a0 kept as by (auto simp: profile_claim_Some)
  ultimately have t': "latest_epoch profile (pj_bodies p) = Some epoch" using t by simp
  have now: "Avow a \<in> set (pj_bodies p) \<and> av_claim a = Profile profile \<and> Some epoch = Some (av_epoch a) \<and> av_subject a = DeviceParty d
      \<longleftrightarrow> a \<in> set as \<and> av_subject a = DeviceParty d" for a d
    using old [of a] kept as [of a] by auto
  have "device_keys (reachable_devices profile p) = {device_key d | d a. a \<in> set as \<and> av_subject a = DeviceParty d}"
    unfolding reachable_keys t' now ..
  also have "\<dots> = device_key ` {d. DeviceParty d \<in> set (map av_subject as)}" by force
  also have "\<dots> = device_keys devices" unfolding subjects by (auto simp: device_keys_def)
  finally show ?thesis .
qed

lemma projected_genesis:
  assumes "kl_entries log = Link genesis # es" "link_names genesis (device_from_seed env seed)"
    and "log_project env seed epoch reader log = Inr p"
  shows "\<exists>head. pj_head p = Some head \<and> kh_by head = device_from_seed env seed \<and> kh_epoch head = epoch \<and>
    pj_profile p = kl_profile log"
  using assms by (auto simp: log_project_def log_head_def result_simps Let_def)

lemma handshake_works:
  assumes "signing_ok env seed" "\<And>e. ke_entry env e \<noteq> None" "(reg_step env)\<^sup>*\<^sup>* reg_new alice"
    and "held_at alice profile = Some (Authored log)" "kl_entries log = Link genesis # es"
    and "log_found env genesis = Inr log0" "kl_profile log0 = profile"
    and "link_names genesis (device_from_seed env seed)" "log_devices log \<noteq> []"
    and "length (kl_entries log) + length (log_devices log) \<le> MAX_ENTRIES"
    and "\<And>a. Avow a \<in> set es \<Longrightarrow> av_claim a = Profile profile \<Longrightarrow> av_epoch a < epoch"
    and "admits audience reader" "held_at bob profile = None"
  shows "\<exists>alice' p bob' devices.
    avow_reachable env profile audience seed epoch nonce alice = (Inr (length (log_devices log)), alice') \<and>
    reg_project env profile seed epoch' reader alice' = Inr p \<and>
    absorb env p genesis reader bob = Inr (bob', profile) \<and>
    reg_resolve bob' profile = Some devices \<and> device_keys devices = device_keys (log_devices log)"
proof -
  have wf: "log_wf env log" "kl_profile log = profile" using run_ok [OF assms(3,4)] by simp_all
  obtain alice' where avow: "avow_devices env profile audience seed epoch nonce 0 (log_devices log) alice =
      (Inr (length (log_devices log)), alice')"
    using avow_devices_total [OF assms(1,4,10), of audience epoch nonce 0] by auto
  obtain log' as where run: "held_at alice' profile = Some (Authored log')"
    "append_all (log_append env) (map Avow as) log = Inr log'" "map av_subject as = map DeviceParty (log_devices log)"
    "list_all (\<lambda>a. av_claim a = Profile profile \<and> av_audience a = audience \<and> av_epoch a = epoch) as"
    using avow_devices_run [OF avow assms(4)] by blast
  have entries: "kl_entries log' = kl_entries log @ map Avow as" using kin_log.run_items [OF run(2)] by simp
  have wf': "log_wf env log'" "kl_profile log' = profile"
    using wf kin_log.run_capacity [OF run(2)] kin_log.run_fits [OF run(2)] append_profile [OF run(2)]
    by (simp_all add: log_wf_def entries)
  obtain p where proj: "log_project env seed epoch' reader log' = Inr p" using project_total [OF assms(2)] by blast
  note verify = project_verify [OF assms(1) wf'(1) proj]
  obtain head where head: "pj_head p = Some head" "kh_by head = device_from_seed env seed" "pj_profile p = profile"
    using projected_genesis [OF _ assms(8) proj, of "es @ map Avow as"] assms(5) wf'(2) by (auto simp: entries)
  obtain bytes where genesis: "link_verify env genesis = Inr ()" "ke_link env genesis = Some bytes"
    "profile = profile_from_genesis env bytes"
    using assms(6,7) by (auto simp: log_found_def result_simps split: option.splits)
  have absorbed: "absorb env p genesis reader bob = Inr (hold profile (Known p) bob, profile)"
    using genesis head verify(1) assms(8,13) by (simp add: absorb_def refused_def Let_def)
  have "device_keys (reachable_devices profile p) = device_keys (log_devices log)"
  proof (rule avowed_keys [OF entries run(3,4)])
    show "av_epoch a < epoch" if "Avow a \<in> set (kl_entries log)" "av_claim a = Profile profile" for a
      using that assms(5,11) by auto
    show "\<forall>e \<in> set (pj_bodies p). e \<in> set (kl_entries log')" using verify(2) by blast
    show "\<forall>a \<in> set as. Avow a \<in> set (pj_bodies p)"
      using verify(3) run(4) assms(12) by (auto simp: entries list_all_iff)
  qed (rule assms(9))
  with absorbed avow proj run(1) assms(4) show ?thesis
    by (simp add: reg_resolve_def avow_reachable_def reg_project_def refused_def)
qed

section \<open>Properties\<close>

text \<open>Every device a correspondent's profile resolves to is vouched for. In any registry reached from
  the empty one, the devices of a profile learned from a projection were each avowed into that profile
  by a verified avowal of the latest publication, listed in the verified head of that projection, and
  the head was signed by a device rooted in a verified genesis link whose hash is the profile id.\<close>

theorem resolved_devices_vouched:
  assumes "(reg_step env)\<^sup>*\<^sup>* reg_new r" "held_at r profile = Some (Known p)"
    and "reg_resolve r profile = Some devices" "d \<in> set devices"
  shows "\<exists>genesis head a. anchored_projection env genesis p \<and> pj_profile p = profile \<and>
    pj_head p = Some head \<and> head_verify env head = Inr () \<and>
    avowal_verify env a = Inr () \<and> (\<exists>i \<in> set (kh_entries head). entry_id env (Avow a) = Inr i) \<and>
    av_claim a = Profile profile \<and> (\<exists>d'. av_subject a = DeviceParty d' \<and> device_key d' = device_key d) \<and>
    (\<forall>b. Avow b \<in> set (pj_bodies p) \<and> av_claim b = Profile profile \<longrightarrow> av_epoch b \<le> av_epoch a)"
proof -
  from run_ok [OF assms(1,2)] obtain genesis reader where ok: "pj_profile p = profile" "anchored_projection env genesis p"
    "projection_verify env p reader = Inr ()" by auto
  obtain head where head: "pj_head p = Some head" "head_verify env head = Inr ()"
    "\<And>e. e \<in> set (pj_bodies p) \<Longrightarrow> entry_verify env e = Inr () \<and> (\<exists>i \<in> set (kh_entries head). entry_id env e = Inr i)"
    by (rule verified_bodies [OF ok(3)]) blast
  have "device_key d \<in> device_keys (reachable_devices profile p)"
    using assms(2,3,4) by (auto simp: reg_resolve_def device_keys_def)
  then obtain a d' where a: "Avow a \<in> set (pj_bodies p)" "av_claim a = Profile profile"
    "latest_epoch profile (pj_bodies p) = Some (av_epoch a)" "av_subject a = DeviceParty d'" "device_key d' = device_key d"
    unfolding reachable_keys by auto
  have "avowal_verify env a = Inr () \<and> (\<exists>i \<in> set (kh_entries head). entry_id env (Avow a) = Inr i)"
    using head(3) [OF a(1)] by simp
  moreover have "av_epoch b \<le> av_epoch a" if "Avow b \<in> set (pj_bodies p)" "av_claim b = Profile profile" for b
    using latest_epoch_Some(2) [OF a(3) that(1), of b] that(2) by (simp add: profile_claim_Some)
  ultimately show ?thesis using ok(1,2) head(1,2) a(2,4,5) by blast
qed

text \<open>A registry never regresses. Along any run of operations, an authored profile stays authored and
  its log only gains entries at the end; a profile learned from a projection is only ever replaced by
  an authored log or by a projection whose head is at least as new.\<close>

theorem registry_never_regresses:
  assumes "(reg_step env)\<^sup>*\<^sup>* r r'"
  shows "(held_at r profile = Some (Authored log) \<longrightarrow>
       (\<exists>log' es. held_at r' profile = Some (Authored log') \<and> kl_entries log' = kl_entries log @ es)) \<and>
    (held_at r profile = Some (Known p) \<longrightarrow>
       (\<exists>log'. held_at r' profile = Some (Authored log')) \<or>
       (\<exists>p'. held_at r' profile = Some (Known p') \<and> head_epoch p \<le> head_epoch p'))"
  using run_sound [OF assms] by (simp add: sound_step_def grows_def)

text \<open>The reach handshake works. When the owner of a profile avows its live devices to an audience
  that includes a reader and projects the log for that reader, signed by a device of the genesis, both
  succeed while the log has room, and any reader that does not hold the profile yet absorbs the
  projection and resolves the profile to exactly the owner's live devices, whatever older publications
  the log carries.\<close>

theorem reach_handshake:
  assumes "signing_ok env seed" "\<And>e. ke_entry env e \<noteq> None" "(reg_step env)\<^sup>*\<^sup>* reg_new alice"
    and "held_at alice profile = Some (Authored log)" "kl_entries log = Link genesis # es"
    and "log_found env genesis = Inr log0" "kl_profile log0 = profile"
    and "link_names genesis (device_from_seed env seed)" "log_devices log \<noteq> []"
    and "length (kl_entries log) + length (log_devices log) \<le> MAX_ENTRIES"
    and "\<And>a. Avow a \<in> set es \<Longrightarrow> av_claim a = Profile profile \<Longrightarrow> av_epoch a < epoch"
    and "admits audience reader" "held_at bob profile = None"
  shows "\<exists>alice' p bob' devices.
    avow_reachable env profile audience seed epoch nonce alice = (Inr (length (log_devices log)), alice') \<and>
    reg_project env profile seed epoch' reader alice' = Inr p \<and>
    absorb env p genesis reader bob = Inr (bob', profile) \<and>
    reg_resolve bob' profile = Some devices \<and> device_keys devices = device_keys (log_devices log)"
  using assms by (rule handshake_works)

definition demo_genesis_link :: device_link where
  "demo_genesis_link = demo_link (CHR ''1'') (CHR ''2'') (CHR ''a'')"

definition demo_profile :: string where
  "demo_profile = profile_from_genesis demo_kin ''a''"

definition demo_founded :: kinship_log where
  "demo_founded = \<lparr>kl_profile = demo_profile, kl_entries = [Link demo_genesis_link]\<rparr>"

definition demo_alice :: kin_registry where
  "demo_alice = hold demo_profile (Authored demo_founded) reg_new"

lemma demo_alice_founded:
  "log_found demo_kin demo_genesis_link = Inr demo_founded"
  "reg_found demo_kin demo_genesis_link reg_new = Inr (demo_alice, demo_profile)"
proof -
  show f: "log_found demo_kin demo_genesis_link = Inr demo_founded"
    using demo_found by (simp add: demo_genesis_link_def demo_founded_def demo_profile_def)
  show "reg_found demo_kin demo_genesis_link reg_new = Inr (demo_alice, demo_profile)"
    by (simp add: reg_found_def f refused_def Let_def demo_alice_def demo_founded_def reg_new_def)
qed

lemma demo_alice_runs: "(reg_step demo_kin)\<^sup>*\<^sup>* reg_new demo_alice"
  by (rule r_into_rtranclp, rule step_found, rule demo_alice_founded)

lemma demo_alice_held: "held_at demo_alice demo_profile = Some (Authored demo_founded)"
  by (simp add: demo_alice_def)

lemma demo_signer:
  "link_names demo_genesis_link (device_from_seed demo_kin (demo_seed (CHR ''1'')))"
  "log_devices demo_founded = [demo_key (CHR ''1''), demo_key (CHR ''2'')]"
  "\<And>e. ke_entry demo_kin e \<noteq> None"
  by code_simp (code_simp, simp add: demo_kin_def)

lemma demo_room:
  "kl_entries demo_founded = [Link demo_genesis_link]" "kl_profile demo_founded = demo_profile"
  "length (kl_entries demo_founded) + length (log_devices demo_founded) \<le> MAX_ENTRIES"
  by (simp_all add: demo_founded_def demo_signer(2) [unfolded demo_founded_def] MAX_ENTRIES_def)

abbreviation demo_avowed :: "(reg_failure + nat) \<times> kin_registry" where
  "demo_avowed \<equiv> avow_reachable demo_kin demo_profile Public (demo_seed (CHR ''1'')) 5 (replicate 16 (CHR ''n'')) demo_alice"

theorem reach_handshake_witness:
  "\<exists>alice' p bob' devices. demo_avowed = (Inr 2, alice') \<and>
     reg_project demo_kin demo_profile (demo_seed (CHR ''1'')) 5 demo_reader alice' = Inr p \<and>
     absorb demo_kin p demo_genesis_link demo_reader reg_new = Inr (bob', demo_profile) \<and>
     reg_resolve bob' demo_profile = Some devices \<and>
     device_keys devices = {device_key (demo_key (CHR ''1'')), device_key (demo_key (CHR ''2''))}"
proof -
  have "\<exists>alice' p bob' devices. demo_avowed = (Inr (length (log_devices demo_founded)), alice') \<and>
     reg_project demo_kin demo_profile (demo_seed (CHR ''1'')) 5 demo_reader alice' = Inr p \<and>
     absorb demo_kin p demo_genesis_link demo_reader reg_new = Inr (bob', demo_profile) \<and>
     reg_resolve bob' demo_profile = Some devices \<and> device_keys devices = device_keys (log_devices demo_founded)"
    by (rule reach_handshake [OF demo_signing demo_signer(3) demo_alice_runs demo_alice_held demo_room(1)
          demo_alice_founded(1) demo_room(2) demo_signer(1) _ demo_room(3)])
      (simp_all add: demo_signer(2) reg_new_def)
  then show ?thesis by (simp add: demo_signer(2) numeral_2_eq_2)
qed

lemma demo_exchange:
  "\<exists>alice' p bob devices. demo_avowed = (Inr (length (log_devices demo_founded)), alice') \<and>
     reg_project demo_kin demo_profile (demo_seed (CHR ''1'')) 5 demo_reader alice' = Inr p \<and>
     absorb demo_kin p demo_genesis_link demo_reader reg_new = Inr (bob, demo_profile) \<and>
     reg_resolve bob demo_profile = Some devices \<and> device_keys devices = device_keys (log_devices demo_founded)"
  by (rule handshake_works [OF demo_signing demo_signer(3) demo_alice_runs demo_alice_held demo_room(1)
        demo_alice_founded(1) demo_room(2) demo_signer(1) _ demo_room(3)])
    (simp_all add: demo_signer(2) reg_new_def)

theorem resolved_devices_vouched_witness:
  "\<exists>(p :: projection) head a. pj_head p = Some head \<and> avowal_verify demo_kin a = Inr () \<and> av_claim a = Profile demo_profile \<and>
     (\<exists>i \<in> set (kh_entries head). entry_id demo_kin (Avow a) = Inr i)"
proof -
  obtain p bob devices where b: "absorb demo_kin p demo_genesis_link demo_reader reg_new = Inr (bob, demo_profile)"
    "reg_resolve bob demo_profile = Some devices" "device_keys devices = device_keys (log_devices demo_founded)"
    using demo_exchange by blast
  have run: "(reg_step demo_kin)\<^sup>*\<^sup>* reg_new bob" using step_absorb [OF b(1)] by (rule r_into_rtranclp)
  have held: "held_at bob demo_profile = Some (Known p)" using absorb_cases(4) [OF b(1)] by (simp add: reg_new_def)
  obtain d where "d \<in> set devices" using b(3) by (cases devices) (auto simp: demo_signer(2))
  from resolved_devices_vouched [OF run held b(2) this] show ?thesis by blast
qed

theorem registry_never_regresses_witness:
  "\<exists>alice' log'. demo_avowed = (Inr 2, alice') \<and> held_at alice' demo_profile = Some (Authored log') \<and>
     (\<exists>es. kl_entries log' = Link demo_genesis_link # es)"
proof -
  obtain alice' where a: "demo_avowed = (Inr 2, alice')" using demo_exchange by (auto simp: demo_signer(2) numeral_2_eq_2)
  have "(reg_step demo_kin)\<^sup>*\<^sup>* demo_alice alice'" using step_reach [OF a] by (rule r_into_rtranclp)
  from registry_never_regresses [OF this, of demo_profile demo_founded] a demo_alice_held show ?thesis
    by (auto simp: demo_founded_def)
qed

end
