(* ===== verification/Chronicle.thy ===== *)
theory Chronicle
  imports Kinship
begin

unbundle bit_operations_syntax

text \<open>
  The chronicle (\<^verbatim>\<open>crates/mechanics/src/chronicle.rs\<close>): an append-only log of leaf hashes with a
  Merkle root, inclusion and consistency paths, the verifiers of both, signed heads, the reader's
  ratchet \<open>advance\<close>, and marks. The verifiers keep their \<open>u64\<close> node counters as 64-bit words; list
  lengths (\<open>usize\<close>) are naturals.

  \<open>rebuild\<close> and \<open>crebuild\<close> are the specification of the verifiers: the root (or the two roots) a path
  stands for, by recursion over the shape of the tree. The bottom-up bit loops of the code are proved
  to compute them.
\<close>

section \<open>The tree\<close>

definition CHRONICLE_HEAD_DOMAIN :: bytes where "CHRONICLE_HEAD_DOMAIN = ''lait/chronicle/1/head''"
definition LEAF_CONTEXT :: string where "LEAF_CONTEXT = ''lait.chronicle-leaf.v1''"
definition NODE_CONTEXT :: string where "NODE_CONTEXT = ''lait.chronicle-node.v1''"
definition EMPTY_CONTEXT :: string where "EMPTY_CONTEXT = ''lait.chronicle-empty.v1''"
definition CHRONICLE_SEMANTICS :: u16 where "CHRONICLE_SEMANTICS = 1"
definition MAX_CHRONICLE_ENTRIES :: u64 where "MAX_CHRONICLE_ENTRIES = 1048576"
definition MAX_ENTRY_BYTES :: nat where "MAX_ENTRY_BYTES = 256 * 1024"
definition MAX_PROOF_HASHES :: nat where "MAX_PROOF_HASHES = 64"

datatype chron_refusal =
    ChBadSignature | ChUnaddressable | ChSemantics | ChOutOfRange | ChRollback | ChDiverged | ChUnproven
  | ChWrongSigner | ChBound string | ChMalformed string

definition empty_root :: "crypto \<Rightarrow> bytes" where
  "empty_root cr = derive_key cr EMPTY_CONTEXT []"

definition leaf_hash :: "crypto \<Rightarrow> bytes \<Rightarrow> bytes" where
  "leaf_hash cr entry = derive_key cr LEAF_CONTEXT entry"

definition node_hash :: "crypto \<Rightarrow> bytes \<Rightarrow> bytes \<Rightarrow> bytes" where
  "node_hash cr left right = derive_key cr NODE_CONTEXT (left @ right)"

fun bit_length :: "nat \<Rightarrow> nat" where
  "bit_length n = (if n = 0 then 0 else Suc (bit_length (n div 2)))"

declare bit_length.simps [simp del]

definition leading_zeros :: "nat \<Rightarrow> nat" where
  \<comment> \<open>of a 64-bit \<open>usize\<close>\<close>
  "leading_zeros n = 64 - bit_length n"

definition split_point :: "nat \<Rightarrow> nat" where
  "split_point n = (let shift = 64 - leading_zeros (n - 1) - 1 in 2 ^ shift)"

lemma bit_length_bounds: "0 < n \<Longrightarrow> 2 ^ (bit_length n - 1) \<le> n \<and> n < 2 ^ bit_length n \<and> 0 < bit_length n"
proof (induction n rule: bit_length.induct)
  case (1 n)
  show ?case
  proof (cases "n div 2 = 0")
    case True
    with 1 have "n = 1" by (simp add: div_eq_0_iff)
    then show ?thesis by (simp add: bit_length.simps)
  next
    case False
    with 1 have "2 ^ (bit_length (n div 2) - 1) \<le> n div 2" "n div 2 < 2 ^ bit_length (n div 2)" "0 < bit_length (n div 2)"
      by auto
    moreover from this(3) have "(2::nat) ^ bit_length (n div 2) = 2 * 2 ^ (bit_length (n div 2) - 1)"
      by (simp flip: power_Suc)
    moreover have "bit_length n = Suc (bit_length (n div 2))" using 1 by (simp add: bit_length.simps [of n])
    moreover have "2 * (n div 2) \<le> n" "n < 2 * (n div 2) + 2" by presburger+
    ultimately show ?thesis by (simp only: diff_Suc_1 power_Suc zero_less_Suc simp_thms) linarith
  qed
qed

lemma split_point_bounds: "2 \<le> n \<Longrightarrow> 0 < split_point n \<and> split_point n < n"
proof -
  assume n: "2 \<le> n"
  have "split_point n \<le> 2 ^ (bit_length (n - 1) - 1)"
    unfolding split_point_def leading_zeros_def Let_def by (intro power_increasing) auto
  also have "\<dots> \<le> n - 1" using bit_length_bounds [of "n - 1"] n by simp
  finally show ?thesis using n by (simp add: split_point_def Let_def)
qed

lemma split_point_pos [simp]: "0 < split_point n"
  by (simp add: split_point_def Let_def)

lemma split_point_less: "1 < n \<Longrightarrow> split_point n < n"
  using split_point_bounds [of n] by simp

function subtree_root :: "crypto \<Rightarrow> bytes list \<Rightarrow> bytes" where
  "subtree_root cr leaves =
     (case leaves of
        [] \<Rightarrow> empty_root cr
      | [one] \<Rightarrow> one
      | many \<Rightarrow>
          let k = split_point (length many)
          in node_hash cr (subtree_root cr (take k many)) (subtree_root cr (drop k many)))"
  by pat_completeness auto
termination
  by (relation "measure (\<lambda>(cr, leaves). length leaves)")
    (use split_point_less in \<open>auto simp: min_def not_le\<close>)

declare subtree_root.simps [simp del]

function audit_path :: "crypto \<Rightarrow> nat \<Rightarrow> bytes list \<Rightarrow> bytes list" where
  "audit_path cr index leaves =
     (if length leaves \<le> 1 then []
      else let k = split_point (length leaves); left = take k leaves; right = drop k leaves
           in if index < length left then audit_path cr index left @ [subtree_root cr right]
              else audit_path cr (index - length left) right @ [subtree_root cr left])"
  by pat_completeness auto
termination
  by (relation "measure (\<lambda>(cr, i, leaves). length leaves)")
    (use split_point_less in \<open>auto simp: min_def not_le intro!: diff_less\<close>)

declare audit_path.simps [simp del]

function subproof :: "crypto \<Rightarrow> nat \<Rightarrow> bytes list \<Rightarrow> bool \<Rightarrow> bytes list" where
  "subproof cr first leaves whole =
     (if first = length leaves then (if whole then [] else [subtree_root cr leaves])
      else if length leaves \<le> 1 then []
      else let k = split_point (length leaves); left = take k leaves; right = drop k leaves
           in if first \<le> length left then subproof cr first left whole @ [subtree_root cr right]
              else subproof cr (first - length left) right False @ [subtree_root cr left])"
  by pat_completeness auto
termination
  by (relation "measure (\<lambda>(cr, first, leaves, whole). length leaves)")
    (use split_point_less in \<open>auto simp: min_def not_le intro!: diff_less\<close>)

declare subproof.simps [simp del]

section \<open>The verifiers\<close>

function shift_even :: "u64 \<Rightarrow> u64 \<Rightarrow> u64 \<times> u64" where
  \<comment> \<open>\<open>while fnode & 1 == 0 && fnode != 0\<close>\<close>
  "shift_even fnode snode =
     (if fnode AND 1 = 0 \<and> fnode \<noteq> 0 then shift_even (drop_bit 1 fnode) (drop_bit 1 snode) else (fnode, snode))"
  by pat_completeness auto

function shift_odd :: "u64 \<Rightarrow> u64 \<Rightarrow> u64 \<times> u64" where
  \<comment> \<open>\<open>while fnode & 1 == 1\<close>\<close>
  "shift_odd fnode snode =
     (if fnode AND 1 = 1 then shift_odd (drop_bit 1 fnode) (drop_bit 1 snode) else (fnode, snode))"
  by pat_completeness auto

lemma unat_half: "unat (drop_bit (Suc 0) w :: u64) = unat w div 2"
  by (simp add: drop_bit_eq_div unat_div_distrib)

lemma low_bit: "(w AND 1 :: u64) = (if odd (unat w) then 1 else 0)"
  by (simp add: and_one_eq odd_iff_mod_2_eq_one word_unat_eq_iff unat_mod_distrib)

termination shift_even
proof (relation "measure (\<lambda>(f, s). unat f)")
  fix f s :: u64
  assume "f AND 1 = 0 \<and> f \<noteq> 0"
  then have "0 < unat f" by (simp add: unat_gt_0)
  then show "((drop_bit 1 f, drop_bit 1 s), f, s) \<in> measure (\<lambda>(f, s). unat f)"
    by (simp add: unat_half)
qed simp

termination shift_odd
proof (relation "measure (\<lambda>(f, s). unat f)")
  fix f s :: u64
  assume "f AND 1 = 1"
  then have "0 < unat f" by (auto simp: low_bit intro: odd_pos split: if_splits)
  then show "((drop_bit 1 f, drop_bit 1 s), f, s) \<in> measure (\<lambda>(f, s). unat f)"
    by (simp add: unat_half)
qed simp

declare shift_even.simps [simp del] shift_odd.simps [simp del]

definition next_nodes :: "u64 \<Rightarrow> u64 \<Rightarrow> u64 \<times> u64" where
  \<comment> \<open>the shifts of one turn\<close>
  "next_nodes fnode snode =
     (let (f, s) = (if (fnode AND 1 = 1 \<or> fnode = snode) \<and> fnode AND 1 = 0 then shift_even fnode snode
                    else (fnode, snode))
      in (drop_bit 1 f, drop_bit 1 s))"

fun inclusion_loop ::
  "crypto \<Rightarrow> bytes list \<Rightarrow> u64 \<Rightarrow> u64 \<Rightarrow> bytes \<Rightarrow> chron_refusal + (u64 \<times> u64 \<times> bytes)" where
  "inclusion_loop cr [] fnode snode running = Inr (fnode, snode, running)"
| "inclusion_loop cr (part # rest) fnode snode running =
     (if snode = 0 then Inl (ChMalformed ''inclusion path too long'')
      else let running' = (if fnode AND 1 = 1 \<or> fnode = snode then node_hash cr part running
                           else node_hash cr running part);
               (f, s) = next_nodes fnode snode
           in inclusion_loop cr rest f s running')"

definition verify_inclusion ::
  "crypto \<Rightarrow> bytes \<Rightarrow> u64 \<Rightarrow> u64 \<Rightarrow> bytes \<Rightarrow> bytes list \<Rightarrow> chron_refusal + unit" where
  "verify_inclusion cr leaf index size' root path =
     try_then (refuse_if (MAX_PROOF_HASHES < length path) (ChBound ''inclusion path hashes'')) (\<lambda>_.
     try_then (refuse_if (size' \<le> index) ChOutOfRange) (\<lambda>_.
     try_then (inclusion_loop cr path index (size' - 1) leaf) (\<lambda>(fnode, snode, running).
       if snode = 0 \<and> running = root then Inr () else Inl ChUnproven)))"

definition is_power_of_two :: "u64 \<Rightarrow> bool" where
  "is_power_of_two w = list_ex (\<lambda>a. w = push_bit a 1) [0..<64]"

fun consistency_loop ::
  "crypto \<Rightarrow> bytes list \<Rightarrow> u64 \<Rightarrow> u64 \<Rightarrow> bytes \<Rightarrow> bytes \<Rightarrow> chron_refusal + (u64 \<times> u64 \<times> bytes \<times> bytes)" where
  "consistency_loop cr [] fnode snode first second = Inr (fnode, snode, first, second)"
| "consistency_loop cr (part # rest) fnode snode first second =
     (if snode = 0 then Inl (ChMalformed ''consistency path too long'')
      else let hit = (fnode AND 1 = 1 \<or> fnode = snode);
               first' = (if hit then node_hash cr part first else first);
               second' = (if hit then node_hash cr part second else node_hash cr second part);
               (f, s) = next_nodes fnode snode
           in consistency_loop cr rest f s first' second')"

definition verify_consistency ::
  "crypto \<Rightarrow> u64 \<Rightarrow> bytes \<Rightarrow> u64 \<Rightarrow> bytes \<Rightarrow> bytes list \<Rightarrow> chron_refusal + unit" where
  "verify_consistency cr first_size first_root second_size second_root proof' =
     try_then (refuse_if (MAX_PROOF_HASHES < length proof') (ChBound ''consistency path hashes'')) (\<lambda>_.
     try_then (refuse_if (first_size = 0 \<or> second_size < first_size) ChOutOfRange) (\<lambda>_.
     if first_size = second_size
     then (if first_root = second_root \<and> proof' = [] then Inr () else Inl ChUnproven)
     else case (if is_power_of_two first_size then first_root # proof' else proof') of
            [] \<Rightarrow> Inl (ChMalformed ''empty consistency path'')
          | seed # parts \<Rightarrow>
              let (fnode, snode) = shift_odd (first_size - 1) (second_size - 1)
              in try_then (consistency_loop cr parts fnode snode seed seed)
                   (\<lambda>(fnode, snode, first_running, second_running).
                     if snode = 0 \<and> first_running = first_root \<and> second_running = second_root
                     then Inr () else Inl ChUnproven)))"

section \<open>Heads and the reader's ratchet\<close>

record chron_head =
  ch_by :: string
  ch_semantics :: u16
  ch_size :: u64
  ch_root :: bytes
  ch_signature :: bytes

definition chron_preimage :: "string \<Rightarrow> u16 \<Rightarrow> u64 \<Rightarrow> bytes \<Rightarrow> bytes" where
  "chron_preimage by' semantics size' root =
     foldl framed [] [CHRONICLE_HEAD_DOMAIN, by', u16_be semantics, u64_be size', root]"

definition chron_seal :: "kin_env \<Rightarrow> bytes \<Rightarrow> u64 \<Rightarrow> bytes \<Rightarrow> chron_refusal + chron_head" where
  "chron_seal env seed size' root =
     (let by' = device_from_seed env seed;
          preimage = chron_preimage by' CHRONICLE_SEMANTICS size' root
      in Inr \<lparr>ch_by = by', ch_semantics = CHRONICLE_SEMANTICS, ch_size = size', ch_root = root,
           ch_signature = sign_detached env seed preimage\<rparr>)"

definition chron_verify :: "kin_env \<Rightarrow> chron_head \<Rightarrow> chron_refusal + unit" where
  "chron_verify env h =
     try_then (refuse_if (ch_semantics h \<noteq> CHRONICLE_SEMANTICS) ChSemantics) (\<lambda>_.
       case key_bytes (ke_crypto env) (ch_by h) of
         None \<Rightarrow> Inl ChUnaddressable
       | Some key \<Rightarrow>
           if verify_detached env key (chron_preimage (ch_by h) (ch_semantics h) (ch_size h) (ch_root h)) (ch_signature h)
           then Inr () else Inl ChBadSignature)"

record pinned_head =
  ph_size :: u64
  ph_root :: bytes
  ph_by :: string

definition pinned_from :: "chron_head \<Rightarrow> pinned_head" where
  "pinned_from h = \<lparr>ph_size = ch_size h, ph_root = ch_root h, ph_by = ch_by h\<rparr>"

datatype advance_result = Pinned | Unchanged | Extended

definition advance ::
  "kin_env \<Rightarrow> pinned_head option \<Rightarrow> chron_head \<Rightarrow> bytes list \<Rightarrow> chron_refusal + advance_result" where
  "advance env held offered consistency =
     try_then (chron_verify env offered) (\<lambda>_.
       case held of
         None \<Rightarrow> Inr Pinned
       | Some held \<Rightarrow>
           if device_key (ch_by offered) \<noteq> device_key (ph_by held) then Inl ChWrongSigner
           else if ch_size offered < ph_size held then Inl ChRollback
           else if ch_size offered = ph_size held then
             (if ch_root offered = ph_root held then Inr Unchanged else Inl ChDiverged)
           else if ph_size held = 0 then
             (if ph_root held = empty_root (ke_crypto env) then Inr Extended else Inl ChDiverged)
           else try_then (verify_consistency (ke_crypto env) (ph_size held) (ph_root held)
                  (ch_size offered) (ch_root offered) consistency) (\<lambda>_. Inr Extended))"

section \<open>Marks\<close>

fun from_kinship :: "kin_refusal \<Rightarrow> chron_refusal" where
  "from_kinship BadSignature = ChBadSignature"
| "from_kinship Unaddressable = ChUnaddressable"
| "from_kinship Semantics = ChSemantics"
| "from_kinship (Bound what) = ChBound what"
| "from_kinship (Malformed what) = ChMalformed what"
| "from_kinship _ = ChMalformed ''mark''"

definition marked :: "avowal \<Rightarrow> chron_refusal + (u64 \<times> bytes \<times> u64 \<times> bytes)" where
  "marked mark =
     (case av_claim mark of
        Chronicled size' root entry leaf \<Rightarrow> Inr (size', root, entry, leaf)
      | _ \<Rightarrow> Inl (ChMalformed ''not a mark''))"

definition verify_mark :: "kin_env \<Rightarrow> avowal \<Rightarrow> bytes list \<Rightarrow> chron_refusal + unit" where
  "verify_mark env mark inclusion =
     try_then (map_sum from_kinship (\<lambda>u. u) (avowal_verify env mark)) (\<lambda>_.
     try_then (marked mark) (\<lambda>(size', root, entry, leaf).
       verify_inclusion (ke_crypto env) leaf entry size' root inclusion))"

definition consistent_with :: "kin_env \<Rightarrow> pinned_head \<Rightarrow> avowal \<Rightarrow> bytes list \<Rightarrow> chron_refusal + unit" where
  "consistent_with env pin mark consistency =
     (if device_key (av_by mark) \<noteq> device_key (ph_by pin) then Inl ChWrongSigner
      else try_then (marked mark) (\<lambda>(size', root, _, _).
        if size' = ph_size pin then (if root = ph_root pin then Inr () else Inl ChDiverged)
        else if ph_size pin = 0 then
          (if ph_root pin = empty_root (ke_crypto env) then Inr () else Inl ChDiverged)
        else if size' < ph_size pin
        then verify_consistency (ke_crypto env) size' root (ph_size pin) (ph_root pin) consistency
        else verify_consistency (ke_crypto env) (ph_size pin) (ph_root pin) size' root consistency))"

section \<open>The log\<close>

record chronicle =
  cl_leaves :: "bytes list"

definition chron_new :: chronicle where
  "chron_new = \<lparr>cl_leaves = []\<rparr>"

definition len_u64 :: "'a list \<Rightarrow> u64 option" where
  \<comment> \<open>\<open>u64::try_from(xs.len())\<close>\<close>
  "len_u64 xs = (if length xs < 2 ^ 64 then Some (of_nat (length xs)) else None)"

lemma len_u64_code [code]:
  "len_u64 xs = (if int (length xs) < 18446744073709551616 then Some (word_of_int (int (length xs))) else None)"
  by (simp add: len_u64_def)

definition from_leaves :: "bytes list \<Rightarrow> chron_refusal + chronicle" where
  "from_leaves leaves =
     (case len_u64 leaves of
        None \<Rightarrow> Inl (ChBound ''chronicle entries'')
      | Some n \<Rightarrow>
          if MAX_CHRONICLE_ENTRIES < n then Inl (ChBound ''chronicle entries'')
          else Inr \<lparr>cl_leaves = leaves\<rparr>)"

definition chron_size :: "chronicle \<Rightarrow> u64" where
  "chron_size l = (case len_u64 (cl_leaves l) of Some n \<Rightarrow> n | None \<Rightarrow> - 1)"

definition chron_root :: "crypto \<Rightarrow> chronicle \<Rightarrow> bytes" where
  "chron_root cr l = subtree_root cr (cl_leaves l)"

definition append_leaf :: "bytes \<Rightarrow> chronicle \<Rightarrow> chron_refusal + (chronicle \<times> u64)" where
  "append_leaf leaf l =
     (let index = chron_size l
      in if MAX_CHRONICLE_ENTRIES \<le> index then Inl (ChBound ''chronicle entries'')
         else Inr (l\<lparr>cl_leaves := cl_leaves l @ [leaf]\<rparr>, index))"

definition chron_append :: "crypto \<Rightarrow> bytes \<Rightarrow> chronicle \<Rightarrow> chron_refusal + (chronicle \<times> u64)" where
  "chron_append cr entry l =
     (if MAX_ENTRY_BYTES < length entry then Inl (ChBound ''entry bytes'')
      else append_leaf (leaf_hash cr entry) l)"

definition chron_head_of :: "kin_env \<Rightarrow> bytes \<Rightarrow> chronicle \<Rightarrow> chron_refusal + chron_head" where
  "chron_head_of env seed l = chron_seal env seed (chron_size l) (chron_root (ke_crypto env) l)"

definition inclusion :: "crypto \<Rightarrow> chronicle \<Rightarrow> u64 \<Rightarrow> chron_refusal + bytes list" where
  "inclusion cr l index =
     (if length (cl_leaves l) \<le> unat index then Inl ChOutOfRange
      else Inr (audit_path cr (unat index) (cl_leaves l)))"

definition consistency :: "crypto \<Rightarrow> chronicle \<Rightarrow> u64 \<Rightarrow> chron_refusal + bytes list" where
  "consistency cr l first_size =
     (let first = unat first_size
      in if first = 0 \<or> length (cl_leaves l) < first then Inl ChOutOfRange
         else if first = length (cl_leaves l) then Inr []
         else Inr (subproof cr first (cl_leaves l) True))"

section \<open>The loops on naturals\<close>

fun even_nat :: "nat \<Rightarrow> nat \<Rightarrow> nat \<times> nat" where
  "even_nat f s = (if even f \<and> f \<noteq> 0 then even_nat (f div 2) (s div 2) else (f, s))"

function odd_nat :: "nat \<Rightarrow> nat \<Rightarrow> nat \<times> nat" where
  "odd_nat f s = (if odd f then odd_nat (f div 2) (s div 2) else (f, s))"
  by pat_completeness auto
termination by (relation "measure fst") (auto elim: oddE)

declare even_nat.simps [simp del] odd_nat.simps [simp del]

definition next_nat :: "nat \<Rightarrow> nat \<Rightarrow> nat \<times> nat" where
  "next_nat f s = (if f = s \<and> even f then map_prod (\<lambda>x. x div 2) (\<lambda>x. x div 2) (even_nat f s) else (f div 2, s div 2))"

fun inclusion_nat ::
  "crypto \<Rightarrow> bytes list \<Rightarrow> nat \<Rightarrow> nat \<Rightarrow> bytes \<Rightarrow> (nat \<times> nat \<times> bytes) option" where
  "inclusion_nat cr [] f s r = Some (f, s, r)"
| "inclusion_nat cr (p # ps) f s r =
     (if s = 0 then None
      else inclusion_nat cr ps (fst (next_nat f s)) (snd (next_nat f s))
        (if odd f \<or> f = s then node_hash cr p r else node_hash cr r p))"

fun consistency_nat ::
  "crypto \<Rightarrow> bytes list \<Rightarrow> nat \<Rightarrow> nat \<Rightarrow> bytes \<Rightarrow> bytes \<Rightarrow> (nat \<times> nat \<times> bytes \<times> bytes) option" where
  "consistency_nat cr [] f s a b = Some (f, s, a, b)"
| "consistency_nat cr (p # ps) f s a b =
     (if s = 0 then None
      else consistency_nat cr ps (fst (next_nat f s)) (snd (next_nat f s))
        (if odd f \<or> f = s then node_hash cr p a else a)
        (if odd f \<or> f = s then node_hash cr p b else node_hash cr b p))"

lemma word_tests:
  "(w AND 1 :: u64) = 1 \<longleftrightarrow> odd (unat w)" "(w AND 1 :: u64) = 0 \<longleftrightarrow> even (unat w)"
  by (simp_all add: low_bit)

lemma unat_same: "unat f = unat s \<longleftrightarrow> f = (s :: u64)"
  by (simp add: word_unat_eq_iff)

lemma shift_even_nat: "map_prod unat unat (shift_even f s) = even_nat (unat f) (unat s)"
proof (induction f s rule: shift_even.induct)
  case (1 f s)
  show ?case
  proof (cases "f AND 1 = 0 \<and> f \<noteq> 0")
    case True
    then have "even (unat f)" "unat f \<noteq> 0" by (simp_all add: word_tests(2) unat_eq_0)
    with 1 [OF True] True show ?thesis
      by (simp add: shift_even.simps [of f s] even_nat.simps [of "unat f"] unat_half)
  next
    case False
    then have "\<not> (even (unat f) \<and> unat f \<noteq> 0)" by (auto simp: word_tests(2) unat_eq_0)
    with False show ?thesis by (simp only: shift_even.simps [of f s] even_nat.simps [of "unat f"] if_False map_prod_simp)
  qed
qed

lemma shift_odd_nat: "map_prod unat unat (shift_odd f s) = odd_nat (unat f) (unat s)"
proof (induction f s rule: shift_odd.induct)
  case (1 f s)
  show ?case
  proof (cases "f AND 1 = 1")
    case True
    then have "odd (unat f)" by (simp add: word_tests(1))
    with 1 [OF True] True show ?thesis
      by (simp add: shift_odd.simps [of f s] odd_nat.simps [of "unat f"] unat_half)
  next
    case False
    then have "\<not> odd (unat f)" by (simp add: word_tests(1))
    with False show ?thesis by (simp only: shift_odd.simps [of f s] odd_nat.simps [of "unat f"] if_False map_prod_simp)
  qed
qed

lemma next_nodes_nat: "map_prod unat unat (next_nodes f s) = next_nat (unat f) (unat s)"
proof (cases "f = s \<and> even (unat f)")
  case True
  obtain a b where ab: "shift_even s s = (a, b)" by force
  then have "even_nat (unat s) (unat s) = (unat a, unat b)" using shift_even_nat [of s s] by simp
  moreover have "next_nodes s s = (drop_bit 1 a, drop_bit 1 b)"
    using True unfolding next_nodes_def word_tests by (auto simp: ab)
  ultimately show ?thesis using True by (auto simp: next_nat_def unat_half)
next
  case False
  then have "next_nodes f s = (drop_bit 1 f, drop_bit 1 s)"
    unfolding next_nodes_def word_tests by auto
  with False show ?thesis by (auto simp: next_nat_def unat_half unat_same)
qed

lemma inclusion_loop_nat:
  "(case inclusion_loop cr ps f s r of Inl _ \<Rightarrow> None | Inr (f', s', r') \<Rightarrow> Some (unat f', unat s', r')) =
     inclusion_nat cr ps (unat f) (unat s) r"
proof (induction ps arbitrary: f s r)
  case (Cons p ps)
  obtain a b where ab: "next_nodes f s = (a, b)" by force
  then have n: "next_nat (unat f) (unat s) = (unat a, unat b)" using next_nodes_nat [of f s] by simp
  show ?case
    using Cons.IH by (auto simp: ab n word_tests unat_same unat_eq_0)
qed simp

lemma consistency_loop_nat:
  "(case consistency_loop cr ps f s a b of Inl _ \<Rightarrow> None | Inr (f', s', a', b') \<Rightarrow> Some (unat f', unat s', a', b')) =
     consistency_nat cr ps (unat f) (unat s) a b"
proof (induction ps arbitrary: f s a b)
  case (Cons p ps)
  obtain f' s' where n: "next_nodes f s = (f', s')" by force
  then have n': "next_nat (unat f) (unat s) = (unat f', unat s')" using next_nodes_nat [of f s] by simp
  show ?case
    using Cons.IH by (auto simp: n n' word_tests unat_same unat_eq_0)
qed simp

section \<open>What a path stands for\<close>

function rebuild :: "crypto \<Rightarrow> bytes \<Rightarrow> nat \<Rightarrow> nat \<Rightarrow> bytes list \<Rightarrow> bytes option" where
  \<comment> \<open>the root of the tree of \<open>n\<close> leaves with \<open>leaf\<close> at \<open>i\<close> and the siblings of \<open>path\<close>, root side last\<close>
  "rebuild cr leaf i n path =
     (if n \<le> 1 then (if path = [] then Some leaf else None)
      else if path = [] then None
      else let k = split_point n
           in if i < k then map_option (\<lambda>r. node_hash cr r (last path)) (rebuild cr leaf i k (butlast path))
              else map_option (\<lambda>r. node_hash cr (last path) r) (rebuild cr leaf (i - k) (n - k) (butlast path)))"
  by pat_completeness auto
termination
  by (relation "measure (\<lambda>(cr, leaf, i, n, path). n)") (use split_point_less in \<open>auto intro!: diff_less\<close>)

function crebuild :: "crypto \<Rightarrow> bytes \<Rightarrow> nat \<Rightarrow> nat \<Rightarrow> bytes list \<Rightarrow> (bytes \<times> bytes) option" where
  \<comment> \<open>the roots of the first \<open>m\<close> and of all \<open>n\<close> leaves, from the root of the last full subtree below \<open>m\<close>\<close>
  "crebuild cr seed m n path =
     (if n \<le> 1 \<or> m = n then (if path = [] then Some (seed, seed) else None)
      else if path = [] then None
      else let k = split_point n
           in if m \<le> k then map_option (\<lambda>(a, b). (a, node_hash cr b (last path))) (crebuild cr seed m k (butlast path))
              else map_option (\<lambda>(a, b). (node_hash cr (last path) a, node_hash cr (last path) b))
                     (crebuild cr seed (m - k) (n - k) (butlast path)))"
  by pat_completeness auto
termination
  by (relation "measure (\<lambda>(cr, seed, m, n, path). n)") (use split_point_less in \<open>auto intro!: diff_less\<close>)

declare rebuild.simps [simp del] crebuild.simps [simp del]

lemma rebuild_one: "rebuild cr leaf i (Suc 0) path = Some r \<longleftrightarrow> path = [] \<and> r = leaf"
  by (auto simp: rebuild.simps [of cr leaf i "Suc 0"])

lemma rebuild_split:
  assumes "2 \<le> n"
  shows "rebuild cr leaf i n path = Some r \<longleftrightarrow>
    (\<exists>q p r'. path = q @ [p] \<and>
       (if i < split_point n then rebuild cr leaf i (split_point n) q = Some r' \<and> r = node_hash cr r' p
        else rebuild cr leaf (i - split_point n) (n - split_point n) q = Some r' \<and> r = node_hash cr p r'))"
  using assms by (cases path rule: rev_cases) (auto simp: rebuild.simps [of cr leaf i n] Let_def)

lemma crebuild_base: "crebuild cr seed m m path = Some r \<longleftrightarrow> path = [] \<and> r = (seed, seed)"
  by (auto simp: crebuild.simps [of cr seed m m])

lemma crebuild_split:
  assumes "m < n" "2 \<le> n"
  shows "crebuild cr seed m n path = Some (a, b) \<longleftrightarrow>
    (\<exists>q p a' b'. path = q @ [p] \<and>
       (if m \<le> split_point n
        then crebuild cr seed m (split_point n) q = Some (a', b') \<and> a = a' \<and> b = node_hash cr b' p
        else crebuild cr seed (m - split_point n) (n - split_point n) q = Some (a', b') \<and>
          a = node_hash cr p a' \<and> b = node_hash cr p b'))"
  using assms by (cases path rule: rev_cases) (auto simp: crebuild.simps [of cr seed m n] Let_def)

section \<open>Splitting at powers of two\<close>

lemma bit_length_unique: "2 ^ a \<le> n \<Longrightarrow> n < 2 ^ Suc a \<Longrightarrow> bit_length n = Suc a"
proof -
  assume a: "2 ^ a \<le> n" "n < 2 ^ Suc a"
  then have "0 < n" by (metis gr0I not_less zero_less_numeral zero_less_power)
  then have b: "2 ^ (bit_length n - 1) \<le> n" "n < 2 ^ bit_length n" "0 < bit_length n"
    using bit_length_bounds by auto
  have "bit_length n - 1 < Suc a" using a b by (meson le_less_trans power_less_imp_less_exp one_less_numeral_iff semiring_norm(76))
  moreover have "a < bit_length n" using a b by (meson le_less_trans power_less_imp_less_exp one_less_numeral_iff semiring_norm(76))
  ultimately show ?thesis by simp
qed

lemma split_point_of:
  assumes "2 ^ a < n" "n \<le> 2 * 2 ^ a" "a < 64"
  shows "split_point n = 2 ^ a"
proof -
  have "bit_length (n - 1) = Suc a" using assms by (intro bit_length_unique) auto
  with assms(3) show ?thesis by (simp add: split_point_def leading_zeros_def)
qed

lemma split_point_pow:
  assumes "2 \<le> n" "n \<le> 2 ^ 64"
  obtains a where "split_point n = 2 ^ a" "2 ^ a < n" "n \<le> 2 * 2 ^ a" "a < 64"
proof -
  obtain a where a: "bit_length (n - 1) = Suc a"
    using bit_length_bounds [of "n - 1"] assms(1) by (cases "bit_length (n - 1)") auto
  have b: "2 ^ a \<le> n - 1" "n - 1 < 2 * 2 ^ a"
    using bit_length_bounds [of "n - 1"] assms(1) a by simp_all
  have "(2::nat) ^ a < 2 ^ 64" using b(1) assms by linarith
  then have "a < 64" by (meson power_less_imp_less_exp one_less_numeral_iff semiring_norm(76))
  moreover have "2 ^ a < n" "n \<le> 2 * 2 ^ a" using b assms(1) by linarith+
  ultimately show ?thesis using split_point_of that by blast
qed

lemma split_under:
  assumes "2 \<le> n" "n \<le> 2 ^ t" "t \<le> 64"
  obtains a where "split_point n = 2 ^ a" "2 ^ a < n" "n \<le> 2 * 2 ^ a" "a < 64" "a < t"
proof -
  have "(2::nat) ^ t \<le> 2 ^ 64" using assms(3) by (intro power_increasing) auto
  with assms(2) have "n \<le> 2 ^ 64" by linarith
  with assms(1) obtain a where a: "split_point n = 2 ^ a" "2 ^ a < n" "n \<le> 2 * 2 ^ a" "a < 64"
    by (rule split_point_pow)
  moreover have "(2::nat) ^ a < 2 ^ t" using a(2) assms(2) by linarith
  then have "a < t" by (meson power_less_imp_less_exp one_less_numeral_iff semiring_norm(76))
  ultimately show ?thesis by (rule that)
qed

section \<open>The inclusion loop computes the rebuilt root\<close>

lemma next_nat_diff: "f \<noteq> s \<Longrightarrow> next_nat f s = (f div 2, s div 2)"
  by (simp add: next_nat_def)

lemma even_nat_pow: "odd F \<Longrightarrow> even_nat (F * 2 ^ b) (F * 2 ^ b) = (F, F)"
proof (induction b)
  case (Suc b)
  then show ?case by (simp add: even_nat.simps [of "F * (2 * 2 ^ b)"] odd_pos mult.left_commute)
qed (simp add: even_nat.simps)

lemma next_nat_same: "odd F \<Longrightarrow> next_nat (F * 2 ^ b) (F * 2 ^ b) = (F div 2, F div 2)"
  by (cases b) (simp_all add: next_nat_def even_nat_pow del: power_Suc)

lemma twice_div: "(2 * F::nat) \<noteq> s div 2 ^ a \<and> 2 * F + 1 < s div 2 ^ a \<and> s div 2 ^ a div 2 = s div 2 ^ Suc a"
  if "F < s div 2 ^ Suc a"
proof -
  have "s div 2 ^ Suc a = s div 2 ^ a div 2" by (simp only: power_Suc2 div_mult2_eq)
  with that show ?thesis by auto
qed

lemma full_split:
  assumes "a < 64"
  shows "split_point (2 ^ Suc a) = 2 ^ a" "(2 ^ Suc a :: nat) - 2 ^ a = 2 ^ a" "2 \<le> (2 ^ Suc a :: nat)"
  using assms by (auto intro!: split_point_of)

lemma inclusion_left:
  \<comment> \<open>inside a full subtree left of the end, the loop follows the bits of the index\<close>
  assumes "i < 2 ^ a" "a \<le> 64" "F < s div 2 ^ a" "rebuild cr leaf i (2 ^ a) q = Some r"
  shows "inclusion_nat cr (q @ rest) (i + F * 2 ^ a) s leaf = inclusion_nat cr rest F (s div 2 ^ a) r"
  using assms
proof (induction a arbitrary: i F q r rest)
  case (Suc a)
  have "a < 64" using Suc.prems(2) by simp
  note sp = full_split [OF this]
  note half = twice_div [OF Suc.prems(3)]
  show ?case
  proof (cases "i < 2 ^ a")
    case True
    with Suc.prems(4) obtain q' p r' where q: "q = q' @ [p]" "rebuild cr leaf i (2 ^ a) q' = Some r'" "r = node_hash cr r' p"
      using rebuild_split [OF sp(3)] unfolding sp by auto
    have "inclusion_nat cr (q' @ p # rest) (i + (2 * F) * 2 ^ a) s leaf = inclusion_nat cr (p # rest) (2 * F) (s div 2 ^ a) r'"
      using half Suc.prems(2) by (intro Suc.IH True q) auto
    also have "\<dots> = inclusion_nat cr rest F (s div 2 ^ Suc a) r"
      using half q(3) by (simp add: next_nat_diff)
    finally show ?thesis by (simp add: q(1) mult_ac)
  next
    case False
    with Suc.prems(4) obtain q' p r' where q: "q = q' @ [p]" "rebuild cr leaf (i - 2 ^ a) (2 ^ a) q' = Some r'" "r = node_hash cr p r'"
      using rebuild_split [OF sp(3)] unfolding sp by auto
    have "inclusion_nat cr (q' @ p # rest) ((i - 2 ^ a) + (2 * F + 1) * 2 ^ a) s leaf =
        inclusion_nat cr (p # rest) (2 * F + 1) (s div 2 ^ a) r'"
      using half Suc.prems(1,2) False by (intro Suc.IH q) auto
    also have "\<dots> = inclusion_nat cr rest F (s div 2 ^ Suc a) r"
      using half q(3) by (simp add: next_nat_diff)
    finally show ?thesis using False by (simp add: q(1) algebra_simps)
  qed
qed (simp add: rebuild_one)

lemma edge_arith:
  \<comment> \<open>a split at \<open>2 ^ a\<close> inside a block of \<open>2 ^ m\<close>\<close>
  assumes "2 ^ a < n" "n \<le> 2 * 2 ^ a" "n \<le> (2::nat) ^ m"
  shows "a < m" "(F::nat) * 2 ^ m = F * 2 ^ (m - a) * 2 ^ a" "F * 2 ^ (m - a) = 2 * (F * 2 ^ (m - Suc a))"
    "(n - 1 + F * 2 ^ m) div 2 ^ a = Suc (F * 2 ^ (m - a))"
proof -
  have "(2::nat) ^ a < 2 ^ m" using assms by linarith
  then show am: "a < m" by (meson power_less_imp_less_exp one_less_numeral_iff semiring_norm(76))
  then show eq: "F * 2 ^ m = F * 2 ^ (m - a) * 2 ^ a" by (simp flip: power_add)
  from am show "F * 2 ^ (m - a) = 2 * (F * 2 ^ (m - Suc a))"
    by (metis Suc_diff_Suc mult.left_commute power_Suc)
  have "(n - 1) div 2 ^ a = 1"
    using assms(1,2) by (intro div_nat_eqI) auto
  then show "(n - 1 + F * 2 ^ m) div 2 ^ a = Suc (F * 2 ^ (m - a))"
    unfolding eq by (subst div_mult_self1) auto
qed

lemma inclusion_edge:
  \<comment> \<open>in the last subtree of a level both counters end at the same node\<close>
  assumes "i < n" "n \<le> 2 ^ m" "m \<le> 64" "rebuild cr leaf i n q = Some r"
  shows "\<exists>j \<le> m. \<forall>rest. inclusion_nat cr (q @ rest) (i + F * 2 ^ m) (n - 1 + F * 2 ^ m) leaf =
      inclusion_nat cr rest (F * 2 ^ (m - j)) (F * 2 ^ (m - j)) r"
  using assms
proof (induction n arbitrary: i m F q r rule: less_induct)
  case (less n)
  show ?case
  proof (cases "n = 1")
    case True
    with less.prems have "q = []" "r = leaf" "i = 0" by (simp_all add: rebuild_one)
    with True show ?thesis by (intro exI [of _ 0]) simp
  next
    case False
    with less.prems(1) have n2: "2 \<le> n" by linarith
    obtain a where a: "split_point n = 2 ^ a" "2 ^ a < n" "n \<le> 2 * 2 ^ a" "a < 64"
      using split_under [OF n2 less.prems(2,3)] by blast
    note ar = edge_arith [OF a(2,3) less.prems(2)]
    let ?G = "F * 2 ^ (m - Suc a)"
    show ?thesis
    proof (cases "i < 2 ^ a")
      case True
      then obtain q' p r' where q: "q = q' @ [p]" "rebuild cr leaf i (2 ^ a) q' = Some r'" "r = node_hash cr r' p"
        using less.prems(4) rebuild_split [OF n2] unfolding a(1) by auto
      have "inclusion_nat cr (q @ rest) (i + F * 2 ^ m) (n - 1 + F * 2 ^ m) leaf = inclusion_nat cr rest ?G ?G r" for rest
      proof -
        have "inclusion_nat cr (q' @ p # rest) (i + 2 * ?G * 2 ^ a) (n - 1 + F * 2 ^ m) leaf =
            inclusion_nat cr (p # rest) (2 * ?G) (Suc (2 * ?G)) r'"
          using inclusion_left [OF True _ _ q(2), where F = "2 * ?G" and s = "n - 1 + F * 2 ^ m"] ar(4) a(4)
          unfolding ar(3) by simp
        also have "\<dots> = inclusion_nat cr rest ?G ?G r" using q(3) by (simp add: next_nat_diff)
        finally show ?thesis unfolding q(1) ar(2) ar(3) [symmetric] by simp
      qed
      with ar(1) show ?thesis by (intro exI [of _ "Suc a"]) auto
    next
      case False
      then obtain q' p r' where q: "q = q' @ [p]" "rebuild cr leaf (i - 2 ^ a) (n - 2 ^ a) q' = Some r'" "r = node_hash cr p r'"
        using less.prems(4) rebuild_split [OF n2] unfolding a(1) by auto
      let ?H = "2 * ?G + 1"
      obtain j where j: "\<And>rest. inclusion_nat cr (q' @ rest) (i - 2 ^ a + ?H * 2 ^ a) (n - 2 ^ a - 1 + ?H * 2 ^ a) leaf =
          inclusion_nat cr rest (?H * 2 ^ (a - j)) (?H * 2 ^ (a - j)) r'"
        using less.IH [OF _ _ _ _ q(2), of a ?H] less.prems(1) a(2,3,4) False by fastforce
      have eqs: "i - 2 ^ a + ?H * 2 ^ a = i + F * 2 ^ m" "n - 2 ^ a - 1 + ?H * 2 ^ a = n - 1 + F * 2 ^ m"
        using False a(2) unfolding ar(2,3) by (auto simp: algebra_simps)
      have "inclusion_nat cr (q @ rest) (i + F * 2 ^ m) (n - 1 + F * 2 ^ m) leaf = inclusion_nat cr rest ?G ?G r" for rest
      proof -
        have "inclusion_nat cr (q @ rest) (i + F * 2 ^ m) (n - 1 + F * 2 ^ m) leaf =
            inclusion_nat cr (p # rest) (?H * 2 ^ (a - j)) (?H * 2 ^ (a - j)) r'"
          using j [of "p # rest"] unfolding eqs q(1) by simp
        also have "\<dots> = inclusion_nat cr rest ?G ?G r"
          using next_nat_same [of ?H "a - j"] q(3) by simp
        finally show ?thesis .
      qed
      with ar(1) show ?thesis by (intro exI [of _ "Suc a"]) auto
    qed
  qed
qed

lemma inclusion_nat_append:
  "inclusion_nat cr (ps @ qs) f s r =
     (case inclusion_nat cr ps f s r of None \<Rightarrow> None | Some (f', s', r') \<Rightarrow> inclusion_nat cr qs f' s' r')"
  by (induction ps arbitrary: f s r) auto

lemma inclusion_rebuild:
  assumes "i < n" "n \<le> 2 ^ 64" "rebuild cr leaf i n q = Some r"
  shows "inclusion_nat cr (q @ rest) i (n - 1) leaf = inclusion_nat cr rest 0 0 r"
  using inclusion_edge [OF assms(1,2) le_refl assms(3), of 0] by auto

function path_length :: "nat \<Rightarrow> nat \<Rightarrow> nat" where
  "path_length i n =
     (if n \<le> 1 then 0
      else Suc (if i < split_point n then path_length i (split_point n)
                else path_length (i - split_point n) (n - split_point n)))"
  by pat_completeness auto
termination
  by (relation "measure (\<lambda>(i, n). n)") (use split_point_less in \<open>auto intro!: diff_less\<close>)

declare path_length.simps [simp del]

lemma rebuild_Some: "length q = path_length i n \<longleftrightarrow> (\<exists>r. rebuild cr leaf i n q = Some r)"
proof (induction i n arbitrary: q rule: path_length.induct)
  case (1 i n)
  show ?case
  proof (cases "n \<le> 1")
    case False
    have "\<exists>r. rebuild cr leaf i n (q' @ [p]) = Some r \<longleftrightarrow>
        (\<exists>r'. (if i < split_point n then rebuild cr leaf i (split_point n) q'
           else rebuild cr leaf (i - split_point n) (n - split_point n) q') = Some r')" for q' p
      using False by (auto simp: rebuild_split)
    with False 1 show ?thesis
      by (cases q rule: rev_cases)
        (auto simp: path_length.simps [of i n] rebuild.simps [of cr leaf i n] Let_def)
  qed (simp add: rebuild.simps [of cr leaf i n] path_length.simps [of i n])
qed

lemma inclusion_accepts:
  assumes "i < n" "n \<le> 2 ^ 64"
  shows "inclusion_nat cr q i (n - 1) leaf = Some (f, 0, r) \<longleftrightarrow> f = 0 \<and> rebuild cr leaf i n q = Some r"
proof
  assume run: "inclusion_nat cr q i (n - 1) leaf = Some (f, 0, r)"
  let ?l = "path_length i n"
  show "f = 0 \<and> rebuild cr leaf i n q = Some r"
  proof (cases "?l \<le> length q")
    case True
    then have "length (take ?l q) = ?l" by simp
    then obtain r' where r': "rebuild cr leaf i n (take ?l q) = Some r'" using rebuild_Some by blast
    have "inclusion_nat cr (drop ?l q) 0 0 r' = Some (f, 0, r)"
      using inclusion_rebuild [OF assms r', of "drop ?l q"] run by simp
    then show ?thesis using r' by (cases "drop ?l q") auto
  next
    case False
    define x where "x = replicate (?l - length q) ([] :: bytes)"
    have "length (q @ x) = ?l" "x \<noteq> []" using False by (auto simp: x_def)
    then obtain r' where "rebuild cr leaf i n (q @ x) = Some r'" using rebuild_Some by blast
    then have "inclusion_nat cr (q @ x) i (n - 1) leaf = Some (0, 0, r')"
      using inclusion_rebuild [OF assms, of cr leaf "q @ x" r' "[]"] by simp
    with run \<open>x \<noteq> []\<close> show ?thesis by (cases x) (simp_all add: inclusion_nat_append)
  qed
qed (use inclusion_rebuild [OF assms, of cr leaf q r "[]"] in simp)

lemma u64_bound: "unat (w :: u64) < 2 ^ 64"
proof -
  have "unat w < 2 ^ LENGTH(64)" by (rule unsigned_less)
  then show ?thesis by simp
qed

lemma unat_pred: "i < (n :: u64) \<Longrightarrow> unat (n - 1) = unat n - 1"
  by (metis gr_implies_not0 unat_minus_one word_not_simps(1))

lemma verify_inclusion_iff:
  "verify_inclusion cr leaf index size' root path = Inr () \<longleftrightarrow>
     length path \<le> MAX_PROOF_HASHES \<and> index < size' \<and> rebuild cr leaf (unat index) (unat size') path = Some root"
proof (cases "index < size'")
  case True
  have n: "unat index < unat size'" "unat size' \<le> 2 ^ 64"
    using True u64_bound [of size'] by (simp_all add: word_less_nat_alt)
  have "(\<exists>f. inclusion_loop cr path index (size' - 1) leaf = Inr (f, 0, root)) \<longleftrightarrow>
      (\<exists>f. inclusion_nat cr path (unat index) (unat size' - 1) leaf = Some (f, 0, root))"
    using inclusion_loop_nat [of cr path index "size' - 1" leaf, symmetric] unat_pred [OF True]
    by (auto split: sum.splits prod.splits simp: unat_eq_0)
  also have "\<dots> \<longleftrightarrow> rebuild cr leaf (unat index) (unat size') path = Some root"
    unfolding inclusion_accepts [OF n] by simp
  finally show ?thesis
    using True by (auto simp: verify_inclusion_def result_simps not_less not_le split: prod.splits if_splits)
qed (auto simp: verify_inclusion_def result_simps)

section \<open>The consistency loop computes the rebuilt roots\<close>

lemma odd_nat_ones: "odd_nat (2 ^ a - 1 + F * 2 ^ a) s = odd_nat F (s div 2 ^ a)"
proof (induction a arbitrary: s)
  case (Suc a)
  obtain b where b: "(2::nat) ^ a = Suc b" by (metis gr0_implies_Suc zero_less_numeral zero_less_power)
  have f: "2 ^ Suc a - 1 + F * 2 ^ Suc a = Suc (2 * (2 ^ a - 1 + F * 2 ^ a))"
    by (simp add: b algebra_simps)
  have "odd_nat (Suc (2 * (2 ^ a - 1 + F * 2 ^ a))) s = odd_nat (2 ^ a - 1 + F * 2 ^ a) (s div 2)"
    by (subst odd_nat.simps) simp
  with Suc show ?case unfolding f by (simp add: div_mult2_eq)
qed simp

abbreviation from_odd :: "crypto \<Rightarrow> bytes list \<Rightarrow> nat \<Rightarrow> nat \<Rightarrow> bytes \<Rightarrow> (nat \<times> nat \<times> bytes \<times> bytes) option" where
  "from_odd cr ps f s seed \<equiv> consistency_nat cr ps (fst (odd_nat f s)) (snd (odd_nat f s)) seed seed"

lemma consistency_left:
  assumes "0 < m" "m \<le> 2 ^ a" "a \<le> 64" "F < s div 2 ^ a" "m = 2 ^ a \<longrightarrow> even F"
    and "crebuild cr seed m (2 ^ a) q = Some (x, y)"
  shows "from_odd cr (q @ rest) (m - 1 + F * 2 ^ a) s seed = consistency_nat cr rest F (s div 2 ^ a) x y"
  using assms
proof (induction a arbitrary: m F q x y rest)
  case 0
  then have "m = 1" by simp
  with 0 show ?case by (simp add: crebuild_base [of cr seed 1, simplified] odd_nat.simps [of F s])
next
  case (Suc a)
  note half = twice_div [OF Suc.prems(4)]
  show ?case
  proof (cases "m = 2 ^ Suc a")
    case True
    with Suc.prems have "q = []" "x = seed" "y = seed" "even F" by (simp_all add: crebuild_base)
    then show ?thesis
      unfolding True odd_nat_ones by (simp add: odd_nat.simps [of F])
  next
    case False
    then have lt: "m < 2 ^ Suc a" using Suc.prems(2) by simp
    have "a < 64" using Suc.prems(3) by simp
    note sp = full_split [OF this]
    show ?thesis
    proof (cases "m \<le> 2 ^ a")
      case True
      then obtain q' p y' where q: "q = q' @ [p]" "crebuild cr seed m (2 ^ a) q' = Some (x, y')" "y = node_hash cr y' p"
        using Suc.prems(6) crebuild_split [OF lt sp(3)] unfolding sp by auto
      have "from_odd cr (q' @ p # rest) (m - 1 + (2 * F) * 2 ^ a) s seed = consistency_nat cr (p # rest) (2 * F) (s div 2 ^ a) x y'"
        using half Suc.prems(1,3) True by (intro Suc.IH q) auto
      also have "\<dots> = consistency_nat cr rest F (s div 2 ^ Suc a) x y"
        using half q(3) by (simp add: next_nat_diff)
      finally show ?thesis by (simp add: q(1) mult_ac)
    next
      case right: False
      then obtain q' p x' y' where q: "q = q' @ [p]" "crebuild cr seed (m - 2 ^ a) (2 ^ a) q' = Some (x', y')"
          "x = node_hash cr p x'" "y = node_hash cr p y'"
        using Suc.prems(6) crebuild_split [OF lt sp(3)] unfolding sp by auto
      have "from_odd cr (q' @ p # rest) (m - 2 ^ a - 1 + (2 * F + 1) * 2 ^ a) s seed =
          consistency_nat cr (p # rest) (2 * F + 1) (s div 2 ^ a) x' y'"
        using half Suc.prems(3) right lt by (intro Suc.IH q) auto
      also have "\<dots> = consistency_nat cr rest F (s div 2 ^ Suc a) x y"
        using half q(3,4) by (simp add: next_nat_diff)
      finally show ?thesis using right by (simp add: q(1) algebra_simps)
    qed
  qed
qed

lemma consistency_edge:
  assumes "0 < m" "m < n" "n \<le> 2 ^ t" "t \<le> 64" "crebuild cr seed m n q = Some (x, y)"
  shows "\<exists>j \<le> t. \<forall>rest. from_odd cr (q @ rest) (m - 1 + F * 2 ^ t) (n - 1 + F * 2 ^ t) seed =
      consistency_nat cr rest (F * 2 ^ (t - j)) (F * 2 ^ (t - j)) x y"
  using assms
proof (induction n arbitrary: m t F q x y rule: less_induct)
  case (less n)
  have n2: "2 \<le> n" using less.prems(1,2) by linarith
  obtain a where a: "split_point n = 2 ^ a" "2 ^ a < n" "n \<le> 2 * 2 ^ a" "a < 64"
    using split_under [OF n2 less.prems(3,4)] by blast
  note ar = edge_arith [OF a(2,3) less.prems(3)]
  let ?G = "F * 2 ^ (t - Suc a)"
  have "from_odd cr (q @ rest) (m - 1 + F * 2 ^ t) (n - 1 + F * 2 ^ t) seed = consistency_nat cr rest ?G ?G x y" for rest
  proof (cases "m \<le> 2 ^ a")
    case True
    then obtain q' p y' where q: "q = q' @ [p]" "crebuild cr seed m (2 ^ a) q' = Some (x, y')" "y = node_hash cr y' p"
      using less.prems(5) crebuild_split [OF less.prems(2) n2] unfolding a(1) by auto
    have "from_odd cr (q' @ p # rest) (m - 1 + 2 * ?G * 2 ^ a) (n - 1 + F * 2 ^ t) seed =
        consistency_nat cr (p # rest) (2 * ?G) (Suc (2 * ?G)) x y'"
      using consistency_left [OF less.prems(1) True _ _ _ q(2), where F = "2 * ?G" and s = "n - 1 + F * 2 ^ t"] ar(4) a(4)
      unfolding ar(3) by simp
    also have "\<dots> = consistency_nat cr rest ?G ?G x y" using q(3) by (simp add: next_nat_diff)
    finally show ?thesis unfolding q(1) ar(2) ar(3) [symmetric] by simp
  next
    case False
    then obtain q' p x' y' where q: "q = q' @ [p]" "crebuild cr seed (m - 2 ^ a) (n - 2 ^ a) q' = Some (x', y')"
        "x = node_hash cr p x'" "y = node_hash cr p y'"
      using less.prems(5) crebuild_split [OF less.prems(2) n2] unfolding a(1) by auto
    let ?H = "2 * ?G + 1"
    obtain j where j: "\<And>rest. from_odd cr (q' @ rest) (m - 2 ^ a - 1 + ?H * 2 ^ a) (n - 2 ^ a - 1 + ?H * 2 ^ a) seed =
        consistency_nat cr rest (?H * 2 ^ (a - j)) (?H * 2 ^ (a - j)) x' y'"
      using less.IH [OF _ _ _ _ _ q(2), of a ?H] less.prems(2) a(2,3,4) False by fastforce
    have eqs: "m - 2 ^ a - 1 + ?H * 2 ^ a = m - 1 + F * 2 ^ t" "n - 2 ^ a - 1 + ?H * 2 ^ a = n - 1 + F * 2 ^ t"
      using False a(2) unfolding ar(2,3) by (auto simp: algebra_simps)
    have "from_odd cr (q @ rest) (m - 1 + F * 2 ^ t) (n - 1 + F * 2 ^ t) seed =
        consistency_nat cr (p # rest) (?H * 2 ^ (a - j)) (?H * 2 ^ (a - j)) x' y'"
      using j [of "p # rest"] unfolding eqs q(1) by simp
    also have "\<dots> = consistency_nat cr rest ?G ?G x y"
      using next_nat_same [of ?H "a - j"] q(3,4) by simp
    finally show ?thesis .
  qed
  with ar(1) show ?case by (intro exI [of _ "Suc a"]) auto
qed

lemma consistency_nat_append:
  "consistency_nat cr (ps @ qs) f s x y =
     (case consistency_nat cr ps f s x y of None \<Rightarrow> None | Some (f', s', x', y') \<Rightarrow> consistency_nat cr qs f' s' x' y')"
  by (induction ps arbitrary: f s x y) auto

lemma consistency_rebuild:
  assumes "0 < m" "m < n" "n \<le> 2 ^ 64" "crebuild cr seed m n q = Some (x, y)"
  shows "from_odd cr (q @ rest) (m - 1) (n - 1) seed = consistency_nat cr rest 0 0 x y"
  using consistency_edge [OF assms(1-3) le_refl assms(4), of 0] by auto

function chain_length :: "nat \<Rightarrow> nat \<Rightarrow> nat" where
  "chain_length m n =
     (if n \<le> 1 \<or> m = n then 0
      else Suc (if m \<le> split_point n then chain_length m (split_point n)
                else chain_length (m - split_point n) (n - split_point n)))"
  by pat_completeness auto
termination
  by (relation "measure (\<lambda>(m, n). n)") (use split_point_less in \<open>auto intro!: diff_less\<close>)

declare chain_length.simps [simp del]

lemma crebuild_Some: "length q = chain_length m n \<longleftrightarrow> (\<exists>x y. crebuild cr seed m n q = Some (x, y))"
proof (induction m n arbitrary: q rule: chain_length.induct)
  case (1 m n)
  show ?case
  proof (cases "n \<le> 1 \<or> m = n")
    case False
    with 1 show ?thesis
      by (cases q rule: rev_cases)
        (auto simp: chain_length.simps [of m n] crebuild.simps [of cr seed m n] Let_def)
  qed (auto simp: crebuild.simps [of cr seed m n] chain_length.simps [of m n])
qed

lemma consistency_accepts:
  assumes "0 < m" "m < n" "n \<le> 2 ^ 64"
  shows "from_odd cr q (m - 1) (n - 1) seed = Some (f, 0, x, y) \<longleftrightarrow> f = 0 \<and> crebuild cr seed m n q = Some (x, y)"
proof
  assume run: "from_odd cr q (m - 1) (n - 1) seed = Some (f, 0, x, y)"
  let ?l = "chain_length m n"
  show "f = 0 \<and> crebuild cr seed m n q = Some (x, y)"
  proof (cases "?l \<le> length q")
    case True
    then have "length (take ?l q) = ?l" by simp
    then obtain x' y' where r': "crebuild cr seed m n (take ?l q) = Some (x', y')" using crebuild_Some by blast
    have "consistency_nat cr (drop ?l q) 0 0 x' y' = Some (f, 0, x, y)"
      using consistency_rebuild [OF assms r', of "drop ?l q"] run by simp
    then show ?thesis using r' by (cases "drop ?l q") auto
  next
    case False
    define z where "z = replicate (?l - length q) ([] :: bytes)"
    have "length (q @ z) = ?l" "z \<noteq> []" using False by (auto simp: z_def)
    then obtain x' y' where "crebuild cr seed m n (q @ z) = Some (x', y')" using crebuild_Some by blast
    then have "from_odd cr (q @ z) (m - 1) (n - 1) seed = Some (0, 0, x', y')"
      using consistency_rebuild [OF assms, of cr seed "q @ z" x' y' "[]"] by simp
    with run \<open>z \<noteq> []\<close> show ?thesis by (cases z) (simp_all add: consistency_nat_append)
  qed
qed (use consistency_rebuild [OF assms, of cr seed q x y "[]"] in simp)

lemma power_of_two_iff: "is_power_of_two w \<longleftrightarrow> (\<exists>a. unat w = 2 ^ a)"
proof -
  have pow: "unat (push_bit a 1 :: u64) = 2 ^ a" if "a < 64" for a
  proof -
    have "(2::nat) ^ a < 2 ^ 64" using that by (intro power_strict_increasing) auto
    moreover have "(push_bit a 1 :: u64) = of_nat (2 ^ a)" by (simp add: push_bit_eq_mult)
    ultimately show ?thesis by (simp only: unat_of_nat) simp
  qed
  show ?thesis
  proof
    assume "is_power_of_two w"
    then show "\<exists>a. unat w = 2 ^ a" using pow by (auto simp: is_power_of_two_def list_ex_iff)
  next
    assume "\<exists>a. unat w = 2 ^ a"
    then obtain a where a: "unat w = 2 ^ a" ..
    then have "(2::nat) ^ a < 2 ^ 64" using u64_bound [of w] by simp
    then have "a < 64" by (meson power_less_imp_less_exp one_less_numeral_iff semiring_norm(76))
    with a pow have "w = push_bit a 1" by (simp add: unat_same [symmetric])
    with \<open>a < 64\<close> show "is_power_of_two w" by (auto simp: is_power_of_two_def list_ex_iff)
  qed
qed

definition opened :: "bool \<Rightarrow> bytes \<Rightarrow> bytes list \<Rightarrow> bytes list" where
  \<comment> \<open>the path the verifier walks: the old root first when it is itself a full subtree\<close>
  "opened pow root proof' = (if pow then root # proof' else proof')"

lemma verify_consistency_iff:
  assumes "m < n"
  shows "verify_consistency cr m r1 n r2 pr = Inr () \<longleftrightarrow>
    length pr \<le> MAX_PROOF_HASHES \<and> m \<noteq> 0 \<and>
    (\<exists>seed parts. opened (\<exists>a. unat m = 2 ^ a) r1 pr = seed # parts \<and>
       crebuild cr seed (unat m) (unat n) parts = Some (r1, r2))"
proof (cases "m = 0")
  case False
  then have mn: "0 < unat m" "unat m < unat n" "unat n \<le> 2 ^ 64"
    using assms u64_bound [of n] by (simp_all add: word_less_nat_alt unat_gt_0)
  have pred: "unat (m - 1) = unat m - 1" "unat (n - 1) = unat n - 1"
    using False assms unat_pred [of 0 m] unat_pred [of m n] by (simp_all add: word_neq_0_conv)
  obtain f s where fs: "shift_odd (m - 1) (n - 1) = (f, s)" by force
  then have on: "odd_nat (unat m - 1) (unat n - 1) = (unat f, unat s)"
    using shift_odd_nat [of "m - 1" "n - 1"] by (simp add: pred)
  have acc: "(\<exists>g. consistency_loop cr parts f s seed seed = Inr (g, 0, r1, r2)) \<longleftrightarrow>
      crebuild cr seed (unat m) (unat n) parts = Some (r1, r2)" for parts seed
  proof -
    have "(\<exists>g. consistency_loop cr parts f s seed seed = Inr (g, 0, r1, r2)) \<longleftrightarrow>
        (\<exists>g. from_odd cr parts (unat m - 1) (unat n - 1) seed = Some (g, 0, r1, r2))"
      unfolding on fst_conv snd_conv
      using consistency_loop_nat [of cr parts f s seed seed, symmetric]
      by (auto split: sum.splits prod.splits simp: unat_eq_0)
    then show ?thesis unfolding consistency_accepts [OF mn] by simp
  qed
  have "m \<noteq> n" "\<not> n < m" using assms by auto
  then show ?thesis
    using False acc unfolding verify_consistency_def power_of_two_iff opened_def
    by (auto simp: result_simps fs not_less split: prod.splits if_splits list.splits)
qed (simp add: verify_consistency_def result_simps)

section \<open>Honest proofs\<close>

lemma subtree_root_split:
  "2 \<le> length leaves \<Longrightarrow> subtree_root cr leaves =
     node_hash cr (subtree_root cr (take (split_point (length leaves)) leaves))
       (subtree_root cr (drop (split_point (length leaves)) leaves))"
  by (subst subtree_root.simps) (auto simp: Let_def split: list.splits)

lemma subtree_root_one: "length leaves = 1 \<Longrightarrow> subtree_root cr leaves = leaves ! 0"
  by (subst subtree_root.simps) (auto split: list.splits)

lemma rebuild_audit:
  "i < length leaves \<Longrightarrow>
     rebuild cr (leaves ! i) i (length leaves) (audit_path cr i leaves) = Some (subtree_root cr leaves)"
proof (induction cr i leaves rule: audit_path.induct)
  case (1 cr i leaves)
  show ?case
  proof (cases "length leaves \<le> 1")
    case True
    with 1 have "length leaves = 1" "i = 0" by linarith+
    then show ?thesis
      by (simp add: rebuild_one audit_path.simps [of cr 0 leaves] subtree_root_one)
  next
    case False
    let ?k = "split_point (length leaves)"
    have k: "?k < length leaves" "length (take ?k leaves) = ?k" using split_point_less [of "length leaves"] False by auto
    show ?thesis
    proof (cases "i < ?k")
      case True
      then have "rebuild cr (leaves ! i) i ?k (audit_path cr i (take ?k leaves)) = Some (subtree_root cr (take ?k leaves))"
        using 1(1) [OF False refl refl refl] k by simp
      with True False k show ?thesis
        by (simp add: rebuild_split audit_path.simps [of cr i leaves] subtree_root_split [of leaves] Let_def)
    next
      case right: False
      then have "rebuild cr (leaves ! i) (i - ?k) (length leaves - ?k) (audit_path cr (i - ?k) (drop ?k leaves)) =
          Some (subtree_root cr (drop ?k leaves))"
        using 1(2) [OF False refl refl refl] k 1(3) by simp
      with right False k show ?thesis
        by (simp add: rebuild_split audit_path.simps [of cr i leaves] subtree_root_split [of leaves] Let_def)
    qed
  qed
qed

lemma path_length_le: "0 < n \<Longrightarrow> n \<le> 2 ^ t \<Longrightarrow> t \<le> 64 \<Longrightarrow> path_length i n \<le> t"
proof (induction n arbitrary: i t rule: less_induct)
  case (less n)
  show ?case
  proof (cases "n \<le> 1")
    case False
    then obtain a where a: "split_point n = 2 ^ a" "2 ^ a < n" "n \<le> 2 * 2 ^ a" "a < 64" "a < t"
      using split_under [OF _ less.prems(2,3)] by force
    have "path_length i (2 ^ a) \<le> a" "path_length (i - 2 ^ a) (n - 2 ^ a) \<le> a"
      using less.IH [of "2 ^ a" a i] less.IH [of "n - 2 ^ a" a "i - 2 ^ a"] a by auto
    with a(5) show ?thesis using False a(1) by (simp add: path_length.simps [of i n])
  qed (simp add: path_length.simps [of i n])
qed

lemma chain_length_le: "0 < m \<Longrightarrow> m \<le> n \<Longrightarrow> n \<le> 2 ^ t \<Longrightarrow> t \<le> 64 \<Longrightarrow> chain_length m n \<le> t"
proof (induction n arbitrary: m t rule: less_induct)
  case (less n)
  show ?case
  proof (cases "n \<le> 1 \<or> m = n")
    case False
    then obtain a where a: "split_point n = 2 ^ a" "2 ^ a < n" "n \<le> 2 * 2 ^ a" "a < 64" "a < t"
      using split_under [OF _ less.prems(3,4)] by force
    have "m \<le> 2 ^ a \<Longrightarrow> chain_length m (2 ^ a) \<le> a" "\<not> m \<le> 2 ^ a \<Longrightarrow> chain_length (m - 2 ^ a) (n - 2 ^ a) \<le> a"
      using less.IH [of "2 ^ a" m a] less.IH [of "n - 2 ^ a" "m - 2 ^ a" a] a less.prems(1,2) by auto
    with a(5) show ?thesis using False a(1) by (cases "m \<le> 2 ^ a") (simp_all add: chain_length.simps [of m n])
  qed (simp add: chain_length.simps [of m n])
qed

lemma root_of_prefix:
  \<comment> \<open>a longer prefix splits where the whole does\<close>
  assumes "split_point (length leaves) = 2 ^ a" "2 ^ a < length leaves" "length leaves \<le> 2 * 2 ^ a" "a < 64"
    and "2 ^ a < m" "m \<le> length leaves"
  shows "subtree_root cr (take m leaves) =
    node_hash cr (subtree_root cr (take (2 ^ a) leaves)) (subtree_root cr (take (m - 2 ^ a) (drop (2 ^ a) leaves)))"
proof -
  have m: "split_point m = 2 ^ a" using assms by (intro split_point_of) auto
  have len: "length (take m leaves) = m" using assms(6) by simp
  have "0 < (2::nat) ^ a" by simp
  then have "2 \<le> m" using assms(5) by linarith
  moreover have "take (2 ^ a) (take m leaves) = take (2 ^ a) leaves" using assms(5) by (simp add: min_absorb1)
  ultimately show ?thesis
    using subtree_root_split [of "take m leaves" cr] unfolding len m by (simp only: drop_take)
qed

lemma subproof_split:
  assumes "first \<noteq> length leaves" "split_point (length leaves) = 2 ^ a" "2 ^ a < length leaves"
  shows "subproof cr first leaves whole =
    (if first \<le> 2 ^ a then subproof cr first (take (2 ^ a) leaves) whole @ [subtree_root cr (drop (2 ^ a) leaves)]
     else subproof cr (first - 2 ^ a) (drop (2 ^ a) leaves) False @ [subtree_root cr (take (2 ^ a) leaves)])"
proof -
  have "length (take (2 ^ a) leaves) = 2 ^ a" "\<not> length leaves \<le> 1"
    using assms(3) by (auto simp: min_absorb2 not_le intro: le_less_trans [rotated])
  with assms(1) show ?thesis
    by (simp only: subproof.simps [of cr first leaves whole] Let_def assms(2) if_False)
qed

lemma shorter: "2 ^ a < n \<Longrightarrow> n - 2 ^ a < (n::nat)"
  by (simp add: diff_less less_imp_neq le_less_trans [OF zero_le])

lemma chain_of_subproof:
  \<comment> \<open>the served proof, with its seed in front or implied\<close>
  assumes "0 < m" "m \<le> length leaves" "length leaves \<le> 2 ^ 64"
  shows "\<exists>seed parts. crebuild cr seed m (length leaves) parts = Some (subtree_root cr (take m leaves), subtree_root cr leaves) \<and>
    (if whole \<and> (m = length leaves \<or> (\<exists>b. m = 2 ^ b))
     then subproof cr m leaves whole = parts \<and> seed = subtree_root cr (take m leaves)
     else subproof cr m leaves whole = seed # parts)"
  using assms
proof (induction "length leaves" arbitrary: m leaves whole rule: less_induct)
  case less
  show ?case
  proof (cases "m = length leaves")
    case True
    then show ?thesis
      by (intro exI [of _ "subtree_root cr leaves"] exI [of _ "[]"]) (simp add: crebuild_base subproof.simps [of cr "length leaves" leaves])
  next
    case False
    with less.prems have lt: "m < length leaves" and n2: "2 \<le> length leaves" by linarith+
    obtain a where a: "split_point (length leaves) = 2 ^ a" "2 ^ a < length leaves" "length leaves \<le> 2 * 2 ^ a" "a < 64"
      using split_point_pow [OF n2 less.prems(3)] by blast
    note root = subtree_root_split [OF n2, of cr, unfolded a(1)]
    show ?thesis
    proof (cases "m \<le> 2 ^ a")
      case True
      have len: "length (take (2 ^ a) leaves) = 2 ^ a" using a(2) by simp
      have tm: "take m (take (2 ^ a) leaves) = take m leaves" using True by (simp add: min_absorb1)
      obtain seed parts where
        sub: "crebuild cr seed m (2 ^ a) parts = Some (subtree_root cr (take m leaves), subtree_root cr (take (2 ^ a) leaves))"
          "if whole \<and> (m = 2 ^ a \<or> (\<exists>b. m = 2 ^ b))
            then subproof cr m (take (2 ^ a) leaves) whole = parts \<and> seed = subtree_root cr (take m leaves)
            else subproof cr m (take (2 ^ a) leaves) whole = seed # parts"
        using less.hyps [of "take (2 ^ a) leaves" m whole, unfolded len tm] less.prems a(2) True by auto
      have "crebuild cr seed m (length leaves) (parts @ [subtree_root cr (drop (2 ^ a) leaves)]) =
          Some (subtree_root cr (take m leaves), subtree_root cr leaves)"
        using sub(1) True by (subst crebuild_split [OF lt n2]) (simp add: a(1) root)
      moreover have "(m = 2 ^ a \<or> (\<exists>b. m = 2 ^ b)) = (\<exists>b. m = 2 ^ b)" by auto
      ultimately show ?thesis
        using sub(2) False True unfolding subproof_split [OF False a(1,2)]
        by (intro exI [of _ seed] exI [of _ "parts @ [subtree_root cr (drop (2 ^ a) leaves)]"])
          (cases "whole \<and> (\<exists>b. m = 2 ^ b)"; simp; blast)
    next
      case right: False
      then obtain seed parts where
        sub: "crebuild cr seed (m - 2 ^ a) (length leaves - 2 ^ a) parts =
            Some (subtree_root cr (take (m - 2 ^ a) (drop (2 ^ a) leaves)), subtree_root cr (drop (2 ^ a) leaves))"
          "subproof cr (m - 2 ^ a) (drop (2 ^ a) leaves) False = seed # parts"
        using less.hyps [of "drop (2 ^ a) leaves" "m - 2 ^ a" False] less.prems shorter [OF a(2)]
        by (auto dest: diff_le_mono)
      have "crebuild cr seed m (length leaves) (parts @ [subtree_root cr (take (2 ^ a) leaves)]) =
          Some (subtree_root cr (take m leaves), subtree_root cr leaves)"
        using sub(1) right root_of_prefix [OF a, of m cr] less.prems(2)
        by (subst crebuild_split [OF lt n2]) (simp add: a(1) root)
      moreover have "m \<noteq> 2 ^ b" for b
      proof
        assume "m = 2 ^ b"
        then have "(2::nat) ^ a < 2 ^ b" "(2::nat) ^ b < 2 ^ Suc a" using right lt a(3) by simp_all
        then have "a < b" "b < Suc a" by (meson power_less_imp_less_exp one_less_numeral_iff semiring_norm(76))+
        then show False by simp
      qed
      ultimately show ?thesis
        using sub(2) False right unfolding subproof_split [OF False a(1,2)]
        by (intro exI [of _ seed] exI [of _ "parts @ [subtree_root cr (take (2 ^ a) leaves)]"]) simp
    qed
  qed
qed

section \<open>Collisions\<close>

text \<open>The pairs of child hashes under the nodes of a tree, and those a verifier hashes along a path.\<close>

function tree_nodes :: "crypto \<Rightarrow> bytes list \<Rightarrow> (bytes \<times> bytes) list" where
  "tree_nodes cr leaves =
     (if length leaves \<le> 1 then []
      else let l = take (split_point (length leaves)) leaves; r = drop (split_point (length leaves)) leaves
           in (subtree_root cr l, subtree_root cr r) # tree_nodes cr l @ tree_nodes cr r)"
  by pat_completeness auto
termination
  by (relation "measure (\<lambda>(cr, leaves). length leaves)")
    (use split_point_less in \<open>auto simp: min_def not_le intro!: diff_less\<close>)

function path_nodes :: "crypto \<Rightarrow> bytes \<Rightarrow> nat \<Rightarrow> nat \<Rightarrow> bytes list \<Rightarrow> (bytes \<times> bytes) list" where
  "path_nodes cr leaf i n path =
     (if n \<le> 1 \<or> path = [] then []
      else let k = split_point n;
               i' = (if i < k then i else i - k); n' = (if i < k then k else n - k)
           in (case rebuild cr leaf i' n' (butlast path) of
                 None \<Rightarrow> []
               | Some r \<Rightarrow> [if i < k then (r, last path) else (last path, r)]) @ path_nodes cr leaf i' n' (butlast path))"
  by pat_completeness auto
termination
  by (relation "measure (\<lambda>(cr, leaf, i, n, path). n)")
    (use split_point_less in \<open>auto intro!: diff_less\<close>)

function chain_nodes :: "crypto \<Rightarrow> bytes \<Rightarrow> nat \<Rightarrow> nat \<Rightarrow> bytes list \<Rightarrow> (bytes \<times> bytes) list" where
  "chain_nodes cr seed m n path =
     (if n \<le> 1 \<or> m = n \<or> path = [] then []
      else let k = split_point n;
               m' = (if m \<le> k then m else m - k); n' = (if m \<le> k then k else n - k)
           in (case crebuild cr seed m' n' (butlast path) of
                 None \<Rightarrow> []
               | Some (a, b) \<Rightarrow> if m \<le> k then [(b, last path)] else [(last path, a), (last path, b)]) @
              chain_nodes cr seed m' n' (butlast path))"
  by pat_completeness auto
termination
  by (relation "measure (\<lambda>(cr, seed, m, n, path). n)")
    (use split_point_less in \<open>auto intro!: diff_less\<close>)

declare tree_nodes.simps [simp del] path_nodes.simps [simp del] chain_nodes.simps [simp del]

definition no_collision :: "crypto \<Rightarrow> (bytes \<times> bytes) list \<Rightarrow> bool" where
  "no_collision cr pairs =
     list_all (\<lambda>(a, b). list_all (\<lambda>(c, d). node_hash cr a b = node_hash cr c d \<longrightarrow> a = c \<and> b = d) pairs) pairs"

lemma no_collisionD:
  "no_collision cr pairs \<Longrightarrow> (a, b) \<in> set pairs \<Longrightarrow> (c, d) \<in> set pairs \<Longrightarrow>
     node_hash cr a b = node_hash cr c d \<Longrightarrow> a = c \<and> b = d"
  by (fastforce simp: no_collision_def list_all_iff)

lemma no_collision_mono: "no_collision cr pairs \<Longrightarrow> set ps \<subseteq> set pairs \<Longrightarrow> no_collision cr ps"
  unfolding no_collision_def list_all_iff by blast

lemma tree_nodes_split:
  "2 \<le> length leaves \<Longrightarrow> tree_nodes cr leaves =
     (subtree_root cr (take (split_point (length leaves)) leaves), subtree_root cr (drop (split_point (length leaves)) leaves)) #
     tree_nodes cr (take (split_point (length leaves)) leaves) @ tree_nodes cr (drop (split_point (length leaves)) leaves)"
  by (simp add: tree_nodes.simps [of cr leaves] Let_def)

lemma path_nodes_split:
  assumes "2 \<le> n" "i < split_point n \<Longrightarrow> rebuild cr leaf i (split_point n) q = Some r"
    "\<not> i < split_point n \<Longrightarrow> rebuild cr leaf (i - split_point n) (n - split_point n) q = Some r"
  shows "path_nodes cr leaf i n (q @ [p]) =
    (if i < split_point n then (r, p) # path_nodes cr leaf i (split_point n) q
     else (p, r) # path_nodes cr leaf (i - split_point n) (n - split_point n) q)"
  using assms by (auto simp: path_nodes.simps [of cr leaf i n] Let_def)

lemma chain_nodes_split:
  assumes "m < n" "2 \<le> n" "m \<le> split_point n \<Longrightarrow> crebuild cr seed m (split_point n) q = Some (x, y)"
    "\<not> m \<le> split_point n \<Longrightarrow> crebuild cr seed (m - split_point n) (n - split_point n) q = Some (x, y)"
  shows "chain_nodes cr seed m n (q @ [p]) =
    (if m \<le> split_point n then (y, p) # chain_nodes cr seed m (split_point n) q
     else (p, x) # (p, y) # chain_nodes cr seed (m - split_point n) (n - split_point n) q)"
  using assms by (auto simp: chain_nodes.simps [of cr seed m n] Let_def)

lemma rebuild_unique:
  assumes "i < length leaves" "rebuild cr leaf i (length leaves) path = Some (subtree_root cr leaves)"
    and "no_collision cr (tree_nodes cr leaves @ path_nodes cr leaf i (length leaves) path)"
  shows "leaf = leaves ! i \<and> path = audit_path cr i leaves"
  using assms
proof (induction "length leaves" arbitrary: i leaves path rule: less_induct)
  case less
  show ?case
  proof (cases "length leaves \<le> 1")
    case True
    then have "length leaves = 1" "i = 0" using less.prems(1) by linarith+
    with less.prems(2) show ?thesis
      by (simp add: rebuild_one subtree_root_one audit_path.simps [of cr 0 leaves])
  next
    case False
    then have n2: "2 \<le> length leaves" by linarith
    let ?k = "split_point (length leaves)" and ?L = "take (split_point (length leaves)) leaves"
      and ?R = "drop (split_point (length leaves)) leaves"
    have k: "?k < length leaves" "length ?L = ?k" using split_point_less [of "length leaves"] False by auto
    define i' where "i' = (if i < ?k then i else i - ?k)"
    define T where "T = (if i < ?k then ?L else ?R)"
    obtain q p r where q: "path = q @ [p]" "rebuild cr leaf i' (length T) q = Some r"
      and eq: "(if i < ?k then node_hash cr r p else node_hash cr p r) = node_hash cr (subtree_root cr ?L) (subtree_root cr ?R)"
      using less.prems(2) k unfolding rebuild_split [OF n2] subtree_root_split [OF n2] i'_def T_def
      by (auto split: if_splits)
    have nodes: "path_nodes cr leaf i (length leaves) path =
        (if i < ?k then (r, p) else (p, r)) # path_nodes cr leaf i' (length T) q"
      using path_nodes_split [OF n2, of i cr leaf q r p] q(2) k by (simp add: q(1) i'_def T_def split: if_splits)
    have mem: "(subtree_root cr ?L, subtree_root cr ?R) \<in> set (tree_nodes cr leaves @ path_nodes cr leaf i (length leaves) path)"
      "(if i < ?k then (r, p) else (p, r)) \<in> set (tree_nodes cr leaves @ path_nodes cr leaf i (length leaves) path)"
      by (simp_all only: nodes tree_nodes_split [OF n2] set_append set_simps Un_iff insert_iff refl simp_thms)
    have "r = subtree_root cr T \<and> p = (if i < ?k then subtree_root cr ?R else subtree_root cr ?L)"
      using no_collisionD [OF less.prems(3) _ mem(1), of r p] no_collisionD [OF less.prems(3) _ mem(1), of p r] mem(2) eq
      unfolding T_def by (cases "i < ?k") (simp_all only: if_True if_False refl simp_thms)
    moreover have "leaf = T ! i' \<and> q = audit_path cr i' T"
    proof (rule less.hyps)
      show "length T < length leaves" "i' < length T" using k less.prems(1) by (auto simp: T_def i'_def intro!: diff_less)
      show "rebuild cr leaf i' (length T) q = Some (subtree_root cr T)" using q(2) calculation by simp
      show "no_collision cr (tree_nodes cr T @ path_nodes cr leaf i' (length T) q)"
        by (rule no_collision_mono [OF less.prems(3)]) (auto simp: nodes tree_nodes_split [OF n2] T_def)
    qed
    ultimately show ?thesis
      using False k unfolding q(1) T_def i'_def by (cases "i < ?k") (simp_all add: audit_path.simps [of cr i leaves] Let_def)
  qed
qed

lemma crebuild_prefix:
  assumes "0 < m" "m \<le> length leaves" "length leaves \<le> 2 ^ 64"
    and "crebuild cr seed m (length leaves) path = Some (x, subtree_root cr leaves)"
    and "no_collision cr (tree_nodes cr leaves @ chain_nodes cr seed m (length leaves) path)"
  shows "x = subtree_root cr (take m leaves)"
  using assms
proof (induction "length leaves" arbitrary: m leaves path x rule: less_induct)
  case less
  show ?case
  proof (cases "m = length leaves")
    case True
    with less.prems(4) show ?thesis by (auto simp: crebuild_base)
  next
    case False
    then have lt: "m < length leaves" and n2: "2 \<le> length leaves" using less.prems(1,2) by linarith+
    obtain a where a: "split_point (length leaves) = 2 ^ a" "2 ^ a < length leaves" "length leaves \<le> 2 * 2 ^ a" "a < 64"
      using split_point_pow [OF n2 less.prems(3)] by blast
    define m' where "m' = (if m \<le> 2 ^ a then m else m - 2 ^ a)"
    define T where "T = (if m \<le> 2 ^ a then take (2 ^ a) leaves else drop (2 ^ a) leaves)"
    have lenT: "length T = (if m \<le> 2 ^ a then 2 ^ a else length leaves - 2 ^ a)" using a(2) by (simp add: T_def min_absorb2)
    obtain q p x' y where q: "path = q @ [p]" "crebuild cr seed m' (length T) q = Some (x', y)"
      "x = (if m \<le> 2 ^ a then x' else node_hash cr p x')"
      and eq: "(if m \<le> 2 ^ a then node_hash cr y p else node_hash cr p y) =
        node_hash cr (subtree_root cr (take (2 ^ a) leaves)) (subtree_root cr (drop (2 ^ a) leaves))"
      using less.prems(4) unfolding crebuild_split [OF lt n2] subtree_root_split [OF n2] lenT a(1) m'_def
      by (auto split: if_splits)
    have nodes: "chain_nodes cr seed m (length leaves) path =
        (if m \<le> 2 ^ a then [(y, p)] else [(p, x'), (p, y)]) @ chain_nodes cr seed m' (length T) q"
      using chain_nodes_split [OF lt n2, of cr seed q x' y p] q(2) unfolding a(1)
      by (simp add: q(1) m'_def lenT split: if_splits)
    have mem: "(subtree_root cr (take (2 ^ a) leaves), subtree_root cr (drop (2 ^ a) leaves)) \<in>
        set (tree_nodes cr leaves @ chain_nodes cr seed m (length leaves) path)"
      "(if m \<le> 2 ^ a then (y, p) else (p, y)) \<in> set (tree_nodes cr leaves @ chain_nodes cr seed m (length leaves) path)"
      unfolding nodes tree_nodes_split [OF n2] a(1) by (cases "m \<le> 2 ^ a"; simp)+
    have "y = subtree_root cr T \<and> p = (if m \<le> 2 ^ a then subtree_root cr (drop (2 ^ a) leaves) else subtree_root cr (take (2 ^ a) leaves))"
      using no_collisionD [OF less.prems(5) _ mem(1), of y p] no_collisionD [OF less.prems(5) _ mem(1), of p y] mem(2) eq
      unfolding T_def by (cases "m \<le> 2 ^ a") (simp_all only: if_True if_False refl simp_thms)
    moreover have "x' = subtree_root cr (take m' T)"
    proof (rule less.hyps)
      show "length T < length leaves" "0 < m'" "m' \<le> length T" "length T \<le> 2 ^ 64"
        using a(2) less.prems(1,2,3) shorter [OF a(2)] unfolding lenT m'_def by auto
      show "crebuild cr seed m' (length T) q = Some (x', subtree_root cr T)" using q(2) calculation by simp
      show "no_collision cr (tree_nodes cr T @ chain_nodes cr seed m' (length T) q)"
        by (rule no_collision_mono [OF less.prems(5)]) (auto simp: nodes tree_nodes_split [OF n2] a(1) T_def)
    qed
    ultimately show ?thesis
      using root_of_prefix [OF a, of m cr] less.prems(2) by (auto simp: q(3) T_def m'_def min_absorb1)
  qed
qed

section \<open>The log as an append-only store\<close>

definition chron_add :: "crypto \<Rightarrow> bytes \<Rightarrow> chronicle \<Rightarrow> chron_refusal + chronicle" where
  \<comment> \<open>\<open>append\<close> without the index it returns\<close>
  "chron_add cr entry l = map_sum (\<lambda>r. r) fst (chron_append cr entry l)"

lemma unat_chron_size: "length (cl_leaves l) < 2 ^ 64 \<Longrightarrow> unat (chron_size l) = length (cl_leaves l)"
  by (simp add: chron_size_def len_u64_def unsigned_of_nat take_bit_nat_eq_self)

lemma room_iff: "MAX_CHRONICLE_ENTRIES \<le> chron_size l \<longleftrightarrow> 2 ^ 20 \<le> length (cl_leaves l)"
proof (cases "length (cl_leaves l) < 2 ^ 64")
  case True
  have "unat MAX_CHRONICLE_ENTRIES = 2 ^ 20" by (simp add: MAX_CHRONICLE_ENTRIES_def)
  then show ?thesis unfolding word_le_nat_alt unat_chron_size [OF True] by simp
next
  case False
  then have "chron_size l = - 1" by (simp add: chron_size_def len_u64_def)
  with False show ?thesis by simp
qed

interpretation chron_log: append_only "chron_add cr" cl_leaves "leaf_hash cr" "2 ^ 20"
    "\<lambda>entry. length entry \<le> MAX_ENTRY_BYTES" for cr
proof
  fix entry l l'
  assume add: "chron_add cr entry l = Inr l'"
  then show "cl_leaves l' = cl_leaves l @ [leaf_hash cr entry]"
    by (auto simp: chron_add_def chron_append_def append_leaf_def Let_def split: if_splits)
  from add show "length entry \<le> MAX_ENTRY_BYTES \<and> length (cl_leaves l) < 2 ^ 20"
    using room_iff [of l] by (auto simp: chron_add_def chron_append_def append_leaf_def Let_def split: if_splits)
next
  fix entry :: bytes and l :: chronicle
  assume "length entry \<le> MAX_ENTRY_BYTES" "length (cl_leaves l) < 2 ^ 20"
  then show "\<exists>l'. chron_add cr entry l = Inr l'"
    using room_iff [of l] by (simp add: chron_add_def chron_append_def append_leaf_def Let_def)
qed

lemma chron_run:
  assumes "append_all (chron_add cr) entries chron_new = Inr l"
  shows "cl_leaves l = map (leaf_hash cr) entries" "length entries \<le> 2 ^ 20" "unat (chron_size l) = length entries"
proof -
  show leaves: "cl_leaves l = map (leaf_hash cr) entries"
    using chron_log.run_items [OF assms] by (simp add: chron_new_def)
  have "length (cl_leaves l) \<le> 2 ^ 20" using chron_log.run_capacity [OF assms] by (simp add: chron_new_def)
  then show "length entries \<le> 2 ^ 20" "unat (chron_size l) = length entries"
    using unat_chron_size [of l] by (simp_all add: leaves)
qed

section \<open>A reader that follows a chronicle\<close>

fun follow :: "kin_env \<Rightarrow> pinned_head \<Rightarrow> (chron_head \<times> bytes list) list \<Rightarrow> chron_refusal + pinned_head" where
  \<comment> \<open>a reader that pins every head it accepts\<close>
  "follow env pin [] = Inr pin"
| "follow env pin ((offered, path) # rest) =
     try_then (advance env (Some pin) offered path) (\<lambda>_. follow env (pinned_from offered) rest)"

definition walked_nodes :: "crypto \<Rightarrow> u64 \<Rightarrow> bytes \<Rightarrow> u64 \<Rightarrow> bytes list \<Rightarrow> (bytes \<times> bytes) list" where
  \<comment> \<open>the pairs the consistency verifier hashes\<close>
  "walked_nodes cr first_size first_root second_size proof' =
     (case opened (is_power_of_two first_size) first_root proof' of
        [] \<Rightarrow> []
      | seed # parts \<Rightarrow> chain_nodes cr seed (unat first_size) (unat second_size) parts)"

fun followed_nodes :: "crypto \<Rightarrow> pinned_head \<Rightarrow> (chron_head \<times> bytes list) list \<Rightarrow> (bytes \<times> bytes) list" where
  "followed_nodes cr pin [] = []"
| "followed_nodes cr pin ((offered, path) # rest) =
     walked_nodes cr (ph_size pin) (ph_root pin) (ch_size offered) path @ followed_nodes cr (pinned_from offered) rest"

definition prefix_nodes :: "crypto \<Rightarrow> bytes list \<Rightarrow> (bytes \<times> bytes) list" where
  \<comment> \<open>the pairs under every root a log has had\<close>
  "prefix_nodes cr leaves = concat (map (\<lambda>n. tree_nodes cr (take n leaves)) [0..<Suc (length leaves)])"

lemma tree_in_prefixes: "set (tree_nodes cr (take n leaves)) \<subseteq> set (prefix_nodes cr leaves)"
proof -
  have "take n leaves = take (min n (length leaves)) leaves" by (cases "n \<le> length leaves") (simp_all add: min_absorb1 min_absorb2)
  moreover have "min n (length leaves) \<in> set [0..<Suc (length leaves)]" by auto
  ultimately show ?thesis unfolding prefix_nodes_def set_concat set_map by fastforce
qed

lemma consistency_prefix:
  assumes "verify_consistency cr m r1 n (subtree_root cr leaves) pr = Inr ()"
    and "unat n = length leaves" "m < n"
    and "no_collision cr (tree_nodes cr leaves @ walked_nodes cr m r1 n pr)"
  shows "r1 = subtree_root cr (take (unat m) leaves)"
proof -
  from assms(1) obtain seed parts where walk: "m \<noteq> 0" "opened (\<exists>a. unat m = 2 ^ a) r1 pr = seed # parts"
    "crebuild cr seed (unat m) (length leaves) parts = Some (r1, subtree_root cr leaves)"
    unfolding verify_consistency_iff [OF assms(3)] assms(2) by blast
  have "no_collision cr (tree_nodes cr leaves @ chain_nodes cr seed (unat m) (length leaves) parts)"
    using assms(4) walk(2) by (simp add: walked_nodes_def power_of_two_iff assms(2))
  moreover have "0 < unat m" "unat m \<le> length leaves" "length leaves \<le> 2 ^ 64"
    using walk(1) assms(3) u64_bound [of n] unfolding assms(2) [symmetric]
    by (simp_all add: word_less_nat_alt unat_gt_0)
  ultimately show ?thesis using crebuild_prefix walk(3) by blast
qed

lemma advance_step:
  assumes "advance env (Some pin) h path = Inr res"
  shows "device_key (ch_by h) = device_key (ph_by pin)" "ph_size pin \<le> ch_size h"
    "ch_size h = ph_size pin \<Longrightarrow> ch_root h = ph_root pin"
    "ph_size pin \<noteq> ch_size h \<Longrightarrow> ph_size pin = 0 \<Longrightarrow> ph_root pin = empty_root (ke_crypto env)"
    "ph_size pin \<noteq> ch_size h \<Longrightarrow> ph_size pin \<noteq> 0 \<Longrightarrow>
       verify_consistency (ke_crypto env) (ph_size pin) (ph_root pin) (ch_size h) (ch_root h) path = Inr ()"
  using assms by (auto simp: advance_def result_simps not_less split: if_splits)

lemma advance_prefix:
  assumes "advance env (Some pin) h path = Inr res"
    and "ch_root h = subtree_root (ke_crypto env) leaves" "unat (ch_size h) = length leaves"
    and "no_collision (ke_crypto env)
      (tree_nodes (ke_crypto env) leaves @ walked_nodes (ke_crypto env) (ph_size pin) (ph_root pin) (ch_size h) path)"
  shows "ph_root pin = subtree_root (ke_crypto env) (take (unat (ph_size pin)) leaves)"
proof (cases "ph_size pin = ch_size h")
  case True
  then show ?thesis using advance_step(3) [OF assms(1)] assms(2,3) by simp
next
  case False
  with advance_step(2) [OF assms(1)] have lt: "ph_size pin < ch_size h" by simp
  show ?thesis
  proof (cases "ph_size pin = 0")
    case True
    then show ?thesis using advance_step(4) [OF assms(1) False] by (simp add: subtree_root.simps [of _ "[]"])
  next
    case pos: False
    show ?thesis
      using consistency_prefix [OF _ assms(3) lt assms(4)] advance_step(5) [OF assms(1) False pos] assms(2) by simp
  qed
qed

lemma follow_prefix:
  assumes "follow env pin steps = Inr pin'"
    and "ph_root pin' = subtree_root (ke_crypto env) leaves" "unat (ph_size pin') = length leaves"
    and "no_collision (ke_crypto env) (prefix_nodes (ke_crypto env) leaves @ followed_nodes (ke_crypto env) pin steps)"
  shows "device_key (ph_by pin') = device_key (ph_by pin) \<and> unat (ph_size pin) \<le> length leaves \<and>
    ph_root pin = subtree_root (ke_crypto env) (take (unat (ph_size pin)) leaves)"
  using assms
proof (induction steps arbitrary: pin)
  case (Cons step steps)
  obtain h path where step: "step = (h, path)" by force
  let ?cr = "ke_crypto env"
  from Cons.prems(1) obtain res where adv: "advance env (Some pin) h path = Inr res"
    and rest: "follow env (pinned_from h) steps = Inr pin'"
    by (auto simp: step result_simps)
  have "no_collision ?cr (prefix_nodes ?cr leaves @ followed_nodes ?cr (pinned_from h) steps)"
    using Cons.prems(4) by (rule no_collision_mono) (auto simp: step)
  from Cons.IH [OF rest Cons.prems(2,3) this]
  have h: "device_key (ph_by pin') = device_key (ch_by h)" "unat (ch_size h) \<le> length leaves"
    "ch_root h = subtree_root ?cr (take (unat (ch_size h)) leaves)" by (simp_all add: pinned_from_def)
  have "no_collision ?cr (tree_nodes ?cr (take (unat (ch_size h)) leaves) @
      walked_nodes ?cr (ph_size pin) (ph_root pin) (ch_size h) path)"
    using Cons.prems(4) by (rule no_collision_mono) (use tree_in_prefixes in \<open>auto simp: step\<close>)
  from advance_prefix [OF adv h(3) _ this] h(2)
  have root: "ph_root pin = subtree_root ?cr (take (unat (ph_size pin)) (take (unat (ch_size h)) leaves))" by simp
  have "unat (ph_size pin) \<le> unat (ch_size h)" using advance_step(2) [OF adv] by (simp add: word_le_nat_alt)
  with root h advance_step(1) [OF adv] show ?case by (simp add: min_absorb1)
qed simp

lemma path_verifies:
  assumes "unat index < length (cl_leaves l)" "length (cl_leaves l) \<le> 2 ^ 20"
  shows "verify_inclusion cr (cl_leaves l ! unat index) index (chron_size l) (chron_root cr l)
    (audit_path cr (unat index) (cl_leaves l)) = Inr ()"
proof -
  let ?path = "audit_path cr (unat index) (cl_leaves l)"
  have re: "rebuild cr (cl_leaves l ! unat index) (unat index) (length (cl_leaves l)) ?path = Some (chron_root cr l)"
    using rebuild_audit [OF assms(1), of cr] by (simp add: chron_root_def)
  have "length (cl_leaves l) \<noteq> 0" using assms(1) by linarith
  then have "length ?path \<le> 20"
    using rebuild_Some [of ?path "unat index" "length (cl_leaves l)" cr "cl_leaves l ! unat index"] re
      path_length_le [of "length (cl_leaves l)" 20 "unat index"] assms(2) by force
  moreover have "unat (chron_size l) = length (cl_leaves l)" using assms(2) by (intro unat_chron_size) simp
  ultimately show ?thesis using re assms(1) by (simp add: verify_inclusion_iff MAX_PROOF_HASHES_def word_less_nat_alt)
qed

lemma chain_verifies:
  assumes "cl_leaves l = take m (cl_leaves l')" "0 < m" "m < length (cl_leaves l')" "length (cl_leaves l') \<le> 2 ^ 20"
  shows "\<exists>path. consistency cr l' (chron_size l) = Inr path \<and>
    verify_consistency cr (chron_size l) (chron_root cr l) (chron_size l') (chron_root cr l') path = Inr ()"
proof -
  let ?n = "length (cl_leaves l')" and ?sub = "subproof cr m (cl_leaves l') True"
  have size: "unat (chron_size l) = m" "unat (chron_size l') = ?n"
    using assms by (simp_all add: unat_chron_size)
  have lt: "chron_size l < chron_size l'" using assms(3) by (simp add: word_less_nat_alt size)
  obtain seed parts where walk: "crebuild cr seed m ?n parts = Some (chron_root cr l, chron_root cr l')"
    "if \<exists>b. m = 2 ^ b then ?sub = parts \<and> seed = chron_root cr l else ?sub = seed # parts"
    using chain_of_subproof [of m "cl_leaves l'" cr True] assms unfolding chron_root_def by auto
  have "length parts \<le> 20"
    using crebuild_Some [of parts m ?n cr seed] walk(1) chain_length_le [of m ?n 20] assms(2,3,4) by auto
  then have "length ?sub \<le> MAX_PROOF_HASHES"
    using walk(2) by (auto simp: MAX_PROOF_HASHES_def split: if_splits)
  moreover have "opened (\<exists>a. unat (chron_size l) = 2 ^ a) (chron_root cr l) ?sub = seed # parts"
    using walk(2) by (auto simp: opened_def size(1) split: if_splits)
  moreover have "chron_size l \<noteq> 0" using assms(2) size(1) by auto
  ultimately have "verify_consistency cr (chron_size l) (chron_root cr l) (chron_size l') (chron_root cr l') ?sub = Inr ()"
    using walk(1) unfolding verify_consistency_iff [OF lt] size by blast
  moreover have "consistency cr l' (chron_size l) = Inr ?sub"
    using assms(2,3) by (simp add: consistency_def size(1))
  ultimately show ?thesis by blast
qed

lemma head_advances:
  assumes leaves: "cl_leaves l' = cl_leaves l @ rest" "length (cl_leaves l') \<le> 2 ^ 20"
    and h: "ch_size h = chron_size l" "ch_root h = chron_root (ke_crypto env) l"
    and h': "chron_verify env h' = Inr ()" "ch_by h' = ch_by h" "ch_size h' = chron_size l'" "ch_root h' = chron_root (ke_crypto env) l'"
    and path: "\<And>p. consistency (ke_crypto env) l' (ch_size h) = Inr p \<Longrightarrow> path = p"
  shows "advance env (Some (pinned_from h)) h' path = Inr (if rest = [] then Unchanged else Extended)"
proof (cases "rest = []")
  case True
  then have "l' = l" using leaves(1) by simp
  then show ?thesis using True h h' by (simp add: advance_def pinned_from_def)
next
  case False
  let ?cr = "ke_crypto env"
  have sizes: "unat (chron_size l) = length (cl_leaves l)" "unat (chron_size l') = length (cl_leaves l) + length rest"
    using leaves by (simp_all add: unat_chron_size)
  then have lt: "chron_size l < chron_size l'" using False by (simp add: word_less_nat_alt)
  show ?thesis
  proof (cases "cl_leaves l = []")
    case True
    then have "chron_size l = 0" "chron_root ?cr l = empty_root ?cr"
      using sizes(1) by (simp_all add: unat_eq_0 chron_root_def subtree_root.simps [of _ "[]"])
    then show ?thesis using False h h' lt by (simp add: advance_def pinned_from_def)
  next
    case ne: False
    then have "chron_size l \<noteq> 0" using sizes(1) by (metis length_0_conv unat_0)
    moreover obtain p where p: "consistency ?cr l' (chron_size l) = Inr p"
      "verify_consistency ?cr (chron_size l) (chron_root ?cr l) (chron_size l') (chron_root ?cr l') p = Inr ()"
      using chain_verifies [of l "length (cl_leaves l)" l' ?cr] leaves ne False by auto
    moreover have "path = p" using path p(1) h(1) by simp
    moreover have "chron_size l' \<noteq> chron_size l" "\<not> chron_size l' < chron_size l" using lt by auto
    ultimately show ?thesis using False h h' by (simp add: advance_def pinned_from_def)
  qed
qed

section \<open>Properties\<close>

definition demo_tree :: crypto where
  \<comment> \<open>a hash that brackets its input\<close>
  "demo_tree = demo_crypto\<lparr>derive_key := (\<lambda>_ b. ''['' @ b @ '']'')\<rparr>"

definition demo_holder :: kin_env where
  "demo_holder = demo_kin\<lparr>ke_crypto := demo_tree\<rparr>"

lemma demo_holder_signing: "signing_ok demo_holder (demo_seed c)"
  by (simp add: signing_ok_def demo_holder_def demo_tree_def demo_kin_def demo_crypto_def demo_seed_def key_bytes_def
      device_from_seed_def verify_detached_def)

definition demo_chronicle :: "nat \<Rightarrow> chronicle" where
  \<comment> \<open>the first \<open>n\<close> of the entries a, b, c, d, e\<close>
  "demo_chronicle n = \<lparr>cl_leaves = map (leaf_hash demo_tree) (take n [''a'', ''b'', ''c'', ''d'', ''e''])\<rparr>"

lemma demo_run:
  "append_all (chron_add demo_tree) [''a'', ''b'', ''c'', ''d'', ''e''] chron_new = Inr (demo_chronicle 5)"
  "append_all (chron_add demo_tree) [''a'', ''b'', ''c''] chron_new = Inr (demo_chronicle 3)"
  "append_all (chron_add demo_tree) [''d'', ''e''] (demo_chronicle 3) = Inr (demo_chronicle 5)"
  by (simp_all add: chron_add_def chron_append_def append_leaf_def room_iff demo_chronicle_def chron_new_def MAX_ENTRY_BYTES_def)

text \<open>The inclusion path served for any entry verifies. After any accepted run of appends, the path
  \<open>inclusion\<close> returns for an index proves that entry against the size and the root of the head, within
  the verifier's bound on path hashes, and an index past the end is refused as out of range.\<close>

theorem served_inclusion_verifies:
  assumes "append_all (chron_add cr) entries chron_new = Inr l"
  shows "if unat index < length entries
     then \<exists>path. inclusion cr l index = Inr path \<and>
       verify_inclusion cr (leaf_hash cr (entries ! unat index)) index (chron_size l) (chron_root cr l) path = Inr ()
     else inclusion cr l index = Inl ChOutOfRange"
proof (cases "unat index < length entries")
  case True
  note l = chron_run [OF assms]
  have "verify_inclusion cr (leaf_hash cr (entries ! unat index)) index (chron_size l) (chron_root cr l)
      (audit_path cr (unat index) (cl_leaves l)) = Inr ()"
    using path_verifies [of index l cr] l(2) True by (simp add: l(1))
  then show ?thesis using True by (simp add: inclusion_def l(1))
qed (simp add: inclusion_def chron_run(1) [OF assms])

theorem served_inclusion_verifies_witness:
  "\<exists>path. inclusion demo_tree (demo_chronicle 5) 4 = Inr path \<and>
     verify_inclusion demo_tree (leaf_hash demo_tree ''e'') 4 (chron_size (demo_chronicle 5))
       (chron_root demo_tree (demo_chronicle 5)) path = Inr ()"
  using served_inclusion_verifies [OF demo_run(1), of 4] by simp

text \<open>C13: an inclusion path proves only what is in the log. When \<open>verify_inclusion\<close> accepts a leaf at an
  index against the size and root of a log, and no two different pairs among the tree's nodes and the
  pairs hashed along the path have the same node hash, the leaf is that of the entry appended at that
  index and the path is the one the holder serves.\<close>

theorem inclusion_sound:
  assumes "append_all (chron_add cr) entries chron_new = Inr l"
    and "verify_inclusion cr leaf index (chron_size l) (chron_root cr l) path = Inr ()"
    and "no_collision cr (tree_nodes cr (cl_leaves l) @ path_nodes cr leaf (unat index) (length entries) path)"
  shows "unat index < length entries \<and> leaf = leaf_hash cr (entries ! unat index) \<and> inclusion cr l index = Inr path"
proof -
  note l = chron_run [OF assms(1)]
  have i: "unat index < length entries" "rebuild cr leaf (unat index) (length entries) path = Some (subtree_root cr (cl_leaves l))"
    using assms(2) by (simp_all add: verify_inclusion_iff word_less_nat_alt l(3) chron_root_def)
  then have "leaf = cl_leaves l ! unat index \<and> path = audit_path cr (unat index) (cl_leaves l)"
    using rebuild_unique [of "unat index" "cl_leaves l" cr leaf path] assms(3) by (simp add: l(1))
  with i(1) show ?thesis by (simp add: inclusion_def l(1))
qed

theorem inclusion_sound_witness:
  "\<exists>path. inclusion demo_tree (demo_chronicle 5) 2 = Inr path \<and> length path = 3 \<and>
     verify_inclusion demo_tree (leaf_hash demo_tree ''c'') 2 (chron_size (demo_chronicle 5))
       (chron_root demo_tree (demo_chronicle 5)) path = Inr ()"
proof -
  define path where "path = audit_path demo_tree 2 (cl_leaves (demo_chronicle 5))"
  have v: "is_ok (verify_inclusion demo_tree (leaf_hash demo_tree ''c'') 2 (chron_size (demo_chronicle 5))
       (chron_root demo_tree (demo_chronicle 5)) path)" "length path = 3" unfolding path_def by code_simp+
  have n: "no_collision demo_tree (tree_nodes demo_tree (cl_leaves (demo_chronicle 5)) @
      path_nodes demo_tree (leaf_hash demo_tree ''c'') (unat (2 :: u64)) (length [''a'', ''b'', ''c'', ''d'', ''e'']) path)"
    unfolding path_def by code_simp
  from v(1) have ok: "verify_inclusion demo_tree (leaf_hash demo_tree ''c'') 2 (chron_size (demo_chronicle 5))
       (chron_root demo_tree (demo_chronicle 5)) path = Inr ()" by (simp add: is_ok_unit)
  show ?thesis using inclusion_sound [OF demo_run(1) ok n] ok v(2) by blast
qed

text \<open>C12: a reader cannot be led onto another history. When a reader that pins every accepted head ends
  at the head of a log, then everything it pinned on the way, its first pin included, is by the same
  key and is the size and root of a prefix of that very log: no rollback, no fork and no rewritten
  entry is accepted, unless two different pairs of hashes collide.\<close>

theorem follow_history:
  assumes "append_all (chron_add (ke_crypto env)) entries chron_new = Inr l"
    and "follow env pin steps = Inr pin'"
    and "ph_size pin' = chron_size l" "ph_root pin' = chron_root (ke_crypto env) l"
    and "no_collision (ke_crypto env) (prefix_nodes (ke_crypto env) (cl_leaves l) @ followed_nodes (ke_crypto env) pin steps)"
  shows "device_key (ph_by pin') = device_key (ph_by pin) \<and>
    (\<exists>earlier. append_all (chron_add (ke_crypto env)) (take (unat (ph_size pin)) entries) chron_new = Inr earlier \<and>
       ph_size pin = chron_size earlier \<and> ph_root pin = chron_root (ke_crypto env) earlier)"
proof -
  let ?cr = "ke_crypto env" and ?n = "unat (ph_size pin)"
  note l = chron_run [OF assms(1)]
  have pin: "device_key (ph_by pin') = device_key (ph_by pin)" "?n \<le> length entries"
    "ph_root pin = subtree_root ?cr (take ?n (cl_leaves l))"
    using follow_prefix [OF assms(2), of "cl_leaves l"] assms(3,4,5) by (simp_all add: l chron_root_def)
  have "append_all (chron_add ?cr) (take ?n entries @ drop ?n entries) chron_new = Inr l" using assms(1) by simp
  then obtain earlier where run: "append_all (chron_add ?cr) (take ?n entries) chron_new = Inr earlier"
    unfolding chron_log.run_append by (auto simp: result_simps)
  have "unat (chron_size earlier) = ?n" "chron_root ?cr earlier = ph_root pin"
    using chron_run [OF run] pin(2,3) by (simp_all add: chron_root_def l(1) take_map)
  with run pin(1) show ?thesis by (auto simp: word_unat_eq_iff)
qed

definition demo_head :: "nat \<Rightarrow> chron_head" where
  "demo_head n = \<lparr>ch_by = demo_key (CHR ''1''), ch_semantics = 1, ch_size = of_nat n,
     ch_root = chron_root demo_tree (demo_chronicle n), ch_signature = replicate 64 (CHR ''s'')\<rparr>"

definition demo_steps :: "(chron_head \<times> bytes list) list" where
  "demo_steps = [(demo_head 4, subproof demo_tree 3 (cl_leaves (demo_chronicle 4)) True),
     (demo_head 5, subproof demo_tree 4 (cl_leaves (demo_chronicle 5)) True)]"

theorem follow_history_witness:
  "follow demo_holder (pinned_from (demo_head 3)) demo_steps = Inr (pinned_from (demo_head 5)) \<and>
   (\<exists>earlier. append_all (chron_add demo_tree) [''a'', ''b'', ''c''] chron_new = Inr earlier \<and>
      ph_size (pinned_from (demo_head 3)) = chron_size earlier)"
proof -
  have cr: "ke_crypto demo_holder = demo_tree" by (simp add: demo_holder_def)
  have "list_all (\<lambda>(n, h, path). is_ok (advance demo_holder (Some (pinned_from (demo_head n))) h path)) (zip [3, 4] demo_steps)"
    by code_simp
  then have f: "follow demo_holder (pinned_from (demo_head 3)) demo_steps = Inr (pinned_from (demo_head 5))"
    by (auto simp: demo_steps_def result_simps elim!: is_ok.elims)
  have n: "no_collision demo_tree (prefix_nodes demo_tree (cl_leaves (demo_chronicle 5)) @
      followed_nodes demo_tree (pinned_from (demo_head 3)) demo_steps)" by code_simp
  have s: "ph_size (pinned_from (demo_head 5)) = chron_size (demo_chronicle 5)"
    "ph_root (pinned_from (demo_head 5)) = chron_root demo_tree (demo_chronicle 5)"
    "unat (ph_size (pinned_from (demo_head 3))) = 3"
    by (simp_all add: pinned_from_def demo_head_def demo_chronicle_def chron_size_def len_u64_def)
  show ?thesis
    using follow_history [of demo_holder, unfolded cr, OF demo_run(1) f s(1,2) n, unfolded s(3)] f by auto
qed

text \<open>An honest holder is always followed. A reader with no pin pins the holder's head; a reader that
  pinned the head of an earlier state of the log, the empty one included, accepts the head of any
  later state with the consistency path the holder serves, as unchanged when nothing was appended and
  as extended otherwise.\<close>

theorem honest_head_advances:
  assumes "signing_ok env seed" "append_all (chron_add (ke_crypto env)) es chron_new = Inr l"
    and "append_all (chron_add (ke_crypto env)) fs l = Inr l'"
    and "chron_head_of env seed l = Inr h" "chron_head_of env seed l' = Inr h'"
  shows "advance env None h [] = Inr Pinned \<and>
    advance env (Some (pinned_from h)) h' (case consistency (ke_crypto env) l' (ch_size h) of Inr path \<Rightarrow> path | Inl _ \<Rightarrow> []) =
      Inr (if fs = [] then Unchanged else Extended)"
proof -
  let ?cr = "ke_crypto env"
  have head: "chron_verify env g = Inr () \<and> ch_size g = chron_size m \<and> ch_root g = chron_root ?cr m \<and> ch_by g = device_from_seed env seed"
    if "chron_head_of env seed m = Inr g" for g m
    using that assms(1) by (auto simp: chron_head_of_def chron_seal_def chron_verify_def Let_def signing_ok_def result_simps)
  note h = head [OF assms(4)] and h' = head [OF assms(5)]
  have run: "append_all (chron_add ?cr) (es @ fs) chron_new = Inr l'" using assms(2,3) by (simp add: chron_log.run_append)
  have "advance env (Some (pinned_from h)) h' (case consistency ?cr l' (ch_size h) of Inr path \<Rightarrow> path | Inl _ \<Rightarrow> []) =
      Inr (if map (leaf_hash ?cr) fs = [] then Unchanged else Extended)"
    using chron_run [OF assms(2)] chron_run [OF run] h h' by (intro head_advances [of l' l]) auto
  then show ?thesis using h by (simp add: advance_def)
qed

theorem honest_head_advances_witness:
  "\<exists>h h'. chron_head_of demo_holder (demo_seed (CHR ''1'')) (demo_chronicle 3) = Inr h \<and>
     chron_head_of demo_holder (demo_seed (CHR ''1'')) (demo_chronicle 5) = Inr h' \<and>
     advance demo_holder (Some (pinned_from h)) h' (case consistency demo_tree (demo_chronicle 5) (ch_size h) of Inr path \<Rightarrow> path | Inl _ \<Rightarrow> [])
       = Inr Extended"
proof -
  have cr: "ke_crypto demo_holder = demo_tree" by (simp add: demo_holder_def)
  obtain h h' where hs: "chron_head_of demo_holder (demo_seed (CHR ''1'')) (demo_chronicle 3) = Inr h"
    "chron_head_of demo_holder (demo_seed (CHR ''1'')) (demo_chronicle 5) = Inr h'"
    by (simp add: chron_head_of_def chron_seal_def Let_def)
  with honest_head_advances [of demo_holder, unfolded cr, OF demo_holder_signing demo_run(2,3) hs] show ?thesis by auto
qed

end
