(* ===== verification/Chronicler.thy ===== *)
theory Chronicler
  imports Chronicle "HOL-Library.Sublist"
begin

text \<open>
  The chronicle a deployment keeps (\<^verbatim>\<open>crates/directory/src/chronicle.rs\<close>): the log cached in memory,
  the store of leaves under it, which other holders append to as well, the append that retries around
  a lost race, and the receipt of a publication: the signed head, the entry's index, its inclusion path
  and one mark per device.

  Other holders are the argument \<open>others\<close> of an append: the leaves that reach the store before its
  first, second, ... attempt. The text of an unavailable answer keeps what it renders (\<open>why\<close>).
\<close>

datatype why = Text string | ChronWhy chron_refusal | MarkWhy kin_refusal

datatype dir_refusal =
    NotAvailable | MalformedAddress | NotAuthentic | StaleChallenge | TooFast | TooLarge | Unavailable why

definition MAX_APPEND_RACES :: nat where "MAX_APPEND_RACES = 8"

record chronicler =
  cn_chronicle :: chronicle
  cn_store :: "bytes list"
  cn_seed :: bytes

section \<open>The store of leaves\<close>

definition store_append :: "u64 \<Rightarrow> bytes \<Rightarrow> bytes list \<Rightarrow> (why + bool) \<times> bytes list" where
  "store_append index leaf leaves =
     (case len_u64 leaves of
        None \<Rightarrow> (Inl (Text ''index''), leaves)
      | Some n \<Rightarrow> if index \<noteq> n then (Inr False, leaves) else (Inr True, leaves @ [leaf]))"

section \<open>The chronicler\<close>

definition cn_open :: "bytes list \<Rightarrow> bytes \<Rightarrow> chron_refusal + chronicler" where
  "cn_open leaves seed =
     try_then (from_leaves leaves) (\<lambda>l. Inr \<lparr>cn_chronicle = l, cn_store = leaves, cn_seed = seed\<rparr>)"

definition cn_reload :: "chronicler \<Rightarrow> dir_refusal + chronicler" where
  "cn_reload c =
     (case from_leaves (cn_store c) of
        Inl r \<Rightarrow> Inl (Unavailable (ChronWhy r))
      | Inr l \<Rightarrow> Inr (c\<lparr>cn_chronicle := l\<rparr>))"

definition cn_head :: "kin_env \<Rightarrow> chronicler \<Rightarrow> dir_refusal + chron_head" where
  "cn_head env c = map_sum (\<lambda>r. Unavailable (ChronWhy r)) (\<lambda>h. h) (chron_head_of env (cn_seed c) (cn_chronicle c))"

definition raced :: "bytes list list \<Rightarrow> bytes list" where
  \<comment> \<open>what other holders append before this attempt\<close>
  "raced others = (case others of [] \<Rightarrow> [] | now # _ \<Rightarrow> now)"

function cn_append_loop :: "bytes \<Rightarrow> nat \<Rightarrow> bytes list list \<Rightarrow> chronicler \<Rightarrow> (dir_refusal + u64) \<times> chronicler" where
  "cn_append_loop leaf races others c =
     (let index = chron_size (cn_chronicle c)
      in if MAX_CHRONICLE_ENTRIES \<le> index then (Inl (Unavailable (Text ''the chronicle is full'')), c)
         else let c' = c\<lparr>cn_store := cn_store c @ raced others\<rparr>
              in case store_append index leaf (cn_store c') of
                   (Inl why, _) \<Rightarrow> (Inl (Unavailable why), c')
                 | (Inr True, leaves) \<Rightarrow>
                     (case append_leaf leaf (cn_chronicle c') of
                        Inl r \<Rightarrow> (Inl (Unavailable (ChronWhy r)), c'\<lparr>cn_store := leaves\<rparr>)
                      | Inr (l, _) \<Rightarrow> (Inr index, c'\<lparr>cn_store := leaves, cn_chronicle := l\<rparr>))
                 | (Inr False, _) \<Rightarrow>
                     if MAX_APPEND_RACES < races + 1
                     then (Inl (Unavailable (Text ''chronicle append raced out'')), c')
                     else case cn_reload c' of
                            Inl r \<Rightarrow> (Inl r, c')
                          | Inr c'' \<Rightarrow> cn_append_loop leaf (races + 1) (tl others) c'')"
  by pat_completeness auto
termination
  by (relation "measure (\<lambda>(leaf, races, others, c). Suc MAX_APPEND_RACES - races)") auto

declare cn_append_loop.simps [simp del]

definition cn_append :: "bytes \<Rightarrow> bytes list list \<Rightarrow> chronicler \<Rightarrow> (dir_refusal + u64) \<times> chronicler" where
  "cn_append leaf others c = cn_append_loop leaf 0 others c"

definition cn_mark :: "kin_env \<Rightarrow> chronicler \<Rightarrow> string \<Rightarrow> u64 \<Rightarrow> bytes \<Rightarrow> chron_head \<Rightarrow> dir_refusal + avowal" where
  "cn_mark env c subject entry leaf head =
     map_sum (\<lambda>r. Unavailable (MarkWhy r)) (\<lambda>a. a)
       (avowal_seal env (cn_seed c) (DeviceParty subject) (Chronicled (ch_size head) (ch_root head) entry leaf)
          Public (ch_size head) (take 16 leaf))"

record receipt =
  rc_head :: "chron_head option"
  rc_entry :: "u64 option"
  rc_inclusion :: "bytes list"
  rc_marks :: "avowal list"

definition receipt_default :: receipt where
  "receipt_default = \<lparr>rc_head = None, rc_entry = None, rc_inclusion = [], rc_marks = []\<rparr>"

definition cn_chronicle_entry ::
  "kin_env \<Rightarrow> bytes \<Rightarrow> string list \<Rightarrow> bytes list list \<Rightarrow> chronicler \<Rightarrow> (dir_refusal + receipt) \<times> chronicler" where
  "cn_chronicle_entry env entry subjects others c =
     (let leaf = leaf_hash (ke_crypto env) entry
      in case cn_append leaf others c of
           (Inl r, c') \<Rightarrow> (Inl r, c')
         | (Inr index, c') \<Rightarrow>
             (try_then (cn_head env c') (\<lambda>head.
              try_then (map_sum (\<lambda>r. Unavailable (ChronWhy r)) (\<lambda>p. p) (inclusion (ke_crypto env) (cn_chronicle c') index)) (\<lambda>path.
              try_then (collect_result (\<lambda>s. cn_mark env c' s index leaf head) subjects) (\<lambda>marks.
                Inr \<lparr>rc_head = Some head, rc_entry = Some index, rc_inclusion = path, rc_marks = marks\<rparr>))), c'))"

record chronicle_answer =
  ca_head :: chron_head
  ca_consistency :: "bytes list"

definition cn_answer :: "kin_env \<Rightarrow> u64 option \<Rightarrow> chronicler \<Rightarrow> dir_refusal + chronicle_answer" where
  "cn_answer env first c =
     try_then (cn_head env c) (\<lambda>head.
     try_then (case first of
         Some n \<Rightarrow>
           if n \<le> chron_size (cn_chronicle c) \<and> 0 < n
           then map_sum (\<lambda>r. Unavailable (ChronWhy r)) (\<lambda>p. p) (consistency (ke_crypto env) (cn_chronicle c) n)
           else Inr []
       | None \<Rightarrow> Inr []) (\<lambda>path.
       Inr \<lparr>ca_head = head, ca_consistency = path\<rparr>))"

section \<open>The log never forks\<close>

definition cn_ok :: "chronicler \<Rightarrow> bool" where
  \<comment> \<open>the cache is a prefix of the store and within the capacity\<close>
  "cn_ok c \<longleftrightarrow> prefix (cl_leaves (cn_chronicle c)) (cn_store c) \<and> length (cl_leaves (cn_chronicle c)) \<le> 2 ^ 20"

lemma from_leaves_Inr: "from_leaves leaves = Inr l \<longleftrightarrow> length leaves \<le> 2 ^ 20 \<and> l = \<lparr>cl_leaves = leaves\<rparr>"
proof (cases "length leaves < 2 ^ 64")
  case True
  have "unat MAX_CHRONICLE_ENTRIES = 2 ^ 20" by (simp add: MAX_CHRONICLE_ENTRIES_def)
  then have "MAX_CHRONICLE_ENTRIES < of_nat (length leaves) \<longleftrightarrow> 2 ^ 20 < length leaves"
    using True by (simp add: word_less_nat_alt unsigned_of_nat take_bit_nat_eq_self)
  with True show ?thesis by (auto simp: from_leaves_def len_u64_def)
qed (auto simp: from_leaves_def len_u64_def)

lemma small_sizes:
  assumes "length leaves \<le> 2 ^ 20"
  shows "len_u64 leaves = Some (of_nat (length leaves))" "unat (of_nat (length leaves) :: u64) = length leaves"
  using assms by (simp_all add: len_u64_def unsigned_of_nat take_bit_nat_eq_self)

lemma store_append_taken:
  assumes "unat index \<noteq> length leaves" "length leaves \<le> 2 ^ 20"
  shows "store_append index leaf leaves = (Inr False, leaves)"
  using assms small_sizes [OF assms(2)] by (auto simp: store_append_def)

lemma store_append_free:
  assumes "unat index = length leaves" "length leaves \<le> 2 ^ 20"
  shows "store_append index leaf leaves = (Inr True, leaves @ [leaf])"
  using assms small_sizes [OF assms(2)] by (auto simp: store_append_def simp flip: assms(1))

lemma append_leaf_Inr:
  "append_leaf leaf l = Inr (l', i) \<longleftrightarrow> length (cl_leaves l) < 2 ^ 20 \<and> l' = l\<lparr>cl_leaves := cl_leaves l @ [leaf]\<rparr> \<and> i = chron_size l"
  using room_iff [of l] by (auto simp: append_leaf_def Let_def)

lemma unat_MAX_CHRONICLE_ENTRIES: "unat MAX_CHRONICLE_ENTRIES = 2 ^ 20"
  by (simp add: MAX_CHRONICLE_ENTRIES_def)

lemma cn_index:
  assumes "cn_ok c"
  shows "unat (chron_size (cn_chronicle c)) = length (cl_leaves (cn_chronicle c))"
    and "MAX_CHRONICLE_ENTRIES \<le> chron_size (cn_chronicle c) \<longleftrightarrow> 2 ^ 20 \<le> length (cl_leaves (cn_chronicle c))"
  using assms by (simp_all add: cn_ok_def unat_chron_size word_le_nat_alt unat_MAX_CHRONICLE_ENTRIES)

lemma cn_reload_Inr:
  "cn_reload c = Inr c' \<longleftrightarrow> length (cn_store c) \<le> 2 ^ 20 \<and> c' = c\<lparr>cn_chronicle := \<lparr>cl_leaves = cn_store c\<rparr>\<rparr>"
proof (cases "from_leaves (cn_store c)")
  case (Inl r)
  then have "\<not> length (cn_store c) \<le> 2 ^ 20" using from_leaves_Inr [of "cn_store c" "\<lparr>cl_leaves = cn_store c\<rparr>"] by auto
  then show ?thesis using Inl by (simp add: cn_reload_def)
next
  case (Inr l)
  then have "length (cn_store c) \<le> 2 ^ 20" "l = \<lparr>cl_leaves = cn_store c\<rparr>" by (simp_all add: from_leaves_Inr)
  then show ?thesis using Inr by (auto simp: cn_reload_def)
qed

lemma store_append_Inr:
  assumes "unat index < 2 ^ 20" "store_append index leaf leaves = (Inr taken, leaves')"
  shows "taken \<longleftrightarrow> unat index = length leaves" "leaves' = leaves @ (if taken then [leaf] else [])"
  using assms
  by (auto simp: store_append_def len_u64_def unsigned_of_nat take_bit_nat_eq_self word_unat_eq_iff
      split: if_splits option.splits)

lemma store_append_Inl: "store_append index leaf leaves = (Inl w, leaves') \<Longrightarrow> leaves' = leaves"
  by (auto simp: store_append_def split: if_splits option.splits)

definition wrote :: "bytes \<Rightarrow> (dir_refusal + u64) \<Rightarrow> bytes list" where
  \<comment> \<open>what an append with this answer put in the store itself\<close>
  "wrote leaf answer = (case answer of Inr _ \<Rightarrow> [leaf] | Inl _ \<Rightarrow> [])"

lemma wrote_simps [simp]: "wrote leaf (Inr i) = [leaf]" "wrote leaf (Inl r) = []"
  by (simp_all add: wrote_def)

definition lands :: "chronicler \<Rightarrow> chronicler \<Rightarrow> bytes list \<Rightarrow> bytes \<Rightarrow> (dir_refusal + u64) \<Rightarrow> bool" where
  \<comment> \<open>the store grew by \<open>between\<close> and then by what the append wrote, at the index it answered\<close>
  "lands c c' between leaf answer \<longleftrightarrow>
     cn_ok c' \<and> cn_seed c' = cn_seed c \<and> cn_store c' = cn_store c @ between @ wrote leaf answer \<and>
     (\<forall>index. answer = Inr index \<longrightarrow>
        unat index = length (cn_store c @ between) \<and> cl_leaves (cn_chronicle c') = cn_store c')"

lemma raced_take: "raced others @ concat (take k (tl others)) = concat (take (Suc k) others)"
  by (cases others) (simp_all add: raced_def)

definition joined :: "bytes list list \<Rightarrow> chronicler \<Rightarrow> chronicler" where
  \<comment> \<open>the chronicler once the others' leaves of this attempt are in the store\<close>
  "joined others c = c\<lparr>cn_store := cn_store c @ raced others\<rparr>"

definition caught_up :: "chronicler \<Rightarrow> chronicler" where
  "caught_up c = c\<lparr>cn_chronicle := \<lparr>cl_leaves = cn_store c\<rparr>\<rparr>"

definition took_slot :: "bytes \<Rightarrow> chronicler \<Rightarrow> chronicler" where
  "took_slot leaf c = caught_up (c\<lparr>cn_store := cn_store c @ [leaf]\<rparr>)"

lemmas attempt_defs = joined_def caught_up_def took_slot_def

text \<open>One attempt: it stops with an error before or after the others' leaves arrived, or takes the slot
  when the cache is all of the store, or reloads and tries again.\<close>

lemma append_attempt:
  assumes "cn_ok c"
  obtains r where "cn_append_loop leaf races others c = (Inl r, c)" "2 ^ 20 \<le> length (cl_leaves (cn_chronicle c))"
  | r where "cn_append_loop leaf races others c = (Inl r, joined others c)"
      "MAX_APPEND_RACES \<le> races \<or> 2 ^ 20 < length (cn_store (joined others c))"
      "MAX_APPEND_RACES \<le> races \<longrightarrow> cl_leaves (cn_chronicle c) \<noteq> cn_store (joined others c)"
  | "cn_append_loop leaf races others c = (Inr (chron_size (cn_chronicle c)), took_slot leaf (joined others c))"
      "cl_leaves (cn_chronicle c) = cn_store (joined others c)" "length (cl_leaves (cn_chronicle c)) < 2 ^ 20"
  | "cn_append_loop leaf races others c = cn_append_loop leaf (races + 1) (tl others) (caught_up (joined others c))"
      "races < MAX_APPEND_RACES" "length (cn_store (joined others c)) \<le> 2 ^ 20"
      "cl_leaves (cn_chronicle c) \<noteq> cn_store (joined others c)"
proof -
  let ?index = "chron_size (cn_chronicle c)" and ?store = "cn_store c @ raced others"
  note index = cn_index [OF assms]
  consider "2 ^ 20 \<le> length (cl_leaves (cn_chronicle c))"
    | "length (cl_leaves (cn_chronicle c)) < 2 ^ 20" "2 ^ 64 \<le> length ?store"
    | "length (cl_leaves (cn_chronicle c)) < 2 ^ 20" "length ?store < 2 ^ 64" "length (cl_leaves (cn_chronicle c)) = length ?store"
    | "length (cl_leaves (cn_chronicle c)) < 2 ^ 20" "length ?store < 2 ^ 64" "length (cl_leaves (cn_chronicle c)) \<noteq> length ?store"
    by linarith
  then show thesis
  proof cases
    case 1
    then show thesis using index by (intro that(1)) (auto simp: cn_append_loop.simps [of leaf races])
  next
    case 2
    then have "store_append ?index leaf ?store = (Inl (Text ''index''), ?store)" by (simp add: store_append_def len_u64_def)
    then show thesis using 2 index by (intro that(2)) (auto simp: cn_append_loop.simps [of leaf races] joined_def)
  next
    case 3
    then have st: "store_append ?index leaf ?store = (Inr True, ?store @ [leaf])" using index by (intro store_append_free) auto
    have eq: "cl_leaves (cn_chronicle c) = ?store" using assms 3(3) by (auto simp: cn_ok_def prefix_def)
    have "append_leaf leaf (cn_chronicle c) = Inr (\<lparr>cl_leaves = ?store @ [leaf]\<rparr>, ?index)"
      using 3(1) eq by (cases "cn_chronicle c") (simp add: append_leaf_Inr)
    then show thesis using 3 index eq st
      by (intro that(3)) (auto simp: cn_append_loop.simps [of leaf races] attempt_defs)
  next
    case 4
    have "unat (of_nat (length ?store) :: u64) = length ?store"
      using 4(2) by (simp only: unsigned_of_nat) (simp add: take_bit_nat_eq_self)
    then have "?index \<noteq> of_nat (length ?store)" using index(1) 4(3) by metis
    then have st: "store_append ?index leaf ?store = (Inr False, ?store)" using 4(2) by (simp add: store_append_def len_u64_def)
    show thesis
    proof (cases "races < MAX_APPEND_RACES \<and> length ?store \<le> 2 ^ 20")
      case True
      then have "cn_reload (joined others c) = Inr (caught_up (joined others c))"
        by (simp add: cn_reload_Inr attempt_defs)
      then show thesis using True 4 index st
        by (intro that(4)) (auto simp: cn_append_loop.simps [of leaf races] joined_def)
    next
      case False
      then have "\<exists>r. cn_append_loop leaf races others c = (Inl r, joined others c)"
        using 4 index st cn_reload_Inr [of "joined others c"]
        by (cases "cn_reload (joined others c)") (auto simp: cn_append_loop.simps [of leaf races] joined_def Let_def)
      then show thesis using False 4(3) by (elim exE) (rule that(2), auto simp: joined_def)
    qed
  qed
qed

lemma joined_ok: "cn_ok c \<Longrightarrow> cn_ok (joined others c)"
  by (auto simp: cn_ok_def joined_def prefix_def)

lemma append_loop_lands:
  assumes "cn_ok c" "cn_append_loop leaf races others c = (answer, c')"
  shows "\<exists>k. lands c c' (concat (take k others)) leaf answer"
  using assms
proof (induction "MAX_APPEND_RACES - races" arbitrary: races others c rule: less_induct)
  case less
  have one: "concat (take (Suc 0) others) = raced others" using raced_take [of others 0] by simp
  from less.prems(1) show ?case
  proof (cases rule: append_attempt [where leaf = leaf and races = races and others = others])
    case 1
    with less.prems have "lands c c' (concat (take 0 others)) leaf answer" by (auto simp: lands_def)
    then show ?thesis by blast
  next
    case 2
    with less.prems have "lands c c' (concat (take (Suc 0) others)) leaf answer"
      using joined_ok [of c others] by (auto simp: lands_def one joined_def)
    then show ?thesis by blast
  next
    case 3
    with less.prems have "lands c c' (concat (take (Suc 0) others)) leaf answer"
      using cn_index(1) [of c] by (auto simp: lands_def one attempt_defs cn_ok_def)
    then show ?thesis by blast
  next
    case 4
    then have "cn_ok (caught_up (joined others c))" by (simp add: cn_ok_def attempt_defs)
    with less.hyps [of "races + 1" "caught_up (joined others c)" "tl others"] less.prems 4
    obtain k where "lands (caught_up (joined others c)) c' (concat (take k (tl others))) leaf answer"
      using diff_less_mono2 [OF lessI] by auto
    then have "lands c c' (concat (take (Suc k) others)) leaf answer"
      by (simp add: lands_def attempt_defs flip: raced_take)
    then show ?thesis by blast
  qed
qed

lemma append_lands:
  assumes "cn_ok c" "cn_append leaf others c = (answer, c')"
  obtains between where "lands c c' between leaf answer"
  using append_loop_lands [OF assms(1)] assms(2) unfolding cn_append_def by blast

lemma append_loop_finds_slot:
  assumes "cn_ok c" "i = 0 \<longrightarrow> cl_leaves (cn_chronicle c) = cn_store c" "races + i \<le> MAX_APPEND_RACES"
    and "raced (drop i others) = []" "length (cn_store c) + length (concat (take i others)) < 2 ^ 20"
  shows "\<exists>index. fst (cn_append_loop leaf races others c) = Inr index"
  using assms
proof (induction i arbitrary: races others c)
  case 0
  then have "cl_leaves (cn_chronicle c) = cn_store (joined others c)" by (simp add: joined_def)
  with 0 show ?case by (cases rule: append_attempt [OF \<open>cn_ok c\<close>, where leaf = leaf and races = races and others = others]) auto
next
  case (Suc i)
  have room: "length (cn_store (joined others c)) + length (concat (take i (tl others))) < 2 ^ 20"
    using Suc.prems(5) by (simp add: joined_def flip: raced_take)
  from Suc.prems(1) show ?case
  proof (cases rule: append_attempt [where leaf = leaf and races = races and others = others])
    case 1
    then show ?thesis using Suc.prems(1,5) by (auto simp: cn_ok_def dest!: prefix_length_le)
  next
    case 2
    then show ?thesis using room Suc.prems(3) by auto
  next
    case 3
    then show ?thesis by simp
  next
    case 4
    have "cn_ok (caught_up (joined others c))" using 4 by (simp add: cn_ok_def attempt_defs)
    then show ?thesis
      using Suc.IH [of "caught_up (joined others c)" "races + 1" "tl others"] Suc.prems(3,4) room 4
      by (simp add: attempt_defs drop_Suc)
  qed
qed

section \<open>Receipts and answers\<close>

lemma cn_head_Inr: "\<exists>h. cn_head env c = Inr h \<and> ch_by h = device_from_seed env (cn_seed c) \<and>
    ch_size h = chron_size (cn_chronicle c) \<and> ch_root h = chron_root (ke_crypto env) (cn_chronicle c) \<and>
    (signing_ok env (cn_seed c) \<longrightarrow> chron_verify env h = Inr ())"
  by (auto simp: cn_head_def chron_head_of_def chron_seal_def chron_verify_def Let_def signing_ok_def result_simps)

lemma cn_mark_Inr: "entry < ch_size h \<Longrightarrow> \<exists>m. cn_mark env c subject entry leaf h = Inr m \<and> av_subject m = DeviceParty subject \<and>
    av_by m = device_from_seed env (cn_seed c) \<and> av_claim m = Chronicled (ch_size h) (ch_root h) entry leaf \<and>
    (signing_ok env (cn_seed c) \<longrightarrow> avowal_verify env m = Inr ())"
  by (auto simp: cn_mark_def avowal_seal_def avowal_verify_def Let_def result_simps signing)

lemma cn_marks_Inr:
  assumes "signing_ok env (cn_seed c)" "entry < ch_size h"
  obtains marks where "collect_result (\<lambda>s. cn_mark env c s entry leaf h) subjects = Inr marks"
    "map av_subject marks = map DeviceParty subjects"
    "\<forall>m \<in> set marks. av_by m = device_from_seed env (cn_seed c) \<and> avowal_verify env m = Inr () \<and>
       av_claim m = Chronicled (ch_size h) (ch_root h) entry leaf"
proof (induction subjects arbitrary: thesis)
  case Nil
  show ?case by (rule Nil) auto
next
  case (Cons s subjects)
  obtain marks where "collect_result (\<lambda>s. cn_mark env c s entry leaf h) subjects = Inr marks"
    "map av_subject marks = map DeviceParty subjects"
    "\<forall>m \<in> set marks. av_by m = device_from_seed env (cn_seed c) \<and> avowal_verify env m = Inr () \<and>
       av_claim m = Chronicled (ch_size h) (ch_root h) entry leaf" using Cons.IH by blast
  moreover obtain m where "cn_mark env c s entry leaf h = Inr m" "av_subject m = DeviceParty s"
    "av_by m = device_from_seed env (cn_seed c)" "av_claim m = Chronicled (ch_size h) (ch_root h) entry leaf"
    "avowal_verify env m = Inr ()" using cn_mark_Inr [OF assms(2)] assms(1) by blast
  ultimately show ?case by (intro Cons.prems [of "m # marks"]) auto
qed

lemma last_slot:
  assumes "lands c c' between leaf (Inr index)"
  shows "unat index < length (cl_leaves (cn_chronicle c'))" "cl_leaves (cn_chronicle c') ! unat index = leaf"
    "length (cl_leaves (cn_chronicle c')) \<le> 2 ^ 20" "cl_leaves (cn_chronicle c') = cn_store c'" "cn_ok c'"
    "unat (chron_size (cn_chronicle c')) = length (cn_store c')" "index < chron_size (cn_chronicle c')"
  using assms cn_index(1) [of c'] by (auto simp: lands_def cn_ok_def nth_append word_less_nat_alt)

definition certifies :: "kin_env \<Rightarrow> chronicler \<Rightarrow> bytes \<Rightarrow> string list \<Rightarrow> receipt \<Rightarrow> bool" where
  \<comment> \<open>what a receipt proves to a stranger, of the state the publication left\<close>
  "certifies env c entry subjects rc \<longleftrightarrow>
     (\<exists>head index. rc_head rc = Some head \<and> rc_entry rc = Some index \<and> chron_verify env head = Inr () \<and>
        ch_by head = device_from_seed env (cn_seed c) \<and> unat (ch_size head) = length (cn_store c) \<and>
        ch_root head = subtree_root (ke_crypto env) (cn_store c) \<and>
        unat index < length (cn_store c) \<and> cn_store c ! unat index = leaf_hash (ke_crypto env) entry \<and>
        verify_inclusion (ke_crypto env) (leaf_hash (ke_crypto env) entry) index (ch_size head) (ch_root head) (rc_inclusion rc) = Inr () \<and>
        map av_subject (rc_marks rc) = map DeviceParty subjects \<and>
        (\<forall>m \<in> set (rc_marks rc). av_by m = ch_by head \<and> verify_mark env m (rc_inclusion rc) = Inr ()))"

lemma receipt_certifies:
  assumes "signing_ok env (cn_seed c)" "cn_ok c"
  shows "case cn_append (leaf_hash (ke_crypto env) entry) others c of
      (Inl r, c') \<Rightarrow> cn_chronicle_entry env entry subjects others c = (Inl r, c')
    | (Inr index, c') \<Rightarrow> \<exists>rc. cn_chronicle_entry env entry subjects others c = (Inr rc, c') \<and> rc_entry rc = Some index \<and>
        certifies env c' entry subjects rc"
proof (cases "cn_append (leaf_hash (ke_crypto env) entry) others c")
  case (Pair answer c')
  let ?cr = "ke_crypto env" and ?leaf = "leaf_hash (ke_crypto env) entry"
  show ?thesis
  proof (cases answer)
    case (Inl r)
    then show ?thesis using Pair by (simp add: cn_chronicle_entry_def)
  next
    case (Inr index)
    obtain between where l: "lands c c' between ?leaf (Inr index)" using append_lands [OF assms(2) Pair] Inr by auto
    note slot = last_slot [OF l]
    have seed: "cn_seed c' = cn_seed c" using l by (simp add: lands_def)
    obtain h where h: "cn_head env c' = Inr h" "ch_by h = device_from_seed env (cn_seed c')"
      "ch_size h = chron_size (cn_chronicle c')" "ch_root h = chron_root ?cr (cn_chronicle c')" "chron_verify env h = Inr ()"
      using cn_head_Inr [of env c'] assms(1) seed by auto
    obtain marks where marks: "collect_result (\<lambda>s. cn_mark env c' s index ?leaf h) subjects = Inr marks"
      "map av_subject marks = map DeviceParty subjects"
      "\<forall>m \<in> set marks. av_by m = device_from_seed env (cn_seed c') \<and> avowal_verify env m = Inr () \<and>
         av_claim m = Chronicled (ch_size h) (ch_root h) index ?leaf"
      using cn_marks_Inr [of env c' index h] assms(1) slot(7) seed h(3) by metis
    let ?path = "audit_path ?cr (unat index) (cl_leaves (cn_chronicle c'))"
    have path: "inclusion ?cr (cn_chronicle c') index = Inr ?path" using slot(1) by (simp add: inclusion_def)
    have ver: "verify_inclusion ?cr ?leaf index (ch_size h) (ch_root h) ?path = Inr ()"
      using path_verifies [OF slot(1,3)] slot(2) h(3,4) by simp
    define rc where "rc = \<lparr>rc_head = Some h, rc_entry = Some index, rc_inclusion = ?path, rc_marks = marks\<rparr>"
    have "cn_chronicle_entry env entry subjects others c = (Inr rc, c')"
      using Pair Inr h(1) path marks(1) by (simp add: cn_chronicle_entry_def rc_def)
    moreover have "certifies env c' entry subjects rc"
      using h marks(2,3) slot ver by (auto simp: certifies_def rc_def verify_mark_def marked_def chron_root_def)
    moreover have "rc_entry rc = Some index" by (simp add: rc_def)
    ultimately show ?thesis using Pair Inr by auto
  qed
qed

definition cn_run :: "kin_env \<Rightarrow> (bytes \<times> string list \<times> bytes list list) list \<Rightarrow> chronicler \<Rightarrow> chronicler" where
  \<comment> \<open>the state after these publications, whatever each of them was answered\<close>
  "cn_run env calls c = fold (\<lambda>(entry, subjects, others) c. snd (cn_chronicle_entry env entry subjects others c)) calls c"

definition follows :: "chronicler \<Rightarrow> chronicler \<Rightarrow> bool" where
  "follows c c' \<longleftrightarrow> cn_ok c' \<and> cn_seed c' = cn_seed c \<and> prefix (cn_store c) (cn_store c') \<and>
     prefix (cl_leaves (cn_chronicle c)) (cl_leaves (cn_chronicle c'))"

lemma follows_trans: "follows a b \<Longrightarrow> follows b c \<Longrightarrow> follows a c"
  by (auto simp: follows_def prefix_order.trans)

lemma append_loop_cache:
  assumes "cn_ok c"
  shows "prefix (cl_leaves (cn_chronicle c)) (cl_leaves (cn_chronicle (snd (cn_append_loop leaf races others c))))"
  using assms
proof (induction "MAX_APPEND_RACES - races" arbitrary: races others c rule: less_induct)
  case less
  from less.prems show ?case
  proof (cases rule: append_attempt [where leaf = leaf and races = races and others = others])
    case 4
    then have "cn_ok (caught_up (joined others c))" by (simp add: cn_ok_def attempt_defs)
    with less.hyps [of "races + 1" "caught_up (joined others c)" "tl others"] 4 diff_less_mono2 [OF lessI]
    have "prefix (cn_store (joined others c)) (cl_leaves (cn_chronicle (snd (cn_append_loop leaf races others c))))"
      by (simp add: caught_up_def)
    moreover have "prefix (cl_leaves (cn_chronicle c)) (cn_store (joined others c))"
      using less.prems by (auto simp: cn_ok_def joined_def prefix_def)
    ultimately show ?thesis by (rule prefix_order.trans [rotated])
  qed (auto simp: attempt_defs)
qed

lemma entry_state:
  "snd (cn_chronicle_entry env entry subjects others c) = snd (cn_append (leaf_hash (ke_crypto env) entry) others c)"
  by (auto simp: cn_chronicle_entry_def Let_def split: prod.splits sum.splits)

lemma entry_follows:
  assumes "cn_ok c"
  shows "follows c (snd (cn_chronicle_entry env entry subjects others c))"
proof -
  obtain answer c' where a: "cn_append (leaf_hash (ke_crypto env) entry) others c = (answer, c')" by fastforce
  have "snd (cn_chronicle_entry env entry subjects others c) = c'" by (simp add: entry_state a)
  moreover obtain between where "lands c c' between (leaf_hash (ke_crypto env) entry) answer"
    using append_lands [OF assms a] by blast
  ultimately show ?thesis
    using append_loop_cache [OF assms, of "leaf_hash (ke_crypto env) entry" 0 others] a
    by (auto simp: follows_def lands_def cn_append_def prefix_def)
qed

lemma run_follows: "cn_ok c \<Longrightarrow> follows c (cn_run env calls c)"
  unfolding cn_run_def
proof (induction calls arbitrary: c)
  case Nil
  then show ?case by (simp add: follows_def)
next
  case (Cons call calls)
  let ?c = "snd (cn_chronicle_entry env (fst call) (fst (snd call)) (snd (snd call)) c)"
  have "follows c ?c" by (rule entry_follows [OF Cons.prems])
  moreover from this have "cn_ok ?c" by (simp add: follows_def)
  ultimately show ?case using Cons.IH [of ?c] by (auto simp: split_beta intro: follows_trans)
qed

lemma cn_answer_Inr:
  assumes "signing_ok env (cn_seed c)" "cn_ok c"
  obtains a where "cn_answer env first c = Inr a" "ch_by (ca_head a) = device_from_seed env (cn_seed c)"
    "ch_size (ca_head a) = chron_size (cn_chronicle c)" "ch_root (ca_head a) = chron_root (ke_crypto env) (cn_chronicle c)"
    "chron_verify env (ca_head a) = Inr ()"
    "\<And>n path. first = Some n \<Longrightarrow> consistency (ke_crypto env) (cn_chronicle c) n = Inr path \<Longrightarrow> ca_consistency a = path"
proof -
  obtain h where h: "cn_head env c = Inr h" "ch_by h = device_from_seed env (cn_seed c)"
    "ch_size h = chron_size (cn_chronicle c)" "ch_root h = chron_root (ke_crypto env) (cn_chronicle c)" "chron_verify env h = Inr ()"
    using cn_head_Inr [of env c] assms(1) by auto
  let ?asked = "\<lambda>n. n \<le> chron_size (cn_chronicle c) \<and> 0 < n"
  have asked: "?asked n \<longleftrightarrow> (\<exists>path. consistency (ke_crypto env) (cn_chronicle c) n = Inr path)" for n
    using cn_index(1) [OF assms(2)]
    by (auto simp: consistency_def Let_def word_le_nat_alt word_less_nat_alt simp flip: word_unat_eq_iff)
  show thesis
  proof (cases "\<exists>n path. first = Some n \<and> consistency (ke_crypto env) (cn_chronicle c) n = Inr path")
    case True
    then obtain n path where "first = Some n" "consistency (ke_crypto env) (cn_chronicle c) n = Inr path" by blast
    with h asked show thesis by (intro that [of "\<lparr>ca_head = h, ca_consistency = path\<rparr>"]) (auto simp: cn_answer_def)
  next
    case False
    with h asked show thesis
      by (intro that [of "\<lparr>ca_head = h, ca_consistency = []\<rparr>"]) (auto simp: cn_answer_def split: option.splits)
  qed
qed

lemma later_answer_advances:
  assumes "signing_ok env (cn_seed c)" "cn_ok c" "follows c c'"
    and "cn_answer env first c = Inr a" "cn_answer env (Some (ch_size (ca_head a))) c' = Inr a'"
  shows "advance env (Some (pinned_from (ca_head a))) (ca_head a') (ca_consistency a') =
    Inr (if ch_size (ca_head a') = ch_size (ca_head a) then Unchanged else Extended)"
proof -
  let ?l = "cn_chronicle c" and ?l' = "cn_chronicle c'"
  have c': "signing_ok env (cn_seed c')" "cn_ok c'" "cn_seed c' = cn_seed c" using assms(1,3) by (auto simp: follows_def)
  obtain rest where rest: "cl_leaves ?l' = cl_leaves ?l @ rest" using assms(3) by (auto simp: follows_def prefix_def)
  obtain b where "cn_answer env first c = Inr b" and h: "ch_by (ca_head b) = device_from_seed env (cn_seed c)"
    "ch_size (ca_head b) = chron_size ?l" "ch_root (ca_head b) = chron_root (ke_crypto env) ?l"
    by (rule cn_answer_Inr [OF assms(1,2), of first]) blast
  then have b: "b = a" using assms(4) by simp
  obtain b' where "cn_answer env (Some (ch_size (ca_head a))) c' = Inr b'"
    and h': "ch_by (ca_head b') = device_from_seed env (cn_seed c')" "ch_size (ca_head b') = chron_size ?l'"
      "ch_root (ca_head b') = chron_root (ke_crypto env) ?l'" "chron_verify env (ca_head b') = Inr ()"
      "\<And>n path. Some (ch_size (ca_head a)) = Some n \<Longrightarrow> consistency (ke_crypto env) ?l' n = Inr path \<Longrightarrow> ca_consistency b' = path"
    by (rule cn_answer_Inr [OF c'(1,2), of "Some (ch_size (ca_head a))"]) blast
  then have b': "b' = a'" using assms(5) by simp
  have "advance env (Some (pinned_from (ca_head a))) (ca_head a') (ca_consistency a') = Inr (if rest = [] then Unchanged else Extended)"
    using rest c' h h' by (intro head_advances [of ?l' ?l]) (auto simp: b b' cn_ok_def)
  moreover have "rest = [] \<longleftrightarrow> ch_size (ca_head a') = ch_size (ca_head a)"
    using h(2) h'(2) cn_index(1) [OF assms(2)] cn_index(1) [OF c'(2)] rest by (auto simp: b b' word_unat_eq_iff)
  ultimately show ?thesis by simp
qed

section \<open>Properties\<close>

text \<open>An append linearizes. Whatever other holders put in the store between its attempts, an append
  never rewrites or drops a leaf: the store afterwards is the store before, then leaves of the others,
  then, exactly when the append answers an index, its own leaf at that index. On an answer the cached log
  is the store, so the head signed next covers every leaf, and a refused append wrote nothing.\<close>

theorem append_linearizes:
  assumes "cn_ok c" "cn_append leaf others c = (answer, c')"
  shows "cn_ok c' \<and> (\<exists>k. cn_store c' = cn_store c @ concat (take k others) @ (case answer of Inr _ \<Rightarrow> [leaf] | Inl _ \<Rightarrow> []) \<and>
    (\<forall>index. answer = Inr index \<longrightarrow>
       unat index = length (cn_store c @ concat (take k others)) \<and> cl_leaves (cn_chronicle c') = cn_store c'))"
  using append_loop_lands [of c leaf 0 others answer c'] assms unfolding cn_append_def lands_def wrote_def by blast

definition demo_cn :: chronicler where
  "demo_cn = \<lparr>cn_chronicle = demo_chronicle 2, cn_store = cl_leaves (demo_chronicle 3), cn_seed = demo_seed (CHR ''1'')\<rparr>"

lemma demo_cn_ok: "cn_ok demo_cn"
  by (simp add: cn_ok_def demo_cn_def demo_chronicle_def)

lemma demo_cn_signing: "signing_ok demo_holder (cn_seed demo_cn)"
  by (simp add: demo_cn_def demo_holder_signing)

definition answered_at :: "(dir_refusal + u64) \<times> chronicler \<Rightarrow> u64 option \<times> bytes list" where
  "answered_at out = (case fst out of Inr i \<Rightarrow> Some i | Inl _ \<Rightarrow> None, cn_store (snd out))"

lemma demo_append:
  "answered_at (cn_append ''z'' [[], [''x''], []] demo_cn) = (Some 4, cl_leaves (demo_chronicle 3) @ [''x'', ''z''])"
  by code_simp

theorem append_linearizes_witness:
  "\<exists>c'. cn_append ''z'' [[], [''x''], []] demo_cn = (Inr 4, c') \<and> cn_ok c' \<and>
     cn_store c' = cl_leaves (demo_chronicle 3) @ [''x'', ''z''] \<and> cl_leaves (cn_chronicle c') = cn_store c'"
proof -
  obtain answer c' where a: "cn_append ''z'' [[], [''x''], []] demo_cn = (answer, c')" by fastforce
  then have "answer = Inr 4" "cn_store c' = cl_leaves (demo_chronicle 3) @ [''x'', ''z'']"
    using demo_append by (auto simp: answered_at_def split: sum.splits)
  with append_linearizes [OF demo_cn_ok a] a show ?thesis by auto
qed

text \<open>C18: an append settles. If at the first or one of the eight retries no other holder gets in first, and
  the log has room for what arrived until then, the append answers an index, however stale the cache was
  when it started.\<close>

theorem append_settles:
  assumes "cn_ok c" "0 < i" "i \<le> MAX_APPEND_RACES" "drop i others \<noteq> [] \<longrightarrow> hd (drop i others) = []"
    and "length (cn_store c) + length (concat (take i others)) < 2 ^ 20"
  shows "\<exists>index c'. cn_append leaf others c = (Inr index, c')"
proof -
  have "raced (drop i others) = []" using assms(4) by (auto simp: raced_def split: list.splits)
  then have "\<exists>index. fst (cn_append_loop leaf 0 others c) = Inr index"
    using assms by (intro append_loop_finds_slot [of c i]) auto
  then show ?thesis by (metis cn_append_def prod.collapse)
qed

theorem append_settles_witness:
  "\<exists>index c'. cn_append ''z'' [[''w''], [''x'', ''y''], [''v''], [], [''u'']] demo_cn = (Inr index, c')"
  by (rule append_settles [OF demo_cn_ok, of 3])
    (simp_all add: MAX_APPEND_RACES_def demo_cn_def demo_chronicle_def)

text \<open>A receipt proves the publication. When the chronicle answers a publication, its receipt holds a
  head that verifies under the chronicle's key and covers the whole store, the index at which the store
  has the publication's leaf, a path that proves it there, and for exactly the given devices one mark
  each that \<open>verify_mark\<close> accepts with that path; it is refused only when the append was.\<close>

theorem receipt_proves_publication:
  assumes "signing_ok env (cn_seed c)" "cn_ok c" "cn_chronicle_entry env entry subjects others c = (answer, c')"
  shows "case answer of
      Inr rc \<Rightarrow> certifies env c' entry subjects rc
    | Inl r \<Rightarrow> cn_append (leaf_hash (ke_crypto env) entry) others c = (Inl r, c')"
  using receipt_certifies [OF assms(1,2), where entry = entry and others = others and subjects = subjects] assms(3) by (auto split: prod.splits sum.splits)

theorem receipt_proves_publication_witness:
  "\<exists>rc c'. cn_chronicle_entry demo_holder ''d'' [demo_key (CHR ''2''), demo_key (CHR ''3'')] [] demo_cn = (Inr rc, c') \<and>
     certifies demo_holder c' ''d'' [demo_key (CHR ''2''), demo_key (CHR ''3'')] rc"
proof -
  obtain answer c' where a: "cn_chronicle_entry demo_holder ''d'' [demo_key (CHR ''2''), demo_key (CHR ''3'')] [] demo_cn = (answer, c')"
    by fastforce
  note rec = receipt_proves_publication [OF demo_cn_signing demo_cn_ok a]
  have "\<exists>index c'. cn_append (leaf_hash demo_tree ''d'') [] demo_cn = (Inr index, c')"
    using append_loop_finds_slot [OF demo_cn_ok, of 1 0 "[]"]
    by (simp add: cn_append_def raced_def MAX_APPEND_RACES_def demo_cn_def demo_chronicle_def) (metis prod.collapse)
  then show ?thesis using rec a by (cases answer) (auto simp: demo_holder_def)
qed

text \<open>A pinned reader follows the deployment. A reader that pinned the head of an earlier answer and
  asks again after any publications, naming the size it pinned, is answered with a head and a path that
  its ratchet accepts: as unchanged when the log has not grown, as extended otherwise.\<close>

theorem pinned_reader_follows:
  assumes "signing_ok env (cn_seed c)" "cn_ok c" "cn_answer env first c = Inr a"
  shows "\<exists>a'. cn_answer env (Some (ch_size (ca_head a))) (cn_run env calls c) = Inr a' \<and>
    advance env (Some (pinned_from (ca_head a))) (ca_head a') (ca_consistency a') =
      Inr (if ch_size (ca_head a') = ch_size (ca_head a) then Unchanged else Extended)"
proof -
  have f: "follows c (cn_run env calls c)" by (rule run_follows [OF assms(2)])
  then have "signing_ok env (cn_seed (cn_run env calls c))" "cn_ok (cn_run env calls c)" using assms(1) by (auto simp: follows_def)
  then obtain a' where "cn_answer env (Some (ch_size (ca_head a))) (cn_run env calls c) = Inr a'"
    by (rule cn_answer_Inr) blast
  with later_answer_advances [OF assms(1,2) f assms(3)] show ?thesis by blast
qed

theorem pinned_reader_follows_witness:
  "\<exists>a a'. cn_answer demo_holder None demo_cn = Inr a \<and>
     cn_answer demo_holder (Some (ch_size (ca_head a))) (cn_run demo_holder [(''d'', [], []), (''e'', [], [])] demo_cn) = Inr a' \<and>
     advance demo_holder (Some (pinned_from (ca_head a))) (ca_head a') (ca_consistency a') = Inr Extended"
proof -
  obtain a where a: "cn_answer demo_holder None demo_cn = Inr a" "ch_size (ca_head a) = chron_size (cn_chronicle demo_cn)"
    by (rule cn_answer_Inr [OF demo_cn_signing demo_cn_ok]) blast
  define c' where "c' = cn_run demo_holder [(''d'', [], []), (''e'', [], [])] demo_cn"
  obtain a' where a': "cn_answer demo_holder (Some (ch_size (ca_head a))) c' = Inr a'"
    "advance demo_holder (Some (pinned_from (ca_head a))) (ca_head a') (ca_consistency a') =
      Inr (if ch_size (ca_head a') = ch_size (ca_head a) then Unchanged else Extended)"
    using pinned_reader_follows [OF demo_cn_signing demo_cn_ok a(1)] unfolding c'_def by blast
  have "chron_size (cn_chronicle (snd (cn_append (leaf_hash demo_tree ''e'') [] (snd (cn_append (leaf_hash demo_tree ''d'') [] demo_cn))))) \<noteq>
      chron_size (cn_chronicle demo_cn)" by code_simp
  then have "chron_size (cn_chronicle c') \<noteq> chron_size (cn_chronicle demo_cn)"
    by (simp add: c'_def cn_run_def entry_state demo_holder_def)
  moreover have "ch_size (ca_head a') = chron_size (cn_chronicle c')"
    using a'(1) by (auto simp: cn_answer_def cn_head_def chron_head_of_def chron_seal_def Let_def result_simps)
  ultimately show ?thesis using a a' unfolding c'_def by auto
qed

end
