(* ===== verification/Address.thy ===== *)
theory Address
  imports Chronicler
begin

unbundle bit_operations_syntax

text \<open>
  Issued addresses (\<^verbatim>\<open>crates/directory/src/address.rs\<close>) and the word list they are drawn from
  (\<^verbatim>\<open>crates/directory/src/words.rs\<close>). An address is its canonical text. The 16 bytes the service draws
  are an argument of \<open>mint\<close>, as in the code.
\<close>

section \<open>The word list\<close>

definition WORD_COUNT :: nat where "WORD_COUNT = 2048"
definition WORDS :: nat where "WORDS = 3"
definition NUMBER_RANGE :: nat where "NUMBER_RANGE = 10000"

definition word_list :: "string list" where
  "word_list = [
    ''abandon'', ''ability'', ''able'', ''about'', ''above'', ''absent'', ''absorb'', ''abstract'', ''absurd'',
    ''abuse'', ''access'', ''accident'', ''account'', ''accuse'', ''achieve'', ''acid'', ''acoustic'',
    ''acquire'', ''across'', ''act'', ''action'', ''actor'', ''actress'', ''actual'', ''adapt'', ''add'',
    ''addict'', ''address'', ''adjust'', ''admit'', ''adult'', ''advance'', ''advice'', ''aerobic'', ''affair'',
    ''afford'', ''afraid'', ''again'', ''age'', ''agent'', ''agree'', ''ahead'', ''aim'', ''air'', ''airport'',
    ''aisle'', ''alarm'', ''album'', ''alcohol'', ''alert'', ''alien'', ''all'', ''alley'', ''allow'',
    ''almost'', ''alone'', ''alpha'', ''already'', ''also'', ''alter'', ''always'', ''amateur'', ''amazing'',
    ''among'', ''amount'', ''amused'', ''analyst'', ''anchor'', ''ancient'', ''anger'', ''angle'', ''angry'',
    ''animal'', ''ankle'', ''announce'', ''annual'', ''another'', ''answer'', ''antenna'', ''antique'',
    ''anxiety'', ''any'', ''apart'', ''apology'', ''appear'', ''apple'', ''approve'', ''april'', ''arch'',
    ''arctic'', ''area'', ''arena'', ''argue'', ''arm'', ''armed'', ''armor'', ''army'', ''around'',
    ''arrange'', ''arrest'', ''arrive'', ''arrow'', ''art'', ''artefact'', ''artist'', ''artwork'', ''ask'',
    ''aspect'', ''assault'', ''asset'', ''assist'', ''assume'', ''asthma'', ''athlete'', ''atom'', ''attack'',
    ''attend'', ''attitude'', ''attract'', ''auction'', ''audit'', ''august'', ''aunt'', ''author'', ''auto'',
    ''autumn'', ''average'', ''avocado'', ''avoid'', ''awake'', ''aware'', ''away'', ''awesome'', ''awful'',
    ''awkward'', ''axis'', ''baby'', ''bachelor'', ''bacon'', ''badge'', ''bag'', ''balance'', ''balcony'',
    ''ball'', ''bamboo'', ''banana'', ''banner'', ''bar'', ''barely'', ''bargain'', ''barrel'', ''base'',
    ''basic'', ''basket'', ''battle'', ''beach'', ''bean'', ''beauty'', ''because'', ''become'', ''beef'',
    ''before'', ''begin'', ''behave'', ''behind'', ''believe'', ''below'', ''belt'', ''bench'', ''benefit'',
    ''best'', ''betray'', ''better'', ''between'', ''beyond'', ''bicycle'', ''bid'', ''bike'', ''bind'',
    ''biology'', ''bird'', ''birth'', ''bitter'', ''black'', ''blade'', ''blame'', ''blanket'', ''blast'',
    ''bleak'', ''bless'', ''blind'', ''blood'', ''blossom'', ''blouse'', ''blue'', ''blur'', ''blush'',
    ''board'', ''boat'', ''body'', ''boil'', ''bomb'', ''bone'', ''bonus'', ''book'', ''boost'', ''border'',
    ''boring'', ''borrow'', ''boss'', ''bottom'', ''bounce'', ''box'', ''boy'', ''bracket'', ''brain'',
    ''brand'', ''brass'', ''brave'', ''bread'', ''breeze'', ''brick'', ''bridge'', ''brief'', ''bright'',
    ''bring'', ''brisk'', ''broccoli'', ''broken'', ''bronze'', ''broom'', ''brother'', ''brown'', ''brush'',
    ''bubble'', ''buddy'', ''budget'', ''buffalo'', ''build'', ''bulb'', ''bulk'', ''bullet'', ''bundle'',
    ''bunker'', ''burden'', ''burger'', ''burst'', ''bus'', ''business'', ''busy'', ''butter'', ''buyer'',
    ''buzz'', ''cabbage'', ''cabin'', ''cable'', ''cactus'', ''cage'', ''cake'', ''call'', ''calm'', ''camera'',
    ''camp'', ''can'', ''canal'', ''cancel'', ''candy'', ''cannon'', ''canoe'', ''canvas'', ''canyon'',
    ''capable'', ''capital'', ''captain'', ''car'', ''carbon'', ''card'', ''cargo'', ''carpet'', ''carry'',
    ''cart'', ''case'', ''cash'', ''casino'', ''castle'', ''casual'', ''cat'', ''catalog'', ''catch'',
    ''category'', ''cattle'', ''caught'', ''cause'', ''caution'', ''cave'', ''ceiling'', ''celery'', ''cement'',
    ''census'', ''century'', ''cereal'', ''certain'', ''chair'', ''chalk'', ''champion'', ''change'', ''chaos'',
    ''chapter'', ''charge'', ''chase'', ''chat'', ''cheap'', ''check'', ''cheese'', ''chef'', ''cherry'',
    ''chest'', ''chicken'', ''chief'', ''child'', ''chimney'', ''choice'', ''choose'', ''chronic'', ''chuckle'',
    ''chunk'', ''churn'', ''cigar'', ''cinnamon'', ''circle'', ''citizen'', ''city'', ''civil'', ''claim'',
    ''clap'', ''clarify'', ''claw'', ''clay'', ''clean'', ''clerk'', ''clever'', ''click'', ''client'',
    ''cliff'', ''climb'', ''clinic'', ''clip'', ''clock'', ''clog'', ''close'', ''cloth'', ''cloud'', ''clown'',
    ''club'', ''clump'', ''cluster'', ''clutch'', ''coach'', ''coast'', ''coconut'', ''code'', ''coffee'',
    ''coil'', ''coin'', ''collect'', ''color'', ''column'', ''combine'', ''come'', ''comfort'', ''comic'',
    ''common'', ''company'', ''concert'', ''conduct'', ''confirm'', ''congress'', ''connect'', ''consider'',
    ''control'', ''convince'', ''cook'', ''cool'', ''copper'', ''copy'', ''coral'', ''core'', ''corn'',
    ''correct'', ''cost'', ''cotton'', ''couch'', ''country'', ''couple'', ''course'', ''cousin'', ''cover'',
    ''coyote'', ''crack'', ''cradle'', ''craft'', ''cram'', ''crane'', ''crash'', ''crater'', ''crawl'',
    ''crazy'', ''cream'', ''credit'', ''creek'', ''crew'', ''cricket'', ''crime'', ''crisp'', ''critic'',
    ''crop'', ''cross'', ''crouch'', ''crowd'', ''crucial'', ''cruel'', ''cruise'', ''crumble'', ''crunch'',
    ''crush'', ''cry'', ''crystal'', ''cube'', ''culture'', ''cup'', ''cupboard'', ''curious'', ''current'',
    ''curtain'', ''curve'', ''cushion'', ''custom'', ''cute'', ''cycle'', ''dad'', ''damage'', ''damp'',
    ''dance'', ''danger'', ''daring'', ''dash'', ''daughter'', ''dawn'', ''day'', ''deal'', ''debate'',
    ''debris'', ''decade'', ''december'', ''decide'', ''decline'', ''decorate'', ''decrease'', ''deer'',
    ''defense'', ''define'', ''defy'', ''degree'', ''delay'', ''deliver'', ''demand'', ''demise'', ''denial'',
    ''dentist'', ''deny'', ''depart'', ''depend'', ''deposit'', ''depth'', ''deputy'', ''derive'', ''describe'',
    ''desert'', ''design'', ''desk'', ''despair'', ''destroy'', ''detail'', ''detect'', ''develop'', ''device'',
    ''devote'', ''diagram'', ''dial'', ''diamond'', ''diary'', ''dice'', ''diesel'', ''diet'', ''differ'',
    ''digital'', ''dignity'', ''dilemma'', ''dinner'', ''dinosaur'', ''direct'', ''dirt'', ''disagree'',
    ''discover'', ''disease'', ''dish'', ''dismiss'', ''disorder'', ''display'', ''distance'', ''divert'',
    ''divide'', ''divorce'', ''dizzy'', ''doctor'', ''document'', ''dog'', ''doll'', ''dolphin'', ''domain'',
    ''donate'', ''donkey'', ''donor'', ''door'', ''dose'', ''double'', ''dove'', ''draft'', ''dragon'',
    ''drama'', ''drastic'', ''draw'', ''dream'', ''dress'', ''drift'', ''drill'', ''drink'', ''drip'',
    ''drive'', ''drop'', ''drum'', ''dry'', ''duck'', ''dumb'', ''dune'', ''during'', ''dust'', ''dutch'',
    ''duty'', ''dwarf'', ''dynamic'', ''eager'', ''eagle'', ''early'', ''earn'', ''earth'', ''easily'',
    ''east'', ''easy'', ''echo'', ''ecology'', ''economy'', ''edge'', ''edit'', ''educate'', ''effort'',
    ''egg'', ''eight'', ''either'', ''elbow'', ''elder'', ''electric'', ''elegant'', ''element'', ''elephant'',
    ''elevator'', ''elite'', ''else'', ''embark'', ''embody'', ''embrace'', ''emerge'', ''emotion'', ''employ'',
    ''empower'', ''empty'', ''enable'', ''enact'', ''end'', ''endless'', ''endorse'', ''enemy'', ''energy'',
    ''enforce'', ''engage'', ''engine'', ''enhance'', ''enjoy'', ''enlist'', ''enough'', ''enrich'', ''enroll'',
    ''ensure'', ''enter'', ''entire'', ''entry'', ''envelope'', ''episode'', ''equal'', ''equip'', ''era'',
    ''erase'', ''erode'', ''erosion'', ''error'', ''erupt'', ''escape'', ''essay'', ''essence'', ''estate'',
    ''eternal'', ''ethics'', ''evidence'', ''evil'', ''evoke'', ''evolve'', ''exact'', ''example'', ''excess'',
    ''exchange'', ''excite'', ''exclude'', ''excuse'', ''execute'', ''exercise'', ''exhaust'', ''exhibit'',
    ''exile'', ''exist'', ''exit'', ''exotic'', ''expand'', ''expect'', ''expire'', ''explain'', ''expose'',
    ''express'', ''extend'', ''extra'', ''eye'', ''eyebrow'', ''fabric'', ''face'', ''faculty'', ''fade'',
    ''faint'', ''faith'', ''fall'', ''false'', ''fame'', ''family'', ''famous'', ''fan'', ''fancy'',
    ''fantasy'', ''farm'', ''fashion'', ''fat'', ''fatal'', ''father'', ''fatigue'', ''fault'', ''favorite'',
    ''feature'', ''february'', ''federal'', ''fee'', ''feed'', ''feel'', ''female'', ''fence'', ''festival'',
    ''fetch'', ''fever'', ''few'', ''fiber'', ''fiction'', ''field'', ''figure'', ''file'', ''film'',
    ''filter'', ''final'', ''find'', ''fine'', ''finger'', ''finish'', ''fire'', ''firm'', ''first'',
    ''fiscal'', ''fish'', ''fit'', ''fitness'', ''fix'', ''flag'', ''flame'', ''flash'', ''flat'', ''flavor'',
    ''flee'', ''flight'', ''flip'', ''float'', ''flock'', ''floor'', ''flower'', ''fluid'', ''flush'', ''fly'',
    ''foam'', ''focus'', ''fog'', ''foil'', ''fold'', ''follow'', ''food'', ''foot'', ''force'', ''forest'',
    ''forget'', ''fork'', ''fortune'', ''forum'', ''forward'', ''fossil'', ''foster'', ''found'', ''fox'',
    ''fragile'', ''frame'', ''frequent'', ''fresh'', ''friend'', ''fringe'', ''frog'', ''front'', ''frost'',
    ''frown'', ''frozen'', ''fruit'', ''fuel'', ''fun'', ''funny'', ''furnace'', ''fury'', ''future'',
    ''gadget'', ''gain'', ''galaxy'', ''gallery'', ''game'', ''gap'', ''garage'', ''garbage'', ''garden'',
    ''garlic'', ''garment'', ''gas'', ''gasp'', ''gate'', ''gather'', ''gauge'', ''gaze'', ''general'',
    ''genius'', ''genre'', ''gentle'', ''genuine'', ''gesture'', ''ghost'', ''giant'', ''gift'', ''giggle'',
    ''ginger'', ''giraffe'', ''girl'', ''give'', ''glad'', ''glance'', ''glare'', ''glass'', ''glide'',
    ''glimpse'', ''globe'', ''gloom'', ''glory'', ''glove'', ''glow'', ''glue'', ''goat'', ''goddess'',
    ''gold'', ''good'', ''goose'', ''gorilla'', ''gospel'', ''gossip'', ''govern'', ''gown'', ''grab'',
    ''grace'', ''grain'', ''grant'', ''grape'', ''grass'', ''gravity'', ''great'', ''green'', ''grid'',
    ''grief'', ''grit'', ''grocery'', ''group'', ''grow'', ''grunt'', ''guard'', ''guess'', ''guide'',
    ''guilt'', ''guitar'', ''gun'', ''gym'', ''habit'', ''hair'', ''half'', ''hammer'', ''hamster'', ''hand'',
    ''happy'', ''harbor'', ''hard'', ''harsh'', ''harvest'', ''hat'', ''have'', ''hawk'', ''hazard'', ''head'',
    ''health'', ''heart'', ''heavy'', ''hedgehog'', ''height'', ''hello'', ''helmet'', ''help'', ''hen'',
    ''hero'', ''hidden'', ''high'', ''hill'', ''hint'', ''hip'', ''hire'', ''history'', ''hobby'', ''hockey'',
    ''hold'', ''hole'', ''holiday'', ''hollow'', ''home'', ''honey'', ''hood'', ''hope'', ''horn'', ''horror'',
    ''horse'', ''hospital'', ''host'', ''hotel'', ''hour'', ''hover'', ''hub'', ''huge'', ''human'', ''humble'',
    ''humor'', ''hundred'', ''hungry'', ''hunt'', ''hurdle'', ''hurry'', ''hurt'', ''husband'', ''hybrid'',
    ''ice'', ''icon'', ''idea'', ''identify'', ''idle'', ''ignore'', ''ill'', ''illegal'', ''illness'',
    ''image'', ''imitate'', ''immense'', ''immune'', ''impact'', ''impose'', ''improve'', ''impulse'', ''inch'',
    ''include'', ''income'', ''increase'', ''index'', ''indicate'', ''indoor'', ''industry'', ''infant'',
    ''inflict'', ''inform'', ''inhale'', ''inherit'', ''initial'', ''inject'', ''injury'', ''inmate'',
    ''inner'', ''innocent'', ''input'', ''inquiry'', ''insane'', ''insect'', ''inside'', ''inspire'',
    ''install'', ''intact'', ''interest'', ''into'', ''invest'', ''invite'', ''involve'', ''iron'', ''island'',
    ''isolate'', ''issue'', ''item'', ''ivory'', ''jacket'', ''jaguar'', ''jar'', ''jazz'', ''jealous'',
    ''jeans'', ''jelly'', ''jewel'', ''job'', ''join'', ''joke'', ''journey'', ''joy'', ''judge'', ''juice'',
    ''jump'', ''jungle'', ''junior'', ''junk'', ''just'', ''kangaroo'', ''keen'', ''keep'', ''ketchup'',
    ''key'', ''kick'', ''kid'', ''kidney'', ''kind'', ''kingdom'', ''kiss'', ''kit'', ''kitchen'', ''kite'',
    ''kitten'', ''kiwi'', ''knee'', ''knife'', ''knock'', ''know'', ''lab'', ''label'', ''labor'', ''ladder'',
    ''lady'', ''lake'', ''lamp'', ''language'', ''laptop'', ''large'', ''later'', ''latin'', ''laugh'',
    ''laundry'', ''lava'', ''law'', ''lawn'', ''lawsuit'', ''layer'', ''lazy'', ''leader'', ''leaf'', ''learn'',
    ''leave'', ''lecture'', ''left'', ''leg'', ''legal'', ''legend'', ''leisure'', ''lemon'', ''lend'',
    ''length'', ''lens'', ''leopard'', ''lesson'', ''letter'', ''level'', ''liar'', ''liberty'', ''library'',
    ''license'', ''life'', ''lift'', ''light'', ''like'', ''limb'', ''limit'', ''link'', ''lion'', ''liquid'',
    ''list'', ''little'', ''live'', ''lizard'', ''load'', ''loan'', ''lobster'', ''local'', ''lock'', ''logic'',
    ''lonely'', ''long'', ''loop'', ''lottery'', ''loud'', ''lounge'', ''love'', ''loyal'', ''lucky'',
    ''luggage'', ''lumber'', ''lunar'', ''lunch'', ''luxury'', ''lyrics'', ''machine'', ''mad'', ''magic'',
    ''magnet'', ''maid'', ''mail'', ''main'', ''major'', ''make'', ''mammal'', ''man'', ''manage'', ''mandate'',
    ''mango'', ''mansion'', ''manual'', ''maple'', ''marble'', ''march'', ''margin'', ''marine'', ''market'',
    ''marriage'', ''mask'', ''mass'', ''master'', ''match'', ''material'', ''math'', ''matrix'', ''matter'',
    ''maximum'', ''maze'', ''meadow'', ''mean'', ''measure'', ''meat'', ''mechanic'', ''medal'', ''media'',
    ''melody'', ''melt'', ''member'', ''memory'', ''mention'', ''menu'', ''mercy'', ''merge'', ''merit'',
    ''merry'', ''mesh'', ''message'', ''metal'', ''method'', ''middle'', ''midnight'', ''milk'', ''million'',
    ''mimic'', ''mind'', ''minimum'', ''minor'', ''minute'', ''miracle'', ''mirror'', ''misery'', ''miss'',
    ''mistake'', ''mix'', ''mixed'', ''mixture'', ''mobile'', ''model'', ''modify'', ''mom'', ''moment'',
    ''monitor'', ''monkey'', ''monster'', ''month'', ''moon'', ''moral'', ''more'', ''morning'', ''mosquito'',
    ''mother'', ''motion'', ''motor'', ''mountain'', ''mouse'', ''move'', ''movie'', ''much'', ''muffin'',
    ''mule'', ''multiply'', ''muscle'', ''museum'', ''mushroom'', ''music'', ''must'', ''mutual'', ''myself'',
    ''mystery'', ''myth'', ''naive'', ''name'', ''napkin'', ''narrow'', ''nasty'', ''nation'', ''nature'',
    ''near'', ''neck'', ''need'', ''negative'', ''neglect'', ''neither'', ''nephew'', ''nerve'', ''nest'',
    ''net'', ''network'', ''neutral'', ''never'', ''news'', ''next'', ''nice'', ''night'', ''noble'', ''noise'',
    ''nominee'', ''noodle'', ''normal'', ''north'', ''nose'', ''notable'', ''note'', ''nothing'', ''notice'',
    ''novel'', ''now'', ''nuclear'', ''number'', ''nurse'', ''nut'', ''oak'', ''obey'', ''object'', ''oblige'',
    ''obscure'', ''observe'', ''obtain'', ''obvious'', ''occur'', ''ocean'', ''october'', ''odor'', ''off'',
    ''offer'', ''office'', ''often'', ''oil'', ''okay'', ''old'', ''olive'', ''olympic'', ''omit'', ''once'',
    ''one'', ''onion'', ''online'', ''only'', ''open'', ''opera'', ''opinion'', ''oppose'', ''option'',
    ''orange'', ''orbit'', ''orchard'', ''order'', ''ordinary'', ''organ'', ''orient'', ''original'',
    ''orphan'', ''ostrich'', ''other'', ''outdoor'', ''outer'', ''output'', ''outside'', ''oval'', ''oven'',
    ''over'', ''own'', ''owner'', ''oxygen'', ''oyster'', ''ozone'', ''pact'', ''paddle'', ''page'', ''pair'',
    ''palace'', ''palm'', ''panda'', ''panel'', ''panic'', ''panther'', ''paper'', ''parade'', ''parent'',
    ''park'', ''parrot'', ''party'', ''pass'', ''patch'', ''path'', ''patient'', ''patrol'', ''pattern'',
    ''pause'', ''pave'', ''payment'', ''peace'', ''peanut'', ''pear'', ''peasant'', ''pelican'', ''pen'',
    ''penalty'', ''pencil'', ''people'', ''pepper'', ''perfect'', ''permit'', ''person'', ''pet'', ''phone'',
    ''photo'', ''phrase'', ''physical'', ''piano'', ''picnic'', ''picture'', ''piece'', ''pig'', ''pigeon'',
    ''pill'', ''pilot'', ''pink'', ''pioneer'', ''pipe'', ''pistol'', ''pitch'', ''pizza'', ''place'',
    ''planet'', ''plastic'', ''plate'', ''play'', ''please'', ''pledge'', ''pluck'', ''plug'', ''plunge'',
    ''poem'', ''poet'', ''point'', ''polar'', ''pole'', ''police'', ''pond'', ''pony'', ''pool'', ''popular'',
    ''portion'', ''position'', ''possible'', ''post'', ''potato'', ''pottery'', ''poverty'', ''powder'',
    ''power'', ''practice'', ''praise'', ''predict'', ''prefer'', ''prepare'', ''present'', ''pretty'',
    ''prevent'', ''price'', ''pride'', ''primary'', ''print'', ''priority'', ''prison'', ''private'', ''prize'',
    ''problem'', ''process'', ''produce'', ''profit'', ''program'', ''project'', ''promote'', ''proof'',
    ''property'', ''prosper'', ''protect'', ''proud'', ''provide'', ''public'', ''pudding'', ''pull'', ''pulp'',
    ''pulse'', ''pumpkin'', ''punch'', ''pupil'', ''puppy'', ''purchase'', ''purity'', ''purpose'', ''purse'',
    ''push'', ''put'', ''puzzle'', ''pyramid'', ''quality'', ''quantum'', ''quarter'', ''question'', ''quick'',
    ''quit'', ''quiz'', ''quote'', ''rabbit'', ''raccoon'', ''race'', ''rack'', ''radar'', ''radio'', ''rail'',
    ''rain'', ''raise'', ''rally'', ''ramp'', ''ranch'', ''random'', ''range'', ''rapid'', ''rare'', ''rate'',
    ''rather'', ''raven'', ''raw'', ''razor'', ''ready'', ''real'', ''reason'', ''rebel'', ''rebuild'',
    ''recall'', ''receive'', ''recipe'', ''record'', ''recycle'', ''reduce'', ''reflect'', ''reform'',
    ''refuse'', ''region'', ''regret'', ''regular'', ''reject'', ''relax'', ''release'', ''relief'', ''rely'',
    ''remain'', ''remember'', ''remind'', ''remove'', ''render'', ''renew'', ''rent'', ''reopen'', ''repair'',
    ''repeat'', ''replace'', ''report'', ''require'', ''rescue'', ''resemble'', ''resist'', ''resource'',
    ''response'', ''result'', ''retire'', ''retreat'', ''return'', ''reunion'', ''reveal'', ''review'',
    ''reward'', ''rhythm'', ''rib'', ''ribbon'', ''rice'', ''rich'', ''ride'', ''ridge'', ''rifle'', ''right'',
    ''rigid'', ''ring'', ''riot'', ''ripple'', ''risk'', ''ritual'', ''rival'', ''river'', ''road'', ''roast'',
    ''robot'', ''robust'', ''rocket'', ''romance'', ''roof'', ''rookie'', ''room'', ''rose'', ''rotate'',
    ''rough'', ''round'', ''route'', ''royal'', ''rubber'', ''rude'', ''rug'', ''rule'', ''run'', ''runway'',
    ''rural'', ''sad'', ''saddle'', ''sadness'', ''safe'', ''sail'', ''salad'', ''salmon'', ''salon'', ''salt'',
    ''salute'', ''same'', ''sample'', ''sand'', ''satisfy'', ''satoshi'', ''sauce'', ''sausage'', ''save'',
    ''say'', ''scale'', ''scan'', ''scare'', ''scatter'', ''scene'', ''scheme'', ''school'', ''science'',
    ''scissors'', ''scorpion'', ''scout'', ''scrap'', ''screen'', ''script'', ''scrub'', ''sea'', ''search'',
    ''season'', ''seat'', ''second'', ''secret'', ''section'', ''security'', ''seed'', ''seek'', ''segment'',
    ''select'', ''sell'', ''seminar'', ''senior'', ''sense'', ''sentence'', ''series'', ''service'',
    ''session'', ''settle'', ''setup'', ''seven'', ''shadow'', ''shaft'', ''shallow'', ''share'', ''shed'',
    ''shell'', ''sheriff'', ''shield'', ''shift'', ''shine'', ''ship'', ''shiver'', ''shock'', ''shoe'',
    ''shoot'', ''shop'', ''short'', ''shoulder'', ''shove'', ''shrimp'', ''shrug'', ''shuffle'', ''shy'',
    ''sibling'', ''sick'', ''side'', ''siege'', ''sight'', ''sign'', ''silent'', ''silk'', ''silly'',
    ''silver'', ''similar'', ''simple'', ''since'', ''sing'', ''siren'', ''sister'', ''situate'', ''six'',
    ''size'', ''skate'', ''sketch'', ''ski'', ''skill'', ''skin'', ''skirt'', ''skull'', ''slab'', ''slam'',
    ''sleep'', ''slender'', ''slice'', ''slide'', ''slight'', ''slim'', ''slogan'', ''slot'', ''slow'',
    ''slush'', ''small'', ''smart'', ''smile'', ''smoke'', ''smooth'', ''snack'', ''snake'', ''snap'',
    ''sniff'', ''snow'', ''soap'', ''soccer'', ''social'', ''sock'', ''soda'', ''soft'', ''solar'', ''soldier'',
    ''solid'', ''solution'', ''solve'', ''someone'', ''song'', ''soon'', ''sor'' @ ''ry'', ''sort'', ''soul'',
    ''sound'', ''soup'', ''source'', ''south'', ''space'', ''spare'', ''spatial'', ''spawn'', ''speak'',
    ''special'', ''speed'', ''spell'', ''spend'', ''sphere'', ''spice'', ''spider'', ''spike'', ''spin'',
    ''spirit'', ''split'', ''spoil'', ''sponsor'', ''spoon'', ''sport'', ''spot'', ''spray'', ''spread'',
    ''spring'', ''spy'', ''square'', ''squeeze'', ''squirrel'', ''stable'', ''stadium'', ''staff'', ''stage'',
    ''stairs'', ''stamp'', ''stand'', ''start'', ''state'', ''stay'', ''steak'', ''steel'', ''stem'', ''step'',
    ''stereo'', ''stick'', ''still'', ''sting'', ''stock'', ''stomach'', ''stone'', ''stool'', ''story'',
    ''stove'', ''strategy'', ''street'', ''strike'', ''strong'', ''struggle'', ''student'', ''stuff'',
    ''stumble'', ''style'', ''subject'', ''submit'', ''subway'', ''success'', ''such'', ''sudden'', ''suffer'',
    ''sugar'', ''suggest'', ''suit'', ''summer'', ''sun'', ''sunny'', ''sunset'', ''super'', ''supply'',
    ''supreme'', ''sure'', ''surface'', ''surge'', ''surprise'', ''surround'', ''survey'', ''suspect'',
    ''sustain'', ''swallow'', ''swamp'', ''swap'', ''swarm'', ''swear'', ''sweet'', ''swift'', ''swim'',
    ''swing'', ''switch'', ''sword'', ''symbol'', ''symptom'', ''syrup'', ''system'', ''table'', ''tackle'',
    ''tag'', ''tail'', ''talent'', ''talk'', ''tank'', ''tape'', ''target'', ''task'', ''taste'', ''tattoo'',
    ''taxi'', ''teach'', ''team'', ''tell'', ''ten'', ''tenant'', ''tennis'', ''tent'', ''term'', ''test'',
    ''text'', ''thank'', ''that'', ''theme'', ''then'', ''theory'', ''there'', ''they'', ''thing'', ''this'',
    ''thought'', ''three'', ''thrive'', ''throw'', ''thumb'', ''thunder'', ''ticket'', ''tide'', ''tiger'',
    ''tilt'', ''timber'', ''time'', ''tiny'', ''tip'', ''tired'', ''tissue'', ''title'', ''toast'', ''tobacco'',
    ''today'', ''toddler'', ''toe'', ''together'', ''toilet'', ''token'', ''tomato'', ''tomorrow'', ''tone'',
    ''tongue'', ''tonight'', ''tool'', ''tooth'', ''top'', ''topic'', ''topple'', ''torch'', ''tornado'',
    ''tortoise'', ''toss'', ''total'', ''tourist'', ''toward'', ''tower'', ''town'', ''toy'', ''track'',
    ''trade'', ''traffic'', ''tragic'', ''train'', ''transfer'', ''trap'', ''trash'', ''travel'', ''tray'',
    ''treat'', ''tree'', ''trend'', ''trial'', ''tribe'', ''trick'', ''trigger'', ''trim'', ''trip'',
    ''trophy'', ''trouble'', ''truck'', ''true'', ''truly'', ''trumpet'', ''trust'', ''truth'', ''try'',
    ''tube'', ''tuition'', ''tumble'', ''tuna'', ''tunnel'', ''turkey'', ''turn'', ''turtle'', ''twelve'',
    ''twenty'', ''twice'', ''twin'', ''twist'', ''two'', ''type'', ''typical'', ''ugly'', ''umbrella'',
    ''unable'', ''unaware'', ''uncle'', ''uncover'', ''under'', ''undo'', ''unfair'', ''unfold'', ''unhappy'',
    ''uniform'', ''unique'', ''unit'', ''universe'', ''unknown'', ''unlock'', ''until'', ''unusual'',
    ''unveil'', ''update'', ''upgrade'', ''uphold'', ''upon'', ''upper'', ''upset'', ''urban'', ''urge'',
    ''usage'', ''use'', ''used'', ''useful'', ''useless'', ''usual'', ''utility'', ''vacant'', ''vacuum'',
    ''vague'', ''valid'', ''valley'', ''valve'', ''van'', ''vanish'', ''vapor'', ''various'', ''vast'',
    ''vault'', ''vehicle'', ''velvet'', ''vendor'', ''venture'', ''venue'', ''verb'', ''verify'', ''version'',
    ''very'', ''vessel'', ''veteran'', ''viable'', ''vibrant'', ''vicious'', ''victory'', ''video'', ''view'',
    ''village'', ''vintage'', ''violin'', ''virtual'', ''virus'', ''visa'', ''visit'', ''visual'', ''vital'',
    ''vivid'', ''vocal'', ''voice'', ''void'', ''volcano'', ''volume'', ''vote'', ''voyage'', ''wage'',
    ''wagon'', ''wait'', ''walk'', ''wall'', ''walnut'', ''want'', ''warfare'', ''warm'', ''warrior'', ''wash'',
    ''wasp'', ''waste'', ''water'', ''wave'', ''way'', ''wealth'', ''weapon'', ''wear'', ''weasel'',
    ''weather'', ''web'', ''wedding'', ''weekend'', ''weird'', ''welcome'', ''west'', ''wet'', ''whale'',
    ''what'', ''wheat'', ''wheel'', ''when'', ''where'', ''whip'', ''whisper'', ''wide'', ''width'', ''wife'',
    ''wild'', ''will'', ''win'', ''window'', ''wine'', ''wing'', ''wink'', ''winner'', ''winter'', ''wire'',
    ''wisdom'', ''wise'', ''wish'', ''witness'', ''wolf'', ''woman'', ''wonder'', ''wood'', ''wool'', ''word'',
    ''work'', ''world'', ''worry'', ''worth'', ''wrap'', ''wreck'', ''wrestle'', ''wrist'', ''write'',
    ''wrong'', ''yard'', ''year'', ''yellow'', ''you'', ''young'', ''youth'', ''zebra'', ''zero'', ''zone'',
    ''zoo'']"

section \<open>Addresses\<close>

definition is_ascii_lower :: "char \<Rightarrow> bool" where
  "is_ascii_lower c \<longleftrightarrow> c \<in> set ''abcdefghijklmnopqrstuvwxyz''"

definition is_ascii_digit :: "char \<Rightarrow> bool" where
  "is_ascii_digit c \<longleftrightarrow> c \<in> set ''0123456789''"

fun split_char :: "char \<Rightarrow> string \<Rightarrow> string list" where
  \<comment> \<open>\<open>str::split\<close> on one character\<close>
  "split_char c [] = [[]]"
| "split_char c (x # s) =
     (if x = c then [] # split_char c s
      else case split_char c s of [] \<Rightarrow> [[x]] | part # parts \<Rightarrow> (x # part) # parts)"

definition address_parse :: "string \<Rightarrow> dir_refusal + string" where
  "address_parse raw =
     (let trimmed = trim raw;
          parts = split_char (CHR ''-'') trimmed;
          words = take WORDS parts
      in case drop WORDS parts of
           [] \<Rightarrow> Inl MalformedAddress
         | number # surplus \<Rightarrow>
             if surplus \<noteq> [] \<or> length words \<noteq> WORDS then Inl MalformedAddress
             else let well_formed = list_all (\<lambda>w. w \<noteq> [] \<and> list_all is_ascii_lower w) words \<and>
                        length number = 4 \<and> list_all is_ascii_digit number
                  in if \<not> well_formed then Inl MalformedAddress else Inr trimmed)"

definition decimal_digit :: "nat \<Rightarrow> char" where
  "decimal_digit n = ''0123456789'' ! (n mod 10)"

definition pad4 :: "nat \<Rightarrow> string" where
  \<comment> \<open>\<open>{number:04}\<close>, for a number below 10000\<close>
  "pad4 n = map (\<lambda>d. decimal_digit (n div d)) [1000, 100, 10, 1]"

definition draw_word :: "u128 \<Rightarrow> string" where
  "draw_word drawn = word_list ! unat (drawn AND 0x7FF)"

definition mint :: "bytes \<Rightarrow> string" where
  "mint entropy =
     (let drawn = (of_nat (from_be_bytes entropy) :: u128);
          word0 = draw_word drawn; drawn1 = drop_bit 11 drawn;
          word1 = draw_word drawn1; drawn2 = drop_bit 11 drawn1;
          word2 = draw_word drawn2; drawn3 = drop_bit 11 drawn2;
          number = unat drawn3 mod NUMBER_RANGE
      in word0 @ ''-'' @ word1 @ ''-'' @ word2 @ ''-'' @ pad4 number)"

definition is_mintable :: "string \<Rightarrow> bool" where
  \<comment> \<open>\<open>binary_search\<close> on the sorted list is membership\<close>
  "is_mintable address = list_all (\<lambda>w. w \<in> set word_list) (take WORDS (split_char (CHR ''-'') address))"

section \<open>Lemmas\<close>

lemma length_word_list: "length word_list = WORD_COUNT"
  by (simp add: word_list_def WORD_COUNT_def)

lemma lower_alphabet: "list_all is_ascii_lower ''abcdefghijklmnopqrstuvwxyz''"
  by code_simp

lemmas lower_letters = lower_alphabet [simplified list.pred_inject]

lemma word_list_lower: "list_all (\<lambda>w. w \<noteq> [] \<and> list_all is_ascii_lower w) word_list"
  by (simp only: word_list_def list.pred_inject lower_letters list.distinct simp_thms append.simps)

fun ascending :: "string list \<Rightarrow> bool" where
  "ascending (x # y # xs) \<longleftrightarrow> x < y \<and> ascending (y # xs)"
| "ascending _ = True"

lemma word_list_ascending: "ascending word_list"
  by (simp add: word_list_def)

lemma ascending_distinct: "ascending ws \<Longrightarrow> sorted_wrt (<) ws"
proof (induction ws rule: ascending.induct)
  case (1 x y xs)
  then have "sorted_wrt (<) (y # xs)" "x < y" by simp_all
  then show ?case by (auto dest: less_trans)
qed simp_all

lemma word_list_distinct: "distinct word_list"
  using ascending_distinct [OF word_list_ascending] by (simp add: strict_sorted_iff)

lemma split_char_append: "c \<notin> set a \<Longrightarrow> split_char c (a @ c # b) = a # split_char c b"
  by (induction a) auto

lemma split_char_last: "c \<notin> set a \<Longrightarrow> split_char c a = [a]"
  by (induction a) auto

lemma unat_low11: "unat (w AND 0x7FF :: u128) = unat w mod 2048"
proof -
  have "(w AND 0x7FF) = take_bit 11 w" by (simp add: take_bit_eq_mask mask_eq_exp_minus_1)
  then show ?thesis by (simp add: take_bit_eq_mod unat_mod_distrib)
qed

lemma unat_shift11: "unat (drop_bit 11 w :: u128) = unat w div 2048"
  by (simp add: drop_bit_eq_div unat_div_distrib)

definition draw_indices :: "bytes \<Rightarrow> nat \<times> nat \<times> nat \<times> nat" where
  \<comment> \<open>the three word indices and the number a draw stands for\<close>
  "draw_indices entropy =
     (let n = from_be_bytes entropy mod 2 ^ 128
      in (n mod 2048, n div 2048 mod 2048, n div 2048 ^ 2 mod 2048, n div 2048 ^ 3 mod 10000))"

lemma mint_indices:
  "mint entropy = (case draw_indices entropy of (i, j, k, n) \<Rightarrow>
     word_list ! i @ ''-'' @ word_list ! j @ ''-'' @ word_list ! k @ ''-'' @ pad4 n)"
proof -
  have "unat (of_nat (from_be_bytes entropy) :: u128) = from_be_bytes entropy mod 2 ^ 128"
    by (simp add: unsigned_of_nat take_bit_eq_mod)
  then show ?thesis
    by (simp add: mint_def draw_indices_def Let_def draw_word_def unat_low11 unat_shift11 NUMBER_RANGE_def
        div_mult2_eq [symmetric] power2_eq_square power3_eq_cube)
qed

lemma draw_indices_bounds:
  assumes "draw_indices entropy = (i, j, k, n)"
  shows "i < length word_list" "j < length word_list" "k < length word_list" "n < 10000"
  using assms by (auto simp: draw_indices_def Let_def length_word_list WORD_COUNT_def)

lemma drawn_word:
  assumes "i < length word_list"
  shows "word_list ! i \<noteq> []" "list_all is_ascii_lower (word_list ! i)" "CHR ''-'' \<notin> set (word_list ! i)"
proof -
  show "word_list ! i \<noteq> []" and l: "list_all is_ascii_lower (word_list ! i)"
    using word_list_lower assms by (simp_all add: list_all_length)
  have "\<not> is_ascii_lower (CHR ''-'')" by code_simp
  then show "CHR ''-'' \<notin> set (word_list ! i)" using l by (auto simp: list_all_iff)
qed

lemma decimal_digit_digit: "is_ascii_digit (decimal_digit n)"
  unfolding is_ascii_digit_def decimal_digit_def by (intro nth_mem) simp

lemma decimal_digit_eq: "decimal_digit m = decimal_digit n \<longleftrightarrow> m mod 10 = n mod 10"
  unfolding decimal_digit_def by (subst nth_eq_iff_index_eq) simp_all

lemma pad4_digits: "list_all is_ascii_digit (pad4 n)" "length (pad4 n) = 4" "CHR ''-'' \<notin> set (pad4 n)"
proof -
  show d: "list_all is_ascii_digit (pad4 n)" by (simp add: pad4_def decimal_digit_digit)
  have "\<not> is_ascii_digit (CHR ''-'')" by code_simp
  then show "CHR ''-'' \<notin> set (pad4 n)" using d by (auto simp: list_all_iff)
qed (simp add: pad4_def)

lemma from_digits: "k = 10 * a + d0 \<Longrightarrow> a = 10 * b + d1 \<Longrightarrow> b = 10 * c + d2 \<Longrightarrow> k = 1000 * c + 100 * d2 + 10 * d1 + d0"
  for k :: nat by simp

lemma pad4_eq:
  assumes "m < 10000" "n < 10000"
  shows "pad4 m = pad4 n \<longleftrightarrow> m = n"
proof
  have parts: "k = 1000 * (k div 1000 mod 10) + 100 * (k div 100 mod 10) + 10 * (k div 10 mod 10) + k mod 10"
    if "k < 10000" for k :: nat
  proof -
    have "k div 1000 mod 10 = k div 10 div 10 div 10" "k div 100 = k div 10 div 10"
      using that by (simp_all add: div_mult2_eq [symmetric])
    then show ?thesis
      using from_digits [OF mult_div_mod_eq [symmetric] mult_div_mod_eq [symmetric] mult_div_mod_eq [symmetric]] by metis
  qed
  assume "pad4 m = pad4 n"
  then have "m div 1000 mod 10 = n div 1000 mod 10" "m div 100 mod 10 = n div 100 mod 10"
    "m div 10 mod 10 = n div 10 mod 10" "m mod 10 = n mod 10" by (simp_all add: pad4_def decimal_digit_eq)
  then show "m = n" using parts [OF assms(1)] parts [OF assms(2)] by simp
qed simp

lemma mint_split:
  assumes "draw_indices entropy = (i, j, k, n)"
  shows "split_char (CHR ''-'') (mint entropy) = [word_list ! i, word_list ! j, word_list ! k, pad4 n]"
  using draw_indices_bounds [OF assms] pad4_digits(3) [of n]
  by (simp add: mint_indices assms split_char_append drawn_word split_char_last)

lemma plain_edges: "is_ascii_lower c \<or> is_ascii_digit c \<Longrightarrow> plain c"
proof -
  have "list_all plain ''abcdefghijklmnopqrstuvwxyz0123456789''" by code_simp
  then show "is_ascii_lower c \<or> is_ascii_digit c \<Longrightarrow> plain c"
    unfolding is_ascii_lower_def is_ascii_digit_def list_all_iff by auto
qed

lemma mint_trim: "trim (mint entropy) = mint entropy"
proof (rule trim_plain)
  obtain i j k n where d: "draw_indices entropy = (i, j, k, n)" by (cases "draw_indices entropy") auto
  have i: "i < length word_list" by (rule draw_indices_bounds [OF d])
  have "hd (mint entropy) = hd (word_list ! i)" using drawn_word(1) [OF i] by (simp add: mint_indices d)
  then have "is_ascii_lower (hd (mint entropy))" using drawn_word(1,2) [OF i] by (cases "word_list ! i") auto
  moreover have "last (mint entropy) = decimal_digit n" by (simp add: mint_indices d pad4_def)
  ultimately show "plain (hd (mint entropy)) \<and> plain (last (mint entropy))"
    by (simp add: plain_edges decimal_digit_digit)
qed

lemma mint_parses: "address_parse (mint entropy) = Inr (mint entropy)"
proof -
  obtain i j k n where d: "draw_indices entropy = (i, j, k, n)" by (cases "draw_indices entropy") auto
  note b = draw_indices_bounds [OF d]
  show ?thesis
    using drawn_word(1,2) [OF b(1)] drawn_word(1,2) [OF b(2)] drawn_word(1,2) [OF b(3)]
    by (simp add: address_parse_def mint_trim mint_split [OF d] WORDS_def Let_def pad4_digits)
qed

section \<open>Properties\<close>

text \<open>What is minted parses, and spells its draw. For every draw, the minted address is made of three
  words of the list and four digits, parses to itself, and two draws spell the same address exactly when
  they agree in the three 11-bit word indices and in the remaining bits modulo 10000: no two points of
  the key space share a spelling.\<close>

theorem mint_spells_its_draw:
  "address_parse (mint entropy) = Inr (mint entropy) \<and> is_mintable (mint entropy) \<and>
   (mint entropy = mint entropy' \<longleftrightarrow> draw_indices entropy = draw_indices entropy')"
proof -
  obtain i j k n where d: "draw_indices entropy = (i, j, k, n)" by (cases "draw_indices entropy") auto
  obtain i' j' k' n' where d': "draw_indices entropy' = (i', j', k', n')" by (cases "draw_indices entropy'") auto
  note b = draw_indices_bounds [OF d] and b' = draw_indices_bounds [OF d']
  have "is_mintable (mint entropy)" using b by (simp add: is_mintable_def mint_split [OF d] WORDS_def)
  moreover have "draw_indices entropy = draw_indices entropy'" if "mint entropy = mint entropy'"
  proof -
    have "[word_list ! i, word_list ! j, word_list ! k, pad4 n] = [word_list ! i', word_list ! j', word_list ! k', pad4 n']"
      using mint_split [OF d] mint_split [OF d'] that by simp
    then show ?thesis
      using b b' by (simp add: d d' nth_eq_iff_index_eq [OF word_list_distinct] pad4_eq)
  qed
  ultimately show ?thesis using mint_parses by (auto simp: mint_indices)
qed

lemma address_parse_trim: "address_parse raw = Inr address \<Longrightarrow> address = trim raw"
  by (auto simp: address_parse_def Let_def split: list.splits if_splits)

end
