(* ===== verification/Challenges.thy ===== *)
theory Challenges
  imports Kinship
begin

text \<open>
  What the directory and the post share: ages by saturating subtraction, and the interface of a book of
  single-use challenges. The locale \<open>single_use\<close> says what spending a nonce promises; it is interpreted on
  the directory's store and on the post's table.
\<close>

definition saturating_sub :: "u64 \<Rightarrow> u64 \<Rightarrow> u64" where
  "saturating_sub a b = (if b \<le> a then a - b else 0)"

lemma saturating_sub_self [simp]: "saturating_sub a a = 0"
  by (simp add: saturating_sub_def)

locale single_use =
  fixes pending :: "'s \<Rightarrow> 'n set"
    and spend :: "'n \<Rightarrow> 't \<Rightarrow> 's \<Rightarrow> 'c option \<times> 's"
  assumes spend_known: "spend n t s = (Some c, s') \<Longrightarrow> n \<in> pending s"
    and spend_clears: "spend n t s = (r, s') \<Longrightarrow> pending s' = pending s - {n}"
begin

lemma spent_stays_spent:
  assumes "spend n t s = (r, s1)" "pending s2 \<inter> {n} \<subseteq> pending s1"
  shows "fst (spend n t' s2) = None"
proof (cases "fst (spend n t' s2)")
  case (Some c)
  then have "n \<in> pending s2" using spend_known by (metis prod.collapse)
  then show ?thesis using assms spend_clears by fastforce
qed

end

lemma remove_insert: "bm_remove k (bm_insert k v m) = bm_remove k m"
  by (induction k v m rule: bm_insert.induct) (auto simp: bm_remove_def)

lemma length_bm_insert: "length (bm_insert k v m) \<le> Suc (length m)"
  by (induction k v m rule: bm_insert.induct) auto

lemma length_bm: "bm_wf m \<Longrightarrow> length m = card (bm_keys m)"
  using distinct_card [OF bm_wf_distinct] by (fastforce simp: bm_keys_def)

lemma length_bm_insert_held: "bm_wf m \<Longrightarrow> bm_contains m k \<Longrightarrow> length (bm_insert k v m) = length m"
  by (simp add: length_bm bm_wf_insert map_simps bm_contains_iff insert_absorb)

lemma length_bm_remove: "length (bm_remove k m) \<le> length m"
  by (simp add: bm_remove_def)

lemma length_bm_remove_held: "bm_contains m k \<Longrightarrow> length (bm_remove k m) < length m"
  unfolding bm_remove_def bm_contains_def
  by (rule length_filter_less [of "(k, the (map_of m k))"]) (auto dest: map_of_SomeD)

text \<open>Inserting adds at most one entry satisfying a predicate.\<close>

lemma length_filter_insert: "length (filter P (bm_insert k v m)) \<le> length (filter P m) + (if P (k, v) then 1 else 0)"
  by (induction k v m rule: bm_insert.induct) auto

lemma demo_canonical: "c \<in> set ''123'' \<Longrightarrow> lower_hex (device_from_seed demo_kin (demo_seed c))"
proof -
  have "list_all (\<lambda>c. lower_hex (device_from_seed demo_kin (demo_seed c))) ''123''" by code_simp
  then show "c \<in> set ''123'' \<Longrightarrow> lower_hex (device_from_seed demo_kin (demo_seed c))" by (auto simp: list_all_iff)
qed

end
