(* ===== verification/Directory.thy ===== *)
theory Directory
  imports Addressbook Address Challenges
begin

text \<open>
  The address directory (\<^verbatim>\<open>crates/directory/src/wire.rs\<close>, \<^verbatim>\<open>store.rs\<close>, \<^verbatim>\<open>service.rs\<close> and the client calls
  of \<^verbatim>\<open>lib.rs\<close>): signed requests over single-use challenges, the in-memory store, and the service that
  issues challenges, accepts publications, mints addresses and resolves them, chronicling what it accepts.

  The store is \<^verbatim>\<open>MemStore\<close>, whose operations do not fail; its chronicle leaves are the store of the
  \<open>chronicler\<close>. What the operating system draws is an argument: \<open>None\<close> is a failed draw.
\<close>

section \<open>Requests\<close>

definition PUBLISH_DOMAIN :: bytes where "PUBLISH_DOMAIN = ''lait/directory/1/publish''"
definition RESOLVE_DOMAIN :: bytes where "RESOLVE_DOMAIN = ''lait/directory/1/resolve''"
definition DIRECTORY_ENTRY_DOMAIN :: bytes where "DIRECTORY_ENTRY_DOMAIN = ''lait-directory/chronicle-entry/v1''"

definition framed32 :: "bytes \<Rightarrow> bytes \<Rightarrow> bytes" where
  "framed32 out part =
     (let len = (if length part < 2 ^ 32 then length part else 2 ^ 32 - 1)
      in out @ be_bytes 4 len @ part)"

lemma framed32_code [code]:
  "framed32 out part =
     out @ be_bytes 4 (if int (length part) < 4294967296 then length part else 2 ^ 32 - 1) @ part"
  by (simp add: framed32_def Let_def)

record challenge =
  cg_device :: string
  cg_nonce :: bytes
  cg_issued_at :: u64

record signed_publish =
  sp_device :: string
  sp_announcement :: bytes
  sp_nonce :: bytes
  sp_signature :: bytes

record signed_resolve =
  sr_device :: string
  sr_address :: string
  sr_nonce :: bytes
  sr_signature :: bytes

definition publish_preimage :: "signed_publish \<Rightarrow> bytes" where
  "publish_preimage r = foldl framed32 [] [PUBLISH_DOMAIN, sp_device r, sp_nonce r, sp_announcement r]"

definition resolve_preimage :: "signed_resolve \<Rightarrow> bytes" where
  "resolve_preimage r = foldl framed32 [] [RESOLVE_DOMAIN, sr_device r, sr_nonce r, sr_address r]"

definition canonical_key :: "kin_env \<Rightarrow> string \<Rightarrow> dir_refusal + bytes" where
  "canonical_key env device =
     (case device_parse device of
        None \<Rightarrow> Inl MalformedAddress
      | Some parsed \<Rightarrow>
          if parsed \<noteq> device then Inl MalformedAddress
          else case key_bytes (ke_crypto env) parsed of None \<Rightarrow> Inl MalformedAddress | Some key \<Rightarrow> Inr key)"

definition wire_verify :: "kin_env \<Rightarrow> string \<Rightarrow> bytes \<Rightarrow> bytes \<Rightarrow> dir_refusal + unit" where
  "wire_verify env device preimage signature =
     try_then (canonical_key env device) (\<lambda>key.
       if verify_detached env key preimage signature then Inr () else Inl NotAuthentic)"

definition sign_publish :: "kin_env \<Rightarrow> bytes \<Rightarrow> challenge \<Rightarrow> bytes \<Rightarrow> signed_publish" where
  "sign_publish env seed challenge announcement =
     (let request = \<lparr>sp_device = cg_device challenge, sp_announcement = announcement, sp_nonce = cg_nonce challenge,
            sp_signature = replicate 64 (CHR 0x00)\<rparr>
      in request\<lparr>sp_signature := sign_detached env seed (publish_preimage request)\<rparr>)"

definition sign_resolve :: "kin_env \<Rightarrow> bytes \<Rightarrow> challenge \<Rightarrow> string \<Rightarrow> signed_resolve" where
  "sign_resolve env seed challenge address =
     (let request = \<lparr>sr_device = cg_device challenge, sr_address = address, sr_nonce = cg_nonce challenge,
            sr_signature = replicate 64 (CHR 0x00)\<rparr>
      in request\<lparr>sr_signature := sign_detached env seed (resolve_preimage request)\<rparr>)"

section \<open>The store\<close>

definition MAX_PUBLISH_BYTES :: nat where "MAX_PUBLISH_BYTES = 256 * 1024"
definition CHALLENGE_TTL :: u64 where "CHALLENGE_TTL = 60"
definition MAX_CHALLENGES_PER_DEVICE :: nat where "MAX_CHALLENGES_PER_DEVICE = 8"
definition MAX_RESOLVES_PER_WINDOW :: nat where "MAX_RESOLVES_PER_WINDOW = 32"
definition RATE_WINDOW :: u64 where "RATE_WINDOW = 60"

record published =
  pb_announcement :: bytes
  pb_epoch :: u64

record mem_store =
  ms_holders :: "(string, string) btree_map"
  ms_addresses :: "(string, string) btree_map"
  ms_published :: "(string, published) btree_map"
  ms_challenges :: "(bytes, challenge) btree_map"
  ms_resolves :: "(string, u64 list) btree_map"

definition ms_new :: mem_store where
  "ms_new = \<lparr>ms_holders = [], ms_addresses = [], ms_published = [], ms_challenges = [], ms_resolves = []\<rparr>"

definition ms_claim :: "string \<Rightarrow> string \<Rightarrow> mem_store \<Rightarrow> bool \<times> mem_store" where
  "ms_claim address profile s =
     (if bm_contains (ms_holders s) address then (False, s)
      else (True, s\<lparr>ms_holders := bm_insert address profile (ms_holders s),
                    ms_addresses := bm_insert profile address (ms_addresses s)\<rparr>))"

definition ms_address_of :: "string \<Rightarrow> mem_store \<Rightarrow> string option" where
  "ms_address_of profile s = map_of (ms_addresses s) profile"

definition ms_record :: "string \<Rightarrow> published \<Rightarrow> mem_store \<Rightarrow> bool \<times> mem_store" where
  "ms_record profile p s =
     (if (case map_of (ms_published s) profile of Some held \<Rightarrow> pb_epoch p < pb_epoch held | None \<Rightarrow> False)
      then (False, s)
      else (True, s\<lparr>ms_published := bm_insert profile p (ms_published s)\<rparr>))"

definition ms_published_at :: "string \<Rightarrow> mem_store \<Rightarrow> published option" where
  "ms_published_at address s =
     (case map_of (ms_holders s) address of
        None \<Rightarrow> None
      | Some profile \<Rightarrow> map_of (ms_published s) profile)"

definition ms_open :: "challenge \<Rightarrow> mem_store \<Rightarrow> mem_store" where
  "ms_open challenge s = s\<lparr>ms_challenges := bm_insert (cg_nonce challenge) challenge (ms_challenges s)\<rparr>"

definition ms_spend :: "bytes \<Rightarrow> u64 \<Rightarrow> mem_store \<Rightarrow> challenge option \<times> mem_store" where
  "ms_spend nonce now s =
     (case map_of (ms_challenges s) nonce of
        None \<Rightarrow> (None, s)
      | Some challenge \<Rightarrow>
          let s' = s\<lparr>ms_challenges := bm_remove nonce (ms_challenges s)\<rparr>
          in if CHALLENGE_TTL < saturating_sub now (cg_issued_at challenge) then (None, s') else (Some challenge, s'))"

definition ms_open_for :: "string \<Rightarrow> u64 \<Rightarrow> mem_store \<Rightarrow> nat" where
  "ms_open_for device now s =
     length (filter (\<lambda>held. device_key (cg_device held) = device_key device \<and>
       saturating_sub now (cg_issued_at held) \<le> CHALLENGE_TTL) (map snd (ms_challenges s)))"

definition recent :: "u64 \<Rightarrow> u64 list \<Rightarrow> u64 list" where
  "recent now seen = filter (\<lambda>at. saturating_sub now at < RATE_WINDOW) seen"

definition ms_note_resolve :: "string \<Rightarrow> u64 \<Rightarrow> mem_store \<Rightarrow> nat \<times> mem_store" where
  "ms_note_resolve asker now s =
     (let held = (case map_of (ms_resolves s) asker of Some seen \<Rightarrow> seen | None \<Rightarrow> []);
          seen = recent now held @ [now]
      in (length seen, s\<lparr>ms_resolves := bm_insert asker seen (ms_resolves s)\<rparr>))"

definition ms_sweep :: "u64 \<Rightarrow> mem_store \<Rightarrow> nat \<times> mem_store" where
  "ms_sweep now s =
     (let challenges = filter (\<lambda>(_, held). saturating_sub now (cg_issued_at held) \<le> CHALLENGE_TTL) (ms_challenges s);
          resolves = filter (\<lambda>(_, seen). seen \<noteq> []) (map (\<lambda>(k, seen). (k, recent now seen)) (ms_resolves s))
      in (length (ms_challenges s) - length challenges, s\<lparr>ms_challenges := challenges, ms_resolves := resolves\<rparr>))"

section \<open>The service\<close>

definition MINT_ATTEMPTS :: nat where "MINT_ATTEMPTS = 8"

record service =
  sv_store :: mem_store
  sv_chronicler :: "chronicler option"

record issued =
  is_address :: string
  is_receipt :: receipt

definition standing_default :: kin_standing where
  "standing_default = \<lparr>ks_device = None, ks_actors = [], ks_spaces = [], ks_own = False, ks_kin = False\<rparr>"

definition sv_challenge ::
  "kin_env \<Rightarrow> string \<Rightarrow> u64 \<Rightarrow> bytes option \<Rightarrow> service \<Rightarrow> (dir_refusal + challenge) \<times> service" where
  "sv_challenge env device now drawn s =
     (case canonical_key env device of
        Inl r \<Rightarrow> (Inl r, s)
      | Inr _ \<Rightarrow>
          if MAX_CHALLENGES_PER_DEVICE \<le> ms_open_for device now (sv_store s) then (Inl TooFast, s)
          else case drawn of
            None \<Rightarrow> (Inl (Unavailable (Text ''randomness'')), s)
          | Some nonce \<Rightarrow>
              let c = \<lparr>cg_device = device, cg_nonce = nonce, cg_issued_at = now\<rparr>
              in (Inr c, s\<lparr>sv_store := ms_open c (sv_store s)\<rparr>))"

definition answered :: "string \<Rightarrow> bytes \<Rightarrow> u64 \<Rightarrow> mem_store \<Rightarrow> (dir_refusal + unit) \<times> mem_store" where
  "answered device nonce now s =
     (case ms_spend nonce now s of
        (None, s') \<Rightarrow> (Inl StaleChallenge, s')
      | (Some spent, s') \<Rightarrow>
          (if device_key (cg_device spent) \<noteq> device_key device then Inl StaleChallenge else Inr (), s'))"

fun mint_loop :: "nat \<Rightarrow> bytes option list \<Rightarrow> string \<Rightarrow> mem_store \<Rightarrow> (dir_refusal + string) \<times> mem_store" where
  \<comment> \<open>the attempts left and their draws; a list that ran out is a draw that failed\<close>
  "mint_loop 0 draws profile s = (Inl (Unavailable (Text ''could not mint an address'')), s)"
| "mint_loop (Suc attempts) (Some entropy # draws) profile s =
     (let candidate = mint entropy
      in case ms_claim candidate profile s of
           (True, s') \<Rightarrow> (Inr candidate, s')
         | (False, s') \<Rightarrow> mint_loop attempts draws profile s')"
| "mint_loop (Suc attempts) _ profile s = (Inl (Unavailable (Text ''randomness'')), s)"

definition mint_for :: "bytes option list \<Rightarrow> string \<Rightarrow> mem_store \<Rightarrow> (dir_refusal + string) \<times> mem_store" where
  "mint_for draws profile s = mint_loop MINT_ATTEMPTS draws profile s"

definition chronicle_entry_for :: "signed_publish \<Rightarrow> bytes" where
  "chronicle_entry_for r =
     foldl framed32 [] [DIRECTORY_ENTRY_DOMAIN, sp_device r, sp_nonce r, sp_announcement r, sp_signature r]"

definition anchored :: "kin_env \<Rightarrow> announcement \<Rightarrow> dir_refusal + (string \<times> string list \<times> u64)" where
  "anchored env a =
     (case absorb env (an_projection a) (an_genesis a) standing_default reg_new of
        Inl _ \<Rightarrow> Inl NotAuthentic
      | Inr (scratch, profile) \<Rightarrow>
          if profile \<noteq> an_profile a then Inl NotAuthentic
          else case reg_resolve scratch profile of
            None \<Rightarrow> Inl NotAuthentic
          | Some devices \<Rightarrow>
              if devices = [] then Inl NotAuthentic
              else Inr (profile, devices, case pj_head (an_projection a) of None \<Rightarrow> 0 | Some head \<Rightarrow> kh_epoch head))"

definition chronicled ::
  "kin_env \<Rightarrow> bytes \<Rightarrow> string list \<Rightarrow> bytes list list \<Rightarrow> chronicler option \<Rightarrow> (dir_refusal + receipt) \<times> chronicler option" where
  "chronicled env entry devices others chronicler =
     (case chronicler of
        None \<Rightarrow> (Inr receipt_default, None)
      | Some c \<Rightarrow> (case cn_chronicle_entry env entry devices others c of (r, c') \<Rightarrow> (r, Some c')))"

definition accept_publish ::
  "kin_env \<Rightarrow> ann_codec \<Rightarrow> signed_publish \<Rightarrow> dir_refusal + (string \<times> string list \<times> u64)" where
  \<comment> \<open>the announcement on its own terms, and its presenter\<close>
  "accept_publish env codec request =
     try_then (map_sum (\<lambda>_. NotAuthentic) (\<lambda>a. a) (ann_decode codec (sp_announcement request))) (\<lambda>announcement.
     try_then (anchored env announcement) (\<lambda>(profile, devices, epoch).
       if \<not> contains_device devices (sp_device request) then Inl NotAuthentic else Inr (profile, devices, epoch)))"

definition held_or_minted :: "bytes option list \<Rightarrow> string \<Rightarrow> mem_store \<Rightarrow> (dir_refusal + string) \<times> mem_store" where
  "held_or_minted draws profile s =
     (case ms_address_of profile s of Some held \<Rightarrow> (Inr held, s) | None \<Rightarrow> mint_for draws profile s)"

definition sv_accepted ::
  "kin_env \<Rightarrow> signed_publish \<Rightarrow> string \<times> string list \<times> u64 \<Rightarrow> bytes option list \<Rightarrow> bytes list list \<Rightarrow> service \<Rightarrow>
   (dir_refusal + issued) \<times> service" where
  \<comment> \<open>the address, the chronicle entry, then the record\<close>
  "sv_accepted env request accepted draws others s =
     (let (profile, devices, epoch) = accepted
      in case held_or_minted draws profile (sv_store s) of
           (Inl r, st) \<Rightarrow> (Inl r, s\<lparr>sv_store := st\<rparr>)
         | (Inr address, st) \<Rightarrow>
           (case chronicled env (chronicle_entry_for request) devices others (sv_chronicler s) of
              (Inl r, ch) \<Rightarrow> (Inl r, s\<lparr>sv_store := st, sv_chronicler := ch\<rparr>)
            | (Inr receipt, ch) \<Rightarrow>
                (let (_, st') = ms_record profile \<lparr>pb_announcement = sp_announcement request, pb_epoch = epoch\<rparr> st
                 in (Inr \<lparr>is_address = address, is_receipt = receipt\<rparr>, s\<lparr>sv_store := st', sv_chronicler := ch\<rparr>))))"

definition sv_publish ::
  "kin_env \<Rightarrow> ann_codec \<Rightarrow> signed_publish \<Rightarrow> u64 \<Rightarrow> bytes option list \<Rightarrow> bytes list list \<Rightarrow> service \<Rightarrow>
   (dir_refusal + issued) \<times> service" where
  "sv_publish env codec request now draws others s =
     (if MAX_PUBLISH_BYTES < length (sp_announcement request) then (Inl TooLarge, s)
      else case wire_verify env (sp_device request) (publish_preimage request) (sp_signature request) of
        Inl r \<Rightarrow> (Inl r, s)
      | Inr _ \<Rightarrow>
        (case answered (sp_device request) (sp_nonce request) now (sv_store s) of
           (Inl r, st) \<Rightarrow> (Inl r, s\<lparr>sv_store := st\<rparr>)
         | (Inr _, st) \<Rightarrow>
           (case accept_publish env codec request of
              Inl r \<Rightarrow> (Inl r, s\<lparr>sv_store := st\<rparr>)
            | Inr accepted \<Rightarrow> sv_accepted env request accepted draws others (s\<lparr>sv_store := st\<rparr>))))"

definition sv_resolve ::
  "kin_env \<Rightarrow> signed_resolve \<Rightarrow> u64 \<Rightarrow> service \<Rightarrow> (dir_refusal + bytes) \<times> service" where
  "sv_resolve env request now s =
     (case address_parse (sr_address request) of
        Inl r \<Rightarrow> (Inl r, s)
      | Inr address \<Rightarrow>
        (case wire_verify env (sr_device request) (resolve_preimage request) (sr_signature request) of
           Inl r \<Rightarrow> (Inl r, s)
         | Inr _ \<Rightarrow>
           (case answered (sr_device request) (sr_nonce request) now (sv_store s) of
              (Inl r, st) \<Rightarrow> (Inl r, s\<lparr>sv_store := st\<rparr>)
            | (Inr _, st) \<Rightarrow>
              (case ms_note_resolve (sr_device request) now st of
                 (made, st') \<Rightarrow>
                   (if MAX_RESOLVES_PER_WINDOW < made then Inl TooFast
                    else case ms_published_at address st' of
                           None \<Rightarrow> Inl NotAvailable
                         | Some p \<Rightarrow> Inr (pb_announcement p),
                    s\<lparr>sv_store := st'\<rparr>)))))"

definition sv_sweep :: "u64 \<Rightarrow> service \<Rightarrow> nat \<times> service" where
  "sv_sweep now s = (case ms_sweep now (sv_store s) of (n, st) \<Rightarrow> (n, s\<lparr>sv_store := st\<rparr>))"

section \<open>The client\<close>

record publication =
  pc_issued :: issued
  pc_leaf :: bytes

definition publish_as ::
  "kin_env \<Rightarrow> ann_codec \<Rightarrow> bytes \<Rightarrow> announcement \<Rightarrow> u64 \<Rightarrow> bytes option \<Rightarrow> bytes option list \<Rightarrow> bytes list list \<Rightarrow>
   service \<Rightarrow> (dir_refusal + publication) \<times> service" where
  "publish_as env codec seed announcement now drawn draws others s =
     (case sv_challenge env (device_from_seed env seed) now drawn s of
        (Inl r, s') \<Rightarrow> (Inl r, s')
      | (Inr challenge, s') \<Rightarrow>
        (case ann_encode codec announcement of
           Inl _ \<Rightarrow> (Inl TooLarge, s')
         | Inr encoded \<Rightarrow>
           (let request = sign_publish env seed challenge encoded
            in case sv_publish env codec request now draws others s' of
                 (Inl r, s'') \<Rightarrow> (Inl r, s'')
               | (Inr iss, s'') \<Rightarrow>
                   (Inr \<lparr>pc_issued = iss, pc_leaf = leaf_hash (ke_crypto env) (chronicle_entry_for request)\<rparr>, s''))))"

definition resolve_as ::
  "kin_env \<Rightarrow> ann_codec \<Rightarrow> bytes \<Rightarrow> string \<Rightarrow> u64 \<Rightarrow> bytes option \<Rightarrow> service \<Rightarrow> (dir_refusal + announcement) \<times> service" where
  "resolve_as env codec seed address now drawn s =
     (case sv_challenge env (device_from_seed env seed) now drawn s of
        (Inl r, s') \<Rightarrow> (Inl r, s')
      | (Inr challenge, s') \<Rightarrow>
        (case sv_resolve env (sign_resolve env seed challenge address) now s' of
           (Inl r, s'') \<Rightarrow> (Inl r, s'')
         | (Inr bytes, s'') \<Rightarrow> (map_sum (\<lambda>_. NotAuthentic) (\<lambda>a. a) (ann_decode codec bytes), s'')))"

section \<open>Effects\<close>

inductive dir_step :: "kin_env \<Rightarrow> ann_codec \<Rightarrow> bytes set \<Rightarrow> service \<Rightarrow> service \<Rightarrow> bool" for env codec avoid where
  \<comment> \<open>any request, whatever it is answered; the draws avoid some nonces\<close>
  step_challenge: "drawn \<notin> Some ` avoid \<Longrightarrow> sv_challenge env device now drawn s = (r, s') \<Longrightarrow> dir_step env codec avoid s s'"
| step_publish: "sv_publish env codec request now draws others s = (r', s') \<Longrightarrow> dir_step env codec avoid s s'"
| step_resolve: "sv_resolve env query now s = (r'', s') \<Longrightarrow> dir_step env codec avoid s s'"
| step_sweep: "sv_sweep now s = (n, s') \<Longrightarrow> dir_step env codec avoid s s'"

definition leaf_in :: "kin_env \<Rightarrow> signed_publish \<Rightarrow> chronicler option \<Rightarrow> bool" where
  "leaf_in env request chronicler \<longleftrightarrow>
     (\<forall>c. chronicler = Some c \<longrightarrow> leaf_hash (ke_crypto env) (chronicle_entry_for request) \<in> set (cn_store c))"

definition authentic :: "kin_env \<Rightarrow> ann_codec \<Rightarrow> signed_publish \<Rightarrow> string \<Rightarrow> published \<Rightarrow> bool" where
  \<comment> \<open>the request is signed by its presenter, a device its announcement avows, and published this for that profile\<close>
  "authentic env codec request profile p \<longleftrightarrow>
     wire_verify env (sp_device request) (publish_preimage request) (sp_signature request) = Inr () \<and>
     (\<exists>devices. accept_publish env codec request = Inr (profile, devices, pb_epoch p)) \<and>
     pb_announcement p = sp_announcement request"

text \<open>The four effects a request is made of.\<close>

inductive dir_effect :: "kin_env \<Rightarrow> ann_codec \<Rightarrow> service \<Rightarrow> service \<Rightarrow> bool" for env codec where
  quiet: "ms_holders st = ms_holders (sv_store s) \<Longrightarrow> ms_addresses st = ms_addresses (sv_store s) \<Longrightarrow>
    ms_published st = ms_published (sv_store s) \<Longrightarrow> dir_effect env codec s (s\<lparr>sv_store := st\<rparr>)"
| claims: "ms_address_of profile (sv_store s) = None \<Longrightarrow> ms_claim (mint entropy) profile (sv_store s) = (True, st) \<Longrightarrow>
    dir_effect env codec s (s\<lparr>sv_store := st\<rparr>)"
| chronicles: "chronicled env entry devices others (sv_chronicler s) = (r, ch) \<Longrightarrow>
    dir_effect env codec s (s\<lparr>sv_chronicler := ch\<rparr>)"
| records: "authentic env codec request profile p \<Longrightarrow> leaf_in env request (sv_chronicler s) \<Longrightarrow>
    ms_address_of profile (sv_store s) \<noteq> None \<Longrightarrow> ms_record profile p (sv_store s) = (b, st) \<Longrightarrow>
    dir_effect env codec s (s\<lparr>sv_store := st\<rparr>)"

definition dir_ok :: "kin_env \<Rightarrow> ann_codec \<Rightarrow> service \<Rightarrow> bool" where
  "dir_ok env codec s \<longleftrightarrow>
     (\<forall>profile address. map_of (ms_addresses (sv_store s)) profile = Some address \<longleftrightarrow>
        map_of (ms_holders (sv_store s)) address = Some profile) \<and>
     (\<forall>profile p. map_of (ms_published (sv_store s)) profile = Some p \<longrightarrow>
        (\<exists>request. authentic env codec request profile p \<and> leaf_in env request (sv_chronicler s))) \<and>
     (\<forall>profile. bm_contains (ms_published (sv_store s)) profile \<longrightarrow> bm_contains (ms_addresses (sv_store s)) profile) \<and>
     (\<forall>address. bm_contains (ms_holders (sv_store s)) address \<longrightarrow> address_parse address = Inr address) \<and>
     (\<forall>c. sv_chronicler s = Some c \<longrightarrow> cn_ok c)"

definition dir_grows :: "service \<Rightarrow> service \<Rightarrow> bool" where
  "dir_grows s s' \<longleftrightarrow>
     (\<forall>profile address. ms_address_of profile (sv_store s) = Some address \<longrightarrow>
        ms_address_of profile (sv_store s') = Some address) \<and>
     (\<forall>profile p. map_of (ms_published (sv_store s)) profile = Some p \<longrightarrow>
        (\<exists>p'. map_of (ms_published (sv_store s')) profile = Some p' \<and> pb_epoch p \<le> pb_epoch p')) \<and>
     (\<forall>c. sv_chronicler s = Some c \<longrightarrow> (\<exists>c'. sv_chronicler s' = Some c' \<and> prefix (cn_store c) (cn_store c')))"

lemma dir_grows_refl: "dir_grows s s"
  by (auto simp: dir_grows_def)

lemma dir_grows_trans: "dir_grows s t \<Longrightarrow> dir_grows t u \<Longrightarrow> dir_grows s u"
  unfolding dir_grows_def by (meson order_trans prefix_order.trans)

lemma chronicled_grows:
  assumes "chronicled env entry devices others ch = (r, ch')" "\<forall>c. ch = Some c \<longrightarrow> cn_ok c"
  shows "(ch = None \<longrightarrow> ch' = None) \<and> (\<forall>c. ch = Some c \<longrightarrow> (\<exists>c'. ch' = Some c' \<and> follows c c'))"
  using assms entry_follows [of _ env entry devices others]
  by (auto simp: chronicled_def split: option.splits prod.splits) (metis snd_conv)

lemma leaf_in_mono: "leaf_in env request ch \<Longrightarrow> (ch = None \<longrightarrow> ch' = None) \<Longrightarrow>
    (\<forall>c. ch = Some c \<longrightarrow> (\<exists>c'. ch' = Some c' \<and> follows c c')) \<Longrightarrow> leaf_in env request ch'"
  by (cases ch) (auto simp: leaf_in_def follows_def dest: set_mono_prefix)

lemma effect_ok:
  assumes "dir_effect env codec s s'" "dir_ok env codec s"
  shows "dir_ok env codec s' \<and> dir_grows s s'"
  using assms
proof (induction rule: dir_effect.induct)
  case (quiet st s)
  then show ?case by (simp add: dir_ok_def dir_grows_def ms_address_of_def)
next
  case (claims profile s entropy st)
  define address where "address = mint entropy"
  have "address_parse address = Inr address" unfolding address_def by (rule mint_parses)
  moreover from claims have "map_of (ms_holders (sv_store s)) address = None" "map_of (ms_addresses (sv_store s)) profile = None"
    "st = (sv_store s)\<lparr>ms_holders := bm_insert address profile (ms_holders (sv_store s)),
       ms_addresses := bm_insert profile address (ms_addresses (sv_store s))\<rparr>"
    by (auto simp: ms_claim_def ms_address_of_def bm_contains_def address_def split: if_splits)
  moreover from this(2) claims.prems have "\<forall>a. map_of (ms_holders (sv_store s)) a \<noteq> Some profile"
    by (auto simp: dir_ok_def) (metis option.distinct(1))
  ultimately show ?case using claims.prems by (auto simp: dir_ok_def dir_grows_def ms_address_of_def bm_contains_def map_simps)
next
  case (chronicles entry devices others s r ch)
  have "\<forall>c. sv_chronicler s = Some c \<longrightarrow> cn_ok c" using chronicles.prems by (simp add: dir_ok_def)
  note g = chronicled_grows [OF chronicles.hyps this]
  have ok: "\<forall>c. ch = Some c \<longrightarrow> cn_ok c" using g by (cases "sv_chronicler s") (auto simp: follows_def)
  have "leaf_in env request ch" if "leaf_in env request (sv_chronicler s)" for request
    using g by (intro leaf_in_mono [OF that]) auto
  then have "\<forall>profile p. map_of (ms_published (sv_store s)) profile = Some p \<longrightarrow>
      (\<exists>request. authentic env codec request profile p \<and> leaf_in env request ch)"
    using chronicles.prems unfolding dir_ok_def by metis
  with chronicles.prems ok have "dir_ok env codec (s\<lparr>sv_chronicler := ch\<rparr>)" by (simp add: dir_ok_def)
  moreover have "dir_grows s (s\<lparr>sv_chronicler := ch\<rparr>)" using g by (auto simp: dir_grows_def follows_def)
  ultimately show ?case ..
next
  case (records request profile p s b st)
  then have "st = sv_store s \<or> st = (sv_store s)\<lparr>ms_published := bm_insert profile p (ms_published (sv_store s))\<rparr> \<and>
      (\<forall>held. map_of (ms_published (sv_store s)) profile = Some held \<longrightarrow> pb_epoch held \<le> pb_epoch p)"
    by (auto simp: ms_record_def split: if_splits option.splits)
  with records show ?case by (auto simp: dir_ok_def dir_grows_def ms_address_of_def bm_contains_def map_simps split: if_splits)
qed

lemma effects_ok:
  assumes "(dir_effect env codec)\<^sup>*\<^sup>* s s'" "dir_ok env codec s"
  shows "dir_ok env codec s' \<and> dir_grows s s'"
  using assms
proof (induction rule: rtranclp_induct)
  case base
  then show ?case by (simp add: dir_grows_refl)
next
  case (step t u)
  then show ?case using effect_ok [of env codec t u] dir_grows_trans by blast
qed

section \<open>Requests are their effects\<close>

lemma spend_keeps: "ms_spend nonce now st = (c, st') \<Longrightarrow>
    ms_holders st' = ms_holders st \<and> ms_addresses st' = ms_addresses st \<and> ms_published st' = ms_published st"
  by (auto simp: ms_spend_def Let_def split: option.splits if_splits)

lemma answered_keeps: "answered device nonce now st = (r, st') \<Longrightarrow>
    ms_holders st' = ms_holders st \<and> ms_addresses st' = ms_addresses st \<and> ms_published st' = ms_published st"
  using spend_keeps by (fastforce simp: answered_def split: option.splits prod.splits)

lemma ms_claim_True: "ms_claim address profile st = (True, st') \<Longrightarrow>
    ms_address_of profile st' = Some address \<and> ms_published st' = ms_published st \<and>
    ms_challenges st' = ms_challenges st \<and> ms_resolves st' = ms_resolves st"
  by (auto simp: ms_claim_def ms_address_of_def map_simps split: if_splits)

lemma ms_claim_False: "ms_claim address profile st = (False, st') \<Longrightarrow> st' = st"
  by (auto simp: ms_claim_def split: if_splits)

lemma mint_loop_claims:
  assumes "mint_loop n draws profile st = (r, st')"
  shows "(\<exists>why. r = Inl why \<and> st' = st) \<or> (\<exists>entropy. r = Inr (mint entropy) \<and> ms_claim (mint entropy) profile st = (True, st'))"
  using assms
proof (induction n draws profile st rule: mint_loop.induct)
  case (2 attempts entropy draws profile st)
  obtain b st1 where c: "ms_claim (mint entropy) profile st = (b, st1)" by fastforce
  show ?case
  proof (cases b)
    case True
    then show ?thesis using 2 c by auto
  next
    case False
    then have "st1 = st" "mint_loop attempts draws profile st = (r, st')" using 2(2) c ms_claim_False by (auto simp: Let_def)
    then show ?thesis using 2(1) [OF refl c [symmetric]] False by auto
  qed
qed auto

lemma held_or_minted_effect:
  assumes "held_or_minted draws profile st = (r, st')"
  shows "st' = st \<or> ms_address_of profile st = None \<and> (\<exists>entropy. ms_claim (mint entropy) profile st = (True, st'))"
    and "r = Inr address \<Longrightarrow> ms_address_of profile st' = Some address"
    and "ms_published st' = ms_published st"
proof -
  consider a where "r = Inr a" "st' = st" "ms_address_of profile st = Some a"
    | why where "r = Inl why" "st' = st" | e where "r = Inr (mint e)" "ms_address_of profile st = None" "ms_claim (mint e) profile st = (True, st')"
    using assms mint_loop_claims [of MINT_ATTEMPTS draws profile st r st']
    by (cases "ms_address_of profile st") (auto simp: held_or_minted_def mint_for_def)
  note cases' = this
  show "st' = st \<or> ms_address_of profile st = None \<and> (\<exists>entropy. ms_claim (mint entropy) profile st = (True, st'))"
    by (rule cases') auto
  show "r = Inr address \<Longrightarrow> ms_address_of profile st' = Some address"
    by (rule cases') (auto dest: ms_claim_True)
  show "ms_published st' = ms_published st"
    by (rule cases') (auto dest: ms_claim_True)
qed

lemma chronicled_leaf:
  assumes "chronicled env (chronicle_entry_for request) devices others ch = (Inr rc, ch')" "\<forall>c. ch = Some c \<longrightarrow> cn_ok c"
  shows "leaf_in env request ch'"
proof (cases ch)
  case None
  then show ?thesis using assms(1) by (simp add: chronicled_def leaf_in_def)
next
  case (Some c)
  let ?leaf = "leaf_hash (ke_crypto env) (chronicle_entry_for request)"
  obtain answer c' where a: "cn_append ?leaf others c = (answer, c')" by fastforce
  with assms(1) Some obtain index where "answer = Inr index" "ch' = Some c'"
    by (cases answer) (auto simp: chronicled_def cn_chronicle_entry_def Let_def split: prod.splits)
  moreover obtain between where "lands c c' between ?leaf answer" using append_lands [OF _ a] assms(2) Some by blast
  ultimately show ?thesis by (simp add: leaf_in_def lands_def)
qed

lemma quiet_service: "ms_holders st = ms_holders (sv_store s) \<and> ms_addresses st = ms_addresses (sv_store s) \<and>
    ms_published st = ms_published (sv_store s) \<Longrightarrow> (dir_effect env codec)\<^sup>*\<^sup>* s (s\<lparr>sv_store := st\<rparr>)"
  by (intro r_into_rtranclp quiet) auto

lemma service_commute: "s\<lparr>sv_chronicler := ch, sv_store := st\<rparr> = s\<lparr>sv_store := st, sv_chronicler := ch\<rparr>"
  by simp

lemma accepted_effects:
  assumes "dir_ok env codec s" "sv_accepted env request (profile, devices, epoch) draws others s = (r, s')"
    and "wire_verify env (sp_device request) (publish_preimage request) (sp_signature request) = Inr ()"
    and "accept_publish env codec request = Inr (profile, devices, epoch)"
  shows "(dir_effect env codec)\<^sup>*\<^sup>* s s'"
proof -
  let ?p = "\<lparr>pb_announcement = sp_announcement request, pb_epoch = epoch\<rparr>"
  obtain adr st where min: "held_or_minted draws profile (sv_store s) = (adr, st)" by fastforce
  obtain rc ch where chr: "chronicled env (chronicle_entry_for request) devices others (sv_chronicler s) = (rc, ch)" by fastforce
  obtain b st' where rec: "ms_record profile ?p st = (b, st')" by fastforce
  let ?minted = "s\<lparr>sv_store := st\<rparr>" and ?logged = "s\<lparr>sv_store := st, sv_chronicler := ch\<rparr>"
  have cn: "\<forall>c. sv_chronicler s = Some c \<longrightarrow> cn_ok c" using assms(1) by (simp add: dir_ok_def)
  have minted: "(dir_effect env codec)\<^sup>*\<^sup>* s ?minted"
    using held_or_minted_effect(1) [OF min] claims [of profile s _ st] by auto
  have logged: "(dir_effect env codec)\<^sup>*\<^sup>* s ?logged"
    using minted chronicles [of env "chronicle_entry_for request" devices others ?minted rc ch codec] chr
    by (simp add: rtranclp.rtrancl_into_rtrancl)
  show ?thesis
  proof (cases "isl adr \<or> isl rc")
    case True
    then have "s' = ?minted \<or> s' = ?logged" using assms(2) min chr by (cases adr; cases rc) (auto simp: sv_accepted_def)
    then show ?thesis using minted logged by auto
  next
    case False
    then obtain address receipt where eq: "adr = Inr address" "rc = Inr receipt" by (cases adr; cases rc) auto
    have s': "s' = s\<lparr>sv_store := st', sv_chronicler := ch\<rparr>" using assms(2) min chr rec eq by (simp add: sv_accepted_def)
    have "dir_effect env codec ?logged (?logged\<lparr>sv_store := st'\<rparr>)"
      using assms(3,4) rec chronicled_leaf [OF _ cn] held_or_minted_effect(2) [OF min] chr eq
      by (intro records [of env codec request profile ?p _ b]) (auto simp: authentic_def)
    then show ?thesis using logged s' by (simp add: service_commute rtranclp.rtrancl_into_rtrancl)
  qed
qed

lemma publish_effects:
  assumes "sv_publish env codec request now draws others s = (r, s')" "dir_ok env codec s"
  shows "(dir_effect env codec)\<^sup>*\<^sup>* s s'"
proof (cases "wire_verify env (sp_device request) (publish_preimage request) (sp_signature request)")
  case (Inl why)
  then show ?thesis using assms(1) by (auto simp: sv_publish_def split: if_splits)
next
  case (Inr u)
  obtain out st where an: "answered (sp_device request) (sp_nonce request) now (sv_store s) = (out, st)" by fastforce
  let ?spent = "s\<lparr>sv_store := st\<rparr>"
  have q: "(dir_effect env codec)\<^sup>*\<^sup>* s ?spent" by (rule quiet_service) (rule answered_keeps [OF an])
  have ok: "dir_ok env codec ?spent" using effects_ok [OF q assms(2)] ..
  show ?thesis
  proof (cases "MAX_PUBLISH_BYTES < length (sp_announcement request) \<or> isl out \<or> isl (accept_publish env codec request)")
    case True
    then have "s' = s \<or> s' = ?spent"
      using assms(1) Inr an by (auto simp: sv_publish_def split: if_splits sum.splits)
    then show ?thesis using q by auto
  next
    case False
    then obtain profile devices epoch where acc: "accept_publish env codec request = Inr (profile, devices, epoch)"
      by (cases "accept_publish env codec request") auto
    then have "sv_accepted env request (profile, devices, epoch) draws others ?spent = (r, s')"
      using assms(1) Inr an False by (cases out) (auto simp: sv_publish_def)
    then show ?thesis using accepted_effects [OF ok _ _ acc] Inr q by fastforce
  qed
qed

lemma resolve_effects:
  assumes "sv_resolve env request now s = (r, s')"
  shows "(dir_effect env codec)\<^sup>*\<^sup>* s s'"
proof -
  obtain out st where an: "answered (sr_device request) (sr_nonce request) now (sv_store s) = (out, st)" by fastforce
  then have "s' = s \<or> s' = s\<lparr>sv_store := st\<rparr> \<or> s' = s\<lparr>sv_store := snd (ms_note_resolve (sr_device request) now st)\<rparr>"
    using assms by (auto simp: sv_resolve_def Let_def ms_note_resolve_def split: sum.splits)
  then show ?thesis using answered_keeps [OF an]
    by (auto simp: ms_note_resolve_def Let_def intro: quiet_service)
qed

lemma step_effects:
  assumes "dir_step env codec avoid s s'" "dir_ok env codec s"
  shows "(dir_effect env codec)\<^sup>*\<^sup>* s s'"
  using assms
proof (induction rule: dir_step.induct)
  case (step_challenge drawn device now s r s')
  then have "s' = s \<or> (\<exists>c. s' = s\<lparr>sv_store := ms_open c (sv_store s)\<rparr>)"
    by (auto simp: sv_challenge_def Let_def split: sum.splits if_splits option.splits)
  then show ?case by (auto simp: ms_open_def intro: quiet_service)
next
  case (step_sweep now s n s')
  then have "s' = s\<lparr>sv_store := snd (ms_sweep now (sv_store s))\<rparr>" by (auto simp: sv_sweep_def split: prod.splits)
  then show ?case by (auto simp: ms_sweep_def Let_def intro: quiet_service)
qed (auto intro: publish_effects resolve_effects)

lemma dir_run_ok:
  assumes "(dir_step env codec avoid)\<^sup>*\<^sup>* s s'" "dir_ok env codec s"
  shows "dir_ok env codec s' \<and> dir_grows s s'"
  using assms
proof (induction rule: rtranclp_induct)
  case base
  then show ?case by (simp add: dir_grows_refl)
next
  case (step t u)
  then have "dir_ok env codec t" "dir_grows s t" by auto
  then show ?case using effects_ok [OF step_effects [OF step(2)]] dir_grows_trans by blast
qed

definition sv_new :: "chronicler option \<Rightarrow> service" where
  \<comment> \<open>\<open>Service::new\<close>, or \<open>with_chronicler\<close>\<close>
  "sv_new chronicler = \<lparr>sv_store = ms_new, sv_chronicler = chronicler\<rparr>"

lemma new_ok: "\<forall>c. chronicler = Some c \<longrightarrow> cn_ok c \<Longrightarrow> dir_ok env codec (sv_new chronicler)"
  by (simp add: dir_ok_def sv_new_def ms_new_def bm_contains_def)

section \<open>Single-use challenges\<close>

text \<open>What a request surface relies on of the book it spends challenges from.\<close>

definition pending_nonces :: "mem_store \<Rightarrow> bytes set" where
  "pending_nonces s = bm_keys (ms_challenges s)"

interpretation ms_book: single_use pending_nonces ms_spend
  by unfold_locales
    (auto simp: pending_nonces_def ms_spend_def Let_def bm_keys_get map_simps split: option.splits if_splits)

lemma answered_pending:
  assumes "answered device nonce now st = (r, st')"
  shows "pending_nonces st' = pending_nonces st - {nonce}"
    and "r = Inr u \<Longrightarrow> nonce \<in> pending_nonces st"
proof -
  obtain c where sp: "ms_spend nonce now st = (c, st')" using assms by (cases "ms_spend nonce now st") (auto simp: answered_def split: option.splits)
  show "pending_nonces st' = pending_nonces st - {nonce}" by (rule ms_book.spend_clears [OF sp])
  assume "r = Inr u"
  then obtain spent where "c = Some spent" using assms sp by (cases c) (auto simp: answered_def)
  then show "nonce \<in> pending_nonces st" using ms_book.spend_known sp by blast
qed

lemma accepted_challenges:
  "sv_accepted env request accepted draws others s = (r, s') \<Longrightarrow> ms_challenges (sv_store s') = ms_challenges (sv_store s)"
proof -
  have mint: "ms_challenges (snd (held_or_minted draws profile st)) = ms_challenges st" for profile st
    using held_or_minted_effect(1) [of draws profile st] ms_claim_True by (metis prod.collapse)
  have rec: "ms_challenges (snd (ms_record profile p st)) = ms_challenges st" for profile p st
    by (simp add: ms_record_def)
  show "sv_accepted env request accepted draws others s = (r, s') \<Longrightarrow> ms_challenges (sv_store s') = ms_challenges (sv_store s)"
    using mint rec by (auto simp: sv_accepted_def Let_def split_beta split: sum.splits prod.splits)
qed

lemma publish_pending:
  assumes "sv_publish env codec request now draws others s = (r, s')"
  shows "pending_nonces (sv_store s') \<subseteq> pending_nonces (sv_store s)"
    and "r = Inr iss \<Longrightarrow> sp_nonce request \<in> pending_nonces (sv_store s) - pending_nonces (sv_store s')"
proof -
  obtain out st where an: "answered (sp_device request) (sp_nonce request) now (sv_store s) = (out, st)" by fastforce
  note p = answered_pending [OF an]
  have c: "s' = s \<and> isl r \<or> pending_nonces (sv_store s') = pending_nonces st \<and> (isl out \<longrightarrow> isl r)"
    using assms an accepted_challenges [of env request _ draws others "s\<lparr>sv_store := st\<rparr>" r s']
    by (auto simp: sv_publish_def pending_nonces_def split: if_splits sum.splits)
  then show "pending_nonces (sv_store s') \<subseteq> pending_nonces (sv_store s)" by (auto simp: p(1))
  assume "r = Inr iss"
  with c p(1) obtain u where "out = Inr u" "pending_nonces (sv_store s') = pending_nonces (sv_store s) - {sp_nonce request}"
    by (cases out) auto
  then show "sp_nonce request \<in> pending_nonces (sv_store s) - pending_nonces (sv_store s')" using p(2) by auto
qed

lemma refusals:
  "address_parse x = Inl r \<Longrightarrow> r = MalformedAddress"
  "wire_verify env d m g = Inl r \<Longrightarrow> r = MalformedAddress \<or> r = NotAuthentic"
  "answered d n now st = (Inl r, st') \<Longrightarrow> r = StaleChallenge"
  by (auto simp: address_parse_def wire_verify_def canonical_key_def answered_def Let_def result_simps
      split: list.splits option.splits if_splits prod.splits)

lemma resolve_cases:
  assumes "sv_resolve env query now s = (r, s')"
    and "answered (sr_device query) (sr_nonce query) now (sv_store s) = (out, st)"
  obtains why where "s' = s" "r = Inl why" "why \<noteq> NotAvailable"
  | "s' = s\<lparr>sv_store := st\<rparr>" "r = Inl StaleChallenge"
  | "out = Inr ()" "s' = s\<lparr>sv_store := snd (ms_note_resolve (sr_device query) now st)\<rparr>"
proof (cases "address_parse (sr_address query)")
  case (Inl why)
  then have "s' = s" "r = Inl why" "why = MalformedAddress" using assms(1) refusals(1) [OF Inl] by (simp_all add: sv_resolve_def)
  then show thesis using that(1) by simp
next
  case (Inr address)
  show thesis
  proof (cases "wire_verify env (sr_device query) (resolve_preimage query) (sr_signature query)")
    case wv: (Inl why)
    then have "s' = s" "r = Inl why" using assms(1) Inr by (simp_all add: sv_resolve_def)
    then show thesis using that(1) refusals(2) [OF wv] by auto
  next
    case wv: (Inr u)
    show thesis
    proof (cases out)
      case (Inl why)
      then have "s' = s\<lparr>sv_store := st\<rparr>" "r = Inl why" using assms Inr wv by (simp_all add: sv_resolve_def)
      then show thesis using that(2) refusals(3) [OF assms(2) [unfolded Inl]] by simp
    next
      case out: (Inr v)
      then show thesis using assms Inr wv by (intro that(3)) (auto simp: sv_resolve_def split: prod.splits)
    qed
  qed
qed

lemma resolve_pending:
  assumes "sv_resolve env query now s = (r, s')"
  shows "pending_nonces (sv_store s') \<subseteq> pending_nonces (sv_store s)"
    and "r = Inr bytes \<or> r = Inl NotAvailable \<Longrightarrow> sr_nonce query \<in> pending_nonces (sv_store s) - pending_nonces (sv_store s')"
proof -
  obtain out st where an: "answered (sr_device query) (sr_nonce query) now (sv_store s) = (out, st)" by fastforce
  note p = answered_pending [OF an]
  have keep: "pending_nonces (snd (ms_note_resolve (sr_device query) now st)) = pending_nonces st"
    by (simp add: ms_note_resolve_def Let_def pending_nonces_def)
  show "pending_nonces (sv_store s') \<subseteq> pending_nonces (sv_store s)"
    using assms an by (cases rule: resolve_cases) (auto simp: p(1) keep)
  assume r: "r = Inr bytes \<or> r = Inl NotAvailable"
  from assms an show "sr_nonce query \<in> pending_nonces (sv_store s) - pending_nonces (sv_store s')"
    by (cases rule: resolve_cases) (use r in \<open>auto simp: p keep\<close>)
qed

lemma step_pending:
  assumes "dir_step env codec avoid s s'"
  shows "pending_nonces (sv_store s') \<inter> avoid \<subseteq> pending_nonces (sv_store s)"
  using assms
proof (induction rule: dir_step.induct)
  case (step_challenge drawn device now s r s')
  then show ?case
    by (auto simp: sv_challenge_def Let_def ms_open_def pending_nonces_def map_simps split: sum.splits if_splits option.splits)
next
  case (step_sweep now s n s')
  then show ?case by (auto simp: sv_sweep_def ms_sweep_def Let_def pending_nonces_def bm_keys_def)
next
  case (step_publish request now draws others s r' s')
  then show ?case using publish_pending(1) by fastforce
next
  case (step_resolve query now s r'' s')
  then show ?case using resolve_pending(1) by fastforce
qed

lemma steps_pending:
  "(dir_step env codec avoid)\<^sup>*\<^sup>* s s' \<Longrightarrow> pending_nonces (sv_store s') \<inter> avoid \<subseteq> pending_nonces (sv_store s)"
  by (induction rule: rtranclp_induct) (use step_pending in fastforce)+

section \<open>Publishing, then resolving\<close>

lemma canonical_seed:
  assumes "signing_ok env seed" "lower_hex (device_from_seed env seed)"
  shows "canonical_key env (device_from_seed env seed) = Inr (ke_public env seed)"
    and "wire_verify env (device_from_seed env seed) m (sign_detached env seed m) = Inr ()"
proof -
  show c: "canonical_key env (device_from_seed env seed) = Inr (ke_public env seed)"
    using assms device_parse_canonical [OF assms(2)] by (simp add: canonical_key_def signing_ok_def)
  show "wire_verify env (device_from_seed env seed) m (sign_detached env seed m) = Inr ()"
    using assms(1) c by (simp add: wire_verify_def signing_ok_def)
qed

lemma challenge_answered:
  assumes "c = \<lparr>cg_device = device, cg_nonce = nonce, cg_issued_at = now\<rparr>"
  shows "answered device nonce now (ms_open c st) = (Inr (), st\<lparr>ms_challenges := bm_remove nonce (ms_challenges st)\<rparr>)"
proof -
  have "saturating_sub now now = 0" by (simp add: saturating_sub_def)
  then have "ms_spend nonce now (ms_open c st) = (Some c, st\<lparr>ms_challenges := bm_remove nonce (ms_challenges st)\<rparr>)"
    by (simp add: ms_spend_def ms_open_def assms map_simps Let_def remove_insert CHALLENGE_TTL_def)
  then show ?thesis by (simp add: answered_def assms)
qed

lemma challenge_issued:
  assumes "signing_ok env seed" "lower_hex (device_from_seed env seed)"
    and "ms_open_for (device_from_seed env seed) now (sv_store s) < MAX_CHALLENGES_PER_DEVICE"
    and "c = \<lparr>cg_device = device_from_seed env seed, cg_nonce = nonce, cg_issued_at = now\<rparr>"
  shows "sv_challenge env (device_from_seed env seed) now (Some nonce) s = (Inr c, s\<lparr>sv_store := ms_open c (sv_store s)\<rparr>)"
  using canonical_seed(1) [OF assms(1,2)] assms(3,4) by (simp add: sv_challenge_def Let_def)

lemma chronicled_Inr:
  assumes "signing_ok env (cn_seed c)" "cn_ok c" "length (cn_store c) < 2 ^ 20" "chronicler = Some c"
  shows "\<exists>rc c'. chronicled env entry devices [] chronicler = (Inr rc, Some c') \<and> certifies env c' entry devices rc \<and>
    cn_seed c' = cn_seed c \<and> length (cn_store c') = Suc (length (cn_store c))"
proof -
  let ?leaf = "leaf_hash (ke_crypto env) entry"
  obtain index c' where a: "cn_append ?leaf [] c = (Inr index, c')"
    using append_loop_finds_slot [OF assms(2), of 1 0 "[]"] assms(3)
    by (simp add: cn_append_def raced_def MAX_APPEND_RACES_def) (metis prod.collapse)
  then have "lands c c' [] ?leaf (Inr index)"
    using append_loop_lands [OF assms(2), of ?leaf 0 "[]"] by (auto simp: cn_append_def)
  then show ?thesis
    using receipt_certifies [OF assms(1,2), where entry = entry and others = "[]" and subjects = devices] assms(4) a
    by (auto simp: chronicled_def lands_def)
qed

definition chronicled_once :: "kin_env \<Rightarrow> bytes \<Rightarrow> string list \<Rightarrow> receipt \<Rightarrow> chronicler option \<Rightarrow> chronicler option \<Rightarrow> bool" where
  \<comment> \<open>the chronicle, if one is kept, took one entry, and the receipt certifies it\<close>
  "chronicled_once env entry devices rc ch ch' \<longleftrightarrow>
     (\<forall>c. ch = Some c \<longrightarrow> (\<exists>c'. ch' = Some c' \<and> certifies env c' entry devices rc \<and>
        cn_seed c' = cn_seed c \<and> length (cn_store c') = Suc (length (cn_store c))))"

definition room_to_chronicle :: "kin_env \<Rightarrow> chronicler option \<Rightarrow> bool" where
  \<comment> \<open>no chronicle is kept, or its key signs and it has a slot left\<close>
  "room_to_chronicle env chronicler \<longleftrightarrow>
     (\<forall>c. chronicler = Some c \<longrightarrow> signing_ok env (cn_seed c) \<and> length (cn_store c) < 2 ^ 20)"

definition address_free :: "bytes option list \<Rightarrow> string \<Rightarrow> mem_store \<Rightarrow> bool" where
  \<comment> \<open>the profile holds an address, or the first draw spells one nobody holds\<close>
  "address_free draws profile st \<longleftrightarrow>
     ms_address_of profile st \<noteq> None \<or>
     (\<exists>entropy rest. draws = Some entropy # rest \<and> \<not> bm_contains (ms_holders st) (mint entropy))"

lemma address_free_minted:
  assumes "address_free draws profile st"
  obtains address st' where "held_or_minted draws profile st = (Inr address, st')" "ms_resolves st' = ms_resolves st"
proof (cases "ms_address_of profile st")
  case (Some held)
  then show thesis by (intro that [of held st]) (simp_all add: held_or_minted_def)
next
  case None
  then obtain entropy rest where d: "draws = Some entropy # rest" "\<not> bm_contains (ms_holders st) (mint entropy)"
    using assms by (auto simp: address_free_def)
  then obtain st' where "ms_claim (mint entropy) profile st = (True, st')" "ms_resolves st' = ms_resolves st"
    by (simp add: ms_claim_def)
  with None d show thesis
    by (intro that [of "mint entropy" st']) (simp_all add: held_or_minted_def mint_for_def MINT_ATTEMPTS_def numeral_eq_Suc)
qed

lemma accepted_publishes:
  assumes "dir_ok env codec s" "room_to_chronicle env (sv_chronicler s)" "address_free draws profile (sv_store s)"
    and "\<forall>held. map_of (ms_published (sv_store s)) profile = Some held \<longrightarrow> pb_epoch held \<le> epoch"
  obtains iss s' where "sv_accepted env request (profile, devices, epoch) draws [] s = (Inr iss, s')"
    "map_of (ms_published (sv_store s')) profile = Some \<lparr>pb_announcement = sp_announcement request, pb_epoch = epoch\<rparr>"
    "ms_address_of profile (sv_store s') = Some (is_address iss)"
    "ms_resolves (sv_store s') = ms_resolves (sv_store s)"
    "chronicled_once env (chronicle_entry_for request) devices (is_receipt iss) (sv_chronicler s) (sv_chronicler s')"
proof -
  let ?p = "\<lparr>pb_announcement = sp_announcement request, pb_epoch = epoch\<rparr>"
  obtain address st where min: "held_or_minted draws profile (sv_store s) = (Inr address, st)" "ms_resolves st = ms_resolves (sv_store s)"
    using address_free_minted [OF assms(3)] .
  obtain rc ch where chr: "chronicled env (chronicle_entry_for request) devices [] (sv_chronicler s) = (Inr rc, ch)"
    "chronicled_once env (chronicle_entry_for request) devices rc (sv_chronicler s) ch"
  proof (cases "sv_chronicler s")
    case None
    then show thesis by (intro that [of receipt_default None]) (simp_all add: chronicled_def chronicled_once_def)
  next
    case (Some c)
    then show thesis
      using chronicled_Inr [of env c _ "chronicle_entry_for request" devices] assms(1,2) that
      by (fastforce simp: room_to_chronicle_def dir_ok_def chronicled_once_def)
  qed
  have "ms_published st = ms_published (sv_store s)" by (rule held_or_minted_effect(3) [OF min(1)])
  then have rec: "ms_record profile ?p st = (True, st\<lparr>ms_published := bm_insert profile ?p (ms_published st)\<rparr>)"
    using assms(4) by (auto simp: ms_record_def split: option.splits)
  have "ms_address_of profile st = Some address" by (rule held_or_minted_effect(2) [OF min(1) refl])
  then show thesis using min chr rec
    by (intro that [of "\<lparr>is_address = address, is_receipt = rc\<rparr>"
          "s\<lparr>sv_store := st\<lparr>ms_published := bm_insert profile ?p (ms_published st)\<rparr>, sv_chronicler := ch\<rparr>"])
      (auto simp: sv_accepted_def map_simps ms_address_of_def)
qed

definition may_publish :: "kin_env \<Rightarrow> ann_codec \<Rightarrow> bytes \<Rightarrow> announcement \<Rightarrow> bytes \<Rightarrow> string \<Rightarrow> string list \<Rightarrow> u64 \<Rightarrow> bool" where
  \<comment> \<open>the announcement encodes to these bytes and back, stands on its own, and avows the publisher's device\<close>
  "may_publish env codec seed a encoded profile devices epoch \<longleftrightarrow>
     signing_ok env seed \<and> lower_hex (device_from_seed env seed) \<and>
     ann_encode codec a = Inr encoded \<and> ann_decode codec encoded = Inr a \<and>
     anchored env a = Inr (profile, devices, epoch) \<and> contains_device devices (device_from_seed env seed)"

definition spend_only :: "bytes \<Rightarrow> service \<Rightarrow> service" where
  \<comment> \<open>the service once the challenge of this nonce was answered\<close>
  "spend_only nonce s = s\<lparr>sv_store := (sv_store s)\<lparr>ms_challenges := bm_remove nonce (ms_challenges (sv_store s))\<rparr>\<rparr>"

lemma spend_only_ok: "dir_ok env codec s \<Longrightarrow> dir_ok env codec (spend_only nonce s)"
  using effect_ok [OF quiet, of "(sv_store s)\<lparr>ms_challenges := bm_remove nonce (ms_challenges (sv_store s))\<rparr>" s]
  by (simp add: spend_only_def)

lemma publish_as_accepted:
  assumes "may_publish env codec seed a encoded profile devices epoch"
    and "ms_open_for (device_from_seed env seed) now (sv_store s) < MAX_CHALLENGES_PER_DEVICE"
  obtains request where "sp_announcement request = encoded"
    "wire_verify env (sp_device request) (publish_preimage request) (sp_signature request) = Inr ()"
    "accept_publish env codec request = Inr (profile, devices, epoch)"
    "\<And>iss s'. sv_accepted env request (profile, devices, epoch) draws others (spend_only nonce s) = (Inr iss, s') \<Longrightarrow>
       publish_as env codec seed a now (Some nonce) draws others s =
         (Inr \<lparr>pc_issued = iss, pc_leaf = leaf_hash (ke_crypto env) (chronicle_entry_for request)\<rparr>, s')"
proof -
  let ?d = "device_from_seed env seed" and ?open = "\<lparr>cg_device = device_from_seed env seed, cg_nonce = nonce, cg_issued_at = now\<rparr>"
  define request where "request = sign_publish env seed ?open encoded"
  note pub = assms(1) [unfolded may_publish_def]
  have ch: "sv_challenge env ?d now (Some nonce) s = (Inr ?open, s\<lparr>sv_store := ms_open ?open (sv_store s)\<rparr>)"
    using challenge_issued [OF _ _ assms(2) refl] pub by simp
  have rq: "sp_device request = ?d" "sp_nonce request = nonce" "sp_announcement request = encoded"
    "wire_verify env (sp_device request) (publish_preimage request) (sp_signature request) = Inr ()"
    using canonical_seed(2) [of env seed] pub by (simp_all add: request_def sign_publish_def publish_preimage_def Let_def)
  have acc: "accept_publish env codec request = Inr (profile, devices, epoch)"
    using pub by (simp add: accept_publish_def rq(1,3))
  have len: "\<not> MAX_PUBLISH_BYTES < length encoded"
    using pub by (auto simp: ann_encode_def MAX_PUBLISH_BYTES_def MAX_ANNOUNCEMENT_BYTES_def split: option.splits if_splits)
  show thesis
  proof (rule that [OF rq(3,4) acc])
    fix iss s'
    assume "sv_accepted env request (profile, devices, epoch) draws others (spend_only nonce s) = (Inr iss, s')"
    then have "sv_publish env codec request now draws others (s\<lparr>sv_store := ms_open ?open (sv_store s)\<rparr>) = (Inr iss, s')"
      using len rq acc challenge_answered [OF refl, of ?d nonce now "sv_store s"] by (simp add: sv_publish_def spend_only_def)
    then show "publish_as env codec seed a now (Some nonce) draws others s =
         (Inr \<lparr>pc_issued = iss, pc_leaf = leaf_hash (ke_crypto env) (chronicle_entry_for request)\<rparr>, s')"
      using ch pub by (simp add: publish_as_def Let_def request_def)
  qed
qed

lemma publish_as_works:
  assumes "may_publish env codec seed a encoded profile devices epoch"
    and "dir_ok env codec s" "room_to_chronicle env (sv_chronicler s)" "address_free draws profile (sv_store s)"
    and "\<forall>held. map_of (ms_published (sv_store s)) profile = Some held \<longrightarrow> pb_epoch held \<le> epoch"
    and "ms_open_for (device_from_seed env seed) now (sv_store s) < MAX_CHALLENGES_PER_DEVICE"
  obtains pc s' where "publish_as env codec seed a now (Some nonce) draws [] s = (Inr pc, s')"
    "map_of (ms_published (sv_store s')) profile = Some \<lparr>pb_announcement = encoded, pb_epoch = epoch\<rparr>"
    "ms_address_of profile (sv_store s') = Some (is_address (pc_issued pc))"
    "ms_challenges (sv_store s') = bm_remove nonce (ms_challenges (sv_store s))"
    "ms_resolves (sv_store s') = ms_resolves (sv_store s)" "dir_ok env codec s'"
    "\<exists>entry. chronicled_once env entry devices (is_receipt (pc_issued pc)) (sv_chronicler s) (sv_chronicler s')"
proof -
  obtain request where rq: "sp_announcement request = encoded"
    "wire_verify env (sp_device request) (publish_preimage request) (sp_signature request) = Inr ()"
    "accept_publish env codec request = Inr (profile, devices, epoch)"
    "\<And>iss s'. sv_accepted env request (profile, devices, epoch) draws [] (spend_only nonce s) = (Inr iss, s') \<Longrightarrow>
       publish_as env codec seed a now (Some nonce) draws [] s =
         (Inr \<lparr>pc_issued = iss, pc_leaf = leaf_hash (ke_crypto env) (chronicle_entry_for request)\<rparr>, s')"
    by (rule publish_as_accepted [OF assms(1,6), where draws = draws and others = "[]" and nonce = nonce]) blast
  note ok = spend_only_ok [OF assms(2), of nonce]
  obtain iss s' where out: "sv_accepted env request (profile, devices, epoch) draws [] (spend_only nonce s) = (Inr iss, s')"
    "map_of (ms_published (sv_store s')) profile = Some \<lparr>pb_announcement = sp_announcement request, pb_epoch = epoch\<rparr>"
    "ms_address_of profile (sv_store s') = Some (is_address iss)" "ms_resolves (sv_store s') = ms_resolves (sv_store s)"
    "chronicled_once env (chronicle_entry_for request) devices (is_receipt iss) (sv_chronicler s) (sv_chronicler s')"
    by (rule accepted_publishes [OF ok, of draws profile epoch request devices])
      (use assms(3-5) in \<open>simp_all add: spend_only_def address_free_def ms_address_of_def\<close>)
  have "dir_ok env codec s'" using effects_ok [OF accepted_effects [OF ok out(1) rq(2,3)] ok] ..
  moreover have "ms_challenges (sv_store s') = bm_remove nonce (ms_challenges (sv_store s))"
    using accepted_challenges [OF out(1)] by (simp add: spend_only_def)
  ultimately show thesis using rq(4) [OF out(1)] out rq(1) by (intro that) (auto intro!: exI)
qed

lemma resolve_as_works:
  assumes "signing_ok env seed" "lower_hex (device_from_seed env seed)" "dir_ok env codec s"
    and "ms_address_of profile (sv_store s) = Some address" "map_of (ms_published (sv_store s)) profile = Some p"
    and "ann_decode codec (pb_announcement p) = Inr a"
    and "ms_open_for (device_from_seed env seed) now (sv_store s) < MAX_CHALLENGES_PER_DEVICE"
    and "length (recent now (case map_of (ms_resolves (sv_store s)) (device_from_seed env seed) of Some seen \<Rightarrow> seen | None \<Rightarrow> []))
      < MAX_RESOLVES_PER_WINDOW"
  obtains s' where "resolve_as env codec seed address now (Some nonce) s = (Inr a, s')"
proof -
  let ?d = "device_from_seed env seed" and ?open = "\<lparr>cg_device = device_from_seed env seed, cg_nonce = nonce, cg_issued_at = now\<rparr>"
  define s1 where "s1 = s\<lparr>sv_store := ms_open ?open (sv_store s)\<rparr>"
  define query where "query = sign_resolve env seed ?open address"
  have ch: "sv_challenge env ?d now (Some nonce) s = (Inr ?open, s1)"
    using challenge_issued [OF assms(1,2,7) refl] by (simp add: s1_def)
  have q: "sr_device query = ?d" "sr_nonce query = nonce" "sr_address query = address"
    "wire_verify env (sr_device query) (resolve_preimage query) (sr_signature query) = Inr ()"
    using canonical_seed(2) [OF assms(1,2)] by (simp_all add: query_def sign_resolve_def resolve_preimage_def Let_def)
  have holder: "map_of (ms_holders (sv_store s)) address = Some profile"
    using assms(3,4) by (simp add: dir_ok_def ms_address_of_def)
  then have parse: "address_parse address = Inr address" using assms(3) by (simp add: dir_ok_def bm_contains_def)
  have "\<exists>s'. sv_resolve env query now s1 = (Inr (pb_announcement p), s')"
    using q parse holder assms(5,8) challenge_answered [OF refl, of ?d nonce now "sv_store s"]
    by (simp add: sv_resolve_def s1_def ms_note_resolve_def Let_def ms_published_at_def)
  then show thesis using that ch assms(6) by (auto simp: resolve_as_def query_def)
qed

lemma removed_open_for:
  "ms_challenges st' = bm_remove nonce (ms_challenges st) \<Longrightarrow> ms_open_for device now st' \<le> ms_open_for device now st"
proof -
  have "length (filter P (map snd (filter Q m))) \<le> length (filter P (map snd m))" for P Q and m :: "(bytes \<times> challenge) list"
    by (induction m) auto
  then show "ms_challenges st' = bm_remove nonce (ms_challenges st) \<Longrightarrow> ms_open_for device now st' \<le> ms_open_for device now st"
    by (simp add: ms_open_for_def bm_remove_def)
qed

lemma resolve_Inr:
  assumes "sv_resolve env query now s = (Inr bytes, s')"
  obtains address p where "address_parse (sr_address query) = Inr address"
    "ms_published_at address (sv_store s) = Some p" "pb_announcement p = bytes"
proof -
  obtain out st where an: "answered (sr_device query) (sr_nonce query) now (sv_store s) = (out, st)" by fastforce
  obtain address where ad: "address_parse (sr_address query) = Inr address"
    using assms by (cases "address_parse (sr_address query)") (auto simp: sv_resolve_def)
  obtain u where wv: "wire_verify env (sr_device query) (resolve_preimage query) (sr_signature query) = Inr u"
    using assms ad by (cases "wire_verify env (sr_device query) (resolve_preimage query) (sr_signature query)") (auto simp: sv_resolve_def)
  obtain v where out: "out = Inr v" using assms an ad wv by (cases out) (auto simp: sv_resolve_def)
  obtain p where "ms_published_at address (snd (ms_note_resolve (sr_device query) now st)) = Some p" "pb_announcement p = bytes"
    using assms an ad wv out by (simp add: sv_resolve_def split: prod.splits if_splits option.splits)
  moreover from this(1) have "ms_published_at address (sv_store s) = Some p"
    using answered_keeps [OF an] by (simp add: ms_published_at_def ms_note_resolve_def Let_def split: option.splits)
  ultimately show thesis using that ad by blast
qed

section \<open>Properties\<close>

text \<open>C16: the directory cannot author. In every state a deployment can reach, whatever a lookup answers
  with was published by a request signed by a device that the announcement itself avows for the profile
  holding that address, the announcement being anchored to the profile's own genesis; and when a
  chronicle is kept, the leaf of that very request is in it.\<close>

theorem resolution_is_authentic:
  assumes "(dir_step env codec {})\<^sup>*\<^sup>* (sv_new chronicler) s" "\<forall>c. chronicler = Some c \<longrightarrow> cn_ok c"
    and "sv_resolve env query now s = (Inr bytes, s')"
  shows "\<exists>address profile devices epoch request.
    address_parse (sr_address query) = Inr address \<and> map_of (ms_holders (sv_store s)) address = Some profile \<and>
    sp_announcement request = bytes \<and>
    wire_verify env (sp_device request) (publish_preimage request) (sp_signature request) = Inr () \<and>
    accept_publish env codec request = Inr (profile, devices, epoch) \<and> leaf_in env request (sv_chronicler s)"
proof -
  have ok: "dir_ok env codec s" using dir_run_ok [OF assms(1) new_ok [OF assms(2)]] ..
  obtain address p where ad: "address_parse (sr_address query) = Inr address"
    and p: "ms_published_at address (sv_store s) = Some p" "pb_announcement p = bytes" using resolve_Inr [OF assms(3)] .
  from p(1) obtain profile where h: "map_of (ms_holders (sv_store s)) address = Some profile" "map_of (ms_published (sv_store s)) profile = Some p"
    by (auto simp: ms_published_at_def split: option.splits)
  then obtain request where "authentic env codec request profile p" "leaf_in env request (sv_chronicler s)"
    using ok unfolding dir_ok_def by blast
  then show ?thesis using h ad p(2) unfolding authentic_def by metis
qed

text \<open>An address is stable and exclusive, and a published set never rolls back. Once a profile holds an
  address it keeps that one through every later request, no two profiles ever hold the same, and the head
  epoch of what is published for a profile never decreases.\<close>

theorem addresses_stable:
  assumes "(dir_step env codec {})\<^sup>*\<^sup>* (sv_new chronicler) s" "\<forall>c. chronicler = Some c \<longrightarrow> cn_ok c"
    and "(dir_step env codec {})\<^sup>*\<^sup>* s s'" "ms_address_of profile (sv_store s) = Some address"
  shows "ms_address_of profile (sv_store s') = Some address \<and>
    (\<forall>other. ms_address_of other (sv_store s') = Some address \<longrightarrow> other = profile) \<and>
    (\<forall>p. map_of (ms_published (sv_store s)) profile = Some p \<longrightarrow>
       (\<exists>p'. map_of (ms_published (sv_store s')) profile = Some p' \<and> pb_epoch p \<le> pb_epoch p'))"
proof -
  have ok: "dir_ok env codec s" using dir_run_ok [OF assms(1) new_ok [OF assms(2)]] ..
  have s': "dir_ok env codec s'" "dir_grows s s'" using dir_run_ok [OF assms(3) ok] by auto
  have "ms_address_of profile (sv_store s') = Some address" using s'(2) assms(4) by (simp add: dir_grows_def)
  moreover have "other = profile" if "ms_address_of other (sv_store s') = Some address" for other
    using that calculation s'(1) unfolding dir_ok_def ms_address_of_def by (metis option.inject)
  ultimately show ?thesis using s'(2) unfolding dir_grows_def by blast
qed

text \<open>A challenge is answered at most once. After a publication was accepted under a nonce, no request
  with that nonce, publication or lookup, by anyone, is accepted again, whatever requests come between,
  as long as the service does not draw the same nonce again; a lookup that found nothing spends its
  nonce in the same way.\<close>

theorem challenge_answered_once:
  assumes "sv_publish env codec request now draws others s = (Inr issued, s1) \<and> nonce = sp_nonce request \<or>
      sv_resolve env query now s = (Inr bytes, s1) \<and> nonce = sr_nonce query \<or>
      sv_resolve env query now s = (Inl NotAvailable, s1) \<and> nonce = sr_nonce query"
    and "(dir_step env codec {nonce})\<^sup>*\<^sup>* s1 s2"
  shows "(sp_nonce request' = nonce \<longrightarrow> isl (fst (sv_publish env codec request' now' draws' others' s2))) \<and>
    (sr_nonce query' = nonce \<longrightarrow> isl (fst (sv_resolve env query' now' s2)))"
proof -
  have "nonce \<notin> pending_nonces (sv_store s1)"
    using assms(1) publish_pending(2) resolve_pending(2) by blast
  then have "nonce \<notin> pending_nonces (sv_store s2)" using steps_pending [OF assms(2)] by blast
  moreover have "sp_nonce request' \<in> pending_nonces (sv_store s2)" if "\<not> isl (fst (sv_publish env codec request' now' draws' others' s2))"
    using that publish_pending(2) by (metis DiffD1 prod.collapse sum.collapse(2))
  moreover have "sr_nonce query' \<in> pending_nonces (sv_store s2)" if "\<not> isl (fst (sv_resolve env query' now' s2))"
    using that resolve_pending(2) by (metis DiffD1 prod.collapse sum.collapse(2))
  ultimately show ?thesis by auto
qed

text \<open>Publish, then resolve. An owner whose announcement stands on its own publishes it in one call
  and is given an address; whoever then asks for that address, with challenges and lookups to spare, gets
  exactly that announcement back. Nothing but room is asked of the service: a free first draw or an
  address already held, a chronicle slot if one is kept, and no newer publication of the same profile.\<close>

theorem publish_then_resolve:
  assumes "(dir_step env codec {})\<^sup>*\<^sup>* (sv_new chronicler) s" "\<forall>c. chronicler = Some c \<longrightarrow> cn_ok c"
    and "may_publish env codec seed a encoded profile devices epoch"
    and "room_to_chronicle env (sv_chronicler s)" "address_free draws profile (sv_store s)"
    and "\<forall>held. map_of (ms_published (sv_store s)) profile = Some held \<longrightarrow> pb_epoch held \<le> epoch"
    and "ms_open_for (device_from_seed env seed) now (sv_store s) < MAX_CHALLENGES_PER_DEVICE"
    and "signing_ok env asker" "lower_hex (device_from_seed env asker)"
    and "ms_open_for (device_from_seed env asker) now (sv_store s) < MAX_CHALLENGES_PER_DEVICE"
    and "length (recent now (case map_of (ms_resolves (sv_store s)) (device_from_seed env asker) of Some seen \<Rightarrow> seen | None \<Rightarrow> []))
      < MAX_RESOLVES_PER_WINDOW"
  shows "\<exists>pc s1 s2. publish_as env codec seed a now (Some nonce) draws [] s = (Inr pc, s1) \<and>
    resolve_as env codec asker (is_address (pc_issued pc)) now (Some nonce') s1 = (Inr a, s2)"
proof -
  have ok: "dir_ok env codec s" using dir_run_ok [OF assms(1) new_ok [OF assms(2)]] ..
  obtain pc s1 where p: "publish_as env codec seed a now (Some nonce) draws [] s = (Inr pc, s1)"
    "map_of (ms_published (sv_store s1)) profile = Some \<lparr>pb_announcement = encoded, pb_epoch = epoch\<rparr>"
    "ms_address_of profile (sv_store s1) = Some (is_address (pc_issued pc))"
    "ms_challenges (sv_store s1) = bm_remove nonce (ms_challenges (sv_store s))"
    "ms_resolves (sv_store s1) = ms_resolves (sv_store s)" "dir_ok env codec s1"
    using publish_as_works [OF assms(3) ok assms(4-7)] .
  have dec: "ann_decode codec (pb_announcement \<lparr>pb_announcement = encoded, pb_epoch = epoch\<rparr>) = Inr a"
    using assms(3) by (simp add: may_publish_def)
  have opn: "ms_open_for (device_from_seed env asker) now (sv_store s1) < MAX_CHALLENGES_PER_DEVICE"
    using removed_open_for [OF p(4), of "device_from_seed env asker" now] assms(10) by simp
  obtain s2 where "resolve_as env codec asker (is_address (pc_issued pc)) now (Some nonce') s1 = (Inr a, s2)"
    using resolve_as_works [OF assms(8,9) p(6,3,2) dec opn, unfolded p(5), OF assms(11)] .
  with p(1) show ?thesis by blast
qed

text \<open>C17: an outdated publication is certified all the same. Publishing an announcement older than the one
  published for its profile does not replace it, but it is answered as accepted: it is appended to the
  chronicle and its receipt carries fresh marks for every device of the outdated set.\<close>

theorem outdated_publication_is_certified:
  assumes "(dir_step env codec {})\<^sup>*\<^sup>* (sv_new chronicler) s" "\<forall>c. chronicler = Some c \<longrightarrow> cn_ok c"
    and "may_publish env codec seed a encoded profile devices epoch"
    and "ms_open_for (device_from_seed env seed) now (sv_store s) < MAX_CHALLENGES_PER_DEVICE"
    and "sv_chronicler s = Some c" "signing_ok env (cn_seed c)" "length (cn_store c) < 2 ^ 20"
    and "map_of (ms_published (sv_store s)) profile = Some held" "epoch < pb_epoch held"
  shows "\<exists>pc s' c' request. publish_as env codec seed a now (Some nonce) draws [] s = (Inr pc, s') \<and>
    map_of (ms_published (sv_store s')) profile = Some held \<and> sv_chronicler s' = Some c' \<and>
    sp_announcement request = encoded \<and> certifies env c' (chronicle_entry_for request) devices (is_receipt (pc_issued pc))"
proof -
  have ok: "dir_ok env codec s" using dir_run_ok [OF assms(1) new_ok [OF assms(2)]] ..
  then obtain address where adr: "ms_address_of profile (sv_store s) = Some address"
    using assms(8) by (auto simp: dir_ok_def bm_contains_def ms_address_of_def)
  obtain request where rq: "sp_announcement request = encoded"
    "\<And>iss s'. sv_accepted env request (profile, devices, epoch) draws [] (spend_only nonce s) = (Inr iss, s') \<Longrightarrow>
       publish_as env codec seed a now (Some nonce) draws [] s =
         (Inr \<lparr>pc_issued = iss, pc_leaf = leaf_hash (ke_crypto env) (chronicle_entry_for request)\<rparr>, s')"
    by (rule publish_as_accepted [OF assms(3,4), where draws = draws and others = "[]" and nonce = nonce]) blast
  have "cn_ok c" using ok assms(5) by (simp add: dir_ok_def)
  then obtain rc c' where chr: "chronicled env (chronicle_entry_for request) devices [] (sv_chronicler s) = (Inr rc, Some c')"
    "certifies env c' (chronicle_entry_for request) devices rc"
    using chronicled_Inr [OF assms(6) _ assms(7,5)] by blast
  have "sv_accepted env request (profile, devices, epoch) draws [] (spend_only nonce s) =
      (Inr \<lparr>is_address = address, is_receipt = rc\<rparr>, (spend_only nonce s)\<lparr>sv_chronicler := Some c'\<rparr>)"
    using chr(1) adr assms(8,9) by (simp add: sv_accepted_def spend_only_def held_or_minted_def ms_address_of_def ms_record_def)
  from rq(2) [OF this] show ?thesis using chr(2) rq(1) assms(8) by (auto simp: spend_only_def)
qed

section \<open>Witnesses\<close>

lemma publish_as_steps:
  assumes "publish_as env codec seed a now drawn draws others s = (r, s')" "drawn \<notin> Some ` avoid"
  shows "(dir_step env codec avoid)\<^sup>*\<^sup>* s s'"
proof -
  obtain c s1 where ch: "sv_challenge env (device_from_seed env seed) now drawn s = (c, s1)" by fastforce
  have one: "dir_step env codec avoid s s1" by (rule step_challenge [OF assms(2) ch])
  have "s' = s1 \<or> (\<exists>request x. sv_publish env codec request now draws others s1 = (x, s'))"
    using assms(1) ch by (auto simp: publish_as_def Let_def split: sum.splits prod.splits)
  then show ?thesis using one by (metis r_into_rtranclp rtranclp.rtrancl_into_rtrancl step_publish)
qed

lemma resolve_as_query:
  assumes "resolve_as env codec seed address now drawn s = (Inr a, s')" "drawn \<notin> Some ` avoid"
  obtains s1 query bytes where "(dir_step env codec avoid)\<^sup>*\<^sup>* s s1" "sv_resolve env query now s1 = (Inr bytes, s')"
    "ann_decode codec bytes = Inr a"
proof -
  obtain c s1 where ch: "sv_challenge env (device_from_seed env seed) now drawn s = (Inr c, s1)"
    using assms(1) by (cases "sv_challenge env (device_from_seed env seed) now drawn s") (auto simp: resolve_as_def split: sum.splits)
  obtain out s2 where q: "sv_resolve env (sign_resolve env seed c address) now s1 = (out, s2)" by fastforce
  then obtain bytes where "out = Inr bytes" "s2 = s'" "ann_decode codec bytes = Inr a"
    using assms(1) ch by (cases out; cases "ann_decode codec (projr out)") (auto simp: resolve_as_def)
  then show thesis using that q step_challenge [OF assms(2) ch] by blast
qed

lemma demo_announced:
  obtains a devices where "anchored demo_kin a = Inr (demo_profile, devices, e)" "an_version a = ANNOUNCEMENT_VERSION"
    "contains_device devices (device_from_seed demo_kin (demo_seed (CHR ''1'')))"
proof -
  obtain alice' p bob devices where
    "demo_avowed = (Inr (length (log_devices demo_founded)), alice')"
    and pr: "reg_project demo_kin demo_profile (demo_seed (CHR ''1'')) e demo_reader alice' = Inr p"
    and b: "absorb demo_kin p demo_genesis_link demo_reader reg_new = Inr (bob, demo_profile)"
      "reg_resolve bob demo_profile = Some devices" "device_keys devices = device_keys (log_devices demo_founded)"
    using handshake_works [OF demo_signing demo_signer(3) demo_alice_runs demo_alice_held demo_room(1)
        demo_alice_founded(1) demo_room(2) demo_signer(1) _ demo_room(3), of 5 Public demo_reader reg_new "replicate 16 (CHR ''n'')" e]
    by (auto simp: demo_signer(2) reg_new_def)
  obtain head where "pj_head p = Some head" "kh_epoch head = e"
    using pr by (auto simp: reg_project_def log_project_def log_head_def Let_def result_simps
        split: option.splits holding.splits)
  moreover have "demo_reader = standing_default" by (simp add: demo_reader_def standing_default_def)
  moreover have c: "contains_device devices (device_from_seed demo_kin (demo_seed (CHR ''1'')))"
    using b(3) by (simp add: contains_device_iff demo_signer(2) device_keys_def) code_simp
  moreover from c have "devices \<noteq> []" by (auto simp: contains_device_iff device_keys_def)
  ultimately show thesis
    using b by (intro that [of "announcement_new demo_profile demo_genesis_link p" devices])
      (simp_all add: anchored_def announcement_new_def)
qed

definition demo_codec :: "announcement \<Rightarrow> announcement \<Rightarrow> ann_codec" where
  \<comment> \<open>a codec for two announcements\<close>
  "demo_codec a b = \<lparr>ac_encode = (\<lambda>x. if x = a then Some ''a'' else Some ''b''), ac_decode = (\<lambda>x. Some (if x = ''a'' then a else b))\<rparr>"

definition demo_deployed :: service where
  "demo_deployed = sv_new (Some \<lparr>cn_chronicle = chron_new, cn_store = [], cn_seed = demo_seed (CHR ''3'')\<rparr>)"

lemma demo_deployed_ok:
  "\<forall>c. sv_chronicler demo_deployed = Some c \<longrightarrow> cn_ok c" "room_to_chronicle demo_kin (sv_chronicler demo_deployed)"
  "sv_store demo_deployed = ms_new" "demo_deployed = sv_new (sv_chronicler demo_deployed)"
  by (simp_all add: demo_deployed_def sv_new_def cn_ok_def chron_new_def room_to_chronicle_def demo_signing)

lemma demo_may_publish:
  assumes "anchored demo_kin a = Inr (demo_profile, devices, e)" "an_version a = ANNOUNCEMENT_VERSION"
    and "contains_device devices (device_from_seed demo_kin (demo_seed (CHR ''1'')))"
    and "x = a \<and> encoded = ''a'' \<or> y = a \<and> x \<noteq> a \<and> encoded = ''b''"
  shows "may_publish demo_kin (demo_codec x y) (demo_seed (CHR ''1'')) a encoded demo_profile devices e"
  using assms demo_canonical [of "CHR ''1''"]
  by (auto simp: may_publish_def demo_signing demo_codec_def ann_encode_def ann_decode_def MAX_ANNOUNCEMENT_BYTES_def)

lemma fresh_open_for: "ms_open_for d now ms_new < MAX_CHALLENGES_PER_DEVICE"
  by (simp add: ms_open_for_def ms_new_def MAX_CHALLENGES_PER_DEVICE_def)

lemma fresh_address: "address_free [Some ''seed''] profile ms_new"
  by (simp add: address_free_def ms_new_def bm_contains_def)

lemma demo_first_publication:
  assumes "anchored demo_kin a = Inr (demo_profile, devices, e)" "an_version a = ANNOUNCEMENT_VERSION"
    and "contains_device devices (device_from_seed demo_kin (demo_seed (CHR ''1'')))"
  obtains pc s where "publish_as demo_kin (demo_codec a b) (demo_seed (CHR ''1'')) a 7 (Some ''n'') [Some ''seed''] [] demo_deployed = (Inr pc, s)"
    "(dir_step demo_kin (demo_codec a b) {})\<^sup>*\<^sup>* (sv_new (sv_chronicler demo_deployed)) s"
    "map_of (ms_published (sv_store s)) demo_profile = Some \<lparr>pb_announcement = ''a'', pb_epoch = e\<rparr>"
    "ms_address_of demo_profile (sv_store s) = Some (is_address (pc_issued pc))"
    "ms_challenges (sv_store s) = []" "ms_resolves (sv_store s) = []" "dir_ok demo_kin (demo_codec a b) s"
    "\<exists>entry. chronicled_once demo_kin entry devices (is_receipt (pc_issued pc)) (sv_chronicler demo_deployed) (sv_chronicler s)"
proof (rule publish_as_works [OF demo_may_publish [OF assms, of a "''a''" b] _ demo_deployed_ok(2), where draws = "[Some ''seed'']" and now = 7 and nonce = "''n''"])
  show "dir_ok demo_kin (demo_codec a b) demo_deployed"
    using new_ok [OF demo_deployed_ok(1)] demo_deployed_ok(4) by simp
next
  fix pc s
  assume *: "publish_as demo_kin (demo_codec a b) (demo_seed (CHR ''1'')) a 7 (Some ''n'') [Some ''seed''] [] demo_deployed = (Inr pc, s)"
    "map_of (ms_published (sv_store s)) demo_profile = Some \<lparr>pb_announcement = ''a'', pb_epoch = e\<rparr>"
    "ms_address_of demo_profile (sv_store s) = Some (is_address (pc_issued pc))"
    "ms_challenges (sv_store s) = bm_remove ''n'' (ms_challenges (sv_store demo_deployed))"
    "ms_resolves (sv_store s) = ms_resolves (sv_store demo_deployed)" "dir_ok demo_kin (demo_codec a b) s"
    "\<exists>entry. chronicled_once demo_kin entry devices (is_receipt (pc_issued pc)) (sv_chronicler demo_deployed) (sv_chronicler s)"
  have "(dir_step demo_kin (demo_codec a b) {})\<^sup>*\<^sup>* (sv_new (sv_chronicler demo_deployed)) s"
    using publish_as_steps [OF *(1), of "{}"] demo_deployed_ok(4) by simp
  then show thesis using * by (intro that) (simp_all add: demo_deployed_ok(3) ms_new_def bm_remove_def)
qed (simp_all add: demo_deployed_ok(3) fresh_open_for fresh_address, simp add: ms_new_def)

theorem publish_then_resolve_witness:
  "\<exists>codec a pc s1 s2. publish_as demo_kin codec (demo_seed (CHR ''1'')) a 7 (Some ''n'') [Some ''seed''] [] demo_deployed = (Inr pc, s1) \<and>
     resolve_as demo_kin codec (demo_seed (CHR ''2'')) (is_address (pc_issued pc)) 7 (Some ''m'') s1 = (Inr a, s2)"
proof -
  obtain a devices where an: "anchored demo_kin a = Inr (demo_profile, devices, 5)" "an_version a = ANNOUNCEMENT_VERSION"
    "contains_device devices (device_from_seed demo_kin (demo_seed (CHR ''1'')))" by (rule demo_announced)
  have "\<exists>pc s1 s2. publish_as demo_kin (demo_codec a a) (demo_seed (CHR ''1'')) a 7 (Some ''n'') [Some ''seed''] [] demo_deployed = (Inr pc, s1) \<and>
     resolve_as demo_kin (demo_codec a a) (demo_seed (CHR ''2'')) (is_address (pc_issued pc)) 7 (Some ''m'') s1 = (Inr a, s2)"
    by (rule publish_then_resolve [OF _ demo_deployed_ok(1) demo_may_publish [OF an, of a "''a''" a] demo_deployed_ok(2)])
      (simp_all add: demo_deployed_ok(3) demo_deployed_ok(4) [symmetric] fresh_open_for fresh_address demo_signing demo_canonical,
        simp_all add: ms_new_def recent_def MAX_RESOLVES_PER_WINDOW_def)
  then show ?thesis by blast
qed

lemma demo_lookup:
  obtains codec s query bytes s' address where
    "(dir_step demo_kin codec {})\<^sup>*\<^sup>* (sv_new (sv_chronicler demo_deployed)) s"
    "sv_resolve demo_kin query 7 s = (Inr bytes, s')" "ms_address_of demo_profile (sv_store s) = Some address"
proof -
  obtain a devices where an: "anchored demo_kin a = Inr (demo_profile, devices, 5)" "an_version a = ANNOUNCEMENT_VERSION"
    "contains_device devices (device_from_seed demo_kin (demo_seed (CHR ''1'')))" by (rule demo_announced)
  obtain pc :: publication and s where p: "(dir_step demo_kin (demo_codec a a) {})\<^sup>*\<^sup>* (sv_new (sv_chronicler demo_deployed)) s"
    "map_of (ms_published (sv_store s)) demo_profile = Some \<lparr>pb_announcement = ''a'', pb_epoch = 5\<rparr>"
    "ms_address_of demo_profile (sv_store s) = Some (is_address (pc_issued pc))"
    "ms_challenges (sv_store s) = []" "ms_resolves (sv_store s) = []" "dir_ok demo_kin (demo_codec a a) s"
    by (rule demo_first_publication [OF an, of a]) blast
  obtain s' where "resolve_as demo_kin (demo_codec a a) (demo_seed (CHR ''2'')) (is_address (pc_issued pc)) 7 (Some ''m'') s = (Inr a, s')"
    by (rule resolve_as_works [OF demo_signing demo_canonical [of "CHR ''2''"] p(6,3,2)])
      (use an(2) p(4,5) in \<open>auto simp: demo_codec_def ann_decode_def MAX_ANNOUNCEMENT_BYTES_def ms_open_for_def
         MAX_CHALLENGES_PER_DEVICE_def recent_def MAX_RESOLVES_PER_WINDOW_def\<close>)
  then obtain s1 query bytes where q: "(dir_step demo_kin (demo_codec a a) {})\<^sup>*\<^sup>* s s1" "sv_resolve demo_kin query 7 s1 = (Inr bytes, s')"
    by (rule resolve_as_query [where avoid = "{}"]) auto
  have "ms_address_of demo_profile (sv_store s1) = Some (is_address (pc_issued pc))"
    using dir_run_ok [OF q(1) p(6)] p(3) by (simp add: dir_grows_def)
  with p(1) q show thesis by (meson that rtranclp_trans)
qed

theorem resolution_is_authentic_witness:
  "\<exists>codec query s s' bytes request. sv_resolve demo_kin query 7 s = (Inr bytes, s') \<and> sp_announcement request = bytes \<and>
     leaf_in demo_kin request (sv_chronicler s) \<and>
     wire_verify demo_kin (sp_device request) (publish_preimage request) (sp_signature request) = Inr () \<and>
     (\<exists>accepted. accept_publish demo_kin codec request = Inr accepted)"
proof -
  obtain codec s query bytes s' where l: "(dir_step demo_kin codec {})\<^sup>*\<^sup>* (sv_new (sv_chronicler demo_deployed)) s"
    "sv_resolve demo_kin query 7 s = (Inr bytes, s')" by (rule demo_lookup) blast
  from resolution_is_authentic [OF l(1) demo_deployed_ok(1) l(2)] l(2) show ?thesis by blast
qed

theorem addresses_stable_witness:
  "\<exists>codec s (s' :: service) address. (dir_step demo_kin codec {})\<^sup>*\<^sup>* (sv_new (sv_chronicler demo_deployed)) s \<and>
     ms_address_of demo_profile (sv_store s) = Some address \<and> ms_address_of demo_profile (sv_store s') = Some address"
proof -
  obtain codec s query bytes s' address where l: "(dir_step demo_kin codec {})\<^sup>*\<^sup>* (sv_new (sv_chronicler demo_deployed)) s"
    "sv_resolve demo_kin query 7 s = (Inr bytes, s')" "ms_address_of demo_profile (sv_store s) = Some address" by (rule demo_lookup)
  have "(dir_step demo_kin codec {})\<^sup>*\<^sup>* s s'" using step_resolve [OF l(2)] by (rule r_into_rtranclp)
  from addresses_stable [OF l(1) demo_deployed_ok(1) this l(3)] l show ?thesis by blast
qed

theorem challenge_answered_once_witness:
  "\<exists>query s s' bytes. sv_resolve demo_kin query 7 s = (Inr bytes, s') \<and> isl (fst (sv_resolve demo_kin query 7 s'))"
proof -
  obtain codec s query bytes s' where l: "sv_resolve demo_kin query 7 s = (Inr bytes, s')"
    by (rule demo_lookup) blast
  have "isl (fst (sv_resolve demo_kin query 7 s'))"
    using challenge_answered_once [where nonce = "sr_nonce query" and query = query and query' = query and env = demo_kin
        and now = 7 and now' = 7 and s = s and ?s1.0 = s' and ?s2.0 = s' and bytes = bytes] l by blast
  with l show ?thesis by blast
qed

theorem outdated_publication_is_certified_witness:
  "\<exists>codec a s pc s' c' request devices held. publish_as demo_kin codec (demo_seed (CHR ''1'')) a 7 (Some ''n'') [] [] s = (Inr pc, s') \<and>
     map_of (ms_published (sv_store s')) demo_profile = Some held \<and> pb_announcement held \<noteq> sp_announcement request \<and>
     sv_chronicler s' = Some c' \<and> certifies demo_kin c' (chronicle_entry_for request) devices (is_receipt (pc_issued pc))"
proof -
  obtain b devices' where new: "anchored demo_kin b = Inr (demo_profile, devices', 9)" "an_version b = ANNOUNCEMENT_VERSION"
    "contains_device devices' (device_from_seed demo_kin (demo_seed (CHR ''1'')))" by (rule demo_announced)
  obtain a devices where old: "anchored demo_kin a = Inr (demo_profile, devices, 5)" "an_version a = ANNOUNCEMENT_VERSION"
    "contains_device devices (device_from_seed demo_kin (demo_seed (CHR ''1'')))" by (rule demo_announced)
  have "a \<noteq> b" using new(1) old(1) by auto
  then have may: "may_publish demo_kin (demo_codec b a) (demo_seed (CHR ''1'')) a ''b'' demo_profile devices 5"
    using demo_may_publish [OF old, of b "''b''" a] by auto
  obtain pc s where p: "publish_as demo_kin (demo_codec b a) (demo_seed (CHR ''1'')) b 7 (Some ''n'') [Some ''seed''] [] demo_deployed = (Inr pc, s)"
    "(dir_step demo_kin (demo_codec b a) {})\<^sup>*\<^sup>* (sv_new (sv_chronicler demo_deployed)) s"
    "map_of (ms_published (sv_store s)) demo_profile = Some \<lparr>pb_announcement = ''a'', pb_epoch = 9\<rparr>" "ms_challenges (sv_store s) = []"
    "\<exists>entry. chronicled_once demo_kin entry devices' (is_receipt (pc_issued pc)) (sv_chronicler demo_deployed) (sv_chronicler s)"
    by (rule demo_first_publication [OF new, of a]) blast
  obtain c where c: "sv_chronicler s = Some c" "signing_ok demo_kin (cn_seed c)" "length (cn_store c) < 2 ^ 20"
    using p(5) by (auto simp: chronicled_once_def demo_deployed_def sv_new_def demo_signing)
  have o: "ms_open_for (device_from_seed demo_kin (demo_seed (CHR ''1''))) 7 (sv_store s) < MAX_CHALLENGES_PER_DEVICE"
    by (simp add: ms_open_for_def p(4) MAX_CHALLENGES_PER_DEVICE_def)
  have "\<exists>pc s' c' request. publish_as demo_kin (demo_codec b a) (demo_seed (CHR ''1'')) a 7 (Some ''n'') [] [] s = (Inr pc, s') \<and>
     map_of (ms_published (sv_store s')) demo_profile = Some \<lparr>pb_announcement = ''a'', pb_epoch = 9\<rparr> \<and> sv_chronicler s' = Some c' \<and>
     sp_announcement request = ''b'' \<and> certifies demo_kin c' (chronicle_entry_for request) devices (is_receipt (pc_issued pc))"
    by (rule outdated_publication_is_certified [OF p(2) demo_deployed_ok(1) may o c p(3)]) simp
  then obtain pc' s' c' request where r: "publish_as demo_kin (demo_codec b a) (demo_seed (CHR ''1'')) a 7 (Some ''n'') [] [] s = (Inr pc', s')"
    "map_of (ms_published (sv_store s')) demo_profile = Some \<lparr>pb_announcement = ''a'', pb_epoch = 9\<rparr>" "sv_chronicler s' = Some c'"
    "sp_announcement request = ''b''" "certifies demo_kin c' (chronicle_entry_for request) devices (is_receipt (pc_issued pc'))" by blast
  have "pb_announcement \<lparr>pb_announcement = ''a'', pb_epoch = 9\<rparr> \<noteq> sp_announcement request" using r(4) by simp
  with r(1,2,3,5) show ?thesis by blast
qed

end
