(* ===== verification/Post.thy ===== *)
theory Post
  imports Challenges
begin

text \<open>
  The post (\<^verbatim>\<open>crates/post/src/lib.rs\<close> and the in-memory store of \<^verbatim>\<open>store.rs\<close>): a carrier that holds sealed
  envelopes for devices that are not online. Anyone may deposit; only a signature of the recipient device
  over a single-use challenge reads, drops or blocks.

  A \<open>DeviceId\<close> is compared by its folded spelling, so the maps keyed by one are keyed by \<open>device_key\<close>. The
  two \<open>HashMap\<close>s are kept in key order, which nothing observes: the code only looks up, retains, counts and
  takes a minimum that is unique. What the operating system draws is an argument; \<open>None\<close> is a failed draw.
  The store is \<^verbatim>\<open>MemStore\<close>, whose operations do not fail; what the carrier relies on of a store is the
  locale \<open>mailboxes\<close>, interpreted on it.
\<close>

section \<open>Requests\<close>

definition DEPOSIT_DOMAIN :: bytes where "DEPOSIT_DOMAIN = ''lait/post/1/deposit''"
definition FETCH_DOMAIN :: bytes where "FETCH_DOMAIN = ''lait/post/1/fetch''"
definition ACK_DOMAIN :: bytes where "ACK_DOMAIN = ''lait/post/1/acknowledge''"
definition BLOCK_DOMAIN :: bytes where "BLOCK_DOMAIN = ''lait/post/1/block''"

definition MAX_ENVELOPE :: nat where "MAX_ENVELOPE = 256 * 1024"
definition POST_CHALLENGE_TTL :: u64 where "POST_CHALLENGE_TTL = 60"
definition MAX_RETENTION :: u64 where "MAX_RETENTION = 30 * 24 * 60 * 60"
definition MAX_MAILBOX_DEPOSITS :: nat where "MAX_MAILBOX_DEPOSITS = 256"
definition MAX_DEPOSITS_PER_WINDOW :: nat where "MAX_DEPOSITS_PER_WINDOW = 32"
definition POST_RATE_WINDOW :: u64 where "POST_RATE_WINDOW = 60"
definition MAX_TRACKED_SENDERS :: nat where "MAX_TRACKED_SENDERS = 4096"
definition MAX_OUTSTANDING_CHALLENGES :: nat where "MAX_OUTSTANDING_CHALLENGES = 16384"
definition POST_CHALLENGES_PER_DEVICE :: nat where "POST_CHALLENGES_PER_DEVICE = 8"

datatype post_refusal =
    PostBadSignature
  | UnusableDevice
  | UnknownChallenge
  | ChallengeExpired
  | PostTooLarge
  | UnusableExpiry
  | PostUnavailable
  | AtCapacity

text \<open>\<open>part.len() as u32\<close> keeps the low 32 bits, as \<open>be_bytes 4\<close> does.\<close>

definition post_framed :: "bytes \<Rightarrow> bytes \<Rightarrow> bytes" where
  "post_framed out part = out @ be_bytes 4 (length part) @ part"

record envelope =
  en_recipient :: string
  en_sealed :: bytes
  en_expires_at :: u64
  en_version :: u16

definition envelope_preimage :: "envelope \<Rightarrow> string \<Rightarrow> bytes" where
  "envelope_preimage e sender =
    foldl post_framed [] [DEPOSIT_DOMAIN, sender, en_recipient e, u64_be (en_expires_at e),
      u16_be (en_version e), en_sealed e]"

record signed_deposit =
  sd_sender :: string
  sd_envelope :: envelope
  sd_signature :: bytes

record post_challenge =
  pg_device :: string
  pg_nonce :: bytes
  pg_issued_at :: u64

definition challenge_preimage :: "post_challenge \<Rightarrow> bytes \<Rightarrow> bytes" where
  "challenge_preimage c domain = foldl post_framed [] [domain, pg_device c, pg_nonce c]"

record signed_fetch =
  sf_device :: string
  sf_nonce :: bytes
  sf_signature :: bytes

record signed_ack =
  sa_device :: string
  sa_nonce :: bytes
  sa_deposits :: "string list"
  sa_signature :: bytes

definition ack_preimage :: "signed_ack \<Rightarrow> bytes" where
  "ack_preimage a =
    foldl post_framed
      (foldl post_framed [] [ACK_DOMAIN, sa_device a, sa_nonce a] @ be_bytes 4 (length (sa_deposits a)))
      (sa_deposits a)"

record signed_block =
  sb_device :: string
  sb_target :: string
  sb_blocked :: bool
  sb_nonce :: bytes
  sb_signature :: bytes

definition block_preimage :: "signed_block \<Rightarrow> bytes" where
  "block_preimage b =
    foldl post_framed [] [BLOCK_DOMAIN, sb_device b, sb_target b,
      [if sb_blocked b then CHR 0x01 else CHR 0x00], sb_nonce b]"

definition sign_deposit :: "kin_env \<Rightarrow> bytes \<Rightarrow> envelope \<Rightarrow> signed_deposit" where
  "sign_deposit env seed e =
    (let sender = device_from_seed env seed
     in \<lparr>sd_sender = sender, sd_envelope = e,
         sd_signature = sign_detached env seed (envelope_preimage e sender)\<rparr>)"

definition sign_fetch :: "kin_env \<Rightarrow> bytes \<Rightarrow> post_challenge \<Rightarrow> signed_fetch" where
  "sign_fetch env seed c =
    \<lparr>sf_device = pg_device c, sf_nonce = pg_nonce c,
     sf_signature = sign_detached env seed (challenge_preimage c FETCH_DOMAIN)\<rparr>"

definition sign_block :: "kin_env \<Rightarrow> bytes \<Rightarrow> post_challenge \<Rightarrow> string \<Rightarrow> bool \<Rightarrow> signed_block" where
  "sign_block env seed c target blocked =
    (let request = \<lparr>sb_device = pg_device c, sb_target = target, sb_blocked = blocked,
           sb_nonce = pg_nonce c, sb_signature = replicate 64 (CHR 0x00)\<rparr>
     in request\<lparr>sb_signature := sign_detached env seed (block_preimage request)\<rparr>)"

definition sign_acknowledge :: "kin_env \<Rightarrow> bytes \<Rightarrow> post_challenge \<Rightarrow> string list \<Rightarrow> signed_ack" where
  "sign_acknowledge env seed c deposits =
    (let ack = \<lparr>sa_device = pg_device c, sa_nonce = pg_nonce c, sa_deposits = deposits,
           sa_signature = replicate 64 (CHR 0x00)\<rparr>
     in ack\<lparr>sa_signature := sign_detached env seed (ack_preimage ack)\<rparr>)"

definition post_key :: "kin_env \<Rightarrow> string \<Rightarrow> post_refusal + bytes" where
  "post_key env device =
    (case device_parse device of
       None \<Rightarrow> Inl UnusableDevice
     | Some parsed \<Rightarrow>
         if parsed \<noteq> device then Inl UnusableDevice
         else case key_bytes (ke_crypto env) parsed of None \<Rightarrow> Inl UnusableDevice | Some key \<Rightarrow> Inr key)"

definition post_verify :: "kin_env \<Rightarrow> string \<Rightarrow> bytes \<Rightarrow> bytes \<Rightarrow> post_refusal + unit" where
  "post_verify env device preimage signature =
    try_then (post_key env device) (\<lambda>key.
      if verify_detached env key preimage signature then Inr () else Inl PostBadSignature)"

section \<open>The store\<close>

record deposited =
  dp_id :: string
  dp_sender :: string
  dp_envelope :: envelope
  dp_at :: u64

record post_store =
  st_held :: "(string, (string, deposited) btree_map) btree_map"
  st_blocks :: "(string, string set) btree_map"

definition deposit_id :: "kin_env \<Rightarrow> string \<Rightarrow> envelope \<Rightarrow> string" where
  "deposit_id env sender e =
    ke_hex env (take 16 (blake3 (ke_crypto env)
      (''lait/post/1/deposit-id'' @ sender @ en_recipient e @ u64_be (en_expires_at e) @
       u16_be (en_version e) @ en_sealed e)))"

definition st_new :: post_store where
  "st_new = \<lparr>st_held = [], st_blocks = []\<rparr>"

definition mailbox :: "string \<Rightarrow> post_store \<Rightarrow> (string, deposited) btree_map" where
  \<comment> \<open>\<open>held.get(device)\<close>, or nothing\<close>
  "mailbox device s = (case map_of (st_held s) (device_key device) of None \<Rightarrow> [] | Some box_of \<Rightarrow> box_of)"

definition st_put :: "kin_env \<Rightarrow> string \<Rightarrow> envelope \<Rightarrow> u64 \<Rightarrow> post_store \<Rightarrow> string \<times> post_store" where
  "st_put env sender e now s =
    (let i = deposit_id env sender e;
         held = \<lparr>dp_id = i, dp_sender = sender, dp_envelope = e, dp_at = now\<rparr>
     in (i, s\<lparr>st_held := bm_insert (device_key (en_recipient e))
               (bm_insert i held (mailbox (en_recipient e) s)) (st_held s)\<rparr>))"

definition deliverable :: "u64 \<Rightarrow> deposited \<Rightarrow> bool" where
  "deliverable now held \<longleftrightarrow> now < en_expires_at (dp_envelope held)"

definition st_list :: "string \<Rightarrow> u64 \<Rightarrow> post_store \<Rightarrow> deposited list" where
  "st_list device now s = filter (deliverable now) (map snd (mailbox device s))"

definition st_count :: "string \<Rightarrow> post_store \<Rightarrow> nat" where
  "st_count device s = length (mailbox device s)"

fun drop_ids :: "string list \<Rightarrow> (string, deposited) btree_map \<Rightarrow> nat \<times> (string, deposited) btree_map" where
  "drop_ids [] box_of = (0, box_of)"
| "drop_ids (i # ids) box_of =
    (let gone = (if bm_contains box_of i then 1 else 0);
         (rest, box_of') = drop_ids ids (bm_remove i box_of)
     in (gone + rest, box_of'))"

definition st_drop_all :: "string \<Rightarrow> string list \<Rightarrow> post_store \<Rightarrow> nat \<times> post_store" where
  "st_drop_all device ids s =
    (case map_of (st_held s) (device_key device) of
       None \<Rightarrow> (0, s)
     | Some box_of \<Rightarrow>
         (let (gone, box_of') = drop_ids ids box_of
          in (gone, s\<lparr>st_held := bm_insert (device_key device) box_of' (st_held s)\<rparr>)))"

definition sweep_box :: "u64 \<Rightarrow> (string, deposited) btree_map \<Rightarrow> (string, deposited) btree_map" where
  "sweep_box now box_of = filter (\<lambda>(_, held). deliverable now held) box_of"

definition st_sweep :: "u64 \<Rightarrow> post_store \<Rightarrow> nat \<times> post_store" where
  "st_sweep now s =
    (let gone = sum_list (map (\<lambda>(_, box_of). length box_of - length (sweep_box now box_of)) (st_held s));
         held = map (\<lambda>(device, box_of). (device, sweep_box now box_of)) (st_held s)
     in (gone, s\<lparr>st_held := filter (\<lambda>(_, box_of). box_of \<noteq> []) held\<rparr>))"

definition st_set_block :: "string \<Rightarrow> string \<Rightarrow> bool \<Rightarrow> post_store \<Rightarrow> post_store" where
  "st_set_block recipient sender blocked s =
    (let r = device_key recipient; d = device_key sender
     in if blocked
        then s\<lparr>st_blocks := bm_insert r
               (insert d (case map_of (st_blocks s) r of None \<Rightarrow> {} | Some ds \<Rightarrow> ds)) (st_blocks s)\<rparr>
        else case map_of (st_blocks s) r of
          None \<Rightarrow> s
        | Some ds \<Rightarrow>
            if ds - {d} = {} then s\<lparr>st_blocks := bm_remove r (st_blocks s)\<rparr>
            else s\<lparr>st_blocks := bm_insert r (ds - {d}) (st_blocks s)\<rparr>)"

definition st_is_blocked :: "string \<Rightarrow> string \<Rightarrow> post_store \<Rightarrow> bool" where
  "st_is_blocked recipient sender s =
    (case map_of (st_blocks s) (device_key recipient) of None \<Rightarrow> False | Some ds \<Rightarrow> device_key sender \<in> ds)"

section \<open>The carrier\<close>

record post =
  po_store :: post_store
  po_outstanding :: "(bytes, post_challenge) btree_map"
  po_recent :: "(string, u64 list) btree_map"

definition post_new :: "post_store \<Rightarrow> post" where
  "post_new store = \<lparr>po_store = store, po_outstanding = [], po_recent = []\<rparr>"

definition unexpired :: "u64 \<Rightarrow> post_challenge \<Rightarrow> bool" where
  "unexpired now held \<longleftrightarrow> saturating_sub now (pg_issued_at held) \<le> POST_CHALLENGE_TTL"

definition expire_challenges :: "u64 \<Rightarrow> post \<Rightarrow> post" where
  "expire_challenges now p =
    p\<lparr>po_outstanding := filter (\<lambda>(_, held). unexpired now held) (po_outstanding p)\<rparr>"

definition held_for :: "string \<Rightarrow> (bytes, post_challenge) btree_map \<Rightarrow> nat" where
  "held_for device outstanding =
    length (filter (\<lambda>(_, held). device_key (pg_device held) = device_key device) outstanding)"

definition evict_oldest :: "(bytes, post_challenge) btree_map \<Rightarrow> (bytes, post_challenge) btree_map" where
  \<comment> \<open>\<open>min_by_key\<close> of the issue time and the nonce\<close>
  "evict_oldest outstanding =
    (if MAX_OUTSTANDING_CHALLENGES \<le> length outstanding \<and> outstanding \<noteq> []
     then bm_remove (fst (arg_min_list (\<lambda>(nonce, held). (pg_issued_at held, nonce)) outstanding)) outstanding
     else outstanding)"

definition post_challenge_for ::
  "kin_env \<Rightarrow> string \<Rightarrow> u64 \<Rightarrow> bytes option \<Rightarrow> post \<Rightarrow> (post_refusal + post_challenge) \<times> post" where
  "post_challenge_for env device now drawn p =
    (case post_key env device of
       Inl r \<Rightarrow> (Inl r, p)
     | Inr _ \<Rightarrow>
       (case drawn of
          None \<Rightarrow> (Inl PostUnavailable, p)
        | Some nonce \<Rightarrow>
          (let c = \<lparr>pg_device = device, pg_nonce = nonce, pg_issued_at = now\<rparr>;
               p = expire_challenges now p
           in if POST_CHALLENGES_PER_DEVICE \<le> held_for device (po_outstanding p) then (Inl AtCapacity, p)
              else (Inr c, p\<lparr>po_outstanding := bm_insert nonce c (evict_oldest (po_outstanding p))\<rparr>))))"

definition prune_recent :: "u64 \<Rightarrow> post \<Rightarrow> post" where
  "prune_recent now p =
    (let floor = saturating_sub now POST_RATE_WINDOW
     in p\<lparr>po_recent := filter (\<lambda>(_, seen). seen \<noteq> [])
           (map (\<lambda>(sender, seen). (sender, filter (\<lambda>at. floor < at) seen)) (po_recent p))\<rparr>)"

definition evict_stalest :: "(string, u64 list) btree_map \<Rightarrow> (string, u64 list) btree_map" where
  "evict_stalest seen =
    (if seen = [] then seen
     else bm_remove (fst (arg_min_list (\<lambda>(sender, ats). (fold max ats 0, sender)) seen)) seen)"

definition admit_deposit :: "string \<Rightarrow> string \<Rightarrow> u64 \<Rightarrow> post \<Rightarrow> (post_refusal + unit) \<times> post" where
  "admit_deposit sender recipient now p =
    (let p = prune_recent now p
     in if (case map_of (po_recent p) (device_key sender) of
              Some seen \<Rightarrow> MAX_DEPOSITS_PER_WINDOW \<le> length seen | None \<Rightarrow> False)
        then (Inl AtCapacity, p)
        else (let p = (if map_of (po_recent p) (device_key sender) = None
                          \<and> MAX_TRACKED_SENDERS \<le> length (po_recent p)
                       then p\<lparr>po_recent := evict_stalest (po_recent p)\<rparr> else p)
              in if MAX_MAILBOX_DEPOSITS \<le> st_count recipient (po_store p) then (Inl AtCapacity, p)
                 else (Inr (), p)))"

definition charge_sender :: "string \<Rightarrow> u64 \<Rightarrow> post \<Rightarrow> post" where
  "charge_sender sender now p =
    (let seen = (case map_of (po_recent p) (device_key sender) of None \<Rightarrow> [] | Some seen \<Rightarrow> seen)
     in p\<lparr>po_recent := bm_insert (device_key sender) (seen @ [now]) (po_recent p)\<rparr>)"

definition post_deposit :: "kin_env \<Rightarrow> signed_deposit \<Rightarrow> u64 \<Rightarrow> post \<Rightarrow> (post_refusal + string) \<times> post" where
  "post_deposit env request now p =
    (let e = sd_envelope request; sender = sd_sender request
     in if MAX_ENVELOPE < length (en_sealed e) then (Inl PostTooLarge, p)
        else if en_expires_at e \<le> now \<or> MAX_RETENTION < saturating_sub (en_expires_at e) now
        then (Inl UnusableExpiry, p)
        else case post_key env (en_recipient e) of
          Inl r \<Rightarrow> (Inl r, p)
        | Inr _ \<Rightarrow>
          (case post_verify env sender (envelope_preimage e sender) (sd_signature request) of
             Inl r \<Rightarrow> (Inl r, p)
           | Inr _ \<Rightarrow>
             (case admit_deposit sender (en_recipient e) now p of
                (Inl r, p') \<Rightarrow> (Inl r, p')
              | (Inr _, p') \<Rightarrow>
                (let (i, store) = (if st_is_blocked (en_recipient e) sender (po_store p')
                                   then (deposit_id env sender e, po_store p')
                                   else st_put env sender e now (po_store p'))
                 in (Inr i, charge_sender sender now (p'\<lparr>po_store := store\<rparr>))))))"

definition take_challenge :: "bytes \<Rightarrow> string \<Rightarrow> u64 \<Rightarrow> post \<Rightarrow> (post_refusal + post_challenge) \<times> post" where
  "take_challenge nonce device now p =
    (case map_of (po_outstanding p) nonce of
       None \<Rightarrow> (Inl UnknownChallenge, p)
     | Some c \<Rightarrow>
         (let p = p\<lparr>po_outstanding := bm_remove nonce (po_outstanding p)\<rparr>
          in if device_key (pg_device c) \<noteq> device_key device then (Inl UnknownChallenge, p)
             else if \<not> unexpired now c then (Inl ChallengeExpired, p)
             else (Inr c, p)))"

definition post_fetch :: "kin_env \<Rightarrow> signed_fetch \<Rightarrow> u64 \<Rightarrow> post \<Rightarrow> (post_refusal + deposited list) \<times> post" where
  "post_fetch env request now p =
    (case post_key env (sf_device request) of
       Inl r \<Rightarrow> (Inl r, p)
     | Inr _ \<Rightarrow>
       (case take_challenge (sf_nonce request) (sf_device request) now p of
          (Inl r, p') \<Rightarrow> (Inl r, p')
        | (Inr c, p') \<Rightarrow>
          (case post_verify env (sf_device request) (challenge_preimage c FETCH_DOMAIN) (sf_signature request) of
             Inl r \<Rightarrow> (Inl r, p')
           | Inr _ \<Rightarrow> (Inr (st_list (sf_device request) now (po_store p')), p'))))"

definition post_acknowledge :: "kin_env \<Rightarrow> signed_ack \<Rightarrow> u64 \<Rightarrow> post \<Rightarrow> (post_refusal + nat) \<times> post" where
  "post_acknowledge env request now p =
    (case post_key env (sa_device request) of
       Inl r \<Rightarrow> (Inl r, p)
     | Inr _ \<Rightarrow>
       (case take_challenge (sa_nonce request) (sa_device request) now p of
          (Inl r, p') \<Rightarrow> (Inl r, p')
        | (Inr _, p') \<Rightarrow>
          (case post_verify env (sa_device request) (ack_preimage request) (sa_signature request) of
             Inl r \<Rightarrow> (Inl r, p')
           | Inr _ \<Rightarrow>
               (let (gone, store) = st_drop_all (sa_device request) (sa_deposits request) (po_store p')
                in (Inr gone, p'\<lparr>po_store := store\<rparr>)))))"

definition post_block :: "kin_env \<Rightarrow> signed_block \<Rightarrow> u64 \<Rightarrow> post \<Rightarrow> (post_refusal + unit) \<times> post" where
  "post_block env request now p =
    (case post_key env (sb_device request) of
       Inl r \<Rightarrow> (Inl r, p)
     | Inr _ \<Rightarrow>
       (case post_key env (sb_target request) of
          Inl r \<Rightarrow> (Inl r, p)
        | Inr _ \<Rightarrow>
          (case take_challenge (sb_nonce request) (sb_device request) now p of
             (Inl r, p') \<Rightarrow> (Inl r, p')
           | (Inr _, p') \<Rightarrow>
             (case post_verify env (sb_device request) (block_preimage request) (sb_signature request) of
                Inl r \<Rightarrow> (Inl r, p')
              | Inr _ \<Rightarrow>
                  (Inr (), p'\<lparr>po_store := st_set_block (sb_device request) (sb_target request)
                     (sb_blocked request) (po_store p')\<rparr>)))))"

definition post_sweep :: "u64 \<Rightarrow> post \<Rightarrow> nat \<times> post" where
  "post_sweep now p =
    (let p = expire_challenges now p; (gone, store) = st_sweep now (po_store p)
     in (gone, p\<lparr>po_store := store\<rparr>))"

section \<open>Mailboxes as finite maps\<close>

text \<open>What the carrier relies on of its store: to every device belongs a finite map from deposit ids to
  deposits; putting, dropping and sweeping are the updates one expects of those maps, and counting counts
  them. Devices with one key share a mailbox.\<close>

locale mailboxes =
  fixes wf :: "'s \<Rightarrow> bool"
    and box_slot :: "'s \<Rightarrow> 'k \<Rightarrow> 'i \<Rightarrow> 'v option"
    and key :: "'d \<Rightarrow> 'k"
    and occupancy :: "'d \<Rightarrow> 's \<Rightarrow> nat"
    and put :: "'x \<Rightarrow> 's \<Rightarrow> 'i \<times> 's"
    and dest :: "'x \<Rightarrow> 'd"
    and item :: "'x \<Rightarrow> 'v"
    and drop_all :: "'d \<Rightarrow> 'i list \<Rightarrow> 's \<Rightarrow> nat \<times> 's"
    and sweep :: "'t \<Rightarrow> 's \<Rightarrow> nat \<times> 's"
    and live :: "'t \<Rightarrow> 'v \<Rightarrow> bool"
  assumes put_wf: "wf s \<Longrightarrow> put x s = (i, s') \<Longrightarrow> wf s'"
    and drop_wf: "wf s \<Longrightarrow> drop_all d ids s = (n, s') \<Longrightarrow> wf s'"
    and sweep_wf: "wf s \<Longrightarrow> sweep t s = (n, s') \<Longrightarrow> wf s'"
    and slot_finite: "wf s \<Longrightarrow> finite (dom (box_slot s k))"
    and occupancy_slot: "wf s \<Longrightarrow> occupancy d s = card (dom (box_slot s (key d)))"
    and put_slot: "wf s \<Longrightarrow> put x s = (i, s') \<Longrightarrow>
      box_slot s' k = (if k = key (dest x) then (box_slot s k)(i \<mapsto> item x) else box_slot s k)"
    and drop_slot: "wf s \<Longrightarrow> drop_all d ids s = (n, s') \<Longrightarrow>
      box_slot s' k = (if k = key d then box_slot s k |` (- set ids) else box_slot s k)"
    and drop_gone: "wf s \<Longrightarrow> drop_all d ids s = (n, s') \<Longrightarrow> n = card (dom (box_slot s (key d)) \<inter> set ids)"
    and sweep_slot: "wf s \<Longrightarrow> sweep t s = (n, s') \<Longrightarrow>
      box_slot s' k i = (case box_slot s k i of None \<Rightarrow> None | Some v \<Rightarrow> if live t v then Some v else None)"
begin

lemma put_keeps_room:
  assumes "wf s" "put x s = (i, s')" "occupancy (dest x) s < cap" "\<And>k. card (dom (box_slot s k)) \<le> cap"
  shows "card (dom (box_slot s' k)) \<le> cap"
proof (cases "k = key (dest x)")
  case True
  have "card (dom (box_slot s' k)) \<le> Suc (card (dom (box_slot s k)))"
    using True put_slot [OF assms(1,2), of k] by (simp add: card_insert_le_m1 slot_finite [OF assms(1)] card_insert_if)
  thus ?thesis using assms(3) True by (simp add: occupancy_slot [OF assms(1)])
next
  case False
  thus ?thesis using put_slot [OF assms(1,2), of k] assms(4) by simp
qed

lemma drop_keeps_room:
  assumes "wf s" "drop_all d ids s = (n, s')" "card (dom (box_slot s k)) \<le> cap"
  shows "card (dom (box_slot s' k)) \<le> cap"
proof -
  have "dom (box_slot s' k) \<subseteq> dom (box_slot s k)" using drop_slot [OF assms(1,2), of k] by (auto split: if_splits)
  from card_mono [OF slot_finite [OF assms(1)] this] assms(3) show ?thesis by simp
qed

lemma sweep_keeps_room:
  assumes "wf s" "sweep t s = (n, s')" "card (dom (box_slot s k)) \<le> cap"
  shows "card (dom (box_slot s' k)) \<le> cap"
proof -
  have "dom (box_slot s' k) \<subseteq> dom (box_slot s k)"
    using sweep_slot [OF assms(1,2), of k] by (auto split: option.splits if_splits)
  from card_mono [OF slot_finite [OF assms(1)] this] assms(3) show ?thesis by simp
qed

lemma drop_frame:
  assumes "wf s" "drop_all d ids s = (n, s')" "box_slot s k i = Some v" "box_slot s' k i = None"
  shows "k = key d \<and> i \<in> set ids"
  using drop_slot [OF assms(1,2), of k] assms(3,4) by (auto simp: restrict_map_def split: if_splits)

lemma sweep_frame:
  assumes "wf s" "sweep t s = (n, s')" "box_slot s k i = Some v" "box_slot s' k i = None"
  shows "\<not> live t v"
  using sweep_slot [OF assms(1,2), of k i] assms(3,4) by (auto split: if_splits)

end

lemma map_of_filter:
  "distinct (map fst m) \<Longrightarrow>
    map_of (filter P m) k = (case map_of m k of None \<Rightarrow> None | Some v \<Rightarrow> if P (k, v) then Some v else None)"
  by (induction m) (auto split: option.splits simp: map_of_eq_None_iff image_iff dest: map_of_SomeD)

definition store_wf :: "post_store \<Rightarrow> bool" where
  "store_wf s \<longleftrightarrow> bm_wf (st_held s) \<and> (\<forall>k box_of. map_of (st_held s) k = Some box_of \<longrightarrow> bm_wf box_of)"

definition box_slot :: "post_store \<Rightarrow> string \<Rightarrow> string \<Rightarrow> deposited option" where
  "box_slot s k = map_of (case map_of (st_held s) k of None \<Rightarrow> [] | Some box_of \<Rightarrow> box_of)"

lemma mailbox_slot: "map_of (mailbox device s) = box_slot s (device_key device)"
  by (simp add: mailbox_def box_slot_def)

lemma mailbox_wf: "store_wf s \<Longrightarrow> bm_wf (mailbox device s)"
  by (auto simp: mailbox_def store_wf_def split: option.splits)

lemma drop_ids_spec:
  "drop_ids ids b = (n, b') \<Longrightarrow> bm_wf b \<Longrightarrow>
    map_of b' = map_of b |` (- set ids) \<and> bm_wf b' \<and> n = card (dom (map_of b) \<inter> set ids)"
proof (induction ids arbitrary: b n)
  case (Cons i ids)
  obtain r where rest: "drop_ids ids (bm_remove i b) = (r, b')"
    and n: "n = (if bm_contains b i then 1 else 0) + r"
    using Cons.prems(1) by (auto simp: Let_def split: prod.splits)
  have rm: "map_of (bm_remove i b) = map_of b |` (- {i})"
    by (auto simp: map_simps restrict_map_def)
  note IH = Cons.IH [OF rest bm_wf_remove [OF Cons.prems(2)], unfolded rm]
  have "dom (map_of b) \<inter> set (i # ids)
      = (dom (map_of b) \<inter> {i}) \<union> (dom (map_of b |` (- {i})) \<inter> set ids)" by auto
  moreover have "card (dom (map_of b) \<inter> {i}) = (if bm_contains b i then 1 else 0)"
    by (auto simp: bm_contains_def domIff)
  moreover have "finite (dom (map_of b))" by (rule finite_dom_map_of)
  ultimately have "card (dom (map_of b) \<inter> set (i # ids)) = n"
    using IH n by (simp add: card_Un_disjoint disjoint_iff)
  moreover have "map_of b |` (- {i}) |` (- set ids) = map_of b |` (- set (i # ids))"
    by (simp add: restrict_restrict Compl_Un [symmetric] Int_commute)
  ultimately show ?case using IH by simp
qed (simp add: restrict_map_def)

lemma drop_all_spec:
  assumes "store_wf s" "st_drop_all d ids s = (n, s')"
  shows "store_wf s'" "box_slot s' k = (if k = device_key d then box_slot s k |` (- set ids) else box_slot s k)"
    "n = card (dom (box_slot s (device_key d)) \<inter> set ids)"
proof -
  have "store_wf s' \<and> box_slot s' k = (if k = device_key d then box_slot s k |` (- set ids) else box_slot s k)
    \<and> n = card (dom (box_slot s (device_key d)) \<inter> set ids)"
  proof (cases "map_of (st_held s) (device_key d)")
    case None
    with assms show ?thesis by (auto simp: st_drop_all_def box_slot_def restrict_map_def)
  next
    case (Some b)
    obtain b' where dr: "drop_ids ids b = (n, b')" "s' = s\<lparr>st_held := bm_insert (device_key d) b' (st_held s)\<rparr>"
      using assms(2) Some by (auto simp: st_drop_all_def Let_def split: prod.splits)
    moreover have "bm_wf b" using assms(1) Some by (simp add: store_wf_def)
    ultimately show ?thesis using drop_ids_spec [OF dr(1)] assms(1) Some
      by (auto simp: box_slot_def store_wf_def bm_wf_insert map_simps)
  qed
  thus "store_wf s'" "box_slot s' k = (if k = device_key d then box_slot s k |` (- set ids) else box_slot s k)"
    "n = card (dom (box_slot s (device_key d)) \<inter> set ids)" by simp_all
qed

lemma swept_held:
  assumes "store_wf s"
  shows "map_of (st_held (snd (st_sweep now s))) k =
    (case map_of (st_held s) k of None \<Rightarrow> None
     | Some b \<Rightarrow> if sweep_box now b = [] then None else Some (sweep_box now b))"
proof -
  let ?m = "map (\<lambda>(device, box_of). (device, sweep_box now box_of)) (st_held s)"
  have "map_of ?m k = map_option (sweep_box now) (map_of (st_held s) k)"
    by (simp add: map_of_map)
  moreover have "distinct (map fst ?m)"
    using assms bm_wf_distinct by (auto simp: store_wf_def comp_def case_prod_unfold)
  ultimately show ?thesis
    by (simp add: st_sweep_def Let_def map_of_filter) (simp split: option.splits)
qed

lemma sweep_spec:
  assumes "store_wf s" "st_sweep now s = (n, s')"
  shows "store_wf s'"
    "box_slot s' k i = (case box_slot s k i of None \<Rightarrow> None | Some v \<Rightarrow> if deliverable now v then Some v else None)"
proof -
  have box_wf: "bm_wf (sweep_box now b)" if "map_of (st_held s) k' = Some b" for k' b
    using assms(1) that by (simp add: store_wf_def sweep_box_def bm_wf_filter)
  have s': "map_of (st_held s') k = (case map_of (st_held s) k of None \<Rightarrow> None
     | Some b \<Rightarrow> if sweep_box now b = [] then None else Some (sweep_box now b))" for k
    using swept_held [OF assms(1), of now k] assms(2) by simp
  have "bm_wf (st_held s')"
  proof -
    have "bm_wf (map (\<lambda>(device, box_of). (device, sweep_box now box_of)) (st_held s))"
      using assms(1) by (simp add: store_wf_def bm_wf_def comp_def case_prod_unfold)
    from bm_wf_filter [OF this] show ?thesis using assms(2) by (auto simp: st_sweep_def Let_def)
  qed
  thus "store_wf s'" using box_wf by (auto simp: store_wf_def s' split: option.splits if_splits)
  have "map_of (sweep_box now b) i = (case map_of b i of None \<Rightarrow> None | Some v \<Rightarrow> if deliverable now v then Some v else None)"
    if "map_of (st_held s) k = Some b" for b
    using that assms(1) bm_wf_distinct unfolding sweep_box_def store_wf_def by (subst map_of_filter) auto
  thus "box_slot s' k i = (case box_slot s k i of None \<Rightarrow> None | Some v \<Rightarrow> if deliverable now v then Some v else None)"
    by (auto simp: box_slot_def s' split: option.splits if_splits)
qed

lemma put_spec:
  assumes "store_wf s" "st_put env sender e now s = (i, s')"
  shows "store_wf s'" "i = deposit_id env sender e"
    "box_slot s' k = (if k = device_key (en_recipient e)
       then (box_slot s k)(i \<mapsto> \<lparr>dp_id = i, dp_sender = sender, dp_envelope = e, dp_at = now\<rparr>) else box_slot s k)"
  using assms mailbox_wf [OF assms(1), of "en_recipient e"]
  by (auto simp: store_wf_def st_put_def Let_def bm_wf_insert map_simps box_slot_def mailbox_def
      split: if_splits)

lemma count_spec: "store_wf s \<Longrightarrow> st_count d s = card (dom (box_slot s (device_key d)))"
  using distinct_card [OF bm_wf_distinct [OF mailbox_wf]]
  by (simp add: st_count_def mailbox_slot [symmetric] dom_map_of_conv_image_fst)

lemma slot_dom_finite: "finite (dom (box_slot s k))"
  by (simp add: box_slot_def finite_dom_map_of)

interpretation box: mailboxes store_wf box_slot device_key st_count
  "\<lambda>(env, sender, e, now). st_put env sender e now"
  "\<lambda>(env, sender, e, now). en_recipient e"
  "\<lambda>(env, sender, e, now). \<lparr>dp_id = deposit_id env sender e, dp_sender = sender, dp_envelope = e, dp_at = now\<rparr>"
  st_drop_all st_sweep deliverable
proof (unfold_locales, goal_cases)
  case (1 s x i s')
  thus ?case using put_spec(1) by (cases x) auto
next
  case (6 s x i s' k)
  thus ?case using put_spec(2,3) by (cases x) auto
qed (rule drop_all_spec; assumption | rule sweep_spec; assumption | simp add: slot_dom_finite count_spec)+

section \<open>Runs of the carrier\<close>

inductive post_step :: "kin_env \<Rightarrow> bytes set \<Rightarrow> post \<Rightarrow> post \<Rightarrow> bool" for env avoid where
  \<comment> \<open>any request, whatever it is answered; the draws avoid some nonces\<close>
  ps_challenge: "drawn \<notin> Some ` avoid \<Longrightarrow> post_challenge_for env device now drawn p = (r, p') \<Longrightarrow> post_step env avoid p p'"
| ps_deposit: "post_deposit env deposit now p = (r1, p') \<Longrightarrow> post_step env avoid p p'"
| ps_fetch: "post_fetch env fetch now p = (r2, p') \<Longrightarrow> post_step env avoid p p'"
| ps_acknowledge: "post_acknowledge env ack now p = (r3, p') \<Longrightarrow> post_step env avoid p p'"
| ps_block: "post_block env block now p = (r4, p') \<Longrightarrow> post_step env avoid p p'"
| ps_sweep: "post_sweep now p = (n, p') \<Longrightarrow> post_step env avoid p p'"

definition signed_by_sender :: "kin_env \<Rightarrow> deposited \<Rightarrow> bool" where
  \<comment> \<open>the sender signed this envelope, for this recipient\<close>
  "signed_by_sender env held \<longleftrightarrow>
    (\<exists>signature. post_verify env (dp_sender held) (envelope_preimage (dp_envelope held) (dp_sender held)) signature = Inr ())"

definition filed :: "kin_env \<Rightarrow> string \<Rightarrow> string \<Rightarrow> deposited \<Rightarrow> bool" where
  \<comment> \<open>held under its own id, in the mailbox of the device it is addressed to\<close>
  "filed env k i held \<longleftrightarrow> dp_id held = i \<and> i = deposit_id env (dp_sender held) (dp_envelope held)
    \<and> device_key (en_recipient (dp_envelope held)) = k \<and> signed_by_sender env held
    \<and> length (en_sealed (dp_envelope held)) \<le> MAX_ENVELOPE"

definition store_ok :: "kin_env \<Rightarrow> post_store \<Rightarrow> bool" where
  "store_ok env s \<longleftrightarrow> store_wf s \<and> (\<forall>k. card (dom (box_slot s k)) \<le> MAX_MAILBOX_DEPOSITS)
    \<and> (\<forall>k i held. box_slot s k i = Some held \<longrightarrow> filed env k i held)"

definition tables_ok :: "post \<Rightarrow> bool" where
  "tables_ok p \<longleftrightarrow> bm_wf (po_outstanding p) \<and> length (po_outstanding p) \<le> MAX_OUTSTANDING_CHALLENGES
    \<and> (\<forall>device. held_for device (po_outstanding p) \<le> POST_CHALLENGES_PER_DEVICE)
    \<and> bm_wf (po_recent p) \<and> length (po_recent p) \<le> MAX_TRACKED_SENDERS
    \<and> (\<forall>seen \<in> snd ` set (po_recent p). length seen \<le> MAX_DEPOSITS_PER_WINDOW)"

definition post_ok :: "kin_env \<Rightarrow> post \<Rightarrow> bool" where
  "post_ok env p \<longleftrightarrow> store_ok env (po_store p) \<and> tables_ok p"

lemmas post_bounds = MAX_MAILBOX_DEPOSITS_def MAX_OUTSTANDING_CHALLENGES_def POST_CHALLENGES_PER_DEVICE_def
  MAX_TRACKED_SENDERS_def MAX_DEPOSITS_PER_WINDOW_def

lemma held_for_filter: "held_for device (filter P m) \<le> held_for device m"
proof -
  have "filter (\<lambda>(_, held). device_key (pg_device held) = device_key device) (filter P m)
    = filter P (filter (\<lambda>(_, held). device_key (pg_device held) = device_key device) m)"
    by (simp add: conj_commute)
  thus ?thesis by (simp only: held_for_def length_filter_le)
qed

lemma bm_remove_filter: "bm_remove k m = filter (\<lambda>(k', _). k' \<noteq> k) m"
  by (simp add: bm_remove_def)

text \<open>Fewer outstanding challenges are never too many.\<close>

lemma tables_fewer:
  assumes "tables_ok p"
  shows "tables_ok (p\<lparr>po_outstanding := filter P (po_outstanding p), po_store := st\<rparr>)"
  using assms held_for_filter [of _ P "po_outstanding p"]
  by (auto simp: tables_ok_def bm_wf_filter intro: order_trans le_trans [OF length_filter_le])

lemma arg_min_in: "m \<noteq> [] \<Longrightarrow> bm_contains m (fst (arg_min_list f m))"
  using arg_min_list_in [of m f] by (auto simp: bm_contains_iff bm_keys_def)

lemma evict_oldest_room:
  "length m \<le> MAX_OUTSTANDING_CHALLENGES \<Longrightarrow> length (evict_oldest m) < MAX_OUTSTANDING_CHALLENGES"
  using length_bm_remove_held [OF arg_min_in, of m]
  by (auto simp: evict_oldest_def intro: order.strict_trans2) (simp add: post_bounds)

lemma evict_oldest_filter: "\<exists>P. evict_oldest m = filter P m"
  by (auto simp: evict_oldest_def bm_remove_filter intro: exI [of _ "\<lambda>_. True"])

lemma challenge_ok:
  assumes "tables_ok p" "post_challenge_for env device now drawn p = (r, p')"
  shows "tables_ok p'" "po_store p' = po_store p"
proof -
  let ?p = "expire_challenges now p"
  have fewer: "tables_ok ?p"
    using tables_fewer [OF assms(1), where st = "po_store p"] by (simp add: expire_challenges_def)
  have sto: "po_store ?p = po_store p" by (simp add: expire_challenges_def)
  have "tables_ok (?p\<lparr>po_outstanding := bm_insert nonce c (evict_oldest (po_outstanding ?p))\<rparr>)"
    if room: "\<not> POST_CHALLENGES_PER_DEVICE \<le> held_for device (po_outstanding ?p)" and c: "pg_device c = device" for nonce c
  proof -
    obtain P where P: "evict_oldest (po_outstanding ?p) = filter P (po_outstanding ?p)"
      using evict_oldest_filter by blast
    have "held_for d (bm_insert nonce c (evict_oldest (po_outstanding ?p))) \<le> POST_CHALLENGES_PER_DEVICE" for d
      using length_filter_insert [of "\<lambda>(_, held). device_key (pg_device held) = device_key d" nonce c "filter P (po_outstanding ?p)"]
        held_for_filter [of d P "po_outstanding ?p"] fewer room c
      by (cases "device_key d = device_key device")
        (auto simp: held_for_def P tables_ok_def intro: order_trans)
    moreover have "length (bm_insert nonce c (evict_oldest (po_outstanding ?p))) \<le> MAX_OUTSTANDING_CHALLENGES"
      using length_bm_insert [of nonce c "evict_oldest (po_outstanding ?p)"]
        evict_oldest_room [of "po_outstanding ?p"] fewer by (simp add: tables_ok_def)
    ultimately show ?thesis using fewer by (simp add: tables_ok_def P bm_wf_filter bm_wf_insert)
  qed
  thus "tables_ok p'" "po_store p' = po_store p" using assms fewer sto
    by (auto simp: post_challenge_for_def Let_def split: sum.splits option.splits if_splits)
qed

lemma bm_remove_absent: "map_of m k = None \<Longrightarrow> bm_remove k m = m"
  by (auto simp: bm_remove_def map_of_eq_None_iff image_iff intro!: filter_True)

lemma take_challenge_effect:
  "take_challenge nonce device now p = (r, p') \<Longrightarrow> p' = p\<lparr>po_outstanding := bm_remove nonce (po_outstanding p)\<rparr>"
  by (auto simp: take_challenge_def Let_def bm_remove_absent split: option.splits if_splits)

lemma take_challenge_Inr:
  "take_challenge nonce device now p = (Inr c, p') \<Longrightarrow>
    map_of (po_outstanding p) nonce = Some c \<and> device_key (pg_device c) = device_key device \<and> unexpired now c"
  by (auto simp: take_challenge_def Let_def split: option.splits if_splits)

lemma fetch_effect:
  "post_fetch env request now p = (r, p') \<Longrightarrow>
    p' = p \<or> p' = p\<lparr>po_outstanding := bm_remove (sf_nonce request) (po_outstanding p)\<rparr>"
  by (auto simp: post_fetch_def split: sum.splits prod.splits dest: take_challenge_effect)

lemma acknowledge_effect:
  assumes "post_acknowledge env request now p = (r, p')"
  shows "p' = p \<or> p' = p\<lparr>po_outstanding := bm_remove (sa_nonce request) (po_outstanding p)\<rparr> \<or>
    (\<exists>n store. r = Inr n \<and> st_drop_all (sa_device request) (sa_deposits request) (po_store p) = (n, store)
      \<and> p' = p\<lparr>po_outstanding := bm_remove (sa_nonce request) (po_outstanding p), po_store := store\<rparr>)"
proof (cases "post_key env (sa_device request)")
  case Inl
  thus ?thesis using assms by (simp add: post_acknowledge_def)
next
  case (Inr key)
  obtain t q where t: "take_challenge (sa_nonce request) (sa_device request) now p = (t, q)" by fastforce
  note q = take_challenge_effect [OF t]
  show ?thesis
    using assms Inr t q by (auto simp: post_acknowledge_def Let_def split: sum.splits prod.splits)
qed

lemma block_effect:
  assumes "post_block env request now p = (r, p')"
  shows "p' = p \<or> p' = p\<lparr>po_outstanding := bm_remove (sb_nonce request) (po_outstanding p)\<rparr> \<or>
    p' = p\<lparr>po_outstanding := bm_remove (sb_nonce request) (po_outstanding p),
            po_store := st_set_block (sb_device request) (sb_target request) (sb_blocked request) (po_store p)\<rparr>"
  using assms by (auto simp: post_block_def split: sum.splits prod.splits dest: take_challenge_effect)

lemma set_block_held: "st_held (st_set_block recipient sender blocked s) = st_held s"
  by (simp add: st_set_block_def Let_def split: option.splits)

lemma set_block_ok: "store_ok env (st_set_block recipient sender blocked s) = store_ok env s"
  by (simp add: store_ok_def store_wf_def box_slot_def set_block_held)

section \<open>Deposits\<close>

lemma prune_recent_fields [simp]:
  "po_store (prune_recent now p) = po_store p" "po_outstanding (prune_recent now p) = po_outstanding p"
  by (simp_all add: prune_recent_def Let_def)

lemma prune_recent_ok: "tables_ok p \<Longrightarrow> tables_ok (prune_recent now p)"
proof -
  assume ok: "tables_ok p"
  let ?m = "map (\<lambda>(sender, seen). (sender, filter (\<lambda>at. saturating_sub now POST_RATE_WINDOW < at) seen)) (po_recent p)"
  have "bm_wf ?m" using ok by (simp add: tables_ok_def bm_wf_def comp_def case_prod_unfold)
  moreover have "length (filter (\<lambda>(_, seen). seen \<noteq> []) ?m) \<le> length (po_recent p)"
    using length_filter_le [of _ ?m] by simp
  moreover have "length seen \<le> MAX_DEPOSITS_PER_WINDOW" if seen: "seen \<in> snd ` set ?m" for seen
  proof -
    obtain k seen0 where "(k, seen0) \<in> set (po_recent p)"
      "seen = filter (\<lambda>at. saturating_sub now POST_RATE_WINDOW < at) seen0" using seen by (auto simp: image_iff)
    moreover from this(1) have "length seen0 \<le> MAX_DEPOSITS_PER_WINDOW" using ok by (force simp: tables_ok_def)
    ultimately show ?thesis by (simp add: le_trans [OF length_filter_le])
  qed
  ultimately show ?thesis using ok
    by (auto simp: tables_ok_def prune_recent_def Let_def bm_wf_filter intro: le_trans [OF length_filter_le])
qed

lemma evict_stalest_ok: "tables_ok p \<Longrightarrow> tables_ok (p\<lparr>po_recent := evict_stalest (po_recent p)\<rparr>)"
  by (auto simp: tables_ok_def evict_stalest_def bm_remove_filter bm_wf_filter
      intro: le_trans [OF length_filter_le])

lemma evict_stalest_room:
  "length m \<le> MAX_TRACKED_SENDERS \<Longrightarrow> length (evict_stalest m) < MAX_TRACKED_SENDERS"
  using length_bm_remove_held [OF arg_min_in, of m]
  by (auto simp: evict_stalest_def intro: order.strict_trans2) (simp add: post_bounds)

lemma evict_stalest_absent: "map_of m k = None \<Longrightarrow> map_of (evict_stalest m) k = None"
  by (simp add: evict_stalest_def map_simps)

lemma admit_deposit_ok:
  assumes "tables_ok p" "admit_deposit sender recipient now p = (r, p')"
  shows "tables_ok p'" "po_store p' = po_store p" "po_outstanding p' = po_outstanding p"
    and "r = Inr u \<Longrightarrow> st_count recipient (po_store p) < MAX_MAILBOX_DEPOSITS \<and>
      (case map_of (po_recent p') (device_key sender) of
         Some seen \<Rightarrow> length seen < MAX_DEPOSITS_PER_WINDOW
       | None \<Rightarrow> length (po_recent p') < MAX_TRACKED_SENDERS)"
proof -
  let ?p = "prune_recent now p"
  note ok = prune_recent_ok [OF assms(1), of now]
  have rec: "length (po_recent ?p) \<le> MAX_TRACKED_SENDERS" using ok by (simp add: tables_ok_def)
  show "tables_ok p'" "po_store p' = po_store p" "po_outstanding p' = po_outstanding p"
    using assms(2) ok evict_stalest_ok [OF ok]
    by (auto simp: admit_deposit_def Let_def split: option.splits if_splits)
  show "st_count recipient (po_store p) < MAX_MAILBOX_DEPOSITS \<and>
      (case map_of (po_recent p') (device_key sender) of
         Some seen \<Rightarrow> length seen < MAX_DEPOSITS_PER_WINDOW
       | None \<Rightarrow> length (po_recent p') < MAX_TRACKED_SENDERS)" if "r = Inr u"
    using assms(2) that evict_stalest_room [OF rec] evict_stalest_absent [of "po_recent ?p" "device_key sender"]
    by (auto simp: admit_deposit_def Let_def not_le split: option.splits if_splits)
qed

lemma charge_sender_ok:
  assumes "tables_ok p"
    and "case map_of (po_recent p) (device_key sender) of
         Some seen \<Rightarrow> length seen < MAX_DEPOSITS_PER_WINDOW | None \<Rightarrow> length (po_recent p) < MAX_TRACKED_SENDERS"
  shows "tables_ok (charge_sender sender now p)"
proof (cases "map_of (po_recent p) (device_key sender)")
  case None
  thus ?thesis using assms length_bm_insert [of "device_key sender" "[now]" "po_recent p"]
    set_bm_insert_subset [of "device_key sender" "[now]" "po_recent p"]
    by (auto simp: charge_sender_def Let_def tables_ok_def bm_wf_insert post_bounds)
next
  case (Some seen)
  have "bm_contains (po_recent p) (device_key sender)" using Some by (simp add: bm_contains_def)
  thus ?thesis using assms Some
    set_bm_insert_subset [of "device_key sender" "seen @ [now]" "po_recent p"]
    by (auto simp: charge_sender_def Let_def tables_ok_def bm_wf_insert length_bm_insert_held)
qed

text \<open>What an accepted deposit did, and that a refused one leaves every mailbox alone.\<close>

lemma deposit_cases:
  assumes "post_deposit env request now p = (r, p')" "tables_ok p"
  obtains (refused) e where "r = Inl e" "po_store p' = po_store p" "po_outstanding p' = po_outstanding p" "tables_ok p'"
  | (accepted) i q store where "r = Inr i" "length (en_sealed (sd_envelope request)) \<le> MAX_ENVELOPE"
      "now < en_expires_at (sd_envelope request)"
      "post_verify env (sd_sender request) (envelope_preimage (sd_envelope request) (sd_sender request))
         (sd_signature request) = Inr ()"
      "admit_deposit (sd_sender request) (en_recipient (sd_envelope request)) now p = (Inr (), q)"
      "(i, store) = (if st_is_blocked (en_recipient (sd_envelope request)) (sd_sender request) (po_store p)
         then (deposit_id env (sd_sender request) (sd_envelope request), po_store p)
         else st_put env (sd_sender request) (sd_envelope request) now (po_store p))"
      "p' = charge_sender (sd_sender request) now (q\<lparr>po_store := store\<rparr>)"
proof -
  let ?e = "sd_envelope request" and ?s = "sd_sender request"
  show thesis
  proof (cases "MAX_ENVELOPE < length (en_sealed ?e) \<or> en_expires_at ?e \<le> now
      \<or> MAX_RETENTION < saturating_sub (en_expires_at ?e) now \<or> isl (post_key env (en_recipient ?e))
      \<or> isl (post_verify env ?s (envelope_preimage ?e ?s) (sd_signature request))")
    case True
    hence "isl r \<and> p' = p" using assms(1)
      by (auto simp: post_deposit_def Let_def split: if_splits sum.splits dest: sym)
    thus thesis using refused assms(2) by (auto simp: isl_def)
  next
    case False
    then obtain key where v: "post_key env (en_recipient ?e) = Inr key"
        "post_verify env ?s (envelope_preimage ?e ?s) (sd_signature request) = Inr ()"
      by (cases "post_key env (en_recipient ?e)";
          cases "post_verify env ?s (envelope_preimage ?e ?s) (sd_signature request)") auto
    obtain a q where a: "admit_deposit ?s (en_recipient ?e) now p = (a, q)" by fastforce
    note q = admit_deposit_ok [OF assms(2) a]
    show thesis
    proof (cases a)
      case (Inl e)
      thus thesis using refused [of e] assms(1) False v a q by (simp add: post_deposit_def Let_def)
    next
      case (Inr u)
      obtain i store where w: "(i, store) = (if st_is_blocked (en_recipient ?e) ?s (po_store p)
          then (deposit_id env ?s ?e, po_store p) else st_put env ?s ?e now (po_store p))"
        by (metis surj_pair)
      have "post_deposit env request now p = (Inr i, charge_sender ?s now (q\<lparr>po_store := store\<rparr>))"
        using False v a Inr w
        by (cases "st_is_blocked (en_recipient ?e) ?s (po_store p)") (auto simp: post_deposit_def Let_def q(2) dest: sym)
      thus thesis using assms(1) False v(2) a Inr w by (intro accepted [of i q store]) auto
    qed
  qed
qed

lemma deposit_ok:
  assumes "post_ok env p" "post_deposit env request now p = (r, p')"
  shows "post_ok env p'"
proof -
  have ok: "store_ok env (po_store p)" "tables_ok p" using assms(1) by (simp_all add: post_ok_def)
  from assms(2) ok(2) show ?thesis
  proof (cases rule: deposit_cases)
    case refused
    thus ?thesis using ok by (simp add: post_ok_def)
  next
    case (accepted i q store)
    let ?e = "sd_envelope request" and ?s = "sd_sender request"
    note q = admit_deposit_ok [OF ok(2) accepted(5)]
    have "tables_ok (q\<lparr>po_store := store\<rparr>)" using q(1) by (simp add: tables_ok_def)
    hence t: "tables_ok p'" unfolding accepted(7) by (rule charge_sender_ok) (use q(4) in \<open>simp split: option.splits\<close>)
    have "store_ok env store"
    proof (cases "st_is_blocked (en_recipient ?e) ?s (po_store p)")
      case True
      thus ?thesis using accepted(6) ok by simp
    next
      case False
      hence put: "st_put env ?s ?e now (po_store p) = (i, store)" using accepted(6) by simp
      have wf: "store_wf (po_store p)" using ok by (simp add: store_ok_def)
      note sp = put_spec [OF wf put]
      have "card (dom (box_slot store k)) \<le> MAX_MAILBOX_DEPOSITS" for k
        using box.put_keeps_room [OF wf, of "(env, ?s, ?e, now)" i store MAX_MAILBOX_DEPOSITS k] put q(4) ok(1)
        by (simp add: store_ok_def)
      moreover have "filed env k j held" if "box_slot store k j = Some held" for k j held
        using that ok(1) sp(2) accepted(2,4)
        by (auto simp: sp(3) store_ok_def filed_def signed_by_sender_def split: if_splits)
      ultimately show ?thesis using sp(1) by (simp add: store_ok_def)
    qed
    moreover have "po_store p' = store" unfolding accepted(7) by (simp add: charge_sender_def Let_def)
    ultimately show ?thesis using t by (simp add: post_ok_def)
  qed
qed

lemma outstanding_removed_ok:
  "post_ok env p \<Longrightarrow> store_ok env st \<Longrightarrow> post_ok env (p\<lparr>po_outstanding := bm_remove n (po_outstanding p), po_store := st\<rparr>)"
  using tables_fewer [of p] by (simp add: post_ok_def bm_remove_filter)

lemma step_ok:
  assumes "post_step env avoid p p'" "post_ok env p"
  shows "post_ok env p'"
proof -
  have ok: "store_ok env (po_store p)" "tables_ok p" using assms(2) by (simp_all add: post_ok_def)
  have wf: "store_wf (po_store p)" using ok by (simp add: store_ok_def)
  note rm = outstanding_removed_ok [OF assms(2)]
  have rm0: "post_ok env (p\<lparr>po_outstanding := bm_remove n (po_outstanding p)\<rparr>)" for n
    using rm [OF ok(1), of n] by simp
  show ?thesis using assms(1)
  proof cases
    case ps_challenge
    thus ?thesis using challenge_ok [OF ok(2)] ok(1) by (metis post_ok_def)
  next
    case ps_deposit
    thus ?thesis using deposit_ok [OF assms(2)] by blast
  next
    case ps_fetch
    thus ?thesis using fetch_effect assms(2) rm0 by metis
  next
    case (ps_acknowledge ack now r3)
    have "store_ok env store" if "st_drop_all d ids (po_store p) = (n, store)" for d ids n store
      using ok(1) drop_all_spec(1,2) [OF wf that] box.drop_keeps_room [OF wf that]
      by (auto simp: store_ok_def restrict_map_def split: if_splits)
    thus ?thesis using acknowledge_effect [OF ps_acknowledge] assms(2) rm rm0 by metis
  next
    case (ps_block block now r4)
    thus ?thesis using block_effect [OF ps_block] assms(2) rm rm0 ok(1) set_block_ok by metis
  next
    case (ps_sweep now n)
    obtain store where sw: "st_sweep now (po_store p) = (n, store)"
      "p' = (expire_challenges now p)\<lparr>po_store := store\<rparr>"
      using ps_sweep by (auto simp: post_sweep_def Let_def expire_challenges_def split: prod.splits)
    have "store_ok env store"
      using ok(1) sweep_spec [OF wf sw(1)] box.sweep_keeps_room [OF wf sw(1)]
      by (auto simp: store_ok_def split: option.splits if_splits)
    thus ?thesis using tables_fewer [OF ok(2)] sw(2) by (simp add: post_ok_def expire_challenges_def)
  qed
qed

lemma new_post_ok: "post_ok env (post_new st_new)"
  by (simp add: post_ok_def post_new_def st_new_def store_ok_def store_wf_def box_slot_def tables_ok_def held_for_def)

lemma post_run_ok: "(post_step env avoid)\<^sup>*\<^sup>* p p' \<Longrightarrow> post_ok env p \<Longrightarrow> post_ok env p'"
  by (induction rule: rtranclp_induct) (auto intro: step_ok)

section \<open>Challenges are single-use here too\<close>

definition open_nonces :: "post \<Rightarrow> bytes set" where
  "open_nonces p = bm_keys (po_outstanding p)"

definition post_spend :: "bytes \<Rightarrow> string \<times> u64 \<Rightarrow> post \<Rightarrow> post_challenge option \<times> post" where
  "post_spend nonce at p =
    (case take_challenge nonce (fst at) (snd at) p of
       (Inl _, p') \<Rightarrow> (None, p') | (Inr c, p') \<Rightarrow> (Some c, p'))"

interpretation post_book: single_use open_nonces post_spend
proof
  fix n t p c p' r
  show "n \<in> open_nonces p" if "post_spend n t p = (Some c, p')"
    using that take_challenge_Inr by (fastforce simp: post_spend_def open_nonces_def bm_keys_get split: prod.splits sum.splits)
  show "open_nonces p' = open_nonces p - {n}" if "post_spend n t p = (r, p')"
    using that take_challenge_effect
    by (fastforce simp: post_spend_def open_nonces_def map_simps split: prod.splits sum.splits)
qed

text \<open>An answer is given only to a nonce that was open, and closes it.\<close>

lemma answered_spends:
  "post_fetch env fetch now p = (Inr waiting, p') \<Longrightarrow>
     fst (post_spend (sf_nonce fetch) (sf_device fetch, now) p) \<noteq> None \<and> open_nonces p' = open_nonces p - {sf_nonce fetch}"
  "post_acknowledge env ack now p = (Inr n, p') \<Longrightarrow>
     fst (post_spend (sa_nonce ack) (sa_device ack, now) p) \<noteq> None \<and> open_nonces p' = open_nonces p - {sa_nonce ack}"
  "post_block env block now p = (Inr u, p') \<Longrightarrow>
     fst (post_spend (sb_nonce block) (sb_device block, now) p) \<noteq> None \<and> open_nonces p' = open_nonces p - {sb_nonce block}"
  by (auto simp: post_fetch_def post_acknowledge_def post_block_def post_spend_def Let_def open_nonces_def map_simps
      split: sum.splits prod.splits dest!: take_challenge_effect)

lemma fewer_nonces: "bm_keys (filter P m) \<subseteq> bm_keys m"
  by (auto simp: bm_keys_def)

lemma challenge_nonces:
  assumes "post_challenge_for env device now drawn p = (r, p')"
  shows "open_nonces p' \<subseteq> open_nonces p \<union> set_option drawn"
proof -
  let ?m = "po_outstanding (expire_challenges now p)"
  have e: "bm_keys ?m \<subseteq> bm_keys (po_outstanding p)" by (simp add: expire_challenges_def fewer_nonces)
  moreover have "bm_keys (evict_oldest ?m) \<subseteq> bm_keys ?m" using evict_oldest_filter fewer_nonces by metis
  ultimately show ?thesis using assms
    by (auto simp: post_challenge_for_def Let_def open_nonces_def map_simps
        split: sum.splits option.splits if_splits)
qed

lemma admit_outstanding: "admit_deposit sender recipient now p = (r, p') \<Longrightarrow> po_outstanding p' = po_outstanding p"
  by (auto simp: admit_deposit_def Let_def split: if_splits option.splits)

lemma deposit_outstanding: "post_deposit env request now p = (r, p') \<Longrightarrow> po_outstanding p' = po_outstanding p"
  by (auto simp: post_deposit_def Let_def charge_sender_def split: if_splits sum.splits prod.splits
      dest!: admit_outstanding)

lemma step_nonces:
  assumes "post_step env avoid p p'"
  shows "open_nonces p' \<inter> avoid \<subseteq> open_nonces p"
  using assms
proof cases
  case ps_challenge
  thus ?thesis using challenge_nonces by fastforce
next
  case ps_deposit
  thus ?thesis by (auto simp: open_nonces_def dest!: deposit_outstanding)
next
  case ps_fetch
  thus ?thesis by (auto simp: open_nonces_def map_simps dest!: fetch_effect)
next
  case ps_acknowledge
  thus ?thesis by (auto simp: open_nonces_def map_simps dest!: acknowledge_effect)
next
  case ps_block
  thus ?thesis by (auto simp: open_nonces_def map_simps dest!: block_effect)
next
  case (ps_sweep now n)
  hence "po_outstanding p' = po_outstanding (expire_challenges now p)"
    by (auto simp: post_sweep_def Let_def split: prod.splits)
  thus ?thesis using fewer_nonces by (fastforce simp: open_nonces_def expire_challenges_def)
qed

lemma steps_nonces: "(post_step env avoid)\<^sup>*\<^sup>* p p' \<Longrightarrow> open_nonces p' \<inter> avoid \<subseteq> open_nonces p"
  by (induction rule: rtranclp_induct) (use step_nonces in fastforce)+

section \<open>What the carrier promises\<close>

text \<open>C21: The post's state is bounded whatever it is asked. In every state reached from an empty post, no
  mailbox holds more than 256 deposits of at most 256 KiB, no more than 16384 challenges are outstanding
  and no more than 8 for any device, and the rate table tracks at most 4096 senders with at most 32 marks
  each, which is also what one sender may deposit in a window.\<close>

theorem post_stays_bounded:
  assumes "(post_step env {})\<^sup>*\<^sup>* (post_new st_new) p"
  shows "st_count device (po_store p) \<le> 256
    \<and> (\<forall>held \<in> set (st_list device now (po_store p)). length (en_sealed (dp_envelope held)) \<le> 256 * 1024)
    \<and> length (po_outstanding p) \<le> 16384 \<and> held_for device (po_outstanding p) \<le> 8
    \<and> length (po_recent p) \<le> 4096 \<and> (\<forall>(sender, seen) \<in> set (po_recent p). length seen \<le> 32)"
proof -
  have ok: "store_ok env (po_store p)" "tables_ok p" using post_run_ok [OF assms new_post_ok] by (simp_all add: post_ok_def)
  hence wf: "store_wf (po_store p)" by (simp add: store_ok_def)
  have "length (en_sealed (dp_envelope held)) \<le> 256 * 1024" if held: "held \<in> set (st_list device now (po_store p))" for held
  proof -
    obtain i where "(i, held) \<in> set (mailbox device (po_store p))" using held by (auto simp: st_list_def)
    hence "box_slot (po_store p) (device_key device) i = Some held"
      using bm_get_iff [OF mailbox_wf [OF wf]] by (metis mailbox_slot)
    thus ?thesis using ok(1) by (simp add: store_ok_def filed_def MAX_ENVELOPE_def)
  qed
  moreover have "st_count device (po_store p) \<le> 256"
    using ok(1) by (simp add: count_spec [OF wf] store_ok_def MAX_MAILBOX_DEPOSITS_def)
  ultimately show ?thesis using ok(2) by (force simp: tables_ok_def post_bounds)
qed

text \<open>C19: A mailbox is read by its owner and nobody else. When a fetch is answered, the key of the device it
  names verifies the signature over a challenge that was issued for that device and is not expired; and
  what it is answered is addressed to that device, not expired, and was signed by the sender it names.\<close>

theorem mailbox_read_by_owner_only:
  assumes "(post_step env {})\<^sup>*\<^sup>* (post_new st_new) p"
    and "post_fetch env request now p = (Inr waiting, p')"
  shows "(\<exists>key c. post_key env (sf_device request) = Inr key \<and> map_of (po_outstanding p) (sf_nonce request) = Some c
      \<and> device_key (pg_device c) = device_key (sf_device request) \<and> unexpired now c
      \<and> verify_detached env key (challenge_preimage c FETCH_DOMAIN) (sf_signature request))
    \<and> (\<forall>held \<in> set waiting. device_key (en_recipient (dp_envelope held)) = device_key (sf_device request)
      \<and> now < en_expires_at (dp_envelope held) \<and> signed_by_sender env held)"
proof -
  have ok: "store_ok env (po_store p)" using post_run_ok [OF assms(1) new_post_ok] by (simp add: post_ok_def)
  hence wf: "store_wf (po_store p)" by (simp add: store_ok_def)
  obtain key c q where f: "post_key env (sf_device request) = Inr key"
    "take_challenge (sf_nonce request) (sf_device request) now p = (Inr c, q)"
    "post_verify env (sf_device request) (challenge_preimage c FETCH_DOMAIN) (sf_signature request) = Inr ()"
    "waiting = st_list (sf_device request) now (po_store q)"
    using assms(2) by (auto simp: post_fetch_def split: sum.splits prod.splits)
  have q: "po_store q = po_store p" using take_challenge_effect [OF f(2)] by simp
  have "filed env (device_key (sf_device request)) i held"
    if "(i, held) \<in> set (mailbox (sf_device request) (po_store p))" for i held
    using that ok bm_get_iff [OF mailbox_wf [OF wf]] by (metis mailbox_slot store_ok_def)
  hence "\<forall>held \<in> set waiting. device_key (en_recipient (dp_envelope held)) = device_key (sf_device request)
      \<and> now < en_expires_at (dp_envelope held) \<and> signed_by_sender env held"
    by (fastforce simp: f(4) q st_list_def deliverable_def filed_def)
  moreover have "verify_detached env key (challenge_preimage c FETCH_DOMAIN) (sf_signature request)"
    using f(1,3) by (simp add: post_verify_def split: if_splits)
  ultimately show ?thesis using take_challenge_Inr [OF f(2)] f(1) by blast
qed

lemma acknowledge_drops:
  assumes "post_acknowledge env ack now p = (r, p')" "store_wf (po_store p)"
    and "box_slot (po_store p) k i = Some held" "box_slot (po_store p') k i = None"
  shows "\<exists>n key c. r = Inr n \<and> device_key (sa_device ack) = k \<and> i \<in> set (sa_deposits ack)
    \<and> map_of (po_outstanding p) (sa_nonce ack) = Some c \<and> device_key (pg_device c) = k
    \<and> post_key env (sa_device ack) = Inr key \<and> verify_detached env key (ack_preimage ack) (sa_signature ack)"
proof -
  obtain n store where d: "r = Inr n"
    "st_drop_all (sa_device ack) (sa_deposits ack) (po_store p) = (n, store)" "po_store p' = store"
    using acknowledge_effect [OF assms(1)] assms(3,4) by auto
  obtain key c q where "post_key env (sa_device ack) = Inr key"
    "take_challenge (sa_nonce ack) (sa_device ack) now p = (Inr c, q)"
    "post_verify env (sa_device ack) (ack_preimage ack) (sa_signature ack) = Inr ()"
    using assms(1) d(1) by (auto simp: post_acknowledge_def split: sum.splits prod.splits)
  moreover have "k = device_key (sa_device ack) \<and> i \<in> set (sa_deposits ack)"
    using box.drop_frame [OF assms(2) d(2) assms(3)] assms(4) d(3) by simp
  ultimately show ?thesis using d(1)
    by (intro exI [of _ n] exI [of _ key] exI [of _ c])
      (auto simp: post_verify_def split: if_splits dest!: take_challenge_Inr)
qed

text \<open>A held deposit leaves a mailbox in two ways only: a sweep at or after the expiry its envelope
  carries, or an acknowledgement that names it and that the key of the mailbox's own device signed, over a
  challenge issued for that device.\<close>

theorem deposit_leaves_by_owner_or_expiry:
  assumes "(post_step env {})\<^sup>*\<^sup>* (post_new st_new) p" and "post_step env {} p p'"
    and "box_slot (po_store p) k i = Some held" "box_slot (po_store p') k i = None"
  shows "(\<exists>now n. post_sweep now p = (n, p') \<and> en_expires_at (dp_envelope held) \<le> now)
    \<or> (\<exists>ack now n key c. post_acknowledge env ack now p = (Inr n, p') \<and> device_key (sa_device ack) = k
        \<and> i \<in> set (sa_deposits ack) \<and> map_of (po_outstanding p) (sa_nonce ack) = Some c
        \<and> device_key (pg_device c) = k \<and> post_key env (sa_device ack) = Inr key
        \<and> verify_detached env key (ack_preimage ack) (sa_signature ack))"
proof -
  have ok: "post_ok env p" using post_run_ok [OF assms(1) new_post_ok] .
  hence wf: "store_wf (po_store p)" and t: "tables_ok p" by (simp_all add: post_ok_def store_ok_def)
  have same: "po_store p' \<noteq> po_store p" using assms(3,4) by auto
  from assms(2) show ?thesis
  proof cases
    case ps_challenge
    thus ?thesis using challenge_ok(2) [OF t] same by blast
  next
    case (ps_deposit deposit now r)
    from this t show ?thesis
    proof (cases rule: deposit_cases)
      case (accepted j q store)
      hence "box_slot (po_store p') k i \<noteq> None"
        using assms(3) put_spec(3) [OF wf, of env "sd_sender deposit" "sd_envelope deposit" now j store k]
        by (auto simp: charge_sender_def Let_def split: if_splits)
      thus ?thesis using assms(4) by simp
    qed (use same in simp)
  next
    case ps_fetch
    thus ?thesis using fetch_effect same by fastforce
  next
    case (ps_acknowledge ack now r)
    from acknowledge_drops [OF this wf assms(3,4)] show ?thesis using ps_acknowledge by blast
  next
    case (ps_block block now r)
    have "box_slot (po_store p') k i = box_slot (po_store p) k i"
      using block_effect [OF ps_block] by (auto simp: box_slot_def set_block_held)
    thus ?thesis using assms(3,4) by simp
  next
    case (ps_sweep now n)
    then obtain store where "st_sweep now (po_store p) = (n, store)" "po_store p' = store"
      by (auto simp: post_sweep_def Let_def expire_challenges_def split: prod.splits)
    hence "\<not> deliverable now held" using box.sweep_frame [OF wf _ assms(3)] assms(4) by blast
    thus ?thesis using ps_sweep by (auto simp: deliverable_def not_less)
  qed
qed

definition with_block :: "post \<Rightarrow> signed_deposit \<Rightarrow> bool \<Rightarrow> post" where
  \<comment> \<open>the recipient of this deposit has, or has not, blocked its sender\<close>
  "with_block p request blocked =
    p\<lparr>po_store := st_set_block (en_recipient (sd_envelope request)) (sd_sender request) blocked (po_store p)\<rparr>"

lemma set_block_is_blocked: "st_is_blocked recipient sender (st_set_block recipient sender blocked s) = blocked"
  by (auto simp: st_is_blocked_def st_set_block_def Let_def map_simps split: option.splits)

lemma admit_deposit_store:
  assumes "st_held st = st_held (po_store p)"
  shows "admit_deposit sender recipient now (p\<lparr>po_store := st\<rparr>)
    = map_prod id (\<lambda>q. q\<lparr>po_store := st\<rparr>) (admit_deposit sender recipient now p)"
proof -
  have "prune_recent now (p\<lparr>po_store := st\<rparr>) = (prune_recent now p)\<lparr>po_store := st\<rparr>"
    by (simp add: prune_recent_def Let_def)
  moreover have "st_count recipient st = st_count recipient (po_store p)"
    using assms by (simp add: st_count_def mailbox_def)
  ultimately show ?thesis by (simp add: admit_deposit_def Let_def split: option.splits)
qed

definition deposit_screen :: "kin_env \<Rightarrow> signed_deposit \<Rightarrow> u64 \<Rightarrow> post_refusal option" where
  \<comment> \<open>what is refused before the state is looked at\<close>
  "deposit_screen env request now =
    (let e = sd_envelope request; sender = sd_sender request
     in if MAX_ENVELOPE < length (en_sealed e) then Some PostTooLarge
        else if en_expires_at e \<le> now \<or> MAX_RETENTION < saturating_sub (en_expires_at e) now then Some UnusableExpiry
        else case post_key env (en_recipient e) of
          Inl r \<Rightarrow> Some r
        | Inr _ \<Rightarrow> (case post_verify env sender (envelope_preimage e sender) (sd_signature request) of
                     Inl r \<Rightarrow> Some r | Inr _ \<Rightarrow> None))"

lemma deposit_screened: "deposit_screen env request now = Some x \<Longrightarrow> post_deposit env request now p = (Inl x, p)"
  by (auto simp: deposit_screen_def post_deposit_def Let_def split: if_splits sum.splits)

lemma deposit_unscreened:
  assumes "deposit_screen env request now = None"
    and "admit_deposit (sd_sender request) (en_recipient (sd_envelope request)) now p = (r, q)"
  shows "post_deposit env request now p =
    (case r of
       Inl x \<Rightarrow> (Inl x, q)
     | Inr _ \<Rightarrow>
         (Inr (deposit_id env (sd_sender request) (sd_envelope request)),
          charge_sender (sd_sender request) now (q\<lparr>po_store :=
            if st_is_blocked (en_recipient (sd_envelope request)) (sd_sender request) (po_store q) then po_store q
            else snd (st_put env (sd_sender request) (sd_envelope request) now (po_store q))\<rparr>)))"
  using assms
  by (auto simp: deposit_screen_def post_deposit_def Let_def st_put_def split: if_splits sum.splits)

lemma charge_sender_store: "charge_sender sender now (q\<lparr>po_store := st\<rparr>) = (charge_sender sender now q)\<lparr>po_store := st\<rparr>"
  by (simp add: charge_sender_def Let_def)

lemma deposit_with_block:
  assumes "admit_deposit (sd_sender request) (en_recipient (sd_envelope request)) now p = (r, q)"
  shows "\<exists>out. \<forall>blocked. \<exists>st.
    post_deposit env request now (with_block p request blocked) = (fst out, (snd out)\<lparr>po_store := st\<rparr>)
    \<and> (blocked \<longrightarrow> st_held st = st_held (po_store p))"
proof -
  let ?e = "sd_envelope request" and ?s = "sd_sender request"
  let ?st = "\<lambda>blocked. st_set_block (en_recipient ?e) ?s blocked (po_store p)"
  have adm: "admit_deposit ?s (en_recipient ?e) now (with_block p request blocked) = (r, q\<lparr>po_store := ?st blocked\<rparr>)" for blocked
    unfolding with_block_def by (subst admit_deposit_store) (simp_all add: assms set_block_held)
  show ?thesis
  proof (cases "deposit_screen env request now")
    case (Some x)
    thus ?thesis by (intro exI [of _ "(Inl x, p)"]) (auto simp: deposit_screened with_block_def set_block_held)
  next
    case None
    note dep = deposit_unscreened [OF None adm]
    show ?thesis
    proof (cases r)
      case (Inl x)
      thus ?thesis by (intro exI [of _ "(Inl x, q)"] allI) (auto simp: dep set_block_held intro!: exI [of _ "?st b" for b])
    next
      case (Inr u)
      thus ?thesis
        by (intro exI [of _ "(Inr (deposit_id env ?s ?e), charge_sender ?s now q)"] allI)
          (auto simp: dep set_block_is_blocked charge_sender_store set_block_held intro!: exI)
    qed
  qed
qed

text \<open>C40: a blocked sender cannot tell. Two posts that differ only in whether the recipient has blocked
  the sender give the same answer to the same deposit and keep the same challenges and the same rate
  marks; and the post where the sender is blocked leaves every mailbox as it was.\<close>

theorem blocked_sender_cannot_tell:
  "fst (post_deposit env request now (with_block p request True)) = fst (post_deposit env request now (with_block p request False))
    \<and> po_recent (snd (post_deposit env request now (with_block p request True)))
      = po_recent (snd (post_deposit env request now (with_block p request False)))
    \<and> po_outstanding (snd (post_deposit env request now (with_block p request True)))
      = po_outstanding (snd (post_deposit env request now (with_block p request False)))
    \<and> st_held (po_store (snd (post_deposit env request now (with_block p request True)))) = st_held (po_store p)"
proof -
  obtain r q where "admit_deposit (sd_sender request) (en_recipient (sd_envelope request)) now p = (r, q)" by fastforce
  from deposit_with_block [OF this, of env] obtain out where out: "\<forall>blocked. \<exists>st.
      post_deposit env request now (with_block p request blocked) = (fst out, (snd out)\<lparr>po_store := st\<rparr>)
      \<and> (blocked \<longrightarrow> st_held st = st_held (po_store p))" by blast
  from out [THEN spec, of True] out [THEN spec, of False] show ?thesis by auto
qed

lemma refused_unless: "(\<And>x p'. op = (Inr x, p') \<Longrightarrow> False) \<Longrightarrow> isl (fst op)"
  by (cases op; cases "fst op") auto

text \<open>A nonce is answered at most once. After a fetch, an acknowledgement or a block was accepted under
  a nonce, no later fetch, acknowledgement or block with it is accepted, by anyone, whatever comes between,
  as long as the post does not draw the same nonce again.\<close>

theorem post_nonce_answered_once:
  assumes "post_fetch env fetch now p = (Inr waiting, p1) \<and> nonce = sf_nonce fetch \<or>
      post_acknowledge env ack now p = (Inr n, p1) \<and> nonce = sa_nonce ack \<or>
      post_block env block now p = (Inr u, p1) \<and> nonce = sb_nonce block"
    and "(post_step env {nonce})\<^sup>*\<^sup>* p1 p2"
  shows "(sf_nonce fetch' = nonce \<longrightarrow> isl (fst (post_fetch env fetch' now' p2))) \<and>
    (sa_nonce ack' = nonce \<longrightarrow> isl (fst (post_acknowledge env ack' now' p2))) \<and>
    (sb_nonce block' = nonce \<longrightarrow> isl (fst (post_block env block' now' p2)))"
proof -
  have "nonce \<notin> open_nonces p1" using assms(1) by (auto dest!: answered_spends)
  hence closed: "nonce \<notin> open_nonces p2" using steps_nonces [OF assms(2)] by blast
  have spent: "fst (post_spend nonce at p2) = None" for at
    using closed post_book.spend_known by (metis not_Some_eq prod.collapse)
  have "isl (fst (post_fetch env fetch' now' p2))" if n: "sf_nonce fetch' = nonce"
    by (rule refused_unless) (drule answered_spends(1), simp add: n spent)
  moreover have "isl (fst (post_acknowledge env ack' now' p2))" if n: "sa_nonce ack' = nonce"
    by (rule refused_unless) (drule answered_spends(2), simp add: n spent)
  moreover have "isl (fst (post_block env block' now' p2))" if n: "sb_nonce block' = nonce"
    by (rule refused_unless) (drule answered_spends(3), simp add: n spent)
  ultimately show ?thesis by blast
qed

section \<open>Locking a device out\<close>

lemma length_filter_insert_fresh:
  "k \<notin> bm_keys m \<Longrightarrow> length (filter P (bm_insert k v m)) = length (filter P m) + (if P (k, v) then 1 else 0)"
  by (induction k v m rule: bm_insert.induct) (auto simp: bm_keys_def)

definition asked_at :: "string \<Rightarrow> u64 \<Rightarrow> bytes \<times> post_challenge \<Rightarrow> bool" where
  "asked_at device now = (\<lambda>(_, c). device_key (pg_device c) = device_key device \<and> pg_issued_at c = now)"

lemma one_more_challenge:
  assumes "post_key env device = Inr key" "nonce \<notin> bm_keys (po_outstanding p)"
    and "held_for device (po_outstanding p) < POST_CHALLENGES_PER_DEVICE"
    and "length (po_outstanding p) < MAX_OUTSTANDING_CHALLENGES"
    and m_def: "m = po_outstanding (snd (post_challenge_for env device now (Some nonce) p))"
  shows "length (filter (asked_at device now) m) = Suc (length (filter (asked_at device now) (po_outstanding p)))"
    and "held_for device m \<le> Suc (held_for device (po_outstanding p))"
    and "length m \<le> Suc (length (po_outstanding p))"
    and "bm_keys m \<subseteq> insert nonce (bm_keys (po_outstanding p))"
proof -
  let ?c = "\<lparr>pg_device = device, pg_nonce = nonce, pg_issued_at = now\<rparr>"
  let ?live = "filter (\<lambda>(_, held). unexpired now held) (po_outstanding p)"
  have h: "held_for device ?live \<le> held_for device (po_outstanding p)" by (rule held_for_filter)
  have l: "length ?live \<le> length (po_outstanding p)" by simp
  have ev: "evict_oldest ?live = ?live"
    unfolding evict_oldest_def by (rule if_not_P) (use l assms(4) in linarith)
  have m: "m = bm_insert nonce ?c ?live"
    unfolding m_def post_challenge_for_def assms(1) Let_def expire_challenges_def
    using assms(3) h ev by simp
  have fresh: "nonce \<notin> bm_keys ?live"
    using fewer_nonces [of "\<lambda>(_, held). unexpired now held" "po_outstanding p"] assms(2) by (meson subsetD)
  have "filter (asked_at device now) ?live = filter (asked_at device now) (po_outstanding p)"
    by (auto simp: asked_at_def unexpired_def intro!: filter_cong)
  thus "length (filter (asked_at device now) m) = Suc (length (filter (asked_at device now) (po_outstanding p)))"
    unfolding m using length_filter_insert_fresh [OF fresh, of "asked_at device now" ?c] by (simp add: asked_at_def)
  show "held_for device m \<le> Suc (held_for device (po_outstanding p))"
    using length_filter_insert_fresh [OF fresh, of "\<lambda>(_, held). device_key (pg_device held) = device_key device" ?c] h
    by (simp add: m held_for_def)
  show "length m \<le> Suc (length (po_outstanding p))"
    unfolding m using length_bm_insert [of nonce ?c ?live] l by linarith
  show "bm_keys m \<subseteq> insert nonce (bm_keys (po_outstanding p))"
    using fewer_nonces [of "\<lambda>(_, held). unexpired now held" "po_outstanding p"] unfolding m map_simps by (meson insert_mono)
qed

lemma asked_all:
  assumes "post_key env device = Inr key" "distinct nonces" "set nonces \<inter> bm_keys (po_outstanding p) = {}"
    and "held_for device (po_outstanding p) + length nonces \<le> POST_CHALLENGES_PER_DEVICE"
    and "length (po_outstanding p) + length nonces \<le> MAX_OUTSTANDING_CHALLENGES"
  shows "length (filter (asked_at device now) (po_outstanding p)) + length nonces
    \<le> length (filter (asked_at device now)
        (po_outstanding (fold (\<lambda>n p. snd (post_challenge_for env device now (Some n) p)) nonces p)))"
  using assms
proof (induction nonces arbitrary: p)
  case (Cons n nonces)
  let ?p = "snd (post_challenge_for env device now (Some n) p)"
  have "n \<notin> bm_keys (po_outstanding p)" "held_for device (po_outstanding p) < POST_CHALLENGES_PER_DEVICE"
    "length (po_outstanding p) < MAX_OUTSTANDING_CHALLENGES" using Cons.prems by auto
  note more = one_more_challenge [OF Cons.prems(1) this refl, of now]
  have "length (filter (asked_at device now) (po_outstanding ?p)) + length nonces
      \<le> length (filter (asked_at device now)
          (po_outstanding (fold (\<lambda>n p. snd (post_challenge_for env device now (Some n) p)) nonces ?p)))"
    using Cons.prems more by (intro Cons.IH) auto
  thus ?case using more(1) by simp
qed simp

text \<open>C22: Eight unauthenticated requests lock a device out. A challenge costs nothing and needs no
  signature, and the bound on challenges per device refuses the newest: whoever asks for eight challenges
  naming somebody else's device leaves that device without one for the next minute, and a challenge is the
  only way to fetch, to acknowledge or to block. Asked again every minute, the device never reads its mail.\<close>

theorem eight_requests_lock_a_device_out:
  assumes "post_key env device = Inr key" "held_for device (po_outstanding p) = 0"
    and "length (po_outstanding p) + 8 \<le> MAX_OUTSTANDING_CHALLENGES"
    and "distinct nonces" "length nonces = 8" "set nonces \<inter> bm_keys (po_outstanding p) = {}"
    and "now \<le> now'" "now' - now \<le> 60"
  shows "fst (post_challenge_for env device now' (Some nonce)
    (fold (\<lambda>n p. snd (post_challenge_for env device now (Some n) p)) nonces p)) = Inl AtCapacity"
proof -
  let ?m = "po_outstanding (fold (\<lambda>n p. snd (post_challenge_for env device now (Some n) p)) nonces p)"
  have "8 \<le> length (filter (asked_at device now) ?m)"
    using asked_all [OF assms(1,4,6), of now] assms(2,3,5) by (simp add: POST_CHALLENGES_PER_DEVICE_def)
  also have "filter (asked_at device now) ?m
    = filter (asked_at device now) (filter (\<lambda>(_, held). unexpired now' held) ?m)"
    using assms(7,8) by (auto simp: asked_at_def unexpired_def saturating_sub_def POST_CHALLENGE_TTL_def intro!: filter_cong)
  also have "length \<dots> \<le> held_for device (filter (\<lambda>(_, held). unexpired now' held) ?m)"
  proof -
    have "filter (asked_at device now) xs = filter (asked_at device now)
        (filter (\<lambda>(_, held). device_key (pg_device held) = device_key device) xs)" for xs
      by (auto simp: asked_at_def intro!: filter_cong)
    thus ?thesis unfolding held_for_def by (metis length_filter_le)
  qed
  finally show ?thesis using assms(1)
    by (simp add: post_challenge_for_def Let_def expire_challenges_def POST_CHALLENGES_PER_DEVICE_def)
qed

section \<open>Deposit, fetch, acknowledge\<close>

definition post_signer :: "kin_env \<Rightarrow> bytes \<Rightarrow> bool" where
  \<comment> \<open>a seed whose signatures verify and whose device id is spelled canonically\<close>
  "post_signer env seed \<longleftrightarrow> signing_ok env seed \<and> lower_hex (device_from_seed env seed)"

lemma post_signer_key:
  assumes "post_signer env seed"
  shows "post_key env (device_from_seed env seed) = Inr (ke_public env seed)"
    and "post_verify env (device_from_seed env seed) m (sign_detached env seed m) = Inr ()"
proof -
  show k: "post_key env (device_from_seed env seed) = Inr (ke_public env seed)"
    using assms device_parse_canonical by (simp add: post_key_def post_signer_def signing_ok_def)
  show "post_verify env (device_from_seed env seed) m (sign_detached env seed m) = Inr ()"
    using assms by (simp add: post_verify_def k post_signer_def signing_ok_def)
qed

definition may_deposit :: "string \<Rightarrow> string \<Rightarrow> u64 \<Rightarrow> post \<Rightarrow> bool" where
  \<comment> \<open>room in the mailbox and in the sender's window\<close>
  "may_deposit sender recipient now p \<longleftrightarrow> st_count recipient (po_store p) < MAX_MAILBOX_DEPOSITS
    \<and> (\<forall>seen. map_of (po_recent (prune_recent now p)) (device_key sender) = Some seen \<longrightarrow>
        length seen < MAX_DEPOSITS_PER_WINDOW)"

lemma may_deposit_admitted:
  "may_deposit sender recipient now p \<Longrightarrow> \<exists>q. admit_deposit sender recipient now p = (Inr (), q)"
  by (auto simp: may_deposit_def admit_deposit_def Let_def not_le split: option.splits)

lemma challenge_issued_post:
  assumes "post_key env device = Inr key" "held_for device (po_outstanding p) < POST_CHALLENGES_PER_DEVICE"
    and "c = \<lparr>pg_device = device, pg_nonce = nonce, pg_issued_at = now\<rparr>"
  shows "\<exists>P. post_challenge_for env device now (Some nonce) p
      = (Inr c, p\<lparr>po_outstanding := bm_insert nonce c (filter P (po_outstanding p))\<rparr>)"
proof -
  let ?live = "filter (\<lambda>(_, held). unexpired now held) (po_outstanding p)"
  obtain Q where Q: "evict_oldest ?live = filter Q ?live" using evict_oldest_filter by blast
  have "held_for device ?live < POST_CHALLENGES_PER_DEVICE"
    using held_for_filter assms(2) by (rule le_less_trans)
  hence "post_challenge_for env device now (Some nonce) p
      = (Inr c, p\<lparr>po_outstanding := bm_insert nonce c (filter Q ?live)\<rparr>)"
    by (simp add: post_challenge_for_def assms(1,3) Let_def expire_challenges_def Q [simplified])
  thus ?thesis by (metis filter_filter)
qed

lemma take_issued:
  assumes "c = \<lparr>pg_device = device, pg_nonce = nonce, pg_issued_at = now\<rparr>"
  shows "take_challenge nonce device now (p\<lparr>po_outstanding := bm_insert nonce c m\<rparr>)
    = (Inr c, p\<lparr>po_outstanding := bm_remove nonce m\<rparr>)"
  by (simp add: take_challenge_def map_simps Let_def assms unexpired_def remove_insert)

text \<open>Asking for a challenge and answering it at once.\<close>

lemma challenge_then_take:
  assumes "post_signer env seed" "held_for (device_from_seed env seed) (po_outstanding p) < POST_CHALLENGES_PER_DEVICE"
  shows "\<exists>c p' P. post_challenge_for env (device_from_seed env seed) now (Some nonce) p = (Inr c, p')
    \<and> pg_device c = device_from_seed env seed \<and> pg_nonce c = nonce
    \<and> take_challenge nonce (device_from_seed env seed) now p'
        = (Inr c, p\<lparr>po_outstanding := filter P (po_outstanding p)\<rparr>)"
proof -
  let ?c = "\<lparr>pg_device = device_from_seed env seed, pg_nonce = nonce, pg_issued_at = now\<rparr>"
  obtain P where P: "post_challenge_for env (device_from_seed env seed) now (Some nonce) p
      = (Inr ?c, p\<lparr>po_outstanding := bm_insert nonce ?c (filter P (po_outstanding p))\<rparr>)"
    using challenge_issued_post [OF post_signer_key(1) [OF assms(1)] assms(2) refl] by blast
  have "bm_remove nonce (filter P (po_outstanding p)) = filter (\<lambda>x. P x \<and> fst x \<noteq> nonce) (po_outstanding p)"
    by (auto simp: bm_remove_def intro!: filter_cong)
  thus ?thesis using P take_issued [of ?c "device_from_seed env seed" nonce now "filter P (po_outstanding p)" p]
    by (intro exI [of _ ?c] exI [of _ "p\<lparr>po_outstanding := bm_insert nonce ?c (filter P (po_outstanding p))\<rparr>"]
        exI [of _ "\<lambda>x. P x \<and> fst x \<noteq> nonce"]) auto
qed

lemma listed_slot: "store_wf st \<Longrightarrow> held \<in> set (st_list device t st) \<longleftrightarrow>
    deliverable t held \<and> (\<exists>i. box_slot st (device_key device) i = Some held)"
  using bm_get_iff [OF mailbox_wf [of st device]] by (force simp: st_list_def simp flip: mailbox_slot)

lemma deposit_works:
  assumes "post_ok env p" "post_signer env s" "post_signer env r" "en_recipient e = device_from_seed env r"
    and "length (en_sealed e) \<le> MAX_ENVELOPE" "now < en_expires_at e" "saturating_sub (en_expires_at e) now \<le> MAX_RETENTION"
    and "\<not> st_is_blocked (device_from_seed env r) (device_from_seed env s) (po_store p)"
    and "may_deposit (device_from_seed env s) (device_from_seed env r) now p"
  shows "\<exists>i p1. post_deposit env (sign_deposit env s e) now p = (Inr i, p1) \<and> post_ok env p1
    \<and> po_outstanding p1 = po_outstanding p
    \<and> box_slot (po_store p1) (device_key (device_from_seed env r)) i
      = Some \<lparr>dp_id = i, dp_sender = device_from_seed env s, dp_envelope = e, dp_at = now\<rparr>"
proof -
  let ?s = "device_from_seed env s" and ?r = "device_from_seed env r" and ?q = "sign_deposit env s e"
  let ?i = "deposit_id env ?s e"
  obtain q where q: "admit_deposit ?s ?r now p = (Inr (), q)" using may_deposit_admitted assms(9) by blast
  have t: "tables_ok p" and wf: "store_wf (po_store p)" using assms(1) by (simp_all add: post_ok_def store_ok_def)
  note qs = admit_deposit_ok(2,3) [OF t q]
  obtain store where put: "st_put env ?s e now (po_store p) = (?i, store)" by (simp add: st_put_def Let_def)
  have "deposit_screen env ?q now = None"
    using assms(5-7) post_signer_key(2) [OF assms(2)] post_signer_key(1) [OF assms(3)]
    by (simp add: deposit_screen_def sign_deposit_def Let_def assms(4) not_le)
  hence dep: "post_deposit env ?q now p = (Inr ?i, charge_sender ?s now (q\<lparr>po_store := store\<rparr>))"
    using deposit_unscreened [of env ?q now p "Inr ()" q] q assms(8) put
    by (simp add: sign_deposit_def Let_def assms(4) qs)
  moreover have "box_slot store (device_key ?r) ?i
      = Some \<lparr>dp_id = ?i, dp_sender = ?s, dp_envelope = e, dp_at = now\<rparr>"
    using put_spec(3) [OF wf put] assms(4) by simp
  ultimately show ?thesis using deposit_ok [OF assms(1) dep] qs by (auto simp: charge_sender_def Let_def)
qed

lemma fetch_works:
  assumes "post_signer env r" "held_for (device_from_seed env r) (po_outstanding p) < POST_CHALLENGES_PER_DEVICE"
  shows "\<exists>c p2 P. post_challenge_for env (device_from_seed env r) now (Some nonce) p = (Inr c, p2)
    \<and> post_fetch env (sign_fetch env r c) now p2
      = (Inr (st_list (device_from_seed env r) now (po_store p)), p\<lparr>po_outstanding := filter P (po_outstanding p)\<rparr>)"
proof -
  obtain c p2 P where "post_challenge_for env (device_from_seed env r) now (Some nonce) p = (Inr c, p2)"
    "pg_device c = device_from_seed env r" "pg_nonce c = nonce"
    "take_challenge nonce (device_from_seed env r) now p2 = (Inr c, p\<lparr>po_outstanding := filter P (po_outstanding p)\<rparr>)"
    using challenge_then_take [OF assms] by blast
  thus ?thesis using post_signer_key [OF assms(1)]
    by (intro exI [of _ c] exI [of _ p2] exI [of _ P]) (simp add: post_fetch_def sign_fetch_def)
qed

lemma acknowledge_works:
  assumes "post_signer env r" "held_for (device_from_seed env r) (po_outstanding p) < POST_CHALLENGES_PER_DEVICE"
    and "post_ok env p" "box_slot (po_store p) (device_key (device_from_seed env r)) i = Some held"
  shows "\<exists>c p1 p2. post_challenge_for env (device_from_seed env r) now (Some nonce) p = (Inr c, p1)
    \<and> post_acknowledge env (sign_acknowledge env r c [i]) now p1 = (Inr 1, p2)
    \<and> (\<forall>t. \<forall>held \<in> set (st_list (device_from_seed env r) t (po_store p2)). dp_id held \<noteq> i)"
proof -
  let ?r = "device_from_seed env r"
  obtain c p1 P where c: "post_challenge_for env ?r now (Some nonce) p = (Inr c, p1)" "pg_device c = ?r" "pg_nonce c = nonce"
    "take_challenge nonce ?r now p1 = (Inr c, p\<lparr>po_outstanding := filter P (po_outstanding p)\<rparr>)"
    using challenge_then_take [OF assms(1,2)] by blast
  obtain n store where dr: "st_drop_all ?r [i] (po_store p) = (n, store)" by fastforce
  have wf: "store_wf (po_store p)" using assms(3) by (simp add: post_ok_def store_ok_def)
  note d = drop_all_spec [OF wf dr]
  have "n = 1" using d(3) assms(4) by (simp add: domI)
  hence "post_acknowledge env (sign_acknowledge env r c [i]) now p1
      = (Inr 1, p\<lparr>po_outstanding := filter P (po_outstanding p), po_store := store\<rparr>)"
    using c post_signer_key [OF assms(1)] dr
    by (simp add: post_acknowledge_def sign_acknowledge_def Let_def ack_preimage_def)
  moreover have "dp_id h \<noteq> i" if "h \<in> set (st_list ?r t store)" for t h
  proof -
    from that obtain j where "box_slot store (device_key ?r) j = Some h" using listed_slot [OF d(1)] by blast
    hence "box_slot (po_store p) (device_key ?r) j = Some h \<and> j \<noteq> i"
      by (auto simp: d(2) restrict_map_def split: if_splits)
    thus ?thesis using assms(3) by (auto simp: post_ok_def store_ok_def filed_def)
  qed
  ultimately show ?thesis using c(1)
    by (intro exI [of _ c] exI [of _ p1] exI [of _ "p\<lparr>po_outstanding := filter P (po_outstanding p), po_store := store\<rparr>"]) simp
qed

text \<open>C20: The post delivers. An envelope a signing device deposits for another, within the size and the
  retention limits, when the recipient has not blocked the sender and neither ceiling is reached, is
  handed to the recipient that asks for a challenge and answers it, any time before its expiry, exactly as
  it was deposited; acknowledging it takes that one deposit and it is never listed again.\<close>

theorem deposit_fetch_acknowledge:
  assumes "(post_step env {})\<^sup>*\<^sup>* (post_new st_new) p"
    and "post_signer env s" "post_signer env r" "en_recipient e = device_from_seed env r"
    and "length (en_sealed e) \<le> MAX_ENVELOPE" "now < en_expires_at e" "saturating_sub (en_expires_at e) now \<le> MAX_RETENTION"
    and "\<not> st_is_blocked (device_from_seed env r) (device_from_seed env s) (po_store p)"
    and "may_deposit (device_from_seed env s) (device_from_seed env r) now p"
    and "held_for (device_from_seed env r) (po_outstanding p) < POST_CHALLENGES_PER_DEVICE" "later < en_expires_at e"
  shows "\<exists>i p1 c p2 waiting p3 c' p4 p5.
      post_deposit env (sign_deposit env s e) now p = (Inr i, p1)
    \<and> post_challenge_for env (device_from_seed env r) later (Some nonce) p1 = (Inr c, p2)
    \<and> post_fetch env (sign_fetch env r c) later p2 = (Inr waiting, p3)
    \<and> \<lparr>dp_id = i, dp_sender = device_from_seed env s, dp_envelope = e, dp_at = now\<rparr> \<in> set waiting
    \<and> post_challenge_for env (device_from_seed env r) later (Some nonce') p3 = (Inr c', p4)
    \<and> post_acknowledge env (sign_acknowledge env r c' [i]) later p4 = (Inr 1, p5)
    \<and> (\<forall>t. \<forall>held \<in> set (st_list (device_from_seed env r) t (po_store p5)). dp_id held \<noteq> i)"
proof -
  let ?s = "device_from_seed env s" and ?r = "device_from_seed env r"
  have ok: "post_ok env p" by (rule post_run_ok [OF assms(1) new_post_ok])
  obtain i p1 where dep: "post_deposit env (sign_deposit env s e) now p = (Inr i, p1)" "post_ok env p1"
    "po_outstanding p1 = po_outstanding p"
    "box_slot (po_store p1) (device_key ?r) i = Some \<lparr>dp_id = i, dp_sender = ?s, dp_envelope = e, dp_at = now\<rparr>"
    using deposit_works [OF ok assms(2-9)] by blast
  obtain c p2 P where fetch: "post_challenge_for env ?r later (Some nonce) p1 = (Inr c, p2)"
    "post_fetch env (sign_fetch env r c) later p2
      = (Inr (st_list ?r later (po_store p1)), p1\<lparr>po_outstanding := filter P (po_outstanding p1)\<rparr>)"
    (is "_ = (_, ?p3)")
    using fetch_works [OF assms(3), of p1 later nonce] assms(10) dep(3) by auto
  have "post_ok env ?p3" using dep(2) tables_fewer [of p1 "po_store p1" P] by (simp add: post_ok_def)
  moreover have "held_for ?r (po_outstanding ?p3) < POST_CHALLENGES_PER_DEVICE"
    using held_for_filter [of ?r P "po_outstanding p1"] assms(10) dep(3) by simp
  ultimately obtain c' p4 p5 where "post_challenge_for env ?r later (Some nonce') ?p3 = (Inr c', p4)"
    "post_acknowledge env (sign_acknowledge env r c' [i]) later p4 = (Inr 1, p5)"
    "\<forall>t. \<forall>held \<in> set (st_list ?r t (po_store p5)). dp_id held \<noteq> i"
    using acknowledge_works [OF assms(3), of ?p3 i _ later nonce'] dep(4) by auto
  moreover have "\<lparr>dp_id = i, dp_sender = ?s, dp_envelope = e, dp_at = now\<rparr> \<in> set (st_list ?r later (po_store p1))"
    using dep(2,4) assms(11) listed_slot [of "po_store p1"] by (auto simp: post_ok_def store_ok_def deliverable_def)
  ultimately show ?thesis using dep(1) fetch by blast
qed

section \<open>Witnesses\<close>

lemma demo_post_signer: "c \<in> set ''123'' \<Longrightarrow> post_signer demo_kin (demo_seed c)"
  by (simp add: post_signer_def demo_signing demo_canonical)

abbreviation demo_device :: "char \<Rightarrow> string" where
  "demo_device c \<equiv> device_from_seed demo_kin (demo_seed c)"

definition demo_envelope :: envelope where
  "demo_envelope = \<lparr>en_recipient = demo_device (CHR ''2''), en_sealed = ''sealed'', en_expires_at = 1000, en_version = 1\<rparr>"

lemma demo_deposit:
  "\<exists>i p1. post_deposit demo_kin (sign_deposit demo_kin (demo_seed (CHR ''1'')) demo_envelope) 10 (post_new st_new) = (Inr i, p1)
    \<and> post_ok demo_kin p1 \<and> po_outstanding p1 = []
    \<and> box_slot (po_store p1) (device_key (demo_device (CHR ''2''))) i
      = Some \<lparr>dp_id = i, dp_sender = demo_device (CHR ''1''), dp_envelope = demo_envelope, dp_at = 10\<rparr>"
proof -
  have "may_deposit (demo_device (CHR ''1'')) (demo_device (CHR ''2'')) 10 (post_new st_new)"
    by (simp add: may_deposit_def st_count_def mailbox_def prune_recent_def post_new_def st_new_def post_bounds)
  moreover have "length (en_sealed demo_envelope) \<le> MAX_ENVELOPE" "10 < en_expires_at demo_envelope"
    "saturating_sub (en_expires_at demo_envelope) 10 \<le> MAX_RETENTION"
    "en_recipient demo_envelope = demo_device (CHR ''2'')"
    by (simp_all add: demo_envelope_def MAX_ENVELOPE_def MAX_RETENTION_def saturating_sub_def)
  moreover have "\<not> st_is_blocked (demo_device (CHR ''2'')) (demo_device (CHR ''1'')) (po_store (post_new st_new))"
    by (simp add: post_new_def st_new_def st_is_blocked_def)
  moreover have "po_outstanding (post_new st_new) = []" by (simp add: post_new_def)
  ultimately show ?thesis
    using deposit_works [OF new_post_ok demo_post_signer demo_post_signer, of "CHR ''1''" "CHR ''2''" demo_envelope 10] by simp
qed

lemma demo_delivery:
  "\<exists>i p1 c p2 waiting p3.
      post_deposit demo_kin (sign_deposit demo_kin (demo_seed (CHR ''1'')) demo_envelope) 10 (post_new st_new) = (Inr i, p1)
    \<and> post_challenge_for demo_kin (demo_device (CHR ''2'')) 20 (Some ''n'') p1 = (Inr c, p2)
    \<and> post_fetch demo_kin (sign_fetch demo_kin (demo_seed (CHR ''2'')) c) 20 p2 = (Inr waiting, p3)
    \<and> \<lparr>dp_id = i, dp_sender = demo_device (CHR ''1''), dp_envelope = demo_envelope, dp_at = 10\<rparr> \<in> set waiting"
proof -
  obtain i p1 where dep: "post_deposit demo_kin (sign_deposit demo_kin (demo_seed (CHR ''1'')) demo_envelope) 10 (post_new st_new) = (Inr i, p1)"
    "post_ok demo_kin p1" "po_outstanding p1 = []"
    "box_slot (po_store p1) (device_key (demo_device (CHR ''2''))) i
      = Some \<lparr>dp_id = i, dp_sender = demo_device (CHR ''1''), dp_envelope = demo_envelope, dp_at = 10\<rparr>"
    using demo_deposit by blast
  have "held_for (demo_device (CHR ''2'')) (po_outstanding p1) < POST_CHALLENGES_PER_DEVICE"
    by (simp add: dep(3) held_for_def post_bounds)
  then obtain c p2 P where "post_challenge_for demo_kin (demo_device (CHR ''2'')) 20 (Some ''n'') p1 = (Inr c, p2)"
    "post_fetch demo_kin (sign_fetch demo_kin (demo_seed (CHR ''2'')) c) 20 p2
      = (Inr (st_list (demo_device (CHR ''2'')) 20 (po_store p1)), p1\<lparr>po_outstanding := filter P (po_outstanding p1)\<rparr>)"
    using fetch_works [OF demo_post_signer, of "CHR ''2''" p1 20 "''n''"] by auto
  moreover have "\<lparr>dp_id = i, dp_sender = demo_device (CHR ''1''), dp_envelope = demo_envelope, dp_at = 10\<rparr>
      \<in> set (st_list (demo_device (CHR ''2'')) 20 (po_store p1))"
    using dep(2,4) listed_slot [of "po_store p1"]
    by (auto simp: post_ok_def store_ok_def deliverable_def demo_envelope_def)
  ultimately show ?thesis using dep(1) by blast
qed

theorem deposit_fetch_acknowledge_witness:
  "\<exists>i p1 c p2 waiting p3 c' p4 (p5 :: post).
      post_deposit demo_kin (sign_deposit demo_kin (demo_seed (CHR ''1'')) demo_envelope) 10 (post_new st_new) = (Inr i, p1)
    \<and> post_challenge_for demo_kin (demo_device (CHR ''2'')) 20 (Some ''n'') p1 = (Inr c, p2)
    \<and> post_fetch demo_kin (sign_fetch demo_kin (demo_seed (CHR ''2'')) c) 20 p2 = (Inr waiting, p3)
    \<and> \<lparr>dp_id = i, dp_sender = demo_device (CHR ''1''), dp_envelope = demo_envelope, dp_at = 10\<rparr> \<in> set waiting
    \<and> post_challenge_for demo_kin (demo_device (CHR ''2'')) 20 (Some ''m'') p3 = (Inr c', p4)
    \<and> post_acknowledge demo_kin (sign_acknowledge demo_kin (demo_seed (CHR ''2'')) c' [i]) 20 p4 = (Inr 1, p5)
    \<and> (\<forall>t. \<forall>held \<in> set (st_list (demo_device (CHR ''2'')) t (po_store p5)). dp_id held \<noteq> i)"
  by (rule deposit_fetch_acknowledge)
    (simp_all add: demo_post_signer demo_envelope_def may_deposit_def st_count_def mailbox_def prune_recent_def
      post_new_def st_new_def post_bounds MAX_ENVELOPE_def MAX_RETENTION_def saturating_sub_def st_is_blocked_def held_for_def)

lemma demo_post_run:
  assumes "post_deposit demo_kin d 10 (post_new st_new) = (x, p1)"
    and "post_challenge_for demo_kin device 20 drawn p1 = (y, p2)"
  shows "(post_step demo_kin {})\<^sup>*\<^sup>* (post_new st_new) p2"
  using assms by (auto intro!: rtranclp.rtrancl_into_rtrancl [OF r_into_rtranclp] intro: post_step.intros)

lemma challenges_run:
  "(post_step env {})\<^sup>*\<^sup>* p (fold (\<lambda>n p. snd (post_challenge_for env device now (Some n) p)) nonces p)"
proof (induction nonces arbitrary: p)
  case (Cons n nonces)
  have "post_step env {} p (snd (post_challenge_for env device now (Some n) p))"
    by (rule post_step.ps_challenge [of "Some n" _ _ device now _ "fst (post_challenge_for env device now (Some n) p)"]) simp_all
  thus ?case using Cons.IH by (simp add: converse_rtranclp_into_rtranclp)
qed simp

lemma challenges_keep_store:
  "po_store (fold (\<lambda>n p. snd (post_challenge_for env device now (Some n) p)) nonces p) = po_store p"
proof (induction nonces arbitrary: p)
  case (Cons n nonces)
  thus ?case by (auto simp: post_challenge_for_def expire_challenges_def Let_def split: sum.splits)
qed simp

theorem post_stays_bounded_witness:
  "\<exists>i p1 p. post_deposit demo_kin (sign_deposit demo_kin (demo_seed (CHR ''1'')) demo_envelope) 10 (post_new st_new) = (Inr i, p1)
    \<and> p = fold (\<lambda>n p. snd (post_challenge_for demo_kin (demo_device (CHR ''2'')) 20 (Some n) p))
        [''1'', ''2'', ''3'', ''4'', ''5'', ''6'', ''7'', ''8''] p1
    \<and> \<lparr>dp_id = i, dp_sender = demo_device (CHR ''1''), dp_envelope = demo_envelope, dp_at = 10\<rparr>
        \<in> set (st_list (demo_device (CHR ''2'')) 20 (po_store p))
    \<and> st_count (demo_device (CHR ''2'')) (po_store p) \<le> 256
    \<and> held_for (demo_device (CHR ''2'')) (po_outstanding p) = 8 \<and> length (po_outstanding p) \<le> 16384"
proof -
  let ?dev = "demo_device (CHR ''2'')" and ?nonces = "[''1'', ''2'', ''3'', ''4'', ''5'', ''6'', ''7'', ''8'']"
  obtain i p1 where dep: "post_deposit demo_kin (sign_deposit demo_kin (demo_seed (CHR ''1'')) demo_envelope) 10 (post_new st_new) = (Inr i, p1)"
    "post_ok demo_kin p1" "po_outstanding p1 = []"
    "box_slot (po_store p1) (device_key ?dev) i
      = Some \<lparr>dp_id = i, dp_sender = demo_device (CHR ''1''), dp_envelope = demo_envelope, dp_at = 10\<rparr>"
    using demo_deposit by blast
  let ?p = "fold (\<lambda>n p. snd (post_challenge_for demo_kin ?dev 20 (Some n) p)) ?nonces p1"
  have "post_step demo_kin {} (post_new st_new) p1" by (rule post_step.ps_deposit [OF dep(1)])
  hence run: "(post_step demo_kin {})\<^sup>*\<^sup>* (post_new st_new) ?p"
    using challenges_run [of demo_kin p1 ?dev 20 ?nonces] by (rule converse_rtranclp_into_rtranclp)
  note bounded = post_stays_bounded [OF run, of ?dev 20]
  have "8 \<le> length (filter (asked_at ?dev 20) (po_outstanding ?p))"
    using asked_all [OF post_signer_key(1) [OF demo_post_signer], of "CHR ''2''" ?nonces p1 20] dep(3)
    by (simp add: held_for_def post_bounds bm_keys_def)
  also have "\<dots> \<le> held_for ?dev (po_outstanding ?p)"
  proof -
    have "filter (asked_at ?dev 20) xs = filter (asked_at ?dev 20) (filter (\<lambda>(_, held). device_key (pg_device held) = device_key ?dev) xs)" for xs
      by (auto simp: asked_at_def intro!: filter_cong)
    thus ?thesis unfolding held_for_def by (metis length_filter_le)
  qed
  finally have full: "held_for ?dev (po_outstanding ?p) = 8" using bounded by linarith
  have "\<lparr>dp_id = i, dp_sender = demo_device (CHR ''1''), dp_envelope = demo_envelope, dp_at = 10\<rparr> \<in> set (st_list ?dev 20 (po_store p1))"
    using dep(2,4) listed_slot [of "po_store p1"] by (auto simp: post_ok_def store_ok_def deliverable_def demo_envelope_def)
  hence listed: "\<lparr>dp_id = i, dp_sender = demo_device (CHR ''1''), dp_envelope = demo_envelope, dp_at = 10\<rparr> \<in> set (st_list ?dev 20 (po_store ?p))"
    by (simp only: challenges_keep_store)
  show ?thesis
    using bounded full listed by (intro exI [of _ i] exI [of _ p1] exI [of _ ?p] conjI dep(1) refl) blast+
qed

theorem mailbox_read_by_owner_only_witness:
  "\<exists>c p2 waiting p3 (held :: deposited).
    post_fetch demo_kin (sign_fetch demo_kin (demo_seed (CHR ''2'')) c) 20 p2 = (Inr waiting, p3)
    \<and> held \<in> set waiting \<and> device_key (en_recipient (dp_envelope held)) = device_key (demo_device (CHR ''2''))
    \<and> signed_by_sender demo_kin held"
proof -
  obtain i p1 c p2 waiting p3 where d: "post_deposit demo_kin (sign_deposit demo_kin (demo_seed (CHR ''1'')) demo_envelope) 10 (post_new st_new) = (Inr i, p1)"
    "post_challenge_for demo_kin (demo_device (CHR ''2'')) 20 (Some ''n'') p1 = (Inr c, p2)"
    "post_fetch demo_kin (sign_fetch demo_kin (demo_seed (CHR ''2'')) c) 20 p2 = (Inr waiting, p3)"
    "\<lparr>dp_id = i, dp_sender = demo_device (CHR ''1''), dp_envelope = demo_envelope, dp_at = 10\<rparr> \<in> set waiting"
    using demo_delivery by blast
  have "device_key (pg_device c) = device_key (demo_device (CHR ''2''))"
    using d(2) by (auto simp: post_challenge_for_def Let_def split: sum.splits if_splits)
  thus ?thesis using mailbox_read_by_owner_only [OF demo_post_run [OF d(1,2)] d(3)] d(3,4)
    by (intro exI [of _ c] exI [of _ p2] exI [of _ waiting] exI [of _ p3]
        exI [of _ "\<lparr>dp_id = i, dp_sender = demo_device (CHR ''1''), dp_envelope = demo_envelope, dp_at = 10\<rparr>"])
      (auto simp: sign_fetch_def)
qed

theorem post_nonce_answered_once_witness:
  "\<exists>c p2 waiting (p3 :: post). post_fetch demo_kin (sign_fetch demo_kin (demo_seed (CHR ''2'')) c) 20 p2 = (Inr waiting, p3)
    \<and> isl (fst (post_fetch demo_kin (sign_fetch demo_kin (demo_seed (CHR ''2'')) c) 20 p3))"
proof -
  obtain i p1 c p2 waiting p3 where d: "post_deposit demo_kin (sign_deposit demo_kin (demo_seed (CHR ''1'')) demo_envelope) 10 (post_new st_new) = (Inr i, p1)"
    "post_challenge_for demo_kin (demo_device (CHR ''2'')) 20 (Some ''n'') p1 = (Inr c, p2)"
    "post_fetch demo_kin (sign_fetch demo_kin (demo_seed (CHR ''2'')) c) 20 p2 = (Inr waiting, p3)"
    using demo_delivery by blast
  have "isl (fst (post_fetch demo_kin (sign_fetch demo_kin (demo_seed (CHR ''2'')) c) 20 p3))"
    using post_nonce_answered_once [OF disjI1 [OF conjI [OF d(3) refl]] rtranclp.rtrancl_refl] by blast
  thus ?thesis using d(3) by blast
qed

theorem eight_requests_lock_a_device_out_witness:
  "fst (post_challenge_for demo_kin (demo_device (CHR ''2'')) 70 (Some ''x'')
    (fold (\<lambda>n p. snd (post_challenge_for demo_kin (demo_device (CHR ''2'')) 10 (Some n) p))
      [''1'', ''2'', ''3'', ''4'', ''5'', ''6'', ''7'', ''8''] (post_new st_new))) = Inl AtCapacity"
  by (rule eight_requests_lock_a_device_out [OF post_signer_key(1) [OF demo_post_signer]])
    (simp_all add: held_for_def post_new_def post_bounds map_simps)

theorem deposit_leaves_by_owner_or_expiry_witness:
  "\<exists>(p :: post) n p'. post_sweep 2000 p = (n, p')
    \<and> ((\<exists>now n. post_sweep now p = (n, p') \<and> en_expires_at demo_envelope \<le> now)
      \<or> (\<exists>ack now n. post_acknowledge demo_kin ack now p = (Inr n, p')))"
proof -
  obtain i p1 where dep: "post_deposit demo_kin (sign_deposit demo_kin (demo_seed (CHR ''1'')) demo_envelope) 10 (post_new st_new) = (Inr i, p1)"
    "box_slot (po_store p1) (device_key (demo_device (CHR ''2''))) i
      = Some \<lparr>dp_id = i, dp_sender = demo_device (CHR ''1''), dp_envelope = demo_envelope, dp_at = 10\<rparr>"
    "post_ok demo_kin p1"
    using demo_deposit by blast
  obtain n p2 where sw: "post_sweep 2000 p1 = (n, p2)" by fastforce
  have wf: "store_wf (po_store p1)" using dep(3) by (simp add: post_ok_def store_ok_def)
  obtain store where "st_sweep 2000 (po_store p1) = (n, store)" "po_store p2 = store"
    using sw by (auto simp: post_sweep_def Let_def expire_challenges_def split: prod.splits)
  hence gone: "box_slot (po_store p2) (device_key (demo_device (CHR ''2''))) i = None"
    using sweep_spec(2) [OF wf] dep(2) by (simp add: deliverable_def demo_envelope_def)
  have "(post_step demo_kin {})\<^sup>*\<^sup>* (post_new st_new) p1" using post_step.intros(2) [OF dep(1)] by blast
  from deposit_leaves_by_owner_or_expiry [OF this post_step.intros(6) [OF sw] dep(2) gone]
  show ?thesis using sw by (intro exI [of _ p1] exI [of _ n] exI [of _ p2]) auto
qed

end
