(* ===== verification/Budget.thy ===== *)
theory Budget
  imports Prelude
begin

text \<open>
  The rate limits of the delivery planes (\<^verbatim>\<open>crates/runtime/src/budget.rs\<close>): the virtual-time pace
  (GCRA), the gate that turns sustained refusals into a close, the paired message and byte gate,
  and the eviction ledger.

  An \<open>Instant\<close> and a \<open>Duration\<close> are numbers of nanoseconds. The largest instant the platform can
  represent is the argument \<open>lim\<close> of the operations that add to one; \<open>+\<close> on an instant panics past
  it, which is the outcome \<open>None\<close>, and \<open>checked_add\<close> answers \<open>None\<close>. Counters are words of the
  source's width with saturating arithmetic.

  The proofs relate the pace to a token bucket, the algorithm it replaces, and bound what a gate
  admits and refuses over any sequence of arrivals.
\<close>

section \<open>Saturating arithmetic\<close>

definition sat_add :: "'a::len word \<Rightarrow> 'a word \<Rightarrow> 'a word" where
  "sat_add x y = (if x \<le> x + y then x + y else - 1)"

definition sat_sub :: "'a::len word \<Rightarrow> 'a word \<Rightarrow> 'a word" where
  "sat_sub x y = (if y \<le> x then x - y else 0)"

type_synonym instant = nat
type_synonym duration = nat

text \<open>\<open>Duration::MAX\<close>: \<open>u64::MAX\<close> seconds and 999\,999\,999 nanoseconds.\<close>

definition DURATION_MAX :: duration where
  "DURATION_MAX = 2 ^ 64 * 1000000000 - 1"

definition duration_saturating_mul :: "duration \<Rightarrow> u32 \<Rightarrow> duration" where
  "duration_saturating_mul d n = min DURATION_MAX (d * unat n)"

definition instant_checked_add :: "instant \<Rightarrow> instant \<Rightarrow> duration \<Rightarrow> instant option" where
  "instant_checked_add lim t d = (if t + d \<le> lim then Some (t + d) else None)"

section \<open>The pace\<close>

datatype gate_verdict = Allow | Drop | Close

record pace =
  pc_next :: instant
  pc_interval :: duration
  pc_burst :: duration

definition pace_new :: "instant \<Rightarrow> u32 \<Rightarrow> u32 \<Rightarrow> pace" where
  "pace_new now per_second burst =
    (let per_second = max per_second 1;
         interval = max (1000000000 div unat per_second) 1
     in \<lparr>pc_next = now, pc_interval = interval,
         pc_burst = interval * unat (sat_sub (max burst 1) 1)\<rparr>)"

definition admit_cost :: "instant \<Rightarrow> pace \<Rightarrow> instant \<Rightarrow> u32 \<Rightarrow> (bool \<times> pace) option" where
  "admit_cost lim p now cost =
    (let charge = duration_saturating_mul (pc_interval p) (max cost 1)
     in case instant_checked_add lim now (pc_burst p) of
          None \<Rightarrow> None
        | Some horizon \<Rightarrow>
            if horizon < max (pc_next p) now then Some (False, p)
            else (case instant_checked_add lim (max (pc_next p) now) charge of
                    None \<Rightarrow> Some (False, p)
                  | Some n \<Rightarrow> Some (True, p\<lparr>pc_next := n\<rparr>)))"

definition admit :: "instant \<Rightarrow> pace \<Rightarrow> instant \<Rightarrow> (bool \<times> pace) option" where
  "admit lim p now = admit_cost lim p now 1"

definition would_admit :: "instant \<Rightarrow> pace \<Rightarrow> instant \<Rightarrow> u32 \<Rightarrow> bool option" where
  "would_admit lim p now cost =
    (let charge = duration_saturating_mul (pc_interval p) (max cost 1)
     in case instant_checked_add lim (max (pc_next p) now) charge of
          None \<Rightarrow> Some False
        | Some _ \<Rightarrow>
            (case instant_checked_add lim now (pc_burst p) of
               None \<Rightarrow> None
             | Some horizon \<Rightarrow> Some (max (pc_next p) now \<le> horizon)))"

section \<open>Gates\<close>

record gate_spec =
  gs_per_second :: u32
  gs_burst :: u32
  gs_strike_limit :: u16

record byte_gate_spec =
  bs_messages_per_second :: u32
  bs_message_burst :: u32
  bs_bytes_per_second :: u32
  bs_byte_burst :: u32
  bs_strike_limit :: u16

record gate =
  g_pace :: pace
  g_strikes :: u16
  g_strike_limit :: u16
  g_closed :: bool

definition gate_new :: "instant \<Rightarrow> u32 \<Rightarrow> u32 \<Rightarrow> u16 \<Rightarrow> gate" where
  "gate_new now per_second burst strike_limit =
    \<lparr>g_pace = pace_new now per_second burst, g_strikes = 0,
     g_strike_limit = max strike_limit 1, g_closed = False\<rparr>"

definition gate_from_spec :: "instant \<Rightarrow> gate_spec \<Rightarrow> gate" where
  "gate_from_spec now spec = gate_new now (gs_per_second spec) (gs_burst spec) (gs_strike_limit spec)"

definition gate_check :: "instant \<Rightarrow> gate \<Rightarrow> instant \<Rightarrow> (gate_verdict \<times> gate) option" where
  "gate_check lim g now =
    (if g_closed g then Some (Close, g)
     else case admit lim (g_pace g) now of
       None \<Rightarrow> None
     | Some (True, p) \<Rightarrow>
         Some (Allow, g\<lparr>g_pace := p, g_strikes := sat_sub (g_strikes g) 1\<rparr>)
     | Some (False, p) \<Rightarrow>
         let g = g\<lparr>g_pace := p, g_strikes := sat_add (g_strikes g) 1\<rparr>
         in if g_strike_limit g \<le> g_strikes g then Some (Close, g\<lparr>g_closed := True\<rparr>)
            else Some (Drop, g))"

definition gate_penalise :: "gate \<Rightarrow> u16 \<Rightarrow> gate_verdict \<times> gate" where
  "gate_penalise g n =
    (if g_closed g then (Close, g)
     else if n = 0 then (Allow, g)
     else let g = g\<lparr>g_strikes := sat_add (g_strikes g) n\<rparr>
       in if g_strike_limit g \<le> g_strikes g then (Close, g\<lparr>g_closed := True\<rparr>)
          else (Drop, g))"

record byte_gate =
  bg_messages :: pace
  bg_bytes :: pace
  bg_strikes :: u16
  bg_strike_limit :: u16
  bg_closed :: bool

definition byte_gate_new :: "instant \<Rightarrow> u32 \<Rightarrow> u32 \<Rightarrow> u32 \<Rightarrow> u32 \<Rightarrow> u16 \<Rightarrow> byte_gate" where
  "byte_gate_new now messages_per_second message_burst bytes_per_second byte_burst strike_limit =
    \<lparr>bg_messages = pace_new now messages_per_second message_burst,
     bg_bytes = pace_new now bytes_per_second byte_burst, bg_strikes = 0,
     bg_strike_limit = max strike_limit 1, bg_closed = False\<rparr>"

definition byte_gate_from_spec :: "instant \<Rightarrow> byte_gate_spec \<Rightarrow> byte_gate" where
  "byte_gate_from_spec now spec =
    byte_gate_new now (bs_messages_per_second spec) (bs_message_burst spec)
      (bs_bytes_per_second spec) (bs_byte_burst spec) (bs_strike_limit spec)"

text \<open>\<open>u32::try_from(len).unwrap_or(u32::MAX).max(1)\<close>.\<close>

definition byte_cost :: "nat \<Rightarrow> u32" where
  "byte_cost len = max (if len < 2 ^ 32 then of_nat len else - 1) 1"

text \<open>The \<open>&&\<close> asks the byte pace only when the message pace would admit. What the two \<open>admit\<close>
  calls answer is not looked at.\<close>

definition byte_gate_check :: "instant \<Rightarrow> byte_gate \<Rightarrow> instant \<Rightarrow> nat \<Rightarrow> (gate_verdict \<times> byte_gate) option" where
  "byte_gate_check lim g now len =
    (if bg_closed g then Some (Close, g)
     else let cost = byte_cost len;
              refused = (let g = g\<lparr>bg_strikes := sat_add (bg_strikes g) 1\<rparr>
                in if bg_strike_limit g \<le> bg_strikes g then (Close, g\<lparr>bg_closed := True\<rparr>)
                   else (Drop, g))
       in case would_admit lim (bg_messages g) now 1 of
            None \<Rightarrow> None
          | Some False \<Rightarrow> Some refused
          | Some True \<Rightarrow>
              (case would_admit lim (bg_bytes g) now cost of
                 None \<Rightarrow> None
               | Some False \<Rightarrow> Some refused
               | Some True \<Rightarrow>
                   (case admit lim (bg_messages g) now of
                      None \<Rightarrow> None
                    | Some (_, messages) \<Rightarrow>
                        (case admit_cost lim (bg_bytes g) now cost of
                           None \<Rightarrow> None
                         | Some (_, byts) \<Rightarrow>
                             Some (Allow, g\<lparr>bg_messages := messages, bg_bytes := byts,
                               bg_strikes := sat_sub (bg_strikes g) 1\<rparr>)))))"

section \<open>The named gates\<close>

definition FREIGHT_REQUESTS :: gate_spec where
  "FREIGHT_REQUESTS = \<lparr>gs_per_second = 64, gs_burst = 256, gs_strike_limit = 128\<rparr>"

definition FREIGHT_BYTES :: byte_gate_spec where
  "FREIGHT_BYTES = \<lparr>bs_messages_per_second = 64, bs_message_burst = 256,
    bs_bytes_per_second = 64 * (320 * 1024), bs_byte_burst = 256 * (320 * 1024),
    bs_strike_limit = 128\<rparr>"

definition LIVE_CONTROL :: gate_spec where
  "LIVE_CONTROL = \<lparr>gs_per_second = 16, gs_burst = 64, gs_strike_limit = 64\<rparr>"

definition LIVE_CONTROL_BYTES :: byte_gate_spec where
  "LIVE_CONTROL_BYTES = \<lparr>bs_messages_per_second = 16, bs_message_burst = 64,
    bs_bytes_per_second = 256 * 1024, bs_byte_burst = 1024 * 1024, bs_strike_limit = 64\<rparr>"

definition LIVE_DATAGRAMS :: gate_spec where
  "LIVE_DATAGRAMS = \<lparr>gs_per_second = 64, gs_burst = 256, gs_strike_limit = 128\<rparr>"

definition LIVE_DATAGRAM_BYTES :: byte_gate_spec where
  "LIVE_DATAGRAM_BYTES = \<lparr>bs_messages_per_second = 64, bs_message_burst = 256,
    bs_bytes_per_second = 512 * 1024, bs_byte_burst = 2 * 1024 * 1024, bs_strike_limit = 128\<rparr>"

definition SIGNAL_RATE :: gate_spec where
  "SIGNAL_RATE = \<lparr>gs_per_second = 4, gs_burst = 16, gs_strike_limit = 32\<rparr>"

definition SIGNAL_BYTES :: byte_gate_spec where
  "SIGNAL_BYTES = \<lparr>bs_messages_per_second = 4, bs_message_burst = 16,
    bs_bytes_per_second = 64 * 1024, bs_byte_burst = 256 * 1024, bs_strike_limit = 32\<rparr>"

definition STREAM_ACCEPT :: gate_spec where
  "STREAM_ACCEPT = \<lparr>gs_per_second = 32, gs_burst = 128, gs_strike_limit = 64\<rparr>"

section \<open>The eviction ledger\<close>

record eviction_ledger =
  ev_charged :: u32
  ev_limit :: u32

definition evictions_new :: "u32 \<Rightarrow> eviction_ledger" where
  "evictions_new limit = \<lparr>ev_charged = 0, ev_limit = max limit 1\<rparr>"

definition evictions_charge :: "eviction_ledger \<Rightarrow> u32 \<Rightarrow> gate_verdict \<times> eviction_ledger" where
  "evictions_charge e n =
    (let e = e\<lparr>ev_charged := sat_add (ev_charged e) n\<rparr>
     in (if ev_limit e \<le> ev_charged e then Close else Allow, e))"

section \<open>Runs of arrivals\<close>

text \<open>A connection puts one question after another to its gate, at instants that never run
  backwards.\<close>

fun gate_run :: "instant \<Rightarrow> gate \<Rightarrow> instant list \<Rightarrow> (gate_verdict list \<times> gate) option" where
  "gate_run lim g [] = Some ([], g)"
| "gate_run lim g (t # ts) =
    (case gate_check lim g t of
       None \<Rightarrow> None
     | Some (v, g') \<Rightarrow>
         (case gate_run lim g' ts of None \<Rightarrow> None | Some (vs, g'') \<Rightarrow> Some (v # vs, g'')))"

fun pace_run :: "instant \<Rightarrow> pace \<Rightarrow> (instant \<times> u32) list \<Rightarrow> (bool list \<times> pace) option" where
  "pace_run lim p [] = Some ([], p)"
| "pace_run lim p ((t, c) # as) =
    (case admit_cost lim p t c of
       None \<Rightarrow> None
     | Some (b, p') \<Rightarrow>
         (case pace_run lim p' as of None \<Rightarrow> None | Some (bs, p'') \<Rightarrow> Some (b # bs, p'')))"

text \<open>The reference algorithm: a bucket that holds credit (in nanoseconds of the sustained rate) up
  to its capacity, is refilled by the time that passed, and pays for every item it lets through. It
  lets an item through when it holds the price of one unit, whatever the item weighs.\<close>

record bucket =
  bk_credit :: int
  bk_at :: instant
  bk_capacity :: int

definition bucket_refill :: "bucket \<Rightarrow> instant \<Rightarrow> bucket" where
  "bucket_refill b now =
    b\<lparr>bk_credit := min (bk_capacity b) (bk_credit b + (int now - int (bk_at b))), bk_at := now\<rparr>"

definition bucket_take :: "int \<Rightarrow> bucket \<Rightarrow> instant \<Rightarrow> u32 \<Rightarrow> bool \<times> bucket" where
  "bucket_take price b now cost =
    (let b = bucket_refill b now
     in if price \<le> bk_credit b
        then (True, b\<lparr>bk_credit := bk_credit b - price * int (unat (max cost 1))\<rparr>)
        else (False, b))"

fun bucket_run :: "int \<Rightarrow> bucket \<Rightarrow> (instant \<times> u32) list \<Rightarrow> bool list" where
  "bucket_run price b [] = []"
| "bucket_run price b ((t, c) # as) =
    (let (r, b') = bucket_take price b t c in r # bucket_run price b' as)"

section \<open>Saturation and single steps\<close>

lemma unat_sat_add: "unat (sat_add x y) = min (unat x + unat y) (2 ^ LENGTH('a) - 1)"
  for x y :: "'a::len word"
proof (cases "unat x + unat y < 2 ^ LENGTH('a)")
  case True
  hence "unat (x + y) = unat x + unat y" by (simp add: unat_add_lem [symmetric])
  thus ?thesis using True by (simp add: sat_add_def no_olen_add_nat)
next
  case False
  have "unat (- 1 :: 'a word) = 2 ^ LENGTH('a) - 1"
    by (simp add: unsigned_minus_1_eq_mask mask_eq_exp_minus_1)
  thus ?thesis using False by (simp add: sat_add_def no_olen_add_nat)
qed

lemma unat_sat_add_one: "unat (sat_add (x :: u16) 1) = min (unat x + 1) 65535"
  by (simp add: unat_sat_add)

lemma unat_sat_sub_one: "unat (sat_sub (x :: 'a::len word) 1) = unat x - 1"
proof (cases "x = 0")
  case False
  hence "1 \<le> x" by (simp add: word_le_nat_alt unat_gt_0 Suc_le_eq)
  thus ?thesis using unat_minus_one [OF False] by (simp add: sat_sub_def)
qed (simp add: sat_sub_def)

lemma sat_sub_small: "x = 0 \<or> x = 1 \<Longrightarrow> sat_sub x 1 = 0"
  by (auto simp: sat_sub_def)

lemma pace_new_sel [simp]:
  "pc_next (pace_new now r b) = now"
  "pc_burst (pace_new now r b) = pc_interval (pace_new now r b) * (unat (max b 1) - 1)"
  by (simp_all add: pace_new_def Let_def unat_sat_sub_one)

lemma pace_new_interval: "1 \<le> pc_interval (pace_new now r b)" "pc_interval (pace_new now r b) \<le> 10 ^ 9"
  by (simp_all add: pace_new_def Let_def)

lemma weight_pos: "1 \<le> unat (max (c :: u32) 1)"
proof -
  have "(1 :: u32) \<le> max c 1" by simp
  thus ?thesis by (simp only: word_le_nat_alt) simp
qed

text \<open>With room on the clock nothing panics and nothing overflows: an item is admitted exactly when
  the pace runs at most one burst ahead.\<close>

lemma admit_cost_room:
  assumes "now + pc_burst p + duration_saturating_mul (pc_interval p) (max cost 1) \<le> lim"
  shows "admit_cost lim p now cost =
    (if pc_next p \<le> now + pc_burst p
     then Some (True, p\<lparr>pc_next := max (pc_next p) now + duration_saturating_mul (pc_interval p) (max cost 1)\<rparr>)
     else Some (False, p))"
  using assms by (auto simp: admit_cost_def instant_checked_add_def Let_def max_def)

lemma admit_cost_Some:
  assumes "admit_cost lim p now cost = Some (r, p')"
  shows "pc_interval p' = pc_interval p" "pc_burst p' = pc_burst p"
    and "r \<Longrightarrow> max (pc_next p) now \<le> now + pc_burst p
      \<and> pc_next p' = max (pc_next p) now + duration_saturating_mul (pc_interval p) (max cost 1)"
    and "\<not> r \<Longrightarrow> p' = p"
  using assms by (auto simp: admit_cost_def instant_checked_add_def Let_def split: if_splits option.splits)

lemma mul_one: "d \<le> DURATION_MAX \<Longrightarrow> duration_saturating_mul d 1 = d"
  by (simp add: duration_saturating_mul_def)

lemma second_le_MAX: "d \<le> 10 ^ 9 \<Longrightarrow> d \<le> DURATION_MAX"
  by (simp add: DURATION_MAX_def)

text \<open>A price of at most a second per unit never saturates.\<close>

lemma mul_unsaturated:
  assumes "d \<le> 10 ^ 9"
  shows "duration_saturating_mul d c = d * unat c"
proof -
  have "unat c < 2 ^ 32" using unsigned_less [of c, where 'a = nat] by simp
  hence "d * unat c \<le> 10 ^ 9 * 2 ^ 32" using assms by (intro mult_le_mono) simp_all
  thus ?thesis by (simp add: duration_saturating_mul_def DURATION_MAX_def)
qed

section \<open>The pace is a token bucket\<close>

definition bucket_of :: "pace \<Rightarrow> instant \<Rightarrow> bucket" where
  "bucket_of p now =
    (let capacity = int (pc_burst p) + int (pc_interval p)
     in \<lparr>bk_credit = capacity - max 0 (int (pc_next p) - int now), bk_at = now, bk_capacity = capacity\<rparr>)"

lemma bucket_refill_of: "at \<le> now \<Longrightarrow> bucket_refill (bucket_of p at) now = bucket_of p now"
  by (auto simp: bucket_refill_def bucket_of_def Let_def)

lemma bucket_take_of:
  assumes "at \<le> now" and d: "pc_interval p \<le> 10 ^ 9"
    and room: "now + pc_burst p + pc_interval p * unat (max cost 1) \<le> lim"
  shows "\<exists>r p'. admit_cost lim p now cost = Some (r, p')
    \<and> bucket_take (int (pc_interval p)) (bucket_of p at) now cost = (r, bucket_of p' now)"
proof -
  have c: "int (pc_interval p) \<le> bk_credit (bucket_of p now) \<longleftrightarrow> pc_next p \<le> now + pc_burst p"
    by (auto simp: bucket_of_def Let_def max_def)
  have n: "(bucket_of p now)\<lparr>bk_credit := bk_credit (bucket_of p now) - int (pc_interval p) * int k\<rparr>
      = bucket_of (p\<lparr>pc_next := max (pc_next p) now + pc_interval p * k\<rparr>) now" for k
    by (auto simp: bucket_of_def Let_def max_def simp flip: of_nat_mult)
  note step = admit_cost_room [of now p cost lim, unfolded mul_unsaturated [OF d], OF room]
  show ?thesis
    using n [of "unat (max cost 1)"] by (auto simp: step bucket_take_def bucket_refill_of [OF assms(1)] Let_def c)
qed

lemma pace_run_bucket:
  "pc_interval p \<le> 10 ^ 9 \<Longrightarrow> sorted (at # map fst as) \<Longrightarrow>
   (\<And>t c. (t, c) \<in> set as \<Longrightarrow> t + pc_burst p + pc_interval p * unat (max c 1) \<le> lim) \<Longrightarrow>
   \<exists>p'. pace_run lim p as = Some (bucket_run (int (pc_interval p)) (bucket_of p at) as, p')"
proof (induction as arbitrary: p at)
  case (Cons a as)
  obtain t c where a: "a = (t, c)" by fastforce
  obtain r p' where step: "admit_cost lim p t c = Some (r, p')"
    "bucket_take (int (pc_interval p)) (bucket_of p at) t c = (r, bucket_of p' t)"
    using bucket_take_of [of at t p c lim] Cons.prems a by fastforce
  have "\<exists>p''. pace_run lim p' as = Some (bucket_run (int (pc_interval p')) (bucket_of p' t) as, p'')"
    using Cons.prems a admit_cost_Some(1,2) [OF step(1)] by (intro Cons.IH) auto
  thus ?case using step admit_cost_Some(1,2) [OF step(1)] a by auto
qed simp

text \<open>C23: GCRA makes "the same admission decisions" as the refilled token bucket it replaces: over
  every sequence of arrivals that does not run backwards and does not reach the end of the clock, a
  fresh pace answers exactly what a full bucket of \<open>burst\<close> items, refilled at the sustained rate,
  answers. The bucket asks for the price of one unit and charges the whole weight, so a heavy item
  may overdraw it.\<close>

theorem pace_is_token_bucket:
  assumes "sorted (now # map fst as)"
    and "\<And>t c. (t, c) \<in> set as \<Longrightarrow> t + pc_burst (pace_new now r b)
      + pc_interval (pace_new now r b) * unat (max c 1) \<le> lim"
  shows "\<exists>p'. pace_run lim (pace_new now r b) as =
    Some (bucket_run (int (pc_interval (pace_new now r b)))
      \<lparr>bk_credit = int (pc_interval (pace_new now r b) * unat (max b 1)), bk_at = now,
       bk_capacity = int (pc_interval (pace_new now r b) * unat (max b 1))\<rparr> as, p')"
proof -
  define i where "i = pc_interval (pace_new now r b)"
  define k where "k = unat (max b 1)"
  have "1 \<le> k" unfolding k_def by (rule weight_pos)
  then obtain j where j: "k = Suc j" by (cases k) auto
  have "int (i * (k - 1)) + int i = int (i * k)" by (simp add: j algebra_simps)
  hence "bucket_of (pace_new now r b) now =
    \<lparr>bk_credit = int (i * k), bk_at = now, bk_capacity = int (i * k)\<rparr>"
    by (simp add: bucket_of_def Let_def i_def [symmetric] k_def [symmetric] j)
  thus ?thesis
    using pace_run_bucket [of "pace_new now r b" now as lim] assms pace_new_interval(2)
    by (simp add: i_def k_def)
qed

theorem pace_is_token_bucket_witness:
  "pace_run (10 ^ 12) (pace_new 5 4 2) [(5, 1), (5, 1), (5, 1), (250000005, 3), (500000005, 1)]
    = Some ([True, True, False, True, False], \<lparr>pc_next = 1250000005, pc_interval = 250000000, pc_burst = 250000000\<rparr>)
  \<and> bucket_run 250000000 \<lparr>bk_credit = 500000000, bk_at = 5, bk_capacity = 500000000\<rparr>
      [(5, 1), (5, 1), (5, 1), (250000005, 3), (500000005, 1)] = [True, True, False, True, False]"
proof -
  have i: "pc_interval (pace_new 5 4 2) = 250000000"
    by (simp add: pace_new_def Let_def)
  have m: "max (2::u32) 1 = 2" "max (1::u32) 1 = 1" "max (3::u32) 1 = 3" by code_simp+
  have run: "pace_run (10 ^ 12) (pace_new 5 4 2) [(5, 1), (5, 1), (5, 1), (250000005, 3), (500000005, 1)]
    = Some ([True, True, False, True, False], \<lparr>pc_next = 1250000005, pc_interval = 250000000, pc_burst = 250000000\<rparr>)"
    by (simp add: pace_new_def admit_cost_def instant_checked_add_def duration_saturating_mul_def
        DURATION_MAX_def Let_def sat_sub_def m)
  have "\<exists>p'. pace_run (10 ^ 12) (pace_new 5 4 2) [(5, 1), (5, 1), (5, 1), (250000005, 3), (500000005, 1)]
      = Some (bucket_run (int 250000000)
        \<lparr>bk_credit = int (250000000 * unat (max (2::u32) 1)), bk_at = 5,
         bk_capacity = int (250000000 * unat (max (2::u32) 1))\<rparr>
        [(5, 1), (5, 1), (5, 1), (250000005, 3), (500000005, 1)], p')"
    unfolding i [symmetric] by (rule pace_is_token_bucket) (auto simp: i m)
  hence "bucket_run 250000000 \<lparr>bk_credit = 500000000, bk_at = 5, bk_capacity = 500000000\<rparr>
      [(5, 1), (5, 1), (5, 1), (250000005, 3), (500000005, 1)] = [True, True, False, True, False]"
    unfolding run m by (simp del: bucket_run.simps)
  thus ?thesis using run by blast
qed

section \<open>What a gate admits over time\<close>

lemma gate_check_cases:
  assumes "gate_check lim g t = Some (v, g')" "\<not> g_closed g"
  obtains (admitted) p where "admit lim (g_pace g) t = Some (True, p)" "v = Allow"
      "g' = g\<lparr>g_pace := p, g_strikes := sat_sub (g_strikes g) 1\<rparr>"
    | (refused) "admit lim (g_pace g) t = Some (False, g_pace g)"
      "g' = g\<lparr>g_strikes := sat_add (g_strikes g) 1,
               g_closed := (g_strike_limit g \<le> sat_add (g_strikes g) 1)\<rparr>"
      "v = (if g_strike_limit g \<le> sat_add (g_strikes g) 1 then Close else Drop)"
proof (cases "admit lim (g_pace g) t")
  case None
  thus ?thesis using assms by (simp add: gate_check_def)
next
  case (Some rp)
  then obtain r p where rp: "admit lim (g_pace g) t = Some (r, p)" by (cases rp) simp
  show ?thesis
  proof (cases r)
    case True
    with rp assms show ?thesis by (intro admitted) (auto simp: gate_check_def)
  next
    case False
    hence "p = g_pace g" using admit_cost_Some(4) [OF rp [unfolded admit_def]] by simp
    with False rp assms show ?thesis
      by (cases g, intro refused) (simp_all add: gate_check_def Let_def split: if_splits)
  qed
qed

lemma gate_check_closed: "g_closed g \<Longrightarrow> gate_check lim g t = Some (Close, g)"
  by (simp add: gate_check_def)

lemma gate_run_closed: "g_closed g \<Longrightarrow> gate_run lim g ts = Some (replicate (length ts) Close, g)"
  by (induction ts) (simp_all add: gate_check_closed)

lemma gate_check_keeps:
  assumes "gate_check lim g t = Some (v, g')"
  shows "pc_interval (g_pace g') = pc_interval (g_pace g)" "pc_burst (g_pace g') = pc_burst (g_pace g)"
    "g_strike_limit g' = g_strike_limit g" "g_closed g \<Longrightarrow> g_closed g'"
proof -
  have "pc_interval (g_pace g') = pc_interval (g_pace g) \<and> pc_burst (g_pace g') = pc_burst (g_pace g)
    \<and> g_strike_limit g' = g_strike_limit g"
  proof (cases "g_closed g")
    case True
    thus ?thesis using assms by (simp add: gate_check_closed)
  next
    case False
    with assms show ?thesis
      by (cases rule: gate_check_cases) (auto simp: admit_def dest: admit_cost_Some(1,2))
  qed
  thus "pc_interval (g_pace g') = pc_interval (g_pace g)" "pc_burst (g_pace g') = pc_burst (g_pace g)"
    "g_strike_limit g' = g_strike_limit g" by simp_all
  show "g_closed g'" if "g_closed g" using assms that by (simp add: gate_check_closed)
qed

lemma gate_run_keeps:
  "gate_run lim g ts = Some (vs, g') \<Longrightarrow>
    pc_interval (g_pace g') = pc_interval (g_pace g) \<and> pc_burst (g_pace g') = pc_burst (g_pace g)
    \<and> g_strike_limit g' = g_strike_limit g \<and> length vs = length ts"
  by (induction ts arbitrary: g vs)
    (auto split: option.splits prod.splits simp: gate_check_keeps)

abbreviation admitted :: "gate_verdict list \<Rightarrow> nat" where
  "admitted vs \<equiv> length (filter ((=) Allow) vs)"

lemma sorted_hd_last: "sorted (t # ts) \<Longrightarrow> t \<le> last (t # ts)"
  using last_in_set [of "t # ts"] by auto

text \<open>The pace runs ahead of the first arrival by one interval per admitted item but the last, and
  the last one found it at most a burst ahead.\<close>

lemma admitted_spacing:
  assumes "gate_run lim g ts = Some (vs, g')" "sorted ts" "1 \<le> admitted vs"
    "pc_interval (g_pace g) \<le> 10 ^ 9"
  shows "max (pc_next (g_pace g)) (hd ts) + (admitted vs - 1) * pc_interval (g_pace g)
    \<le> last ts + pc_burst (g_pace g)"
  using assms
proof (induction ts arbitrary: g vs)
  case (Cons t ts)
  obtain v h us where step: "gate_check lim g t = Some (v, h)"
    and rest: "gate_run lim h ts = Some (us, g')" and vs: "vs = v # us"
    using Cons.prems(1) by (auto split: option.splits prod.splits)
  have open_g: "\<not> g_closed g"
    using Cons.prems(1,3) gate_run_closed [of g lim "t # ts"] by (auto simp: filter_empty_conv)
  note keep = gate_check_keeps(1,2) [OF step]
  have IH: "max (pc_next (g_pace h)) (hd ts) + (admitted us - 1) * pc_interval (g_pace g)
      \<le> last ts + pc_burst (g_pace g)" if "1 \<le> admitted us"
    using Cons.IH [OF rest] Cons.prems(2,4) that keep by simp
  have ne: "ts \<noteq> []" if "1 \<le> admitted us" using that gate_run_keeps [OF rest] by auto
  from step open_g show ?case
  proof (cases rule: gate_check_cases)
    case (admitted p)
    have adm: "max (pc_next (g_pace g)) t \<le> t + pc_burst (g_pace g)"
      "pc_next p = max (pc_next (g_pace g)) t + pc_interval (g_pace g)"
      using admit_cost_Some(3) [OF admitted(1) [unfolded admit_def]] Cons.prems(4)
      by (simp_all add: mul_one second_le_MAX)
    show ?thesis
    proof (cases "1 \<le> admitted us")
      case True
      then obtain k where k: "admitted us = Suc k" by (cases "admitted us") auto
      show ?thesis using IH [OF True] ne [OF True] adm(2) admitted(2,3) by (simp add: vs k)
    next
      case False
      have "t \<le> last (t # ts)" by (rule sorted_hd_last) (rule Cons.prems(2))
      moreover have "admitted vs - 1 = 0" using False admitted(2)
        by (cases "filter ((=) Allow) us") (simp_all add: vs)
      ultimately show ?thesis using adm(1) by (simp only: list.sel mult_0 add_0_right)
    qed
  next
    case refused
    hence "1 \<le> admitted us" using Cons.prems(3) by (simp add: vs split: if_splits)
    moreover have "t \<le> hd ts" using Cons.prems(2) ne [OF calculation] by (cases ts) auto
    ultimately show ?thesis using IH ne refused by (auto simp: vs split: if_splits)
  qed
qed simp

lemma admitted_bound:
  assumes "gate_run lim g ts = Some (vs, g')" "sorted ts" "ts \<noteq> []"
    and "pc_interval (g_pace g) = i" "pc_burst (g_pace g) = i * (b - 1)" "1 \<le> i" "i \<le> 10 ^ 9" "1 \<le> b"
  shows "admitted vs \<le> b + (last ts - hd ts) div i"
proof (cases "1 \<le> admitted vs")
  case True
  have "hd ts + (admitted vs - 1) * i \<le> last ts + i * (b - 1)"
    using admitted_spacing [OF assms(1,2) True] assms(4,5,7) by simp
  moreover have "hd ts \<le> last ts" using sorted_hd_last assms(2,3) by (cases ts) auto
  ultimately have "(admitted vs - 1) * i \<le> (last ts - hd ts) + (b - 1) * i"
    by (simp add: mult.commute)
  hence "((admitted vs - 1) * i) div i \<le> ((last ts - hd ts) + (b - 1) * i) div i" by (rule div_le_mono)
  thus ?thesis using assms(6,8) True by simp
qed simp

text \<open>A gate admits no more than its rate. In any stretch of consecutive checks of a gate, after
  whatever was checked before, it admits at most \<open>burst\<close> items plus one for every interval of the
  sustained rate between the first and the last check of the stretch: an idle hour buys one burst.\<close>

theorem gate_rate_bound:
  assumes "gate_run lim (gate_new now r b s) us = Some (vs0, g)"
    and "gate_run lim g ts = Some (vs, g')" "sorted ts" "ts \<noteq> []"
  shows "length (filter ((=) Allow) vs)
    \<le> unat (max b 1) + (last ts - hd ts) div pc_interval (pace_new now r b)"
  using gate_run_keeps [OF assms(1)]
  by (intro admitted_bound [OF assms(2-4)])
    (simp_all add: gate_new_def pace_new_interval [simplified] weight_pos [simplified])

theorem gate_rate_bound_witness:
  "\<exists>g vs g'. gate_run (10 ^ 12) (gate_new 5 4 2 3) [5] = Some ([Allow], g)
    \<and> gate_run (10 ^ 12) g [5, 5, 250000005] = Some (vs, g') \<and> vs = [Allow, Drop, Allow]
    \<and> length (filter ((=) Allow) vs) \<le> 2 + (250000005 - 5) div 250000000"
proof -
  have m: "max (2::u32) 1 = 2" "max (4::u32) 1 = 4" "max (3::u16) 1 = 3" "max (1::u32) 1 = 1"
    "\<not> (3::u16) \<le> 1" by code_simp+
  have r1: "gate_run (10 ^ 12) (gate_new 5 4 2 3) [5] = Some ([Allow],
      \<lparr>g_pace = \<lparr>pc_next = 250000005, pc_interval = 250000000, pc_burst = 250000000\<rparr>,
       g_strikes = 0, g_strike_limit = 3, g_closed = False\<rparr>)" (is "_ = Some (_, ?g)")
    by (simp add: gate_new_def gate_check_def admit_def pace_new_def admit_cost_def
        instant_checked_add_def duration_saturating_mul_def DURATION_MAX_def Let_def sat_sub_def m)
  have r2: "gate_run (10 ^ 12) ?g [5, 5, 250000005] = Some ([Allow, Drop, Allow],
      \<lparr>g_pace = \<lparr>pc_next = 750000005, pc_interval = 250000000, pc_burst = 250000000\<rparr>,
       g_strikes = 0, g_strike_limit = 3, g_closed = False\<rparr>)"
    by (simp add: gate_check_def admit_def admit_cost_def instant_checked_add_def
        duration_saturating_mul_def DURATION_MAX_def Let_def sat_sub_def sat_add_def m)
  have i: "pc_interval (pace_new 5 4 2) = 250000000" by (simp add: pace_new_def Let_def m)
  show ?thesis using gate_rate_bound [OF r1 r2] r1 r2 by (auto simp: i m)
qed

section \<open>When a gate closes\<close>

lemma gate_check_total: "t + pc_burst (g_pace g) \<le> lim \<Longrightarrow> \<exists>v g'. gate_check lim g t = Some (v, g')"
  by (auto simp: gate_check_def admit_def admit_cost_def instant_checked_add_def Let_def
      split: option.splits bool.splits)

lemma gate_run_total:
  "(\<And>t. t \<in> set ts \<Longrightarrow> t + pc_burst (g_pace g) \<le> lim) \<Longrightarrow> \<exists>vs g'. gate_run lim g ts = Some (vs, g')"
proof (induction ts arbitrary: g)
  case (Cons t ts)
  obtain v h where step: "gate_check lim g t = Some (v, h)"
    using gate_check_total [of t g lim] Cons.prems by auto
  have "\<exists>vs g'. gate_run lim h ts = Some (vs, g')"
    by (rule Cons.IH) (simp add: gate_check_keeps(2) [OF step] Cons.prems)
  thus ?case using step by auto
qed simp

text \<open>While a gate stays open, every refused item costs a strike and every admitted one pays at most
  one back.\<close>

lemma open_run_strikes:
  assumes "gate_run lim g ts = Some (vs, g')" "\<not> g_closed g'"
    "unat (g_strikes g) < unat (g_strike_limit g)"
  shows "unat (g_strikes g) + length ts \<le> unat (g_strikes g') + 2 * admitted vs
    \<and> unat (g_strikes g') < unat (g_strike_limit g)"
  using assms
proof (induction ts arbitrary: g vs)
  case (Cons t ts)
  obtain v h us where step: "gate_check lim g t = Some (v, h)"
    and rest: "gate_run lim h ts = Some (us, g')" and vs: "vs = v # us"
    using Cons.prems(1) by (auto split: option.splits prod.splits)
  have open_h: "\<not> g_closed h" using rest Cons.prems(2) gate_run_closed [of h lim ts] by auto
  hence open_g: "\<not> g_closed g" using gate_check_keeps(4) [OF step] by blast
  have lim: "unat (g_strike_limit g) < 2 ^ 16" using unsigned_less [of "g_strike_limit g", where 'a = nat] by simp
  note IH = Cons.IH [OF rest Cons.prems(2)]
  from step open_g show ?case
  proof (cases rule: gate_check_cases)
    case (admitted p)
    hence "unat (g_strikes h) < unat (g_strike_limit h)" "g_strike_limit h = g_strike_limit g"
      using Cons.prems(3) by (simp_all add: unat_sat_sub_one)
    thus ?thesis using IH admitted(2,3) by (auto simp: vs unat_sat_sub_one)
  next
    case refused
    hence "unat (sat_add (g_strikes g) 1) < unat (g_strike_limit g)"
      using open_h by (simp add: word_le_nat_alt)
    thus ?thesis using IH refused lim Cons.prems(3)
      by (auto simp: vs unat_sat_add_one min_def split: if_splits)
  qed
qed simp

lemma gate_new_strikes: "unat (g_strikes (gate_new now r b s)) < unat (g_strike_limit (gate_new now r b s))"
proof -
  have "(1 :: u16) \<le> max s 1" by simp
  hence "1 \<le> unat (max s 1)" by (simp only: word_le_nat_alt) simp
  thus ?thesis by (simp add: gate_new_def)
qed

text \<open>A flood closes the gate. After whatever was checked before, a stretch of checks that holds,
  for each item the rate and the burst admit in that time, two arrivals, and the strike limit on top,
  leaves the gate closed; and a closed gate answers \<open>Close\<close> to every later check.\<close>

theorem sustained_flood_closes:
  assumes "gate_run lim (gate_new now r b s) us = Some (vs0, g)"
    and "sorted ts" "ts \<noteq> []"
    and "\<And>t. t \<in> set ts \<Longrightarrow> t + pc_burst (pace_new now r b) \<le> lim"
    and "2 * (unat (max b 1) + (last ts - hd ts) div pc_interval (pace_new now r b)) + unat (max s 1)
      \<le> length ts"
  shows "\<exists>vs g'. gate_run lim g ts = Some (vs, g') \<and> g_closed g'
    \<and> (\<forall>later. gate_run lim g' later = Some (replicate (length later) Close, g'))"
proof -
  note keep = gate_run_keeps [OF assms(1)]
  obtain vs g' where run: "gate_run lim g ts = Some (vs, g')"
    using gate_run_total [of ts g lim] assms(4) keep by (auto simp: gate_new_def)
  have "admitted vs \<le> unat (max b 1) + (last ts - hd ts) div pc_interval (pace_new now r b)"
    using keep by (intro admitted_bound [OF run assms(2,3)])
      (simp_all add: gate_new_def pace_new_interval [simplified] weight_pos [simplified])
  moreover have "length ts < unat (max s 1) + 2 * admitted vs" if "\<not> g_closed g'"
  proof -
    have "\<not> g_closed g" using that run gate_run_closed [of g lim ts] by auto
    from open_run_strikes [OF assms(1) this gate_new_strikes]
    have "unat (g_strikes g) < unat (g_strike_limit g)" using keep by simp
    from open_run_strikes [OF run that this] show ?thesis using keep by (simp add: gate_new_def)
  qed
  ultimately have "g_closed g'" using assms(5) by fastforce
  thus ?thesis using run gate_run_closed by blast
qed

theorem sustained_flood_closes_witness:
  "\<exists>vs g'. gate_run (10 ^ 12) (gate_new 5 4 1 1) [5, 5, 5] = Some (vs, g') \<and> g_closed g'
    \<and> (\<forall>later. gate_run (10 ^ 12) g' later = Some (replicate (length later) Close, g'))"
proof -
  have m: "max (1::u32) 1 = 1" "max (4::u32) 1 = 4" "max (1::u16) 1 = 1" by code_simp+
  have "gate_run (10 ^ 12) (gate_new 5 4 1 1) [] = Some ([], gate_new 5 4 1 1)" by simp
  from sustained_flood_closes [OF this, of "[5, 5, 5]"] show ?thesis
    by (simp add: m pace_new_def Let_def sat_sub_def del: gate_run.simps)
qed

text \<open>Below twice the rate no two refusals are adjacent: the invariant of a run says which of the
  next two arrivals is certain to be admitted.\<close>

definition patient :: "gate \<Rightarrow> instant list \<Rightarrow> bool" where
  "patient g ts \<longleftrightarrow> \<not> g_closed g \<and>
    (g_strikes g = 0 \<and> (1 < length ts \<longrightarrow> pc_next (g_pace g) \<le> ts ! 1 + pc_burst (g_pace g))
     \<or> g_strikes g = 1 \<and> (ts \<noteq> [] \<longrightarrow> pc_next (g_pace g) \<le> hd ts + pc_burst (g_pace g)))"

lemma patient_step:
  assumes "patient g (t # ts)" "2 \<le> g_strike_limit g" "pc_interval (g_pace g) \<le> 10 ^ 9"
    and room: "t + pc_burst (g_pace g) + pc_interval (g_pace g) \<le> lim"
    and gap: "1 < length ts \<Longrightarrow> t + pc_interval (g_pace g) \<le> ts ! 1"
  shows "\<exists>v g'. gate_check lim g t = Some (v, g') \<and> v \<noteq> Close \<and> patient g' ts"
proof -
  note mul = mul_one [OF second_le_MAX [OF assms(3)]]
  have adm: "admit lim (g_pace g) t =
    (if pc_next (g_pace g) \<le> t + pc_burst (g_pace g)
     then Some (True, (g_pace g)\<lparr>pc_next := max (pc_next (g_pace g)) t + pc_interval (g_pace g)\<rparr>)
     else Some (False, g_pace g))"
    using admit_cost_room [of t "g_pace g" 1 lim] room by (simp add: admit_def mul)
  have cl: "\<not> g_closed g" and st: "g_strikes g = 0 \<or> g_strikes g = 1"
    using assms(1) by (auto simp: patient_def)
  show ?thesis
  proof (cases "pc_next (g_pace g) \<le> t + pc_burst (g_pace g)")
    case True
    thus ?thesis using adm cl sat_sub_small [OF st] gap by (auto simp: gate_check_def patient_def)
  next
    case False
    hence s: "g_strikes g = 0" "1 < length (t # ts) \<longrightarrow> pc_next (g_pace g) \<le> (t # ts) ! 1 + pc_burst (g_pace g)"
      using assms(1) by (auto simp: patient_def)
    have "sat_add (0 :: u16) 1 = 1" by (simp add: sat_add_def)
    moreover have "\<not> g_strike_limit g \<le> 1" using assms(2) by (auto simp: word_le_nat_alt)
    ultimately show ?thesis using False adm cl s
      by (auto simp: gate_check_def patient_def Let_def hd_conv_nth)
  qed
qed

lemma patient_run:
  assumes "patient g ts" "2 \<le> g_strike_limit g" "pc_interval (g_pace g) \<le> 10 ^ 9"
    "\<And>t. t \<in> set ts \<Longrightarrow> t + pc_burst (g_pace g) + pc_interval (g_pace g) \<le> lim"
    "\<And>k. k + 2 < length ts \<Longrightarrow> ts ! k + pc_interval (g_pace g) \<le> ts ! (k + 2)"
  shows "\<exists>vs g'. gate_run lim g ts = Some (vs, g') \<and> Close \<notin> set vs \<and> \<not> g_closed g'"
  using assms
proof (induction ts arbitrary: g)
  case (Cons t ts)
  obtain v h where step: "gate_check lim g t = Some (v, h)" "v \<noteq> Close" "patient h ts"
    using patient_step [OF Cons.prems(1-3), of lim] Cons.prems(4) [of t] Cons.prems(5) [of 0] by auto
  note keep = gate_check_keeps [OF step(1)]
  have "\<exists>vs g'. gate_run lim h ts = Some (vs, g') \<and> Close \<notin> set vs \<and> \<not> g_closed g'"
    using Cons.prems(2-4) Cons.prems(5) [of "Suc k" for k] keep
    by (intro Cons.IH step(3)) auto
  thus ?case using step(1,2) by auto
qed (auto simp: patient_def)

text \<open>A peer that stays within twice the permitted rate is never closed. When every arrival comes
  at least one interval of the sustained rate after the one before the last, a fresh gate whose strike
  limit is at least two answers every check, never with \<open>Close\<close>, and is open at the end, however
  long the run and however small the burst.\<close>

theorem never_closed_below_twice_rate:
  assumes "2 \<le> s"
    and "\<And>t. t \<in> set ts \<Longrightarrow> now \<le> t
      \<and> t + pc_burst (pace_new now r b) + pc_interval (pace_new now r b) \<le> lim"
    and "\<And>k. k + 2 < length ts \<Longrightarrow> ts ! k + pc_interval (pace_new now r b) \<le> ts ! (k + 2)"
  shows "\<exists>vs g'. gate_run lim (gate_new now r b s) ts = Some (vs, g')
    \<and> Close \<notin> set vs \<and> \<not> g_closed g'"
proof (rule patient_run)
  show "patient (gate_new now r b s) ts"
    using assms(2) by (auto simp: patient_def gate_new_def intro: trans_le_add1)
  show "2 \<le> g_strike_limit (gate_new now r b s)"
    using assms(1) by (simp add: gate_new_def le_max_iff_disj)
  show "pc_interval (g_pace (gate_new now r b s)) \<le> 10 ^ 9"
    using pace_new_interval(2) by (simp add: gate_new_def)
qed (use assms(2,3) in \<open>auto simp: gate_new_def\<close>)

theorem never_closed_below_twice_rate_witness:
  "\<exists>vs g'. gate_run (10 ^ 12) (gate_new 5 4 1 2) [5, 130000005, 255000005, 380000005, 505000005] = Some (vs, g')
    \<and> Close \<notin> set vs \<and> \<not> g_closed g'"
proof (rule never_closed_below_twice_rate)
  have m: "max (1::u32) 1 = 1" "max (4::u32) 1 = 4" by code_simp+
  have i: "pc_interval (pace_new 5 4 1) = 250000000" by (simp add: pace_new_def Let_def m)
  show "(2 :: u16) \<le> 2" by simp
  show "5 \<le> t \<and> t + pc_burst (pace_new 5 4 1) + pc_interval (pace_new 5 4 1) \<le> 10 ^ 12"
    if "t \<in> set [5, 130000005, 255000005, 380000005, 505000005]" for t :: nat
    using that by (auto simp: i m)
  show "[5, 130000005, 255000005, 380000005, 505000005] ! k + pc_interval (pace_new 5 4 1)
      \<le> [5, 130000005, 255000005, 380000005, 505000005] ! (k + 2)"
    if "k + 2 < length [5, 130000005, 255000005, 380000005, 505000005 :: nat]" for k
    using that by (auto simp: i less_Suc_eq numeral_2_eq_2)
qed

section \<open>Messages and bytes\<close>

lemma would_admit_admits:
  "would_admit lim p now cost = Some True \<Longrightarrow> \<exists>p'. admit_cost lim p now cost = Some (True, p')"
  by (auto simp: would_admit_def admit_cost_def instant_checked_add_def Let_def split: if_splits)

lemma byte_gate_check_cases:
  assumes "byte_gate_check lim g now len = Some (v, g')"
  obtains (closed) "bg_closed g" "v = Close" "g' = g"
    | (taken) messages byts where "\<not> bg_closed g" "v = Allow"
        "admit lim (bg_messages g) now = Some (True, messages)"
        "admit_cost lim (bg_bytes g) now (byte_cost len) = Some (True, byts)"
        "g' = g\<lparr>bg_messages := messages, bg_bytes := byts, bg_strikes := sat_sub (bg_strikes g) 1\<rparr>"
    | (refused) "\<not> bg_closed g"
        "would_admit lim (bg_messages g) now 1 = Some False
         \<or> would_admit lim (bg_bytes g) now (byte_cost len) = Some False"
        "g' = g\<lparr>bg_strikes := sat_add (bg_strikes g) 1,
                 bg_closed := (bg_strike_limit g \<le> sat_add (bg_strikes g) 1)\<rparr>"
        "v = (if bg_strike_limit g \<le> sat_add (bg_strikes g) 1 then Close else Drop)"
proof (cases "bg_closed g")
  case True
  with assms show ?thesis by (intro closed) (auto simp: byte_gate_check_def)
next
  case open_g: False
  note check = assms [unfolded byte_gate_check_def Let_def]
  consider "would_admit lim (bg_messages g) now 1 = Some True"
      "would_admit lim (bg_bytes g) now (byte_cost len) = Some True"
    | "would_admit lim (bg_messages g) now 1 = Some False
       \<or> would_admit lim (bg_bytes g) now (byte_cost len) = Some False"
  proof (cases "would_admit lim (bg_messages g) now 1")
    case None
    thus thesis using check open_g by simp
  next
    case m: (Some r)
    show thesis
    proof (cases "would_admit lim (bg_bytes g) now (byte_cost len)")
      case None
      thus thesis using that(2) check open_g m by (cases r) simp_all
    next
      case (Some r')
      thus thesis using that m by (cases r; cases r') simp_all
    qed
  qed
  thus ?thesis
  proof cases
    case 1
    obtain messages byts where "admit lim (bg_messages g) now = Some (True, messages)"
      "admit_cost lim (bg_bytes g) now (byte_cost len) = Some (True, byts)"
      using would_admit_admits [OF 1(1)] would_admit_admits [OF 1(2)] by (auto simp: admit_def)
    thus ?thesis using check open_g 1 by (intro taken) auto
  next
    case 2
    from 2 check open_g have "Some (v, g') = Some (let g = g\<lparr>bg_strikes := sat_add (bg_strikes g) 1\<rparr>
      in if bg_strike_limit g \<le> bg_strikes g then (Close, g\<lparr>bg_closed := True\<rparr>) else (Drop, g))"
      by (cases "would_admit lim (bg_messages g) now 1"; cases "the (would_admit lim (bg_messages g) now 1)")
        (auto simp: Let_def)
    with 2 open_g show ?thesis
      by (cases g, intro refused) (simp_all add: Let_def split: if_splits)
  qed
qed

text \<open>The paired gate charges both paces or neither. An item that is allowed was admitted by the
  message pace and by the byte pace, at its own weight, and is charged to both; an item that is not
  is charged to neither, and a gate answers \<open>Close\<close> exactly when it is closed from then on.\<close>

theorem byte_gate_both_or_neither:
  assumes "byte_gate_check lim g now len = Some (v, g')"
  shows "(if v = Allow
      then admit lim (bg_messages g) now = Some (True, bg_messages g')
        \<and> admit_cost lim (bg_bytes g) now (byte_cost len) = Some (True, bg_bytes g')
      else bg_messages g' = bg_messages g \<and> bg_bytes g' = bg_bytes g)
    \<and> (v = Close \<longleftrightarrow> bg_closed g')"
  using assms by (cases rule: byte_gate_check_cases) auto

theorem byte_gate_both_or_neither_witness:
  "\<exists>g'. byte_gate_check (10 ^ 12) (byte_gate_new 5 1 1 1000 10 3) 5 20 = Some (Allow, g')
    \<and> admit (10 ^ 12) (pace_new 5 1 1) 5 = Some (True, bg_messages g')
    \<and> admit_cost (10 ^ 12) (pace_new 5 1000 10) 5 20 = Some (True, bg_bytes g')"
proof -
  have m: "max (1::u32) 1 = 1" "max (10::u32) 1 = 10" "max (1000::u32) 1 = 1000"
    "max (20::u32) 1 = 20" "max (3::u16) 1 = 3" by code_simp+
  have c: "byte_cost 20 = 20" by (simp add: byte_cost_def m)
  have "\<exists>g'. byte_gate_check (10 ^ 12) (byte_gate_new 5 1 1 1000 10 3) 5 20 = Some (Allow, g')"
    by (simp add: byte_gate_check_def byte_gate_new_def pace_new_def would_admit_def admit_def
        admit_cost_def instant_checked_add_def duration_saturating_mul_def DURATION_MAX_def Let_def
        sat_sub_def m c)
  then obtain g' where g': "byte_gate_check (10 ^ 12) (byte_gate_new 5 1 1 1000 10 3) 5 20 = Some (Allow, g')" ..
  show ?thesis using byte_gate_both_or_neither [OF g'] g' by (auto simp: byte_gate_new_def c)
qed

text \<open>C24: The byte pace does not weigh what it admits. The test of \<open>would_admit\<close> and of \<open>admit_cost\<close>
  looks at the pace alone and at the end of the clock, so a gate that allows one item now would allow
  an item of any length now: the weight is only charged afterwards.\<close>

theorem byte_gate_admits_any_size:
  assumes "byte_gate_check lim g now len = Some (Allow, g')"
    and "max (pc_next (bg_bytes g)) now + pc_interval (bg_bytes g) * 2 ^ 32 \<le> lim"
  shows "\<exists>g''. byte_gate_check lim g now len' = Some (Allow, g'')"
proof -
  have op: "\<not> bg_closed g" "would_admit lim (bg_messages g) now 1 = Some True"
    "would_admit lim (bg_bytes g) now (byte_cost len) = Some True"
    using assms(1) by (auto simp: byte_gate_check_def Let_def split: if_splits option.splits bool.splits)
  have "unat (max (byte_cost len') 1) \<le> 2 ^ 32"
    using unsigned_less [of "max (byte_cost len') 1", where 'a = nat] by simp
  hence "duration_saturating_mul (pc_interval (bg_bytes g)) (max (byte_cost len') 1)
      \<le> pc_interval (bg_bytes g) * 2 ^ 32"
    unfolding duration_saturating_mul_def by (intro min.coboundedI2 mult_le_mono2)
  hence "would_admit lim (bg_bytes g) now (byte_cost len') = Some True"
    using op(3) assms(2) by (auto simp: would_admit_def instant_checked_add_def Let_def split: if_splits)
  thus ?thesis using op would_admit_admits [OF op(2)] would_admit_admits
    by (fastforce simp: byte_gate_check_def Let_def admit_def)
qed

theorem byte_gate_admits_any_size_witness:
  "\<exists>g''. byte_gate_check (2 ^ 63 * 10 ^ 9) (byte_gate_from_spec 5 SIGNAL_BYTES) 5 (2 ^ 40) = Some (Allow, g'')"
proof -
  have m: "max (1::u32) 1 = 1" "max (4::u32) 1 = 4" "max (16::u32) 1 = 16" "max (32::u16) 1 = 32"
    "max (262144::u32) 1 = 262144" "max (65536::u32) 1 = 65536" by code_simp+
  have c: "byte_cost 1 = 1" by (simp add: byte_cost_def)
  have "\<exists>g'. byte_gate_check (2 ^ 63 * 10 ^ 9) (byte_gate_from_spec 5 SIGNAL_BYTES) 5 1 = Some (Allow, g')"
    by (simp add: byte_gate_check_def byte_gate_new_def byte_gate_from_spec_def SIGNAL_BYTES_def pace_new_def
        would_admit_def admit_def admit_cost_def instant_checked_add_def duration_saturating_mul_def
        DURATION_MAX_def Let_def sat_sub_def m c [simplified])
  then obtain g' where "byte_gate_check (2 ^ 63 * 10 ^ 9) (byte_gate_from_spec 5 SIGNAL_BYTES) 5 1 = Some (Allow, g')" ..
  thus ?thesis
    by (rule byte_gate_admits_any_size)
      (simp add: byte_gate_new_def byte_gate_from_spec_def SIGNAL_BYTES_def pace_new_def Let_def m)
qed

section \<open>The ledger that never forgives\<close>

lemma evictions_charge_total:
  "ev_charged (snd (evictions_charge e n)) = sat_add (ev_charged e) n"
  "ev_limit (snd (evictions_charge e n)) = ev_limit e"
  "fst (evictions_charge e n) = (if ev_limit e \<le> sat_add (ev_charged e) n then Close else Allow)"
  by (simp_all add: evictions_charge_def Let_def)

lemma evictions_sum:
  "unat (ev_charged (fold (\<lambda>n e. snd (evictions_charge e n)) ns e))
    = min (unat (ev_charged e) + sum_list (map unat ns)) (2 ^ 32 - 1)
  \<and> ev_limit (fold (\<lambda>n e. snd (evictions_charge e n)) ns e) = ev_limit e"
proof (induction ns arbitrary: e)
  case Nil
  thus ?case using unsigned_less [of "ev_charged e", where 'a = nat] by simp
next
  case (Cons n ns)
  thus ?case by (simp add: evictions_charge_total unat_sat_add min_def)
qed

text \<open>An eviction ledger closes exactly when the evictions charged since it was made reach its
  limit, in whatever portions they were charged and whatever happened in between, and it stays
  closed.\<close>

theorem evictions_close_exactly:
  "fst (evictions_charge (fold (\<lambda>n e. snd (evictions_charge e n)) ns (evictions_new limit)) n) = Close
    \<longleftrightarrow> unat (max limit 1) \<le> sum_list (map unat ns) + unat n"
proof -
  have "unat (max limit 1) < 2 ^ 32" using unsigned_less [of "max limit 1", where 'a = nat] by simp
  thus ?thesis
    using evictions_sum [of ns "evictions_new limit"]
    by (auto simp: evictions_charge_total word_le_nat_alt unat_sat_add evictions_new_def min_def)
qed

end
