(* ===== verification/Schedule.thy ===== *)
theory Schedule
  imports Prelude
begin

text \<open>
  Recurring civil-time windows (\<^verbatim>\<open>crates/schedule/src/lib.rs\<close>): validation, expansion into occurrences,
  evaluation at an instant with the next boundary, and overlaps.

  The calendar library (time zones, civil datetimes, adding days, weeks and months) is the argument \<open>cal\<close>.
  A \<open>u64\<close> is a natural number; additions the code checks are checked against \<open>2 ^ 64\<close>, and an \<open>i64\<close> is
  an integer. Each message of \<open>Invalid\<close> is a constructor. Years and months of a civil date are small, so
  the overflow checks of the month arithmetic, and of the count of at most 4096 occurrences, have no branch.

  \<open>window_occurs\<close> is the meaning of a window: its base occurrences that no exception names, and its
  replacements. \<open>occurrences_exact\<close> shows that expanding finds exactly those that meet the range.
\<close>

section \<open>Data\<close>

definition MAX_WINDOW_DURATION_MS :: nat where "MAX_WINDOW_DURATION_MS = 366 * 24 * 60 * 60 * 1000"
definition MAX_EXCEPTIONS :: nat where "MAX_EXCEPTIONS = 256"
definition MAX_EXPANDED_OCCURRENCES :: nat where "MAX_EXPANDED_OCCURRENCES = 4096"
definition MAX_TIMEZONE_BYTES :: nat where "MAX_TIMEZONE_BYTES = 128"
definition MAX_LOCAL_DATETIME_BYTES :: nat where "MAX_LOCAL_DATETIME_BYTES = 40"

datatype recurrence = NoRecurrence | Daily | Weekly | Monthly

datatype occurrence_exception =
    Cancel (ex_identity: nat)
  | Replace (ex_identity: nat) (ex_start_local: string) (ex_duration_ms: nat)

record window =
  w_start_local :: string
  w_duration_ms :: nat
  w_recurrence :: recurrence
  w_until_unix_ms :: "nat option"
  w_priority :: int
  w_enabled :: bool
  w_timezone :: string
  w_exceptions :: "occurrence_exception list"

record occurrence =
  oc_scheduled :: nat
  oc_start :: nat
  oc_end :: nat
  oc_priority :: int

record evaluation =
  ev_active :: "nat list"
  ev_next_boundary :: "nat option"

record overlap =
  ov_left :: nat
  ov_right :: nat
  ov_start :: nat
  ov_end :: nat

datatype schedule_invalid =
    DurationOutOfBounds | TooManyExceptions | EndsBeforeStart | DuplicateException | ExceptionAfterLimit
  | ExceptionNotOccurrence | ReplacementDuration | BoundaryOverflow | ExpansionBound | IndexOverflow
  | TimezoneInvalid | UnknownTimezone | LocalInvalid | LocalUnparsed | LocalUnresolved | BeforeEpoch
  | ThresholdRange | ThresholdInvalid | IndexRange | RecurrenceRange | ExpandFailed | EndOverflow

record ('tz, 'z) calendar =
  cal_zone :: "string \<Rightarrow> 'tz option"
  cal_parses :: "string \<Rightarrow> bool"
  cal_resolve :: "string \<Rightarrow> 'tz \<Rightarrow> 'z option"
  cal_ms :: "'z \<Rightarrow> int"
  cal_zone_of :: "'z \<Rightarrow> 'tz"
  cal_at :: "int \<Rightarrow> 'tz \<Rightarrow> 'z option"
  cal_year :: "'z \<Rightarrow> int"
  cal_month :: "'z \<Rightarrow> int"
  cal_span :: "recurrence \<Rightarrow> int \<Rightarrow> bool"
  cal_add :: "'z \<Rightarrow> recurrence \<Rightarrow> int \<Rightarrow> 'z option"

definition u64_checked_add :: "nat \<Rightarrow> nat \<Rightarrow> nat option" where
  "u64_checked_add a b = (if a + b < 2 ^ 64 then Some (a + b) else None)"

definition is_ascii :: "string \<Rightarrow> bool" where
  "is_ascii s = list_all (\<lambda>c. (of_char c :: nat) < 128) s"

section \<open>Instants\<close>

definition timestamp_ms :: "('tz, 'z) calendar \<Rightarrow> 'z \<Rightarrow> schedule_invalid + nat" where
  "timestamp_ms cal z = (if cal_ms cal z < 0 then Inl BeforeEpoch else Inr (nat (cal_ms cal z)))"

definition parse_local_with_zone :: "('tz, 'z) calendar \<Rightarrow> string \<Rightarrow> 'tz \<Rightarrow> schedule_invalid + 'z" where
  "parse_local_with_zone cal v zone =
    (if v = [] \<or> MAX_LOCAL_DATETIME_BYTES < length v \<or> \<not> is_ascii v then Inl LocalInvalid
     else if \<not> cal_parses cal v then Inl LocalUnparsed
     else case cal_resolve cal v zone of None \<Rightarrow> Inl LocalUnresolved | Some z \<Rightarrow> Inr z)"

definition parse_local :: "('tz, 'z) calendar \<Rightarrow> string \<Rightarrow> string \<Rightarrow> schedule_invalid + 'z" where
  "parse_local cal v timezone =
    (case cal_zone cal timezone of
       None \<Rightarrow> Inl UnknownTimezone
     | Some zone \<Rightarrow> parse_local_with_zone cal v zone)"

definition window_start :: "('tz, 'z) calendar \<Rightarrow> window \<Rightarrow> schedule_invalid + ('z \<times> 'tz)" where
  "window_start cal w =
    (if w_timezone w = [] \<or> MAX_TIMEZONE_BYTES < length (w_timezone w) \<or> \<not> is_ascii (w_timezone w)
     then Inl TimezoneInvalid
     else case cal_zone cal (w_timezone w) of
       None \<Rightarrow> Inl UnknownTimezone
     | Some zone \<Rightarrow>
         try_then (parse_local_with_zone cal (w_start_local w) zone) (\<lambda>start.
         try_then (timestamp_ms cal start) (\<lambda>_. Inr (start, zone))))"

definition approximate_index ::
  "('tz, 'z) calendar \<Rightarrow> 'z \<Rightarrow> nat \<Rightarrow> recurrence \<Rightarrow> schedule_invalid + nat" where
  "approximate_index cal start threshold rec =
    (if rec = NoRecurrence then Inr 0
     else try_then (timestamp_ms cal start) (\<lambda>start_ms.
       if threshold \<le> start_ms then Inr 0
       else if 2 ^ 63 \<le> threshold then Inl ThresholdRange
       else case cal_at cal (int threshold) (cal_zone_of cal start) of
         None \<Rightarrow> Inl ThresholdInvalid
       | Some at \<Rightarrow>
           let approximate =
             (case rec of
                NoRecurrence \<Rightarrow> 0
              | Daily \<Rightarrow> (threshold - start_ms) div 86400000
              | Weekly \<Rightarrow> (threshold - start_ms) div 604800000
              | Monthly \<Rightarrow> nat (max 0 ((cal_year cal at - cal_year cal start) * 12 + cal_month cal at - cal_month cal start)))
           in Inr (approximate - 3)))"

definition occurrence_at ::
  "('tz, 'z) calendar \<Rightarrow> 'z \<Rightarrow> recurrence \<Rightarrow> nat \<Rightarrow> schedule_invalid + 'z option" where
  "occurrence_at cal start rec index =
    (if rec = NoRecurrence \<and> 0 < index then Inr None
     else if 2 ^ 63 \<le> index then Inl IndexRange
     else if rec \<noteq> NoRecurrence \<and> \<not> cal_span cal rec (int index) then Inl RecurrenceRange
     else case cal_add cal start rec (int index) of
       None \<Rightarrow> Inl ExpandFailed
     | Some z \<Rightarrow> Inr (Some z))"

fun is_base_loop ::
  "('tz, 'z) calendar \<Rightarrow> 'z \<Rightarrow> recurrence \<Rightarrow> nat \<Rightarrow> nat \<Rightarrow> nat list \<Rightarrow> schedule_invalid + bool" where
  "is_base_loop cal start rec candidate first [] = Inr False"
| "is_base_loop cal start rec candidate first (offset # offsets) =
    (case u64_checked_add first offset of
       None \<Rightarrow> Inl IndexOverflow
     | Some index \<Rightarrow>
         try_then (occurrence_at cal start rec index) (\<lambda>found.
         case found of
           None \<Rightarrow> Inr False
         | Some z \<Rightarrow>
             try_then (timestamp_ms cal z) (\<lambda>at.
             if at = candidate then Inr True
             else if candidate < at then Inr False
             else is_base_loop cal start rec candidate first offsets)))"

definition is_base_occurrence ::
  "('tz, 'z) calendar \<Rightarrow> 'z \<Rightarrow> recurrence \<Rightarrow> nat \<Rightarrow> schedule_invalid + bool" where
  "is_base_occurrence cal start rec candidate =
    try_then (approximate_index cal start candidate rec) (\<lambda>first.
      is_base_loop cal start rec candidate first [0..<8])"

section \<open>Validation\<close>

definition after_limit :: "window \<Rightarrow> nat \<Rightarrow> bool" where
  "after_limit w at = (case w_until_unix_ms w of None \<Rightarrow> False | Some until \<Rightarrow> until < at)"

fun validate_exceptions ::
  "('tz, 'z) calendar \<Rightarrow> window \<Rightarrow> 'z \<Rightarrow> nat set \<Rightarrow> occurrence_exception list \<Rightarrow> schedule_invalid + unit" where
  "validate_exceptions cal w start identities [] = Inr ()"
| "validate_exceptions cal w start identities (e # es) =
    (if ex_identity e \<in> identities then Inl DuplicateException
     else if after_limit w (ex_identity e) then Inl ExceptionAfterLimit
     else try_then (is_base_occurrence cal start (w_recurrence w) (ex_identity e)) (\<lambda>base.
       if \<not> base then Inl ExceptionNotOccurrence
       else case e of
         Cancel _ \<Rightarrow> validate_exceptions cal w start (insert (ex_identity e) identities) es
       | Replace _ start_local duration_ms \<Rightarrow>
           if duration_ms = 0 \<or> MAX_WINDOW_DURATION_MS < duration_ms then Inl ReplacementDuration
           else try_then (parse_local cal start_local (w_timezone w)) (\<lambda>_.
             validate_exceptions cal w start (insert (ex_identity e) identities) es)))"

definition validate :: "('tz, 'z) calendar \<Rightarrow> window \<Rightarrow> schedule_invalid + unit" where
  "validate cal w =
    try_then (window_start cal w) (\<lambda>(start, _).
    try_then (timestamp_ms cal start) (\<lambda>start_ms.
      if w_duration_ms w = 0 \<or> MAX_WINDOW_DURATION_MS < w_duration_ms w then Inl DurationOutOfBounds
      else if MAX_EXCEPTIONS < length (w_exceptions w) then Inl TooManyExceptions
      else if (case w_until_unix_ms w of None \<Rightarrow> False | Some until \<Rightarrow> until < start_ms) then Inl EndsBeforeStart
      else validate_exceptions cal w start {} (w_exceptions w)))"

section \<open>Expansion\<close>

definition push_if_intersecting ::
  "nat \<Rightarrow> nat \<Rightarrow> nat \<Rightarrow> int \<Rightarrow> nat \<Rightarrow> nat \<Rightarrow> occurrence list \<Rightarrow> schedule_invalid + occurrence list" where
  "push_if_intersecting scheduled start duration priority range_start range_end occurrences =
    (case u64_checked_add start duration of
       None \<Rightarrow> Inl EndOverflow
     | Some end_ms \<Rightarrow>
         Inr (if start < range_end \<and> range_start < end_ms
              then occurrences @ [\<lparr>oc_scheduled = scheduled, oc_start = start, oc_end = end_ms, oc_priority = priority\<rparr>]
              else occurrences))"

definition exception_for :: "window \<Rightarrow> nat \<Rightarrow> occurrence_exception option" where
  "exception_for w scheduled = find (\<lambda>e. ex_identity e = scheduled) (w_exceptions w)"

definition push_replacement ::
  "('tz, 'z) calendar \<Rightarrow> window \<Rightarrow> 'tz \<Rightarrow> nat \<Rightarrow> string \<Rightarrow> nat \<Rightarrow> nat \<Rightarrow> nat \<Rightarrow> occurrence list \<Rightarrow>
   schedule_invalid + occurrence list" where
  "push_replacement cal w zone scheduled start_local duration range_start range_end occurrences =
    try_then (parse_local_with_zone cal start_local zone) (\<lambda>replacement.
    try_then (timestamp_ms cal replacement) (\<lambda>at.
      push_if_intersecting scheduled at duration (w_priority w) range_start range_end occurrences))"

definition push_scheduled ::
  "('tz, 'z) calendar \<Rightarrow> window \<Rightarrow> 'tz \<Rightarrow> nat \<Rightarrow> nat \<Rightarrow> nat \<Rightarrow> occurrence list \<Rightarrow> schedule_invalid + occurrence list" where
  \<comment> \<open>one base occurrence, or what its exception makes of it\<close>
  "push_scheduled cal w zone scheduled range_start range_end occurrences =
    (case exception_for w scheduled of
       Some (Cancel _) \<Rightarrow> Inr occurrences
     | Some (Replace _ start_local duration) \<Rightarrow>
         push_replacement cal w zone scheduled start_local duration range_start range_end occurrences
     | None \<Rightarrow>
         push_if_intersecting scheduled scheduled (w_duration_ms w) (w_priority w) range_start range_end occurrences)"

fun expand_loop ::
  "('tz, 'z) calendar \<Rightarrow> window \<Rightarrow> 'z \<Rightarrow> 'tz \<Rightarrow> nat \<Rightarrow> nat \<Rightarrow> nat \<Rightarrow> nat \<Rightarrow> occurrence list \<Rightarrow>
   schedule_invalid + occurrence list" where
  \<comment> \<open>the first number is how many more occurrences the bound allows\<close>
  "expand_loop cal w start zone range_start range_end 0 index occurrences = Inl ExpansionBound"
| "expand_loop cal w start zone range_start range_end (Suc left) index occurrences =
    try_then (occurrence_at cal start (w_recurrence w) index) (\<lambda>found.
    case found of
      None \<Rightarrow> Inr occurrences
    | Some base \<Rightarrow>
        try_then (timestamp_ms cal base) (\<lambda>scheduled.
          if after_limit w scheduled then Inr occurrences
          else if range_end \<le> scheduled then Inr occurrences
          else try_then (push_scheduled cal w zone scheduled range_start range_end occurrences) (\<lambda>occurrences.
            if w_recurrence w = NoRecurrence then Inr occurrences
            else case u64_checked_add index 1 of
              None \<Rightarrow> Inl IndexOverflow
            | Some index \<Rightarrow> expand_loop cal w start zone range_start range_end left index occurrences)))"

fun replacement_loop ::
  "('tz, 'z) calendar \<Rightarrow> window \<Rightarrow> 'tz \<Rightarrow> nat \<Rightarrow> nat \<Rightarrow> occurrence_exception list \<Rightarrow> occurrence list \<Rightarrow>
   schedule_invalid + occurrence list" where
  "replacement_loop cal w zone range_start range_end [] occurrences = Inr occurrences"
| "replacement_loop cal w zone range_start range_end (Cancel _ # es) occurrences =
    replacement_loop cal w zone range_start range_end es occurrences"
| "replacement_loop cal w zone range_start range_end (Replace identity start_local duration # es) occurrences =
    (if list_ex (\<lambda>o'. oc_scheduled o' = identity) occurrences
     then replacement_loop cal w zone range_start range_end es occurrences
     else try_then (push_replacement cal w zone identity start_local duration range_start range_end occurrences)
       (\<lambda>occurrences. replacement_loop cal w zone range_start range_end es occurrences))"

definition occurrence_key :: "occurrence \<Rightarrow> nat \<times> nat \<times> nat" where
  "occurrence_key o' = (oc_start o', oc_end o', oc_scheduled o')"

definition occurrences_between ::
  "('tz, 'z) calendar \<Rightarrow> window \<Rightarrow> nat \<Rightarrow> nat \<Rightarrow> schedule_invalid + occurrence list" where
  "occurrences_between cal w range_start range_end =
    try_then (validate cal w) (\<lambda>_.
      if \<not> w_enabled w \<or> range_end \<le> range_start then Inr []
      else try_then (window_start cal w) (\<lambda>(start, zone).
        try_then (approximate_index cal start (range_start - w_duration_ms w) (w_recurrence w)) (\<lambda>first.
        try_then (expand_loop cal w start zone range_start range_end MAX_EXPANDED_OCCURRENCES first []) (\<lambda>occurrences.
        try_then (replacement_loop cal w zone range_start range_end (w_exceptions w) occurrences) (\<lambda>occurrences.
          Inr (remdups_adj (sort_key occurrence_key occurrences)))))))"

section \<open>Evaluation\<close>

definition longest_duration :: "window \<Rightarrow> nat" where
  "longest_duration w =
    fold max (map ex_duration_ms (filter (\<lambda>e. case e of Replace _ _ _ \<Rightarrow> True | Cancel _ \<Rightarrow> False) (w_exceptions w)))
      (w_duration_ms w)"

definition boundary_after :: "nat \<Rightarrow> nat \<Rightarrow> schedule_invalid + nat" where
  "boundary_after start duration =
    (case u64_checked_add start duration of
       None \<Rightarrow> Inl BoundaryOverflow
     | Some e \<Rightarrow> (case u64_checked_add e 1 of None \<Rightarrow> Inl BoundaryOverflow | Some e \<Rightarrow> Inr e))"

fun single_end ::
  "('tz, 'z) calendar \<Rightarrow> 'tz \<Rightarrow> occurrence_exception list \<Rightarrow> nat \<Rightarrow> schedule_invalid + nat" where
  "single_end cal zone [] end_ms = Inr end_ms"
| "single_end cal zone (Cancel _ # es) end_ms = single_end cal zone es end_ms"
| "single_end cal zone (Replace _ start_local duration # es) end_ms =
    try_then (parse_local_with_zone cal start_local zone) (\<lambda>z.
    try_then (timestamp_ms cal z) (\<lambda>at.
    try_then (boundary_after at duration) (\<lambda>e.
      single_end cal zone es (max end_ms e))))"

definition horizon :: "('tz, 'z) calendar \<Rightarrow> window \<Rightarrow> nat \<Rightarrow> schedule_invalid + nat" where
  \<comment> \<open>\<open>range_end\<close> of \<open>evaluate_at\<close>\<close>
  "horizon cal w now =
    (if w_recurrence w = NoRecurrence
     then try_then (window_start cal w) (\<lambda>(start, zone).
       try_then (timestamp_ms cal start) (\<lambda>at.
       try_then (boundary_after at (w_duration_ms w)) (\<lambda>e.
         single_end cal zone (w_exceptions w) e)))
     else case u64_checked_add now MAX_WINDOW_DURATION_MS of None \<Rightarrow> Inl BoundaryOverflow | Some e \<Rightarrow> Inr e)"

definition sooner :: "nat option \<Rightarrow> nat \<Rightarrow> nat option" where
  "sooner next boundary = Some (case next of None \<Rightarrow> boundary | Some current \<Rightarrow> min current boundary)"

definition note_occurrence :: "nat \<Rightarrow> occurrence \<Rightarrow> bool \<times> nat option \<Rightarrow> bool \<times> nat option" where
  "note_occurrence now o' acc =
    (let active = (fst acc \<or> oc_start o' \<le> now \<and> now < oc_end o')
     in (active, fold (\<lambda>boundary next. if now < boundary then sooner next boundary else next)
           [oc_start o', oc_end o'] (snd acc)))"

definition evaluate_at :: "('tz, 'z) calendar \<Rightarrow> window \<Rightarrow> nat \<Rightarrow> schedule_invalid + (bool \<times> nat option)" where
  "evaluate_at cal w now =
    try_then (validate cal w) (\<lambda>_.
      if \<not> w_enabled w then Inr (False, None)
      else try_then (horizon cal w now) (\<lambda>range_end.
        try_then (occurrences_between cal w (now - longest_duration w) range_end) (\<lambda>occurrences.
          Inr (fold (note_occurrence now) occurrences (False, None)))))"

fun evaluate_loop ::
  "('tz, 'z) calendar \<Rightarrow> nat \<Rightarrow> nat \<Rightarrow> window list \<Rightarrow> nat list \<Rightarrow> nat option \<Rightarrow> schedule_invalid + evaluation" where
  "evaluate_loop cal now index [] active next_boundary =
    Inr \<lparr>ev_active = active, ev_next_boundary = next_boundary\<rparr>"
| "evaluate_loop cal now index (w # ws) active next_boundary =
    try_then (evaluate_at cal w now) (\<lambda>(is_active, found).
      evaluate_loop cal now (Suc index) ws
        (if is_active then active @ [index] else active)
        (case found of None \<Rightarrow> next_boundary | Some b \<Rightarrow> sooner next_boundary b))"

definition evaluate :: "('tz, 'z) calendar \<Rightarrow> window list \<Rightarrow> nat \<Rightarrow> schedule_invalid + evaluation" where
  "evaluate cal windows now = evaluate_loop cal now 0 windows [] None"

definition overlap_of :: "nat \<Rightarrow> nat \<Rightarrow> occurrence \<Rightarrow> occurrence \<Rightarrow> overlap list" where
  "overlap_of left right a b =
    (let s = max (oc_start a) (oc_start b); e = min (oc_end a) (oc_end b)
     in if s < e then [\<lparr>ov_left = left, ov_right = right, ov_start = s, ov_end = e\<rparr>] else [])"

definition overlap_key :: "overlap \<Rightarrow> nat \<times> nat \<times> nat \<times> nat" where
  "overlap_key v = (ov_start v, ov_end v, ov_left v, ov_right v)"

definition overlaps_of :: "occurrence list list \<Rightarrow> overlap list" where
  "overlaps_of expanded =
    concat (map (\<lambda>(left, os). concat (map (\<lambda>(right, os').
        concat (map (\<lambda>a. concat (map (\<lambda>b. overlap_of left right a b) os')) os))
      (drop (Suc left) (enumerate 0 expanded)))) (enumerate 0 expanded))"

definition overlaps_between ::
  "('tz, 'z) calendar \<Rightarrow> window list \<Rightarrow> nat \<Rightarrow> nat \<Rightarrow> schedule_invalid + overlap list" where
  "overlaps_between cal windows range_start range_end =
    try_then (collect_result (\<lambda>w. occurrences_between cal w range_start range_end) windows) (\<lambda>expanded.
      Inr (sort_key overlap_key (overlaps_of expanded)))"

section \<open>What a window means\<close>

definition base_at :: "('tz, 'z) calendar \<Rightarrow> 'z \<Rightarrow> recurrence \<Rightarrow> nat \<Rightarrow> nat option" where
  \<comment> \<open>the instant of the base occurrence at an index\<close>
  "base_at cal start rec i =
    (case occurrence_at cal start rec i of
       Inr (Some z) \<Rightarrow> (case timestamp_ms cal z of Inr ms \<Rightarrow> Some ms | Inl _ \<Rightarrow> None)
     | _ \<Rightarrow> None)"

definition replaced ::
  "('tz, 'z) calendar \<Rightarrow> window \<Rightarrow> 'tz \<Rightarrow> nat \<Rightarrow> string \<Rightarrow> nat \<Rightarrow> occurrence \<Rightarrow> bool" where
  "replaced cal w zone identity start_local duration o' \<longleftrightarrow>
    (\<exists>z at. parse_local_with_zone cal start_local zone = Inr z \<and> timestamp_ms cal z = Inr at
      \<and> o' = \<lparr>oc_scheduled = identity, oc_start = at, oc_end = at + duration, oc_priority = w_priority w\<rparr>)"

definition regular :: "window \<Rightarrow> nat \<Rightarrow> occurrence" where
  "regular w ms = \<lparr>oc_scheduled = ms, oc_start = ms, oc_end = ms + w_duration_ms w, oc_priority = w_priority w\<rparr>"

definition window_occurs :: "('tz, 'z) calendar \<Rightarrow> window \<Rightarrow> occurrence \<Rightarrow> bool" where
  "window_occurs cal w o' \<longleftrightarrow> (\<exists>start zone. window_start cal w = Inr (start, zone) \<and>
    ((\<exists>i ms. base_at cal start (w_recurrence w) i = Some ms \<and> \<not> after_limit w ms
        \<and> exception_for w ms = None \<and> o' = regular w ms)
     \<or> (\<exists>identity start_local duration. Replace identity start_local duration \<in> set (w_exceptions w)
        \<and> replaced cal w zone identity start_local duration o')))"

definition meets :: "nat \<Rightarrow> nat \<Rightarrow> occurrence \<Rightarrow> bool" where
  "meets a b o' \<longleftrightarrow> oc_start o' < b \<and> a < oc_end o'"

definition month_no :: "('tz, 'z) calendar \<Rightarrow> 'z \<Rightarrow> int" where
  "month_no cal z = cal_year cal z * 12 + cal_month cal z"

text \<open>What the code relies on of the calendar library: adding whole days or weeks moves an instant by that
  many times 24 hours, up to what two offsets of a zone may differ, which is under two days; adding months
  moves the civil month by as many, or by one more where a zone skipped the day; a civil month at least two later is a later instant; adding more is
  never earlier, and adding nothing is the identity.\<close>

definition calendar_ok :: "('tz, 'z) calendar \<Rightarrow> bool" where
  "calendar_ok cal \<longleftrightarrow>
    (\<forall>z i z'. 0 \<le> i \<longrightarrow> cal_add cal z Daily i = Some z' \<longrightarrow> cal_ms cal z' \<le> cal_ms cal z + i * 86400000 + 172800000) \<and>
    (\<forall>z i z'. 0 \<le> i \<longrightarrow> cal_add cal z Weekly i = Some z' \<longrightarrow> cal_ms cal z' \<le> cal_ms cal z + i * 604800000 + 172800000) \<and>
    (\<forall>z i z'. 0 \<le> i \<longrightarrow> cal_add cal z Monthly i = Some z' \<longrightarrow> month_no cal z' \<le> month_no cal z + i + 1) \<and>
    (\<forall>z z'. month_no cal z + 2 \<le> month_no cal z' \<longrightarrow> cal_ms cal z \<le> cal_ms cal z') \<and>
    (\<forall>z rec i j a b. rec \<noteq> NoRecurrence \<longrightarrow> 0 \<le> i \<longrightarrow> i < j \<longrightarrow> cal_add cal z rec i = Some a \<longrightarrow>
       cal_add cal z rec j = Some b \<longrightarrow> cal_ms cal a \<le> cal_ms cal b) \<and>
    (\<forall>m tz z. cal_at cal m tz = Some z \<longrightarrow> cal_ms cal z = m) \<and>
    (\<forall>z rec. cal_add cal z rec 0 = Some z \<and> cal_span cal rec 0)"

lemma calendar_okD:
  assumes "calendar_ok cal"
  shows "cal_add cal z Daily (int i) = Some z' \<Longrightarrow> cal_ms cal z' \<le> cal_ms cal z + int i * 86400000 + 172800000"
    and "cal_add cal z Weekly (int i) = Some z' \<Longrightarrow> cal_ms cal z' \<le> cal_ms cal z + int i * 604800000 + 172800000"
    and "cal_add cal z Monthly (int i) = Some z' \<Longrightarrow> month_no cal z' \<le> month_no cal z + int i + 1"
    and "month_no cal z + 2 \<le> month_no cal z' \<Longrightarrow> cal_ms cal z \<le> cal_ms cal z'"
    and "rec \<noteq> NoRecurrence \<Longrightarrow> i < j \<Longrightarrow> cal_add cal z rec (int i) = Some a \<Longrightarrow>
       cal_add cal z rec (int j) = Some b \<Longrightarrow> cal_ms cal a \<le> cal_ms cal b"
    and "cal_at cal m tz = Some z \<Longrightarrow> cal_ms cal z = m"
    and "cal_add cal z rec 0 = Some z" "cal_span cal rec 0"
  using assms unfolding calendar_ok_def by (metis of_nat_0_le_iff of_nat_less_iff)+

lemma base_at_Some:
  "base_at cal start rec i = Some ms \<longleftrightarrow>
    (\<exists>z. occurrence_at cal start rec i = Inr (Some z) \<and> timestamp_ms cal z = Inr ms)"
  by (auto simp: base_at_def split: sum.splits option.splits)

lemma occurrence_at_Some:
  "occurrence_at cal start rec i = Inr (Some z) \<Longrightarrow> cal_add cal start rec (int i) = Some z \<and> (rec = NoRecurrence \<longrightarrow> i = 0)"
  by (auto simp: occurrence_at_def split: if_splits option.splits)

lemma timestamp_ms_Inr: "timestamp_ms cal z = Inr ms \<longleftrightarrow> cal_ms cal z = int ms"
  by (auto simp: timestamp_ms_def)

lemma base_mono:
  assumes "calendar_ok cal" "base_at cal start rec i = Some a" "base_at cal start rec j = Some b" "i \<le> j"
  shows "a \<le> b"
proof (cases "i = j")
  case False
  obtain x y where x: "cal_add cal start rec (int i) = Some x" "cal_ms cal x = int a"
    and y: "cal_add cal start rec (int j) = Some y" "cal_ms cal y = int b" "rec = NoRecurrence \<longrightarrow> j = 0"
    using assms(2,3) by (auto simp: base_at_Some timestamp_ms_Inr dest!: occurrence_at_Some)
  have "i < j" "rec \<noteq> NoRecurrence" using False assms(4) y(3) by auto
  from calendar_okD(5) [OF assms(1) this(2,1) x(1) y(1)] show ?thesis using x(2) y(2) by simp
qed (use assms in simp)

text \<open>The expansion starts early enough: an occurrence before the first index lies at or before the
  threshold.\<close>

lemma approximate_index_Inr:
  assumes "approximate_index cal start threshold rec = Inr first" "0 < first"
  obtains s at where "timestamp_ms cal start = Inr s" "s < threshold" "rec \<noteq> NoRecurrence"
    "cal_at cal (int threshold) (cal_zone_of cal start) = Some at"
    "first = (case rec of NoRecurrence \<Rightarrow> 0 | Daily \<Rightarrow> (threshold - s) div 86400000 | Weekly \<Rightarrow> (threshold - s) div 604800000
       | Monthly \<Rightarrow> nat (max 0 (month_no cal at - month_no cal start))) - 3"
proof -
  have rec: "rec \<noteq> NoRecurrence" using assms by (auto simp: approximate_index_def)
  then obtain s where s: "timestamp_ms cal start = Inr s"
    using assms by (auto simp: approximate_index_def try_then_eq_Inr)
  have lt: "s < threshold" using assms rec s by (auto simp: approximate_index_def split: if_splits)
  then obtain at where at: "cal_at cal (int threshold) (cal_zone_of cal start) = Some at"
    using assms rec s by (auto simp: approximate_index_def split: if_splits option.splits)
  have "first = (case rec of NoRecurrence \<Rightarrow> 0 | Daily \<Rightarrow> (threshold - s) div 86400000 | Weekly \<Rightarrow> (threshold - s) div 604800000
       | Monthly \<Rightarrow> nat (max 0 (month_no cal at - month_no cal start))) - 3"
    using assms(1) rec lt s at
    by (cases rec) (simp_all add: approximate_index_def Let_def month_no_def algebra_simps not_le split: if_splits)
  from that [OF s lt rec at this] show thesis .
qed

lemma early_occurrences:
  assumes "calendar_ok cal" "approximate_index cal start threshold rec = Inr first"
    and "i < first" "base_at cal start rec i = Some ms"
  shows "ms \<le> threshold \<and> 0 < threshold"
proof -
  obtain z where z: "cal_add cal start rec (int i) = Some z" "cal_ms cal z = int ms"
    using assms(4) by (auto simp: base_at_Some timestamp_ms_Inr dest!: occurrence_at_Some)
  have "0 < first" using assms(3) by simp
  from assms(2) this obtain s at where s: "timestamp_ms cal start = Inr s" "s < threshold" "rec \<noteq> NoRecurrence"
    "cal_at cal (int threshold) (cal_zone_of cal start) = Some at"
    "first = (case rec of NoRecurrence \<Rightarrow> 0 | Daily \<Rightarrow> (threshold - s) div 86400000 | Weekly \<Rightarrow> (threshold - s) div 604800000
       | Monthly \<Rightarrow> nat (max 0 (month_no cal at - month_no cal start))) - 3"
    by (rule approximate_index_Inr)
  have sm: "cal_ms cal start = int s" and am: "cal_ms cal at = int threshold"
    using s(1,4) calendar_okD(6) [OF assms(1)] by (simp_all add: timestamp_ms_Inr)
  show ?thesis
  proof (cases rec)
    case NoRecurrence
    thus ?thesis using s(3) by simp
  next
    case Daily
    hence "int ms \<le> int s + int i * 86400000 + 172800000" using calendar_okD(1) [OF assms(1)] z sm by metis
    moreover have "i + 4 \<le> (threshold - s) div 86400000" using s(5) assms(3) Daily by simp
    ultimately show ?thesis using s(2) by linarith
  next
    case Weekly
    hence "int ms \<le> int s + int i * 604800000 + 172800000" using calendar_okD(2) [OF assms(1)] z sm by metis
    moreover have "i + 4 \<le> (threshold - s) div 604800000" using s(5) assms(3) Weekly by simp
    ultimately show ?thesis using s(2) by linarith
  next
    case Monthly
    hence "month_no cal z \<le> month_no cal start + int i + 1" using calendar_okD(3) [OF assms(1)] z by metis
    moreover have "int i + 4 \<le> month_no cal at - month_no cal start" using s(5) assms(3) Monthly by auto
    ultimately have "cal_ms cal z \<le> cal_ms cal at" by (intro calendar_okD(4) [OF assms(1)]) simp
    thus ?thesis using z(2) am s(2) by simp
  qed
qed

section \<open>The expansion is exact\<close>

lemma push_set:
  "push_if_intersecting scheduled at duration priority a b os = Inr os' \<Longrightarrow>
    set os' = set os \<union> {o'. o' = \<lparr>oc_scheduled = scheduled, oc_start = at, oc_end = at + duration, oc_priority = priority\<rparr>
      \<and> meets a b o'}"
  by (auto simp: push_if_intersecting_def u64_checked_add_def meets_def split: if_splits)

lemma push_replacement_set:
  assumes "push_replacement cal w zone identity start_local duration a b os = Inr os'"
  shows "set os' = set os \<union> {o'. replaced cal w zone identity start_local duration o' \<and> meets a b o'}"
proof -
  obtain z at where z: "parse_local_with_zone cal start_local zone = Inr z" "timestamp_ms cal z = Inr at"
    "push_if_intersecting identity at duration (w_priority w) a b os = Inr os'"
    using assms by (auto simp: push_replacement_def try_then_eq_Inr)
  show ?thesis unfolding push_set [OF z(3)] using z(1,2) by (auto simp: replaced_def)
qed

definition scheduled_as :: "('tz, 'z) calendar \<Rightarrow> window \<Rightarrow> 'tz \<Rightarrow> nat \<Rightarrow> occurrence \<Rightarrow> bool" where
  "scheduled_as cal w zone ms o' \<longleftrightarrow>
    (case exception_for w ms of
       Some (Cancel _) \<Rightarrow> False
     | Some (Replace _ start_local duration) \<Rightarrow> replaced cal w zone ms start_local duration o'
     | None \<Rightarrow> o' = regular w ms)"

lemma push_scheduled_set:
  assumes "push_scheduled cal w zone ms a b os = Inr os'"
  shows "set os' = set os \<union> {o'. scheduled_as cal w zone ms o' \<and> meets a b o'}"
proof (cases "exception_for w ms")
  case None
  hence "push_if_intersecting ms ms (w_duration_ms w) (w_priority w) a b os = Inr os'"
    using assms by (simp add: push_scheduled_def)
  from push_set [OF this] show ?thesis by (simp add: scheduled_as_def None regular_def)
next
  case (Some e)
  show ?thesis
  proof (cases e)
    case Cancel
    thus ?thesis using assms Some by (simp add: push_scheduled_def scheduled_as_def)
  next
    case (Replace identity start_local duration)
    hence "push_replacement cal w zone ms start_local duration a b os = Inr os'"
      using assms Some by (simp add: push_scheduled_def)
    from push_replacement_set [OF this] show ?thesis by (simp add: scheduled_as_def Some Replace)
  qed
qed

definition found_from :: "('tz, 'z) calendar \<Rightarrow> window \<Rightarrow> 'z \<Rightarrow> 'tz \<Rightarrow> nat \<Rightarrow> nat \<Rightarrow> nat \<Rightarrow> occurrence \<Rightarrow> bool" where
  \<comment> \<open>what the base occurrences from an index on contribute\<close>
  "found_from cal w start zone a b k o' \<longleftrightarrow>
    (\<exists>i ms. k \<le> i \<and> base_at cal start (w_recurrence w) i = Some ms \<and> \<not> after_limit w ms \<and> ms < b
      \<and> scheduled_as cal w zone ms o' \<and> meets a b o')"

lemma found_from_Suc:
  "found_from cal w start zone a b k o' \<longleftrightarrow> found_from cal w start zone a b (Suc k) o' \<or>
    (\<exists>ms. base_at cal start (w_recurrence w) k = Some ms \<and> \<not> after_limit w ms \<and> ms < b
      \<and> scheduled_as cal w zone ms o' \<and> meets a b o')"
proof -
  have "k \<le> i \<longleftrightarrow> Suc k \<le> i \<or> i = k" for i by auto
  thus ?thesis unfolding found_from_def by blast
qed

lemma found_from_past:
  assumes "calendar_ok cal" "base_at cal start (w_recurrence w) k = Some ms" "after_limit w ms \<or> b \<le> ms"
  shows "\<not> found_from cal w start zone a b k o'"
proof
  assume "found_from cal w start zone a b k o'"
  then obtain i m where i: "k \<le> i" "base_at cal start (w_recurrence w) i = Some m" "\<not> after_limit w m" "m < b"
    by (auto simp: found_from_def)
  have "ms \<le> m" by (rule base_mono [OF assms(1,2) i(2,1)])
  thus False using i(3,4) assms(3) by (auto simp: after_limit_def split: option.splits)
qed

lemma expand_loop_set:
  assumes "calendar_ok cal"
  shows "expand_loop cal w start zone a b left k os = Inr os' \<Longrightarrow>
    set os' = set os \<union> {o'. found_from cal w start zone a b k o'}"
proof (induction left arbitrary: k os)
  case (Suc left)
  obtain found where found: "occurrence_at cal start (w_recurrence w) k = Inr found"
    using Suc.prems by (auto simp: try_then_eq_Inr)
  show ?case
  proof (cases found)
    case None
    hence "w_recurrence w = NoRecurrence \<and> 0 < k"
      using found by (auto simp: occurrence_at_def split: if_splits option.splits)
    hence "\<not> found_from cal w start zone a b k o'" for o'
      by (auto simp: found_from_def base_at_Some dest!: occurrence_at_Some)
    thus ?thesis using Suc.prems found None by simp
  next
    case (Some z)
    obtain ms where ms: "timestamp_ms cal z = Inr ms" using Suc.prems found Some by (auto simp: try_then_eq_Inr)
    have base: "base_at cal start (w_recurrence w) k = Some ms" using found Some ms by (auto simp: base_at_Some)
    show ?thesis
    proof (cases "after_limit w ms \<or> b \<le> ms")
      case True
      thus ?thesis using found_from_past [OF assms base True] Suc.prems found Some ms by (auto split: if_splits)
    next
      case False
      obtain os1 where os1: "push_scheduled cal w zone ms a b os = Inr os1"
        using Suc.prems found Some ms False by (auto simp: try_then_eq_Inr)
      have single: "\<not> found_from cal w start zone a b (Suc k) o'" if "w_recurrence w = NoRecurrence" for o'
        using that by (auto simp: found_from_def base_at_Some dest!: occurrence_at_Some)
      have "set os' = set os1 \<union> {o'. found_from cal w start zone a b (Suc k) o'}"
        using Suc.prems found Some ms False os1 single Suc.IH [of "Suc k" os1]
        by (auto simp: u64_checked_add_def split: if_splits)
      thus ?thesis using push_scheduled_set [OF os1] base False by (auto simp: found_from_Suc [of cal w start zone a b k])
    qed
  qed
qed simp


lemma replacement_loop_set:
  "replacement_loop cal w zone a b es os = Inr os' \<Longrightarrow> distinct (map ex_identity es) \<Longrightarrow>
    set os' = set os \<union> {o'. \<exists>identity l d. Replace identity l d \<in> set es \<and> (\<forall>p\<in>set os. oc_scheduled p \<noteq> identity)
      \<and> replaced cal w zone identity l d o' \<and> meets a b o'}"
proof (induction es arbitrary: os)
  case (Cons e es)
  show ?case
  proof (cases e)
    case Cancel
    thus ?thesis using Cons by simp
  next
    case (Replace identity l d)
    show ?thesis
    proof (cases "\<exists>p\<in>set os. oc_scheduled p = identity")
      case True
      thus ?thesis using Cons Replace by (auto simp: list_ex_iff)
    next
      case False
      then obtain os1 where os1: "push_replacement cal w zone identity l d a b os = Inr os1"
        "replacement_loop cal w zone a b es os1 = Inr os'"
        using Cons.prems Replace by (auto simp: list_ex_iff try_then_eq_Inr)
      have new: "set os1 = set os \<union> {o'. replaced cal w zone identity l d o' \<and> meets a b o'}"
        by (rule push_replacement_set [OF os1(1)])
      have free: "(\<forall>p\<in>set os1. oc_scheduled p \<noteq> i) \<longleftrightarrow> (\<forall>p\<in>set os. oc_scheduled p \<noteq> i)"
        if "Replace i l' d' \<in> set es" for i l' d'
      proof -
        have "i \<in> ex_identity ` set es" using that by force
        hence "i \<noteq> identity" using Cons.prems(2) Replace by auto
        thus ?thesis unfolding new by (auto simp: replaced_def)
      qed
      have "distinct (map ex_identity es)" using Cons.prems(2) by simp
      from Cons.IH [OF os1(2) this] have "set os' = set os1 \<union>
          {o'. \<exists>i l d. Replace i l d \<in> set es \<and> (\<forall>p\<in>set os. oc_scheduled p \<noteq> i) \<and> replaced cal w zone i l d o' \<and> meets a b o'}"
        by (simp add: free cong: conj_cong)
      thus ?thesis using new False Replace by auto
    qed
  qed
qed simp

lemma validate_exceptions_Inr:
  "validate_exceptions cal w start seen es = Inr () \<Longrightarrow>
    distinct (map ex_identity es) \<and> seen \<inter> ex_identity ` set es = {}
    \<and> (\<forall>i l d. Replace i l d \<in> set es \<longrightarrow> 0 < d \<and> d \<le> MAX_WINDOW_DURATION_MS)"
proof (induction es arbitrary: seen)
  case (Cons e es)
  have "validate_exceptions cal w start (insert (ex_identity e) seen) es = Inr ()"
    using Cons.prems by (cases e) (auto simp: try_then_eq_Inr split: if_splits)
  note rest = Cons.IH [OF this]
  have "ex_identity e \<notin> seen" using Cons.prems by (auto split: if_splits)
  moreover have "0 < d \<and> d \<le> MAX_WINDOW_DURATION_MS" if "e = Replace i l d" for i l d
    using Cons.prems that by (auto simp: try_then_eq_Inr split: if_splits)
  ultimately show ?case using rest by auto
qed simp

lemma validate_Inr:
  assumes "validate cal w = Inr u"
  shows "distinct (map ex_identity (w_exceptions w))"
    and "0 < w_duration_ms w \<and> w_duration_ms w \<le> MAX_WINDOW_DURATION_MS"
    and "Replace i l d \<in> set (w_exceptions w) \<Longrightarrow> 0 < d \<and> d \<le> MAX_WINDOW_DURATION_MS"
proof -
  obtain start where v: "validate_exceptions cal w start {} (w_exceptions w) = Inr ()"
    and d: "0 < w_duration_ms w \<and> w_duration_ms w \<le> MAX_WINDOW_DURATION_MS"
    using assms by (auto simp: validate_def try_then_eq_Inr split: if_splits prod.splits)
  note facts = validate_exceptions_Inr [OF v]
  show "distinct (map ex_identity (w_exceptions w))" using facts by simp
  show "0 < w_duration_ms w \<and> w_duration_ms w \<le> MAX_WINDOW_DURATION_MS" by (rule d)
  show "0 < d \<and> d \<le> MAX_WINDOW_DURATION_MS" if "Replace i l d \<in> set (w_exceptions w)" using facts that by blast
qed

lemma find_key:
  "distinct (map f xs) \<Longrightarrow> find (\<lambda>x. f x = k) xs = Some e \<longleftrightarrow> e \<in> set xs \<and> f e = k"
  by (induction xs) (auto simp: image_iff)

lemma exception_for_Some:
  "distinct (map ex_identity (w_exceptions w)) \<Longrightarrow>
    exception_for w k = Some e \<longleftrightarrow> e \<in> set (w_exceptions w) \<and> ex_identity e = k"
  by (simp add: exception_for_def find_key)

lemma replaced_unique:
  "replaced cal w zone i l d x \<Longrightarrow> replaced cal w zone i l d y \<Longrightarrow> x = y"
  by (auto simp: replaced_def)

lemma found_then_occurs:
  assumes "window_start cal w = Inr (start, zone)" "found_from cal w start zone a b k o'"
  shows "window_occurs cal w o' \<and> meets a b o'"
proof -
  obtain i ms where f: "base_at cal start (w_recurrence w) i = Some ms" "\<not> after_limit w ms"
    "scheduled_as cal w zone ms o'" "meets a b o'" using assms(2) by (auto simp: found_from_def)
  show ?thesis
  proof (cases "exception_for w ms")
    case None
    thus ?thesis using f assms(1) by (auto simp: window_occurs_def scheduled_as_def)
  next
    case (Some e)
    hence listed: "e \<in> set (w_exceptions w)" "ex_identity e = ms" by (auto simp: exception_for_def find_Some_iff)
    obtain l d where e: "e = Replace ms l d" using f(3) Some listed(2) by (cases e) (auto simp: scheduled_as_def)
    show ?thesis using f(3,4) Some e listed assms(1) by (auto simp: window_occurs_def scheduled_as_def)
  qed
qed

lemma replacement_occurs:
  "window_start cal w = Inr (start, zone) \<Longrightarrow> Replace i l d \<in> set (w_exceptions w) \<Longrightarrow>
    replaced cal w zone i l d o' \<Longrightarrow> window_occurs cal w o'"
  by (auto simp: window_occurs_def)

lemma regular_occurs:
  "window_start cal w = Inr (start, zone) \<Longrightarrow> base_at cal start (w_recurrence w) i = Some ms \<Longrightarrow> \<not> after_limit w ms \<Longrightarrow>
    exception_for w ms = None \<Longrightarrow> window_occurs cal w (regular w ms)"
  by (auto simp: window_occurs_def)

lemma found_replacement:
  assumes "distinct (map ex_identity (w_exceptions w))" "Replace i l d \<in> set (w_exceptions w)"
    and "found_from cal w start zone a b k p" "oc_scheduled p = i"
  shows "replaced cal w zone i l d p"
proof -
  obtain ms where ms: "scheduled_as cal w zone ms p" using assms(3) by (auto simp: found_from_def)
  have ex: "exception_for w i = Some (Replace i l d)" using assms(1,2) by (simp add: exception_for_Some)
  have "ms = i"
    using ms assms(4) by (auto simp: scheduled_as_def regular_def replaced_def split: option.splits occurrence_exception.splits)
  thus ?thesis using ms ex by (simp add: scheduled_as_def)
qed

lemma regular_is_found:
  assumes "calendar_ok cal" "approximate_index cal start (a - w_duration_ms w) (w_recurrence w) = Inr first"
    and "base_at cal start (w_recurrence w) i = Some ms" "\<not> after_limit w ms" "exception_for w ms = None"
    and "meets a b (regular w ms)"
  shows "found_from cal w start zone a b first (regular w ms)"
proof -
  have "ms < b" "a < ms + w_duration_ms w" using assms(6) by (simp_all add: meets_def regular_def)
  moreover have "first \<le> i" using early_occurrences [OF assms(1,2) _ assms(3)] calculation(2) by (rule_tac ccontr) force
  ultimately show ?thesis using assms(3-6) by (auto simp: found_from_def scheduled_as_def)
qed

lemma expansion_set:
  assumes "calendar_ok cal" "occurrences_between cal w a b = Inr os" "w_enabled w" "a < b"
  shows "set os = {o'. window_occurs cal w o' \<and> meets a b o'}"
proof -
  obtain u start zone first os1 os2 where v: "validate cal w = Inr u" and st: "window_start cal w = Inr (start, zone)"
    and fi: "approximate_index cal start (a - w_duration_ms w) (w_recurrence w) = Inr first"
    and e: "expand_loop cal w start zone a b MAX_EXPANDED_OCCURRENCES first [] = Inr os1"
    and r: "replacement_loop cal w zone a b (w_exceptions w) os1 = Inr os2"
    and os: "os = remdups_adj (sort_key occurrence_key os2)"
    using assms(2-4) by (auto simp: occurrences_between_def try_then_eq_Inr)
  note d = validate_Inr(1) [OF v]
  have os1: "set os1 = {o'. found_from cal w start zone a b first o'}" using expand_loop_set [OF assms(1) e] by simp
  have "set os2 = {o'. window_occurs cal w o' \<and> meets a b o'}"
  proof (intro equalityI subsetI)
    fix o' assume "o' \<in> set os2"
    thus "o' \<in> {o'. window_occurs cal w o' \<and> meets a b o'}"
      unfolding replacement_loop_set [OF r d] os1 using found_then_occurs [OF st] replacement_occurs [OF st] by auto
  next
    fix o' assume "o' \<in> {o'. window_occurs cal w o' \<and> meets a b o'}"
    hence m: "meets a b o'" and "window_occurs cal w o'" by simp_all
    then consider (base) i ms where "base_at cal start (w_recurrence w) i = Some ms" "\<not> after_limit w ms"
        "exception_for w ms = None" "o' = regular w ms"
      | (repl) i l d where "Replace i l d \<in> set (w_exceptions w)" "replaced cal w zone i l d o'"
      using st by (auto simp: window_occurs_def)
    thus "o' \<in> set os2"
    proof cases
      case base
      thus ?thesis unfolding replacement_loop_set [OF r d] os1
        using regular_is_found [OF assms(1) fi base(1-3)] m by simp
    next
      case (repl i l du)
      show ?thesis
      proof (cases "\<exists>p\<in>set os1. oc_scheduled p = i")
        case True
        then obtain p where p: "p \<in> set os1" "oc_scheduled p = i" by blast
        hence "replaced cal w zone i l du p" using found_replacement [OF d repl(1)] os1 by simp
        hence "p = o'" by (rule replaced_unique [OF _ repl(2)])
        thus ?thesis unfolding replacement_loop_set [OF r d] using p(1) by simp
      next
        case False
        thus ?thesis unfolding replacement_loop_set [OF r d] using repl m by blast
      qed
    qed
  qed
  thus ?thesis by (simp add: os)
qed


section \<open>Evaluation is exact\<close>

definition covers :: "('tz, 'z) calendar \<Rightarrow> window \<Rightarrow> nat \<Rightarrow> bool" where
  "covers cal w t \<longleftrightarrow> w_enabled w \<and> (\<exists>o'. window_occurs cal w o' \<and> oc_start o' \<le> t \<and> t < oc_end o')"

definition turns :: "('tz, 'z) calendar \<Rightarrow> window \<Rightarrow> nat \<Rightarrow> bool" where
  "turns cal w x \<longleftrightarrow> w_enabled w \<and> (\<exists>o'. window_occurs cal w o' \<and> (x = oc_start o' \<or> x = oc_end o'))"

definition earliest :: "nat set \<Rightarrow> nat option \<Rightarrow> bool" where
  "earliest B found \<longleftrightarrow> (case found of None \<Rightarrow> B = {} | Some m \<Rightarrow> m \<in> B \<and> (\<forall>x\<in>B. m \<le> x))"

lemma earliest_sooner: "earliest B found \<Longrightarrow> earliest (insert x B) (sooner found x)"
  by (auto simp: earliest_def sooner_def min_def split: option.splits intro: order_trans)

lemma earliest_note:
  assumes "earliest B (snd acc)"
  shows "earliest (B \<union> {x. now < x \<and> (x = oc_start o' \<or> x = oc_end o')}) (snd (note_occurrence now o' acc))"
proof -
  have sets: "B \<union> {x. now < x \<and> (x = oc_start o' \<or> x = oc_end o')} =
      (let C = (if now < oc_start o' then insert (oc_start o') B else B)
       in if now < oc_end o' then insert (oc_end o') C else C)" by (auto simp: Let_def)
  show ?thesis unfolding sets using assms
    by (auto simp: note_occurrence_def Let_def intro!: earliest_sooner)
qed

lemma earliest_fold_note:
  "earliest B (snd acc) \<Longrightarrow>
    earliest (B \<union> {x. now < x \<and> (\<exists>o'\<in>set os. x = oc_start o' \<or> x = oc_end o')}) (snd (fold (note_occurrence now) os acc))"
proof (induction os arbitrary: B acc)
  case (Cons o' os)
  have "B \<union> {x. now < x \<and> (\<exists>p\<in>set (o' # os). x = oc_start p \<or> x = oc_end p)} =
      (B \<union> {x. now < x \<and> (x = oc_start o' \<or> x = oc_end o')}) \<union> {x. now < x \<and> (\<exists>p\<in>set os. x = oc_start p \<or> x = oc_end p)}"
    by auto
  thus ?case using Cons.IH [OF earliest_note [OF Cons.prems]] by simp
qed simp

lemma active_fold_note:
  "fst (fold (note_occurrence now) os acc) \<longleftrightarrow> fst acc \<or> (\<exists>o'\<in>set os. oc_start o' \<le> now \<and> now < oc_end o')"
  by (induction os arbitrary: acc) (auto simp: note_occurrence_def Let_def)

lemma max_duration_positive [simp]: "0 < MAX_WINDOW_DURATION_MS"
  by (simp add: MAX_WINDOW_DURATION_MS_def)

lemma boundary_after_Inr: "boundary_after at d = Inr e \<Longrightarrow> e = Suc (at + d)"
  by (auto simp: boundary_after_def u64_checked_add_def split: if_splits)

lemma single_end_Inr:
  "single_end cal zone es e = Inr b \<Longrightarrow>
    e \<le> b \<and> (\<forall>i l d. Replace i l d \<in> set es \<longrightarrow> replaced cal w zone i l d o' \<longrightarrow> oc_end o' < b)"
proof (induction es arbitrary: e)
  case (Cons x es)
  show ?case
  proof (cases x)
    case Cancel
    thus ?thesis using Cons by simp
  next
    case (Replace i l d)
    then obtain z at where z: "parse_local_with_zone cal l zone = Inr z" "timestamp_ms cal z = Inr at"
      "single_end cal zone es (max e (Suc (at + d))) = Inr b"
      using Cons.prems by (auto simp: try_then_eq_Inr dest!: boundary_after_Inr)
    show ?thesis using Cons.IH [OF z(3)] Replace z(1,2) by (auto simp: replaced_def)
  qed
qed simp

lemma horizon_single:
  assumes "calendar_ok cal" "horizon cal w now = Inr b" "w_recurrence w = NoRecurrence" "window_occurs cal w o'"
  shows "oc_end o' < b"
proof -
  obtain start zone at where s: "window_start cal w = Inr (start, zone)" "timestamp_ms cal start = Inr at"
    "single_end cal zone (w_exceptions w) (Suc (at + w_duration_ms w)) = Inr b"
    using assms(2,3) by (auto simp: horizon_def try_then_eq_Inr dest!: boundary_after_Inr)
  note ends = single_end_Inr [OF s(3)]
  have "ms = at" if h: "base_at cal start NoRecurrence i = Some ms" for i ms
  proof -
    obtain z where z: "occurrence_at cal start NoRecurrence i = Inr (Some z)" "timestamp_ms cal z = Inr ms"
      using h by (auto simp: base_at_Some)
    hence "z = start" using occurrence_at_Some [OF z(1)] calendar_okD(7) [OF assms(1)] by auto
    thus ?thesis using z(2) s(2) by simp
  qed
  thus ?thesis using assms(3,4) s(1) ends by (fastforce simp: window_occurs_def regular_def)
qed

lemma window_occurs_duration:
  assumes "validate cal w = Inr u" "window_occurs cal w o'"
  shows "oc_start o' < oc_end o' \<and> oc_end o' \<le> oc_start o' + MAX_WINDOW_DURATION_MS"
  using assms validate_Inr(2,3) [OF assms(1)] by (auto simp: window_occurs_def regular_def replaced_def)

lemma evaluate_at_range:
  assumes "calendar_ok cal" "evaluate_at cal w now = Inr (active, found)" "w_enabled w"
  obtains b os where "validate cal w = Inr ()" "horizon cal w now = Inr b"
    "set os = {o'. window_occurs cal w o' \<and> meets (now - longest_duration w) b o'}"
    "(active, found) = fold (note_occurrence now) os (False, None)"
proof -
  obtain b os where v: "validate cal w = Inr ()" and h: "horizon cal w now = Inr b"
    and o: "occurrences_between cal w (now - longest_duration w) b = Inr os"
    and r: "(active, found) = fold (note_occurrence now) os (False, None)"
    using assms(2,3) by (auto simp: evaluate_at_def try_then_eq_Inr)
  have "set os = {o'. window_occurs cal w o' \<and> meets (now - longest_duration w) b o'}"
  proof (cases "now - longest_duration w < b")
    case True
    thus ?thesis by (rule expansion_set [OF assms(1) o assms(3)])
  next
    case False
    have "now - longest_duration w < now + MAX_WINDOW_DURATION_MS" using max_duration_positive by linarith
    hence single: "w_recurrence w = NoRecurrence"
      using h False by (auto simp: horizon_def u64_checked_add_def split: if_splits)
    have "\<not> meets (now - longest_duration w) b o'" if "window_occurs cal w o'" for o'
      using horizon_single [OF assms(1) h single that] False by (simp add: meets_def)
    moreover have "os = []" using o False by (auto simp: occurrences_between_def try_then_eq_Inr)
    ultimately show ?thesis by auto
  qed
  from that [OF v h this r] show thesis .
qed

lemma in_horizon:
  assumes "calendar_ok cal" "validate cal w = Inr ()" "horizon cal w now = Inr b" "window_occurs cal w o'" "now < oc_end o'"
    and "w_recurrence w = NoRecurrence \<or> oc_start o' < now + MAX_WINDOW_DURATION_MS"
  shows "meets (now - d) b o'"
proof (cases "w_recurrence w = NoRecurrence")
  case True
  have "oc_end o' < b" by (rule horizon_single [OF assms(1,3) True assms(4)])
  thus ?thesis using window_occurs_duration [OF assms(2,4)] assms(5) by (simp add: meets_def)
next
  case False
  hence "b = now + MAX_WINDOW_DURATION_MS"
    using assms(3) by (auto simp: horizon_def u64_checked_add_def split: if_splits)
  thus ?thesis using False assms(5,6) by (simp add: meets_def)
qed

lemma less_add_MAX: "t \<le> now \<Longrightarrow> t < now + MAX_WINDOW_DURATION_MS"
  using max_duration_positive by linarith

lemma evaluate_at_active:
  assumes "calendar_ok cal" "evaluate_at cal w now = Inr (active, found)"
  shows "active \<longleftrightarrow> covers cal w now"
proof (cases "w_enabled w")
  case True
  obtain b os where e: "validate cal w = Inr ()" "horizon cal w now = Inr b"
    "set os = {o'. window_occurs cal w o' \<and> meets (now - longest_duration w) b o'}"
    "(active, found) = fold (note_occurrence now) os (False, None)"
    by (rule evaluate_at_range [OF assms True])
  have "(\<exists>o'\<in>set os. oc_start o' \<le> now \<and> now < oc_end o') \<longleftrightarrow> covers cal w now"
    unfolding e(3) covers_def using True in_horizon [OF assms(1) e(1,2)] less_add_MAX by fastforce
  thus ?thesis using e(4) active_fold_note [of now os "(False, None)"] by (metis fst_conv)
next
  case False
  thus ?thesis using assms(2) by (auto simp: evaluate_at_def covers_def try_then_eq_Inr)
qed


lemma turns_in_horizon:
  assumes "calendar_ok cal" "validate cal w = Inr ()" "horizon cal w now = Inr b"
    and "turns cal w x" "now < x" "w_recurrence w = NoRecurrence \<or> x < now + MAX_WINDOW_DURATION_MS"
  shows "\<exists>o'. (window_occurs cal w o' \<and> meets (now - d) b o') \<and> (x = oc_start o' \<or> x = oc_end o')"
proof -
  obtain o' where o': "window_occurs cal w o'" "x = oc_start o' \<or> x = oc_end o'" using assms(4) by (auto simp: turns_def)
  have "oc_start o' < oc_end o'" using window_occurs_duration [OF assms(2) o'(1)] by simp
  hence "oc_start o' \<le> x" "now < oc_end o'" using o'(2) assms(5) by auto
  hence "meets (now - d) b o'" using assms(6) by (intro in_horizon [OF assms(1-3) o'(1)]) auto
  thus ?thesis using o' by blast
qed

lemma evaluate_at_least:
  assumes "calendar_ok cal" "evaluate_at cal w now = Inr (active, found)" "w_enabled w"
  obtains b where "validate cal w = Inr ()" "horizon cal w now = Inr b"
    "earliest {x. now < x \<and> (\<exists>o'. (window_occurs cal w o' \<and> meets (now - longest_duration w) b o')
      \<and> (x = oc_start o' \<or> x = oc_end o'))} found"
proof -
  obtain b os where e: "validate cal w = Inr ()" "horizon cal w now = Inr b"
    "set os = {o'. window_occurs cal w o' \<and> meets (now - longest_duration w) b o'}"
    "(active, found) = fold (note_occurrence now) os (False, None)"
    by (rule evaluate_at_range [OF assms])
  have f: "found = snd (fold (note_occurrence now) os (False, None))" unfolding e(4) [symmetric] by simp
  have "earliest {} (snd (False, None))" by (simp add: earliest_def)
  from earliest_fold_note [OF this, of now os]
  have "earliest {x. now < x \<and> (\<exists>o'\<in>set os. x = oc_start o' \<or> x = oc_end o')} found" unfolding f by simp
  hence "earliest {x. now < x \<and> (\<exists>o'. (window_occurs cal w o' \<and> meets (now - longest_duration w) b o')
      \<and> (x = oc_start o' \<or> x = oc_end o'))} found" unfolding e(3) Bex_def mem_Collect_eq .
  from that [OF e(1,2) this] show thesis .
qed

lemma evaluate_at_disabled:
  "evaluate_at cal w now = Inr (active, found) \<Longrightarrow> \<not> w_enabled w \<Longrightarrow> found = None"
  by (auto simp: evaluate_at_def try_then_eq_Inr)

lemma evaluate_at_turns:
  assumes "calendar_ok cal" "evaluate_at cal w now = Inr (active, Some m)"
  shows "now < m \<and> turns cal w m"
proof -
  have on: "w_enabled w" using evaluate_at_disabled [OF assms(2)] by auto
  obtain b where "earliest {x. now < x \<and> (\<exists>o'. (window_occurs cal w o' \<and> meets (now - longest_duration w) b o')
      \<and> (x = oc_start o' \<or> x = oc_end o'))} (Some m)" by (rule evaluate_at_least [OF assms on])
  thus ?thesis using on by (auto simp: earliest_def turns_def)
qed

lemma evaluate_at_soonest:
  assumes "calendar_ok cal" "evaluate_at cal w now = Inr (active, found)"
    and "turns cal w x" "now < x" "w_recurrence w = NoRecurrence \<or> x < now + MAX_WINDOW_DURATION_MS"
  shows "\<exists>m. found = Some m \<and> m \<le> x"
proof -
  have on: "w_enabled w" using assms(3) by (simp add: turns_def)
  obtain b where b: "validate cal w = Inr ()" "horizon cal w now = Inr b"
    "earliest {x. now < x \<and> (\<exists>o'. (window_occurs cal w o' \<and> meets (now - longest_duration w) b o')
      \<and> (x = oc_start o' \<or> x = oc_end o'))} found" by (rule evaluate_at_least [OF assms(1,2) on])
  note turns_in_horizon [OF assms(1) b(1,2) assms(3-5), of "longest_duration w"]
  thus ?thesis using b(3) assms(4) by (cases found) (fastforce simp: earliest_def)+
qed

lemma covers_between_turns:
  assumes "now \<le> t" "\<And>x. turns cal w x \<Longrightarrow> now < x \<Longrightarrow> \<not> x \<le> t"
  shows "covers cal w t \<longleftrightarrow> covers cal w now"
proof
  assume "covers cal w t"
  then obtain o' where o': "w_enabled w" "window_occurs cal w o'" "oc_start o' \<le> t" "t < oc_end o'" by (auto simp: covers_def)
  hence "turns cal w (oc_start o')" by (auto simp: turns_def)
  hence "oc_start o' \<le> now" using assms(2) [of "oc_start o'"] o'(3) by linarith
  thus "covers cal w now" using o' assms(1) by (auto simp: covers_def)
next
  assume "covers cal w now"
  then obtain o' where o': "w_enabled w" "window_occurs cal w o'" "oc_start o' \<le> now" "now < oc_end o'" by (auto simp: covers_def)
  hence "turns cal w (oc_end o')" by (auto simp: turns_def)
  hence "t < oc_end o'" using assms(2) [of "oc_end o'"] o'(4) by linarith
  thus "covers cal w t" using o' assms(1) by (auto simp: covers_def)
qed

lemma evaluate_loop_active:
  assumes "calendar_ok cal"
  shows "evaluate_loop cal now k ws active found = Inr e \<Longrightarrow>
    ev_active e = active @ map fst (filter (\<lambda>(_, w). covers cal w now) (enumerate k ws))"
proof (induction ws arbitrary: k active found)
  case (Cons w ws)
  then obtain a n where at: "evaluate_at cal w now = Inr (a, n)" by (auto simp: try_then_eq_Inr)
  from evaluate_at_active [OF assms at] Cons at show ?case by auto
qed auto

lemma evaluate_loop_next:
  "evaluate_loop cal now k ws active found = Inr e \<Longrightarrow> earliest B found \<Longrightarrow>
    earliest (B \<union> {m. \<exists>w\<in>set ws. \<exists>a. evaluate_at cal w now = Inr (a, Some m)}) (ev_next_boundary e)"
proof (induction ws arbitrary: k active found B)
  case (Cons w ws)
  then obtain a n where at: "evaluate_at cal w now = Inr (a, n)" by (auto simp: try_then_eq_Inr)
  let ?B = "case n of None \<Rightarrow> B | Some m \<Rightarrow> insert m B"
  have "earliest ?B (case n of None \<Rightarrow> found | Some m \<Rightarrow> sooner found m)"
    using Cons.prems(2) by (auto intro: earliest_sooner split: option.split)
  note rest = Cons.IH [OF _ this]
  have "B \<union> {m. \<exists>x\<in>set (w # ws). \<exists>a. evaluate_at cal x now = Inr (a, Some m)} =
      ?B \<union> {m. \<exists>x\<in>set ws. \<exists>a. evaluate_at cal x now = Inr (a, Some m)}" using at by (auto split: option.splits)
  thus ?case using rest Cons.prems(1) at by simp
qed auto

lemma evaluate_loop_all:
  "evaluate_loop cal now k ws active found = Inr e \<Longrightarrow> w \<in> set ws \<Longrightarrow> \<exists>a n. evaluate_at cal w now = Inr (a, n)"
  by (induction ws arbitrary: k active found) (auto simp: try_then_eq_Inr)

lemma evaluate_next:
  assumes "calendar_ok cal" "evaluate cal ws now = Inr e"
  shows "ev_next_boundary e = Some m \<Longrightarrow> now < m \<and> (\<exists>w\<in>set ws. turns cal w m)"
    and "w \<in> set ws \<Longrightarrow> turns cal w x \<Longrightarrow> now < x \<Longrightarrow> w_recurrence w = NoRecurrence \<or> x < now + MAX_WINDOW_DURATION_MS \<Longrightarrow>
      \<exists>m. ev_next_boundary e = Some m \<and> m \<le> x"
proof -
  let ?B = "{m. \<exists>w\<in>set ws. \<exists>a. evaluate_at cal w now = Inr (a, Some m)}"
  have early: "earliest ?B (ev_next_boundary e)"
    using evaluate_loop_next [of cal now 0 ws "[]" None e "{}"] assms(2) by (simp add: evaluate_def earliest_def)
  have least: "\<exists>n. ev_next_boundary e = Some n \<and> n \<le> m" if "m \<in> ?B" for m
    using early that by (auto simp: earliest_def split: option.splits)
  show "now < m \<and> (\<exists>w\<in>set ws. turns cal w m)" if "ev_next_boundary e = Some m"
  proof -
    have "m \<in> ?B" using early that by (simp add: earliest_def)
    thus ?thesis using evaluate_at_turns [OF assms(1)] by blast
  qed
  show "\<exists>m. ev_next_boundary e = Some m \<and> m \<le> x"
    if h: "w \<in> set ws" "turns cal w x" "now < x" "w_recurrence w = NoRecurrence \<or> x < now + MAX_WINDOW_DURATION_MS"
  proof -
    obtain a n where at: "evaluate_at cal w now = Inr (a, n)"
      using evaluate_loop_all assms(2) h(1) unfolding evaluate_def by metis
    obtain m where "n = Some m" "m \<le> x" using evaluate_at_soonest [OF assms(1) at h(2-4)] by auto
    moreover from this have "m \<in> ?B" using at h(1) by blast
    from least [OF this] obtain k where "ev_next_boundary e = Some k" "k \<le> m" by blast
    ultimately show ?thesis using order_trans by blast
  qed
qed

lemma enumerate_indexed: "enumerate 0 xs = map (\<lambda>i. (i, xs ! i)) [0..<length xs]"
  by (rule nth_equalityI) (auto simp: nth_enumerate_eq)

lemma evaluate_active:
  assumes "calendar_ok cal" "evaluate cal ws now = Inr e"
  shows "ev_active e = filter (\<lambda>i. covers cal (ws ! i) now) [0..<length ws]"
  using evaluate_loop_active [OF assms(1), of now 0 ws "[]" None e] assms(2)
  by (simp add: evaluate_def enumerate_indexed filter_map o_def)

section \<open>Properties\<close>

lemma sorted_key_remdups_adj: "sorted (map f xs) \<Longrightarrow> sorted (map f (remdups_adj xs))"
  by (induction xs rule: remdups_adj.induct) auto

lemma distinct_key_remdups_adj:
  "inj_on f (set xs) \<Longrightarrow> sorted (map f xs) \<Longrightarrow> distinct (remdups_adj xs)"
proof (induction xs rule: remdups_adj.induct)
  case (3 x y xs)
  have "x \<notin> set (y # xs)" if "x \<noteq> y"
  proof
    assume "x \<in> set (y # xs)"
    hence "f x = f y" using 3(4) by (intro antisym) auto
    thus False using 3(3) that by (auto simp: inj_on_def)
  qed
  thus ?case using 3 by (auto intro: inj_on_subset)
qed auto

lemma occurrence_key_inj:
  "occurrence_key x = occurrence_key y \<Longrightarrow> oc_priority x = oc_priority y \<Longrightarrow> (x :: occurrence) = y"
  by (simp add: occurrence_key_def)

lemma window_occurs_priority: "window_occurs cal w o' \<Longrightarrow> oc_priority o' = w_priority w"
  by (auto simp: window_occurs_def regular_def replaced_def)

lemma expansion_order:
  assumes "calendar_ok cal" "occurrences_between cal w a b = Inr os" "w_enabled w" "a < b"
  shows "sorted (map occurrence_key os) \<and> distinct os"
proof -
  obtain os2 where os: "os = remdups_adj (sort_key occurrence_key os2)"
    using assms(2-4) by (auto simp: occurrences_between_def try_then_eq_Inr)
  have "set os2 = {o'. window_occurs cal w o' \<and> meets a b o'}" using expansion_set [OF assms] os by simp
  hence "inj_on occurrence_key (set os2)"
    by (auto intro!: inj_onI occurrence_key_inj simp: window_occurs_priority)
  thus ?thesis unfolding os using sorted_key_remdups_adj [of occurrence_key "sort_key occurrence_key os2"]
      distinct_key_remdups_adj [of occurrence_key "sort_key occurrence_key os2"] by simp
qed

lemma occurrences_disabled:
  "occurrences_between cal w a b = Inr os \<Longrightarrow> \<not> w_enabled w \<or> b \<le> a \<Longrightarrow> os = []"
  by (auto simp: occurrences_between_def try_then_eq_Inr)

text \<open>C25: Expanding a window over a range gives exactly its occurrences that meet the range (none when the
  window is disabled or the range is empty): a base occurrence, or a replacement however far it was moved,
  each once, in the order of start, end and scheduled start.\<close>

theorem occurrences_exact:
  assumes "calendar_ok cal" "occurrences_between cal w a b = Inr os"
  shows "set os = {o'. w_enabled w \<and> a < b \<and> window_occurs cal w o' \<and> meets a b o'}
    \<and> sorted (map occurrence_key os) \<and> distinct os"
proof (cases "w_enabled w \<and> a < b")
  case True
  thus ?thesis using expansion_set [OF assms] expansion_order [OF assms] by simp
next
  case False
  thus ?thesis using occurrences_disabled [OF assms(2)] by auto
qed

text \<open>C26: From the instant it was asked until the boundary it names, or for 366 days when it names none or
  a later one, an evaluation lists exactly the windows an occurrence covers at that time: a caller need not
  ask again before the boundary. When every window occurs once there is no limit of 366 days.\<close>

theorem evaluation_holds_until_boundary:
  assumes "calendar_ok cal" "evaluate cal ws now = Inr e" "now \<le> t"
    and "\<And>m. ev_next_boundary e = Some m \<Longrightarrow> t < m"
    and "t < now + MAX_WINDOW_DURATION_MS \<or> (\<forall>w\<in>set ws. w_recurrence w = NoRecurrence)"
  shows "ev_active e = filter (\<lambda>i. covers cal (ws ! i) t) [0..<length ws]"
proof -
  have "covers cal (ws ! i) t \<longleftrightarrow> covers cal (ws ! i) now" if i: "i < length ws" for i
  proof (rule covers_between_turns [OF assms(3)])
    fix x assume x: "turns cal (ws ! i) x" "now < x"
    show "\<not> x \<le> t"
    proof
      assume "x \<le> t"
      moreover have "w_recurrence (ws ! i) = NoRecurrence \<or> x < now + MAX_WINDOW_DURATION_MS"
        using assms(5) calculation i by auto
      then obtain m where "ev_next_boundary e = Some m" "m \<le> x"
        using evaluate_next(2) [OF assms(1,2) nth_mem [OF i] x] by blast
      ultimately show False using assms(4) [of m] by simp
    qed
  qed
  thus ?thesis unfolding evaluate_active [OF assms(1,2)] by (intro filter_cong) auto
qed

text \<open>The boundary an evaluation names is the start or the end of an occurrence of one of its windows,
  after the instant asked, and no occurrence of a window starts or ends sooner.\<close>

theorem next_boundary_exact:
  assumes "calendar_ok cal" "evaluate cal ws now = Inr e" "ev_next_boundary e = Some m"
  shows "now < m \<and> (\<exists>w\<in>set ws. turns cal w m)
    \<and> (\<forall>w\<in>set ws. \<forall>x. turns cal w x \<and> now < x \<and>
        (w_recurrence w = NoRecurrence \<or> x < now + MAX_WINDOW_DURATION_MS) \<longrightarrow> m \<le> x)"
  using evaluate_next [OF assms(1,2)] assms(3) by fastforce


lemma bex_pairs:
  "(\<exists>i\<in>{0..<n}. \<exists>j\<in>{Suc i..<n}. P i j) \<longleftrightarrow> (\<exists>i j. i < j \<and> j < n \<and> P i j)"
  by (force simp: Suc_le_eq)

lemma overlaps_of_set:
  "v \<in> set (overlaps_of expanded) \<longleftrightarrow> (\<exists>i j. i < j \<and> j < length expanded \<and>
    (\<exists>a\<in>set (expanded ! i). \<exists>b\<in>set (expanded ! j). v \<in> set (overlap_of i j a b)))"
  unfolding bex_pairs [symmetric] by (simp add: overlaps_of_def enumerate_indexed drop_map drop_upt)

text \<open>The overlaps of a list of windows over a range are exactly the common parts of an occurrence of an
  earlier window of the list and one of a later window that both meet the range.\<close>

theorem overlaps_exact:
  assumes "calendar_ok cal" "overlaps_between cal ws a b = Inr vs" "a < b"
  shows "v \<in> set vs \<longleftrightarrow> (\<exists>x y. ov_left v < ov_right v \<and> ov_right v < length ws
    \<and> w_enabled (ws ! ov_left v) \<and> window_occurs cal (ws ! ov_left v) x \<and> meets a b x
    \<and> w_enabled (ws ! ov_right v) \<and> window_occurs cal (ws ! ov_right v) y \<and> meets a b y
    \<and> ov_start v = max (oc_start x) (oc_start y) \<and> ov_end v = min (oc_end x) (oc_end y) \<and> ov_start v < ov_end v)"
proof -
  obtain expanded where ex: "list_all2 (\<lambda>w os. occurrences_between cal w a b = Inr os) ws expanded"
    and vs: "set vs = set (overlaps_of expanded)"
    using assms(2) by (auto simp: overlaps_between_def try_then_eq_Inr collect_result_Inr)
  have len: "length expanded = length ws" using ex by (simp add: list_all2_lengthD)
  have os: "x \<in> set (expanded ! i) \<longleftrightarrow> w_enabled (ws ! i) \<and> window_occurs cal (ws ! i) x \<and> meets a b x"
    if "i < length ws" for i x
    using list_all2_nthD [OF ex that] expansion_set [OF assms(1) _ _ assms(3)] occurrences_disabled [of cal "ws ! i" a b]
    by (cases "w_enabled (ws ! i)") auto
  have v: "v \<in> set (overlap_of i j x y) \<longleftrightarrow> ov_left v = i \<and> ov_right v = j
      \<and> ov_start v = max (oc_start x) (oc_start y) \<and> ov_end v = min (oc_end x) (oc_end y) \<and> ov_start v < ov_end v" for i j x y
    by (cases v) (auto simp: overlap_of_def Let_def)
  have "v \<in> set vs \<longleftrightarrow> ov_left v < ov_right v \<and> ov_right v < length ws \<and>
      (\<exists>x\<in>set (expanded ! ov_left v). \<exists>y\<in>set (expanded ! ov_right v). v \<in> set (overlap_of (ov_left v) (ov_right v) x y))"
    unfolding vs overlaps_of_set len v by blast
  also have "\<dots> \<longleftrightarrow> ov_left v < ov_right v \<and> ov_right v < length ws \<and>
      (\<exists>x\<in>{x. w_enabled (ws ! ov_left v) \<and> window_occurs cal (ws ! ov_left v) x \<and> meets a b x}.
       \<exists>y\<in>{y. w_enabled (ws ! ov_right v) \<and> window_occurs cal (ws ! ov_right v) y \<and> meets a b y}.
         v \<in> set (overlap_of (ov_left v) (ov_right v) x y))"
    using os [of "ov_left v"] os [of "ov_right v"] by (intro conj_cong refl bex_cong set_eqI) simp_all
  finally show ?thesis unfolding v by blast
qed

text \<open>C27: A recurring window that is next due 366 days or more from now is answered with no boundary at all,
  although it has one: the search stops at the longest duration a window may have.\<close>

theorem far_window_has_no_boundary:
  assumes "calendar_ok cal" "evaluate_at cal w now = Inr (active, found)" "w_recurrence w \<noteq> NoRecurrence"
    and "\<And>o'. window_occurs cal w o' \<Longrightarrow> now < oc_end o' \<Longrightarrow> now + MAX_WINDOW_DURATION_MS \<le> oc_start o'"
  shows "found = None"
proof (cases found)
  case (Some m)
  hence on: "w_enabled w" using evaluate_at_disabled [OF assms(2)] by auto
  obtain b where b: "validate cal w = Inr ()" "horizon cal w now = Inr b"
    "earliest {x. now < x \<and> (\<exists>o'. (window_occurs cal w o' \<and> meets (now - longest_duration w) b o')
      \<and> (x = oc_start o' \<or> x = oc_end o'))} found" by (rule evaluate_at_least [OF assms(1,2) on])
  have "b = now + MAX_WINDOW_DURATION_MS"
    using b(2) assms(3) by (auto simp: horizon_def u64_checked_add_def split: if_splits)
  moreover obtain o' where o': "window_occurs cal w o'" "oc_start o' < b" "m = oc_start o' \<or> m = oc_end o'" "now < m"
    using b(3) Some by (auto simp: earliest_def meets_def)
  moreover have "now < oc_end o'" using o'(3,4) window_occurs_duration [OF b(1) o'(1)] by auto
  ultimately show ?thesis using assms(4) [of o'] by simp
qed simp

section \<open>A calendar of 30-day months\<close>

definition demo_calendar :: "(unit, int) calendar" where
  "demo_calendar = \<lparr>cal_zone = (\<lambda>_. Some ()), cal_parses = (\<lambda>_. True),
     cal_resolve = (\<lambda>s _. Some (int (length s) * 34560000000)), cal_ms = (\<lambda>z. z), cal_zone_of = (\<lambda>_. ()),
     cal_at = (\<lambda>m _. Some m), cal_year = (\<lambda>_. 0), cal_month = (\<lambda>z. z div 2592000000), cal_span = (\<lambda>_ _. True),
     cal_add = (\<lambda>z rec i. Some (z + i * (case rec of NoRecurrence \<Rightarrow> 0 | Daily \<Rightarrow> 86400000 | Weekly \<Rightarrow> 604800000
       | Monthly \<Rightarrow> 2592000000)))\<rparr>"

lemma demo_calendar_simps [simp]:
  "cal_zone demo_calendar s = Some ()" "cal_parses demo_calendar s"
  "cal_resolve demo_calendar s tz = Some (int (length s) * 34560000000)" "cal_ms demo_calendar z = z"
  "cal_zone_of demo_calendar z = ()" "cal_at demo_calendar m tz = Some m" "cal_year demo_calendar z = 0"
  "cal_month demo_calendar z = z div 2592000000" "cal_span demo_calendar rec i"
  "cal_add demo_calendar z NoRecurrence i = Some z" "cal_add demo_calendar z Daily i = Some (z + i * 86400000)"
  "cal_add demo_calendar z Weekly i = Some (z + i * 604800000)" "cal_add demo_calendar z Monthly i = Some (z + i * 2592000000)"
  by (simp_all add: demo_calendar_def)

lemma demo_calendar_ok: "calendar_ok demo_calendar"
proof -
  have months: "cal_ms demo_calendar z \<le> cal_ms demo_calendar z'"
    if "month_no demo_calendar z + 2 \<le> month_no demo_calendar z'" for z z'
    using that unfolding month_no_def demo_calendar_simps by linarith
  have mono: "cal_ms demo_calendar x \<le> cal_ms demo_calendar y" if "rec \<noteq> NoRecurrence" "i < j"
    "cal_add demo_calendar z rec i = Some x" "cal_add demo_calendar z rec j = Some y" for z rec i j x y
    using that by (cases rec) auto
  have zero: "cal_add demo_calendar z rec 0 = Some z" for z rec by (cases rec) simp_all
  show ?thesis unfolding calendar_ok_def
  proof (intro conjI)
    show "\<forall>z z'. month_no demo_calendar z + 2 \<le> month_no demo_calendar z' \<longrightarrow> cal_ms demo_calendar z \<le> cal_ms demo_calendar z'"
      using months by blast
    show "\<forall>z rec i j a b. rec \<noteq> NoRecurrence \<longrightarrow> 0 \<le> i \<longrightarrow> i < j \<longrightarrow> cal_add demo_calendar z rec i = Some a \<longrightarrow>
       cal_add demo_calendar z rec j = Some b \<longrightarrow> cal_ms demo_calendar a \<le> cal_ms demo_calendar b"
      using mono by blast
    show "\<forall>z rec. cal_add demo_calendar z rec 0 = Some z \<and> cal_span demo_calendar rec 0" by (simp add: zero)
  qed (simp_all add: month_no_def)
qed

definition demo_window :: window where
  "demo_window = \<lparr>w_start_local = ''1'', w_duration_ms = 3600000, w_recurrence = Daily, w_until_unix_ms = Some 34646400000, w_priority = 0,
     w_enabled = True, w_timezone = ''Z'', w_exceptions = [Replace 34560000000 ''22'' 7200000]\<rparr>"

lemmas schedule_eval = validate_def window_start_def parse_local_with_zone_def parse_local_def timestamp_ms_def after_limit_def
  is_base_occurrence_def approximate_index_def occurrence_at_def u64_checked_add_def is_ascii_def exception_for_def
  MAX_WINDOW_DURATION_MS_def MAX_EXCEPTIONS_def MAX_TIMEZONE_BYTES_def MAX_LOCAL_DATETIME_BYTES_def

lemma demo_window_simps [simp]:
  "w_start_local demo_window = ''1''" "w_duration_ms demo_window = 3600000" "w_recurrence demo_window = Daily"
  "w_until_unix_ms demo_window = Some 34646400000" "w_priority demo_window = 0" "w_enabled demo_window" "w_timezone demo_window = ''Z''"
  "w_exceptions demo_window = [Replace 34560000000 ''22'' 7200000]"
  by (simp_all add: demo_window_def)

lemma demo_validate: "validate demo_calendar demo_window = Inr ()"
  by (simp add: schedule_eval upt_rec)

lemma expand_step:
  "0 < n \<Longrightarrow> expand_loop cal w start zone a b n i os = try_then (occurrence_at cal start (w_recurrence w) i) (\<lambda>found.
    case found of None \<Rightarrow> Inr os
    | Some base \<Rightarrow> try_then (timestamp_ms cal base) (\<lambda>scheduled.
        if after_limit w scheduled then Inr os
        else if b \<le> scheduled then Inr os
        else try_then (push_scheduled cal w zone scheduled a b os) (\<lambda>os.
          if w_recurrence w = NoRecurrence then Inr os
          else case u64_checked_add i 1 of None \<Rightarrow> Inl IndexOverflow
            | Some i \<Rightarrow> expand_loop cal w start zone a b (n - 1) i os)))"
  by (metis Suc_diff_1 expand_loop.simps(2))

lemma demo_occurrences:
  "occurrences_between demo_calendar demo_window 34560000000 34732800000 =
    Inr [\<lparr>oc_scheduled = 34646400000, oc_start = 34646400000, oc_end = 34650000000, oc_priority = 0\<rparr>]"
proof -
  have "window_start demo_calendar demo_window = Inr (34560000000, ())" by (simp add: schedule_eval)
  moreover have "expand_loop demo_calendar demo_window 34560000000 () 34560000000 34732800000 4096 0 [] =
      Inr [\<lparr>oc_scheduled = 34646400000, oc_start = 34646400000, oc_end = 34650000000, oc_priority = 0\<rparr>]"
    by (simp add: expand_step [of 4096] expand_step [of 4095] expand_step [of 4094] schedule_eval push_scheduled_def
      push_replacement_def push_if_intersecting_def)
  moreover have "approximate_index demo_calendar 34560000000 34556400000 Daily = Inr 0" by (simp add: schedule_eval)
  ultimately show ?thesis
    by (simp add: occurrences_between_def demo_validate MAX_EXPANDED_OCCURRENCES_def parse_local_with_zone_def
      MAX_LOCAL_DATETIME_BYTES_def is_ascii_def timestamp_ms_def u64_checked_add_def push_replacement_def push_if_intersecting_def)
qed


lemma demo_none_before:
  "occurrences_between demo_calendar demo_window 0 31622400000 = Inr []"
proof -
  have "window_start demo_calendar demo_window = Inr (34560000000, ())" by (simp add: schedule_eval)
  moreover have "expand_loop demo_calendar demo_window 34560000000 () 0 31622400000 4096 0 [] = Inr []"
    by (simp add: expand_step [of 4096] schedule_eval)
  moreover have "approximate_index demo_calendar 34560000000 0 Daily = Inr 0" by (simp add: schedule_eval)
  ultimately show ?thesis
    by (simp add: occurrences_between_def demo_validate MAX_EXPANDED_OCCURRENCES_def parse_local_with_zone_def
      MAX_LOCAL_DATETIME_BYTES_def is_ascii_def timestamp_ms_def u64_checked_add_def push_replacement_def push_if_intersecting_def)
qed

lemma demo_far: "evaluate_at demo_calendar demo_window 0 = Inr (False, None)"
  by (simp add: evaluate_at_def demo_validate horizon_def u64_checked_add_def MAX_WINDOW_DURATION_MS_def demo_none_before)


lemma demo_near:
  "evaluate demo_calendar [demo_window] 34646400001 = Inr \<lparr>ev_active = [0], ev_next_boundary = Some 34650000000\<rparr>"
proof -
  have "window_start demo_calendar demo_window = Inr (34560000000, ())" by (simp add: schedule_eval)
  moreover have "expand_loop demo_calendar demo_window 34560000000 () 34639200001 66268800001 4096 0 [] =
      Inr [\<lparr>oc_scheduled = 34646400000, oc_start = 34646400000, oc_end = 34650000000, oc_priority = 0\<rparr>]"
    by (simp add: expand_step [of 4096] expand_step [of 4095] expand_step [of 4094] schedule_eval push_scheduled_def
      push_replacement_def push_if_intersecting_def)
  moreover have "approximate_index demo_calendar 34560000000 34635600001 Daily = Inr 0" by (simp add: schedule_eval)
  ultimately have "occurrences_between demo_calendar demo_window 34639200001 66268800001 =
      Inr [\<lparr>oc_scheduled = 34646400000, oc_start = 34646400000, oc_end = 34650000000, oc_priority = 0\<rparr>]"
    by (simp add: occurrences_between_def demo_validate MAX_EXPANDED_OCCURRENCES_def parse_local_with_zone_def
      MAX_LOCAL_DATETIME_BYTES_def is_ascii_def timestamp_ms_def u64_checked_add_def push_replacement_def push_if_intersecting_def)
  thus ?thesis
    by (simp add: evaluate_def evaluate_at_def demo_validate horizon_def u64_checked_add_def MAX_WINDOW_DURATION_MS_def
      longest_duration_def note_occurrence_def sooner_def)
qed

theorem occurrences_exact_witness:
  "calendar_ok demo_calendar \<and>
    occurrences_between demo_calendar demo_window 34560000000 34732800000 =
      Inr [\<lparr>oc_scheduled = 34646400000, oc_start = 34646400000, oc_end = 34650000000, oc_priority = 0\<rparr>] \<and>
    {\<lparr>oc_scheduled = 34646400000, oc_start = 34646400000, oc_end = 34650000000, oc_priority = 0\<rparr>} =
      {o'. window_occurs demo_calendar demo_window o' \<and> meets 34560000000 34732800000 o'}"
  using occurrences_exact [OF demo_calendar_ok demo_occurrences] demo_calendar_ok demo_occurrences by simp

theorem evaluation_holds_until_boundary_witness:
  "calendar_ok demo_calendar \<and>
    evaluate demo_calendar [demo_window] 34646400001 = Inr \<lparr>ev_active = [0], ev_next_boundary = Some 34650000000\<rparr> \<and>
    [0] = filter (\<lambda>i. covers demo_calendar ([demo_window] ! i) 34649999999) [0..<length [demo_window]]"
proof -
  have "ev_active \<lparr>ev_active = [0], ev_next_boundary = Some 34650000000\<rparr> =
      filter (\<lambda>i. covers demo_calendar ([demo_window] ! i) 34649999999) [0..<length [demo_window]]"
    by (rule evaluation_holds_until_boundary [OF demo_calendar_ok demo_near])
      (simp_all add: MAX_WINDOW_DURATION_MS_def)
  thus ?thesis using demo_calendar_ok demo_near unfolding evaluation.simps by blast
qed

theorem next_boundary_exact_witness:
  "calendar_ok demo_calendar \<and>
    evaluate demo_calendar [demo_window] 34646400001 = Inr \<lparr>ev_active = [0], ev_next_boundary = Some 34650000000\<rparr> \<and>
    turns demo_calendar demo_window 34650000000 \<and> (34646400001 :: nat) < 34650000000"
  using next_boundary_exact [OF demo_calendar_ok demo_near, of 34650000000] demo_calendar_ok demo_near by simp

lemma demo_overlaps:
  "overlaps_between demo_calendar [demo_window, demo_window] 34560000000 34732800000 =
    Inr [\<lparr>ov_left = 0, ov_right = 1, ov_start = 34646400000, ov_end = 34650000000\<rparr>]"
  by (simp add: overlaps_between_def demo_occurrences overlaps_of_def overlap_of_def)

theorem overlaps_exact_witness:
  "calendar_ok demo_calendar \<and>
    overlaps_between demo_calendar [demo_window, demo_window] 34560000000 34732800000 =
      Inr [\<lparr>ov_left = 0, ov_right = 1, ov_start = 34646400000, ov_end = 34650000000\<rparr>] \<and>
    (\<exists>x y. window_occurs demo_calendar demo_window x \<and> window_occurs demo_calendar demo_window y
      \<and> 34646400000 = max (oc_start x) (oc_start y) \<and> 34650000000 = min (oc_end x) (oc_end y))"
  using overlaps_exact [OF demo_calendar_ok demo_overlaps,
    of "\<lparr>ov_left = 0, ov_right = 1, ov_start = 34646400000, ov_end = 34650000000\<rparr>"] demo_calendar_ok demo_overlaps by auto

lemma demo_window_start: "window_start demo_calendar demo_window = Inr (34560000000, ())"
  by (simp add: schedule_eval)

lemma demo_occurs_late:
  assumes "window_occurs demo_calendar demo_window o'"
  shows "34560000000 \<le> oc_start o'"
proof -
  have "34560000000 \<le> ms" if "base_at demo_calendar 34560000000 Daily i = Some ms" for i ms
    using that by (auto simp: base_at_Some timestamp_ms_Inr dest!: occurrence_at_Some)
  thus ?thesis using assms
    by (auto simp: window_occurs_def demo_window_start regular_def replaced_def parse_local_with_zone_def timestamp_ms_def
      split: if_splits)
qed

lemma demo_turns: "turns demo_calendar demo_window 34646400000"
proof -
  have "base_at demo_calendar 34560000000 Daily 1 = Some 34646400000" by (simp add: base_at_def schedule_eval)
  hence "window_occurs demo_calendar demo_window (regular demo_window 34646400000)"
    by (intro regular_occurs [OF demo_window_start]) (simp_all add: schedule_eval)
  thus ?thesis by (auto simp: turns_def regular_def)
qed

theorem far_window_has_no_boundary_witness:
  "calendar_ok demo_calendar \<and> evaluate_at demo_calendar demo_window 0 = Inr (False, None) \<and>
    w_recurrence demo_window \<noteq> NoRecurrence \<and> snd (projr (evaluate_at demo_calendar demo_window 0)) = None \<and>
    turns demo_calendar demo_window 34646400000"
proof -
  have found: "evaluate_at demo_calendar demo_window 0 = Inr (False, snd (projr (evaluate_at demo_calendar demo_window 0)))"
    by (simp add: demo_far)
  have "snd (projr (evaluate_at demo_calendar demo_window 0)) = None"
    by (rule far_window_has_no_boundary [OF demo_calendar_ok found])
      (use demo_occurs_late in \<open>force simp: MAX_WINDOW_DURATION_MS_def\<close>)+
  thus ?thesis using demo_calendar_ok demo_far demo_turns by simp
qed

end
