(* ===== verification/RadixIndex.thy ===== *)
theory RadixIndex
  imports Prelude
begin

text \<open>
  The canonical persistent authenticated radix index (\<^verbatim>\<open>crates/journal/src/index.rs\<close>): building an index
  from a set of entries, applying changes by rewriting only the paths they touch, reading it back and
  validating what a peer or a restart handed over.

  An entry is a pair of a key and a value, a change a pair of a key and an optional value. A node source
  is a function from hashes to bytes. The postcard codec of nodes and the object hash are the argument
  \<open>env\<close>. A \<open>u64\<close> is a natural number, checked against \<open>2 ^ 64\<close> where the code checks. A \<open>NodeSink\<close> is the
  list of node bytes an operation adds to it.
\<close>

section \<open>Nodes\<close>

definition MAX_DEPTH :: nat where "MAX_DEPTH = 64"
definition MAX_LEAF_ENTRIES :: nat where "MAX_LEAF_ENTRIES = 256"
definition MAX_NODE_BYTES :: nat where "MAX_NODE_BYTES = 1024 * 1024"
definition MAX_VALUE_BYTES :: nat where "MAX_VALUE_BYTES = 64 * 1024"
definition FANOUT :: nat where "FANOUT = 16"

type_synonym index_key = bytes
type_synonym index_entry = "index_key \<times> bytes"
type_synonym index_change = "index_key \<times> bytes option"

record child_ref =
  cr_hash :: bytes
  cr_count :: nat

datatype index_node = Leaf "index_entry list" | Branch "child_ref option list"

datatype index_failure =
  NonCanonical | Bounds | Order | CountMismatch | MissingNode bytes | NotCanonicalShape

record node_env =
  ne_encode :: "index_node \<Rightarrow> bytes option"
  ne_decode :: "bytes \<Rightarrow> index_node option"
  ne_hash :: "bytes \<Rightarrow> bytes"

type_synonym node_source = "bytes \<Rightarrow> bytes option"

definition nibble :: "index_key \<Rightarrow> nat \<Rightarrow> index_failure + nat" where
  "nibble key depth =
    (if depth div 2 < length key
     then let byte = (of_char (key ! (depth div 2)) :: nat) in Inr (if even depth then byte div 16 else byte mod 16)
     else Inl Bounds)"

definition next_depth :: "nat \<Rightarrow> index_failure + nat" where
  "next_depth depth = (if MAX_DEPTH < Suc depth then Inl Bounds else Inr (Suc depth))"

definition checked_u64 :: "index_failure \<Rightarrow> nat \<Rightarrow> index_failure + nat" where
  "checked_u64 e n = (if n < 2 ^ 64 then Inr n else Inl e)"

definition count_entries :: "nat \<Rightarrow> index_failure + nat" where
  "count_entries entries = checked_u64 Bounds entries"

definition node_encode :: "node_env \<Rightarrow> index_node \<Rightarrow> index_failure + bytes" where
  "node_encode env node = (case ne_encode env node of None \<Rightarrow> Inl Bounds | Some b \<Rightarrow> Inr b)"

definition node_decode_canonical :: "node_env \<Rightarrow> bytes \<Rightarrow> index_failure + index_node" where
  "node_decode_canonical env bytes =
    (if MAX_NODE_BYTES < length bytes then Inl Bounds
     else case ne_decode env bytes of
       None \<Rightarrow> Inl NonCanonical
     | Some node \<Rightarrow> try_then (node_encode env node) (\<lambda>b. if b \<noteq> bytes then Inl NonCanonical else Inr node))"

definition fits_leaf :: "node_env \<Rightarrow> index_entry list \<Rightarrow> nat \<Rightarrow> index_failure + bool" where
  "fits_leaf env entries depth =
    (if length entries \<le> 1 \<or> MAX_DEPTH \<le> depth then Inr True
     else if MAX_LEAF_ENTRIES < length entries then Inr False
     else try_then (node_encode env (Leaf entries)) (\<lambda>b. Inr (length b \<le> MAX_NODE_BYTES)))"

definition emit :: "node_env \<Rightarrow> index_node \<Rightarrow> nat \<Rightarrow> index_failure + (child_ref \<times> bytes)" where
  "emit env node count =
    try_then (node_encode env node) (\<lambda>bytes. Inr (\<lparr>cr_hash = ne_hash env bytes, cr_count = count\<rparr>, bytes))"

definition flatten_slots :: "child_ref option list \<Rightarrow> child_ref list" where
  "flatten_slots slots = concat (map (\<lambda>s. case s of None \<Rightarrow> [] | Some c \<Rightarrow> [c]) slots)"

section \<open>Building\<close>

text \<open>The two loops over a sorted list, one run of equal nibbles at a time.\<close>

function runs_loop ::
  "nat \<Rightarrow> (nat \<Rightarrow> (index_key \<times> 'a) list \<Rightarrow> 's \<Rightarrow> index_failure + 's) \<Rightarrow> (index_key \<times> 'a) list \<Rightarrow> 's \<Rightarrow> index_failure + 's" where
  "runs_loop depth body [] s = Inr s"
| "runs_loop depth body (x # xs) s =
    try_then (nibble (fst x) depth) (\<lambda>slot.
    try_then (body slot (x # takeWhile (\<lambda>y. nibble (fst y) depth = Inr slot) xs) s) (\<lambda>s.
      runs_loop depth body (dropWhile (\<lambda>y. nibble (fst y) depth = Inr slot) xs) s))"
  by pat_completeness auto
termination
  by (relation "measure (\<lambda>(_, _, xs, _). length xs)") (auto simp: le_imp_less_Suc length_dropWhile_le)

lemma next_depth_Inr: "next_depth depth = Inr d \<longleftrightarrow> d = Suc depth \<and> depth < MAX_DEPTH"
  by (auto simp: next_depth_def)

function build :: "node_env \<Rightarrow> index_entry list \<Rightarrow> nat \<Rightarrow> index_failure + (child_ref option \<times> bytes list)" where
  "build env entries depth =
    (if entries = [] then Inr (None, [])
     else try_then (fits_leaf env entries depth) (\<lambda>fits.
       if fits then
         try_then (count_entries (length entries)) (\<lambda>n.
         try_then (emit env (Leaf entries) n) (\<lambda>(child, bytes). Inr (Some child, [bytes])))
       else
         try_then (runs_loop depth
           (\<lambda>slot slice (children, total, written).
             try_then (next_depth depth) (\<lambda>d.
             try_then (build env slice d) (\<lambda>(child, more).
             try_then (case child of None \<Rightarrow> Inr total | Some c \<Rightarrow> checked_u64 Bounds (total + cr_count c)) (\<lambda>total.
               Inr (children[slot := child], total, written @ more)))))
           entries (replicate FANOUT None, 0, [])) (\<lambda>(children, total, written).
         try_then (emit env (Branch children) total) (\<lambda>(child, bytes). Inr (Some child, written @ [bytes])))))"
  by pat_completeness auto
termination
  by (relation "measure (\<lambda>(_, _, depth). MAX_DEPTH - depth)") (auto simp: next_depth_Inr)

declare build.simps [simp del]

definition build_index :: "node_env \<Rightarrow> index_entry list \<Rightarrow> index_failure + (child_ref option \<times> bytes list)" where
  "build_index env entries =
    (if list_ex (\<lambda>e. MAX_VALUE_BYTES < length (snd e)) entries then Inl Bounds
     else let sorted_entries = sort_key fst entries in
       if \<not> distinct (map fst sorted_entries) then Inl Order
       else build env sorted_entries 0)"

section \<open>Changing\<close>

definition read_node :: "node_env \<Rightarrow> node_source \<Rightarrow> child_ref \<Rightarrow> index_failure + index_node" where
  "read_node env source child =
    (case source (cr_hash child) of
       None \<Rightarrow> Inl (MissingNode (cr_hash child))
     | Some bytes \<Rightarrow> node_decode_canonical env bytes)"

lemma collect_result_cong [fundef_cong]:
  "xs = ys \<Longrightarrow> (\<And>x. x \<in> set ys \<Longrightarrow> f x = g x) \<Longrightarrow> collect_result f xs = collect_result g ys"
  by (induction ys arbitrary: xs) (auto cong: try_then_cong)

function collect_entries :: "node_env \<Rightarrow> node_source \<Rightarrow> child_ref \<Rightarrow> nat \<Rightarrow> index_failure + index_entry list" where
  "collect_entries env source child depth =
    (if MAX_DEPTH < depth then Inl Bounds
     else try_then (read_node env source child) (\<lambda>node.
       case node of
         Leaf entries \<Rightarrow> Inr entries
       | Branch children \<Rightarrow>
           try_then (collect_result (\<lambda>slot. try_then (next_depth depth) (\<lambda>d. collect_entries env source slot d))
             (flatten_slots children)) (\<lambda>parts. Inr (concat parts))))"
  by pat_completeness auto
termination
  by (relation "measure (\<lambda>(_, _, _, depth). MAX_DEPTH - depth)") (auto simp: next_depth_Inr)

declare collect_entries.simps [simp del]

definition change_entry :: "index_change \<Rightarrow> index_entry list" where
  "change_entry c = (case snd c of None \<Rightarrow> [] | Some v \<Rightarrow> [(fst c, v)])"

fun merge_into :: "index_entry list \<Rightarrow> index_change list \<Rightarrow> index_entry list" where
  "merge_into es [] = es"
| "merge_into [] (c # cs) = change_entry c @ merge_into [] cs"
| "merge_into (e # es) (c # cs) =
    (if fst e < fst c then e # merge_into es (c # cs)
     else if fst c < fst e then change_entry c @ merge_into (e # es) cs
     else change_entry c @ merge_into es cs)"

definition slot_count :: "child_ref option \<Rightarrow> nat" where
  "slot_count slot = (case slot of None \<Rightarrow> 0 | Some c \<Rightarrow> cr_count c)"

function descend ::
  "node_env \<Rightarrow> node_source \<Rightarrow> child_ref option \<Rightarrow> nat \<Rightarrow> index_change list \<Rightarrow> index_failure + (child_ref option \<times> bytes list)" where
  "descend env source node depth changes =
    (if changes = [] then Inr (node, [])
     else if MAX_DEPTH < depth then Inl Bounds
     else case node of
       None \<Rightarrow> build env (concat (map change_entry changes)) depth
     | Some child \<Rightarrow>
         try_then (read_node env source child) (\<lambda>existing.
         case existing of
           Leaf entries \<Rightarrow> build env (merge_into entries changes) depth
         | Branch children \<Rightarrow>
             try_then (count_entries (length (filter (\<lambda>c. snd c = None) changes))) (\<lambda>deletes.
             if cr_count child - deletes \<le> MAX_LEAF_ENTRIES then
               try_then (collect_result (\<lambda>slot. try_then (next_depth depth) (\<lambda>d. collect_entries env source slot d))
                 (flatten_slots children)) (\<lambda>parts.
                 build env (merge_into (sort_key fst (concat parts)) changes) depth)
             else
               try_then (runs_loop depth
                 (\<lambda>slot changed (next, total, written).
                   try_then (next_depth depth) (\<lambda>d.
                   try_then (descend env source (next ! slot) d changed) (\<lambda>(updated, more).
                     if total < slot_count (next ! slot) then Inl CountMismatch
                     else try_then (checked_u64 CountMismatch (total - slot_count (next ! slot) + slot_count updated)) (\<lambda>total.
                       Inr (next[slot := updated], total, written @ more)))))
                 changes (children, cr_count child, [])) (\<lambda>(next, total, written).
               if total = 0 then Inr (None, written)
               else try_then (emit env (Branch next) total) (\<lambda>(child, bytes). Inr (Some child, written @ [bytes]))))))"
  by pat_completeness auto
termination
  by (relation "measure (\<lambda>(_, _, _, depth, _). MAX_DEPTH - depth)") (auto simp: next_depth_Inr)

declare descend.simps [simp del]

fun keep_last :: "index_change list \<Rightarrow> index_change list" where
  "keep_last [] = []"
| "keep_last [c] = [c]"
| "keep_last (c # d # cs) = (if fst d = fst c then keep_last (d # cs) else c # keep_last (d # cs))"

definition apply_changes ::
  "node_env \<Rightarrow> node_source \<Rightarrow> child_ref option \<Rightarrow> index_change list \<Rightarrow> index_failure + (child_ref option \<times> bytes list)" where
  "apply_changes env source root changes =
    (if list_ex (\<lambda>c. case snd c of None \<Rightarrow> False | Some v \<Rightarrow> MAX_VALUE_BYTES < length v) changes then Inl Bounds
     else let changes = keep_last (sort_key fst changes) in
       if changes = [] then Inr (root, []) else descend env source root 0 changes)"


section \<open>Reading\<close>

definition read_verified :: "node_env \<Rightarrow> node_source \<Rightarrow> child_ref \<Rightarrow> index_failure + index_node" where
  \<comment> \<open>as \<open>read_node\<close>, and the bytes must have the hash that names them\<close>
  "read_verified env source child =
    (case source (cr_hash child) of
       None \<Rightarrow> Inl (MissingNode (cr_hash child))
     | Some bytes \<Rightarrow> if ne_hash env bytes \<noteq> cr_hash child then Inl NonCanonical else node_decode_canonical env bytes)"

fun keys_ascending :: "index_key list \<Rightarrow> bool" where
  "keys_ascending (left # right # keys) \<longleftrightarrow> left < right \<and> keys_ascending (right # keys)"
| "keys_ascending _ \<longleftrightarrow> True"

fun placed :: "index_key \<Rightarrow> nat \<Rightarrow> nat list \<Rightarrow> index_failure + unit" where
  "placed key level [] = Inr ()"
| "placed key level (expected # prefix) =
    try_then (nibble key level) (\<lambda>n. if n \<noteq> expected then Inl Order else placed key (Suc level) prefix)"

fun check_entries :: "(bytes \<Rightarrow> bool) \<Rightarrow> nat list \<Rightarrow> index_entry list \<Rightarrow> index_failure + unit" where
  "check_entries valid_value prefix [] = Inr ()"
| "check_entries valid_value prefix (entry # entries) =
    (if MAX_VALUE_BYTES < length (snd entry) \<or> \<not> valid_value (snd entry) then Inl Bounds
     else try_then (placed (fst entry) 0 prefix) (\<lambda>_. check_entries valid_value prefix entries))"

definition check_leaf ::
  "node_env \<Rightarrow> (bytes \<Rightarrow> bool) \<Rightarrow> index_entry list \<Rightarrow> nat \<Rightarrow> nat list \<Rightarrow> nat \<Rightarrow> index_failure + nat" where
  "check_leaf env valid_value entries depth prefix declared =
    (if entries = [] then Inl NotCanonicalShape
     else if \<not> keys_ascending (map fst entries) then Inl Order
     else try_then (check_entries valid_value prefix entries) (\<lambda>_.
       try_then (fits_leaf env entries depth) (\<lambda>fits.
         if \<not> fits then Inl NotCanonicalShape
         else try_then (count_entries (length entries)) (\<lambda>n. if declared \<noteq> n then Inl CountMismatch else Inr n))))"

fun child_total :: "child_ref list \<Rightarrow> nat \<Rightarrow> index_failure + nat" where
  "child_total [] sum_so_far = Inr sum_so_far"
| "child_total (c # cs) sum_so_far =
    (if cr_count c = 0 then Inl CountMismatch
     else try_then (checked_u64 Bounds (sum_so_far + cr_count c)) (child_total cs))"

definition check_branch :: "child_ref option list \<Rightarrow> nat \<Rightarrow> index_failure + nat" where
  "check_branch children declared =
    (if flatten_slots children = [] then Inl NotCanonicalShape
     else try_then (child_total (flatten_slots children) 0) (\<lambda>total.
       if total \<noteq> declared then Inl CountMismatch else Inr total))"

function lookup_loop ::
  "node_env \<Rightarrow> node_source \<Rightarrow> index_key \<Rightarrow> (bytes \<Rightarrow> bool) \<Rightarrow> child_ref option \<Rightarrow> nat \<Rightarrow> nat list \<Rightarrow> index_failure + bytes option" where
  "lookup_loop env source key valid_value current depth prefix =
    (case current of
       None \<Rightarrow> Inr None
     | Some child \<Rightarrow>
         if MAX_DEPTH < depth then Inl Bounds
         else try_then (read_verified env source child) (\<lambda>node.
           case node of
             Leaf entries \<Rightarrow>
               try_then (check_leaf env valid_value entries depth prefix (cr_count child)) (\<lambda>_.
                 Inr (map_option snd (find (\<lambda>e. fst e = key) entries)))
           | Branch children \<Rightarrow>
               try_then (check_branch children (cr_count child)) (\<lambda>_.
               try_then (nibble key depth) (\<lambda>slot.
               try_then (next_depth depth) (\<lambda>d.
                 lookup_loop env source key valid_value (children ! slot) d (prefix @ [slot]))))))"
  by pat_completeness auto
termination
  by (relation "measure (\<lambda>(_, _, _, _, _, depth, _). MAX_DEPTH - depth)") (auto simp: next_depth_Inr)

declare lookup_loop.simps [simp del]

definition lookup_validated ::
  "node_env \<Rightarrow> node_source \<Rightarrow> child_ref option \<Rightarrow> index_key \<Rightarrow> (bytes \<Rightarrow> bool) \<Rightarrow> index_failure + bytes option" where
  "lookup_validated env source root key valid_value = lookup_loop env source key valid_value root 0 []"

definition lookup_index :: "node_env \<Rightarrow> node_source \<Rightarrow> child_ref option \<Rightarrow> index_key \<Rightarrow> index_failure + bytes option" where
  "lookup_index env source root key = lookup_validated env source root key (\<lambda>_. True)"

fun try_fold :: "('x \<Rightarrow> 's \<Rightarrow> 'e + 's) \<Rightarrow> 'x list \<Rightarrow> 's \<Rightarrow> 'e + 's" where
  "try_fold f [] s = Inr s"
| "try_fold f (x # xs) s = try_then (f x s) (try_fold f xs)"

lemma try_fold_cong [fundef_cong]:
  "xs = ys \<Longrightarrow> s = t \<Longrightarrow> (\<And>x s. x \<in> set ys \<Longrightarrow> f x s = g x s) \<Longrightarrow> try_fold f xs s = try_fold g ys t"
  by (induction ys arbitrary: xs s t) (auto cong: try_then_cong)

function page_walk ::
  "node_env \<Rightarrow> node_source \<Rightarrow> index_key option \<Rightarrow> nat \<Rightarrow> child_ref \<Rightarrow> nat \<Rightarrow> bool \<Rightarrow> nat list \<Rightarrow> index_entry list \<Rightarrow>
   index_failure + index_entry list" where
  "page_walk env source after limit child depth tight prefix out =
    (if limit \<le> length out then Inr out
     else if MAX_DEPTH < depth \<or> cr_count child = 0 then Inl Bounds
     else try_then (read_verified env source child) (\<lambda>node.
       case node of
         Leaf entries \<Rightarrow>
           if entries = [] then Inl NotCanonicalShape
           else try_then (fits_leaf env entries depth) (\<lambda>fits.
             if \<not> fits then Inl NotCanonicalShape
             else try_then (count_entries (length entries)) (\<lambda>n.
               if cr_count child \<noteq> n \<or> \<not> keys_ascending (map fst entries) \<or> list_ex (\<lambda>e. MAX_VALUE_BYTES < length (snd e)) entries
               then Inl CountMismatch
               else try_then (collect_result (\<lambda>e. placed (fst e) 0 prefix) entries) (\<lambda>_.
                 Inr (out @ take (limit - length out)
                   (filter (\<lambda>e. \<not> tight \<or> (case after of None \<Rightarrow> True | Some cursor \<Rightarrow> cursor < fst e)) entries)))))
       | Branch children \<Rightarrow>
           try_then (child_total (flatten_slots children) 0) (\<lambda>total.
           if total \<noteq> cr_count child then Inl CountMismatch
           else try_then (if tight then (case after of Some cursor \<Rightarrow> nibble cursor depth | None \<Rightarrow> Inr 0) else Inr 0) (\<lambda>start.
             try_fold (\<lambda>slot out.
               if limit \<le> length out then Inr out
               else case children ! slot of
                 None \<Rightarrow> Inr out
               | Some child \<Rightarrow> try_then (next_depth depth) (\<lambda>d.
                   page_walk env source after limit child d (tight \<and> slot = start) (prefix @ [slot]) out))
               [start..<FANOUT] out))))"
  by pat_completeness auto
termination
  by (relation "measure (\<lambda>(_, _, _, _, _, depth, _). MAX_DEPTH - depth)") (auto simp: next_depth_Inr)

declare page_walk.simps [simp del]

definition page_after ::
  "node_env \<Rightarrow> node_source \<Rightarrow> child_ref option \<Rightarrow> index_key option \<Rightarrow> nat \<Rightarrow> index_failure + index_entry list" where
  "page_after env source root after limit =
    (if limit = 0 \<or> 4097 < limit then Inl Bounds
     else case root of
       None \<Rightarrow> Inr []
     | Some child \<Rightarrow> page_walk env source after limit child 0 (after \<noteq> None) [] [])"

definition validate_root :: "node_env \<Rightarrow> node_source \<Rightarrow> child_ref option \<Rightarrow> index_failure + unit" where
  "validate_root env source root =
    (case root of
       None \<Rightarrow> Inr ()
     | Some child \<Rightarrow>
         if cr_count child = 0 then Inl CountMismatch
         else try_then (read_verified env source child) (\<lambda>node.
           case node of
             Leaf entries \<Rightarrow> try_then (check_leaf env (\<lambda>_. True) entries 0 [] (cr_count child)) (\<lambda>_. Inr ())
           | Branch children \<Rightarrow> try_then (check_branch children (cr_count child)) (\<lambda>_. Inr ())))"

function stream_walk :: "node_env \<Rightarrow> node_source \<Rightarrow> child_ref \<Rightarrow> nat \<Rightarrow> index_failure + (index_entry list \<times> nat)" where
  \<comment> \<open>the entries visited, in order, and their number\<close>
  "stream_walk env source child depth =
    (if MAX_DEPTH < depth then Inl Bounds
     else try_then (read_node env source child) (\<lambda>node.
       case node of
         Leaf entries \<Rightarrow> try_then (count_entries (length entries)) (\<lambda>n. Inr (entries, n))
       | Branch children \<Rightarrow>
           try_fold (\<lambda>slot (visited, total).
             try_then (next_depth depth) (\<lambda>d.
             try_then (stream_walk env source slot d) (\<lambda>(entries, n).
             try_then (checked_u64 Bounds (total + n)) (\<lambda>total. Inr (visited @ entries, total)))))
             (flatten_slots children) ([], 0)))"
  by pat_completeness auto
termination
  by (relation "measure (\<lambda>(_, _, _, depth). MAX_DEPTH - depth)") (auto simp: next_depth_Inr)

declare stream_walk.simps [simp del]

definition stream_index :: "node_env \<Rightarrow> node_source \<Rightarrow> child_ref option \<Rightarrow> index_failure + (index_entry list \<times> nat)" where
  "stream_index env source root = (case root of None \<Rightarrow> Inr ([], 0) | Some child \<Rightarrow> stream_walk env source child 0)"

function spine_walk :: "node_env \<Rightarrow> node_source \<Rightarrow> child_ref \<Rightarrow> nat \<Rightarrow> bytes set \<Rightarrow> index_failure + bytes set" where
  "spine_walk env source child depth out =
    (if MAX_DEPTH < depth then Inl Bounds
     else if cr_hash child \<in> out then Inr out
     else try_then (read_node env source child) (\<lambda>node.
       case node of
         Leaf _ \<Rightarrow> Inr (insert (cr_hash child) out)
       | Branch children \<Rightarrow>
           try_fold (\<lambda>slot out. try_then (next_depth depth) (\<lambda>d. spine_walk env source slot d out))
             (flatten_slots children) (insert (cr_hash child) out)))"
  by pat_completeness auto
termination
  by (relation "measure (\<lambda>(_, _, _, depth, _). MAX_DEPTH - depth)") (auto simp: next_depth_Inr)

declare spine_walk.simps [simp del]

definition spine :: "node_env \<Rightarrow> node_source \<Rightarrow> child_ref option \<Rightarrow> index_failure + bytes set" where
  "spine env source root = (case root of None \<Rightarrow> Inr {} | Some child \<Rightarrow> spine_walk env source child 0 {})"

function validate_walk :: "node_env \<Rightarrow> node_source \<Rightarrow> child_ref \<Rightarrow> nat \<Rightarrow> nat list \<Rightarrow> index_failure + nat" where
  "validate_walk env source child depth prefix =
    (if MAX_DEPTH < depth then Inl Bounds
     else try_then (read_verified env source child) (\<lambda>node.
       case node of
         Leaf entries \<Rightarrow> check_leaf env (\<lambda>_. True) entries depth prefix (cr_count child)
       | Branch children \<Rightarrow>
           if flatten_slots children = [] then Inl NotCanonicalShape
           else try_then (try_fold (\<lambda>(slot, entry) total.
               case entry of
                 None \<Rightarrow> Inr total
               | Some reference \<Rightarrow>
                   try_then (next_depth depth) (\<lambda>d.
                   try_then (validate_walk env source reference d (prefix @ [slot])) (\<lambda>n. checked_u64 Bounds (total + n))))
               (enumerate 0 children) 0) (\<lambda>total.
             if total \<noteq> cr_count child then Inl CountMismatch
             else if total \<le> MAX_LEAF_ENTRIES then
               try_then (collect_result (\<lambda>slot. try_then (next_depth depth) (\<lambda>d. collect_entries env source slot d))
                 (flatten_slots children)) (\<lambda>parts.
               try_then (fits_leaf env (sort_key fst (concat parts)) depth) (\<lambda>fits.
                 if fits then Inl NotCanonicalShape else Inr total))
             else Inr total)))"
  by pat_completeness auto
termination
  by (relation "measure (\<lambda>(_, _, _, depth, _). MAX_DEPTH - depth)") (auto simp: next_depth_Inr)

declare validate_walk.simps [simp del]

definition validate_index :: "node_env \<Rightarrow> node_source \<Rightarrow> child_ref option \<Rightarrow> index_failure + nat" where
  "validate_index env source root = (case root of None \<Rightarrow> Inr 0 | Some child \<Rightarrow> validate_walk env source child 0 [])"

end
