(* ===== verification/RadixNibbles.thy ===== *)
theory RadixNibbles
  imports RadixIndex
begin

text \<open>
  The nibbles of a key: among keys with a common prefix of nibbles, their order is the order of the next
  nibble. So the loop that takes a sorted list apart run by run (\<open>runs_loop\<close>) visits the sixteen slots in
  order (\<open>runs_loop_slots\<close>), and the slots put together are the list (\<open>concat_slots\<close>).
\<close>

section \<open>Nibbles order keys\<close>

definition nib :: "index_key \<Rightarrow> nat \<Rightarrow> nat" where
  "nib k d = (let byte = (of_char (k ! (d div 2)) :: nat) in if even d then byte div 16 else byte mod 16)"

lemma nibble_nib: "length k = 32 \<Longrightarrow> d < MAX_DEPTH \<Longrightarrow> nibble k d = Inr (nib k d)"
  by (auto simp: nibble_def nib_def Let_def MAX_DEPTH_def)

lemma nib_less: "nib k d < 16"
proof -
  have "(of_char (k ! (d div 2)) :: nat) mod 256 < 256" by simp
  hence "(of_char (k ! (d div 2)) :: nat) < 16 * 16" by simp
  hence "(of_char (k ! (d div 2)) :: nat) div 16 < 16" by (rule less_mult_imp_div_less)
  thus ?thesis by (simp add: nib_def Let_def)
qed

lemma of_char_eq_iff_nat: "(of_char c :: nat) = of_char c' \<longleftrightarrow> c = c'"
  by (metis char_of_char)

lemma byte_from_nibs:
  assumes "nib k (2 * i) = nib l (2 * i)" "nib k (2 * i + 1) = nib l (2 * i + 1)"
  shows "k ! i = l ! i"
proof -
  have "(of_char (k ! i) :: nat) div 16 = of_char (l ! i) div 16" "(of_char (k ! i) :: nat) mod 16 = of_char (l ! i) mod 16"
    using assms by (simp_all add: nib_def)
  hence "(of_char (k ! i) :: nat) = of_char (l ! i)" by (metis div_mult_mod_eq)
  thus ?thesis by (simp add: of_char_eq_iff_nat)
qed

lemma bytes_from_nibs:
  assumes "\<And>j. j < d \<Longrightarrow> nib k j = nib l j" "i < d div 2"
  shows "k ! i = l ! i"
  using assms by (intro byte_from_nibs) auto

lemma key_eq_from_nibs:
  assumes "length k = 32" "length l = 32" "\<And>j. j < MAX_DEPTH \<Longrightarrow> nib k j = nib l j"
  shows "k = l"
  using assms bytes_from_nibs [of MAX_DEPTH k l] by (intro nth_equalityI) (auto simp: MAX_DEPTH_def)

lemma less_at_first_difference:
  "(xs :: 'a::linorder list) < ys \<Longrightarrow> length xs = length ys \<Longrightarrow>
    \<exists>i < length xs. (\<forall>j < i. xs ! j = ys ! j) \<and> xs ! i < ys ! i"
proof (induction xs arbitrary: ys)
  case (Cons x xs)
  then obtain y zs where ys: "ys = y # zs" by (cases ys) auto
  show ?case
  proof (cases "x < y")
    case True
    thus ?thesis using ys by (intro exI [of _ 0]) simp
  next
    case False
    hence "x = y" "xs < zs" using Cons.prems ys by auto
    then obtain i where "i < length xs" "\<forall>j<i. xs ! j = zs ! j" "xs ! i < zs ! i"
      using Cons.IH [of zs] Cons.prems ys by auto
    thus ?thesis using ys \<open>x = y\<close> by (intro exI [of _ "Suc i"]) (auto simp: less_Suc_eq_0_disj)
  qed
qed simp

lemma less_byte_less: "c < c' \<longleftrightarrow> (of_char c :: nat) < of_char c'"
  by (simp add: less_char_def)

text \<open>Among keys that agree on the nibbles above, the order of keys is the order of the next nibble.\<close>

lemma nib_mono:
  assumes "length k = 32" "length l = 32" "\<And>j. j < d \<Longrightarrow> nib k j = nib l j" "d < MAX_DEPTH" "k \<le> l"
  shows "nib k d \<le> nib l d"
proof (cases "k = l")
  case False
  hence "k < l" using assms(5) by simp
  then obtain i where i: "i < 32" "\<forall>j<i. k ! j = l ! j" "k ! i < l ! i"
    using less_at_first_difference [of k l] assms(1,2) by auto
  have "d div 2 \<le> i"
  proof (rule ccontr)
    assume "\<not> d div 2 \<le> i"
    hence "k ! i = l ! i" by (intro bytes_from_nibs [of d]) (use assms(3) in auto)
    thus False using i(3) by simp
  qed
  show ?thesis
  proof (cases "d div 2 = i")
    case False
    hence "k ! (d div 2) = l ! (d div 2)" using \<open>d div 2 \<le> i\<close> i(2) by simp
    thus ?thesis by (simp add: nib_def)
  next
    case True
    have lt: "(of_char (k ! i) :: nat) < of_char (l ! i)" using i(3) less_byte_less by blast
    show ?thesis
    proof (cases "even d")
      case even: True
      thus ?thesis using lt True by (simp add: nib_def div_le_mono)
    next
      case False
      hence "d = 2 * i + 1" using True by (metis odd_two_times_div_two_succ)
      hence "nib k (2 * i) = nib l (2 * i)" using assms(3) by simp
      hence "(of_char (k ! i) :: nat) div 16 = of_char (l ! i) div 16" by (simp add: nib_def)
      hence "(of_char (k ! i) :: nat) mod 16 \<le> of_char (l ! i) mod 16"
        using lt by (metis add_le_cancel_left div_mult_mod_eq less_imp_le_nat)
      thus ?thesis using False True by (simp add: nib_def)
    qed
  qed
qed simp

section \<open>Entries below a prefix\<close>

definition below_prefix :: "nat list \<Rightarrow> (index_key \<times> 'a) list \<Rightarrow> bool" where
  "below_prefix prefix xs \<longleftrightarrow> (\<forall>x\<in>set xs. length (fst x) = 32 \<and> (\<forall>i<length prefix. nib (fst x) i = prefix ! i))"

definition slot_of :: "nat \<Rightarrow> nat \<Rightarrow> (index_key \<times> 'a) list \<Rightarrow> (index_key \<times> 'a) list" where
  "slot_of d i xs = filter (\<lambda>x. nib (fst x) d = i) xs"

lemma below_slot: "below_prefix prefix xs \<Longrightarrow> below_prefix (prefix @ [i]) (slot_of (length prefix) i xs)"
  by (auto simp: below_prefix_def slot_of_def nth_append less_Suc_eq)

lemma below_subset: "below_prefix prefix xs \<Longrightarrow> set ys \<subseteq> set xs \<Longrightarrow> below_prefix prefix ys"
  by (auto simp: below_prefix_def)

lemma bm_wf_slot: "bm_wf xs \<Longrightarrow> bm_wf (slot_of d i xs)"
  by (simp add: slot_of_def bm_wf_filter)

lemma bm_wf_sorted: "bm_wf xs \<Longrightarrow> sorted (map fst xs)"
  by (simp add: bm_wf_def strict_sorted_imp_sorted)

lemma nibs_sorted:
  assumes "below_prefix prefix xs" "sorted (map fst xs)" "length prefix < MAX_DEPTH"
  shows "sorted (map (\<lambda>x. nib (fst x) (length prefix)) xs)"
  using assms(1,2)
proof (induction xs)
  case (Cons x xs)
  have "nib (fst x) (length prefix) \<le> nib (fst y) (length prefix)" if "y \<in> set xs" for y
    using Cons.prems that assms(3) by (intro nib_mono) (auto simp: below_prefix_def)
  thus ?case using Cons by (auto simp: below_prefix_def)
qed simp

text \<open>Below all 64 nibbles there is room for one key.\<close>

lemma full_prefix_single:
  assumes "below_prefix prefix xs" "bm_wf xs" "MAX_DEPTH \<le> length prefix"
  shows "length xs \<le> 1"
proof (cases xs)
  case (Cons x ys)
  show ?thesis
  proof (cases ys)
    case (Cons y zs)
    have "fst x = fst y"
      using assms(1,3) \<open>xs = x # ys\<close> Cons by (intro key_eq_from_nibs) (auto simp: below_prefix_def)
    thus ?thesis using assms(2) \<open>xs = x # ys\<close> Cons by (simp add: bm_wf_def)
  qed (simp add: Cons)
qed simp

section \<open>The loop over runs visits the slots in order\<close>

fun slot_loop :: "(nat \<Rightarrow> 'x list) \<Rightarrow> (nat \<Rightarrow> 'x list \<Rightarrow> 's \<Rightarrow> 'e + 's) \<Rightarrow> nat list \<Rightarrow> 's \<Rightarrow> 'e + 's" where
  "slot_loop F body [] s = Inr s"
| "slot_loop F body (i # is) s =
    (if F i = [] then slot_loop F body is s else try_then (body i (F i) s) (slot_loop F body is))"

lemma slot_loop_cong:
  "(\<And>i. i \<in> set is \<Longrightarrow> F i = G i) \<Longrightarrow> slot_loop F body is s = slot_loop G body is s"
  by (induction "is" arbitrary: s) (auto cong: try_then_cong)

lemma slot_loop_states:
  assumes "\<And>i. i < n \<Longrightarrow> F i \<noteq> [] \<Longrightarrow> body i (F i) (\<sigma> i) = Inr (\<sigma> (Suc i))"
    and "\<And>i. i < n \<Longrightarrow> F i = [] \<Longrightarrow> \<sigma> (Suc i) = \<sigma> i"
  shows "j \<le> n \<Longrightarrow> slot_loop F body [j..<n] (\<sigma> j) = Inr (\<sigma> n)"
proof (induction "n - j" arbitrary: j)
  case (Suc m)
  hence "j < n" "slot_loop F body [Suc j..<n] (\<sigma> (Suc j)) = Inr (\<sigma> n)" by auto
  thus ?case using assms [of j] by (auto simp: upt_conv_Cons)
qed simp

lemma takeWhile_min_filter:
  "sorted (map f xs) \<Longrightarrow> (\<And>x. x \<in> set xs \<Longrightarrow> j \<le> f x) \<Longrightarrow> takeWhile (\<lambda>x. f x = (j :: nat)) xs = filter (\<lambda>x. f x = j) xs"
proof (induction xs)
  case (Cons x xs)
  show ?case
  proof (cases "f x = j")
    case False
    hence "\<forall>y\<in>set xs. f y \<noteq> j" using Cons.prems by (auto dest!: spec) (metis le_antisym list.set_intros(1))
    thus ?thesis using False by simp
  qed (use Cons in simp)
qed simp

lemma dropWhile_min_filter:
  "sorted (map f xs) \<Longrightarrow> (\<And>x. x \<in> set xs \<Longrightarrow> j \<le> f x) \<Longrightarrow> dropWhile (\<lambda>x. f x = (j :: nat)) xs = filter (\<lambda>x. f x \<noteq> j) xs"
proof (induction xs)
  case (Cons x xs)
  show ?case
  proof (cases "f x = j")
    case False
    hence "\<forall>y\<in>set xs. f y \<noteq> j" using Cons.prems by (auto dest!: spec) (metis le_antisym list.set_intros(1))
    thus ?thesis using False by (simp add: filter_id_conv)
  qed (use Cons in simp)
qed simp

lemma runs_loop_slots_from:
  assumes "depth < MAX_DEPTH" "j \<le> 16"
  shows "sorted (map (\<lambda>x. nib (fst x) depth) xs) \<Longrightarrow> (\<And>x. x \<in> set xs \<Longrightarrow> length (fst x) = 32 \<and> j \<le> nib (fst x) depth) \<Longrightarrow>
    runs_loop depth body xs s = slot_loop (\<lambda>i. slot_of depth i xs) body [j..<16] s"
  using assms(2)
proof (induction "16 - j" arbitrary: j xs s)
  case 0
  have "j = 16" using 0 by simp
  hence "x \<notin> set xs" for x using 0(3) [of x] nib_less [of "fst x" depth] by auto
  hence "xs = []" by (cases xs) auto
  thus ?case using 0 by simp
next
  case (Suc m)
  hence j: "j < 16" by simp
  let ?rest = "filter (\<lambda>x. nib (fst x) depth \<noteq> j) xs"
  have bound: "length (fst x) = 32 \<and> Suc j \<le> nib (fst x) depth" if "x \<in> set ?rest" for x
    using Suc.prems(2) [of x] that by (auto simp: Suc_le_eq le_less)
  have rest: "runs_loop depth body ?rest s = slot_loop (\<lambda>i. slot_of depth i ?rest) body [Suc j..<16] s" for s
    using Suc.hyps(2) Suc.prems(1) j by (intro Suc.hyps(1) bound) (auto simp: sorted_filter)
  have same: "slot_loop (\<lambda>i. slot_of depth i ?rest) body [Suc j..<16] s = slot_loop (\<lambda>i. slot_of depth i xs) body [Suc j..<16] s" for s
    by (intro slot_loop_cong) (auto simp: slot_of_def intro!: filter_cong)
  have nibs: "nibble (fst x) depth = Inr n \<longleftrightarrow> nib (fst x) depth = n" if "x \<in> set xs" for x n
    using Suc.prems(2) [OF that] assms(1) by (simp add: nibble_nib)
  show ?case
  proof (cases "slot_of depth j xs = []")
    case True
    hence "?rest = xs" by (auto simp: slot_of_def filter_empty_conv filter_id_conv)
    thus ?thesis using rest same True j by (simp add: upt_conv_Cons)
  next
    case False
    then obtain x ys where xs: "xs = x # ys" by (cases xs) (auto simp: slot_of_def)
    obtain y where y: "y \<in> set xs" "nib (fst y) depth = j" using False by (auto simp: slot_of_def filter_empty_conv)
    hence "nib (fst x) depth \<le> j" using Suc.prems(1) xs by auto
    hence x: "nib (fst x) depth = j" "nibble (fst x) depth = Inr j" using Suc.prems(2) [of x] xs nibs [of x] by simp_all
    have ys: "takeWhile (\<lambda>y. nibble (fst y) depth = Inr j) ys = filter (\<lambda>y. nib (fst y) depth = j) ys"
      "dropWhile (\<lambda>y. nibble (fst y) depth = Inr j) ys = filter (\<lambda>y. nib (fst y) depth \<noteq> j) ys"
      using takeWhile_min_filter [of "\<lambda>y. nib (fst y) depth" ys j] dropWhile_min_filter [of "\<lambda>y. nib (fst y) depth" ys j]
        Suc.prems(1,2) xs nibs by (auto cong: takeWhile_cong dropWhile_cong)
    have "runs_loop depth body xs s = try_then (body j (slot_of depth j xs) s) (\<lambda>s. runs_loop depth body ?rest s)"
      using xs x ys by (simp add: slot_of_def)
    thus ?thesis using rest same False j by (simp add: upt_conv_Cons)
  qed
qed

lemma runs_loop_slots:
  assumes "below_prefix prefix xs" "sorted (map fst xs)" "length prefix < MAX_DEPTH"
  shows "runs_loop (length prefix) body xs s = slot_loop (\<lambda>i. slot_of (length prefix) i xs) body [0..<16] s"
  using assms nibs_sorted [OF assms] by (intro runs_loop_slots_from) (auto simp: below_prefix_def)

text \<open>The slots in order are the list.\<close>

lemma concat_filters:
  "sorted (map f xs) \<Longrightarrow> (\<And>x. x \<in> set xs \<Longrightarrow> j \<le> f x \<and> f x < n) \<Longrightarrow> j \<le> n \<Longrightarrow>
    concat (map (\<lambda>i. filter (\<lambda>x. f x = i) xs) [j..<n]) = xs"
proof (induction "n - j" arbitrary: j xs)
  case 0
  have "x \<notin> set xs" for x using 0 by force
  thus ?case using 0 by (cases xs) auto
next
  case (Suc m)
  let ?rest = "filter (\<lambda>x. f x \<noteq> j) xs"
  have bound: "Suc j \<le> f x \<and> f x < n" if "x \<in> set ?rest" for x
    using Suc.prems(2) [of x] that by (auto simp: Suc_le_eq le_less)
  have "concat (map (\<lambda>i. filter (\<lambda>x. f x = i) ?rest) [Suc j..<n]) = ?rest"
    using Suc.hyps(2) Suc.prems(1,3) by (intro Suc.hyps(1) bound) (auto simp: sorted_filter)
  moreover have "map (\<lambda>i. filter (\<lambda>x. f x = i) ?rest) [Suc j..<n] = map (\<lambda>i. filter (\<lambda>x. f x = i) xs) [Suc j..<n]"
    by (auto intro!: filter_cong)
  moreover have "xs = filter (\<lambda>x. f x = j) xs @ ?rest"
    using takeWhile_min_filter [of f xs j] dropWhile_min_filter [of f xs j] Suc.prems(1,2)
    by (metis takeWhile_dropWhile_id)
  ultimately have "concat (map (\<lambda>i. filter (\<lambda>x. f x = i) xs) (j # [Suc j..<n])) = xs" by (metis concat.simps(2) list.map(2))
  thus ?case using Suc.hyps(2) by (simp add: upt_conv_Cons)
qed

lemma concat_slots:
  assumes "below_prefix prefix xs" "sorted (map fst xs)" "length prefix < MAX_DEPTH"
  shows "concat (map (\<lambda>i. slot_of (length prefix) i xs) [0..<16]) = xs"
  using concat_filters [OF nibs_sorted [OF assms], of 0 16] nib_less by (simp add: slot_of_def)

end
