(* ===== verification/LittleEndian.thy ===== *)
theory LittleEndian
  imports Prelude
begin

text \<open>Unsigned integers as little-endian bytes (\<^verbatim>\<open>to_le_bytes\<close>, \<^verbatim>\<open>from_le_bytes\<close>).\<close>

fun le_bytes :: "nat \<Rightarrow> nat \<Rightarrow> bytes" where
  "le_bytes 0 n = []"
| "le_bytes (Suc m) n = char_of (n mod 256) # le_bytes m (n div 256)"

fun le_value :: "bytes \<Rightarrow> nat" where
  "le_value [] = 0"
| "le_value (c # cs) = of_char c + 256 * le_value cs"

lemma length_le_bytes [simp]: "length (le_bytes m n) = m"
  by (induction m arbitrary: n) simp_all

lemma le_value_bytes: "n < 256 ^ m \<Longrightarrow> le_value (le_bytes m n) = n"
proof (induction m arbitrary: n)
  case (Suc m)
  have "n div 256 < 256 ^ m" using Suc.prems by (intro less_mult_imp_div_less) (simp add: mult.commute)
  thus ?case using Suc.IH [of "n div 256"] by simp
qed simp

lemma le_value_less: "le_value cs < 256 ^ length cs"
proof (induction cs)
  case (Cons c cs)
  have "(of_char c :: nat) mod 256 < 256" by (rule mod_less_divisor) simp
  hence "(of_char c :: nat) < 256" by simp
  moreover have "Suc (le_value cs) \<le> 256 ^ length cs" using Cons by simp
  hence "256 * Suc (le_value cs) \<le> 256 * 256 ^ length cs" by (rule mult_le_mono2)
  moreover have "x + 256 * v < y" if "x < 256" "256 * Suc v \<le> y" for x v y :: nat using that by simp
  ultimately show ?case unfolding le_value.simps length_Cons power_Suc by blast
qed simp

end
