(* ===== verification/RadixCodec.thy ===== *)
theory RadixCodec
  imports RadixIndex LittleEndian
begin

text \<open>
  What the theorems about the index assume of the node codec and the object hash, and a codec that has it.
\<close>

section \<open>What the codec and the hash promise\<close>

fun node_typed :: "index_node \<Rightarrow> bool" where
  "node_typed (Leaf es) \<longleftrightarrow> (\<forall>e\<in>set es. length (fst e) = 32 \<and> length (snd e) < 2 ^ 64)"
| "node_typed (Branch cs) \<longleftrightarrow> length cs = 16 \<and> (\<forall>c. Some c \<in> set cs \<longrightarrow> length (cr_hash c) = 32 \<and> cr_count c < 2 ^ 64)"

text \<open>A node round trips, what decodes has the shape of the Rust type, a hash has 32 bytes, and a branch, and a
  leaf of one entry within its bound, fit a node.\<close>

definition codec_ok :: "node_env \<Rightarrow> bool" where
  "codec_ok env \<longleftrightarrow>
    (\<forall>n. node_typed n \<longrightarrow> (\<exists>b. ne_encode env n = Some b \<and> ne_decode env b = Some n)) \<and>
    (\<forall>b n. ne_decode env b = Some n \<longrightarrow> node_typed n) \<and>
    (\<forall>b. length (ne_hash env b) = 32) \<and>
    (\<forall>cs b. node_typed (Branch cs) \<longrightarrow> ne_encode env (Branch cs) = Some b \<longrightarrow> length b \<le> MAX_NODE_BYTES) \<and>
    (\<forall>e b. node_typed (Leaf [e]) \<longrightarrow> length (snd e) \<le> MAX_VALUE_BYTES \<longrightarrow> ne_encode env (Leaf [e]) = Some b \<longrightarrow>
      length b \<le> MAX_NODE_BYTES)"

section \<open>A codec\<close>

definition demo_entry :: "index_entry \<Rightarrow> bytes" where
  "demo_entry e = fst e @ le_bytes 8 (length (snd e)) @ snd e"

definition demo_slot :: "child_ref option \<Rightarrow> bytes" where
  "demo_slot s = (case s of None \<Rightarrow> ''N'' | Some c \<Rightarrow> ''S'' @ cr_hash c @ le_bytes 8 (cr_count c))"

fun demo_node_encode :: "index_node \<Rightarrow> bytes" where
  "demo_node_encode (Leaf es) = ''L'' @ concat (map demo_entry es)"
| "demo_node_encode (Branch cs) = ''B'' @ concat (map demo_slot cs)"

function demo_index_entries :: "bytes \<Rightarrow> index_entry list option" where
  "demo_index_entries b =
    (if b = [] then Some []
     else if length b < 40 then None
     else let n = le_value (take 8 (drop 32 b)); rest = drop 40 b in
       if length rest < n then None
       else map_option ((#) (take 32 b, take n rest)) (demo_index_entries (drop n rest)))"
  by pat_completeness auto
termination
  by (relation "measure length") auto

declare demo_index_entries.simps [simp del]

fun demo_slots :: "nat \<Rightarrow> bytes \<Rightarrow> child_ref option list option" where
  "demo_slots 0 b = (if b = [] then Some [] else None)"
| "demo_slots (Suc m) b =
    (if b = [] then None
     else if hd b = CHR ''N'' then map_option ((#) None) (demo_slots m (tl b))
     else if hd b = CHR ''S'' \<and> 40 \<le> length (tl b) then
       map_option ((#) (Some \<lparr>cr_hash = take 32 (tl b), cr_count = le_value (take 8 (drop 32 (tl b)))\<rparr>)) (demo_slots m (drop 40 (tl b)))
     else None)"

definition demo_node_decode :: "bytes \<Rightarrow> index_node option" where
  "demo_node_decode b =
    (if b = [] then None
     else if hd b = CHR ''L'' then map_option Leaf (demo_index_entries (tl b))
     else if hd b = CHR ''B'' then map_option Branch (demo_slots 16 (tl b))
     else None)"

definition demo_node_env :: node_env where
  "demo_node_env = \<lparr>ne_encode = (\<lambda>n. Some (demo_node_encode n)), ne_decode = demo_node_decode, ne_hash = (\<lambda>_. replicate 32 CHR ''h'')\<rparr>"

lemma demo_entries_round:
  "\<forall>e\<in>set es. length (fst e) = 32 \<and> length (snd e) < 2 ^ 64 \<Longrightarrow> demo_index_entries (concat (map demo_entry es)) = Some es"
proof (induction es)
  case Nil
  show ?case by (subst demo_index_entries.simps) simp
next
  case (Cons e es)
  have v: "le_value (le_bytes 8 (length (snd e))) = length (snd e)" using Cons.prems by (intro le_value_bytes) simp
  have b: "concat (map demo_entry (e # es)) = fst e @ le_bytes 8 (length (snd e)) @ snd e @ concat (map demo_entry es)"
    by (simp add: demo_entry_def)
  have e: "length (fst e) = 32" "fst e \<noteq> []" using Cons.prems by auto
  show ?case unfolding b using Cons v e by (subst demo_index_entries.simps) (simp add: Let_def)
qed

lemma demo_entries_typed: "demo_index_entries b = Some es \<Longrightarrow> e \<in> set es \<Longrightarrow> length (fst e) = 32 \<and> length (snd e) < 2 ^ 64"
proof (induction b arbitrary: es rule: demo_index_entries.induct)
  case (1 b)
  show ?case
  proof (cases "b = []")
    case True
    thus ?thesis using 1(2,3) by (subst (asm) demo_index_entries.simps) simp
  next
    case False
    let ?n = "le_value (take 8 (drop 32 b))"
    obtain fs where fs: "40 \<le> length b" "?n \<le> length (drop 40 b)" "demo_index_entries (drop ?n (drop 40 b)) = Some fs"
      "es = (take 32 b, take ?n (drop 40 b)) # fs"
      using 1(2) False by (subst (asm) demo_index_entries.simps) (auto simp: Let_def split: if_splits)
    have "?n < 256 ^ length (take 8 (drop 32 b))" by (rule le_value_less)
    hence "?n < 2 ^ 64" using fs(1) by simp
    moreover have "e \<in> set fs \<Longrightarrow> length (fst e) = 32 \<and> length (snd e) < 2 ^ 64" using 1(1) [OF False] fs by auto
    ultimately show ?thesis using 1(3) fs by auto
  qed
qed

lemma demo_slots_round:
  "(\<forall>c. Some c \<in> set cs \<longrightarrow> length (cr_hash c) = 32 \<and> cr_count c < 2 ^ 64) \<Longrightarrow> demo_slots (length cs) (concat (map demo_slot cs)) = Some cs"
proof (induction cs)
  case (Cons s cs)
  show ?case
  proof (cases s)
    case None
    thus ?thesis using Cons by (simp add: demo_slot_def)
  next
    case (Some c)
    have "le_value (le_bytes 8 (cr_count c)) = cr_count c" using Cons.prems Some by (intro le_value_bytes) simp
    thus ?thesis using Cons Some by (simp add: demo_slot_def)
  qed
qed simp

lemma demo_slots_typed:
  "demo_slots m b = Some cs \<Longrightarrow> length cs = m \<and> (\<forall>c. Some c \<in> set cs \<longrightarrow> length (cr_hash c) = 32 \<and> cr_count c < 2 ^ 64)"
proof (induction m b arbitrary: cs rule: demo_slots.induct)
  case (2 m b)
  have "le_value (take 8 (drop 32 (tl b))) < 256 ^ length (take 8 (drop 32 (tl b)))" by (rule le_value_less)
  thus ?case using 2 by (auto split: if_splits)
qed (auto split: if_splits)

lemma demo_slot_length: "(\<forall>c. Some c \<in> set cs \<longrightarrow> length (cr_hash c) = 32) \<Longrightarrow> length (concat (map demo_slot cs)) \<le> 41 * length cs"
proof (induction cs)
  case (Cons s cs)
  have "length (demo_slot s) \<le> 41" using Cons.prems by (cases s) (simp_all add: demo_slot_def)
  moreover have "length (concat (map demo_slot cs)) \<le> 41 * length cs" using Cons by simp
  ultimately show ?case by simp
qed simp

lemma demo_codec_ok: "codec_ok demo_node_env"
proof -
  have "demo_node_decode (demo_node_encode n) = Some n" if "node_typed n" for n
    using that demo_entries_round demo_slots_round by (cases n) (fastforce simp: demo_node_decode_def)+
  moreover have "node_typed n" if "demo_node_decode b = Some n" for b n
    using that demo_entries_typed demo_slots_typed by (fastforce simp: demo_node_decode_def split: if_splits)
  moreover have "length (demo_node_encode (Branch cs)) \<le> MAX_NODE_BYTES" if "node_typed (Branch cs)" for cs
    using demo_slot_length [of cs] that by (simp add: MAX_NODE_BYTES_def)
  moreover have "length (demo_node_encode (Leaf [e])) \<le> MAX_NODE_BYTES" if "node_typed (Leaf [e])" "length (snd e) \<le> MAX_VALUE_BYTES" for e
    using that by (simp add: demo_entry_def MAX_NODE_BYTES_def MAX_VALUE_BYTES_def)
  ultimately show ?thesis unfolding codec_ok_def demo_node_env_def by simp
qed

text \<open>A small index: one leaf, and the source that stores it.\<close>

definition demo_index :: "index_entry list" where
  "demo_index = [(replicate 32 CHR ''a'', ''one''), (replicate 32 CHR ''b'', ''two'')]"

definition demo_index_leaf :: bytes where
  "demo_index_leaf = demo_node_encode (Leaf demo_index)"

definition demo_root :: "child_ref option" where
  "demo_root = Some \<lparr>cr_hash = replicate 32 CHR ''h'', cr_count = 2\<rparr>"

lemma demo_build: "build_index demo_node_env demo_index = Inr (demo_root, [demo_index_leaf])"
proof -
  have l: "length demo_index_leaf = 87" by (simp add: demo_index_leaf_def demo_index_def demo_entry_def)
  have s: "sort_key fst demo_index = demo_index" by (intro sort_key_id_if_sorted) (simp add: demo_index_def numeral_eq_Suc)
  have d: "distinct (map fst demo_index)" by (simp add: demo_index_def)
  have "build demo_node_env demo_index 0 = Inr (demo_root, [demo_index_leaf])"
    using l by (subst build.simps) (simp add: demo_index_def demo_index_leaf_def demo_root_def fits_leaf_def node_encode_def emit_def demo_node_env_def
      count_entries_def checked_u64_def MAX_DEPTH_def MAX_LEAF_ENTRIES_def MAX_NODE_BYTES_def)
  thus ?thesis using s d by (simp add: build_index_def Let_def) (simp add: demo_index_def MAX_VALUE_BYTES_def)
qed

end
