(* ===== verification/RadixBuild.thy ===== *)
theory RadixBuild
  imports RadixNibbles RadixCodec
begin

text \<open>
  The canonical tree of a set of entries (\<open>node_of\<close>, one level at a time: \<open>build_shaped\<close>), what a source
  that stores it answers, and that changing a stored index is rebuilding it from the changed set.
\<close>

section \<open>Entries\<close>

text \<open>A set of entries that may stand below a prefix.\<close>

definition entries_ok :: "nat list \<Rightarrow> index_entry list \<Rightarrow> bool" where
  "entries_ok prefix xs \<longleftrightarrow> below_prefix prefix xs \<and> bm_wf xs \<and> length xs < 2 ^ 64
    \<and> (\<forall>e\<in>set xs. length (snd e) \<le> MAX_VALUE_BYTES)"

lemma entries_ok_slot: "entries_ok prefix xs \<Longrightarrow> entries_ok (prefix @ [i]) (slot_of (length prefix) i xs)"
  unfolding entries_ok_def using below_slot bm_wf_slot
  by (auto simp: slot_of_def intro: le_less_trans [OF length_filter_le])

lemma entries_ok_typed: "entries_ok prefix xs \<Longrightarrow> node_typed (Leaf xs)"
  by (auto simp: entries_ok_def below_prefix_def MAX_VALUE_BYTES_def dest!: bspec)

lemma node_encode_typed:
  assumes "codec_ok env" "node_typed n"
  obtains b where "node_encode env n = Inr b" "ne_encode env n = Some b" "ne_decode env b = Some n"
  using assms by (auto simp: codec_ok_def node_encode_def)

lemma decode_encoded:
  assumes "codec_ok env" "node_typed n" "node_encode env n = Inr b" "length b \<le> MAX_NODE_BYTES"
  shows "node_decode_canonical env b = Inr n"
proof -
  obtain b' where "node_encode env n = Inr b'" "ne_decode env b' = Some n" using node_encode_typed [OF assms(1,2)] .
  thus ?thesis using assms(3,4) by (simp add: node_decode_canonical_def)
qed

lemma fits_leaf_total:
  assumes "codec_ok env" "entries_ok prefix xs"
  obtains f where "fits_leaf env xs depth = Inr f"
  using node_encode_typed [OF assms(1) entries_ok_typed [OF assms(2)]]
  by (metis fits_leaf_def try_then_simps(2))

section \<open>The shape of a built index\<close>

definition root_of :: "node_env \<Rightarrow> index_entry list \<Rightarrow> nat \<Rightarrow> child_ref option" where
  "root_of env xs depth = fst (projr (build env xs depth))"

definition nodes_of :: "node_env \<Rightarrow> index_entry list \<Rightarrow> nat \<Rightarrow> bytes list" where
  "nodes_of env xs depth = snd (projr (build env xs depth))"

abbreviation "slots xs depth \<equiv> (\<lambda>i. slot_of depth i xs)"

definition branch_of :: "node_env \<Rightarrow> index_entry list \<Rightarrow> nat \<Rightarrow> index_node" where
  "branch_of env xs depth = Branch (map (\<lambda>i. root_of env (slot_of depth i xs) (Suc depth)) [0..<16])"

definition node_of :: "node_env \<Rightarrow> index_entry list \<Rightarrow> nat \<Rightarrow> index_node" where
  \<comment> \<open>the root node of the canonical tree of a set\<close>
  "node_of env xs depth = (if fits_leaf env xs depth = Inr True then Leaf xs else branch_of env xs depth)"

definition bytes_of :: "node_env \<Rightarrow> index_node \<Rightarrow> bytes" where
  "bytes_of env n = projr (node_encode env n)"

lemma build_empty: "build env [] depth = Inr (None, [])"
  by (subst build.simps) simp

lemma slot_count_simps [simp]: "slot_count None = 0" "slot_count (Some c) = cr_count c"
  by (simp_all add: slot_count_def)

lemma length_slots:
  assumes "below_prefix prefix xs" "sorted (map fst xs)" "length prefix < MAX_DEPTH"
  shows "(\<Sum>i<16. length (slot_of (length prefix) i xs)) = length xs"
proof -
  have "length (concat (map (slots xs (length prefix)) [0..<16])) = (\<Sum>i<16. length (slot_of (length prefix) i xs))"
    by (simp add: length_concat o_def interv_sum_list_conv_sum_set_nat atLeast0LessThan)
  thus ?thesis using concat_slots [OF assms] by simp
qed

lemma partial_slots:
  assumes "below_prefix prefix xs" "sorted (map fst xs)" "length prefix < MAX_DEPTH" "j \<le> 16"
  shows "(\<Sum>i<j. length (slot_of (length prefix) i xs)) \<le> length xs"
  using length_slots [OF assms(1-3)] assms(4) by (metis lessThan_subset_iff finite_lessThan sum_mono2 le0)

lemma root_of_empty [simp]: "root_of env [] depth = None" "nodes_of env [] depth = []"
  by (simp_all add: root_of_def nodes_of_def build_empty)

definition built :: "node_env \<Rightarrow> index_entry list \<Rightarrow> nat \<Rightarrow> bool" where
  "built env xs depth \<longleftrightarrow> build env xs depth = Inr (root_of env xs depth, nodes_of env xs depth)
    \<and> slot_count (root_of env xs depth) = length xs
    \<and> (\<forall>c. root_of env xs depth = Some c \<longrightarrow> length (cr_hash c) = 32)"

lemma built_empty: "built env [] depth"
  by (simp add: built_def build_empty)

lemma built_nonempty: "built env xs depth \<Longrightarrow> xs \<noteq> [] \<Longrightarrow> \<exists>c. root_of env xs depth = Some c \<and> cr_count c = length xs"
  by (cases "root_of env xs depth") (auto simp: built_def)

text \<open>The state of the building loop before it comes to a slot.\<close>

definition build_state :: "node_env \<Rightarrow> index_entry list \<Rightarrow> nat \<Rightarrow> nat \<Rightarrow> child_ref option list \<times> nat \<times> bytes list" where
  "build_state env xs depth j =
    (map (\<lambda>i. root_of env (slot_of depth i xs) (Suc depth)) [0..<j] @ replicate (16 - j) None,
     \<Sum>i<j. length (slot_of depth i xs),
     concat (map (\<lambda>i. nodes_of env (slot_of depth i xs) (Suc depth)) [0..<j]))"

lemma update_next:
  "i < n \<Longrightarrow> (map f [0..<i] @ replicate (n - i) None)[i := x] = map f [0..<i] @ x # replicate (n - Suc i) None"
  by (simp add: list_update_append Suc_diff_Suc [symmetric])

lemma build_loop:
  assumes "entries_ok prefix xs" "length prefix < MAX_DEPTH"
    and "\<And>i. i < 16 \<Longrightarrow> built env (slot_of (length prefix) i xs) (Suc (length prefix))"
  shows "runs_loop (length prefix)
      (\<lambda>slot slice (children, total, written).
         try_then (next_depth (length prefix)) (\<lambda>d.
         try_then (build env slice d) (\<lambda>(child, more).
         try_then (case child of None \<Rightarrow> Inr total | Some c \<Rightarrow> checked_u64 Bounds (total + cr_count c)) (\<lambda>total.
           Inr (children[slot := child], total, written @ more)))))
      xs (replicate FANOUT None, 0, []) =
    Inr (map (\<lambda>i. root_of env (slot_of (length prefix) i xs) (Suc (length prefix))) [0..<16], length xs,
      concat (map (\<lambda>i. nodes_of env (slot_of (length prefix) i xs) (Suc (length prefix))) [0..<16]))"
    (is "runs_loop _ ?body _ _ = _")
proof -
  have ok: "below_prefix prefix xs" "sorted (map fst xs)" "length xs < 2 ^ 64"
    using assms(1) by (auto simp: entries_ok_def bm_wf_sorted)
  let ?s = "build_state env xs (length prefix)"
  have "slot_loop (slots xs (length prefix)) ?body [0..<16] (?s 0) = Inr (?s 16)"
  proof (rule slot_loop_states)
    fix i :: nat assume i: "i < 16" "slot_of (length prefix) i xs \<noteq> []"
    obtain c where c: "root_of env (slot_of (length prefix) i xs) (Suc (length prefix)) = Some c"
      "cr_count c = length (slot_of (length prefix) i xs)" using built_nonempty [OF assms(3) [OF i(1)] i(2)] by blast
    have "(\<Sum>k<Suc i. length (slot_of (length prefix) k xs)) < 2 ^ 64"
      using partial_slots [OF ok(1,2) assms(2), of "Suc i"] i(1) ok(3) by linarith
    thus "?body i (slot_of (length prefix) i xs) (?s i) = Inr (?s (Suc i))"
      using assms(3) [OF i(1)] c i(1) assms(2)
      by (simp add: build_state_def built_def next_depth_def checked_u64_def update_next Suc_le_eq not_less)
  next
    fix i :: nat assume i: "i < 16" "slot_of (length prefix) i xs = []"
    have "replicate (16 - i) (None :: child_ref option) = None # replicate (16 - Suc i) None"
      using i(1) by (metis Suc_diff_Suc replicate_Suc)
    thus "?s (Suc i) = ?s i" using i by (simp add: build_state_def)
  qed simp
  moreover have "?s 0 = (replicate FANOUT None, 0, [])" by (simp add: build_state_def FANOUT_def)
  ultimately show ?thesis
    using runs_loop_slots [OF ok(1,2) assms(2), of ?body] length_slots [OF ok(1,2) assms(2)] by (simp add: build_state_def)
qed

text \<open>The canonical tree, one level at a time.\<close>

definition leafy :: "node_env \<Rightarrow> index_entry list \<Rightarrow> nat \<Rightarrow> bool" where
  "leafy env xs depth \<longleftrightarrow> fits_leaf env xs depth = Inr True"

lemma not_leafy_depth: "\<not> leafy env xs depth \<Longrightarrow> depth < MAX_DEPTH"
  by (rule ccontr) (simp add: leafy_def fits_leaf_def)

definition shaped :: "node_env \<Rightarrow> index_entry list \<Rightarrow> nat \<Rightarrow> bool" where
  "shaped env xs depth \<longleftrightarrow>
    node_typed (node_of env xs depth) \<and>
    node_encode env (node_of env xs depth) = Inr (bytes_of env (node_of env xs depth)) \<and>
    length (bytes_of env (node_of env xs depth)) \<le> MAX_NODE_BYTES \<and>
    build env xs depth = Inr
      (Some \<lparr>cr_hash = ne_hash env (bytes_of env (node_of env xs depth)), cr_count = length xs\<rparr>,
       (if leafy env xs depth then []
        else concat (map (\<lambda>i. nodes_of env (slot_of depth i xs) (Suc depth)) [0..<16]))
       @ [bytes_of env (node_of env xs depth)])"

lemma shaped_built: "codec_ok env \<Longrightarrow> shaped env xs depth \<Longrightarrow> built env xs depth"
  by (simp add: shaped_def built_def root_of_def nodes_of_def codec_ok_def)

lemma leaf_shaped:
  assumes "codec_ok env" "entries_ok prefix xs" "xs \<noteq> []" "leafy env xs (length prefix)"
  shows "shaped env xs (length prefix)"
proof -
  obtain b where b: "node_encode env (Leaf xs) = Inr b" "ne_encode env (Leaf xs) = Some b"
    using node_encode_typed [OF assms(1) entries_ok_typed [OF assms(2)]] by blast
  have "length b \<le> MAX_NODE_BYTES"
  proof (cases "length xs \<le> 1 \<or> MAX_DEPTH \<le> length prefix")
    case True
    hence "length xs \<le> 1" using full_prefix_single assms(2) by (auto simp: entries_ok_def)
    then obtain e where e: "xs = [e]" using assms(3) by (cases xs) auto
    have "length (snd e) \<le> MAX_VALUE_BYTES" using assms(2) e by (simp add: entries_ok_def)
    thus ?thesis using assms(1) b(2) entries_ok_typed [OF assms(2)] e unfolding codec_ok_def by blast
  next
    case False
    thus ?thesis using assms(4) b(1) by (auto simp: leafy_def fits_leaf_def split: if_splits)
  qed
  moreover have "build env xs (length prefix) = Inr (Some \<lparr>cr_hash = ne_hash env b, cr_count = length xs\<rparr>, [b])"
    using assms b by (subst build.simps)
      (simp add: leafy_def count_entries_def checked_u64_def emit_def entries_ok_def)
  ultimately show ?thesis
    using assms(4) b entries_ok_typed [OF assms(2)] by (simp add: shaped_def node_of_def leafy_def bytes_of_def)
qed

lemma branch_shaped:
  assumes "codec_ok env" "entries_ok prefix xs" "xs \<noteq> []" "\<not> leafy env xs (length prefix)"
    and "\<And>i. i < 16 \<Longrightarrow> built env (slot_of (length prefix) i xs) (Suc (length prefix))"
  shows "shaped env xs (length prefix)"
proof -
  have fits: "fits_leaf env xs (length prefix) = Inr False"
    using assms(4) fits_leaf_total [OF assms(1,2)] by (metis (full_types) leafy_def)
  have depth: "length prefix < MAX_DEPTH" by (rule not_leafy_depth [OF assms(4)])
  let ?B = "branch_of env xs (length prefix)"
  have "cr_count c < 2 ^ 64 \<and> length (cr_hash c) = 32"
    if "root_of env (slot_of (length prefix) i xs) (Suc (length prefix)) = Some c" "i < 16" for c i
    using assms(5) [OF that(2)] that(1) assms(2)
    by (auto simp: built_def entries_ok_def slot_of_def intro: le_less_trans [OF length_filter_le])
  hence typed: "node_typed ?B" by (auto simp: branch_of_def)
  then obtain b where b: "node_encode env ?B = Inr b" "ne_encode env ?B = Some b" using node_encode_typed [OF assms(1)] by blast
  have "length b \<le> MAX_NODE_BYTES" using assms(1) typed b(2) unfolding codec_ok_def branch_of_def by blast
  moreover have "build env xs (length prefix) = Inr (Some \<lparr>cr_hash = ne_hash env b, cr_count = length xs\<rparr>,
      concat (map (\<lambda>i. nodes_of env (slot_of (length prefix) i xs) (Suc (length prefix))) [0..<16]) @ [b])"
    using fits assms(3) b build_loop [OF assms(2) depth assms(5)]
    by (subst build.simps) (simp add: emit_def branch_of_def)
  ultimately show ?thesis
    using assms(4) b typed by (simp add: shaped_def node_of_def leafy_def bytes_of_def)
qed

lemma build_shaped:
  assumes "codec_ok env" "entries_ok prefix xs" "xs \<noteq> []" "length prefix \<le> MAX_DEPTH"
  shows "shaped env xs (length prefix)"
  using assms(2-4)
proof (induction "MAX_DEPTH - length prefix" arbitrary: prefix xs rule: less_induct)
  case less
  show ?case
  proof (cases "leafy env xs (length prefix)")
    case True
    thus ?thesis by (rule leaf_shaped [OF assms(1) less.prems(1,2)])
  next
    case False
    hence depth: "length prefix < MAX_DEPTH" by (rule not_leafy_depth)
    have "built env (slot_of (length prefix) i xs) (Suc (length prefix))" for i
    proof (cases "slot_of (length prefix) i xs = []")
      case False
      have "shaped env (slot_of (length prefix) i xs) (length (prefix @ [i]))"
        using depth False by (intro less.hyps entries_ok_slot less.prems) simp_all
      thus ?thesis using shaped_built [OF assms(1)] by simp
    qed (simp add: built_empty)
    thus ?thesis using branch_shaped [OF assms(1) less.prems(1,2) False] by blast
  qed
qed

lemma build_built:
  assumes "codec_ok env" "entries_ok prefix xs" "length prefix \<le> MAX_DEPTH"
  shows "built env xs (length prefix)"
  using built_empty shaped_built build_shaped [OF assms(1,2)] assms by (cases "xs = []") auto


section \<open>Reading a stored index\<close>

definition stored :: "node_env \<Rightarrow> node_source \<Rightarrow> index_entry list \<Rightarrow> nat \<Rightarrow> bool" where
  "stored env source xs depth \<longleftrightarrow> (\<forall>b\<in>set (nodes_of env xs depth). source (ne_hash env b) = Some b)"

lemma root_of_shaped:
  "shaped env xs depth \<Longrightarrow> root_of env xs depth =
    Some \<lparr>cr_hash = ne_hash env (bytes_of env (node_of env xs depth)), cr_count = length xs\<rparr>"
  by (simp add: shaped_def root_of_def)

lemma nodes_of_shaped:
  "shaped env xs depth \<Longrightarrow> nodes_of env xs depth =
    (if leafy env xs depth then []
     else concat (map (\<lambda>i. nodes_of env (slot_of depth i xs) (Suc depth)) [0..<16])) @ [bytes_of env (node_of env xs depth)]"
  by (simp add: shaped_def nodes_of_def)

lemma read_root:
  assumes "codec_ok env" "shaped env xs depth" "stored env source xs depth"
  obtains c where "root_of env xs depth = Some c" "cr_count c = length xs" "read_node env source c = Inr (node_of env xs depth)"
    "cr_hash c = ne_hash env (bytes_of env (node_of env xs depth))"
    "source (cr_hash c) = Some (bytes_of env (node_of env xs depth))"
    "node_decode_canonical env (bytes_of env (node_of env xs depth)) = Inr (node_of env xs depth)"
proof -
  have d: "node_decode_canonical env (bytes_of env (node_of env xs depth)) = Inr (node_of env xs depth)"
    using assms(2) by (intro decode_encoded [OF assms(1)]) (auto simp: shaped_def)
  have s: "source (ne_hash env (bytes_of env (node_of env xs depth))) = Some (bytes_of env (node_of env xs depth))"
    using assms(3) nodes_of_shaped [OF assms(2)] by (simp add: stored_def)
  show thesis by (rule that [OF root_of_shaped [OF assms(2)]]) (simp_all add: read_node_def s d)
qed

lemma stored_slot:
  assumes "shaped env xs depth" "stored env source xs depth" "\<not> leafy env xs depth" "i < 16"
  shows "stored env source (slot_of depth i xs) (Suc depth)"
  using assms(2-4) nodes_of_shaped [OF assms(1)] by (auto simp: stored_def)

lemma flatten_slots_simps [simp]:
  "flatten_slots [] = []" "flatten_slots (None # cs) = flatten_slots cs" "flatten_slots (Some c # cs) = c # flatten_slots cs"
  by (simp_all add: flatten_slots_def)

lemma collect_slots:
  assumes "\<And>i. i \<in> set is \<Longrightarrow> F i = [] \<Longrightarrow> r i = None"
    and "\<And>i. i \<in> set is \<Longrightarrow> F i \<noteq> [] \<Longrightarrow> \<exists>c. r i = Some c \<and> f c = Inr (F i)"
  shows "\<exists>parts. collect_result f (flatten_slots (map r is)) = Inr parts \<and> concat parts = concat (map F is)"
  using assms
proof (induction "is")
  case (Cons i "is")
  then obtain parts where parts: "collect_result f (flatten_slots (map r is)) = Inr parts" "concat parts = concat (map F is)" by auto
  show ?case
  proof (cases "F i = []")
    case False
    then obtain c where "r i = Some c" "f c = Inr (F i)" using Cons.prems(2) [of i] by auto
    thus ?thesis using parts by simp
  qed (use Cons.prems(1) [of i] parts in simp)
qed simp

lemma collect_stored:
  assumes "codec_ok env" "entries_ok prefix xs" "xs \<noteq> []" "length prefix \<le> MAX_DEPTH" "stored env source xs (length prefix)"
    and "root_of env xs (length prefix) = Some c"
  shows "collect_entries env source c (length prefix) = Inr xs"
  using assms(2-6)
proof (induction "MAX_DEPTH - length prefix" arbitrary: prefix xs c rule: less_induct)
  case less
  have sh: "shaped env xs (length prefix)" by (rule build_shaped [OF assms(1) less.prems(1-3)])
  have node: "read_node env source c = Inr (node_of env xs (length prefix))"
    using read_root [OF assms(1) sh less.prems(4)] less.prems(5) by (metis option.inject)
  show ?case
  proof (cases "leafy env xs (length prefix)")
    case True
    thus ?thesis using node less.prems(3) by (subst collect_entries.simps) (simp add: node_of_def leafy_def)
  next
    case False
    hence depth: "length prefix < MAX_DEPTH" by (rule not_leafy_depth)
    let ?f = "\<lambda>slot. try_then (next_depth (length prefix)) (\<lambda>d. collect_entries env source slot d)"
    have "\<exists>c. root_of env (slot_of (length prefix) i xs) (Suc (length prefix)) = Some c \<and> ?f c = Inr (slot_of (length prefix) i xs)"
      if i: "i < 16" "slot_of (length prefix) i xs \<noteq> []" for i
    proof -
      have ok: "entries_ok (prefix @ [i]) (slot_of (length prefix) i xs)" by (rule entries_ok_slot [OF less.prems(1)])
      obtain c where c: "root_of env (slot_of (length prefix) i xs) (Suc (length prefix)) = Some c"
        using built_nonempty build_built [OF assms(1) ok] depth i(2) by fastforce
      have "collect_entries env source c (length (prefix @ [i])) = Inr (slot_of (length prefix) i xs)"
        using depth i c stored_slot [OF sh less.prems(4) False i(1)] by (intro less.hyps ok) simp_all
      thus ?thesis using c depth by (simp add: next_depth_def not_less Suc_le_eq)
    qed
    then obtain parts where parts: "collect_result ?f (flatten_slots (map (\<lambda>i. root_of env (slot_of (length prefix) i xs) (Suc (length prefix))) [0..<16])) = Inr parts"
      "concat parts = concat (map (slots xs (length prefix)) [0..<16])"
      using collect_slots [of "[0..<16]" "slots xs (length prefix)" "\<lambda>i. root_of env (slot_of (length prefix) i xs) (Suc (length prefix))" ?f]
      by auto
    have "concat parts = xs"
      using parts(2) concat_slots [of prefix xs] less.prems(1) depth by (simp add: entries_ok_def bm_wf_sorted)
    thus ?thesis using node parts(1) less.prems(3) False
      by (subst collect_entries.simps) (simp add: node_of_def leafy_def branch_of_def)
  qed
qed

section \<open>Merging\<close>

lemma bm_wf_Cons: "bm_wf (x # xs) \<longleftrightarrow> bm_wf xs \<and> (\<forall>y\<in>set xs. fst x < fst y)"
  by (auto simp: bm_wf_def)

lemma map_of_above: "\<forall>y\<in>set xs. (k :: 'k::linorder) < fst y \<Longrightarrow> map_of xs k = None"
  by (induction xs) auto

lemma map_of_change_entry: "map_of (change_entry c) k = (if k = fst c then snd c else None)"
  by (cases c) (auto simp: change_entry_def split: option.splits)

lemma merge_into_get:
  "bm_wf es \<Longrightarrow> bm_wf cs \<Longrightarrow>
    map_of (merge_into es cs) k = (case map_of cs k of None \<Rightarrow> map_of es k | Some v \<Rightarrow> v)"
proof (induction es cs rule: merge_into.induct)
  case (2 c cs)
  hence "map_of cs (fst c) = None" by (intro map_of_above) (auto simp: bm_wf_Cons)
  thus ?case using 2 by (cases c) (auto simp: map_of_change_entry bm_wf_Cons map_add_def split: option.splits)
next
  case (3 e es c cs)
  obtain ke ve kc vc where e: "e = (ke, ve)" "c = (kc, vc)" by (cases e; cases c)
  consider "ke < kc" | "kc < ke" | "ke = kc" by (rule linorder_cases)
  thus ?case
  proof cases
    case 1
    hence "map_of cs ke = None" using 3 e by (intro map_of_above) (auto simp: bm_wf_Cons)
    thus ?thesis using 3 e 1 by (auto simp: bm_wf_Cons split: option.splits)
  next
    case 2
    hence "\<forall>y\<in>set cs. kc < fst y" "\<forall>y\<in>set es. kc < fst y" using 3(4,5) e by (auto simp: bm_wf_Cons)
    hence "map_of cs kc = None" "map_of es kc = None" by (simp_all add: map_of_above)
    thus ?thesis using 3 e 2 by (auto simp: bm_wf_Cons map_of_change_entry map_add_def split: option.splits)
  next
    case eq: 3
    hence "\<forall>y\<in>set cs. kc < fst y" "\<forall>y\<in>set es. kc < fst y" using 3(4,5) e by (auto simp: bm_wf_Cons)
    hence "map_of cs kc = None" "map_of es kc = None" by (simp_all add: map_of_above)
    thus ?thesis using 3 e eq by (auto simp: bm_wf_Cons map_of_change_entry map_add_def split: option.splits)
  qed
qed simp

lemma merge_into_set:
  "set (merge_into es cs) \<subseteq> set es \<union> {(k, v). (k, Some v) \<in> set cs}"
  by (induction es cs rule: merge_into.induct) (auto simp: change_entry_def split: option.splits)

lemma merge_into_keys: "x \<in> set (merge_into es cs) \<Longrightarrow> fst x \<in> fst ` set es \<union> fst ` set cs"
  using merge_into_set [of es cs] by force

lemma bm_wf_change: "bm_wf xs \<Longrightarrow> \<forall>y\<in>set xs. fst c < fst y \<Longrightarrow> bm_wf (change_entry c @ xs)"
  by (auto simp: change_entry_def bm_wf_Cons split: option.splits)

lemma merge_above:
  "\<forall>y\<in>set es. k < fst y \<Longrightarrow> \<forall>y\<in>set cs. k < fst y \<Longrightarrow> \<forall>y\<in>set (merge_into es cs). k < fst y"
proof
  fix y assume a: "\<forall>y\<in>set es. k < fst y" "\<forall>y\<in>set cs. k < fst y" "y \<in> set (merge_into es cs)"
  from merge_into_keys [OF a(3)] show "k < fst y" using a(1,2) by (elim UnE imageE) metis+
qed

lemma above_trans: "\<forall>y\<in>set xs. fst c < fst y \<Longrightarrow> (k :: 'k::linorder) < fst c \<Longrightarrow> \<forall>y\<in>set (c # xs). k < fst y"
  using order.strict_trans by auto

lemma merge_into_wf: "bm_wf es \<Longrightarrow> bm_wf cs \<Longrightarrow> bm_wf (merge_into es cs)"
proof (induction es cs rule: merge_into.induct)
  case (2 c cs)
  thus ?case using merge_above [of "[]" "fst c" cs] by (auto simp: bm_wf_Cons intro: bm_wf_change)
next
  case (3 e es c cs)
  have up: "\<forall>y\<in>set es. fst e < fst y" "\<forall>y\<in>set cs. fst c < fst y" "bm_wf es" "bm_wf cs" using 3(4,5) by (auto simp: bm_wf_Cons)
  consider "fst e < fst c" | "fst c < fst e" | "fst e = fst c" by (rule linorder_cases)
  thus ?case
  proof cases
    case 1
    hence "\<forall>y\<in>set (merge_into es (c # cs)). fst e < fst y" using up by (intro merge_above above_trans) auto
    thus ?thesis using 3(1) 1 up 3(5) by (simp add: bm_wf_Cons)
  next
    case 2
    hence "\<forall>y\<in>set (merge_into (e # es) cs). fst c < fst y" using up by (intro merge_above above_trans) auto
    thus ?thesis using 3(2) 2 up 3(4) by (auto intro!: bm_wf_change)
  next
    case eq: 3
    hence "\<forall>y\<in>set (merge_into es cs). fst c < fst y" using up by (intro merge_above) auto
    thus ?thesis using 3(3) eq up by (auto intro!: bm_wf_change)
  qed
qed simp

lemma merge_into_length:
  "length (merge_into es cs) \<le> length es + length cs"
  "length es \<le> length (merge_into es cs) + length (filter (\<lambda>c. snd c = None) cs)"
  by (induction es cs rule: merge_into.induct) (auto simp: change_entry_def split: option.splits)

lemma map_of_slot: "map_of (slot_of d i xs) k = (if nib k d = i then map_of xs k else None)"
  by (induction xs) (auto simp: slot_of_def)

lemma slot_of_merge:
  assumes "bm_wf es" "bm_wf cs"
  shows "slot_of d i (merge_into es cs) = merge_into (slot_of d i es) (slot_of d i cs)"
  using assms by (intro bm_ext bm_wf_slot merge_into_wf)
    (auto simp: fun_eq_iff map_of_slot merge_into_get bm_wf_slot split: option.splits)

lemma merge_into_Nil: "merge_into [] cs = concat (map change_entry cs)"
  by (induction cs) simp_all

definition changes_ok :: "nat list \<Rightarrow> index_change list \<Rightarrow> bool" where
  "changes_ok prefix cs \<longleftrightarrow> below_prefix prefix cs \<and> bm_wf cs
    \<and> (\<forall>k v. (k, Some v) \<in> set cs \<longrightarrow> length v \<le> MAX_VALUE_BYTES)"

lemma changes_ok_slot: "changes_ok prefix cs \<Longrightarrow> changes_ok (prefix @ [i]) (slot_of (length prefix) i cs)"
  unfolding changes_ok_def using below_slot bm_wf_slot by (auto simp: slot_of_def)

lemma merge_ok:
  assumes "entries_ok prefix xs" "changes_ok prefix cs" "length xs + length cs < 2 ^ 64"
  shows "entries_ok prefix (merge_into xs cs)"
  using assms merge_into_set [of xs cs] merge_into_length(1) [of xs cs] merge_into_wf [of xs cs]
  unfolding entries_ok_def changes_ok_def below_prefix_def by fastforce


section \<open>Changing an index is rebuilding it\<close>

text \<open>What \<open>descend\<close> promises of one subtree: the root is the root a build from scratch of the changed set
  gives, and every node of the new tree was written now or was a node of the old one.\<close>

definition rebuilds :: "node_env \<Rightarrow> node_source \<Rightarrow> index_entry list \<Rightarrow> nat \<Rightarrow> index_change list \<Rightarrow> bool" where
  "rebuilds env source xs depth cs \<longleftrightarrow>
    (\<exists>written. descend env source (root_of env xs depth) depth cs = Inr (root_of env (merge_into xs cs) depth, written)
      \<and> set (nodes_of env (merge_into xs cs) depth) \<subseteq> set (nodes_of env xs depth) \<union> set written)"

definition descend_state ::
  "node_env \<Rightarrow> node_source \<Rightarrow> index_entry list \<Rightarrow> nat \<Rightarrow> index_change list \<Rightarrow> nat \<Rightarrow> child_ref option list \<times> nat \<times> bytes list" where
  "descend_state env source xs depth cs j =
    (map (\<lambda>i. root_of env (slot_of depth i (merge_into xs cs)) (Suc depth)) [0..<j]
       @ map (\<lambda>i. root_of env (slot_of depth i xs) (Suc depth)) [j..<16],
     (\<Sum>i<j. length (slot_of depth i (merge_into xs cs))) + (\<Sum>i\<in>{j..<16}. length (slot_of depth i xs)),
     concat (map (\<lambda>i. snd (projr (descend env source (root_of env (slot_of depth i xs) (Suc depth)) (Suc depth) (slot_of depth i cs)))) [0..<j]))"

lemma descend_Nil: "descend env source node depth [] = Inr (node, [])"
  by (subst descend.simps) simp

lemma rebuilds_Inr:
  "rebuilds env source xs depth cs \<Longrightarrow> descend env source (root_of env xs depth) depth cs =
    Inr (root_of env (merge_into xs cs) depth, snd (projr (descend env source (root_of env xs depth) depth cs)))"
  by (auto simp: rebuilds_def)

lemma partial_total:
  assumes "below_prefix prefix xs" "sorted (map fst xs)" "below_prefix prefix cs" "sorted (map fst cs)"
    and "length prefix < MAX_DEPTH" "bm_wf xs" "bm_wf cs" "j \<le> 16"
  shows "(\<Sum>i<j. length (slot_of (length prefix) i (merge_into xs cs))) + (\<Sum>i\<in>{j..<16}. length (slot_of (length prefix) i xs))
    \<le> length xs + length cs"
proof -
  let ?n = "\<lambda>i. length (slot_of (length prefix) i xs)" and ?c = "\<lambda>i. length (slot_of (length prefix) i cs)"
  have "(\<Sum>i<j. length (slot_of (length prefix) i (merge_into xs cs))) \<le> (\<Sum>i<j. ?n i + ?c i)"
    using merge_into_length(1) by (intro sum_mono) (simp add: slot_of_merge [OF assms(6,7)])
  moreover have "(\<Sum>i\<in>{j..<16}. ?n i) \<le> (\<Sum>i\<in>{j..<16}. ?n i + ?c i)" by (intro sum_mono) simp
  moreover have "(\<Sum>i<j. ?n i + ?c i) + (\<Sum>i\<in>{j..<16}. ?n i + ?c i) = (\<Sum>i<16. ?n i + ?c i)"
    using sum.atLeastLessThan_concat [of 0 j 16 "\<lambda>i. ?n i + ?c i"] assms(8) by (simp add: atLeast0LessThan)
  moreover have "(\<Sum>i<16. ?n i + ?c i) = length xs + length cs"
    using length_slots [OF assms(1,2,5)] length_slots [OF assms(3,4,5)] by (simp add: sum.distrib)
  ultimately show ?thesis by linarith
qed


lemma descend_loop:
  assumes "entries_ok prefix xs" "changes_ok prefix cs" "length xs + length cs < 2 ^ 64" "length prefix < MAX_DEPTH"
    and "\<And>i. i < 16 \<Longrightarrow> built env (slot_of (length prefix) i xs) (Suc (length prefix))"
    and "\<And>i. i < 16 \<Longrightarrow> built env (slot_of (length prefix) i (merge_into xs cs)) (Suc (length prefix))"
    and "\<And>i. i < 16 \<Longrightarrow> rebuilds env source (slot_of (length prefix) i xs) (Suc (length prefix)) (slot_of (length prefix) i cs)"
  shows "runs_loop (length prefix)
      (\<lambda>slot changed (next, total, written).
         try_then (next_depth (length prefix)) (\<lambda>d.
         try_then (descend env source (next ! slot) d changed) (\<lambda>(updated, more).
           if total < slot_count (next ! slot) then Inl CountMismatch
           else try_then (checked_u64 CountMismatch (total - slot_count (next ! slot) + slot_count updated)) (\<lambda>total.
             Inr (next[slot := updated], total, written @ more)))))
      cs (map (\<lambda>i. root_of env (slot_of (length prefix) i xs) (Suc (length prefix))) [0..<16], length xs, []) =
    Inr (descend_state env source xs (length prefix) cs 16)"
    (is "runs_loop _ ?body _ _ = _")
proof -
  have ok: "below_prefix prefix xs" "sorted (map fst xs)" "bm_wf xs" "below_prefix prefix cs" "sorted (map fst cs)" "bm_wf cs"
    using assms(1,2) by (auto simp: entries_ok_def changes_ok_def bm_wf_sorted)
  let ?s = "descend_state env source xs (length prefix) cs"
  let ?r = "\<lambda>i. root_of env (slot_of (length prefix) i xs) (Suc (length prefix))"
  let ?r' = "\<lambda>i. root_of env (slot_of (length prefix) i (merge_into xs cs)) (Suc (length prefix))"
  have "slot_loop (slots cs (length prefix)) ?body [0..<16] (?s 0) = Inr (?s 16)"
  proof (rule slot_loop_states)
    fix i :: nat assume i: "i < 16" "slot_of (length prefix) i cs \<noteq> []"
    have split: "{i..<16} = insert i {Suc i..<16}" using i(1) by auto
    have c: "slot_count (?r i) = length (slot_of (length prefix) i xs)"
      "slot_count (?r' i) = length (slot_of (length prefix) i (merge_into xs cs))"
      using assms(5,6) [OF i(1)] by (simp_all add: built_def)
    obtain w where d: "descend env source (?r i) (Suc (length prefix)) (slot_of (length prefix) i cs) = Inr (?r' i, w)"
      using rebuilds_Inr [OF assms(7) [OF i(1)]] by (simp add: slot_of_merge [OF ok(3,6)])
    have at: "(map ?r' [0..<i] @ map ?r [i..<16]) ! i = ?r i" using i(1) by (simp add: nth_append)
    have up: "(map ?r' [0..<i] @ map ?r [i..<16])[i := ?r' i] = map ?r' [0..<Suc i] @ map ?r [Suc i..<16]"
      using i(1) by (simp add: list_update_append upt_conv_Cons)
    have "fst (snd (?s (Suc i))) < 2 ^ 64"
      using partial_total [OF ok(1,2,4,5) assms(4) ok(3,6), of "Suc i"] i(1) assms(3) by (simp add: descend_state_def)
    moreover obtain T W where s: "?s i = (map ?r' [0..<i] @ map ?r [i..<16], T, W)" "slot_count (?r i) \<le> T"
        "?s (Suc i) = (map ?r' [0..<Suc i] @ map ?r [Suc i..<16], T - slot_count (?r i) + slot_count (?r' i),
           W @ w)"
      using c by (simp add: descend_state_def split d)
    ultimately have "checked_u64 CountMismatch (T - slot_count (?r i) + slot_count (?r' i)) =
        Inr (T - slot_count (?r i) + slot_count (?r' i))" by (simp add: checked_u64_def)
    moreover have "next_depth (length prefix) = Inr (Suc (length prefix))" using assms(4) by (simp add: next_depth_Inr)
    ultimately show "?body i (slot_of (length prefix) i cs) (?s i) = Inr (?s (Suc i))"
      unfolding s(1,3) up [symmetric] using s(2) by (simp add: at d)
  next
    fix i :: nat assume i: "i < 16" "slot_of (length prefix) i cs = []"
    have split: "{i..<16} = insert i {Suc i..<16}" using i(1) by auto
    have "slot_of (length prefix) i (merge_into xs cs) = slot_of (length prefix) i xs"
      using i(2) by (simp add: slot_of_merge [OF ok(3,6)])
    thus "?s (Suc i) = ?s i" using i by (simp add: descend_state_def descend_Nil split upt_conv_Cons)
  qed simp
  moreover have "?s 0 = (map ?r [0..<16], length xs, [])"
    using length_slots [OF ok(1,2) assms(4)] by (simp add: descend_state_def atLeast0LessThan)
  ultimately show ?thesis using runs_loop_slots [OF ok(4,5) assms(4), of ?body] by simp
qed


lemma build_rebuilds:
  assumes "descend env source (root_of env xs depth) depth cs = build env (merge_into xs cs) depth" "built env (merge_into xs cs) depth"
  shows "rebuilds env source xs depth cs"
  using assms by (auto simp: rebuilds_def built_def)

lemma collect_branch:
  assumes "codec_ok env" "entries_ok prefix xs" "xs \<noteq> []" "length prefix \<le> MAX_DEPTH" "stored env source xs (length prefix)"
    and "node_of env xs (length prefix) = Branch children"
  obtains parts where "collect_result (\<lambda>slot. try_then (next_depth (length prefix)) (\<lambda>d. collect_entries env source slot d))
    (flatten_slots children) = Inr parts" "concat parts = xs"
proof -
  have "shaped env xs (length prefix)" by (rule build_shaped [OF assms(1-4)])
  then obtain c where c: "root_of env xs (length prefix) = Some c" "read_node env source c = Inr (Branch children)"
    using read_root [OF assms(1) _ assms(5)] assms(6) by metis
  have "collect_entries env source c (length prefix) = Inr xs" by (rule collect_stored [OF assms(1-5) c(1)])
  thus thesis using c(2) assms(4) that by (subst (asm) collect_entries.simps) (auto simp: result_simps)
qed

lemma descend_branch:
  assumes "node = Some c" "read_node env source c = Inr (Branch children)" "cs \<noteq> []" "depth \<le> MAX_DEPTH" "length cs < 2 ^ 64"
  shows "descend env source node depth cs =
    (if cr_count c - length (filter (\<lambda>c. snd c = None) cs) \<le> MAX_LEAF_ENTRIES then
       try_then (collect_result (\<lambda>slot. try_then (next_depth depth) (\<lambda>d. collect_entries env source slot d)) (flatten_slots children))
         (\<lambda>parts. build env (merge_into (sort_key fst (concat parts)) cs) depth)
     else
       try_then (runs_loop depth
         (\<lambda>slot changed (next, total, written).
           try_then (next_depth depth) (\<lambda>d.
           try_then (descend env source (next ! slot) d changed) (\<lambda>(updated, more).
             if total < slot_count (next ! slot) then Inl CountMismatch
             else try_then (checked_u64 CountMismatch (total - slot_count (next ! slot) + slot_count updated)) (\<lambda>total.
               Inr (next[slot := updated], total, written @ more)))))
         cs (children, cr_count c, [])) (\<lambda>(next, total, written).
       if total = 0 then Inr (None, written)
       else try_then (emit env (Branch next) total) (\<lambda>(child, bytes). Inr (Some child, written @ [bytes]))))"
proof -
  have "length (filter (\<lambda>c. snd c = None) cs) < 2 ^ 64" using assms(5) length_filter_le le_less_trans by blast
  hence "count_entries (length (filter (\<lambda>c. snd c = None) cs)) = Inr (length (filter (\<lambda>c. snd c = None) cs))"
    by (simp add: count_entries_def checked_u64_def)
  thus ?thesis using assms(1-4) by (subst descend.simps) simp
qed

lemma rebuild_branch:
  assumes "codec_ok env" "entries_ok prefix xs" "changes_ok prefix cs" "length xs + length cs < 2 ^ 64" "length prefix < MAX_DEPTH"
    and "\<And>i. i < 16 \<Longrightarrow> rebuilds env source (slot_of (length prefix) i xs) (Suc (length prefix)) (slot_of (length prefix) i cs)"
    and "root_of env xs (length prefix) = Some c" "cr_count c = length xs" "cs \<noteq> []" "xs \<noteq> []"
    and "read_node env source c = Inr (branch_of env xs (length prefix))" "\<not> leafy env xs (length prefix)"
    and "MAX_LEAF_ENTRIES < length xs - length (filter (\<lambda>c. snd c = None) cs)"
  shows "rebuilds env source xs (length prefix) cs"
proof -
  let ?m = "merge_into xs cs" and ?s = "descend_state env source xs (length prefix) cs 16"
  have wf: "bm_wf xs" "bm_wf cs" using assms(2,3) by (auto simp: entries_ok_def changes_ok_def)
  have mok: "entries_ok prefix ?m" by (rule merge_ok [OF assms(2-4)])
  have big: "MAX_LEAF_ENTRIES < length ?m" using assms(13) merge_into_length(2) [of xs cs] by linarith
  hence ne: "?m \<noteq> []" by auto
  have nl: "\<not> leafy env ?m (length prefix)" using big assms(5) by (simp add: leafy_def fits_leaf_def MAX_LEAF_ENTRIES_def)
  have sh: "shaped env ?m (length prefix)" "shaped env xs (length prefix)"
    using build_shaped [OF assms(1) mok ne] build_shaped [OF assms(1,2,10)] assms(5) by simp_all
  have slots: "built env (slot_of (length prefix) i ys) (Suc (length prefix))" if "entries_ok prefix ys" for i ys
    using build_built [OF assms(1) entries_ok_slot [OF that, of i]] assms(5) by simp
  note loop = descend_loop [OF assms(2-5) slots [OF assms(2)] slots [OF mok] assms(6)]
  have total: "fst (snd ?s) = length ?m"
    using length_slots [of prefix ?m] mok assms(5) by (simp add: descend_state_def entries_ok_def bm_wf_sorted)
  have node: "Branch (fst ?s) = node_of env ?m (length prefix)"
    using nl by (simp add: descend_state_def node_of_def leafy_def branch_of_def)
  have d: "descend env source (Some c) (length prefix) cs =
      Inr (root_of env ?m (length prefix), snd (snd ?s) @ [bytes_of env (node_of env ?m (length prefix))])"
    using descend_branch [OF refl assms(11) [unfolded branch_of_def] assms(9), of "length prefix"] assms(4,5,8,13) loop total node ne sh(1)
    by (cases ?s) (simp add: emit_def shaped_def root_of_def)
  have "set (nodes_of env ?m (length prefix)) \<subseteq>
      set (nodes_of env xs (length prefix)) \<union> set (snd (snd ?s) @ [bytes_of env (node_of env ?m (length prefix))])"
  proof
    fix b assume "b \<in> set (nodes_of env ?m (length prefix))"
    then consider "b = bytes_of env (node_of env ?m (length prefix))"
      | i where "i < 16" "b \<in> set (nodes_of env (slot_of (length prefix) i ?m) (Suc (length prefix)))"
      using nodes_of_shaped [OF sh(1)] nl by auto
    thus "b \<in> set (nodes_of env xs (length prefix)) \<union> set (snd (snd ?s) @ [bytes_of env (node_of env ?m (length prefix))])"
    proof cases
      case 2
      hence "b \<in> set (nodes_of env (slot_of (length prefix) i xs) (Suc (length prefix))) \<union> set (snd (projr (descend env source
          (root_of env (slot_of (length prefix) i xs) (Suc (length prefix))) (Suc (length prefix)) (slot_of (length prefix) i cs))))"
        using assms(6) [OF 2(1)] by (auto simp: rebuilds_def slot_of_merge [OF wf])
      thus ?thesis using 2(1) nodes_of_shaped [OF sh(2)] assms(12) by (auto simp: descend_state_def)
    qed simp
  qed
  thus ?thesis using d assms(7) by (auto simp: rebuilds_def)
qed

lemma descend_rebuilds:
  assumes "codec_ok env"
  shows "entries_ok prefix xs \<Longrightarrow> changes_ok prefix cs \<Longrightarrow> length xs + length cs < 2 ^ 64 \<Longrightarrow> length prefix \<le> MAX_DEPTH \<Longrightarrow>
    stored env source xs (length prefix) \<Longrightarrow> rebuilds env source xs (length prefix) cs"
proof (induction "MAX_DEPTH - length prefix" arbitrary: prefix xs cs rule: less_induct)
  case less
  have mb: "built env (merge_into xs cs) (length prefix)"
    using build_built [OF assms merge_ok [OF less.prems(1-3)] less.prems(4)] .
  consider "cs = []" | "cs \<noteq> []" "xs = []" | "cs \<noteq> []" "xs \<noteq> []" by blast
  thus ?case
  proof cases
    case 1
    thus ?thesis by (simp add: rebuilds_def descend_Nil)
  next
    case 2
    thus ?thesis using less.prems(4) by (intro build_rebuilds [OF _ mb]) (subst descend.simps, simp add: merge_into_Nil not_less)
  next
    case 3
    have sh: "shaped env xs (length prefix)" by (rule build_shaped [OF assms less.prems(1) 3(2) less.prems(4)])
    obtain c where c: "root_of env xs (length prefix) = Some c" "cr_count c = length xs"
      "read_node env source c = Inr (node_of env xs (length prefix))"
      by (rule read_root [OF assms sh less.prems(5)])
    show ?thesis
    proof (cases "leafy env xs (length prefix)")
      case True
      thus ?thesis using less.prems(4) 3(1) c
        by (intro build_rebuilds [OF _ mb]) (subst descend.simps, simp add: node_of_def leafy_def not_less)
    next
      case False
      hence br: "node_of env xs (length prefix) = branch_of env xs (length prefix)" by (simp add: node_of_def leafy_def)
      have depth: "length prefix < MAX_DEPTH" by (rule not_leafy_depth [OF False])
      show ?thesis
      proof (cases "length xs - length (filter (\<lambda>c. snd c = None) cs) \<le> MAX_LEAF_ENTRIES")
        case True
        obtain parts where "collect_result (\<lambda>slot. try_then (next_depth (length prefix)) (\<lambda>d. collect_entries env source slot d))
            (flatten_slots (map (\<lambda>i. root_of env (slot_of (length prefix) i xs) (Suc (length prefix))) [0..<16])) = Inr parts" "concat parts = xs"
          using collect_branch [OF assms less.prems(1) 3(2) less.prems(4,5) br [unfolded branch_of_def]] .
        moreover have "sort_key fst xs = xs" using less.prems(1) by (intro sort_key_id_if_sorted) (simp add: entries_ok_def bm_wf_sorted)
        ultimately show ?thesis
          using descend_branch [OF c(1) c(3) [unfolded br branch_of_def] 3(1) less.prems(4)] less.prems(3) True c(2)
          by (intro build_rebuilds [OF _ mb]) simp
      next
        case big: False
        have "rebuilds env source (slot_of (length prefix) i xs) (Suc (length prefix)) (slot_of (length prefix) i cs)" if "i < 16" for i
        proof -
          have "length (slot_of (length prefix) i xs) + length (slot_of (length prefix) i cs) < 2 ^ 64"
            using less.prems(3) length_filter_le [of _ xs] length_filter_le [of _ cs] unfolding slot_of_def
            by (meson add_mono le_less_trans)
          hence "rebuilds env source (slot_of (length prefix) i xs) (length (prefix @ [i])) (slot_of (length prefix) i cs)"
            using depth stored_slot [OF sh less.prems(5) False that]
            by (intro less.hyps entries_ok_slot changes_ok_slot less.prems(1,2)) simp_all
          thus ?thesis by simp
        qed
        thus ?thesis using rebuild_branch [OF assms less.prems(1-3) depth _ c(1,2) 3 c(3) [unfolded br] False] big by simp
      qed
    qed
  qed
qed


section \<open>A batch of changes\<close>

text \<open>What a batch means: the changes made to the set one after the other.\<close>

definition change_set :: "index_change list \<Rightarrow> index_entry list \<Rightarrow> index_entry list" where
  "change_set cs xs = fold (\<lambda>(k, v) m. case v of None \<Rightarrow> bm_remove k m | Some v \<Rightarrow> bm_insert k v m) cs xs"

lemma change_set_snoc:
  "change_set (cs @ [(k, v)]) xs = (case v of None \<Rightarrow> bm_remove k (change_set cs xs) | Some v \<Rightarrow> bm_insert k v (change_set cs xs))"
  by (simp add: change_set_def split: option.split)

lemma change_set_get:
  "map_of (change_set cs xs) k = (case map_of (rev cs) k of None \<Rightarrow> map_of xs k | Some v \<Rightarrow> v)"
  by (induction cs rule: rev_induct)
    (auto simp: change_set_snoc map_simps change_set_def split: option.splits)

lemma change_set_wf: "bm_wf xs \<Longrightarrow> bm_wf (change_set cs xs)"
  by (induction cs rule: rev_induct) (auto simp: change_set_snoc bm_wf_insert bm_wf_remove change_set_def split: option.splits)

lemma map_of_by_filter: "map_of xs k = map_of (filter (\<lambda>x. fst x = k) xs) k"
  by (induction xs) auto

lemma map_of_rev_sort: "map_of (rev (sort_key fst cs)) k = map_of (rev cs) k"
  by (subst (1 2) map_of_by_filter) (simp add: rev_filter [symmetric] sort_key_stable)

lemma keep_last_keys: "set (keep_last cs) \<subseteq> set cs"
  by (induction cs rule: keep_last.induct) auto

lemma keep_last_length: "length (keep_last cs) \<le> length cs"
  by (induction cs rule: keep_last.induct) auto

lemma keep_last_wf: "sorted (map fst cs) \<Longrightarrow> bm_wf (keep_last cs)"
proof (induction cs rule: keep_last.induct)
  case (3 c d cs)
  have "\<forall>x\<in>set (keep_last (d # cs)). fst c < fst x" if "fst d \<noteq> fst c"
  proof
    fix x assume "x \<in> set (keep_last (d # cs))"
    hence "x \<in> set (d # cs)" using keep_last_keys by blast
    hence "fst d \<le> fst x" using 3(3) by auto
    moreover have "fst c < fst d" using 3(3) that by auto
    ultimately show "fst c < fst x" by simp
  qed
  thus ?case using 3 by (auto simp: bm_wf_Cons)
qed (simp_all add: bm_wf_def)

lemma keep_last_get: "sorted (map fst cs) \<Longrightarrow> map_of (keep_last cs) k = map_of (rev cs) k"
proof (induction cs rule: keep_last.induct)
  case (3 c d cs)
  have "map_of (rev (d # cs)) (fst c) = None" if "fst d \<noteq> fst c"
  proof -
    have "\<forall>x\<in>set (d # cs). fst c < fst x"
    proof
      fix x assume "x \<in> set (d # cs)"
      hence "fst d \<le> fst x" using 3(3) by auto
      moreover have "fst c < fst d" using 3(3) that by auto
      ultimately show "fst c < fst x" by simp
    qed
    thus ?thesis by (intro map_of_above) auto
  qed
  moreover have "map_of (rev (d # cs)) (fst c) \<noteq> None" if "fst d = fst c"
    using that [symmetric] by (cases d) (auto simp: map_add_def split: option.splits)
  ultimately show ?case using 3 by (cases c) (auto simp: map_add_def split: option.splits)
qed auto

lemma merge_is_change_set:
  assumes "bm_wf xs"
  shows "merge_into xs (keep_last (sort_key fst cs)) = change_set cs xs"
  using assms by (intro bm_ext merge_into_wf change_set_wf keep_last_wf)
    (auto simp: fun_eq_iff merge_into_get keep_last_wf keep_last_get map_of_rev_sort change_set_get)

lemma build_index_sorted:
  "entries_ok [] xs \<Longrightarrow> build_index env xs = build env xs 0"
  by (auto simp: build_index_def entries_ok_def list_ex_iff not_less bm_wf_sorted bm_wf_distinct sort_key_id_if_sorted Let_def)

lemma built_index:
  assumes "entries_ok [] xs" "build_index env xs = Inr (root, nodes)"
  shows "root = root_of env xs 0" "nodes = nodes_of env xs 0"
  using assms(2) by (simp_all add: build_index_sorted [OF assms(1)] root_of_def nodes_of_def)

text \<open>C34: Applying a batch of changes to a stored index never fails, gives the root that building the changed set
  from scratch gives, and writes every node of the new tree that the old one did not have.\<close>

theorem apply_is_rebuild:
  assumes "codec_ok env" "entries_ok [] xs" "build_index env xs = Inr (root, nodes)"
    and "\<forall>b\<in>set nodes. source (ne_hash env b) = Some b"
    and "\<forall>(k, v)\<in>set cs. length k = 32 \<and> (\<forall>b. v = Some b \<longrightarrow> length b \<le> MAX_VALUE_BYTES)" "length xs + length cs < 2 ^ 64"
  shows "\<exists>root' written nodes'. apply_changes env source root cs = Inr (root', written)
    \<and> build_index env (change_set cs xs) = Inr (root', nodes') \<and> set nodes' \<subseteq> set nodes \<union> set written"
proof -
  let ?cs = "keep_last (sort_key fst cs)" and ?m = "change_set cs xs"
  note root = built_index [OF assms(2,3)]
  have wf: "bm_wf xs" using assms(2) by (simp add: entries_ok_def)
  have sub: "set ?cs \<subseteq> set cs" using keep_last_keys [of "sort_key fst cs"] by simp
  hence ok: "changes_ok [] ?cs"
    using assms(5) keep_last_wf [of "sort_key fst cs"] by (fastforce simp: changes_ok_def below_prefix_def)
  have len: "length xs + length ?cs < 2 ^ 64"
    using assms(6) keep_last_length [of "sort_key fst cs"] by simp
  have m: "merge_into xs ?cs = ?m" by (rule merge_is_change_set [OF wf])
  have "rebuilds env source xs (length ([] :: nat list)) ?cs"
    using assms(4) root by (intro descend_rebuilds [OF assms(1,2) ok len]) (simp_all add: stored_def)
  then obtain written where w: "descend env source root 0 ?cs = Inr (root_of env ?m 0, written)"
    "set (nodes_of env ?m 0) \<subseteq> set nodes \<union> set written" unfolding rebuilds_def m root by auto
  have "apply_changes env source root cs = Inr (root_of env ?m 0, written)"
    using w(1) assms(5) by (auto simp: apply_changes_def list_ex_iff Let_def descend_Nil split: option.splits)
  moreover have mok: "entries_ok [] ?m" using merge_ok [OF assms(2) ok len] m by simp
  moreover have "build_index env ?m = Inr (root_of env ?m 0, nodes_of env ?m 0)"
    using build_built [OF assms(1) mok] build_index_sorted [OF mok] by (simp add: built_def)
  ultimately show ?thesis using w(2) by blast
qed

lemma demo_index_ok: "entries_ok [] demo_index"
proof -
  have "replicate 32 CHR ''a'' < replicate 32 CHR ''b''" by (simp add: numeral_eq_Suc)
  thus ?thesis by (simp add: entries_ok_def demo_index_def below_prefix_def bm_wf_def MAX_VALUE_BYTES_def)
qed

theorem apply_is_rebuild_witness:
  "codec_ok demo_node_env \<and> build_index demo_node_env demo_index = Inr (demo_root, [demo_index_leaf]) \<and>
    (\<exists>root' written nodes'. apply_changes demo_node_env (\<lambda>_. Some demo_index_leaf) demo_root
        [(replicate 32 CHR ''c'', Some ''three''), (replicate 32 CHR ''a'', None), (replicate 32 CHR ''c'', Some ''four'')] = Inr (root', written)
      \<and> build_index demo_node_env [(replicate 32 CHR ''b'', ''two''), (replicate 32 CHR ''c'', ''four'')] = Inr (root', nodes'))"
proof -
  let ?cs = "[(replicate 32 CHR ''c'', Some ''three''), (replicate 32 CHR ''a'', None), (replicate 32 CHR ''c'', Some ''four'')] :: index_change list"
  have m: "change_set ?cs demo_index = [(replicate 32 CHR ''b'', ''two''), (replicate 32 CHR ''c'', ''four'')]"
    by (simp add: change_set_def demo_index_def bm_remove_def numeral_eq_Suc)
  have "\<exists>root' written nodes'. apply_changes demo_node_env (\<lambda>_. Some demo_index_leaf) demo_root ?cs = Inr (root', written)
      \<and> build_index demo_node_env (change_set ?cs demo_index) = Inr (root', nodes') \<and> set nodes' \<subseteq> set [demo_index_leaf] \<union> set written"
    by (rule apply_is_rebuild [OF demo_codec_ok demo_index_ok demo_build]) (simp_all add: MAX_VALUE_BYTES_def demo_index_def)
  thus ?thesis unfolding m using demo_codec_ok demo_build by blast
qed

end
