(* ===== verification/RadixRead.thy ===== *)
theory RadixRead
  imports RadixBuild
begin

text \<open>
  Reading a stored index: a lookup answers the map, a stream visits the entries in order, a page is a
  stretch of them, and validation accepts exactly the canonical trees.
\<close>

section \<open>The checks of a node\<close>

lemma ascending_wf: "keys_ascending (map fst xs) \<longleftrightarrow> bm_wf xs"
proof (induction "map fst xs" arbitrary: xs rule: keys_ascending.induct)
  case (1 left right keys)
  then obtain x y ys where xs: "xs = x # y # ys" "left = fst x" "right = fst y" "keys = map fst ys" by (auto simp: Cons_eq_map_conv)
  have "keys_ascending (map fst (y # ys)) \<longleftrightarrow> bm_wf (y # ys)" using 1(1) [of "y # ys"] xs by simp
  thus ?case unfolding xs(1) by (auto simp: bm_wf_def)
qed (auto simp: bm_wf_def)

lemma placed_iff:
  "length key = 32 \<Longrightarrow> level + length prefix \<le> MAX_DEPTH \<Longrightarrow>
    placed key level prefix = Inr () \<longleftrightarrow> (\<forall>i<length prefix. nib key (level + i) = prefix ! i)"
proof (induction prefix arbitrary: level)
  case (Cons n prefix)
  have "nibble key level = Inr (nib key level)" using Cons.prems by (intro nibble_nib) auto
  thus ?case using Cons by (auto simp: less_Suc_eq_0_disj)
qed simp

lemma check_entries_iff:
  assumes "\<forall>e\<in>set es. length (fst e) = 32" "length prefix \<le> MAX_DEPTH"
  shows "check_entries valid_value prefix es = Inr () \<longleftrightarrow>
    (\<forall>e\<in>set es. length (snd e) \<le> MAX_VALUE_BYTES \<and> valid_value (snd e)) \<and> below_prefix prefix es"
  using assms(1)
proof (induction es)
  case (Cons e es)
  have "placed (fst e) 0 prefix = Inr () \<longleftrightarrow> (\<forall>i<length prefix. nib (fst e) i = prefix ! i)"
    using placed_iff [of "fst e" 0 prefix] Cons.prems assms(2) by simp
  thus ?case using Cons by (cases "placed (fst e) 0 prefix") (auto simp: below_prefix_def)
qed (simp add: below_prefix_def)

lemma check_leaf_iff:
  assumes "codec_ok env" "\<forall>e\<in>set es. length (fst e) = 32" "length prefix \<le> MAX_DEPTH"
  shows "check_leaf env valid_value es depth prefix declared = Inr n \<longleftrightarrow>
    es \<noteq> [] \<and> entries_ok prefix es \<and> (\<forall>e\<in>set es. valid_value (snd e)) \<and> leafy env es depth \<and> declared = length es \<and> n = length es"
proof -
  have "check_entries valid_value prefix es = Inr u \<longleftrightarrow>
      (\<forall>e\<in>set es. length (snd e) \<le> MAX_VALUE_BYTES \<and> valid_value (snd e)) \<and> below_prefix prefix es" for u
    using check_entries_iff [OF assms(2,3)] by simp
  thus ?thesis
    by (auto simp: check_leaf_def result_simps ascending_wf entries_ok_def leafy_def count_entries_def checked_u64_def split: if_splits)
qed

lemma flatten_empty: "flatten_slots cs = [] \<longleftrightarrow> (\<forall>c\<in>set cs. c = None)"
  by (induction cs) (auto simp: flatten_slots_def split: option.splits)

lemma child_total_slots:
  assumes "\<And>i. i \<in> set is \<Longrightarrow> built env (F i) depth"
  shows "t + (\<Sum>i\<leftarrow>is. length (F i)) < 2 ^ 64 \<Longrightarrow>
    child_total (flatten_slots (map (\<lambda>i. root_of env (F i) depth) is)) t = Inr (t + (\<Sum>i\<leftarrow>is. length (F i)))"
  using assms
proof (induction "is" arbitrary: t)
  case (Cons i "is")
  show ?case
  proof (cases "F i = []")
    case False
    then obtain c where "root_of env (F i) depth = Some c" "cr_count c = length (F i)" using built_nonempty [OF Cons.prems(2) [of i]] by auto
    thus ?thesis using Cons False by (simp add: checked_u64_def add.assoc)
  qed (use Cons in simp)
qed simp

lemma check_branch_stored:
  assumes "codec_ok env" "entries_ok prefix xs" "xs \<noteq> []" "length prefix < MAX_DEPTH"
  shows "check_branch (map (\<lambda>i. root_of env (slot_of (length prefix) i xs) (Suc (length prefix))) [0..<16]) (length xs) = Inr (length xs)"
proof -
  let ?F = "slots xs (length prefix)"
  have b: "built env (?F i) (Suc (length prefix))" for i
    using build_built [OF assms(1) entries_ok_slot [OF assms(2), of i]] assms(4) by simp
  have sum: "(\<Sum>i\<leftarrow>[0..<16]. length (?F i)) = length xs"
    using length_slots [of prefix xs] assms(2,4)
    by (simp add: entries_ok_def bm_wf_sorted interv_sum_list_conv_sum_set_nat atLeast0LessThan)
  have t: "child_total (flatten_slots (map (\<lambda>i. root_of env (?F i) (Suc (length prefix))) [0..<16])) 0 = Inr (length xs)"
    using child_total_slots [of "[0..<16]" env ?F "Suc (length prefix)" 0] b sum assms(2) by (simp add: entries_ok_def)
  moreover have "flatten_slots (map (\<lambda>i. root_of env (?F i) (Suc (length prefix))) [0..<16]) \<noteq> []"
  proof
    assume "flatten_slots (map (\<lambda>i. root_of env (?F i) (Suc (length prefix))) [0..<16]) = []"
    hence "length xs = 0" using t by simp
    thus False using assms(3) by simp
  qed
  ultimately show ?thesis by (simp add: check_branch_def)
qed

lemma read_verified_root:
  assumes "codec_ok env" "shaped env xs depth" "stored env source xs depth" "root_of env xs depth = Some c"
  shows "read_verified env source c = Inr (node_of env xs depth)" "cr_count c = length xs" "read_node env source c = Inr (node_of env xs depth)"
proof -
  obtain c' where c': "root_of env xs depth = Some c'" "cr_count c' = length xs" "read_node env source c' = Inr (node_of env xs depth)"
    "cr_hash c' = ne_hash env (bytes_of env (node_of env xs depth))"
    "source (cr_hash c') = Some (bytes_of env (node_of env xs depth))"
    "node_decode_canonical env (bytes_of env (node_of env xs depth)) = Inr (node_of env xs depth)"
    by (rule read_root [OF assms(1-3)])
  have "c' = c" using c'(1) assms(4) by simp
  thus "read_verified env source c = Inr (node_of env xs depth)" "cr_count c = length xs"
    "read_node env source c = Inr (node_of env xs depth)" using c'(2-6) by (simp_all add: read_verified_def)
qed

section \<open>Lookup\<close>

lemma find_map_of: "map_option snd (find (\<lambda>e. fst e = k) es) = map_of es k"
  by (induction es) auto

lemma lookup_stored:
  assumes "codec_ok env" "length key = 32"
  shows "entries_ok prefix xs \<Longrightarrow> length prefix \<le> MAX_DEPTH \<Longrightarrow> stored env source xs (length prefix) \<Longrightarrow>
    \<forall>i<length prefix. nib key i = prefix ! i \<Longrightarrow> \<forall>e\<in>set xs. valid_value (snd e) \<Longrightarrow>
    lookup_loop env source key valid_value (root_of env xs (length prefix)) (length prefix) prefix = Inr (map_of xs key)"
proof (induction "MAX_DEPTH - length prefix" arbitrary: prefix xs rule: less_induct)
  case less
  show ?case
  proof (cases "xs = []")
    case True
    thus ?thesis by (subst lookup_loop.simps) simp
  next
    case False
    have sh: "shaped env xs (length prefix)" by (rule build_shaped [OF assms(1) less.prems(1) False less.prems(2)])
    then obtain c where c: "root_of env xs (length prefix) = Some c" using root_of_shaped by blast
    note node = read_verified_root [OF assms(1) sh less.prems(3) c]
    show ?thesis
    proof (cases "leafy env xs (length prefix)")
      case True
      have "check_leaf env valid_value xs (length prefix) prefix (length xs) = Inr (length xs)"
        using check_leaf_iff [OF assms(1) _ less.prems(2)] less.prems(1,5) False True
        by (auto simp: entries_ok_def below_prefix_def)
      thus ?thesis using c node True less.prems(2)
        by (subst lookup_loop.simps) (simp add: node_of_def leafy_def find_map_of not_less)
    next
      case br: False
      have depth: "length prefix < MAX_DEPTH" by (rule not_leafy_depth [OF br])
      let ?i = "nib key (length prefix)"
      have "lookup_loop env source key valid_value (root_of env (slot_of (length prefix) ?i xs) (length (prefix @ [?i])))
          (length (prefix @ [?i])) (prefix @ [?i]) = Inr (map_of (slot_of (length prefix) ?i xs) key)"
        using depth less.prems(4,5) stored_slot [OF sh less.prems(3) br nib_less]
        by (intro less.hyps entries_ok_slot less.prems(1)) (auto simp: nth_append less_Suc_eq slot_of_def)
      thus ?thesis
        using c node br depth nibble_nib [OF assms(2) depth] nib_less [of key "length prefix"] check_branch_stored [OF assms(1) less.prems(1) False depth]
        by (subst lookup_loop.simps) (simp add: node_of_def leafy_def branch_of_def map_of_slot next_depth_def not_less Suc_le_eq)
    qed
  qed
qed


section \<open>Streams\<close>

lemma try_fold_append: "try_fold f (xs @ ys) s = try_then (try_fold f xs s) (try_fold f ys)"
proof (induction xs arbitrary: s)
  case (Cons x xs)
  show ?case by (cases "f x s") (simp_all add: Cons)
qed simp

lemma stream_slots:
  assumes "\<And>i. i \<in> set is \<Longrightarrow> F i = [] \<Longrightarrow> r i = None"
    and "\<And>i. i \<in> set is \<Longrightarrow> F i \<noteq> [] \<Longrightarrow> \<exists>c. r i = Some c \<and> w c = Inr (F i, length (F i))"
  shows "t + (\<Sum>i\<leftarrow>is. length (F i)) < 2 ^ 64 \<Longrightarrow>
    try_fold (\<lambda>slot (visited, total). try_then (w slot) (\<lambda>(entries, n).
      try_then (checked_u64 Bounds (total + n)) (\<lambda>total. Inr (visited @ entries, total))))
      (flatten_slots (map r is)) (v, t) = Inr (v @ concat (map F is), t + (\<Sum>i\<leftarrow>is. length (F i)))"
  using assms
proof (induction "is" arbitrary: v t)
  case (Cons i "is")
  show ?case
  proof (cases "F i = []")
    case False
    then obtain c where "r i = Some c" "w c = Inr (F i, length (F i))" using Cons.prems(3) [of i] by auto
    thus ?thesis using Cons by (simp add: checked_u64_def add.assoc)
  next
    case True
    thus ?thesis using Cons Cons.prems(2) [of i] by simp
  qed
qed simp

lemma slot_roots:
  assumes "codec_ok env" "entries_ok prefix xs" "length prefix < MAX_DEPTH"
    and "\<And>c. slot_of (length prefix) i xs \<noteq> [] \<Longrightarrow> root_of env (slot_of (length prefix) i xs) (Suc (length prefix)) = Some c \<Longrightarrow> P c"
  shows "slot_of (length prefix) i xs \<noteq> [] \<Longrightarrow> \<exists>c. root_of env (slot_of (length prefix) i xs) (Suc (length prefix)) = Some c \<and> P c"
  using build_built [OF assms(1) entries_ok_slot [OF assms(2), of i]] assms(3,4) built_nonempty by fastforce

lemma sum_slots:
  assumes "entries_ok prefix xs" "length prefix < MAX_DEPTH"
  shows "(\<Sum>i\<leftarrow>[0..<16]. length (slot_of (length prefix) i xs)) = length xs" "concat (map (slots xs (length prefix)) [0..<16]) = xs"
    "length xs < 2 ^ 64"
  using length_slots [of prefix xs] concat_slots [of prefix xs] assms
  by (simp_all add: entries_ok_def bm_wf_sorted interv_sum_list_conv_sum_set_nat atLeast0LessThan)

lemma stream_stored:
  assumes "codec_ok env"
  shows "entries_ok prefix xs \<Longrightarrow> xs \<noteq> [] \<Longrightarrow> length prefix \<le> MAX_DEPTH \<Longrightarrow> stored env source xs (length prefix) \<Longrightarrow>
    root_of env xs (length prefix) = Some c \<Longrightarrow> stream_walk env source c (length prefix) = Inr (xs, length xs)"
proof (induction "MAX_DEPTH - length prefix" arbitrary: prefix xs c rule: less_induct)
  case less
  have sh: "shaped env xs (length prefix)" by (rule build_shaped [OF assms(1) less.prems(1-3)])
  note node = read_verified_root(3) [OF assms sh less.prems(4,5)]
  show ?case
  proof (cases "leafy env xs (length prefix)")
    case True
    thus ?thesis using node less.prems(1,3)
      by (subst stream_walk.simps) (simp add: node_of_def leafy_def count_entries_def checked_u64_def entries_ok_def)
  next
    case br: False
    have depth: "length prefix < MAX_DEPTH" by (rule not_leafy_depth [OF br])
    let ?r = "\<lambda>i. root_of env (slot_of (length prefix) i xs) (Suc (length prefix))"
    have "\<exists>c. ?r i = Some c \<and> stream_walk env source c (Suc (length prefix)) = Inr (slot_of (length prefix) i xs, length (slot_of (length prefix) i xs))"
      if i: "i < 16" "slot_of (length prefix) i xs \<noteq> []" for i
    proof (rule slot_roots [OF assms less.prems(1) depth _ i(2)])
      fix c assume "slot_of (length prefix) i xs \<noteq> []" "?r i = Some c"
      thus "stream_walk env source c (Suc (length prefix)) = Inr (slot_of (length prefix) i xs, length (slot_of (length prefix) i xs))"
        using less.hyps [of "prefix @ [i]" "slot_of (length prefix) i xs" c] entries_ok_slot [OF less.prems(1)] depth
          stored_slot [OF sh less.prems(4) br i(1)] by simp
    qed
    hence "try_fold (\<lambda>slot (visited, total). try_then (stream_walk env source slot (Suc (length prefix))) (\<lambda>(entries, n).
        try_then (checked_u64 Bounds (total + n)) (\<lambda>total. Inr (visited @ entries, total)))) (flatten_slots (map ?r [0..<16])) ([], 0) =
      Inr (xs, length xs)"
      using stream_slots [of "[0..<16]" "slots xs (length prefix)" ?r "\<lambda>c. stream_walk env source c (Suc (length prefix))" 0 "[]"]
        sum_slots [OF less.prems(1) depth] by simp
    thus ?thesis using node br depth
      by (subst stream_walk.simps) (simp add: node_of_def leafy_def branch_of_def next_depth_def not_less Suc_le_eq)
  qed
qed


section \<open>Validation\<close>

text \<open>The loop of \<open>validate_walk\<close> over the slots of a branch, with the walk of one slot as \<open>w\<close>.\<close>

definition slot_step :: "(nat \<Rightarrow> child_ref \<Rightarrow> index_failure + nat) \<Rightarrow> nat \<times> child_ref option \<Rightarrow> nat \<Rightarrow> index_failure + nat" where
  "slot_step w = (\<lambda>(slot, entry) total. case entry of None \<Rightarrow> Inr total
    | Some reference \<Rightarrow> try_then (w slot reference) (\<lambda>n. checked_u64 Bounds (total + n)))"

lemma sum_shift: "(\<Sum>j<Suc n. (N :: nat \<Rightarrow> nat) (k + j)) = N k + (\<Sum>j<n. N (Suc k + j))"
  by (simp add: sum.lessThan_Suc_shift del: sum.lessThan_Suc)

lemma slot_step_complete:
  "(\<And>j. j < length cs \<Longrightarrow> cs ! j = None \<and> N (k + j) = 0 \<or> (\<exists>c. cs ! j = Some c \<and> w (k + j) c = Inr (N (k + j)))) \<Longrightarrow>
    t + (\<Sum>j<length cs. N (k + j)) < 2 ^ 64 \<Longrightarrow>
    try_fold (slot_step w) (enumerate k cs) t = Inr (t + (\<Sum>j<length cs. N (k + j)))"
proof (induction cs arbitrary: k t)
  case (Cons c cs)
  have tail: "cs ! j = None \<and> N (Suc k + j) = 0 \<or> (\<exists>c. cs ! j = Some c \<and> w (Suc k + j) c = Inr (N (Suc k + j)))" if "j < length cs" for j
    using Cons.prems(1) [of "Suc j"] that by simp
  have sum: "(\<Sum>j<length (c # cs). N (k + j)) = N k + (\<Sum>j<length cs. N (Suc k + j))"
    by (simp only: length_Cons sum_shift)
  have head: "slot_step w (k, c) t = Inr (t + N k)"
    using Cons.prems(1) [of 0] Cons.prems(2) sum by (auto simp: slot_step_def checked_u64_def)
  have "try_fold (slot_step w) (enumerate (Suc k) cs) (t + N k) = Inr (t + N k + (\<Sum>j<length cs. N (Suc k + j)))"
    using Cons.prems(2) sum by (intro Cons.IH tail) auto
  thus ?case using head sum by simp
qed simp

lemma slot_step_sound:
  "try_fold (slot_step w) (enumerate k cs) t = Inr sum_all \<Longrightarrow>
    (\<forall>j<length cs. \<forall>c. cs ! j = Some c \<longrightarrow> (\<exists>n. w (k + j) c = Inr n)) \<and> (t < 2 ^ 64 \<longrightarrow> sum_all < 2 ^ 64)
    \<and> (\<forall>N. (\<forall>j<length cs. cs ! j = None \<and> N (k + j) = 0 \<or> (\<exists>c. cs ! j = Some c \<and> w (k + j) c = Inr (N (k + j))))
        \<longrightarrow> sum_all = t + (\<Sum>j<length cs. N (k + j)))"
proof (induction cs arbitrary: k t)
  case (Cons c cs)
  obtain t' where t': "slot_step w (k, c) t = Inr t'" "try_fold (slot_step w) (enumerate (Suc k) cs) t' = Inr sum_all"
    using Cons.prems by (auto simp: result_simps)
  note ih = Cons.IH [OF t'(2)]
  have "(\<forall>j<length (c # cs). \<forall>x. (c # cs) ! j = Some x \<longrightarrow> (\<exists>n. w (k + j) x = Inr n))"
    using ih t'(1) by (auto simp: less_Suc_eq_0_disj slot_step_def result_simps)
  moreover have "t < 2 ^ 64 \<longrightarrow> sum_all < 2 ^ 64"
    using ih t'(1) by (auto simp: slot_step_def result_simps checked_u64_def split: option.splits if_splits)
  moreover have "sum_all = t + (\<Sum>j<length (c # cs). N (k + j))"
    if N: "\<forall>j<length (c # cs). (c # cs) ! j = None \<and> N (k + j) = 0 \<or> (\<exists>x. (c # cs) ! j = Some x \<and> w (k + j) x = Inr (N (k + j)))" for N
  proof -
    have "\<forall>j<length cs. cs ! j = None \<and> N (Suc k + j) = 0 \<or> (\<exists>x. cs ! j = Some x \<and> w (Suc k + j) x = Inr (N (Suc k + j)))"
    proof (intro allI impI)
      fix j assume "j < length cs"
      thus "cs ! j = None \<and> N (Suc k + j) = 0 \<or> (\<exists>x. cs ! j = Some x \<and> w (Suc k + j) x = Inr (N (Suc k + j)))"
        using N [rule_format, of "Suc j"] by simp
    qed
    hence "sum_all = t' + (\<Sum>j<length cs. N (Suc k + j))" using ih by blast
    moreover have "t' = t + N k"
      using N [rule_format, of 0] t'(1) by (auto simp: slot_step_def checked_u64_def split: if_splits)
    ultimately show ?thesis by (simp only: length_Cons sum_shift add.assoc)
  qed
  ultimately show ?case by blast
qed simp

lemma slot_step_results:
  assumes "try_fold (slot_step w) (enumerate 0 cs) 0 = Inr n"
  shows "j < length cs \<Longrightarrow> cs ! j = Some c \<Longrightarrow> \<exists>m. w j c = Inr m" and "n < 2 ^ 64"
    and "(\<And>j. j < length cs \<Longrightarrow> cs ! j = None \<and> N j = 0 \<or> (\<exists>c. cs ! j = Some c \<and> w j c = Inr (N j))) \<Longrightarrow> n = (\<Sum>j<length cs. N j)"
  using slot_step_sound [OF assms] by simp_all

lemma try_then_assoc: "try_then (try_then r f) g = try_then r (\<lambda>x. try_then (f x) g)"
  by (cases r) simp_all

lemma validate_walk_eq:
  assumes "read_verified env source c = Inr (Branch cs)" "depth \<le> MAX_DEPTH"
  shows "validate_walk env source c depth prefix =
    (if flatten_slots cs = [] then Inl NotCanonicalShape
     else try_then (try_fold (slot_step (\<lambda>slot r. try_then (next_depth depth) (\<lambda>d. validate_walk env source r d (prefix @ [slot])))) (enumerate 0 cs) 0) (\<lambda>total.
       if total \<noteq> cr_count c then Inl CountMismatch
       else if total \<le> MAX_LEAF_ENTRIES then
         try_then (collect_result (\<lambda>slot. try_then (next_depth depth) (\<lambda>d. collect_entries env source slot d)) (flatten_slots cs)) (\<lambda>parts.
         try_then (fits_leaf env (sort_key fst (concat parts)) depth) (\<lambda>fits.
           if fits then Inl NotCanonicalShape else Inr total))
       else Inr total))"
  using assms by (subst validate_walk.simps, unfold slot_step_def try_then_assoc) simp

lemma validate_walk_branch:
  assumes "read_verified env source c = Inr (Branch cs)" "depth < MAX_DEPTH"
  shows "validate_walk env source c depth prefix =
    (if flatten_slots cs = [] then Inl NotCanonicalShape
     else try_then (try_fold (slot_step (\<lambda>slot r. validate_walk env source r (Suc depth) (prefix @ [slot]))) (enumerate 0 cs) 0) (\<lambda>total.
       if total \<noteq> cr_count c then Inl CountMismatch
       else if total \<le> MAX_LEAF_ENTRIES then
         try_then (collect_result (\<lambda>slot. collect_entries env source slot (Suc depth)) (flatten_slots cs)) (\<lambda>parts.
         try_then (fits_leaf env (sort_key fst (concat parts)) depth) (\<lambda>fits.
           if fits then Inl NotCanonicalShape else Inr total))
       else Inr total))"
proof -
  have deeper: "next_depth depth = Inr (Suc depth)" using assms(2) by (simp add: next_depth_Inr)
  show ?thesis using validate_walk_eq [OF assms(1), of depth prefix] assms(2) unfolding deeper try_then_simps by simp
qed

lemma validate_stored:
  assumes "codec_ok env"
  shows "entries_ok prefix xs \<Longrightarrow> xs \<noteq> [] \<Longrightarrow> length prefix \<le> MAX_DEPTH \<Longrightarrow> stored env source xs (length prefix) \<Longrightarrow>
    root_of env xs (length prefix) = Some c \<Longrightarrow> validate_walk env source c (length prefix) prefix = Inr (length xs)"
proof (induction "MAX_DEPTH - length prefix" arbitrary: prefix xs c rule: less_induct)
  case less
  have sh: "shaped env xs (length prefix)" by (rule build_shaped [OF assms(1) less.prems(1-3)])
  note node = read_verified_root [OF assms sh less.prems(4,5)]
  show ?case
  proof (cases "leafy env xs (length prefix)")
    case True
    have "check_leaf env (\<lambda>_. True) xs (length prefix) prefix (length xs) = Inr (length xs)"
      using check_leaf_iff [OF assms(1) _ less.prems(3)] less.prems(1,2) True by (auto simp: entries_ok_def below_prefix_def)
    thus ?thesis using node True less.prems(3) by (subst validate_walk.simps) (simp add: node_of_def leafy_def not_less)
  next
    case br: False
    have depth: "length prefix < MAX_DEPTH" by (rule not_leafy_depth [OF br])
    let ?cs = "map (\<lambda>i. root_of env (slot_of (length prefix) i xs) (Suc (length prefix))) [0..<16]"
    have node_br: "read_verified env source c = Inr (Branch ?cs)" "node_of env xs (length prefix) = Branch ?cs"
      using node(1) br by (simp_all add: node_of_def leafy_def branch_of_def)
    have "?cs ! j = None \<and> length (slot_of (length prefix) (0 + j) xs) = 0 \<or>
        (\<exists>c. ?cs ! j = Some c \<and> validate_walk env source c (Suc (length prefix)) (prefix @ [0 + j]) = Inr (length (slot_of (length prefix) (0 + j) xs)))"
      if "j < length ?cs" for j
    proof (cases "slot_of (length prefix) j xs = []")
      case False
      have j: "j < 16" using that by simp
      have "\<exists>c. root_of env (slot_of (length prefix) j xs) (Suc (length prefix)) = Some c \<and>
          validate_walk env source c (Suc (length prefix)) (prefix @ [j]) = Inr (length (slot_of (length prefix) j xs))"
      proof (rule slot_roots [OF assms less.prems(1) depth _ False])
        fix c assume "slot_of (length prefix) j xs \<noteq> []" "root_of env (slot_of (length prefix) j xs) (Suc (length prefix)) = Some c"
        thus "validate_walk env source c (Suc (length prefix)) (prefix @ [j]) = Inr (length (slot_of (length prefix) j xs))"
          using less.hyps [of "prefix @ [j]" "slot_of (length prefix) j xs" c] entries_ok_slot [OF less.prems(1)] depth
            stored_slot [OF sh less.prems(4) br j] by simp
      qed
      thus ?thesis using j by simp
    qed (use that in simp)
    from slot_step_complete [of ?cs _ 0, OF this, of 0]
    have fold: "try_fold (slot_step (\<lambda>slot r. validate_walk env source r (Suc (length prefix)) (prefix @ [slot]))) (enumerate 0 ?cs) 0 = Inr (length xs)"
      using length_slots [of prefix xs] less.prems(1) depth by (simp add: entries_ok_def bm_wf_sorted)
    have ne: "flatten_slots ?cs \<noteq> []"
      using check_branch_stored [OF assms less.prems(1,2) depth] by (auto simp: check_branch_def split: if_splits)
    obtain parts where parts: "collect_result (\<lambda>slot. try_then (next_depth (length prefix)) (\<lambda>d. collect_entries env source slot d)) (flatten_slots ?cs) = Inr parts"
      "concat parts = xs" by (rule collect_branch [OF assms less.prems(1-4) node_br(2)])
    have "next_depth (length prefix) = Inr (Suc (length prefix))" using depth by (simp add: next_depth_Inr)
    moreover have "sort_key fst xs = xs" using less.prems(1) by (intro sort_key_id_if_sorted) (simp add: entries_ok_def bm_wf_sorted)
    moreover have "fits_leaf env xs (length prefix) = Inr False"
      using br fits_leaf_total [OF assms less.prems(1)] by (metis (full_types) leafy_def)
    ultimately show ?thesis
      using validate_walk_branch [OF node_br(1) depth, of prefix] fold ne parts node(2) by simp
  qed
qed


text \<open>Sets that stand in the sixteen slots below a prefix make a set below the prefix.\<close>

lemma bm_wf_append: "bm_wf (xs @ ys) \<longleftrightarrow> bm_wf xs \<and> bm_wf ys \<and> (\<forall>x\<in>set xs. \<forall>y\<in>set ys. fst x < fst y)"
  by (auto simp: bm_wf_def sorted_wrt_append)

lemma bm_wf_concat:
  "sorted_wrt (<) is \<Longrightarrow> (\<And>i. i \<in> set is \<Longrightarrow> bm_wf (X i)) \<Longrightarrow>
    (\<And>i j x y. i \<in> set is \<Longrightarrow> j \<in> set is \<Longrightarrow> i < j \<Longrightarrow> x \<in> set (X i) \<Longrightarrow> y \<in> set (X j) \<Longrightarrow> fst x < fst y) \<Longrightarrow>
    bm_wf (concat (map X is))"
proof (induction "is")
  case (Cons i "is")
  have "bm_wf (concat (map X is))"
  proof (rule Cons.IH)
    show "bm_wf (X k)" if "k \<in> set is" for k using Cons.prems(2) that by simp
    show "fst x < fst y" if "k \<in> set is" "j \<in> set is" "k < j" "x \<in> set (X k)" "y \<in> set (X j)" for k j x y
      using Cons.prems(3) [of k j x y] that by simp
  qed (use Cons.prems(1) in simp)
  moreover have "fst x < fst y" if "x \<in> set (X i)" "k \<in> set is" "y \<in> set (X k)" for x y k
    using Cons.prems(3) [of i k x y] Cons.prems(1) that by auto
  moreover have "bm_wf (X i)" using Cons.prems(2) by simp
  ultimately show ?case by (auto simp: bm_wf_append)
qed simp

lemma concat_single: "distinct is \<Longrightarrow> i \<in> set is \<Longrightarrow> concat (map (\<lambda>j. if j = i then xs else []) is) = xs"
  by (induction "is") (auto simp: concat_eq_Nil_conv)

lemma nib_less_key:
  assumes "length k = 32" "length l = 32" "\<And>j. j < d \<Longrightarrow> nib k j = nib l j" "d < MAX_DEPTH" "nib k d < nib l d"
  shows "k < l"
  using nib_mono [of l k d] assms by (metis leD leI)

lemma join_slots:
  assumes "\<And>i. i < 16 \<Longrightarrow> entries_ok (prefix @ [i]) (X i)" "length prefix < MAX_DEPTH" "(\<Sum>i<16. length (X i)) < 2 ^ 64"
  shows "entries_ok prefix (concat (map X [0..<16]))" "\<And>i. i < 16 \<Longrightarrow> slot_of (length prefix) i (concat (map X [0..<16])) = X i"
    "length (concat (map X [0..<16])) = (\<Sum>i<16. length (X i))"
proof -
  have key: "length (fst e) = 32 \<and> nib (fst e) (length prefix) = i \<and> (\<forall>j<length prefix. nib (fst e) j = prefix ! j)
      \<and> length (snd e) \<le> MAX_VALUE_BYTES" if "i < 16" "e \<in> set (X i)" for i e
    using assms(1) [OF that(1)] that(2) by (auto simp: entries_ok_def below_prefix_def nth_append)
  show len: "length (concat (map X [0..<16])) = (\<Sum>i<16. length (X i))"
    by (simp add: length_concat o_def interv_sum_list_conv_sum_set_nat atLeast0LessThan)
  have "bm_wf (concat (map X [0..<16]))"
  proof (rule bm_wf_concat)
    fix i j x y assume h: "i \<in> set [0..<16]" "j \<in> set [0..<16]" "i < j" "x \<in> set (X i)" "y \<in> set (X j)"
    show "fst x < fst y" using key [of i x] key [of j y] h assms(2) by (intro nib_less_key [of _ _ "length prefix"]) auto
  qed (use assms(1) in \<open>auto simp: entries_ok_def\<close>)
  moreover have "below_prefix prefix (concat (map X [0..<16]))" using key by (auto simp: below_prefix_def)
  ultimately show "entries_ok prefix (concat (map X [0..<16]))" using key len assms(3) by (auto simp: entries_ok_def)
  show "slot_of (length prefix) i (concat (map X [0..<16])) = X i" if "i < 16" for i
  proof -
    have "filter (\<lambda>x. nib (fst x) (length prefix) = i) (X j) = (if j = i then X i else [])" if "j < 16" for j
      using key [OF that] by (auto simp: filter_empty_conv filter_id_conv)
    hence "slot_of (length prefix) i (concat (map X [0..<16])) = concat (map (\<lambda>j. if j = i then X i else []) [0..<16])"
      by (auto simp: slot_of_def filter_concat o_def intro!: arg_cong [of _ _ concat])
    thus ?thesis using that by (simp add: concat_single del: upt_Suc)
  qed
qed

lemma read_verified_encoded:
  assumes "codec_ok env" "read_verified env source c = Inr node"
  obtains b where "source (cr_hash c) = Some b" "ne_hash env b = cr_hash c" "node_encode env node = Inr b" "node_typed node"
  using assms by (auto simp: read_verified_def node_decode_canonical_def codec_ok_def result_simps split: option.splits if_splits)

text \<open>An index accepted below a prefix is the canonical tree of a set that may stand there.\<close>

definition canonical_at :: "node_env \<Rightarrow> node_source \<Rightarrow> child_ref \<Rightarrow> nat list \<Rightarrow> nat \<Rightarrow> index_entry list \<Rightarrow> bool" where
  "canonical_at env source c prefix n xs \<longleftrightarrow> entries_ok prefix xs \<and> xs \<noteq> [] \<and> root_of env xs (length prefix) = Some c
    \<and> stored env source xs (length prefix) \<and> n = length xs"

lemma canonical_node:
  assumes "codec_ok env" "entries_ok prefix xs" "xs \<noteq> []" "length prefix \<le> MAX_DEPTH" "read_verified env source c = Inr (node_of env xs (length prefix))"
    and "cr_count c = length xs" "\<And>i. \<not> leafy env xs (length prefix) \<Longrightarrow> i < 16 \<Longrightarrow> stored env source (slot_of (length prefix) i xs) (Suc (length prefix))"
  shows "canonical_at env source c prefix (length xs) xs"
proof -
  have sh: "shaped env xs (length prefix)" by (rule build_shaped [OF assms(1-4)])
  obtain b where b: "source (cr_hash c) = Some b" "ne_hash env b = cr_hash c" "node_encode env (node_of env xs (length prefix)) = Inr b"
    using read_verified_encoded [OF assms(1,5)] by metis
  have "bytes_of env (node_of env xs (length prefix)) = b" by (simp add: bytes_of_def b(3))
  thus ?thesis using root_of_shaped [OF sh] nodes_of_shaped [OF sh] b assms(2,3,6,7)
    by (auto simp: canonical_at_def stored_def)
qed


lemma validate_branch_depth:
  assumes "validate_walk env source c depth prefix = Inr n" "read_verified env source c = Inr (Branch cs)" "depth \<le> MAX_DEPTH"
  shows "depth < MAX_DEPTH"
proof -
  obtain t where t: "try_fold (slot_step (\<lambda>slot r. try_then (next_depth depth) (\<lambda>d. validate_walk env source r d (prefix @ [slot])))) (enumerate 0 cs) 0 = Inr t"
    and "flatten_slots cs \<noteq> []"
    using assms(1) unfolding validate_walk_eq [OF assms(2,3)] by (auto simp: result_simps split: if_splits)
  then obtain j r where "j < length cs" "cs ! j = Some r" by (auto simp: flatten_empty in_set_conv_nth)
  hence "\<exists>n. try_then (next_depth depth) (\<lambda>d. validate_walk env source r d (prefix @ [j])) = Inr n"
    by (rule slot_step_results(1) [OF t])
  thus ?thesis by (auto simp: result_simps next_depth_Inr)
qed

lemma validate_branch_sound:
  assumes "codec_ok env" "read_verified env source c = Inr (Branch cs)" "length prefix < MAX_DEPTH" "length cs = 16"
    and X: "\<And>i. i < 16 \<Longrightarrow> (cs ! i = None \<and> X i = []) \<or> (\<exists>r. cs ! i = Some r \<and>
      canonical_at env source r (prefix @ [i]) (length (X i)) (X i) \<and> validate_walk env source r (Suc (length prefix)) (prefix @ [i]) = Inr (length (X i)))"
    and fold: "try_fold (slot_step (\<lambda>slot r. validate_walk env source r (Suc (length prefix)) (prefix @ [slot]))) (enumerate 0 cs) 0 = Inr n"
    and "n = cr_count c" "flatten_slots cs \<noteq> []"
    and small: "n \<le> MAX_LEAF_ENTRIES \<Longrightarrow> \<exists>parts. collect_result (\<lambda>slot. collect_entries env source slot (Suc (length prefix))) (flatten_slots cs) = Inr parts
        \<and> fits_leaf env (sort_key fst (concat parts)) (length prefix) = Inr False"
  shows "\<exists>xs. canonical_at env source c prefix n xs"
proof -
  let ?xs = "concat (map X [0..<16])"
  have "n = (\<Sum>i<length cs. length (X i))"
  proof (rule slot_step_results(3) [OF fold])
    fix j assume "j < length cs"
    thus "cs ! j = None \<and> length (X j) = 0 \<or>
        (\<exists>r. cs ! j = Some r \<and> validate_walk env source r (Suc (length prefix)) (prefix @ [j]) = Inr (length (X j)))"
      using X [of j] assms(4) by auto
  qed
  hence n: "n = (\<Sum>i<16. length (X i))" "n < 2 ^ 64" using slot_step_results(2) [OF fold] assms(4) by simp_all
  have xok: "entries_ok (prefix @ [i]) (X i)" if "i < 16" for i
    using X [OF that] by (auto simp: canonical_at_def entries_ok_def below_prefix_def)
  have sum: "(\<Sum>i<16. length (X i)) < 2 ^ 64" using n by simp
  note join = join_slots [OF xok assms(3) sum]
  have roots: "root_of env (X i) (Suc (length prefix)) = cs ! i \<and> stored env source (X i) (Suc (length prefix))" if "i < 16" for i
    using X [OF that] by (auto simp: canonical_at_def stored_def)
  have cs: "map (\<lambda>i. root_of env (slot_of (length prefix) i ?xs) (Suc (length prefix))) [0..<16] = cs"
    using roots join(2) assms(4) by (intro nth_equalityI) (auto simp del: upt_Suc)
  have ne: "?xs \<noteq> []"
  proof -
    obtain j r where "j < 16" "cs ! j = Some r" using assms(4,8) by (auto simp: flatten_empty in_set_conv_nth)
    thus ?thesis using X [of j] by (auto simp: canonical_at_def)
  qed
  have "\<not> leafy env ?xs (length prefix)"
  proof (cases "n \<le> MAX_LEAF_ENTRIES")
    case True
    have "\<exists>parts. collect_result (\<lambda>slot. collect_entries env source slot (Suc (length prefix))) (flatten_slots (map (\<lambda>i. cs ! i) [0..<16])) = Inr parts
        \<and> concat parts = ?xs"
    proof (rule collect_slots)
      fix i assume "i \<in> set [0..<16]" "X i \<noteq> []"
      hence i: "i < 16" "X i \<noteq> []" by simp_all
      then obtain r where "cs ! i = Some r" "canonical_at env source r (prefix @ [i]) (length (X i)) (X i)" using X by blast
      thus "\<exists>c. cs ! i = Some c \<and> collect_entries env source c (Suc (length prefix)) = Inr (X i)"
        using collect_stored [OF assms(1), of "prefix @ [i]" "X i" source r] assms(3) by (auto simp: canonical_at_def)
    qed (use X in \<open>auto simp: canonical_at_def\<close>)
    moreover have "map (\<lambda>i. cs ! i) [0..<16] = cs" using assms(4) by (metis map_nth)
    moreover have "sort_key fst ?xs = ?xs" using join(1) by (intro sort_key_id_if_sorted) (simp add: entries_ok_def bm_wf_sorted)
    ultimately show ?thesis using small [OF True] by (auto simp: leafy_def)
  next
    case False
    thus ?thesis using n(1) join(3) assms(3) by (simp add: leafy_def fits_leaf_def MAX_LEAF_ENTRIES_def)
  qed
  hence "node_of env ?xs (length prefix) = Branch cs" using cs by (simp add: node_of_def leafy_def branch_of_def)
  hence "canonical_at env source c prefix (length ?xs) ?xs"
    using assms(2,3,7) n(1) join roots ne by (intro canonical_node [OF assms(1) join(1) ne]) auto
  thus ?thesis using n(1) join(3) by metis
qed

lemma validate_sound:
  assumes "codec_ok env"
  shows "validate_walk env source c (length prefix) prefix = Inr n \<Longrightarrow> \<exists>xs. canonical_at env source c prefix n xs"
proof (induction "MAX_DEPTH - length prefix" arbitrary: prefix c n rule: less_induct)
  case less
  have depth: "length prefix \<le> MAX_DEPTH" using less.prems by (subst (asm) validate_walk.simps) (auto split: if_splits)
  obtain node where node: "read_verified env source c = Inr node"
    using less.prems depth by (subst (asm) validate_walk.simps) (auto simp: result_simps)
  have typed: "node_typed node" using node read_verified_encoded [OF assms] by metis
  show ?case
  proof (cases node)
    case (Leaf es)
    hence "check_leaf env (\<lambda>_. True) es (length prefix) prefix (cr_count c) = Inr n"
      using less.prems node depth by (subst (asm) validate_walk.simps) simp
    hence ok: "es \<noteq> []" "entries_ok prefix es" "leafy env es (length prefix)" "cr_count c = length es" "n = length es"
      using check_leaf_iff [OF assms _ depth] typed Leaf by auto
    hence "node_of env es (length prefix) = Leaf es" by (simp add: node_of_def leafy_def)
    thus ?thesis using canonical_node [OF assms ok(2,1) depth, of source c] ok node Leaf by auto
  next
    case (Branch cs)
    have len: "length cs = 16" using typed Branch by simp
    have depth': "length prefix < MAX_DEPTH" by (rule validate_branch_depth [OF less.prems node [unfolded Branch] depth])
    let ?w = "\<lambda>slot r. validate_walk env source r (Suc (length prefix)) (prefix @ [slot])"
    have run: "try_fold (slot_step ?w) (enumerate 0 cs) 0 = Inr n" "n = cr_count c" "flatten_slots cs \<noteq> []"
      "n \<le> MAX_LEAF_ENTRIES \<Longrightarrow> \<exists>parts. collect_result (\<lambda>slot. collect_entries env source slot (Suc (length prefix))) (flatten_slots cs) = Inr parts
        \<and> fits_leaf env (sort_key fst (concat parts)) (length prefix) = Inr False"
      using less.prems validate_walk_branch [OF node [unfolded Branch] depth', of prefix]
      by (auto simp: result_simps split: if_splits)
    have "\<exists>X. \<forall>i<16. (cs ! i = None \<and> X i = []) \<or> (\<exists>r. cs ! i = Some r \<and> canonical_at env source r (prefix @ [i]) (length (X i)) (X i) \<and> ?w i r = Inr (length (X i)))"
    proof (intro choice_iff' [THEN iffD1, rule_format] allI impI)
      fix i :: nat assume i: "i < 16"
      show "\<exists>xs. (cs ! i = None \<and> xs = []) \<or> (\<exists>r. cs ! i = Some r \<and> canonical_at env source r (prefix @ [i]) (length xs) xs \<and> ?w i r = Inr (length xs))"
      proof (cases "cs ! i")
        case (Some r)
        obtain m where m: "?w i r = Inr m" using slot_step_results(1) [OF run(1), of i r] Some i len by auto
        have "MAX_DEPTH - length (prefix @ [i]) < MAX_DEPTH - length prefix" using depth' by simp
        from less.hyps [OF this, of r m] m obtain xs where "canonical_at env source r (prefix @ [i]) m xs" by auto
        thus ?thesis using Some m by (auto simp: canonical_at_def)
      qed simp
    qed
    then obtain X where X: "\<And>i. i < 16 \<Longrightarrow> (cs ! i = None \<and> X i = []) \<or>
        (\<exists>r. cs ! i = Some r \<and> canonical_at env source r (prefix @ [i]) (length (X i)) (X i) \<and> ?w i r = Inr (length (X i)))" by blast
    show ?thesis using validate_branch_sound [OF assms node [unfolded Branch] depth' len X run] by blast
  qed
qed


section \<open>Pages\<close>

definition past :: "index_key option \<Rightarrow> bool \<Rightarrow> index_entry \<Rightarrow> bool" where
  "past after tight e \<longleftrightarrow> \<not> tight \<or> (case after of None \<Rightarrow> True | Some cursor \<Rightarrow> cursor < fst e)"

lemma page_fold:
  assumes "\<And>i out. i \<in> set is \<Longrightarrow> length out < limit \<Longrightarrow> f i out = Inr (out @ take (limit - length out) (G i))"
    and "\<And>i out. i \<in> set is \<Longrightarrow> limit \<le> length out \<Longrightarrow> f i out = Inr out"
  shows "try_fold f is out = Inr (out @ take (limit - length out) (concat (map G is)))"
  using assms
proof (induction "is" arbitrary: out)
  case (Cons i "is")
  have "f i out = Inr (out @ take (limit - length out) (G i))" using Cons.prems [of i out] by (cases "length out < limit") auto
  moreover have "try_fold f is out' = Inr (out' @ take (limit - length out') (concat (map G is)))" for out'
    using Cons.prems by (intro Cons.IH) auto
  ultimately show ?case by (simp add: min_def take_add [symmetric] not_le)
qed simp

lemma past_slots:
  assumes "entries_ok prefix xs" "length prefix < MAX_DEPTH" "after = Some cursor" "length cursor = 32" "\<forall>i<length prefix. nib cursor i = prefix ! i"
  shows "filter (past after True) xs = concat (map (\<lambda>i. filter (past after (i = nib cursor (length prefix))) (slot_of (length prefix) i xs))
    [nib cursor (length prefix)..<16])"
proof -
  let ?s = "nib cursor (length prefix)"
  have key: "length (fst e) = 32 \<and> (\<forall>i<length prefix. nib (fst e) i = nib cursor i)" if "e \<in> set xs" for e
    using assms(1,5) that by (auto simp: entries_ok_def below_prefix_def)
  have low: "filter (past after True) (slot_of (length prefix) i xs) = []" if "i < ?s" for i
  proof -
    have "fst e < cursor" if e: "e \<in> set xs" "nib (fst e) (length prefix) = i" for e
      using key [OF e(1)] e(2) \<open>i < ?s\<close> assms(2,4) by (intro nib_less_key [of _ _ "length prefix"]) auto
    thus ?thesis using assms(3) by (auto simp: filter_empty_conv slot_of_def past_def dest: order.asym)
  qed
  have high: "filter (past after True) (slot_of (length prefix) i xs) = slot_of (length prefix) i xs" if "?s < i" for i
  proof -
    have "cursor < fst e" if e: "e \<in> set xs" "nib (fst e) (length prefix) = i" for e
      using key [OF e(1)] e(2) \<open>?s < i\<close> assms(2,4) by (intro nib_less_key [of _ _ "length prefix"]) auto
    thus ?thesis using assms(3) by (auto simp: slot_of_def past_def [abs_def] intro!: filter_cong)
  qed
  have up: "[0..<16] = [0..<?s] @ [?s..<16]" using upt_add_eq_append [of 0 ?s "16 - ?s"] nib_less [of cursor "length prefix"] by simp
  have "filter (past after True) xs = concat (map (\<lambda>i. filter (past after True) (slot_of (length prefix) i xs)) [0..<16])"
    using sum_slots(2) [OF assms(1,2)] by (metis (no_types, lifting) filter_concat map_map comp_apply map_cong)
  also have "\<dots> = concat (map (\<lambda>i. filter (past after True) (slot_of (length prefix) i xs)) [?s..<16])"
    unfolding up using low by (auto simp: concat_eq_Nil_conv)
  also have "\<dots> = concat (map (\<lambda>i. filter (past after (i = ?s)) (slot_of (length prefix) i xs)) [?s..<16])"
    using high by (intro arg_cong [of _ _ concat] map_cong refl) (auto simp: past_def le_less)
  finally show ?thesis .
qed

lemma collect_placed:
  "below_prefix prefix xs \<Longrightarrow> length prefix \<le> MAX_DEPTH \<Longrightarrow> \<exists>us. collect_result (\<lambda>e. placed (fst e) 0 prefix) xs = Inr us"
proof (induction xs)
  case (Cons x xs)
  have "placed (fst x) 0 prefix = Inr ()" using placed_iff [of "fst x" 0 prefix] Cons.prems by (simp add: below_prefix_def)
  thus ?case using Cons by (auto simp: below_prefix_def)
qed simp

lemma page_stored:
  assumes "codec_ok env"
  shows "entries_ok prefix xs \<Longrightarrow> xs \<noteq> [] \<Longrightarrow> length prefix \<le> MAX_DEPTH \<Longrightarrow> stored env source xs (length prefix) \<Longrightarrow>
    root_of env xs (length prefix) = Some c \<Longrightarrow>
    (tight \<Longrightarrow> \<exists>cursor. after = Some cursor \<and> length cursor = 32 \<and> (\<forall>i<length prefix. nib cursor i = prefix ! i)) \<Longrightarrow>
    page_walk env source after limit c (length prefix) tight prefix out = Inr (out @ take (limit - length out) (filter (past after tight) xs))"
proof (induction "MAX_DEPTH - length prefix" arbitrary: prefix xs c tight out rule: less_induct)
  case less
  have sh: "shaped env xs (length prefix)" by (rule build_shaped [OF assms(1) less.prems(1-3)])
  note node = read_verified_root [OF assms sh less.prems(4,5)]
  show ?case
  proof (cases "limit \<le> length out")
    case True
    thus ?thesis by (subst page_walk.simps) simp
  next
    case room: False
    show ?thesis
    proof (cases "leafy env xs (length prefix)")
      case True
      obtain us where us: "collect_result (\<lambda>e. placed (fst e) 0 prefix) xs = Inr us"
        using collect_placed [of prefix xs] less.prems(1,3) by (auto simp: entries_ok_def)
      show ?thesis using node True room us less.prems(1-3)
        by (subst page_walk.simps)
          (auto simp: node_of_def leafy_def count_entries_def checked_u64_def entries_ok_def ascending_wf list_ex_iff past_def [abs_def] not_less)
    next
      case br: False
      have depth: "length prefix < MAX_DEPTH" by (rule not_leafy_depth [OF br])
      let ?r = "\<lambda>i. root_of env (slot_of (length prefix) i xs) (Suc (length prefix))"
      define start where "start = (if tight then nib (the after) (length prefix) else 0)"
      have st: "(if tight then (case after of Some cursor \<Rightarrow> nibble cursor (length prefix) | None \<Rightarrow> Inr 0) else Inr 0) = (Inr start :: index_failure + nat)"
        using less.prems(6) depth by (auto simp: start_def nibble_nib)
      have total: "child_total (flatten_slots (map ?r [0..<16])) 0 = Inr (length xs)"
        using check_branch_stored [OF assms less.prems(1,2) depth] by (auto simp: check_branch_def result_simps split: if_splits)
      let ?f = "\<lambda>slot out. if limit \<le> length out then Inr out else case map ?r [0..<16] ! slot of None \<Rightarrow> Inr out
        | Some child \<Rightarrow> page_walk env source after limit child (Suc (length prefix)) (tight \<and> slot = start) (prefix @ [slot]) out"
      have "try_fold ?f [start..<16] out = Inr (out @ take (limit - length out)
          (concat (map (\<lambda>i. filter (past after (tight \<and> i = start)) (slot_of (length prefix) i xs)) [start..<16])))"
      proof (rule page_fold)
        fix i and out' :: "index_entry list" assume "i \<in> set [start..<16]" "length out' < limit"
        hence i: "i < 16" "start \<le> i" "length out' < limit" by simp_all
        show "?f i out' = Inr (out' @ take (limit - length out') (filter (past after (tight \<and> i = start)) (slot_of (length prefix) i xs)))"
        proof (cases "slot_of (length prefix) i xs = []")
          case False
          obtain child where child: "?r i = Some child" using slot_roots [OF assms less.prems(1) depth _ False, of "\<lambda>_. True"] by blast
          have "page_walk env source after limit child (length (prefix @ [i])) (tight \<and> i = start) (prefix @ [i]) out' =
              Inr (out' @ take (limit - length out') (filter (past after (tight \<and> i = start)) (slot_of (length prefix) i xs)))"
          proof (rule less.hyps [OF _ entries_ok_slot [OF less.prems(1)] False])
            assume "tight \<and> i = start"
            thus "\<exists>cursor. after = Some cursor \<and> length cursor = 32 \<and> (\<forall>j<length (prefix @ [i]). nib cursor j = (prefix @ [i]) ! j)"
              using less.prems(6) by (auto simp: start_def nth_append less_Suc_eq)
          qed (use depth child stored_slot [OF sh less.prems(4) br i(1)] in simp_all)
          thus ?thesis using i child by simp
        qed (use i in simp)
      qed simp
      moreover have "concat (map (\<lambda>i. filter (past after (tight \<and> i = start)) (slot_of (length prefix) i xs)) [start..<16]) = filter (past after tight) xs"
      proof (cases tight)
        case True
        thus ?thesis using past_slots [OF less.prems(1) depth] less.prems(6) by (auto simp: start_def)
      next
        case False
        have "filter (past after False) ys = ys" for ys by (simp add: past_def)
        thus ?thesis using False sum_slots(2) [OF less.prems(1) depth] by (simp add: start_def)
      qed
      moreover have deeper: "next_depth (length prefix) = Inr (Suc (length prefix))" using depth by (simp add: next_depth_Inr)
      ultimately show ?thesis using node room total st depth br less.prems(2)
        by (subst page_walk.simps, unfold deeper try_then_simps) (simp add: node_of_def leafy_def branch_of_def FANOUT_def)
    qed
  qed
qed

section \<open>Properties\<close>

text \<open>C36: Looking a key up in a stored index answers the value of the key in the set, or that it has none,
  with every check of the path passed.\<close>

theorem lookup_exact:
  assumes "codec_ok env" "entries_ok [] xs" "build_index env xs = Inr (root, nodes)"
    and "\<forall>b\<in>set nodes. source (ne_hash env b) = Some b" "length key = 32"
  shows "lookup_index env source root key = Inr (map_of xs key)"
proof -
  note root = built_index [OF assms(2,3)]
  have "stored env source xs 0" using assms(4) root by (simp add: stored_def)
  thus ?thesis using lookup_stored [OF assms(1,5,2), of source "\<lambda>_. True"] root
    by (simp add: lookup_index_def lookup_validated_def)
qed

text \<open>C35: Validation accepts exactly the canonical trees: a root is accepted with a number of entries if and only if
  it is the root that building some set of that many entries gives and the source stores every node of
  that tree.\<close>

theorem validate_exact:
  assumes "codec_ok env"
  shows "validate_index env source root = Inr n \<longleftrightarrow>
    (\<exists>xs nodes. entries_ok [] xs \<and> length xs = n \<and> build_index env xs = Inr (root, nodes)
      \<and> (\<forall>b\<in>set nodes. source (ne_hash env b) = Some b))"
    (is "?accepted \<longleftrightarrow> (\<exists>xs nodes. ?canonical xs nodes)")
proof
  assume a: ?accepted
  show "\<exists>xs nodes. ?canonical xs nodes"
  proof (cases root)
    case None
    hence "?canonical [] []"
      using a by (auto simp: validate_index_def build_index_def build_empty entries_ok_def below_prefix_def)
    thus ?thesis by blast
  next
    case (Some c)
    hence "validate_walk env source c (length ([] :: nat list)) [] = Inr n" using a by (simp add: validate_index_def)
    then obtain xs where xs: "canonical_at env source c [] n xs" using validate_sound [OF assms] by blast
    hence ok: "entries_ok [] xs" by (simp add: canonical_at_def)
    have "build_index env xs = Inr (root_of env xs 0, nodes_of env xs 0)"
      using build_built [OF assms ok] build_index_sorted [OF ok] by (simp add: built_def)
    thus ?thesis using xs Some ok by (auto simp: canonical_at_def stored_def)
  qed
next
  assume "\<exists>xs nodes. ?canonical xs nodes"
  then obtain xs nodes where c: "?canonical xs nodes" by blast
  hence root: "root = root_of env xs 0" "nodes = nodes_of env xs 0" using built_index by blast+
  have st: "stored env source xs 0" using c root by (simp add: stored_def)
  show ?accepted
  proof (cases "xs = []")
    case True
    thus ?thesis using c root by (simp add: validate_index_def)
  next
    case False
    then obtain r where "root_of env xs 0 = Some r" using built_nonempty build_built [OF assms, of "[]" xs] c by fastforce
    thus ?thesis using validate_stored [OF assms, of "[]" xs source r] c root st False by (simp add: validate_index_def)
  qed
qed

text \<open>A page of a stored index is the first entries, up to the limit, after the cursor in the order of keys.\<close>

theorem page_exact:
  assumes "codec_ok env" "entries_ok [] xs" "build_index env xs = Inr (root, nodes)"
    and "\<forall>b\<in>set nodes. source (ne_hash env b) = Some b" "length cursor = 32" "0 < limit" "limit \<le> 4097"
  shows "page_after env source root (Some cursor) limit = Inr (take limit (filter (\<lambda>e. cursor < fst e) xs))"
proof (cases "xs = []")
  case True
  thus ?thesis using assms(3,6,7) by (simp add: build_index_def build_empty page_after_def)
next
  case False
  note root = built_index [OF assms(2,3)]
  have st: "stored env source xs 0" using assms(4) root by (simp add: stored_def)
  obtain r where r: "root_of env xs 0 = Some r" using built_nonempty build_built [OF assms(1), of "[]" xs] assms(2) False by fastforce
  have "filter (past (Some cursor) True) xs = filter (\<lambda>e. cursor < fst e) xs" by (simp add: past_def [abs_def])
  thus ?thesis using page_stored [OF assms(1,2) False, of source r True "Some cursor" limit "[]"] st r root assms(5-7)
    by (simp add: page_after_def)
qed


theorem lookup_exact_witness:
  "codec_ok demo_node_env \<and> build_index demo_node_env demo_index = Inr (demo_root, [demo_index_leaf]) \<and>
    lookup_index demo_node_env (\<lambda>_. Some demo_index_leaf) demo_root (replicate 32 CHR ''b'') = Inr (Some ''two'')"
proof -
  have "lookup_index demo_node_env (\<lambda>_. Some demo_index_leaf) demo_root (replicate 32 CHR ''b'') = Inr (map_of demo_index (replicate 32 CHR ''b''))"
    by (rule lookup_exact [OF demo_codec_ok demo_index_ok demo_build]) simp_all
  thus ?thesis using demo_codec_ok demo_build by (simp add: demo_index_def)
qed

theorem validate_exact_witness:
  "codec_ok demo_node_env \<and> validate_index demo_node_env (\<lambda>_. Some demo_index_leaf) demo_root = Inr 2"
proof -
  have "\<exists>xs nodes. entries_ok [] xs \<and> length xs = 2 \<and> build_index demo_node_env xs = Inr (demo_root, nodes)
      \<and> (\<forall>b\<in>set nodes. (\<lambda>_. Some demo_index_leaf) (ne_hash demo_node_env b) = Some b)"
    using demo_index_ok demo_build by (intro exI [of _ demo_index] exI [of _ "[demo_index_leaf]"]) (simp add: demo_index_def)
  thus ?thesis unfolding validate_exact [OF demo_codec_ok] using demo_codec_ok by blast
qed

theorem page_exact_witness:
  "codec_ok demo_node_env \<and> build_index demo_node_env demo_index = Inr (demo_root, [demo_index_leaf]) \<and>
    page_after demo_node_env (\<lambda>_. Some demo_index_leaf) demo_root (Some (replicate 32 CHR ''a'')) 5 = Inr [(replicate 32 CHR ''b'', ''two'')]"
proof -
  have "page_after demo_node_env (\<lambda>_. Some demo_index_leaf) demo_root (Some (replicate 32 CHR ''a'')) 5 =
      Inr (take 5 (filter (\<lambda>e. replicate 32 CHR ''a'' < fst e) demo_index))"
    by (rule page_exact [OF demo_codec_ok demo_index_ok demo_build]) simp_all
  thus ?thesis using demo_codec_ok demo_build by (simp add: demo_index_def numeral_eq_Suc)
qed

end
