(* ===== verification/RadixReconcile.thy ===== *)
theory RadixReconcile
  imports RadixRead "HOL-Library.Sublist"
begin

text \<open>
  Reconciling two indexes by descent (\<^verbatim>\<open>Reconciliation\<close> in \<^verbatim>\<open>crates/journal/src/index.rs\<close>): the state machine
  that is fed nodes of a remote index and answers with the nodes to fetch next or with the entries the
  remote holds and the local side does not. The nodes a round supplies are a function from hashes to bytes.
  An absorb that fails ends the session, so no state comes with its error.

  What is shown: whatever is supplied, in whatever order and over however many rounds, a session that
  completes answers exactly the difference of the two sets; and a session that is supplied all it asks
  for completes within one round per level, within the number of nodes of the remote index.
\<close>

section \<open>The state machine\<close>

record reconciliation =
  rc_wanted :: "(child_ref \<times> child_ref option \<times> nat) list"
  rc_missing :: "index_entry list"
  rc_seen :: "bytes set"
  rc_fetched :: nat
  rc_max_nodes :: nat

datatype reconciliation_step = Fetch "bytes list" | Complete "index_entry list"

definition reconcile_begin :: "child_ref option \<Rightarrow> child_ref option \<Rightarrow> nat \<Rightarrow> reconciliation" where
  "reconcile_begin local remote max_nodes =
    \<lparr>rc_wanted = (case remote of None \<Rightarrow> [] | Some r \<Rightarrow> if Some r \<noteq> local then [(r, local, 0)] else []),
     rc_missing = [], rc_seen = {}, rc_fetched = 0, rc_max_nodes = max_nodes\<rparr>"

fun dedup_by_key :: "index_entry list \<Rightarrow> index_entry list" where
  "dedup_by_key (a # b # es) = (if fst a = fst b then dedup_by_key (a # es) else a # dedup_by_key (b # es))"
| "dedup_by_key es = es"

definition reconcile_step :: "reconciliation \<Rightarrow> reconciliation_step \<times> reconciliation" where
  "reconcile_step s =
    (if rc_wanted s = [] then (Complete (dedup_by_key (sort_key fst (rc_missing s))), s\<lparr>rc_missing := []\<rparr>)
     else (Fetch (map (\<lambda>(remote, _, _). cr_hash remote) (rc_wanted s)), s))"

function lookup_from :: "node_env \<Rightarrow> node_source \<Rightarrow> index_key \<Rightarrow> child_ref option \<Rightarrow> nat \<Rightarrow> index_failure + bytes option" where
  "lookup_from env source key current depth =
    (case current of
       None \<Rightarrow> Inr None
     | Some child \<Rightarrow>
         if MAX_DEPTH < depth then Inl Bounds
         else case source (cr_hash child) of
           None \<Rightarrow> Inr None
         | Some bytes \<Rightarrow>
             try_then (node_decode_canonical env bytes) (\<lambda>node.
             case node of
               Leaf entries \<Rightarrow> Inr (map_option snd (find (\<lambda>e. fst e = key) entries))
             | Branch children \<Rightarrow>
                 try_then (nibble key depth) (\<lambda>slot.
                 try_then (next_depth depth) (\<lambda>d. lookup_from env source key (children ! slot) d))))"
  by pat_completeness auto
termination
  by (relation "measure (\<lambda>(_, _, _, _, depth). MAX_DEPTH - depth)") (auto simp: next_depth_Inr)

declare lookup_from.simps [simp del]

definition local_node :: "node_env \<Rightarrow> node_source \<Rightarrow> child_ref option \<Rightarrow> index_failure + index_node option" where
  "local_node env source local_child =
    (case local_child of
       None \<Rightarrow> Inr None
     | Some child \<Rightarrow> (case source (cr_hash child) of
         None \<Rightarrow> Inr None
       | Some bytes \<Rightarrow> try_then (node_decode_canonical env bytes) (\<lambda>node. Inr (Some node))))"

definition push_missing :: "index_entry \<Rightarrow> reconciliation \<Rightarrow> reconciliation" where
  "push_missing e s = s\<lparr>rc_missing := rc_missing s @ [e]\<rparr>"

definition push_wanted :: "child_ref \<Rightarrow> child_ref option \<Rightarrow> nat \<Rightarrow> reconciliation \<Rightarrow> index_failure + reconciliation" where
  "push_wanted remote local_child depth s =
    try_then (next_depth depth) (\<lambda>d. Inr (s\<lparr>rc_wanted := rc_wanted s @ [(remote, local_child, d)]\<rparr>))"

definition reconcile_compare ::
  "node_env \<Rightarrow> node_source \<Rightarrow> index_node \<Rightarrow> child_ref option \<Rightarrow> nat \<Rightarrow> reconciliation \<Rightarrow> index_failure + reconciliation" where
  "reconcile_compare env source remote local_child depth s =
    try_then (local_node env source local_child) (\<lambda>node.
      case (remote, node) of
        (Leaf remote_entries, Some (Leaf local_entries)) \<Rightarrow>
          Inr (fold (\<lambda>entry s. if list_ex (\<lambda>l. fst l = fst entry \<and> snd l = snd entry) local_entries then s else push_missing entry s)
            remote_entries s)
      | (Leaf remote_entries, _) \<Rightarrow>
          try_fold (\<lambda>entry s.
            try_then (lookup_from env source (fst entry) local_child depth) (\<lambda>held.
              Inr (if held = Some (snd entry) then s else push_missing entry s))) remote_entries s
      | (Branch remote_children, Some (Branch local_children)) \<Rightarrow>
          try_fold (\<lambda>(slot, remote_slot) s.
            case remote_slot of
              None \<Rightarrow> Inr s
            | Some r \<Rightarrow>
                if length local_children \<le> slot then Inl Bounds
                else if local_children ! slot = Some r then Inr s
                else push_wanted r (local_children ! slot) depth s) (enumerate 0 remote_children) s
      | (Branch remote_children, _) \<Rightarrow>
          try_fold (\<lambda>r s. push_wanted r local_child depth s) (flatten_slots remote_children) s)"

definition absorb_one ::
  "node_env \<Rightarrow> node_source \<Rightarrow> (bytes \<Rightarrow> bytes option) \<Rightarrow> child_ref \<times> child_ref option \<times> nat \<Rightarrow> reconciliation \<Rightarrow>
   index_failure + reconciliation" where
  "absorb_one env source remote_nodes = (\<lambda>(remote, local_child, depth) s.
    case remote_nodes (cr_hash remote) of
      None \<Rightarrow> Inr (s\<lparr>rc_wanted := rc_wanted s @ [(remote, local_child, depth)]\<rparr>)
    | Some bytes \<Rightarrow>
        if ne_hash env bytes \<noteq> cr_hash remote then Inl NonCanonical
        else if cr_hash remote \<in> rc_seen s then Inr s
        else let s = s\<lparr>rc_seen := insert (cr_hash remote) (rc_seen s)\<rparr> in
          try_then (checked_u64 Bounds (rc_fetched s + 1)) (\<lambda>fetched.
          if rc_max_nodes s < fetched \<or> MAX_DEPTH < depth then Inl Bounds
          else try_then (node_decode_canonical env bytes) (\<lambda>node.
            reconcile_compare env source node local_child depth (s\<lparr>rc_fetched := fetched\<rparr>))))"

definition reconcile_absorb ::
  "node_env \<Rightarrow> node_source \<Rightarrow> (bytes \<Rightarrow> bytes option) \<Rightarrow> reconciliation \<Rightarrow> index_failure + reconciliation" where
  "reconcile_absorb env source remote_nodes s =
    try_fold (absorb_one env source remote_nodes) (rc_wanted s) (s\<lparr>rc_wanted := []\<rparr>)"

section \<open>A root commits to its set\<close>

definition sub :: "nat list \<Rightarrow> index_entry list \<Rightarrow> index_entry list" where
  \<comment> \<open>the entries below a prefix\<close>
  "sub p xs = filter (\<lambda>x. \<forall>i<length p. nib (fst x) i = p ! i) xs"

lemma sub_Nil [simp]: "sub [] xs = xs" by (simp add: sub_def)

lemma sub_snoc: "sub (p @ [i]) xs = slot_of (length p) i (sub p xs)"
  by (auto simp: sub_def slot_of_def nth_append less_Suc_eq intro!: filter_cong)

lemma set_sub: "e \<in> set (sub p xs) \<longleftrightarrow> e \<in> set xs \<and> (\<forall>i<length p. nib (fst e) i = p ! i)"
  by (auto simp: sub_def)

lemma entries_ok_sub: "entries_ok [] xs \<Longrightarrow> entries_ok p (sub p xs)"
proof (induction p rule: rev_induct)
  case (snoc i p)
  thus ?case using entries_ok_slot [of p "sub p xs" i] by (simp add: sub_snoc)
qed simp

lemma sub_prefix: "prefix q p \<Longrightarrow> set (sub p xs) \<subseteq> set (sub q xs)"
  by (auto simp: set_sub prefix_def nth_append)

lemma nodes_slot:
  assumes "shaped env xs depth" "\<not> leafy env xs depth" "i < 16"
  shows "set (nodes_of env (slot_of depth i xs) (Suc depth)) \<subseteq> set (nodes_of env xs depth)"
  using assms nodes_of_shaped [OF assms(1)] by auto

lemma decode_shaped:
  assumes "codec_ok env" "shaped env xs d"
  shows "node_decode_canonical env (bytes_of env (node_of env xs d)) = Inr (node_of env xs d)"
  using assms(2) by (intro decode_encoded [OF assms(1)]) (simp_all add: shaped_def)

lemma node_bytes_inj:
  assumes "codec_ok env" "inj_on (ne_hash env) S" "shaped env xs d" "shaped env ys e"
    and "set (nodes_of env xs d) \<subseteq> S" "set (nodes_of env ys e) \<subseteq> S"
    and "ne_hash env (bytes_of env (node_of env xs d)) = ne_hash env (bytes_of env (node_of env ys e))"
  shows "node_of env xs d = node_of env ys e"
proof -
  have "bytes_of env (node_of env xs d) \<in> S" "bytes_of env (node_of env ys e) \<in> S"
    using assms(5,6) by (simp_all add: nodes_of_shaped [OF assms(3)] nodes_of_shaped [OF assms(4)])
  hence b: "bytes_of env (node_of env xs d) = bytes_of env (node_of env ys e)" by (rule inj_onD [OF assms(2,7)])
  have "(Inr (node_of env xs d) :: index_failure + index_node) = Inr (node_of env ys e)"
    unfolding decode_shaped [OF assms(1,3), symmetric] decode_shaped [OF assms(1,4), symmetric] b ..
  thus ?thesis by (rule sum.inject(2) [THEN iffD1])
qed

lemma root_commits:
  assumes "codec_ok env" "inj_on (ne_hash env) S"
  shows "entries_ok p xs \<Longrightarrow> entries_ok q ys \<Longrightarrow> length p \<le> MAX_DEPTH \<Longrightarrow> length q \<le> MAX_DEPTH \<Longrightarrow> xs \<noteq> [] \<Longrightarrow> ys \<noteq> [] \<Longrightarrow>
    set (nodes_of env xs (length p)) \<subseteq> S \<Longrightarrow> set (nodes_of env ys (length q)) \<subseteq> S \<Longrightarrow>
    ne_hash env (bytes_of env (node_of env xs (length p))) = ne_hash env (bytes_of env (node_of env ys (length q))) \<Longrightarrow> xs = ys"
proof (induction "MAX_DEPTH - length p" arbitrary: p xs q ys rule: less_induct)
  case less
  have sh: "shaped env xs (length p)" "shaped env ys (length q)"
    using build_shaped [OF assms(1)] less.prems by auto
  have eq: "node_of env xs (length p) = node_of env ys (length q)"
    by (rule node_bytes_inj [OF assms sh less.prems(7-9)])
  show ?case
  proof (cases "leafy env xs (length p) \<or> leafy env ys (length q)")
    case True
    thus ?thesis using eq by (auto simp: node_of_def leafy_def branch_of_def split: if_splits)
  next
    case False
    hence br: "\<not> leafy env xs (length p)" "\<not> leafy env ys (length q)" by auto
    hence depth: "length p < MAX_DEPTH" "length q < MAX_DEPTH" using not_leafy_depth by auto
    have slot: "slot_of (length p) i xs = slot_of (length q) i ys" if i: "i < 16" for i
    proof -
      let ?x = "slot_of (length p) i xs" and ?y = "slot_of (length q) i ys"
      have ok: "entries_ok (p @ [i]) ?x" "entries_ok (q @ [i]) ?y" using less.prems by (auto intro: entries_ok_slot)
      have r: "root_of env ?x (Suc (length p)) = root_of env ?y (Suc (length q))"
        using eq br i by (simp add: node_of_def leafy_def branch_of_def)
      have "?x = [] \<longleftrightarrow> ?y = []"
        using r built_nonempty build_built [OF assms(1) ok(1)] build_built [OF assms(1) ok(2)] depth by fastforce
      moreover have "?x = ?y" if ne: "?x \<noteq> []" "?y \<noteq> []"
      proof (rule less.hyps [of "p @ [i]" ?x "q @ [i]" ?y])
        have "shaped env ?x (Suc (length p))" "shaped env ?y (Suc (length q))"
          using build_shaped [OF assms(1) ok(1)] build_shaped [OF assms(1) ok(2)] ne depth by auto
        thus "ne_hash env (bytes_of env (node_of env ?x (length (p @ [i])))) = ne_hash env (bytes_of env (node_of env ?y (length (q @ [i]))))"
          using r root_of_shaped by simp
      qed (use ok ne depth nodes_slot [OF sh(1) br(1) i] nodes_slot [OF sh(2) br(2) i] less.prems(7,8) in auto)
      ultimately show ?thesis by (cases "?x = []") simp_all
    qed
    have "map (slots xs (length p)) [0..<16] = map (slots ys (length q)) [0..<16]" using slot by simp
    thus ?thesis using sum_slots(2) [OF less.prems(1) depth(1)] sum_slots(2) [OF less.prems(2) depth(2)] by metis
  qed
qed

lemma leafy_depth: "leafy env xs d \<Longrightarrow> d \<le> e \<Longrightarrow> leafy env xs e" "leafy env xs e \<Longrightarrow> e < MAX_DEPTH \<Longrightarrow> leafy env xs d"
  by (auto simp: leafy_def fits_leaf_def split: if_splits)

text \<open>The trees of one set at two depths have different roots, unless both are leaves.\<close>

lemma roots_differ_by_depth:
  assumes "codec_ok env" "inj_on (ne_hash env) S"
  shows "entries_ok p xs \<Longrightarrow> d < length p \<Longrightarrow> length p \<le> MAX_DEPTH \<Longrightarrow> xs \<noteq> [] \<Longrightarrow> \<not> leafy env xs d \<Longrightarrow>
    set (nodes_of env xs d) \<subseteq> S \<Longrightarrow> set (nodes_of env xs (length p)) \<subseteq> S \<Longrightarrow>
    ne_hash env (bytes_of env (node_of env xs d)) \<noteq> ne_hash env (bytes_of env (node_of env xs (length p)))"
proof (induction "MAX_DEPTH - length p" arbitrary: p d rule: less_induct)
  case less
  have ok: "entries_ok (take d p) xs" using less.prems(1,2) by (auto simp: entries_ok_def below_prefix_def)
  have sh: "shaped env xs d" "shaped env xs (length p)"
    using build_shaped [OF assms(1) ok] build_shaped [OF assms(1) less.prems(1)] less.prems by auto
  show ?case
  proof
    assume h: "ne_hash env (bytes_of env (node_of env xs d)) = ne_hash env (bytes_of env (node_of env xs (length p)))"
    have eq: "node_of env xs d = node_of env xs (length p)" by (rule node_bytes_inj [OF assms sh less.prems(6,7) h])
    have br: "\<not> leafy env xs (length p)" using eq less.prems(5) by (auto simp: node_of_def leafy_def branch_of_def split: if_splits)
    hence depth: "length p < MAX_DEPTH" by (rule not_leafy_depth)
    let ?i = "p ! d" and ?z = "slot_of (length p) (p ! d) xs"
    have all: "slot_of d ?i xs = xs" using less.prems(1,2) by (auto simp: slot_of_def entries_ok_def below_prefix_def intro!: filter_True)
    obtain x where x: "x \<in> set xs" using less.prems(4) by (cases xs) auto
    hence "nib (fst x) d = ?i" using less.prems(1,2) by (simp add: entries_ok_def below_prefix_def)
    hence i: "?i < 16" using nib_less [of "fst x" d] by simp
    have r: "root_of env xs (Suc d) = root_of env ?z (Suc (length p))"
      using eq br less.prems(5) i all by (auto simp: node_of_def leafy_def branch_of_def dest: bspec [of _ _ "p ! d"])
    have okz: "entries_ok (p @ [?i]) ?z" by (rule entries_ok_slot [OF less.prems(1)])
    have okd: "entries_ok (take (Suc d) p) xs" using less.prems(1,2) by (auto simp: entries_ok_def below_prefix_def)
    have sh1: "shaped env xs (Suc d)" using build_shaped [OF assms(1) okd less.prems(4)] less.prems(2,3) by simp
    have ne: "?z \<noteq> []"
      using r root_of_shaped [OF sh1] by (auto simp: root_of_empty)
    have sh2: "shaped env ?z (Suc (length p))" using build_shaped [OF assms(1) okz ne] depth by simp
    have h1: "ne_hash env (bytes_of env (node_of env xs (Suc d))) = ne_hash env (bytes_of env (node_of env ?z (Suc (length p))))"
      using r root_of_shaped [OF sh1] root_of_shaped [OF sh2] by simp
    have sub: "set (nodes_of env xs (Suc d)) \<subseteq> S" "set (nodes_of env ?z (Suc (length p))) \<subseteq> S"
      using nodes_slot [OF sh(1) less.prems(5) i] nodes_slot [OF sh(2) br i] all less.prems(6,7) by auto
    have z: "xs = ?z"
      using root_commits [OF assms okd okz, simplified] less.prems(2,4) depth ne sub h1 by (simp add: min_absorb2)
    have "\<not> leafy env xs (Suc d)" using leafy_depth(2) less.prems(2,5) depth by (metis Suc_lessI less_trans not_less_eq)
    hence "ne_hash env (bytes_of env (node_of env xs (Suc d))) \<noteq> ne_hash env (bytes_of env (node_of env xs (length (p @ [?i]))))"
      using okz z depth less.prems(2,4) sub by (intro less.hyps) simp_all
    thus False using h1 z by simp
  qed
qed

section \<open>Comparing one node\<close>

definition session :: "node_env \<Rightarrow> node_source \<Rightarrow> bytes set \<Rightarrow> index_entry list \<Rightarrow> index_entry list \<Rightarrow> bool" where
  \<comment> \<open>the local set is stored, and no two of the byte strings in \<open>S\<close> have one hash\<close>
  "session env source S xs ys \<longleftrightarrow> codec_ok env \<and> entries_ok [] xs \<and> entries_ok [] ys \<and> stored env source xs 0
    \<and> set (nodes_of env xs 0) \<subseteq> S \<and> set (nodes_of env ys 0) \<subseteq> S \<and> inj_on (ne_hash env) S"

definition local_ok :: "node_env \<Rightarrow> node_source \<Rightarrow> bytes set \<Rightarrow> index_entry list \<Rightarrow> nat list \<Rightarrow> child_ref option \<Rightarrow> bool" where
  \<comment> \<open>the local subtree at a prefix, or the local leaf above it\<close>
  "local_ok env source S xs p lc \<longleftrightarrow> (\<exists>q. prefix q p \<and> lc = root_of env (sub q xs) (length q) \<and> stored env source (sub q xs) (length q)
    \<and> set (nodes_of env (sub q xs) (length q)) \<subseteq> S \<and> (q = p \<or> leafy env (sub q xs) (length q)))"

definition tree_at :: "node_env \<Rightarrow> index_entry list \<Rightarrow> nat list \<Rightarrow> bool" where
  \<comment> \<open>the remote index has a node at a prefix\<close>
  "tree_at env ys p \<longleftrightarrow> length p \<le> MAX_DEPTH \<and> sub p ys \<noteq> [] \<and> set (nodes_of env (sub p ys) (length p)) \<subseteq> set (nodes_of env ys 0)
    \<and> (\<forall>q. strict_prefix q p \<longrightarrow> \<not> leafy env (sub q ys) (length q))"

definition item_ok ::
  "node_env \<Rightarrow> node_source \<Rightarrow> bytes set \<Rightarrow> index_entry list \<Rightarrow> index_entry list \<Rightarrow> nat list \<Rightarrow> child_ref \<times> child_ref option \<times> nat \<Rightarrow> bool" where
  "item_ok env source S xs ys p = (\<lambda>(r, lc, d). d = length p \<and> tree_at env ys p \<and> root_of env (sub p ys) (length p) = Some r
    \<and> local_ok env source S xs p lc)"

lemma tree_shaped: "session env source S xs ys \<Longrightarrow> tree_at env ys p \<Longrightarrow> shaped env (sub p ys) (length p)"
  using build_shaped [OF _ entries_ok_sub] by (simp add: session_def tree_at_def)

lemma tree_child:
  assumes "session env source S xs ys" "tree_at env ys p" "\<not> leafy env (sub p ys) (length p)" "i < 16" "sub (p @ [i]) ys \<noteq> []"
  shows "tree_at env ys (p @ [i])"
proof -
  have "strict_prefix q (p @ [i]) \<Longrightarrow> \<not> leafy env (sub q ys) (length q)" for q
    using assms(2,3) by (cases "q = p") (auto simp: tree_at_def strict_prefix_def)
  thus ?thesis using nodes_slot [OF tree_shaped [OF assms(1,2)] assms(3,4)] not_leafy_depth [OF assms(3)] assms(2,5)
    by (auto simp: tree_at_def sub_snoc)
qed

lemma held_below: "prefix q p \<Longrightarrow> e \<in> set (sub p ys) \<Longrightarrow> e \<in> set (sub q xs) \<longleftrightarrow> e \<in> set xs"
  by (auto simp: set_sub prefix_def nth_append)

lemma lookup_from_stored:
  assumes "codec_ok env" "length key = 32"
  shows "entries_ok p xs \<Longrightarrow> length p \<le> MAX_DEPTH \<Longrightarrow> stored env source xs (length p) \<Longrightarrow>
    lookup_from env source key (root_of env xs (length p)) (length p) = Inr (map_of xs key)"
proof (induction "MAX_DEPTH - length p" arbitrary: p xs rule: less_induct)
  case less
  show ?case
  proof (cases "xs = []")
    case True
    thus ?thesis by (subst lookup_from.simps) simp
  next
    case False
    have sh: "shaped env xs (length p)" by (rule build_shaped [OF assms(1) less.prems(1) False less.prems(2)])
    obtain c where c: "root_of env xs (length p) = Some c" "source (cr_hash c) = Some (bytes_of env (node_of env xs (length p)))"
      "node_decode_canonical env (bytes_of env (node_of env xs (length p))) = Inr (node_of env xs (length p))"
      by (rule read_root [OF assms(1) sh less.prems(3)])
    show ?thesis
    proof (cases "leafy env xs (length p)")
      case True
      thus ?thesis using c less.prems(2) by (subst lookup_from.simps) (simp add: node_of_def leafy_def find_map_of not_less)
    next
      case br: False
      have depth: "length p < MAX_DEPTH" by (rule not_leafy_depth [OF br])
      let ?i = "nib key (length p)"
      have "lookup_from env source key (root_of env (slot_of (length p) ?i xs) (length (p @ [?i]))) (length (p @ [?i])) =
          Inr (map_of (slot_of (length p) ?i xs) key)"
        using depth stored_slot [OF sh less.prems(3) br nib_less] by (intro less.hyps entries_ok_slot less.prems(1)) auto
      thus ?thesis
        using c br depth nibble_nib [OF assms(2) depth] nib_less [of key "length p"]
        by (subst lookup_from.simps) (simp add: node_of_def leafy_def branch_of_def map_of_slot next_depth_def not_less Suc_le_eq)
    qed
  qed
qed

lemma local_cases:
  assumes "session env source S xs ys" "local_ok env source S xs p lc" "length p \<le> MAX_DEPTH"
  obtains (absent) "lc = None" "sub p xs = []" "local_node env source lc = Inr None"
  | (leaf) q where "prefix q p" "local_node env source lc = Inr (Some (Leaf (sub q xs)))" "\<forall>r. local_ok env source S xs (p @ r) lc"
  | (branch) "local_node env source lc = Inr (Some (branch_of env (sub p xs) (length p)))" "lc = root_of env (sub p xs) (length p)"
      "\<not> leafy env (sub p xs) (length p)" "sub p xs \<noteq> []" "stored env source (sub p xs) (length p)"
      "set (nodes_of env (sub p xs) (length p)) \<subseteq> S"
proof -
  obtain q where q: "prefix q p" "lc = root_of env (sub q xs) (length q)" "stored env source (sub q xs) (length q)"
    "set (nodes_of env (sub q xs) (length q)) \<subseteq> S" "q = p \<or> leafy env (sub q xs) (length q)"
    using assms(2) by (auto simp: local_ok_def)
  have cod: "codec_ok env" and ok: "entries_ok q (sub q xs)" using assms(1) entries_ok_sub by (auto simp: session_def)
  have len: "length q \<le> MAX_DEPTH" using q(1) assms(3) prefix_length_le by fastforce
  show thesis
  proof (cases "sub q xs = []")
    case True
    hence "sub p xs = []" using sub_prefix [OF q(1), of xs] by simp
    thus thesis using True q(2) by (intro absent) (simp_all add: local_node_def)
  next
    case False
    have sh: "shaped env (sub q xs) (length q)" by (rule build_shaped [OF cod ok False len])
    have node: "local_node env source lc = Inr (Some (node_of env (sub q xs) (length q)))"
      by (rule read_root [OF cod sh q(3)]) (simp add: q(2) local_node_def)
    show thesis
    proof (cases "leafy env (sub q xs) (length q)")
      case True
      have "local_ok env source S xs (p @ r) lc" for r
        unfolding local_ok_def using q True by (intro exI [of _ q]) (simp add: prefix_prefix)
      thus thesis using leaf [OF q(1)] node True by (simp add: node_of_def leafy_def)
    next
      case br: False
      thus thesis using branch q False node by (simp add: node_of_def leafy_def)
    qed
  qed
qed

lemma fold_missing:
  "fold (\<lambda>e s. if P e then s else push_missing e s) es s = s\<lparr>rc_missing := rc_missing s @ filter (\<lambda>e. \<not> P e) es\<rparr>"
  by (induction es arbitrary: s) (simp_all add: push_missing_def)

lemma try_fold_missing:
  "(\<And>e. e \<in> set es \<Longrightarrow> f e = Inr (h e)) \<Longrightarrow>
    try_fold (\<lambda>e s. try_then (f e) (\<lambda>held. Inr (if held = Some (snd e) then s else push_missing e s))) es s =
    Inr (s\<lparr>rc_missing := rc_missing s @ filter (\<lambda>e. h e \<noteq> Some (snd e)) es\<rparr>)"
  by (induction es arbitrary: s) (simp_all add: push_missing_def)

lemma compare_leaf:
  assumes "session env source S xs ys" "local_ok env source S xs p lc" "length p \<le> MAX_DEPTH"
  shows "reconcile_compare env source (Leaf (sub p ys)) lc (length p) s =
    Inr (s\<lparr>rc_missing := rc_missing s @ filter (\<lambda>e. e \<notin> set xs) (sub p ys)\<rparr>)"
  using assms
proof (cases rule: local_cases)
  case absent
  have "e \<notin> set xs" if "e \<in> set (sub p ys)" for e using held_below [of p p e ys xs] that absent(2) by simp
  hence "filter (\<lambda>e. e \<notin> set xs) (sub p ys) = sub p ys" by (auto intro: filter_True)
  thus ?thesis using absent try_fold_missing [of "sub p ys" "\<lambda>_. Inr None" "\<lambda>_. None" s]
    by (simp add: reconcile_compare_def lookup_from.simps)
next
  case (leaf q)
  have "list_ex (\<lambda>l. fst l = fst e \<and> snd l = snd e) (sub q xs) \<longleftrightarrow> e \<in> set xs" if "e \<in> set (sub p ys)" for e
    using held_below [OF leaf(1) that] by (auto simp: list_ex_iff prod_eq_iff [symmetric])
  hence "filter (\<lambda>e. \<not> list_ex (\<lambda>l. fst l = fst e \<and> snd l = snd e) (sub q xs)) (sub p ys) = filter (\<lambda>e. e \<notin> set xs) (sub p ys)"
    by (intro filter_cong) auto
  thus ?thesis using leaf by (simp add: reconcile_compare_def fold_missing)
next
  case branch
  have ok: "entries_ok p (sub p xs)" "entries_ok p (sub p ys)" using assms(1) entries_ok_sub by (auto simp: session_def)
  have "lookup_from env source (fst e) lc (length p) = Inr (map_of (sub p xs) (fst e))" if "e \<in> set (sub p ys)" for e
    using that ok assms(1,3) branch(2,5) by (auto simp: session_def entries_ok_def below_prefix_def intro!: lookup_from_stored)
  moreover have "map_of (sub p xs) (fst e) = Some (snd e) \<longleftrightarrow> e \<in> set xs" if "e \<in> set (sub p ys)" for e
    using held_below [of p p e ys xs] that ok(1) by (cases e) (auto simp: entries_ok_def bm_wf_def strict_sorted_iff)
  hence "filter (\<lambda>e. map_of (sub p xs) (fst e) \<noteq> Some (snd e)) (sub p ys) = filter (\<lambda>e. e \<notin> set xs) (sub p ys)"
    by (intro filter_cong) auto
  ultimately show ?thesis using branch(1)
      try_fold_missing [of "sub p ys" "\<lambda>e. lookup_from env source (fst e) lc (length p)" "\<lambda>e. map_of (sub p xs) (fst e)" s]
    by (simp add: reconcile_compare_def branch_of_def)
qed

text \<open>The two loops that push the children worth following.\<close>

definition descends_to :: "(nat \<Rightarrow> child_ref option) \<Rightarrow> (nat \<Rightarrow> child_ref \<Rightarrow> bool) \<Rightarrow> nat \<Rightarrow> bool" where
  "descends_to f skip i \<longleftrightarrow> (\<exists>r. f i = Some r \<and> \<not> skip i r)"

lemma push_enumerated:
  assumes "depth < MAX_DEPTH" "\<And>i s. i \<in> set is \<Longrightarrow> body (i, f i) s =
    (case f i of None \<Rightarrow> Inr s | Some r \<Rightarrow> if skip i r then Inr s else push_wanted r (lc i) depth s)"
  shows "try_fold body (map (\<lambda>i. (i, f i)) is) s =
    Inr (s\<lparr>rc_wanted := rc_wanted s @ map (\<lambda>i. (the (f i), lc i, Suc depth)) (filter (descends_to f skip) is)\<rparr>)"
  using assms(2)
proof (induction "is" arbitrary: s)
  case (Cons i "is")
  note step = Cons.prems [of i s, simplified]
  show ?case using assms(1) step Cons.IH [OF Cons.prems]
    by (cases "f i") (auto simp: descends_to_def push_wanted_def next_depth_def)
qed simp

lemma push_flattened:
  assumes "depth < MAX_DEPTH"
  shows "try_fold (\<lambda>r s. push_wanted r lc depth s) (flatten_slots (map f is)) s =
    Inr (s\<lparr>rc_wanted := rc_wanted s @ map (\<lambda>i. (the (f i), lc, Suc depth)) (filter (descends_to f (\<lambda>_ _. False)) is)\<rparr>)"
proof (induction "is" arbitrary: s)
  case (Cons i "is")
  thus ?case using assms by (cases "f i") (auto simp: descends_to_def push_wanted_def next_depth_def)
qed simp

lemma enumerate_map: "enumerate 0 (map f [0..<n]) = map (\<lambda>i. (i, f i)) [0..<n]"
  by (rule nth_equalityI) (simp_all add: nth_enumerate_eq)

lemma compare_branch:
  assumes "session env source S xs ys" "local_ok env source S xs p lc" "tree_at env ys p" "\<not> leafy env (sub p ys) (length p)"
  shows "\<exists>lcs skip. reconcile_compare env source (branch_of env (sub p ys) (length p)) lc (length p) s =
      Inr (s\<lparr>rc_wanted := rc_wanted s @ map (\<lambda>i. (the (root_of env (sub (p @ [i]) ys) (Suc (length p))), lcs i, Suc (length p)))
        (filter (descends_to (\<lambda>i. root_of env (sub (p @ [i]) ys) (Suc (length p))) skip) [0..<16])\<rparr>)
    \<and> (\<forall>i<16. local_ok env source S xs (p @ [i]) (lcs i))
    \<and> (\<forall>i<16. \<forall>r. root_of env (sub (p @ [i]) ys) (Suc (length p)) = Some r \<longrightarrow> skip i r \<longrightarrow> set (sub (p @ [i]) ys) \<subseteq> set xs)"
proof -
  have depth: "length p < MAX_DEPTH" by (rule not_leafy_depth [OF assms(4)])
  hence le: "length p \<le> MAX_DEPTH" by simp
  let ?f = "\<lambda>i. root_of env (sub (p @ [i]) ys) (Suc (length p))"
  have node: "branch_of env (sub p ys) (length p) = Branch (map ?f [0..<16])" by (simp add: branch_of_def sub_snoc)
  show ?thesis using assms(1,2) le
  proof (cases rule: local_cases)
    case absent
    have "local_ok env source S xs (p @ [i]) lc" for i
      unfolding local_ok_def by (rule exI [of _ "p @ [i]"]) (simp add: absent sub_snoc slot_of_def stored_def)
    thus ?thesis using absent(3) push_flattened [OF depth, of lc ?f "[0..<16]" s]
      by (intro exI [of _ "\<lambda>_. lc"] exI [of _ "\<lambda>_ _. False"]) (simp add: reconcile_compare_def node)
  next
    case (leaf q)
    show ?thesis using leaf(2,3) push_flattened [OF depth, of lc ?f "[0..<16]" s]
      by (intro exI [of _ "\<lambda>_. lc"] exI [of _ "\<lambda>_ _. False"]) (simp add: reconcile_compare_def node)
  next
    case branch
    let ?l = "\<lambda>i. root_of env (sub (p @ [i]) xs) (Suc (length p))" and ?skip = "\<lambda>i r. root_of env (sub (p @ [i]) xs) (Suc (length p)) = Some r"
    have ok: "codec_ok env" "inj_on (ne_hash env) S" "set (nodes_of env ys 0) \<subseteq> S" using assms(1) by (auto simp: session_def)
    have okp: "entries_ok p (sub p xs)" using assms(1) entries_ok_sub by (auto simp: session_def)
    have sh: "shaped env (sub p xs) (length p)" by (rule build_shaped [OF ok(1) okp branch(4) le])
    have loc: "local_ok env source S xs (p @ [i]) (?l i)" if i: "i < 16" for i
      unfolding local_ok_def using stored_slot [OF sh branch(5,3) i] nodes_slot [OF sh branch(3) i] branch(6)
      by (intro exI [of _ "p @ [i]"]) (auto simp: sub_snoc)
    have skip: "set (sub (p @ [i]) ys) \<subseteq> set xs" if i: "i < 16" and r: "?f i = Some r" "?skip i r" for i r
    proof -
      have ne: "sub (p @ [i]) ys \<noteq> []" "sub (p @ [i]) xs \<noteq> []" using r by (auto simp: root_of_empty)
      have t: "tree_at env ys (p @ [i])" by (rule tree_child [OF assms(1,3,4) i ne(1)])
      have eo: "entries_ok (p @ [i]) (sub (p @ [i]) xs)" "entries_ok (p @ [i]) (sub (p @ [i]) ys)"
        using assms(1) entries_ok_sub by (auto simp: session_def)
      have sx: "shaped env (sub (p @ [i]) xs) (Suc (length p))" using build_shaped [OF ok(1) eo(1) ne(2)] depth by simp
      have sy: "shaped env (sub (p @ [i]) ys) (Suc (length p))" using build_shaped [OF ok(1) eo(2) ne(1)] depth by simp
      have "sub (p @ [i]) xs = sub (p @ [i]) ys"
        using r root_of_shaped [OF sx] root_of_shaped [OF sy] t nodes_slot [OF sh branch(3) i] branch(6) ne depth ok(3)
        by (intro root_commits [OF ok(1,2) eo]) (auto simp: tree_at_def sub_snoc)
      thus ?thesis using set_sub [of _ "p @ [i]" xs] by auto
    qed
    have nodex: "branch_of env (sub p xs) (length p) = Branch (map ?l [0..<16])" by (simp add: branch_of_def sub_snoc)
    have "reconcile_compare env source (branch_of env (sub p ys) (length p)) lc (length p) s =
      Inr (s\<lparr>rc_wanted := rc_wanted s @ map (\<lambda>i. (the (?f i), ?l i, Suc (length p))) (filter (descends_to ?f ?skip) [0..<16])\<rparr>)"
      unfolding reconcile_compare_def branch(1) node nodex try_then_simps prod.case index_node.case option.case enumerate_map
      by (rule push_enumerated [OF depth]) (simp split: option.split)
    thus ?thesis using loc skip by (intro exI [of _ ?l] exI [of _ ?skip]) simp
  qed
qed

text \<open>What comparing the node at a prefix adds: missing entries, and items for children, that together account
  for the entries below the prefix that the local side lacks.\<close>

definition accounts :: "node_env \<Rightarrow> node_source \<Rightarrow> bytes set \<Rightarrow> index_entry list \<Rightarrow> index_entry list \<Rightarrow> nat list \<Rightarrow>
    index_entry list \<Rightarrow> nat list \<Rightarrow> (child_ref \<times> child_ref option \<times> nat) list \<Rightarrow> bool" where
  "accounts env source S xs ys p ms is items \<longleftrightarrow> distinct is \<and> list_all2 (item_ok env source S xs ys) (map (\<lambda>i. p @ [i]) is) items
    \<and> set ms \<union> (\<Union>i\<in>set is. set (sub (p @ [i]) ys) - set xs) = set (sub p ys) - set xs"

lemma list_all2_ex: "list_all2 P ps zs \<Longrightarrow> z \<in> set zs \<Longrightarrow> \<exists>p\<in>set ps. P p z"
  by (induction rule: list_all2_induct) auto

lemma accounts_level: "accounts env source S xs ys p ms is items \<Longrightarrow> item \<in> set items \<Longrightarrow> snd (snd item) = Suc (length p)"
  by (auto simp: accounts_def item_ok_def dest!: list_all2_ex)

lemma list_all2_maps: "list_all2 P (map f is) (map g is) \<longleftrightarrow> (\<forall>i\<in>set is. P (f i) (g i))"
  by (induction "is") auto

lemma sub_children:
  assumes "entries_ok p (sub p ys)" "length p < MAX_DEPTH"
  shows "set (sub p ys) = (\<Union>i<16. set (sub (p @ [i]) ys))"
  using sum_slots(2) [OF assms] nib_less by (auto simp: sub_snoc slot_of_def)

lemma compare_accounts:
  assumes "session env source S xs ys" "item_ok env source S xs ys p (r, lc, d)"
  obtains ms "is" items where "accounts env source S xs ys p ms is items"
    "reconcile_compare env source (node_of env (sub p ys) d) lc d s =
      Inr (s\<lparr>rc_missing := rc_missing s @ ms, rc_wanted := rc_wanted s @ items\<rparr>)"
proof -
  have it: "d = length p" "tree_at env ys p" "local_ok env source S xs p lc" using assms(2) by (auto simp: item_ok_def)
  have len: "length p \<le> MAX_DEPTH" using it(2) by (simp add: tree_at_def)
  show thesis
  proof (cases "leafy env (sub p ys) (length p)")
    case True
    hence "reconcile_compare env source (node_of env (sub p ys) d) lc d s =
        Inr (s\<lparr>rc_missing := rc_missing s @ filter (\<lambda>e. e \<notin> set xs) (sub p ys), rc_wanted := rc_wanted s @ []\<rparr>)"
      using compare_leaf [OF assms(1) it(3) len, of s] it(1) by (simp add: node_of_def leafy_def)
    moreover have "accounts env source S xs ys p (filter (\<lambda>e. e \<notin> set xs) (sub p ys)) [] []" by (auto simp: accounts_def)
    ultimately show thesis using that by blast
  next
    case br: False
    let ?f = "\<lambda>i. root_of env (sub (p @ [i]) ys) (Suc (length p))"
    obtain lcs skip where c: "reconcile_compare env source (branch_of env (sub p ys) (length p)) lc (length p) s =
        Inr (s\<lparr>rc_wanted := rc_wanted s @ map (\<lambda>i. (the (?f i), lcs i, Suc (length p))) (filter (descends_to ?f skip) [0..<16])\<rparr>)"
      "\<forall>i<16. local_ok env source S xs (p @ [i]) (lcs i)"
      "\<forall>i<16. \<forall>r. ?f i = Some r \<longrightarrow> skip i r \<longrightarrow> set (sub (p @ [i]) ys) \<subseteq> set xs"
      using compare_branch [OF assms(1) it(3,2) br, of s] by blast
    let ?is = "filter (descends_to ?f skip) [0..<16]"
    have depth: "length p < MAX_DEPTH" by (rule not_leafy_depth [OF br])
    have ok: "codec_ok env" "entries_ok q (sub q ys)" for q using assms(1) entries_ok_sub by (auto simp: session_def)
    have none: "sub (p @ [i]) ys = []" if "?f i = None" for i
      using that built_nonempty build_built [OF ok, of "p @ [i]"] depth by (fastforce simp: Suc_le_eq)
    have "item_ok env source S xs ys (p @ [i]) (the (?f i), lcs i, Suc (length p))" if "i \<in> set ?is" for i
    proof -
      have i: "i < 16" "?f i \<noteq> None" using that by (auto simp: descends_to_def)
      hence "sub (p @ [i]) ys \<noteq> []" by auto
      thus ?thesis using i c(2) tree_child [OF assms(1) it(2) br, of i] by (auto simp: item_ok_def)
    qed
    moreover have "(\<Union>i\<in>set ?is. set (sub (p @ [i]) ys) - set xs) = set (sub p ys) - set xs"
      unfolding sub_children [OF ok(2) depth] using c(3) none by (fastforce simp: descends_to_def)
    ultimately have "accounts env source S xs ys p [] ?is (map (\<lambda>i. (the (?f i), lcs i, Suc (length p))) ?is)"
      by (auto simp: accounts_def list_all2_maps)
    thus thesis using that c(1) it(1) br by (simp add: node_of_def leafy_def)
  qed
qed

section \<open>The invariant of a session\<close>

definition root_hash :: "node_env \<Rightarrow> index_entry list \<Rightarrow> nat list \<Rightarrow> bytes" where
  "root_hash env ys p = ne_hash env (bytes_of env (node_of env (sub p ys) (length p)))"

definition supplied_ok :: "node_env \<Rightarrow> index_entry list \<Rightarrow> node_source \<Rightarrow> bool" where
  \<comment> \<open>bytes supplied under the hash of a remote node, and having it, are that node\<close>
  "supplied_ok env ys nodes \<longleftrightarrow>
    (\<forall>b\<in>set (nodes_of env ys 0). \<forall>b'. nodes (ne_hash env b) = Some b' \<longrightarrow> ne_hash env b' = ne_hash env b \<longrightarrow> b' = b)"

text \<open>The items outstanding stand for prefixes none of which is below another or above a visited one; with
  the missing entries found so far they account for the whole difference.\<close>

definition session_inv ::
  "node_env \<Rightarrow> node_source \<Rightarrow> bytes set \<Rightarrow> index_entry list \<Rightarrow> index_entry list \<Rightarrow> (child_ref \<times> child_ref option \<times> nat) list \<Rightarrow>
   reconciliation \<Rightarrow> bool" where
  "session_inv env source S xs ys items s \<longleftrightarrow> (\<exists>ps visited.
    list_all2 (item_ok env source S xs ys) ps items \<and> sorted_wrt parallel ps \<and>
    (\<forall>p\<in>set ps. \<forall>q\<in>visited. \<not> prefix p q) \<and> (\<forall>q\<in>visited. tree_at env ys q) \<and> rc_seen s = root_hash env ys ` visited \<and>
    set (rc_missing s) \<union> (\<Union>p\<in>set ps. set (sub p ys) - set xs) = set ys - set xs \<and>
    finite (rc_seen s) \<and> card (rc_seen s) = rc_fetched s)"

lemma session_inv_wanted [simp]:
  "session_inv env source S xs ys items (s\<lparr>rc_wanted := w\<rparr>) = session_inv env source S xs ys items s"
  by (simp add: session_inv_def)

lemma outstanding_depth: "session_inv env source S xs ys items s \<Longrightarrow> i \<in> set items \<Longrightarrow> snd (snd i) \<le> MAX_DEPTH"
  unfolding session_inv_def by (elim exE conjE) (drule (1) list_all2_ex, auto simp: item_ok_def tree_at_def)

lemma tree_root:
  assumes "session env source S xs ys" "tree_at env ys p"
  shows "root_of env (sub p ys) (length p) = Some \<lparr>cr_hash = root_hash env ys p, cr_count = length (sub p ys)\<rparr>"
    "bytes_of env (node_of env (sub p ys) (length p)) \<in> set (nodes_of env ys 0)"
    "node_decode_canonical env (bytes_of env (node_of env (sub p ys) (length p))) = Inr (node_of env (sub p ys) (length p))"
proof -
  note sh = tree_shaped [OF assms]
  show "root_of env (sub p ys) (length p) = Some \<lparr>cr_hash = root_hash env ys p, cr_count = length (sub p ys)\<rparr>"
    using root_of_shaped [OF sh] by (simp add: root_hash_def)
  show "bytes_of env (node_of env (sub p ys) (length p)) \<in> set (nodes_of env ys 0)"
    using nodes_of_shaped [OF sh] assms(2) by (auto simp: tree_at_def)
  show "node_decode_canonical env (bytes_of env (node_of env (sub p ys) (length p))) = Inr (node_of env (sub p ys) (length p))"
    using assms(1) by (intro decode_shaped sh) (simp add: session_def)
qed

lemma prefixes_comparable:
  assumes "\<forall>i<length p. n i = p ! i" "\<forall>i<length q. n i = q ! i" "length p \<le> length q"
  shows "prefix p q"
proof -
  have "p = take (length p) q" using assms by (intro nth_equalityI) auto
  thus ?thesis by (metis take_is_prefix)
qed

lemma unvisited_unseen:
  assumes "session env source S xs ys" "tree_at env ys p" "tree_at env ys q" "\<not> prefix p q"
  shows "root_hash env ys p \<noteq> root_hash env ys q"
proof
  assume h: "root_hash env ys p = root_hash env ys q"
  have ok: "codec_ok env" "inj_on (ne_hash env) S" "set (nodes_of env ys 0) \<subseteq> S" and eo: "\<And>q. entries_ok q (sub q ys)"
    using assms(1) entries_ok_sub by (auto simp: session_def)
  have same: "sub p ys = sub q ys"
    using assms(2,3) h ok(3) by (intro root_commits [OF ok(1,2) eo eo]) (auto simp: tree_at_def root_hash_def)
  obtain e where e: "e \<in> set (sub p ys)" using assms(2) by (cases "sub p ys") (auto simp: tree_at_def)
  have n: "\<forall>i<length p. nib (fst e) i = p ! i" "\<forall>i<length q. nib (fst e) i = q ! i"
    using e set_sub [of e p ys] e [unfolded same] set_sub [of e q ys] by blast+
  have "length q < length p" using prefixes_comparable [OF n] assms(4) not_le by blast
  moreover have "prefix q p" using prefixes_comparable [OF n(2,1)] calculation by simp
  ultimately have "\<not> leafy env (sub p ys) (length q)" using assms(2) same by (auto simp: tree_at_def strict_prefix_def)
  thus False using roots_differ_by_depth [OF ok(1,2) eo [of p], of "length q"] \<open>length q < length p\<close> assms(2,3) ok(3) h same
    by (auto simp: tree_at_def root_hash_def)
qed

definition absorbed :: "reconciliation \<Rightarrow> bytes \<Rightarrow> index_entry list \<Rightarrow> (child_ref \<times> child_ref option \<times> nat) list \<Rightarrow> reconciliation" where
  "absorbed s h ms items = s\<lparr>rc_wanted := rc_wanted s @ items, rc_missing := rc_missing s @ ms,
    rc_seen := insert h (rc_seen s), rc_fetched := Suc (rc_fetched s)\<rparr>"

lemma absorb_supplied:
  assumes "session env source S xs ys" "item_ok env source S xs ys p (r, lc, d)" "supplied_ok env ys nodes"
    and "nodes (cr_hash r) = Some b" "ne_hash env b = cr_hash r" "cr_hash r \<notin> rc_seen s"
  obtains ms "is" items where "accounts env source S xs ys p ms is items" "cr_hash r = root_hash env ys p"
    "absorb_one env source nodes (r, lc, d) s =
      (if rc_fetched s + 1 < 2 ^ 64 \<and> rc_fetched s + 1 \<le> rc_max_nodes s then Inr (absorbed s (cr_hash r) ms items) else Inl Bounds)"
proof -
  have it: "d = length p" "tree_at env ys p" "root_of env (sub p ys) (length p) = Some r" using assms(2) by (auto simp: item_ok_def)
  note t = tree_root [OF assms(1) it(2)]
  have h: "cr_hash r = root_hash env ys p" using t(1) it(3) by simp
  have b: "b = bytes_of env (node_of env (sub p ys) d)" using assms(3-5) t(2) h it(1) by (auto simp: supplied_ok_def root_hash_def)
  let ?s = "s\<lparr>rc_seen := insert (cr_hash r) (rc_seen s), rc_fetched := rc_fetched s + 1\<rparr>"
  obtain ms "is" items where c: "accounts env source S xs ys p ms is items"
    "reconcile_compare env source (node_of env (sub p ys) d) lc d ?s =
      Inr (?s\<lparr>rc_missing := rc_missing ?s @ ms, rc_wanted := rc_wanted ?s @ items\<rparr>)"
    by (rule compare_accounts [OF assms(1,2)])
  have "d \<le> MAX_DEPTH" using it by (simp add: tree_at_def)
  hence "absorb_one env source nodes (r, lc, d) s =
      (if rc_fetched s + 1 < 2 ^ 64 \<and> rc_fetched s + 1 \<le> rc_max_nodes s then Inr (absorbed s (cr_hash r) ms items) else Inl Bounds)"
    using assms(4-6) b t(3) c(2) it(1) by (simp add: absorb_one_def Let_def checked_u64_def absorbed_def not_less)
  thus thesis using that c(1) h by blast
qed

lemma parallel_children:
  assumes "sorted_wrt parallel (ps @ p # qs)" "distinct is"
  shows "sorted_wrt parallel (ps @ map (\<lambda>i. p @ [i]) is @ qs)"
proof -
  have "sorted_wrt parallel (map (\<lambda>i. p @ [i]) is)" using assms(2) by (induction "is") (auto simp: parallel_def)
  moreover have "parallel x (p @ [i])" "parallel (p @ [i]) x" if "parallel x p \<or> parallel p x" for x i
    using that parallel_append [of x p "[]" "[i]"] parallel_append [of p x "[i]" "[]"] by (auto simp: parallel_commute)
  ultimately show ?thesis using assms(1) by (auto simp: sorted_wrt_append)
qed

lemma absorbed_inv:
  assumes "session env source S xs ys" "list_all2 (item_ok env source S xs ys) ps (rc_wanted s)"
    and "item_ok env source S xs ys p item" "list_all2 (item_ok env source S xs ys) qs rest" "sorted_wrt parallel (ps @ p # qs)"
    and "\<forall>p\<in>set (ps @ p # qs). \<forall>q\<in>visited. \<not> prefix p q" "\<forall>q\<in>visited. tree_at env ys q" "rc_seen s = root_hash env ys ` visited"
    and "set (rc_missing s) \<union> (\<Union>p\<in>set (ps @ p # qs). set (sub p ys) - set xs) = set ys - set xs"
    and "finite (rc_seen s)" "card (rc_seen s) = rc_fetched s" "root_hash env ys p \<notin> rc_seen s"
    and "accounts env source S xs ys p ms is items"
  shows "session_inv env source S xs ys (rc_wanted (absorbed s (root_hash env ys p) ms items) @ rest) (absorbed s (root_hash env ys p) ms items)"
proof -
  let ?cs = "map (\<lambda>i. p @ [i]) is"
  have acc: "distinct is" "list_all2 (item_ok env source S xs ys) ?cs items"
    "set ms \<union> (\<Union>i\<in>set is. set (sub (p @ [i]) ys) - set xs) = set (sub p ys) - set xs"
    using assms(13) by (auto simp: accounts_def)
  have "tree_at env ys p" using assms(3) by (auto simp: item_ok_def)
  moreover have "list_all2 (item_ok env source S xs ys) (ps @ ?cs @ qs) (rc_wanted s @ items @ rest)"
    by (intro list_all2_appendI assms(2,4) acc(2))
  moreover have "sorted_wrt parallel (ps @ ?cs @ qs)" by (rule parallel_children [OF assms(5) acc(1)])
  moreover have "\<forall>x\<in>set (ps @ ?cs @ qs). \<forall>q\<in>insert p visited. \<not> prefix x q"
    using assms(5,6) by (auto simp: sorted_wrt_append parallel_def dest: append_prefixD)
  moreover have "set (rc_missing s @ ms) \<union> (\<Union>x\<in>set (ps @ ?cs @ qs). set (sub x ys) - set xs) = set ys - set xs"
    using assms(9) acc(3) by auto
  ultimately show ?thesis unfolding session_inv_def absorbed_def
    using assms(7,8,10-12) by (intro exI [of _ "ps @ ?cs @ qs"] exI [of _ "insert p visited"]) simp
qed

text \<open>One supplied item, and one that is not supplied.\<close>

lemma absorb_one_inv:
  assumes "session env source S xs ys" "supplied_ok env ys nodes" "session_inv env source S xs ys (rc_wanted s @ item # rest) s"
  shows "absorb_one env source nodes item s = Inr s' \<Longrightarrow>
      session_inv env source S xs ys (rc_wanted s' @ rest) s' \<and> rc_max_nodes s' = rc_max_nodes s"
    and "stored env nodes ys 0 \<Longrightarrow> length (nodes_of env ys 0) \<le> rc_max_nodes s \<Longrightarrow> rc_max_nodes s < 2 ^ 64 \<Longrightarrow>
      \<exists>s' items. absorb_one env source nodes item s = Inr s' \<and> rc_wanted s' = rc_wanted s @ items
        \<and> (\<forall>i\<in>set items. snd (snd i) = Suc (snd (snd item)))"
proof -
  obtain zs visited where z: "list_all2 (item_ok env source S xs ys) zs (rc_wanted s @ item # rest)" "sorted_wrt parallel zs"
    "\<forall>p\<in>set zs. \<forall>q\<in>visited. \<not> prefix p q" "\<forall>q\<in>visited. tree_at env ys q" "rc_seen s = root_hash env ys ` visited"
    "set (rc_missing s) \<union> (\<Union>p\<in>set zs. set (sub p ys) - set xs) = set ys - set xs"
    "finite (rc_seen s)" "card (rc_seen s) = rc_fetched s"
    using assms(3) unfolding session_inv_def by (elim exE conjE) (rule that)
  obtain ps p qs where ps: "zs = ps @ p # qs" "list_all2 (item_ok env source S xs ys) ps (rc_wanted s)" "item_ok env source S xs ys p item"
    "list_all2 (item_ok env source S xs ys) qs rest"
    using z(1) by (auto simp: list_all2_append2 list_all2_Cons2)
  obtain r lc d where item: "item = (r, lc, d)" by (cases item) auto
  have it: "d = length p" "tree_at env ys p" "root_of env (sub p ys) (length p) = Some r" using ps(3) by (auto simp: item_ok_def item)
  note t = tree_root [OF assms(1) it(2)]
  have h: "cr_hash r = root_hash env ys p" using t(1) it(3) by simp
  have unseen: "cr_hash r \<notin> rc_seen s"
    using unvisited_unseen [OF assms(1) it(2)] z(3-5) ps(1) h by auto
  {
    assume a: "absorb_one env source nodes item s = Inr s'"
    show "session_inv env source S xs ys (rc_wanted s' @ rest) s' \<and> rc_max_nodes s' = rc_max_nodes s"
    proof (cases "nodes (cr_hash r)")
      case None
      hence "s' = s\<lparr>rc_wanted := rc_wanted s @ [item]\<rparr>" using a by (simp add: absorb_one_def item)
      thus ?thesis using assms(3) by simp
    next
      case (Some b)
      have b: "ne_hash env b = cr_hash r" using a Some by (auto simp: absorb_one_def item split: if_splits)
      obtain ms "is" items where c: "accounts env source S xs ys p ms is items" "absorb_one env source nodes (r, lc, d) s =
          (if rc_fetched s + 1 < 2 ^ 64 \<and> rc_fetched s + 1 \<le> rc_max_nodes s then Inr (absorbed s (cr_hash r) ms items) else Inl Bounds)"
        by (rule absorb_supplied [OF assms(1) ps(3) [unfolded item] assms(2) Some b unseen])
      have "s' = absorbed s (root_hash env ys p) ms items" using a c(2) h by (simp add: item split: if_splits)
      thus ?thesis using absorbed_inv [OF assms(1) ps(2-4) z(2-8) [unfolded ps(1)] _ c(1)] unseen h by (simp add: absorbed_def)
    qed
  }
  {
    assume "stored env nodes ys 0" and max: "length (nodes_of env ys 0) \<le> rc_max_nodes s" "rc_max_nodes s < 2 ^ 64"
    hence b: "nodes (cr_hash r) = Some (bytes_of env (node_of env (sub p ys) (length p)))"
      using t(2) h by (simp add: stored_def root_hash_def)
    obtain ms "is" items where c: "accounts env source S xs ys p ms is items" "absorb_one env source nodes (r, lc, d) s =
        (if rc_fetched s + 1 < 2 ^ 64 \<and> rc_fetched s + 1 \<le> rc_max_nodes s then Inr (absorbed s (cr_hash r) ms items) else Inl Bounds)"
      using absorb_supplied [OF assms(1) ps(3) [unfolded item] assms(2) b _ unseen] h by (auto simp: root_hash_def)
    have "insert (cr_hash r) (rc_seen s) \<subseteq> ne_hash env ` set (nodes_of env ys 0)"
      using tree_root(2) [OF assms(1)] z(4,5) t(2) h by (auto simp: root_hash_def)
    hence "card (insert (cr_hash r) (rc_seen s)) \<le> length (nodes_of env ys 0)"
      by (meson card_image_le card_length card_mono finite_imageI finite_set le_trans)
    hence "rc_fetched s + 1 \<le> length (nodes_of env ys 0)" using z(7,8) unseen by simp
    moreover have "\<forall>i\<in>set items. snd (snd i) = Suc (snd (snd item))"
      using accounts_level [OF c(1)] it(1) by (simp add: item)
    ultimately show "\<exists>s' items. absorb_one env source nodes item s = Inr s' \<and> rc_wanted s' = rc_wanted s @ items
        \<and> (\<forall>i\<in>set items. snd (snd i) = Suc (snd (snd item)))"
      using c(2) max by (intro exI [of _ "absorbed s (cr_hash r) ms items"] exI [of _ items]) (simp add: item absorbed_def)
  }
qed

lemma absorb_loop_inv:
  assumes "session env source S xs ys" "supplied_ok env ys nodes"
  shows "session_inv env source S xs ys (rc_wanted s @ rest) s \<Longrightarrow> try_fold (absorb_one env source nodes) rest s = Inr s' \<Longrightarrow>
    session_inv env source S xs ys (rc_wanted s') s' \<and> rc_max_nodes s' = rc_max_nodes s"
proof (induction rest arbitrary: s)
  case (Cons item rest)
  obtain t where t: "absorb_one env source nodes item s = Inr t" "try_fold (absorb_one env source nodes) rest t = Inr s'"
    using Cons.prems(2) by (auto simp: result_simps)
  show ?case using absorb_one_inv(1) [OF assms Cons.prems(1) t(1)] Cons.IH [OF _ t(2)] by simp
qed simp

lemma absorb_inv:
  assumes "session env source S xs ys" "supplied_ok env ys nodes" "session_inv env source S xs ys (rc_wanted s) s"
    and "reconcile_absorb env source nodes s = Inr s'"
  shows "session_inv env source S xs ys (rc_wanted s') s'" "rc_max_nodes s' = rc_max_nodes s"
  using absorb_loop_inv [OF assms(1,2), of "s\<lparr>rc_wanted := []\<rparr>" "rc_wanted s" s'] assms(3,4) by (simp_all add: reconcile_absorb_def)

lemma rounds_inv:
  assumes "session env source S xs ys"
  shows "\<forall>nodes\<in>set rounds. supplied_ok env ys nodes \<Longrightarrow> session_inv env source S xs ys (rc_wanted s) s \<Longrightarrow>
    try_fold (reconcile_absorb env source) rounds s = Inr s' \<Longrightarrow> session_inv env source S xs ys (rc_wanted s') s'"
proof (induction rounds arbitrary: s)
  case (Cons nodes rounds)
  obtain t where t: "reconcile_absorb env source nodes s = Inr t" "try_fold (reconcile_absorb env source) rounds t = Inr s'"
    using Cons.prems(3) by (auto simp: result_simps)
  show ?case using Cons.prems(1) absorb_inv(1) [OF assms _ Cons.prems(2) t(1)] by (intro Cons.IH [OF _ _ t(2)]) auto
qed simp

text \<open>A round that is supplied everything goes one level down.\<close>

lemma absorb_loop_level:
  assumes "session env source S xs ys" "supplied_ok env ys nodes" "stored env nodes ys 0"
  shows "session_inv env source S xs ys (rc_wanted s @ rest) s \<Longrightarrow> length (nodes_of env ys 0) \<le> rc_max_nodes s \<Longrightarrow> rc_max_nodes s < 2 ^ 64 \<Longrightarrow>
    \<forall>i\<in>set (rc_wanted s). snd (snd i) = Suc d \<Longrightarrow> \<forall>i\<in>set rest. snd (snd i) = d \<Longrightarrow>
    \<exists>s'. try_fold (absorb_one env source nodes) rest s = Inr s' \<and> (\<forall>i\<in>set (rc_wanted s'). snd (snd i) = Suc d)"
proof (induction rest arbitrary: s)
  case (Cons item rest)
  obtain t items where t: "absorb_one env source nodes item s = Inr t" "rc_wanted t = rc_wanted s @ items"
    "\<forall>i\<in>set items. snd (snd i) = Suc (snd (snd item))"
    using absorb_one_inv(2) [OF assms(1,2) Cons.prems(1) assms(3) Cons.prems(2,3)] by blast
  have "\<exists>s'. try_fold (absorb_one env source nodes) rest t = Inr s' \<and> (\<forall>i\<in>set (rc_wanted s'). snd (snd i) = Suc d)"
    using absorb_one_inv(1) [OF assms(1,2) Cons.prems(1) t(1)] t(2,3) Cons.prems(2-5) by (intro Cons.IH) auto
  thus ?case using t(1) by simp
qed simp

lemma rounds_level:
  assumes "session env source S xs ys" "supplied_ok env ys nodes" "stored env nodes ys 0"
  shows "session_inv env source S xs ys (rc_wanted s) s \<Longrightarrow> length (nodes_of env ys 0) \<le> rc_max_nodes s \<Longrightarrow> rc_max_nodes s < 2 ^ 64 \<Longrightarrow>
    \<forall>i\<in>set (rc_wanted s). snd (snd i) = d \<Longrightarrow>
    \<exists>s'. try_fold (reconcile_absorb env source) (replicate n nodes) s = Inr s' \<and> (\<forall>i\<in>set (rc_wanted s'). snd (snd i) = d + n)"
proof (induction n arbitrary: s d)
  case (Suc n)
  obtain t where t: "reconcile_absorb env source nodes s = Inr t" "\<forall>i\<in>set (rc_wanted t). snd (snd i) = Suc d"
    using absorb_loop_level [OF assms, of "s\<lparr>rc_wanted := []\<rparr>" "rc_wanted s" d] Suc.prems by (auto simp: reconcile_absorb_def)
  show ?case using Suc.IH [of t "Suc d"] absorb_inv [OF assms(1,2) Suc.prems(1) t(1)] t Suc.prems(2,3) by simp
qed simp

section \<open>What a completed session answers\<close>

lemma dedup_sorted: "sorted (map fst es) \<Longrightarrow> bm_wf (dedup_by_key es) \<and> fst ` set (dedup_by_key es) = fst ` set es \<and> set (dedup_by_key es) \<subseteq> set es"
  by (induction es rule: dedup_by_key.induct) (auto simp: bm_wf_Cons bm_wf_def dest!: equalityD1 subsetD [of "fst ` _"])

lemma bm_wf_unique: "bm_wf xs \<Longrightarrow> bm_wf ys \<Longrightarrow> set xs = set ys \<Longrightarrow> xs = ys"
  by (rule map_sorted_distinct_set_unique [of fst]) (simp_all add: bm_wf_def strict_sorted_iff distinct_map)

lemma complete_answer:
  assumes "entries_ok [] ys" "set es = set ys - set xs"
  shows "dedup_by_key (sort_key fst es) = filter (\<lambda>e. e \<notin> set xs) ys"
proof (rule bm_wf_unique)
  note d = dedup_sorted [of "sort_key fst es"]
  have wf: "bm_wf ys" using assms(1) by (simp add: entries_ok_def)
  hence inj: "inj_on fst (set ys)" by (auto simp: bm_wf_def strict_sorted_iff distinct_map)
  show "bm_wf (dedup_by_key (sort_key fst es))" using d by simp
  show "bm_wf (filter (\<lambda>e. e \<notin> set xs) ys)" using wf by (auto simp: bm_wf_def sorted_wrt_map intro: sorted_wrt_filter)
  have "set (dedup_by_key (sort_key fst es)) = set es"
    using d assms(2) by (intro inj_on_image_eq_iff [OF inj, THEN iffD1]) auto
  thus "set (dedup_by_key (sort_key fst es)) = set (filter (\<lambda>e. e \<notin> set xs) ys)" using assms(2) by auto
qed

lemma step_complete:
  assumes "session env source S xs ys" "session_inv env source S xs ys [] s" "rc_wanted s = []"
  shows "fst (reconcile_step s) = Complete (filter (\<lambda>e. e \<notin> set xs) ys)"
  using assms complete_answer [of ys "rc_missing s" xs] by (auto simp: reconcile_step_def session_inv_def session_def)

lemma begin_inv:
  assumes "session env source S xs ys"
  shows "session_inv env source S xs ys (rc_wanted (reconcile_begin (root_of env xs 0) (root_of env ys 0) m))
      (reconcile_begin (root_of env xs 0) (root_of env ys 0) m)"
    "\<forall>i\<in>set (rc_wanted (reconcile_begin (root_of env xs 0) (root_of env ys 0) m)). snd (snd i) = 0"
proof -
  have ok: "codec_ok env" "entries_ok [] xs" "entries_ok [] ys" "inj_on (ne_hash env) S" using assms by (auto simp: session_def)
  let ?s = "reconcile_begin (root_of env xs 0) (root_of env ys 0) m"
  show "\<forall>i\<in>set (rc_wanted ?s). snd (snd i) = 0" by (auto simp: reconcile_begin_def split: option.splits if_splits)
  show "session_inv env source S xs ys (rc_wanted ?s) ?s"
  proof (cases "set ys \<subseteq> set xs \<and> rc_wanted ?s = []")
    case True
    thus ?thesis unfolding session_inv_def
      by (intro exI [of _ "[]"] exI [of _ "{}"]) (auto simp: reconcile_begin_def)
  next
    case False
    have ne: "ys \<noteq> []" using False by (auto simp: reconcile_begin_def)
    obtain r where r: "root_of env ys 0 = Some r"
      using ne built_nonempty build_built [OF ok(1,3)] by fastforce
    have "root_of env ys 0 \<noteq> root_of env xs 0"
    proof
      assume e: "root_of env ys 0 = root_of env xs 0"
      hence x: "xs \<noteq> []" using r by auto
      have "shaped env xs 0" "shaped env ys 0" using build_shaped [OF ok(1,2) x] build_shaped [OF ok(1,3) ne] by auto
      hence "xs = ys" using e assms x ne root_commits [OF ok(1,4,2,3)] by (simp add: root_of_shaped session_def)
      moreover have "rc_wanted ?s = []" unfolding e [symmetric] r reconcile_begin_def by simp
      ultimately show False using False by blast
    qed
    hence w: "rc_wanted ?s = [(r, root_of env xs 0, 0)]" by (simp add: r reconcile_begin_def)
    have "item_ok env source S xs ys [] (r, root_of env xs 0, 0)"
      using assms r ne by (auto simp: item_ok_def tree_at_def local_ok_def session_def)
    thus ?thesis unfolding session_inv_def w
      by (intro exI [of _ "[[]]"] exI [of _ "{}"]) (auto simp: reconcile_begin_def)
  qed
qed

text \<open>C37: Whatever nodes a peer supplies, over any number of rounds, a reconciliation that completes without an error
  answers exactly the entries of the remote set that are not in the local one, unless two hashes collide.\<close>

theorem reconcile_exact:
  assumes "codec_ok env" "entries_ok [] xs" "entries_ok [] ys"
    and "build_index env xs = Inr (local, lnodes)" "build_index env ys = Inr (remote, rnodes)"
    and "\<forall>b\<in>set lnodes. source (ne_hash env b) = Some b" "inj_on (ne_hash env) (set lnodes \<union> set rnodes)"
    and "\<forall>nodes\<in>set rounds. \<forall>b\<in>set rnodes. \<forall>b'. nodes (ne_hash env b) = Some b' \<longrightarrow> ne_hash env b' = ne_hash env b \<longrightarrow> b' = b"
    and "try_fold (reconcile_absorb env source) rounds (reconcile_begin local remote max_nodes) = Inr s"
    and "fst (reconcile_step s) = Complete answer"
  shows "answer = filter (\<lambda>e. e \<notin> set xs) ys"
proof -
  note l = built_index [OF assms(2,4)] and r = built_index [OF assms(3,5)]
  have ses: "session env source (set lnodes \<union> set rnodes) xs ys" using assms(1-3,6,7) l r by (simp add: session_def stored_def)
  have "\<forall>nodes\<in>set rounds. supplied_ok env ys nodes" using assms(8) r by (simp add: supplied_ok_def)
  hence "session_inv env source (set lnodes \<union> set rnodes) xs ys (rc_wanted s) s"
    by (rule rounds_inv [OF ses _ begin_inv(1) [OF ses, folded l(1) r(1)] assms(9)])
  moreover have "rc_wanted s = []" using assms(10) by (auto simp: reconcile_step_def split: if_splits)
  ultimately show ?thesis using step_complete [OF ses] assms(10) by simp
qed

text \<open>C38: A reconciliation that is supplied every node of the remote index, and may fetch as many nodes as it has,
  completes within a round per level of the tree, without an error and with exactly the difference.\<close>

theorem reconcile_completes:
  assumes "codec_ok env" "entries_ok [] xs" "entries_ok [] ys"
    and "build_index env xs = Inr (local, lnodes)" "build_index env ys = Inr (remote, rnodes)"
    and "\<forall>b\<in>set lnodes. source (ne_hash env b) = Some b" "\<forall>b\<in>set rnodes. peer (ne_hash env b) = Some b"
    and "inj_on (ne_hash env) (set lnodes \<union> set rnodes)" "length rnodes \<le> max_nodes" "max_nodes < 2 ^ 64"
  shows "\<exists>s. try_fold (reconcile_absorb env source) (replicate (MAX_DEPTH + 1) peer) (reconcile_begin local remote max_nodes) = Inr s
    \<and> fst (reconcile_step s) = Complete (filter (\<lambda>e. e \<notin> set xs) ys)"
proof -
  note l = built_index [OF assms(2,4)] and r = built_index [OF assms(3,5)]
  let ?S = "set lnodes \<union> set rnodes"
  have ses: "session env source ?S xs ys" using assms(1-3,6,8) l r by (simp add: session_def stored_def)
  have sup: "supplied_ok env ys peer" "stored env peer ys 0" using assms(7) r by (simp_all add: supplied_ok_def stored_def)
  note b = begin_inv [OF ses, of max_nodes, folded l(1) r(1)]
  have "rc_max_nodes (reconcile_begin local remote max_nodes) = max_nodes" by (simp add: reconcile_begin_def)
  then obtain s where s: "try_fold (reconcile_absorb env source) (replicate (MAX_DEPTH + 1) peer) (reconcile_begin local remote max_nodes) = Inr s"
    "\<forall>i\<in>set (rc_wanted s). snd (snd i) = MAX_DEPTH + 1"
    using rounds_level [OF ses sup b(1) _ _ b(2), of "MAX_DEPTH + 1"] assms(9,10) r by auto
  have inv: "session_inv env source ?S xs ys (rc_wanted s) s" using sup by (intro rounds_inv [OF ses _ b(1) s(1)]) simp
  have "snd (snd i) \<le> MAX_DEPTH" if "i \<in> set (rc_wanted s)" for i by (rule outstanding_depth [OF inv that])
  hence "rc_wanted s = []" using s(2) by (cases "rc_wanted s") fastforce+
  thus ?thesis using step_complete [OF ses] inv s(1) by auto
qed

lemma demo_leaf_decodes: "node_decode_canonical demo_node_env demo_index_leaf = Inr (Leaf demo_index)"
proof (rule decode_encoded [OF demo_codec_ok])
  show "node_typed (Leaf demo_index)" using entries_ok_typed [OF demo_index_ok] .
  show "node_encode demo_node_env (Leaf demo_index) = Inr demo_index_leaf"
    by (simp add: node_encode_def demo_node_env_def demo_index_leaf_def)
  show "length demo_index_leaf \<le> MAX_NODE_BYTES"
    by (simp add: demo_index_leaf_def demo_index_def demo_entry_def MAX_NODE_BYTES_def)
qed

lemma demo_nothing: "entries_ok [] []" "build_index env [] = Inr (None, [])"
  by (simp_all add: entries_ok_def below_prefix_def bm_wf_def build_index_def build_empty)

definition demo_rounds :: "node_source list" where
  "demo_rounds = [\<lambda>_. None, \<lambda>_. Some demo_index_leaf]"

theorem reconcile_exact_witness:
  "\<exists>s answer. try_fold (reconcile_absorb demo_node_env (\<lambda>_. None)) demo_rounds (reconcile_begin None demo_root 1) = Inr s
    \<and> fst (reconcile_step s) = Complete answer \<and> answer = demo_index"
proof -
  let ?s = "\<lparr>rc_wanted = [], rc_missing = demo_index, rc_seen = {replicate 32 CHR ''h''}, rc_fetched = 1, rc_max_nodes = 1\<rparr>"
  have run: "try_fold (reconcile_absorb demo_node_env (\<lambda>_. None)) demo_rounds (reconcile_begin None demo_root 1) = Inr ?s"
    using demo_leaf_decodes
    by (simp add: demo_rounds_def reconcile_begin_def demo_root_def reconcile_absorb_def absorb_one_def demo_node_env_def checked_u64_def
        reconcile_compare_def local_node_def lookup_from.simps demo_index_def push_missing_def Let_def)
  have step: "fst (reconcile_step ?s) = Complete (dedup_by_key (sort_key fst demo_index))" by (simp add: reconcile_step_def)
  have "dedup_by_key (sort_key fst demo_index) = filter (\<lambda>e. e \<notin> set []) demo_index"
    by (rule reconcile_exact [OF demo_codec_ok demo_nothing(1) demo_index_ok demo_nothing(2) demo_build _ _ _ run step])
      (auto simp: demo_rounds_def)
  thus ?thesis using run step by simp
qed

theorem reconcile_completes_witness:
  "\<exists>s. try_fold (reconcile_absorb demo_node_env (\<lambda>_. None)) (replicate (MAX_DEPTH + 1) (\<lambda>_. Some demo_index_leaf)) (reconcile_begin None demo_root 1) = Inr s
    \<and> fst (reconcile_step s) = Complete demo_index"
  using reconcile_completes [OF demo_codec_ok demo_nothing(1) demo_index_ok demo_nothing(2) demo_build, of "\<lambda>_. None" "\<lambda>_. Some demo_index_leaf" 1]
  by simp

end
