(* ===== verification/PackLog.thy ===== *)
theory PackLog
  imports LittleEndian "HOL-Library.AList" "HOL-Library.Monad_Syntax"
begin

text \<open>
  The pack log (\<^verbatim>\<open>crates/journal/src/pack.rs\<close>) over a medium of named slots (\<^verbatim>\<open>medium.rs\<close>): records and seals,
  commits with one flush, migration, compaction, and the recovery that elects a slot and its newest
  verified seal.

  The medium is part of the state \<open>writer_state\<close>: the bytes of every slot as a reader of the running system
  sees them, the slot the writer holds and its tracked length. How each coming call of the medium ends is
  \<open>ws_io\<close>, taken one by one, and which reads fail is \<open>ws_unreadable\<close>; both are arbitrary. The content hash,
  the keyed record hash, the key derivation and the postcard codec of seals are the argument \<open>env\<close>; the
  salt of a new slot and whether a reader pins a retired generation are arguments. The fault injector is
  test code and absent. A \<open>u64\<close> is a natural number, checked against \<open>2 ^ 64\<close> where the code checks.
\<close>

section \<open>Failures\<close>

datatype io_operation = OpOpen | OpRead | OpWrite | OpSync | OpRename | OpRemove | OpEncode
datatype io_kind = NotFound | PermissionDenied | Interrupted | InvalidData | OtherKind
datatype defect =
  MissingObject | CorruptObject | CorruptManifest | CorruptJournal | MissingCounter | CorruptIndex | UnsupportedFormat |
  CounterOverflow | Diverged
datatype pack_failure = OperationFailed io_operation io_kind | Integrity defect | OutcomeUnknown

definition corrupt :: pack_failure where "corrupt = Integrity CorruptJournal"
definition encode_failure :: pack_failure where "encode_failure = OperationFailed OpEncode InvalidData"

definition add64 :: "nat \<Rightarrow> nat \<Rightarrow> nat option" where
  "add64 a b = (if a + b < 2 ^ 64 then Some (a + b) else None)"

definition ok :: "'e + 'a \<Rightarrow> 'a option" where
  "ok r = (case r of Inl _ \<Rightarrow> None | Inr x \<Rightarrow> Some x)"

section \<open>The medium\<close>

datatype io_outcome = IoDone | IoFailed io_kind bytes
  \<comment> \<open>what a failed append left behind; nothing for the other calls\<close>

record writer_state =
  ws_slots :: "(string \<times> bytes) list"
  ws_unreadable :: "string \<Rightarrow> nat \<Rightarrow> nat \<Rightarrow> io_kind option"
  ws_io :: "io_outcome list"
  ws_name :: string
  ws_len :: nat

type_synonym 'a wr = "writer_state \<Rightarrow> (pack_failure + 'a) \<times> writer_state"

definition wr_return :: "'a \<Rightarrow> 'a wr" where "wr_return x ws = (Inr x, ws)"
definition wr_fail :: "pack_failure \<Rightarrow> 'a wr" where "wr_fail e ws = (Inl e, ws)"

definition wr_then :: "'a wr \<Rightarrow> ('a \<Rightarrow> 'b wr) \<Rightarrow> 'b wr" where
  "wr_then m f ws = (case m ws of (Inl e, ws') \<Rightarrow> (Inl e, ws') | (Inr x, ws') \<Rightarrow> f x ws')"

definition wr_io :: "io_operation \<Rightarrow> (writer_state \<Rightarrow> (io_kind + 'a) \<times> writer_state) \<Rightarrow> 'a wr" where
  \<comment> \<open>\<open>map_err(|e| io_err(operation, &e))\<close>\<close>
  "wr_io operation m ws = (case m ws of (Inl k, ws') \<Rightarrow> (Inl (OperationFailed operation k), ws') | (Inr x, ws') \<Rightarrow> (Inr x, ws'))"

definition outcome :: "writer_state \<Rightarrow> io_outcome \<times> writer_state" where
  "outcome ws = (case ws_io ws of [] \<Rightarrow> (IoDone, ws) | r # rest \<Rightarrow> (r, ws\<lparr>ws_io := rest\<rparr>))"

definition slot_bytes :: "writer_state \<Rightarrow> string \<Rightarrow> bytes" where
  "slot_bytes ws name = (case map_of (ws_slots ws) name of None \<Rightarrow> [] | Some b \<Rightarrow> b)"

definition put_slot :: "string \<Rightarrow> bytes \<Rightarrow> writer_state \<Rightarrow> writer_state" where
  "put_slot name b ws = ws\<lparr>ws_slots := AList.update name b (ws_slots ws)\<rparr>"

definition checked_name :: "string \<Rightarrow> bool" where
  "checked_name name \<longleftrightarrow> name \<noteq> [] \<and> \<not> list_ex (\<lambda>c. c = CHR ''/'' \<or> c = CHR 0x5C \<or> c = CHR ''.'' \<or> c = CHR 0x00) name"

definition read_at :: "writer_state \<Rightarrow> string \<Rightarrow> nat \<Rightarrow> nat \<Rightarrow> io_kind + bytes" where
  "read_at ws name offset n =
    (case ws_unreadable ws name offset n of
       Some k \<Rightarrow> Inl k
     | None \<Rightarrow> if n = 0 \<or> offset + n \<le> length (slot_bytes ws name) then Inr (take n (drop offset (slot_bytes ws name))) else Inl OtherKind)"

definition write_all_at :: "bytes \<Rightarrow> nat \<Rightarrow> bytes \<Rightarrow> bytes" where
  "write_all_at bytes offset b = take offset (b @ replicate (offset - length b) (CHR 0x00)) @ bytes @ drop (offset + length bytes) b"

definition sw_append :: "bytes \<Rightarrow> writer_state \<Rightarrow> (io_kind + nat) \<times> writer_state" where
  "sw_append bytes ws = (case outcome ws of
     (IoFailed k landed, ws) \<Rightarrow> (Inl k, put_slot (ws_name ws) (write_all_at landed (ws_len ws) (slot_bytes ws (ws_name ws))) ws)
   | (IoDone, ws) \<Rightarrow>
       let ws' = put_slot (ws_name ws) (write_all_at bytes (ws_len ws) (slot_bytes ws (ws_name ws))) ws in
       case add64 (ws_len ws) (length bytes) of
         None \<Rightarrow> (Inl OtherKind, ws')
       | Some n \<Rightarrow> (Inr (ws_len ws), ws'\<lparr>ws_len := n\<rparr>))"

definition sw_flush :: "writer_state \<Rightarrow> (io_kind + unit) \<times> writer_state" where
  "sw_flush ws = (case outcome ws of (IoFailed k _, ws) \<Rightarrow> (Inl k, ws) | (IoDone, ws) \<Rightarrow> (Inr (), ws))"

definition sw_truncate :: "nat \<Rightarrow> writer_state \<Rightarrow> (io_kind + unit) \<times> writer_state" where
  "sw_truncate n ws =
    (if ws_len ws < n then (Inl OtherKind, ws)
     else case outcome ws of
       (IoFailed k _, ws) \<Rightarrow> (Inl k, ws)
     | (IoDone, ws) \<Rightarrow> (Inr (), put_slot (ws_name ws) (take n (slot_bytes ws (ws_name ws))) (ws\<lparr>ws_len := n\<rparr>)))"

definition open_slot :: "string \<Rightarrow> writer_state \<Rightarrow> (io_kind + unit) \<times> writer_state" where
  "open_slot name ws =
    (if \<not> checked_name name then (Inl OtherKind, ws)
     else case outcome ws of
       (IoFailed k _, ws) \<Rightarrow> (Inl k, ws)
     | (IoDone, ws) \<Rightarrow>
         (Inr (), (if map_of (ws_slots ws) name = None then put_slot name [] ws else ws)
           \<lparr>ws_name := name, ws_len := length (slot_bytes ws name)\<rparr>))"

definition remove_slot :: "string \<Rightarrow> writer_state \<Rightarrow> (io_kind + unit) \<times> writer_state" where
  "remove_slot name ws =
    (if \<not> checked_name name then (Inl OtherKind, ws)
     else case outcome ws of
       (IoFailed k _, ws) \<Rightarrow> (Inl k, ws)
     | (IoDone, ws) \<Rightarrow> (Inr (), ws\<lparr>ws_slots := AList.delete name (ws_slots ws)\<rparr>))"

definition slot_names :: "writer_state \<Rightarrow> (io_kind + string list) \<times> writer_state" where
  "slot_names ws = (case outcome ws of
     (IoFailed k _, ws) \<Rightarrow> (Inl k, ws)
   | (IoDone, ws) \<Rightarrow> (Inr (map fst (ws_slots ws)), ws))"

section \<open>Records and seals\<close>

definition SLOT_MAGIC :: bytes where "SLOT_MAGIC = ''laitpak2''"
definition SALT_LEN :: nat where "SALT_LEN = 16"
definition HEADER_LEN :: nat where "HEADER_LEN = 64"
definition HEADER_NAME_CAPACITY :: nat where "HEADER_NAME_CAPACITY = 38"
definition OBJECT_MAGIC :: bytes where "OBJECT_MAGIC = ''lpo1''"
definition SEAL_MAGIC :: bytes where "SEAL_MAGIC = ''lps1''"
definition CHECK_LEN :: nat where "CHECK_LEN = 16"
definition RECORD_OVERHEAD :: nat where "RECORD_OVERHEAD = 24"
definition MAX_RECORD_BYTES :: nat where "MAX_RECORD_BYTES = 256 * 1024 * 1024"
definition CHECKPOINT_EVERY :: nat where "CHECKPOINT_EVERY = 64"
definition SCAN_WINDOW :: nat where "SCAN_WINDOW = 64 * 1024"

record provenance =
  pv_source_manifest :: bytes
  pv_source_counter :: nat

record table_entry =
  te_hash :: bytes
  te_offset :: nat
  te_len :: nat

record seal_link =
  sl_offset :: nat
  sl_check :: bytes

record seal =
  se_sequence :: nat
  se_generation :: nat
  se_prev :: "seal_link option"
  se_added :: "table_entry list"
  se_checkpoint :: "table_entry list option"
  se_provenance :: "provenance option"
  se_manifest :: bytes

type_synonym table = "(bytes, nat \<times> nat) btree_map"

record pack_env =
  pk_hash :: "bytes \<Rightarrow> bytes"
  pk_keyed :: "bytes \<Rightarrow> bytes \<Rightarrow> bytes"
  pk_derive :: "bytes \<Rightarrow> bytes"
  pk_encode :: "seal \<Rightarrow> bytes option"
  pk_decode :: "bytes \<Rightarrow> seal option"

definition record_check :: "pack_env \<Rightarrow> bytes \<Rightarrow> bytes \<Rightarrow> nat \<Rightarrow> bytes \<Rightarrow> bytes" where
  "record_check env key magic offset payload =
    take CHECK_LEN (pk_keyed env key (le_bytes 8 offset @ magic @ le_bytes 4 (min (length payload) (2 ^ 32 - 1)) @ payload))"

definition append_record :: "pack_env \<Rightarrow> bytes \<Rightarrow> bytes \<Rightarrow> bytes \<Rightarrow> nat wr" where
  "append_record env key magic payload ws =
    (if 2 ^ 32 \<le> length payload \<or> MAX_RECORD_BYTES < length payload then (Inl corrupt, ws)
     else wr_then (wr_io OpWrite (sw_append (magic @ le_bytes 4 (length payload) @ payload @ record_check env key magic (ws_len ws) payload)))
       (\<lambda>_. case add64 (ws_len ws) 8 of None \<Rightarrow> wr_fail corrupt | Some offset \<Rightarrow> wr_return offset) ws)"

definition entry_table :: "table_entry list \<Rightarrow> table \<Rightarrow> table" where
  \<comment> \<open>\<open>table.insert(entry.hash, (entry.offset, entry.len))\<close> for each entry\<close>
  "entry_table es t = fold (\<lambda>e. bm_insert (te_hash e) (te_offset e, te_len e)) es t"

definition table_entries :: "table \<Rightarrow> table_entry list" where
  "table_entries t = map (\<lambda>(hash, offset, len). \<lparr>te_hash = hash, te_offset = offset, te_len = len\<rparr>) t"

fun append_objects :: "pack_env \<Rightarrow> bytes \<Rightarrow> bytes list \<Rightarrow> table \<Rightarrow> table_entry list \<Rightarrow> (table \<times> table_entry list) wr" where
  "append_objects env key [] t added = wr_return (t, added)"
| "append_objects env key (b # bs) t added =
    (if map_of t (pk_hash env b) \<noteq> None then append_objects env key bs t added
     else wr_then (append_record env key OBJECT_MAGIC b) (\<lambda>offset.
       append_objects env key bs (bm_insert (pk_hash env b) (offset, length b) t)
         (added @ [\<lparr>te_hash = pk_hash env b, te_offset = offset, te_len = length b\<rparr>])))"

definition append_seal :: "pack_env \<Rightarrow> bytes \<Rightarrow> seal \<Rightarrow> seal_link wr" where
  "append_seal env key seal ws =
    (case pk_encode env seal of
       None \<Rightarrow> (Inl encode_failure, ws)
     | Some payload \<Rightarrow>
         wr_then (append_record env key SEAL_MAGIC payload)
           (\<lambda>_. wr_return \<lparr>sl_offset = ws_len ws, sl_check = record_check env key SEAL_MAGIC (ws_len ws) payload\<rparr>) ws)"

definition slot_header :: "bytes \<Rightarrow> string \<Rightarrow> bytes" where
  "slot_header salt name =
    SLOT_MAGIC @ salt @ le_bytes 2 (length name) @ name @ replicate (HEADER_NAME_CAPACITY - length name) (CHR 0x00)"

definition init_slot :: "pack_env \<Rightarrow> bytes option \<Rightarrow> string \<Rightarrow> bytes wr" where
  "init_slot env salt name =
    wr_then (wr_io OpOpen (open_slot name)) (\<lambda>_.
    wr_then (\<lambda>ws. if 0 < ws_len ws then wr_io OpOpen (sw_truncate 0) ws else (Inr (), ws)) (\<lambda>_.
    if HEADER_NAME_CAPACITY < length name then wr_fail corrupt
    else case salt of
      None \<Rightarrow> wr_fail (OperationFailed OpWrite OtherKind)
    | Some salt \<Rightarrow>
        wr_then (wr_io OpWrite (sw_append (slot_header salt name))) (\<lambda>_.
        wr_then (wr_io OpSync sw_flush) (\<lambda>_. wr_return (pk_derive env salt)))))"

section \<open>Recovery\<close>

type_synonym reader = "nat \<Rightarrow> nat \<Rightarrow> io_kind + bytes"

definition read_record :: "pack_env \<Rightarrow> reader \<Rightarrow> bytes \<Rightarrow> nat \<Rightarrow> nat \<Rightarrow> bytes \<Rightarrow> (bytes \<times> nat) option" where
  "read_record env rd key slot_len offset expect = do {
    payload_at \<leftarrow> add64 offset 8;
    if slot_len < payload_at then None else do {
      head \<leftarrow> ok (rd offset 8);
      if take 4 head \<noteq> expect then None else
      if MAX_RECORD_BYTES < le_value (drop 4 head) then None else do {
        overhead_end \<leftarrow> add64 offset RECORD_OVERHEAD;
        end_offset \<leftarrow> add64 overhead_end (le_value (drop 4 head));
        if slot_len < end_offset then None else do {
          payload \<leftarrow> ok (rd payload_at (le_value (drop 4 head)));
          check_at \<leftarrow> add64 payload_at (le_value (drop 4 head));
          check \<leftarrow> ok (rd check_at CHECK_LEN);
          if record_check env key expect offset payload \<noteq> check then None else Some (payload, end_offset)
        }
      }
    }
  }"

definition read_seal :: "pack_env \<Rightarrow> reader \<Rightarrow> bytes \<Rightarrow> nat \<Rightarrow> nat \<Rightarrow> (nat \<times> seal \<times> nat) option" where
  "read_seal env rd key slot_len offset = do {
    (payload, end_offset) \<leftarrow> read_record env rd key slot_len offset SEAL_MAGIC;
    seal \<leftarrow> pk_decode env payload;
    Some (offset, seal, end_offset)
  }"

fun scan_window :: "(nat \<Rightarrow> (nat \<times> seal \<times> nat) option) \<Rightarrow> bytes \<Rightarrow> nat \<Rightarrow> nat \<Rightarrow> (nat \<times> seal \<times> nat) option" where
  \<comment> \<open>the loop over one window, from a position down to the width of the magic\<close>
  "scan_window try_seal bytes window_start 0 = None"
| "scan_window try_seal bytes window_start (Suc position) =
    (if Suc position < length SEAL_MAGIC then None
     else let start = Suc position - length SEAL_MAGIC in
       case (if take (length SEAL_MAGIC) (drop start bytes) = SEAL_MAGIC then try_seal (window_start + start) else None) of
         Some found \<Rightarrow> Some found
       | None \<Rightarrow> scan_window try_seal bytes window_start position)"

function newest_loop :: "pack_env \<Rightarrow> reader \<Rightarrow> bytes \<Rightarrow> nat \<Rightarrow> nat \<Rightarrow> (nat \<times> seal \<times> nat) option" where
  "newest_loop env rd key slot_len window_end =
    (let window_start = max (window_end - SCAN_WINDOW) HEADER_LEN in
     if window_end < window_start then None
     else case rd window_start (window_end - window_start) of
       Inl _ \<Rightarrow> None
     | Inr bytes \<Rightarrow>
         (case scan_window (read_seal env rd key slot_len) bytes window_start (window_end - window_start) of
            Some found \<Rightarrow> Some found
          | None \<Rightarrow>
              if window_start = HEADER_LEN then None
              else newest_loop env rd key slot_len (window_start + (length SEAL_MAGIC - 1))))"
  by pat_completeness auto
termination
  by (relation "measure (\<lambda>(_, _, _, _, window_end). window_end)") (auto simp: SCAN_WINDOW_def HEADER_LEN_def SEAL_MAGIC_def max_def split: if_splits)

declare newest_loop.simps [simp del]

definition newest_seal :: "pack_env \<Rightarrow> reader \<Rightarrow> bytes \<Rightarrow> nat \<Rightarrow> (nat \<times> seal \<times> nat) option" where
  "newest_seal env rd key slot_len = newest_loop env rd key slot_len slot_len"

function chain_loop ::
  "pack_env \<Rightarrow> reader \<Rightarrow> bytes \<Rightarrow> nat \<Rightarrow> table_entry list list \<Rightarrow> table_entry list option \<Rightarrow> nat \<Rightarrow> seal_link option \<Rightarrow>
   (table_entry list list \<times> table_entry list \<times> bool) option" where
  \<comment> \<open>the deltas walked, newest first, the base, and whether a checkpoint gave it\<close>
  "chain_loop env rd key slot_len deltas base sequence link =
    (case base of
       Some es \<Rightarrow> Some (deltas, es, True)
     | None \<Rightarrow>
         case link of
           None \<Rightarrow> Some (deltas, [], False)
         | Some current \<Rightarrow> do {
             (_, prior, _) \<leftarrow> read_seal env rd key slot_len (sl_offset current);
             (payload, _) \<leftarrow> read_record env rd key slot_len (sl_offset current) SEAL_MAGIC;
             if record_check env key SEAL_MAGIC (sl_offset current) payload \<noteq> sl_check current then None
             else if sequence \<le> se_sequence prior then None
             else chain_loop env rd key slot_len (deltas @ [se_added prior]) (se_checkpoint prior) (se_sequence prior) (se_prev prior)
           })"
  by pat_completeness auto
termination
  by (relation "measure (\<lambda>(_, _, _, _, _, _, sequence, _). sequence)") auto

declare chain_loop.simps [simp del]

definition verify_chain :: "pack_env \<Rightarrow> reader \<Rightarrow> bytes \<Rightarrow> nat \<Rightarrow> seal \<Rightarrow> (table \<times> nat) option" where
  "verify_chain env rd key slot_len seal = do {
    (deltas, base, from_checkpoint) \<leftarrow> chain_loop env rd key slot_len [se_added seal] (se_checkpoint seal) (se_sequence seal) (se_prev seal);
    Some (fold entry_table (rev deltas) (entry_table base []),
      if from_checkpoint then length deltas - 1 else length deltas)
  }"

definition delta_holds :: "pack_env \<Rightarrow> reader \<Rightarrow> table_entry list \<Rightarrow> bool" where
  "delta_holds env rd added \<longleftrightarrow>
    list_all (\<lambda>e. case rd (te_offset e) (te_len e) of Inl _ \<Rightarrow> False | Inr bytes \<Rightarrow> pk_hash env bytes = te_hash e) added"

definition birth_holds :: "pack_env \<Rightarrow> reader \<Rightarrow> seal \<Rightarrow> bool" where
  "birth_holds env rd seal \<longleftrightarrow>
    se_prev seal \<noteq> None \<or> (case se_checkpoint seal of None \<Rightarrow> True | Some es \<Rightarrow> delta_holds env rd es)"

record slot_state =
  ss_len :: nat
  ss_table :: table
  ss_sequence :: nat
  ss_generation :: nat
  ss_last_seal :: seal_link
  ss_since :: nat
  ss_provenance :: "provenance option"
  ss_manifest :: bytes

partial_function (option) recover_loop ::
  "pack_env \<Rightarrow> reader \<Rightarrow> bytes \<Rightarrow> nat \<Rightarrow> (nat \<times> seal \<times> nat) option \<Rightarrow> bool \<Rightarrow> (slot_state option \<times> bool) option" where
  \<comment> \<open>nothing bounds the steps back but the links of the seals, so the loop itself may not return\<close>
  "recover_loop env rd key slot_len candidate torn_birth =
    (case candidate of
       None \<Rightarrow> Some (None, torn_birth)
     | Some (offset, seal, end_offset) \<Rightarrow>
         let chain = verify_chain env rd key slot_len seal;
             holds = delta_holds env rd (se_added seal) \<and> birth_holds env rd seal in
         if chain \<noteq> None \<and> holds then
           Some (case read_record env rd key slot_len offset SEAL_MAGIC of
             None \<Rightarrow> (None, torn_birth)
           | Some (payload, _) \<Rightarrow>
               (Some \<lparr>ss_len = end_offset, ss_table = fst (the chain), ss_sequence = se_sequence seal, ss_generation = se_generation seal,
                  ss_last_seal = \<lparr>sl_offset = offset, sl_check = record_check env key SEAL_MAGIC offset payload\<rparr>,
                  ss_since = snd (the chain), ss_provenance = se_provenance seal, ss_manifest = se_manifest seal\<rparr>, torn_birth))
         else
           recover_loop env rd key slot_len (Option.bind (se_prev seal) (\<lambda>link. read_seal env rd key slot_len (sl_offset link)))
             (torn_birth \<or> chain \<noteq> None \<and> se_prev seal = None \<and> se_checkpoint seal \<noteq> None))"

definition recover_state :: "pack_env \<Rightarrow> reader \<Rightarrow> bytes \<Rightarrow> nat \<Rightarrow> (slot_state option \<times> bool) option" where
  "recover_state env rd key slot_len = recover_loop env rd key slot_len (newest_seal env rd key slot_len) False"

record recovered_slot =
  rs_name :: string
  rs_len :: nat
  rs_key :: bytes
  rs_state :: "slot_state option"
  rs_torn_birth :: bool

definition unrecovered :: "string \<Rightarrow> nat \<Rightarrow> recovered_slot" where
  "unrecovered name len = \<lparr>rs_name = name, rs_len = len, rs_key = replicate 32 (CHR 0x00), rs_state = None, rs_torn_birth = False\<rparr>"

definition header_salt :: "bytes \<Rightarrow> bytes" where
  "header_salt header = take SALT_LEN (drop (length SLOT_MAGIC) header)"

definition header_name :: "bytes \<Rightarrow> bytes option" where
  "header_name header =
    (let rest = drop (length SLOT_MAGIC + SALT_LEN) header; name_len = le_value (take 2 rest); name_part = drop 2 rest in
     if name_len \<le> length name_part then Some (take name_len name_part) else None)"

definition recover_slot :: "pack_env \<Rightarrow> string \<Rightarrow> reader \<Rightarrow> nat \<Rightarrow> (pack_failure + recovered_slot) option" where
  \<comment> \<open>\<open>None\<close>: the recovery of the state does not return\<close>
  "recover_slot env name rd len =
    (if len < HEADER_LEN then Some (Inr (unrecovered name len))
     else case rd 0 64 of
       Inl k \<Rightarrow> Some (Inl (OperationFailed OpRead k))
     | Inr header \<Rightarrow>
         if take (length SLOT_MAGIC) header \<noteq> SLOT_MAGIC then Some (Inr (unrecovered name len))
         else if header_name header \<noteq> Some name then Some (Inr (unrecovered name len))
         else do {
           (state, torn_birth) \<leftarrow> recover_state env rd (pk_derive env (header_salt header)) len;
           Some (Inr \<lparr>rs_name = name, rs_len = len, rs_key = pk_derive env (header_salt header), rs_state = state,
             rs_torn_birth = torn_birth\<rparr>)
         })"

section \<open>The store\<close>

record snapshot =
  sn_generation :: string \<comment> \<open>the slot that holds it\<close>
  sn_table :: table
  sn_sealed_len :: nat
  sn_sequence :: nat

record pack_store =
  ps_prefix :: string
  ps_key :: bytes
  ps_snapshot :: snapshot
  ps_graveyard :: "string list"
  ps_generation :: nat
  ps_last_seal :: "seal_link option"
  ps_since :: nat
  ps_provenance :: "provenance option"
  ps_manifest :: "bytes option"
  ps_poisoned :: bool

fun decimal :: "nat \<Rightarrow> string" where
  "decimal n = (if n < 10 then [char_of (48 + n)] else decimal (n div 10) @ [char_of (48 + n mod 10)])"

declare decimal.simps [simp del]

definition slot_name :: "string \<Rightarrow> nat \<Rightarrow> string" where
  "slot_name prefix generation = prefix @ ''-'' @ decimal generation"

definition in_family :: "string \<Rightarrow> string \<Rightarrow> bool" where
  "in_family prefix name \<longleftrightarrow> take (length prefix) name = prefix \<and>
    (case drop (length prefix) name of [] \<Rightarrow> False | c # digits \<Rightarrow> c = CHR ''-'' \<and> list_all (\<lambda>d. d \<in> set ''0123456789'') digits)"

definition slot_family :: "string \<Rightarrow> string list wr" where
  "slot_family prefix = wr_then (wr_io OpOpen slot_names) (\<lambda>names. wr_return (filter (in_family prefix) names))"

fun remove_all :: "string list \<Rightarrow> unit wr" where
  "remove_all [] = wr_return ()"
| "remove_all (name # names) = wr_then (wr_io OpRemove (remove_slot name)) (\<lambda>_. remove_all names)"

definition remove_family :: "string \<Rightarrow> unit wr" where
  "remove_family prefix = wr_then (slot_family prefix) remove_all"

definition try_remove :: "string \<Rightarrow> writer_state \<Rightarrow> writer_state" where
  \<comment> \<open>\<open>let _ = medium.remove_slot(name)\<close>\<close>
  "try_remove name ws = snd (remove_slot name ws)"

fun recover_all :: "pack_env \<Rightarrow> string list \<Rightarrow> writer_state \<Rightarrow> ((pack_failure + recovered_slot list) \<times> writer_state) option" where
  "recover_all env [] ws = Some (Inr [], ws)"
| "recover_all env (name # names) ws =
    (case wr_io OpOpen (open_slot name) ws of
       (Inl e, ws) \<Rightarrow> Some (Inl e, ws)
     | (Inr _, ws) \<Rightarrow> do {
         r \<leftarrow> recover_slot env name (read_at ws name) (ws_len ws);
         (case r of
            Inl e \<Rightarrow> Some (Inl e, ws)
          | Inr slot \<Rightarrow> do {
              (rest, ws) \<leftarrow> recover_all env names ws;
              Some (try_then rest (\<lambda>slots. Inr (slot # slots)), ws)
            })
       })"

definition election_key :: "recovered_slot \<Rightarrow> nat \<times> nat" where
  "election_key r = (case rs_state r of None \<Rightarrow> (0, 0) | Some s \<Rightarrow> (ss_sequence s, ss_generation s))"

definition elect :: "recovered_slot list \<Rightarrow> (recovered_slot \<times> slot_state) option \<times> recovered_slot list" where
  \<comment> \<open>the elected slot with its state, and the losers\<close>
  "elect recovered =
    (let sorted_slots = sort_key election_key recovered in
     if sorted_slots = [] then (None, [])
     else case rs_state (last sorted_slots) of
       None \<Rightarrow> (None, sorted_slots)
     | Some s \<Rightarrow> (Some (last sorted_slots, s), butlast sorted_slots))"

definition found_pack :: "pack_env \<Rightarrow> bytes option \<Rightarrow> string \<Rightarrow> pack_store wr" where
  "found_pack env salt prefix =
    wr_then (init_slot env salt (slot_name prefix 0)) (\<lambda>key ws.
      wr_return \<lparr>ps_prefix = prefix, ps_key = key,
        ps_snapshot = \<lparr>sn_generation = slot_name prefix 0, sn_table = [], sn_sealed_len = ws_len ws, sn_sequence = 0\<rparr>,
        ps_graveyard = [], ps_generation = 0, ps_last_seal = None, ps_since = 0, ps_provenance = None, ps_manifest = None,
        ps_poisoned = False\<rparr> ws)"

definition adopt_slot :: "string \<Rightarrow> recovered_slot \<Rightarrow> slot_state \<Rightarrow> pack_store wr" where
  "adopt_slot prefix r s =
    wr_then (\<lambda>ws. let ws = ws\<lparr>ws_name := rs_name r, ws_len := rs_len r\<rparr> in
        if ss_len s < ws_len ws then wr_then (wr_io OpOpen (sw_truncate (ss_len s))) (\<lambda>_. wr_io OpSync sw_flush) ws else (Inr (), ws)) (\<lambda>_.
      wr_return \<lparr>ps_prefix = prefix, ps_key = rs_key r,
        ps_snapshot = \<lparr>sn_generation = rs_name r, sn_table = ss_table s, sn_sealed_len = ss_len s, sn_sequence = ss_sequence s\<rparr>,
        ps_graveyard = [], ps_generation = ss_generation s, ps_last_seal = Some (ss_last_seal s), ps_since = ss_since s,
        ps_provenance = ss_provenance s, ps_manifest = Some (ss_manifest s), ps_poisoned = False\<rparr>)"

definition pack_open :: "pack_env \<Rightarrow> bytes option \<Rightarrow> string \<Rightarrow> writer_state \<Rightarrow> ((pack_failure + pack_store) \<times> writer_state) option" where
  "pack_open env salt prefix ws =
    (case slot_family prefix ws of
       (Inl e, ws) \<Rightarrow> Some (Inl e, ws)
     | (Inr names, ws) \<Rightarrow> do {
         (recovered, ws) \<leftarrow> recover_all env names ws;
         Some (case recovered of
           Inl e \<Rightarrow> (Inl e, ws)
         | Inr recovered \<Rightarrow>
             if list_all (\<lambda>r. rs_state r = None) recovered \<and> list_ex rs_torn_birth recovered then (Inl (Integrity CorruptObject), ws)
             else case elect recovered of
               (elected, losers) \<Rightarrow>
                 let ws = fold (\<lambda>loser. try_remove (rs_name loser)) losers ws in
                 case elected of
                   None \<Rightarrow> found_pack env salt prefix ws
                 | Some (r, s) \<Rightarrow> adopt_slot prefix r s ws)
       })"

definition read_bounded :: "pack_env \<Rightarrow> writer_state \<Rightarrow> snapshot \<Rightarrow> bytes \<Rightarrow> nat \<Rightarrow> pack_failure + bytes" where
  "read_bounded env ws snapshot hash max_len =
    (case map_of (sn_table snapshot) hash of
       None \<Rightarrow> Inl (Integrity MissingObject)
     | Some (offset, len) \<Rightarrow>
         if max_len < len then Inl (Integrity CorruptObject)
         else case read_at ws (sn_generation snapshot) offset len of
           Inl k \<Rightarrow> Inl (OperationFailed OpRead k)
         | Inr bytes \<Rightarrow> if pk_hash env bytes \<noteq> hash then Inl (Integrity CorruptObject) else Inr bytes)"

definition view_read :: "pack_env \<Rightarrow> writer_state \<Rightarrow> snapshot \<Rightarrow> bytes \<Rightarrow> pack_failure + bytes" where
  "view_read env ws snapshot hash = read_bounded env ws snapshot hash (2 ^ 64 - 1)"

definition flush_or_poison :: "unit wr" where
  \<comment> \<open>a failed flush poisons the writer: its outcome is unknown\<close>
  "flush_or_poison ws = (case sw_flush ws of (Inl _, ws) \<Rightarrow> (Inl OutcomeUnknown, ws) | (Inr _, ws) \<Rightarrow> (Inr (), ws))"

definition checkpoint_due :: "pack_store \<Rightarrow> bool" where
  "checkpoint_due st \<longleftrightarrow> CHECKPOINT_EVERY \<le> min (ps_since st + 1) (2 ^ 64 - 1)"

definition commit_seal :: "pack_store \<Rightarrow> nat \<Rightarrow> table \<Rightarrow> table_entry list \<Rightarrow> bytes \<Rightarrow> seal" where
  "commit_seal st sequence t added manifest =
    \<lparr>se_sequence = sequence, se_generation = ps_generation st, se_prev = ps_last_seal st, se_added = added,
     se_checkpoint = (if checkpoint_due st then Some (table_entries t) else None), se_provenance = None, se_manifest = manifest\<rparr>"

definition try_commit :: "pack_env \<Rightarrow> bytes list \<Rightarrow> bytes \<Rightarrow> pack_store \<Rightarrow> (nat \<times> pack_store) wr" where
  "try_commit env objects manifest st =
    wr_then (append_objects env (ps_key st) objects (sn_table (ps_snapshot st)) []) (\<lambda>(t, added).
    case add64 (sn_sequence (ps_snapshot st)) 1 of
      None \<Rightarrow> wr_fail (Integrity CounterOverflow)
    | Some sequence \<Rightarrow>
        wr_then (append_seal env (ps_key st) (commit_seal st sequence t added manifest)) (\<lambda>link.
        wr_then flush_or_poison (\<lambda>_ ws.
          wr_return (sequence, st\<lparr>
            ps_snapshot := \<lparr>sn_generation = sn_generation (ps_snapshot st), sn_table = t, sn_sealed_len = ws_len ws, sn_sequence = sequence\<rparr>,
            ps_last_seal := Some link, ps_since := (if checkpoint_due st then 0 else min (ps_since st + 1) (2 ^ 64 - 1)),
            ps_provenance := None, ps_manifest := Some manifest\<rparr>) ws)))"

definition settle :: "nat \<Rightarrow> pack_store \<Rightarrow> (pack_failure + nat \<times> pack_store) \<times> writer_state \<Rightarrow> (pack_failure + nat) \<times> pack_store \<times> writer_state" where
  \<comment> \<open>what both commits do with a result: keep it, poison, or drop the partial tail\<close>
  "settle undo st = (\<lambda>(r, ws). case r of
     Inr (sequence, st') \<Rightarrow> (Inr sequence, st', ws)
   | Inl OutcomeUnknown \<Rightarrow> (Inl OutcomeUnknown, st\<lparr>ps_poisoned := True\<rparr>, ws)
   | Inl failure \<Rightarrow>
       (case sw_truncate undo ws of
          (Inl _, ws) \<Rightarrow> (Inl failure, st\<lparr>ps_poisoned := True\<rparr>, ws)
        | (Inr _, ws) \<Rightarrow> (Inl failure, st, ws)))"

definition pack_commit ::
  "pack_env \<Rightarrow> bytes list \<Rightarrow> bytes \<Rightarrow> pack_store \<Rightarrow> writer_state \<Rightarrow> (pack_failure + nat) \<times> pack_store \<times> writer_state" where
  "pack_commit env objects manifest st ws =
    (if ps_poisoned st then (Inl OutcomeUnknown, st, ws)
     else settle (ws_len ws) st (try_commit env objects manifest st ws))"

fun migrate_objects :: "pack_env \<Rightarrow> bytes \<Rightarrow> (pack_failure + bytes) list \<Rightarrow> table \<Rightarrow> table wr" where
  "migrate_objects env key [] t = wr_return t"
| "migrate_objects env key (r # rs) t =
    (case r of
       Inl e \<Rightarrow> wr_fail e
     | Inr b \<Rightarrow>
         if map_of t (pk_hash env b) \<noteq> None then migrate_objects env key rs t
         else wr_then (append_record env key OBJECT_MAGIC b) (\<lambda>offset.
           migrate_objects env key rs (bm_insert (pk_hash env b) (offset, length b) t)))"

definition try_migrate ::
  "pack_env \<Rightarrow> (pack_failure + bytes) list \<Rightarrow> bytes \<Rightarrow> provenance \<Rightarrow> pack_store \<Rightarrow> (nat \<times> pack_store) wr" where
  "try_migrate env objects manifest provenance st =
    wr_then (migrate_objects env (ps_key st) objects []) (\<lambda>t.
    case add64 (pv_source_counter provenance) 1 of
      None \<Rightarrow> wr_fail (Integrity CounterOverflow)
    | Some sequence \<Rightarrow>
        wr_then (append_seal env (ps_key st)
          \<lparr>se_sequence = sequence, se_generation = ps_generation st, se_prev = None, se_added = [],
           se_checkpoint = Some (table_entries t), se_provenance = Some provenance, se_manifest = manifest\<rparr>) (\<lambda>link.
        wr_then flush_or_poison (\<lambda>_ ws.
          wr_return (sequence, st\<lparr>
            ps_snapshot := \<lparr>sn_generation = sn_generation (ps_snapshot st), sn_table = t, sn_sealed_len = ws_len ws, sn_sequence = sequence\<rparr>,
            ps_last_seal := Some link, ps_since := 0, ps_provenance := Some provenance, ps_manifest := Some manifest\<rparr>) ws)))"

definition migrate_commit ::
  "pack_env \<Rightarrow> (pack_failure + bytes) list \<Rightarrow> bytes \<Rightarrow> provenance \<Rightarrow> pack_store \<Rightarrow> writer_state \<Rightarrow>
   (pack_failure + nat) \<times> pack_store \<times> writer_state" where
  "migrate_commit env objects manifest provenance st ws =
    (if ps_poisoned st then (Inl OutcomeUnknown, st, ws)
     else if ps_last_seal st \<noteq> None then (Inl corrupt, st, ws)
     else case migrate_objects env (ps_key st) objects [] ws of
       (Inl OutcomeUnknown, ws) \<Rightarrow> (Inl OutcomeUnknown, st, ws) \<comment> \<open>the source's own: nothing is poisoned, nothing undone\<close>
     | _ \<Rightarrow> settle HEADER_LEN st (try_migrate env objects manifest provenance st ws))"

fun copy_objects :: "pack_env \<Rightarrow> bytes \<Rightarrow> snapshot \<Rightarrow> bytes list \<Rightarrow> table \<Rightarrow> table wr" where
  "copy_objects env key snapshot [] t = wr_return t"
| "copy_objects env key snapshot (hash # hashes) t =
    (\<lambda>ws. case view_read env ws snapshot hash of
       Inl e \<Rightarrow> (Inl e, ws)
     | Inr b \<Rightarrow> wr_then (append_record env key OBJECT_MAGIC b) (\<lambda>offset.
         copy_objects env key snapshot hashes (bm_insert hash (offset, length b) t)) ws)"

definition build_successor ::
  "pack_env \<Rightarrow> bytes option \<Rightarrow> string \<Rightarrow> nat \<Rightarrow> (bytes \<Rightarrow> bool) \<Rightarrow> pack_store \<Rightarrow> (bytes \<times> nat \<times> table \<times> seal_link) wr" where
  "build_successor env salt successor_name generation live st =
    wr_then (init_slot env salt successor_name) (\<lambda>key.
    wr_then (copy_objects env key (ps_snapshot st) (filter live (map fst (sn_table (ps_snapshot st)))) []) (\<lambda>t.
    wr_then (append_seal env key
      \<lparr>se_sequence = sn_sequence (ps_snapshot st), se_generation = generation, se_prev = None, se_added = [],
       se_checkpoint = Some (table_entries t), se_provenance = None,
       se_manifest = (case ps_manifest st of None \<Rightarrow> [] | Some b \<Rightarrow> b)\<rparr>) (\<lambda>link.
    wr_then (wr_io OpSync sw_flush) (\<lambda>_ ws. wr_return (key, ws_len ws, t, link) ws))))"

fun sweep_names :: "(string \<Rightarrow> bool) \<Rightarrow> string list \<Rightarrow> writer_state \<Rightarrow> string list \<times> writer_state" where
  "sweep_names pinned [] ws = ([], ws)"
| "sweep_names pinned (name # names) ws =
    (if pinned name then (case sweep_names pinned names ws of (kept, ws) \<Rightarrow> (name # kept, ws))
     else sweep_names pinned names (try_remove name ws))"

definition sweep_graveyard :: "(string \<Rightarrow> bool) \<Rightarrow> pack_store \<Rightarrow> writer_state \<Rightarrow> pack_store \<times> writer_state" where
  "sweep_graveyard pinned st ws = (case sweep_names pinned (ps_graveyard st) ws of (kept, ws) \<Rightarrow> (st\<lparr>ps_graveyard := kept\<rparr>, ws))"

definition pack_compact ::
  "pack_env \<Rightarrow> bytes option \<Rightarrow> (bytes \<Rightarrow> bool) \<Rightarrow> (string \<Rightarrow> bool) \<Rightarrow> pack_store \<Rightarrow> writer_state \<Rightarrow>
   (pack_failure + unit) \<times> pack_store \<times> writer_state" where
  "pack_compact env salt live pinned st ws =
    (if ps_poisoned st then (Inl OutcomeUnknown, st, ws)
     else if ps_last_seal st = None then (Inr (), st, ws)
     else case add64 (ps_generation st) 1 of
       None \<Rightarrow> (Inl (Integrity CounterOverflow), st, ws)
     | Some generation \<Rightarrow>
         let successor_name = slot_name (ps_prefix st) generation;
             before = ws in
         case build_successor env salt successor_name generation live st (try_remove successor_name ws) of
           (Inl e, ws) \<Rightarrow>
             \<comment> \<open>the store keeps its own writer\<close>
             (Inl e, st, (try_remove successor_name ws)\<lparr>ws_name := ws_name before, ws_len := ws_len before\<rparr>)
         | (Inr (key, len, t, link), ws) \<Rightarrow>
             case sweep_graveyard pinned
               (st\<lparr>ps_key := key, ps_generation := generation, ps_last_seal := Some link, ps_since := 0,
                  ps_snapshot := \<lparr>sn_generation = successor_name, sn_table = t, sn_sealed_len = len, sn_sequence = sn_sequence (ps_snapshot st)\<rparr>,
                  ps_graveyard := ps_graveyard st @ [sn_generation (ps_snapshot st)]\<rparr>) ws of
               (st, ws) \<Rightarrow> (Inr (), st, ws))"

end
