(* ===== verification/PackImage.thy ===== *)
theory PackImage
  imports PackLog
begin

text \<open>
  Reading a slot back: the bytes a crash or a shutdown left (\<open>slot_image\<close>), what of a record survives in them, the
  search for the newest seal, and the chain of seals behind one.
\<close>

section \<open>Images\<close>

definition slot_image :: "bytes \<Rightarrow> reader" where
  "slot_image img offset n = (if n = 0 \<or> offset + n \<le> length img then Inr (take n (drop offset img)) else Inl OtherKind)"

lemma read_at_image: "ws_unreadable ws name = (\<lambda>_ _. None) \<Longrightarrow> read_at ws name = slot_image (slot_bytes ws name)"
  by (auto simp: read_at_def slot_image_def fun_eq_iff)

definition env_ok :: "pack_env \<Rightarrow> bool" where
  \<comment> \<open>a keyed hash has 32 bytes, and a seal that encodes decodes again\<close>
  "env_ok env \<longleftrightarrow> (\<forall>key b. length (pk_keyed env key b) = 32) \<and> (\<forall>s b. pk_encode env s = Some b \<longrightarrow> pk_decode env b = Some s)"

definition record_bytes :: "pack_env \<Rightarrow> bytes \<Rightarrow> bytes \<Rightarrow> nat \<Rightarrow> bytes \<Rightarrow> bytes" where
  "record_bytes env key magic offset payload =
    magic @ le_bytes 4 (length payload) @ payload @ record_check env key magic offset payload"

lemma length_record_check: "env_ok env \<Longrightarrow> length (record_check env key magic offset payload) = 16"
  by (simp add: record_check_def env_ok_def CHECK_LEN_def)

lemma length_record_bytes: "env_ok env \<Longrightarrow> length magic = 4 \<Longrightarrow> length (record_bytes env key magic offset payload) = 24 + length payload"
  by (simp add: record_bytes_def length_record_check)

lemma image_within: "take (length r) (drop o' img) = r \<Longrightarrow> i + n \<le> length r \<Longrightarrow> r \<noteq> [] \<Longrightarrow> slot_image img (o' + i) n = Inr (take n (drop i r))"
proof -
  assume r: "take (length r) (drop o' img) = r" and n: "i + n \<le> length r" and ne: "r \<noteq> []"
  have len: "length r \<le> length img - o'" using arg_cong [OF r, of length] by simp
  have pos: "0 < length r" using ne by simp
  have "take n (drop i r) = take n (drop (i + o') img)"
    using n by (subst r [symmetric]) (simp add: drop_take min_absorb1 add.commute)
  moreover have "o' + i + n \<le> length img" using n len pos by linarith
  ultimately show ?thesis by (simp add: slot_image_def add.commute)
qed

lemma read_record_written:
  assumes "env_ok env" "length magic = 4" "length payload \<le> MAX_RECORD_BYTES" "length img < 2 ^ 64"
    and "take (24 + length payload) (drop offset img) = record_bytes env key magic offset payload"
  shows "read_record env (slot_image img) key (length img) offset magic = Some (payload, offset + 24 + length payload)"
proof -
  let ?r = "record_bytes env key magic offset payload" and ?n = "length payload"
  have l: "length ?r = 24 + ?n" by (rule length_record_bytes [OF assms(1,2)])
  have ne: "?r \<noteq> []" using l by (cases ?r) simp_all
  note w = image_within [of ?r offset img, unfolded l, OF assms(5) _ ne]
  have len: "offset + (24 + ?n) \<le> length img"
  proof -
    have "length (take (24 + ?n) (drop offset img)) = 24 + ?n" using assms(5) l by simp
    thus ?thesis by simp
  qed
  have small: "?n < 2 ^ 32" using assms(3) by (simp add: MAX_RECORD_BYTES_def)
  have head: "slot_image img offset 8 = Inr (magic @ le_bytes 4 ?n)"
    using w [of 0 8] assms(2) by (simp add: record_bytes_def)
  have body: "slot_image img (offset + 8) ?n = Inr payload" using w [of 8 ?n] assms(2) by (simp add: record_bytes_def)
  have check: "slot_image img (offset + 8 + ?n) 16 = Inr (record_check env key magic offset payload)"
    using w [of "8 + ?n" 16] assms(2) length_record_check [OF assms(1)] by (simp add: record_bytes_def add.assoc)
  have v: "le_value (le_bytes 4 ?n) = ?n" using small by (intro le_value_bytes) simp
  show ?thesis
    using assms(2-4) len head body check v
    by (simp add: read_record_def add64_def ok_def RECORD_OVERHEAD_def CHECK_LEN_def)
qed

text \<open>A record that reads in a prefix reads the same in everything that extends the prefix.\<close>

lemma image_extend: "take (length b) img = b \<Longrightarrow> slot_image b offset n = Inr x \<Longrightarrow> slot_image img offset n = Inr x"
proof (cases "n = 0")
  case False
  assume p: "take (length b) img = b" and x: "slot_image b offset n = Inr x"
  have n: "offset + n \<le> length b" "x = take n (drop offset b)" using x False by (auto simp: slot_image_def split: if_splits)
  have "length b \<le> length img" using arg_cong [OF p, of length] by simp
  moreover have "take n (drop offset b) = take n (drop offset img)"
    using n(1) by (subst p [symmetric]) (simp add: drop_take min_absorb1)
  ultimately show ?thesis using n by (simp add: slot_image_def)
qed (simp add: slot_image_def)

lemma read_record_inv:
  assumes "read_record env rd key slot_len offset expect = Some (payload, e)"
  obtains head check where "offset + 8 \<le> slot_len" "rd offset 8 = Inr head" "take 4 head = expect" "le_value (drop 4 head) \<le> MAX_RECORD_BYTES"
    "e = offset + 24 + le_value (drop 4 head)" "e \<le> slot_len" "e < 2 ^ 64" "rd (offset + 8) (le_value (drop 4 head)) = Inr payload"
    "rd (offset + 8 + le_value (drop 4 head)) 16 = Inr check" "record_check env key expect offset payload = check"
  using assms by (auto simp: read_record_def add64_def ok_def RECORD_OVERHEAD_def CHECK_LEN_def not_less
      split: if_splits sum.splits option.splits Option.bind_splits)

lemma read_record_extend:
  assumes "take (length b) img = b" "read_record env (slot_image b) key (length b) offset magic = Some (payload, e)"
  shows "read_record env (slot_image img) key (length img) offset magic = Some (payload, e)"
proof -
  have len: "length b \<le> length img" using arg_cong [OF assms(1), of length] by simp
  show ?thesis using assms(2)
    by (rule read_record_inv)
      (use len in \<open>simp add: read_record_def add64_def ok_def RECORD_OVERHEAD_def CHECK_LEN_def image_extend [OF assms(1)]\<close>)
qed

lemma read_seal_extend:
  assumes "take (length b) img = b" "read_seal env (slot_image b) key (length b) offset = Some x"
  shows "read_seal env (slot_image img) key (length img) offset = Some x"
  using assms(2) read_record_extend [OF assms(1)] by (auto simp: read_seal_def split: Option.bind_splits)

lemma delta_holds_iff: "delta_holds env rd es \<longleftrightarrow> (\<forall>e\<in>set es. \<exists>x. rd (te_offset e) (te_len e) = Inr x \<and> pk_hash env x = te_hash e)"
proof -
  have "(case r of Inl k \<Rightarrow> False | Inr x \<Rightarrow> P x) \<longleftrightarrow> (\<exists>x. r = Inr x \<and> P x)" for r :: "io_kind + bytes" and P by (cases r) auto
  thus ?thesis by (simp add: delta_holds_def list_all_iff)
qed

lemma delta_holds_extend: "take (length b) img = b \<Longrightarrow> delta_holds env (slot_image b) es \<Longrightarrow> delta_holds env (slot_image img) es"
  unfolding delta_holds_iff using image_extend by blast

section \<open>The newest seal\<close>

fun first_some :: "('a \<Rightarrow> 'b option) \<Rightarrow> 'a list \<Rightarrow> 'b option" where
  "first_some f [] = None"
| "first_some f (x # xs) = (case f x of None \<Rightarrow> first_some f xs | Some y \<Rightarrow> Some y)"

lemma first_some_append: "first_some f (xs @ ys) = (case first_some f xs of None \<Rightarrow> first_some f ys | Some y \<Rightarrow> Some y)"
  by (induction xs) (auto split: option.splits)

lemma first_some_none: "(\<And>x. x \<in> set xs \<Longrightarrow> f x = None) \<Longrightarrow> first_some f xs = None"
  by (induction xs) auto

lemma shift_upt: "map ((+) w) [0..<n] = [w..<w + n]"
  by (rule nth_equalityI) simp_all

lemma upt_split: "i \<le> j \<Longrightarrow> j \<le> k \<Longrightarrow> [i..<k] = [i..<j] @ [j..<k]"
  using upt_add_eq_append [of i j "k - j"] by simp

lemma read_seal_magic:
  assumes "read_seal env (slot_image img) key (length img) offset = Some x"
  shows "take 4 (drop offset img) = SEAL_MAGIC" "offset + 24 \<le> length img" "fst x = offset"
proof -
  obtain payload e where r: "read_record env (slot_image img) key (length img) offset SEAL_MAGIC = Some (payload, e)" and x: "fst x = offset"
    using assms by (auto simp: read_seal_def split: Option.bind_splits)
  show "take 4 (drop offset img) = SEAL_MAGIC" "offset + 24 \<le> length img"
    using r by (auto elim!: read_record_inv simp: slot_image_def min_absorb1 split: if_splits)
  show "fst x = offset" by (rule x)
qed

text \<open>Scanning one window is trying its positions from the last to the first.\<close>

lemma scan_window_first:
  assumes "\<And>start. try_seal (w + start) \<noteq> None \<Longrightarrow> start + 4 \<le> length bytes \<Longrightarrow> take 4 (drop start bytes) = SEAL_MAGIC"
  shows "position \<le> length bytes \<Longrightarrow> scan_window try_seal bytes w position = first_some try_seal (map ((+) w) (rev [0..<position - 3]))"
proof (induction position)
  case (Suc position)
  show ?case
  proof (cases "position < 3")
    case True
    thus ?thesis by (simp add: SEAL_MAGIC_def)
  next
    case False
    define start where "start = position - 3"
    have s: "position = start + 3" using False by (simp add: start_def)
    have magic: "(if take 4 (drop start bytes) = SEAL_MAGIC then try_seal (w + start) else None) = try_seal (w + start)"
      using assms [of start] Suc.prems by (cases "try_seal (w + start)") (simp_all add: s)
    have len: "length SEAL_MAGIC = 4" by (simp add: SEAL_MAGIC_def)
    have "\<not> Suc position < 4" "Suc position - 4 = start" using s by simp_all
    hence "scan_window try_seal bytes w (Suc position) =
        (case try_seal (w + start) of Some found \<Rightarrow> Some found | None \<Rightarrow> scan_window try_seal bytes w position)"
      unfolding scan_window.simps(2) len Let_def by (simp only: if_False magic)
    moreover have "rev [0..<Suc position - 3] = start # rev [0..<position - 3]" by (simp add: s)
    ultimately show ?thesis using Suc by (simp split: option.splits)
  qed
qed simp

lemma newest_loop_first:
  "HEADER_LEN \<le> window_end \<Longrightarrow> window_end \<le> length img \<Longrightarrow>
    newest_loop env (slot_image img) key (length img) window_end =
      first_some (read_seal env (slot_image img) key (length img)) (rev [HEADER_LEN..<window_end - 3])"
proof (induction window_end rule: less_induct)
  case (less window_end)
  define w where "w = max (window_end - SCAN_WINDOW) HEADER_LEN"
  have w: "HEADER_LEN \<le> w" "w \<le> window_end" using less.prems by (auto simp: w_def)
  let ?bytes = "take (window_end - w) (drop w img)" and ?attempt = "read_seal env (slot_image img) key (length img)"
  have len: "length ?bytes = window_end - w" using less.prems w by simp
  have rd: "slot_image img w (window_end - w) = Inr ?bytes" using less.prems w by (simp add: slot_image_def)
  have scan: "scan_window ?attempt ?bytes w (window_end - w) = first_some ?attempt (map ((+) w) (rev [0..<window_end - w - 3]))"
  proof (rule scan_window_first)
    fix start assume "?attempt (w + start) \<noteq> None" "start + 4 \<le> length ?bytes"
    thus "take 4 (drop start ?bytes) = SEAL_MAGIC"
      using read_seal_magic(1) [of env img key "w + start"] len by (auto simp: drop_take min_absorb1 add.commute)
  qed (use len in simp)
  have map: "map ((+) w) (rev [0..<window_end - w - 3]) = rev [w..<window_end - 3]"
    using w by (cases "w + 3 \<le> window_end") (simp_all add: rev_map [symmetric] shift_upt)
  show ?case
  proof (cases "w = HEADER_LEN")
    case True
    thus ?thesis using rd scan map w less.prems
      by (subst newest_loop.simps) (simp add: w_def [symmetric] Let_def split: option.splits)
  next
    case False
    hence big: "w = window_end - SCAN_WINDOW" "HEADER_LEN < w" "w + 3 < window_end" "w + 3 \<le> length img"
      using less.prems by (auto simp: w_def SCAN_WINDOW_def HEADER_LEN_def max_def split: if_splits)
    have ih: "newest_loop env (slot_image img) key (length img) (w + 3) = first_some ?attempt (rev [HEADER_LEN..<w])"
      using less.IH [of "w + 3"] big by simp
    have "[HEADER_LEN..<window_end - 3] = [HEADER_LEN..<w] @ [w..<window_end - 3]"
      by (rule upt_split) (use big in auto)
    hence "rev [HEADER_LEN..<window_end - 3] = rev [w..<window_end - 3] @ rev [HEADER_LEN..<w]" by (simp only: rev_append)
    moreover have "length SEAL_MAGIC - 1 = 3" by (simp add: SEAL_MAGIC_def)
    ultimately show ?thesis using rd scan map w less.prems False ih
      by (subst newest_loop.simps) (simp add: w_def [symmetric] Let_def first_some_append split: option.splits)
  qed
qed

lemma newest_seal_first:
  assumes "HEADER_LEN \<le> length img"
  shows "newest_seal env (slot_image img) key (length img) =
    first_some (read_seal env (slot_image img) key (length img)) (rev [HEADER_LEN..<length img])"
proof -
  let ?attempt = "read_seal env (slot_image img) key (length img)"
  have "[HEADER_LEN..<length img] = [HEADER_LEN..<length img - 3] @ [max HEADER_LEN (length img - 3)..<length img]"
    using upt_split [of HEADER_LEN "length img - 3" "length img"] by (auto simp: max_def)
  moreover have "first_some ?attempt (rev [max HEADER_LEN (length img - 3)..<length img]) = None"
  proof (rule first_some_none)
    fix x assume "x \<in> set (rev [max HEADER_LEN (length img - 3)..<length img])"
    hence "length img < x + 24" by auto
    thus "?attempt x = None" using read_seal_magic(2) [of env img key x] by (cases "?attempt x") auto
  qed
  ultimately show ?thesis
    using newest_loop_first [of "length img" img env key] assms by (simp add: newest_seal_def first_some_append)
qed

end
