(* ===== verification/PackSeals.thy ===== *)
theory PackSeals
  imports PackImage
begin

text \<open>
  The chain of seals in a slot: what it is that the seals of a slot seal a table, that verifying the newest
  seal computes this table, and that recovery comes to it.
\<close>

section \<open>Sealed slots\<close>

type_synonym seal_log = "(nat \<times> seal \<times> nat) list" \<comment> \<open>offset, seal and end of each record, the newest first\<close>

definition link_at :: "pack_env \<Rightarrow> bytes \<Rightarrow> bytes \<Rightarrow> nat \<Rightarrow> seal_link" where
  "link_at env key img offset = \<lparr>sl_offset = offset, sl_check =
    record_check env key SEAL_MAGIC offset (fst (the (read_record env (slot_image img) key (length img) offset SEAL_MAGIC)))\<rparr>"

definition top_link :: "pack_env \<Rightarrow> bytes \<Rightarrow> bytes \<Rightarrow> seal_log \<Rightarrow> seal_link option" where
  "top_link env key img log = (case log of [] \<Rightarrow> None | (offset, _) # _ \<Rightarrow> Some (link_at env key img offset))"

definition table_holds :: "pack_env \<Rightarrow> bytes \<Rightarrow> table \<Rightarrow> bool" where
  "table_holds env img t \<longleftrightarrow> (\<forall>(hash, offset, len)\<in>set t. \<exists>x. slot_image img offset len = Inr x \<and> pk_hash env x = hash)"

inductive sealed :: "pack_env \<Rightarrow> bytes \<Rightarrow> bytes \<Rightarrow> seal_log \<Rightarrow> table \<Rightarrow> nat \<Rightarrow> bool" for env key img where
  sealed_nothing: "sealed env key img [] [] 0"
| sealed_seal: "sealed env key img log t n \<Longrightarrow> read_seal env (slot_image img) key (length img) offset = Some (offset, s, e) \<Longrightarrow>
    HEADER_LEN \<le> offset \<Longrightarrow> se_prev s = top_link env key img log \<Longrightarrow>
    (\<forall>(_, s', e')\<in>set log. e' \<le> offset \<and> se_sequence s' < se_sequence s) \<Longrightarrow>
    t' = entry_table (se_added s) (case se_checkpoint s of None \<Rightarrow> t | Some es \<Rightarrow> entry_table es []) \<Longrightarrow>
    delta_holds env (slot_image img) (se_added s) \<Longrightarrow> birth_holds env (slot_image img) s \<Longrightarrow> table_holds env img t' \<Longrightarrow>
    n' = (if se_checkpoint s = None then Suc n else 0) \<Longrightarrow> sealed env key img ((offset, s, e) # log) t' n'"

inductive_cases sealed_ConsE: "sealed env key img ((offset, s, e) # log) t n"

lemma sealed_reads: "sealed env key img log t n \<Longrightarrow> (offset, s, e) \<in> set log \<Longrightarrow>
    read_seal env (slot_image img) key (length img) offset = Some (offset, s, e) \<and> HEADER_LEN \<le> offset"
  by (induction rule: sealed.induct) auto

lemma sealed_table: "sealed env key img log t n \<Longrightarrow> table_holds env img t"
  by (induction rule: sealed.induct) (simp_all add: table_holds_def)

lemma table_holds_extend: "take (length b) img = b \<Longrightarrow> table_holds env b t \<Longrightarrow> table_holds env img t"
  unfolding table_holds_def using image_extend by blast

lemma read_seal_record: "read_seal env rd key len offset = Some x \<Longrightarrow> \<exists>p. read_record env rd key len offset SEAL_MAGIC = Some p"
  by (auto simp: read_seal_def split: Option.bind_splits)

lemma link_at_extend:
  assumes "take (length b) img = b" "read_seal env (slot_image b) key (length b) offset = Some x"
  shows "link_at env key img offset = link_at env key b offset"
  using read_seal_record [OF assms(2)] read_record_extend [OF assms(1)] by (fastforce simp: link_at_def)

lemma top_link_extend:
  assumes "take (length b) img = b" "sealed env key b log t n"
  shows "top_link env key img log = top_link env key b log"
  using sealed_reads [OF assms(2)] link_at_extend [OF assms(1)] by (cases log) (fastforce simp: top_link_def split: prod.splits)+

lemma sealed_extend:
  assumes "take (length b) img = b"
  shows "sealed env key b log t n \<Longrightarrow> sealed env key img log t n"
proof (induction rule: sealed.induct)
  case (sealed_seal log t n offset s e t' n')
  have "birth_holds env (slot_image img) s"
    using sealed_seal(8) delta_holds_extend [OF assms] by (auto simp: birth_holds_def split: option.splits)
  thus ?case
    using sealed_seal read_seal_extend [OF assms] delta_holds_extend [OF assms] table_holds_extend [OF assms] top_link_extend [OF assms]
    by (intro sealed.sealed_seal [of env key img log t n offset s e t' n']) auto
qed (rule sealed_nothing)

section \<open>Verifying a chain\<close>

lemma chain_loop_sealed:
  assumes "sealed env key img log t n" "\<forall>(_, s', _)\<in>set log. se_sequence s' < sequence"
  shows "\<exists>ds base fc. chain_loop env (slot_image img) key (length img) deltas None sequence (top_link env key img log) = Some (deltas @ ds, base, fc)
    \<and> fold entry_table (rev ds) (entry_table base []) = t \<and> (if fc then ds \<noteq> [] \<and> length ds - 1 = n else length ds = n)"
  using assms
proof (induction arbitrary: sequence deltas rule: sealed.induct)
  case sealed_nothing
  show ?case by (subst chain_loop.simps) (auto simp: top_link_def entry_table_def intro: exI [of _ False])
next
  case (sealed_seal log t n offset s e t' n')
  obtain p where p: "read_record env (slot_image img) key (length img) offset SEAL_MAGIC = Some p"
    using read_seal_record [OF sealed_seal(2)] by blast
  have seq: "se_sequence s < sequence" using sealed_seal.prems by simp
  have below: "\<forall>(_, s', _)\<in>set log. se_sequence s' < se_sequence s" using sealed_seal(5) by auto
  have step: "chain_loop env (slot_image img) key (length img) deltas None sequence (top_link env key img ((offset, s, e) # log)) =
      chain_loop env (slot_image img) key (length img) (deltas @ [se_added s]) (se_checkpoint s) (se_sequence s) (top_link env key img log)"
    using p sealed_seal(2,4) seq by (subst chain_loop.simps) (simp add: top_link_def link_at_def split: prod.splits)
  show ?case
  proof (cases "se_checkpoint s")
    case (Some es)
    thus ?thesis unfolding step using sealed_seal(6,10)
      by (subst chain_loop.simps) (auto intro!: exI [of _ "[se_added s]"])
  next
    case None
    obtain ds base fc where ih: "chain_loop env (slot_image img) key (length img) (deltas @ [se_added s]) None (se_sequence s) (top_link env key img log)
        = Some ((deltas @ [se_added s]) @ ds, base, fc)" "fold entry_table (rev ds) (entry_table base []) = t"
      "if fc then ds \<noteq> [] \<and> length ds - 1 = n else length ds = n"
      using sealed_seal.IH [OF below, of "deltas @ [se_added s]"] by blast
    show ?thesis unfolding step None using ih sealed_seal(6,10) None
      by (intro exI [of _ "se_added s # ds"] exI [of _ base] exI [of _ fc]) (auto split: if_splits)
  qed
qed

lemma verify_chain_sealed:
  assumes "sealed env key img log t n" "\<forall>(_, s', _)\<in>set log. se_sequence s' < se_sequence s" "se_prev s = top_link env key img log"
  shows "verify_chain env (slot_image img) key (length img) s =
    Some (entry_table (se_added s) (case se_checkpoint s of None \<Rightarrow> t | Some es \<Rightarrow> entry_table es []),
      if se_checkpoint s = None then Suc n else 0)"
proof (cases "se_checkpoint s")
  case (Some es)
  thus ?thesis by (simp add: verify_chain_def chain_loop.simps)
next
  case None
  obtain ds base fc where "chain_loop env (slot_image img) key (length img) [se_added s] None (se_sequence s) (top_link env key img log) =
      Some ([se_added s] @ ds, base, fc)" "fold entry_table (rev ds) (entry_table base []) = t"
    and n: "if fc then ds \<noteq> [] \<and> length ds - 1 = n else length ds = n"
    using chain_loop_sealed [OF assms(1,2)] by blast
  moreover have "(if fc then length (se_added s # ds) - 1 else length (se_added s # ds)) = Suc n"
    using n by (cases ds) (auto split: if_splits)
  ultimately show ?thesis using None assms(3) by (simp add: verify_chain_def)
qed

section \<open>Recovering\<close>

definition state_of :: "pack_env \<Rightarrow> bytes \<Rightarrow> bytes \<Rightarrow> nat \<times> seal \<times> nat \<Rightarrow> table \<Rightarrow> nat \<Rightarrow> slot_state" where
  "state_of env key img = (\<lambda>(offset, s, e) t n.
    \<lparr>ss_len = e, ss_table = t, ss_sequence = se_sequence s, ss_generation = se_generation s, ss_last_seal = link_at env key img offset,
     ss_since = n, ss_provenance = se_provenance s, ss_manifest = se_manifest s\<rparr>)"

lemma recover_verified:
  assumes "read_seal env (slot_image img) key (length img) offset = Some (offset, s, e)"
    and "verify_chain env (slot_image img) key (length img) s = Some (t, n)"
    and "delta_holds env (slot_image img) (se_added s)" "birth_holds env (slot_image img) s"
  shows "recover_loop env (slot_image img) key (length img) (Some (offset, s, e)) torn = Some (Some (state_of env key img (offset, s, e) t n), torn)"
  using assms read_seal_record [OF assms(1)]
  by (subst recover_loop.simps) (auto simp: Let_def state_of_def link_at_def)

lemma recover_top:
  assumes "sealed env key img (x # log) t n"
  shows "recover_loop env (slot_image img) key (length img) (Some x) torn = Some (Some (state_of env key img x t n), torn)"
proof -
  obtain offset s e where x: "x = (offset, s, e)" by (cases x)
  show ?thesis using assms unfolding x
    by (elim sealed_ConsE) (rule recover_verified, use verify_chain_sealed [of env key img log _ _ s] in \<open>auto split: prod.splits\<close>)
qed

lemma first_some_last:
  assumes "f k = Some x" "a \<le> k" "k < b" "\<And>j. k < j \<Longrightarrow> f j = None"
  shows "first_some f (rev [a..<b]) = Some x"
proof -
  have "[a..<b] = [a..<k] @ k # [Suc k..<b]" using assms(2,3) upt_split [of a k b] by (simp add: upt_conv_Cons)
  moreover have "first_some f (rev [Suc k..<b]) = None" using assms(4) by (intro first_some_none) auto
  ultimately show ?thesis using assms(1) by (simp add: first_some_append)
qed

definition genuine :: "pack_env \<Rightarrow> bytes \<Rightarrow> bytes \<Rightarrow> (nat \<times> seal \<times> nat) set \<Rightarrow> bool" where
  \<comment> \<open>every record of the image that verifies as a seal is one of these\<close>
  "genuine env key img seals \<longleftrightarrow>
    (\<forall>offset x. HEADER_LEN \<le> offset \<longrightarrow> read_seal env (slot_image img) key (length img) offset = Some x \<longrightarrow> x \<in> seals)"

lemma newest_is:
  assumes "HEADER_LEN \<le> length img" "genuine env key img seals" "x \<in> seals"
    and "read_seal env (slot_image img) key (length img) (fst x) = Some x" "HEADER_LEN \<le> fst x"
    and "\<And>y. y \<in> seals \<Longrightarrow> fst y \<le> fst x"
  shows "newest_seal env (slot_image img) key (length img) = Some x"
proof -
  have "read_seal env (slot_image img) key (length img) j = None" if "fst x < j" for j
  proof (rule ccontr)
    assume "read_seal env (slot_image img) key (length img) j \<noteq> None"
    then obtain y where y: "read_seal env (slot_image img) key (length img) j = Some y" by auto
    moreover have "HEADER_LEN \<le> j" using assms(5) that by simp
    ultimately have "y \<in> seals" using assms(2) unfolding genuine_def by blast
    thus False using assms(6) [of y] read_seal_magic(3) [OF y] that by simp
  qed
  moreover have "fst x < length img" using read_seal_magic(2) [OF assms(4)] by simp
  ultimately show ?thesis unfolding newest_seal_first [OF assms(1)] 
    by (intro first_some_last [of "read_seal env (slot_image img) key (length img)" "fst x", OF assms(4,5)])
qed

lemma newest_none:
  assumes "HEADER_LEN \<le> length img" "genuine env key img {}"
  shows "newest_seal env (slot_image img) key (length img) = None"
  unfolding newest_seal_first [OF assms(1)]
proof (rule first_some_none)
  fix k assume "k \<in> set (rev [HEADER_LEN..<length img])"
  thus "read_seal env (slot_image img) key (length img) k = None"
    using assms(2) by (cases "read_seal env (slot_image img) key (length img) k") (auto simp: genuine_def)
qed

lemma sealed_offsets: "sealed env key img (x # log) t n \<Longrightarrow> y \<in> set (x # log) \<Longrightarrow> fst y \<le> fst x"
proof (cases x)
  case (fields offset s e)
  assume "sealed env key img (x # log) t n" "y \<in> set (x # log)"
  moreover have "fst y \<le> snd (snd y)" if "read_seal env (slot_image img) key (length img) (fst y) = Some y"
    using that by (cases y) (auto simp: read_seal_def elim!: read_record_inv split: Option.bind_splits)
  ultimately show ?thesis unfolding fields by (cases y) (fastforce elim!: sealed_ConsE dest: sealed_reads)
qed

lemma recover_sealed:
  assumes "sealed env key img log t n" "HEADER_LEN \<le> length img" "genuine env key img (set log)"
  shows "recover_state env (slot_image img) key (length img) =
    Some (case log of [] \<Rightarrow> None | x # _ \<Rightarrow> Some (state_of env key img x t n), False)"
proof (cases log)
  case Nil
  thus ?thesis using newest_none [OF assms(2)] assms(3) by (simp add: recover_state_def recover_loop.simps)
next
  case (Cons x rest)
  have r: "read_seal env (slot_image img) key (length img) (fst x) = Some x" "HEADER_LEN \<le> fst x"
    using sealed_reads [OF assms(1), of "fst x" "fst (snd x)" "snd (snd x)"] Cons by auto
  have "newest_seal env (slot_image img) key (length img) = Some x"
    using sealed_offsets [of env key img x rest t n] assms(1,3) r Cons by (intro newest_is [OF assms(2)]) auto
  thus ?thesis using recover_top [of env key img x rest t n] assms(1) Cons by (simp add: recover_state_def)
qed

end
