(* ===== verification/PackCommit.thy ===== *)
theory PackCommit
  imports PackSeals
begin

text \<open>
  Committing: what the writer leaves in its slot when a commit succeeds or fails, and the invariant every
  commit keeps. What is shown of a crash: an acknowledged commit survives whatever happens to the bytes
  behind it, and a commit that was interrupted happened completely or not at all.
\<close>

section \<open>Writing\<close>

definition held :: "writer_state \<Rightarrow> bytes" where
  \<comment> \<open>the bytes of the slot the writer holds\<close>
  "held ws = slot_bytes ws (ws_name ws)"

lemma slot_bytes_put [simp]: "slot_bytes (put_slot name b ws) m = (if m = name then b else slot_bytes ws m)"
  by (simp add: slot_bytes_def put_slot_def AList.update_conv')

lemma put_slot_fields [simp]:
  "ws_name (put_slot name b ws) = ws_name ws" "ws_len (put_slot name b ws) = ws_len ws" "ws_io (put_slot name b ws) = ws_io ws"
  "ws_unreadable (put_slot name b ws) = ws_unreadable ws"
  by (simp_all add: put_slot_def)

lemma slot_bytes_fields [simp]:
  "slot_bytes (ws\<lparr>ws_io := i\<rparr>) m = slot_bytes ws m" "slot_bytes (ws\<lparr>ws_len := l\<rparr>) m = slot_bytes ws m"
  "slot_bytes (ws\<lparr>ws_name := n\<rparr>) m = slot_bytes ws m"
  by (simp_all add: slot_bytes_def)

lemma outcome_fields:
  "outcome ws = (r, ws') \<Longrightarrow> ws_name ws' = ws_name ws \<and> ws_len ws' = ws_len ws \<and> slot_bytes ws' = slot_bytes ws \<and> ws_unreadable ws' = ws_unreadable ws"
  by (auto simp: outcome_def slot_bytes_def fun_eq_iff split: list.splits)

text \<open>The writer stands at the end of a slot that begins with the bytes \<open>b\<close>.\<close>

definition beyond :: "string \<Rightarrow> bytes \<Rightarrow> writer_state \<Rightarrow> bool" where
  "beyond name b ws \<longleftrightarrow> ws_name ws = name \<and> length b \<le> ws_len ws \<and> ws_len ws \<le> length (held ws) \<and> take (length b) (held ws) = b"

definition at_end :: "writer_state \<Rightarrow> bool" where
  "at_end ws \<longleftrightarrow> ws_len ws = length (held ws) \<and> ws_len ws < 2 ^ 64"

definition appended_to :: "writer_state \<Rightarrow> bytes \<Rightarrow> writer_state \<Rightarrow> bool" where
  "appended_to ws bytes ws' \<longleftrightarrow> at_end ws' \<and> ws_name ws' = ws_name ws \<and> held ws' = held ws @ bytes"

lemma wrote_held: "appended_to ws bytes ws' \<Longrightarrow> held ws' = held ws @ bytes \<and> at_end ws' \<and> ws_name ws' = ws_name ws"
  by (simp add: appended_to_def)

lemma wrote_trans: "appended_to ws a ws' \<Longrightarrow> appended_to ws' b ws'' \<Longrightarrow> appended_to ws (a @ b) ws''"
  by (simp add: appended_to_def)

lemma wr_then_Inr: "wr_then m f ws = (Inr y, ws'') \<longleftrightarrow> (\<exists>x ws'. m ws = (Inr x, ws') \<and> f x ws' = (Inr y, ws''))"
  by (auto simp: wr_then_def split: prod.splits sum.splits)

lemma wr_then_keeps:
  "(\<And>ws. I ws \<Longrightarrow> I (snd (m ws))) \<Longrightarrow> (\<And>x ws. I ws \<Longrightarrow> I (snd (f x ws))) \<Longrightarrow> I ws \<Longrightarrow> I (snd (wr_then m f ws))"
  by (auto simp: wr_then_def split: prod.splits sum.splits) (metis snd_conv)+

lemma wr_io_Inr: "wr_io op m ws = (Inr x, ws') \<longleftrightarrow> m ws = (Inr x, ws')"
  by (auto simp: wr_io_def split: prod.splits sum.splits)

lemma wr_io_snd [simp]: "snd (wr_io op m ws) = snd (m ws)"
  by (auto simp: wr_io_def split: prod.splits sum.splits)

lemma wr_return_simps [simp]: "wr_return x ws = (Inr x, ws)" "wr_fail e ws = (Inl e, ws)"
  by (simp_all add: wr_return_def wr_fail_def)

lemma write_at_end: "offset = length b \<Longrightarrow> write_all_at bytes offset b = b @ bytes"
  by (simp add: write_all_at_def)

lemma take_write: "n \<le> offset \<Longrightarrow> offset \<le> length b \<Longrightarrow> take n (write_all_at bytes offset b) = take n b"
  by (simp add: write_all_at_def min_absorb1)

lemma length_write: "offset \<le> length b \<Longrightarrow> length (write_all_at bytes offset b) = max (offset + length bytes) (length b)"
  by (simp add: write_all_at_def)

lemma sw_append_Inr:
  assumes "sw_append bytes ws = (Inr offset, ws')" "at_end ws"
  shows "appended_to ws bytes ws'" "offset = ws_len ws"
proof -
  obtain r ws1 where o1: "outcome ws = (r, ws1)" by fastforce
  note f = outcome_fields [OF o1]
  show "appended_to ws bytes ws'" "offset = ws_len ws"
    using assms f by (auto simp: sw_append_def o1 Let_def add64_def appended_to_def at_end_def write_at_end held_def
        split: io_outcome.splits option.splits if_splits)
qed

lemma sw_append_beyond: "beyond name b ws \<Longrightarrow> beyond name b (snd (sw_append bytes ws))"
proof -
  assume a: "beyond name b ws"
  obtain r ws1 where o1: "outcome ws = (r, ws1)" by fastforce
  note f = outcome_fields [OF o1]
  show ?thesis
    using a f by (auto simp: sw_append_def o1 Let_def add64_def beyond_def held_def take_write length_write split: io_outcome.splits option.splits)
qed

lemma sw_flush_Inr: "sw_flush ws = (Inr u, ws') \<Longrightarrow> at_end ws \<Longrightarrow> appended_to ws [] ws'"
  by (auto simp: sw_flush_def appended_to_def at_end_def held_def dest!: outcome_fields split: prod.splits io_outcome.splits)

lemma sw_flush_beyond: "beyond name b ws \<Longrightarrow> beyond name b (snd (sw_flush ws))"
  by (auto simp: sw_flush_def beyond_def held_def dest!: outcome_fields split: prod.splits io_outcome.splits)

section \<open>Records\<close>

lemma append_record_Inr:
  assumes "append_record env key magic payload ws = (Inr offset, ws')" "at_end ws"
  shows "appended_to ws (record_bytes env key magic (ws_len ws) payload) ws'" "offset = ws_len ws + 8" "length payload \<le> MAX_RECORD_BYTES"
  using assms by (auto simp: append_record_def wr_then_Inr wr_io_Inr add64_def record_bytes_def dest: sw_append_Inr split: if_splits)

lemma append_record_beyond: "beyond name b ws \<Longrightarrow> beyond name b (snd (append_record env key magic payload ws))"
  by (auto simp: append_record_def split: option.splits intro!: wr_then_keeps [of "beyond name b"] sw_append_beyond)

lemma append_objects_beyond: "beyond name b ws \<Longrightarrow> beyond name b (snd (append_objects env key objs t added ws))"
  by (induction objs arbitrary: ws t added) (auto intro!: wr_then_keeps [of "beyond name b"] append_record_beyond)

lemma append_seal_beyond: "beyond name b ws \<Longrightarrow> beyond name b (snd (append_seal env key seal ws))"
  by (auto simp: append_seal_def split: option.splits intro!: wr_then_keeps [of "beyond name b"] append_record_beyond)

lemma wrote_prefix: "appended_to ws x ws' \<Longrightarrow> take (length (held ws)) (held ws') = held ws"
  by (simp add: appended_to_def)

lemma entry_table_snoc: "entry_table (es @ [e]) t = bm_insert (te_hash e) (te_offset e, te_len e) (entry_table es t)"
  by (simp add: entry_table_def)

lemma entry_table_append: "entry_table (es @ fs) t = entry_table fs (entry_table es t)"
  by (simp add: entry_table_def)

text \<open>An object that a record holds.\<close>

lemma object_written:
  assumes "env_ok env" "append_record env key OBJECT_MAGIC x ws = (Inr off, ws')" "at_end ws"
  shows "slot_image (held ws') off (length x) = Inr x" "off = ws_len ws + 8" "length x < 2 ^ 64 - 1"
proof -
  note w = append_record_Inr [OF assms(2,3)]
  note h = wrote_held [OF w(1)]
  have l: "length (record_bytes env key OBJECT_MAGIC (ws_len ws) x) = 24 + length x"
    by (rule length_record_bytes [OF assms(1)]) (simp add: OBJECT_MAGIC_def)
  have "take (24 + length x) (drop (ws_len ws) (held ws')) = record_bytes env key OBJECT_MAGIC (ws_len ws) x"
    using h assms(3) l by (simp add: at_end_def)
  thus "slot_image (held ws') off (length x) = Inr x"
    using image_within [of "record_bytes env key OBJECT_MAGIC (ws_len ws) x" "ws_len ws" "held ws'" 8 "length x"] l w(2)
    by (auto simp: record_bytes_def OBJECT_MAGIC_def)
  show "off = ws_len ws + 8" by (rule w(2))
  show "length x < 2 ^ 64 - 1" using w(3) by (simp add: MAX_RECORD_BYTES_def)
qed

text \<open>Appending objects: every object is in the table afterwards, and every new entry names the bytes of its object.\<close>

lemma append_objects_Inr:
  assumes "env_ok env"
  shows "append_objects env key objs t added ws = (Inr (t', added'), ws') \<Longrightarrow> at_end ws \<Longrightarrow> bm_wf t \<Longrightarrow>
    \<exists>more bytes. added' = added @ more \<and> t' = entry_table more t \<and> appended_to ws bytes ws' \<and> delta_holds env (slot_image (held ws')) more
      \<and> bm_wf t' \<and> (\<forall>b\<in>set objs. map_of t' (pk_hash env b) \<noteq> None) \<and> map_of t \<subseteq>\<^sub>m map_of t'"
proof (induction objs arbitrary: t added ws)
  case Nil
  thus ?case by (intro exI [of _ "[]"]) (auto simp: entry_table_def appended_to_def delta_holds_def)
next
  case (Cons b objs)
  show ?case
  proof (cases "map_of t (pk_hash env b) = None")
    case False
    then obtain more bytes where m: "added' = added @ more" "t' = entry_table more t" "appended_to ws bytes ws'" "delta_holds env (slot_image (held ws')) more"
      "bm_wf t'" "\<forall>b\<in>set objs. map_of t' (pk_hash env b) \<noteq> None" "map_of t \<subseteq>\<^sub>m map_of t'"
      using Cons.IH [of t added ws] Cons.prems by auto
    moreover have "map_of t' (pk_hash env b) \<noteq> None" using False m(7) by (metis domIff map_le_implies_dom_le subsetD)
    ultimately show ?thesis by auto
  next
    case True
    let ?e = "\<lparr>te_hash = pk_hash env b, te_offset = ws_len ws + 8, te_len = length b\<rparr>"
    let ?t = "bm_insert (pk_hash env b) (ws_len ws + 8, length b) t"
    obtain offset ws1 where r0: "append_record env key OBJECT_MAGIC b ws = (Inr offset, ws1)"
      "append_objects env key objs (bm_insert (pk_hash env b) (offset, length b) t)
        (added @ [\<lparr>te_hash = pk_hash env b, te_offset = offset, te_len = length b\<rparr>]) ws1 = (Inr (t', added'), ws')"
      using Cons.prems(1) True by (auto simp: wr_then_Inr)
    have "offset = ws_len ws + 8" by (rule append_record_Inr(2) [OF r0(1) Cons.prems(2)])
    note r = r0 [unfolded this]
    note w = append_record_Inr [OF r(1) Cons.prems(2)]
    have "at_end ws1" using wrote_held [OF w(1)] by simp
    moreover have "bm_wf ?t" by (rule bm_wf_insert [OF Cons.prems(3)])
    ultimately obtain more bytes where m: "added' = (added @ [?e]) @ more" "t' = entry_table more ?t" "appended_to ws1 bytes ws'"
      "delta_holds env (slot_image (held ws')) more" "bm_wf t'" "\<forall>b\<in>set objs. map_of t' (pk_hash env b) \<noteq> None" "map_of ?t \<subseteq>\<^sub>m map_of t'"
      using Cons.IH [OF r(2)] by blast
    have new: "map_of ?t = (map_of t)(pk_hash env b \<mapsto> (ws_len ws + 8, length b))" by (auto simp: fun_eq_iff bm_get_insert)
    have "slot_image (held ws1) (ws_len ws + 8) (length b) = Inr b" by (rule object_written(1) [OF assms r(1) Cons.prems(2)])
    hence "delta_holds env (slot_image (held ws')) [?e]"
      using image_extend [OF wrote_prefix [OF m(3)]] by (auto simp: delta_holds_iff)
    moreover have "map_of ?t (pk_hash env b) = map_of t' (pk_hash env b)"
      using m(7) unfolding map_le_def by (rule bspec) (simp add: new)
    hence "map_of t' (pk_hash env b) \<noteq> None" by (metis new fun_upd_same option.distinct(1))
    moreover have "map_of t \<subseteq>\<^sub>m map_of t'"
    proof (rule map_le_trans [OF _ m(7)])
      show "map_of t \<subseteq>\<^sub>m map_of ?t" using True by (auto simp: new map_le_def)
    qed
    ultimately show ?thesis using m(1-6) wrote_trans [OF w(1) m(3)]
      by (intro exI [of _ "?e # more"] exI [of _ "record_bytes env key OBJECT_MAGIC (ws_len ws) b @ bytes"])
        (auto simp: entry_table_def delta_holds_iff)
  qed
qed

lemma append_seal_Inr:
  assumes "append_seal env key s ws = (Inr link, ws')" "at_end ws" "env_ok env"
  shows "\<exists>bytes. appended_to ws bytes ws'" "link = link_at env key (held ws') (ws_len ws)"
    "read_seal env (slot_image (held ws')) key (length (held ws')) (ws_len ws) = Some (ws_len ws, s, ws_len ws')"
proof -
  obtain payload off where p: "pk_encode env s = Some payload" "append_record env key SEAL_MAGIC payload ws = (Inr off, ws')"
    "link = \<lparr>sl_offset = ws_len ws, sl_check = record_check env key SEAL_MAGIC (ws_len ws) payload\<rparr>"
    using assms(1) by (auto simp: append_seal_def wr_then_Inr split: option.splits)
  note w = append_record_Inr [OF p(2) assms(2)]
  have l: "length (record_bytes env key SEAL_MAGIC (ws_len ws) payload) = 24 + length payload"
    by (rule length_record_bytes [OF assms(3)]) (simp add: SEAL_MAGIC_def)
  have h: "held ws' = held ws @ record_bytes env key SEAL_MAGIC (ws_len ws) payload" "at_end ws'" using wrote_held [OF w(1)] by auto
  have r: "read_record env (slot_image (held ws')) key (length (held ws')) (ws_len ws) SEAL_MAGIC = Some (payload, ws_len ws + 24 + length payload)"
    using h assms(2) w(3) l by (intro read_record_written [OF assms(3)]) (simp_all add: at_end_def SEAL_MAGIC_def)
  show "\<exists>bytes. appended_to ws bytes ws'" using w(1) by blast
  show "link = link_at env key (held ws') (ws_len ws)" using r p(3) by (simp add: link_at_def)
  have "ws_len ws' = ws_len ws + 24 + length payload" using h assms(2) l by (simp add: at_end_def)
  thus "read_seal env (slot_image (held ws')) key (length (held ws')) (ws_len ws) = Some (ws_len ws, s, ws_len ws')"
    using r p(1) assms(3) by (auto simp: read_seal_def env_ok_def)
qed

lemma flush_or_poison_Inr: "flush_or_poison ws = (Inr u, ws') \<Longrightarrow> at_end ws \<Longrightarrow> appended_to ws [] ws'"
  by (auto simp: flush_or_poison_def dest: sw_flush_Inr split: prod.splits sum.splits)

lemma flush_or_poison_beyond: "beyond name b ws \<Longrightarrow> beyond name b (snd (flush_or_poison ws))"
  using sw_flush_beyond [of name b ws] by (auto simp: flush_or_poison_def split: prod.splits sum.splits)

section \<open>The invariant\<close>

definition headed :: "pack_env \<Rightarrow> bytes \<Rightarrow> string \<Rightarrow> bytes \<Rightarrow> bool" where
  \<comment> \<open>the bytes open with the header of the slot, whose salt gives the key\<close>
  "headed env key name b \<longleftrightarrow>
    (\<exists>salt. length salt = SALT_LEN \<and> length name \<le> HEADER_NAME_CAPACITY \<and> key = pk_derive env salt \<and> take HEADER_LEN b = slot_header salt name)"

lemma headed_extend: "headed env key name b \<Longrightarrow> take (length b) b' = b \<Longrightarrow> HEADER_LEN \<le> length b \<Longrightarrow> headed env key name b'"
proof -
  assume a: "headed env key name b" "take (length b) b' = b" "HEADER_LEN \<le> length b"
  have "take HEADER_LEN b' = take HEADER_LEN (take (length b) b')" using a(3) by (simp add: min_absorb1)
  also have "\<dots> = take HEADER_LEN b" by (simp only: a(2))
  finally show ?thesis using a(1) by (simp add: headed_def)
qed

definition pack_core :: "pack_env \<Rightarrow> pack_store \<Rightarrow> string \<Rightarrow> bytes \<Rightarrow> seal_log \<Rightarrow> bool" where
  \<comment> \<open>the store and the sealed bytes of its slot\<close>
  "pack_core env st name b log \<longleftrightarrow>
    (let sn = ps_snapshot st in
     sn_generation sn = name \<and> HEADER_LEN \<le> sn_sealed_len sn \<and> sn_sealed_len sn < 2 ^ 64 \<and>
     sealed env (ps_key st) b log (sn_table sn) (ps_since st) \<and> bm_wf (sn_table sn) \<and> ps_since st < CHECKPOINT_EVERY \<and>
     ps_last_seal st = top_link env (ps_key st) b log \<and> headed env (ps_key st) name b \<and>
     (case log of
        [] \<Rightarrow> sn_sequence sn = 0 \<and> sn_sealed_len sn = HEADER_LEN \<and> ps_manifest st = None
      | (_, s, e) # _ \<Rightarrow> e = sn_sealed_len sn \<and> se_sequence s = sn_sequence sn \<and> se_generation s = ps_generation st
          \<and> ps_manifest st = Some (se_manifest s)) \<and>
     name = slot_name (ps_prefix st) (ps_generation st) \<and>
     (\<forall>name\<in>set (ps_graveyard st). \<exists>g<ps_generation st. name = slot_name (ps_prefix st) g))"

lemma pack_core_poison [simp]: "pack_core env (st\<lparr>ps_poisoned := p\<rparr>) name b log = pack_core env st name b log"
  by (cases log) (auto simp: pack_core_def Let_def)

definition pack_inv :: "pack_env \<Rightarrow> pack_store \<Rightarrow> writer_state \<Rightarrow> seal_log \<Rightarrow> bool" where
  "pack_inv env st ws log \<longleftrightarrow>
    pack_core env st (ws_name ws) (take (sn_sealed_len (ps_snapshot st)) (held ws)) log \<and>
    sn_sealed_len (ps_snapshot st) \<le> length (held ws) \<and>
    (\<not> ps_poisoned st \<longrightarrow> length (held ws) = sn_sealed_len (ps_snapshot st) \<and> ws_len ws = sn_sealed_len (ps_snapshot st))"

lemmas pack_inv_defs = pack_inv_def pack_core_def Let_def

definition last_logged :: "pack_env \<Rightarrow> pack_store \<Rightarrow> writer_state \<Rightarrow> nat \<times> seal \<times> nat" where
  "last_logged env st ws =
    the (read_seal env (slot_image (held ws)) (ps_key st) (length (held ws)) (sl_offset (the (ps_last_seal st))))"

lemma sealed_below: "sealed env key b (x # log) t n \<Longrightarrow> y \<in> set (x # log) \<Longrightarrow> se_sequence (fst (snd y)) \<le> se_sequence (fst (snd x)) \<and> snd (snd y) \<le> snd (snd x)"
proof (cases x)
  case (fields offset s e)
  assume a: "sealed env key b (x # log) t n" "y \<in> set (x # log)"
  hence "read_seal env (slot_image b) key (length b) offset = Some (offset, s, e)"
    and below: "\<forall>(_, s', e')\<in>set log. e' \<le> offset \<and> se_sequence s' < se_sequence s" unfolding fields by (auto elim!: sealed_ConsE)
  hence "offset \<le> e" by (auto simp: read_seal_def elim!: read_record_inv split: Option.bind_splits)
  thus ?thesis using a(2) below fields by fastforce
qed

lemma map_of_entry_table: "map_of (entry_table es t) = map_of t ++ map_of (map (\<lambda>e. (te_hash e, te_offset e, te_len e)) (rev es))"
  by (induction es rule: rev_induct) (auto simp: entry_table_def bm_get_insert fun_eq_iff map_add_def split: option.splits)

lemma bm_wf_entry_table: "bm_wf t \<Longrightarrow> bm_wf (entry_table es t)"
  by (induction es arbitrary: t) (simp_all add: entry_table_def bm_wf_insert)

lemma table_entries_round: "bm_wf t \<Longrightarrow> entry_table (table_entries t) [] = t"
proof (rule bm_ext)
  assume wf: "bm_wf t"
  show "bm_wf (entry_table (table_entries t) [])" by (rule bm_wf_entry_table) (simp add: bm_wf_def)
  have "map (\<lambda>e. (te_hash e, te_offset e, te_len e)) (rev (table_entries t)) = rev t"
    by (simp add: table_entries_def rev_map [symmetric] case_prod_unfold comp_def)
  moreover have "map_of (rev t) = map_of t" 
    using wf map_of_inject_set [of "rev t" t] by (auto simp: bm_wf_def strict_sorted_iff rev_map [symmetric])
  ultimately show "map_of (entry_table (table_entries t) []) = map_of t" by (simp add: map_of_entry_table)
qed

lemma entry_table_idem: "bm_wf t \<Longrightarrow> entry_table es (entry_table es t) = entry_table es t"
  by (rule bm_ext) (auto simp: bm_wf_entry_table map_of_entry_table fun_eq_iff map_add_def split: option.splits)

lemma table_holds_entries: "table_holds env img t \<Longrightarrow> delta_holds env (slot_image img) (table_entries t)"
  by (fastforce simp: table_holds_def delta_holds_iff table_entries_def)

lemma table_holds_insert: "table_holds env img t \<Longrightarrow> slot_image img off len = Inr x \<Longrightarrow> table_holds env img (bm_insert (pk_hash env x) (off, len) t)"
  using set_bm_insert_subset [of "pk_hash env x" "(off, len)" t] by (auto simp: table_holds_def)

lemma table_holds_entry_table:
  "table_holds env img t \<Longrightarrow> delta_holds env (slot_image img) es \<Longrightarrow> table_holds env img (entry_table es t)"
proof (induction es arbitrary: t)
  case (Cons e es)
  obtain x where x: "slot_image img (te_offset e) (te_len e) = Inr x" "pk_hash env x = te_hash e"
    using Cons.prems(2) by (auto simp: delta_holds_iff)
  have "table_holds env img (entry_table es (bm_insert (te_hash e) (te_offset e, te_len e) t))"
    using Cons.prems table_holds_insert [OF Cons.prems(1) x(1)] x(2) by (intro Cons.IH) (auto simp: delta_holds_iff)
  thus ?case by (simp add: entry_table_def)
qed (simp add: entry_table_def)

lemma read_seal_end: "read_seal env rd key slot_len offset = Some (o', s, e) \<Longrightarrow> e \<le> slot_len"
  by (auto simp: read_seal_def elim!: read_record_inv split: Option.bind_splits)

text \<open>A seal of the next commit that reads in an image and whose objects hold there extends the sealed log.\<close>

lemma next_sealed:
  assumes "sealed env (ps_key st) b log t (ps_since st)" "take (length b) img = b"
    and "read_seal env (slot_image img) (ps_key st) (length img) offset = Some (offset, s, e)" "HEADER_LEN \<le> length b" "length b \<le> offset"
    and "s = commit_seal st sequence t' added manifest" "t' = entry_table added t" "bm_wf t" "delta_holds env (slot_image img) added"
    and "ps_last_seal st = top_link env (ps_key st) b log" "\<forall>(_, s', _)\<in>set log. se_sequence s' < sequence"
  shows "sealed env (ps_key st) img ((offset, s, e) # log) t' (if checkpoint_due st then 0 else Suc (ps_since st))"
proof (rule sealed_seal [OF sealed_extend [OF assms(2,1)] assms(3)])
  show "HEADER_LEN \<le> offset" using assms(4,5) by simp
  show "se_prev s = top_link env (ps_key st) img log"
    using assms(6,10) top_link_extend [OF assms(2,1)] by (simp add: commit_seal_def)
  have "e' \<le> offset" if "(o', s', e') \<in> set log" for o' s' e'
    using sealed_reads [OF assms(1) that] read_seal_end [of env "slot_image b" "ps_key st" "length b" o'] assms(5) by fastforce
  thus "\<forall>(_, s', e')\<in>set log. e' \<le> offset \<and> se_sequence s' < se_sequence s"
    using assms(6,11) by (fastforce simp: commit_seal_def)
  have t: "table_holds env img t'"
    using sealed_table [OF sealed_extend [OF assms(2,1)]] table_holds_entry_table assms(7,9) by simp
  thus "table_holds env img t'" .
  have wf: "bm_wf t'" using assms(7,8) bm_wf_entry_table by simp
  have "entry_table added t' = t'" using entry_table_idem [OF assms(8)] assms(7) by simp
  thus "t' = entry_table (se_added s) (case se_checkpoint s of None \<Rightarrow> t | Some es \<Rightarrow> entry_table es [])"
    using assms(6,7) table_entries_round [OF wf] by (auto simp: commit_seal_def)
  show "delta_holds env (slot_image img) (se_added s)" using assms(6,9) by (simp add: commit_seal_def)
  show "birth_holds env (slot_image img) s" using assms(6) table_holds_entries [OF t] by (auto simp: birth_holds_def commit_seal_def)
  show "(if checkpoint_due st then 0 else Suc (ps_since st)) = (if se_checkpoint s = None then Suc (ps_since st) else 0)"
    using assms(6) by (simp add: commit_seal_def)
qed

lemma pack_inv_below:
  assumes "pack_inv env st ws log"
  shows "\<forall>(_, s', _)\<in>set log. se_sequence s' < Suc (sn_sequence (ps_snapshot st))"
proof (cases log)
  case (Cons x rest)
  obtain o' s' e' where x: "x = (o', s', e')" by (cases x)
  have "sealed env (ps_key st) (take (sn_sealed_len (ps_snapshot st)) (held ws)) (x # rest) (sn_table (ps_snapshot st)) (ps_since st)"
    "se_sequence s' = sn_sequence (ps_snapshot st)"
    using assms by (auto simp: pack_inv_defs Cons x)
  thus ?thesis using sealed_below [of env "ps_key st" _ x rest] unfolding Cons x by fastforce
qed simp

lemma pack_inv_at_end:
  assumes "pack_inv env st ws log" "\<not> ps_poisoned st"
  shows "at_end ws" "take (sn_sealed_len (ps_snapshot st)) (held ws) = held ws" "ws_len ws = sn_sealed_len (ps_snapshot st)"
    "beyond (ws_name ws) (held ws) ws"
  using assms by (auto simp: pack_inv_defs at_end_def beyond_def)

lemma committed_state:
  assumes "env_ok env" "pack_inv env st ws log" "\<not> ps_poisoned st" "try_commit env objs manifest st ws = (Inr (sequence, st'), ws')"
  shows "pack_inv env st' ws' (last_logged env st' ws' # log)" "sequence = Suc (sn_sequence (ps_snapshot st))"
    "sn_sequence (ps_snapshot st') = sequence" "ps_manifest st' = Some manifest"
    "\<forall>b\<in>set objs. map_of (sn_table (ps_snapshot st')) (pk_hash env b) \<noteq> None"
    "map_of (sn_table (ps_snapshot st)) \<subseteq>\<^sub>m map_of (sn_table (ps_snapshot st'))" "\<not> ps_poisoned st'" "ps_key st' = ps_key st"
proof -
  let ?sn = "ps_snapshot st" and ?key = "ps_key st"
  note e = pack_inv_at_end [OF assms(2,3)]
  have inv: "sealed env ?key (held ws) log (sn_table ?sn) (ps_since st)" "bm_wf (sn_table ?sn)" "ps_since st < CHECKPOINT_EVERY"
    "ps_last_seal st = top_link env ?key (held ws) log" "HEADER_LEN \<le> length (held ws)" "sn_generation ?sn = ws_name ws"
    "ws_name ws = slot_name (ps_prefix st) (ps_generation st)" "\<forall>name\<in>set (ps_graveyard st). \<exists>g<ps_generation st. name = slot_name (ps_prefix st) g"
    "headed env ?key (ws_name ws) (held ws)"
    using assms(2,3) e(2) by (auto simp: pack_inv_defs)
  obtain t added ws1 link ws2 where c: "append_objects env ?key objs (sn_table ?sn) [] ws = (Inr (t, added), ws1)"
    "sequence = Suc (sn_sequence ?sn)" "append_seal env ?key (commit_seal st sequence t added manifest) ws1 = (Inr link, ws2)"
    "flush_or_poison ws2 = (Inr (), ws')"
    "st' = st\<lparr>ps_snapshot := \<lparr>sn_generation = sn_generation ?sn, sn_table = t, sn_sealed_len = ws_len ws', sn_sequence = sequence\<rparr>,
      ps_last_seal := Some link, ps_since := (if checkpoint_due st then 0 else min (ps_since st + 1) (2 ^ 64 - 1)),
      ps_provenance := None, ps_manifest := Some manifest\<rparr>"
    using assms(4) by (auto simp: try_commit_def wr_then_Inr add64_def split: option.splits if_splits prod.splits)
  obtain bytes where o1: "t = entry_table added (sn_table ?sn)" "appended_to ws bytes ws1" "delta_holds env (slot_image (held ws1)) added" "bm_wf t"
    "\<forall>b\<in>set objs. map_of t (pk_hash env b) \<noteq> None" "map_of (sn_table ?sn) \<subseteq>\<^sub>m map_of t"
    using append_objects_Inr [OF assms(1) c(1) e(1) inv(2)] by auto
  note w1 = wrote_held [OF o1(2)]
  have end1: "at_end ws1" using w1 by simp
  note s2 = append_seal_Inr [OF c(3) end1 assms(1)]
  obtain bytes2 where w2: "appended_to ws1 bytes2 ws2" using s2(1) by blast
  have "at_end ws2" using wrote_held [OF w2] by simp
  note w3 = wrote_held [OF flush_or_poison_Inr [OF c(4) this]]
  have img: "held ws' = held ws2" "held ws2 = held ws @ bytes @ bytes2" "ws_name ws' = ws_name ws" "ws_len ws' = length (held ws')" "ws_len ws' < 2 ^ 64"
    "ws_len ws' = ws_len ws2"
    using w1 wrote_held [OF w2] w3 by (auto simp: at_end_def)
  have off: "ws_len ws1 = length (held ws @ bytes)" using w1 by (simp add: at_end_def)
  let ?s = "commit_seal st sequence t added manifest"
  have rs: "read_seal env (slot_image (held ws')) ?key (length (held ws')) (ws_len ws1) = Some (ws_len ws1, ?s, ws_len ws')"
    using s2(3) img by simp
  have delta: "delta_holds env (slot_image (held ws')) added"
    using delta_holds_extend [OF wrote_prefix [OF w2] o1(3)] img(1) by simp
  have pre: "take (length (held ws)) (held ws') = held ws" using img by simp
  have sealed': "sealed env ?key (held ws') ((ws_len ws1, ?s, ws_len ws') # log) t (if checkpoint_due st then 0 else Suc (ps_since st))"
    using pack_inv_below [OF assms(2)] off c(2)
    by (intro next_sealed [OF inv(1) pre rs inv(5) _ refl o1(1) inv(2) delta inv(4)]) simp_all
  have link: "link = link_at env ?key (held ws') (ws_len ws1)" using s2(2) img by simp
  have last: "last_logged env st' ws' = (ws_len ws1, ?s, ws_len ws')" using rs link c(5) by (simp add: last_logged_def link_at_def)
  have since: "ps_since st' = (if checkpoint_due st then 0 else Suc (ps_since st))" "ps_since st' < CHECKPOINT_EVERY"
    using inv(3) c(5) by (auto simp: CHECKPOINT_EVERY_def checkpoint_due_def min_def)
  show "pack_inv env st' ws' (last_logged env st' ws' # log)"
    using sealed' since o1(4) img inv(5-8) headed_extend [OF inv(9) pre inv(5)] link c(5) unfolding last
    by (simp add: pack_inv_defs top_link_def commit_seal_def)
  show "sequence = Suc (sn_sequence ?sn)" by (rule c(2))
  show "sn_sequence (ps_snapshot st') = sequence" "ps_manifest st' = Some manifest" "\<not> ps_poisoned st'" "ps_key st' = ?key"
    using c(5) assms(3) by simp_all
  show "\<forall>b\<in>set objs. map_of (sn_table (ps_snapshot st')) (pk_hash env b) \<noteq> None"
    "map_of (sn_table ?sn) \<subseteq>\<^sub>m map_of (sn_table (ps_snapshot st'))" using o1(5,6) c(5) by simp_all
qed

lemma try_commit_beyond: "beyond name b ws \<Longrightarrow> beyond name b (snd (try_commit env objs manifest st ws))"
  unfolding try_commit_def
  by (intro wr_then_keeps [of "beyond name b"] append_objects_beyond)
    (auto split: prod.splits option.splits intro!: wr_then_keeps [of "beyond name b"] append_seal_beyond flush_or_poison_beyond)

lemma pack_inv_keep:
  assumes "pack_inv env st ws log" "beyond (ws_name ws) (take (sn_sealed_len (ps_snapshot st)) (held ws)) ws'"
    and "\<not> p \<longrightarrow> length (held ws') = sn_sealed_len (ps_snapshot st) \<and> ws_len ws' = sn_sealed_len (ps_snapshot st)"
  shows "pack_inv env (st\<lparr>ps_poisoned := p\<rparr>) ws' log"
proof -
  have "sn_sealed_len (ps_snapshot st) \<le> length (held ws)" using assms(1) by (simp add: pack_inv_defs)
  hence b: "take (sn_sealed_len (ps_snapshot st)) (held ws') = take (sn_sealed_len (ps_snapshot st)) (held ws)" "ws_name ws' = ws_name ws"
    "sn_sealed_len (ps_snapshot st) \<le> length (held ws')"
    using assms(2) by (simp_all add: beyond_def min_absorb2)
  show ?thesis using assms(1,3) b(2,3) by (simp add: pack_inv_def b(1))
qed

lemma truncate_keeps:
  assumes "sw_truncate (length b) ws = (r, ws')" "beyond name b ws"
  shows "beyond name b ws'" "r = Inr () \<Longrightarrow> held ws' = b \<and> ws_len ws' = length b"
  using assms by (auto simp: sw_truncate_def beyond_def held_def dest!: outcome_fields split: if_splits prod.splits io_outcome.splits)

lemma settle_failed:
  assumes "pack_inv env st ws log" "\<not> ps_poisoned st" "beyond (ws_name ws) (held ws) ws1"
    and "settle (length (held ws)) st (Inl f, ws1) = (r, st', ws')"
  shows "r = Inl f" "pack_inv env st' ws' log"
proof -
  note e = pack_inv_at_end [OF assms(1,2)]
  note keep = pack_inv_keep [OF assms(1), unfolded e(2)]
  have len: "sn_sealed_len (ps_snapshot st) = length (held ws)" using e by (simp add: at_end_def)
  have "r = Inl f \<and> pack_inv env st' ws' log"
  proof (cases "f = OutcomeUnknown")
    case True
    thus ?thesis using assms(4) keep [OF assms(3), of True] by (auto simp: settle_def)
  next
    case False
    obtain u ws2 where u: "sw_truncate (length (held ws)) ws1 = (u, ws2)" by fastforce
    note tr = truncate_keeps [OF u assms(3)]
    have "(r, st', ws') = (Inl f, if u = Inr () then st else st\<lparr>ps_poisoned := True\<rparr>, ws2)"
      using assms(4) False u by (cases f; cases u) (auto simp: settle_def)
    moreover have "pack_inv env (st\<lparr>ps_poisoned := False\<rparr>) ws2 log" if "u = Inr ()" using tr that len by (intro keep) auto
    moreover have "st\<lparr>ps_poisoned := False\<rparr> = st" using assms(2) by (cases st) simp
    moreover have "pack_inv env (st\<lparr>ps_poisoned := True\<rparr>) ws2 log" using tr(1) by (intro keep) auto
    ultimately show ?thesis by (auto split: if_splits)
  qed
  thus "r = Inl f" "pack_inv env st' ws' log" by simp_all
qed

lemma commit_inv:
  assumes "env_ok env" "pack_inv env st ws log" "pack_commit env objs manifest st ws = (r, st', ws')"
  shows "pack_inv env st' ws' (case r of Inl _ \<Rightarrow> log | Inr _ \<Rightarrow> last_logged env st' ws' # log)"
proof (cases "ps_poisoned st")
  case True
  thus ?thesis using assms(2,3) by (auto simp: pack_commit_def)
next
  case False
  note e = pack_inv_at_end [OF assms(2) False]
  obtain r1 ws1 where t: "try_commit env objs manifest st ws = (r1, ws1)" by fastforce
  have b: "beyond (ws_name ws) (held ws) ws1" using try_commit_beyond [OF e(4), of env objs manifest st] t by simp
  have c: "settle (length (held ws)) st (r1, ws1) = (r, st', ws')" using assms(3) False t e by (simp add: pack_commit_def at_end_def)
  show ?thesis
  proof (cases r1)
    case (Inl f)
    show ?thesis using settle_failed [OF assms(2) False b c [unfolded Inl]] by simp
  next
    case (Inr x)
    thus ?thesis using c t committed_state(1) [OF assms(1,2) False] by (cases x) (auto simp: settle_def)
  qed
qed

end
