(* ===== verification/PackLife.thy ===== *)
theory PackLife
  imports PackCommit
begin

text \<open>
  A store's life: founded, migrated into, compacted. Every operation keeps the invariant of \<open>PackCommit\<close>,
  whatever fails in the medium, and a compaction copies exactly the live objects.
\<close>

section \<open>Founding\<close>

lemma open_slot_Inr: "open_slot name ws = (Inr u, ws') \<Longrightarrow> ws_name ws' = name \<and> ws_len ws' = length (held ws')"
  by (auto simp: open_slot_def held_def slot_bytes_def put_slot_def AList.update_conv' dest!: outcome_fields
      split: if_splits prod.splits io_outcome.splits option.splits)

lemma truncate_zero: "sw_truncate 0 ws = (Inr u, ws') \<Longrightarrow> held ws' = [] \<and> ws_len ws' = 0 \<and> ws_name ws' = ws_name ws"
  by (auto simp: sw_truncate_def held_def dest!: outcome_fields split: prod.splits io_outcome.splits)

lemma init_slot_Inr:
  assumes "init_slot env (Some salt) name ws = (Inr key, ws')"
  shows "ws_name ws' = name" "at_end ws'" "held ws' = slot_header salt name" "key = pk_derive env salt" "length name \<le> HEADER_NAME_CAPACITY"
proof -
  show cap: "length name \<le> HEADER_NAME_CAPACITY"
  proof (rule ccontr)
    assume "\<not> length name \<le> HEADER_NAME_CAPACITY"
    thus False using assms by (simp add: init_slot_def wr_then_Inr)
  qed
  have "\<not> HEADER_NAME_CAPACITY < length name" using cap by simp
  then obtain ws1 ws2 ws3 off where i: "open_slot name ws = (Inr (), ws1)"
    "(if 0 < ws_len ws1 then wr_io OpOpen (sw_truncate 0) ws1 else (Inr (), ws1)) = (Inr (), ws2)" "length name \<le> HEADER_NAME_CAPACITY"
    "sw_append (slot_header salt name) ws2 = (Inr off, ws3)" "sw_flush ws3 = (Inr (), ws')" "key = pk_derive env salt"
    using assms cap by (auto simp: init_slot_def wr_then_Inr wr_io_Inr)
  have "held ws2 = [] \<and> ws_len ws2 = 0 \<and> ws_name ws2 = name"
    using i(2) open_slot_Inr [OF i(1)] truncate_zero [of ws1 "()" ws2] by (auto simp: wr_io_Inr split: if_splits)
  hence e: "at_end ws2" "ws_name ws2 = name" "held ws2 = []" by (simp_all add: at_end_def)
  note w = wrote_held [OF sw_append_Inr(1) [OF i(4) e(1)]]
  have "at_end ws3" using w by simp
  note w3 = wrote_held [OF sw_flush_Inr [OF i(5) this]]
  show "ws_name ws' = name" "at_end ws'" "held ws' = slot_header salt name" using w w3 e by simp_all
  show "key = pk_derive env salt" by (rule i(6))
qed

lemma length_slot_header: "length salt = SALT_LEN \<Longrightarrow> length name \<le> HEADER_NAME_CAPACITY \<Longrightarrow> length (slot_header salt name) = HEADER_LEN"
  by (simp add: slot_header_def SLOT_MAGIC_def SALT_LEN_def HEADER_NAME_CAPACITY_def HEADER_LEN_def)

lemma init_slot_headed:
  assumes "init_slot env (Some salt) name ws = (Inr key, ws')" "length salt = SALT_LEN"
  shows "headed env key name (held ws')" "length (held ws') = HEADER_LEN"
proof -
  note i = init_slot_Inr [OF assms(1)]
  show len: "length (held ws') = HEADER_LEN" using length_slot_header [OF assms(2) i(5)] i(3) by simp
  have "take HEADER_LEN (held ws') = slot_header salt name" using len i(3) by simp
  thus "headed env key name (held ws')" using i(4,5) assms(2) by (auto simp: headed_def)
qed

lemma found_inv:
  assumes "found_pack env (Some salt) pre ws = (Inr st, ws')" "length salt = SALT_LEN"
  shows "pack_inv env st ws' []"
proof -
  obtain key where i: "init_slot env (Some salt) (slot_name pre 0) ws = (Inr key, ws')"
    "st = \<lparr>ps_prefix = pre, ps_key = key,
        ps_snapshot = \<lparr>sn_generation = slot_name pre 0, sn_table = [], sn_sealed_len = ws_len ws', sn_sequence = 0\<rparr>,
        ps_graveyard = [], ps_generation = 0, ps_last_seal = None, ps_since = 0, ps_provenance = None, ps_manifest = None,
        ps_poisoned = False\<rparr>"
    using assms(1) by (auto simp: found_pack_def wr_then_Inr)
  note w = init_slot_Inr [OF i(1)]
  show ?thesis using init_slot_headed [OF i(1) assms(2)] w(1,2) i(2)
    by (simp add: pack_inv_defs at_end_def sealed_nothing bm_wf_def CHECKPOINT_EVERY_def top_link_def)
qed

section \<open>Migrating\<close>

lemma migrate_is_append:
  "migrate_objects env key rs t ws = (Inr t', ws') \<Longrightarrow>
    \<exists>objs added'. rs = map Inr objs \<and> append_objects env key objs t added ws = (Inr (t', added'), ws')"
proof (induction rs arbitrary: t added ws)
  case (Cons r rs)
  obtain b where r: "r = Inr b" using Cons.prems by (cases r) auto
  show ?case
  proof (cases "map_of t (pk_hash env b) = None")
    case True
    obtain off ws1 where a: "append_record env key OBJECT_MAGIC b ws = (Inr off, ws1)"
      "migrate_objects env key rs (bm_insert (pk_hash env b) (off, length b) t) ws1 = (Inr t', ws')"
      using Cons.prems True r by (auto simp: wr_then_Inr)
    obtain objs added' where "rs = map Inr objs"
      "append_objects env key objs (bm_insert (pk_hash env b) (off, length b) t)
        (added @ [\<lparr>te_hash = pk_hash env b, te_offset = off, te_len = length b\<rparr>]) ws1 = (Inr (t', added'), ws')"
      using Cons.IH [OF a(2)] by blast
    hence "r # rs = map Inr (b # objs)" "append_objects env key (b # objs) t added ws = (Inr (t', added'), ws')"
      using True r a(1) by (simp_all add: wr_then_def)
    thus ?thesis by (intro exI conjI)
  next
    case False
    then obtain objs added' where "rs = map Inr objs" "append_objects env key objs t added ws = (Inr (t', added'), ws')"
      using Cons.IH [of t ws added] Cons.prems r by auto
    hence "r # rs = map Inr (b # objs)" "append_objects env key (b # objs) t added ws = (Inr (t', added'), ws')"
      using False r by simp_all
    thus ?thesis by (intro exI conjI)
  qed
qed simp

text \<open>A birth seal over a slot that holds a table.\<close>

lemma birth_sealed:
  assumes "read_seal env (slot_image img) key (length img) offset = Some (offset, s, e)" "HEADER_LEN \<le> offset"
    and "se_prev s = None" "se_added s = []" "se_checkpoint s = Some (table_entries t)" "bm_wf t" "table_holds env img t"
  shows "sealed env key img [(offset, s, e)] t 0"
  using assms table_entries_round [OF assms(6)] table_holds_entries [OF assms(7)]
  by (intro sealed_seal [OF sealed_nothing assms(1)]) (simp_all add: top_link_def entry_table_def delta_holds_def birth_holds_def)

lemma table_holds_Nil [simp]: "table_holds env img []" by (simp add: table_holds_def)

lemma migrated_inv:
  assumes "env_ok env" "pack_inv env st ws []" "\<not> ps_poisoned st" "try_migrate env rs manifest pv st ws = (Inr (sequence, st'), ws')"
  shows "pack_inv env st' ws' [last_logged env st' ws']"
proof -
  let ?key = "ps_key st"
  note e = pack_inv_at_end [OF assms(2,3)]
  have inv: "sn_table (ps_snapshot st) = []" "length (held ws) = HEADER_LEN" "sn_generation (ps_snapshot st) = ws_name ws"
    "ws_name ws = slot_name (ps_prefix st) (ps_generation st)" "\<forall>name\<in>set (ps_graveyard st). \<exists>g<ps_generation st. name = slot_name (ps_prefix st) g"
    "headed env ?key (ws_name ws) (held ws)"
    using assms(2,3) e(2) by (auto simp: pack_inv_defs elim: sealed.cases)
  obtain t ws1 s link ws2 where c: "migrate_objects env ?key rs [] ws = (Inr t, ws1)"
    "append_seal env ?key s ws1 = (Inr link, ws2)" "flush_or_poison ws2 = (Inr (), ws')"
    "s = \<lparr>se_sequence = sequence, se_generation = ps_generation st, se_prev = None, se_added = [],
      se_checkpoint = Some (table_entries t), se_provenance = Some pv, se_manifest = manifest\<rparr>"
    "st' = st\<lparr>ps_snapshot := \<lparr>sn_generation = sn_generation (ps_snapshot st), sn_table = t, sn_sealed_len = ws_len ws', sn_sequence = sequence\<rparr>,
      ps_last_seal := Some link, ps_since := 0, ps_provenance := Some pv, ps_manifest := Some manifest\<rparr>"
    using assms(4) by (auto simp: try_migrate_def wr_then_Inr split: option.splits)
  obtain objs added where a: "append_objects env ?key objs [] [] ws = (Inr (t, added), ws1)"
    using migrate_is_append [OF c(1)] by blast
  obtain bytes where o1: "t = entry_table added []" "appended_to ws bytes ws1" "delta_holds env (slot_image (held ws1)) added" "bm_wf t"
    using append_objects_Inr [OF assms(1) a e(1)] by (auto simp: bm_wf_def)
  note w1 = wrote_held [OF o1(2)]
  have end1: "at_end ws1" using w1 by simp
  note s2 = append_seal_Inr [OF c(2) end1 assms(1)]
  obtain bytes2 where w2: "appended_to ws1 bytes2 ws2" using s2(1) by blast
  have "at_end ws2" using wrote_held [OF w2] by simp
  note w3 = wrote_held [OF flush_or_poison_Inr [OF c(3) this]]
  have img: "held ws' = held ws2" "ws_name ws' = ws_name ws" "ws_len ws' = length (held ws')" "ws_len ws' < 2 ^ 64" "ws_len ws' = ws_len ws2"
    "HEADER_LEN \<le> ws_len ws1" "ws_len ws1 \<le> ws_len ws'"
    using w1 wrote_held [OF w2] w3 inv(2) by (auto simp: at_end_def)
  have rs: "read_seal env (slot_image (held ws')) ?key (length (held ws')) (ws_len ws1) = Some (ws_len ws1, s, ws_len ws')"
    using s2(3) img by simp
  have holds: "table_holds env (held ws') t"
    using table_holds_entry_table [of env "held ws1" "[]" added] o1 table_holds_extend [OF wrote_prefix [OF w2]] img(1) by simp
  have sealed': "sealed env ?key (held ws') [(ws_len ws1, s, ws_len ws')] t 0"
    using birth_sealed [OF rs img(6) _ _ _ o1(4) holds] c(4) by simp
  have link: "link = link_at env ?key (held ws') (ws_len ws1)" using s2(2) img by simp
  have last: "last_logged env st' ws' = (ws_len ws1, s, ws_len ws')" using rs link c(5) by (simp add: last_logged_def link_at_def)
  have "take (length (held ws)) (held ws') = held ws" using w1 wrote_held [OF w2] img(1) by simp
  hence "headed env ?key (ws_name ws) (held ws')" using headed_extend [OF inv(6)] inv(2) by simp
  thus ?thesis using sealed' o1(4) img inv(3-5) link c(4,5) unfolding last
    by (simp add: pack_inv_defs top_link_def CHECKPOINT_EVERY_def)
qed

lemma migrate_objects_beyond: "beyond name b ws \<Longrightarrow> beyond name b (snd (migrate_objects env key rs t ws))"
  by (induction rs arbitrary: ws t) (auto split: sum.splits intro!: wr_then_keeps [of "beyond name b"] append_record_beyond)

lemma try_migrate_beyond: "beyond name b ws \<Longrightarrow> beyond name b (snd (try_migrate env rs manifest pv st ws))"
  unfolding try_migrate_def
  by (intro wr_then_keeps [of "beyond name b"] migrate_objects_beyond)
    (auto split: option.splits intro!: wr_then_keeps [of "beyond name b"] append_seal_beyond flush_or_poison_beyond)

lemma append_record_known: "append_record env key magic payload ws \<noteq> (Inl OutcomeUnknown, ws')"
  by (auto simp: append_record_def corrupt_def wr_then_def wr_io_def wr_fail_def wr_return_def split: prod.splits sum.splits option.splits)

lemma migrate_objects_known: "Inl OutcomeUnknown \<notin> set rs \<Longrightarrow> migrate_objects env key rs t ws \<noteq> (Inl OutcomeUnknown, ws')"
proof (induction rs arbitrary: t ws)
  case (Cons r rs)
  show ?case
  proof (cases r)
    case (Inl e)
    thus ?thesis using Cons.prems by (auto simp: wr_fail_def)
  next
    case (Inr b)
    obtain x ws1 where x: "append_record env key OBJECT_MAGIC b ws = (x, ws1)" by fastforce
    have known: "Inl OutcomeUnknown \<notin> set rs" "x \<noteq> Inl OutcomeUnknown" using Cons.prems append_record_known x by auto
    show ?thesis using Inr Cons.IH [OF known(1)] known(2) x by (cases x) (simp_all add: wr_then_def)
  qed
qed (simp add: wr_return_def)

lemma migrate_settles:
  assumes "Inl OutcomeUnknown \<notin> set rs" "\<not> ps_poisoned st" "ps_last_seal st = None"
  shows "migrate_commit env rs manifest pv st ws = settle HEADER_LEN st (try_migrate env rs manifest pv st ws)"
  using assms(2,3) migrate_objects_known [OF assms(1), of env "ps_key st" "[]" ws]
  by (auto simp: migrate_commit_def split: prod.splits sum.splits pack_failure.splits)

lemma migrate_inv:
  assumes "env_ok env" "pack_inv env st ws log" "migrate_commit env rs manifest pv st ws = (r, st', ws')" "Inl OutcomeUnknown \<notin> set rs"
  shows "pack_inv env st' ws' (case r of Inl _ \<Rightarrow> log | Inr _ \<Rightarrow> [last_logged env st' ws'])"
proof (cases "ps_poisoned st \<or> ps_last_seal st \<noteq> None")
  case True
  thus ?thesis using assms(2,3) by (auto simp: migrate_commit_def split: if_splits)
next
  case False
  hence fresh: "\<not> ps_poisoned st" "log = []"
    using assms(2) by (auto simp: pack_inv_defs top_link_def split: list.splits)
  note e = pack_inv_at_end [OF assms(2) fresh(1)]
  have len: "length (held ws) = HEADER_LEN" using assms(2) fresh by (simp add: pack_inv_defs)
  obtain r1 ws1 where t: "try_migrate env rs manifest pv st ws = (r1, ws1)" by fastforce
  have b: "beyond (ws_name ws) (held ws) ws1" using try_migrate_beyond [OF e(4), of env rs manifest pv st] t by simp
  have c: "settle (length (held ws)) st (r1, ws1) = (r, st', ws')" using assms(3) False t len migrate_settles [OF assms(4)] by simp
  show ?thesis
  proof (cases r1)
    case (Inl f)
    show ?thesis using settle_failed [OF assms(2) fresh(1) b c [unfolded Inl]] by simp
  next
    case (Inr x)
    thus ?thesis using c t migrated_inv [OF assms(1) _ fresh(1)] assms(2) fresh(2) by (cases x) (auto simp: settle_def)
  qed
qed

section \<open>Compacting\<close>

definition undecimal :: "string \<Rightarrow> nat" where
  "undecimal s = foldl (\<lambda>n c. 10 * n + (of_char c - 48)) 0 s"

lemma undecimal_decimal: "undecimal (decimal n) = n"
proof (induction n rule: decimal.induct)
  case (1 n)
  have digit: "of_char (char_of (48 + d) :: char) - 48 = d" if "d < 10" for d :: nat using that by simp
  show ?case using 1 digit [of n] digit [of "n mod 10"] by (subst decimal.simps) (simp add: undecimal_def)
qed

lemma slot_name_inj: "slot_name pre g = slot_name pre g' \<longleftrightarrow> g = g'"
  using undecimal_decimal [of g] undecimal_decimal [of g'] unfolding slot_name_def same_append_eq by metis

text \<open>The writer holds another slot than the one that has the bytes \<open>b\<close>.\<close>

definition apart :: "string \<Rightarrow> bytes \<Rightarrow> (string \<Rightarrow> nat \<Rightarrow> nat \<Rightarrow> io_kind option) \<Rightarrow> string \<Rightarrow> writer_state \<Rightarrow> bool" where
  "apart old b u name ws \<longleftrightarrow> ws_name ws = name \<and> name \<noteq> old \<and> slot_bytes ws old = b \<and> ws_unreadable ws = u"

lemma sw_append_apart: "apart old b u name ws \<Longrightarrow> apart old b u name (snd (sw_append bytes ws))"
  by (auto simp: sw_append_def apart_def Let_def dest!: outcome_fields split: prod.splits io_outcome.splits option.splits)

lemma sw_flush_apart: "apart old b u name ws \<Longrightarrow> apart old b u name (snd (sw_flush ws))"
  by (auto simp: sw_flush_def apart_def dest!: outcome_fields split: prod.splits io_outcome.splits)

lemma sw_truncate_apart: "apart old b u name ws \<Longrightarrow> apart old b u name (snd (sw_truncate n ws))"
  by (auto simp: sw_truncate_def apart_def dest!: outcome_fields split: prod.splits io_outcome.splits)

lemma append_record_apart: "apart old b u name ws \<Longrightarrow> apart old b u name (snd (append_record env key magic payload ws))"
  by (auto simp: append_record_def split: option.splits intro!: wr_then_keeps [of "apart old b u name"] sw_append_apart)

lemma append_seal_apart: "apart old b u name ws \<Longrightarrow> apart old b u name (snd (append_seal env key seal ws))"
  by (auto simp: append_seal_def split: option.splits intro!: wr_then_keeps [of "apart old b u name"] append_record_apart)

lemma copy_objects_apart: "apart old b u name ws \<Longrightarrow> apart old b u name (snd (copy_objects env key sn hashes t ws))"
  by (induction hashes arbitrary: ws t) (auto split: sum.splits intro!: wr_then_keeps [of "apart old b u name"] append_record_apart)

lemma view_read_apart:
  assumes "slot_bytes ws (sn_generation sn) = slot_bytes ws' (sn_generation sn)" "ws_unreadable ws = ws_unreadable ws'"
  shows "view_read env ws sn hash = view_read env ws' sn hash"
  using assms by (auto simp: view_read_def read_bounded_def read_at_def split: option.splits)

definition copied :: "pack_env \<Rightarrow> writer_state \<Rightarrow> snapshot \<Rightarrow> bytes \<Rightarrow> table \<Rightarrow> bytes \<Rightarrow> bool" where
  \<comment> \<open>an object of a snapshot is in a new table and reads there as in the snapshot\<close>
  "copied env ws sn img t hash \<longleftrightarrow> (\<exists>x off. view_read env ws sn hash = Inr x \<and> map_of t hash = Some (off, length x) \<and> length x < 2 ^ 64 - 1
    \<and> slot_image img off (length x) = Inr x)"

lemma view_read_hash: "view_read env ws sn hash = Inr x \<Longrightarrow> pk_hash env x = hash"
  by (auto simp: view_read_def read_bounded_def split: option.splits sum.splits if_splits)

lemma copy_objects_Inr:
  assumes "env_ok env" "sn_generation sn = old" "slot_bytes ws0 old = b" "ws_unreadable ws0 = u"
  shows "copy_objects env key sn hashes t ws = (Inr t', ws') \<Longrightarrow> at_end ws \<Longrightarrow> apart old b u name ws \<Longrightarrow> bm_wf t \<Longrightarrow>
    (\<forall>hash\<in>dom (map_of t). copied env ws0 sn (held ws) t hash) \<Longrightarrow>
    bm_wf t' \<and> (\<exists>bytes. appended_to ws bytes ws') \<and> dom (map_of t') = dom (map_of t) \<union> set hashes
      \<and> (\<forall>hash\<in>dom (map_of t'). copied env ws0 sn (held ws') t' hash)"
proof (induction hashes arbitrary: t ws)
  case Nil
  thus ?case by (auto simp: appended_to_def)
next
  case (Cons hash hashes)
  have same: "view_read env ws sn hash = view_read env ws0 sn hash"
    using Cons.prems(3) assms(2-4) by (intro view_read_apart) (simp_all add: apart_def)
  obtain x off ws1 where r: "view_read env ws0 sn hash = Inr x" "append_record env key OBJECT_MAGIC x ws = (Inr off, ws1)"
    "copy_objects env key sn hashes (bm_insert hash (off, length x) t) ws1 = (Inr t', ws')"
    using Cons.prems(1) same by (auto simp: wr_then_Inr split: sum.splits)
  let ?t = "bm_insert hash (off, length x) t"
  note obj = object_written [OF assms(1) r(2) Cons.prems(2)]
  note w = append_record_Inr(1) [OF r(2) Cons.prems(2)]
  have "copied env ws0 sn (held ws1) ?t k" if k: "k \<in> dom (map_of ?t)" for k
  proof (cases "k = hash")
    case True
    thus ?thesis using r(1) obj by (auto simp: copied_def bm_get_insert)
  next
    case False
    hence "copied env ws0 sn (held ws) t k" using Cons.prems(5) k by (auto simp: bm_get_insert dom_def split: if_splits)
    thus ?thesis using False image_extend [OF wrote_prefix [OF w]] by (fastforce simp: copied_def bm_get_insert)
  qed
  moreover have "at_end ws1" using wrote_held [OF w] by simp
  moreover have "apart old b u name ws1" using append_record_apart [OF Cons.prems(3), of env key OBJECT_MAGIC x] r(2) by simp
  ultimately have ih: "bm_wf t' \<and> (\<exists>bytes. appended_to ws1 bytes ws') \<and> dom (map_of t') = dom (map_of ?t) \<union> set hashes
      \<and> (\<forall>hash\<in>dom (map_of t'). copied env ws0 sn (held ws') t' hash)"
    using Cons.IH [OF r(3)] bm_wf_insert [OF Cons.prems(4)] by blast
  moreover have "dom (map_of ?t) = insert hash (dom (map_of t))" by (auto simp: bm_get_insert dom_def)
  ultimately show ?case using wrote_trans [OF w] by auto
qed

lemma copied_holds:
  assumes "bm_wf t" "\<forall>hash\<in>dom (map_of t). copied env ws0 sn img t hash"
  shows "table_holds env img t"
proof -
  have "\<exists>x. slot_image img off len = Inr x \<and> pk_hash env x = hash" if "(hash, off, len) \<in> set t" for hash off len
  proof -
    have m: "map_of t hash = Some (off, len)" using that assms(1) by (auto simp: bm_wf_def strict_sorted_iff intro: map_of_is_SomeI)
    hence "copied env ws0 sn img t hash" using assms(2) by blast
    thus ?thesis using m by (auto simp: copied_def dest: view_read_hash)
  qed
  thus ?thesis by (auto simp: table_holds_def)
qed

lemma open_slot_apart:
  "slot_bytes ws old = b \<Longrightarrow> ws_unreadable ws = u \<Longrightarrow> name \<noteq> old \<Longrightarrow> open_slot name ws = (Inr x, ws') \<Longrightarrow> apart old b u name ws'"
  by (auto simp: open_slot_def apart_def dest!: outcome_fields split: if_splits prod.splits io_outcome.splits)

lemma open_slot_failed: "name \<noteq> old \<Longrightarrow> open_slot name ws = (Inl k, ws') \<Longrightarrow> slot_bytes ws' old = slot_bytes ws old \<and> ws_unreadable ws' = ws_unreadable ws"
  by (auto simp: open_slot_def dest!: outcome_fields split: if_splits prod.splits io_outcome.splits)

definition untouched :: "string \<Rightarrow> bytes \<Rightarrow> (string \<Rightarrow> nat \<Rightarrow> nat \<Rightarrow> io_kind option) \<Rightarrow> writer_state \<Rightarrow> bool" where
  "untouched old b u ws \<longleftrightarrow> slot_bytes ws old = b \<and> ws_unreadable ws = u"

lemma apart_untouched: "apart old b u name ws \<Longrightarrow> untouched old b u ws" by (simp add: apart_def untouched_def)

lemma init_slot_apart:
  assumes "untouched old b u ws" "name \<noteq> old"
  shows "untouched old b u (snd (init_slot env salt name ws))" "fst (init_slot env salt name ws) = Inr key \<Longrightarrow> apart old b u name (snd (init_slot env salt name ws))"
proof -
  obtain r ws1 where o1: "open_slot name ws = (r, ws1)" by fastforce
  have "untouched old b u (snd (init_slot env salt name ws)) \<and>
    (fst (init_slot env salt name ws) = Inr key \<longrightarrow> apart old b u name (snd (init_slot env salt name ws)))"
  proof (cases r)
    case (Inl k)
    thus ?thesis using o1 open_slot_failed [OF assms(2), of ws k ws1] assms(1)
      by (simp add: init_slot_def wr_then_def wr_io_def untouched_def)
  next
    case (Inr x)
    have a: "apart old b u name ws1" using open_slot_apart [of ws old b u name x ws1] assms o1 Inr by (simp add: untouched_def)
    let ?rest = "\<lambda>_. wr_then (\<lambda>ws. if 0 < ws_len ws then wr_io OpOpen (sw_truncate 0) ws else (Inr (), ws)) (\<lambda>_.
      if HEADER_NAME_CAPACITY < length name then wr_fail corrupt
      else case salt of None \<Rightarrow> wr_fail (OperationFailed OpWrite OtherKind)
        | Some salt \<Rightarrow> wr_then (wr_io OpWrite (sw_append (slot_header salt name))) (\<lambda>_.
            wr_then (wr_io OpSync sw_flush) (\<lambda>_. wr_return (pk_derive env salt))))"
    have "apart old b u name (snd (?rest () ws1))"
      using a by (auto split: option.splits intro!: wr_then_keeps [of "apart old b u name"] sw_truncate_apart sw_append_apart sw_flush_apart)
    moreover have "init_slot env salt name ws = ?rest () ws1" using o1 Inr by (simp add: init_slot_def wr_then_def wr_io_def)
    ultimately show ?thesis by (auto intro: apart_untouched)
  qed
  thus "untouched old b u (snd (init_slot env salt name ws))" "fst (init_slot env salt name ws) = Inr key \<Longrightarrow> apart old b u name (snd (init_slot env salt name ws))"
    by simp_all
qed

lemma build_successor_untouched:
  assumes "untouched old b u ws" "name \<noteq> old"
  shows "untouched old b u (snd (build_successor env salt name generation live st ws))"
proof (cases "fst (init_slot env salt name ws)")
  case (Inl e)
  thus ?thesis using init_slot_apart(1) [OF assms, of env salt] by (cases "init_slot env salt name ws") (auto simp: build_successor_def wr_then_def)
next
  case (Inr key)
  obtain ws1 where i: "init_slot env salt name ws = (Inr key, ws1)" using Inr by (cases "init_slot env salt name ws") auto
  have a: "apart old b u name ws1" using init_slot_apart(2) [OF assms Inr] i by simp
  let ?rest = "wr_then (copy_objects env key (ps_snapshot st) (filter live (map fst (sn_table (ps_snapshot st)))) []) (\<lambda>t.
    wr_then (append_seal env key
      \<lparr>se_sequence = sn_sequence (ps_snapshot st), se_generation = generation, se_prev = None, se_added = [],
       se_checkpoint = Some (table_entries t), se_provenance = None,
       se_manifest = (case ps_manifest st of None \<Rightarrow> [] | Some b \<Rightarrow> b)\<rparr>) (\<lambda>link.
    wr_then (wr_io OpSync sw_flush) (\<lambda>_ ws. wr_return (key, ws_len ws, t, link) ws)))"
  have "apart old b u name (snd (?rest ws1))"
    using a by (auto intro!: wr_then_keeps [of "apart old b u name"] copy_objects_apart append_seal_apart sw_flush_apart)
  moreover have "build_successor env salt name generation live st ws = ?rest ws1" using i by (simp add: build_successor_def wr_then_def)
  ultimately show ?thesis by (auto intro: apart_untouched)
qed

lemma remove_slot_other:
  "try_remove name ws = ws' \<Longrightarrow> ws_name ws' = ws_name ws \<and> ws_len ws' = ws_len ws \<and> ws_unreadable ws' = ws_unreadable ws \<and>
    (old \<noteq> name \<longrightarrow> slot_bytes ws' old = slot_bytes ws old)"
  by (auto simp: try_remove_def remove_slot_def slot_bytes_def AList.delete_conv' outcome_def split: if_splits prod.splits io_outcome.splits list.splits)

lemma sweep_keeps:
  "sweep_names pinned names ws = (kept, ws') \<Longrightarrow> \<forall>name\<in>set names. name \<noteq> ws_name ws \<Longrightarrow>
    held ws' = held ws \<and> ws_name ws' = ws_name ws \<and> ws_len ws' = ws_len ws \<and> ws_unreadable ws' = ws_unreadable ws \<and> set kept \<subseteq> set names"
proof (induction names arbitrary: ws kept)
  case (Cons name names)
  show ?case
  proof (cases "pinned name")
    case True
    thus ?thesis using Cons.prems Cons.IH [of ws] by (fastforce split: prod.splits)
  next
    case False
    note o = remove_slot_other [of name ws "try_remove name ws" "ws_name ws", OF refl]
    have "held (try_remove name ws) = held ws" using o Cons.prems(2) by (auto simp: held_def)
    thus ?thesis using False Cons.prems o Cons.IH [of "try_remove name ws" kept] by auto
  qed
qed simp

definition succeeded :: "pack_store \<Rightarrow> bytes \<Rightarrow> nat \<Rightarrow> table \<Rightarrow> seal_link \<Rightarrow> nat \<Rightarrow> pack_store" where
  \<comment> \<open>the store that continues in a successor, before the graveyard is swept\<close>
  "succeeded st key generation t link len = st\<lparr>ps_key := key, ps_generation := generation, ps_last_seal := Some link, ps_since := 0,
     ps_snapshot := \<lparr>sn_generation = slot_name (ps_prefix st) generation, sn_table = t, sn_sealed_len = len, sn_sequence = sn_sequence (ps_snapshot st)\<rparr>,
     ps_graveyard := ps_graveyard st @ [sn_generation (ps_snapshot st)]\<rparr>"

lemma successor_built:
  assumes "env_ok env" "pack_inv env st ws log" "length salt = SALT_LEN" "generation = Suc (ps_generation st)" "ps_last_seal st \<noteq> None"
    and "build_successor env (Some salt) (slot_name (ps_prefix st) generation) generation live st ws0 = (Inr (key, len, t, link), ws1)"
    and "untouched (ws_name ws) (held ws) (ws_unreadable ws) ws0" "st1 = succeeded st key generation t link len"
  shows "sn_sealed_len (ps_snapshot st1) = length (held ws1)" "at_end ws1"
    "pack_core env st1 (ws_name ws1) (held ws1) [last_logged env st1 ws1]"
    "dom (map_of t) = {hash \<in> dom (map_of (sn_table (ps_snapshot st))). live hash}" "\<forall>hash\<in>dom (map_of t). copied env ws (ps_snapshot st) (held ws1) t hash"
proof -
  let ?sn = "ps_snapshot st" and ?name = "slot_name (ps_prefix st) generation" and ?hashes = "filter live (map fst (sn_table (ps_snapshot st)))"
  have inv: "sn_generation ?sn = ws_name ws" "ws_name ws = slot_name (ps_prefix st) (ps_generation st)"
    "\<forall>name\<in>set (ps_graveyard st). \<exists>g<ps_generation st. name = slot_name (ps_prefix st) g" "log \<noteq> []"
    using assms(2,5) by (auto simp: pack_inv_defs top_link_def)
  have other: "?name \<noteq> ws_name ws" using inv(2) assms(4) by (simp add: slot_name_inj)
  obtain o0 s0 e0 rest where log: "log = (o0, s0, e0) # rest" using inv(4) by (cases log) auto
  have manifest: "ps_manifest st = Some (se_manifest s0)" using assms(2) log by (simp add: pack_inv_defs)
  obtain wsa wsb wsc s where c: "init_slot env (Some salt) ?name ws0 = (Inr key, wsa)" "copy_objects env key ?sn ?hashes [] wsa = (Inr t, wsb)"
    "append_seal env key s wsb = (Inr link, wsc)" "sw_flush wsc = (Inr (), ws1)" "len = ws_len ws1"
    "s = \<lparr>se_sequence = sn_sequence ?sn, se_generation = generation, se_prev = None, se_added = [],
       se_checkpoint = Some (table_entries t), se_provenance = None, se_manifest = se_manifest s0\<rparr>"
    using assms(6) manifest by (auto simp: build_successor_def wr_then_Inr wr_io_Inr)
  note i = init_slot_Inr [OF c(1)]
  note h = init_slot_headed [OF c(1) assms(3)]
  have ap: "apart (ws_name ws) (held ws) (ws_unreadable ws) ?name wsa"
    using init_slot_apart(2) [OF assms(7) other, of env "Some salt" key] c(1) by simp
  have cp: "bm_wf t \<and> (\<exists>bytes. appended_to wsa bytes wsb) \<and> dom (map_of t) = dom (map_of ([] :: table)) \<union> set ?hashes
      \<and> (\<forall>hash\<in>dom (map_of t). copied env ws ?sn (held wsb) t hash)"
    by (rule copy_objects_Inr [OF assms(1) inv(1) _ _ c(2) i(2) ap]) (simp_all add: held_def bm_wf_def)
  then obtain bytes where w: "appended_to wsa bytes wsb" by blast
  note wb = wrote_held [OF w]
  have "at_end wsb" using wb by simp
  note s2 = append_seal_Inr [OF c(3) this assms(1)]
  obtain bytes2 where w2: "appended_to wsb bytes2 wsc" using s2(1) by blast
  have "at_end wsc" using wrote_held [OF w2] by simp
  note w3 = wrote_held [OF sw_flush_Inr [OF c(4) this]]
  have img: "held ws1 = held wsc" "ws_name ws1 = ?name" "ws_len ws1 = length (held ws1)" "ws_len ws1 < 2 ^ 64" "ws_len ws1 = ws_len wsc"
    "HEADER_LEN \<le> ws_len wsb" "ws_len wsb \<le> ws_len ws1"
    using wb wrote_held [OF w2] w3 i h(2) by (auto simp: at_end_def)
  have rs: "read_seal env (slot_image (held ws1)) key (length (held ws1)) (ws_len wsb) = Some (ws_len wsb, s, ws_len ws1)"
    using s2(3) img by simp
  have pre: "take (length (held wsb)) (held ws1) = held wsb" using wrote_prefix [OF w2] img(1) by simp
  show copied1: "\<forall>hash\<in>dom (map_of t). copied env ws ?sn (held ws1) t hash"
    using cp image_extend [OF pre] unfolding copied_def by blast
  have holds: "table_holds env (held ws1) t" using copied_holds [OF _ copied1] cp by blast
  have sealed': "sealed env key (held ws1) [(ws_len wsb, s, ws_len ws1)] t 0"
    using birth_sealed [OF rs img(6) _ _ _ _ holds] cp c(6) by simp
  have link: "link = link_at env key (held ws1) (ws_len wsb)" using s2(2) img by simp
  have last: "last_logged env st1 ws1 = (ws_len wsb, s, ws_len ws1)"
    using rs link assms(8) by (simp add: last_logged_def link_at_def succeeded_def)
  show "sn_sealed_len (ps_snapshot st1) = length (held ws1)" "at_end ws1" using img c(5) assms(8) by (simp_all add: succeeded_def at_end_def)
  have "take (length (held wsa)) (held ws1) = held wsa" using wb wrote_held [OF w2] img(1) by simp
  hence headed1: "headed env key ?name (held ws1)" using headed_extend [OF h(1)] h(2) by simp
  have grave: "\<forall>name\<in>set (ps_graveyard st1). \<exists>g<generation. name = slot_name (ps_prefix st) g"
  proof
    fix name assume "name \<in> set (ps_graveyard st1)"
    hence "name \<in> set (ps_graveyard st) \<or> name = slot_name (ps_prefix st) (ps_generation st)"
      using assms(8) inv(1,2) by (auto simp: succeeded_def)
    thus "\<exists>g<generation. name = slot_name (ps_prefix st) g" using inv(3) assms(4) less_Suc_eq by auto
  qed
  show "pack_core env st1 (ws_name ws1) (held ws1) [last_logged env st1 ws1]"
    using sealed' cp img link c(5,6) manifest grave headed1 assms(8) unfolding last
    by (auto simp: pack_core_def Let_def top_link_def CHECKPOINT_EVERY_def succeeded_def)
  show "dom (map_of t) = {hash \<in> dom (map_of (sn_table ?sn)). live hash}" using cp by (auto simp: dom_map_of_conv_image_fst)
qed

lemma pack_core_graveyard: "pack_core env st name b log \<Longrightarrow> set kept \<subseteq> set (ps_graveyard st) \<Longrightarrow> pack_core env (st\<lparr>ps_graveyard := kept\<rparr>) name b log"
  by (cases log) (auto simp: pack_core_def Let_def)

lemma compacted:
  assumes "env_ok env" "pack_inv env st ws log" "length salt = SALT_LEN" "ps_last_seal st \<noteq> None"
    and "pack_compact env (Some salt) live pinned st ws = (Inr (), st', ws')"
  shows "pack_inv env st' ws' [last_logged env st' ws']" "\<not> ps_poisoned st'"
    "dom (map_of (sn_table (ps_snapshot st'))) = {hash \<in> dom (map_of (sn_table (ps_snapshot st))). live hash}"
    "\<forall>hash\<in>dom (map_of (sn_table (ps_snapshot st'))). copied env ws (ps_snapshot st) (held ws') (sn_table (ps_snapshot st')) hash"
    "sn_sequence (ps_snapshot st') = sn_sequence (ps_snapshot st)" "ps_manifest st' = ps_manifest st" "sn_generation (ps_snapshot st') = ws_name ws'"
proof -
  have pois: "\<not> ps_poisoned st" using assms(5) by (auto simp: pack_compact_def)
  have gen: "add64 (ps_generation st) 1 = Some (Suc (ps_generation st))"
    using assms(4,5) pois by (auto simp: pack_compact_def add64_def split: if_splits)
  let ?name = "slot_name (ps_prefix st) (Suc (ps_generation st))"
  obtain r1 ws1 where b: "build_successor env (Some salt) ?name (Suc (ps_generation st)) live st (try_remove ?name ws) = (r1, ws1)" by fastforce
  obtain key len t link where r1: "r1 = Inr (key, len, t, link)"
    using assms(4,5) pois gen b by (cases r1) (auto simp: pack_compact_def Let_def)
  let ?st1 = "succeeded st key (Suc (ps_generation st)) t link len"
  obtain kept ws2 where sw: "sweep_names pinned (ps_graveyard ?st1) ws1 = (kept, ws2)" by fastforce
  have st: "st' = ?st1\<lparr>ps_graveyard := kept\<rparr>" "ws' = ws2"
    using assms(4,5) pois gen b r1 sw by (auto simp: pack_compact_def Let_def sweep_graveyard_def succeeded_def)
  have "?name \<noteq> ws_name ws" using assms(2) by (simp add: pack_inv_defs slot_name_inj)
  hence "untouched (ws_name ws) (held ws) (ws_unreadable ws) (try_remove ?name ws)"
    using remove_slot_other [of ?name ws "try_remove ?name ws" "ws_name ws"] by (simp add: untouched_def held_def)
  note built = successor_built [OF assms(1-3) refl assms(4) b [unfolded r1] this refl]
  have names: "\<forall>name\<in>set (ps_graveyard ?st1). name \<noteq> ws_name ws1"
    using built(3) by (auto simp: pack_core_def Let_def slot_name_inj)
  note k = sweep_keeps [OF sw names]
  have last: "last_logged env st' ws' = last_logged env ?st1 ws1" using st k by (simp add: last_logged_def)
  have "pack_core env st' (ws_name ws') (held ws') [last_logged env st' ws']"
    using pack_core_graveyard [OF built(3), of kept] k st unfolding last by simp
  thus "pack_inv env st' ws' [last_logged env st' ws']"
    using built(1,2) k st by (simp add: pack_inv_def at_end_def)
  show "\<not> ps_poisoned st'" "sn_sequence (ps_snapshot st') = sn_sequence (ps_snapshot st)" "ps_manifest st' = ps_manifest st"
    using st pois by (simp_all add: succeeded_def)
  show "dom (map_of (sn_table (ps_snapshot st'))) = {hash \<in> dom (map_of (sn_table (ps_snapshot st))). live hash}"
    using built(4) st by (simp add: succeeded_def)
  show "\<forall>hash\<in>dom (map_of (sn_table (ps_snapshot st'))). copied env ws (ps_snapshot st) (held ws') (sn_table (ps_snapshot st')) hash"
    using built(5) st k by (simp add: succeeded_def)
  show "sn_generation (ps_snapshot st') = ws_name ws'" using built(3) st k by (simp add: pack_core_def Let_def)
qed

lemma compact_kept:
  assumes "pack_inv env st ws log" "ps_last_seal st = None \<or> r = Inl e" "pack_compact env salt live pinned st ws = (r, st', ws')"
  shows "st' = st" "pack_inv env st ws' log"
proof -
  have "st' = st \<and> pack_inv env st ws' log"
  proof (cases "ps_poisoned st \<or> ps_last_seal st = None \<or> add64 (ps_generation st) 1 = None")
    case True
    thus ?thesis using assms(1,3) by (auto simp: pack_compact_def split: if_splits option.splits)
  next
    case False
    hence gen: "add64 (ps_generation st) 1 = Some (Suc (ps_generation st))" by (auto simp: add64_def split: if_splits)
    let ?name = "slot_name (ps_prefix st) (Suc (ps_generation st))"
    obtain r1 ws1 where b: "build_successor env salt ?name (Suc (ps_generation st)) live st (try_remove ?name ws) = (r1, ws1)" by fastforce
    have other: "?name \<noteq> ws_name ws" using assms(1) by (simp add: pack_inv_defs slot_name_inj)
    hence "untouched (ws_name ws) (held ws) (ws_unreadable ws) (try_remove ?name ws)"
      using remove_slot_other [of ?name ws "try_remove ?name ws" "ws_name ws"] by (simp add: untouched_def held_def)
    hence u: "slot_bytes ws1 (ws_name ws) = held ws"
      using build_successor_untouched [OF _ other, of "held ws" "ws_unreadable ws" "try_remove ?name ws" env salt] b by (metis snd_conv untouched_def)
    obtain e' where r1: "r1 = Inl e'" using assms(2,3) False gen b by (cases r1) (auto simp: pack_compact_def Let_def split: prod.splits)
    have ws: "st' = st" "ws' = (try_remove ?name ws1)\<lparr>ws_name := ws_name ws, ws_len := ws_len ws\<rparr>"
      using assms(3) False gen b r1 by (auto simp: pack_compact_def Let_def)
    have "held ws' = held ws" "ws_name ws' = ws_name ws" "ws_len ws' = ws_len ws"
      using u other remove_slot_other [of ?name ws1 "try_remove ?name ws1" "ws_name ws"] by (simp_all add: ws(2) held_def)
    thus ?thesis using ws(1) assms(1) by (simp add: pack_inv_def)
  qed
  thus "st' = st" "pack_inv env st ws' log" by simp_all
qed

end
