(* ===== verification/PackReopen.thy ===== *)
theory PackReopen
  imports PackLife "HOL-Library.Multiset"
begin

text \<open>
  Reopening a store after a crash: recovery of a slot image that keeps the sealed bytes, the election among
  the slots of the family, and the adoption of the elected slot, which give back the published_slot state and
  the invariant. With it, \<open>pack_reach\<close>: the states a store passes through in any order of founding, commits,
  migrations, compactions, failures of the medium, crashes and reopenings, a crash whose commit in flight landed
  included.
\<close>

section \<open>What recovery finds\<close>

definition published_slot :: "pack_store \<Rightarrow> provenance option \<Rightarrow> slot_state" where
  \<comment> \<open>the state a store has published, as recovery describes one\<close>
  "published_slot st pv = \<lparr>ss_len = sn_sealed_len (ps_snapshot st), ss_table = sn_table (ps_snapshot st), ss_sequence = sn_sequence (ps_snapshot st),
     ss_generation = ps_generation st, ss_last_seal = the (ps_last_seal st), ss_since = ps_since st, ss_provenance = pv,
     ss_manifest = the (ps_manifest st)\<rparr>"

lemma published_state:
  assumes "pack_inv env st ws (x # log)" "take (length b) img = b" "b = take (sn_sealed_len (ps_snapshot st)) (held ws)"
  shows "state_of env (ps_key st) img x (sn_table (ps_snapshot st)) (ps_since st) = published_slot st (se_provenance (fst (snd x)))"
proof -
  obtain offset s e where x: "x = (offset, s, e)" by (cases x)
  have "sealed env (ps_key st) b (x # log) (sn_table (ps_snapshot st)) (ps_since st)" using assms(1,3) by (simp add: pack_inv_defs)
  hence "top_link env (ps_key st) img (x # log) = top_link env (ps_key st) b (x # log)" by (rule top_link_extend [OF assms(2)])
  thus ?thesis using assms(1,3) x by (auto simp: pack_inv_defs state_of_def published_slot_def top_link_def)
qed

definition recovered_as :: "pack_store \<Rightarrow> (slot_state option \<times> bool) option \<Rightarrow> bool" where
  \<comment> \<open>recovery comes to what a store has published; to nothing when it has published nothing\<close>
  "recovered_as st r \<longleftrightarrow>
    (if ps_last_seal st = None then r = Some (None, False) else \<exists>pv. r = Some (Some (published_slot st pv), False))"

lemma recover_published:
  assumes "pack_inv env st ws log" "take (sn_sealed_len (ps_snapshot st)) img = take (sn_sealed_len (ps_snapshot st)) (held ws)"
    and "sn_sealed_len (ps_snapshot st) \<le> length img" "genuine env (ps_key st) img (set log)"
  shows "recovered_as st (recover_state env (slot_image img) (ps_key st) (length img))" "table_holds env img (sn_table (ps_snapshot st))"
proof -
  let ?b = "take (sn_sealed_len (ps_snapshot st)) (held ws)"
  have inv: "sealed env (ps_key st) ?b log (sn_table (ps_snapshot st)) (ps_since st)" "HEADER_LEN \<le> length img"
    "ps_last_seal st = top_link env (ps_key st) ?b log" "sn_sealed_len (ps_snapshot st) \<le> length (held ws)"
    using assms(1,3) by (auto simp: pack_inv_defs)
  have pre: "take (length ?b) img = ?b" using assms(2) inv(4) by (simp add: min_absorb2)
  note sealed' = sealed_extend [OF pre inv(1)]
  show "table_holds env img (sn_table (ps_snapshot st))" by (rule sealed_table [OF sealed'])
  show "recovered_as st (recover_state env (slot_image img) (ps_key st) (length img))"
  proof (cases log)
    case Nil
    thus ?thesis using recover_sealed [OF sealed' inv(2) assms(4)] inv(3) by (simp add: recovered_as_def top_link_def)
  next
    case (Cons x rest)
    have "ps_last_seal st \<noteq> None" using inv(3) Cons by (simp add: top_link_def split: prod.splits)
    moreover have "state_of env (ps_key st) img x (sn_table (ps_snapshot st)) (ps_since st) = published_slot st (se_provenance (fst (snd x)))"
      by (rule published_state [OF assms(1) [unfolded Cons] pre refl])
    ultimately show ?thesis using recover_sealed [OF sealed' inv(2) assms(4)] by (auto simp: recovered_as_def Cons)
  qed
qed

section \<open>The header\<close>

lemma header_fields:
  assumes "length salt = SALT_LEN" "length name \<le> HEADER_NAME_CAPACITY"
  shows "take (length SLOT_MAGIC) (slot_header salt name) = SLOT_MAGIC" "header_salt (slot_header salt name) = salt"
    "header_name (slot_header salt name) = Some name"
proof -
  show "take (length SLOT_MAGIC) (slot_header salt name) = SLOT_MAGIC" by (simp add: slot_header_def)
  show "header_salt (slot_header salt name) = salt" using assms(1) by (simp add: slot_header_def header_salt_def)
  have "le_value (le_bytes 2 (length name)) = length name"
    using assms(2) by (intro le_value_bytes) (simp add: HEADER_NAME_CAPACITY_def)
  thus "header_name (slot_header salt name) = Some name"
    using assms(1) by (simp add: slot_header_def header_name_def Let_def)
qed

lemma recover_headed:
  assumes "headed env key name img" "HEADER_LEN \<le> length img"
  shows "recover_slot env name (slot_image img) (length img) =
    Option.bind (recover_state env (slot_image img) key (length img)) (\<lambda>(state, torn_birth).
      Some (Inr \<lparr>rs_name = name, rs_len = length img, rs_key = key, rs_state = state, rs_torn_birth = torn_birth\<rparr>))"
proof -
  obtain salt where s: "length salt = SALT_LEN" "length name \<le> HEADER_NAME_CAPACITY" "key = pk_derive env salt" "take HEADER_LEN img = slot_header salt name"
    using assms(1) by (auto simp: headed_def)
  have "slot_image img 0 64 = Inr (slot_header salt name)" using s(4) assms(2) by (simp add: slot_image_def HEADER_LEN_def)
  thus ?thesis using header_fields [OF s(1,2)] assms(2) s(3) by (simp add: recover_slot_def)
qed

section \<open>The election\<close>

lemma last_sort_key:
  fixes f :: "'a \<Rightarrow> 'b::linorder"
  assumes "r \<in> set rs" "\<And>r'. r' \<in> set rs \<Longrightarrow> r' \<noteq> r \<Longrightarrow> f r' < f r"
  shows "sort_key f rs \<noteq> []" "last (sort_key f rs) = r"
proof -
  let ?xs = "sort_key f rs"
  show ne: "?xs \<noteq> []" using assms(1) by (metis empty_iff list.set(1) set_sort)
  obtain ys y where xs: "?xs = ys @ [y]" using ne by (cases ?xs rule: rev_cases) auto
  have "sorted (map f (ys @ [y]))" using sorted_sort_key [of f rs] unfolding xs .
  hence "f r \<le> f y" using assms(1) set_sort [of f rs] xs by (auto simp: sorted_append)
  moreover have "y \<in> set rs" using set_sort [of f rs] xs by auto
  ultimately show "last ?xs = r" using assms(2) [of y] xs by fastforce
qed

lemma elect_greatest:
  assumes "r \<in> set rs" "\<And>r'. r' \<in> set rs \<Longrightarrow> r' \<noteq> r \<Longrightarrow> election_key r' < election_key r"
    and "rs_state r = Some s" "distinct (map rs_name rs)"
  shows "\<exists>losers. elect rs = (Some (r, s), losers) \<and> (\<forall>l\<in>set losers. rs_name l \<noteq> rs_name r)"
proof -
  let ?xs = "sort_key election_key rs"
  note l = last_sort_key [of r rs election_key, OF assms(1,2)]
  obtain ys where ys: "?xs = ys @ [r]" using l append_butlast_last_id [of ?xs] by metis
  have "mset (map rs_name ?xs) = mset (map rs_name rs)" by simp
  hence "distinct (map rs_name ?xs)" using assms(4) mset_eq_imp_distinct_iff by blast
  hence "rs_name r \<notin> rs_name ` set ys" unfolding ys by simp
  hence "\<forall>l\<in>set ys. rs_name l \<noteq> rs_name r" by (metis imageI)
  moreover have "elect rs = (Some (r, s), ys)" using l assms(3) ys by (simp add: elect_def)
  ultimately show ?thesis by blast
qed

section \<open>Opening\<close>

definition quiet :: "writer_state \<Rightarrow> bool" where
  \<comment> \<open>no call and no read of the medium is about to fail\<close>
  "quiet ws \<longleftrightarrow> ws_io ws = [] \<and> ws_unreadable ws = (\<lambda>_ _ _. None)"

definition recovers_to :: "pack_env \<Rightarrow> writer_state \<Rightarrow> string \<Rightarrow> recovered_slot \<Rightarrow> bool" where
  "recovers_to env ws name r \<longleftrightarrow>
    recover_slot env name (slot_image (slot_bytes ws name)) (length (slot_bytes ws name)) = Some (Inr r)"

lemma recovers_name: "recovers_to env ws name r \<Longrightarrow> rs_name r = name"
  by (auto simp: recovers_to_def recover_slot_def unrecovered_def split: if_splits sum.splits Option.bind_splits)

lemma recover_all_quiet:
  assumes "quiet ws" "\<forall>name\<in>set names. checked_name name \<and> map_of (ws_slots ws) name \<noteq> None \<and> recovers_to env ws name (f name)"
  shows "\<exists>name len. recover_all env names ws = Some (Inr (map f names), ws\<lparr>ws_name := name, ws_len := len\<rparr>)"
  using assms
proof (induction names arbitrary: ws)
  case Nil
  have "ws = ws\<lparr>ws_name := ws_name ws, ws_len := ws_len ws\<rparr>" by simp
  thus ?case by (metis list.simps(8) recover_all.simps(1))
next
  case (Cons n names)
  let ?ws = "ws\<lparr>ws_name := n, ws_len := length (slot_bytes ws n)\<rparr>"
  have o: "wr_io OpOpen (open_slot n) ws = (Inr (), ?ws)"
    using Cons.prems by (auto simp: wr_io_def open_slot_def outcome_def quiet_def)
  have b: "slot_bytes ?ws = slot_bytes ws" by (simp add: slot_bytes_def fun_eq_iff)
  have rd: "read_at ?ws n = slot_image (slot_bytes ws n)"
    using Cons.prems(1) b by (subst read_at_image) (simp_all add: quiet_def)
  have "\<exists>name len. recover_all env names ?ws = Some (Inr (map f names), ?ws\<lparr>ws_name := name, ws_len := len\<rparr>)"
    using Cons.prems b by (intro Cons.IH) (auto simp: quiet_def recovers_to_def)
  then obtain name len where "recover_all env names ?ws = Some (Inr (map f names), ws\<lparr>ws_name := name, ws_len := len\<rparr>)" by auto
  moreover have "recover_slot env n (slot_image (slot_bytes ws n)) (length (slot_bytes ws n)) = Some (Inr (f n))"
    using Cons.prems(2) by (simp add: recovers_to_def)
  ultimately have "recover_all env (n # names) ws = Some (Inr (map f (n # names)), ws\<lparr>ws_name := name, ws_len := len\<rparr>)"
    by (simp add: o rd try_then_def)
  thus ?case by blast
qed

lemma fold_remove_other:
  assumes "\<forall>l\<in>set losers. rs_name l \<noteq> name"
  shows "slot_bytes (fold (\<lambda>l. try_remove (rs_name l)) losers ws) name = slot_bytes ws name"
    "ws_unreadable (fold (\<lambda>l. try_remove (rs_name l)) losers ws) = ws_unreadable ws"
    "ws_io ws = [] \<Longrightarrow> ws_io (fold (\<lambda>l. try_remove (rs_name l)) losers ws) = []"
proof -
  have io: "ws_io ws = [] \<Longrightarrow> ws_io (try_remove n ws) = []" for n ws
    by (auto simp: try_remove_def remove_slot_def outcome_def)
  show "slot_bytes (fold (\<lambda>l. try_remove (rs_name l)) losers ws) name = slot_bytes ws name"
    "ws_unreadable (fold (\<lambda>l. try_remove (rs_name l)) losers ws) = ws_unreadable ws"
    "ws_io ws = [] \<Longrightarrow> ws_io (fold (\<lambda>l. try_remove (rs_name l)) losers ws) = []"
    using assms remove_slot_other [of _ _ _ name] io by (induction losers arbitrary: ws) auto
qed

lemma adopt_quiet:
  assumes "ws_io ws = []" "ss_len s \<le> length (slot_bytes ws (rs_name r))" "rs_len r = length (slot_bytes ws (rs_name r))"
  obtains ws' where "adopt_slot prefix r s ws = (Inr \<lparr>ps_prefix = prefix, ps_key = rs_key r,
        ps_snapshot = \<lparr>sn_generation = rs_name r, sn_table = ss_table s, sn_sealed_len = ss_len s, sn_sequence = ss_sequence s\<rparr>,
        ps_graveyard = [], ps_generation = ss_generation s, ps_last_seal = Some (ss_last_seal s), ps_since = ss_since s,
        ps_provenance = ss_provenance s, ps_manifest = Some (ss_manifest s), ps_poisoned = False\<rparr>, ws')"
    "ws_name ws' = rs_name r" "ws_len ws' = ss_len s" "slot_bytes ws' (rs_name r) = take (ss_len s) (slot_bytes ws (rs_name r))"
    "ws_unreadable ws' = ws_unreadable ws"
proof (cases "ss_len s < rs_len r")
  case True
  let ?ws = "put_slot (rs_name r) (take (ss_len s) (slot_bytes ws (rs_name r))) (ws\<lparr>ws_name := rs_name r, ws_len := ss_len s\<rparr>)"
  show ?thesis
    using True assms(1)
    by (intro that [of ?ws]) (simp_all add: adopt_slot_def wr_then_def wr_io_def wr_return_def sw_truncate_def sw_flush_def outcome_def
        Let_def put_slot_def slot_bytes_def AList.update_conv')
next
  case False
  show ?thesis
    using False assms(2,3)
    by (intro that [of "ws\<lparr>ws_name := rs_name r, ws_len := rs_len r\<rparr>"]) (simp_all add: adopt_slot_def wr_then_def wr_return_def Let_def slot_bytes_def)
qed

lemma adopt_published:
  assumes "ws_io ws = []" "sn_sealed_len (ps_snapshot st) \<le> length (slot_bytes ws name)" "ps_last_seal st \<noteq> None" "ps_manifest st \<noteq> None"
    and "sn_generation (ps_snapshot st) = name"
    and "r = \<lparr>rs_name = name, rs_len = length (slot_bytes ws name), rs_key = ps_key st, rs_state = Some (published_slot st pv), rs_torn_birth = False\<rparr>"
  obtains ws' where "adopt_slot (ps_prefix st) r (published_slot st pv) ws = (Inr (st\<lparr>ps_graveyard := [], ps_provenance := pv, ps_poisoned := False\<rparr>), ws')"
    "ws_name ws' = name" "ws_len ws' = sn_sealed_len (ps_snapshot st)"
    "slot_bytes ws' name = take (sn_sealed_len (ps_snapshot st)) (slot_bytes ws name)" "ws_unreadable ws' = ws_unreadable ws"
proof -
  let ?sn = "ps_snapshot st" and ?s = "published_slot st pv"
  have store: "\<lparr>ps_prefix = ps_prefix st, ps_key = rs_key r,
        ps_snapshot = \<lparr>sn_generation = rs_name r, sn_table = ss_table ?s, sn_sealed_len = ss_len ?s, sn_sequence = ss_sequence ?s\<rparr>,
        ps_graveyard = [], ps_generation = ss_generation ?s, ps_last_seal = Some (ss_last_seal ?s), ps_since = ss_since ?s,
        ps_provenance = ss_provenance ?s, ps_manifest = Some (ss_manifest ?s), ps_poisoned = False\<rparr> =
      st\<lparr>ps_graveyard := [], ps_provenance := pv, ps_poisoned := False\<rparr>"
    using assms(3-6) by (cases st) (auto simp: published_slot_def)
  have len: "ss_len ?s = sn_sealed_len ?sn" by (simp add: published_slot_def)
  have rs: "ss_len ?s \<le> length (slot_bytes ws (rs_name r))" "rs_len r = length (slot_bytes ws (rs_name r))" "rs_name r = name"
    using assms(2,6) len by simp_all
  obtain ws' where "adopt_slot (ps_prefix st) r ?s ws = (Inr (st\<lparr>ps_graveyard := [], ps_provenance := pv, ps_poisoned := False\<rparr>), ws')"
    "ws_name ws' = name" "ws_len ws' = ss_len ?s" "slot_bytes ws' name = take (ss_len ?s) (slot_bytes ws name)" "ws_unreadable ws' = ws_unreadable ws"
    by (rule adopt_quiet [OF assms(1) rs(1,2), where prefix = "ps_prefix st", unfolded store, unfolded rs(3)])
  thus ?thesis using that len by simp
qed

lemma decimal_digits: "list_all (\<lambda>d. d \<in> set ''0123456789'') (decimal n)"
proof (induction n rule: decimal.induct)
  case (1 n)
  have "list_all (\<lambda>d. char_of (48 + d) \<in> set ''0123456789'') [0..<10]" by code_simp
  hence digit: "char_of (48 + d) \<in> set ''0123456789''" if "d < 10" for d :: nat using that unfolding list_all_iff by (metis atLeastLessThan_iff le0 set_upt)
  show ?case using 1 digit [of n] digit [of "n mod 10"] by (subst decimal.simps) (auto simp del: set_simps)
qed

lemma in_family_slot_name: "in_family prefix (slot_name prefix g)"
  using decimal_digits [of g] by (simp add: in_family_def slot_name_def)

definition crash_of :: "pack_env \<Rightarrow> pack_store \<Rightarrow> writer_state \<Rightarrow> seal_log \<Rightarrow> writer_state \<Rightarrow> bool" where
  \<comment> \<open>a medium after a crash of the store: the slot keeps the sealed bytes and no forged seal, and every other slot
    of the family, retired or half built, recovers to an older state or to none\<close>
  "crash_of env st ws log after \<longleftrightarrow>
    (let img = slot_bytes after (ws_name ws); n = sn_sealed_len (ps_snapshot st) in
     take n img = take n (slot_bytes ws (ws_name ws)) \<and> n \<le> length img \<and> genuine env (ps_key st) img (set log) \<and>
     distinct (map fst (ws_slots after)) \<and>
     (\<forall>name\<in>set (filter (in_family (ps_prefix st)) (map fst (ws_slots after))). checked_name name \<and>
       (name \<noteq> ws_name ws \<longrightarrow>
         (\<exists>r. recovers_to env after name r \<and> election_key r < (sn_sequence (ps_snapshot st), ps_generation st)))))"

lemma pack_core_provenance [simp]: "pack_core env (st\<lparr>ps_provenance := p\<rparr>) name b log = pack_core env st name b log"
  by (cases log) (auto simp: pack_core_def Let_def)

lemma slot_recovers:
  assumes "pack_inv env st ws log" "crash_of env st ws log after" "ps_last_seal st \<noteq> None"
  obtains pv where "recovers_to env after (ws_name ws) \<lparr>rs_name = ws_name ws, rs_len = length (slot_bytes after (ws_name ws)), rs_key = ps_key st,
      rs_state = Some (published_slot st pv), rs_torn_birth = False\<rparr>"
proof -
  let ?img = "slot_bytes after (ws_name ws)" and ?n = "sn_sealed_len (ps_snapshot st)"
  have c: "take ?n ?img = take ?n (held ws)" "?n \<le> length ?img" "genuine env (ps_key st) ?img (set log)"
    using assms(2) by (simp_all add: crash_of_def Let_def held_def)
  have h: "headed env (ps_key st) (ws_name ws) (take ?n (held ws))" "HEADER_LEN \<le> ?n" "?n \<le> length (held ws)"
    using assms(1) unfolding pack_inv_defs by (blast, blast, blast)
  have "headed env (ps_key st) (ws_name ws) ?img"
    using c(1) h(2,3) by (intro headed_extend [OF h(1)]) (simp_all add: min_absorb2)
  moreover have "recovered_as st (recover_state env (slot_image ?img) (ps_key st) (length ?img))"
    by (rule recover_published(1) [OF assms(1) c])
  then obtain pv where "recover_state env (slot_image ?img) (ps_key st) (length ?img) = Some (Some (published_slot st pv), False)"
    using assms(3) by (auto simp: recovered_as_def)
  ultimately show ?thesis using c(2) h(2) by (intro that [of pv]) (simp add: recovers_to_def recover_headed)
qed

lemma reopens:
  assumes "pack_inv env st ws log" "crash_of env st ws log after" "ps_last_seal st \<noteq> None" "quiet after"
  obtains pv ws' where "pack_open env salt (ps_prefix st) after = Some (Inr (st\<lparr>ps_graveyard := [], ps_provenance := pv, ps_poisoned := False\<rparr>), ws')"
    "ws_name ws' = ws_name ws" "ws_len ws' = sn_sealed_len (ps_snapshot st)"
    "slot_bytes ws' (ws_name ws) = take (sn_sealed_len (ps_snapshot st)) (slot_bytes ws (ws_name ws))" "ws_unreadable ws' = (\<lambda>_ _ _. None)"
proof -
  let ?img = "slot_bytes after (ws_name ws)" and ?n = "sn_sealed_len (ps_snapshot st)" and ?names = "filter (in_family (ps_prefix st)) (map fst (ws_slots after))"
  obtain pv where r0: "recovers_to env after (ws_name ws) \<lparr>rs_name = ws_name ws, rs_len = length ?img, rs_key = ps_key st,
      rs_state = Some (published_slot st pv), rs_torn_birth = False\<rparr>" (is "recovers_to _ _ _ ?r") by (rule slot_recovers [OF assms(1-3)])
  have inv: "ws_name ws = slot_name (ps_prefix st) (ps_generation st)" "HEADER_LEN \<le> ?n" "ps_manifest st \<noteq> None" "sn_generation (ps_snapshot st) = ws_name ws"
    using assms(1,3) by (auto simp: pack_inv_defs top_link_def split: list.splits)
  have c: "take ?n ?img = take ?n (slot_bytes ws (ws_name ws))" "?n \<le> length ?img" "distinct ?names"
    "\<forall>name\<in>set ?names. checked_name name \<and>
       (name \<noteq> ws_name ws \<longrightarrow> (\<exists>r. recovers_to env after name r \<and> election_key r < (sn_sequence (ps_snapshot st), ps_generation st)))"
    using assms(2) by (simp_all add: crash_of_def Let_def)
  have "?img \<noteq> []" using c(2) inv(2) by (auto simp: HEADER_LEN_def)
  hence "ws_name ws \<in> fst ` set (ws_slots after)" by (auto simp: slot_bytes_def dest!: map_of_SomeD split: option.splits intro: rev_image_eqI)
  hence mem: "ws_name ws \<in> set ?names" using in_family_slot_name inv(1) by auto
  have "\<exists>r. recovers_to env after name r \<and> (name = ws_name ws \<longrightarrow> r = ?r) \<and> (name \<noteq> ws_name ws \<longrightarrow> election_key r < election_key ?r)"
    if "name \<in> set ?names" for name
    using c(4) that r0 by (cases "name = ws_name ws") (auto simp: election_key_def published_slot_def)
  then obtain f where f: "\<forall>name\<in>set ?names. recovers_to env after name (f name) \<and> (name = ws_name ws \<longrightarrow> f name = ?r) \<and>
      (name \<noteq> ws_name ws \<longrightarrow> election_key (f name) < election_key ?r)" by metis
  have fn: "rs_name (f name) = name" if "name \<in> set ?names" for name using f that recovers_name by blast
  obtain name len where ra: "recover_all env ?names after = Some (Inr (map f ?names), after\<lparr>ws_name := name, ws_len := len\<rparr>)"
    using recover_all_quiet [OF assms(4), of ?names env f] f c(4) by (auto simp: map_of_eq_None_iff)
  have names: "map rs_name (map f ?names) = ?names" using fn by (simp only: map_map) (rule map_idI, simp only: comp_apply)
  have rin: "?r \<in> set (map f ?names)" using f mem by (metis image_eqI list.set_map)
  moreover have "election_key r' < election_key ?r" if "r' \<in> set (map f ?names)" "r' \<noteq> ?r" for r' using that f by auto
  ultimately obtain losers where el: "elect (map f ?names) = (Some (?r, published_slot st pv), losers)" "\<forall>l\<in>set losers. rs_name l \<noteq> ws_name ws"
    using elect_greatest [of ?r "map f ?names" "published_slot st pv"] c(3) names by auto
  let ?ws = "fold (\<lambda>l. try_remove (rs_name l)) losers (after\<lparr>ws_name := name, ws_len := len\<rparr>)"
  note k = fold_remove_other [OF el(2), of "after\<lparr>ws_name := name, ws_len := len\<rparr>"]
  have b: "slot_bytes (after\<lparr>ws_name := name, ws_len := len\<rparr>) = slot_bytes after" by (simp add: slot_bytes_def fun_eq_iff)
  obtain ws' where ad: "adopt_slot (ps_prefix st) ?r (published_slot st pv) ?ws = (Inr (st\<lparr>ps_graveyard := [], ps_provenance := pv, ps_poisoned := False\<rparr>), ws')"
    "ws_name ws' = ws_name ws" "ws_len ws' = ?n" "slot_bytes ws' (ws_name ws) = take ?n ?img" "ws_unreadable ws' = ws_unreadable after"
  proof -
    have "slot_bytes ?ws (ws_name ws) = ?img" "ws_unreadable ?ws = ws_unreadable after" "ws_io ?ws = []"
      using k b assms(4) by (simp_all add: quiet_def)
    note w = this
    show ?thesis
      by (rule adopt_published [of ?ws st "ws_name ws" ?r pv, unfolded w, OF refl c(2) assms(3) inv(3,4) refl]) (rule that)
  qed
  have "\<not> list_all (\<lambda>r. rs_state r = None) (map f ?names)" using rin by (fastforce simp: list_all_iff simp del: set_map set_filter)
  hence "pack_open env salt (ps_prefix st) after = Some (Inr (st\<lparr>ps_graveyard := [], ps_provenance := pv, ps_poisoned := False\<rparr>), ws')"
    using assms(4) ra el(1) ad(1)
    by (simp add: pack_open_def slot_family_def wr_then_def wr_io_def slot_names_def outcome_def quiet_def wr_return_def)
  moreover have "slot_bytes ws' (ws_name ws) = take ?n (slot_bytes ws (ws_name ws))" unfolding ad(4) by (rule c(1))
  moreover have "ws_unreadable ws' = (\<lambda>_ _ _. None)" using ad(5) assms(4) by (simp add: quiet_def)
  ultimately show ?thesis using ad(2,3) by (intro that)
qed

lemma reopen_inv:
  assumes "pack_inv env st ws log" "crash_of env st ws log after" "ps_last_seal st \<noteq> None" "quiet after"
    and "pack_open env salt (ps_prefix st) after = Some (Inr st', ws')"
  shows "pack_inv env st' ws' log"
proof -
  obtain pv w where "pack_open env salt (ps_prefix st) after = Some (Inr (st\<lparr>ps_graveyard := [], ps_provenance := pv, ps_poisoned := False\<rparr>), w)"
    "ws_name w = ws_name ws" "ws_len w = sn_sealed_len (ps_snapshot st)"
    "slot_bytes w (ws_name ws) = take (sn_sealed_len (ps_snapshot st)) (slot_bytes ws (ws_name ws))"
    by (rule reopens [OF assms(1-4)])
  hence o: "st' = st\<lparr>ps_graveyard := [], ps_provenance := pv, ps_poisoned := False\<rparr>"
    "ws_name ws' = ws_name ws" "ws_len ws' = sn_sealed_len (ps_snapshot st)" "slot_bytes ws' (ws_name ws) = take (sn_sealed_len (ps_snapshot st)) (held ws)"
    using assms(5) by (simp_all add: held_def)
  have "pack_core env (st\<lparr>ps_graveyard := []\<rparr>) (ws_name ws) (take (sn_sealed_len (ps_snapshot st)) (held ws)) log"
    "sn_sealed_len (ps_snapshot st) \<le> length (held ws)"
    using assms(1) pack_core_graveyard [of env st "ws_name ws" _ log "[]"] by (simp_all add: pack_inv_def)
  thus ?thesis using o by (simp add: pack_inv_def held_def min_absorb2)
qed

section \<open>A commit that landed without being acknowledged\<close>

definition landed :: "pack_env \<Rightarrow> pack_store \<Rightarrow> writer_state \<Rightarrow> seal \<Rightarrow> nat \<Rightarrow> bytes \<Rightarrow> bool" where
  \<comment> \<open>the bytes of a commit in flight through its seal reached the slot, behind all it held\<close>
  "landed env st ws s offset img \<longleftrightarrow> take (length (held ws)) img = held ws \<and> length img < 2 ^ 64 \<and>
    read_seal env (slot_image img) (ps_key st) (length img) offset = Some (offset, s, length img) \<and>
    delta_holds env (slot_image img) (se_added s)"

definition landed_store :: "pack_env \<Rightarrow> pack_store \<Rightarrow> table \<Rightarrow> seal \<Rightarrow> nat \<Rightarrow> bytes \<Rightarrow> pack_store" where
  \<comment> \<open>the store as the acknowledged commit would have left it\<close>
  "landed_store env st t s offset img = st\<lparr>
     ps_snapshot := \<lparr>sn_generation = sn_generation (ps_snapshot st), sn_table = t, sn_sealed_len = length img, sn_sequence = se_sequence s\<rparr>,
     ps_last_seal := Some (link_at env (ps_key st) img offset), ps_since := (if checkpoint_due st then 0 else Suc (ps_since st)),
     ps_provenance := None, ps_manifest := Some (se_manifest s)\<rparr>"

lemma landed_inv:
  assumes "env_ok env" "pack_inv env st ws log" "\<not> ps_poisoned st"
    and "append_objects env (ps_key st) objects (sn_table (ps_snapshot st)) [] ws = (Inr (t, added), ws1)"
    and "s = commit_seal st (Suc (sn_sequence (ps_snapshot st))) t added manifest" "landed env st ws s (ws_len ws1) img"
  shows "pack_inv env (landed_store env st t s (ws_len ws1) img) (put_slot (ws_name ws) img (ws\<lparr>ws_len := length img\<rparr>))
    ((ws_len ws1, s, length img) # log)"
proof -
  let ?sn = "ps_snapshot st" and ?key = "ps_key st"
  note en = pack_inv_at_end [OF assms(2,3)]
  have inv: "sealed env ?key (held ws) log (sn_table ?sn) (ps_since st)" "bm_wf (sn_table ?sn)" "ps_since st < CHECKPOINT_EVERY"
    "ps_last_seal st = top_link env ?key (held ws) log" "HEADER_LEN \<le> length (held ws)" "sn_generation ?sn = ws_name ws"
    "ws_name ws = slot_name (ps_prefix st) (ps_generation st)" "\<forall>name\<in>set (ps_graveyard st). \<exists>g<ps_generation st. name = slot_name (ps_prefix st) g"
    "headed env ?key (ws_name ws) (held ws)"
    using assms(2,3) en(2) by (auto simp: pack_inv_defs)
  obtain bytes where ob: "t = entry_table added (sn_table ?sn)" "appended_to ws bytes ws1" "bm_wf t"
    using append_objects_Inr [OF assms(1,4) en(1) inv(2)] by auto
  have off: "length (held ws) \<le> ws_len ws1" using wrote_held [OF ob(2)] by (simp add: at_end_def)
  have img: "take (length (held ws)) img = held ws" "length img < 2 ^ 64" "delta_holds env (slot_image img) added"
    "read_seal env (slot_image img) ?key (length img) (ws_len ws1) = Some (ws_len ws1, s, length img)"
    using assms(5,6) by (simp_all add: landed_def commit_seal_def)
  have len: "HEADER_LEN \<le> length img" using arg_cong [OF img(1), of length] inv(5) by simp
  have since: "(if checkpoint_due st then 0 else Suc (ps_since st)) < CHECKPOINT_EVERY"
    using inv(3) by (auto simp: CHECKPOINT_EVERY_def checkpoint_due_def min_def)
  have "sealed env ?key img ((ws_len ws1, s, length img) # log) t (if checkpoint_due st then 0 else Suc (ps_since st))"
    by (rule next_sealed [OF inv(1) img(1,4) inv(5) off assms(5) ob(1) inv(2) img(3) inv(4) pack_inv_below [OF assms(2)]])
  then show ?thesis
    using since ob(3) inv(5-8) img(2) len headed_extend [OF inv(9) img(1) inv(5)] assms(5)
    by (simp add: pack_inv_defs held_def landed_store_def top_link_def commit_seal_def)
qed

section \<open>The life of a store\<close>

text \<open>Besides the calls themselves, a store goes through changes of the medium's mood (\<open>weather\<close>), crashes
  followed by a reopening (\<open>reopened\<close>), and crashes in which a commit in flight landed whole without having
  been acknowledged (\<open>landing\<close>): the store that reopens then is the one the acknowledged commit would have left. Migrations and
  compactions are taken as acknowledged or undone.\<close>

inductive pack_reach :: "pack_env \<Rightarrow> pack_store \<Rightarrow> writer_state \<Rightarrow> seal_log \<Rightarrow> bool" for env where
  founded: "found_pack env (Some salt) pre ws0 = (Inr st, ws) \<Longrightarrow> length salt = SALT_LEN \<Longrightarrow> pack_reach env st ws []"
| weather: "pack_reach env st ws log \<Longrightarrow> pack_reach env st (ws\<lparr>ws_io := io, ws_unreadable := unreadable\<rparr>) log"
| committed: "pack_reach env st ws log \<Longrightarrow> pack_commit env objects manifest st ws = (r, st', ws') \<Longrightarrow>
    pack_reach env st' ws' (case r of Inl _ \<Rightarrow> log | Inr _ \<Rightarrow> last_logged env st' ws' # log)"
| migrated: "pack_reach env st ws log \<Longrightarrow> migrate_commit env sources manifest pv st ws = (r, st', ws') \<Longrightarrow> Inl OutcomeUnknown \<notin> set sources \<Longrightarrow>
    pack_reach env st' ws' (case r of Inl _ \<Rightarrow> log | Inr _ \<Rightarrow> [last_logged env st' ws'])"
| compacted_away: "pack_reach env st ws log \<Longrightarrow> pack_compact env (Some salt) live pinned st ws = (r, st', ws') \<Longrightarrow> length salt = SALT_LEN \<Longrightarrow>
    pack_reach env st' ws' (if ps_last_seal st = None \<or> r \<noteq> Inr () then log else [last_logged env st' ws'])"
| reopened: "pack_reach env st ws log \<Longrightarrow> crash_of env st ws log after \<Longrightarrow> ps_last_seal st \<noteq> None \<Longrightarrow> quiet after \<Longrightarrow>
    pack_open env salt (ps_prefix st) after = Some (Inr st', ws') \<Longrightarrow> pack_reach env st' ws' log"
| landing: "pack_reach env st ws log \<Longrightarrow> \<not> ps_poisoned st \<Longrightarrow>
    append_objects env (ps_key st) objects (sn_table (ps_snapshot st)) [] ws = (Inr (t, added), ws1) \<Longrightarrow>
    add64 (sn_sequence (ps_snapshot st)) 1 = Some sequence \<Longrightarrow> s = commit_seal st sequence t added manifest \<Longrightarrow>
    landed env st ws s (ws_len ws1) img \<Longrightarrow>
    pack_reach env (landed_store env st t s (ws_len ws1) img) (put_slot (ws_name ws) img (ws\<lparr>ws_len := length img\<rparr>))
      ((ws_len ws1, s, length img) # log)"

lemma reach_inv: "pack_reach env st ws log \<Longrightarrow> env_ok env \<Longrightarrow> pack_inv env st ws log"
proof (induction rule: pack_reach.induct)
  case (compacted_away st ws log salt live pinned r st' ws')
  show ?case
  proof (cases "ps_last_seal st = None \<or> r \<noteq> Inr ()")
    case True
    then obtain e where "ps_last_seal st = None \<or> r = Inl e" by (cases r) auto
    thus ?thesis using True compact_kept [OF compacted_away.IH [OF compacted_away.prems] _ compacted_away.hyps(2)] by simp
  next
    case False
    hence seal: "ps_last_seal st \<noteq> None" and c: "pack_compact env (Some salt) live pinned st ws = (Inr (), st', ws')"
      using compacted_away.hyps(2) by auto
    show ?thesis
      using compacted(1) [OF compacted_away.prems compacted_away.IH [OF compacted_away.prems] compacted_away.hyps(3) seal c] False by auto
  qed
next
  case (founded salt pre ws0 st ws)
  show ?case by (rule found_inv [OF founded.hyps])
next
  case (weather st ws log io unreadable)
  show ?case using weather.IH [OF weather.prems] by (simp add: pack_inv_def held_def slot_bytes_def)
next
  case (committed st ws log objects manifest r st' ws')
  show ?case by (rule commit_inv [OF committed.prems committed.IH [OF committed.prems] committed.hyps(2)])
next
  case (migrated st ws log sources manifest pv r st' ws')
  show ?case by (rule migrate_inv [OF migrated.prems migrated.IH [OF migrated.prems] migrated.hyps(2,3)])
next
  case (reopened st ws log after salt st' ws')
  show ?case by (rule reopen_inv [OF reopened.IH [OF reopened.prems] reopened.hyps(2-5)])
next
  case (landing st ws log objects t added ws1 sequence s manifest img)
  have "s = commit_seal st (Suc (sn_sequence (ps_snapshot st))) t added manifest"
    using landing.hyps(4,5) by (simp add: add64_def split: if_splits)
  with landing.hyps(6) show ?case
    by (intro landed_inv [OF landing.prems landing.IH [OF landing.prems] landing.hyps(2,3)])
qed

end
