(* ===== verification/PackCrash.thy ===== *)
theory PackCrash
  imports PackReopen
begin

text \<open>
  Crashes of a pack store: what recovery finds in a slot image that keeps the sealed bytes, for a store at
  rest and for one in the middle of a commit, and what is read back after commits and compactions.
\<close>

section \<open>Crashes\<close>

lemma inv_reads:
  assumes "pack_inv env st ws log" "\<not> ps_poisoned st" "ws_unreadable ws = (\<lambda>_ _ _. None)" "map_of (sn_table (ps_snapshot st)) hash \<noteq> None"
  shows "\<exists>x. view_read env ws (ps_snapshot st) hash = Inr x \<and> pk_hash env x = hash"
proof -
  note e = pack_inv_at_end [OF assms(1,2)]
  obtain off len where m: "map_of (sn_table (ps_snapshot st)) hash = Some (off, len)" using assms(4) by auto
  have "sealed env (ps_key st) (held ws) log (sn_table (ps_snapshot st)) (ps_since st)"
    using assms(1) e(2) by (simp add: pack_inv_defs)
  hence "table_holds env (held ws) (sn_table (ps_snapshot st))" by (rule sealed_table)
  then obtain x where x: "slot_image (held ws) off len = Inr x" "pk_hash env x = hash"
    using map_of_SomeD [OF m] by (auto simp: table_holds_def)
  have "len \<le> length (held ws)" using x(1) by (auto simp: slot_image_def split: if_splits)
  hence "len \<le> 2 ^ 64 - 1" using e(1) by (simp add: at_end_def)
  moreover have "sn_generation (ps_snapshot st) = ws_name ws" using assms(1) by (simp add: pack_inv_defs)
  moreover have "read_at ws (ws_name ws) off len = Inr x" using x(1) read_at_image [of ws "ws_name ws"] assms(3) by (simp add: held_def)
  ultimately show ?thesis using m x(2) by (simp add: view_read_def read_bounded_def)
qed

lemma acknowledged_commits_survive_inv:
  assumes "env_ok env" "pack_reach env st ws log"
    and "take (sn_sealed_len (ps_snapshot st)) img = take (sn_sealed_len (ps_snapshot st)) (slot_bytes ws (ws_name ws))"
    and "sn_sealed_len (ps_snapshot st) \<le> length img" "genuine env (ps_key st) img (set log)"
  shows "recovered_as st (recover_state env (slot_image img) (ps_key st) (length img)) \<and> table_holds env img (sn_table (ps_snapshot st))"
  using recover_published [OF reach_inv [OF assms(2,1)] _ assms(4,5)] assms(3) by (simp add: held_def)

text \<open>C28: After any founding, commits, migration, compactions and failures, a crash that keeps the sealed bytes is
  recovered to exactly the state the store had published, whatever follows those bytes, and every object of
  its table reads with its hash. No record beyond the ones the writer sealed may verify as a seal.\<close>

theorem acknowledged_commits_survive:
  assumes "env_ok env" "pack_reach env st ws log"
    and "take (sn_sealed_len (ps_snapshot st)) img = take (sn_sealed_len (ps_snapshot st)) (slot_bytes ws (ws_name ws))"
    and "sn_sealed_len (ps_snapshot st) \<le> length img" "genuine env (ps_key st) img (set log)"
  shows "recovered_as st (recover_state env (slot_image img) (ps_key st) (length img)) \<and> table_holds env img (sn_table (ps_snapshot st))"
  by (rule acknowledged_commits_survive_inv [OF assms])

definition in_flight :: "pack_env \<Rightarrow> bytes list \<Rightarrow> bytes \<Rightarrow> pack_store \<Rightarrow> writer_state \<Rightarrow> (nat \<times> seal \<times> nat) set" where
  \<comment> \<open>the seal a commit writes once its objects are written\<close>
  "in_flight env objects manifest st ws =
    (case append_objects env (ps_key st) objects (sn_table (ps_snapshot st)) [] ws of
       (Inl _, _) \<Rightarrow> {}
     | (Inr (t, added), ws1) \<Rightarrow> {(ws_len ws1, commit_seal st (Suc (sn_sequence (ps_snapshot st))) t added manifest, e) | e. True})"

lemma in_flight_recovers:
  assumes "env_ok env" "pack_inv env st ws log" "\<not> ps_poisoned st" "take (length (held ws)) img = held ws"
    and "append_objects env (ps_key st) objects (sn_table (ps_snapshot st)) [] ws = (Inr (t, added), ws1)"
    and "s = commit_seal st (Suc (sn_sequence (ps_snapshot st))) t added manifest"
    and "read_seal env (slot_image img) (ps_key st) (length img) (ws_len ws1) = Some (ws_len ws1, s, e)"
    and "genuine env (ps_key st) img (set log \<union> {(ws_len ws1, s, e)})"
  shows "recovered_as st (recover_state env (slot_image img) (ps_key st) (length img)) \<or>
    (\<exists>state. recover_state env (slot_image img) (ps_key st) (length img) = Some (Some state, False)
      \<and> ss_sequence state = Suc (sn_sequence (ps_snapshot st)) \<and> ss_manifest state = manifest
      \<and> (\<forall>b\<in>set objects. map_of (ss_table state) (pk_hash env b) \<noteq> None)
      \<and> map_of (sn_table (ps_snapshot st)) \<subseteq>\<^sub>m map_of (ss_table state) \<and> table_holds env img (ss_table state))"
proof -
  let ?sn = "ps_snapshot st" and ?key = "ps_key st"
  note en = pack_inv_at_end [OF assms(2,3)]
  have inv: "sealed env ?key (held ws) log (sn_table ?sn) (ps_since st)" "bm_wf (sn_table ?sn)" "ps_last_seal st = top_link env ?key (held ws) log"
    "HEADER_LEN \<le> length (held ws)" "ps_since st < CHECKPOINT_EVERY"
    using assms(2,3) en(2) by (auto simp: pack_inv_defs)
  obtain bytes where ob: "t = entry_table added (sn_table ?sn)" "appended_to ws bytes ws1" "bm_wf t"
    "\<forall>b\<in>set objects. map_of t (pk_hash env b) \<noteq> None" "map_of (sn_table ?sn) \<subseteq>\<^sub>m map_of t"
    using append_objects_Inr [OF assms(1,5) en(1) inv(2)] by auto
  have off: "length (held ws) \<le> ws_len ws1" using wrote_held [OF ob(2)] by (simp add: at_end_def)
  have img: "length (held ws) \<le> length img" using arg_cong [OF assms(4), of length] by simp
  note sealed' = sealed_extend [OF assms(4) inv(1)]
  have offsets: "fst y \<le> ws_len ws1" if "y \<in> set log" for y
  proof -
    have "read_seal env (slot_image (held ws)) ?key (length (held ws)) (fst y) = Some y"
      using sealed_reads [OF inv(1), of "fst y" "fst (snd y)" "snd (snd y)"] that by simp
    thus ?thesis using read_seal_magic(2) off by fastforce
  qed
  have newest: "newest_seal env (slot_image img) ?key (length img) = Some (ws_len ws1, s, e)"
    using inv(4) img off offsets assms(7) by (intro newest_is [OF _ assms(8)]) auto
  have below: "\<forall>(_, s', _)\<in>set log. se_sequence s' < se_sequence s" using pack_inv_below [OF assms(2)] assms(6) by (simp add: commit_seal_def)
  have prev: "se_prev s = top_link env ?key img log" using assms(6) inv(3) top_link_extend [OF assms(4) inv(1)] by (simp add: commit_seal_def)
  note chain = verify_chain_sealed [OF sealed' below prev]
  show ?thesis
  proof (cases "delta_holds env (slot_image img) added")
    case True
    have "sealed env ?key img ((ws_len ws1, s, e) # log) t (if checkpoint_due st then 0 else Suc (ps_since st))"
      using pack_inv_below [OF assms(2)] by (rule next_sealed [OF inv(1) assms(4,7) inv(4) off assms(6) ob(1) inv(2) True inv(3)])
    note sealed1 = this
    have "recover_state env (slot_image img) ?key (length img) =
        Some (Some (state_of env ?key img (ws_len ws1, s, e) t (if checkpoint_due st then 0 else Suc (ps_since st))), False)"
      using recover_top [OF sealed1] newest by (simp add: recover_state_def)
    thus ?thesis using ob(4,5) sealed_table [OF sealed1] assms(6) by (intro disjI2) (simp add: state_of_def commit_seal_def)
  next
    case False
    have fresh: "se_checkpoint s = None" if "log = []"
    proof -
      have "ps_since st = 0" using inv(1) that by (auto elim: sealed.cases)
      thus ?thesis using assms(6) by (simp add: commit_seal_def checkpoint_due_def CHECKPOINT_EVERY_def)
    qed
    have step: "recover_state env (slot_image img) ?key (length img) = recover_loop env (slot_image img) ?key (length img)
        (Option.bind (se_prev s) (\<lambda>link. read_seal env (slot_image img) ?key (length img) (sl_offset link)))
        (se_prev s = None \<and> se_checkpoint s \<noteq> None)"
      using False chain assms(6) unfolding recover_state_def newest
      by (subst recover_loop.simps) (simp add: Let_def commit_seal_def)
    show ?thesis
    proof (cases log)
      case Nil
      hence "recover_state env (slot_image img) ?key (length img) = Some (None, False)"
        unfolding step using prev fresh by (simp add: top_link_def recover_loop.simps)
      thus ?thesis using inv(3) Nil by (simp add: recovered_as_def top_link_def)
    next
      case (Cons x rest)
      have "read_seal env (slot_image img) ?key (length img) (fst x) = Some x"
        using sealed_reads [OF sealed', of "fst x" "fst (snd x)" "snd (snd x)"] Cons by simp
      moreover have "se_prev s = Some (link_at env ?key img (fst x))" using prev Cons by (simp add: top_link_def split: prod.splits)
      moreover have "recover_loop env (slot_image img) ?key (length img) (Some x) False = Some (Some (state_of env ?key img x (sn_table ?sn) (ps_since st)), False)"
        using recover_top [of env ?key img x rest] sealed' Cons by simp
      ultimately have "recover_state env (slot_image img) ?key (length img) = Some (Some (state_of env ?key img x (sn_table ?sn) (ps_since st)), False)"
        unfolding step by (simp add: link_at_def)
      thus ?thesis using published_state [of env st ws x rest "held ws" img] assms(2,4) en(2) inv(3) Cons
        by (auto simp: recovered_as_def top_link_def split: prod.splits)
    qed
  qed
qed

text \<open>C29: A crash in the middle of a commit is recovered to the state before it or to the whole commit: every object
  of the commit and every earlier one is in the table, and all of them read with their hashes.\<close>

theorem commit_is_atomic:
  assumes "env_ok env" "pack_reach env st ws log" "\<not> ps_poisoned st"
    and "take (sn_sealed_len (ps_snapshot st)) img = take (sn_sealed_len (ps_snapshot st)) (slot_bytes ws (ws_name ws))"
    and "sn_sealed_len (ps_snapshot st) \<le> length img"
    and "genuine env (ps_key st) img (set log \<union> in_flight env objects manifest st ws)"
  shows "recovered_as st (recover_state env (slot_image img) (ps_key st) (length img)) \<or>
    (\<exists>state. recover_state env (slot_image img) (ps_key st) (length img) = Some (Some state, False)
      \<and> ss_sequence state = Suc (sn_sequence (ps_snapshot st)) \<and> ss_manifest state = manifest
      \<and> (\<forall>b\<in>set objects. map_of (ss_table state) (pk_hash env b) \<noteq> None)
      \<and> map_of (sn_table (ps_snapshot st)) \<subseteq>\<^sub>m map_of (ss_table state) \<and> table_holds env img (ss_table state))"
proof (cases "genuine env (ps_key st) img (set log)")
  case True
  show ?thesis using acknowledged_commits_survive_inv [OF assms(1,2,4,5) True] by blast
next
  case False
  note inv = reach_inv [OF assms(2,1)]
  note e = pack_inv_at_end [OF inv assms(3)]
  obtain offset x where x: "HEADER_LEN \<le> offset" "read_seal env (slot_image img) (ps_key st) (length img) offset = Some x" "x \<notin> set log"
    using False unfolding genuine_def by blast
  hence "x \<in> in_flight env objects manifest st ws" using assms(6) unfolding genuine_def by blast
  then obtain t added ws1 e' where f: "append_objects env (ps_key st) objects (sn_table (ps_snapshot st)) [] ws = (Inr (t, added), ws1)"
    "x = (ws_len ws1, commit_seal st (Suc (sn_sequence (ps_snapshot st))) t added manifest, e')"
    by (auto simp: in_flight_def split: prod.splits sum.splits)
  have "offset = ws_len ws1" using read_seal_magic(3) [OF x(2)] f(2) by simp
  hence r: "read_seal env (slot_image img) (ps_key st) (length img) (ws_len ws1) = Some x" using x(2) by simp
  have "genuine env (ps_key st) img (set log \<union> {x})"
    unfolding genuine_def
  proof (intro allI impI)
    fix o' y assume y: "HEADER_LEN \<le> o'" "read_seal env (slot_image img) (ps_key st) (length img) o' = Some y"
    hence "y \<in> set log \<union> in_flight env objects manifest st ws" using assms(6) unfolding genuine_def by blast
    moreover have "y = x" if "y \<in> in_flight env objects manifest st ws"
      using that f(1) read_seal_magic(3) [OF y(2)] y(2) r by (auto simp: in_flight_def)
    ultimately show "y \<in> set log \<union> {x}" by blast
  qed
  hence genuine: "genuine env (ps_key st) img (set log \<union> {(ws_len ws1, commit_seal st (Suc (sn_sequence (ps_snapshot st))) t added manifest, e')})"
    unfolding f(2) .
  have "length (held ws) = sn_sealed_len (ps_snapshot st)" using e(1,3) by (simp add: at_end_def)
  hence "take (length (held ws)) img = held ws" using assms(4) e(2) by (simp add: held_def)
  thus ?thesis using in_flight_recovers [OF assms(1) inv assms(3) _ f(1) refl r [unfolded f(2)] genuine] by blast
qed

text \<open>C30: Opening a store after a crash that keeps its sealed bytes, with no failure of the medium, returns a store
  with the published snapshot, manifest, sequence and last seal, not poisoned, over a slot cut back to the
  sealed bytes; every object of the table reads with its hash, and the store is one of the reachable ones
  again.\<close>

theorem reopening_restores:
  assumes "env_ok env" "pack_reach env st ws log" "crash_of env st ws log after" "ps_last_seal st \<noteq> None" "quiet after"
  shows "\<exists>st' ws'. pack_open env salt (ps_prefix st) after = Some (Inr st', ws') \<and>
    ps_snapshot st' = ps_snapshot st \<and> ps_manifest st' = ps_manifest st \<and> ps_last_seal st' = ps_last_seal st \<and> \<not> ps_poisoned st' \<and>
    slot_bytes ws' (ws_name ws) = take (sn_sealed_len (ps_snapshot st)) (slot_bytes ws (ws_name ws)) \<and>
    (\<forall>hash\<in>dom (map_of (sn_table (ps_snapshot st'))). \<exists>x. view_read env ws' (ps_snapshot st') hash = Inr x \<and> pk_hash env x = hash) \<and>
    pack_reach env st' ws' log"
proof -
  obtain pv ws' where o: "pack_open env salt (ps_prefix st) after = Some (Inr (st\<lparr>ps_graveyard := [], ps_provenance := pv, ps_poisoned := False\<rparr>), ws')"
    (is "_ = Some (Inr ?st, _)")
    "slot_bytes ws' (ws_name ws) = take (sn_sealed_len (ps_snapshot st)) (slot_bytes ws (ws_name ws))" "ws_unreadable ws' = (\<lambda>_ _ _. None)"
    by (rule reopens [OF reach_inv [OF assms(2,1)] assms(3-5)])
  have reach: "pack_reach env ?st ws' log" by (rule pack_reach.reopened [OF assms(2-5) o(1)])
  have "\<exists>x. view_read env ws' (ps_snapshot ?st) hash = Inr x \<and> pk_hash env x = hash" if "hash \<in> dom (map_of (sn_table (ps_snapshot ?st)))" for hash
    using that by (intro inv_reads [OF reach_inv [OF reach assms(1)] _ o(3)]) auto
  thus ?thesis using o(1,2) reach by (intro exI [of _ ?st] exI [of _ ws']) simp
qed

text \<open>C33: When every read past the header of its only slot fails, opening a store of the first generation does not
  fail: it takes the slot for one without a seal, removes it and founds an empty store, so that everything
  the store had acknowledged is gone.\<close>

theorem scan_error_erases:
  assumes "env_ok env" "pack_reach env st ws log" "ps_generation st = 0" "checked_name (ws_name ws)"
    and "ws_slots after = [(ws_name ws, slot_bytes ws (ws_name ws))]" "ws_io after = []"
    and "ws_unreadable after = (\<lambda>name offset n. if HEADER_LEN \<le> offset then Some k else None)"
    and "length salt = SALT_LEN"
  shows "\<exists>st' ws'. pack_open env (Some salt) (ps_prefix st) after = Some (Inr st', ws') \<and> ps_last_seal st' = None \<and> ps_manifest st' = None \<and>
    sn_table (ps_snapshot st') = [] \<and> slot_bytes ws' (ws_name ws) = slot_header salt (ws_name ws)"
proof -
  let ?name = "ws_name ws" and ?img = "slot_bytes ws (ws_name ws)" and ?n = "sn_sealed_len (ps_snapshot st)"
  note inv = reach_inv [OF assms(2,1)]
  have h: "headed env (ps_key st) ?name (take ?n (held ws))" "HEADER_LEN \<le> ?n" "?n \<le> length (held ws)" "?name = slot_name (ps_prefix st) 0"
    using inv assms(3) unfolding pack_inv_defs by (blast, blast, blast, simp)
  then obtain salt0 where s0: "length salt0 = SALT_LEN" "length ?name \<le> HEADER_NAME_CAPACITY" "take HEADER_LEN ?img = slot_header salt0 ?name"
    by (auto simp: headed_def held_def min_absorb1)
  let ?ws = "after\<lparr>ws_name := ?name, ws_len := length ?img\<rparr>"
  have rd: "read_at ?ws ?name = (\<lambda>offset n. if HEADER_LEN \<le> offset then Inl k else slot_image ?img offset n)"
    using assms(5,7) by (auto simp: read_at_def slot_image_def slot_bytes_def fun_eq_iff)
  have len: "HEADER_LEN \<le> length ?img" using h(2,3) by (simp add: held_def)
  have newest: "newest_seal env (read_at ?ws ?name) key (length ?img) = None" for key
    unfolding newest_seal_def rd using len by (subst newest_loop.simps) (simp add: Let_def)
  have "read_at ?ws ?name 0 64 = Inr (slot_header salt0 ?name)"
    using s0(3) len by (simp add: rd slot_image_def HEADER_LEN_def)
  hence rec: "recover_slot env ?name (read_at ?ws ?name) (length ?img) =
      Some (Inr \<lparr>rs_name = ?name, rs_len = length ?img, rs_key = pk_derive env salt0, rs_state = None, rs_torn_birth = False\<rparr>)"
    using header_fields [OF s0(1,2)] len newest by (simp add: recover_slot_def recover_state_def recover_loop.simps)
  have family: "slot_family (ps_prefix st) after = (Inr [?name], after)"
    using assms(5,6) h(4) in_family_slot_name
    by (simp add: slot_family_def wr_then_def wr_io_def slot_names_def outcome_def wr_return_def)
  have "wr_io OpOpen (open_slot ?name) after = (Inr (), ?ws)"
    using assms(4,5,6) by (simp add: wr_io_def open_slot_def outcome_def slot_bytes_def)
  hence all: "recover_all env [?name] after =
      Some (Inr [\<lparr>rs_name = ?name, rs_len = length ?img, rs_key = pk_derive env salt0, rs_state = None, rs_torn_birth = False\<rparr>], ?ws)"
    using rec by (simp add: try_then_def)
  have gone: "try_remove ?name ?ws = ?ws\<lparr>ws_slots := []\<rparr>"
    using assms(4,5,6) by (simp add: try_remove_def remove_slot_def outcome_def)
  have opened: "pack_open env (Some salt) (ps_prefix st) after = Some (found_pack env (Some salt) (ps_prefix st) (?ws\<lparr>ws_slots := []\<rparr>))"
    using family all gone by (simp add: pack_open_def elect_def del: recover_all.simps)
  let ?fresh = "?ws\<lparr>ws_slots := [(?name, slot_header salt ?name)], ws_len := HEADER_LEN\<rparr>"
  have "init_slot env (Some salt) ?name (?ws\<lparr>ws_slots := []\<rparr>) = (Inr (pk_derive env salt), ?fresh)"
    using assms(4,6) s0(2) length_slot_header [OF assms(8) s0(2)]
    by (simp add: init_slot_def wr_then_def wr_io_def wr_return_def open_slot_def sw_append_def sw_flush_def outcome_def put_slot_def slot_bytes_def
        write_all_at_def add64_def Let_def HEADER_LEN_def)
  thus ?thesis unfolding opened using h(4) by (simp add: found_pack_def wr_then_def wr_return_def slot_bytes_def)
qed

text \<open>C31: A commit that is acknowledged has the next sequence, and every object of it, as every object committed
  before, is read back by its hash from the snapshot it publishes.\<close>

theorem committed_objects_read_back:
  assumes "env_ok env" "pack_reach env st ws log" "pack_commit env objects manifest st ws = (Inr sequence, st', ws')"
    and "ws_unreadable ws' = (\<lambda>_ _ _. None)"
  shows "sequence = Suc (sn_sequence (ps_snapshot st)) \<and> sn_sequence (ps_snapshot st') = sequence \<and> ps_manifest st' = Some manifest \<and>
    (\<forall>hash\<in>pk_hash env ` set objects \<union> dom (map_of (sn_table (ps_snapshot st))).
      \<exists>x. view_read env ws' (ps_snapshot st') hash = Inr x \<and> pk_hash env x = hash)"
proof -
  have np: "\<not> ps_poisoned st" using assms(3) by (auto simp: pack_commit_def)
  have t: "try_commit env objects manifest st ws = (Inr (sequence, st'), ws')"
    using assms(3) np by (auto simp: pack_commit_def settle_def split: prod.splits sum.splits pack_failure.splits)
  note c = committed_state [OF assms(1) reach_inv [OF assms(2,1)] np t]
  have "\<exists>x. view_read env ws' (ps_snapshot st') hash = Inr x \<and> pk_hash env x = hash"
    if "map_of (sn_table (ps_snapshot st')) hash \<noteq> None" for hash
    using inv_reads [OF c(1,7) assms(4)] that by blast
  moreover have "map_of (sn_table (ps_snapshot st')) hash \<noteq> None"
    if "hash \<in> pk_hash env ` set objects \<union> dom (map_of (sn_table (ps_snapshot st)))" for hash
    using that c(5,6) map_le_implies_dom_le [OF c(6)] by auto
  ultimately show ?thesis using c(2-4) by blast
qed

text \<open>C32: Compaction keeps the sequence and the manifest, and exactly the live objects, each of which reads the same
  bytes as before; an object that is not live is missing.\<close>

theorem compaction_keeps_live_objects:
  assumes "env_ok env" "pack_reach env st ws log" "length salt = SALT_LEN" "ps_last_seal st \<noteq> None"
    and "pack_compact env (Some salt) live pinned st ws = (Inr (), st', ws')" "ws_unreadable ws' = (\<lambda>_ _ _. None)"
  shows "sn_sequence (ps_snapshot st') = sn_sequence (ps_snapshot st) \<and> ps_manifest st' = ps_manifest st \<and>
    (\<forall>hash. view_read env ws' (ps_snapshot st') hash =
      (if live hash then view_read env ws (ps_snapshot st) hash else Inl (Integrity MissingObject)))"
proof -
  note c = compacted [OF assms(1) reach_inv [OF assms(2,1)] assms(3-5)]
  have "view_read env ws' (ps_snapshot st') hash = (if live hash then view_read env ws (ps_snapshot st) hash else Inl (Integrity MissingObject))" for hash
  proof (cases "hash \<in> dom (map_of (sn_table (ps_snapshot st')))")
    case True
    hence live: "live hash" using c(3) by auto
    obtain x off where x: "view_read env ws (ps_snapshot st) hash = Inr x" "map_of (sn_table (ps_snapshot st')) hash = Some (off, length x)"
      "length x < 2 ^ 64 - 1" "slot_image (held ws') off (length x) = Inr x"
      using c(4) True unfolding copied_def by blast
    have "read_at ws' (ws_name ws') off (length x) = Inr x" using x(4) read_at_image [of ws' "ws_name ws'"] assms(6) by (simp add: held_def)
    thus ?thesis using x live c(7) view_read_hash [OF x(1)] by (simp add: view_read_def read_bounded_def)
  next
    case False
    hence "view_read env ws' (ps_snapshot st') hash = Inl (Integrity MissingObject)"
      by (auto simp: view_read_def read_bounded_def split: option.splits)
    moreover have "view_read env ws (ps_snapshot st) hash = Inl (Integrity MissingObject)" if "live hash"
      using False that c(3) by (auto simp: view_read_def read_bounded_def split: option.splits)
    ultimately show ?thesis by simp
  qed
  thus ?thesis using c(5,6) by blast
qed

end
