(* ===== verification/PackSample.thy ===== *)
theory PackSample
  imports PackCrash
begin

text \<open>
  A concrete store: founded on an empty medium, one object committed, compacted once, with a codec of the two
  seals it writes and a constant keyed hash. It shows that the hypotheses of the theorems of \<open>PackCrash\<close> can be
  met.
\<close>

definition sample_entry :: table_entry where "sample_entry = \<lparr>te_hash = ''x'', te_offset = 72, te_len = 1\<rparr>"

definition sample_commit :: seal where
  "sample_commit = \<lparr>se_sequence = 1, se_generation = 0, se_prev = None, se_added = [sample_entry], se_checkpoint = None,
     se_provenance = None, se_manifest = ''m''\<rparr>"

definition sample_birth :: seal where
  "sample_birth = \<lparr>se_sequence = 1, se_generation = 1, se_prev = None, se_added = [], se_checkpoint = Some [sample_entry],
     se_provenance = None, se_manifest = ''m''\<rparr>"

definition sample_env :: pack_env where
  "sample_env = \<lparr>pk_hash = \<lambda>b. b, pk_keyed = \<lambda>_ _. replicate 32 (CHR ''!''), pk_derive = \<lambda>salt. salt,
     pk_encode = \<lambda>s. if s = sample_commit then Some ''A'' else if s = sample_birth then Some ''B'' else None,
     pk_decode = \<lambda>b. if b = ''A'' then Some sample_commit else if b = ''B'' then Some sample_birth else None\<rparr>"

definition sample_salt :: bytes where "sample_salt = replicate 16 (CHR ''s'')"

definition sample_medium :: writer_state where
  "sample_medium = \<lparr>ws_slots = [], ws_unreadable = \<lambda>_ _ _. None, ws_io = [], ws_name = [], ws_len = 0\<rparr>"

definition sample_header :: "string \<Rightarrow> bytes" where "sample_header name = slot_header sample_salt name"

definition sample_check :: bytes where "sample_check = replicate 16 (CHR ''!'')"

definition sample_object :: bytes where "sample_object = ''lpo1'' @ le_bytes 4 1 @ ''x'' @ sample_check"

definition sample_fresh :: pack_store where
  "sample_fresh = \<lparr>ps_prefix = ''hot'', ps_key = sample_salt,
     ps_snapshot = \<lparr>sn_generation = ''hot-0'', sn_table = [], sn_sealed_len = 64, sn_sequence = 0\<rparr>,
     ps_graveyard = [], ps_generation = 0, ps_last_seal = None, ps_since = 0, ps_provenance = None, ps_manifest = None,
     ps_poisoned = False\<rparr>"

definition sample_founded :: writer_state where
  "sample_founded = sample_medium\<lparr>ws_slots := [(''hot-0'', sample_header ''hot-0'')], ws_name := ''hot-0'', ws_len := 64\<rparr>"

definition sample_store :: pack_store where
  "sample_store = sample_fresh\<lparr>
     ps_snapshot := \<lparr>sn_generation = ''hot-0'', sn_table = [(''x'', 72, 1)], sn_sealed_len = 114, sn_sequence = 1\<rparr>,
     ps_last_seal := Some \<lparr>sl_offset = 89, sl_check = sample_check\<rparr>, ps_since := 1, ps_manifest := Some ''m''\<rparr>"

definition sample_held :: bytes where
  "sample_held = sample_header ''hot-0'' @ sample_object @ ''lps1'' @ le_bytes 4 1 @ ''A'' @ sample_check"

definition sample_committed :: writer_state where
  "sample_committed = sample_medium\<lparr>ws_slots := [(''hot-0'', sample_held)], ws_name := ''hot-0'', ws_len := 114\<rparr>"

lemma sample_env_ok: "env_ok sample_env"
  by (simp add: env_ok_def sample_env_def)

lemma sample_slot_name [simp]: "slot_name ''hot'' 0 = ''hot-0''" "slot_name ''hot'' (Suc 0) = ''hot-1''"
  by code_simp+

lemma sample_lengths [simp]: "length sample_salt = 16" "length (sample_header ''hot-0'') = 64" "length (sample_header ''hot-1'') = 64" "length sample_check = 16"
   "length sample_object = 25" "length sample_held = 114"
  by (simp_all add: sample_salt_def sample_header_def sample_check_def sample_object_def sample_held_def slot_header_def SLOT_MAGIC_def HEADER_NAME_CAPACITY_def)

lemmas sample_names = checked_name_def HEADER_NAME_CAPACITY_def SALT_LEN_def

lemmas sample_run = wr_then_def wr_io_def wr_return_def wr_fail_def outcome_def sw_append_def sw_flush_def add64_def put_slot_def slot_bytes_def
  write_all_at_def Let_def

lemma sample_founds: "found_pack sample_env (Some sample_salt) ''hot'' sample_medium = (Inr sample_fresh, sample_founded)"
  by (simp add: found_pack_def init_slot_def open_slot_def sample_run sample_names sample_medium_def sample_fresh_def sample_founded_def
      sample_header_def [symmetric]) (simp add: sample_env_def)

lemma sample_record [simp]: "record_check sample_env key magic offset payload = sample_check"
  by (simp add: record_check_def sample_env_def sample_check_def CHECK_LEN_def)

lemma sample_codec [simp]: "pk_hash sample_env b = b" "pk_encode sample_env sample_commit = Some ''A''" "pk_decode sample_env ''A'' = Some sample_commit"
  "pk_encode sample_env sample_birth = Some ''B''" "pk_decode sample_env ''B'' = Some sample_birth" "pk_derive sample_env b = b"
  by (simp_all add: sample_env_def) (simp add: sample_commit_def sample_birth_def)

lemma sample_commit_seal: "commit_seal sample_fresh 1 [(''x'', 72, 1)] [sample_entry] ''m'' = sample_commit"
  by (simp add: commit_seal_def sample_fresh_def sample_commit_def checkpoint_due_def CHECKPOINT_EVERY_def)

definition sample_half :: writer_state where
  \<comment> \<open>the object is written, the seal is not\<close>
  "sample_half = sample_medium\<lparr>ws_slots := [(''hot-0'', sample_header ''hot-0'' @ sample_object)], ws_name := ''hot-0'', ws_len := 89\<rparr>"

lemma sample_objects: "append_objects sample_env sample_salt [''x''] [] [] sample_founded = (Inr ([(''x'', 72, 1)], [sample_entry]), sample_half)"
  by (simp add: append_record_def sample_run MAX_RECORD_BYTES_def sample_founded_def sample_medium_def sample_object_def OBJECT_MAGIC_def sample_entry_def sample_half_def)

lemma sample_commits: "pack_commit sample_env [''x''] ''m'' sample_fresh sample_founded = (Inr 1, sample_store, sample_committed)"
proof -
  have seal: "append_seal sample_env sample_salt sample_commit sample_half = (Inr \<lparr>sl_offset = 89, sl_check = sample_check\<rparr>, sample_committed)"
    by (simp add: append_seal_def append_record_def sample_run MAX_RECORD_BYTES_def SEAL_MAGIC_def sample_committed_def sample_medium_def sample_held_def sample_half_def)
  have fields: "ps_key sample_fresh = sample_salt" "sn_table (ps_snapshot sample_fresh) = []" "sn_generation (ps_snapshot sample_fresh) = ''hot-0''"
    "sn_sequence (ps_snapshot sample_fresh) = 0" "ps_since sample_fresh = 0" "\<not> checkpoint_due sample_fresh" "\<not> ps_poisoned sample_fresh"
    "add64 0 1 = Some 1" "flush_or_poison sample_committed = (Inr (), sample_committed)" "ws_len sample_committed = 114" "ps_provenance sample_fresh = None"
    by (simp_all add: sample_fresh_def checkpoint_due_def CHECKPOINT_EVERY_def add64_def flush_or_poison_def sw_flush_def outcome_def
        sample_committed_def sample_medium_def)
  have "sample_store = sample_fresh\<lparr>ps_snapshot := \<lparr>sn_generation = ''hot-0'', sn_table = [(''x'', 72, 1)], sn_sealed_len = 114, sn_sequence = 1\<rparr>,
     ps_last_seal := Some \<lparr>sl_offset = 89, sl_check = sample_check\<rparr>, ps_since := 1, ps_provenance := None, ps_manifest := Some ''m''\<rparr>"
    by (simp add: sample_store_def sample_fresh_def)
  hence "try_commit sample_env [''x''] ''m'' sample_fresh sample_founded = (Inr (1, sample_store), sample_committed)"
    by (simp add: try_commit_def wr_then_def fields sample_objects sample_commit_seal seal wr_return_def del: append_objects.simps One_nat_def)
  thus ?thesis by (simp add: pack_commit_def settle_def fields)
qed

lemma sample_reach: "pack_reach sample_env sample_store sample_committed [last_logged sample_env sample_store sample_committed]"
proof -
  have "pack_reach sample_env sample_fresh sample_founded []"
    by (rule pack_reach.founded [OF sample_founds]) (simp add: SALT_LEN_def)
  from pack_reach.committed [OF this sample_commits] show ?thesis by simp
qed

lemma sample_image: "sample_held @ ''zz'' = sample_header ''hot-0'' @ ''lpo1'' @ le_bytes 4 1 @ ''x'' @ sample_check @ ''lps1'' @ le_bytes 4 1 @ ''A'' @ sample_check @ ''zz''"
  by (simp add: sample_held_def sample_object_def)

lemma sample_reads: "read_seal sample_env (slot_image (sample_held @ tail)) sample_salt (114 + length tail) 89 = Some (89, sample_commit, 114)" 
  if "length tail < 10"
proof -
  have "read_record sample_env (slot_image (sample_held @ tail)) sample_salt (length (sample_held @ tail)) 89 SEAL_MAGIC = Some (''A'', 89 + 24 + length ''A'')"
    using that by (intro read_record_written [OF sample_env_ok])
      (simp_all add: SEAL_MAGIC_def MAX_RECORD_BYTES_def record_bytes_def sample_held_def)
  thus ?thesis by (simp add: read_seal_def)
qed

lemma sample_logged: "last_logged sample_env sample_store sample_committed = (89, sample_commit, 114)"
  using sample_reads [of "[]"] by (simp add: last_logged_def sample_store_def sample_fresh_def held_def sample_committed_def slot_bytes_def)

lemma sample_positions: "take 4 (drop i (sample_held @ ''zz'')) = ''lps1'' \<Longrightarrow> 64 \<le> i \<Longrightarrow> i + 24 \<le> 116 \<Longrightarrow> i = 89"
proof -
  assume a: "take 4 (drop i (sample_held @ ''zz'')) = ''lps1''" "64 \<le> i" "i + 24 \<le> 116"
  have d: "drop i (sample_held @ ''zz'') = drop (i - 64) (''lpo1'' @ le_bytes 4 1 @ ''x'' @ sample_check @ ''lps1'' @ le_bytes 4 1 @ ''A'' @ sample_check @ ''zz'')"
    unfolding sample_image using a(2) by simp
  have "\<forall>j\<in>set [0..<29]. take 4 (drop j (''lpo1'' @ le_bytes 4 1 @ ''x'' @ sample_check @ ''lps1'' @ le_bytes 4 1 @ ''A'' @ sample_check @ ''zz'')) = ''lps1''
     \<longrightarrow> j = 25" by code_simp
  hence "i - 64 = 25" using a unfolding d by simp
  thus ?thesis by simp
qed

lemma sample_genuine: "genuine sample_env sample_salt (sample_held @ ''zz'') {(89, sample_commit, 114)}"
  unfolding genuine_def
proof (intro allI impI)
  fix i x assume "HEADER_LEN \<le> i" and x: "read_seal sample_env (slot_image (sample_held @ ''zz'')) sample_salt (length (sample_held @ ''zz'')) i = Some x"
  hence "i = 89" using read_seal_magic [OF x] by (intro sample_positions) (simp_all add: SEAL_MAGIC_def HEADER_LEN_def)
  thus "x \<in> {(89, sample_commit, 114)}" using x sample_reads [of "''zz''"] by simp
qed

definition sample_successor :: pack_store where
  "sample_successor = sample_store\<lparr>ps_snapshot := \<lparr>sn_generation = ''hot-1'', sn_table = [(''x'', 72, 1)], sn_sealed_len = 114, sn_sequence = 1\<rparr>,
     ps_generation := 1, ps_last_seal := Some \<lparr>sl_offset = 89, sl_check = sample_check\<rparr>, ps_since := 0\<rparr>"

definition sample_compacted :: writer_state where
  "sample_compacted = sample_medium\<lparr>
     ws_slots := [(''hot-1'', sample_header ''hot-1'' @ sample_object @ ''lps1'' @ le_bytes 4 1 @ ''B'' @ sample_check)],
     ws_name := ''hot-1'', ws_len := 114\<rparr>"

lemma sample_view: "view_read sample_env sample_committed (ps_snapshot sample_store) ''x'' = Inr ''x''"
  by (simp add: view_read_def read_bounded_def read_at_def sample_committed_def sample_store_def sample_fresh_def sample_medium_def slot_bytes_def
      sample_held_def sample_object_def)

lemma sample_build:
  assumes "live ''x''"
  shows "build_successor sample_env (Some sample_salt) ''hot-1'' 1 live sample_store sample_committed =
    (Inr (sample_salt, 114, [(''x'', 72, 1)], \<lparr>sl_offset = 89, sl_check = sample_check\<rparr>),
     sample_compacted\<lparr>ws_slots := (''hot-0'', sample_held) # ws_slots sample_compacted\<rparr>)"
proof -
  let ?at = "\<lambda>b n. sample_medium\<lparr>ws_slots := [(''hot-0'', sample_held), (''hot-1'', b)], ws_name := ''hot-1'', ws_len := n\<rparr>"
  let ?ws0 = "?at (sample_header ''hot-1'') 64" and ?ws1 = "?at (sample_header ''hot-1'' @ sample_object) 89"
  have init: "init_slot sample_env (Some sample_salt) ''hot-1'' sample_committed = (Inr sample_salt, ?ws0)"
    by (simp add: init_slot_def open_slot_def sample_run sample_names sample_medium_def sample_committed_def sample_header_def [symmetric])
  have "view_read sample_env ?ws0 (ps_snapshot sample_store) ''x'' = Inr ''x''"
    by (simp add: view_read_def read_bounded_def read_at_def sample_store_def sample_fresh_def sample_medium_def slot_bytes_def sample_held_def sample_object_def)
  hence copy: "copy_objects sample_env sample_salt (ps_snapshot sample_store) [''x''] [] ?ws0 = (Inr [(''x'', 72, 1)], ?ws1)"
    by (simp add: append_record_def sample_run MAX_RECORD_BYTES_def sample_medium_def sample_object_def OBJECT_MAGIC_def)
  have seal: "append_seal sample_env sample_salt sample_birth ?ws1 =
      (Inr \<lparr>sl_offset = 89, sl_check = sample_check\<rparr>, sample_compacted\<lparr>ws_slots := (''hot-0'', sample_held) # ws_slots sample_compacted\<rparr>)"
    by (simp add: append_seal_def append_record_def sample_run MAX_RECORD_BYTES_def SEAL_MAGIC_def sample_compacted_def sample_medium_def)
  have birth: "\<lparr>se_sequence = 1, se_generation = 1, se_prev = None, se_added = [], se_checkpoint = Some (table_entries [(''x'', 72, 1)]),
      se_provenance = None, se_manifest = ''m''\<rparr> = sample_birth"
    by (simp add: sample_birth_def table_entries_def sample_entry_def)
  have fields: "sn_table (ps_snapshot sample_store) = [(''x'', 72, 1)]" "sn_sequence (ps_snapshot sample_store) = 1" "ps_manifest sample_store = Some ''m''"
    by (simp_all add: sample_store_def)
  have flush: "wr_io OpSync sw_flush (sample_compacted\<lparr>ws_slots := x\<rparr>) = (Inr (), sample_compacted\<lparr>ws_slots := x\<rparr>)" "ws_len sample_compacted = 114" for x
    by (simp_all add: wr_io_def sw_flush_def outcome_def sample_compacted_def sample_medium_def)
  show ?thesis using assms
    by (simp add: build_successor_def wr_then_def init fields copy birth seal flush wr_return_def del: copy_objects.simps One_nat_def)
qed

lemma sample_compacts:
  "pack_compact sample_env (Some sample_salt) (\<lambda>hash. hash = ''x'') (\<lambda>_. False) sample_store sample_committed = (Inr (), sample_successor, sample_compacted)"
proof -
  have fields: "\<not> ps_poisoned sample_store" "ps_last_seal sample_store \<noteq> None" "ps_generation sample_store = 0" "ps_prefix sample_store = ''hot''"
    "ps_graveyard sample_store = []" "sn_generation (ps_snapshot sample_store) = ''hot-0''" "sn_sequence (ps_snapshot sample_store) = 1" "add64 0 1 = Some 1"
    by (simp_all add: sample_store_def sample_fresh_def add64_def)
  have gone: "try_remove ''hot-1'' sample_committed = sample_committed"
    "try_remove ''hot-0'' (sample_compacted\<lparr>ws_slots := (''hot-0'', sample_held) # ws_slots sample_compacted\<rparr>) = sample_compacted"
    by (simp_all add: try_remove_def remove_slot_def checked_name_def outcome_def sample_committed_def sample_compacted_def sample_medium_def)
  have name: "slot_name ''hot'' 1 = ''hot-1''" by code_simp
  show ?thesis
    using sample_build [of "\<lambda>hash. hash = ''x''"] fields(2)
    by (simp add: pack_compact_def fields name gone Let_def sweep_graveyard_def sample_successor_def del: One_nat_def)
      (simp add: sample_store_def sample_fresh_def)
qed

lemma sample_unreadable: "ws_unreadable sample_committed = (\<lambda>_ _ _. None)" "ws_unreadable sample_compacted = (\<lambda>_ _ _. None)"
  by (simp_all add: sample_committed_def sample_compacted_def sample_medium_def)

lemma sample_sealed: "sn_sealed_len (ps_snapshot sample_store) = 114" "ps_key sample_store = sample_salt" "slot_bytes sample_committed (ws_name sample_committed) = sample_held"
  "sn_sealed_len (ps_snapshot sample_fresh) = 64" "ps_key sample_fresh = sample_salt" "slot_bytes sample_founded (ws_name sample_founded) = sample_header ''hot-0''"
  by (simp_all add: sample_store_def sample_fresh_def sample_committed_def sample_founded_def slot_bytes_def)

theorem acknowledged_commits_survive_witness:
  "recovered_as sample_store (recover_state sample_env (slot_image (sample_held @ ''zz'')) sample_salt 116) \<and>
   table_holds sample_env (sample_held @ ''zz'') (sn_table (ps_snapshot sample_store))"
  using acknowledged_commits_survive [OF sample_env_ok sample_reach, of "sample_held @ ''zz''"] sample_genuine
  by (simp add: sample_sealed sample_logged)

theorem commit_is_atomic_witness:
  "recovered_as sample_fresh (recover_state sample_env (slot_image (sample_held @ ''zz'')) sample_salt 116) \<or>
    (\<exists>state. recover_state sample_env (slot_image (sample_held @ ''zz'')) sample_salt 116 = Some (Some state, False)
      \<and> ss_sequence state = 1 \<and> ss_manifest state = ''m'' \<and> map_of (ss_table state) ''x'' \<noteq> None \<and> table_holds sample_env (sample_held @ ''zz'') (ss_table state))"
proof -
  have reach: "pack_reach sample_env sample_fresh sample_founded []"
    by (rule pack_reach.founded [OF sample_founds]) (simp add: SALT_LEN_def)
  have prefix: "take 64 (sample_held @ ''zz'') = sample_header ''hot-0''" by (simp add: sample_held_def)
  have "(89, sample_commit, 114) \<in> in_flight sample_env [''x''] ''m'' sample_fresh sample_founded"
  proof -
    have "ps_key sample_fresh = sample_salt" "sn_table (ps_snapshot sample_fresh) = []" "sn_sequence (ps_snapshot sample_fresh) = 0" "ws_len sample_half = 89"
      by (simp_all add: sample_fresh_def sample_half_def)
    thus ?thesis using sample_objects sample_commit_seal by (simp add: in_flight_def del: append_objects.simps)
  qed
  hence "genuine sample_env sample_salt (sample_held @ ''zz'') (in_flight sample_env [''x''] ''m'' sample_fresh sample_founded)"
    using sample_genuine unfolding genuine_def by blast
  thus ?thesis
    using commit_is_atomic [OF sample_env_ok reach, of "sample_held @ ''zz''" "[''x'']" "''m''"] prefix
    by (simp add: sample_sealed) (auto simp: sample_fresh_def)
qed

theorem committed_objects_read_back_witness:
  "\<exists>x. view_read sample_env sample_committed (ps_snapshot sample_store) ''x'' = Inr x \<and> x = ''x''"
proof -
  have reach: "pack_reach sample_env sample_fresh sample_founded []"
    by (rule pack_reach.founded [OF sample_founds]) (simp add: SALT_LEN_def)
  show ?thesis using committed_objects_read_back [OF sample_env_ok reach sample_commits sample_unreadable(1)] by simp
qed

theorem compaction_keeps_live_objects_witness:
  "view_read sample_env sample_compacted (ps_snapshot sample_successor) ''x'' = Inr ''x''"
proof -
  have "ps_last_seal sample_store \<noteq> None" "length sample_salt = SALT_LEN" by (simp_all add: sample_store_def SALT_LEN_def)
  thus ?thesis
    using compaction_keeps_live_objects [OF sample_env_ok sample_reach _ _ sample_compacts sample_unreadable(2)] sample_view by simp
qed

definition sample_after :: writer_state where
  \<comment> \<open>the medium after a crash that left two more bytes in the slot\<close>
  "sample_after = sample_medium\<lparr>ws_slots := [(''hot-0'', sample_held @ ''zz'')]\<rparr>"

theorem reopening_restores_witness:
  "\<exists>st' ws'. pack_open sample_env None ''hot'' sample_after = Some (Inr st', ws') \<and> ps_snapshot st' = ps_snapshot sample_store \<and>
    slot_bytes ws' ''hot-0'' = sample_held \<and> (\<exists>x. view_read sample_env ws' (ps_snapshot st') ''x'' = Inr x)"
proof -
  have s: "ps_prefix sample_store = ''hot''" "ws_name sample_committed = ''hot-0''" "ps_last_seal sample_store \<noteq> None" "sn_table (ps_snapshot sample_store) = [(''x'', 72, 1)]"
    "slot_bytes sample_after ''hot-0'' = sample_held @ ''zz''" "slot_bytes sample_committed ''hot-0'' = sample_held" "ws_slots sample_after = [(''hot-0'', sample_held @ ''zz'')]"
    by (simp_all add: sample_store_def sample_fresh_def sample_committed_def sample_after_def slot_bytes_def)
  have "checked_name ''hot-0''" by (simp add: checked_name_def)
  hence "crash_of sample_env sample_store sample_committed [last_logged sample_env sample_store sample_committed] sample_after"
    using sample_genuine by (simp add: crash_of_def s sample_sealed sample_logged)
  moreover have "quiet sample_after" by (simp add: quiet_def sample_after_def sample_medium_def)
  ultimately show ?thesis
    using reopening_restores [OF sample_env_ok sample_reach _ s(3), of sample_after None] unfolding s sample_sealed by (fastforce simp: s)
qed

theorem scan_error_erases_witness:
  "\<exists>st' ws'. pack_open sample_env (Some sample_salt) ''hot''
      (sample_committed\<lparr>ws_unreadable := \<lambda>name offset n. if HEADER_LEN \<le> offset then Some OtherKind else None\<rparr>) = Some (Inr st', ws') \<and>
    ps_last_seal st' = None \<and> slot_bytes ws' ''hot-0'' = sample_header ''hot-0''"
proof -
  let ?after = "sample_committed\<lparr>ws_unreadable := \<lambda>name offset n. if HEADER_LEN \<le> offset then Some OtherKind else None\<rparr>"
  have s: "ps_generation sample_store = 0" "checked_name (ws_name sample_committed)" "length sample_salt = SALT_LEN" "ws_io ?after = []"
    "ps_prefix sample_store = ''hot''" "ws_name sample_committed = ''hot-0''"
    "ws_slots ?after = [(ws_name sample_committed, slot_bytes sample_committed (ws_name sample_committed))]"
    "ws_unreadable ?after = (\<lambda>name offset n. if HEADER_LEN \<le> offset then Some OtherKind else None)"
    by (simp_all add: sample_store_def sample_fresh_def sample_committed_def sample_medium_def checked_name_def SALT_LEN_def slot_bytes_def)
  show ?thesis
    using scan_error_erases [OF sample_env_ok sample_reach s(1,2,7,4,8,3)] unfolding s(5,6) sample_header_def by blast
qed

end
