(* ===== verification/Spec2Isabelle.thy ===== *)
theory Spec2Isabelle
  imports Register AclReplay DemandCodec Directory Post Budget Schedule RadixReconcile PackSample
begin

text \<open>
  \<^bold>\<open>lait: a verification of its core.\<close>

  lait is a local-first collaboration substrate. Devices hold signed append-only histories and
  exchange them; every replica derives the current state of a space by replaying the history it
  holds. The program's own logic is in \<^verbatim>\<open>crates/mechanics\<close>: a signed hash-DAG, the actor directory
  replayed from one such DAG, the access-control plane replayed from another, the algebra of
  authorization demands the plane answers, the kinship log that ties a profile's devices together, and
  the chronicle, a Merkle log whose head readers pin. Above it are the registry of known profiles
  (\<^verbatim>\<open>crates/addressbook\<close>) and the directory, a service that mirrors published device sets under issued
  addresses and chronicles what it accepts (\<^verbatim>\<open>crates/directory\<close>). Around them are small value types
  (\<^verbatim>\<open>crates/register\<close>, \<^verbatim>\<open>crates/schedule\<close>), the journal with its content-addressed index and its pack
  log (\<^verbatim>\<open>crates/journal\<close>) and the runtime, network and product crates that host it.

  \<^bold>\<open>Theories.\<close>
  \<^item> \<open>Prelude\<close>: byte strings, results, sorted association maps and the locale \<open>ordered_map\<close>.
  \<^item> \<open>Register\<close> (\<^verbatim>\<open>crates/register/src/lib.rs\<close>): choices, overrides and slots, \<open>Slot::merge\<close> and
    \<open>resolve_at\<close>. Lemmas: the laws of merge (and when commutativity fails), convergence of replicas in
    any merge order, the announced boundary.
  \<^item> \<open>Sigdag\<close> (\<^verbatim>\<open>sigdag.rs\<close>): signed nodes, verification, ancestors, the deterministic topological order.
    Lemmas: the worklist computes transitive parents, the order is total, causal and independent of
    arrival.
  \<^item> \<open>Ids\<close> (\<^verbatim>\<open>ids.rs\<close>): ULID encoding and minting, the parsers of prefixed, device and actor ids.
  \<^item> \<open>Demand\<close>, \<open>DemandCodec\<close> (\<^verbatim>\<open>demand.rs\<close>): resources, capabilities, demands, canonical encoding and
    strict decoding; the round trip and that equal bytes mean equal demands.
  \<^item> \<open>Actor\<close> (\<^verbatim>\<open>actor.rs\<close>): device consents, inception, addition, revocation and recovery of devices,
    the replay of the directory and the replay at a frontier. Lemmas: every device is there by a
    verified event with its consent; recovery and revocation win; consents are single use; the replay
    depends on the set of events only and a frontier is final, where a log holds one node per address
    (\<open>one_per_address\<close>; why that is needed is \<open>address_ignores_borders\<close>).
  \<^item> \<open>Acl\<close>, \<open>AclState\<close>, \<open>AclReplay\<close> (\<^verbatim>\<open>acl.rs\<close>, \<^verbatim>\<open>genesis.rs\<close>): the operations, the judgement of one
    operation (\<open>judge_op\<close>) and its effect; materialization of the authorized operations with remove-wins,
    raced and revoked invites, fences and the sponsor cascade, and the evaluation of demands; the two
    replay passes, checkpoints and \<open>replay_continue\<close>. Lemmas: authority never escalates, removal wins,
    every member is seated, every fence is justified, epochs are bounded, demands are evaluated soundly
    and completely, replicas converge and continuing a checkpoint is the complete replay (both where the
    logs hold one node per address), and re-adding the only administrator ends the administration.
  \<^item> \<open>AppendLog\<close>: the locale \<open>append_only\<close>, the contract of a log that only grows within a capacity,
    interpreted on the kinship log and on the chronicle.
  \<^item> \<open>Kinship\<close> (\<^verbatim>\<open>kinship.rs\<close>, and the detached signatures of \<^verbatim>\<open>crypto.rs\<close>): links, avowals,
    retirements, audiences, heads, the log, its projections and the reader's checks. Lemmas: the
    framing is injective, so a signature binds every field; a projection of an honest log verifies and
    discloses what the audience admits; the signer of a projection is rooted exactly by links from the
    genesis.
  \<^item> \<open>Chronicle\<close> (\<^verbatim>\<open>chronicle.rs\<close>): the Merkle tree, served inclusion and consistency paths, the bit
    loops that verify them, signed heads, the reader's ratchet \<open>advance\<close>, and marks. Lemmas: the loops
    compute the roots a path stands for (\<open>rebuild\<close>, \<open>crebuild\<close>, by recursion over the tree); served
    paths verify; accepted paths prove membership and prefix unless two node hashes collide; a reader is
    always led along one history.
  \<^item> \<open>Addressbook\<close> (\<^verbatim>\<open>crates/addressbook\<close>: \<^verbatim>\<open>registry.rs\<close>, \<^verbatim>\<open>attest.rs\<close>, \<^verbatim>\<open>announce.rs\<close>): the
    registry of authored and known profiles as a state machine (\<open>reg_step\<close>), reach and portrait avowals,
    the ranking of names, announcements. Lemmas: every resolved device is vouched for by the anchored
    head, the registry never regresses, and avow, project, absorb, resolve is an exact handshake.
  \<^item> \<open>Chronicler\<close> (\<^verbatim>\<open>crates/directory/src/chronicle.rs\<close>): the cached log over a store other holders append
    to, the retrying append, receipts with marks, the chronicle surface. The others' leaves before each
    attempt are an argument, so every interleaving is covered. Lemmas: the append linearizes and settles,
    a receipt proves the publication, a pinned reader follows every later answer.
  \<^item> \<open>Address\<close> (\<^verbatim>\<open>address.rs\<close>, \<^verbatim>\<open>words.rs\<close>): parsing and minting of issued addresses over the word list.
  \<^item> \<open>Challenges\<close>: the locale \<open>single_use\<close>, the contract of a book of nonces each of which is spent once,
    interpreted on the directory's store and on the post's challenges.
  \<^item> \<open>Directory\<close> (\<^verbatim>\<open>wire.rs\<close>, \<^verbatim>\<open>store.rs\<close>, \<^verbatim>\<open>service.rs\<close>, \<^verbatim>\<open>lib.rs\<close>): signed requests over single-use
    challenges (\<open>single_use\<close>), the in-memory store, the service and
    its client calls. A request is a sequence of four kinds of effect (\<open>dir_effect\<close>), over which the
    invariant is proved by rule induction. Lemmas: what is resolved is authentic and chronicled,
    addresses are stable and exclusive, challenges are answered once, publishing then resolving gives
    the announcement back.
  \<^item> \<open>Post\<close> (\<^verbatim>\<open>crates/post\<close>): the blind carrier of sealed envelopes, its mailbox store, challenges, rate
    table and blocks, as a state machine \<open>post_step\<close> over the locale \<open>mailboxes\<close>. Lemmas: every table stays
    bounded, a mailbox is read by its owner only, a deposit leaves by its owner or by expiry, a blocked
    sender cannot tell, and deposit, fetch, acknowledge delivers.
  \<^item> \<open>Budget\<close> (\<^verbatim>\<open>crates/runtime/src/budget.rs\<close>): paces, gates, paired byte gates and the eviction ledger.
    Lemmas: a pace is a token bucket, a gate's rate bound, when a flood closes a gate and when it cannot.
  \<^item> \<open>Schedule\<close> (\<^verbatim>\<open>crates/schedule\<close>): recurring civil-time windows over a calendar library. Lemmas: an
    expansion is exactly the window's occurrences, an evaluation holds until the boundary it names, the
    boundary is the next one, overlaps are exact, and where the search for a boundary gives up.
  \<^item> \<open>RadixIndex\<close> (\<^verbatim>\<open>crates/journal/src/index.rs\<close>): the authenticated radix index, its nodes, building,
    applying changes, lookup, pages, streams, the spine and validation, over a source of nodes by hash.
    \<open>RadixNibbles\<close> has the order of keys by their nibbles and the loop over runs of one slot, \<open>RadixCodec\<close>
    what is relied on of the node codec (\<open>codec_ok\<close>) and a codec that has it. \<open>RadixBuild\<close>: applying
    changes gives the root and the nodes of a build from scratch. \<open>RadixRead\<close>: validation accepts exactly
    the canonical trees, and lookup, pages and streams answer exactly what the set holds.
    \<open>RadixReconcile\<close>: the session that compares two indexes by descent; a root commits to its set, a
    session that completes answers exactly the difference whatever it was supplied, and one that is
    supplied what it asks for completes.
  \<^item> \<open>PackLog\<close> (\<^verbatim>\<open>crates/journal/src/pack.rs\<close>, \<^verbatim>\<open>medium.rs\<close>): the pack log, an append-only store of objects by
    hash in named slots of a medium. The state is the medium with the writer's slot and length
    (\<open>writer_state\<close>) and the store (\<open>pack_store\<close>); how each coming call of the medium ends, and what a failed
    append leaves behind, is an arbitrary list in the state. Operations: founding, commit with undo and
    poisoning, migration, compaction with the sweep of retired slots, and opening, which scans back for
    the newest seal, verifies its chain, elects a slot and cuts its tail. \<open>LittleEndian\<close> has the integers of
    its records. \<open>PackImage\<close>: what of a record survives in the bytes a crash leaves, and that the windowed
    scan finds the last record that verifies. \<open>PackSeals\<close>: chains of seals (\<open>sealed\<close>) and what recovery makes
    of them. \<open>PackCommit\<close>, \<open>PackLife\<close>, \<open>PackReopen\<close>: the invariant \<open>pack_inv\<close> through commits, founding,
    migration, compaction and reopening, for every outcome of the medium, and \<open>pack_reach\<close>, the states of a
    store's life, in which a crash may leave a commit in flight landed but unacknowledged. \<open>PackCrash\<close>: acknowledged commits survive, commits are atomic, reopening restores what was
    published, objects read back, compaction keeps what is live, and a read error at opening erases.
    \<open>PackSample\<close> is a concrete store at which these are applied. That no bytes but the writer's seals
    verify as seals (\<open>genuine\<close>) is the hypothesis on the keyed hash.

  \<^bold>\<open>State and effects.\<close> A struct is a record, an enum a datatype, \<open>Result\<close> a sum with the refusal on
  the left, and every early return is a branch. A \<open>BTreeMap\<close> is a strictly sorted association list, a
  \<open>HashMap\<close> an association list whose order stands for the unspecified iteration order; theorems about
  replays therefore hold for every such order. \<open>u64\<close> and \<open>u16\<close> values are words, or naturals checked
  against \<open>2 ^ 64\<close> where the code uses checked arithmetic; \<open>usize\<close> lengths are naturals. Device ids are compared by their lower-case form (\<open>device_key\<close>), as \<open>PartialEq for DeviceId\<close>
  does.

  \<^bold>\<open>What is a parameter.\<close> BLAKE3, ed25519, hex and the postcard codecs are third-party code: the records
  \<open>crypto\<close> and \<open>kin_env\<close> and the codecs of the operation types carry them, and the hypotheses that some
  theorems make about them (a seed's signature verifies under its key; no two pairs among the hashed
  ones collide; a log holds one node per address, which the ledger's map by address gives) are named in their statements and satisfied by the concrete instances of the witnesses.

  \<^bold>\<open>Bounds.\<close> One definition takes fuel, \<open>kahn\<close> of \<open>Sigdag\<close>: the number of nodes, which is always enough,
  as every round emits a node (\<open>kahn_fuel_enough\<close>). The other loops are structural or have a termination proof (the worklists
  of \<open>Sigdag\<close> by the unvisited nodes, the append of \<open>Chronicler\<close> by the races left, \<open>reach_loop\<close> of \<open>Kinship\<close> by the devices not yet reached, the
  Merkle recursions by the number of leaves, the shift loops by the counter, the walks of \<open>RadixIndex\<close> by
  the depth left below \<open>MAX_DEPTH\<close>, the chain of seals by their sequences, the scan for a seal by the window's
  end). One loop, the step back over seals that do not verify (\<open>recover_loop\<close>), is bounded in the code by
  nothing but the links it reads: it is a partial function, and the theorems show that it returns.

  \<^bold>\<open>Not modelled.\<close> The runtime and replica crates (asynchronous hosts over tokio, iroh and the Loro
  CRDT library), threshold cryptography and custody (elliptic-curve libraries), ledger storage, the journal's store above the
  pack log with its prior formats, its browser medium and pool headers, the products, the daemon and the user interfaces; the manifest lists each with its reason.
\<close>

end
